(* ===== verification/Wibo_Prelude.thy ===== *)
theory Wibo_Prelude
  imports "HOL-Library.Word"
begin

unbundle bit_operations_syntax

text \<open>
  Shared material of the development: the names of the machine types of
  \<^verbatim>\<open>src/src/types.h\<close>, the collections of simplification and introduction rules the
  component theories fill, and the generic facts on lists, words and transition
  systems that several components use.
\<close>

section \<open>Machine types and collections\<close>

type_synonym u8 = "8 word"
type_synonym u16 = "16 word"
type_synonym u32 = "32 word"
type_synonym u64 = "64 word"

text \<open>\<^verbatim>\<open>using HANDLE = int\<close>: 32 bits in every build; \<open>sint\<close> reads it as the code's int.\<close>

type_synonym HANDLE = "32 word"

named_theorems handle_simps \<open>rewriting facts of the handle table\<close>
named_theorems inv_intros \<open>operations preserve their component's invariant\<close>
named_theorems lock_simps \<open>rewriting facts of the lock protocols\<close>

section \<open>Lists\<close>

lemma filter_update_count:
  assumes "i < length xs"
  shows "length (filter P (xs[i := x])) + (if P (xs ! i) then 1 else 0)
         = length (filter P xs) + (if P x then 1 else 0)"
  using assms
proof (induction xs arbitrary: i)
  case Nil
  then show ?case by simp
next
  case (Cons y ys)
  show ?case
  proof (cases i)
    case 0
    then show ?thesis by simp
  next
    case (Suc j)
    with Cons.prems have "j < length ys" by simp
    from Cons.IH [OF this] Suc show ?thesis by simp
  qed
qed

lemma last_in_set_butlast_or: "xs \<noteq> [] \<Longrightarrow> set xs = insert (last xs) (set (butlast xs))"
  by (metis append_butlast_last_id insert_is_Un list.simps(15) rotate1.simps(2) set_rotate1)

lemma distinct_butlast_last: "distinct xs \<Longrightarrow> xs \<noteq> [] \<Longrightarrow> last xs \<notin> set (butlast xs)"
  by (metis append_butlast_last_id distinct_append disjoint_iff list.set_intros(1))

lemma sum_fun_upd_nat:
  fixes F :: "'b \<Rightarrow> nat"
  assumes "finite A" "t \<in> A"
  shows "(\<Sum>x\<in>A. F (f x)) + F v = F (f t) + (\<Sum>x\<in>A. F ((f(t := v)) x))"
proof -
  have "(\<Sum>x\<in>A - {t}. F ((f(t := v)) x)) = (\<Sum>x\<in>A - {t}. F (f x))"
    by (rule sum.cong) auto
  with assms show ?thesis by (simp add: sum.remove [of A t])
qed

section \<open>Words\<close>

text \<open>The unsigned reading of 32-bit arithmetic, for the cases where nothing wraps.\<close>

lemma unat_minus_1_u32 [simp]: "unat (- 1 :: u32) = 4294967295"
  by (simp add: unsigned_minus_1_eq_mask mask_eq_exp_minus_1)

lemma unat_u32_less: "unat (w :: u32) < 4294967296"
  using unsigned_less [of w] by simp

lemma unat_add_u32: "unat (a :: u32) + unat b < 4294967296 \<Longrightarrow> unat (a + b) = unat a + unat b"
  by (simp add: unat_word_ariths)

lemma unat_drop_bit_2: "unat (drop_bit 2 (w :: u32)) = unat w div 4"
  by (simp only: unat_drop_bit_eq) (simp add: drop_bit_eq_div)

lemma and_3_zero_iff: "(w :: u32) AND 3 = 0 \<longleftrightarrow> unat w mod 4 = 0"
  using and_mask_dvd_nat [of 2 w] by (simp add: mask_eq_exp_minus_1 dvd_eq_mod_eq_0)

lemma odd_div_top_bit: "(n :: nat) < 4294967296 \<Longrightarrow> odd (n div 2147483648) \<longleftrightarrow> 2147483648 \<le> n"
proof -
  assume n: "n < 4294967296"
  show ?thesis
  proof (cases "2147483648 \<le> n")
    case True
    with n have "n div 2147483648 = 1" by simp
    with True show ?thesis by simp
  next
    case False
    then show ?thesis by simp
  qed
qed

lemma sint_neg_u32: "sint (w :: u32) < 0 \<longleftrightarrow> 2147483648 \<le> unat w"
proof -
  have "sint w < 0 \<longleftrightarrow> bit w 31" using bit_last_iff [of w] by simp
  also have "\<dots> \<longleftrightarrow> bit (unat w) 31" by (simp add: bit_unsigned_iff)
  also have "\<dots> \<longleftrightarrow> odd (unat w div 2147483648)" by (simp add: bit_iff_odd)
  also have "\<dots> \<longleftrightarrow> 2147483648 \<le> unat w"
    using odd_div_top_bit [OF unat_u32_less [of w]] by simp
  finally show ?thesis .
qed

lemma sint_nonneg_u32: "0 \<le> sint (w :: u32) \<longleftrightarrow> unat w < 2147483648"
  using sint_neg_u32 [of w] by linarith

lemma unat_plus1_u32: "unat (w :: u32) < 4294967295 \<Longrightarrow> unat (w + 1) = unat w + 1"
  by (simp add: unat_add_u32)

section \<open>Transition systems\<close>

text \<open>
  The states a system can reach from its initial states; the concurrent components
  (critical sections, slim reader/writer locks, one-time initialisation) and the
  sequences of calls on a table are both instances.
\<close>

inductive reach :: "('s \<Rightarrow> bool) \<Rightarrow> ('s \<Rightarrow> 's \<Rightarrow> bool) \<Rightarrow> 's \<Rightarrow> bool"
  for init :: "'s \<Rightarrow> bool" and step :: "'s \<Rightarrow> 's \<Rightarrow> bool" where
  reach_init: "init s \<Longrightarrow> reach init step s"
| reach_step: "reach init step s \<Longrightarrow> step s t \<Longrightarrow> reach init step t"

locale inductive_invariant =
  fixes init :: "'s \<Rightarrow> bool" and step :: "'s \<Rightarrow> 's \<Rightarrow> bool" and invar :: "'s \<Rightarrow> bool"
  assumes init_invar: "init s \<Longrightarrow> invar s"
    and step_invar: "invar s \<Longrightarrow> step s t \<Longrightarrow> invar t"
begin

lemma reach_invar: "reach init step s \<Longrightarrow> invar s"
  by (induction rule: reach.induct) (auto intro: init_invar step_invar)

lemma reach_safe:
  assumes "\<And>s. invar s \<Longrightarrow> good s" and "reach init step s"
  shows "good s"
  using assms reach_invar by blast

end

end
