(* ===== verification/Handle_Table.thy ===== *)
theory Handle_Table
  imports Wibo_Prelude "HOL-Library.Multiset"
begin

unbundle bit_operations_syntax

text \<open>
  The object manager of \<^verbatim>\<open>src/src/handles.h\<close> and \<^verbatim>\<open>src/src/handles.cpp\<close>: reference-counted
  kernel objects (\<^verbatim>\<open>ObjectBase\<close>, \<^verbatim>\<open>Pin\<close>) and the table \<^verbatim>\<open>Handles\<close> that gives guests
  32-bit handles for them. Objects live in a store from addresses to their headers; an
  address without an entry is a deleted object. The theory holds the model, the
  well-formedness of the table and of the reference counts, the abstract view of the
  table as a finite map from handles, and the behaviour of every operation on it.
\<close>

section \<open>Objects and reference counts\<close>

datatype ObjectType =
    File | Directory | Mapping | Process | Token | Mutex | Event | Semaphore
  | Thread | Heap | RegistryKey | NamedPipe | NamedPipeState

record ObjectBase =
  otype :: ObjectType
  oflags :: u16
  pointerCount :: u32
  handleCount :: u32

definition Of_Waitable :: u16 where "Of_Waitable = 1"
definition Of_FsObject :: u16 where "Of_FsObject = 2"
definition Of_File :: u16 where "Of_File = 4"

type_synonym objptr = nat
type_synonym store = "objptr \<rightharpoonup> ObjectBase"

text \<open>A new object: \<^verbatim>\<open>ObjectBase(t)\<close> with both counters zero.\<close>

definition new_object :: "ObjectType \<Rightarrow> u16 \<Rightarrow> ObjectBase" where
  "new_object t fl = \<lparr>otype = t, oflags = fl, pointerCount = 0, handleCount = 0\<rparr>"

text \<open>
  \<^verbatim>\<open>detail::ref\<close> and \<^verbatim>\<open>detail::deref\<close>. Following a pointer to a deleted object is undefined
  in the source; the model leaves the store alone there, and the invariant below shows
  that it does not happen.
\<close>

definition ref :: "objptr \<Rightarrow> store \<Rightarrow> store" where
  "ref p os = (case os p of None \<Rightarrow> os
     | Some ob \<Rightarrow> os(p \<mapsto> ob\<lparr>pointerCount := pointerCount ob + 1\<rparr>))"

definition deref :: "objptr \<Rightarrow> store \<Rightarrow> store" where
  "deref p os = (case os p of None \<Rightarrow> os
     | Some ob \<Rightarrow> if pointerCount ob = 1 then os(p := None)
                 else os(p \<mapsto> ob\<lparr>pointerCount := pointerCount ob - 1\<rparr>))"

text \<open>\<^verbatim>\<open>make_pin<T>\<close>: the object is created at a free address and pinned once.\<close>

definition make_pin :: "objptr \<Rightarrow> ObjectType \<Rightarrow> u16 \<Rightarrow> store \<Rightarrow> store" where
  "make_pin p t fl os = ref p (os(p \<mapsto> new_object t fl))"

section \<open>The handle table\<close>

record HandleMeta =
  grantedAccess :: u32
  mflags :: u32
  typeCache :: ObjectType
  generation :: u16

record Entry =
  obj :: "objptr option"
  meta :: HandleMeta

record Handles =
  mSlots :: "Entry list"
  mFreeBelow :: "nat list"
  mFreeAbove :: "nat list"
  mQuarantine :: "nat list"
  nextIndex :: nat

record HState =
  objects :: store
  table :: Handles

definition HANDLE_FLAG_INHERIT :: u32 where "HANDLE_FLAG_INHERIT = 1"
definition HANDLE_FLAG_PROTECT_FROM_CLOSE :: u32 where "HANDLE_FLAG_PROTECT_FROM_CLOSE = 2"
definition DUPLICATE_CLOSE_SOURCE :: u32 where "DUPLICATE_CLOSE_SOURCE = 1"
definition DUPLICATE_SAME_ACCESS :: u32 where "DUPLICATE_SAME_ACCESS = 2"
definition NO_HANDLE :: HANDLE where "NO_HANDLE = 0"

definition kCompatMaxIndex :: nat where "kCompatMaxIndex = 0x7FFF div 4 - 1"
definition kQuarantineLen :: nat where "kQuarantineLen = 64"

text \<open>\<^verbatim>\<open>emplace_back()\<close> and \<^verbatim>\<open>e = {}\<close> give the zero entry; enumerator 0 is \<^verbatim>\<open>File\<close>.\<close>

definition zero_meta :: HandleMeta where
  "zero_meta = \<lparr>grantedAccess = 0, mflags = 0, typeCache = File, generation = 0\<rparr>"

definition empty_entry :: Entry where
  "empty_entry = \<lparr>obj = None, meta = zero_meta\<rparr>"

definition empty_table :: Handles where
  "empty_table = \<lparr>mSlots = [], mFreeBelow = [], mFreeAbove = [], mQuarantine = [], nextIndex = 0\<rparr>"

definition indexOf :: "HANDLE \<Rightarrow> u32" where
  "indexOf h = (if h = 0 \<or> h AND (push_bit 2 1 - 1) \<noteq> 0 then - 1 else drop_bit 2 h - 1)"

definition makeHandle :: "u32 \<Rightarrow> HANDLE" where
  "makeHandle index = push_bit 2 (index + 1)"

definition isPseudo :: "HANDLE \<Rightarrow> bool" where
  "isPseudo h \<longleftrightarrow> sint h < 0"

text \<open>\<^verbatim>\<open>Handles::clear\<close>, with the lists it resets and the one it leaves.\<close>

definition clear :: "'a HState_scheme \<Rightarrow> 'a HState_scheme" where
  "clear s = s\<lparr>objects := fold (\<lambda>e os. case obj e of None \<Rightarrow> os | Some p \<Rightarrow> deref p os)
                            (mSlots (table s)) (objects s),
              table := (table s)\<lparr>mSlots := [], mFreeBelow := [], mFreeAbove := [], nextIndex := 0\<rparr>\<rparr>"

text \<open>The four ways \<^verbatim>\<open>Handles::alloc\<close> finds an index, in the order of the source.\<close>

definition alloc_index :: "Handles \<Rightarrow> nat \<times> Handles" where
  "alloc_index t =
     (if nextIndex t \<le> kCompatMaxIndex then
        (let idx = nextIndex t; t' = t\<lparr>nextIndex := idx + 1\<rparr> in
         (idx, if idx \<ge> length (mSlots t) then t'\<lparr>mSlots := mSlots t @ [empty_entry]\<rparr> else t'))
      else if mFreeBelow t \<noteq> [] then
        (last (mFreeBelow t), t\<lparr>mFreeBelow := butlast (mFreeBelow t)\<rparr>)
      else if mFreeAbove t \<noteq> [] then
        (last (mFreeAbove t), t\<lparr>mFreeAbove := butlast (mFreeAbove t)\<rparr>)
      else (unat (word_of_nat (length (mSlots t)) :: u32), t\<lparr>mSlots := mSlots t @ [empty_entry]\<rparr>))"

text \<open>
  \<^verbatim>\<open>Handles::alloc\<close>. The argument is a pin whose reference moves into the entry, so the
  pointer count does not change.
\<close>

definition alloc :: "objptr \<Rightarrow> u32 \<Rightarrow> u32 \<Rightarrow> 'a HState_scheme \<Rightarrow> HANDLE \<times> 'a HState_scheme" where
  "alloc p access fl s =
     (let (idx, t) = alloc_index (table s);
          e = mSlots t ! idx;
          ty = (case objects s p of Some ob \<Rightarrow> otype ob | None \<Rightarrow> File);
          gen = (if generation (meta e) = 0 then 1 else generation (meta e));
          e' = \<lparr>obj = Some p,
                meta = \<lparr>grantedAccess = access, mflags = fl, typeCache = ty, generation = gen\<rparr>\<rparr>;
          os = (case objects s p of None \<Rightarrow> objects s
                | Some ob \<Rightarrow> (objects s)(p \<mapsto> ob\<lparr>handleCount := handleCount ob + 1\<rparr>))
      in (makeHandle (word_of_nat idx),
          s\<lparr>objects := os, table := t\<lparr>mSlots := (mSlots t)[idx := e']\<rparr>\<rparr>))"

text \<open>The entry a handle denotes: the test every lookup of the source makes.\<close>

definition entry_of :: "Handles \<Rightarrow> HANDLE \<Rightarrow> (nat \<times> Entry) option" where
  "entry_of t h =
     (let idx = unat (indexOf h) in
      if idx \<ge> length (mSlots t) then None
      else if obj (mSlots t ! idx) = None then None
      else Some (idx, mSlots t ! idx))"

text \<open>\<^verbatim>\<open>Handles::get\<close>: the object and the entry's meta data, the object pinned once more.\<close>

definition get :: "HANDLE \<Rightarrow> 'a HState_scheme \<Rightarrow> (objptr \<times> HandleMeta) option \<times> 'a HState_scheme" where
  "get h s =
     (if h = NO_HANDLE \<or> isPseudo h then (None, s)
      else case entry_of (table s) h of
        None \<Rightarrow> (None, s)
      | Some (idx, e) \<Rightarrow>
          (Some (the (obj e), meta e), s\<lparr>objects := ref (the (obj e)) (objects s)\<rparr>))"

text \<open>\<^verbatim>\<open>Handles::getAs<T>\<close> for a type with a \<^verbatim>\<open>kType\<close>; a failed downcast drops the pin.\<close>

definition getAs :: "ObjectType \<Rightarrow> HANDLE \<Rightarrow> 'a HState_scheme
    \<Rightarrow> (objptr \<times> HandleMeta) option \<times> 'a HState_scheme" where
  "getAs T h s =
     (case get h s of
        (None, s') \<Rightarrow> (None, s')
      | (Some (p, m), s') \<Rightarrow>
          if typeCache m = T \<and> (case objects s' p of Some ob \<Rightarrow> otype ob = T | None \<Rightarrow> False)
          then (Some (p, m), s')
          else (None, s'\<lparr>objects := deref p (objects s')\<rparr>))"

text \<open>Where a released index goes.\<close>

definition retire_index :: "nat \<Rightarrow> Handles \<Rightarrow> Handles" where
  "retire_index idx t =
     (if idx \<le> kCompatMaxIndex then
        (let q = mQuarantine t @ [idx] in
         if length q > kQuarantineLen
         then t\<lparr>mFreeBelow := mFreeBelow t @ [hd q], mQuarantine := tl q\<rparr>
         else t\<lparr>mQuarantine := q\<rparr>)
      else t\<lparr>mFreeAbove := mFreeAbove t @ [idx]\<rparr>)"

text \<open>
  \<^verbatim>\<open>Handles::release\<close>. \<open>onZero\<close> is \<^verbatim>\<open>mOnHandleZero\<close>, called after the table is updated and
  before the entry's reference is dropped.
\<close>

definition release :: "(objptr \<Rightarrow> 'a HState_scheme \<Rightarrow> 'a HState_scheme) option
    \<Rightarrow> HANDLE \<Rightarrow> 'a HState_scheme \<Rightarrow> bool \<times> 'a HState_scheme" where
  "release onZero h s =
     (if isPseudo h then (True, s)
      else case entry_of (table s) h of
        None \<Rightarrow> (False, s)
      | Some (idx, e) \<Rightarrow>
          if mflags (meta e) AND HANDLE_FLAG_PROTECT_FROM_CLOSE \<noteq> 0 then (False, s)
          else
            (let p = the (obj e);
                 e' = empty_entry\<lparr>meta := zero_meta\<lparr>generation := generation (meta e) + 1\<rparr>\<rparr>;
                 count = (case objects s p of Some ob \<Rightarrow> handleCount ob - 1 | None \<Rightarrow> 0);
                 os = (case objects s p of None \<Rightarrow> objects s
                       | Some ob \<Rightarrow> (objects s)(p \<mapsto> ob\<lparr>handleCount := count\<rparr>));
                 t = (table s)\<lparr>mSlots := (mSlots (table s))[idx := e']\<rparr>;
                 s1 = s\<lparr>objects := os, table := retire_index idx t\<rparr>;
                 s2 = (case onZero of Some f \<Rightarrow> if count = 0 then f p s1 else s1 | None \<Rightarrow> s1)
             in (True, s2\<lparr>objects := deref p (objects s2)\<rparr>)))"

definition setInformation :: "HANDLE \<Rightarrow> u32 \<Rightarrow> u32 \<Rightarrow> 'a HState_scheme \<Rightarrow> bool \<times> 'a HState_scheme" where
  "setInformation h msk value s =
     (if isPseudo h then (True, s)
      else case entry_of (table s) h of
        None \<Rightarrow> (False, s)
      | Some (idx, e) \<Rightarrow>
          (let mk = msk AND (HANDLE_FLAG_INHERIT OR HANDLE_FLAG_PROTECT_FROM_CLOSE);
               fl = (mflags (meta e) AND NOT mk) OR (value AND mk);
               e' = e\<lparr>meta := (meta e)\<lparr>mflags := fl\<rparr>\<rparr>
           in (True, s\<lparr>table := (table s)\<lparr>mSlots := (mSlots (table s))[idx := e']\<rparr>\<rparr>)))"

text \<open>\<^verbatim>\<open>Handles::getInformation\<close>; \<open>None\<close> is the result false, \<open>hasOut\<close> that \<^verbatim>\<open>outFlags\<close> is not null.\<close>

definition getInformation :: "HANDLE \<Rightarrow> bool \<Rightarrow> 'a HState_scheme \<Rightarrow> u32 option" where
  "getInformation h hasOut s =
     (if \<not> hasOut then None
      else if isPseudo h then Some 0
      else case entry_of (table s) h of None \<Rightarrow> None | Some (idx, e) \<Rightarrow> Some (mflags (meta e)))"

text \<open>
  \<^verbatim>\<open>Handles::duplicateTo\<close> within one table, the only use the source makes of it
  (\<^verbatim>\<open>DuplicateHandle\<close> passes the global table as source and destination). The pin taken by
  \<^verbatim>\<open>get\<close> is dropped on the early returns and moved into \<^verbatim>\<open>alloc\<close> otherwise.
\<close>

definition duplicateTo :: "(objptr \<Rightarrow> 'a HState_scheme \<Rightarrow> 'a HState_scheme) option
    \<Rightarrow> HANDLE \<Rightarrow> u32 \<Rightarrow> bool \<Rightarrow> u32 \<Rightarrow> 'a HState_scheme \<Rightarrow> HANDLE option \<times> 'a HState_scheme" where
  "duplicateTo onZero src desiredAccess inherit options s =
     (case get src s of
        (None, s1) \<Rightarrow> (None, s1)
      | (Some (p, m), s1) \<Rightarrow>
          (let unpin = (\<lambda>s. s\<lparr>objects := deref p (objects s)\<rparr>);
               closeSource = (options AND DUPLICATE_CLOSE_SOURCE \<noteq> 0);
               effAccess = (if options AND DUPLICATE_SAME_ACCESS \<noteq> 0 then grantedAccess m
                            else desiredAccess AND grantedAccess m);
               fl = (if inherit then HANDLE_FLAG_INHERIT else 0)
           in if closeSource \<and> mflags m AND HANDLE_FLAG_PROTECT_FROM_CLOSE \<noteq> 0 then (None, unpin s1)
              else if closeSource \<and> effAccess = grantedAccess m \<and> fl = mflags m then (Some src, unpin s1)
              else (let (h, s2) = alloc p effAccess fl s1 in
                    (Some h, if closeSource then snd (release onZero src s2) else s2))))"

section \<open>Handle values\<close>

text \<open>The bound under which no handle value wraps or turns negative.\<close>

definition kMaxSlots :: nat where "kMaxSlots = 2 ^ 29 - 1"

abbreviation handle_of :: "nat \<Rightarrow> HANDLE" where
  "handle_of i \<equiv> makeHandle (word_of_nat i)"

lemma unat_handle_of:
  assumes "i < 2 ^ 30 - 1"
  shows "unat (handle_of i) = 4 * (i + 1)"
proof -
  have "unat (word_of_nat i + 1 :: u32) = i + 1"
    using assms by (simp add: unat_word_ariths unat_of_nat)
  then have "unat ((word_of_nat i + 1) * 4 :: u32) = (i + 1) * 4"
    using assms by (simp only: unat_word_ariths) simp
  moreover have "handle_of i = (word_of_nat i + 1) * 4"
    by (simp add: makeHandle_def push_bit_eq_mult)
  ultimately show ?thesis by simp
qed

lemma unat_indexOf_handle_of:
  assumes "i < 2 ^ 30 - 1"
  shows "unat (indexOf (handle_of i)) = i"
proof -
  let ?h = "handle_of i"
  have u: "unat ?h = 4 * (i + 1)" by (rule unat_handle_of [OF assms])
  then have nz: "?h \<noteq> 0" by auto
  have al: "?h AND 3 = 0" using u by (simp only: and_3_zero_iff) presburger
  have d: "unat (drop_bit 2 ?h) = i + 1" using u by (simp only: unat_drop_bit_2) simp
  then have "drop_bit 2 ?h \<noteq> 0" by (metis unat_0 add_eq_0_iff_both_eq_0 one_neq_zero)
  then have "unat (drop_bit 2 ?h - 1) = i" using d unat_minus_one [of "drop_bit 2 ?h"] by simp
  with nz al show ?thesis by (simp add: indexOf_def)
qed

lemma handle_of_indexOf:
  assumes "unat (indexOf h) < 2 ^ 30 - 1"
  shows "handle_of (unat (indexOf h)) = h"
proof -
  have ne: "\<not> (h = 0 \<or> h AND 3 \<noteq> 0)"
  proof
    assume "h = 0 \<or> h AND 3 \<noteq> 0"
    then have "indexOf h = - 1" by (auto simp: indexOf_def)
    with assms show False by simp
  qed
  then have dvd: "unat h mod 4 = 0" and nz: "unat h \<noteq> 0"
    using and_3_zero_iff [of h] by (auto simp: unat_eq_zero)
  from ne have i: "indexOf h = drop_bit 2 h - 1" by (simp add: indexOf_def)
  have d: "unat (drop_bit 2 h) = unat h div 4" by (rule unat_drop_bit_2)
  with dvd nz have "unat (drop_bit 2 h) \<noteq> 0" by presburger
  then have "drop_bit 2 h \<noteq> 0" by (simp only: unat_eq_zero) simp
  then have "unat (drop_bit 2 h - 1) = unat (drop_bit 2 h) - 1" by (rule unat_minus_one)
  then have "unat (indexOf h) = unat h div 4 - 1" using d by (simp only: i)
  then have "unat (handle_of (unat (indexOf h))) = unat h"
    using unat_handle_of [OF assms] dvd nz by presburger
  then show ?thesis by (simp only: word_unat_eq_iff)
qed

lemma isPseudo_iff: "isPseudo h \<longleftrightarrow> 2 ^ 31 \<le> unat h"
  by (simp add: isPseudo_def sint_neg_u32)

section \<open>Well-formed tables\<close>

text \<open>
  Every slot without an object is on exactly one of the three lists of reusable indices,
  so no index is lost and none can be handed out twice; the compatibility range is used
  up in order; the lists below and above hold indices of their range only.
\<close>

definition free_indices :: "Handles \<Rightarrow> nat list" where
  "free_indices t = mFreeBelow t @ mQuarantine t @ mFreeAbove t"

definition table_wf :: "Handles \<Rightarrow> bool" where
  "table_wf t \<longleftrightarrow>
     nextIndex t = min (length (mSlots t)) (kCompatMaxIndex + 1) \<and>
     length (mSlots t) \<le> kMaxSlots \<and>
     distinct (free_indices t) \<and>
     (\<forall>i. i \<in> set (free_indices t) \<longleftrightarrow> i < length (mSlots t) \<and> obj (mSlots t ! i) = None) \<and>
     (\<forall>i \<in> set (mFreeBelow t @ mQuarantine t). i \<le> kCompatMaxIndex) \<and>
     (\<forall>i \<in> set (mFreeAbove t). kCompatMaxIndex < i) \<and>
     length (mQuarantine t) \<le> kQuarantineLen"

lemma table_wfD:
  assumes "table_wf t"
  shows "nextIndex t = min (length (mSlots t)) (kCompatMaxIndex + 1)"
    and "length (mSlots t) \<le> kMaxSlots"
    and "distinct (free_indices t)"
    and "i \<in> set (free_indices t) \<longleftrightarrow> i < length (mSlots t) \<and> obj (mSlots t ! i) = None"
    and "i \<in> set (mFreeBelow t) \<Longrightarrow> i \<le> kCompatMaxIndex"
    and "i \<in> set (mQuarantine t) \<Longrightarrow> i \<le> kCompatMaxIndex"
    and "i \<in> set (mFreeAbove t) \<Longrightarrow> kCompatMaxIndex < i"
    and "length (mQuarantine t) \<le> kQuarantineLen"
  using assms by (auto simp: table_wf_def)

lemma table_wfI:
  assumes "nextIndex t = min (length (mSlots t)) (kCompatMaxIndex + 1)"
    and "length (mSlots t) \<le> kMaxSlots"
    and "distinct (free_indices t)"
    and "\<And>i. i \<in> set (free_indices t) \<longleftrightarrow> i < length (mSlots t) \<and> obj (mSlots t ! i) = None"
    and "\<And>i. i \<in> set (mFreeBelow t) \<Longrightarrow> i \<le> kCompatMaxIndex"
    and "\<And>i. i \<in> set (mQuarantine t) \<Longrightarrow> i \<le> kCompatMaxIndex"
    and "\<And>i. i \<in> set (mFreeAbove t) \<Longrightarrow> kCompatMaxIndex < i"
    and "length (mQuarantine t) \<le> kQuarantineLen"
  shows "table_wf t"
  using assms unfolding table_wf_def by (simp add: ball_Un)

lemma table_wf_empty: "table_wf empty_table"
  by (simp add: table_wf_def empty_table_def free_indices_def)

lemma entry_of_handle_of:
  "i < 2 ^ 30 - 1 \<Longrightarrow> entry_of t (handle_of i) =
     (if i < length (mSlots t) \<and> obj (mSlots t ! i) \<noteq> None then Some (i, mSlots t ! i) else None)"
  using unat_indexOf_handle_of [of i] by (auto simp: entry_of_def Let_def)

lemma entry_of_SomeD:
  assumes "entry_of t h = Some (i, e)" and "length (mSlots t) \<le> kMaxSlots"
  shows "i < length (mSlots t)" and "e = mSlots t ! i" and "obj e \<noteq> None"
    and "h = handle_of i" and "\<not> isPseudo h" and "h \<noteq> NO_HANDLE"
proof -
  from assms(1) show i: "i < length (mSlots t)" and "e = mSlots t ! i" and "obj e \<noteq> None"
    by (auto simp: entry_of_def Let_def split: if_splits)
  from assms(1) have u: "unat (indexOf h) = i"
    by (auto simp: entry_of_def Let_def split: if_splits)
  have b: "i < 2 ^ 29 - 1" using i assms(2) by (simp add: kMaxSlots_def)
  then show h: "h = handle_of i" using handle_of_indexOf [of h] u by simp
  have v: "unat h = 4 * (i + 1)" unfolding h using b by (intro unat_handle_of) simp
  with b show "\<not> isPseudo h" by (simp only: isPseudo_iff) simp
  from v show "h \<noteq> NO_HANDLE" by (auto simp: NO_HANDLE_def)
qed

lemma handle_of_inj: "i < kMaxSlots \<Longrightarrow> j < kMaxSlots \<Longrightarrow> handle_of i = handle_of j \<longleftrightarrow> i = j"
  using unat_indexOf_handle_of [of i] unat_indexOf_handle_of [of j] by (simp add: kMaxSlots_def) metis

subsection \<open>Taking an index\<close>

text \<open>What \<^const>\<open>alloc_index\<close> promises: a slot without an object, off the free lists.\<close>

lemma alloc_index_spec:
  assumes wf: "table_wf t" and room: "length (mSlots t) < kMaxSlots"
    and a: "alloc_index t = (idx, t')"
  shows "idx < length (mSlots t')"
    and "mSlots t' = mSlots t \<or> mSlots t' = mSlots t @ [empty_entry] \<and> idx = length (mSlots t)"
    and "obj (mSlots t' ! idx) = None"
    and "nextIndex t' = min (length (mSlots t')) (kCompatMaxIndex + 1)"
    and "distinct (free_indices t') \<and> set (free_indices t') = set (free_indices t) - {idx}"
    and "set (mFreeBelow t') \<subseteq> set (mFreeBelow t) \<and> set (mFreeAbove t') \<subseteq> set (mFreeAbove t)"
    and "mQuarantine t' = mQuarantine t"
proof -
  note d = table_wfD [OF wf]
  consider
    (fresh) "nextIndex t \<le> kCompatMaxIndex" "idx = length (mSlots t)"
      "t' = t\<lparr>nextIndex := idx + 1, mSlots := mSlots t @ [empty_entry]\<rparr>"
  | (below) "nextIndex t = kCompatMaxIndex + 1" "mFreeBelow t \<noteq> []" "idx = last (mFreeBelow t)"
      "t' = t\<lparr>mFreeBelow := butlast (mFreeBelow t)\<rparr>"
  | (above) "nextIndex t = kCompatMaxIndex + 1" "mFreeAbove t \<noteq> []" "idx = last (mFreeAbove t)"
      "t' = t\<lparr>mFreeAbove := butlast (mFreeAbove t)\<rparr>"
  | (grow) "nextIndex t = kCompatMaxIndex + 1" "idx = length (mSlots t)"
      "t' = t\<lparr>mSlots := mSlots t @ [empty_entry]\<rparr>"
    using a d(1) room
    by (fastforce simp: alloc_index_def Let_def unat_of_nat kMaxSlots_def split: if_splits)
  note cs = this
  have notlen: "length (mSlots t) \<notin> set (free_indices t)" using d(4) by simp
  have lb: "last (mFreeBelow t) \<in> set (free_indices t)" if "mFreeBelow t \<noteq> []"
    using that by (simp add: free_indices_def)
  have la: "last (mFreeAbove t) \<in> set (free_indices t)" if "mFreeAbove t \<noteq> []"
    using that by (simp add: free_indices_def)
  from cs show "idx < length (mSlots t')" by cases (use d(4) lb la in auto)
  from cs show "mSlots t' = mSlots t \<or> mSlots t' = mSlots t @ [empty_entry] \<and> idx = length (mSlots t)"
    by cases auto
  from cs show "obj (mSlots t' ! idx) = None"
    by cases (use d(4) lb la in \<open>auto simp: empty_entry_def\<close>)
  from cs show "nextIndex t' = min (length (mSlots t')) (kCompatMaxIndex + 1)"
    by cases (use d(1) in auto)
  from cs show "distinct (free_indices t') \<and> set (free_indices t') = set (free_indices t) - {idx}"
  proof cases
    case fresh
    with notlen d(3) show ?thesis by (simp add: free_indices_def)
  next
    case below
    with d(3) show ?thesis
      using last_in_set_butlast_or [of "mFreeBelow t"] distinct_butlast_last [of "mFreeBelow t"]
      by (auto simp: free_indices_def distinct_butlast dest: in_set_butlastD)
  next
    case above
    with d(3) show ?thesis
      using last_in_set_butlast_or [of "mFreeAbove t"] distinct_butlast_last [of "mFreeAbove t"]
      by (auto simp: free_indices_def distinct_butlast dest: in_set_butlastD)
  next
    case grow
    with notlen d(3) show ?thesis by (simp add: free_indices_def)
  qed
  from cs show "set (mFreeBelow t') \<subseteq> set (mFreeBelow t) \<and> set (mFreeAbove t') \<subseteq> set (mFreeAbove t)"
    by cases (auto dest: in_set_butlastD)
  from cs show "mQuarantine t' = mQuarantine t" by cases auto
qed

lemma table_wf_store:
  assumes wf: "table_wf t" and room: "length (mSlots t) < kMaxSlots"
    and a: "alloc_index t = (idx, t')" and e: "obj e \<noteq> None"
  shows "table_wf (t'\<lparr>mSlots := (mSlots t')[idx := e]\<rparr>)"
proof -
  note d = table_wfD [OF wf]
  note sp = alloc_index_spec [OF wf room a]
  have len: "length (mSlots t') \<le> kMaxSlots" using sp(2) room by auto
  have mem: "i \<in> set (free_indices t') \<longleftrightarrow>
      i < length (mSlots t') \<and> obj ((mSlots t')[idx := e] ! i) = None" for i
  proof (cases "i = idx")
    case True
    with sp(1) sp(5) e show ?thesis by simp
  next
    case False
    then have "i \<in> set (free_indices t') \<longleftrightarrow> i < length (mSlots t) \<and> obj (mSlots t ! i) = None"
      using sp(5) d(4) by auto
    also have "\<dots> \<longleftrightarrow> i < length (mSlots t') \<and> obj (mSlots t' ! i) = None"
      using sp(2) False by (auto simp: nth_append)
    finally show ?thesis using False by simp
  qed
  let ?t = "t'\<lparr>mSlots := (mSlots t')[idx := e]\<rparr>"
  have fi: "free_indices ?t = free_indices t'" by (simp add: free_indices_def)
  show ?thesis
  proof (rule table_wfI)
    show "nextIndex ?t = min (length (mSlots ?t)) (kCompatMaxIndex + 1)" using sp(4) by simp
    show "length (mSlots ?t) \<le> kMaxSlots" using len by simp
    show "distinct (free_indices ?t)" using sp(5) fi by simp
    show "i \<in> set (free_indices ?t) \<longleftrightarrow> i < length (mSlots ?t) \<and> obj (mSlots ?t ! i) = None" for i
      using mem fi by simp
    show "i \<le> kCompatMaxIndex" if "i \<in> set (mFreeBelow ?t)" for i using that sp(6) d(5) [of i] by auto
    show "i \<le> kCompatMaxIndex" if "i \<in> set (mQuarantine ?t)" for i using that sp(7) d(6) [of i] by auto
    show "kCompatMaxIndex < i" if "i \<in> set (mFreeAbove ?t)" for i using that sp(6) d(7) [of i] by auto
    show "length (mQuarantine ?t) \<le> kQuarantineLen" using sp(7) d(8) by simp
  qed
qed

lemma retire_index_slots [simp]:
  "mSlots (retire_index i t) = mSlots t" "nextIndex (retire_index i t) = nextIndex t"
  by (simp_all add: retire_index_def Let_def)

lemma free_indices_retire:
  assumes "distinct (free_indices t)" and "i \<notin> set (free_indices t)"
  shows "distinct (free_indices (retire_index i t))"
    and "set (free_indices (retire_index i t)) = insert i (set (free_indices t))"
proof -
  have "mset (free_indices (retire_index i t)) = add_mset i (mset (free_indices t))"
    by (cases "mQuarantine t") (auto simp: free_indices_def retire_index_def Let_def)
  then have m: "mset (free_indices (retire_index i t)) = mset (i # free_indices t)" by simp
  show "distinct (free_indices (retire_index i t))"
    using mset_eq_imp_distinct_iff [OF m] assms by simp
  show "set (free_indices (retire_index i t)) = insert i (set (free_indices t))"
    using mset_eq_setD [OF m] by simp
qed

lemma table_wf_retire:
  assumes wf: "table_wf t" and i: "i < length (mSlots t)" "obj (mSlots t ! i) \<noteq> None"
    and e: "obj e = None"
  shows "table_wf (retire_index i (t\<lparr>mSlots := (mSlots t)[i := e]\<rparr>))"
proof -
  note d = table_wfD [OF wf]
  let ?t = "t\<lparr>mSlots := (mSlots t)[i := e]\<rparr>"
  have ni: "i \<notin> set (free_indices ?t)" and di: "distinct (free_indices ?t)"
    using d(3,4) i by (simp_all add: free_indices_def)
  note fr = free_indices_retire [OF di ni]
  have mem: "j \<in> set (free_indices (retire_index i ?t)) \<longleftrightarrow>
      j < length (mSlots t) \<and> obj ((mSlots t)[i := e] ! j) = None" for j
    using fr(2) i e d(4) [of j] by (cases "j = i") (auto simp: free_indices_def)
  have rng: "j \<le> kCompatMaxIndex"
    if "j \<in> set (mFreeBelow (retire_index i ?t) @ mQuarantine (retire_index i ?t))" for j
    using that d(5,6) [of j]
    by (cases "mQuarantine t") (auto simp: retire_index_def Let_def split: if_splits)
  have rng2: "kCompatMaxIndex < j" if "j \<in> set (mFreeAbove (retire_index i ?t))" for j
    using that d(7) [of j] by (auto simp: retire_index_def Let_def split: if_splits)
  have ql: "length (mQuarantine (retire_index i ?t)) \<le> kQuarantineLen"
    using d(8) by (auto simp: retire_index_def Let_def)
  show ?thesis
    by (rule table_wfI) (use d(1,2) fr(1) mem rng rng2 ql in simp_all)
qed

lemma table_wf_update:
  assumes "table_wf t" and "i < length (mSlots t)" and "obj e = obj (mSlots t ! i)"
  shows "table_wf (t\<lparr>mSlots := (mSlots t)[i := e]\<rparr>)"
  using assms by (auto simp: table_wf_def free_indices_def nth_list_update)

section \<open>The operations keep the table well-formed\<close>

lemma alloc_wf [inv_intros]:
  assumes "table_wf (table s)" and "length (mSlots (table s)) < kMaxSlots"
  shows "table_wf (table (snd (alloc p access fl s)))"
proof -
  obtain idx t where a: "alloc_index (table s) = (idx, t)" by fastforce
  show ?thesis
    using table_wf_store [OF assms a] by (simp add: alloc_def a Let_def)
qed

lemma get_wf [inv_intros]: "table_wf (table s) \<Longrightarrow> table_wf (table (snd (get h s)))"
  by (auto simp: get_def split: option.splits)

lemma setInformation_entry:
  assumes "\<not> isPseudo h" and "entry_of (table s) h = Some (i, e)"
  obtains e' where "mSlots (table (snd (setInformation h msk value s))) = (mSlots (table s))[i := e']"
    and "obj e' = obj e" and "grantedAccess (meta e') = grantedAccess (meta e)"
    and "fst (setInformation h msk value s)"
    and "mflags (meta e') = (mflags (meta e) AND NOT (msk AND 3)) OR (value AND (msk AND 3))"
proof -
  let ?mk = "msk AND (HANDLE_FLAG_INHERIT OR HANDLE_FLAG_PROTECT_FROM_CLOSE)"
  have "HANDLE_FLAG_INHERIT OR HANDLE_FLAG_PROTECT_FROM_CLOSE = 3"
    by (simp add: HANDLE_FLAG_INHERIT_def HANDLE_FLAG_PROTECT_FROM_CLOSE_def)
  then show ?thesis
    by (intro that [of "e\<lparr>meta := (meta e)\<lparr>mflags := (mflags (meta e) AND NOT ?mk) OR (value AND ?mk)\<rparr>\<rparr>"])
      (use assms in \<open>simp_all add: setInformation_def Let_def\<close>)
qed

lemma setInformation_wf [inv_intros]:
  assumes "table_wf (table s)"
  shows "table_wf (table (snd (setInformation h msk value s)))"
  using assms entry_of_SomeD [of "table s" h] table_wfD(2) [OF assms]
  by (auto simp: setInformation_def Let_def split: option.splits intro!: table_wf_update)

section \<open>The table as a map from handles\<close>

text \<open>
  What a client sees: the entry of every valid handle. \<^const>\<open>alloc\<close> adds a fresh handle,
  \<^const>\<open>release\<close> removes one, and no operation changes another handle's entry.
\<close>

definition hview :: "Handles \<Rightarrow> HANDLE \<rightharpoonup> Entry" where
  "hview t h = map_option snd (entry_of t h)"

lemma hview_cong: "mSlots t = mSlots t' \<Longrightarrow> hview t = hview t'"
  by (simp add: hview_def entry_of_def fun_eq_iff Let_def)

lemma hview_update:
  assumes i: "i < length (mSlots t)" and len: "length (mSlots t) \<le> kMaxSlots"
    and m: "mSlots t' = (mSlots t)[i := e]"
  shows "hview t' = (hview t)(handle_of i := (if obj e = None then None else Some e))"
proof
  fix h
  show "hview t' h = ((hview t)(handle_of i := (if obj e = None then None else Some e))) h"
  proof (cases "h = handle_of i")
    case True
    have "i < 2 ^ 30 - 1" using i len by (simp add: kMaxSlots_def)
    with True i m show ?thesis by (simp add: hview_def entry_of_handle_of)
  next
    case False
    have "unat (indexOf h) \<noteq> i"
    proof
      assume u: "unat (indexOf h) = i"
      with i len have "unat (indexOf h) < 2 ^ 30 - 1" by (simp add: kMaxSlots_def)
      from handle_of_indexOf [OF this] u False show False by simp
    qed
    with False m show ?thesis by (simp add: hview_def entry_of_def Let_def)
  qed
qed

lemma hview_append_empty: "mSlots t' = mSlots t @ [empty_entry] \<Longrightarrow> hview t' = hview t"
  by (auto simp: hview_def entry_of_def Let_def nth_append empty_entry_def fun_eq_iff
      less_Suc_eq_le)

lemma alloc_unfold:
  assumes "alloc p access fl s = (h, s')" and "alloc_index (table s) = (idx, t)"
  obtains e where "h = handle_of idx" and "table s' = t\<lparr>mSlots := (mSlots t)[idx := e]\<rparr>"
    and "obj e = Some p" and "grantedAccess (meta e) = access" and "mflags (meta e) = fl"
    and "\<forall>ob. objects s p = Some ob \<longrightarrow> typeCache (meta e) = otype ob"
    and "objects s' = (case objects s p of None \<Rightarrow> objects s
           | Some ob \<Rightarrow> (objects s)(p \<mapsto> ob\<lparr>handleCount := handleCount ob + 1\<rparr>))"
  by (rule that [of "\<lparr>obj = Some p, meta = \<lparr>grantedAccess = access, mflags = fl,
        typeCache = (case objects s p of Some ob \<Rightarrow> otype ob | None \<Rightarrow> File),
        generation = (if generation (meta (mSlots t ! idx)) = 0 then 1
                      else generation (meta (mSlots t ! idx)))\<rparr>\<rparr>"])
    (use assms in \<open>auto simp: alloc_def Let_def\<close>)

lemma hview_alloc:
  assumes wf: "table_wf (table s)" and room: "length (mSlots (table s)) < kMaxSlots"
    and a: "alloc p access fl s = (h, s')"
  obtains e where "hview (table s) h = None" "hview (table s') = (hview (table s))(h \<mapsto> e)"
    and "obj e = Some p" "grantedAccess (meta e) = access" "mflags (meta e) = fl"
    and "\<forall>ob. objects s p = Some ob \<longrightarrow> typeCache (meta e) = otype ob"
    and "\<not> isPseudo h" "h \<noteq> NO_HANDLE"
proof -
  obtain idx t where ai: "alloc_index (table s) = (idx, t)" by fastforce
  note sp = alloc_index_spec [OF wf room ai]
  have len: "length (mSlots t) \<le> kMaxSlots" using sp(2) room by auto
  have hv: "hview t = hview (table s)" using sp(2) hview_append_empty hview_cong by metis
  obtain e where e: "obj e = Some p" "grantedAccess (meta e) = access" "mflags (meta e) = fl"
      "\<forall>ob. objects s p = Some ob \<longrightarrow> typeCache (meta e) = otype ob"
    and t': "table s' = t\<lparr>mSlots := (mSlots t)[idx := e]\<rparr>" and h: "h = handle_of idx"
    by (rule alloc_unfold [OF a ai])
  have b: "idx < 2 ^ 29 - 1" using sp(1) len by (simp add: kMaxSlots_def)
  have none: "hview (table s) h = None"
    unfolding hv [symmetric] h using b sp(3) by (simp add: hview_def entry_of_handle_of)
  have upd: "hview (table s') = (hview (table s))(h \<mapsto> e)"
    using hview_update [OF sp(1) len, of "table s'" e] e(1) t' hv h by simp
  have v: "unat h = 4 * (idx + 1)" unfolding h using b by (intro unat_handle_of) simp
  have np: "\<not> isPseudo h" using v b by (simp only: isPseudo_iff) simp
  have nz: "h \<noteq> NO_HANDLE" using v by (auto simp: NO_HANDLE_def)
  show ?thesis by (rule that [OF none upd e np nz])
qed

section \<open>Reference counts\<close>

text \<open>
  \<open>pins p\<close> counts the \<^verbatim>\<open>Pin\<close> objects alive outside the table. Every live object's pointer
  count is the number of pins and entries that refer to it, its handle count the number
  of entries, and an object with neither is deleted.
\<close>

fun obj_ok :: "ObjectBase option \<Rightarrow> nat \<Rightarrow> nat \<Rightarrow> bool" where
  "obj_ok None pins cnt \<longleftrightarrow> pins = 0 \<and> cnt = 0"
| "obj_ok (Some ob) pins cnt \<longleftrightarrow>
     unat (pointerCount ob) = pins + cnt \<and> unat (handleCount ob) = cnt \<and> 0 < pins + cnt"

definition counts_ok :: "(objptr \<Rightarrow> nat) \<Rightarrow> store \<Rightarrow> (objptr \<Rightarrow> nat) \<Rightarrow> bool" where
  "counts_ok pins os cnt \<longleftrightarrow> (\<forall>p. obj_ok (os p) (pins p) (cnt p))"

definition slot_count :: "Handles \<Rightarrow> objptr \<Rightarrow> nat" where
  "slot_count t p = length (filter (\<lambda>e. obj e = Some p) (mSlots t))"

definition refs_ok :: "(objptr \<Rightarrow> nat) \<Rightarrow> 'a HState_scheme \<Rightarrow> bool" where
  "refs_ok pins s \<longleftrightarrow> counts_ok pins (objects s) (slot_count (table s))"

lemma counts_okD:
  assumes "counts_ok pins os cnt"
  shows "os p = None \<Longrightarrow> pins p = 0" and "os p = None \<Longrightarrow> cnt p = 0"
    and "os p = Some ob \<Longrightarrow> unat (pointerCount ob) = pins p + cnt p"
    and "os p = Some ob \<Longrightarrow> unat (handleCount ob) = cnt p"
    and "os p = Some ob \<Longrightarrow> 0 < pins p + cnt p"
  using assms unfolding counts_ok_def by (metis obj_ok.simps)+

lemma counts_okI_at:
  assumes "counts_ok pins os cnt"
    and "\<And>q. q \<noteq> p \<Longrightarrow> os' q = os q \<and> pins' q = pins q \<and> cnt' q = cnt q"
    and "obj_ok (os' p) (pins' p) (cnt' p)"
  shows "counts_ok pins' os' cnt'"
  using assms unfolding counts_ok_def by metis

lemma counts_ref:
  assumes ok: "counts_ok pins os cnt" and p: "os p = Some ob"
    and b: "unat (pointerCount ob) + 1 < 2 ^ 32"
  shows "counts_ok (pins(p := pins p + 1)) (ref p os) cnt"
proof (rule counts_okI_at [OF ok, where p = p])
  have "unat (pointerCount ob + 1) = unat (pointerCount ob) + 1"
    using b unat_add_u32 [of "pointerCount ob" 1] by simp
  then show "obj_ok (ref p os p) ((pins(p := pins p + 1)) p) (cnt p)"
    using counts_okD [OF ok, of p] p by (simp add: ref_def)
qed (use p in \<open>auto simp: ref_def\<close>)

lemma deref_counts:
  assumes p: "os p = Some ob" and "unat (pointerCount ob) = n + 1"
  shows "deref p os = (if n = 0 then os(p := None)
           else os(p \<mapsto> ob\<lparr>pointerCount := pointerCount ob - 1\<rparr>))"
    and "unat (pointerCount ob - 1) = n"
proof -
  have "pointerCount ob \<noteq> 0" using assms(2) by (metis add_is_0 one_neq_zero unat_0)
  then show "unat (pointerCount ob - 1) = n" using assms(2) unat_minus_one by fastforce
  have "pointerCount ob = 1 \<longleftrightarrow> n = 0"
    using assms(2) by (metis add_cancel_left_left unat_1 word_unat_eq_iff)
  then show "deref p os = (if n = 0 then os(p := None)
           else os(p \<mapsto> ob\<lparr>pointerCount := pointerCount ob - 1\<rparr>))"
    using p by (simp add: deref_def)
qed

lemma counts_unpin:
  assumes ok: "counts_ok pins os cnt" and p: "0 < pins p"
  shows "counts_ok (pins(p := pins p - 1)) (deref p os) cnt"
proof -
  from ok p obtain ob where ob: "os p = Some ob"
    using counts_okD(1) [OF ok, of p] by (cases "os p") auto
  note d = counts_okD(3-5) [OF ok ob]
  have n: "unat (pointerCount ob) = (pins p - 1 + cnt p) + 1" using d(1) p by simp
  note dc = deref_counts [of os p, OF ob n]
  show ?thesis
    by (rule counts_okI_at [OF ok, where p = p]) (use dc d ob p in auto)
qed

lemma counts_alloc:
  assumes ok: "counts_ok pins os cnt" and p: "0 < pins p" and ob: "os p = Some ob"
  shows "counts_ok (pins(p := pins p - 1)) (os(p \<mapsto> ob\<lparr>handleCount := handleCount ob + 1\<rparr>))
           (cnt(p := cnt p + 1))"
proof -
  note d = counts_okD(3-5) [OF ok ob]
  have "unat (handleCount ob) + 1 < 2 ^ 32"
    using d p unat_u32_less [of "pointerCount ob"] by simp
  then have "unat (handleCount ob + 1) = cnt p + 1"
    using d(2) unat_add_u32 [of "handleCount ob" 1] by simp
  then show ?thesis
    using d p by (intro counts_okI_at [OF ok, where p = p]) auto
qed

lemma counts_release:
  assumes ok: "counts_ok pins os cnt" and p: "0 < cnt p" and ob: "os p = Some ob"
  shows "counts_ok pins (deref p (os(p \<mapsto> ob\<lparr>handleCount := handleCount ob - 1\<rparr>)))
           (cnt(p := cnt p - 1))"
    and "handleCount ob - 1 = 0 \<longleftrightarrow> cnt p = 1"
proof -
  note d = counts_okD(3-5) [OF ok ob]
  let ?ob = "ob\<lparr>handleCount := handleCount ob - 1\<rparr>"
  have "handleCount ob \<noteq> 0" using d(2) p by auto
  then have h: "unat (handleCount ob - 1) = cnt p - 1" using d(2) unat_minus_one by fastforce
  then show "handleCount ob - 1 = 0 \<longleftrightarrow> cnt p = 1"
    using p by (metis One_nat_def Suc_pred diff_self_eq_0 unat_eq_zero)
  have n: "unat (pointerCount ?ob) = (pins p + (cnt p - 1)) + 1" using d(1) p by simp
  note dc = deref_counts [of "os(p \<mapsto> ?ob)" p, OF _ n]
  show "counts_ok pins (deref p (os(p \<mapsto> ?ob))) (cnt(p := cnt p - 1))"
    by (rule counts_okI_at [OF ok, where p = p]) (use dc d h p in auto)
qed

subsection \<open>Counting entries\<close>

lemma slot_count_cong: "mSlots t = mSlots t' \<Longrightarrow> slot_count t = slot_count t'"
  by (simp add: slot_count_def fun_eq_iff)

lemma slot_count_update:
  assumes "i < length (mSlots t)" and "mSlots t' = (mSlots t)[i := e]"
  shows "slot_count t' p + (if obj (mSlots t ! i) = Some p then 1 else 0)
         = slot_count t p + (if obj e = Some p then 1 else 0)"
  using filter_update_count [OF assms(1), of "\<lambda>e. obj e = Some p" e] assms(2)
  by (simp add: slot_count_def)

lemma slot_count_pos: "i < length (mSlots t) \<Longrightarrow> obj (mSlots t ! i) = Some p \<Longrightarrow> 0 < slot_count t p"
  by (auto simp: slot_count_def filter_empty_conv intro: bexI [of _ "mSlots t ! i"])

lemma refs_ok_live:
  assumes "refs_ok pins s" and "0 < pins p \<or> 0 < slot_count (table s) p"
  obtains ob where "objects s p = Some ob"
  using assms counts_okD(1,2) [of pins "objects s" "slot_count (table s)" p]
  by (cases "objects s p") (auto simp: refs_ok_def)

lemma slot_count_alloc:
  assumes wf: "table_wf (table s)" and room: "length (mSlots (table s)) < kMaxSlots"
    and a: "alloc p access fl s = (h, s')"
  shows "slot_count (table s') = (slot_count (table s))(p := slot_count (table s) p + 1)"
proof -
  obtain idx t where ai: "alloc_index (table s) = (idx, t)" by fastforce
  note sp = alloc_index_spec [OF wf room ai]
  obtain e where e: "obj e = Some p" and t': "table s' = t\<lparr>mSlots := (mSlots t)[idx := e]\<rparr>"
    by (rule alloc_unfold [OF a ai])
  have "slot_count t = slot_count (table s)"
    using sp(2) by (auto simp: slot_count_def empty_entry_def fun_eq_iff)
  then show ?thesis
    using slot_count_update [OF sp(1), of "table s'" e] sp(3) e t' by (auto simp: fun_eq_iff)
qed

lemma alloc_refs:
  assumes wf: "table_wf (table s)" and room: "length (mSlots (table s)) < kMaxSlots"
    and ok: "refs_ok pins s" and p: "0 < pins p" and a: "alloc p access fl s = (h, s')"
  shows "refs_ok (pins(p := pins p - 1)) s'"
proof -
  obtain idx t where ai: "alloc_index (table s) = (idx, t)" by fastforce
  obtain ob where ob: "objects s p = Some ob" using ok p by (rule refs_ok_live [OF _ disjI1])
  have "objects s' = (objects s)(p \<mapsto> ob\<lparr>handleCount := handleCount ob + 1\<rparr>)"
    by (rule alloc_unfold [OF a ai]) (simp add: ob)
  then show ?thesis
    using counts_alloc [of pins "objects s" _ p, OF _ p ob] ok slot_count_alloc [OF wf room a]
    by (simp add: refs_ok_def)
qed

lemma get_refs:
  assumes ok: "refs_ok pins s" and wf: "table_wf (table s)" and g: "get h s = (Some (p, m), s')"
    and b: "\<And>ob. objects s p = Some ob \<Longrightarrow> unat (pointerCount ob) + 1 < 2 ^ 32"
  shows "refs_ok (pins(p := pins p + 1)) s'" and "table s' = table s" and "0 < slot_count (table s) p"
proof -
  from g obtain i e where e: "entry_of (table s) h = Some (i, e)" "obj e = Some p"
    and s': "s' = s\<lparr>objects := ref p (objects s)\<rparr>"
    using entry_of_SomeD(3) [OF _ table_wfD(2) [OF wf]]
    by (fastforce simp: get_def split: if_splits option.splits)
  show "table s' = table s" using s' by simp
  show c: "0 < slot_count (table s) p"
    using slot_count_pos entry_of_SomeD(1,2) [OF e(1) table_wfD(2) [OF wf]] e(2) by metis
  obtain ob where ob: "objects s p = Some ob" using ok c by (rule refs_ok_live [OF _ disjI2])
  show "refs_ok (pins(p := pins p + 1)) s'"
    using counts_ref [of pins "objects s" _ p, OF _ ob b [OF ob]] ok s' by (simp add: refs_ok_def)
qed

section \<open>Closing a handle\<close>

lemma hview_pseudo: "table_wf t \<Longrightarrow> isPseudo h \<Longrightarrow> hview t h = None"
  using entry_of_SomeD(5) [of t h] table_wfD(2) [of t]
  by (cases "entry_of t h") (auto simp: hview_def)

text \<open>
  The table calls \<^verbatim>\<open>mOnHandleZero\<close> when an object loses its last handle. What it relies on:
  the callback changes neither the table nor the objects.
\<close>

locale zero_callback =
  fixes onZero :: "(objptr \<Rightarrow> 'a HState_scheme \<Rightarrow> 'a HState_scheme) option"
  assumes callback_frame: "onZero = Some f \<Longrightarrow> objects (f p s) = objects s \<and> table (f p s) = table s"
begin

lemma release_entry:
  assumes "entry_of (table s) h = Some (i, e)" and "table_wf (table s)"
    and "mflags (meta e) AND HANDLE_FLAG_PROTECT_FROM_CLOSE = 0" and "obj e = Some p"
  obtains e' where "fst (release onZero h s)" and "obj e' = None"
    and "generation (meta e') = generation (meta e) + 1"
    and "table (snd (release onZero h s)) = retire_index i ((table s)\<lparr>mSlots := (mSlots (table s))[i := e']\<rparr>)"
    and "\<And>ob. objects s p = Some ob \<Longrightarrow> objects (snd (release onZero h s))
           = deref p ((objects s)(p \<mapsto> ob\<lparr>handleCount := handleCount ob - 1\<rparr>))"
proof -
  note d = entry_of_SomeD [OF assms(1) table_wfD(2) [OF assms(2)]]
  let ?e = "empty_entry\<lparr>meta := zero_meta\<lparr>generation := generation (meta e) + 1\<rparr>\<rparr>"
  show ?thesis
    by (rule that [of ?e])
      (use assms d callback_frame in \<open>auto simp: release_def Let_def empty_entry_def split: option.splits\<close>)
qed

lemma release_fail:
  assumes "fst (release onZero h s) = False"
  shows "snd (release onZero h s) = s"
  using assms by (auto simp: release_def Let_def split: option.splits if_splits)

text \<open>A call of release either leaves the state alone or closes the entry of the handle.\<close>

lemma release_cases:
  assumes wf: "table_wf (table s)"
  obtains (unchanged) "snd (release onZero h s) = s" "fst (release onZero h s) = isPseudo h"
  | (closed) i e p where "entry_of (table s) h = Some (i, e)" "obj e = Some p" "fst (release onZero h s)"
      "mflags (meta e) AND HANDLE_FLAG_PROTECT_FROM_CLOSE = 0" "\<not> isPseudo h"
proof (cases "isPseudo h \<or> entry_of (table s) h = None")
  case True
  then have "snd (release onZero h s) = s" "fst (release onZero h s) = isPseudo h"
    by (auto simp: release_def)
  then show ?thesis by (rule unchanged)
next
  case False
  then obtain i e where e: "entry_of (table s) h = Some (i, e)" and np: "\<not> isPseudo h" by auto
  obtain p where p: "obj e = Some p"
    using entry_of_SomeD(3) [OF e table_wfD(2) [OF wf]] by auto
  show ?thesis
  proof (cases "mflags (meta e) AND HANDLE_FLAG_PROTECT_FROM_CLOSE = 0")
    case True
    then have "fst (release onZero h s)" using release_entry [OF e wf True p] by blast
    then show ?thesis using closed e p True np by blast
  next
    case prot: False
    with e np have "snd (release onZero h s) = s" "fst (release onZero h s) = isPseudo h"
      by (simp_all add: release_def)
    then show ?thesis by (rule unchanged)
  qed
qed

lemma release_wf:
  assumes wf: "table_wf (table s)"
  shows "table_wf (table (snd (release onZero h s)))"
  using wf
proof (cases rule: release_cases [of s h])
  case unchanged
  with wf show ?thesis by simp
next
  case (closed i e p)
  note d = entry_of_SomeD [OF closed(1) table_wfD(2) [OF wf]]
  show ?thesis
  proof (rule release_entry [OF closed(1) wf closed(4) closed(2)])
    fix e' assume "obj e' = None" and "table (snd (release onZero h s)) =
        retire_index i ((table s)\<lparr>mSlots := (mSlots (table s))[i := e']\<rparr>)"
    with table_wf_retire [OF wf d(1), of e'] d(2,3) show ?thesis by simp
  qed
qed

lemma release_view:
  assumes wf: "table_wf (table s)"
  shows "hview (table (snd (release onZero h s))) =
     (if fst (release onZero h s) then (hview (table s))(h := None) else hview (table s))"
  using wf
proof (cases rule: release_cases [of s h])
  case unchanged
  with hview_pseudo [OF wf, of h] show ?thesis by (simp add: fun_upd_idem)
next
  case (closed i e p)
  note d = entry_of_SomeD [OF closed(1) table_wfD(2) [OF wf]]
  show ?thesis
  proof (rule release_entry [OF closed(1) wf closed(4) closed(2)])
    fix e' assume e': "obj e' = None" and t: "table (snd (release onZero h s)) =
        retire_index i ((table s)\<lparr>mSlots := (mSlots (table s))[i := e']\<rparr>)"
    from t hview_update [OF d(1) table_wfD(2) [OF wf], of "table (snd (release onZero h s))" e'] e' d(4) closed(3)
    show ?thesis by simp
  qed
qed

lemma release_slot_count:
  assumes wf: "table_wf (table s)" and e: "entry_of (table s) h = Some (i, e)" "obj e = Some p"
    "mflags (meta e) AND HANDLE_FLAG_PROTECT_FROM_CLOSE = 0"
  shows "slot_count (table (snd (release onZero h s))) = (slot_count (table s))(p := slot_count (table s) p - 1)"
    and "0 < slot_count (table s) p"
proof -
  note d = entry_of_SomeD [OF e(1) table_wfD(2) [OF wf]]
  show "0 < slot_count (table s) p" using slot_count_pos [OF d(1)] d(2) e(2) by simp
  show "slot_count (table (snd (release onZero h s))) = (slot_count (table s))(p := slot_count (table s) p - 1)"
  proof (rule release_entry [OF e(1) wf e(3) e(2)], rule ext)
    fix e' q assume e': "obj e' = None" and t: "table (snd (release onZero h s)) =
        retire_index i ((table s)\<lparr>mSlots := (mSlots (table s))[i := e']\<rparr>)"
    show "slot_count (table (snd (release onZero h s))) q =
        ((slot_count (table s))(p := slot_count (table s) p - 1)) q"
      using slot_count_update [OF d(1), of "table (snd (release onZero h s))" e' q] t e' d(2) e(2)
      by (auto split: if_splits)
  qed
qed

lemma release_refs:
  assumes wf: "table_wf (table s)" and ok: "refs_ok pins s"
  shows "refs_ok pins (snd (release onZero h s))"
  using wf
proof (cases rule: release_cases [of s h])
  case unchanged
  with ok show ?thesis by simp
next
  case (closed i e p)
  note sc = release_slot_count [OF wf closed(1,2,4)]
  obtain ob where ob: "objects s p = Some ob" using ok sc(2) by (rule refs_ok_live [OF _ disjI2])
  show ?thesis
  proof (rule release_entry [OF closed(1) wf closed(4) closed(2)])
    assume "\<And>ob. objects s p = Some ob \<Longrightarrow> objects (snd (release onZero h s))
           = deref p ((objects s)(p \<mapsto> ob\<lparr>handleCount := handleCount ob - 1\<rparr>))"
    with counts_release(1) [of pins "objects s" "slot_count (table s)" p, OF _ sc(2) ob] ok sc(1) ob
    show ?thesis by (simp add: refs_ok_def)
  qed
qed

end

section \<open>Delayed reuse and the compatibility range\<close>

text \<open>An index in quarantine with at most \<open>k\<close> younger ones behind it.\<close>

definition quarantined :: "nat \<Rightarrow> nat \<Rightarrow> Handles \<Rightarrow> bool" where
  "quarantined k i t \<longleftrightarrow> (\<exists>qs rs. mQuarantine t = qs @ i # rs \<and> length rs \<le> k)"

lemma quarantinedI: "mQuarantine t = qs @ i # rs \<Longrightarrow> length rs \<le> k \<Longrightarrow> quarantined k i t"
  by (auto simp: quarantined_def)

lemma quarantined_mono: "quarantined k i t \<Longrightarrow> k \<le> k' \<Longrightarrow> quarantined k' i t"
  unfolding quarantined_def by (meson order_trans)

lemma quarantined_start:
  assumes "i \<le> kCompatMaxIndex"
  shows "quarantined 0 i (retire_index i t)"
proof (cases "mQuarantine t")
  case Nil
  then show ?thesis
    using assms by (simp add: quarantined_def retire_index_def Let_def kQuarantineLen_def)
next
  case (Cons q qs)
  then show ?thesis
    using assms by (auto simp: quarantined_def retire_index_def Let_def)
qed

lemma mQuarantine_retire:
  "mQuarantine (retire_index j t) =
     (if j \<le> kCompatMaxIndex then
        if length (mQuarantine t) < kQuarantineLen then mQuarantine t @ [j]
        else tl (mQuarantine t @ [j])
      else mQuarantine t)"
  by (simp add: retire_index_def Let_def)

lemma quarantined_retire:
  assumes "quarantined k i t" and "Suc k < kQuarantineLen"
  shows "quarantined (Suc k) i (retire_index j t)"
proof -
  from assms(1) obtain qs rs where q: "mQuarantine t = qs @ i # rs" "length rs \<le> k"
    by (auto simp: quarantined_def)
  let ?t = "retire_index j t"
  have "mQuarantine ?t = qs @ i # rs \<or> mQuarantine ?t = qs @ i # (rs @ [j])
      \<or> mQuarantine ?t = tl qs @ i # (rs @ [j])"
    using q assms(2) by (cases qs) (simp_all add: mQuarantine_retire)
  then show ?thesis
    using q(2) by (auto intro: quarantinedI)
qed

lemma quarantined_alloc:
  assumes wf: "table_wf (table s)" and room: "length (mSlots (table s)) < kMaxSlots"
    and a: "alloc p access fl s = (h, s')" and q: "quarantined k i (table s)"
  shows "quarantined k i (table s')" and "h \<noteq> handle_of i"
proof -
  obtain idx t where ai: "alloc_index (table s) = (idx, t)" by fastforce
  note sp = alloc_index_spec [OF wf room ai]
  obtain e where t': "table s' = t\<lparr>mSlots := (mSlots t)[idx := e]\<rparr>" and h: "h = handle_of idx"
    by (rule alloc_unfold [OF a ai])
  show "quarantined k i (table s')" using q t' sp(7) by (simp add: quarantined_def)
  from q have iq: "i \<in> set (mQuarantine (table s))" by (auto simp: quarantined_def)
  then have "i \<in> set (free_indices t)" using sp(7) by (simp add: free_indices_def)
  with sp(5) have ne: "i \<noteq> idx" by auto
  have "i < length (mSlots (table s))" using iq table_wfD(4) [OF wf, of i] by (simp add: free_indices_def)
  moreover have "idx < kMaxSlots" using sp(1,2) room by auto
  ultimately show "h \<noteq> handle_of i" using h ne room handle_of_inj [of idx i] by simp
qed

text \<open>
  The indices of the compatibility range that are in use. While at most
  \<open>kCompatMaxIndex + 1 - kQuarantineLen\<close> of them are not all taken, an allocation stays in the
  range, so the handle fits in 15 bits.
\<close>

definition compat_in_use :: "Handles \<Rightarrow> nat" where
  "compat_in_use t = length (filter (\<lambda>e. obj e \<noteq> None) (take (kCompatMaxIndex + 1) (mSlots t)))"

lemma compat_full:
  assumes wf: "table_wf t" and n: "nextIndex t = kCompatMaxIndex + 1" and b: "mFreeBelow t = []"
  shows "kCompatMaxIndex + 1 \<le> compat_in_use t + kQuarantineLen"
proof -
  note d = table_wfD [OF wf]
  let ?n = "kCompatMaxIndex + 1"
  let ?xs = "take ?n (mSlots t)"
  have len: "?n \<le> length (mSlots t)" using d(1) n by simp
  have "{i. i < length ?xs \<and> obj (?xs ! i) = None} \<subseteq> set (mQuarantine t)"
  proof
    fix i assume "i \<in> {i. i < length ?xs \<and> obj (?xs ! i) = None}"
    then have i: "i < ?n" "i < length (mSlots t)" "obj (mSlots t ! i) = None" by auto
    then have "i \<in> set (free_indices t)" using d(4) by simp
    with b i(1) d(7) [of i] show "i \<in> set (mQuarantine t)" by (auto simp: free_indices_def)
  qed
  then have "card {i. i < length ?xs \<and> obj (?xs ! i) = None} \<le> card (set (mQuarantine t))"
    by (intro card_mono) auto
  also have "\<dots> \<le> kQuarantineLen" using card_length d(8) le_trans by blast
  finally have "length (filter (\<lambda>e. obj e = None) ?xs) \<le> kQuarantineLen"
    by (simp add: length_filter_conv_card)
  moreover have "length (filter (\<lambda>e. obj e = None) ?xs) + compat_in_use t = length ?xs"
    unfolding compat_in_use_def using sum_length_filter_compl [of "\<lambda>e. obj e = None" ?xs] by simp
  ultimately show ?thesis using len by simp
qed

lemma alloc_compat:
  assumes wf: "table_wf (table s)" and room: "length (mSlots (table s)) < kMaxSlots"
    and a: "alloc p access fl s = (h, s')"
    and few: "compat_in_use (table s) + kQuarantineLen < kCompatMaxIndex + 1"
  shows "unat h < 0x8000"
proof -
  obtain idx t where ai: "alloc_index (table s) = (idx, t)" by fastforce
  have h: "h = handle_of idx" by (rule alloc_unfold [OF a ai])
  have "idx \<le> kCompatMaxIndex"
  proof (cases "nextIndex (table s) \<le> kCompatMaxIndex")
    case True
    with ai show ?thesis by (auto simp: alloc_index_def Let_def)
  next
    case False
    with table_wfD(1) [OF wf] have n: "nextIndex (table s) = kCompatMaxIndex + 1" by simp
    with compat_full [OF wf n] few have "mFreeBelow (table s) \<noteq> []" by linarith
    with ai False table_wfD(5) [OF wf, of idx] show ?thesis
      by (auto simp: alloc_index_def Let_def)
  qed
  then have i: "idx \<le> 8190" by (simp add: kCompatMaxIndex_def)
  then have "unat h = 4 * (idx + 1)" unfolding h by (intro unat_handle_of) simp
  with i show ?thesis by simp
qed

end
