(* ===== verification/Error_Codes.thy ===== *)
theory Error_Codes
  imports Wibo_Prelude
begin

text \<open>
  The Windows error and status codes of \<^verbatim>\<open>src/src/errors.h\<close> and the translations between
  host \<^verbatim>\<open>errno\<close> values, Windows errors and NT statuses of \<^verbatim>\<open>src/src/errors.cpp\<close>.
\<close>

section \<open>Codes\<close>

abbreviation (input) ERROR_SUCCESS :: u32 where "ERROR_SUCCESS \<equiv> 0"
abbreviation (input) ERROR_FILE_NOT_FOUND :: u32 where "ERROR_FILE_NOT_FOUND \<equiv> 2"
abbreviation (input) ERROR_PATH_NOT_FOUND :: u32 where "ERROR_PATH_NOT_FOUND \<equiv> 3"
abbreviation (input) ERROR_ACCESS_DENIED :: u32 where "ERROR_ACCESS_DENIED \<equiv> 5"
abbreviation (input) ERROR_INVALID_HANDLE :: u32 where "ERROR_INVALID_HANDLE \<equiv> 6"
abbreviation (input) ERROR_NOT_ENOUGH_MEMORY :: u32 where "ERROR_NOT_ENOUGH_MEMORY \<equiv> 8"
abbreviation (input) ERROR_NO_MORE_FILES :: u32 where "ERROR_NO_MORE_FILES \<equiv> 18"
abbreviation (input) ERROR_NO_MORE_ITEMS :: u32 where "ERROR_NO_MORE_ITEMS \<equiv> 259"
abbreviation (input) ERROR_FILE_EXISTS :: u32 where "ERROR_FILE_EXISTS \<equiv> 80"
abbreviation (input) ERROR_READ_FAULT :: u32 where "ERROR_READ_FAULT \<equiv> 30"
abbreviation (input) ERROR_HANDLE_EOF :: u32 where "ERROR_HANDLE_EOF \<equiv> 38"
abbreviation (input) ERROR_GEN_FAILURE :: u32 where "ERROR_GEN_FAILURE \<equiv> 31"
abbreviation (input) ERROR_INVALID_ADDRESS :: u32 where "ERROR_INVALID_ADDRESS \<equiv> 487"
abbreviation (input) ERROR_NOACCESS :: u32 where "ERROR_NOACCESS \<equiv> 998"
abbreviation (input) ERROR_BROKEN_PIPE :: u32 where "ERROR_BROKEN_PIPE \<equiv> 109"
abbreviation (input) ERROR_NOT_SUPPORTED :: u32 where "ERROR_NOT_SUPPORTED \<equiv> 50"
abbreviation (input) ERROR_INVALID_PARAMETER :: u32 where "ERROR_INVALID_PARAMETER \<equiv> 87"
abbreviation (input) ERROR_ENVVAR_NOT_FOUND :: u32 where "ERROR_ENVVAR_NOT_FOUND \<equiv> 203"
abbreviation (input) ERROR_CALL_NOT_IMPLEMENTED :: u32 where "ERROR_CALL_NOT_IMPLEMENTED \<equiv> 120"
abbreviation (input) ERROR_BUFFER_OVERFLOW :: u32 where "ERROR_BUFFER_OVERFLOW \<equiv> 111"
abbreviation (input) ERROR_DISK_FULL :: u32 where "ERROR_DISK_FULL \<equiv> 112"
abbreviation (input) ERROR_INSUFFICIENT_BUFFER :: u32 where "ERROR_INSUFFICIENT_BUFFER \<equiv> 122"
abbreviation (input) ERROR_INVALID_NAME :: u32 where "ERROR_INVALID_NAME \<equiv> 123"
abbreviation (input) ERROR_IO_INCOMPLETE :: u32 where "ERROR_IO_INCOMPLETE \<equiv> 996"
abbreviation (input) ERROR_IO_PENDING :: u32 where "ERROR_IO_PENDING \<equiv> 997"
abbreviation (input) ERROR_OPERATION_ABORTED :: u32 where "ERROR_OPERATION_ABORTED \<equiv> 995"
abbreviation (input) ERROR_PIPE_BUSY :: u32 where "ERROR_PIPE_BUSY \<equiv> 231"
abbreviation (input) ERROR_NO_DATA :: u32 where "ERROR_NO_DATA \<equiv> 232"
abbreviation (input) ERROR_PIPE_CONNECTED :: u32 where "ERROR_PIPE_CONNECTED \<equiv> 535"
abbreviation (input) ERROR_PIPE_LISTENING :: u32 where "ERROR_PIPE_LISTENING \<equiv> 536"
abbreviation (input) ERROR_NONE_MAPPED :: u32 where "ERROR_NONE_MAPPED \<equiv> 1332"
abbreviation (input) ERROR_RESOURCE_DATA_NOT_FOUND :: u32 where "ERROR_RESOURCE_DATA_NOT_FOUND \<equiv> 1812"
abbreviation (input) ERROR_RESOURCE_TYPE_NOT_FOUND :: u32 where "ERROR_RESOURCE_TYPE_NOT_FOUND \<equiv> 1813"
abbreviation (input) ERROR_RESOURCE_NAME_NOT_FOUND :: u32 where "ERROR_RESOURCE_NAME_NOT_FOUND \<equiv> 1814"
abbreviation (input) ERROR_RESOURCE_LANG_NOT_FOUND :: u32 where "ERROR_RESOURCE_LANG_NOT_FOUND \<equiv> 1815"
abbreviation (input) ERROR_MOD_NOT_FOUND :: u32 where "ERROR_MOD_NOT_FOUND \<equiv> 126"
abbreviation (input) ERROR_PROC_NOT_FOUND :: u32 where "ERROR_PROC_NOT_FOUND \<equiv> 127"
abbreviation (input) ERROR_NEGATIVE_SEEK :: u32 where "ERROR_NEGATIVE_SEEK \<equiv> 131"
abbreviation (input) ERROR_BAD_EXE_FORMAT :: u32 where "ERROR_BAD_EXE_FORMAT \<equiv> 193"
abbreviation (input) ERROR_DLL_INIT_FAILED :: u32 where "ERROR_DLL_INIT_FAILED \<equiv> 1114"
abbreviation (input) ERROR_INVALID_FLAGS :: u32 where "ERROR_INVALID_FLAGS \<equiv> 1004"
abbreviation (input) ERROR_ALREADY_EXISTS :: u32 where "ERROR_ALREADY_EXISTS \<equiv> 183"
abbreviation (input) ERROR_NOT_OWNER :: u32 where "ERROR_NOT_OWNER \<equiv> 288"
abbreviation (input) ERROR_TIMEOUT :: u32 where "ERROR_TIMEOUT \<equiv> 1460"
abbreviation (input) ERROR_TOO_MANY_POSTS :: u32 where "ERROR_TOO_MANY_POSTS \<equiv> 298"
abbreviation (input) ERROR_SEM_TIMEOUT :: u32 where "ERROR_SEM_TIMEOUT \<equiv> 121"
abbreviation (input) ERROR_SXS_KEY_NOT_FOUND :: u32 where "ERROR_SXS_KEY_NOT_FOUND \<equiv> 14007"
abbreviation (input) ERROR_FILE_INVALID :: u32 where "ERROR_FILE_INVALID \<equiv> 1006"
abbreviation (input) STATUS_SUCCESS :: u32 where "STATUS_SUCCESS \<equiv> 0x00000000"
abbreviation (input) STATUS_INVALID_HANDLE :: u32 where "STATUS_INVALID_HANDLE \<equiv> 0xC0000008"
abbreviation (input) STATUS_INVALID_PARAMETER :: u32 where "STATUS_INVALID_PARAMETER \<equiv> 0xC000000D"
abbreviation (input) STATUS_INVALID_INFO_CLASS :: u32 where "STATUS_INVALID_INFO_CLASS \<equiv> 0xC0000003"
abbreviation (input) STATUS_INFO_LENGTH_MISMATCH :: u32 where "STATUS_INFO_LENGTH_MISMATCH \<equiv> 0xC0000004"
abbreviation (input) STATUS_NOT_IMPLEMENTED :: u32 where "STATUS_NOT_IMPLEMENTED \<equiv> 0xC0000002"
abbreviation (input) STATUS_ACCESS_VIOLATION :: u32 where "STATUS_ACCESS_VIOLATION \<equiv> 0xC0000005"
abbreviation (input) STATUS_END_OF_FILE :: u32 where "STATUS_END_OF_FILE \<equiv> 0xC0000011"
abbreviation (input) STATUS_OBJECT_TYPE_MISMATCH :: u32 where "STATUS_OBJECT_TYPE_MISMATCH \<equiv> 0xC0000024"
abbreviation (input) STATUS_PENDING :: u32 where "STATUS_PENDING \<equiv> 0x00000103"
abbreviation (input) STATUS_NOT_SUPPORTED :: u32 where "STATUS_NOT_SUPPORTED \<equiv> 0xC00000BB"
abbreviation (input) STATUS_UNEXPECTED_IO_ERROR :: u32 where "STATUS_UNEXPECTED_IO_ERROR \<equiv> 0xC00000E9"
abbreviation (input) STATUS_PIPE_BROKEN :: u32 where "STATUS_PIPE_BROKEN \<equiv> 0xC000014B"

text \<open>The host errors the sources name; every other value is \<open>OtherErrno\<close>.\<close>

datatype errno = ESUCCESS | EACCES | EEXIST | ENOENT | ENOTDIR | ENOMEM | ENOSPC | EINVAL | EINTR | EIO
  | EPIPE | ESPIPE | EBADF | EAGAIN | EPERM | EBUSY | ECONNRESET | EDQUOT | EFBIG | OtherErrno

section \<open>Translations\<close>

fun winErrorFromErrno :: "errno \<Rightarrow> u32" where
  "winErrorFromErrno ESUCCESS = ERROR_SUCCESS"
| "winErrorFromErrno EACCES = ERROR_ACCESS_DENIED"
| "winErrorFromErrno EEXIST = ERROR_ALREADY_EXISTS"
| "winErrorFromErrno ENOENT = ERROR_FILE_NOT_FOUND"
| "winErrorFromErrno ENOTDIR = ERROR_PATH_NOT_FOUND"
| "winErrorFromErrno ENOMEM = ERROR_NOT_ENOUGH_MEMORY"
| "winErrorFromErrno ENOSPC = ERROR_DISK_FULL"
| "winErrorFromErrno EINVAL = ERROR_INVALID_PARAMETER"
| "winErrorFromErrno EINTR = ERROR_OPERATION_ABORTED"
| "winErrorFromErrno EIO = ERROR_READ_FAULT"
| "winErrorFromErrno EPIPE = ERROR_BROKEN_PIPE"
| "winErrorFromErrno ESPIPE = ERROR_INVALID_PARAMETER"
| "winErrorFromErrno _ = ERROR_NOT_SUPPORTED"

definition statusFromWinError :: "u32 \<Rightarrow> u32" where
  "statusFromWinError e =
     (if e = ERROR_SUCCESS then STATUS_SUCCESS
      else if e = ERROR_INVALID_HANDLE then STATUS_INVALID_HANDLE
      else if e = ERROR_INVALID_PARAMETER then STATUS_INVALID_PARAMETER
      else if e = ERROR_HANDLE_EOF then STATUS_END_OF_FILE
      else STATUS_UNEXPECTED_IO_ERROR)"

definition statusFromErrno :: "errno \<Rightarrow> u32" where
  "statusFromErrno e = statusFromWinError (winErrorFromErrno e)"

definition winErrorFromNtStatus :: "u32 \<Rightarrow> u32" where
  "winErrorFromNtStatus st =
     (if st = STATUS_SUCCESS then ERROR_SUCCESS
      else if st = STATUS_PENDING then ERROR_IO_PENDING
      else if st = STATUS_END_OF_FILE then ERROR_HANDLE_EOF
      else if st = STATUS_INVALID_HANDLE then ERROR_INVALID_HANDLE
      else if st = STATUS_INVALID_PARAMETER then ERROR_INVALID_PARAMETER
      else if st = STATUS_PIPE_BROKEN then ERROR_BROKEN_PIPE
      else ERROR_NOT_SUPPORTED)"

section \<open>Facts\<close>

text \<open>Success is preserved in both directions, and nothing else becomes success.\<close>

lemma winErrorFromErrno_success: "winErrorFromErrno e = ERROR_SUCCESS \<longleftrightarrow> e = ESUCCESS"
  by (cases e) simp_all

lemma statusFromErrno_success: "statusFromErrno e = STATUS_SUCCESS \<longleftrightarrow> e = ESUCCESS"
  by (cases e) (simp_all add: statusFromErrno_def statusFromWinError_def)

lemma winErrorFromNtStatus_success: "winErrorFromNtStatus st = ERROR_SUCCESS \<longleftrightarrow> st = STATUS_SUCCESS"
  by (simp add: winErrorFromNtStatus_def)

text \<open>The errors a status exists for survive the round trip; all others become one generic error.\<close>

lemma winError_status_roundtrip:
  "winErrorFromNtStatus (statusFromWinError e) =
     (if e \<in> {ERROR_SUCCESS, ERROR_INVALID_HANDLE, ERROR_INVALID_PARAMETER, ERROR_HANDLE_EOF} then e
      else ERROR_NOT_SUPPORTED)"
  by (simp add: winErrorFromNtStatus_def statusFromWinError_def)

end
