(* ===== verification/Object_Namespace.thy ===== *)
theory Object_Namespace
  imports Handle_Table Error_Codes
begin

unbundle bit_operations_syntax

text \<open>
  The namespace of named objects (\<^verbatim>\<open>Namespace\<close> in \<^verbatim>\<open>src/src/handles.h\<close> and \<^verbatim>\<open>src/src/handles.cpp\<close>),
  the global handle table \<^verbatim>\<open>wibo::handles()\<close> whose callback removes an object's name with its
  last handle, and the guest calls of \<^verbatim>\<open>src/dll/kernel32/handleapi.cpp\<close>. The namespace holds
  weak references: the invariant of this theory is that they never dangle.
\<close>

section \<open>The namespace\<close>

record NsEntry =
  ns_obj :: objptr
  permanent :: bool

record WState = HState +
  mTable :: "(u16 list \<times> NsEntry) list"
  lastError :: u32


definition setLastError :: "u32 \<Rightarrow> 'a WState_scheme \<Rightarrow> 'a WState_scheme" where
  "setLastError e s = s\<lparr>lastError := e\<rparr>"

text \<open>\<^verbatim>\<open>Namespace::insert\<close>; the argument \<open>None\<close> is the null pointer.\<close>

definition ns_insert :: "u16 list \<Rightarrow> objptr option \<Rightarrow> bool \<Rightarrow> 'a WState_scheme \<Rightarrow> bool \<times> 'a WState_scheme" where
  "ns_insert name po perm s =
     (case po of
        None \<Rightarrow> (False, s)
      | Some p \<Rightarrow>
          if name = [] then (False, s)
          else if map_of (mTable s) name \<noteq> None then (False, s)
          else (True, s\<lparr>mTable := mTable s @ [(name, \<lparr>ns_obj = p, permanent = perm\<rparr>)]\<rparr>))"

text \<open>\<^verbatim>\<open>Namespace::remove\<close>: the first entry of the object that is not permanent is erased.\<close>

fun remove_entry :: "objptr \<Rightarrow> (u16 list \<times> NsEntry) list \<Rightarrow> (u16 list \<times> NsEntry) list" where
  "remove_entry p [] = []"
| "remove_entry p ((n, e) # es) =
     (if ns_obj e = p \<and> \<not> permanent e then es else (n, e) # remove_entry p es)"

definition ns_remove :: "objptr \<Rightarrow> 'a WState_scheme \<Rightarrow> 'a WState_scheme" where
  "ns_remove p s = s\<lparr>mTable := remove_entry p (mTable s)\<rparr>"

definition ns_get :: "u16 list \<Rightarrow> 'a WState_scheme \<Rightarrow> objptr option \<times> 'a WState_scheme" where
  "ns_get name s =
     (if name = [] then (None, s)
      else case map_of (mTable s) name of
        None \<Rightarrow> (None, s)
      | Some e \<Rightarrow> (Some (ns_obj e), s\<lparr>objects := ref (ns_obj e) (objects s)\<rparr>))"

text \<open>\<^verbatim>\<open>Pin::downcast<T>\<close> for a type with a \<^verbatim>\<open>kType\<close>: on a mismatch the pin is dropped.\<close>

definition downcast :: "ObjectType \<Rightarrow> objptr \<Rightarrow> 'a WState_scheme \<Rightarrow> objptr option \<times> 'a WState_scheme" where
  "downcast T p s =
     (if (case objects s p of Some ob \<Rightarrow> otype ob = T | None \<Rightarrow> False) then (Some p, s)
      else (None, s\<lparr>objects := deref p (objects s)\<rparr>))"

definition ns_getAs :: "ObjectType \<Rightarrow> u16 list \<Rightarrow> 'a WState_scheme \<Rightarrow> objptr option \<times> 'a WState_scheme" where
  "ns_getAs T name s =
     (case ns_get name s of (None, s') \<Rightarrow> (None, s') | (Some p, s') \<Rightarrow> downcast T p s')"

text \<open>
  \<^verbatim>\<open>Namespace::getOrCreate\<close>. The factory makes an object of type \<open>T\<close> at the address \<open>p\<close> the
  allocator returns, or the null pointer when \<open>mk\<close> is false.
\<close>

definition getOrCreate :: "u16 list \<Rightarrow> ObjectType \<Rightarrow> u16 \<Rightarrow> bool \<Rightarrow> objptr
    \<Rightarrow> 'a WState_scheme \<Rightarrow> (objptr option \<times> bool) \<times> 'a WState_scheme" where
  "getOrCreate name T fl mk p s =
     (let created = s\<lparr>objects := make_pin p T fl (objects s)\<rparr> in
      if name = [] then (if mk then ((Some p, True), created) else ((None, True), s))
      else case ns_get name s of
        (Some q, s1) \<Rightarrow> (case downcast T q s1 of (r, s2) \<Rightarrow> ((r, False), s2))
      | (None, s1) \<Rightarrow>
          if \<not> mk then ((None, False), s1)
          else case ns_insert name (Some p) False created of
            (True, s2) \<Rightarrow> ((Some p, True), s2)
          | (False, s2) \<Rightarrow>
              (case ns_getAs T name s2 of
                 (r, s3) \<Rightarrow> ((r, False), s3\<lparr>objects := deref p (objects s3)\<rparr>)))"

section \<open>The global table and the guest calls\<close>

text \<open>\<^verbatim>\<open>wibo::handles()\<close> installs \<^verbatim>\<open>g_namespace.remove\<close> as the table's callback.\<close>

definition on_handle_zero :: "(objptr \<Rightarrow> 'a WState_scheme \<Rightarrow> 'a WState_scheme) option" where
  "on_handle_zero = Some ns_remove"

definition CloseHandle :: "HANDLE \<Rightarrow> 'a WState_scheme \<Rightarrow> bool \<times> 'a WState_scheme" where
  "CloseHandle h s =
     (case release on_handle_zero h s of
        (True, s') \<Rightarrow> (True, s')
      | (False, s') \<Rightarrow> (False, setLastError ERROR_INVALID_HANDLE s'))"

definition SetHandleInformation :: "HANDLE \<Rightarrow> u32 \<Rightarrow> u32 \<Rightarrow> 'a WState_scheme \<Rightarrow> bool \<times> 'a WState_scheme" where
  "SetHandleInformation h dwMask dwFlags s =
     (case setInformation h dwMask dwFlags s of
        (True, s') \<Rightarrow> (True, s')
      | (False, s') \<Rightarrow> (False, setLastError ERROR_INVALID_HANDLE s'))"

text \<open>
  \<^verbatim>\<open>DuplicateHandle\<close>. \<open>isSelf\<close> tells which process objects carry the pid of this process;
  \<open>p\<close> is the address of the object made for a pseudo handle, \<open>hasOut\<close> that
  \<^verbatim>\<open>lpTargetHandle\<close> is not null.
\<close>

definition validateProcessHandle :: "(objptr \<Rightarrow> bool) \<Rightarrow> HANDLE \<Rightarrow> 'a WState_scheme \<Rightarrow> bool \<times> 'a WState_scheme" where
  "validateProcessHandle isSelf h s =
     (if h = - 1 then (True, s)
      else case getAs Process h s of
        (None, s') \<Rightarrow> (False, s')
      | (Some (q, m), s') \<Rightarrow> (isSelf q, s'\<lparr>objects := deref q (objects s')\<rparr>))"

definition DuplicateHandle :: "(objptr \<Rightarrow> bool) \<Rightarrow> objptr \<Rightarrow> HANDLE \<Rightarrow> HANDLE \<Rightarrow> HANDLE \<Rightarrow> bool
    \<Rightarrow> u32 \<Rightarrow> bool \<Rightarrow> u32 \<Rightarrow> 'a WState_scheme \<Rightarrow> HANDLE option \<times> 'a WState_scheme" where
  "DuplicateHandle isSelf p hSrcProc hSrc hDstProc hasOut access inherit options s =
     (if \<not> hasOut then (None, setLastError ERROR_INVALID_PARAMETER s)
      else case validateProcessHandle isSelf hSrcProc s of
        (False, s1) \<Rightarrow> (None, setLastError ERROR_INVALID_HANDLE s1)
      | (True, s1) \<Rightarrow>
        (case validateProcessHandle isSelf hDstProc s1 of
           (False, s2) \<Rightarrow> (None, setLastError ERROR_INVALID_HANDLE s2)
         | (True, s2) \<Rightarrow>
             if hSrc = - 1 then
               (case alloc p 0 0 (s2\<lparr>objects := make_pin p Process Of_Waitable (objects s2)\<rparr>) of
                  (h, s3) \<Rightarrow> (Some h, s3))
             else if hSrc = - 2 then
               (case alloc p 0 0 (s2\<lparr>objects := make_pin p Thread Of_Waitable (objects s2)\<rparr>) of
                  (h, s3) \<Rightarrow> (Some h, s3))
             else case duplicateTo on_handle_zero hSrc access inherit options s2 of
               (None, s3) \<Rightarrow> (None, setLastError ERROR_INVALID_HANDLE s3)
             | (Some h, s3) \<Rightarrow> (Some h, s3)))"

text \<open>
  The shape shared by \<^verbatim>\<open>CreateMutexW\<close>, \<^verbatim>\<open>CreateEventW\<close> and \<^verbatim>\<open>CreateSemaphoreW\<close> of
  \<^verbatim>\<open>src/dll/kernel32/synchapi.cpp\<close>: find or create the named object, then give it a handle.
\<close>

definition create_named :: "u16 list \<Rightarrow> ObjectType \<Rightarrow> u16 \<Rightarrow> bool \<Rightarrow> objptr \<Rightarrow> u32 \<Rightarrow> u32
    \<Rightarrow> 'a WState_scheme \<Rightarrow> HANDLE \<times> 'a WState_scheme" where
  "create_named name T fl mk p access hflags s =
     (case getOrCreate name T fl mk p s of
        ((None, created), s1) \<Rightarrow> (NO_HANDLE, setLastError ERROR_INVALID_HANDLE s1)
      | ((Some q, created), s1) \<Rightarrow>
          (case alloc q access hflags s1 of
             (h, s2) \<Rightarrow>
               (h, setLastError (if created then ERROR_SUCCESS else ERROR_ALREADY_EXISTS) s2)))"

interpretation global_table: zero_callback on_handle_zero
  by unfold_locales (auto simp: on_handle_zero_def ns_remove_def)

section \<open>The invariant of the object manager\<close>

text \<open>
  Names are unique, an object has one name, and every named object is held by at least
  one open handle, so a weak reference of the namespace is never dangling.
\<close>

definition ns_ok :: "'a WState_scheme \<Rightarrow> bool" where
  "ns_ok s \<longleftrightarrow> distinct (map fst (mTable s)) \<and> distinct (map (\<lambda>x. ns_obj (snd x)) (mTable s)) \<and>
     (\<forall>x \<in> set (mTable s). fst x \<noteq> [] \<and> \<not> permanent (snd x) \<and>
        0 < slot_count (table s) (ns_obj (snd x)))"

definition om_inv :: "(objptr \<Rightarrow> nat) \<Rightarrow> 'a WState_scheme \<Rightarrow> bool" where
  "om_inv pins s \<longleftrightarrow> table_wf (table s) \<and> refs_ok pins s \<and> ns_ok s"

lemma om_invD:
  assumes "om_inv pins s"
  shows "table_wf (table s)" and "refs_ok pins s" and "ns_ok s"
  using assms by (auto simp: om_inv_def)

lemma remove_entry_idem: "\<forall>x \<in> set es. ns_obj (snd x) \<noteq> p \<Longrightarrow> remove_entry p es = es"
  by (induction p es rule: remove_entry.induct) auto

lemma remove_entry_filter:
  "distinct (map (\<lambda>x. ns_obj (snd x)) es) \<Longrightarrow> \<forall>x \<in> set es. \<not> permanent (snd x) \<Longrightarrow>
   remove_entry p es = filter (\<lambda>x. ns_obj (snd x) \<noteq> p) es"
proof (induction p es rule: remove_entry.induct)
  case (1 p)
  then show ?case by simp
next
  case (2 p n e es)
  show ?case
  proof (cases "ns_obj e = p")
    case True
    with 2 have "\<forall>x \<in> set es. ns_obj (snd x) \<noteq> p" by force
    with 2 True show ?thesis by (auto simp: filter_id_conv)
  next
    case False
    with 2 show ?thesis by simp
  qed
qed

lemma ns_ok_remove:
  assumes "ns_ok s"
  shows "mTable (ns_remove p s) = filter (\<lambda>x. ns_obj (snd x) \<noteq> p) (mTable s)"
  using assms remove_entry_filter [of "mTable s" p] by (simp add: ns_ok_def ns_remove_def)

lemma ns_ok_filter:
  assumes "ns_ok s" and "mTable s' = filter P (mTable s)"
    and "\<And>x. x \<in> set (mTable s) \<Longrightarrow> P x \<Longrightarrow> 0 < slot_count (table s') (ns_obj (snd x))"
  shows "ns_ok s'"
  using assms unfolding ns_ok_def by (auto simp: distinct_map_filter)

lemma counts_make:
  assumes ok: "counts_ok pins os cnt" and p: "os p = None"
  shows "counts_ok (pins(p := 1)) (make_pin p T fl os) cnt"
    and "make_pin p T fl os = os(p \<mapsto> (new_object T fl)\<lparr>pointerCount := 1\<rparr>)"
proof -
  show m: "make_pin p T fl os = os(p \<mapsto> (new_object T fl)\<lparr>pointerCount := 1\<rparr>)"
    by (simp add: make_pin_def ref_def new_object_def)
  show "counts_ok (pins(p := 1)) (make_pin p T fl os) cnt"
    using counts_okD(1,2) [OF ok p] m
    by (intro counts_okI_at [OF ok, where p = p]) (auto simp: new_object_def)
qed

subsection \<open>Closing\<close>

lemma release_mTable:
  assumes inv: "om_inv pins s"
    and e: "entry_of (table s) h = Some (i, e)" "obj e = Some p" "\<not> isPseudo h"
      "mflags (meta e) AND HANDLE_FLAG_PROTECT_FROM_CLOSE = 0"
  shows "mTable (snd (release on_handle_zero h s)) =
     (if slot_count (table s) p = 1 then filter (\<lambda>x. ns_obj (snd x) \<noteq> p) (mTable s) else mTable s)"
    and "slot_count (table (snd (release on_handle_zero h s))) =
     (slot_count (table s))(p := slot_count (table s) p - 1)"
proof -
  note d = om_invD [OF inv]
  note sc = global_table.release_slot_count [OF d(1) e(1,2,4)]
  note c = sc(2)
  obtain ob where ob: "objects s p = Some ob" using d(2) c by (rule refs_ok_live [OF _ disjI2])
  have z: "handleCount ob - 1 = 0 \<longleftrightarrow> slot_count (table s) p = 1"
    using counts_release(2) [of pins "objects s" "slot_count (table s)" p, OF _ c ob] d(2) by (simp add: refs_ok_def)
  have rf: "remove_entry p (mTable s) = filter (\<lambda>x. ns_obj (snd x) \<noteq> p) (mTable s)"
    using ns_ok_remove [OF d(3), of p] by (simp add: ns_remove_def)
  show "mTable (snd (release on_handle_zero h s)) =
     (if slot_count (table s) p = 1 then filter (\<lambda>x. ns_obj (snd x) \<noteq> p) (mTable s) else mTable s)"
    using e ob z rf by (simp add: release_def Let_def on_handle_zero_def ns_remove_def)
  show "slot_count (table (snd (release on_handle_zero h s))) =
     (slot_count (table s))(p := slot_count (table s) p - 1)"
    by (rule sc(1))
qed

lemma release_om_inv [inv_intros]:
  assumes inv: "om_inv pins s"
  shows "om_inv pins (snd (release on_handle_zero h s))"
proof -
  note d = om_invD [OF inv]
  have "ns_ok (snd (release on_handle_zero h s))"
    using d(1)
  proof (cases rule: global_table.release_cases [of s h])
    case unchanged
    with d(3) show ?thesis by simp
  next
    case (closed i e p)
    note rm = release_mTable [OF inv closed(1,2,5,4)]
    have pos: "0 < slot_count (table s) (ns_obj (snd x))" if "x \<in> set (mTable s)" for x
      using d(3) that by (simp add: ns_ok_def)
    show ?thesis
    proof (rule ns_ok_filter [OF d(3), where P = "\<lambda>x. slot_count (table s) p = 1 \<longrightarrow> ns_obj (snd x) \<noteq> p"])
      show "mTable (snd (release on_handle_zero h s)) =
          filter (\<lambda>x. slot_count (table s) p = 1 \<longrightarrow> ns_obj (snd x) \<noteq> p) (mTable s)"
        using rm(1) by simp
      show "0 < slot_count (table (snd (release on_handle_zero h s))) (ns_obj (snd x))"
        if "x \<in> set (mTable s)" and "slot_count (table s) p = 1 \<longrightarrow> ns_obj (snd x) \<noteq> p" for x
        using that rm(2) pos [OF that(1)] by auto
    qed
  qed
  with global_table.release_wf [OF d(1)] global_table.release_refs [OF d(1,2)] show ?thesis
    by (simp add: om_inv_def)
qed

subsection \<open>Pinning, unpinning and creating\<close>

lemma ns_ok_slots:
  assumes "ns_ok s" and "mTable s' = mTable s" and "\<And>p. slot_count (table s) p \<le> slot_count (table s') p"
  shows "ns_ok s'"
  using assms(1,2) order_less_le_trans [OF _ assms(3)] by (simp add: ns_ok_def)

lemma get_om_inv [inv_intros]:
  assumes inv: "om_inv pins s" and g: "get h s = (Some (p, m), s')"
    and b: "\<And>ob. objects s p = Some ob \<Longrightarrow> unat (pointerCount ob) + 1 < 2 ^ 32"
  shows "om_inv (pins(p := pins p + 1)) s'"
proof -
  note d = om_invD [OF inv]
  note gr = get_refs [OF d(2,1) g b]
  have "mTable s' = mTable s" using g by (auto simp: get_def split: if_splits option.splits)
  then have "ns_ok s'" by (rule ns_ok_slots [OF d(3)]) (simp add: gr(2))
  with gr d(1) show ?thesis by (simp add: om_inv_def)
qed

lemma unpin_om_inv [inv_intros]:
  assumes "om_inv pins s" and "0 < pins p"
  shows "om_inv (pins(p := pins p - 1)) (s\<lparr>objects := deref p (objects s)\<rparr>)"
  using assms counts_unpin [of pins "objects s" "slot_count (table s)" p]
  by (simp add: om_inv_def refs_ok_def ns_ok_def)

lemma alloc_mTable [simp]: "mTable (snd (alloc p access fl s)) = mTable s"
  by (simp add: alloc_def Let_def split: prod.split)

lemma alloc_om_inv [inv_intros]:
  assumes inv: "om_inv pins s" and room: "length (mSlots (table s)) < kMaxSlots" and p: "0 < pins p"
    and a: "alloc p access fl s = (h, s')"
  shows "om_inv (pins(p := pins p - 1)) s'"
proof -
  note d = om_invD [OF inv]
  have mt: "mTable s' = mTable s" using alloc_mTable [of p access fl s] a by simp
  have "ns_ok s'"
    by (rule ns_ok_slots [OF d(3) mt]) (simp add: slot_count_alloc [OF d(1) room a])
  moreover have "table_wf (table s')" using alloc_wf [OF d(1) room, of p access fl] a by simp
  ultimately show ?thesis using alloc_refs [OF d(1) room d(2) p a] by (simp add: om_inv_def)
qed

lemma setInformation_om_inv [inv_intros]:
  assumes inv: "om_inv pins s"
  shows "om_inv pins (snd (setInformation h msk value s))"
proof -
  note d = om_invD [OF inv]
  let ?s = "snd (setInformation h msk value s)"
  have sc: "slot_count (table ?s) = slot_count (table s)"
  proof (cases "isPseudo h \<or> entry_of (table s) h = None")
    case True
    then show ?thesis by (auto simp: setInformation_def)
  next
    case False
    then obtain i e where e: "entry_of (table s) h = Some (i, e)" and np: "\<not> isPseudo h" by auto
    note ed = entry_of_SomeD [OF e table_wfD(2) [OF d(1)]]
    obtain e' where "mSlots (table ?s) = (mSlots (table s))[i := e']" "obj e' = obj e"
      using np e by (rule setInformation_entry)
    then have "slot_count (table ?s) q = slot_count (table s) q" for q
      using slot_count_update [OF ed(1), of "table ?s" e' q] ed(2) by (simp split: if_splits)
    then show ?thesis by (rule ext)
  qed
  have o: "objects ?s = objects s" and m: "mTable ?s = mTable s"
    by (auto simp: setInformation_def Let_def split: option.splits)
  show ?thesis
    using setInformation_wf [OF d(1)] d(2,3) sc o m by (simp add: om_inv_def refs_ok_def ns_ok_def)
qed

text \<open>The counters of a state with this many references to spare do not wrap in a call.\<close>

definition counters_spare :: "'a HState_scheme \<Rightarrow> bool" where
  "counters_spare s \<longleftrightarrow> (\<forall>q ob. objects s q = Some ob \<longrightarrow> unat (pointerCount ob) + 1 < 2 ^ 32)"

text \<open>
  What a call of \<^const>\<open>getOrCreate\<close> leaves behind, in one of four shapes: nothing new, an
  existing object pinned, an unnamed object, or a new object whose name is registered.
\<close>

lemma getOrCreate_cases:
  assumes inv: "om_inv pins s" and fresh: "objects s p = None"
    and sp: "counters_spare s"
    and g: "getOrCreate name T fl mk p s = ((r, created), s')"
  obtains (none) "r = None" "om_inv pins s'" "mTable s' = mTable s" "table s' = table s"
  | (existing) q e where "r = Some q" "\<not> created" "map_of (mTable s) name = Some e" "ns_obj e = q"
      "om_inv (pins(q := pins q + 1)) s'" "mTable s' = mTable s" "table s' = table s"
      "(\<exists>ob. objects s q = Some ob \<and> otype ob = T)"
  | (unnamed) "r = Some p" "created" "name = []" "om_inv (pins(p := 1)) s'" "mTable s' = mTable s"
      "table s' = table s"
  | (named) "r = Some p" "created" "name \<noteq> []" "map_of (mTable s) name = None"
      "mTable s' = mTable s @ [(name, \<lparr>ns_obj = p, permanent = False\<rparr>)]" "table s' = table s"
      "refs_ok (pins(p := 1)) s'"
proof (cases "name = []")
  case True
  show ?thesis
  proof (cases mk)
    case True
    with \<open>name = []\<close> g have "r = Some p" "created" "s' = s\<lparr>objects := make_pin p T fl (objects s)\<rparr>"
      by (auto simp: getOrCreate_def Let_def)
    moreover from this inv have "om_inv (pins(p := 1)) s'"
      using counts_make(1) [of pins "objects s" "slot_count (table s)" p, OF _ fresh]
      by (simp add: om_inv_def refs_ok_def ns_ok_def)
    ultimately show ?thesis using unnamed \<open>name = []\<close> by simp
  next
    case False
    with \<open>name = []\<close> g have "r = None" "s' = s" by (auto simp: getOrCreate_def Let_def)
    with inv show ?thesis using none by simp
  qed
next
  case nonempty: False
  show ?thesis
  proof (cases "map_of (mTable s) name")
    case None
    show ?thesis
    proof (cases mk)
      case True
      have "r = Some p" "created"
        and s': "s' = s\<lparr>objects := make_pin p T fl (objects s),
          mTable := mTable s @ [(name, \<lparr>ns_obj = p, permanent = False\<rparr>)]\<rparr>"
        using g nonempty None True by (auto simp: getOrCreate_def Let_def ns_get_def ns_insert_def)
      moreover have "refs_ok (pins(p := 1)) s'"
        using counts_make(1) [of pins "objects s" "slot_count (table s)" p, OF _ fresh] om_invD(2) [OF inv] s'
        by (simp add: refs_ok_def)
      ultimately show ?thesis using named nonempty None by simp
    next
      case False
      with nonempty None g have "r = None" "s' = s"
        by (auto simp: getOrCreate_def Let_def ns_get_def)
      with inv show ?thesis using none by simp
    qed
  next
    case (Some e)
    let ?q = "ns_obj e"
    have c: "0 < slot_count (table s) ?q"
      using om_invD(3) [OF inv] map_of_SomeD [OF Some] by (auto simp: ns_ok_def)
    obtain ob where ob: "objects s ?q = Some ob"
      using om_invD(2) [OF inv] c by (rule refs_ok_live [OF _ disjI2])
    let ?s1 = "s\<lparr>objects := ref ?q (objects s)\<rparr>"
    have i1: "om_inv (pins(?q := pins ?q + 1)) ?s1"
      using counts_ref [of pins "objects s" "slot_count (table s)" ?q, OF _ ob] ob inv sp
      by (simp add: om_inv_def refs_ok_def ns_ok_def counters_spare_def)
    have t1: "(case objects ?s1 ?q of Some ob \<Rightarrow> otype ob = T | None \<Rightarrow> False) \<longleftrightarrow> otype ob = T"
      using ob by (simp add: ref_def)
    have gg: "getOrCreate name T fl mk p s = (case downcast T ?q ?s1 of (r, s2) \<Rightarrow> ((r, False), s2))"
      using nonempty Some by (simp add: getOrCreate_def Let_def ns_get_def)
    show ?thesis
    proof (cases "otype ob = T")
      case True
      with gg g t1 have "r = Some ?q" "\<not> created" "s' = ?s1" by (auto simp: downcast_def)
      with i1 Some ob True show ?thesis using existing by simp
    next
      case False
      with gg g t1 have r: "r = None" "s' = ?s1\<lparr>objects := deref ?q (objects ?s1)\<rparr>"
        by (auto simp: downcast_def)
      have "om_inv pins s'" using unpin_om_inv [OF i1, of ?q] r by simp
      with r show ?thesis using none by simp
    qed
  qed
qed

lemma om_inv_lastError [simp]: "om_inv pins (setLastError e s) = om_inv pins s"
  by (simp add: om_inv_def refs_ok_def ns_ok_def setLastError_def)

lemma create_named_om_inv [inv_intros]:
  assumes inv: "om_inv pins s" and fresh: "objects s p = None" and sp: "counters_spare s"
    and room: "length (mSlots (table s)) < kMaxSlots"
  shows "om_inv pins (snd (create_named name T fl mk p access hflags s))"
proof -
  obtain r c s1 where g: "getOrCreate name T fl mk p s = ((r, c), s1)" by (metis surj_pair)
  have p0: "pins p = 0"
    using counts_okD(1) [of pins "objects s", OF _ fresh] om_invD(2) [OF inv] by (auto simp: refs_ok_def)
  obtain h s2 where a: "\<And>q. r = Some q \<Longrightarrow> alloc q access hflags s1 = (h, s2)"
    by (metis option.inject surj_pair)
  have eq: "r = Some q \<Longrightarrow> om_inv pins (snd (create_named name T fl mk p access hflags s)) = om_inv pins s2" for q
    using g a by (simp add: create_named_def)
  from inv fresh sp g show ?thesis
  proof (cases rule: getOrCreate_cases)
    case none
    with g show ?thesis by (simp add: create_named_def)
  next
    case (existing q e)
    with alloc_om_inv [OF existing(5) _ _ a [OF existing(1)]] room have "om_inv pins s2" by simp
    with eq [OF existing(1)] show ?thesis by simp
  next
    case unnamed
    with alloc_om_inv [OF unnamed(4) _ _ a [OF unnamed(1)]] room p0 have "om_inv pins s2"
      by (simp add: fun_upd_idem)
    with eq [OF unnamed(1)] show ?thesis by simp
  next
    case named
    have wf1: "table_wf (table s1)" and room1: "length (mSlots (table s1)) < kMaxSlots"
      using om_invD(1) [OF inv] room named(6) by simp_all
    note al = a [OF named(1)]
    have "table_wf (table s2)" using alloc_wf [OF wf1 room1, of p access hflags] al by simp
    moreover have "refs_ok pins s2"
      using alloc_refs [OF wf1 room1 named(7) _ al] p0 by (simp add: fun_upd_idem)
    moreover have "ns_ok s2"
    proof -
      note n = om_invD(3) [OF inv]
      have mt: "mTable s2 = mTable s @ [(name, \<lparr>ns_obj = p, permanent = False\<rparr>)]"
        using alloc_mTable [of p access hflags s1] al named(5) by simp
      have sc: "slot_count (table s2) = (slot_count (table s))(p := slot_count (table s) p + 1)"
        using slot_count_alloc [OF wf1 room1 al] named(6) by simp
      have "slot_count (table s) p = 0"
        using counts_okD(2) [of pins "objects s", OF _ fresh] om_invD(2) [OF inv] by (auto simp: refs_ok_def)
      then have "\<forall>x \<in> set (mTable s). ns_obj (snd x) \<noteq> p" using n by (auto simp: ns_ok_def)
      then show ?thesis
        using n mt sc named(3,4) by (auto simp: ns_ok_def map_of_eq_None_iff)
    qed
    ultimately have "om_inv pins s2" by (simp add: om_inv_def)
    with eq [OF named(1)] show ?thesis by simp
  qed
qed

lemma getAs_om_inv:
  assumes inv: "om_inv pins s" and sp: "counters_spare s" and g: "getAs T h s = (r, s')"
  shows "case r of None \<Rightarrow> om_inv pins s'
         | Some (p, m) \<Rightarrow> om_inv (pins(p := pins p + 1)) s'"
    and "table s' = table s"
proof -
  obtain o1 s1 where g1: "get h s = (o1, s1)" by fastforce
  have t: "table s1 = table s" using g1 by (auto simp: get_def split: if_splits option.splits)
  then show "table s' = table s" using g g1 by (auto simp: getAs_def split: option.splits if_splits)
  show "case r of None \<Rightarrow> om_inv pins s' | Some (p, m) \<Rightarrow> om_inv (pins(p := pins p + 1)) s'"
  proof (cases o1)
    case None
    with g1 have "s1 = s" by (auto simp: get_def split: if_splits option.splits)
    with None g g1 inv show ?thesis by (simp add: getAs_def)
  next
    case (Some pm)
    obtain p m where pm: "pm = (p, m)" by fastforce
    have i1: "om_inv (pins(p := pins p + 1)) s1"
      using get_om_inv [OF inv] g1 Some pm sp by (simp add: counters_spare_def)
    with unpin_om_inv [OF i1, of p] g g1 Some pm show ?thesis
      by (auto simp: getAs_def split: if_splits)
  qed
qed

lemma validateProcessHandle_om_inv [inv_intros]:
  assumes inv: "om_inv pins s" and sp: "counters_spare s"
  shows "om_inv pins (snd (validateProcessHandle isSelf h s))"
proof (cases "h = - 1")
  case True
  with inv show ?thesis by (simp add: validateProcessHandle_def)
next
  case False
  obtain r s' where g: "getAs Process h s = (r, s')" by fastforce
  show ?thesis
  proof (cases r)
    case None
    with getAs_om_inv [OF inv sp g] g False show ?thesis by (simp add: validateProcessHandle_def)
  next
    case (Some pm)
    obtain p m where pm: "pm = (p, m)" by fastforce
    have i1: "om_inv (pins(p := pins p + 1)) s'" using getAs_om_inv(1) [OF inv sp g] Some pm by simp
    from unpin_om_inv [OF i1, of p] g Some pm False show ?thesis
      by (simp add: validateProcessHandle_def)
  qed
qed

lemma duplicateTo_om_inv [inv_intros]:
  assumes inv: "om_inv pins s" and sp: "counters_spare s" and room: "length (mSlots (table s)) < kMaxSlots"
  shows "om_inv pins (snd (duplicateTo on_handle_zero src access inherit options s))"
proof -
  obtain r s1 where g: "get src s = (r, s1)" by fastforce
  show ?thesis
  proof (cases r)
    case None
    with g have "s1 = s" by (auto simp: get_def split: if_splits option.splits)
    with None g inv show ?thesis by (simp add: duplicateTo_def)
  next
    case (Some pm)
    obtain p m where pm: "pm = (p, m)" by fastforce
    have i1: "om_inv (pins(p := pins p + 1)) s1"
      using get_om_inv [OF inv] g Some pm sp by (simp add: counters_spare_def)
    have u: "om_inv pins (s1\<lparr>objects := deref p (objects s1)\<rparr>)" using unpin_om_inv [OF i1, of p] by simp
    have "table s1 = table s" using g by (auto simp: get_def split: if_splits option.splits)
    then have al: "om_inv pins (snd (alloc p acc fl s1))" for acc fl
      using alloc_om_inv [OF i1, of p acc fl] room by (metis (no_types, lifting) add.commute
          add_diff_cancel_left' fun_upd_same fun_upd_triv fun_upd_upd plus_1_eq_Suc prod.collapse zero_less_Suc)
    show ?thesis
      using u al [THEN release_om_inv] al g Some pm
      by (auto simp: duplicateTo_def Let_def split: prod.splits) (metis snd_conv)+
  qed
qed

section \<open>The guest calls as a transition system\<close>

text \<open>
  A state is paired with the pins held outside the table. Each rule is one call a guest
  thread makes (or the end of a pin's life); the premises are what the C++ runtime gives:
  a new object is at a free address, and counters and table stay below their 32-bit limits.
\<close>

definition om_init :: "(objptr \<Rightarrow> nat) \<times> WState \<Rightarrow> bool" where
  "om_init = (\<lambda>(pins, s). pins = (\<lambda>_. 0) \<and>
     s = \<lparr>objects = Map.empty, table = empty_table, mTable = [], lastError = 0\<rparr>)"

inductive om_step :: "(objptr \<Rightarrow> nat) \<times> WState \<Rightarrow> (objptr \<Rightarrow> nat) \<times> WState \<Rightarrow> bool" where
  create: "objects s p = None \<Longrightarrow> counters_spare s \<Longrightarrow> length (mSlots (table s)) < kMaxSlots \<Longrightarrow>
    create_named name T fl mk p access hflags s = (h, s') \<Longrightarrow> om_step (pins, s) (pins, s')"
| close: "CloseHandle h s = (r, s') \<Longrightarrow> om_step (pins, s) (pins, s')"
| set_information: "SetHandleInformation h msk v s = (r, s') \<Longrightarrow> om_step (pins, s) (pins, s')"
| duplicate: "counters_spare s \<Longrightarrow> length (mSlots (table s)) < kMaxSlots \<Longrightarrow>
    duplicateTo on_handle_zero src access inherit options s = (r, s') \<Longrightarrow> om_step (pins, s) (pins, s')"
| pin: "counters_spare s \<Longrightarrow> get h s = (Some (p, m), s') \<Longrightarrow>
    om_step (pins, s) (pins(p := pins p + 1), s')"
| unpin: "0 < pins p \<Longrightarrow>
    om_step (pins, s) (pins(p := pins p - 1), s\<lparr>objects := deref p (objects s)\<rparr>)"

lemma CloseHandle_om_inv [inv_intros]: "om_inv pins s \<Longrightarrow> om_inv pins (snd (CloseHandle h s))"
  using release_om_inv [of pins s h]
  by (cases "release on_handle_zero h s") (auto simp: CloseHandle_def split: bool.split)

lemma SetHandleInformation_om_inv [inv_intros]:
  "om_inv pins s \<Longrightarrow> om_inv pins (snd (SetHandleInformation h msk v s))"
  using setInformation_om_inv [of pins s h msk v]
  by (cases "setInformation h msk v s") (auto simp: SetHandleInformation_def split: bool.split)

lemma om_step_inv: "om_step x y \<Longrightarrow> om_inv (fst x) (snd x) \<Longrightarrow> om_inv (fst y) (snd y)"
proof (induction rule: om_step.induct)
  case (create s p name T fl mk access hflags h s' pins)
  then show ?case using create_named_om_inv [of pins s p name T fl mk access hflags] by simp
next
  case (close h s r s' pins)
  then show ?case using CloseHandle_om_inv [of pins s h] by simp
next
  case (set_information h msk v s r s' pins)
  then show ?case using SetHandleInformation_om_inv [of pins s h msk v] by simp
next
  case (duplicate s src access inherit options r s' pins)
  then show ?case using duplicateTo_om_inv [of pins s src access inherit options] by simp
next
  case (pin s h p m s' pins)
  then show ?case using get_om_inv [of pins s h p m s'] by (simp add: counters_spare_def fun_upd_def)
next
  case (unpin pins p s)
  then show ?case using unpin_om_inv [of pins s p] by (simp add: fun_upd_def)
qed

lemma om_init_inv: "om_init x \<Longrightarrow> om_inv (fst x) (snd x)"
  using table_wf_empty
  by (auto simp: om_init_def om_inv_def refs_ok_def counts_ok_def ns_ok_def slot_count_def empty_table_def)

interpretation object_manager: inductive_invariant om_init om_step "\<lambda>x. om_inv (fst x) (snd x)"
  by unfold_locales (auto intro: om_init_inv om_step_inv)

text \<open>What the invariant gives a client.\<close>

lemma om_inv_handle_live:
  assumes inv: "om_inv pins s" and e: "hview (table s) h = Some e" "obj e = Some p"
  shows "\<exists>ob. objects s p = Some ob \<and> 0 < handleCount ob"
proof -
  note d = om_invD [OF inv]
  obtain i where i: "entry_of (table s) h = Some (i, e)"
    using e(1) by (auto simp: hview_def)
  note ed = entry_of_SomeD [OF i table_wfD(2) [OF d(1)]]
  have c: "0 < slot_count (table s) p" using slot_count_pos [OF ed(1)] ed(2) e(2) by simp
  obtain ob where ob: "objects s p = Some ob" using d(2) c by (rule refs_ok_live [OF _ disjI2])
  then have "unat (handleCount ob) = slot_count (table s) p"
    using counts_okD(4) [of pins "objects s"] d(2) by (auto simp: refs_ok_def)
  with c ob show ?thesis by (metis unat_gt_0 word_gt_0)
qed

lemma om_inv_name_live:
  assumes inv: "om_inv pins s" and e: "map_of (mTable s) name = Some e"
  shows "\<exists>ob. objects s (ns_obj e) = Some ob \<and> 0 < handleCount ob"
proof -
  note d = om_invD [OF inv]
  have c: "0 < slot_count (table s) (ns_obj e)"
    using d(3) map_of_SomeD [OF e] by (auto simp: ns_ok_def)
  obtain ob where ob: "objects s (ns_obj e) = Some ob" using d(2) c by (rule refs_ok_live [OF _ disjI2])
  then have "unat (handleCount ob) = slot_count (table s) (ns_obj e)"
    using counts_okD(4) [of pins "objects s"] d(2) by (auto simp: refs_ok_def)
  with c ob show ?thesis by (metis unat_gt_0 word_gt_0)
qed

section \<open>Runs of calls on the table\<close>

datatype table_call =
    CallAlloc objptr u32 u32 | CallClose HANDLE | CallSet HANDLE u32 u32 | CallGet HANDLE

text \<open>The handles a sequence of calls hands out, and the state after it.\<close>

fun run_calls :: "table_call list \<Rightarrow> 'a WState_scheme \<Rightarrow> HANDLE list \<times> 'a WState_scheme" where
  "run_calls [] s = ([], s)"
| "run_calls (CallAlloc p access fl # cs) s =
     (case alloc p access fl s of (h, s1) \<Rightarrow> (case run_calls cs s1 of (hs, s2) \<Rightarrow> (h # hs, s2)))"
| "run_calls (CallClose h # cs) s = run_calls cs (snd (CloseHandle h s))"
| "run_calls (CallSet h m v # cs) s = run_calls cs (snd (SetHandleInformation h m v s))"
| "run_calls (CallGet h # cs) s = run_calls cs (snd (get h s))"

fun is_close :: "table_call \<Rightarrow> bool" where
  "is_close (CallClose h) = True"
| "is_close _ = False"

lemma CloseHandle_table: "table (snd (CloseHandle h s)) = table (snd (release on_handle_zero h s))"
  by (cases "release on_handle_zero h s") (auto simp: CloseHandle_def setLastError_def split: bool.split)

lemma SetHandleInformation_table:
  "table (snd (SetHandleInformation h m v s)) = table (snd (setInformation h m v s))"
  by (cases "setInformation h m v s")
    (auto simp: SetHandleInformation_def setLastError_def split: bool.split)

lemma release_quarantined:
  assumes wf: "table_wf (table s)" and q: "quarantined k i (table s)" and k: "Suc k < kQuarantineLen"
  shows "quarantined (Suc k) i (table (snd (release on_handle_zero h s)))"
    and "length (mSlots (table (snd (release on_handle_zero h s)))) = length (mSlots (table s))"
proof -
  have "quarantined (Suc k) i (table (snd (release on_handle_zero h s))) \<and>
    length (mSlots (table (snd (release on_handle_zero h s)))) = length (mSlots (table s))"
    using wf
  proof (cases rule: global_table.release_cases [of s h])
    case unchanged
    with quarantined_mono [OF q, of "Suc k"] show ?thesis by simp
  next
    case (closed j e p)
    show ?thesis
    proof (rule global_table.release_entry [OF closed(1) wf closed(4) closed(2)])
      fix e' assume t: "table (snd (release on_handle_zero h s)) =
          retire_index j ((table s)\<lparr>mSlots := (mSlots (table s))[j := e']\<rparr>)"
      have "quarantined k i ((table s)\<lparr>mSlots := (mSlots (table s))[j := e']\<rparr>)"
        using q by (simp add: quarantined_def)
      from quarantined_retire [OF this k, of j] t show ?thesis by simp
    qed
  qed
  then show "quarantined (Suc k) i (table (snd (release on_handle_zero h s)))"
    and "length (mSlots (table (snd (release on_handle_zero h s)))) = length (mSlots (table s))"
    by auto
qed

lemma setInformation_quarantine:
  "mQuarantine (table (snd (setInformation h m v s))) = mQuarantine (table s)"
  "length (mSlots (table (snd (setInformation h m v s)))) = length (mSlots (table s))"
  by (auto simp: setInformation_def Let_def split: option.splits)

lemma alloc_length:
  assumes "table_wf (table s)" and "length (mSlots (table s)) < kMaxSlots" and "alloc p access fl s = (h, s')"
  shows "length (mSlots (table s')) \<le> Suc (length (mSlots (table s)))"
proof -
  obtain idx t where ai: "alloc_index (table s) = (idx, t)" by fastforce
  note sp = alloc_index_spec [OF assms(1,2) ai]
  obtain e where "table s' = t\<lparr>mSlots := (mSlots t)[idx := e]\<rparr>" by (rule alloc_unfold [OF assms(3) ai])
  with sp(2) show ?thesis by auto
qed

lemma get_table: "table (snd (get h s)) = table s"
  by (auto simp: get_def split: option.splits)

lemma run_calls_quarantined:
  assumes "table_wf (table s)" and "quarantined k i (table s)"
    and "k + length (filter is_close cs) < kQuarantineLen"
    and "length (mSlots (table s)) + length cs \<le> kMaxSlots"
  shows "handle_of i \<notin> set (fst (run_calls cs s))"
  using assms
proof (induction cs s arbitrary: k rule: run_calls.induct)
  case (1 s)
  then show ?case by simp
next
  case (2 p access fl cs s)
  obtain h s1 where a: "alloc p access fl s = (h, s1)" by fastforce
  have room: "length (mSlots (table s)) < kMaxSlots" using 2 by simp
  note qa = quarantined_alloc [OF 2(2) room a 2(3)]
  have "table_wf (table s1)" using alloc_wf [OF 2(2) room, of p access fl] a by simp
  moreover have "length (mSlots (table s1)) + length cs \<le> kMaxSlots"
    using alloc_length [OF 2(2) room a] 2(5) by simp
  ultimately have "handle_of i \<notin> set (fst (run_calls cs s1))"
    using 2(1) [OF a [symmetric], of k] qa(1) 2(4) by simp
  with qa(2) a show ?case by (auto split: prod.split)
next
  case (3 h cs s)
  have k: "Suc k < kQuarantineLen" using 3(4) by simp
  note rq = release_quarantined [OF 3(2,3) k, of h]
  show ?case
    using 3(1) [of "Suc k"] global_table.release_wf [OF 3(2), of h] rq 3(4,5)
    by (simp add: CloseHandle_table)
next
  case (4 h m v cs s)
  show ?case
    using 4(1) [of k] setInformation_wf [OF 4(2), of h m v] setInformation_quarantine [of h m v s] 4(3-5)
    by (simp add: SetHandleInformation_table quarantined_def)
next
  case (5 h cs s)
  then show ?case by (simp add: get_table)
qed

section \<open>Properties\<close>

text \<open>The state the emulator starts from, for the concrete instances below.\<close>

definition start_state :: WState where
  "start_state = \<lparr>objects = Map.empty, table = empty_table, mTable = [], lastError = 0\<rparr>"

lemma start_state_om_inv: "om_inv (\<lambda>_. 0) start_state"
  using om_init_inv [of "(\<lambda>_. 0, start_state)"] by (simp add: om_init_def start_state_def)

lemma start_state_simps [simp]:
  "objects start_state = Map.empty" "table start_state = empty_table" "mTable start_state = []"
  by (simp_all add: start_state_def)

lemma empty_table_simps [simp]:
  "mSlots empty_table = []" "nextIndex empty_table = 0" "mQuarantine empty_table = []"
  by (simp_all add: empty_table_def)

lemma counters_spare_start [simp]: "counters_spare start_state"
  by (simp add: counters_spare_def)

lemma kMaxSlots_pos [simp]: "0 < kMaxSlots" by (simp add: kMaxSlots_def)

text \<open>
  C1: in every state the guest calls can reach, the table is well-formed, every live
  object's counters are the numbers of its pins and entries, every open handle refers to a
  live object, and every name of the namespace refers to a live object with an open handle.
\<close>

theorem object_manager_safe:
  assumes "reach om_init om_step (pins, s)"
  shows "table_wf (table s) \<and> refs_ok pins s
    \<and> (\<forall>h e p. hview (table s) h = Some e \<and> obj e = Some p
         \<longrightarrow> (\<exists>ob. objects s p = Some ob \<and> 0 < handleCount ob))
    \<and> (\<forall>name e. map_of (mTable s) name = Some e
         \<longrightarrow> (\<exists>ob. objects s (ns_obj e) = Some ob \<and> 0 < handleCount ob))"
proof -
  have "om_inv pins s" using object_manager.reach_invar [OF assms] by simp
  then show ?thesis using om_inv_handle_live om_inv_name_live om_invD by blast
qed

lemma start_create_reach:
  "reach om_init om_step (\<lambda>_. 0, snd (create_named [97] Event Of_Waitable True 7 0 0 start_state))"
proof (rule reach.reach_step)
  show "reach om_init om_step (\<lambda>_. 0, start_state)"
    by (rule reach.reach_init) (simp add: om_init_def start_state_def)
  show "om_step (\<lambda>_. 0, start_state) (\<lambda>_. 0, snd (create_named [97] Event Of_Waitable True 7 0 0 start_state))"
    by (rule om_step.create [of _ 7]) (auto simp: prod_eq_iff)
qed

theorem object_manager_safe_witness:
  "\<exists>ob. objects (snd (create_named [97] Event Of_Waitable True 7 0 0 start_state)) 7 = Some ob
        \<and> 0 < handleCount ob"
proof -
  let ?s = "snd (create_named [97] Event Of_Waitable True 7 0 0 start_state)"
  have "map_of (mTable ?s) [97] = Some \<lparr>ns_obj = 7, permanent = False\<rparr>"
    by (simp add: create_named_def getOrCreate_def ns_get_def ns_insert_def setLastError_def
        alloc_def alloc_index_def Let_def)
  with object_manager_safe [OF start_create_reach] show ?thesis by fastforce
qed

text \<open>
  An allocation returns a handle that was not in use and is neither null nor a pseudo
  handle; the new entry holds the object with the access and flags asked for, and the
  entries of all other handles stay as they were.
\<close>

theorem alloc_fresh_handle:
  assumes "table_wf (table s)" and "length (mSlots (table s)) < kMaxSlots"
    and "alloc p access fl s = (h, s')"
  shows "hview (table s) h = None \<and> \<not> isPseudo h \<and> h \<noteq> NO_HANDLE \<and> table_wf (table s')
    \<and> (\<exists>e. hview (table s') = (hview (table s))(h \<mapsto> e) \<and> obj e = Some p
          \<and> grantedAccess (meta e) = access \<and> mflags (meta e) = fl)"
  using hview_alloc [OF assms] alloc_wf [OF assms(1,2), of p access fl] assms(3) by (metis snd_conv)

theorem alloc_fresh_handle_witness:
  "hview (table (snd (alloc 7 1 0 start_state))) 4 \<noteq> None"
proof -
  have a: "alloc 7 1 0 start_state = (4, snd (alloc 7 1 0 start_state))"
    by (simp add: alloc_def alloc_index_def Let_def makeHandle_def)
  from alloc_fresh_handle [OF _ _ a] show ?thesis by (auto simp: table_wf_empty)
qed

text \<open>
  \<^verbatim>\<open>CloseHandle\<close> succeeds on a pseudo handle and on an open handle that is not protected
  from closing, and on nothing else; it removes the entry of that handle alone, and a
  failure leaves the table as it was and sets \<^verbatim>\<open>ERROR_INVALID_HANDLE\<close>.
\<close>

theorem CloseHandle_correct:
  assumes "table_wf (table s)" and "CloseHandle h s = (r, s')"
  shows "(r \<longleftrightarrow> isPseudo h \<or> (\<exists>e. hview (table s) h = Some e
            \<and> mflags (meta e) AND HANDLE_FLAG_PROTECT_FROM_CLOSE = 0))
    \<and> hview (table s') = (if r then (hview (table s))(h := None) else hview (table s))
    \<and> (\<not> r \<longrightarrow> lastError s' = ERROR_INVALID_HANDLE) \<and> table_wf (table s')"
proof -
  have t: "table s' = table (snd (release on_handle_zero h s))"
    using CloseHandle_table [of h s] assms(2) by simp
  have r: "r = fst (release on_handle_zero h s)"
    using assms(2) by (cases "release on_handle_zero h s") (auto simp: CloseHandle_def split: bool.splits)
  have e: "\<not> r \<longrightarrow> lastError s' = ERROR_INVALID_HANDLE"
    using assms(2) by (cases "release on_handle_zero h s")
      (auto simp: CloseHandle_def setLastError_def split: bool.splits)
  have "r \<longleftrightarrow> isPseudo h \<or> (\<exists>e. hview (table s) h = Some e
            \<and> mflags (meta e) AND HANDLE_FLAG_PROTECT_FROM_CLOSE = 0)"
    unfolding r hview_def by (auto simp: release_def Let_def split: option.splits)
  with global_table.release_view [OF assms(1), of h] global_table.release_wf [OF assms(1), of h] t r e
  show ?thesis by simp
qed

theorem CloseHandle_correct_witness:
  "fst (CloseHandle 4 (snd (alloc 7 1 0 start_state)))"
proof -
  let ?s = "snd (alloc 7 1 0 start_state)"
  have wf: "table_wf (table ?s)" by (rule alloc_wf) (simp_all add: table_wf_empty)
  have v: "hview (table ?s) 4 = Some \<lparr>obj = Some 7,
      meta = \<lparr>grantedAccess = 1, mflags = 0, typeCache = File, generation = 1\<rparr>\<rparr>"
    by (simp add: alloc_def alloc_index_def Let_def hview_def entry_of_def indexOf_def
        empty_entry_def zero_meta_def)
  from CloseHandle_correct [OF wf, of 4 "fst (CloseHandle 4 ?s)" "snd (CloseHandle 4 ?s)"] v
  show ?thesis by simp
qed

text \<open>
  C31: a closed handle below 0x8000 is not handed out again before 64 further handles have
  been closed, whatever calls are made in between.
\<close>

theorem handle_reuse_delayed:
  assumes wf: "table_wf (table s)" and c: "CloseHandle h s = (True, s1)"
    and h: "\<not> isPseudo h" "unat h < 0x8000"
    and n: "length (filter is_close cs) < kQuarantineLen"
    and room: "length (mSlots (table s)) + length cs \<le> kMaxSlots"
  shows "h \<notin> set (fst (run_calls cs s1))"
proof -
  have t1: "table s1 = table (snd (release on_handle_zero h s))"
    using CloseHandle_table [of h s] c by simp
  have r: "fst (release on_handle_zero h s)"
    using c by (cases "release on_handle_zero h s") (auto simp: CloseHandle_def split: bool.splits)
  obtain i e p where cl: "entry_of (table s) h = Some (i, e)" "obj e = Some p"
      "mflags (meta e) AND HANDLE_FLAG_PROTECT_FROM_CLOSE = 0"
    by (rule global_table.release_cases [OF wf, of h]) (use r h(1) in auto)
  note d = entry_of_SomeD [OF cl(1) table_wfD(2) [OF wf]]
  have "unat h = 4 * (i + 1)"
    unfolding d(4) using d(1) table_wfD(2) [OF wf] by (intro unat_handle_of) (simp add: kMaxSlots_def)
  with h(2) have i: "i \<le> kCompatMaxIndex" by (simp add: kCompatMaxIndex_def)
  have "quarantined 0 i (table s1)" and len: "length (mSlots (table s1)) = length (mSlots (table s))"
    by (rule global_table.release_entry [OF cl(1) wf cl(3) cl(2)],
        simp add: t1 quarantined_start [OF i])+
  with run_calls_quarantined [of s1 0 i cs] global_table.release_wf [OF wf, of h] t1 n room len d(4)
  show ?thesis by simp
qed

theorem handle_reuse_delayed_witness:
  "4 \<notin> set (fst (run_calls [CallAlloc 8 0 0] (snd (CloseHandle 4 (snd (alloc 7 1 0 start_state))))))"
proof -
  let ?s = "snd (alloc 7 1 0 start_state)"
  have wf: "table_wf (table ?s)" by (rule alloc_wf) (simp_all add: table_wf_empty)
  have c: "CloseHandle 4 ?s = (True, snd (CloseHandle 4 ?s))"
    by (simp add: CloseHandle_def release_def entry_of_def alloc_def alloc_index_def Let_def
        indexOf_def isPseudo_def empty_entry_def zero_meta_def)
  have l: "length (mSlots (table ?s)) + 1 \<le> kMaxSlots"
    by (simp add: alloc_def alloc_index_def Let_def kMaxSlots_def)
  show ?thesis
    by (rule handle_reuse_delayed [OF wf c]) (use l in \<open>simp_all add: isPseudo_def kQuarantineLen_def\<close>)
qed

text \<open>
  C33: as long as the slots in use in the compatibility range, plus the 64 in quarantine,
  do not fill it, every allocated handle is below 0x8000, as the comment of
  \<^verbatim>\<open>MAX_HANDLES\<close> asks for legacy programs.
\<close>

theorem alloc_stays_compatible:
  assumes "table_wf (table s)" and "length (mSlots (table s)) < kMaxSlots"
    and "alloc p access fl s = (h, s')"
    and "compat_in_use (table s) + kQuarantineLen < kCompatMaxIndex + 1"
  shows "unat h < 0x8000"
  using assms by (rule alloc_compat)

theorem alloc_stays_compatible_witness: "unat (fst (alloc 7 1 0 start_state)) < 0x8000"
  by (rule alloc_stays_compatible [of start_state 7 1 0 _ "snd (alloc 7 1 0 start_state)"])
    (simp_all add: table_wf_empty compat_in_use_def kQuarantineLen_def kCompatMaxIndex_def)

text \<open>
  Closing the last handle of a named object removes its name, and when no pin is
  left the object is deleted, so a later create under that name makes a new object.
\<close>

theorem last_close_frees_name:
  assumes inv: "om_inv pins s" and e: "hview (table s) h = Some e" "obj e = Some p"
    and open_flag: "mflags (meta e) AND HANDLE_FLAG_PROTECT_FROM_CLOSE = 0"
    and last: "slot_count (table s) p = 1" and nm: "map_of (mTable s) name = Some n" "ns_obj n = p"
    and c: "CloseHandle h s = (r, s')"
  shows "r \<and> map_of (mTable s') name = None \<and> (pins p = 0 \<longrightarrow> objects s' p = None)"
proof -
  note d = om_invD [OF inv]
  obtain i where i: "entry_of (table s) h = Some (i, e)" using e(1) by (auto simp: hview_def)
  note ed = entry_of_SomeD [OF i table_wfD(2) [OF d(1)]]
  note rm = release_mTable [OF inv i e(2) ed(5) open_flag]
  have "fst (release on_handle_zero h s)"
    using i ed(5) open_flag by (simp add: release_def Let_def)
  then have rs: "r" "s' = snd (release on_handle_zero h s)"
    using c by (cases "release on_handle_zero h s", simp add: CloseHandle_def)+
  have inv': "om_inv pins s'" using release_om_inv [OF inv] rs(2) by simp
  have "mTable s' = filter (\<lambda>x. ns_obj (snd x) \<noteq> p) (mTable s)" using rm(1) last rs(2) by simp
  moreover have "(name, n) \<in> set (mTable s)" "distinct (map fst (mTable s))"
    using nm(1) d(3) by (auto simp: ns_ok_def dest: map_of_SomeD)
  ultimately have "name \<notin> fst ` set (mTable s')"
    using nm(2) by (auto dest: eq_key_imp_eq_value)
  then have "map_of (mTable s') name = None" by (simp add: map_of_eq_None_iff)
  moreover have "objects s' p = None" if "pins p = 0"
  proof -
    have "slot_count (table s') p = 0" using rm(2) last rs(2) by simp
    with that counts_okD(5) [of pins "objects s'" "slot_count (table s')" p] om_invD(2) [OF inv']
    show ?thesis by (cases "objects s' p") (auto simp: refs_ok_def)
  qed
  ultimately show ?thesis using rs(1) by simp
qed

theorem last_close_frees_name_witness:
  "map_of (mTable (snd (CloseHandle 4 (snd (create_named [97] Event Of_Waitable True 7 0 0 start_state))))) [97] = None"
proof -
  let ?s = "snd (create_named [97] Event Of_Waitable True 7 0 0 start_state)"
  let ?e = "\<lparr>obj = Some 7, meta = \<lparr>grantedAccess = 0, mflags = 0, typeCache = Event, generation = 1\<rparr>\<rparr>"
  have inv: "om_inv (\<lambda>_. 0) ?s"
    by (rule create_named_om_inv) (simp_all add: start_state_om_inv)
  have v: "hview (table ?s) 4 = Some ?e"
    and sc: "slot_count (table ?s) 7 = 1"
    and m: "map_of (mTable ?s) [97] = Some \<lparr>ns_obj = 7, permanent = False\<rparr>"
    by (simp_all add: create_named_def getOrCreate_def ns_get_def ns_insert_def setLastError_def
        alloc_def alloc_index_def Let_def hview_def entry_of_def indexOf_def empty_entry_def
        zero_meta_def make_pin_def ref_def new_object_def slot_count_def)
  have c: "CloseHandle 4 ?s = (fst (CloseHandle 4 ?s), snd (CloseHandle 4 ?s))" by simp
  show ?thesis
    using last_close_frees_name [OF inv v _ _ _ m _ c, of 7] sc by simp
qed

text \<open>
  Creating under a name that is taken gives a second handle to the same object and
  \<^verbatim>\<open>ERROR_ALREADY_EXISTS\<close> when the type fits, and no handle, an unchanged table and
  \<^verbatim>\<open>ERROR_INVALID_HANDLE\<close> when it does not.
\<close>

theorem create_named_existing:
  assumes inv: "om_inv pins s" and fresh: "objects s p = None" and sp: "counters_spare s"
    and room: "length (mSlots (table s)) < kMaxSlots"
    and nm: "map_of (mTable s) name = Some n" and ob: "objects s (ns_obj n) = Some ob"
    and c: "create_named name T fl mk p access hflags s = (h, s')"
  shows "if otype ob = T
    then lastError s' = ERROR_ALREADY_EXISTS \<and> mTable s' = mTable s \<and> hview (table s) h = None
       \<and> (\<exists>e. hview (table s') = (hview (table s))(h \<mapsto> e) \<and> obj e = Some (ns_obj n)
             \<and> grantedAccess (meta e) = access)
    else h = NO_HANDLE \<and> lastError s' = ERROR_INVALID_HANDLE \<and> table s' = table s"
proof -
  let ?q = "ns_obj n"
  let ?s1 = "s\<lparr>objects := ref ?q (objects s)\<rparr>"
  have ne: "name \<noteq> []" using om_invD(3) [OF inv] map_of_SomeD [OF nm] by (auto simp: ns_ok_def)
  have g: "getOrCreate name T fl mk p s =
      (if otype ob = T then ((Some ?q, False), ?s1) else ((None, False), ?s1\<lparr>objects := deref ?q (objects ?s1)\<rparr>))"
    using ne nm ob by (simp add: getOrCreate_def Let_def ns_get_def downcast_def ref_def)
  show ?thesis
  proof (cases "otype ob = T")
    case False
    with g c show ?thesis by (auto simp: create_named_def setLastError_def)
  next
    case True
    obtain h2 s2 where a: "alloc ?q access hflags ?s1 = (h2, s2)" by fastforce
    have h: "h = h2" "s' = setLastError ERROR_ALREADY_EXISTS s2" using c g a True by (auto simp: create_named_def)
    have wf: "table_wf (table ?s1)" and rm: "length (mSlots (table ?s1)) < kMaxSlots"
      using om_invD(1) [OF inv] room by simp_all
    obtain e where "hview (table ?s1) h2 = None" "hview (table s2) = (hview (table ?s1))(h2 \<mapsto> e)"
      "obj e = Some ?q" "grantedAccess (meta e) = access"
      by (rule hview_alloc [OF wf rm a])
    moreover have "mTable s2 = mTable s" using alloc_mTable [of ?q access hflags ?s1] a by simp
    ultimately show ?thesis using True h by (auto simp: setLastError_def)
  qed
qed

theorem create_named_existing_witness:
  "lastError (snd (create_named [97] Event Of_Waitable True 8 0 0
     (snd (create_named [97] Event Of_Waitable True 7 0 0 start_state)))) = ERROR_ALREADY_EXISTS"
proof -
  let ?s = "snd (create_named [97] Event Of_Waitable True 7 0 0 start_state)"
  let ?ob = "\<lparr>otype = Event, oflags = Of_Waitable, pointerCount = 1, handleCount = 1\<rparr>"
  have inv: "om_inv (\<lambda>_. 0) ?s"
    by (rule create_named_om_inv) (simp_all add: start_state_om_inv)
  have o: "objects ?s = [7 \<mapsto> ?ob]" and l: "length (mSlots (table ?s)) = 1"
    and m: "map_of (mTable ?s) [97] = Some \<lparr>ns_obj = 7, permanent = False\<rparr>"
    by (simp_all add: create_named_def getOrCreate_def ns_get_def ns_insert_def setLastError_def
        alloc_def alloc_index_def Let_def make_pin_def ref_def new_object_def)
  let ?r = "create_named [97] Event Of_Waitable True 8 0 0 ?s"
  have c: "?r = (fst ?r, snd ?r)" by simp
  have sp: "counters_spare ?s" using o by (auto simp: counters_spare_def split: if_splits)
  have rm: "length (mSlots (table ?s)) < kMaxSlots" using l by (simp add: kMaxSlots_def)
  from create_named_existing [OF inv _ sp rm m _ c, of ?ob] o show ?thesis by simp
qed

text \<open>
  C32: a duplicated handle never carries an access right the source handle lacks, and refers
  to the same object.
\<close>

theorem duplicate_no_new_access:
  assumes wf: "table_wf (table s)" and room: "length (mSlots (table s)) < kMaxSlots"
    and v: "hview (table s) src = Some e"
    and d: "duplicateTo on_handle_zero src access inherit options s = (Some h, s')"
  shows "\<exists>e'. hview (table s') h = Some e' \<and> obj e' = obj e
    \<and> grantedAccess (meta e') AND NOT (grantedAccess (meta e)) = 0"
proof -
  obtain i where i: "entry_of (table s) src = Some (i, e)" using v by (auto simp: hview_def)
  note ed = entry_of_SomeD [OF i table_wfD(2) [OF wf]]
  obtain p where p: "obj e = Some p" using ed(3) by auto
  let ?s1 = "s\<lparr>objects := ref p (objects s)\<rparr>"
  let ?acc = "if options AND DUPLICATE_SAME_ACCESS \<noteq> 0 then grantedAccess (meta e)
              else access AND grantedAccess (meta e)"
  let ?fl = "if inherit then HANDLE_FLAG_INHERIT else 0"
  have g: "get src s = (Some (p, meta e), ?s1)" using i ed(5,6) p by (simp add: get_def)
  have sub: "?acc AND NOT (grantedAccess (meta e)) = 0" by (simp add: and.assoc)
  obtain h2 s2 where a: "alloc p ?acc ?fl ?s1 = (h2, s2)" by fastforce
  have wf1: "table_wf (table ?s1)" and rm: "length (mSlots (table ?s1)) < kMaxSlots" using wf room by simp_all
  obtain e2 where h2: "hview (table ?s1) h2 = None" "hview (table s2) = (hview (table ?s1))(h2 \<mapsto> e2)"
    "obj e2 = Some p" "grantedAccess (meta e2) = ?acc"
    by (rule hview_alloc [OF wf1 rm a])
  have ne: "h2 \<noteq> src" using h2(1) v by auto
  have wf2: "table_wf (table s2)" using alloc_wf [OF wf1 rm, of p ?acc ?fl] a by simp
  consider "h = src" "table s' = table s" | "h = h2" "s' = s2" | "h = h2" "s' = snd (release on_handle_zero src s2)"
    using d g a by (auto simp: duplicateTo_def Let_def split: if_splits)
  then show ?thesis
  proof cases
    case 1
    with v show ?thesis by simp
  next
    case 2
    with h2 p sub show ?thesis by simp
  next
    case 3
    have "hview (table s') h2 = Some e2"
      using global_table.release_view [OF wf2, of src] 3(2) h2(2) ne by simp
    with 3(1) h2 p sub show ?thesis by simp
  qed
qed

theorem duplicate_no_new_access_witness:
  "\<exists>e'. hview (table (snd (duplicateTo on_handle_zero 4 7 False 0 (snd (alloc 7 5 0 start_state))))) 8 = Some e'
     \<and> grantedAccess (meta e') AND NOT 5 = 0"
proof -
  let ?s = "snd (alloc 7 5 0 start_state)"
  let ?e = "\<lparr>obj = Some 7, meta = \<lparr>grantedAccess = 5, mflags = 0, typeCache = File, generation = 1\<rparr>\<rparr>"
  let ?r = "duplicateTo on_handle_zero 4 7 False 0 ?s"
  have wf: "table_wf (table ?s)" by (rule alloc_wf) (simp_all add: table_wf_empty)
  have v: "hview (table ?s) 4 = Some ?e" and l: "length (mSlots (table ?s)) < kMaxSlots"
    and r: "fst ?r = Some 8"
    by (simp_all add: alloc_def alloc_index_def Let_def hview_def entry_of_def indexOf_def
        empty_entry_def zero_meta_def duplicateTo_def get_def isPseudo_def NO_HANDLE_def kMaxSlots_def
        kCompatMaxIndex_def makeHandle_def ref_def DUPLICATE_CLOSE_SOURCE_def split: prod.split)
  have d: "?r = (Some 8, snd ?r)" using r by (simp add: prod_eq_iff)
  from duplicate_no_new_access [OF wf l v d] show ?thesis by auto
qed

text \<open>
  \<^verbatim>\<open>Handles::clear\<close> forgets to empty the quarantine. On a table with a closed handle the
  cleared table is no longer well-formed: the index in quarantine has no slot, and a later
  release would move it to the free list while the index is handed out afresh.
\<close>

theorem clear_keeps_quarantine:
  "table_wf (table (snd (CloseHandle 4 (snd (alloc 7 1 0 start_state)))))
   \<and> \<not> table_wf (table (clear (snd (CloseHandle 4 (snd (alloc 7 1 0 start_state))))))"
proof -
  let ?s = "snd (alloc 7 1 0 start_state)"
  have wf: "table_wf (table ?s)" by (rule alloc_wf) (simp_all add: table_wf_empty)
  then have "table_wf (table (snd (CloseHandle 4 ?s)))"
    using global_table.release_wf [of ?s 4] by (simp add: CloseHandle_table)
  moreover have "mQuarantine (table (snd (CloseHandle 4 ?s))) = [0]"
    by (simp add: CloseHandle_table release_def entry_of_def alloc_def alloc_index_def Let_def
        indexOf_def isPseudo_def empty_entry_def zero_meta_def on_handle_zero_def ns_remove_def
        mQuarantine_retire kCompatMaxIndex_def kQuarantineLen_def)
  then have "\<not> table_wf (table (clear (snd (CloseHandle 4 ?s))))"
    by (auto simp: clear_def table_wf_def free_indices_def)
  ultimately show ?thesis by simp
qed

end
