(* ===== verification/Critical_Section.thy ===== *)
theory Critical_Section
  imports Wibo_Prelude
begin

text \<open>
  Critical sections (\<^verbatim>\<open>src/dll/kernel32/synchapi.cpp\<close>): \<^verbatim>\<open>EnterCriticalSection\<close>,
  \<^verbatim>\<open>TryEnterCriticalSection\<close>, \<^verbatim>\<open>LeaveCriticalSection\<close> and the ticket hand-over of
  \<^verbatim>\<open>waitForCriticalSection\<close> and \<^verbatim>\<open>signalCriticalSection\<close>, as the interleaving of the atomic
  accesses each thread makes. A thread is a program counter inside the running call and the
  number of times it is inside the section. \<^verbatim>\<open>WaitOnAddress\<close> and \<^verbatim>\<open>WakeByAddressSingle\<close> on the word of tickets are
  part of the model, with the table of queues in which waiters register: a thread sleeps until it is notified.
\<close>

section \<open>Shared state and program counters\<close>

text \<open>Where a failed \<^verbatim>\<open>TryEnterCriticalSection\<close> goes on: to its caller, or in the spin loop.\<close>

datatype try_caller = Caller | Spinner nat

datatype cs_pc =
    Idle
  | Try try_caller         \<comment> \<open>before the compare-exchange of \<open>LockCount\<close>\<close>
  | TryOwner try_caller    \<comment> \<open>it failed; before the test of \<open>OwningThread\<close>\<close>
  | RecInc                 \<comment> \<open>owner in \<^verbatim>\<open>TryEnter\<close>; before the increment of \<open>LockCount\<close>\<close>
  | RecCount               \<comment> \<open>before \<open>RecursionCount++\<close>\<close>
  | SpinCount_check nat    \<comment> \<open>before the test \<open>LockCount > 0\<close> of the spin loop\<close>
  | SpinOwner_check nat    \<comment> \<open>before the test of the owner in the spin loop\<close>
  | Inc                    \<comment> \<open>before the increment of \<open>LockCount\<close> in \<^verbatim>\<open>Enter\<close>\<close>
  | CheckOwner             \<comment> \<open>the result was not 0; before the test of the owner\<close>
  | Waiting                \<comment> \<open>at the head of the loop of \<^verbatim>\<open>waitForCriticalSection\<close>\<close>
  | TakeTicket u32         \<comment> \<open>tickets were seen; before the compare-exchange\<close>
  | WaitCheck u32          \<comment> \<open>none was seen; in \<^verbatim>\<open>waitOnAddressTyped\<close> before its first load\<close>
  | GetQueue u32           \<comment> \<open>before \<^verbatim>\<open>getWaitQueue\<close>\<close>
  | Register u32 nat       \<comment> \<open>has a queue; before \<^verbatim>\<open>registerWaiter\<close>\<close>
  | WaitLoop u32 nat       \<comment> \<open>registered; before the test of the loop\<close>
  | PlatformWait u32 nat   \<comment> \<open>in \<^verbatim>\<open>platformWaitIndefinite\<close>, before the host compares\<close>
  | Asleep u32 nat         \<comment> \<open>the host has put the thread to sleep\<close>
  | Unregister nat         \<comment> \<open>before \<^verbatim>\<open>unregister\<close>\<close>
  | Cleanup nat            \<comment> \<open>before \<^verbatim>\<open>cleanupWaitQueue\<close>\<close>
  | SetOwner               \<comment> \<open>the section is taken; before the store of the owner\<close>
  | SetRec                 \<comment> \<open>before \<open>RecursionCount = 1\<close>\<close>
  | LeaveDec               \<comment> \<open>still inside; before the decrement of \<open>LockCount\<close>\<close>
  | LeaveOwner             \<comment> \<open>last leave; before the owner is cleared\<close>
  | LeaveRelease           \<comment> \<open>before the decrement of \<open>LockCount\<close>\<close>
  | Signal                 \<comment> \<open>before the ticket is published\<close>
  | WakeFind               \<comment> \<open>in \<^verbatim>\<open>WakeByAddressSingle\<close>, before \<^verbatim>\<open>tryGetWaitQueue\<close>\<close>
  | WakeCount nat          \<comment> \<open>before the number of waiters is read\<close>
  | Notify                 \<comment> \<open>before the host is told to wake one thread\<close>

record cs_thread =
  tpc :: cs_pc
  tdepth :: nat

record cs_state =
  LockCount :: u32
  RecursionCount :: u32
  OwningThread :: u32
  LockSemaphore :: u32
  SpinCount :: u32
  waitQueue :: "nat option"      \<comment> \<open>the queue \<^verbatim>\<open>g_waitAddressQueues\<close> has for the word of tickets\<close>
  waiterCount :: "nat \<Rightarrow> nat"    \<comment> \<open>the waiters registered in each queue object\<close>
  queueCount :: nat              \<comment> \<open>the number of queue objects made so far\<close>
  th :: "u32 \<Rightarrow> cs_thread"

definition idle_thread :: cs_thread where "idle_thread = \<lparr>tpc = Idle, tdepth = 0\<rparr>"

text \<open>\<^verbatim>\<open>InitializeCriticalSectionEx\<close>: zeroed memory, then \<open>LockCount = -1\<close> and the spin count.\<close>

definition cs_initialize :: "u32 \<Rightarrow> cs_state" where
  "cs_initialize dwSpinCount =
     \<lparr>LockCount = - 1, RecursionCount = 0, OwningThread = 0, LockSemaphore = 0,
      SpinCount = dwSpinCount, waitQueue = None, waiterCount = (\<lambda>_. 0), queueCount = 0, th = (\<lambda>_. idle_thread)\<rparr>"

definition set_pc :: "u32 \<Rightarrow> cs_pc \<Rightarrow> cs_state \<Rightarrow> cs_state" where
  "set_pc t c s = s\<lparr>th := (th s)(t := (th s t)\<lparr>tpc := c\<rparr>)\<rparr>"

definition set_thread :: "u32 \<Rightarrow> cs_pc \<Rightarrow> nat \<Rightarrow> cs_state \<Rightarrow> cs_state" where
  "set_thread t c d s = s\<lparr>th := (th s)(t := \<lparr>tpc = c, tdepth = d\<rparr>)\<rparr>"

text \<open>\<^verbatim>\<open>DeleteCriticalSection\<close>: the fields it resets; the callers have left the section.\<close>

definition cs_delete :: "cs_state \<Rightarrow> cs_state" where
  "cs_delete s = s\<lparr>RecursionCount := 0, SpinCount := 0, OwningThread := 0, LockSemaphore := 0,
                   LockCount := - 1\<rparr>"

section \<open>The calls and their atomic steps\<close>

text \<open>The start of a call: \<^verbatim>\<open>trySpinAcquireCriticalSection\<close> runs only with a spin count.\<close>

definition enter_call :: "u32 \<Rightarrow> cs_state \<Rightarrow> cs_state" where
  "enter_call t s = set_pc t (if SpinCount s = 0 then Inc else Try (Spinner (unat (SpinCount s)))) s"

definition try_enter_call :: "u32 \<Rightarrow> cs_state \<Rightarrow> cs_state" where
  "try_enter_call t s = set_pc t (Try Caller) s"

text \<open>
  \<^verbatim>\<open>LeaveCriticalSection\<close>, whose first access is \<open>--RecursionCount\<close>. From that step on the
  thread counts as outside for this entry.
\<close>

definition leave_call :: "u32 \<Rightarrow> cs_state \<Rightarrow> cs_state" where
  "leave_call t s =
     (let n = RecursionCount s - 1; d = tdepth (th s t) - 1 in
      set_thread t (if n \<noteq> 0 then LeaveDec else LeaveOwner) d (s\<lparr>RecursionCount := n\<rparr>))"

text \<open>\<^verbatim>\<open>waitForCriticalSection\<close>: the load of the tickets, and the compare-exchange when there are some.\<close>

definition waitForCriticalSection :: "u32 \<Rightarrow> cs_state \<Rightarrow> cs_state" where
  "waitForCriticalSection t s =
     set_pc t (if sint (LockSemaphore s) > 0 then TakeTicket (LockSemaphore s) else WaitCheck (LockSemaphore s)) s"

definition take_ticket :: "u32 \<Rightarrow> u32 \<Rightarrow> cs_state \<Rightarrow> cs_state" where
  "take_ticket available t s =
     (if LockSemaphore s = available then set_pc t SetOwner (s\<lparr>LockSemaphore := available - 1\<rparr>) else set_pc t Waiting s)"

text \<open>
  \<^verbatim>\<open>waitOnAddressTyped\<close> without a time limit: the first load, \<^verbatim>\<open>getWaitQueue\<close>, \<^verbatim>\<open>registerWaiter\<close>, the loop around the host's
  wait, and the destructor of the registration. The host puts a thread to sleep only while the word has the value
  compared with, and compares again when the thread is woken.
\<close>

definition getWaitQueue :: "u32 \<Rightarrow> u32 \<Rightarrow> cs_state \<Rightarrow> cs_state" where
  "getWaitQueue v t s =
     (case waitQueue s of
        Some q \<Rightarrow> set_pc t (Register v q) s
      | None \<Rightarrow> set_pc t (Register v (queueCount s)) (s\<lparr>waitQueue := Some (queueCount s), queueCount := queueCount s + 1\<rparr>))"

definition registerWaiter :: "u32 \<Rightarrow> nat \<Rightarrow> u32 \<Rightarrow> cs_state \<Rightarrow> cs_state" where
  "registerWaiter v q t s = set_pc t (WaitLoop v q) (s\<lparr>waiterCount := (waiterCount s)(q := waiterCount s q + 1)\<rparr>)"

definition wait_loop :: "u32 \<Rightarrow> nat \<Rightarrow> u32 \<Rightarrow> cs_state \<Rightarrow> cs_state" where
  "wait_loop v q t s = set_pc t (if LockSemaphore s = v then PlatformWait v q else Unregister q) s"

definition platformWaitIndefinite :: "u32 \<Rightarrow> nat \<Rightarrow> u32 \<Rightarrow> cs_state \<Rightarrow> cs_state" where
  "platformWaitIndefinite v q t s = set_pc t (if LockSemaphore s = v then Asleep v q else WaitLoop v q) s"

definition unregisterWaiter :: "nat \<Rightarrow> u32 \<Rightarrow> cs_state \<Rightarrow> cs_state" where
  "unregisterWaiter q t s = set_pc t (Cleanup q) (s\<lparr>waiterCount := (waiterCount s)(q := waiterCount s q - 1)\<rparr>)"

definition cleanupWaitQueue :: "nat \<Rightarrow> u32 \<Rightarrow> cs_state \<Rightarrow> cs_state" where
  "cleanupWaitQueue q t s =
     set_pc t Waiting (if waitQueue s = Some q \<and> waiterCount s q = 0 then s\<lparr>waitQueue := None\<rparr> else s)"

text \<open>
  \<^verbatim>\<open>signalCriticalSection\<close> publishes one ticket and calls \<^verbatim>\<open>WakeByAddressSingle\<close>, which tells the host to wake a thread only when the queue
  it finds in the table has a registered waiter. The host picks the thread \<open>u\<close>.
\<close>

definition signalCriticalSection :: "u32 \<Rightarrow> cs_state \<Rightarrow> cs_state" where
  "signalCriticalSection t s = set_pc t WakeFind (s\<lparr>LockSemaphore := LockSemaphore s + 1\<rparr>)"

definition wake_find :: "u32 \<Rightarrow> cs_state \<Rightarrow> cs_state" where
  "wake_find t s = set_pc t (case waitQueue s of None \<Rightarrow> Idle | Some q \<Rightarrow> WakeCount q) s"

definition wake_count :: "nat \<Rightarrow> u32 \<Rightarrow> cs_state \<Rightarrow> cs_state" where
  "wake_count q t s = set_pc t (if waiterCount s q = 0 then Idle else Notify) s"

fun woken :: "cs_pc \<Rightarrow> cs_pc" where
  "woken (Asleep v q) = PlatformWait v q"
| "woken c = c"

definition notify_one :: "u32 \<Rightarrow> u32 \<Rightarrow> cs_state \<Rightarrow> cs_state" where
  "notify_one u t s = set_pc t Idle (set_pc u (woken (tpc (th s u))) s)"

fun is_asleep :: "cs_pc \<Rightarrow> bool" where
  "is_asleep (Asleep v q) = True"
| "is_asleep c = False"

text \<open>The two tests of \<^verbatim>\<open>trySpinAcquireCriticalSection\<close> after a failed attempt, \<open>n\<close> spins left.\<close>

definition spin_count_check :: "nat \<Rightarrow> u32 \<Rightarrow> cs_state \<Rightarrow> cs_state" where
  "spin_count_check n t s = set_pc t (if sint (LockCount s) > 0 then Inc else SpinOwner_check n) s"

definition spin_owner_check :: "nat \<Rightarrow> u32 \<Rightarrow> cs_state \<Rightarrow> cs_state" where
  "spin_owner_check n t s =
     set_pc t (if OwningThread s = t \<or> n \<le> 1 then Inc else Try (Spinner (n - 1))) s"

text \<open>
  The next atomic access of a thread inside a call; \<open>None\<close> when it is idle or asleep, and when the next access is
  \<open>notify_one\<close>, in which the host has a choice.
\<close>

definition cs_exec :: "u32 \<Rightarrow> cs_state \<Rightarrow> cs_state option" where
  "cs_exec t s =
     (let d = tdepth (th s t) in
      case tpc (th s t) of
        Idle \<Rightarrow> None
      | Try k \<Rightarrow> Some (if LockCount s = - 1 then set_pc t SetOwner (s\<lparr>LockCount := 0\<rparr>)
                      else set_pc t (TryOwner k) s)
      | TryOwner k \<Rightarrow>
          Some (if OwningThread s = t then set_pc t RecInc s
                else set_pc t (case k of Caller \<Rightarrow> Idle | Spinner n \<Rightarrow> SpinCount_check n) s)
      | RecInc \<Rightarrow> Some (set_pc t RecCount (s\<lparr>LockCount := LockCount s + 1\<rparr>))
      | RecCount \<Rightarrow> Some (set_thread t Idle (d + 1) (s\<lparr>RecursionCount := RecursionCount s + 1\<rparr>))
      | SpinCount_check n \<Rightarrow> Some (spin_count_check n t s)
      | SpinOwner_check n \<Rightarrow> Some (spin_owner_check n t s)
      | Inc \<Rightarrow> Some (let r = LockCount s + 1 in
                    set_pc t (if r \<noteq> 0 then CheckOwner else SetOwner) (s\<lparr>LockCount := r\<rparr>))
      | CheckOwner \<Rightarrow> Some (set_pc t (if OwningThread s = t then RecCount else Waiting) s)
      | Waiting \<Rightarrow> Some (waitForCriticalSection t s)
      | TakeTicket v \<Rightarrow> Some (take_ticket v t s)
      | WaitCheck v \<Rightarrow> Some (set_pc t (if LockSemaphore s = v then GetQueue v else Waiting) s)
      | GetQueue v \<Rightarrow> Some (getWaitQueue v t s)
      | Register v q \<Rightarrow> Some (registerWaiter v q t s)
      | WaitLoop v q \<Rightarrow> Some (wait_loop v q t s)
      | PlatformWait v q \<Rightarrow> Some (platformWaitIndefinite v q t s)
      | Asleep v q \<Rightarrow> None
      | Unregister q \<Rightarrow> Some (unregisterWaiter q t s)
      | Cleanup q \<Rightarrow> Some (cleanupWaitQueue q t s)
      | SetOwner \<Rightarrow> Some (set_pc t SetRec (s\<lparr>OwningThread := t\<rparr>))
      | SetRec \<Rightarrow> Some (set_thread t Idle 1 (s\<lparr>RecursionCount := 1\<rparr>))
      | LeaveDec \<Rightarrow> Some (set_pc t Idle (s\<lparr>LockCount := LockCount s - 1\<rparr>))
      | LeaveOwner \<Rightarrow> Some (set_pc t LeaveRelease (s\<lparr>OwningThread := 0\<rparr>))
      | LeaveRelease \<Rightarrow>
          Some (let r = LockCount s - 1 in
                set_pc t (if sint r \<ge> 0 then Signal else Idle) (s\<lparr>LockCount := r\<rparr>))
      | Signal \<Rightarrow> Some (signalCriticalSection t s)
      | WakeFind \<Rightarrow> Some (wake_find t s)
      | WakeCount q \<Rightarrow> Some (wake_count q t s)
      | Notify \<Rightarrow> None)"

lemmas cs_wait_defs = waitForCriticalSection_def take_ticket_def getWaitQueue_def registerWaiter_def wait_loop_def
  platformWaitIndefinite_def unregisterWaiter_def cleanupWaitQueue_def wake_find_def wake_count_def

lemmas cs_exec_defs = cs_exec_def signalCriticalSection_def spin_count_check_def spin_owner_check_def

text \<open>
  One step of the system: a thread (ids are never 0) starts a call it is allowed to make, or
  makes its next access. A thread leaves only a section it is in. \<open>LockCount\<close> counts
  entries and waiters in a signed 32-bit field; the steps stop short of its largest value.
\<close>

inductive cs_step :: "cs_state \<Rightarrow> cs_state \<Rightarrow> bool" where
  enter: "t \<noteq> 0 \<Longrightarrow> tpc (th s t) = Idle \<Longrightarrow> cs_step s (enter_call t s)"
| try_enter: "t \<noteq> 0 \<Longrightarrow> tpc (th s t) = Idle \<Longrightarrow> cs_step s (try_enter_call t s)"
| leave: "t \<noteq> 0 \<Longrightarrow> tpc (th s t) = Idle \<Longrightarrow> 0 < tdepth (th s t) \<Longrightarrow> cs_step s (leave_call t s)"
| run: "t \<noteq> 0 \<Longrightarrow> LockCount s \<noteq> 0x7FFFFFFF \<Longrightarrow> cs_exec t s = Some s' \<Longrightarrow> cs_step s s'"
| wake: "t \<noteq> 0 \<Longrightarrow> tpc (th s t) = Notify \<Longrightarrow> is_asleep (tpc (th s u)) \<or> (\<forall>w. \<not> is_asleep (tpc (th s w))) \<Longrightarrow>
    cs_step s (notify_one u t s)"

text \<open>A section that was just initialised, or deleted, and that no thread uses.\<close>

definition cs_init :: "cs_state \<Rightarrow> bool" where
  "cs_init s \<longleftrightarrow> LockCount s = - 1 \<and> RecursionCount s = 0 \<and> OwningThread s = 0 \<and> LockSemaphore s = 0 \<and>
     (\<forall>t. th s t = idle_thread) \<and> (\<forall>q. waiterCount s q = 0) \<and> (\<forall>q. waitQueue s = Some q \<longrightarrow> q < queueCount s)"

text \<open>The step relation as a function, to run a schedule of calls and accesses.\<close>

datatype cs_action = Enter u32 | TryEnter u32 | Leave u32 | Run u32 | Wake u32 u32

definition cs_act :: "cs_action \<Rightarrow> cs_state \<Rightarrow> cs_state option" where
  "cs_act a s = (case a of
     Enter t \<Rightarrow> if t \<noteq> 0 \<and> tpc (th s t) = Idle then Some (enter_call t s) else None
   | TryEnter t \<Rightarrow> if t \<noteq> 0 \<and> tpc (th s t) = Idle then Some (try_enter_call t s) else None
   | Leave t \<Rightarrow> if t \<noteq> 0 \<and> tpc (th s t) = Idle \<and> 0 < tdepth (th s t) then Some (leave_call t s) else None
   | Run t \<Rightarrow> if t \<noteq> 0 \<and> LockCount s \<noteq> 0x7FFFFFFF then cs_exec t s else None
   | Wake u t \<Rightarrow> if t \<noteq> 0 \<and> tpc (th s t) = Notify \<and> (is_asleep (tpc (th s u)) \<or> (\<forall>w. \<not> is_asleep (tpc (th s w))))
                then Some (notify_one u t s) else None)"

fun cs_schedule :: "cs_action list \<Rightarrow> cs_state \<Rightarrow> cs_state option" where
  "cs_schedule [] s = Some s"
| "cs_schedule (a # as) s = (case cs_act a s of None \<Rightarrow> None | Some s' \<Rightarrow> cs_schedule as s')"

lemma cs_act_step: "cs_step s s' \<longleftrightarrow> (\<exists>a. cs_act a s = Some s')"
proof
  assume "cs_step s s'"
  then show "\<exists>a. cs_act a s = Some s'"
  proof cases
    case (enter t)
    then have "cs_act (Enter t) s = Some s'" by (simp add: cs_act_def)
    then show ?thesis ..
  next
    case (try_enter t)
    then have "cs_act (TryEnter t) s = Some s'" by (simp add: cs_act_def)
    then show ?thesis ..
  next
    case (leave t)
    then have "cs_act (Leave t) s = Some s'" by (simp add: cs_act_def)
    then show ?thesis ..
  next
    case (run t)
    then have "cs_act (Run t) s = Some s'" by (simp add: cs_act_def)
    then show ?thesis ..
  next
    case (wake t u)
    then have "cs_act (Wake u t) s = Some s'" by (simp add: cs_act_def)
    then show ?thesis ..
  qed
next
  assume "\<exists>a. cs_act a s = Some s'"
  then obtain a where a: "cs_act a s = Some s'" ..
  then show "cs_step s s'"
    by (cases a) (auto simp: cs_act_def intro: cs_step.intros split: if_splits)
qed

lemma schedule_reach:
  "reach cs_init cs_step s \<Longrightarrow> cs_schedule as s = Some s' \<Longrightarrow> reach cs_init cs_step s'"
proof (induction as arbitrary: s)
  case (Cons a as)
  from Cons.prems(2) obtain u where u: "cs_act a s = Some u" "cs_schedule as u = Some s'"
    by (auto split: option.splits)
  have "reach cs_init cs_step u"
    using reach_step [OF Cons.prems(1)] u(1) cs_act_step by blast
  from Cons.IH [OF this u(2)] show ?case .
qed simp

lemma reach_initialize: "reach cs_init cs_step (cs_initialize n)"
  by (rule reach_init) (simp add: cs_init_def cs_initialize_def)

section \<open>The invariant\<close>

text \<open>
  \<open>contrib\<close> is what a thread has added to \<open>LockCount\<close>, \<open>tok\<close> whether it holds the right
  to the section: it is inside, on its way in after having been let in, or on its way out
  before it has passed the right on.
\<close>

fun in_wait :: "cs_pc \<Rightarrow> bool" where
  "in_wait Waiting = True"
| "in_wait (TakeTicket v) = True"
| "in_wait (WaitCheck v) = True"
| "in_wait (GetQueue v) = True"
| "in_wait (Register v q) = True"
| "in_wait (WaitLoop v q) = True"
| "in_wait (PlatformWait v q) = True"
| "in_wait (Asleep v q) = True"
| "in_wait (Unregister q) = True"
| "in_wait (Cleanup q) = True"
| "in_wait c = False"

definition weight :: "cs_pc \<Rightarrow> nat" where
  "weight c = (if c \<in> {RecCount, CheckOwner, SetOwner, SetRec, LeaveDec, LeaveOwner, LeaveRelease} \<or> in_wait c then 1 else 0)"

definition contrib :: "cs_thread \<Rightarrow> nat" where
  "contrib T = tdepth T + weight (tpc T)"

definition holds_right :: "cs_thread \<Rightarrow> bool" where
  "holds_right T \<longleftrightarrow> 0 < tdepth T \<or> tpc T \<in> {SetOwner, SetRec, LeaveOwner, LeaveRelease, Signal}"

definition tok :: "cs_thread \<Rightarrow> nat" where
  "tok T = (if holds_right T then 1 else 0)"

definition csum :: "cs_state \<Rightarrow> nat" where "csum s = (\<Sum>t\<in>UNIV. contrib (th s t))"

definition tsum :: "cs_state \<Rightarrow> nat" where "tsum s = (\<Sum>t\<in>UNIV. tok (th s t))"

definition thread_inv :: "bool \<Rightarrow> u32 \<Rightarrow> cs_thread \<Rightarrow> bool" where
  "thread_inv own rc T \<longleftrightarrow>
     (own \<longleftrightarrow> 0 < tdepth T \<or> tpc T \<in> {SetRec, LeaveOwner}) \<and>
     (0 < tdepth T \<longrightarrow> unat rc = tdepth T) \<and>
     (tpc T \<in> {RecInc, RecCount, LeaveDec} \<longrightarrow> 0 < tdepth T) \<and>
     (tpc T \<in> {SetOwner, SetRec, LeaveOwner, LeaveRelease, Signal} \<or> in_wait (tpc T) \<longrightarrow> tdepth T = 0) \<and>
     (\<forall>v. tpc T = TakeTicket v \<longrightarrow> v \<noteq> 0)"

definition cs_inv :: "cs_state \<Rightarrow> bool" where
  "cs_inv s \<longleftrightarrow>
     th s 0 = idle_thread \<and> csum s = unat (LockCount s + 1) \<and> csum s \<le> 2 ^ 31 \<and>
     tsum s + unat (LockSemaphore s) = (if csum s = 0 then 0 else 1) \<and>
     (\<forall>t. t \<noteq> 0 \<longrightarrow> thread_inv (OwningThread s = t) (RecursionCount s) (th s t))"

lemmas cs_weights = contrib_def weight_def tok_def holds_right_def

lemma csum_update: "csum s + contrib v = contrib (th s t) + csum (s\<lparr>th := (th s)(t := v)\<rparr>)"
  unfolding csum_def using sum_fun_upd_nat [of UNIV t contrib "th s" v] by simp

lemma tsum_update: "tsum s + tok v = tok (th s t) + tsum (s\<lparr>th := (th s)(t := v)\<rparr>)"
  unfolding tsum_def using sum_fun_upd_nat [of UNIV t tok "th s" v] by simp

lemma right_unique:
  assumes "cs_inv s" "holds_right (th s t)" "holds_right (th s u)"
  shows "u = t"
proof (rule ccontr)
  assume ne: "u \<noteq> t"
  have "(\<Sum>x\<in>{t, u}. tok (th s x)) \<le> tsum s"
    unfolding tsum_def by (rule sum_mono2) auto
  with ne assms(2,3) have "2 \<le> tsum s" by (simp add: tok_def)
  with assms(1) show False by (auto simp: cs_inv_def split: if_splits)
qed

lemma right_no_ticket:
  assumes "cs_inv s" "holds_right (th s t)"
  shows "LockSemaphore s = 0" "0 < csum s"
proof -
  have "tok (th s t) \<le> tsum s"
    unfolding tsum_def by (rule member_le_sum) auto
  with assms show "LockSemaphore s = 0" "0 < csum s"
    by (auto simp: cs_inv_def tok_def unat_eq_zero [symmetric] split: if_splits)
qed

lemma contrib_le: "contrib (th s t) \<le> csum s"
  unfolding csum_def by (rule member_le_sum) auto

lemma balance: "(a::nat) + v = w + b \<Longrightarrow> a + m = x \<Longrightarrow> v + n + x = w + m + y \<Longrightarrow> b + n = y"
  by linarith

lemma thread_inv_other:
  "thread_inv p rc T \<Longrightarrow> p' = p \<Longrightarrow> rc' = rc \<or> tdepth T = 0 \<Longrightarrow> thread_inv p' rc' T"
  by (elim disjE) (simp_all add: thread_inv_def)

text \<open>One thread moves: what has to be checked of a step, with the sums already balanced.\<close>

lemma cs_inv_update:
  assumes inv: "cs_inv s" and t0: "t \<noteq> 0" and th': "th s' = (th s)(t := v)"
    and c: "unat (LockCount s' + 1) + contrib (th s t) = unat (LockCount s + 1) + contrib v"
    and b: "unat (LockCount s' + 1) \<le> 2 ^ 31"
    and k: "tok v + unat (LockSemaphore s') + (if unat (LockCount s + 1) = 0 then 0 else 1)
            = tok (th s t) + unat (LockSemaphore s) + (if unat (LockCount s' + 1) = 0 then 0 else 1)"
    and own: "thread_inv (OwningThread s' = t) (RecursionCount s') v"
    and others: "\<And>u. u \<noteq> 0 \<Longrightarrow> u \<noteq> t \<Longrightarrow> (OwningThread s' = u) = (OwningThread s = u) \<and>
                   (RecursionCount s' = RecursionCount s \<or> tdepth (th s u) = 0)"
  shows "cs_inv s'"
proof -
  let ?s = "s\<lparr>th := (th s)(t := v)\<rparr>"
  have cs: "csum s' = csum ?s" and ts: "tsum s' = tsum ?s" by (simp_all add: csum_def tsum_def th')
  from inv have i: "th s 0 = idle_thread" "csum s = unat (LockCount s + 1)"
    "tsum s + unat (LockSemaphore s) = (if csum s = 0 then 0 else 1)"
    "\<And>u. u \<noteq> 0 \<Longrightarrow> thread_inv (OwningThread s = u) (RecursionCount s) (th s u)"
    by (auto simp: cs_inv_def)
  from csum_update [of s v t] i(2) c cs have c': "csum s' = unat (LockCount s' + 1)" by linarith
  have k': "tsum s' + unat (LockSemaphore s') = (if csum s' = 0 then 0 else 1)"
    unfolding ts by (rule balance [OF tsum_update [of s v t] i(3) k [folded i(2) c']])
  have "thread_inv (OwningThread s' = u) (RecursionCount s') (th s' u)" if "u \<noteq> 0" for u
  proof (cases "u = t")
    case True
    with own th' show ?thesis by simp
  next
    case False
    from thread_inv_other [OF i(4) [OF that]] others [OF that False]
    have "thread_inv (OwningThread s' = u) (RecursionCount s') (th s u)" by blast
    with False show ?thesis by (simp add: th')
  qed
  with i(1) t0 th' c' k' b show ?thesis by (simp add: cs_inv_def)
qed


subsection \<open>Every step keeps it\<close>

lemma lockcount_words:
  fixes w :: u32
  shows "w = - 1 \<longleftrightarrow> unat (w + 1) = 0"
    and "unat (w + 1) \<le> 2147483648 \<Longrightarrow> w \<noteq> 0x7FFFFFFF \<Longrightarrow> unat (w + 1) < 2147483648"
    and "unat (w + 1) \<le> 2147483648 \<Longrightarrow> unat (w + 2) = unat (w + 1) + 1"
    and "0 < unat (w + 1) \<Longrightarrow> unat w = unat (w + 1) - 1"
    and "1 < unat (w + 1) \<Longrightarrow> unat (w - 1) = unat (w + 1) - 2"
proof -
  show a: "w = - 1 \<longleftrightarrow> unat (w + 1) = 0"
    by (simp add: unat_eq_zero add_eq_0_iff2)
  show "unat (w + 1) \<le> 2147483648 \<Longrightarrow> w \<noteq> 0x7FFFFFFF \<Longrightarrow> unat (w + 1) < 2147483648"
  proof (rule ccontr)
    assume le: "unat (w + 1) \<le> 2147483648" and ne: "w \<noteq> 0x7FFFFFFF" and "\<not> unat (w + 1) < 2147483648"
    then have "unat (w + 1) = unat (0x80000000 :: u32)" by simp
    then have "w + 1 = 0x80000000" by (simp only: word_unat_eq_iff)
    then have "w = 0x80000000 - 1" by (simp add: eq_diff_eq)
    with ne show False by simp
  qed
  show "unat (w + 1) \<le> 2147483648 \<Longrightarrow> unat (w + 2) = unat (w + 1) + 1"
    using unat_plus1_u32 [of "w + 1"] by (simp add: add.assoc)
  show b: "0 < unat (w + 1) \<Longrightarrow> unat w = unat (w + 1) - 1"
    using unat_minus_one [of "w + 1"] by (auto simp: unat_gt_0)
  show "1 < unat (w + 1) \<Longrightarrow> unat (w - 1) = unat (w + 1) - 2"
  proof -
    assume l: "1 < unat (w + 1)"
    with b have u: "unat w = unat (w + 1) - 1" by simp
    with l have "w \<noteq> 0" by (metis unat_0 diff_is_0_eq not_less zero_less_diff)
    then have "unat (w - 1) = unat w - 1" by (rule unat_minus_one)
    with u show ?thesis by simp
  qed
qed

text \<open>A move of the program counter alone.\<close>

lemma set_pc_inv:
  assumes "cs_inv s" "t \<noteq> 0" "weight c = weight (tpc (th s t))"
    and "c \<in> {SetOwner, SetRec, LeaveOwner, LeaveRelease, Signal} \<longleftrightarrow>
         tpc (th s t) \<in> {SetOwner, SetRec, LeaveOwner, LeaveRelease, Signal}"
    and "thread_inv (OwningThread s = t) (RecursionCount s) ((th s t)\<lparr>tpc := c\<rparr>)"
  shows "cs_inv (set_pc t c s)"
  by (rule cs_inv_update [OF assms(1,2), where v = "(th s t)\<lparr>tpc := c\<rparr>"])
    (use assms in \<open>simp_all add: set_pc_def contrib_def tok_def holds_right_def cs_inv_def\<close>)

lemma cs_invD:
  assumes "cs_inv s"
  shows "csum s = unat (LockCount s + 1)" "unat (LockCount s + 1) \<le> 2147483648"
    "t \<noteq> 0 \<Longrightarrow> thread_inv (OwningThread s = t) (RecursionCount s) (th s t)"
    "contrib (th s t) \<le> unat (LockCount s + 1)"
    "tsum s + unat (LockSemaphore s) = (if unat (LockCount s + 1) = 0 then 0 else 1)"
    "holds_right (th s t) \<Longrightarrow> u \<noteq> t \<Longrightarrow> tdepth (th s u) = 0"
    "holds_right (th s t) \<Longrightarrow> u \<noteq> 0 \<Longrightarrow> u \<noteq> t \<Longrightarrow> OwningThread s \<noteq> u"
proof -
  show "csum s = unat (LockCount s + 1)" "unat (LockCount s + 1) \<le> 2147483648"
    "tsum s + unat (LockSemaphore s) = (if unat (LockCount s + 1) = 0 then 0 else 1)"
    using assms by (auto simp: cs_inv_def)
  then show "contrib (th s t) \<le> unat (LockCount s + 1)" using contrib_le [of s t] by simp
  show o: "thread_inv (OwningThread s = t) (RecursionCount s) (th s t)" if "t \<noteq> 0" for t
    using assms that by (simp add: cs_inv_def)
  assume h: "holds_right (th s t)" and ne: "u \<noteq> t"
  then have nh: "\<not> holds_right (th s u)" using right_unique [OF assms] by blast
  then show "tdepth (th s u) = 0" by (simp add: holds_right_def)
  show "OwningThread s \<noteq> u" if "u \<noteq> 0"
    using o [OF that] nh by (auto simp: thread_inv_def holds_right_def)
qed

lemma try_inv:
  assumes inv: "cs_inv s" and t0: "t \<noteq> 0" and pc: "tpc (th s t) = Try k" and free: "LockCount s = - 1"
  shows "cs_inv (set_pc t SetOwner (s\<lparr>LockCount := 0\<rparr>))"
proof -
  from cs_invD(4) [OF inv, of t] free have d: "tdepth (th s t) = 0" by (simp add: contrib_def)
  show ?thesis
    by (rule cs_inv_update [OF inv t0, where v = "(th s t)\<lparr>tpc := SetOwner\<rparr>"])
      (use cs_invD(3) [OF inv t0] pc free d in \<open>simp_all add: set_pc_def cs_weights thread_inv_def\<close>)
qed

lemma inc_free_inv:
  assumes inv: "cs_inv s" and t0: "t \<noteq> 0" and pc: "tpc (th s t) = Inc" and free: "LockCount s = - 1"
  shows "cs_inv (set_pc t SetOwner (s\<lparr>LockCount := 0\<rparr>))"
proof -
  from cs_invD(4) [OF inv, of t] free have d: "tdepth (th s t) = 0" by (simp add: contrib_def)
  show ?thesis
    by (rule cs_inv_update [OF inv t0, where v = "(th s t)\<lparr>tpc := SetOwner\<rparr>"])
      (use cs_invD(3) [OF inv t0] pc free d in \<open>simp_all add: set_pc_def cs_weights thread_inv_def\<close>)
qed

lemma inc_busy_inv:
  assumes inv: "cs_inv s" and t0: "t \<noteq> 0" and nf: "LockCount s \<noteq> 0x7FFFFFFF"
    and busy: "LockCount s \<noteq> - 1" and w: "weight (tpc (th s t)) = 0" "weight c = 1"
    and nr: "tpc (th s t) \<notin> {SetOwner, SetRec, LeaveOwner, LeaveRelease, Signal}"
            "c \<notin> {SetOwner, SetRec, LeaveOwner, LeaveRelease, Signal}"
    and ti: "thread_inv (OwningThread s = t) (RecursionCount s) ((th s t)\<lparr>tpc := c\<rparr>)"
  shows "cs_inv (set_pc t c (s\<lparr>LockCount := LockCount s + 1\<rparr>))"
proof -
  note L = cs_invD(2) [OF inv]
  from busy have nz: "0 < unat (LockCount s + 1)" using lockcount_words(1) [of "LockCount s"] by simp
  show ?thesis
    by (rule cs_inv_update [OF inv t0, where v = "(th s t)\<lparr>tpc := c\<rparr>"])
      (use ti w nr nz lockcount_words(2) [OF L nf] lockcount_words(3) [OF L] in
        \<open>simp_all add: set_pc_def contrib_def tok_def holds_right_def add.assoc\<close>)
qed

lemma rec_count_inv:
  assumes inv: "cs_inv s" and t0: "t \<noteq> 0" and pc: "tpc (th s t) = RecCount"
  shows "cs_inv (set_thread t Idle (tdepth (th s t) + 1) (s\<lparr>RecursionCount := RecursionCount s + 1\<rparr>))"
proof -
  from cs_invD(3) [OF inv t0] pc have d: "0 < tdepth (th s t)" "OwningThread s = t"
    "unat (RecursionCount s) = tdepth (th s t)" by (auto simp: thread_inv_def)
  from cs_invD(4) [OF inv, of t] cs_invD(2) [OF inv] pc have le: "tdepth (th s t) < 2147483648"
    by (simp add: cs_weights)
  with d have r: "unat (RecursionCount s + 1) = tdepth (th s t) + 1" by (simp add: unat_plus1_u32)
  have h: "holds_right (th s t)" using d by (simp add: holds_right_def)
  show ?thesis
    by (rule cs_inv_update [OF inv t0, where v = "\<lparr>tpc = Idle, tdepth = tdepth (th s t) + 1\<rparr>"])
      (use pc d r cs_invD(2) [OF inv] cs_invD(6) [OF inv h] in
        \<open>simp_all add: set_thread_def cs_weights thread_inv_def\<close>)
qed

lemma cs_inv_queues [simp]:
  "cs_inv (s\<lparr>waitQueue := wq\<rparr>) = cs_inv s" "cs_inv (s\<lparr>waiterCount := wc\<rparr>) = cs_inv s" "cs_inv (s\<lparr>queueCount := n\<rparr>) = cs_inv s"
  by (simp_all add: cs_inv_def csum_def tsum_def)

text \<open>A thread that waits goes from one place of the loop to another, whatever happens to the queues.\<close>

lemma in_wait_places:
  "in_wait c \<Longrightarrow> weight c = 1 \<and> c \<notin> {SetOwner, SetRec, LeaveOwner, LeaveRelease, Signal} \<and> c \<notin> {RecInc, RecCount, LeaveDec}"
  by (cases c) (simp_all add: weight_def)

lemma wait_move_inv:
  assumes "cs_inv s" "t \<noteq> 0" "in_wait (tpc (th s t))" "in_wait c" "c \<noteq> TakeTicket 0"
  shows "cs_inv (set_pc t c s)"
  using assms cs_invD(3) [OF assms(1,2)] in_wait_places [OF assms(3)] in_wait_places [OF assms(4)]
  by (intro set_pc_inv) (auto simp: thread_inv_def)

lemma ticket_inv:
  assumes inv: "cs_inv s" and t0: "t \<noteq> 0" and pc: "in_wait (tpc (th s t))" "\<not> holds_right (th s t)"
    and ticket: "LockSemaphore s \<noteq> 0"
  shows "cs_inv (set_pc t SetOwner (s\<lparr>LockSemaphore := LockSemaphore s - 1\<rparr>))"
proof -
  have m: "unat (LockSemaphore s - 1) = unat (LockSemaphore s) - 1" "unat (LockSemaphore s) \<noteq> 0"
    using ticket by (auto simp: unat_minus_one unat_eq_zero)
  have w: "weight (tpc (th s t)) = 1" using pc(1) by (simp add: weight_def)
  show ?thesis
    by (rule cs_inv_update [OF inv t0, where v = "(th s t)\<lparr>tpc := SetOwner\<rparr>"])
      (use w pc m cs_invD(2,3) [OF inv] t0 in \<open>simp_all add: set_pc_def contrib_def tok_def holds_right_def thread_inv_def weight_def\<close>)
qed

lemma in_wait_no_right:
  assumes "cs_inv s" "t \<noteq> 0" "in_wait (tpc (th s t))"
  shows "\<not> holds_right (th s t)"
  using assms cs_invD(3) [OF assms(1,2)] by (cases "tpc (th s t)") (auto simp: holds_right_def thread_inv_def)

lemma set_owner_inv:
  assumes inv: "cs_inv s" and t0: "t \<noteq> 0" and pc: "tpc (th s t) = SetOwner"
  shows "cs_inv (set_pc t SetRec (s\<lparr>OwningThread := t\<rparr>))"
proof -
  have h: "holds_right (th s t)" using pc by (simp add: holds_right_def)
  show ?thesis
    by (rule cs_inv_update [OF inv t0, where v = "(th s t)\<lparr>tpc := SetRec\<rparr>"])
      (use pc cs_invD(2) [OF inv] cs_invD(3) [OF inv t0] cs_invD(7) [OF inv h] in
        \<open>simp_all add: set_pc_def cs_weights thread_inv_def\<close>)
qed

lemma set_rec_inv:
  assumes inv: "cs_inv s" and t0: "t \<noteq> 0" and pc: "tpc (th s t) = SetRec"
  shows "cs_inv (set_thread t Idle 1 (s\<lparr>RecursionCount := 1\<rparr>))"
proof -
  have h: "holds_right (th s t)" using pc by (simp add: holds_right_def)
  show ?thesis
    by (rule cs_inv_update [OF inv t0, where v = "\<lparr>tpc = Idle, tdepth = 1\<rparr>"])
      (use pc cs_invD(2) [OF inv] cs_invD(3) [OF inv t0] cs_invD(6) [OF inv h] in
        \<open>simp_all add: set_thread_def cs_weights thread_inv_def\<close>)
qed

lemma leave_call_inv:
  assumes inv: "cs_inv s" and t0: "t \<noteq> 0" and pc: "tpc (th s t) = Idle" and d: "0 < tdepth (th s t)"
  shows "cs_inv (leave_call t s)"
proof -
  have h: "holds_right (th s t)" using d by (simp add: holds_right_def)
  from cs_invD(3) [OF inv t0] d have o: "OwningThread s = t" "unat (RecursionCount s) = tdepth (th s t)"
    by (auto simp: thread_inv_def)
  with d have "RecursionCount s \<noteq> 0" by auto
  then have r: "unat (RecursionCount s - 1) = tdepth (th s t) - 1" using o by (simp add: unat_minus_one)
  then have z: "RecursionCount s - 1 = 0 \<longleftrightarrow> tdepth (th s t) - 1 = 0" by (metis unat_eq_zero)
  show ?thesis
  proof (cases "RecursionCount s - 1 = 0")
    case True
    then have "leave_call t s = set_thread t LeaveOwner (tdepth (th s t) - 1) (s\<lparr>RecursionCount := 0\<rparr>)"
      by (simp add: leave_call_def Let_def)
    then show ?thesis
      by (intro cs_inv_update [OF inv t0, where v = "\<lparr>tpc = LeaveOwner, tdepth = tdepth (th s t) - 1\<rparr>"])
        (use True pc d o z cs_invD(2) [OF inv] cs_invD(6) [OF inv h] in
          \<open>simp_all add: set_thread_def cs_weights thread_inv_def\<close>)
  next
    case False
    then have "leave_call t s = set_thread t LeaveDec (tdepth (th s t) - 1) (s\<lparr>RecursionCount := RecursionCount s - 1\<rparr>)"
      by (simp add: leave_call_def Let_def)
    moreover have "0 < tdepth (th s t) - 1" using False z by simp
    ultimately show ?thesis
      by (intro cs_inv_update [OF inv t0, where v = "\<lparr>tpc = LeaveDec, tdepth = tdepth (th s t) - 1\<rparr>"])
        (use pc d o r cs_invD(2) [OF inv] cs_invD(6) [OF inv h] in
          \<open>simp_all add: set_thread_def cs_weights thread_inv_def\<close>)
  qed
qed

lemma leave_dec_inv:
  assumes inv: "cs_inv s" and t0: "t \<noteq> 0" and pc: "tpc (th s t) = LeaveDec"
  shows "cs_inv (set_pc t Idle (s\<lparr>LockCount := LockCount s - 1\<rparr>))"
proof -
  from cs_invD(3) [OF inv t0] pc have d: "0 < tdepth (th s t)" by (simp add: thread_inv_def)
  with cs_invD(4) [OF inv, of t] pc have l: "1 < unat (LockCount s + 1)" by (simp add: cs_weights)
  then have u: "unat (LockCount s) = unat (LockCount s + 1) - 1" using lockcount_words(4) by simp
  show ?thesis
    by (rule cs_inv_update [OF inv t0, where v = "(th s t)\<lparr>tpc := Idle\<rparr>"])
      (use pc d l u cs_invD(2) [OF inv] cs_invD(3) [OF inv t0] in
        \<open>simp_all add: set_pc_def cs_weights thread_inv_def\<close>)
qed

lemma leave_owner_inv:
  assumes inv: "cs_inv s" and t0: "t \<noteq> 0" and pc: "tpc (th s t) = LeaveOwner"
  shows "cs_inv (set_pc t LeaveRelease (s\<lparr>OwningThread := 0\<rparr>))"
proof -
  have h: "holds_right (th s t)" using pc by (simp add: holds_right_def)
  show ?thesis
    by (rule cs_inv_update [OF inv t0, where v = "(th s t)\<lparr>tpc := LeaveRelease\<rparr>"])
      (use pc t0 cs_invD(2) [OF inv] cs_invD(3) [OF inv t0] cs_invD(7) [OF inv h] in
        \<open>simp_all add: set_pc_def cs_weights thread_inv_def\<close>)
qed

lemma leave_release_inv:
  assumes inv: "cs_inv s" and t0: "t \<noteq> 0" and pc: "tpc (th s t) = LeaveRelease"
  shows "cs_inv (set_pc t (if 0 \<le> sint (LockCount s - 1) then Signal else Idle)
                  (s\<lparr>LockCount := LockCount s - 1\<rparr>))"
proof -
  have h: "holds_right (th s t)" using pc by (simp add: holds_right_def)
  note L = cs_invD(2) [OF inv]
  from cs_invD(4) [OF inv, of t] pc have l: "0 < unat (LockCount s + 1)" by (simp add: cs_weights)
  then have u: "unat (LockCount s) = unat (LockCount s + 1) - 1" using lockcount_words(4) by simp
  note m = right_no_ticket(1) [OF inv h]
  show ?thesis
  proof (cases "unat (LockCount s + 1) = 1")
    case True
    with u have "LockCount s = 0" by (simp add: unat_eq_zero)
    then show ?thesis
      by (intro cs_inv_update [OF inv t0, where v = "(th s t)\<lparr>tpc := Idle\<rparr>"])
        (use pc m cs_invD(3) [OF inv t0] in \<open>simp_all add: set_pc_def cs_weights thread_inv_def\<close>)
  next
    case False
    with l have l2: "1 < unat (LockCount s + 1)" by simp
    then have "unat (LockCount s - 1) < 2147483648" using L lockcount_words(5) by simp
    then have "0 \<le> sint (LockCount s - 1)" by (simp add: sint_nonneg_u32)
    then show ?thesis
      by (intro cs_inv_update [OF inv t0, where v = "(th s t)\<lparr>tpc := Signal\<rparr>"])
        (use pc m u l2 L cs_invD(3) [OF inv t0] in \<open>simp_all add: set_pc_def cs_weights thread_inv_def\<close>)
  qed
qed

lemma signal_inv:
  assumes inv: "cs_inv s" and t0: "t \<noteq> 0" and pc: "tpc (th s t) = Signal"
  shows "cs_inv (set_pc t WakeFind (s\<lparr>LockSemaphore := LockSemaphore s + 1\<rparr>))"
proof -
  have h: "holds_right (th s t)" using pc by (simp add: holds_right_def)
  show ?thesis
    by (rule cs_inv_update [OF inv t0, where v = "(th s t)\<lparr>tpc := WakeFind\<rparr>"])
      (use pc right_no_ticket(1) [OF inv h] cs_invD(2) [OF inv] cs_invD(3) [OF inv t0] in
        \<open>simp_all add: set_pc_def cs_weights thread_inv_def\<close>)
qed

lemma cs_exec_inv:
  assumes inv: "cs_inv s" and t0: "t \<noteq> 0" and nf: "LockCount s \<noteq> 0x7FFFFFFF" and ex: "cs_exec t s = Some s'"
  shows "cs_inv s'"
proof (cases "tpc (th s t)")
  case (Try k)
  with ex try_inv [OF inv t0] show ?thesis
    by (auto simp: cs_exec_defs intro!: set_pc_inv [OF inv t0] split: if_splits)
       (use cs_invD(3) [OF inv t0] in \<open>simp_all add: weight_def thread_inv_def\<close>)
next
  case (TryOwner k)
  show ?thesis
  proof (cases "OwningThread s = t")
    case True
    with ex TryOwner have e: "s' = set_pc t RecInc s" by (simp add: cs_exec_defs)
    show ?thesis unfolding e by (rule set_pc_inv [OF inv t0])
      (use TryOwner True cs_invD(3) [OF inv t0] in \<open>simp_all add: weight_def thread_inv_def\<close>)
  next
    case False
    with ex TryOwner have e: "s' = set_pc t (case k of Caller \<Rightarrow> Idle | Spinner n \<Rightarrow> SpinCount_check n) s" by (simp add: cs_exec_defs)
    show ?thesis unfolding e by (rule set_pc_inv [OF inv t0])
      (use TryOwner False cs_invD(3) [OF inv t0] in \<open>simp_all add: weight_def thread_inv_def split: try_caller.splits\<close>)
  qed
next
  case RecInc
  with cs_invD(3) [OF inv t0] have d: "0 < tdepth (th s t)" by (simp add: thread_inv_def)
  with cs_invD(4) [OF inv, of t] have "LockCount s \<noteq> - 1" by (auto simp: contrib_def)
  with ex RecInc cs_invD(3) [OF inv t0] d show ?thesis
    by (auto simp: cs_exec_defs intro!: inc_busy_inv [OF inv t0 nf]) (simp_all add: weight_def thread_inv_def)
next
  case RecCount
  with ex rec_count_inv [OF inv t0] show ?thesis by (simp add: cs_exec_defs)
next
  case (SpinCount_check n)
  with ex have e: "s' = set_pc t (if sint (LockCount s) > 0 then Inc else SpinOwner_check n) s" by (simp add: cs_exec_defs)
  show ?thesis unfolding e by (rule set_pc_inv [OF inv t0])
      (use SpinCount_check cs_invD(3) [OF inv t0] in \<open>simp_all add: weight_def thread_inv_def\<close>)
next
  case (SpinOwner_check n)
  with ex have e: "s' = set_pc t (if OwningThread s = t \<or> n \<le> 1 then Inc else Try (Spinner (n - 1))) s" by (simp add: cs_exec_defs)
  show ?thesis unfolding e by (rule set_pc_inv [OF inv t0])
      (use SpinOwner_check cs_invD(3) [OF inv t0] in \<open>simp_all add: weight_def thread_inv_def\<close>)
next
  case Inc
  show ?thesis
  proof (cases "LockCount s = - 1")
    case True
    with ex Inc inc_free_inv [OF inv t0 Inc] show ?thesis by (simp add: cs_exec_defs)
  next
    case False
    then have "LockCount s + 1 \<noteq> 0" by (simp add: add_eq_0_iff2)
    with False ex Inc cs_invD(3) [OF inv t0] show ?thesis
      by (auto simp: cs_exec_defs Let_def intro!: inc_busy_inv [OF inv t0 nf])
         (simp_all add: weight_def thread_inv_def)
  qed
next
  case CheckOwner
  show ?thesis
  proof (cases "OwningThread s = t")
    case True
    with ex CheckOwner have e: "s' = set_pc t RecCount s" by (simp add: cs_exec_defs)
    show ?thesis unfolding e by (rule set_pc_inv [OF inv t0])
      (use CheckOwner True cs_invD(3) [OF inv t0] in \<open>simp_all add: weight_def thread_inv_def\<close>)
  next
    case False
    with ex CheckOwner have e: "s' = set_pc t Waiting s" by (simp add: cs_exec_defs)
    show ?thesis unfolding e by (rule set_pc_inv [OF inv t0])
      (use CheckOwner False cs_invD(3) [OF inv t0] in \<open>simp_all add: weight_def thread_inv_def\<close>)
  qed
next
  case Waiting
  have "LockSemaphore s \<noteq> 0" if "0 < sint (LockSemaphore s)" using that by auto
  with ex Waiting wait_move_inv [OF inv t0] show ?thesis by (auto simp: cs_exec_defs waitForCriticalSection_def)
next
  case (TakeTicket v)
  then have v: "v \<noteq> 0" "\<not> holds_right (th s t)"
    using cs_invD(3) [OF inv t0] in_wait_no_right [OF inv t0] by (auto simp: thread_inv_def)
  with ex TakeTicket wait_move_inv [OF inv t0, of Waiting] ticket_inv [OF inv t0] show ?thesis
    by (auto simp: cs_exec_defs take_ticket_def split: if_splits)
next
  case (WaitCheck v)
  with ex wait_move_inv [OF inv t0] show ?thesis by (auto simp: cs_exec_defs)
next
  case (GetQueue v)
  with ex wait_move_inv [OF _ t0] inv show ?thesis by (auto simp: cs_exec_defs getWaitQueue_def split: option.splits)
next
  case (Register v q)
  with ex wait_move_inv [OF _ t0] inv show ?thesis by (auto simp: cs_exec_defs registerWaiter_def)
next
  case (WaitLoop v q)
  with ex wait_move_inv [OF inv t0] show ?thesis by (auto simp: cs_exec_defs wait_loop_def)
next
  case (PlatformWait v q)
  with ex wait_move_inv [OF inv t0] show ?thesis by (auto simp: cs_exec_defs platformWaitIndefinite_def)
next
  case (Unregister q)
  with ex wait_move_inv [OF _ t0] inv show ?thesis by (auto simp: cs_exec_defs unregisterWaiter_def)
next
  case (Cleanup q)
  with ex wait_move_inv [OF _ t0] inv show ?thesis by (auto simp: cs_exec_defs cleanupWaitQueue_def)
next
  case SetOwner
  with ex set_owner_inv [OF inv t0] show ?thesis by (simp add: cs_exec_defs)
next
  case SetRec
  with ex set_rec_inv [OF inv t0] show ?thesis by (simp add: cs_exec_defs)
next
  case LeaveDec
  with ex leave_dec_inv [OF inv t0] show ?thesis by (simp add: cs_exec_defs)
next
  case LeaveOwner
  with ex leave_owner_inv [OF inv t0] show ?thesis by (simp add: cs_exec_defs)
next
  case LeaveRelease
  with ex leave_release_inv [OF inv t0] show ?thesis by (simp add: cs_exec_defs Let_def)
next
  case Signal
  with ex signal_inv [OF inv t0] show ?thesis by (simp add: cs_exec_defs)
next
  case WakeFind
  with ex have e: "s' = set_pc t (case waitQueue s of None \<Rightarrow> Idle | Some q \<Rightarrow> WakeCount q) s" by (simp add: cs_exec_defs wake_find_def)
  show ?thesis unfolding e by (rule set_pc_inv [OF inv t0])
      (use WakeFind cs_invD(3) [OF inv t0] in \<open>simp_all add: weight_def thread_inv_def split: option.splits\<close>)
next
  case (WakeCount q)
  with ex have e: "s' = set_pc t (if waiterCount s q = 0 then Idle else Notify) s" by (simp add: cs_exec_defs wake_count_def)
  show ?thesis unfolding e by (rule set_pc_inv [OF inv t0])
      (use WakeCount cs_invD(3) [OF inv t0] in \<open>simp_all add: weight_def thread_inv_def\<close>)
qed (use ex in \<open>simp_all add: cs_exec_defs\<close>)


lemma cs_inv_init: "cs_init s \<Longrightarrow> cs_inv s"
  by (simp add: cs_init_def cs_inv_def csum_def tsum_def cs_weights thread_inv_def idle_thread_def)

lemma call_inv:
  assumes inv: "cs_inv s" and t0: "t \<noteq> 0" and pc: "tpc (th s t) = Idle"
  shows "cs_inv (enter_call t s)" "cs_inv (try_enter_call t s)"
  unfolding enter_call_def try_enter_call_def
  by (rule set_pc_inv [OF inv t0];
      use pc cs_invD(3) [OF inv t0] in \<open>simp add: weight_def thread_inv_def\<close>)+

lemma notify_inv:
  assumes inv: "cs_inv s" and t0: "t \<noteq> 0" and pc: "tpc (th s t) = Notify"
  shows "cs_inv (notify_one u t s)"
proof -
  let ?c = "woken (tpc (th s u))"
  have s1: "cs_inv (set_pc u ?c s)"
  proof (cases "is_asleep (tpc (th s u))")
    case True
    then obtain v q where a: "tpc (th s u) = Asleep v q" by (cases "tpc (th s u)") auto
    then have "u \<noteq> 0" using inv by (auto simp: cs_inv_def idle_thread_def)
    with a show ?thesis using wait_move_inv [OF inv] by simp
  next
    case False
    then have "?c = tpc (th s u)" by (cases "tpc (th s u)") auto
    then have "set_pc u ?c s = s" by (simp add: set_pc_def)
    with inv show ?thesis by simp
  qed
  have "tpc (th (set_pc u ?c s) t) = Notify" using pc by (auto simp: set_pc_def)
  with s1 show ?thesis unfolding notify_one_def
    by (intro set_pc_inv [OF s1 t0]) (use cs_invD(3) [OF s1 t0] in \<open>simp_all add: weight_def thread_inv_def\<close>)
qed

lemma cs_inv_step:
  assumes "cs_inv s" "cs_step s s'"
  shows "cs_inv s'"
  using assms(2)
proof cases
  case (run t)
  then show ?thesis using cs_exec_inv [OF assms(1)] by blast
qed (use call_inv [OF assms(1)] leave_call_inv [OF assms(1)] notify_inv [OF assms(1)] in simp_all)

interpretation critical_section: inductive_invariant cs_init cs_step cs_inv
  by unfold_locales (auto intro: cs_inv_init cs_inv_step)

section \<open>What a critical section promises\<close>

text \<open>The abstract lock: free, or held by one thread a number of times.\<close>

type_synonym abs_lock = "(u32 \<times> nat) option"

inductive lock_step :: "abs_lock \<Rightarrow> abs_lock \<Rightarrow> bool" where
  acquire: "lock_step None (Some (t, 1))"
| reenter: "lock_step (Some (t, d)) (Some (t, d + 1))"
| partial_release: "lock_step (Some (t, d + 2)) (Some (t, d + 1))"
| release: "lock_step (Some (t, 1)) None"

definition lock_depth :: "abs_lock \<Rightarrow> u32 \<Rightarrow> nat" where
  "lock_depth a t = (case a of None \<Rightarrow> 0 | Some (u, d) \<Rightarrow> if t = u then d else 0)"

definition lock_rel :: "cs_state \<Rightarrow> abs_lock \<Rightarrow> bool" where
  "lock_rel s a \<longleftrightarrow> (\<forall>t. tdepth (th s t) = lock_depth a t) \<and> (\<forall>t d. a = Some (t, d) \<longrightarrow> 0 < d)"

lemma lock_rel_held: "lock_rel s a \<Longrightarrow> 0 < tdepth (th s t) \<Longrightarrow> a = Some (t, tdepth (th s t))"
  by (auto simp: lock_rel_def lock_depth_def split: option.splits if_splits)

lemma lock_rel_free: "lock_rel s a \<Longrightarrow> (\<forall>t. tdepth (th s t) = 0) \<Longrightarrow> a = None"
proof (cases a)
  case (Some td)
  assume "lock_rel s a" and z: "\<forall>t. tdepth (th s t) = 0"
  with Some have "lock_depth (Some td) (fst td) = 0" "0 < snd td"
    by (auto simp: lock_rel_def) (metis prod.collapse)
  then show ?thesis by (simp add: lock_depth_def split_beta)
qed simp

lemma lock_rel_others: "lock_rel s (Some (t, d)) \<Longrightarrow> u \<noteq> t \<Longrightarrow> tdepth (th s u) = 0"
  by (simp add: lock_rel_def lock_depth_def)

lemma lock_rel_Some:
  "0 < d \<Longrightarrow> tdepth (th s t) = d \<Longrightarrow> (\<And>u. u \<noteq> t \<Longrightarrow> tdepth (th s u) = 0) \<Longrightarrow> lock_rel s (Some (t, d))"
  by (simp add: lock_rel_def lock_depth_def)

lemma lock_rel_same: "lock_rel s a \<Longrightarrow> (\<And>t. tdepth (th s' t) = tdepth (th s t)) \<Longrightarrow> lock_rel s' a"
  by (simp add: lock_rel_def)

text \<open>How the number of entries of the moving thread changes in one access.\<close>

lemma cs_exec_depth:
  assumes "cs_exec t s = Some s'"
  shows "u \<noteq> t \<Longrightarrow> tdepth (th s' u) = tdepth (th s u)"
    and "tdepth (th s' t) = (case tpc (th s t) of RecCount \<Rightarrow> tdepth (th s t) + 1 | SetRec \<Rightarrow> 1
                             | _ \<Rightarrow> tdepth (th s t))"
  using assms
  by (auto simp: cs_exec_defs cs_wait_defs set_pc_def set_thread_def Let_def split: cs_pc.splits if_splits option.splits)

lemma exec_refines:
  assumes inv: "cs_inv s" and t0: "t \<noteq> 0" and rel: "lock_rel s a" and ex: "cs_exec t s = Some s'"
  shows "\<exists>a'. lock_rel s' a' \<and> (a' = a \<or> lock_step a a')"
proof -
  note dep = cs_exec_depth [OF ex]
  consider "tpc (th s t) = RecCount" | "tpc (th s t) = SetRec" | "tdepth (th s' t) = tdepth (th s t)"
    using dep(2) by (cases "tpc (th s t)") auto
  then show ?thesis
  proof cases
    case 1
    with cs_invD(3) [OF inv t0] have "0 < tdepth (th s t)" by (simp add: thread_inv_def)
    from lock_rel_held [OF rel this] have a: "a = Some (t, tdepth (th s t))" .
    have "lock_rel s' (Some (t, tdepth (th s t) + 1))"
      by (rule lock_rel_Some) (use 1 dep lock_rel_others [OF rel [unfolded a]] in simp_all)
    with a show ?thesis using reenter by blast
  next
    case 2
    then have h: "holds_right (th s t)" by (simp add: holds_right_def)
    have "tdepth (th s t) = 0" using cs_invD(3) [OF inv t0] 2 by (simp add: thread_inv_def)
    with cs_invD(6) [OF inv h] have z: "\<forall>u. tdepth (th s u) = 0" by metis
    from lock_rel_free [OF rel z] have a: "a = None" .
    have "lock_rel s' (Some (t, 1))" by (rule lock_rel_Some) (use 2 dep z in simp_all)
    with a show ?thesis using acquire by blast
  next
    case 3
    then have "lock_rel s' a" using lock_rel_same [OF rel] dep(1) by metis
    then show ?thesis by blast
  qed
qed

lemma leave_refines:
  assumes rel: "lock_rel s a" and d: "0 < tdepth (th s t)"
  shows "\<exists>a'. lock_rel (leave_call t s) a' \<and> lock_step a a'"
proof -
  from lock_rel_held [OF rel d] have a: "a = Some (t, tdepth (th s t))" .
  show ?thesis
  proof (cases "tdepth (th s t) = 1")
    case True
    with lock_rel_others [OF rel [unfolded a]] have "lock_rel (leave_call t s) None"
      by (simp add: lock_rel_def lock_depth_def leave_call_def set_thread_def Let_def)
    with a True show ?thesis using release by auto
  next
    case False
    then obtain n where n: "tdepth (th s t) = n + 2" using d
      by (metis add.commute le_add_diff_inverse less_one linorder_not_less nat_less_le one_add_one
          Suc_leI Suc_eq_plus1)
    have "lock_rel (leave_call t s) (Some (t, n + 1))"
      by (rule lock_rel_Some)
        (use n lock_rel_others [OF rel [unfolded a]] in \<open>simp_all add: leave_call_def set_thread_def Let_def\<close>)
    with a n show ?thesis using partial_release by auto
  qed
qed


lemma cs_exec_runs: "tpc (th s t) \<noteq> Idle \<Longrightarrow> \<not> is_asleep (tpc (th s t)) \<Longrightarrow> tpc (th s t) \<noteq> Notify \<Longrightarrow> \<exists>s'. cs_exec t s = Some s'"
  by (cases "tpc (th s t)") (simp_all add: cs_exec_defs Let_def)

lemma waiting_not_zero: "cs_inv s \<Longrightarrow> tpc (th s t) \<noteq> Idle \<Longrightarrow> t \<noteq> 0"
  by (auto simp: cs_inv_def idle_thread_def)

lemma ticket_or_right:
  assumes inv: "cs_inv s" and w: "0 < contrib (th s t)"
  shows "LockSemaphore s = 1 \<and> (\<forall>u. \<not> holds_right (th s u)) \<or>
         LockSemaphore s = 0 \<and> (\<exists>u. holds_right (th s u))"
proof -
  from cs_invD(4) [OF inv, of t] w have "0 < unat (LockCount s + 1)" by linarith
  with cs_invD(5) [OF inv] have sum: "tsum s + unat (LockSemaphore s) = 1" by simp
  show ?thesis
  proof (cases "tsum s = 0")
    case True
    then have "\<forall>u. \<not> holds_right (th s u)" by (auto simp: tsum_def tok_def split: if_splits)
    moreover from True sum have "unat (LockSemaphore s) = unat (1 :: u32)" by simp
    ultimately show ?thesis by (simp only: word_unat_eq_iff) simp
  next
    case False
    then obtain u where "tok (th s u) \<noteq> 0" unfolding tsum_def by (meson sum.not_neutral_contains_not_neutral)
    moreover from False sum have "LockSemaphore s = 0" by (simp add: unat_eq_zero [symmetric])
    ultimately show ?thesis by (auto simp: tok_def split: if_splits)
  qed
qed

text \<open>
  C6: mutual exclusion: whatever the interleaving of the calls of any number of threads, at
  most one thread is inside the section, \<open>OwningThread\<close> is its id and \<open>RecursionCount\<close> the number
  of times it has entered.
\<close>

theorem critical_section_exclusive:
  assumes "reach cs_init cs_step s" and "0 < tdepth (th s t)"
  shows "OwningThread s = t \<and> unat (RecursionCount s) = tdepth (th s t) \<and>
         (\<forall>u. 0 < tdepth (th s u) \<longrightarrow> u = t)"
proof (intro conjI allI impI)
  note inv = critical_section.reach_invar [OF assms(1)]
  have t0: "t \<noteq> 0" using assms(2) inv by (auto simp: cs_inv_def idle_thread_def)
  show "OwningThread s = t" "unat (RecursionCount s) = tdepth (th s t)"
    using cs_invD(3) [OF inv t0] assms(2) by (auto simp: thread_inv_def)
  show "u = t" if "0 < tdepth (th s u)" for u
    using right_unique [OF inv, of t u] assms(2) that by (simp add: holds_right_def)
qed

lemma demo_inside:
  "\<exists>s. cs_schedule [Enter 1, Run 1, Run 1, Run 1, Enter 2, Run 2, Run 2] (cs_initialize 0) = Some s \<and>
       0 < tdepth (th s 1) \<and> tpc (th s 2) = Waiting"
  by (simp add: cs_act_def cs_exec_defs enter_call_def set_pc_def set_thread_def cs_initialize_def
      idle_thread_def Let_def)

theorem critical_section_exclusive_witness:
  "\<exists>s. reach cs_init cs_step s \<and> 0 < tdepth (th s 1) \<and> OwningThread s = 1"
proof -
  from demo_inside obtain s where s: "cs_schedule [Enter 1, Run 1, Run 1, Run 1, Enter 2, Run 2, Run 2]
      (cs_initialize 0) = Some s" "0 < tdepth (th s 1)" by blast
  note r = schedule_reach [OF reach_initialize s(1)]
  from critical_section_exclusive [OF r s(2)] r s(2) show ?thesis by blast
qed


text \<open>
  C8: a critical section refines a re-entrant lock: in every reachable state, a step of
  any thread leaves the abstract lock as it is or is one acquire, re-entry or release of it.
\<close>

theorem critical_section_refines_lock:
  assumes "reach cs_init cs_step s" and "lock_rel s a" and "cs_step s s'"
  shows "\<exists>a'. lock_rel s' a' \<and> (a' = a \<or> lock_step a a')"
  using assms(3)
proof cases
  case (enter t)
  then have "lock_rel s' a" by (intro lock_rel_same [OF assms(2)]) (simp add: enter_call_def set_pc_def)
  then show ?thesis by blast
next
  case (try_enter t)
  then have "lock_rel s' a" by (intro lock_rel_same [OF assms(2)]) (simp add: try_enter_call_def set_pc_def)
  then show ?thesis by blast
next
  case (leave t)
  then show ?thesis using leave_refines [OF assms(2)] by blast
next
  case (run t)
  then show ?thesis using exec_refines [OF critical_section.reach_invar [OF assms(1)] _ assms(2)] by blast
next
  case (wake t u)
  then have "lock_rel s' a" by (intro lock_rel_same [OF assms(2)]) (simp add: notify_one_def set_pc_def)
  then show ?thesis by blast
qed

theorem critical_section_refines_lock_witness:
  "\<exists>a'. lock_rel (enter_call 1 (cs_initialize 0)) a' \<and> (a' = None \<or> lock_step None a')"
proof (rule critical_section_refines_lock [OF reach_initialize])
  show "lock_rel (cs_initialize 0) None"
    by (simp add: lock_rel_def lock_depth_def cs_initialize_def idle_thread_def)
  show "cs_step (cs_initialize 0) (enter_call 1 (cs_initialize 0))"
    by (rule cs_step.enter) (simp_all add: cs_initialize_def idle_thread_def)
qed

end
