(* ===== verification/Section_Wakeups.thy ===== *)
theory Section_Wakeups
  imports Critical_Section
begin

text \<open>
  The wake-ups of a critical section: which waiters are registered where, who has still to be told of a ticket, that no
  wake-up is lost while every sleeping thread is registered in the queue that the table has, and the race of
  \<^verbatim>\<open>getWaitQueue\<close> with \<^verbatim>\<open>cleanupWaitQueue\<close> after which one is.
\<close>

section \<open>The invariant of the wait queues\<close>

fun observed :: "cs_pc \<Rightarrow> u32 option" where
  "observed (WaitCheck v) = Some v"
| "observed (GetQueue v) = Some v"
| "observed (Register v q) = Some v"
| "observed (WaitLoop v q) = Some v"
| "observed (PlatformWait v q) = Some v"
| "observed (Asleep v q) = Some v"
| "observed c = None"

fun queue_of :: "cs_pc \<Rightarrow> nat option" where
  "queue_of (Register v q) = Some q"
| "queue_of (WaitLoop v q) = Some q"
| "queue_of (PlatformWait v q) = Some q"
| "queue_of (Asleep v q) = Some q"
| "queue_of (Unregister q) = Some q"
| "queue_of (Cleanup q) = Some q"
| "queue_of (WakeCount q) = Some q"
| "queue_of c = None"

fun registered :: "nat \<Rightarrow> cs_pc \<Rightarrow> nat" where
  "registered q (WaitLoop v q') = (if q = q' then 1 else 0)"
| "registered q (PlatformWait v q') = (if q = q' then 1 else 0)"
| "registered q (Asleep v q') = (if q = q' then 1 else 0)"
| "registered q (Unregister q') = (if q = q' then 1 else 0)"
| "registered q c = 0"

text \<open>
  A thread that will take a ticket, or will wake one that does: it waits and is awake, or it is in \<^verbatim>\<open>WakeByAddressSingle\<close> and
  has not looked for the queue yet, has found the one the table has, or is about to notify.
\<close>

definition helper :: "nat option \<Rightarrow> cs_pc \<Rightarrow> bool" where
  "helper wq c \<longleftrightarrow> in_wait c \<and> \<not> is_asleep c \<or> c = WakeFind \<or> c = Notify \<or> (\<exists>q. c = WakeCount q \<and> wq = Some q)"

definition sleeper :: "cs_state \<Rightarrow> bool" where
  "sleeper s \<longleftrightarrow> (\<exists>u v q. tpc (th s u) = Asleep v q \<and> waitQueue s = Some q)"

definition pc_ok :: "nat \<Rightarrow> cs_pc \<Rightarrow> bool" where
  "pc_ok n c \<longleftrightarrow> (\<forall>v. observed c = Some v \<longrightarrow> v = 0) \<and> (\<forall>q. queue_of c = Some q \<longrightarrow> q < n)"

definition wake_inv :: "cs_state \<Rightarrow> bool" where
  "wake_inv s \<longleftrightarrow> (\<forall>t. pc_ok (queueCount s) (tpc (th s t))) \<and> (\<forall>q. waitQueue s = Some q \<longrightarrow> q < queueCount s) \<and>
     (\<forall>q. waiterCount s q = (\<Sum>t\<in>UNIV. registered q (tpc (th s t)))) \<and>
     (LockSemaphore s = 1 \<longrightarrow> sleeper s \<longrightarrow> (\<exists>u. helper (waitQueue s) (tpc (th s u))))"

lemma pc_ok_mono: "pc_ok n c \<Longrightarrow> n \<le> m \<Longrightarrow> pc_ok m c"
  by (fastforce simp: pc_ok_def)

text \<open>One thread moves: what has to be checked of a step.\<close>

lemma wake_update:
  assumes inv: "wake_inv s" and th': "th s' = (th s)(t := T)"
    and n: "queueCount s \<le> queueCount s'" "\<forall>q. waitQueue s' = Some q \<longrightarrow> q < queueCount s'"
    and ok: "pc_ok (queueCount s') (tpc T)"
    and c: "\<And>q. waiterCount s' q + registered q (tpc (th s t)) = waiterCount s q + registered q (tpc T)"
    and h: "LockSemaphore s' = 1 \<Longrightarrow> sleeper s' \<Longrightarrow> helper (waitQueue s') (tpc T) \<or>
      LockSemaphore s = 1 \<and> sleeper s \<and> waitQueue s' = waitQueue s \<and> \<not> helper (waitQueue s) (tpc (th s t))"
  shows "wake_inv s'"
  unfolding wake_inv_def
proof (intro conjI allI impI)
  show "pc_ok (queueCount s') (tpc (th s' u))" for u
    using inv ok pc_ok_mono [OF _ n(1)] by (simp add: wake_inv_def th')
  show "q < queueCount s'" if "waitQueue s' = Some q" for q using n(2) that by simp
  show "waiterCount s' q = (\<Sum>u\<in>UNIV. registered q (tpc (th s' u)))" for q
  proof -
    have "(\<Sum>x\<in>UNIV. registered q (tpc (th s x))) + registered q (tpc T) =
        registered q (tpc (th s t)) + (\<Sum>x\<in>UNIV. registered q (tpc (((th s)(t := T)) x)))"
      using sum_fun_upd_nat [of UNIV t "\<lambda>x. registered q (tpc x)" "th s" T] by simp
    moreover have "waiterCount s q = (\<Sum>t\<in>UNIV. registered q (tpc (th s t)))" using inv by (simp add: wake_inv_def)
    ultimately show ?thesis using c [of q] by (simp add: th')
  qed
  show "\<exists>u. helper (waitQueue s') (tpc (th s' u))" if a: "LockSemaphore s' = 1" "sleeper s'"
    using h [OF a]
  proof (elim disjE conjE)
    assume "helper (waitQueue s') (tpc T)"
    then show ?thesis by (intro exI [of _ t]) (simp add: th')
  next
    assume o: "LockSemaphore s = 1" "sleeper s" "waitQueue s' = waitQueue s" "\<not> helper (waitQueue s) (tpc (th s t))"
    then obtain u where u: "helper (waitQueue s) (tpc (th s u))" using inv by (auto simp: wake_inv_def)
    then have "u \<noteq> t" using o(4) by auto
    with u show ?thesis by (intro exI [of _ u]) (simp add: th' o(3))
  qed
qed

lemma registered_le: "wake_inv s \<Longrightarrow> registered q (tpc (th s t)) \<le> waiterCount s q"
  using member_le_sum [of t UNIV "\<lambda>u. registered q (tpc (th s u))"] by (simp add: wake_inv_def)

lemma sleeper_counted: "wake_inv s \<Longrightarrow> tpc (th s u) = Asleep v q \<Longrightarrow> 0 < waiterCount s q"
  using registered_le [of s q u] by simp

text \<open>A thread that is awake and stays awake changes nothing for the sleepers.\<close>

lemma sleeper_same:
  assumes "th s' = (th s)(t := T)" "\<not> is_asleep (tpc (th s t))" "waitQueue s' = waitQueue s"
    and "\<not> is_asleep (tpc T)"
  shows "sleeper s' = sleeper s"
  using assms by (auto simp: sleeper_def split: if_splits) (metis is_asleep.simps(1))+

lemma wake_awake:
  assumes inv: "wake_inv s" and th': "th s' = (th s)(t := T)" and aw: "\<not> is_asleep (tpc (th s t))" "\<not> is_asleep (tpc T)"
    and f: "waitQueue s' = waitQueue s" "queueCount s' = queueCount s" "waiterCount s' = waiterCount s" "LockSemaphore s' = LockSemaphore s"
    and r: "\<And>q. registered q (tpc T) = registered q (tpc (th s t))" and ok: "pc_ok (queueCount s) (tpc T)"
    and h: "helper (waitQueue s) (tpc (th s t)) \<Longrightarrow> sleeper s \<Longrightarrow> LockSemaphore s = 1 \<Longrightarrow> helper (waitQueue s) (tpc T)"
  shows "wake_inv s'"
proof (rule wake_update [OF inv th'])
  show "\<forall>q. waitQueue s' = Some q \<longrightarrow> q < queueCount s'" using inv by (simp add: wake_inv_def f)
  show "helper (waitQueue s') (tpc T) \<or> LockSemaphore s = 1 \<and> sleeper s \<and> waitQueue s' = waitQueue s \<and> \<not> helper (waitQueue s) (tpc (th s t))"
    if "LockSemaphore s' = 1" "sleeper s'"
    using that h sleeper_same [OF th' aw(1) f(1) aw(2)] by (auto simp: f)
qed (use f r ok in simp_all)

section \<open>Every step keeps it\<close>

definition outside :: "cs_pc \<Rightarrow> bool" where
  "outside c \<longleftrightarrow> \<not> in_wait c \<and> c \<noteq> WakeFind \<and> c \<noteq> Notify \<and> (\<forall>q. c \<noteq> WakeCount q)"

lemma outside_facts: "outside c \<Longrightarrow> \<not> is_asleep c \<and> registered q c = 0 \<and> pc_ok n c \<and> \<not> helper wq c"
  by (cases c) (simp_all add: outside_def helper_def pc_ok_def)

lemma wake_outside:
  assumes "wake_inv s" "th s' = (th s)(t := T)" "outside (tpc (th s t))" "outside (tpc T)"
    "waitQueue s' = waitQueue s" "queueCount s' = queueCount s" "waiterCount s' = waiterCount s" "LockSemaphore s' = LockSemaphore s"
  shows "wake_inv s'"
  by (rule wake_awake [OF assms(1,2)]) (use assms(3-) outside_facts in auto)

text \<open>From one place to another of the loop, or into it, with the same registration.\<close>

lemma wake_waits:
  assumes inv: "wake_inv s" and th': "th s' = (th s)(t := T)" and aw: "\<not> is_asleep (tpc (th s t))"
    and f: "waitQueue s' = waitQueue s" "queueCount s' = queueCount s" "waiterCount s' = waiterCount s" "LockSemaphore s' = LockSemaphore s"
    and T: "in_wait (tpc T)" "\<not> is_asleep (tpc T)" "pc_ok (queueCount s) (tpc T)" "\<And>q. registered q (tpc T) = registered q (tpc (th s t))"
  shows "wake_inv s'"
  by (rule wake_awake [OF inv th' aw T(2) f T(4,3)]) (use T(1,2) in \<open>simp add: helper_def\<close>)

lemma semaphore_bit:
  assumes "cs_inv s"
  shows "LockSemaphore s = 0 \<or> LockSemaphore s = 1"
proof -
  have "unat (LockSemaphore s) \<le> 1" using cs_invD(5) [OF assms] by (simp split: if_splits)
  then have "unat (LockSemaphore s) = unat (0 :: u32) \<or> unat (LockSemaphore s) = unat (1 :: u32)" by (simp add: le_Suc_eq)
  then show ?thesis by (simp only: word_unat_eq_iff)
qed

lemma exec_wake_inv:
  assumes ci: "cs_inv s" and inv: "wake_inv s" and t0: "t \<noteq> 0" and ex: "cs_exec t s = Some s'"
  shows "wake_inv s'"
proof -
  note sem = semaphore_bit [OF ci]
  have pk: "pc_ok (queueCount s) (tpc (th s t))" using inv by (simp add: wake_inv_def)
  have wq: "\<forall>q. waitQueue s = Some q \<longrightarrow> q < queueCount s" using inv by (simp add: wake_inv_def)
  note d = cs_exec_defs set_pc_def set_thread_def Let_def outside_def pc_ok_def
  show ?thesis
  proof (cases "tpc (th s t)")
    case CheckOwner
    show ?thesis
    proof (cases "OwningThread s = t")
      case True
      with CheckOwner ex show ?thesis by (auto simp: d intro!: wake_outside [OF inv])
    next
      case False
      with CheckOwner ex show ?thesis by (auto simp: d intro!: wake_waits [OF inv])
    qed
  next
    case Waiting
    have "LockSemaphore s = 0" if "\<not> 0 < sint (LockSemaphore s)" using sem that by auto
    with Waiting ex show ?thesis
      by (cases "0 < sint (LockSemaphore s)") (auto simp: d waitForCriticalSection_def intro!: wake_waits [OF inv])
  next
    case (TakeTicket v)
    then have "v \<noteq> 0" using cs_invD(3) [OF ci t0] by (simp add: thread_inv_def)
    show ?thesis
    proof (cases "LockSemaphore s = v")
      case True
      with sem \<open>v \<noteq> 0\<close> have "v = 1" by auto
      with True TakeTicket ex have s': "s' = set_pc t SetOwner (s\<lparr>LockSemaphore := 0\<rparr>)" by (simp add: d take_ticket_def)
      show ?thesis
        by (rule wake_update [OF inv, where T = "(th s t)\<lparr>tpc := SetOwner\<rparr>" and t = t]) (use wq TakeTicket in \<open>simp_all add: s' d\<close>)
    next
      case False
      with TakeTicket ex show ?thesis by (auto simp: d take_ticket_def intro!: wake_waits [OF inv])
    qed
  next
    case (WaitCheck v)
    with pk ex show ?thesis by (cases "LockSemaphore s = v") (auto simp: d intro!: wake_waits [OF inv])
  next
    case (GetQueue v)
    show ?thesis
    proof (cases "waitQueue s")
      case None
      with GetQueue ex have s': "s' = set_pc t (Register v (queueCount s)) (s\<lparr>waitQueue := Some (queueCount s), queueCount := queueCount s + 1\<rparr>)"
        by (simp add: d getWaitQueue_def)
      show ?thesis
        by (rule wake_update [OF inv, where T = "(th s t)\<lparr>tpc := Register v (queueCount s)\<rparr>" and t = t])
          (use GetQueue pk in \<open>simp_all add: s' d helper_def\<close>)
    next
      case (Some q)
      with GetQueue pk wq ex show ?thesis by (auto simp: d getWaitQueue_def intro!: wake_waits [OF inv])
    qed
  next
    case (Register v q)
    then have s': "s' = set_pc t (WaitLoop v q) (s\<lparr>waiterCount := (waiterCount s)(q := waiterCount s q + 1)\<rparr>)"
      using ex by (simp add: d registerWaiter_def)
    show ?thesis
      by (rule wake_update [OF inv, where T = "(th s t)\<lparr>tpc := WaitLoop v q\<rparr>" and t = t])
        (use Register pk wq in \<open>simp_all add: s' d helper_def\<close>)
  next
    case (WaitLoop v q)
    with pk ex show ?thesis by (cases "LockSemaphore s = v") (auto simp: d wait_loop_def intro!: wake_waits [OF inv])
  next
    case (PlatformWait v q)
    then have v: "v = 0" using pk by (simp add: pc_ok_def)
    show ?thesis
    proof (cases "LockSemaphore s = v")
      case True
      with PlatformWait ex have s': "s' = set_pc t (Asleep v q) s" by (simp add: d platformWaitIndefinite_def)
      show ?thesis
        by (rule wake_update [OF inv, where T = "(th s t)\<lparr>tpc := Asleep v q\<rparr>" and t = t])
          (use PlatformWait pk wq True v in \<open>simp_all add: s' d\<close>)
    next
      case False
      with PlatformWait pk ex show ?thesis by (auto simp: d platformWaitIndefinite_def intro!: wake_waits [OF inv])
    qed
  next
    case (Unregister q)
    then have s': "s' = set_pc t (Cleanup q) (s\<lparr>waiterCount := (waiterCount s)(q := waiterCount s q - 1)\<rparr>)"
      using ex by (simp add: d unregisterWaiter_def)
    have "0 < waiterCount s q" using registered_le [OF inv, of q t] Unregister by simp
    then show ?thesis
      by (intro wake_update [OF inv, where T = "(th s t)\<lparr>tpc := Cleanup q\<rparr>" and t = t])
        (use Unregister pk wq in \<open>simp_all add: s' d helper_def\<close>)
  next
    case (Cleanup q)
    show ?thesis
      by (rule wake_update [OF inv, where T = "(th s t)\<lparr>tpc := Waiting\<rparr>" and t = t])
        (use Cleanup ex wq in \<open>auto simp: d cleanupWaitQueue_def helper_def\<close>)
  next
    case Signal
    show ?thesis
      by (rule wake_update [OF inv, where T = "(th s t)\<lparr>tpc := WakeFind\<rparr>" and t = t])
        (use Signal ex wq in \<open>auto simp: d helper_def\<close>)
  next
    case WakeFind
    show ?thesis
    proof (cases "waitQueue s")
      case None
      with WakeFind ex have s': "s' = set_pc t Idle s" by (simp add: d wake_find_def)
      show ?thesis
        by (rule wake_awake [OF inv, where T = "(th s t)\<lparr>tpc := Idle\<rparr>" and t = t]) (use WakeFind None in \<open>simp_all add: s' d sleeper_def\<close>)
    next
      case (Some q)
      with WakeFind ex have s': "s' = set_pc t (WakeCount q) s" by (simp add: d wake_find_def)
      show ?thesis
        by (rule wake_awake [OF inv, where T = "(th s t)\<lparr>tpc := WakeCount q\<rparr>" and t = t])
          (use WakeFind Some wq in \<open>simp_all add: s' d helper_def\<close>)
    qed
  next
    case (WakeCount q)
    define c where "c = (if waiterCount s q = 0 then Idle else Notify)"
    have s': "s' = set_pc t c s" using ex WakeCount by (simp add: d wake_count_def c_def)
    have "helper (waitQueue s) c" if "helper (waitQueue s) (WakeCount q)" "sleeper s"
      using that sleeper_counted [OF inv] by (auto simp: helper_def sleeper_def c_def)
    then show ?thesis
      by (intro wake_awake [OF inv, where T = "(th s t)\<lparr>tpc := c\<rparr>" and t = t])
        (use WakeCount in \<open>simp_all add: s' d c_def\<close>)
  qed (use ex in \<open>auto simp: d spin_count_check_def spin_owner_check_def intro!: wake_outside [OF inv] split: if_splits try_caller.splits\<close>)
qed

lemma notify_wake_inv:
  assumes inv: "wake_inv s" and pc: "tpc (th s t) = Notify"
    and u: "is_asleep (tpc (th s u)) \<or> (\<forall>w. \<not> is_asleep (tpc (th s w)))"
  shows "wake_inv (notify_one u t s)"
proof (cases "is_asleep (tpc (th s u))")
  case True
  then obtain v q where a: "tpc (th s u) = Asleep v q" by (cases "tpc (th s u)") auto
  have ne: "u \<noteq> t" using a pc by auto
  have pk: "pc_ok (queueCount s) (Asleep v q)" and wq: "\<forall>q. waitQueue s = Some q \<longrightarrow> q < queueCount s"
    using inv a unfolding wake_inv_def by metis+
  let ?s = "set_pc u (PlatformWait v q) s"
  have s1: "wake_inv ?s"
    by (rule wake_update [OF inv, where T = "(th s u)\<lparr>tpc := PlatformWait v q\<rparr>" and t = u])
      (use a pk wq in \<open>simp_all add: set_pc_def pc_ok_def helper_def\<close>)
  have hu: "helper (waitQueue s) (PlatformWait v q)" by (simp add: helper_def)
  let ?t = "set_pc t Idle ?s"
  have tu: "tpc (th ?t u) = PlatformWait v q" using ne by (simp add: set_pc_def)
  have base: "pc_ok (queueCount s) Idle" by (simp add: pc_ok_def)
  have "wake_inv ?t"
    unfolding wake_inv_def
  proof (intro conjI allI impI)
    fix q
    have "(\<Sum>x\<in>UNIV. registered q (tpc (th ?s x))) = (\<Sum>x\<in>UNIV. registered q (tpc (th ?t x)))"
      by (rule sum.cong) (use pc ne in \<open>auto simp: set_pc_def\<close>)
    then show "waiterCount ?t q = (\<Sum>x\<in>UNIV. registered q (tpc (th ?t x)))"
      using s1 by (simp add: wake_inv_def) (simp add: set_pc_def)
  next
    show "\<exists>w. helper (waitQueue ?t) (tpc (th ?t w))" by (rule exI [of _ u]) (simp only: tu, simp add: helper_def)
  qed (use s1 base in \<open>auto simp: wake_inv_def set_pc_def\<close>)
  then show ?thesis by (simp add: notify_one_def a)
next
  case False
  then have "woken (tpc (th s u)) = tpc (th s u)" by (cases "tpc (th s u)") auto
  then have e: "notify_one u t s = set_pc t Idle s" by (simp add: notify_one_def set_pc_def)
  have "\<not> sleeper s" using u False unfolding sleeper_def by (metis is_asleep.simps(1))
  then show ?thesis unfolding e
    by (intro wake_awake [OF inv, where T = "(th s t)\<lparr>tpc := Idle\<rparr>" and t = t]) (use pc in \<open>simp_all add: set_pc_def pc_ok_def\<close>)
qed

lemma call_wake_inv:
  assumes "wake_inv s" "tpc (th s t) = Idle"
  shows "wake_inv (enter_call t s)" "wake_inv (try_enter_call t s)" "wake_inv (leave_call t s)"
proof -
  have w: "wake_inv (set_thread t c d r)"
    if "outside c" "th r = th s" "waitQueue r = waitQueue s" "queueCount r = queueCount s" "waiterCount r = waiterCount s" "LockSemaphore r = LockSemaphore s"
    for c d r
    by (rule wake_outside [OF assms(1), where T = "\<lparr>tpc = c, tdepth = d\<rparr>" and t = t])
      (use that assms(2) in \<open>simp_all add: set_thread_def outside_def\<close>)
  have e: "set_pc t c s = set_thread t c (tdepth (th s t)) s" for c by (cases "th s t") (simp add: set_pc_def set_thread_def)
  show "wake_inv (enter_call t s)" "wake_inv (try_enter_call t s)" "wake_inv (leave_call t s)"
    unfolding enter_call_def try_enter_call_def leave_call_def Let_def e by (rule w; simp add: outside_def)+
qed

lemma wake_inv_init: "cs_init s \<Longrightarrow> wake_inv s"
  by (simp add: cs_init_def wake_inv_def idle_thread_def sleeper_def pc_ok_def)

lemma section_inv_step:
  assumes "cs_inv s \<and> wake_inv s" "cs_step s s'"
  shows "cs_inv s' \<and> wake_inv s'"
  using assms(2)
proof cases
  case (run t)
  then show ?thesis using cs_inv_step [OF _ assms(2)] exec_wake_inv assms(1) by blast
next
  case (wake t u)
  then show ?thesis using cs_inv_step [OF _ assms(2)] notify_wake_inv assms(1) by blast
qed (use cs_inv_step [OF _ assms(2)] call_wake_inv assms(1) in auto)

interpretation section_wakeups: inductive_invariant cs_init cs_step "\<lambda>s. cs_inv s \<and> wake_inv s"
proof unfold_locales
  show "cs_inv s \<and> wake_inv s" if "cs_init s" for s using that by (simp add: cs_inv_init wake_inv_init)
qed (rule section_inv_step)

text \<open>A section that is deleted when no thread uses it is as good as new.\<close>

lemma cs_delete_init: "wake_inv s \<Longrightarrow> (\<forall>t. th s t = idle_thread) \<Longrightarrow> cs_init (cs_delete s)"
  by (simp add: cs_init_def cs_delete_def wake_inv_def idle_thread_def)

section \<open>What waiting threads can rely on\<close>

text \<open>The thread can make a step of its own.\<close>

definition can_run :: "u32 \<Rightarrow> cs_state \<Rightarrow> bool" where
  "can_run t s \<longleftrightarrow> t \<noteq> 0 \<and> ((\<exists>s'. cs_exec t s = Some s') \<or> tpc (th s t) = Notify)"

lemma awake_can_run: "cs_inv s \<Longrightarrow> tpc (th s t) \<noteq> Idle \<Longrightarrow> \<not> is_asleep (tpc (th s t)) \<Longrightarrow> can_run t s"
  using cs_exec_runs waiting_not_zero by (auto simp: can_run_def)

text \<open>Every sleeping thread is registered in the queue that the table has for the word of tickets.\<close>

definition no_orphan :: "cs_state \<Rightarrow> bool" where
  "no_orphan s \<longleftrightarrow> (\<forall>u v q. tpc (th s u) = Asleep v q \<longrightarrow> waitQueue s = Some q)"

text \<open>
  C7: no wake-up is lost. In every state that calls of any threads reach, in which every sleeping thread is registered
  in the queue of the table: for a thread that waits, asleep or not, another thread has the right to the section, or there is a
  ticket and some thread is awake that takes it or is still to notify a sleeping one. And the system is never stuck: when a
  thread is inside a call, a thread can run, or one is inside the section and outside every call.
\<close>

theorem critical_section_no_deadlock:
  assumes "reach cs_init cs_step s" and "no_orphan s" and "tpc (th s t) \<noteq> Idle"
  shows "((\<exists>u. can_run u s) \<or> (\<exists>u. tpc (th s u) = Idle \<and> 0 < tdepth (th s u))) \<and>
         (in_wait (tpc (th s t)) \<longrightarrow>
          LockSemaphore s = 0 \<and> (\<exists>u. u \<noteq> t \<and> holds_right (th s u)) \<or>
          LockSemaphore s = 1 \<and> (\<exists>u. can_run u s \<and> helper (waitQueue s) (tpc (th s u))))"
proof -
  have inv: "cs_inv s" and wi: "wake_inv s" using section_wakeups.reach_invar [OF assms(1)] by simp_all
  have hr: "can_run u s" if "helper (waitQueue s) (tpc (th s u))" for u
    using that by (intro awake_can_run [OF inv]) (auto simp: helper_def)
  have w: "LockSemaphore s = 0 \<and> (\<exists>u. u \<noteq> t \<and> holds_right (th s u)) \<or>
      LockSemaphore s = 1 \<and> (\<exists>u. can_run u s \<and> helper (waitQueue s) (tpc (th s u)))" if t: "in_wait (tpc (th s t))" for t
  proof -
    have "tpc (th s t) \<noteq> Idle" using t by auto
    then have t0: "t \<noteq> 0" by (rule waiting_not_zero [OF inv])
    have nr: "\<not> holds_right (th s t)" by (rule in_wait_no_right [OF inv t0 t])
    have "0 < contrib (th s t)" using in_wait_places [OF t] by (simp add: contrib_def)
    from ticket_or_right [OF inv this] show ?thesis
    proof (elim disjE conjE exE)
      assume one: "LockSemaphore s = 1"
      have "\<exists>u. helper (waitQueue s) (tpc (th s u))"
      proof (cases "is_asleep (tpc (th s t))")
        case True
        then obtain v q where "tpc (th s t) = Asleep v q" by (cases "tpc (th s t)") auto
        then have "sleeper s" using assms(2) unfolding no_orphan_def sleeper_def by blast
        with wi one show ?thesis by (simp add: wake_inv_def)
      next
        case False
        with t show ?thesis by (auto simp: helper_def)
      qed
      with one hr show ?thesis by blast
    qed (use nr in metis)
  qed
  have "(\<exists>u. can_run u s) \<or> (\<exists>u. tpc (th s u) = Idle \<and> 0 < tdepth (th s u))"
  proof (cases "\<exists>u. tpc (th s u) \<noteq> Idle \<and> \<not> is_asleep (tpc (th s u))")
    case True
    then show ?thesis using awake_can_run [OF inv] by blast
  next
    case False
    then have "is_asleep (tpc (th s t))" using assms(3) by blast
    then have "in_wait (tpc (th s t))" by (cases "tpc (th s t)") auto
    from w [OF this] show ?thesis
    proof (elim disjE conjE exE)
      fix u assume h: "holds_right (th s u)"
      have "\<not> is_asleep (tpc (th s u))"
        using h in_wait_no_right [OF inv, of u] waiting_not_zero [OF inv, of u] by (cases "tpc (th s u)") auto
      with False have "tpc (th s u) = Idle" by blast
      with h show ?thesis by (auto simp: holds_right_def)
    qed blast
  qed
  with w show ?thesis by blast
qed

text \<open>Thread 2 sleeps, thread 1 has left the section and published the ticket.\<close>

lemmas schedule_defs = cs_act_def cs_exec_defs cs_wait_defs enter_call_def leave_call_def set_pc_def set_thread_def Let_def

definition demo_schedule :: "cs_action list" where
  "demo_schedule = [Enter 1, Run 1, Run 1, Run 1, Enter 2, Run 2, Run 2, Run 2, Run 2, Run 2, Run 2, Run 2, Run 2, Leave 1, Run 1, Run 1, Run 1]"

lemma demo_asleep:
  "\<exists>s. cs_schedule demo_schedule (cs_initialize 0) = Some s \<and>
     tpc (th s 2) = Asleep 0 0 \<and> LockSemaphore s = 1 \<and> no_orphan s"
  by (simp add: schedule_defs cs_initialize_def idle_thread_def demo_schedule_def no_orphan_def)

theorem critical_section_no_deadlock_witness:
  "\<exists>s. reach cs_init cs_step s \<and> tpc (th s 2) = Asleep 0 0 \<and> LockSemaphore s = 1 \<and>
     (\<exists>u. can_run u s \<and> helper (waitQueue s) (tpc (th s u)))"
proof -
  obtain s where s: "cs_schedule demo_schedule
      (cs_initialize 0) = Some s" "tpc (th s 2) = Asleep 0 0" "LockSemaphore s = 1" "no_orphan s"
    using demo_asleep by blast
  note r = schedule_reach [OF reach_initialize s(1)]
  from s(2) have "tpc (th s 2) \<noteq> Idle" by simp
  from critical_section_no_deadlock [OF r s(4) this] r s(2,3) show ?thesis by auto
qed

definition lost_schedule :: "cs_action list" where
  "lost_schedule =
     [Enter 1, Run 1, Run 1, Run 1, Enter 3, Run 3, Run 3, Run 3, Run 3, Run 3, Run 3,
      Enter 2, Run 2, Run 2, Run 2, Run 2, Run 2, Leave 1, Run 1, Run 1, Run 1, Run 1, Run 1, Wake 0 1,
      Run 3, Run 3, Run 3, Run 3, Run 3, Run 3, Run 3, Run 2, Run 2, Run 2, Leave 3, Run 3, Run 3, Run 3, Run 3]"

text \<open>
  The hypothesis is needed. Thread 2 has got the queue and is not registered yet when thread 3, the only registered waiter, leaves it:
  the queue is erased from the table. Thread 2 registers in the erased queue and sleeps; the next thread that leaves finds no queue
  and notifies nobody. There is a ticket, nobody is inside, no thread can run, and thread 2 sleeps.
\<close>

theorem critical_section_lost_wakeup:
  "\<exists>s. reach cs_init cs_step s \<and> is_asleep (tpc (th s 2)) \<and> LockSemaphore s = 1 \<and> OwningThread s = 0 \<and>
     (\<forall>u. \<not> can_run u s) \<and> (\<forall>u. tdepth (th s u) = 0)"
proof -
  have "\<exists>s. cs_schedule lost_schedule
      (cs_initialize 0) = Some s \<and> is_asleep (tpc (th s 2)) \<and> LockSemaphore s = 1 \<and> OwningThread s = 0 \<and>
      (\<forall>u. \<not> can_run u s) \<and> (\<forall>u. tdepth (th s u) = 0)"
    by (simp add: schedule_defs cs_initialize_def idle_thread_def lost_schedule_def can_run_def notify_one_def)
  then show ?thesis using schedule_reach [OF reach_initialize] by blast
qed

end
