(* ===== verification/Access_Masks.thy ===== *)
theory Access_Masks
  imports Wibo_Prelude
begin

unbundle bit_operations_syntax

text \<open>
  Access masks (\<^verbatim>\<open>src/src/access.h\<close>, \<^verbatim>\<open>src/src/access.cpp\<close> and the constants of
  \<^verbatim>\<open>src/src/types.h\<close>): the expansion of generic rights and the split of a requested mask into
  the granted and the denied rights.
\<close>

section \<open>Rights\<close>

abbreviation (input) FILE_READ_DATA :: u32 where "FILE_READ_DATA \<equiv> 0x1"
abbreviation (input) FILE_LIST_DIRECTORY :: u32 where "FILE_LIST_DIRECTORY \<equiv> 0x1"
abbreviation (input) FILE_WRITE_DATA :: u32 where "FILE_WRITE_DATA \<equiv> 0x2"
abbreviation (input) FILE_ADD_FILE :: u32 where "FILE_ADD_FILE \<equiv> 0x2"
abbreviation (input) FILE_APPEND_DATA :: u32 where "FILE_APPEND_DATA \<equiv> 0x4"
abbreviation (input) FILE_ADD_SUBDIRECTORY :: u32 where "FILE_ADD_SUBDIRECTORY \<equiv> 0x4"
abbreviation (input) FILE_READ_EA :: u32 where "FILE_READ_EA \<equiv> 0x8"
abbreviation (input) FILE_WRITE_EA :: u32 where "FILE_WRITE_EA \<equiv> 0x10"
abbreviation (input) FILE_EXECUTE :: u32 where "FILE_EXECUTE \<equiv> 0x20"
abbreviation (input) FILE_TRAVERSE :: u32 where "FILE_TRAVERSE \<equiv> 0x20"
abbreviation (input) FILE_DELETE_CHILD :: u32 where "FILE_DELETE_CHILD \<equiv> 0x40"
abbreviation (input) FILE_READ_ATTRIBUTES :: u32 where "FILE_READ_ATTRIBUTES \<equiv> 0x80"
abbreviation (input) FILE_WRITE_ATTRIBUTES :: u32 where "FILE_WRITE_ATTRIBUTES \<equiv> 0x100"
abbreviation (input) SYNCHRONIZE :: u32 where "SYNCHRONIZE \<equiv> 0x00100000"
abbreviation (input) STANDARD_RIGHTS_READ :: u32 where "STANDARD_RIGHTS_READ \<equiv> 0x00020000"
abbreviation (input) STANDARD_RIGHTS_REQUIRED :: u32 where "STANDARD_RIGHTS_REQUIRED \<equiv> 0x000F0000"
abbreviation (input) GENERIC_READ :: u32 where "GENERIC_READ \<equiv> 0x80000000"
abbreviation (input) GENERIC_WRITE :: u32 where "GENERIC_WRITE \<equiv> 0x40000000"
abbreviation (input) GENERIC_EXECUTE :: u32 where "GENERIC_EXECUTE \<equiv> 0x20000000"
abbreviation (input) GENERIC_ALL :: u32 where "GENERIC_ALL \<equiv> 0x10000000"

definition FILE_GENERIC_READ :: u32 where
  "FILE_GENERIC_READ =
     STANDARD_RIGHTS_READ OR FILE_READ_DATA OR FILE_READ_ATTRIBUTES OR FILE_READ_EA OR SYNCHRONIZE"

definition FILE_GENERIC_WRITE :: u32 where
  "FILE_GENERIC_WRITE =
     STANDARD_RIGHTS_READ OR FILE_WRITE_DATA OR FILE_WRITE_ATTRIBUTES OR FILE_WRITE_EA
     OR FILE_APPEND_DATA OR SYNCHRONIZE"

definition FILE_GENERIC_EXECUTE :: u32 where
  "FILE_GENERIC_EXECUTE = STANDARD_RIGHTS_READ OR FILE_READ_ATTRIBUTES OR FILE_EXECUTE OR SYNCHRONIZE"

definition FILE_ALL_ACCESS :: u32 where
  "FILE_ALL_ACCESS = STANDARD_RIGHTS_REQUIRED OR SYNCHRONIZE OR 0x1FF"

record GenericMapping =
  genericRead :: u32
  genericWrite :: u32
  genericExecute :: u32
  genericAll :: u32

record NormalizedAccess =
  requestedMask :: u32
  grantedMask :: u32
  deniedMask :: u32

definition kFileGenericMapping :: GenericMapping where
  "kFileGenericMapping =
     \<lparr>genericRead = FILE_GENERIC_READ, genericWrite = FILE_GENERIC_WRITE,
      genericExecute = FILE_GENERIC_EXECUTE, genericAll = FILE_ALL_ACCESS\<rparr>"

definition kDirectoryGenericMapping :: GenericMapping where
  "kDirectoryGenericMapping =
     \<lparr>genericRead = STANDARD_RIGHTS_READ OR FILE_LIST_DIRECTORY OR FILE_READ_ATTRIBUTES OR FILE_READ_EA
                    OR FILE_TRAVERSE OR SYNCHRONIZE,
      genericWrite = STANDARD_RIGHTS_READ OR FILE_ADD_FILE OR FILE_ADD_SUBDIRECTORY
                    OR FILE_WRITE_ATTRIBUTES OR FILE_WRITE_EA OR SYNCHRONIZE,
      genericExecute = STANDARD_RIGHTS_READ OR FILE_TRAVERSE OR FILE_READ_ATTRIBUTES OR SYNCHRONIZE,
      genericAll = FILE_ALL_ACCESS OR FILE_ADD_FILE OR FILE_ADD_SUBDIRECTORY OR FILE_TRAVERSE
                    OR FILE_DELETE_CHILD\<rparr>"

section \<open>Operations\<close>

definition mapGenericMask :: "u32 \<Rightarrow> GenericMapping \<Rightarrow> u32" where
  "mapGenericMask desiredMask m =
     (let m1 = desiredMask;
          m2 = (if m1 AND GENERIC_ALL \<noteq> 0 then (m1 AND NOT GENERIC_ALL) OR genericAll m else m1);
          m3 = (if m2 AND GENERIC_READ \<noteq> 0 then (m2 AND NOT GENERIC_READ) OR genericRead m else m2);
          m4 = (if m3 AND GENERIC_WRITE \<noteq> 0 then (m3 AND NOT GENERIC_WRITE) OR genericWrite m else m3)
      in if m4 AND GENERIC_EXECUTE \<noteq> 0 then (m4 AND NOT GENERIC_EXECUTE) OR genericExecute m else m4)"

definition normalizeDesiredAccess :: "u32 \<Rightarrow> GenericMapping \<Rightarrow> u32 \<Rightarrow> u32 \<Rightarrow> u32 \<Rightarrow> NormalizedAccess" where
  "normalizeDesiredAccess desiredMask m supportedMask alwaysGrantMask defaultMask =
     (let r1 = mapGenericMask desiredMask m;
          r2 = (if r1 = 0 \<and> desiredMask = 0 \<and> defaultMask \<noteq> 0 then defaultMask else r1);
          requested = r2 OR alwaysGrantMask
      in \<lparr>requestedMask = requested, grantedMask = requested AND supportedMask,
          deniedMask = requested AND NOT supportedMask\<rparr>)"

definition containsAny :: "u32 \<Rightarrow> u32 \<Rightarrow> bool" where
  "containsAny granted rights \<longleftrightarrow> granted AND rights \<noteq> 0"

definition containsAll :: "u32 \<Rightarrow> u32 \<Rightarrow> bool" where
  "containsAll granted rights \<longleftrightarrow> granted AND rights = rights"

section \<open>Facts\<close>

text \<open>The top four bits are the generic rights; a mapping is specific when it has none of them.\<close>

definition specific :: "u32 \<Rightarrow> bool" where
  "specific w \<longleftrightarrow> (\<forall>i\<in>{28, 29, 30, 31}. \<not> bit w i)"

definition specific_mapping :: "GenericMapping \<Rightarrow> bool" where
  "specific_mapping m \<longleftrightarrow> specific (genericRead m) \<and> specific (genericWrite m) \<and>
     specific (genericExecute m) \<and> specific (genericAll m)"

lemma generic_bits:
  "GENERIC_ALL = 2 ^ 28" "GENERIC_EXECUTE = 2 ^ 29" "GENERIC_WRITE = 2 ^ 30" "GENERIC_READ = 2 ^ 31"
  by simp_all

definition generic_expansion :: "u32 \<Rightarrow> GenericMapping \<Rightarrow> u32" where
  "generic_expansion d m =
     (if bit d 28 then genericAll m else 0) OR (if bit d 31 then genericRead m else 0)
     OR (if bit d 30 then genericWrite m else 0) OR (if bit d 29 then genericExecute m else 0)"

definition expand_bit :: "nat \<Rightarrow> u32 \<Rightarrow> u32 \<Rightarrow> u32" where
  "expand_bit n v w = (if bit w n then (w AND NOT (2 ^ n)) OR v else w)"

lemma bit_expand_bit:
  "bit (expand_bit n v w) i \<longleftrightarrow> (if bit w n then bit v i \<or> (bit w i \<and> i \<noteq> n) else bit w i)"
  using bit_imp_le_length [of w i] by (auto simp: expand_bit_def bit_simps)

lemma mapGenericMask_expand:
  "mapGenericMask d m = expand_bit 29 (genericExecute m) (expand_bit 30 (genericWrite m)
     (expand_bit 31 (genericRead m) (expand_bit 28 (genericAll m) d)))"
  unfolding mapGenericMask_def Let_def generic_bits and_exp_eq_0_iff_not_bit expand_bit_def not_not
  by (rule refl)

lemma mapGenericMask_spec:
  assumes "specific_mapping m"
  shows "mapGenericMask d m = take_bit 28 d OR generic_expansion d m"
proof (rule bit_eqI)
  fix i
  assume "possible_bit TYPE(u32) i"
  then have i: "i < 32" by simp
  then consider "i < 28" | "i = 28" | "i = 29" | "i = 30" | "i = 31" by linarith
  then show "bit (mapGenericMask d m) i = bit (take_bit 28 d OR generic_expansion d m) i"
    using assms unfolding mapGenericMask_expand generic_expansion_def specific_mapping_def specific_def
    by cases (auto simp: bit_expand_bit bit_or_iff bit_take_bit_iff)
qed

lemma specific_file_mappings: "specific_mapping kFileGenericMapping" "specific_mapping kDirectoryGenericMapping"
  by (simp_all add: specific_mapping_def specific_def kFileGenericMapping_def kDirectoryGenericMapping_def
      FILE_GENERIC_READ_def FILE_GENERIC_WRITE_def FILE_GENERIC_EXECUTE_def FILE_ALL_ACCESS_def bit_simps)

lemma granted_denied_split:
  fixes d m su al df defines "n \<equiv> normalizeDesiredAccess d m su al df"
  shows "grantedMask n OR deniedMask n = requestedMask n" "grantedMask n AND deniedMask n = 0"
    "grantedMask n AND NOT su = 0" "al AND su = al \<Longrightarrow> containsAll (grantedMask n) al"
  unfolding n_def normalizeDesiredAccess_def Let_def containsAll_def
  by (auto simp: bit_eq_iff bit_simps)

text \<open>
  For a mapping onto specific rights, as the file and directory mappings are, the requested
  mask is the specific part of the desired mask with every generic right replaced by its rights
  (a zero mask by the default), together with the rights always granted; no generic right is left
  when those have none. The granted and denied masks split the requested one along the supported rights.
\<close>

theorem normalize_access_correct:
  fixes d su al df :: u32
  assumes "specific_mapping m"
  defines "n \<equiv> normalizeDesiredAccess d m su al df"
  shows "requestedMask n = (if d = 0 then df else take_bit 28 d OR generic_expansion d m) OR al \<and>
         (specific al \<and> specific df \<longrightarrow> specific (requestedMask n)) \<and>
         grantedMask n OR deniedMask n = requestedMask n \<and> grantedMask n AND deniedMask n = 0 \<and>
         grantedMask n AND NOT su = 0 \<and> deniedMask n AND su = 0"
proof (intro conjI)
  have z: "mapGenericMask 0 m = 0" by (simp add: mapGenericMask_def)
  have r: "requestedMask n = (if d = 0 then df else take_bit 28 d OR generic_expansion d m) OR al"
    using z by (simp add: n_def normalizeDesiredAccess_def Let_def mapGenericMask_spec [OF assms(1)])
  then show "requestedMask n = (if d = 0 then df else take_bit 28 d OR generic_expansion d m) OR al" .
  from assms(1) show "specific al \<and> specific df \<longrightarrow> specific (requestedMask n)"
    unfolding r specific_mapping_def specific_def generic_expansion_def
    by (auto simp: bit_or_iff bit_take_bit_iff)
  show "grantedMask n OR deniedMask n = requestedMask n" "grantedMask n AND deniedMask n = 0"
    "grantedMask n AND NOT su = 0"
    unfolding n_def by (rule granted_denied_split)+
  show "deniedMask n AND su = 0"
    by (auto simp: n_def normalizeDesiredAccess_def Let_def bit_eq_iff bit_simps)
qed

theorem normalize_access_correct_witness:
  "grantedMask (normalizeDesiredAccess GENERIC_READ kFileGenericMapping FILE_ALL_ACCESS SYNCHRONIZE 0)
     AND NOT FILE_ALL_ACCESS = 0 \<and> specific_mapping kFileGenericMapping"
  using normalize_access_correct [OF specific_file_mappings(1), of GENERIC_READ FILE_ALL_ACCESS SYNCHRONIZE 0]
    specific_file_mappings(1) by simp

end
