(* ===== verification/Slim_Locks.thy ===== *)
theory Slim_Locks
  imports Wibo_Prelude
begin

unbundle bit_operations_syntax

text \<open>
  Slim reader/writer locks (\<^verbatim>\<open>src/dll/kernel32/synchapi.cpp\<close>): the six calls on one
  \<^verbatim>\<open>SRWLOCK\<close> by any number of threads, as the interleaving of their atomic accesses to
  \<open>Value\<close>. Bit 0 is the exclusive holder, the rest counts the shared holders.
  \<^verbatim>\<open>WaitOnAddress\<close> puts a thread to sleep only while \<open>Value\<close> still is the value it has observed,
  and \<^verbatim>\<open>WakeByAddressAll\<close>, a step of its own after the store, wakes every sleeper: the two calls are
  taken by their contract here. The queues behind them, and a race in which a waiter is missed, are in
  \<open>Critical_Section\<close> and \<open>Section_Wakeups\<close>.
\<close>

section \<open>State\<close>

datatype srw_pc =
    SrwFree                \<comment> \<open>outside every call\<close>
  | WantShared | WantExcl  \<comment> \<open>at the head of the loop of an acquire call\<close>
  | BlockShared u32 | BlockExcl u32  \<comment> \<open>before \<^verbatim>\<open>WaitOnAddress\<close> with the observed value\<close>
  | SleepShared | SleepExcl
  | WakeAll                \<comment> \<open>in a release call, before \<^verbatim>\<open>WakeByAddressAll\<close>\<close>

record srw_thread =
  spc :: srw_pc
  shared :: nat
  exclusive :: bool

record srw_state =
  SrwValue :: u32
  sth :: "u32 \<Rightarrow> srw_thread"

definition kSrwLockExclusive :: u32 where "kSrwLockExclusive = 1"
definition kSrwLockSharedIncrement :: u32 where "kSrwLockSharedIncrement = 2"

definition srw_idle :: srw_thread where
  "srw_idle = \<lparr>spc = SrwFree, shared = 0, exclusive = False\<rparr>"

definition srw_init :: "srw_state \<Rightarrow> bool" where
  "srw_init s \<longleftrightarrow> SrwValue s = 0 \<and> sth s = (\<lambda>_. srw_idle)"

definition put :: "u32 \<Rightarrow> srw_thread \<Rightarrow> u32 \<Rightarrow> srw_state \<Rightarrow> srw_state" where
  "put t T v s = s\<lparr>SrwValue := v, sth := (sth s)(t := T)\<rparr>"

section \<open>Accesses\<close>

text \<open>
  The loop of \<^verbatim>\<open>AcquireSRWLockShared\<close>; a failing compare-exchange repeats the iteration, so the
  iteration that succeeds is one access.
\<close>

definition AcquireSRWLockShared :: "u32 \<Rightarrow> srw_state \<Rightarrow> srw_state" where
  "AcquireSRWLockShared t s =
     (let current = SrwValue s; T = sth s t in
      if current AND kSrwLockExclusive \<noteq> 0 then put t (T\<lparr>spc := BlockShared current\<rparr>) current s
      else put t (T\<lparr>spc := SrwFree, shared := shared T + 1\<rparr>) (current + kSrwLockSharedIncrement) s)"

definition AcquireSRWLockExclusive :: "u32 \<Rightarrow> srw_state \<Rightarrow> srw_state" where
  "AcquireSRWLockExclusive t s =
     (let expected = SrwValue s; T = sth s t in
      if expected = 0 then put t (T\<lparr>spc := SrwFree, exclusive := True\<rparr>) kSrwLockExclusive s
      else put t (T\<lparr>spc := BlockExcl expected\<rparr>) expected s)"

definition TryAcquireSRWLockExclusive :: "u32 \<Rightarrow> srw_state \<Rightarrow> bool \<times> srw_state" where
  "TryAcquireSRWLockExclusive t s =
     (if SrwValue s = 0 then (True, put t ((sth s t)\<lparr>exclusive := True\<rparr>) kSrwLockExclusive s)
      else (False, s))"

definition TryAcquireSRWLockShared :: "u32 \<Rightarrow> srw_state \<Rightarrow> bool \<times> srw_state" where
  "TryAcquireSRWLockShared t s =
     (let current = SrwValue s; T = sth s t in
      if current AND kSrwLockExclusive = 0
      then (True, put t (T\<lparr>shared := shared T + 1\<rparr>) (current + kSrwLockSharedIncrement) s)
      else (False, s))"

definition ReleaseSRWLockShared :: "u32 \<Rightarrow> srw_state \<Rightarrow> srw_state" where
  "ReleaseSRWLockShared t s =
     (let newValue = SrwValue s - kSrwLockSharedIncrement; T = sth s t in
      put t (T\<lparr>spc := (if newValue = 0 then WakeAll else SrwFree), shared := shared T - 1\<rparr>) newValue s)"

definition ReleaseSRWLockExclusive :: "u32 \<Rightarrow> srw_state \<Rightarrow> srw_state" where
  "ReleaseSRWLockExclusive t s = put t ((sth s t)\<lparr>spc := WakeAll, exclusive := False\<rparr>) 0 s"

text \<open>\<^verbatim>\<open>WaitOnAddress\<close> with \<^verbatim>\<open>INFINITE\<close>: return at once when the value has changed, else sleep.\<close>

definition wait_on_value :: "u32 \<Rightarrow> u32 \<Rightarrow> srw_pc \<Rightarrow> srw_pc \<Rightarrow> srw_state \<Rightarrow> srw_state" where
  "wait_on_value t observed asleep again s =
     put t ((sth s t)\<lparr>spc := (if SrwValue s = observed then asleep else again)\<rparr>) (SrwValue s) s"

definition wake_thread :: "srw_thread \<Rightarrow> srw_thread" where
  "wake_thread T = T\<lparr>spc := (case spc T of SleepShared \<Rightarrow> WantShared | SleepExcl \<Rightarrow> WantExcl | c \<Rightarrow> c)\<rparr>"

definition wake_all :: "u32 \<Rightarrow> srw_state \<Rightarrow> srw_state" where
  "wake_all t s = s\<lparr>sth := (\<lambda>u. if u = t then (sth s t)\<lparr>spc := SrwFree\<rparr> else wake_thread (sth s u))\<rparr>"

text \<open>
  One step of the system. The releases are called by holders only; the number of shared holders
  stays below its 31 bits.
\<close>

inductive srw_step :: "srw_state \<Rightarrow> srw_state \<Rightarrow> bool" where
  call_shared: "spc (sth s t) = SrwFree \<Longrightarrow> srw_step s (put t ((sth s t)\<lparr>spc := WantShared\<rparr>) (SrwValue s) s)"
| call_excl: "spc (sth s t) = SrwFree \<Longrightarrow> srw_step s (put t ((sth s t)\<lparr>spc := WantExcl\<rparr>) (SrwValue s) s)"
| try_shared: "spc (sth s t) = SrwFree \<Longrightarrow> unat (SrwValue s) < 0xFFFFFFFE \<Longrightarrow>
    srw_step s (snd (TryAcquireSRWLockShared t s))"
| try_excl: "spc (sth s t) = SrwFree \<Longrightarrow> srw_step s (snd (TryAcquireSRWLockExclusive t s))"
| rel_shared: "spc (sth s t) = SrwFree \<Longrightarrow> 0 < shared (sth s t) \<Longrightarrow> srw_step s (ReleaseSRWLockShared t s)"
| rel_excl: "spc (sth s t) = SrwFree \<Longrightarrow> exclusive (sth s t) \<Longrightarrow> srw_step s (ReleaseSRWLockExclusive t s)"
| acq_shared: "spc (sth s t) = WantShared \<Longrightarrow> unat (SrwValue s) < 0xFFFFFFFE \<Longrightarrow>
    srw_step s (AcquireSRWLockShared t s)"
| acq_excl: "spc (sth s t) = WantExcl \<Longrightarrow> srw_step s (AcquireSRWLockExclusive t s)"
| block_shared: "spc (sth s t) = BlockShared v \<Longrightarrow>
    srw_step s (wait_on_value t v SleepShared WantShared s)"
| block_excl: "spc (sth s t) = BlockExcl v \<Longrightarrow> srw_step s (wait_on_value t v SleepExcl WantExcl s)"
| wake: "spc (sth s t) = WakeAll \<Longrightarrow> srw_step s (wake_all t s)"

section \<open>Invariant\<close>

definition excl_count :: "srw_thread \<Rightarrow> nat" where
  "excl_count T = (if exclusive T then 1 else 0)"

definition readers :: "srw_state \<Rightarrow> nat" where "readers s = (\<Sum>t\<in>UNIV. shared (sth s t))"

definition writers :: "srw_state \<Rightarrow> nat" where "writers s = (\<Sum>t\<in>UNIV. excl_count (sth s t))"

definition asleep :: "srw_thread \<Rightarrow> bool" where
  "asleep T \<longleftrightarrow> spc T = SleepShared \<or> spc T = SleepExcl"

definition block_ok :: "srw_thread \<Rightarrow> bool" where
  "block_ok T \<longleftrightarrow> (\<forall>v. spc T = BlockShared v \<or> spc T = BlockExcl v \<longrightarrow> v \<noteq> 0)"

definition srw_inv :: "srw_state \<Rightarrow> bool" where
  "srw_inv s \<longleftrightarrow> unat (SrwValue s) = 2 * readers s + writers s \<and>
     (writers s = 0 \<or> writers s = 1 \<and> readers s = 0) \<and>
     (\<forall>t. block_ok (sth s t)) \<and>
     ((\<exists>t. asleep (sth s t)) \<longrightarrow> SrwValue s \<noteq> 0 \<or> (\<exists>t. spc (sth s t) = WakeAll))"

lemma readers_put: "readers s + shared T = shared (sth s t) + readers (put t T v s)"
  unfolding readers_def put_def using sum_fun_upd_nat [of UNIV t shared "sth s" T] by simp

lemma writers_put: "writers s + excl_count T = excl_count (sth s t) + writers (put t T v s)"
  unfolding writers_def put_def using sum_fun_upd_nat [of UNIV t excl_count "sth s" T] by simp

lemma shared_le_readers: "shared (sth s t) \<le> readers s"
  unfolding readers_def by (rule member_le_sum) auto

lemma excl_le_writers: "excl_count (sth s t) \<le> writers s"
  unfolding writers_def by (rule member_le_sum) auto

lemma value_odd: "srw_inv s \<Longrightarrow> SrwValue s AND 1 = 0 \<longleftrightarrow> writers s = 0"
proof -
  assume "srw_inv s"
  then have "unat (SrwValue s) = 2 * readers s + writers s" "writers s \<le> 1" by (auto simp: srw_inv_def)
  moreover have "SrwValue s AND 1 = 0 \<longleftrightarrow> even (unat (SrwValue s))"
    using and_mask_dvd_nat [of 1 "SrwValue s"] by (simp add: mask_eq_exp_minus_1)
  ultimately show ?thesis by (cases "writers s") auto
qed

text \<open>One thread changes and the value with it.\<close>

lemma srw_inv_put:
  assumes inv: "srw_inv s"
    and val: "unat v + 2 * shared (sth s t) + excl_count (sth s t)
              = unat (SrwValue s) + 2 * shared T + excl_count T"
    and excl: "writers s + excl_count T = excl_count (sth s t) \<or>
               writers s + excl_count T = excl_count (sth s t) + 1 \<and> readers s + shared T = shared (sth s t)"
    and bl: "block_ok T"
    and sl: "asleep T \<Longrightarrow> v \<noteq> 0 \<or> (\<exists>u. u \<noteq> t \<and> spc (sth s u) = WakeAll)"
    and nz: "v = 0 \<Longrightarrow> SrwValue s \<noteq> 0 \<Longrightarrow> spc T = WakeAll"
    and wk: "spc (sth s t) \<noteq> WakeAll"
  shows "srw_inv (put t T v s)"
proof -
  let ?s = "put t T v s"
  note r = readers_put [of s T t v] and w = writers_put [of s T t v]
  have i: "unat (SrwValue s) = 2 * readers s + writers s" "\<And>u. block_ok (sth s u)"
    "(\<exists>u. asleep (sth s u)) \<Longrightarrow> SrwValue s \<noteq> 0 \<or> (\<exists>u. spc (sth s u) = WakeAll)"
    using inv by (auto simp: srw_inv_def)
  have v: "unat v = 2 * readers ?s + writers ?s" using val i(1) r w by linarith
  have e: "writers ?s = 0 \<or> writers ?s = 1 \<and> readers ?s = 0" using excl r w by auto
  have th: "sth ?s = (sth s)(t := T)" "SrwValue ?s = v" by (simp_all add: put_def)
  have q: "v \<noteq> 0 \<or> (\<exists>u. spc (sth ?s u) = WakeAll)" if a: "asleep (sth ?s u)" for u
  proof (cases "u = t")
    case True
    with a sl th show ?thesis by (auto; metis)
  next
    case False
    with a th have "asleep (sth s u)" by simp
    with i(3) have "SrwValue s \<noteq> 0 \<or> (\<exists>u. spc (sth s u) = WakeAll)" by blast
    then show ?thesis
    proof
      assume "SrwValue s \<noteq> 0"
      with nz th show ?thesis by (cases "v = 0") auto
    next
      assume "\<exists>u. spc (sth s u) = WakeAll"
      then obtain x where "spc (sth s x) = WakeAll" ..
      with wk th show ?thesis by (cases "x = t") auto
    qed
  qed
  have b: "\<forall>u. block_ok (sth ?s u)" using i(2) bl th by simp
  from v e b q show ?thesis unfolding srw_inv_def th(2) by blast
qed


text \<open>A move of the program counter that neither sleeps nor wakes.\<close>

lemma srw_inv_move:
  assumes "srw_inv s" "spc (sth s t) \<noteq> WakeAll" "block_ok ((sth s t)\<lparr>spc := c\<rparr>)"
    and "\<not> asleep ((sth s t)\<lparr>spc := c\<rparr>) \<or> SrwValue s \<noteq> 0"
  shows "srw_inv (put t ((sth s t)\<lparr>spc := c\<rparr>) (SrwValue s) s)"
proof (rule srw_inv_put [OF assms(1)])
  show "writers s + excl_count ((sth s t)\<lparr>spc := c\<rparr>) = excl_count (sth s t) \<or>
      writers s + excl_count ((sth s t)\<lparr>spc := c\<rparr>) = excl_count (sth s t) + 1 \<and>
      readers s + shared ((sth s t)\<lparr>spc := c\<rparr>) = shared (sth s t)"
    using assms(1) by (auto simp: srw_inv_def excl_count_def)
qed (use assms in \<open>auto simp: excl_count_def\<close>)

lemmas srw_consts = kSrwLockExclusive_def kSrwLockSharedIncrement_def

lemma srw_get_shared:
  assumes inv: "srw_inv s" and b: "unat (SrwValue s) < 0xFFFFFFFE" and free: "SrwValue s AND 1 = 0"
    and pc: "spc (sth s t) = SrwFree \<or> spc (sth s t) = WantShared"
  shows "srw_inv (put t ((sth s t)\<lparr>spc := SrwFree, shared := shared (sth s t) + 1\<rparr>) (SrwValue s + 2) s)"
proof (rule srw_inv_put [OF inv])
  have u: "unat (SrwValue s + 2) = unat (SrwValue s) + 2" using b by (simp add: unat_add_u32)
  have w: "writers s = 0" using value_odd [OF inv] free by simp
  then have e: "excl_count (sth s t) = 0" using excl_le_writers [of s t] by simp
  show "unat (SrwValue s + 2) + 2 * shared (sth s t) + excl_count (sth s t) = unat (SrwValue s)
        + 2 * shared ((sth s t)\<lparr>spc := SrwFree, shared := shared (sth s t) + 1\<rparr>)
        + excl_count ((sth s t)\<lparr>spc := SrwFree, shared := shared (sth s t) + 1\<rparr>)"
    using u by (simp add: excl_count_def)
  from u have "SrwValue s + 2 \<noteq> 0" by (metis add_eq_0_iff_both_eq_0 unat_0 zero_neq_numeral)
  then show "SrwValue s + 2 = 0 \<Longrightarrow> SrwValue s \<noteq> 0 \<Longrightarrow>
      spc ((sth s t)\<lparr>spc := SrwFree, shared := shared (sth s t) + 1\<rparr>) = WakeAll" by simp
  show "writers s + excl_count ((sth s t)\<lparr>spc := SrwFree, shared := shared (sth s t) + 1\<rparr>)
      = excl_count (sth s t) \<or>
      writers s + excl_count ((sth s t)\<lparr>spc := SrwFree, shared := shared (sth s t) + 1\<rparr>)
      = excl_count (sth s t) + 1 \<and>
      readers s + shared ((sth s t)\<lparr>spc := SrwFree, shared := shared (sth s t) + 1\<rparr>) = shared (sth s t)"
    using w e by (simp add: excl_count_def)
qed (use pc in \<open>auto simp: block_ok_def asleep_def\<close>)

lemma srw_get_excl:
  assumes inv: "srw_inv s" and free: "SrwValue s = 0"
    and pc: "spc (sth s t) = SrwFree \<or> spc (sth s t) = WantExcl"
  shows "srw_inv (put t ((sth s t)\<lparr>spc := SrwFree, exclusive := True\<rparr>) 1 s)"
proof -
  from inv free have z: "readers s = 0" "writers s = 0" by (auto simp: srw_inv_def)
  then have e: "excl_count (sth s t) = 0" "shared (sth s t) = 0"
    using excl_le_writers [of s t] shared_le_readers [of s t] by simp_all
  show ?thesis
    by (rule srw_inv_put [OF inv])
      (use pc z e free in \<open>auto simp: excl_count_def block_ok_def asleep_def split: if_splits\<close>)
qed

lemma srw_drop_shared:
  assumes inv: "srw_inv s" and pc: "spc (sth s t) = SrwFree" and h: "0 < shared (sth s t)"
  shows "srw_inv (ReleaseSRWLockShared t s)"
proof -
  from h shared_le_readers [of s t] have r: "0 < readers s" by simp
  with inv have w: "writers s = 0" "unat (SrwValue s) = 2 * readers s" by (auto simp: srw_inv_def)
  then have e: "excl_count (sth s t) = 0" using excl_le_writers [of s t] by simp
  have "unat (2 :: u32) \<le> unat (SrwValue s)" using w r by simp
  then have u: "unat (SrwValue s - 2) = unat (SrwValue s) - 2" by (simp add: unat_sub word_le_nat_alt)
  show ?thesis
    unfolding ReleaseSRWLockShared_def Let_def srw_consts
    by (rule srw_inv_put [OF inv])
      (use pc h w r e u in \<open>auto simp: excl_count_def block_ok_def asleep_def\<close>)
qed

lemma srw_drop_excl:
  assumes inv: "srw_inv s" and pc: "spc (sth s t) = SrwFree" and h: "exclusive (sth s t)"
  shows "srw_inv (ReleaseSRWLockExclusive t s)"
proof -
  from h excl_le_writers [of s t] have w: "writers s \<noteq> 0" by (simp add: excl_count_def)
  with inv have z: "writers s = 1" "readers s = 0" "unat (SrwValue s) = 1" by (auto simp: srw_inv_def)
  then have "shared (sth s t) = 0" using shared_le_readers [of s t] by simp
  with z show ?thesis
    unfolding ReleaseSRWLockExclusive_def
    by (intro srw_inv_put [OF inv])
      (use pc h in \<open>auto simp: excl_count_def block_ok_def asleep_def\<close>)
qed

lemma srw_wake_inv:
  assumes inv: "srw_inv s" and pc: "spc (sth s t) = WakeAll"
  shows "srw_inv (wake_all t s)"
proof -
  have sh: "shared (sth (wake_all t s) u) = shared (sth s u)"
    and ex: "excl_count (sth (wake_all t s) u) = excl_count (sth s u)" for u
    by (simp_all add: wake_all_def wake_thread_def excl_count_def)
  have "\<not> asleep (sth (wake_all t s) u)" for u
    by (cases "spc (sth s u)") (auto simp: wake_all_def wake_thread_def asleep_def)
  moreover have "block_ok (sth (wake_all t s) u)" for u
    using inv by (cases "spc (sth s u)") (auto simp: wake_all_def wake_thread_def block_ok_def srw_inv_def)
  moreover have "readers (wake_all t s) = readers s" "writers (wake_all t s) = writers s"
    by (simp_all add: readers_def writers_def sh ex)
  moreover have "SrwValue (wake_all t s) = SrwValue s" by (simp add: wake_all_def)
  ultimately show ?thesis using inv by (simp add: srw_inv_def)
qed


lemma srw_block_inv:
  assumes inv: "srw_inv s" and pc: "spc (sth s t) = BlockShared v \<or> spc (sth s t) = BlockExcl v"
    and c: "asleep_pc = SleepShared \<and> again = WantShared \<or> asleep_pc = SleepExcl \<and> again = WantExcl"
  shows "srw_inv (wait_on_value t v asleep_pc again s)"
proof -
  from inv pc have "v \<noteq> 0" by (auto simp: srw_inv_def block_ok_def)
  then show ?thesis
    unfolding wait_on_value_def
    by (intro srw_inv_move [OF inv]) (use pc c in \<open>auto simp: block_ok_def asleep_def\<close>)
qed

lemma free_upd:
  "spc T = SrwFree \<Longrightarrow> T\<lparr>spc := SrwFree, shared := n\<rparr> = T\<lparr>shared := n\<rparr>"
  "spc T = SrwFree \<Longrightarrow> T\<lparr>spc := SrwFree, exclusive := b\<rparr> = T\<lparr>exclusive := b\<rparr>"
  by (cases T; simp)+

lemma srw_inv_step:
  assumes inv: "srw_inv s" and st: "srw_step s s'"
  shows "srw_inv s'"
  using st
proof cases
  case (call_shared t)
  then show ?thesis by (auto intro!: srw_inv_move [OF inv] simp: block_ok_def asleep_def)
next
  case (call_excl t)
  then show ?thesis by (auto intro!: srw_inv_move [OF inv] simp: block_ok_def asleep_def)
next
  case (try_shared t)
  then show ?thesis using inv srw_get_shared [OF inv, of t]
    by (auto simp: TryAcquireSRWLockShared_def Let_def srw_consts free_upd)
next
  case (try_excl t)
  then show ?thesis using inv srw_get_excl [OF inv, of t]
    by (auto simp: TryAcquireSRWLockExclusive_def srw_consts free_upd)
next
  case (rel_shared t)
  then show ?thesis using srw_drop_shared [OF inv] by simp
next
  case (rel_excl t)
  then show ?thesis using srw_drop_excl [OF inv] by simp
next
  case (acq_shared t)
  show ?thesis
  proof (cases "SrwValue s AND 1 = 0")
    case True
    with acq_shared srw_get_shared [OF inv, of t] show ?thesis
      by (simp add: AcquireSRWLockShared_def Let_def srw_consts)
  next
    case False
    then have "SrwValue s \<noteq> 0" by auto
    with False acq_shared show ?thesis
      by (auto simp: AcquireSRWLockShared_def Let_def srw_consts block_ok_def asleep_def
          intro!: srw_inv_move [OF inv])
  qed
next
  case (acq_excl t)
  show ?thesis
  proof (cases "SrwValue s = 0")
    case True
    with acq_excl srw_get_excl [OF inv True, of t] show ?thesis
      by (simp add: AcquireSRWLockExclusive_def Let_def srw_consts)
  next
    case False
    with acq_excl show ?thesis
      by (auto simp: AcquireSRWLockExclusive_def Let_def srw_consts block_ok_def asleep_def
          intro!: srw_inv_move [OF inv])
  qed
next
  case (block_shared t v)
  then show ?thesis using srw_block_inv [OF inv] by simp
next
  case (block_excl t v)
  then show ?thesis using srw_block_inv [OF inv] by simp
next
  case (wake t)
  then show ?thesis using srw_wake_inv [OF inv] by simp
qed

lemma srw_inv_init: "srw_init s \<Longrightarrow> srw_inv s"
  by (simp add: srw_init_def srw_inv_def readers_def writers_def srw_idle_def excl_count_def block_ok_def asleep_def)

interpretation slim_lock: inductive_invariant srw_init srw_step srw_inv
  by unfold_locales (auto intro: srw_inv_init srw_inv_step)

section \<open>What the lock promises\<close>

text \<open>
  C28: in every reachable state the exclusive holder is alone: no other thread holds the lock in
  either mode and the holder has no shared hold; and \<open>Value\<close> counts the holders exactly.
\<close>

theorem srw_exclusive_alone:
  assumes "reach srw_init srw_step s"
  shows "(exclusive (sth s t) \<longrightarrow>
           (\<forall>u. shared (sth s u) = 0 \<and> (exclusive (sth s u) \<longrightarrow> u = t)) \<and> SrwValue s = kSrwLockExclusive) \<and>
         ((\<forall>u. \<not> exclusive (sth s u)) \<longrightarrow>
           unat (SrwValue s) = unat kSrwLockSharedIncrement * (\<Sum>u\<in>UNIV. shared (sth s u)))"
proof (intro conjI impI)
  note inv = slim_lock.reach_invar [OF assms]
  assume e: "exclusive (sth s t)"
  then have "writers s \<noteq> 0" using excl_le_writers [of s t] by (simp add: excl_count_def)
  with inv have z: "writers s = 1" "readers s = 0" "unat (SrwValue s) = 1" by (auto simp: srw_inv_def)
  have "u = t" if "exclusive (sth s u)" for u
  proof (rule ccontr)
    assume "u \<noteq> t"
    moreover have "(\<Sum>x\<in>{t, u}. excl_count (sth s x)) \<le> writers s"
      unfolding writers_def by (rule sum_mono2) auto
    ultimately show False using e that z by (simp add: excl_count_def)
  qed
  moreover have "shared (sth s u) = 0" for u using shared_le_readers [of s u] z by simp
  ultimately show "\<forall>u. shared (sth s u) = 0 \<and> (exclusive (sth s u) \<longrightarrow> u = t)" by blast
  from z(3) show "SrwValue s = kSrwLockExclusive"
    by (simp add: srw_consts word_unat_eq_iff)
next
  note inv = slim_lock.reach_invar [OF assms]
  assume "\<forall>u. \<not> exclusive (sth s u)"
  then have "writers s = 0" by (simp add: writers_def excl_count_def)
  with inv show "unat (SrwValue s) = unat kSrwLockSharedIncrement * (\<Sum>u\<in>UNIV. shared (sth s u))"
    by (simp add: srw_inv_def srw_consts readers_def)
qed

text \<open>
  No wake-up is lost: while a thread sleeps on the lock, some thread still holds it or is
  about to wake every sleeper.
\<close>

theorem srw_no_lost_wakeup:
  assumes "reach srw_init srw_step s" and "spc (sth s t) = SleepShared \<or> spc (sth s t) = SleepExcl"
  shows "(\<exists>u. exclusive (sth s u) \<or> 0 < shared (sth s u)) \<or> (\<exists>u. spc (sth s u) = WakeAll)"
proof (rule ccontr)
  note inv = slim_lock.reach_invar [OF assms(1)]
  assume "\<not> ?thesis"
  then have n: "\<forall>u. \<not> exclusive (sth s u) \<and> shared (sth s u) = 0" "\<not> (\<exists>u. spc (sth s u) = WakeAll)" by auto
  then have "readers s = 0" "writers s = 0" by (simp_all add: readers_def writers_def excl_count_def)
  with inv have "SrwValue s = 0" by (simp add: srw_inv_def unat_eq_zero)
  with inv n(2) assms(2) show False by (auto simp: srw_inv_def asleep_def)
qed

text \<open>A run of two threads: the first takes the lock exclusively, the second blocks on it.\<close>

definition srw_zero :: srw_state where "srw_zero = \<lparr>SrwValue = 0, sth = (\<lambda>_. srw_idle)\<rparr>"

definition srw_demo_held :: srw_state where
  "srw_demo_held = snd (TryAcquireSRWLockExclusive 1 srw_zero)"

definition srw_demo_asleep :: srw_state where
  "srw_demo_asleep =
     (let s1 = put 2 ((sth srw_demo_held 2)\<lparr>spc := WantShared\<rparr>) (SrwValue srw_demo_held) srw_demo_held;
          s2 = AcquireSRWLockShared 2 s1
      in wait_on_value 2 1 SleepShared WantShared s2)"

lemmas srw_demo_simps = srw_demo_asleep_def srw_demo_held_def srw_zero_def srw_idle_def put_def srw_consts
  TryAcquireSRWLockExclusive_def AcquireSRWLockShared_def wait_on_value_def

lemma srw_demo_reach: "reach srw_init srw_step srw_demo_held" "reach srw_init srw_step srw_demo_asleep"
proof -
  have z: "reach srw_init srw_step srw_zero" by (rule reach_init) (simp add: srw_init_def srw_zero_def)
  show h: "reach srw_init srw_step srw_demo_held"
    unfolding srw_demo_held_def
    by (rule reach_step [OF z], rule srw_step.try_excl) (simp add: srw_zero_def srw_idle_def)
  define s1 where "s1 = put 2 ((sth srw_demo_held 2)\<lparr>spc := WantShared\<rparr>) (SrwValue srw_demo_held) srw_demo_held"
  have r1: "reach srw_init srw_step s1" unfolding s1_def
    by (rule reach_step [OF h], rule srw_step.call_shared) (simp add: srw_demo_simps)
  have r2: "reach srw_init srw_step (AcquireSRWLockShared 2 s1)"
    by (rule reach_step [OF r1], rule srw_step.acq_shared) (simp_all add: s1_def srw_demo_simps)
  have "srw_demo_asleep = wait_on_value 2 1 SleepShared WantShared (AcquireSRWLockShared 2 s1)"
    by (simp add: srw_demo_asleep_def s1_def Let_def)
  moreover have "spc (sth (AcquireSRWLockShared 2 s1) 2) = BlockShared 1"
    by (simp add: s1_def srw_demo_simps)
  ultimately show "reach srw_init srw_step srw_demo_asleep"
    using reach_step [OF r2 srw_step.block_shared [of _ 2 1]] by metis
qed

theorem srw_exclusive_alone_witness:
  "reach srw_init srw_step srw_demo_held \<and> exclusive (sth srw_demo_held 1) \<and> shared (sth srw_demo_held 2) = 0"
  using srw_exclusive_alone [OF srw_demo_reach(1), of 1] srw_demo_reach(1) by (simp add: srw_demo_simps)

theorem srw_no_lost_wakeup_witness:
  "spc (sth srw_demo_asleep 2) = SleepShared \<and>
   ((\<exists>u. exclusive (sth srw_demo_asleep u) \<or> 0 < shared (sth srw_demo_asleep u)) \<or>
    (\<exists>u. spc (sth srw_demo_asleep u) = WakeAll))"
proof -
  have "spc (sth srw_demo_asleep 2) = SleepShared" by (simp add: srw_demo_simps)
  then show ?thesis using srw_no_lost_wakeup [OF srw_demo_reach(2), of 2] by blast
qed

end
