(* ===== verification/Init_Once.thy ===== *)
theory Init_Once
  imports Error_Codes
begin

unbundle bit_operations_syntax

text \<open>
  One-time initialisation (\<^verbatim>\<open>src/dll/kernel32/synchapi.cpp\<close>): \<^verbatim>\<open>InitOnceBeginInitialize\<close> and
  \<^verbatim>\<open>InitOnceComplete\<close> on one \<^verbatim>\<open>INIT_ONCE\<close>, with the side table of \<^verbatim>\<open>InitOnceState\<close> records
  that waiting threads share, as the interleaving of their atomic accesses. Every lock of the
  table is held for one access; the load and the compare-exchange of an iteration that succeeds
  are one access.
\<close>

section \<open>State\<close>

definition INIT_ONCE_CHECK_ONLY :: u32 where "INIT_ONCE_CHECK_ONLY = 1"
definition INIT_ONCE_ASYNC :: u32 where "INIT_ONCE_ASYNC = 2"
definition INIT_ONCE_INIT_FAILED :: u32 where "INIT_ONCE_INIT_FAILED = 4"
definition kInitOnceStateMask :: u32 where "kInitOnceStateMask = 3"
definition kInitOnceCompletedFlag :: u32 where "kInitOnceCompletedFlag = 2"
definition kInitOnceReservedMask :: u32 where "kInitOnceReservedMask = 3"

record InitOnceState =
  completed :: bool
  success :: bool
  once_context :: u32

text \<open>The arguments of a call of \<^verbatim>\<open>InitOnceComplete\<close>, and whether the caller began asynchronously.\<close>

record complete_args =
  async_caller :: bool
  async_flag :: bool
  markFailed :: bool
  contextValue :: u32

datatype once_pc =
    OIdle
  | OBegin bool                 \<comment> \<open>loop of \<^verbatim>\<open>InitOnceBeginInitialize\<close>; the flag is \<^verbatim>\<open>INIT_ONCE_ASYNC\<close>\<close>
  | OInsert                     \<comment> \<open>won the exchange 0 to 1; before \<^verbatim>\<open>insertInitOnceState\<close>\<close>
  | OLookup                     \<comment> \<open>saw state 1; before \<^verbatim>\<open>getInitOnceState\<close>\<close>
  | OWaitState nat              \<comment> \<open>waiting for a state record to complete\<close>
  | OPending bool               \<comment> \<open>returned with \<^verbatim>\<open>fPending\<close> set: this thread initialises\<close>
  | ODone u32                   \<comment> \<open>returned with the context of a completed initialisation\<close>
  | OFailed u32                 \<comment> \<open>\<^verbatim>\<open>InitOnceBeginInitialize\<close> returned an error\<close>
  | OComplete complete_args     \<comment> \<open>loop of \<^verbatim>\<open>InitOnceComplete\<close>\<close>
  | OCLookup complete_args      \<comment> \<open>saw state 1; before \<^verbatim>\<open>getInitOnceState\<close>\<close>
  | OCas nat complete_args      \<comment> \<open>before the exchange of the final value\<close>
  | OPublish nat complete_args  \<comment> \<open>before the record is marked completed\<close>
  | OErase                      \<comment> \<open>before \<^verbatim>\<open>eraseInitOnceState\<close>\<close>
  | OCompleted
  | OCompleteFailed bool u32    \<comment> \<open>\<^verbatim>\<open>InitOnceComplete\<close> returned an error\<close>

record once_state =
  Ptr :: u32
  g_initOnceState :: "nat option"
  records :: "nat \<Rightarrow> InitOnceState"
  next_record :: nat
  oth :: "u32 \<Rightarrow> once_pc"

definition new_InitOnceState :: InitOnceState where
  "new_InitOnceState = \<lparr>completed = False, success = False, once_context = 0\<rparr>"

definition once_init :: "once_state \<Rightarrow> bool" where
  "once_init s \<longleftrightarrow> Ptr s = 0 \<and> g_initOnceState s = None \<and> records s = (\<lambda>_. new_InitOnceState) \<and>
     oth s = (\<lambda>_. OIdle)"

definition goto :: "u32 \<Rightarrow> once_pc \<Rightarrow> once_state \<Rightarrow> once_state" where
  "goto t c s = s\<lparr>oth := (oth s)(t := c)\<rparr>"

section \<open>Argument checks\<close>

definition begin_check :: "u32 \<Rightarrow> u32 option" where
  "begin_check dwFlags =
     (if dwFlags AND NOT (INIT_ONCE_CHECK_ONLY OR INIT_ONCE_ASYNC) \<noteq> 0 then Some ERROR_INVALID_PARAMETER
      else if dwFlags AND INIT_ONCE_CHECK_ONLY \<noteq> 0 \<and> dwFlags AND INIT_ONCE_ASYNC \<noteq> 0
      then Some ERROR_INVALID_PARAMETER else None)"

text \<open>\<^verbatim>\<open>INIT_ONCE_CHECK_ONLY\<close>: the context, or an error with \<^verbatim>\<open>fPending\<close> set.\<close>

definition begin_check_only :: "u32 \<Rightarrow> u32 + u32" where
  "begin_check_only val =
     (if val AND kInitOnceStateMask \<noteq> kInitOnceCompletedFlag then Inl ERROR_GEN_FAILURE
      else Inr (val AND NOT kInitOnceStateMask))"

definition complete_check :: "u32 \<Rightarrow> u32 \<Rightarrow> u32 option" where
  "complete_check dwFlags lpContext =
     (let failed = dwFlags AND INIT_ONCE_INIT_FAILED \<noteq> 0 in
      if dwFlags AND NOT (INIT_ONCE_ASYNC OR INIT_ONCE_INIT_FAILED) \<noteq> 0 then Some ERROR_INVALID_PARAMETER
      else if failed \<and> lpContext \<noteq> 0 then Some ERROR_INVALID_PARAMETER
      else if failed \<and> dwFlags AND INIT_ONCE_ASYNC \<noteq> 0 then Some ERROR_INVALID_PARAMETER
      else if \<not> failed \<and> lpContext AND kInitOnceReservedMask \<noteq> 0 then Some ERROR_INVALID_PARAMETER
      else None)"

section \<open>Accesses\<close>

text \<open>An iteration of \<^verbatim>\<open>InitOnceBeginInitialize\<close>; \<open>None\<close> when it changes nothing.\<close>

definition begin_iter :: "u32 \<Rightarrow> bool \<Rightarrow> once_state \<Rightarrow> once_state option" where
  "begin_iter t async s =
     (let val = Ptr s; st = val AND kInitOnceStateMask in
      if st = 0 then
        if val \<noteq> 0 then None
        else if async then Some (goto t (OPending True) (s\<lparr>Ptr := 3\<rparr>))
        else Some (goto t OInsert (s\<lparr>Ptr := 1\<rparr>))
      else if st = 1 then Some (goto t (if async then OFailed ERROR_INVALID_PARAMETER else OLookup) s)
      else if st = kInitOnceCompletedFlag then Some (goto t (ODone (val AND NOT kInitOnceStateMask)) s)
      else Some (goto t (if \<not> async then OFailed ERROR_INVALID_PARAMETER else OPending True) s))"

definition insertInitOnceState :: "u32 \<Rightarrow> once_state \<Rightarrow> once_state" where
  "insertInitOnceState t s =
     goto t (OPending False) (s\<lparr>g_initOnceState := Some (next_record s),
       records := (records s)(next_record s := new_InitOnceState), next_record := next_record s + 1\<rparr>)"

definition getInitOnceState :: "u32 \<Rightarrow> once_pc \<Rightarrow> (nat \<Rightarrow> once_pc) \<Rightarrow> once_state \<Rightarrow> once_state" where
  "getInitOnceState t none some s =
     goto t (case g_initOnceState s of None \<Rightarrow> none | Some i \<Rightarrow> some i) s"

definition wait_record :: "u32 \<Rightarrow> nat \<Rightarrow> once_state \<Rightarrow> once_state option" where
  "wait_record t i s =
     (let r = records s i in
      if \<not> completed r then None
      else if \<not> success r then Some (goto t (OBegin False) s)
      else Some (goto t (ODone (once_context r)) s))"

definition finalValue :: "complete_args \<Rightarrow> u32" where
  "finalValue a = (if markFailed a then 0 else contextValue a OR kInitOnceCompletedFlag)"

definition complete_iter :: "u32 \<Rightarrow> complete_args \<Rightarrow> once_state \<Rightarrow> once_state" where
  "complete_iter t a s =
     (let st = Ptr s AND kInitOnceStateMask in
      if st = 1 then goto t (OCLookup a) s
      else if st = 3 then
        if \<not> async_flag a then goto t (OCompleteFailed (async_caller a) ERROR_INVALID_PARAMETER) s
        else goto t OCompleted (s\<lparr>Ptr := finalValue a\<rparr>)
      else goto t (OCompleteFailed (async_caller a) ERROR_GEN_FAILURE) s)"

definition complete_cas :: "u32 \<Rightarrow> nat \<Rightarrow> complete_args \<Rightarrow> once_state \<Rightarrow> once_state" where
  "complete_cas t i a s =
     (if Ptr s = 1 then goto t (OPublish i a) (s\<lparr>Ptr := finalValue a\<rparr>) else goto t (OComplete a) s)"

definition publish_record :: "u32 \<Rightarrow> nat \<Rightarrow> complete_args \<Rightarrow> once_state \<Rightarrow> once_state" where
  "publish_record t i a s =
     goto t OErase (s\<lparr>records := (records s)(i :=
       \<lparr>completed = True, success = \<not> markFailed a,
        once_context = (if markFailed a then 0 else contextValue a)\<rparr>)\<rparr>)"

definition eraseInitOnceState :: "u32 \<Rightarrow> once_state \<Rightarrow> once_state" where
  "eraseInitOnceState t s = goto t OCompleted (s\<lparr>g_initOnceState := None\<rparr>)"

definition once_exec :: "u32 \<Rightarrow> once_state \<Rightarrow> once_state option" where
  "once_exec t s = (case oth s t of
     OBegin async \<Rightarrow> begin_iter t async s
   | OInsert \<Rightarrow> Some (insertInitOnceState t s)
   | OLookup \<Rightarrow> Some (getInitOnceState t (OBegin False) OWaitState s)
   | OWaitState i \<Rightarrow> wait_record t i s
   | OComplete a \<Rightarrow> Some (complete_iter t a s)
   | OCLookup a \<Rightarrow> Some (getInitOnceState t (OCompleteFailed (async_caller a) ERROR_GEN_FAILURE)
                          (\<lambda>i. OCas i a) s)
   | OCas i a \<Rightarrow> Some (complete_cas t i a s)
   | OPublish i a \<Rightarrow> Some (publish_record t i a s)
   | OErase \<Rightarrow> Some (eraseInitOnceState t s)
   | _ \<Rightarrow> None)"

text \<open>
  The start of the calls. \<^verbatim>\<open>InitOnceComplete\<close> is called by a thread that was told to initialise;
  arguments that fail the checks change nothing.
\<close>

definition may_begin :: "once_pc \<Rightarrow> bool" where
  "may_begin c = (case c of OIdle \<Rightarrow> True | OCompleted \<Rightarrow> True | ODone _ \<Rightarrow> True | OFailed _ \<Rightarrow> True | _ \<Rightarrow> False)"

definition call_begin :: "u32 \<Rightarrow> u32 \<Rightarrow> once_state \<Rightarrow> once_state option" where
  "call_begin t dwFlags s =
     (if may_begin (oth s t)
      then case begin_check dwFlags of
             Some e \<Rightarrow> Some (goto t (OFailed e) s)
           | None \<Rightarrow> if dwFlags AND INIT_ONCE_CHECK_ONLY \<noteq> 0
                     then (case begin_check_only (Ptr s) of
                             Inl e \<Rightarrow> Some (goto t (OFailed e) s)
                           | Inr c \<Rightarrow> Some (goto t (ODone c) s))
                     else Some (goto t (OBegin (dwFlags AND INIT_ONCE_ASYNC \<noteq> 0)) s)
      else None)"

definition pending_role :: "once_pc \<Rightarrow> bool option" where
  "pending_role c = (case c of OPending b \<Rightarrow> Some b | OCompleteFailed b e \<Rightarrow> Some b | _ \<Rightarrow> None)"

definition call_complete :: "u32 \<Rightarrow> u32 \<Rightarrow> u32 \<Rightarrow> once_state \<Rightarrow> once_state option" where
  "call_complete t dwFlags lpContext s =
     (case pending_role (oth s t) of
        None \<Rightarrow> None
      | Some b \<Rightarrow>
          (case complete_check dwFlags lpContext of
             Some e \<Rightarrow> Some (goto t (OCompleteFailed b e) s)
           | None \<Rightarrow> Some (goto t (OComplete \<lparr>async_caller = b, async_flag = (dwFlags AND INIT_ONCE_ASYNC \<noteq> 0),
                        markFailed = (dwFlags AND INIT_ONCE_INIT_FAILED \<noteq> 0),
                        contextValue = lpContext\<rparr>) s)))"

datatype once_action = Begin u32 u32 | Complete u32 u32 u32 | Go u32

fun once_act :: "once_action \<Rightarrow> once_state \<Rightarrow> once_state option" where
  "once_act (Begin t fl) s = call_begin t fl s"
| "once_act (Complete t fl c) s = call_complete t fl c s"
| "once_act (Go t) s = once_exec t s"

inductive once_step :: "once_state \<Rightarrow> once_state \<Rightarrow> bool" where
  act: "once_act a s = Some s' \<Longrightarrow> once_step s s'"

inductive_cases once_stepE: "once_step s s'"

fun once_run :: "once_action list \<Rightarrow> once_state \<Rightarrow> once_state option" where
  "once_run [] s = Some s"
| "once_run (a # as) s = (case once_act a s of None \<Rightarrow> None | Some s' \<Rightarrow> once_run as s')"

lemma once_run_reach:
  "reach once_init once_step s \<Longrightarrow> once_run as s = Some s' \<Longrightarrow> reach once_init once_step s'"
proof (induction as arbitrary: s)
  case (Cons a as)
  from Cons.prems(2) obtain u where u: "once_act a s = Some u" "once_run as u = Some s'"
    by (auto split: option.splits)
  from Cons.IH [OF reach_step [OF Cons.prems(1) act [OF u(1)]] u(2)] show ?case .
qed simp


section \<open>Invariant\<close>

lemma nat_cases_3: "(i = 0 \<Longrightarrow> P) \<Longrightarrow> (i = Suc 0 \<Longrightarrow> P) \<Longrightarrow> (\<And>n. i = Suc (Suc n) \<Longrightarrow> P) \<Longrightarrow> P"
  by (cases i; cases "i - 1") auto

lemma bit_3_u32: "bit (3 :: u32) i \<longleftrightarrow> i < 2"
  by (cases i rule: nat_cases_3) (simp_all add: bit_Suc bit_numeral_word_iff bit_1_iff)

lemma bit_2_u32: "bit (2 :: u32) i \<longleftrightarrow> i = 1"
  by (cases i rule: nat_cases_3) (simp_all add: bit_Suc bit_numeral_word_iff bit_1_iff)

lemma context_flag:
  assumes "(c :: u32) AND 3 = 0"
  shows "(c OR 2) AND 3 = 2" "(c OR 2) AND NOT 3 = c"
proof -
  have z: "\<not> bit c i" if "i < 2" for i
  proof -
    have "bit (c AND 3) i = (bit c i \<and> i < 2)" by (simp only: bit_and_iff bit_3_u32)
    with assms that show ?thesis by simp
  qed
  show "(c OR 2) AND 3 = 2"
    by (rule bit_eqI) (use z in \<open>auto simp only: bit_and_iff bit_or_iff bit_3_u32 bit_2_u32\<close>)
  show "(c OR 2) AND NOT 3 = c"
  proof (rule bit_eqI)
    fix i assume "possible_bit TYPE(u32) i"
    then show "bit ((c OR 2) AND NOT 3) i = bit c i"
      using z [of i] by (auto simp only: bit_and_iff bit_or_iff bit_not_iff bit_3_u32 bit_2_u32)
  qed
qed

definition done_with :: "u32 \<Rightarrow> u32 \<Rightarrow> bool" where
  "done_with p c \<longleftrightarrow> p AND 3 = 2 \<and> c = p AND NOT 3"

definition args_ok :: "complete_args \<Rightarrow> bool" where
  "args_ok a \<longleftrightarrow> (if markFailed a then \<not> async_flag a else contextValue a AND 3 = 0)"

text \<open>The thread that performs a synchronous initialisation.\<close>

definition initialiser :: "once_pc \<Rightarrow> bool" where
  "initialiser c = (case c of OInsert \<Rightarrow> True | OPending b \<Rightarrow> \<not> b | OCompleteFailed b e \<Rightarrow> \<not> b
     | OComplete a \<Rightarrow> \<not> async_caller a | OCLookup a \<Rightarrow> True | OCas i a \<Rightarrow> True | _ \<Rightarrow> False)"

definition pc_ok :: "u32 \<Rightarrow> once_pc \<Rightarrow> bool" where
  "pc_ok p c = (case c of
     OInsert \<Rightarrow> p = 1
   | OPending b \<Rightarrow> if b then p = 3 \<or> p AND 3 = 2 else p = 1
   | OCompleteFailed b e \<Rightarrow> if b then p = 3 \<or> p AND 3 = 2 else p = 1
   | OComplete a \<Rightarrow> args_ok a \<and> (if async_caller a then p = 3 \<or> p AND 3 = 2 else p = 1)
   | OCLookup a \<Rightarrow> args_ok a \<and> p = 1 \<and> \<not> async_caller a
   | OCas i a \<Rightarrow> args_ok a \<and> p = 1 \<and> \<not> async_caller a
   | OPublish i a \<Rightarrow> markFailed a \<or> done_with p (contextValue a)
   | ODone c \<Rightarrow> done_with p c
   | _ \<Rightarrow> True)"

definition once_inv :: "once_state \<Rightarrow> bool" where
  "once_inv s \<longleftrightarrow> (Ptr s \<in> {0, 1, 3} \<or> Ptr s AND 3 = 2) \<and> (\<forall>t. pc_ok (Ptr s) (oth s t)) \<and>
     (\<forall>t u. initialiser (oth s t) \<longrightarrow> initialiser (oth s u) \<longrightarrow> t = u) \<and>
     (\<forall>i. completed (records s i) \<and> success (records s i) \<longrightarrow> done_with (Ptr s) (once_context (records s i)))"

lemma initialiser_ptr: "pc_ok p c \<Longrightarrow> initialiser c \<Longrightarrow> p = 1"
  by (auto simp: pc_ok_def initialiser_def split: once_pc.splits if_splits)

text \<open>A step that leaves the value: only the thread and perhaps a record change.\<close>

lemma once_inv_goto:
  assumes inv: "once_inv s" and p: "Ptr s' = Ptr s" and o: "oth s' = oth s"
    and r: "\<And>i. completed (records s' i) \<Longrightarrow> success (records s' i) \<Longrightarrow>
              done_with (Ptr s) (once_context (records s' i))"
    and ok: "pc_ok (Ptr s) c" and i: "initialiser c \<Longrightarrow> initialiser (oth s t)"
  shows "once_inv (goto t c s')"
  using inv ok r i unfolding once_inv_def goto_def
  by (auto simp: p o)

text \<open>A step that changes the value, which only happens before completion.\<close>

lemma once_inv_ptr:
  assumes inv: "once_inv s" and nd: "Ptr s AND 3 \<noteq> 2" and v: "v \<in> {0, 1, 3} \<or> v AND 3 = 2"
    and ok: "pc_ok v c"
    and others: "\<And>u. u \<noteq> t \<Longrightarrow> pc_ok (Ptr s) (oth s u) \<Longrightarrow> pc_ok v (oth s u)"
    and i: "initialiser c \<Longrightarrow> Ptr s \<noteq> 1"
  shows "once_inv (goto t c (s\<lparr>Ptr := v\<rparr>))"
proof -
  from inv have h: "\<And>u. pc_ok (Ptr s) (oth s u)"
    "\<And>u w. initialiser (oth s u) \<Longrightarrow> initialiser (oth s w) \<Longrightarrow> u = w"
    "\<And>i. completed (records s i) \<Longrightarrow> success (records s i) \<Longrightarrow> False"
    using nd by (auto simp: once_inv_def done_with_def)
  have "initialiser c \<Longrightarrow> \<not> initialiser (oth s u)" for u
    using i initialiser_ptr [OF h(1)] by blast
  with h v ok others show ?thesis by (auto simp: once_inv_def goto_def)
qed


lemma once_inv_pc:
  assumes "once_inv s" "pc_ok (Ptr s) c" "initialiser c \<Longrightarrow> initialiser (oth s t)"
  shows "once_inv (goto t c s)"
  by (rule once_inv_goto [OF assms(1) refl refl _ assms(2,3)]) (use assms(1) in \<open>auto simp: once_inv_def\<close>)

lemmas once_consts = kInitOnceStateMask_def kInitOnceCompletedFlag_def kInitOnceReservedMask_def
  INIT_ONCE_CHECK_ONLY_def INIT_ONCE_ASYNC_def INIT_ONCE_INIT_FAILED_def

lemma once_invD:
  assumes "once_inv s"
  shows "pc_ok (Ptr s) (oth s t)" "Ptr s \<in> {0, 1, 3} \<or> Ptr s AND 3 = 2"
    "completed (records s i) \<Longrightarrow> success (records s i) \<Longrightarrow> done_with (Ptr s) (once_context (records s i))"
  using assms by (auto simp: once_inv_def)

lemma pc_ok_from_0: "pc_ok 0 c \<Longrightarrow> v = 1 \<or> v = 3 \<Longrightarrow> pc_ok v c"
  by (auto simp: pc_ok_def done_with_def split: once_pc.splits if_splits)

lemma pc_ok_from_1: "pc_ok 1 c \<Longrightarrow> \<not> initialiser c \<Longrightarrow> pc_ok v c"
  by (auto simp: pc_ok_def done_with_def initialiser_def split: once_pc.splits if_splits)

lemma pc_ok_from_3: "pc_ok 3 c \<Longrightarrow> v AND 3 = 2 \<Longrightarrow> pc_ok v c"
  by (auto simp: pc_ok_def done_with_def split: once_pc.splits if_splits)

lemma begin_iter_inv:
  assumes inv: "once_inv s" and it: "begin_iter t async s = Some s'" and pc: "oth s t = OBegin async"
  shows "once_inv s'"
proof -
  from once_invD(2) [OF inv] consider "Ptr s = 0" | "Ptr s = 1" | "Ptr s = 3" | "Ptr s AND 3 = 2" by auto
  then show ?thesis
  proof cases
    case 1
    show ?thesis
    proof (cases async)
      case True
      with 1 it have e: "s' = goto t (OPending True) (s\<lparr>Ptr := 3\<rparr>)" by (simp add: begin_iter_def once_consts Let_def)
      show ?thesis unfolding e
        by (rule once_inv_ptr [OF inv]) (use 1 pc_ok_from_0 in \<open>auto simp: pc_ok_def initialiser_def\<close>)
    next
      case False
      with 1 it have e: "s' = goto t OInsert (s\<lparr>Ptr := 1\<rparr>)" by (simp add: begin_iter_def once_consts Let_def)
      show ?thesis unfolding e
        by (rule once_inv_ptr [OF inv]) (use 1 pc_ok_from_0 in \<open>auto simp: pc_ok_def initialiser_def\<close>)
    qed
  next
    case 2
    with it have "s' = goto t (if async then OFailed ERROR_INVALID_PARAMETER else OLookup) s"
      by (simp add: begin_iter_def once_consts Let_def)
    then show ?thesis by (auto intro!: once_inv_pc [OF inv] simp: pc_ok_def initialiser_def)
  next
    case 3
    with it have "s' = goto t (if \<not> async then OFailed ERROR_INVALID_PARAMETER else OPending True) s"
      by (simp add: begin_iter_def once_consts Let_def)
    with 3 show ?thesis by (auto intro!: once_inv_pc [OF inv] simp: pc_ok_def initialiser_def)
  next
    case 4
    with it have "s' = goto t (ODone (Ptr s AND NOT 3)) s" by (simp add: begin_iter_def once_consts Let_def)
    with 4 show ?thesis by (auto intro!: once_inv_pc [OF inv] simp: pc_ok_def initialiser_def done_with_def)
  qed
qed

lemma finalValue_ok:
  "args_ok a \<Longrightarrow> finalValue a = 0 \<and> markFailed a \<or> \<not> markFailed a \<and> done_with (finalValue a) (contextValue a)"
  using context_flag [of "contextValue a"]
  by (auto simp: finalValue_def args_ok_def done_with_def once_consts)

lemma complete_iter_inv:
  assumes inv: "once_inv s" and pc: "oth s t = OComplete a"
  shows "once_inv (complete_iter t a s)"
proof -
  from once_invD(1) [OF inv, of t] pc have ok: "args_ok a"
    "if async_caller a then Ptr s = 3 \<or> Ptr s AND 3 = 2 else Ptr s = 1" by (auto simp: pc_ok_def)
  then consider "Ptr s = 1" "\<not> async_caller a" | "Ptr s = 3" "async_caller a" | "Ptr s AND 3 = 2" "async_caller a"
    by (auto split: if_splits)
  then show ?thesis
  proof cases
    case 1
    then show ?thesis using ok pc
      by (auto simp: complete_iter_def once_consts Let_def pc_ok_def initialiser_def intro!: once_inv_pc [OF inv])
  next
    case 2
    show ?thesis
    proof (cases "async_flag a")
      case True
      with ok(1) have "done_with (finalValue a) (contextValue a)" using finalValue_ok [OF ok(1)] by (auto simp: args_ok_def split: if_splits)
      then have f: "finalValue a AND 3 = 2" by (simp add: done_with_def)
      have c: "pc_ok (finalValue a) OCompleted" "\<not> initialiser OCompleted"
        by (simp_all add: pc_ok_def initialiser_def)
      from 2 True have e: "complete_iter t a s = goto t OCompleted (s\<lparr>Ptr := finalValue a\<rparr>)"
        by (simp add: complete_iter_def once_consts Let_def)
      show ?thesis unfolding e
        by (rule once_inv_ptr [OF inv]) (use 2 f c pc_ok_from_3 [OF _ f] in auto)
    next
      case False
      with 2 show ?thesis
        by (auto simp: complete_iter_def once_consts Let_def pc_ok_def initialiser_def intro!: once_inv_pc [OF inv])
    qed
  next
    case 3
    then show ?thesis
      by (auto simp: complete_iter_def once_consts Let_def pc_ok_def initialiser_def intro!: once_inv_pc [OF inv])
  qed
qed

lemma complete_cas_inv:
  assumes inv: "once_inv s" and pc: "oth s t = OCas i a"
  shows "once_inv (complete_cas t i a s)"
proof -
  from once_invD(1) [OF inv, of t] pc have ok: "args_ok a" "Ptr s = 1" by (auto simp: pc_ok_def)
  have n: "\<not> initialiser (oth s u)" if "u \<noteq> t" for u
    using inv pc that by (auto simp: once_inv_def initialiser_def)
  have e: "complete_cas t i a s = goto t (OPublish i a) (s\<lparr>Ptr := finalValue a\<rparr>)"
    using ok by (simp add: complete_cas_def)
  show ?thesis unfolding e
  proof (rule once_inv_ptr [OF inv])
    show "pc_ok (finalValue a) (oth s u)" if "u \<noteq> t" "pc_ok (Ptr s) (oth s u)" for u
      using pc_ok_from_1 n that ok by simp
  qed (use ok finalValue_ok [of a] in \<open>auto simp: pc_ok_def initialiser_def done_with_def\<close>)
qed

lemma publish_inv:
  assumes inv: "once_inv s" and pc: "oth s t = OPublish i a"
  shows "once_inv (publish_record t i a s)"
  unfolding publish_record_def
proof (rule once_inv_goto [OF inv])
  from once_invD(1) [OF inv, of t] pc have "markFailed a \<or> done_with (Ptr s) (contextValue a)" by (simp add: pc_ok_def)
  then show "done_with (Ptr s) (once_context (records (s\<lparr>records := (records s)(i :=
       \<lparr>completed = True, success = \<not> markFailed a,
        once_context = (if markFailed a then 0 else contextValue a)\<rparr>)\<rparr>) j))"
    if "completed (records (s\<lparr>records := (records s)(i := \<lparr>completed = True, success = \<not> markFailed a,
        once_context = (if markFailed a then 0 else contextValue a)\<rparr>)\<rparr>) j)"
      "success (records (s\<lparr>records := (records s)(i := \<lparr>completed = True, success = \<not> markFailed a,
        once_context = (if markFailed a then 0 else contextValue a)\<rparr>)\<rparr>) j)" for j
    using that once_invD(3) [OF inv] by (cases "j = i") auto
qed (simp_all add: pc_ok_def initialiser_def)

lemma insert_inv:
  assumes inv: "once_inv s" and pc: "oth s t = OInsert"
  shows "once_inv (insertInitOnceState t s)"
  unfolding insertInitOnceState_def
  by (rule once_inv_goto [OF inv])
    (use once_invD(1) [OF inv, of t] once_invD(3) [OF inv] pc in
      \<open>auto simp: pc_ok_def initialiser_def new_InitOnceState_def split: if_splits\<close>)

lemma once_exec_inv:
  assumes inv: "once_inv s" and ex: "once_exec t s = Some s'"
  shows "once_inv s'"
proof (cases "oth s t")
  case (OBegin x2)
  with ex begin_iter_inv [OF inv _ OBegin] show ?thesis by (simp add: once_exec_def)
next
  case OInsert
  with ex insert_inv [OF inv OInsert] show ?thesis by (simp add: once_exec_def)
next
  case OLookup
  with ex show ?thesis
    by (auto simp: once_exec_def getInitOnceState_def pc_ok_def initialiser_def
        intro!: once_inv_pc [OF inv] split: option.splits)
next
  case (OWaitState i)
  with ex once_invD(3) [OF inv, of i] show ?thesis
    by (auto simp: once_exec_def wait_record_def Let_def pc_ok_def initialiser_def
        intro!: once_inv_pc [OF inv] split: if_splits)
next
  case (OComplete a)
  with ex complete_iter_inv [OF inv OComplete] show ?thesis by (simp add: once_exec_def)
next
  case (OCLookup a)
  with ex once_invD(1) [OF inv, of t] show ?thesis
    by (auto simp: once_exec_def getInitOnceState_def pc_ok_def initialiser_def
        intro!: once_inv_pc [OF inv] split: option.splits)
next
  case (OCas i a)
  with ex complete_cas_inv [OF inv OCas] show ?thesis by (simp add: once_exec_def)
next
  case (OPublish i a)
  with ex publish_inv [OF inv OPublish] show ?thesis by (simp add: once_exec_def)
next
  case OErase
  with ex have e: "s' = goto t OCompleted (s\<lparr>g_initOnceState := None\<rparr>)"
    by (simp add: once_exec_def eraseInitOnceState_def)
  show ?thesis unfolding e
    by (rule once_inv_goto [OF inv]) (use once_invD(3) [OF inv] in \<open>auto simp: pc_ok_def initialiser_def\<close>)
qed (use ex in \<open>simp_all add: once_exec_def\<close>)


lemma call_begin_inv:
  assumes inv: "once_inv s" and c: "call_begin t fl s = Some s'"
  shows "once_inv s'"
proof -
  have "\<not> initialiser (OBegin b)" "\<not> initialiser (OFailed e)" "\<not> initialiser (ODone x)" for b e x
    by (simp_all add: initialiser_def)
  then show ?thesis using c
    by (auto simp: call_begin_def begin_check_only_def once_consts pc_ok_def done_with_def
        intro!: once_inv_pc [OF inv] split: if_splits option.splits)
qed

lemma call_complete_inv:
  assumes inv: "once_inv s" and c: "call_complete t fl x s = Some s'"
  shows "once_inv s'"
proof -
  from c obtain b where b: "pending_role (oth s t) = Some b"
    by (auto simp: call_complete_def split: option.splits)
  then have i: "\<not> b \<Longrightarrow> initialiser (oth s t)"
    and ok: "if b then Ptr s = 3 \<or> Ptr s AND 3 = 2 else Ptr s = 1"
    using once_invD(1) [OF inv, of t]
    by (auto simp: pending_role_def initialiser_def pc_ok_def split: once_pc.splits)
  show ?thesis
  proof (cases "complete_check fl x")
    case (Some e)
    with b c have e: "s' = goto t (OCompleteFailed b e) s" by (simp add: call_complete_def)
    show ?thesis unfolding e by (rule once_inv_pc [OF inv]) (use i ok in \<open>auto simp: pc_ok_def initialiser_def\<close>)
  next
    case None
    let ?a = "\<lparr>async_caller = b, async_flag = (fl AND INIT_ONCE_ASYNC \<noteq> 0),
                markFailed = (fl AND INIT_ONCE_INIT_FAILED \<noteq> 0), contextValue = x\<rparr>"
    from None b c have e: "s' = goto t (OComplete ?a) s" by (simp add: call_complete_def)
    from None have "args_ok ?a"
      by (auto simp: complete_check_def args_ok_def once_consts Let_def split: if_splits)
    then show ?thesis unfolding e
      by (intro once_inv_pc [OF inv]) (use i ok in \<open>auto simp: pc_ok_def initialiser_def\<close>)
  qed
qed

lemma once_inv_step: "once_inv s \<Longrightarrow> once_step s s' \<Longrightarrow> once_inv s'"
proof (erule once_stepE)
  fix a assume inv: "once_inv s" and a: "once_act a s = Some s'"
  then show "once_inv s'"
    by (cases a) (auto intro: call_begin_inv [OF inv] call_complete_inv [OF inv] once_exec_inv [OF inv])
qed

lemma once_inv_init: "once_init s \<Longrightarrow> once_inv s"
  by (simp add: once_init_def once_inv_def pc_ok_def initialiser_def new_InitOnceState_def)

interpretation init_once: inductive_invariant once_init once_step once_inv
  by unfold_locales (auto intro: once_inv_init once_inv_step)

section \<open>What the calls promise\<close>

definition once_zero :: once_state where
  "once_zero = \<lparr>Ptr = 0, g_initOnceState = None, records = (\<lambda>_. new_InitOnceState), next_record = 0,
                oth = (\<lambda>_. OIdle)\<rparr>"

lemma reach_once_zero: "reach once_init once_step once_zero"
  by (rule reach_init) (simp add: once_init_def once_zero_def)

text \<open>
  C29: at any moment at most one thread performs the synchronous initialisation, and the
  \<open>INIT_ONCE\<close> then is in state 1; a thread that is told the initialisation is complete gets the
  context stored in it, so all such threads get the same; and completion is final.
\<close>

theorem init_once_agreement:
  assumes "reach once_init once_step s"
  shows "(initialiser (oth s t) \<longrightarrow> Ptr s = 1 \<and> (\<forall>u. initialiser (oth s u) \<longrightarrow> u = t)) \<and>
         (oth s t = ODone c \<longrightarrow> Ptr s AND kInitOnceStateMask = kInitOnceCompletedFlag \<and>
            c = Ptr s AND NOT kInitOnceStateMask \<and> (\<forall>s'. once_step s s' \<longrightarrow> Ptr s' = Ptr s))"
proof (intro conjI impI allI)
  note inv = init_once.reach_invar [OF assms]
  show "Ptr s = 1" if "initialiser (oth s t)"
    using initialiser_ptr [OF once_invD(1) [OF inv] that] .
  show "u = t" if "initialiser (oth s t)" "initialiser (oth s u)" for u
    using inv that by (auto simp: once_inv_def)
  assume d: "oth s t = ODone c"
  with once_invD(1) [OF inv, of t] have dw: "done_with (Ptr s) c" by (simp add: pc_ok_def)
  then show "Ptr s AND kInitOnceStateMask = kInitOnceCompletedFlag" "c = Ptr s AND NOT kInitOnceStateMask"
    by (simp_all add: done_with_def once_consts)
  show "Ptr s' = Ptr s" if st: "once_step s s'" for s'
  proof -
    from dw have p: "Ptr s AND 3 = 2" by (simp add: done_with_def)
    then have np: "Ptr s \<noteq> 0" "Ptr s \<noteq> 1" by auto
    have "Ptr s' = Ptr s" if "once_act a s = Some s'" for a
      using that p np
      by (cases a) (auto simp: call_begin_def call_complete_def once_exec_def begin_iter_def goto_def
          insertInitOnceState_def getInitOnceState_def wait_record_def complete_iter_def complete_cas_def
          publish_record_def eraseInitOnceState_def once_consts Let_def
          split: if_splits option.splits once_pc.splits sum.splits)
    with st show ?thesis by (auto elim: once_stepE)
  qed
qed


lemmas once_exec_simps = call_begin_def may_begin_def begin_check_def begin_check_only_def call_complete_def
  pending_role_def complete_check_def once_exec_def begin_iter_def goto_def insertInitOnceState_def
  getInitOnceState_def wait_record_def complete_iter_def complete_cas_def finalValue_def
  publish_record_def eraseInitOnceState_def once_consts Let_def once_zero_def new_InitOnceState_def

lemma once_demo_done:
  "\<exists>s. once_run [Begin 1 0, Go 1, Go 1, Complete 1 0 8, Go 1, Go 1, Go 1, Go 1, Go 1, Begin 2 0, Go 2] once_zero
       = Some s \<and> oth s 2 = ODone 8"
  by (simp add: once_exec_simps)

theorem init_once_agreement_witness:
  "\<exists>s. reach once_init once_step s \<and> oth s 2 = ODone 8 \<and> 8 = Ptr s AND NOT kInitOnceStateMask"
proof -
  from once_demo_done obtain s where s: "once_run [Begin 1 0, Go 1, Go 1, Complete 1 0 8, Go 1, Go 1, Go 1,
      Go 1, Go 1, Begin 2 0, Go 2] once_zero = Some s" "oth s 2 = ODone 8" by blast
  note r = once_run_reach [OF reach_once_zero s(1)]
  from init_once_agreement [OF r, of 2 8] s(2) r show ?thesis by blast
qed

subsection \<open>A failed initialisation can lose the next one\<close>

text \<open>
  A stuck object: state 1 without a record, and no thread that would insert one or has found one.
\<close>

definition once_stuck :: "once_state \<Rightarrow> bool" where
  "once_stuck s \<longleftrightarrow> Ptr s = 1 \<and> g_initOnceState s = None \<and>
     (\<forall>t. oth s t \<noteq> OInsert \<and> (\<forall>i a. oth s t \<noteq> OCas i a))"

definition never_completes :: "once_state \<Rightarrow> bool" where
  "never_completes s \<longleftrightarrow> (\<forall>as s'. once_run as s = Some s' \<longrightarrow> Ptr s' = 1)"

lemma once_stuck_step:
  assumes st: "once_stuck s" and act: "once_act a s = Some s'"
  shows "once_stuck s'"
proof -
  have k: "once_stuck (goto t c s)" if "c \<noteq> OInsert" "\<And>i b. c \<noteq> OCas i b" for t c
    using st that by (auto simp: once_stuck_def goto_def)
  have p: "Ptr s = 1" "g_initOnceState s = None" and o: "oth s t \<noteq> OInsert" "oth s t \<noteq> OCas i b" for t i b
    using st by (auto simp: once_stuck_def)
  have r: "once_stuck (goto t c (s\<lparr>records := R\<rparr>))" if "c \<noteq> OInsert" "\<And>i b. c \<noteq> OCas i b" for t c R
    using st that by (auto simp: once_stuck_def goto_def)
  have e: "s\<lparr>g_initOnceState := None\<rparr> = s" using p(2) by simp
  show ?thesis
  proof (cases a)
    case (Begin t fl)
    with act show ?thesis
      by (auto simp: call_begin_def begin_check_only_def intro!: k split: if_splits option.splits sum.splits)
  next
    case (Complete t fl c)
    with act show ?thesis by (auto simp: call_complete_def intro!: k split: option.splits)
  next
    case (Go t)
    with act have g: "once_exec t s = Some s'" by simp
    show ?thesis
    proof (cases "oth s t")
      case (OBegin async)
      with g p show ?thesis by (cases async) (auto simp: once_exec_def begin_iter_def Let_def once_consts intro!: k)
    next
      case (OPublish i b)
      with g show ?thesis by (auto simp: once_exec_def publish_record_def intro!: r)
    qed (use g p o in \<open>auto simp: once_exec_def getInitOnceState_def wait_record_def complete_iter_def
          eraseInitOnceState_def once_consts Let_def e intro!: k split: if_splits\<close>)
  qed
qed

text \<open>
  C30: \<^verbatim>\<open>InitOnceComplete\<close> with \<^verbatim>\<open>INIT_ONCE_INIT_FAILED\<close> publishes state 0 before it erases the
  record, so a thread that starts the next attempt in between has its record erased: the object is
  left in state 1 for ever, whatever the threads do, the second initialiser's
  \<^verbatim>\<open>InitOnceComplete\<close> has failed with \<^verbatim>\<open>ERROR_GEN_FAILURE\<close> and a waiter never returns.
\<close>

theorem init_once_failed_attempt_race:
  "\<exists>s. reach once_init once_step s \<and> oth s 2 = OCompleteFailed False ERROR_GEN_FAILURE \<and> once_stuck s \<and>
       never_completes s"
proof -
  have "\<exists>s. once_run [Begin 1 0, Go 1, Go 1, Complete 1 4 0, Go 1, Go 1, Go 1, Begin 2 0, Go 2, Go 2, Go 1, Go 1,
             Complete 2 0 8, Go 2, Go 2] once_zero = Some s \<and>
           oth s 2 = OCompleteFailed False ERROR_GEN_FAILURE \<and> once_stuck s"
    by (simp add: once_exec_simps once_stuck_def)
  then obtain s where s: "once_run [Begin 1 0, Go 1, Go 1, Complete 1 4 0, Go 1, Go 1, Go 1, Begin 2 0, Go 2, Go 2,
      Go 1, Go 1, Complete 2 0 8, Go 2, Go 2] once_zero = Some s"
    "oth s 2 = OCompleteFailed False ERROR_GEN_FAILURE" "once_stuck s" by blast
  have st: "once_stuck s'" if "once_stuck u" "once_run as u = Some s'" for as u s'
    using that by (induction as arbitrary: u) (auto split: option.splits dest: once_stuck_step)
  have "Ptr s' = 1" if "once_run as s = Some s'" for as s'
    using st [OF s(3) that] unfolding once_stuck_def by (elim conjE)
  then have "never_completes s" by (simp add: never_completes_def)
  with s once_run_reach [OF reach_once_zero s(1)] show ?thesis by blast
qed

end
