(* ===== verification/Sync_Objects.thy ===== *)
theory Sync_Objects
  imports Object_Namespace
begin

unbundle bit_operations_syntax

text \<open>
  Kernel synchronisation objects: mutexes, events, semaphores, threads and processes
  (\<^verbatim>\<open>src/dll/kernel32/internal.h\<close>), their calls and the waits on one or several of them
  (\<^verbatim>\<open>src/dll/kernel32/synchapi.cpp\<close>), on top of the handle table and the namespace. Each call holds
  the object's mutex for one access, so a call is a function of the state; a wait that has to block
  is the result \<open>None\<close>, and what other threads do meanwhile is a parameter.
\<close>

section \<open>Objects\<close>

abbreviation (input) WAIT_OBJECT_0 :: u32 where "WAIT_OBJECT_0 \<equiv> 0"
abbreviation (input) WAIT_ABANDONED :: u32 where "WAIT_ABANDONED \<equiv> 0x80"
abbreviation (input) WAIT_TIMEOUT :: u32 where "WAIT_TIMEOUT \<equiv> 0x102"
abbreviation (input) WAIT_FAILED :: u32 where "WAIT_FAILED \<equiv> 0xFFFFFFFF"
abbreviation (input) INFINITE :: u32 where "INFINITE \<equiv> 0xFFFFFFFF"
abbreviation (input) MAXIMUM_WAIT_OBJECTS :: nat where "MAXIMUM_WAIT_OBJECTS \<equiv> 64"

record MutexObject =
  ownerValid :: bool
  owner :: u32
  recursionCount :: u32
  abandoned :: bool

text \<open>\<open>LONG\<close> counts are integers; the invariant keeps them in the 32-bit range.\<close>

record SemaphoreObject =
  scount :: int
  maxCount :: int

datatype SyncBody =
    MutexBody MutexObject
  | EventBody bool            \<comment> \<open>\<^verbatim>\<open>manualReset\<close>\<close>
  | SemaphoreBody SemaphoreObject
  | ThreadBody u32            \<comment> \<open>the host thread\<close>
  | ProcessBody bool          \<comment> \<open>\<^verbatim>\<open>waitable\<close>\<close>
  | OtherBody

record Waiter =
  wcontext :: nat
  windex :: nat

record SyncObj =
  signaled :: bool
  waiters :: "Waiter list"
  body :: SyncBody

record WaitBlock =
  waitAll :: bool
  satisfied :: "bool list"
  wcompleted :: bool
  wresult :: u32

record SyncState = WState +
  syncs :: "objptr \<Rightarrow> SyncObj"
  blocks :: "nat \<Rightarrow> WaitBlock"

definition new_mutex :: "bool \<Rightarrow> u32 \<Rightarrow> SyncObj" where
  "new_mutex bInitialOwner self =
     (if bInitialOwner
      then \<lparr>signaled = False, waiters = [],
            body = MutexBody \<lparr>ownerValid = True, owner = self, recursionCount = 1, abandoned = False\<rparr>\<rparr>
      else \<lparr>signaled = True, waiters = [],
            body = MutexBody \<lparr>ownerValid = False, owner = 0, recursionCount = 0, abandoned = False\<rparr>\<rparr>)"

definition new_event :: "bool \<Rightarrow> bool \<Rightarrow> SyncObj" where
  "new_event bManualReset bInitialState =
     \<lparr>signaled = bInitialState, waiters = [], body = EventBody bManualReset\<rparr>"

definition new_semaphore :: "int \<Rightarrow> int \<Rightarrow> SyncObj" where
  "new_semaphore initial maximum =
     \<lparr>signaled = False, waiters = [], body = SemaphoreBody \<lparr>scount = initial, maxCount = maximum\<rparr>\<rparr>"

section \<open>Waiters\<close>

definition upd_sync :: "objptr \<Rightarrow> SyncObj \<Rightarrow> 'a SyncState_scheme \<Rightarrow> 'a SyncState_scheme" where
  "upd_sync p ob s = s\<lparr>syncs := (syncs s)(p := ob)\<rparr>"

definition registerWaiter :: "objptr \<Rightarrow> nat \<Rightarrow> nat \<Rightarrow> 'a SyncState_scheme \<Rightarrow> 'a SyncState_scheme" where
  "registerWaiter p ctx i s =
     upd_sync p ((syncs s p)\<lparr>waiters := waiters (syncs s p) @ [\<lparr>wcontext = ctx, windex = i\<rparr>]\<rparr>) s"

definition unregisterWaiter :: "objptr \<Rightarrow> nat \<Rightarrow> 'a SyncState_scheme \<Rightarrow> 'a SyncState_scheme" where
  "unregisterWaiter p ctx s =
     upd_sync p ((syncs s p)\<lparr>waiters := filter (\<lambda>w. wcontext w \<noteq> ctx) (waiters (syncs s p))\<rparr>) s"

text \<open>\<^verbatim>\<open>WaitBlock::handleSignal\<close>: the part under the block's mutex, then the registration.\<close>

definition block_signal :: "nat \<Rightarrow> bool \<Rightarrow> WaitBlock \<Rightarrow> WaitBlock" where
  "block_signal i aband b =
     (if satisfied b ! i \<or> wcompleted b then b
      else let b1 = b\<lparr>satisfied := (satisfied b)[i := True]\<rparr> in
        if waitAll b then
          if aband then b1\<lparr>wresult := WAIT_ABANDONED + of_nat i, wcompleted := True\<rparr>
          else if list_all id (satisfied b1) then b1\<lparr>wresult := WAIT_OBJECT_0, wcompleted := True\<rparr>
          else b1
        else b1\<lparr>wresult := (if aband then WAIT_ABANDONED + of_nat i else WAIT_OBJECT_0 + of_nat i),
                wcompleted := True\<rparr>)"

definition handleSignal :: "nat \<Rightarrow> objptr \<Rightarrow> nat \<Rightarrow> bool \<Rightarrow> bool \<Rightarrow> 'a SyncState_scheme \<Rightarrow> 'a SyncState_scheme" where
  "handleSignal ctx p i aband fromWaiter s =
     (let b = blocks s ctx in
      if i \<ge> length (satisfied b) then s
      else let b' = block_signal i aband b; s1 = s\<lparr>blocks := (blocks s)(ctx := b')\<rparr> in
        if fromWaiter \<or> \<not> waitAll b' \<or> satisfied b' ! i then unregisterWaiter p ctx s1 else s1)"

definition notifyWaiters :: "objptr \<Rightarrow> bool \<Rightarrow> 'a SyncState_scheme \<Rightarrow> 'a SyncState_scheme" where
  "notifyWaiters p aband s =
     fold (\<lambda>w s. handleSignal (wcontext w) p (windex w) aband True s) (waiters (syncs s p)) s"

section \<open>Calls on the objects\<close>

text \<open>Drop the pin a lookup has taken.\<close>

definition unpin :: "objptr \<Rightarrow> 'a SyncState_scheme \<Rightarrow> 'a SyncState_scheme" where
  "unpin p s = s\<lparr>objects := deref p (objects s)\<rparr>"

definition MUTEX_ALL_ACCESS :: u32 where "MUTEX_ALL_ACCESS = 0x1F0001"
definition EVENT_ALL_ACCESS :: u32 where "EVENT_ALL_ACCESS = 0x1F0003"
definition SEMAPHORE_ALL_ACCESS :: u32 where "SEMAPHORE_ALL_ACCESS = 0x1F0003"

text \<open>
  The creation calls. The new object's body is stored when the factory runs, that is when the name
  is free or empty.
\<close>

definition creates :: "u16 list \<Rightarrow> 'a WState_scheme \<Rightarrow> bool" where
  "creates name s \<longleftrightarrow> name = [] \<or> map_of (mTable s) name = None"

definition inherit_flags :: "bool \<Rightarrow> u32" where
  "inherit_flags bInheritHandle = (if bInheritHandle then HANDLE_FLAG_INHERIT else 0)"

definition CreateMutexW :: "u32 \<Rightarrow> objptr \<Rightarrow> bool \<Rightarrow> bool \<Rightarrow> u16 list
    \<Rightarrow> 'a SyncState_scheme \<Rightarrow> HANDLE \<times> 'a SyncState_scheme" where
  "CreateMutexW self p bInherit bInitialOwner name s =
     create_named name Mutex Of_Waitable True p MUTEX_ALL_ACCESS (inherit_flags bInherit)
       (if creates name s then upd_sync p (new_mutex bInitialOwner self) s else s)"

definition CreateEventW :: "objptr \<Rightarrow> bool \<Rightarrow> bool \<Rightarrow> bool \<Rightarrow> u16 list
    \<Rightarrow> 'a SyncState_scheme \<Rightarrow> HANDLE \<times> 'a SyncState_scheme" where
  "CreateEventW p bInherit bManualReset bInitialState name s =
     create_named name Event Of_Waitable True p EVENT_ALL_ACCESS (inherit_flags bInherit)
       (if creates name s then upd_sync p (new_event bManualReset bInitialState) s else s)"

definition semaphore_args_ok :: "int \<Rightarrow> int \<Rightarrow> bool" where
  "semaphore_args_ok lInitialCount lMaximumCount \<longleftrightarrow>
     \<not> (lMaximumCount \<le> 0 \<or> lInitialCount < 0 \<or> lInitialCount > lMaximumCount)"

definition CreateSemaphoreW :: "objptr \<Rightarrow> bool \<Rightarrow> int \<Rightarrow> int \<Rightarrow> u16 list
    \<Rightarrow> 'a SyncState_scheme \<Rightarrow> HANDLE \<times> 'a SyncState_scheme" where
  "CreateSemaphoreW p bInherit lInitialCount lMaximumCount name s =
     (let ok = semaphore_args_ok lInitialCount lMaximumCount in
      create_named name Semaphore Of_Waitable ok p SEMAPHORE_ALL_ACCESS (inherit_flags bInherit)
        (if creates name s \<and> ok then upd_sync p (new_semaphore lInitialCount lMaximumCount) s else s))"

text \<open>\<^verbatim>\<open>ReleaseMutex\<close> under the object's mutex: the error, or the new object and whether to notify.\<close>

definition mutex_release :: "u32 \<Rightarrow> SyncObj \<Rightarrow> u32 + SyncObj \<times> bool" where
  "mutex_release self ob =
     (case body ob of
        MutexBody mu \<Rightarrow>
          if \<not> ownerValid mu \<or> owner mu \<noteq> self \<or> recursionCount mu = 0 then Inl ERROR_NOT_OWNER
          else let n = recursionCount mu - 1 in
            if n = 0 then Inr (ob\<lparr>signaled := True,
                                  body := MutexBody (mu\<lparr>recursionCount := 0, ownerValid := False\<rparr>)\<rparr>, True)
            else Inr (ob\<lparr>body := MutexBody (mu\<lparr>recursionCount := n\<rparr>)\<rparr>, False)
      | _ \<Rightarrow> Inl ERROR_INVALID_HANDLE)"

definition ReleaseMutex :: "u32 \<Rightarrow> HANDLE \<Rightarrow> 'a SyncState_scheme \<Rightarrow> bool \<times> 'a SyncState_scheme" where
  "ReleaseMutex self h s =
     (case getAs Mutex h s of
        (None, s1) \<Rightarrow> (False, setLastError ERROR_INVALID_HANDLE s1)
      | (Some (p, m), s1) \<Rightarrow>
          (case mutex_release self (syncs s1 p) of
             Inl e \<Rightarrow> (False, unpin p (setLastError e s1))
           | Inr (ob, notify) \<Rightarrow>
               (let s2 = upd_sync p ob s1 in
                (True, unpin p (if notify then notifyWaiters p False s2 else s2)))))"

definition semaphore_release :: "int \<Rightarrow> SyncObj \<Rightarrow> u32 + SyncObj \<times> int" where
  "semaphore_release lReleaseCount ob =
     (case body ob of
        SemaphoreBody sem \<Rightarrow>
          if scount sem > maxCount sem - lReleaseCount then Inl ERROR_TOO_MANY_POSTS
          else let c = scount sem + lReleaseCount in
            Inr (ob\<lparr>signaled := c > 0, body := SemaphoreBody (sem\<lparr>scount := c\<rparr>)\<rparr>, scount sem)
      | _ \<Rightarrow> Inl ERROR_INVALID_HANDLE)"

text \<open>\<^verbatim>\<open>ReleaseSemaphore\<close>; the previous count is returned on success.\<close>

definition ReleaseSemaphore :: "HANDLE \<Rightarrow> int \<Rightarrow> 'a SyncState_scheme \<Rightarrow> int option \<times> 'a SyncState_scheme" where
  "ReleaseSemaphore h lReleaseCount s =
     (if lReleaseCount < 0 then (None, setLastError ERROR_INVALID_PARAMETER s)
      else case getAs Semaphore h s of
        (None, s1) \<Rightarrow> (None, setLastError ERROR_INVALID_HANDLE s1)
      | (Some (p, m), s1) \<Rightarrow>
          (case semaphore_release lReleaseCount (syncs s1 p) of
             Inl e \<Rightarrow> (None, unpin p (setLastError e s1))
           | Inr (ob, prev) \<Rightarrow>
               (let s2 = upd_sync p ob s1 in
                (Some prev, unpin p (if signaled ob then notifyWaiters p False s2 else s2)))))"

definition SetEvent :: "HANDLE \<Rightarrow> 'a SyncState_scheme \<Rightarrow> bool \<times> 'a SyncState_scheme" where
  "SetEvent h s =
     (case getAs Event h s of
        (None, s1) \<Rightarrow> (False, setLastError ERROR_INVALID_HANDLE s1)
      | (Some (p, m), s1) \<Rightarrow>
          (True, unpin p (notifyWaiters p False (upd_sync p ((syncs s1 p)\<lparr>signaled := True\<rparr>) s1))))"

definition ResetEvent :: "HANDLE \<Rightarrow> 'a SyncState_scheme \<Rightarrow> bool \<times> 'a SyncState_scheme" where
  "ResetEvent h s =
     (case getAs Event h s of
        (None, s1) \<Rightarrow> (False, setLastError ERROR_INVALID_HANDLE s1)
      | (Some (p, m), s1) \<Rightarrow> (True, unpin p (upd_sync p ((syncs s1 p)\<lparr>signaled := False\<rparr>) s1)))"

section \<open>Waiting for one object\<close>

text \<open>
  What \<^verbatim>\<open>WaitForSingleObject\<close> does under the object's mutex: a result with the object after it,
  or \<open>Blocked\<close> while the condition of the wait does not hold.
\<close>

datatype wait_outcome = Returned u32 SyncObj | Blocked | NotWaitable

definition wait_object :: "u32 \<Rightarrow> SyncObj \<Rightarrow> wait_outcome" where
  "wait_object self ob =
     (case body ob of
        EventBody manual \<Rightarrow>
          if \<not> signaled ob then Blocked
          else Returned WAIT_OBJECT_0 (if manual then ob else ob\<lparr>signaled := False\<rparr>)
      | SemaphoreBody sem \<Rightarrow>
          if \<not> scount sem > 0 then Blocked
          else let c = scount sem - 1 in
            Returned WAIT_OBJECT_0 (ob\<lparr>signaled := (if c = 0 then False else signaled ob),
                                       body := SemaphoreBody (sem\<lparr>scount := c\<rparr>)\<rparr>)
      | MutexBody mu \<Rightarrow>
          if ownerValid mu \<and> owner mu = self
          then Returned WAIT_OBJECT_0 (ob\<lparr>body := MutexBody (mu\<lparr>recursionCount := recursionCount mu + 1\<rparr>)\<rparr>)
          else if ownerValid mu \<and> \<not> abandoned mu then Blocked
          else Returned (if abandoned mu then WAIT_ABANDONED else WAIT_OBJECT_0)
                 (ob\<lparr>signaled := False,
                     body := MutexBody \<lparr>ownerValid = True, owner = self, recursionCount = 1, abandoned = False\<rparr>\<rparr>)
      | ThreadBody t \<Rightarrow>
          if t = self then Returned WAIT_TIMEOUT ob
          else if signaled ob then Returned WAIT_OBJECT_0 ob else Blocked
      | ProcessBody w \<Rightarrow>
          if \<not> signaled ob \<and> \<not> w then Returned WAIT_TIMEOUT ob
          else if signaled ob then Returned WAIT_OBJECT_0 ob else Blocked
      | OtherBody \<Rightarrow> NotWaitable)"

text \<open>
  \<^verbatim>\<open>WaitForSingleObject\<close> at the moment it looks at the object: \<open>expired\<close> tells that the time is
  over. \<open>None\<close>: the thread stays blocked. With no time limit the time is never over, with limit 0
  it is over at once.
\<close>

definition time_over :: "u32 \<Rightarrow> bool \<Rightarrow> bool" where
  "time_over dwMilliseconds expired \<longleftrightarrow>
     dwMilliseconds = 0 \<or> (dwMilliseconds \<noteq> INFINITE \<and> expired)"

definition WaitForSingleObject :: "u32 \<Rightarrow> HANDLE \<Rightarrow> u32 \<Rightarrow> bool
    \<Rightarrow> 'a SyncState_scheme \<Rightarrow> u32 option \<times> 'a SyncState_scheme" where
  "WaitForSingleObject self h dwMilliseconds expired s =
     (case get h s of
        (None, s1) \<Rightarrow> (Some WAIT_FAILED, setLastError ERROR_INVALID_HANDLE s1)
      | (Some (p, m), s1) \<Rightarrow>
          (case wait_object self (syncs s1 p) of
             NotWaitable \<Rightarrow> (Some WAIT_FAILED, unpin p (setLastError ERROR_INVALID_HANDLE s1))
           | Returned r ob \<Rightarrow> (Some r, unpin p (upd_sync p ob s1))
           | Blocked \<Rightarrow> if time_over dwMilliseconds expired then (Some WAIT_TIMEOUT, unpin p s1) else (None, s1)))"

section \<open>Waiting for several objects\<close>

text \<open>\<^verbatim>\<open>handles().getAs<WaitableObject>\<close> tests the flag, not the type.\<close>

definition getWaitable :: "HANDLE \<Rightarrow> 'a SyncState_scheme \<Rightarrow> objptr option \<times> 'a SyncState_scheme" where
  "getWaitable h s =
     (case get h s of
        (None, s1) \<Rightarrow> (None, s1)
      | (Some (p, m), s1) \<Rightarrow>
          if (case objects s1 p of Some ob \<Rightarrow> oflags ob AND Of_Waitable \<noteq> 0 | None \<Rightarrow> False) then (Some p, s1)
          else (None, unpin p s1))"

fun resolve_all :: "HANDLE list \<Rightarrow> 'a SyncState_scheme \<Rightarrow> objptr list option \<times> 'a SyncState_scheme" where
  "resolve_all [] s = (Some [], s)"
| "resolve_all (h # hs) s =
     (case getWaitable h s of
        (None, s1) \<Rightarrow> (None, s1)
      | (Some p, s1) \<Rightarrow>
          (case resolve_all hs s1 of
             (None, s2) \<Rightarrow> (None, unpin p s2)
           | (Some ps, s2) \<Rightarrow> (Some (p # ps), s2)))"

definition is_abandoned :: "SyncObj \<Rightarrow> bool" where
  "is_abandoned ob = (case body ob of MutexBody mu \<Rightarrow> abandoned mu | _ \<Rightarrow> False)"

definition new_block :: "bool \<Rightarrow> nat \<Rightarrow> WaitBlock" where
  "new_block bWaitAll n =
     \<lparr>waitAll = bWaitAll, satisfied = replicate n False, wcompleted = False, wresult = WAIT_TIMEOUT\<rparr>"

text \<open>The registration of the block with every object and the look at their initial states.\<close>

definition register_all :: "nat \<Rightarrow> (nat \<times> objptr) list \<Rightarrow> 'a SyncState_scheme \<Rightarrow> 'a SyncState_scheme" where
  "register_all ctx ips s = fold (\<lambda>(i, p) s. registerWaiter p ctx i s) ips s"

definition note_initial :: "nat \<Rightarrow> (nat \<times> objptr) list \<Rightarrow> 'a SyncState_scheme \<Rightarrow> 'a SyncState_scheme" where
  "note_initial ctx ips s =
     fold (\<lambda>(i, p) s. if signaled (syncs s p) then handleSignal ctx p i (is_abandoned (syncs s p)) False s else s)
       ips s"

definition enter_wait :: "nat \<Rightarrow> bool \<Rightarrow> objptr list \<Rightarrow> 'a SyncState_scheme \<Rightarrow> 'a SyncState_scheme" where
  "enter_wait ctx bWaitAll ps s =
     (let ips = enumerate 0 ps in
      note_initial ctx ips (register_all ctx ips
        (s\<lparr>blocks := (blocks s)(ctx := new_block bWaitAll (length ps))\<rparr>)))"

definition consume :: "u32 \<Rightarrow> HANDLE list \<Rightarrow> nat \<Rightarrow> 'a SyncState_scheme \<Rightarrow> 'a SyncState_scheme" where
  "consume self hs i s = (if i < length hs then snd (WaitForSingleObject self (hs ! i) 0 False s) else s)"

definition consume_result :: "u32 \<Rightarrow> HANDLE list \<Rightarrow> bool \<Rightarrow> u32 \<Rightarrow> 'a SyncState_scheme \<Rightarrow> 'a SyncState_scheme" where
  "consume_result self hs bWaitAll w s =
     (let n = length hs; k = unat w in
      if bWaitAll then
        if w = WAIT_OBJECT_0 then fold (consume self hs) [0..<n] s
        else if 0x80 \<le> k \<and> k < 0x80 + n then consume self hs (k - 0x80) s else s
      else if k < n then consume self hs k s
      else if 0x80 \<le> k \<and> k < 0x80 + n then consume self hs (k - 0x80) s else s)"

text \<open>The part of \<^verbatim>\<open>WaitForMultipleObjects\<close> after the block is completed or the time is over.\<close>

definition leave_wait :: "u32 \<Rightarrow> nat \<Rightarrow> HANDLE list \<Rightarrow> objptr list \<Rightarrow> bool \<Rightarrow> u32 \<Rightarrow> bool
    \<Rightarrow> 'a SyncState_scheme \<Rightarrow> u32 option \<times> 'a SyncState_scheme" where
  "leave_wait self ctx hs ps bWaitAll dwMilliseconds expired s =
     (let r = (if wcompleted (blocks s ctx) then Some (wresult (blocks s ctx))
               else if time_over dwMilliseconds expired then Some WAIT_TIMEOUT else None)
      in case r of
           None \<Rightarrow> (None, s)
         | Some w \<Rightarrow>
             (let s4 = fold (\<lambda>p s. unregisterWaiter p ctx s) ps s;
                  s5 = (if w = WAIT_TIMEOUT \<or> w = WAIT_FAILED then s4
                        else consume_result self hs bWaitAll w s4)
              in (Some w, fold unpin ps s5)))"

text \<open>
  \<^verbatim>\<open>WaitForMultipleObjects\<close>: \<open>ctx\<close> is the address of its wait block, \<open>others\<close> what the other
  threads do while it blocks.
\<close>

definition WaitForMultipleObjects :: "u32 \<Rightarrow> nat \<Rightarrow> HANDLE list \<Rightarrow> bool \<Rightarrow> u32 \<Rightarrow> bool
    \<Rightarrow> ('a SyncState_scheme \<Rightarrow> 'a SyncState_scheme) \<Rightarrow> 'a SyncState_scheme
    \<Rightarrow> u32 option \<times> 'a SyncState_scheme" where
  "WaitForMultipleObjects self ctx hs bWaitAll dwMilliseconds expired others s =
     (if hs = [] \<or> length hs > MAXIMUM_WAIT_OBJECTS then (Some WAIT_FAILED, setLastError ERROR_INVALID_PARAMETER s)
      else case resolve_all hs s of
        (None, s1) \<Rightarrow> (Some WAIT_FAILED, setLastError ERROR_INVALID_HANDLE s1)
      | (Some ps, s1) \<Rightarrow>
          (let s2 = enter_wait ctx bWaitAll ps s1;
               s3 = (if wcompleted (blocks s2 ctx) \<or> dwMilliseconds = 0 then s2 else others s2)
           in leave_wait self ctx hs ps bWaitAll dwMilliseconds expired s3))"

text \<open>The end of a thread (\<^verbatim>\<open>threadCleanup\<close>): its object is signaled and its waiters are notified.\<close>

definition threadCleanup :: "objptr \<Rightarrow> 'a SyncState_scheme \<Rightarrow> 'a SyncState_scheme" where
  "threadCleanup p s = unpin p (notifyWaiters p False (upd_sync p ((syncs s p)\<lparr>signaled := True\<rparr>) s))"

section \<open>What no call changes\<close>

text \<open>The table and namespace operations leave the bodies and the wait blocks alone.\<close>

definition same_sync :: "'a SyncState_scheme \<Rightarrow> 'a SyncState_scheme \<Rightarrow> bool" where
  "same_sync s s' \<longleftrightarrow> syncs s' = syncs s \<and> blocks s' = blocks s"

lemma same_sync_refl [simp]: "same_sync s s" by (simp add: same_sync_def)

lemma same_sync_trans: "same_sync s t \<Longrightarrow> same_sync t u \<Longrightarrow> same_sync s u" by (simp add: same_sync_def)

lemma same_sync_objects [simp]: "same_sync s (s\<lparr>objects := os\<rparr>)" by (simp add: same_sync_def)

lemma same_sync_error [simp]: "same_sync s (setLastError e s)" by (simp add: same_sync_def setLastError_def)

lemma same_sync_get: "get h s = (r, s') \<Longrightarrow> same_sync s s'"
  by (auto simp: get_def same_sync_def split: if_splits option.splits)

lemma same_sync_getAs: "getAs T h s = (r, s') \<Longrightarrow> same_sync s s'"
  by (auto simp: getAs_def same_sync_def dest!: same_sync_get split: prod.splits option.splits if_splits)

lemma same_sync_alloc: "alloc p a f s = (h, s') \<Longrightarrow> same_sync s s'"
  by (auto simp: alloc_def same_sync_def Let_def split: prod.splits if_splits)

lemma same_sync_ns_get: "ns_get n s = (r, s') \<Longrightarrow> same_sync s s'"
  by (auto simp: ns_get_def same_sync_def split: if_splits option.splits)

lemma same_sync_downcast: "downcast T p s = (r, s') \<Longrightarrow> same_sync s s'"
  by (auto simp: downcast_def same_sync_def split: if_splits)

lemma same_sync_ns_insert: "ns_insert n p b s = (r, s') \<Longrightarrow> same_sync s s'"
  by (auto simp: ns_insert_def same_sync_def split: if_splits option.splits)

lemma same_sync_getOrCreate: "getOrCreate n T f mk p s = (r, s') \<Longrightarrow> same_sync s s'"
  by (auto simp: getOrCreate_def ns_getAs_def same_sync_def Let_def
      dest!: same_sync_ns_get same_sync_downcast same_sync_ns_insert
      split: if_splits prod.splits option.splits bool.splits)

lemma same_sync_create: "create_named n T f mk p a hf s = (h, s') \<Longrightarrow> same_sync s s'"
  by (auto simp: create_named_def same_sync_def setLastError_def
      dest!: same_sync_getOrCreate same_sync_alloc split: prod.splits option.splits)

lemma syncs_create [simp]: "syncs (snd (create_named n T f mk p a hf s)) = syncs s"
  using same_sync_create [of n T f mk p a hf s] by (metis prod.collapse same_sync_def)

lemma same_sync_unpin [simp]: "same_sync s (unpin p s)" by (simp add: unpin_def)

lemma same_sync_getWaitable: "getWaitable h s = (r, s') \<Longrightarrow> same_sync s s'"
  by (auto simp: getWaitable_def unpin_def same_sync_def dest!: same_sync_get split: prod.splits option.splits if_splits)

lemma same_sync_resolve: "resolve_all hs s = (r, s') \<Longrightarrow> same_sync s s'"
proof (induction hs arbitrary: s r s')
  case (Cons h hs)
  then show ?case
    by (auto simp: same_sync_def unpin_def dest!: same_sync_getWaitable split: prod.splits option.splits)
qed simp


text \<open>Notification changes the registrations and the wait blocks, never the state of an object.\<close>

definition same_objects :: "'a SyncState_scheme \<Rightarrow> 'a SyncState_scheme \<Rightarrow> bool" where
  "same_objects s s' \<longleftrightarrow> (\<forall>p. signaled (syncs s' p) = signaled (syncs s p) \<and> body (syncs s' p) = body (syncs s p))"

lemma same_objects_refl [simp]: "same_objects s s" by (simp add: same_objects_def)

lemma same_objects_trans: "same_objects s t \<Longrightarrow> same_objects t u \<Longrightarrow> same_objects s u"
  by (simp add: same_objects_def)

lemma same_sync_objects_imp: "same_sync s t \<Longrightarrow> same_objects s t"
  by (simp add: same_sync_def same_objects_def)

lemma same_objects_unregister [simp]: "same_objects s (unregisterWaiter p c s)"
  by (simp add: same_objects_def unregisterWaiter_def upd_sync_def)

lemma same_objects_register [simp]: "same_objects s (registerWaiter p c i s)"
  by (simp add: same_objects_def registerWaiter_def upd_sync_def)

lemma same_objects_handleSignal [simp]: "same_objects s (handleSignal c p i a w s)"
  by (simp add: handleSignal_def Let_def same_objects_def unregisterWaiter_def upd_sync_def)

lemma same_objects_fold: "(\<And>x s. same_objects s (f x s)) \<Longrightarrow> same_objects s (fold f xs s)"
proof (induction xs arbitrary: s)
  case (Cons x xs)
  from Cons.IH [OF Cons.prems, of "f x s"] Cons.prems [of s x] show ?case
    using same_objects_trans by fastforce
qed simp

lemma same_objects_notify [simp]: "same_objects s (notifyWaiters p a s)"
  unfolding notifyWaiters_def by (rule same_objects_fold) simp

section \<open>Invariant of the objects\<close>

text \<open>
  A semaphore's count stays between 0 and its maximum, which fits a \<open>LONG\<close>, and it is only
  marked signaled when the count is positive; a mutex is signaled exactly when it has no owner,
  and never abandoned.
\<close>

fun body_ok :: "bool \<Rightarrow> SyncBody \<Rightarrow> bool" where
  "body_ok sg (SemaphoreBody sem) \<longleftrightarrow> 0 \<le> scount sem \<and> scount sem \<le> maxCount sem \<and> maxCount sem < 2 ^ 31 \<and>
     (sg \<longrightarrow> 0 < scount sem)"
| "body_ok sg (MutexBody mu) \<longleftrightarrow> (sg \<longleftrightarrow> \<not> ownerValid mu) \<and> \<not> abandoned mu \<and>
     (\<not> ownerValid mu \<longrightarrow> recursionCount mu = 0)"
| "body_ok sg _ \<longleftrightarrow> True"

definition sync_ok :: "'a SyncState_scheme \<Rightarrow> bool" where
  "sync_ok s \<longleftrightarrow> (\<forall>p. body_ok (signaled (syncs s p)) (body (syncs s p)))"

lemma sync_ok_same: "same_objects s s' \<Longrightarrow> sync_ok s \<Longrightarrow> sync_ok s'"
  by (simp add: sync_ok_def same_objects_def)

lemma sync_ok_upd: "sync_ok s \<Longrightarrow> body_ok (signaled ob) (body ob) \<Longrightarrow> sync_ok (upd_sync p ob s)"
  by (simp add: sync_ok_def upd_sync_def)

lemma sync_ok_same_sync: "same_sync s s' \<Longrightarrow> sync_ok s \<Longrightarrow> sync_ok s'"
  using sync_ok_same same_sync_objects_imp by blast

lemma sync_ok_unpin [simp]: "sync_ok (unpin p s) = sync_ok s"
  by (simp add: sync_ok_def unpin_def)

lemma sync_ok_error [simp]: "sync_ok (setLastError e s) = sync_ok s"
  by (simp add: sync_ok_def setLastError_def)

lemma sync_ok_notify: "sync_ok s \<Longrightarrow> sync_ok (notifyWaiters p a s)"
  using sync_ok_same same_objects_notify by blast

lemma new_objects_ok:
  "body_ok (signaled (new_mutex b t)) (body (new_mutex b t))"
  "body_ok (signaled (new_event m st)) (body (new_event m st))"
  "semaphore_args_ok i x \<Longrightarrow> x < 2 ^ 31 \<Longrightarrow> body_ok (signaled (new_semaphore i x)) (body (new_semaphore i x))"
  by (auto simp: new_mutex_def new_event_def new_semaphore_def semaphore_args_ok_def)

lemma mutex_release_ok:
  "mutex_release self ob = Inr (ob', n) \<Longrightarrow> body_ok (signaled ob) (body ob) \<Longrightarrow> body_ok (signaled ob') (body ob')"
  by (auto simp: mutex_release_def Let_def split: SyncBody.splits if_splits)

lemma semaphore_release_ok:
  "semaphore_release k ob = Inr (ob', n) \<Longrightarrow> 0 \<le> k \<Longrightarrow> body_ok (signaled ob) (body ob) \<Longrightarrow>
   body_ok (signaled ob') (body ob')"
  by (auto simp: semaphore_release_def Let_def split: SyncBody.splits if_splits)

lemma wait_object_ok:
  "wait_object self ob = Returned r ob' \<Longrightarrow> body_ok (signaled ob) (body ob) \<Longrightarrow> body_ok (signaled ob') (body ob')"
  by (auto simp: wait_object_def Let_def split: SyncBody.splits if_splits)

subsection \<open>Types of objects\<close>

text \<open>No operation changes the type of a live object; only the factory of a creation call adds one.\<close>

definition retypes :: "store \<Rightarrow> store \<Rightarrow> bool" where
  "retypes os os' \<longleftrightarrow> (\<forall>q ob'. os' q = Some ob' \<longrightarrow> (\<exists>ob. os q = Some ob \<and> otype ob = otype ob'))"

lemma retypesD: "retypes os os' \<Longrightarrow> os' q = Some ob' \<Longrightarrow> \<exists>ob. os q = Some ob \<and> otype ob = otype ob'"
  by (simp add: retypes_def)

lemma retypes_refl [simp]: "retypes os os" by (simp add: retypes_def)

lemma retypes_trans: "retypes a b \<Longrightarrow> retypes b c \<Longrightarrow> retypes a c"
  unfolding retypes_def by metis

lemma retypes_ref [simp]: "retypes os (ref p os)"
  by (auto simp: retypes_def ref_def split: option.splits)

lemma retypes_deref [simp]: "retypes os (deref p os)"
  by (auto simp: retypes_def deref_def split: option.splits if_splits)

lemma retypes_get: "get h s = (r, s') \<Longrightarrow> retypes (objects s) (objects s')"
  by (auto simp: get_def split: if_splits option.splits)

lemma retypes_getAs: "getAs T h s = (r, s') \<Longrightarrow> retypes (objects s) (objects s')"
  by (auto simp: getAs_def dest!: retypes_get split: prod.splits option.splits if_splits
      intro: retypes_trans [OF _ retypes_deref])

lemma retypes_alloc: "alloc p a f s = (h, s') \<Longrightarrow> retypes (objects s) (objects s')"
  by (auto simp: alloc_def Let_def retypes_def split: prod.splits if_splits option.splits)

lemma retypes_ns_get: "ns_get n s = (r, s') \<Longrightarrow> retypes (objects s) (objects s')"
  by (auto simp: ns_get_def split: if_splits option.splits)

lemma retypes_downcast: "downcast T p s = (r, s') \<Longrightarrow> retypes (objects s) (objects s')"
  by (auto simp: downcast_def split: if_splits)

lemma getOrCreate_types:
  assumes "getOrCreate n T f mk p s = (r, s')"
  shows "retypes (if creates n s \<and> mk then (objects s)(p \<mapsto> new_object T f) else objects s) (objects s')"
proof (cases "creates n s")
  case False
  then obtain e where n: "n \<noteq> []" "map_of (mTable s) n = Some e" by (auto simp: creates_def)
  then have "ns_get n s = (Some (ns_obj e), s\<lparr>objects := ref (ns_obj e) (objects s)\<rparr>)" by (simp add: ns_get_def)
  with assms n have "retypes (objects (s\<lparr>objects := ref (ns_obj e) (objects s)\<rparr>)) (objects s')"
    by (auto simp: getOrCreate_def Let_def dest: retypes_downcast split: prod.splits)
  then have "retypes (ref (ns_obj e) (objects s)) (objects s')" by simp
  from retypes_trans [OF retypes_ref this] False show ?thesis by simp
next
  case True
  have m: "retypes ((objects s)(p \<mapsto> new_object T f)) (make_pin p T f (objects s))"
    by (simp add: make_pin_def)
  show ?thesis
  proof (cases "n = []")
    case True
    with assms m show ?thesis
      by (auto simp: getOrCreate_def Let_def creates_def split: if_splits)
  next
    case False
    with True have "ns_get n s = (None, s)" by (simp add: ns_get_def creates_def)
    with assms False True m show ?thesis
      by (auto simp: getOrCreate_def Let_def ns_insert_def creates_def split: if_splits)
  qed
qed

lemma create_named_types:
  assumes "create_named n T f mk p a hf s = (h, s')"
  shows "retypes (if creates n s \<and> mk then (objects s)(p \<mapsto> new_object T f) else objects s) (objects s')"
proof -
  obtain r s1 where g: "getOrCreate n T f mk p s = (r, s1)" by fastforce
  from assms g have k: "retypes (objects s1) (objects s')"
    by (auto simp: create_named_def setLastError_def split: option.splits prod.splits dest!: retypes_alloc)
  show ?thesis by (rule retypes_trans [OF getOrCreate_types [OF g] k])
qed

text \<open>An event object has an event's body, a thread object neither a mutex's nor a semaphore's.\<close>

fun fits :: "ObjectType \<Rightarrow> SyncBody \<Rightarrow> bool" where
  "fits Event b = (case b of EventBody _ \<Rightarrow> True | _ \<Rightarrow> False)"
| "fits Thread b = (case b of MutexBody _ \<Rightarrow> False | SemaphoreBody _ \<Rightarrow> False | _ \<Rightarrow> True)"
| "fits _ b = True"

definition sync_inv :: "'a SyncState_scheme \<Rightarrow> bool" where
  "sync_inv s \<longleftrightarrow> sync_ok s \<and> (\<forall>p ob. objects s p = Some ob \<longrightarrow> fits (otype ob) (body (syncs s p)))"

lemma sync_inv_same:
  assumes "sync_inv s" "same_objects s s'" "retypes (objects s) (objects s')"
  shows "sync_inv s'"
  using assms(1) sync_ok_same [OF assms(2)] assms(2,3)
  unfolding sync_inv_def retypes_def same_objects_def by metis

lemma sync_inv_upd:
  assumes "sync_inv s" "body_ok (signaled ob) (body ob)"
    and "\<And>T. fits T (body (syncs s p)) \<Longrightarrow> fits T (body ob)"
  shows "sync_inv (upd_sync p ob s)"
  using assms unfolding sync_inv_def by (auto simp: sync_ok_upd upd_sync_def) (simp add: sync_ok_def)

lemma sync_inv_unpin [simp]: "sync_inv s \<Longrightarrow> sync_inv (unpin p s)"
  by (rule sync_inv_same [where s = s]) (simp_all add: unpin_def same_objects_def)

lemma sync_inv_error [simp]: "sync_inv (setLastError e s) = sync_inv s"
  by (simp add: sync_inv_def sync_ok_def setLastError_def)

lemma notify_objects: "objects (notifyWaiters p a s) = objects s"
proof -
  have "objects (fold (\<lambda>w s. handleSignal (wcontext w) p (windex w) a True s) ws s) = objects s" for ws
    by (induction ws arbitrary: s)
      (simp_all add: handleSignal_def Let_def unregisterWaiter_def upd_sync_def)
  then show ?thesis by (simp add: notifyWaiters_def)
qed

lemma sync_inv_notify: "sync_inv s \<Longrightarrow> sync_inv (notifyWaiters p a s)"
  by (rule sync_inv_same [where s = s]) (simp_all add: notify_objects)

lemma sync_inv_get: "get h s = (r, s') \<Longrightarrow> sync_inv s \<Longrightarrow> sync_inv s'"
  using sync_inv_same same_sync_objects_imp same_sync_get retypes_get by blast

lemma sync_inv_getAs: "getAs T h s = (r, s') \<Longrightarrow> sync_inv s \<Longrightarrow> sync_inv s'"
  using sync_inv_same same_sync_objects_imp same_sync_getAs retypes_getAs by blast

lemma sync_inv_create:
  assumes inv: "sync_inv s" and p: "objects s p = None"
    and ob: "body_ok (signaled ob) (body ob)" "fits T (body ob)"
  shows "sync_inv (snd (create_named n T f mk p a hf (if creates n s \<and> mk then upd_sync p ob s else s)))"
proof -
  let ?s = "if creates n s \<and> mk then upd_sync p ob s else s"
  obtain h s' where c: "create_named n T f mk p a hf ?s = (h, s')" by fastforce
  have cr: "creates n ?s = creates n s" by (simp add: creates_def upd_sync_def)
  note t = create_named_types [OF c, unfolded cr] and sy = same_sync_create [OF c]
  show ?thesis
  proof (cases "creates n s \<and> mk")
    case True
    with t have r: "retypes ((objects s)(p \<mapsto> new_object T f)) (objects s')" by (simp add: upd_sync_def)
    from True sy have b: "syncs s' = (syncs s)(p := ob)" by (simp add: same_sync_def upd_sync_def)
    have "sync_ok s'" using inv ob b by (auto simp: sync_inv_def sync_ok_def)
    moreover have "fits (otype o') (body (syncs s' q))" if "objects s' q = Some o'" for q o'
    proof -
      from retypesD [OF r that] obtain o'' where o: "((objects s)(p \<mapsto> new_object T f)) q = Some o''"
        "otype o'' = otype o'" by blast
      show ?thesis
      proof (cases "q = p")
        case True
        with o have "otype o' = T" by (auto simp: new_object_def)
        with True ob(2) b show ?thesis by simp
      next
        case False
        with o(1) have "objects s q = Some o''" by simp
        with inv have "fits (otype o'') (body (syncs s q))" unfolding sync_inv_def by blast
        with o(2) b False show ?thesis by simp
      qed
    qed
    ultimately show ?thesis using c by (simp add: sync_inv_def)
  next
    case False
    with t sy c show ?thesis using sync_inv_same [OF inv same_sync_objects_imp] by auto
  qed
qed


lemma sync_invD: "sync_inv s \<Longrightarrow> body_ok (signaled (syncs s p)) (body (syncs s p))"
  by (simp add: sync_inv_def sync_ok_def)

lemma Create_inv [inv_intros]:
  assumes "sync_inv s" "objects s p = None"
  shows "sync_inv (snd (CreateMutexW self p bi bo n s))" "sync_inv (snd (CreateEventW p bi m i n s))"
    "mx < 2 ^ 31 \<Longrightarrow> sync_inv (snd (CreateSemaphoreW p bi ic mx n s))"
proof -
  have "fits Mutex b" "fits Semaphore b" for b by simp_all
  then show "sync_inv (snd (CreateMutexW self p bi bo n s))"
    using sync_inv_create [OF assms new_objects_ok(1), of Mutex _ _ n _ True] by (simp add: CreateMutexW_def)
  show "sync_inv (snd (CreateEventW p bi m i n s))"
    using sync_inv_create [OF assms new_objects_ok(2), of Event _ _ n _ True]
    by (simp add: CreateEventW_def new_event_def)
  assume mx: "mx < 2 ^ 31"
  show "sync_inv (snd (CreateSemaphoreW p bi ic mx n s))"
  proof (cases "semaphore_args_ok ic mx")
    case True
    from sync_inv_create [OF assms new_objects_ok(3) [OF True mx], of Semaphore n _ True] True show ?thesis
      by (simp add: CreateSemaphoreW_def Let_def)
  next
    case False
    from sync_inv_create [OF assms new_objects_ok(1) [of False 0], of Semaphore n _ False] False show ?thesis
      by (simp add: CreateSemaphoreW_def Let_def)
  qed
qed

lemma fits_release:
  "mutex_release self ob = Inr (ob', n) \<Longrightarrow> fits T (body ob) \<Longrightarrow> fits T (body ob')"
  by (cases T) (auto simp: mutex_release_def Let_def split: SyncBody.splits if_splits)

lemma fits_post:
  "semaphore_release k ob = Inr (ob', n) \<Longrightarrow> fits T (body ob) \<Longrightarrow> fits T (body ob')"
  by (cases T) (auto simp: semaphore_release_def Let_def split: SyncBody.splits if_splits)

lemma fits_wait:
  "wait_object self ob = Returned r ob' \<Longrightarrow> fits T (body ob) \<Longrightarrow> fits T (body ob')"
  by (cases T) (auto simp: wait_object_def Let_def split: SyncBody.splits if_splits)

lemma ReleaseMutex_inv [inv_intros]: "sync_inv s \<Longrightarrow> sync_inv (snd (ReleaseMutex self h s))"
  by (auto simp: ReleaseMutex_def Let_def split: prod.splits option.splits sum.splits
      intro!: sync_inv_unpin sync_inv_notify sync_inv_upd
      dest: sync_inv_getAs fits_release mutex_release_ok intro: sync_invD)


lemma ReleaseSemaphore_inv [inv_intros]: "sync_inv s \<Longrightarrow> sync_inv (snd (ReleaseSemaphore h k s))"
proof -
  assume inv: "sync_inv s"
  show ?thesis
  proof (cases "k < 0")
    case False
    obtain r s1 where g: "getAs Semaphore h s = (r, s1)" by fastforce
    from sync_inv_getAs [OF g inv] have i1: "sync_inv s1" .
    show ?thesis
    proof (cases r)
      case None
      with g False i1 show ?thesis by (simp add: ReleaseSemaphore_def)
    next
      case (Some pm)
      obtain p m where pm: "pm = (p, m)" by fastforce
      show ?thesis
      proof (cases "semaphore_release k (syncs s1 p)")
        case (Inl e)
        with g Some pm False i1 show ?thesis by (simp add: ReleaseSemaphore_def)
      next
        case (Inr oc)
        obtain ob c where oc: "oc = (ob, c)" by fastforce
        from Inr oc have rel: "semaphore_release k (syncs s1 p) = Inr (ob, c)" by simp
        have "sync_inv (upd_sync p ob s1)"
        proof (rule sync_inv_upd [OF i1])
          show "body_ok (signaled ob) (body ob)"
            using semaphore_release_ok [OF rel _ sync_invD [OF i1]] False by simp
        qed (rule fits_post [OF rel])
        with g Some pm Inr oc False show ?thesis
          by (auto simp: ReleaseSemaphore_def Let_def intro!: sync_inv_unpin sync_inv_notify)
      qed
    qed
  qed (simp add: ReleaseSemaphore_def inv)
qed

lemma getAs_type:
  assumes "getAs T h s = (Some (p, m), s1)"
  shows "\<exists>ob. objects s1 p = Some ob \<and> otype ob = T"
  using assms by (auto simp: getAs_def split: prod.splits option.splits if_splits)

lemma sync_inv_signal_event:
  assumes inv: "sync_inv s" and g: "getAs Event h s = (Some (p, m), s1)"
  shows "sync_inv (upd_sync p ((syncs s1 p)\<lparr>signaled := b\<rparr>) s1)"
proof -
  note i1 = sync_inv_getAs [OF g inv]
  from getAs_type [OF g] i1 have "fits Event (body (syncs s1 p))" unfolding sync_inv_def by metis
  then obtain mr where "body (syncs s1 p) = EventBody mr" by (cases "body (syncs s1 p)") auto
  then show ?thesis by (intro sync_inv_upd [OF i1]) auto
qed

lemma SetEvent_inv [inv_intros]: "sync_inv s \<Longrightarrow> sync_inv (snd (SetEvent h s))"
  by (auto simp: SetEvent_def split: prod.splits option.splits
      intro!: sync_inv_unpin sync_inv_notify sync_inv_signal_event dest: sync_inv_getAs)

lemma ResetEvent_inv [inv_intros]: "sync_inv s \<Longrightarrow> sync_inv (snd (ResetEvent h s))"
  by (auto simp: ResetEvent_def split: prod.splits option.splits
      intro!: sync_inv_unpin sync_inv_signal_event dest: sync_inv_getAs)

lemma WaitForSingleObject_inv [inv_intros]:
  "sync_inv s \<Longrightarrow> sync_inv (snd (WaitForSingleObject self h ms ex s))"
  by (auto simp: WaitForSingleObject_def split: prod.splits option.splits wait_outcome.splits
      intro!: sync_inv_unpin sync_inv_upd dest: sync_inv_get fits_wait wait_object_ok intro: sync_invD)

lemma threadCleanup_inv [inv_intros]:
  assumes inv: "sync_inv s" and p: "objects s p = Some ob" "otype ob = Thread"
  shows "sync_inv (threadCleanup p s)"
proof -
  from inv p have "fits Thread (body (syncs s p))" unfolding sync_inv_def by metis
  then have "body_ok True (body (syncs s p))" by (cases "body (syncs s p)") auto
  then show ?thesis unfolding threadCleanup_def
    by (intro sync_inv_unpin sync_inv_notify sync_inv_upd [OF inv]) auto
qed

text \<open>The pieces of a wait on several objects.\<close>

lemma sync_inv_fold: "(\<And>x s. sync_inv s \<Longrightarrow> sync_inv (f x s)) \<Longrightarrow> sync_inv s \<Longrightarrow> sync_inv (fold f xs s)"
  by (induction xs arbitrary: s) auto

lemma sync_inv_waiters:
  assumes "sync_inv s"
  shows "sync_inv (registerWaiter p c i s)" "sync_inv (unregisterWaiter p c s)"
    "sync_inv (handleSignal c p i a w s)" "sync_inv (s\<lparr>blocks := bs\<rparr>)"
proof -
  have o: "objects (unregisterWaiter p c u) = objects u" for u
    by (simp add: unregisterWaiter_def upd_sync_def)
  show "sync_inv (registerWaiter p c i s)"
    by (rule sync_inv_same [OF assms]) (simp_all add: registerWaiter_def upd_sync_def same_objects_def)
  show "sync_inv (unregisterWaiter p c s)" by (rule sync_inv_same [OF assms]) (simp_all add: o)
  show "sync_inv (s\<lparr>blocks := bs\<rparr>)" by (rule sync_inv_same [OF assms]) (simp_all add: same_objects_def)
  show "sync_inv (handleSignal c p i a w s)"
  proof (rule sync_inv_same [OF assms])
    show "retypes (objects s) (objects (handleSignal c p i a w s))" by (simp add: handleSignal_def Let_def o)
  qed simp
qed

lemma enter_wait_inv [inv_intros]: "sync_inv s \<Longrightarrow> sync_inv (enter_wait c wa ps s)"
  unfolding enter_wait_def Let_def note_initial_def register_all_def
  by (intro sync_inv_fold sync_inv_waiters(4)) (auto intro: sync_inv_waiters)

lemma consume_result_inv: "sync_inv s \<Longrightarrow> sync_inv (consume_result self hs wa w s)"
  unfolding consume_result_def Let_def consume_def
  by (auto intro!: sync_inv_fold WaitForSingleObject_inv)

lemma leave_wait_inv [inv_intros]:
  "sync_inv s \<Longrightarrow> sync_inv (snd (leave_wait self c hs ps wa ms ex s))"
  unfolding leave_wait_def Let_def
  by (auto split: option.splits intro!: sync_inv_fold sync_inv_unpin consume_result_inv sync_inv_waiters(2))

lemma resolve_all_inv: "resolve_all hs s = (r, s') \<Longrightarrow> sync_inv s \<Longrightarrow> sync_inv s'"
proof (induction hs arbitrary: s r s')
  case (Cons h hs)
  have g: "sync_inv s1" if "getWaitable h s = (q, s1)" for q s1
    using that Cons.prems(2)
    by (auto simp: getWaitable_def dest: sync_inv_get split: prod.splits option.splits if_splits)
  from Cons.prems Cons.IH g show ?case
    by (auto split: prod.splits option.splits)
qed simp

lemma CloseHandle_inv [inv_intros]: "sync_inv s \<Longrightarrow> sync_inv (snd (CloseHandle h s))"
proof -
  assume inv: "sync_inv s"
  have "same_objects s (snd (CloseHandle h s))"
    by (auto simp: CloseHandle_def release_def on_handle_zero_def ns_remove_def setLastError_def same_objects_def Let_def
        split: prod.splits option.splits bool.splits if_splits)
  moreover have "retypes (objects s) (objects (snd (CloseHandle h s)))"
    by (auto simp: CloseHandle_def release_def on_handle_zero_def ns_remove_def setLastError_def Let_def
        split: prod.splits option.splits bool.splits if_splits
        intro!: retypes_trans [OF _ retypes_deref]) (auto simp: retypes_def)
  ultimately show ?thesis using sync_inv_same [OF inv] by blast
qed

section \<open>The system\<close>

text \<open>
  The calls of the threads, in any order. A wait on several objects is two steps, so that others
  run between them; the allocator returns addresses of no live object.
\<close>

inductive sync_step :: "SyncState \<Rightarrow> SyncState \<Rightarrow> bool" where
  create_mutex: "objects s p = None \<Longrightarrow> sync_step s (snd (CreateMutexW self p bi bo n s))"
| create_event: "objects s p = None \<Longrightarrow> sync_step s (snd (CreateEventW p bi m i n s))"
| create_semaphore: "objects s p = None \<Longrightarrow> mx < 2 ^ 31 \<Longrightarrow> sync_step s (snd (CreateSemaphoreW p bi ic mx n s))"
| release_mutex: "sync_step s (snd (ReleaseMutex self h s))"
| release_semaphore: "sync_step s (snd (ReleaseSemaphore h k s))"
| set_event: "sync_step s (snd (SetEvent h s))"
| reset_event: "sync_step s (snd (ResetEvent h s))"
| wait_single: "sync_step s (snd (WaitForSingleObject self h ms ex s))"
| wait_enter: "resolve_all hs s = (Some ps, s1) \<Longrightarrow> sync_step s (enter_wait c wa ps s1)"
| wait_refused: "resolve_all hs s = (None, s1) \<Longrightarrow> sync_step s (setLastError e s1)"
| wait_leave: "sync_step s (snd (leave_wait self c hs ps wa ms ex s))"
| thread_end: "objects s p = Some ob \<Longrightarrow> otype ob = Thread \<Longrightarrow> sync_step s (threadCleanup p s)"
| close: "sync_step s (snd (CloseHandle h s))"

definition sync_start :: SyncState where
  "sync_start = \<lparr>objects = Map.empty, table = empty_table, mTable = [], lastError = 0,
     syncs = (\<lambda>_. \<lparr>signaled = False, waiters = [], body = OtherBody\<rparr>), blocks = (\<lambda>_. new_block False 0)\<rparr>"

definition sync_init :: "SyncState \<Rightarrow> bool" where "sync_init s \<longleftrightarrow> s = sync_start"

lemma sync_step_inv: "sync_inv s \<Longrightarrow> sync_step s s' \<Longrightarrow> sync_inv s'"
  by (erule sync_step.cases) (auto intro: inv_intros dest: resolve_all_inv)

interpretation sync_system: inductive_invariant sync_init sync_step sync_inv
proof
  show "sync_inv s" if "sync_init s" for s
    using that by (simp add: sync_init_def sync_start_def sync_inv_def sync_ok_def)
qed (rule sync_step_inv)

section \<open>The scan of the objects\<close>

text \<open>What the look at the initial states does to the block, as a function of the block alone.\<close>

definition scan :: "(objptr \<Rightarrow> bool) \<Rightarrow> (nat \<times> objptr) list \<Rightarrow> WaitBlock \<Rightarrow> WaitBlock" where
  "scan sg ips b = fold (\<lambda>(i, p) b. if sg p then block_signal i False b else b) ips b"

lemma block_signal_simps [simp]:
  "length (satisfied (block_signal i a b)) = length (satisfied b)"
  "waitAll (block_signal i a b) = waitAll b"
  by (simp_all add: block_signal_def Let_def)

lemma handleSignal_block:
  "i < length (satisfied (blocks s c)) \<Longrightarrow> blocks (handleSignal c p i a w s) c = block_signal i a (blocks s c)"
  by (simp add: handleSignal_def Let_def unregisterWaiter_def upd_sync_def)

lemma note_initial_scan:
  assumes "\<forall>(i, p) \<in> set ips. i < length (satisfied (blocks u c))" "same_objects s u" "sync_ok s"
  shows "blocks (note_initial c ips u) c = scan (\<lambda>p. signaled (syncs s p)) ips (blocks u c) \<and>
         same_objects s (note_initial c ips u)"
  using assms
proof (induction ips arbitrary: u)
  case Nil
  then show ?case by (simp add: note_initial_def scan_def)
next
  case (Cons ip ips)
  obtain i p where ip: "ip = (i, p)" by fastforce
  have ok: "\<not> is_abandoned (syncs u p)" "signaled (syncs u p) = signaled (syncs s p)"
  proof -
    from Cons.prems(2,3) have "body_ok (signaled (syncs u p)) (body (syncs u p))"
      by (simp add: same_objects_def sync_ok_def)
    then show "\<not> is_abandoned (syncs u p)" by (cases "body (syncs u p)") (auto simp: is_abandoned_def)
    from Cons.prems(2) show "signaled (syncs u p) = signaled (syncs s p)" by (simp add: same_objects_def)
  qed
  define v where "v = (if signaled (syncs u p) then handleSignal c p i (is_abandoned (syncs u p)) False u else u)"
  from Cons.prems(1) ip have i: "i < length (satisfied (blocks u c))" by simp
  have b: "blocks v c = (if signaled (syncs s p) then block_signal i False (blocks u c) else blocks u c)"
    using ok handleSignal_block [OF i] by (simp add: v_def)
  have so: "same_objects s v" unfolding v_def using Cons.prems(2) same_objects_trans by fastforce
  have "\<forall>(j, q) \<in> set ips. j < length (satisfied (blocks v c))" using Cons.prems(1) b by auto
  from Cons.IH [OF this so Cons.prems(3)] b ip show ?case
    by (simp add: note_initial_def scan_def v_def)
qed

lemma register_all_props:
  "blocks (register_all c ips s) = blocks s \<and> same_objects s (register_all c ips s)"
proof (induction ips arbitrary: s)
  case (Cons ip ips)
  obtain i p where ip: "ip = (i, p)" by fastforce
  have "blocks (registerWaiter p c i s) = blocks s" by (simp add: registerWaiter_def upd_sync_def)
  with Cons.IH [of "registerWaiter p c i s"] ip show ?case
    by (auto simp: register_all_def intro: same_objects_trans [OF same_objects_register])
qed (simp add: register_all_def)

lemma enter_wait_scan:
  assumes "sync_ok s"
  shows "blocks (enter_wait c wa ps s) c
           = scan (\<lambda>p. signaled (syncs s p)) (enumerate 0 ps) (new_block wa (length ps))"
    and "same_objects s (enter_wait c wa ps s)"
proof -
  let ?s = "s\<lparr>blocks := (blocks s)(c := new_block wa (length ps))\<rparr>"
  let ?u = "register_all c (enumerate 0 ps) ?s"
  have r: "blocks ?u = blocks ?s" "same_objects ?s ?u" using register_all_props by blast+
  have so: "same_objects s ?u" using r(2) by (simp add: same_objects_def)
  have "\<forall>(i, p) \<in> set (enumerate 0 ps). i < length (satisfied (blocks ?u c))"
    using r(1) by (auto simp: in_set_enumerate_eq new_block_def)
  from note_initial_scan [OF this so assms] r(1)
  show "blocks (enter_wait c wa ps s) c
           = scan (\<lambda>p. signaled (syncs s p)) (enumerate 0 ps) (new_block wa (length ps))"
    "same_objects s (enter_wait c wa ps s)"
    by (simp_all add: enter_wait_def Let_def)
qed



text \<open>Waiting for all of them: the block is completed exactly when every object was signaled.\<close>

definition all_ok :: "WaitBlock \<Rightarrow> bool" where
  "all_ok b \<longleftrightarrow> waitAll b \<and> (wcompleted b \<longleftrightarrow> list_all id (satisfied b)) \<and> (wcompleted b \<longrightarrow> wresult b = WAIT_OBJECT_0)"

lemma block_signal_all:
  assumes "all_ok b" "i < length (satisfied b)"
  shows "all_ok (block_signal i False b)"
    and "j < length (satisfied b) \<Longrightarrow> satisfied (block_signal i False b) ! j = (satisfied b ! j \<or> j = i)"
proof -
  show "all_ok (block_signal i False b)"
    using assms by (auto simp: all_ok_def block_signal_def Let_def)
  show "satisfied (block_signal i False b) ! j = (satisfied b ! j \<or> j = i)" if "j < length (satisfied b)"
  proof (cases "wcompleted b")
    case True
    with assms(1) that have "satisfied b ! j" by (auto simp: all_ok_def list_all_length)
    with True show ?thesis by (simp add: block_signal_def)
  next
    case False
    then show ?thesis using that assms
      by (auto simp: block_signal_def Let_def all_ok_def nth_list_update)
  qed
qed

lemma scan_all:
  assumes "all_ok b" "\<forall>(i, p) \<in> set ips. i < length (satisfied b)"
  shows "all_ok (scan sg ips b) \<and> length (satisfied (scan sg ips b)) = length (satisfied b) \<and>
         (\<forall>j < length (satisfied b). satisfied (scan sg ips b) ! j = (satisfied b ! j \<or> (\<exists>p. (j, p) \<in> set ips \<and> sg p)))"
  using assms
proof (induction ips arbitrary: b)
  case (Cons ip ips)
  obtain i p where ip: "ip = (i, p)" by fastforce
  define v where "v = (if sg p then block_signal i False b else b)"
  from Cons.prems ip have i: "i < length (satisfied b)" by simp
  have v: "all_ok v" "length (satisfied v) = length (satisfied b)"
    "\<And>j. j < length (satisfied b) \<Longrightarrow> satisfied v ! j = (satisfied b ! j \<or> j = i \<and> sg p)"
    using block_signal_all [OF Cons.prems(1) i] Cons.prems(1) by (auto simp: v_def)
  have "\<forall>(j, q) \<in> set ips. j < length (satisfied v)" using Cons.prems(2) v(2) by auto
  from Cons.IH [OF v(1) this] v ip show ?case by (auto simp: scan_def v_def)
qed (simp add: scan_def)

section \<open>Properties of the calls\<close>

text \<open>
  C9: in every state the calls of any threads can reach, a semaphore's count is between 0 and its
  maximum and fits a 32-bit \<open>LONG\<close>, a mutex is signaled exactly when it has no owner, a free
  mutex has recursion count 0, and no mutex is abandoned.
\<close>

theorem sync_objects_invariant:
  assumes "reach sync_init sync_step s"
  shows "(\<forall>sem. body (syncs s p) = SemaphoreBody sem \<longrightarrow>
            0 \<le> scount sem \<and> scount sem \<le> maxCount sem \<and> maxCount sem < 2 ^ 31) \<and>
         (\<forall>mu. body (syncs s p) = MutexBody mu \<longrightarrow>
            (signaled (syncs s p) \<longleftrightarrow> \<not> ownerValid mu) \<and> \<not> abandoned mu \<and>
            (\<not> ownerValid mu \<longrightarrow> recursionCount mu = 0))"
proof -
  from sync_system.reach_invar [OF assms] have "body_ok (signaled (syncs s p)) (body (syncs s p))"
    by (rule sync_invD)
  then show ?thesis by auto
qed

theorem sync_objects_invariant_witness:
  "\<exists>s sem. reach sync_init sync_step s \<and> body (syncs s 7) = SemaphoreBody sem \<and> scount sem \<le> maxCount sem"
proof -
  let ?s = "snd (CreateSemaphoreW 7 False 2 5 [] sync_start)"
  have o: "objects sync_start 7 = None" by (simp add: sync_start_def)
  have r0: "reach sync_init sync_step sync_start" by (rule reach_init) (simp add: sync_init_def)
  have r: "reach sync_init sync_step ?s"
    by (rule reach_step [OF r0], rule sync_step.create_semaphore [OF o]) simp
  have "syncs ?s 7 = new_semaphore 2 5"
    by (simp add: CreateSemaphoreW_def semaphore_args_ok_def creates_def upd_sync_def)
  then have b: "body (syncs ?s 7) = SemaphoreBody \<lparr>scount = 2, maxCount = 5\<rparr>" by (simp add: new_semaphore_def)
  with sync_objects_invariant [OF r, of 7] r show ?thesis by blast
qed

text \<open>
  \<^verbatim>\<open>ReleaseSemaphore\<close>: a negative count is refused; otherwise, on a semaphore handle, it fails
  with \<^verbatim>\<open>ERROR_TOO_MANY_POSTS\<close> and changes no object when the count would exceed the maximum, and
  else returns the old count and adds exactly the released count. The number of waits a
  semaphore then lets through without blocking is its count.
\<close>

fun admitted :: "nat \<Rightarrow> SyncObj \<Rightarrow> nat" where
  "admitted 0 ob = 0"
| "admitted (Suc n) ob = (case wait_object 0 ob of Returned r ob' \<Rightarrow> Suc (admitted n ob') | _ \<Rightarrow> 0)"

lemma semaphore_admits:
  "body ob = SemaphoreBody sem \<Longrightarrow> 0 \<le> scount sem \<Longrightarrow> admitted n ob = min n (nat (scount sem))"
proof (induction n arbitrary: ob sem)
  case (Suc n)
  show ?case
  proof (cases "scount sem > 0")
    case True
    let ?ob = "ob\<lparr>signaled := (if scount sem - 1 = 0 then False else signaled ob),
                 body := SemaphoreBody (sem\<lparr>scount := scount sem - 1\<rparr>)\<rparr>"
    have w: "wait_object 0 ob = Returned 0 ?ob"
      using Suc.prems True by (simp add: wait_object_def Let_def)
    have "admitted n ?ob = min n (nat (scount sem - 1))"
      using Suc.IH [of ?ob "sem\<lparr>scount := scount sem - 1\<rparr>"] True by simp
    with w True show ?thesis by simp
  next
    case False
    with Suc.prems show ?thesis by (simp add: wait_object_def)
  qed
qed simp

theorem ReleaseSemaphore_correct:
  assumes inv: "sync_inv s" and g: "getAs Semaphore h s = (Some (p, m), s1)"
    and b: "body (syncs s p) = SemaphoreBody sem" and r: "ReleaseSemaphore h k s = (res, s')"
  shows "if k < 0 then res = None \<and> lastError s' = ERROR_INVALID_PARAMETER
         else if scount sem + k > maxCount sem
         then res = None \<and> lastError s' = ERROR_TOO_MANY_POSTS \<and> same_objects s s'
         else res = Some (scount sem) \<and>
              body (syncs s' p) = SemaphoreBody (sem\<lparr>scount := scount sem + k\<rparr>) \<and>
              signaled (syncs s' p) = (0 < scount sem + k) \<and>
              (\<forall>n. admitted n (syncs s' p) = min n (nat (scount sem + k)))"
proof (cases "k < 0")
  case True
  with r show ?thesis by (auto simp: ReleaseSemaphore_def setLastError_def)
next
  case False
  from same_sync_getAs [OF g] have sy: "syncs s1 = syncs s" by (simp add: same_sync_def)
  have sem: "0 \<le> scount sem" using sync_invD [OF inv, of p] b by simp
  show ?thesis
  proof (cases "scount sem + k > maxCount sem")
    case True
    with False g b sy r show ?thesis
      by (auto simp: ReleaseSemaphore_def semaphore_release_def setLastError_def unpin_def same_objects_def)
  next
    case nf: False
    let ?ob = "(syncs s p)\<lparr>signaled := 0 < scount sem + k, body := SemaphoreBody (sem\<lparr>scount := scount sem + k\<rparr>)\<rparr>"
    let ?s2 = "upd_sync p ?ob s1"
    have rel: "semaphore_release k (syncs s1 p) = Inr (?ob, scount sem)"
      using nf b sy by (simp add: semaphore_release_def Let_def)
    then have e: "res = Some (scount sem)"
      "s' = unpin p (if 0 < scount sem + k then notifyWaiters p False ?s2 else ?s2)"
      using False g r by (auto simp: ReleaseSemaphore_def Let_def)
    have "same_objects ?s2 s'" unfolding e(2)
      using same_objects_notify [of ?s2] by (auto simp: same_objects_def unpin_def)
    then have o: "signaled (syncs s' p) = (0 < scount sem + k)"
      "body (syncs s' p) = SemaphoreBody (sem\<lparr>scount := scount sem + k\<rparr>)"
      by (auto simp: same_objects_def upd_sync_def)
    have "admitted n (syncs s' p) = min n (nat (scount sem + k))" for n
      using semaphore_admits [OF o(2)] sem False by simp
    with e(1) o nf False show ?thesis by simp
  qed
qed

definition semaphore_demo :: "HANDLE \<times> SyncState" where
  "semaphore_demo = CreateSemaphoreW 7 False 1 5 [] sync_start"

lemma semaphore_demo_simps:
  "fst semaphore_demo = 4"
  "syncs (snd semaphore_demo) 7 = new_semaphore 1 5"
  "getAs Semaphore 4 (snd semaphore_demo) =
     (Some (7, \<lparr>grantedAccess = SEMAPHORE_ALL_ACCESS, mflags = 0, typeCache = Semaphore, generation = 1\<rparr>),
      (snd semaphore_demo)\<lparr>objects := ref 7 (objects (snd semaphore_demo))\<rparr>)"
  by (simp_all add: semaphore_demo_def CreateSemaphoreW_def semaphore_args_ok_def creates_def upd_sync_def
      create_named_def getOrCreate_def make_pin_def ref_def new_object_def alloc_def alloc_index_def sync_start_def
      empty_table_def makeHandle_def setLastError_def inherit_flags_def getAs_def get_def entry_of_def indexOf_def
      isPseudo_def NO_HANDLE_def empty_entry_def zero_meta_def kCompatMaxIndex_def Let_def)

lemma semaphore_demo_inv: "sync_inv (snd semaphore_demo)"
proof -
  have "sync_inv sync_start" by (simp add: sync_start_def sync_inv_def sync_ok_def)
  from Create_inv(3) [OF this, of 7 5] show ?thesis by (simp add: semaphore_demo_def sync_start_def)
qed

theorem ReleaseSemaphore_correct_witness:
  "fst (ReleaseSemaphore 4 3 (snd semaphore_demo)) = Some 1 \<and>
   fst (ReleaseSemaphore 4 5 (snd semaphore_demo)) = None"
proof -
  have b: "body (syncs (snd semaphore_demo) 7) = SemaphoreBody \<lparr>scount = 1, maxCount = 5\<rparr>"
    by (simp add: semaphore_demo_simps new_semaphore_def)
  note c = ReleaseSemaphore_correct [OF semaphore_demo_inv semaphore_demo_simps(3) b surjective_pairing]
  from c [of 3] c [of 5] show ?thesis by simp
qed

text \<open>
  A mutex counts its owner's waits: after a thread has waited \<open>k + 1\<close> times on a free mutex
  (fewer than \<open>2\<^sup>3\<^sup>2\<close> times), every wait having returned, no other thread's wait returns until the
  owner has released it \<open>k + 1\<close> times, other threads' releases fail, and then it is free again.
\<close>

fun mutex_waits :: "u32 \<Rightarrow> nat \<Rightarrow> SyncObj \<Rightarrow> SyncObj option" where
  "mutex_waits t 0 ob = Some ob"
| "mutex_waits t (Suc n) ob = (case wait_object t ob of Returned r ob' \<Rightarrow> mutex_waits t n ob' | _ \<Rightarrow> None)"

fun mutex_releases :: "u32 \<Rightarrow> nat \<Rightarrow> SyncObj \<Rightarrow> SyncObj option" where
  "mutex_releases t 0 ob = Some ob"
| "mutex_releases t (Suc n) ob = (case mutex_release t ob of Inr (ob', b) \<Rightarrow> mutex_releases t n ob' | _ \<Rightarrow> None)"

definition owned :: "u32 \<Rightarrow> u32 \<Rightarrow> SyncObj \<Rightarrow> SyncObj" where
  "owned t c ob = ob\<lparr>signaled := False,
     body := MutexBody \<lparr>ownerValid = True, owner = t, recursionCount = c, abandoned = False\<rparr>\<rparr>"

lemma owned_props [simp]:
  "owned t c (owned u d ob) = owned t c ob"
  "wait_object t (owned t c ob) = Returned 0 (owned t (c + 1) ob)"
  "u \<noteq> t \<Longrightarrow> wait_object u (owned t c ob) = Blocked"
  "u \<noteq> t \<Longrightarrow> mutex_release u (owned t c ob) = Inl ERROR_NOT_OWNER"
  "c \<noteq> 0 \<Longrightarrow> c \<noteq> 1 \<Longrightarrow> mutex_release t (owned t c ob) = Inr (owned t (c - 1) ob, False)"
  by (auto simp: owned_def wait_object_def mutex_release_def Let_def)

lemma mutex_waits_owned: "mutex_waits t n (owned t c ob) = Some (owned t (c + of_nat n) ob)"
  by (induction n arbitrary: c) (simp_all add: algebra_simps)

lemma mutex_releases_owned:
  "j < unat c \<Longrightarrow> mutex_releases t j (owned t c ob) = Some (owned t (c - of_nat j) ob)"
proof (induction j arbitrary: c)
  case (Suc j)
  then have c: "c \<noteq> 0" "c \<noteq> 1" by auto
  then have "j < unat (c - 1)" using Suc.prems by (simp add: unat_minus_one)
  from Suc.IH [OF this] c show ?case by (simp add: algebra_simps)
qed simp

lemma mutex_releases_add: "mutex_releases t (m + n) ob =
    (case mutex_releases t m ob of None \<Rightarrow> None | Some ob' \<Rightarrow> mutex_releases t n ob')"
  by (induction m arbitrary: ob) (auto split: sum.splits)

theorem mutex_recursion:
  assumes free: "body ob = MutexBody mu" "\<not> ownerValid mu" "\<not> abandoned mu" and k: "k + 1 < 2 ^ 32"
  shows "\<exists>ob'. mutex_waits t (k + 1) ob = Some ob' \<and>
      (\<forall>j \<le> k. \<exists>oj. mutex_releases t j ob' = Some oj \<and>
         (\<forall>u. u \<noteq> t \<longrightarrow> wait_object u oj = Blocked \<and> mutex_release u oj = Inl ERROR_NOT_OWNER)) \<and>
      (\<exists>fo mf. mutex_releases t (k + 1) ob' = Some fo \<and> signaled fo \<and> body fo = MutexBody mf \<and>
         \<not> ownerValid mf \<and> recursionCount mf = 0)"
proof (intro exI conjI allI impI)
  let ?n = "of_nat (k + 1) :: u32"
  have n: "unat ?n = k + 1" using k by (simp only: unat_of_nat) simp
  have first: "wait_object t ob = Returned 0 (owned t 1 ob)"
    using free by (simp add: wait_object_def owned_def)
  show "mutex_waits t (k + 1) ob = Some (owned t ?n ob)"
    using first mutex_waits_owned [of t k 1 ob] by (simp add: algebra_simps)
  fix j assume "j \<le> k"
  then have j: "j < unat ?n" using n by simp
  show "mutex_releases t j (owned t ?n ob) = Some (owned t (?n - of_nat j) ob)"
    by (rule mutex_releases_owned [OF j])
  show "wait_object u (owned t (?n - of_nat j) ob) = Blocked"
    "mutex_release u (owned t (?n - of_nat j) ob) = Inl ERROR_NOT_OWNER" if "u \<noteq> t" for u
    using that by simp_all
next
  let ?n = "of_nat (k + 1) :: u32"
  have n: "unat ?n = k + 1" using k by (simp only: unat_of_nat) simp
  have "mutex_releases t k (owned t ?n ob) = Some (owned t 1 ob)"
    using mutex_releases_owned [of k ?n t ob] n by simp
  then show "mutex_releases t (k + 1) (owned t ?n ob) = Some (ob\<lparr>signaled := True,
      body := MutexBody \<lparr>ownerValid = False, owner = t, recursionCount = 0, abandoned = False\<rparr>\<rparr>)"
    by (subst mutex_releases_add) (simp add: owned_def mutex_release_def)
  show "\<not> ownerValid \<lparr>ownerValid = False, owner = t, recursionCount = 0, abandoned = False\<rparr>"
    "recursionCount \<lparr>ownerValid = False, owner = t, recursionCount = 0, abandoned = False\<rparr> = 0"
    by simp_all
qed simp_all

theorem mutex_recursion_witness:
  "\<exists>ob'. mutex_waits 7 3 (new_mutex False 0) = Some ob' \<and>
     (\<exists>fo. mutex_releases 7 3 ob' = Some fo \<and> signaled fo)"
  using mutex_recursion [of "new_mutex False 0" "\<lparr>ownerValid = False, owner = 0, recursionCount = 0,
      abandoned = False\<rparr>" 2 7]
  by (simp add: new_mutex_def) blast

section \<open>Waits on several objects\<close>

definition ptr_of :: "Handles \<Rightarrow> HANDLE \<Rightarrow> objptr option" where
  "ptr_of t h = (if h = NO_HANDLE \<or> isPseudo h then None else map_option (\<lambda>(i, e). the (obj e)) (entry_of t h))"

lemma get_ptr: "map_option fst (fst (get h s)) = ptr_of (table s) h"
  by (auto simp: get_def ptr_of_def split: option.splits)

lemma table_get: "get h s = (r, s') \<Longrightarrow> table s' = table s"
  by (auto simp: get_def split: if_splits option.splits)

lemma getWaitable_ptr:
  "getWaitable h s = (Some p, s') \<Longrightarrow> ptr_of (table s) h = Some p"
  "getWaitable h s = (r, s') \<Longrightarrow> table s' = table s"
  using get_ptr [of h s]
  by (auto simp: getWaitable_def unpin_def dest: table_get split: prod.splits option.splits if_splits)

lemma resolve_all_ptr:
  "resolve_all hs s = (Some ps, s') \<Longrightarrow> map (ptr_of (table s)) hs = map Some ps \<and> table s' = table s"
proof (induction hs arbitrary: s ps s')
  case (Cons h hs)
  then obtain p s1 ps' where g: "getWaitable h s = (Some p, s1)" "resolve_all hs s1 = (Some ps', s')" "ps = p # ps'"
    by (auto split: prod.splits option.splits)
  from Cons.IH [OF g(2)] getWaitable_ptr(1) [OF g(1)] getWaitable_ptr(2) [OF g(1)] g(3) show ?case by simp
qed simp

lemma table_waiters [simp]:
  "table (unregisterWaiter p c s) = table s" "table (registerWaiter p c i s) = table s"
  "table (handleSignal c p i a w s) = table s" "table (unpin p s) = table s"
  by (simp_all add: unregisterWaiter_def registerWaiter_def upd_sync_def handleSignal_def Let_def unpin_def)

lemma table_fold: "(\<And>x s. table (f x s) = table s) \<Longrightarrow> table (fold f xs s) = table s"
  by (induction xs arbitrary: s) auto

lemma table_enter_wait: "table (enter_wait c wa ps s) = table s"
  unfolding enter_wait_def Let_def note_initial_def register_all_def
  by (subst table_fold, simp split: prod.splits, subst table_fold) (simp_all split: prod.splits)

lemma wait_object_cong:
  assumes "signaled a = signaled b" "body a = body b" "wait_object t a = Returned r a'"
  shows "\<exists>b'. wait_object t b = Returned r b' \<and> signaled b' = signaled a' \<and> body b' = body a'"
  using assms by (auto simp: wait_object_def Let_def split: SyncBody.splits if_splits)

lemma same_objects_unpins: "same_objects s (fold unpin ps s)"
  by (rule same_objects_fold) (simp add: same_objects_def unpin_def)

lemma same_objects_unregs: "same_objects s (fold (\<lambda>p s. unregisterWaiter p c s) ps s)"
  by (rule same_objects_fold) simp

text \<open>The consumption of one object through its handle.\<close>

lemma consume_effect:
  assumes p: "ptr_of (table s) (hs ! i) = Some p" and i: "i < length hs"
  shows "(\<forall>r ob. wait_object self (syncs s p) = Returned r ob \<longrightarrow>
            signaled (syncs (consume self hs i s) p) = signaled ob \<and> body (syncs (consume self hs i s) p) = body ob) \<and>
         (\<forall>q. q \<noteq> p \<longrightarrow> syncs (consume self hs i s) q = syncs s q)"
proof -
  obtain r s1 where g: "get (hs ! i) s = (r, s1)" by fastforce
  with get_ptr [of "hs ! i" s] p obtain m where r: "r = Some (p, m)" by (cases r) auto
  have sy: "syncs s1 = syncs s" using same_sync_get [OF g] by (simp add: same_sync_def)
  have c: "consume self hs i s = snd (WaitForSingleObject self (hs ! i) 0 False s)" using i by (simp add: consume_def)
  show ?thesis unfolding c WaitForSingleObject_def
    by (auto simp: g r sy unpin_def upd_sync_def setLastError_def split: wait_outcome.splits if_splits)
qed




text \<open>The common part of a wait on several handles, up to the point where the waiters are removed again.\<close>

lemma wait_entered:
  assumes inv: "sync_inv s" and hs: "hs \<noteq> []" "length hs \<le> MAXIMUM_WAIT_OBJECTS"
    and res: "resolve_all hs s = (Some ps, s1)"
    and w: "WaitForMultipleObjects self ctx hs wall ms ex others s = (r, s')"
  obtains s2 s4 where "blocks s2 ctx = scan (\<lambda>p. signaled (syncs s p)) (enumerate 0 ps) (new_block wall (length ps))"
    "s4 = fold (\<lambda>p s. unregisterWaiter p ctx s) ps s2" "same_objects s s4" "map (ptr_of (table s4)) hs = map Some ps"
    "leave_wait self ctx hs ps wall ms ex (if wcompleted (blocks s2 ctx) \<or> ms = 0 then s2 else others s2) = (r, s')"
proof -
  from resolve_all_ptr [OF res] have ptrs: "map (ptr_of (table s)) hs = map Some ps" and t1: "table s1 = table s" by auto
  have inv1: "sync_ok s1" using resolve_all_inv [OF res inv] by (simp add: sync_inv_def)
  have sy: "syncs s1 = syncs s" using same_sync_resolve [OF res] by (simp add: same_sync_def)
  define s2 where "s2 = enter_wait ctx wall ps s1"
  have so2: "same_objects s s2" using enter_wait_scan(2) [OF inv1] sy by (simp add: s2_def same_objects_def)
  have b2: "blocks s2 ctx = scan (\<lambda>p. signaled (syncs s p)) (enumerate 0 ps) (new_block wall (length ps))"
    using enter_wait_scan(1) [OF inv1] sy by (simp add: s2_def)
  have w': "leave_wait self ctx hs ps wall ms ex
      (if wcompleted (blocks s2 ctx) \<or> ms = 0 then s2 else others s2) = (r, s')"
    using w hs res unfolding WaitForMultipleObjects_def Let_def s2_def by simp
  define s4 where "s4 = fold (\<lambda>p s. unregisterWaiter p ctx s) ps s2"
  have so4: "same_objects s s4" unfolding s4_def using same_objects_trans [OF so2 same_objects_unregs] .
  have "table s4 = table s" unfolding s4_def s2_def by (subst table_fold) (simp_all add: table_enter_wait t1)
  then show ?thesis using that [OF b2 s4_def so4 _ w'] ptrs by simp
qed

lemma wait_times_out:
  assumes "leave_wait self ctx hs ps wall 0 ex s2 = (r, s')" "\<not> wcompleted (blocks s2 ctx)"
    "s4 = fold (\<lambda>p s. unregisterWaiter p ctx s) ps s2" "same_objects s s4"
  shows "r = Some WAIT_TIMEOUT" "same_objects s s'"
proof -
  have e: "r = Some 0x102" "s' = fold unpin ps s4"
    using assms(1,2) by (auto simp: leave_wait_def Let_def assms(3) time_over_def)
  then show "r = Some WAIT_TIMEOUT" by simp
  show "same_objects s s'" unfolding e using same_objects_trans [OF assms(4) same_objects_unpins] .
qed



lemma consumed_like_wait:
  assumes "wait_object self (syncs s p) = Returned c ob" "same_objects s s4"
    and "\<And>ob'. wait_object self (syncs s4 p) = Returned c ob' \<Longrightarrow> signaled (syncs s5 p) = signaled ob' \<and> body (syncs s5 p) = body ob'"
  shows "signaled (syncs (fold unpin ps s5) p) = signaled ob \<and> body (syncs (fold unpin ps s5) p) = body ob"
proof -
  obtain ob' where ob': "wait_object self (syncs s4 p) = Returned c ob'" "signaled ob' = signaled ob" "body ob' = body ob"
    using wait_object_cong [OF _ _ assms(1), of "syncs s4 p"] assms(2) by (auto simp: same_objects_def)
  with assms(3) same_objects_unpins [of s5 ps] show ?thesis by (auto simp: same_objects_def)
qed


lemma table_consume: "table (consume self hs i s) = table s"
proof -
  obtain r s1 where g: "get (hs ! i) s = (r, s1)" by fastforce
  from table_get [OF g] show ?thesis
    by (auto simp: consume_def WaitForSingleObject_def g unpin_def upd_sync_def setLastError_def
        split: option.splits prod.splits wait_outcome.splits)
qed

text \<open>The consumption of all objects of a wait, when the handles denote different objects.\<close>

lemma consume_all:
  assumes ptrs: "map (ptr_of (table s)) hs = map Some ps" and d: "distinct ps" and k: "k \<le> length ps"
  shows "table (fold (consume self hs) [0..<k] s) = table s \<and>
         (\<forall>i < length ps. \<forall>c ob. wait_object self (syncs s (ps ! i)) = Returned c ob \<longrightarrow> i < k \<longrightarrow>
            signaled (syncs (fold (consume self hs) [0..<k] s) (ps ! i)) = signaled ob \<and>
            body (syncs (fold (consume self hs) [0..<k] s) (ps ! i)) = body ob) \<and>
         (\<forall>q. q \<notin> set (take k ps) \<longrightarrow> syncs (fold (consume self hs) [0..<k] s) q = syncs s q)"
  using k
proof (induction k)
  case (Suc k)
  let ?u = "fold (consume self hs) [0..<k] s"
  from Suc have IH: "table ?u = table s"
    "\<And>i c ob. i < length ps \<Longrightarrow> wait_object self (syncs s (ps ! i)) = Returned c ob \<Longrightarrow> i < k \<Longrightarrow>
       signaled (syncs ?u (ps ! i)) = signaled ob \<and> body (syncs ?u (ps ! i)) = body ob"
    "\<And>q. q \<notin> set (take k ps) \<Longrightarrow> syncs ?u q = syncs s q" by auto
  have len: "length ps = length hs" using ptrs by (metis length_map)
  have k: "k < length ps" "k < length hs" using Suc.prems len by auto
  have p: "ptr_of (table ?u) (hs ! k) = Some (ps ! k)" using ptrs IH(1) k by (metis nth_map)
  note ce = consume_effect [OF p k(2), of self]
  have nk: "ps ! k \<notin> set (take k ps)" using d k by (auto simp: distinct_conv_nth in_set_conv_nth)
  have e: "fold (consume self hs) [0..<Suc k] s = consume self hs k ?u" by simp
  have ne: "ps ! i \<noteq> ps ! k" if "i < k" for i using d k that by (simp add: nth_eq_iff_index_eq)
  have "signaled (syncs (consume self hs k ?u) (ps ! i)) = signaled ob \<and>
        body (syncs (consume self hs k ?u) (ps ! i)) = body ob"
    if "i < length ps" "wait_object self (syncs s (ps ! i)) = Returned c ob" "i < Suc k" for i c ob
  proof (cases "i = k")
    case True
    with that ce IH(3) [OF nk] show ?thesis by simp
  next
    case False
    then have "i < k" using that by simp
    with IH(2) that ce ne show ?thesis by simp
  qed
  moreover have "syncs (consume self hs k ?u) q = syncs s q" if "q \<notin> set (take (Suc k) ps)" for q
    using that ce IH(3) [of q] k by (simp add: take_Suc_conv_app_nth)
  ultimately show ?case unfolding e using table_consume IH(1) by metis
qed simp

text \<open>A wait for all objects: the block after the first look at them.\<close>

lemma scan_every:
  assumes "ps \<noteq> []" and b: "b = scan sg (enumerate 0 ps) (new_block True (length ps))"
  shows "wcompleted b \<longleftrightarrow> (\<forall>i < length ps. sg (ps ! i))" "wcompleted b \<Longrightarrow> wresult b = 0"
proof -
  have nb: "all_ok (new_block True (length ps))" using assms(1) by (auto simp: all_ok_def new_block_def list_all_iff)
  have "\<forall>(i, p) \<in> set (enumerate 0 ps). i < length (satisfied (new_block True (length ps)))"
    by (auto simp: in_set_enumerate_eq new_block_def)
  from scan_all [OF nb this, of sg, folded b]
  have "all_ok b" "length (satisfied b) = length ps" "\<forall>j < length ps. satisfied b ! j = sg (ps ! j)"
    by (auto simp: new_block_def in_set_enumerate_eq)
  then show "wcompleted b \<longleftrightarrow> (\<forall>i < length ps. sg (ps ! i))" "wcompleted b \<Longrightarrow> wresult b = 0"
    by (auto simp: all_ok_def list_all_length)
qed

text \<open>
  \<^verbatim>\<open>WaitForMultipleObjects\<close> for all of at most 64 valid handles: when every object is marked
  signaled it returns \<^verbatim>\<open>WAIT_OBJECT_0\<close> at once, and each object (they being different) is consumed as
  a wait on it alone would; when one is not signaled and the time limit is 0 it returns
  \<^verbatim>\<open>WAIT_TIMEOUT\<close> and changes no object.
\<close>

theorem wait_all_correct:
  assumes inv: "sync_inv s" and hs: "hs \<noteq> []" "length hs \<le> MAXIMUM_WAIT_OBJECTS"
    and res: "resolve_all hs s = (Some ps, s1)"
    and w: "WaitForMultipleObjects self ctx hs True ms ex others s = (r, s')"
  shows "((\<forall>i < length ps. signaled (syncs s (ps ! i))) \<longrightarrow> r = Some WAIT_OBJECT_0 \<and>
            (distinct ps \<longrightarrow> (\<forall>i < length ps. \<forall>c ob. wait_object self (syncs s (ps ! i)) = Returned c ob \<longrightarrow>
               signaled (syncs s' (ps ! i)) = signaled ob \<and> body (syncs s' (ps ! i)) = body ob))) \<and>
         ((\<exists>i < length ps. \<not> signaled (syncs s (ps ! i))) \<and> ms = 0 \<longrightarrow>
            r = Some WAIT_TIMEOUT \<and> same_objects s s')"
proof -
  obtain s2 s4 where b2: "blocks s2 ctx = scan (\<lambda>p. signaled (syncs s p)) (enumerate 0 ps) (new_block True (length ps))"
    and s4: "s4 = fold (\<lambda>p s. unregisterWaiter p ctx s) ps s2" and so4: "same_objects s s4"
    and ptrs: "map (ptr_of (table s4)) hs = map Some ps"
    and w': "leave_wait self ctx hs ps True ms ex (if wcompleted (blocks s2 ctx) \<or> ms = 0 then s2 else others s2) = (r, s')"
    by (rule wait_entered [OF inv hs res w])
  have len: "length ps = length hs" using ptrs by (metis length_map)
  have "ps \<noteq> []" using hs(1) len by auto
  have cmp: "wcompleted (blocks s2 ctx) \<longleftrightarrow> (\<forall>i < length ps. signaled (syncs s (ps ! i)))"
      "wcompleted (blocks s2 ctx) \<Longrightarrow> wresult (blocks s2 ctx) = 0"
    using scan_every [OF \<open>ps \<noteq> []\<close> b2] by auto
  show ?thesis
  proof (intro conjI impI allI)
    assume "\<forall>i < length ps. signaled (syncs s (ps ! i))"
    then have c: "wcompleted (blocks s2 ctx)" "wresult (blocks s2 ctx) = 0" using cmp by auto
    then have e: "r = Some 0" "s' = fold unpin ps (fold (consume self hs) [0..<length hs] s4)"
      using w' by (auto simp: leave_wait_def Let_def s4 consume_result_def)
    from e(1) show "r = Some WAIT_OBJECT_0" .
    fix i c ob
    assume d: "distinct ps" and i: "i < length ps" and wo: "wait_object self (syncs s (ps ! i)) = Returned c ob"
    show "signaled (syncs s' (ps ! i)) = signaled ob" "body (syncs s' (ps ! i)) = body ob"
      using consumed_like_wait [OF wo so4, of "fold (consume self hs) [0..<length hs] s4" ps]
        consume_all [of s4 hs ps "length hs" self] ptrs d i len unfolding e(2) by auto
  next
    assume n: "(\<exists>i < length ps. \<not> signaled (syncs s (ps ! i))) \<and> ms = 0"
    then have nc: "\<not> wcompleted (blocks s2 ctx)" using cmp by auto
    have "leave_wait self ctx hs ps True 0 ex s2 = (r, s')" using w' n by simp
    from wait_times_out [OF this nc s4 so4] show "r = Some WAIT_TIMEOUT" "same_objects s s'" .
  qed
qed

text \<open>Two states for the witnesses: a signaled event, and a semaphore with a positive count.\<close>

definition event_demo :: "HANDLE \<times> SyncState" where
  "event_demo = CreateEventW 7 False False True [] sync_start"

lemmas demo_simps = CreateEventW_def semaphore_demo_def CreateSemaphoreW_def semaphore_args_ok_def creates_def
  upd_sync_def create_named_def getOrCreate_def make_pin_def ref_def new_object_def alloc_def alloc_index_def
  sync_start_def empty_table_def makeHandle_def setLastError_def inherit_flags_def getWaitable_def get_def
  entry_of_def indexOf_def isPseudo_def NO_HANDLE_def empty_entry_def zero_meta_def kCompatMaxIndex_def Let_def
  Of_Waitable_def

lemma event_demo_simps:
  "syncs (snd event_demo) 7 = new_event False True"
  "resolve_all [4] (snd event_demo) =
     (Some [7], (snd event_demo)\<lparr>objects := ref 7 (objects (snd event_demo))\<rparr>)"
  "sync_inv (snd event_demo)"
proof -
  show "syncs (snd event_demo) 7 = new_event False True"
    by (simp add: event_demo_def CreateEventW_def creates_def upd_sync_def)
  show "resolve_all [4] (snd event_demo) =
     (Some [7], (snd event_demo)\<lparr>objects := ref 7 (objects (snd event_demo))\<rparr>)"
    by (simp add: event_demo_def demo_simps)
  have "sync_inv sync_start" by (simp add: sync_start_def sync_inv_def sync_ok_def)
  from Create_inv(2) [OF this, of 7] show "sync_inv (snd event_demo)"
    by (simp add: event_demo_def sync_start_def)
qed


theorem wait_all_correct_witness:
  "fst (WaitForMultipleObjects 1 3 [4] True INFINITE False id (snd event_demo)) = Some WAIT_OBJECT_0"
  using wait_all_correct [OF event_demo_simps(3) _ _ event_demo_simps(2) surjective_pairing,
      of 1 3 INFINITE False id]
  by (auto simp: event_demo_simps(1) new_event_def)

text \<open>
  A new semaphore is never marked signaled, whatever its initial count. So a semaphore
  created with count 1 satisfies \<^verbatim>\<open>WaitForSingleObject\<close> at once, while
  \<^verbatim>\<open>WaitForMultipleObjects\<close> on the same handle times out.
\<close>

theorem semaphore_initial_count_unseen:
  "\<not> signaled (new_semaphore initial maximum) \<and>
   fst (WaitForSingleObject 1 (fst semaphore_demo) 0 False (snd semaphore_demo)) = Some WAIT_OBJECT_0 \<and>
   fst (WaitForMultipleObjects 1 3 [fst semaphore_demo] False 0 False id (snd semaphore_demo)) = Some WAIT_TIMEOUT"
proof (intro conjI)
  show "\<not> signaled (new_semaphore initial maximum)" by (simp add: new_semaphore_def)
  have g: "get 4 (snd semaphore_demo) =
     (Some (7, \<lparr>grantedAccess = SEMAPHORE_ALL_ACCESS, mflags = 0, typeCache = Semaphore, generation = 1\<rparr>),
      (snd semaphore_demo)\<lparr>objects := ref 7 (objects (snd semaphore_demo))\<rparr>)"
    by (simp add: demo_simps)
  show "fst (WaitForSingleObject 1 (fst semaphore_demo) 0 False (snd semaphore_demo)) = Some WAIT_OBJECT_0"
    by (simp add: WaitForSingleObject_def semaphore_demo_simps(1,2) g wait_object_def new_semaphore_def Let_def)
  have r: "resolve_all [4] (snd semaphore_demo) =
     (Some [7], (snd semaphore_demo)\<lparr>objects := ref 7 (objects (snd semaphore_demo))\<rparr>)"
    by (simp add: demo_simps)
  have b: "\<not> wcompleted (blocks (enter_wait 3 False [7] ((snd semaphore_demo)\<lparr>objects := os\<rparr>)) 3)" for os
    by (simp add: enter_wait_def note_initial_def register_all_def registerWaiter_def upd_sync_def
        semaphore_demo_simps(2) new_semaphore_def new_block_def)
  show "fst (WaitForMultipleObjects 1 3 [fst semaphore_demo] False 0 False id (snd semaphore_demo)) = Some WAIT_TIMEOUT"
    unfolding WaitForMultipleObjects_def semaphore_demo_simps(1) r
    using b by (simp add: leave_wait_def time_over_def Let_def)
qed

end
