(* ===== verification/Region_Map.thy ===== *)
theory Region_Map
  imports Wibo_Prelude
begin

unbundle bit_operations_syntax

text \<open>
  Shared by the memory components: \<^verbatim>\<open>std::map\<close> as an association list in the order of its keys,
  maps of disjoint address ranges, and the address arithmetic of \<^verbatim>\<open>src/src/heap.cpp\<close>
  (\<^verbatim>\<open>alignDown\<close>, \<^verbatim>\<open>alignUp\<close>, \<^verbatim>\<open>addOverflows\<close>). Addresses are those of the 32-bit build, as natural
  numbers below \<open>2\<^sup>3\<^sup>2\<close> with the wrap-around written out.
\<close>

section \<open>Ordered maps\<close>

fun omap_put :: "nat \<Rightarrow> 'v \<Rightarrow> (nat \<times> 'v) list \<Rightarrow> (nat \<times> 'v) list" where
  "omap_put k v [] = [(k, v)]"
| "omap_put k v ((k', v') # m) =
     (if k < k' then (k, v) # (k', v') # m
      else if k = k' then (k, v) # m
      else (k', v') # omap_put k v m)"

definition omap_erase :: "nat \<Rightarrow> (nat \<times> 'v) list \<Rightarrow> (nat \<times> 'v) list" where
  "omap_erase k m = filter (\<lambda>e. fst e \<noteq> k) m"

text \<open>The last entry at or below a key: the step back from \<^verbatim>\<open>upper_bound\<close>.\<close>

definition last_at_most :: "nat \<Rightarrow> (nat \<times> 'v) list \<Rightarrow> (nat \<times> 'v) option" where
  "last_at_most k m =
     (let pre = takeWhile (\<lambda>e. fst e \<le> k) m in if pre = [] then None else Some (last pre))"

text \<open>The entries from the last one at or below a key on.\<close>

definition from_last_at_most :: "nat \<Rightarrow> (nat \<times> 'v) list \<Rightarrow> (nat \<times> 'v) list" where
  "from_last_at_most k m =
     (let pre = takeWhile (\<lambda>e. fst e \<le> k) m; post = dropWhile (\<lambda>e. fst e \<le> k) m
      in if pre = [] then post else last pre # post)"

lemma sorted_wrt_pair_cases:
  "sorted_wrt R m \<Longrightarrow> x \<in> set m \<Longrightarrow> y \<in> set m \<Longrightarrow> x \<noteq> y \<Longrightarrow> R x y \<or> R y x"
  by (induction m) auto

section \<open>Maps of disjoint ranges\<close>

definition regions_wf :: "('v \<Rightarrow> nat) \<Rightarrow> (nat \<times> 'v) list \<Rightarrow> bool" where
  "regions_wf sz m \<longleftrightarrow> sorted_wrt (\<lambda>p q. fst p + sz (snd p) \<le> fst q) m \<and> (\<forall>e \<in> set m. 0 < sz (snd e))"

definition overlaps :: "nat \<Rightarrow> nat \<Rightarrow> nat \<Rightarrow> nat \<Rightarrow> bool" where
  "overlaps a la b lb \<longleftrightarrow> a < b + lb \<and> b < a + la"

definition free_range :: "('v \<Rightarrow> nat) \<Rightarrow> (nat \<times> 'v) list \<Rightarrow> nat \<Rightarrow> nat \<Rightarrow> bool" where
  "free_range sz m b l \<longleftrightarrow> (\<forall>e \<in> set m. \<not> overlaps (fst e) (sz (snd e)) b l)"

lemma regions_wf_Nil [simp]: "regions_wf sz []" by (simp add: regions_wf_def)

lemma regions_wf_Cons:
  "regions_wf sz (e # m) \<longleftrightarrow> 0 < sz (snd e) \<and> (\<forall>q \<in> set m. fst e + sz (snd e) \<le> fst q) \<and> regions_wf sz m"
  by (auto simp: regions_wf_def)

lemma regions_wf_distinct: "regions_wf sz m \<Longrightarrow> distinct (map fst m)"
proof (induction m)
  case (Cons e m)
  then have w: "0 < sz (snd e)" "\<forall>q \<in> set m. fst e + sz (snd e) \<le> fst q" "regions_wf sz m"
    by (auto simp: regions_wf_Cons)
  then have "fst e \<notin> fst ` set m" by fastforce
  with Cons.IH w(3) show ?case by simp
qed simp

lemma regions_wf_filter: "regions_wf sz m \<Longrightarrow> regions_wf sz (filter P m)"
  by (auto simp: regions_wf_def sorted_wrt_filter)

lemma regions_wf_erase: "regions_wf sz m \<Longrightarrow> regions_wf sz (omap_erase k m)"
  by (simp add: omap_erase_def regions_wf_filter)

lemma map_of_omap_put [simp]: "map_of (omap_put k v m) = (map_of m)(k \<mapsto> v)"
  by (induction m) auto

lemma map_of_omap_erase [simp]: "map_of (omap_erase k m) = (map_of m)(k := None)"
  by (induction m) (auto simp: omap_erase_def)

lemma set_omap_put_sub: "set (omap_put k v m) \<subseteq> insert (k, v) (set m)"
  by (induction m) (auto split: if_splits)

lemma set_omap_put_sup: "e \<in> set m \<Longrightarrow> fst e \<noteq> k \<Longrightarrow> e \<in> set (omap_put k v m)"
  by (induction m) auto

lemma in_omap_put [simp]: "(k, v) \<in> set (omap_put k v m)"
  by (induction m) auto

lemma regions_wf_sorted: "regions_wf sz m \<Longrightarrow> sorted_wrt (<) (map fst m)"
proof (induction m)
  case (Cons e m)
  then have w: "0 < sz (snd e)" "\<forall>q \<in> set m. fst e + sz (snd e) \<le> fst q" "regions_wf sz m"
    by (auto simp: regions_wf_Cons)
  then have "\<forall>q \<in> set m. fst e < fst q" by fastforce
  with Cons.IH w(3) show ?case by simp
qed simp

lemma set_omap_put:
  assumes "regions_wf sz m"
  shows "e \<in> set (omap_put k v m) \<longleftrightarrow> e = (k, v) \<or> e \<in> set m \<and> fst e \<noteq> k"
  using regions_wf_sorted [OF assms]
proof (induction m)
  case (Cons a m)
  obtain k' w where a: "a = (k', w)" by fastforce
  from Cons.prems a have "\<forall>q \<in> set m. k' < fst q" by simp
  with Cons a show ?case by (cases "k < k'"; cases "k = k'") force+
qed auto

lemma set_omap_erase: "e \<in> set (omap_erase k m) \<longleftrightarrow> e \<in> set m \<and> fst e \<noteq> k"
  by (auto simp: omap_erase_def)

lemma regions_wf_put:
  assumes "regions_wf sz m" "free_range sz m k (sz v)" "0 < sz v"
  shows "regions_wf sz (omap_put k v m)"
  using assms
proof (induction m)
  case Nil
  then show ?case by (simp add: regions_wf_Cons)
next
  case (Cons e m)
  obtain k' v' where e: "e = (k', v')" by fastforce
  from Cons.prems(1) e have w: "0 < sz v'" "\<And>q. q \<in> set m \<Longrightarrow> k' + sz v' \<le> fst q" "regions_wf sz m"
    by (auto simp: regions_wf_Cons)
  from Cons.prems(2) e have f: "\<not> (k' < k + sz v \<and> k < k' + sz v')" "free_range sz m k (sz v)"
    by (auto simp: free_range_def overlaps_def)
  consider "k < k'" | "k = k'" | "k' < k" by linarith
  then show ?case
  proof cases
    case 1
    with f(1) w(1) have "k + sz v \<le> k'" by linarith
    moreover have "k + sz v \<le> fst q" if "q \<in> set m" for q using calculation w(2) [OF that] w(1) by linarith
    ultimately show ?thesis using 1 e Cons.prems(1,3) by (auto simp: regions_wf_Cons)
  next
    case 2
    with f(1) w(1) Cons.prems(3) show ?thesis by simp
  next
    case 3
    with f(1) Cons.prems(3) have le: "k' + sz v' \<le> k" by linarith
    have "\<forall>q \<in> set (omap_put k v m). k' + sz v' \<le> fst q"
      using set_omap_put_sub [of k v m] w(2) le by auto
    with 3 e w Cons.IH [OF w(3) f(2) Cons.prems(3)] show ?thesis by (auto simp: regions_wf_Cons)
  qed
qed

lemma regions_wf_put_same:
  assumes "regions_wf sz m" "map_of m k = Some v'" "sz v = sz v'"
  shows "regions_wf sz (omap_put k v m)"
  using assms
proof (induction m)
  case (Cons e m)
  obtain k' w where e: "e = (k', w)" by fastforce
  from Cons.prems(1) e have r: "0 < sz w" "\<And>q. q \<in> set m \<Longrightarrow> k' + sz w \<le> fst q" "regions_wf sz m"
    by (auto simp: regions_wf_Cons)
  show ?case
  proof (cases "k = k'")
    case True
    with Cons.prems e r show ?thesis by (auto simp: regions_wf_Cons)
  next
    case False
    with Cons.prems(2) e have mo: "map_of m k = Some v'" by simp
    then have "(k, v') \<in> set m" by (rule map_of_SomeD)
    with r(2) have le: "k' + sz w \<le> k" by fastforce
    have "\<forall>q \<in> set (omap_put k v m). k' + sz w \<le> fst q"
      using set_omap_put_sub [of k v m] r(2) le by auto
    moreover have "regions_wf sz (omap_put k v m)" by (rule Cons.IH [OF r(3) mo Cons.prems(3)])
    ultimately show ?thesis using False e r(1) le by (auto simp: regions_wf_Cons)
  qed
qed simp

subsection \<open>The entry before an address\<close>

lemma takeWhile_sorted:
  assumes "regions_wf sz m"
  shows "set (takeWhile (\<lambda>e. fst e \<le> k) m) = {e \<in> set m. fst e \<le> k}"
  using assms
proof (induction m)
  case (Cons e m)
  then have r: "0 < sz (snd e)" "\<And>q. q \<in> set m \<Longrightarrow> fst e + sz (snd e) \<le> fst q" "regions_wf sz m"
    by (auto simp: regions_wf_Cons)
  show ?case
  proof (cases "fst e \<le> k")
    case True
    with Cons.IH [OF r(3)] show ?thesis by auto
  next
    case False
    with r(2) have "\<forall>q \<in> set m. k < fst q" by fastforce
    with False show ?thesis by auto
  qed
qed simp

lemma regions_wf_takeWhile: "regions_wf sz m \<Longrightarrow> regions_wf sz (takeWhile P m)"
  by (induction m) (auto simp: regions_wf_Cons dest: set_takeWhileD)

lemma last_takeWhile_max:
  assumes "regions_wf sz m" "takeWhile (\<lambda>e. fst e \<le> k) m \<noteq> []" "e \<in> set m" "fst e \<le> k"
  shows "fst e \<le> fst (last (takeWhile (\<lambda>e. fst e \<le> k) m))"
proof -
  let ?t = "takeWhile (\<lambda>e. fst e \<le> k) m"
  have w: "regions_wf sz ?t" by (rule regions_wf_takeWhile [OF assms(1)])
  have e: "e \<in> set ?t" using takeWhile_sorted [OF assms(1)] assms(3,4) by simp
  show ?thesis
  proof (cases "e = last ?t")
    case False
    have b: "?t = butlast ?t @ [last ?t]" using assms(2) by simp
    from e False last_in_set_butlast_or [OF assms(2)] have "e \<in> set (butlast ?t)" by blast
    moreover have "sorted_wrt (\<lambda>p q. fst p + sz (snd p) \<le> fst q) (butlast ?t @ [last ?t])"
      using w b by (simp add: regions_wf_def)
    ultimately show ?thesis by (fastforce simp: sorted_wrt_append)
  qed simp
qed

lemma last_at_most_Some:
  assumes "regions_wf sz m" "last_at_most k m = Some e"
  shows "e \<in> set m" "fst e \<le> k" "\<And>q. q \<in> set m \<Longrightarrow> fst q \<le> k \<Longrightarrow> fst q \<le> fst e"
proof -
  let ?t = "takeWhile (\<lambda>e. fst e \<le> k) m"
  from assms(2) have t: "?t \<noteq> []" "e = last ?t" by (auto simp: last_at_most_def Let_def split: if_splits)
  then have "e \<in> set ?t" by simp
  then show "e \<in> set m" "fst e \<le> k" using takeWhile_sorted [OF assms(1), of k] by auto
  show "\<And>q. q \<in> set m \<Longrightarrow> fst q \<le> k \<Longrightarrow> fst q \<le> fst e"
    using last_takeWhile_max [OF assms(1) t(1)] t(2) by simp
qed

lemma last_at_most_None:
  "regions_wf sz m \<Longrightarrow> last_at_most k m = None \<Longrightarrow> q \<in> set m \<Longrightarrow> k < fst q"
  using takeWhile_sorted [of sz m k] by (fastforce simp: last_at_most_def Let_def split: if_splits)

text \<open>A range that contains an address is the one the lookup finds.\<close>

lemma last_at_most_contains:
  assumes "regions_wf sz m" "e \<in> set m" "fst e \<le> a" "a < fst e + sz (snd e)"
  shows "last_at_most a m = Some e"
proof (cases "last_at_most a m")
  case None
  with last_at_most_None [OF assms(1) None assms(2)] assms(3) show ?thesis by simp
next
  case (Some q)
  note q = last_at_most_Some [OF assms(1) Some]
  have "q = e"
  proof (rule ccontr)
    assume "q \<noteq> e"
    then have "fst q + sz (snd q) \<le> fst e \<or> fst e + sz (snd e) \<le> fst q"
      using sorted_wrt_pair_cases [of "\<lambda>p q. fst p + sz (snd p) \<le> fst q" m q e] q(1) assms(1,2)
      unfolding regions_wf_def by blast
    moreover have "0 < sz (snd q)" using q(1) assms(1) by (auto simp: regions_wf_def)
    ultimately show False using q(2) q(3) [OF assms(2,3)] assms(4) by linarith
  qed
  with Some show ?thesis by simp
qed

section \<open>Address arithmetic\<close>

definition uintptr_max :: nat where "uintptr_max = 2 ^ 32 - 1"

definition addp :: "nat \<Rightarrow> nat \<Rightarrow> nat" where "addp a b = (a + b) mod 2 ^ 32"

definition subp :: "nat \<Rightarrow> nat \<Rightarrow> nat" where "subp a b = (a + (2 ^ 32 - b)) mod 2 ^ 32"

definition alignDown :: "nat \<Rightarrow> nat \<Rightarrow> nat" where
  "alignDown v alignment = unat ((of_nat v :: u32) AND NOT (of_nat alignment - 1))"

definition alignUp :: "nat \<Rightarrow> nat \<Rightarrow> nat" where
  "alignUp v alignment =
     (let m = subp alignment 1 in
      if m = uintptr_max then v
      else if v > uintptr_max - m then uintptr_max
      else unat ((of_nat (addp v m) :: u32) AND NOT (of_nat m)))"

definition addOverflows :: "nat \<Rightarrow> nat \<Rightarrow> bool" where
  "addOverflows base amount \<longleftrightarrow> base > uintptr_max - amount"

text \<open>An alignment: a power of two that fits the address width.\<close>

definition alignment :: "nat \<Rightarrow> bool" where "alignment a \<longleftrightarrow> (\<exists>k < 32. a = 2 ^ k)"

lemma unat_and_not_mask:
  assumes "k < 32"
  shows "unat ((w :: u32) AND NOT (2 ^ k - 1)) = unat w - unat w mod 2 ^ k"
proof -
  have "w AND NOT (2 ^ k - 1) = push_bit k (drop_bit k w)"
  proof (rule bit_eqI)
    fix i assume "possible_bit TYPE(u32) i"
    then show "bit (w AND NOT (2 ^ k - 1)) i = bit (push_bit k (drop_bit k w)) i"
      by (auto simp: bit_simps mask_eq_exp_minus_1 [symmetric])
  qed
  moreover have "unat (push_bit k (drop_bit k w)) = take_bit 32 (push_bit k (drop_bit k (unat w)))"
    by (simp only: unsigned_push_bit_eq unat_drop_bit_eq) simp
  moreover have "push_bit k (drop_bit k (unat w)) = unat w - unat w mod 2 ^ k"
    by (simp add: push_bit_eq_mult drop_bit_eq_div minus_mod_eq_div_mult)
  moreover have "unat w - unat w mod 2 ^ k < 2 ^ 32" using unat_u32_less [of w] by simp
  ultimately show ?thesis by (simp add: take_bit_eq_mod)
qed

lemma subp_eq: "b \<le> a \<Longrightarrow> a < 2 ^ 32 \<Longrightarrow> subp a b = a - b"
proof -
  assume "b \<le> a" "a < 2 ^ 32"
  then have "a + (2 ^ 32 - b) = (a - b) + 2 ^ 32" "a - b < 2 ^ 32" by simp_all
  then show ?thesis unfolding subp_def by (metis mod_add_self2 mod_less)
qed

lemma addp_eq: "a + b < 2 ^ 32 \<Longrightarrow> addp a b = a + b"
  by (simp add: addp_def)

lemma alignDown_eq:
  assumes "alignment a" "v < 2 ^ 32"
  shows "alignDown v a = v - v mod a"
proof -
  from assms(1) obtain k where k: "k < 32" "a = 2 ^ k" by (auto simp: alignment_def)
  have "unat (of_nat v :: u32) = v" using assms(2) by (simp add: unat_of_nat)
  with unat_and_not_mask [OF k(1), of "of_nat v"] k(2) show ?thesis by (simp add: alignDown_def)
qed

lemma alignUp_eq:
  assumes "alignment a" "v + a \<le> 2 ^ 32"
  shows "alignUp v a = (v + a - 1) - (v + a - 1) mod a"
proof -
  from assms(1) obtain k where k: "k < 32" "a = 2 ^ k" by (auto simp: alignment_def)
  then have a: "0 < a" "a < 2 ^ 32" using power_strict_increasing [OF k(1), of "2 :: nat"] by simp_all
  then have m: "subp a 1 = a - 1" by (simp add: subp_eq)
  define n where "n = v + a - 1"
  have "addp v (a - 1) = n" using assms(2) a by (simp add: addp_def n_def)
  then have u: "alignUp v a = unat ((of_nat n :: u32) AND NOT (of_nat (a - 1)))"
  proof -
    have "\<not> v > uintptr_max - (a - 1)" "a - 1 \<noteq> uintptr_max"
      using a assms(2) by (auto simp: uintptr_max_def)
    then show ?thesis using \<open>addp v (a - 1) = n\<close> unfolding alignUp_def Let_def m by simp
  qed
  have w: "(of_nat (a - 1) :: u32) = 2 ^ k - 1" using k a by (simp add: of_nat_diff)
  have "n < 2 ^ 32" using assms(2) a by (simp add: n_def)
  then have "unat (of_nat n :: u32) = n" by (simp only: unat_of_nat) simp
  then show ?thesis unfolding u w unat_and_not_mask [OF k(1)] by (simp add: n_def k(2))
qed

lemma alignDown_props:
  assumes "alignment a" "v < 2 ^ 32"
  shows "alignDown v a \<le> v" "v < alignDown v a + a" "a dvd alignDown v a"
proof -
  from assms(1) have "0 < a" by (auto simp: alignment_def)
  then have "v mod a < a" "v mod a \<le> v" by simp_all
  then show "alignDown v a \<le> v" "v < alignDown v a + a" "a dvd alignDown v a"
    unfolding alignDown_eq [OF assms] by (auto simp: dvd_minus_mod)
qed

lemma alignUp_props:
  assumes "alignment a" "v + a \<le> 2 ^ 32"
  shows "v \<le> alignUp v a" "alignUp v a < v + a" "a dvd alignUp v a"
proof -
  from assms(1) have "0 < a" by (auto simp: alignment_def)
  then have "(v + a - 1) mod a < a" "(v + a - 1) mod a \<le> v + a - 1" by simp_all
  then show "v \<le> alignUp v a" "alignUp v a < v + a" unfolding alignUp_eq [OF assms] by auto
  show "a dvd alignUp v a" unfolding alignUp_eq [OF assms] by (rule dvd_minus_mod)
qed

lemma alignUp_least:
  assumes "alignment a" "v + a \<le> 2 ^ 32" "a dvd x" "v \<le> x"
  shows "alignUp v a \<le> x"
proof (rule ccontr)
  assume "\<not> alignUp v a \<le> x"
  then have lt: "x < alignUp v a" by simp
  have "a dvd alignUp v a - x" using alignUp_props(3) [OF assms(1,2)] assms(3) by (rule dvd_diff_nat)
  then have "a \<le> alignUp v a - x" using lt by (simp add: dvd_imp_le)
  with alignUp_props(2) [OF assms(1,2)] assms(4) lt show False by linarith
qed

lemma alignDown_greatest:
  assumes "alignment a" "v < 2 ^ 32" "a dvd x" "x \<le> v"
  shows "x \<le> alignDown v a"
proof (rule ccontr)
  assume "\<not> x \<le> alignDown v a"
  then have lt: "alignDown v a < x" by simp
  have "a dvd x - alignDown v a" using assms(3) alignDown_props(3) [OF assms(1,2)] by (rule dvd_diff_nat)
  then have "a \<le> x - alignDown v a" using lt by (simp add: dvd_imp_le)
  with alignDown_props(2) [OF assms(1,2)] assms(4) lt show False by linarith
qed

lemma alignUp_id: "alignment a \<Longrightarrow> v + a \<le> 2 ^ 32 \<Longrightarrow> a dvd v \<Longrightarrow> alignUp v a = v"
  using alignUp_least [of a v v] alignUp_props(1) [of a v] by simp

lemma alignment_pos: "alignment a \<Longrightarrow> 0 < a" by (auto simp: alignment_def)

end
