(* ===== verification/Virtual_Memory.thy ===== *)
theory Virtual_Memory
  imports Region_Map Error_Codes
begin

unbundle bit_operations_syntax

text \<open>
  The guest's virtual memory (\<^verbatim>\<open>src/src/heap.cpp\<close>): the table of guest mappings, the table of
  \<^verbatim>\<open>VirtualAlloc\<close> allocations with the protection of each page, and reserve, commit, decommit,
  release, protect, query and the ranges of file views and stacks on them. The host's
  \<^verbatim>\<open>mmap\<close>, \<^verbatim>\<open>mprotect\<close> and \<^verbatim>\<open>madvise\<close> are parameters that return \<open>None\<close> or the error; with
  \<^verbatim>\<open>MAP_FIXED\<close> a successful \<^verbatim>\<open>mmap\<close> returns the requested address. \<open>pg\<close> is the host's page size.
\<close>

section \<open>Data\<close>

abbreviation (input) PAGE_NOACCESS :: u32 where "PAGE_NOACCESS \<equiv> 0x01"
abbreviation (input) PAGE_READONLY :: u32 where "PAGE_READONLY \<equiv> 0x02"
abbreviation (input) PAGE_READWRITE :: u32 where "PAGE_READWRITE \<equiv> 0x04"
abbreviation (input) PAGE_WRITECOPY :: u32 where "PAGE_WRITECOPY \<equiv> 0x08"
abbreviation (input) PAGE_EXECUTE :: u32 where "PAGE_EXECUTE \<equiv> 0x10"
abbreviation (input) PAGE_EXECUTE_READ :: u32 where "PAGE_EXECUTE_READ \<equiv> 0x20"
abbreviation (input) PAGE_EXECUTE_READWRITE :: u32 where "PAGE_EXECUTE_READWRITE \<equiv> 0x40"
abbreviation (input) PAGE_EXECUTE_WRITECOPY :: u32 where "PAGE_EXECUTE_WRITECOPY \<equiv> 0x80"
abbreviation (input) MEM_COMMIT :: u32 where "MEM_COMMIT \<equiv> 0x00001000"
abbreviation (input) MEM_RESERVE :: u32 where "MEM_RESERVE \<equiv> 0x00002000"
abbreviation (input) MEM_DECOMMIT :: u32 where "MEM_DECOMMIT \<equiv> 0x00004000"
abbreviation (input) MEM_RELEASE :: u32 where "MEM_RELEASE \<equiv> 0x00008000"
abbreviation (input) MEM_FREE :: u32 where "MEM_FREE \<equiv> 0x00010000"
abbreviation (input) MEM_PRIVATE :: u32 where "MEM_PRIVATE \<equiv> 0x00020000"
abbreviation (input) MEM_MAPPED :: u32 where "MEM_MAPPED \<equiv> 0x00040000"
abbreviation (input) MEM_RESET :: u32 where "MEM_RESET \<equiv> 0x00080000"
abbreviation (input) MEM_TOP_DOWN :: u32 where "MEM_TOP_DOWN \<equiv> 0x00100000"
abbreviation (input) MEM_WRITE_WATCH :: u32 where "MEM_WRITE_WATCH \<equiv> 0x00200000"
abbreviation (input) MEM_PHYSICAL :: u32 where "MEM_PHYSICAL \<equiv> 0x00400000"
abbreviation (input) MEM_RESET_UNDO :: u32 where "MEM_RESET_UNDO \<equiv> 0x01000000"
abbreviation (input) MEM_LARGE_PAGES :: u32 where "MEM_LARGE_PAGES \<equiv> 0x20000000"
abbreviation (input) MEM_COALESCE_PLACEHOLDERS :: u32 where "MEM_COALESCE_PLACEHOLDERS \<equiv> 1"
abbreviation (input) MEM_PRESERVE_PLACEHOLDER :: u32 where "MEM_PRESERVE_PLACEHOLDER \<equiv> 2"

definition kLowMemoryStart :: nat where "kLowMemoryStart = 0x00110000"
definition kHeapMax :: nat where "kHeapMax = 0x70000000"
definition kTopDownStart :: nat where "kTopDownStart = 0x7F000000"
definition kTwoGB :: nat where "kTwoGB = 0x80000000"
definition kVirtualAllocationGranularity :: nat where "kVirtualAllocationGranularity = 64 * 1024"

record MEMORY_BASIC_INFORMATION =
  BaseAddress :: nat
  AllocationBase :: nat
  AllocationProtect :: u32
  RegionSize :: nat
  MemState :: u32
  Protect :: u32
  MemType :: u32

record VirtualAllocation =
  vbase :: nat
  vsize :: nat
  allocationProtect :: u32
  vtype :: u32
  pageProtect :: "u32 list"

record VmState =
  g_mappings :: "(nat \<times> MEMORY_BASIC_INFORMATION) list"
  g_virtualAllocations :: "(nat \<times> VirtualAllocation) list"
  hostCalls :: "(nat \<times> nat \<times> nat) list"

datatype VmStatus = Success | InvalidParameter | InvalidAddress | NoAccess | NotSupported | NoMemory
  | Rejected | UnknownError

text \<open>
  A host call on a range with protection bits: the error, or success. A successful one is recorded
  in \<^const>\<open>hostCalls\<close>, the latest first: what the kernel has been told of each page.
\<close>

type_synonym mmap_fn = "nat \<Rightarrow> nat \<Rightarrow> nat \<Rightarrow> errno option"

definition host_call :: "mmap_fn \<Rightarrow> nat \<Rightarrow> nat \<Rightarrow> nat \<Rightarrow> VmState \<Rightarrow> errno option \<times> VmState" where
  "host_call mmap a l prot s =
     (case mmap a l prot of
        Some err \<Rightarrow> (Some err, s)
      | None \<Rightarrow> (None, s\<lparr>hostCalls := (a, l, prot) # hostCalls s\<rparr>))"

definition PROT_NONE :: nat where "PROT_NONE = 0"
definition PROT_READ :: nat where "PROT_READ = 1"
definition PROT_WRITE :: nat where "PROT_WRITE = 2"
definition PROT_EXEC :: nat where "PROT_EXEC = 4"

section \<open>Regions\<close>

definition regionEnd :: "VirtualAllocation \<Rightarrow> nat" where
  "regionEnd region = addp (vbase region) (vsize region)"

definition findRegion :: "nat \<Rightarrow> VmState \<Rightarrow> VirtualAllocation option" where
  "findRegion address s =
     (case last_at_most address (g_virtualAllocations s) of
        None \<Rightarrow> None
      | Some (b, region) \<Rightarrow> if address \<ge> regionEnd region then None else Some region)"

definition rangeWithinRegion :: "VirtualAllocation \<Rightarrow> nat \<Rightarrow> nat \<Rightarrow> bool" where
  "rangeWithinRegion region start len =
     (if len = 0 then start \<ge> vbase region \<and> start \<le> regionEnd region
      else if start < vbase region then False
      else if addOverflows start len then False
      else addp start len \<le> regionEnd region)"

text \<open>The loops that mark pages: \<open>n\<close> entries from index \<open>i\<close> on.\<close>

fun set_pages :: "u32 list \<Rightarrow> nat \<Rightarrow> nat \<Rightarrow> u32 \<Rightarrow> u32 list" where
  "set_pages ps i 0 protect = ps"
| "set_pages ps i (Suc n) protect = set_pages (ps[i := protect]) (i + 1) n protect"

definition markCommitted :: "nat \<Rightarrow> VirtualAllocation \<Rightarrow> nat \<Rightarrow> nat \<Rightarrow> u32 \<Rightarrow> VirtualAllocation" where
  "markCommitted pg region start len protect =
     (if len = 0 then region
      else region\<lparr>pageProtect := set_pages (pageProtect region) (subp start (vbase region) div pg) (len div pg) protect\<rparr>)"

definition markDecommitted :: "nat \<Rightarrow> VirtualAllocation \<Rightarrow> nat \<Rightarrow> nat \<Rightarrow> VirtualAllocation" where
  "markDecommitted pg region start len =
     (if len = 0 then region
      else region\<lparr>pageProtect := set_pages (pageProtect region) (subp start (vbase region) div pg) (len div pg) 0\<rparr>)"

section \<open>Mappings\<close>

fun overlap_loop :: "nat \<Rightarrow> nat \<Rightarrow> (nat \<times> MEMORY_BASIC_INFORMATION) list \<Rightarrow> bool" where
  "overlap_loop base e [] = False"
| "overlap_loop base e ((k, info) # ms) =
     (if RegionSize info = 0 then overlap_loop base e ms
      else if addp (BaseAddress info) (RegionSize info) \<le> base then overlap_loop base e ms
      else if BaseAddress info \<ge> e then False
      else True)"

definition overlapsExistingMapping :: "nat \<Rightarrow> nat \<Rightarrow> VmState \<Rightarrow> bool" where
  "overlapsExistingMapping base len s =
     (if len = 0 then False
      else if addOverflows base (len - 1) then True
      else overlap_loop base (addp base len) (from_last_at_most base (g_mappings s)))"

definition recordGuestMapping :: "nat \<Rightarrow> nat \<Rightarrow> u32 \<Rightarrow> u32 \<Rightarrow> u32 \<Rightarrow> u32 \<Rightarrow> VmState \<Rightarrow> VmState" where
  "recordGuestMapping base len aprot state protect type s =
     s\<lparr>g_mappings := omap_put base
        \<lparr>BaseAddress = base, AllocationBase = base, AllocationProtect = aprot, RegionSize = len,
         MemState = state, Protect = protect, MemType = type\<rparr> (g_mappings s)\<rparr>"

definition eraseGuestMapping :: "nat \<Rightarrow> VmState \<Rightarrow> VmState" where
  "eraseGuestMapping base s = s\<lparr>g_mappings := omap_erase base (g_mappings s)\<rparr>"

definition posixProtectFromWin32 :: "u32 \<Rightarrow> nat" where
  "posixProtectFromWin32 flProtect =
     (let p = flProtect AND 0xFF in
      if p = PAGE_NOACCESS then PROT_NONE
      else if p = PAGE_READONLY then PROT_READ
      else if p = PAGE_READWRITE \<or> p = PAGE_WRITECOPY then PROT_READ + PROT_WRITE
      else if p = PAGE_EXECUTE then PROT_EXEC
      else if p = PAGE_EXECUTE_READ then PROT_READ + PROT_EXEC
      else if p = PAGE_EXECUTE_READWRITE \<or> p = PAGE_EXECUTE_WRITECOPY then PROT_READ + PROT_WRITE + PROT_EXEC
      else PROT_READ + PROT_WRITE)"

fun vmStatusFromErrno :: "errno \<Rightarrow> VmStatus" where
  "vmStatusFromErrno ENOMEM = NoMemory"
| "vmStatusFromErrno EACCES = NoAccess"
| "vmStatusFromErrno EPERM = NoAccess"
| "vmStatusFromErrno EINVAL = InvalidParameter"
| "vmStatusFromErrno EBUSY = Rejected"
| "vmStatusFromErrno _ = UnknownError"

text \<open>The summary of the pages: all committed, any committed, the first protection, uniform.\<close>

fun page_summary :: "u32 list \<Rightarrow> bool \<times> bool \<times> u32 \<times> bool \<Rightarrow> bool \<times> bool \<times> u32 \<times> bool" where
  "page_summary [] acc = acc"
| "page_summary (p # ps) (allC, anyC, firstP, unif) =
     (if p = 0 then page_summary ps (False, anyC, firstP, unif)
      else page_summary ps (allC, True, if firstP = 0 then p else firstP,
             if firstP \<noteq> 0 \<and> firstP \<noteq> p then False else unif))"

definition refreshGuestMapping :: "VirtualAllocation \<Rightarrow> VmState \<Rightarrow> VmState" where
  "refreshGuestMapping region s =
     (case page_summary (pageProtect region) (True, False, 0, True) of
        (allCommitted, anyCommitted, firstProtect, uniformProtect) \<Rightarrow>
          (let state = (if allCommitted \<and> anyCommitted then MEM_COMMIT else MEM_RESERVE);
               protect = (if state = MEM_COMMIT \<and> uniformProtect \<and> firstProtect \<noteq> 0 then firstProtect
                          else PAGE_NOACCESS);
               aprot = (if allocationProtect region \<noteq> 0 then allocationProtect region else PAGE_NOACCESS)
           in recordGuestMapping (vbase region) (vsize region) aprot state protect (vtype region) s))"

definition put_region :: "VirtualAllocation \<Rightarrow> VmState \<Rightarrow> VmState" where
  "put_region region s = s\<lparr>g_virtualAllocations := omap_put (vbase region) region (g_virtualAllocations s)\<rparr>"

section \<open>The search for free address space\<close>

definition tryGap :: "nat \<Rightarrow> bool \<Rightarrow> nat \<Rightarrow> nat \<Rightarrow> nat option" where
  "tryGap alignedSize preferTop gapStart gapEnd =
     (if gapEnd \<le> gapStart then None
      else let lower = alignUp gapStart kVirtualAllocationGranularity in
        if lower \<ge> gapEnd then None
        else if \<not> preferTop then (if addp lower alignedSize \<le> gapEnd then Some lower else None)
        else if gapEnd < alignedSize then None
        else let chosen = alignDown (subp gapEnd alignedSize) kVirtualAllocationGranularity in
          if chosen < lower then None
          else if addp chosen alignedSize > gapEnd then None
          else Some chosen)"

text \<open>A gap: an address to return at once, or the best candidate so far.\<close>

definition considerGap :: "nat \<Rightarrow> bool \<Rightarrow> nat \<Rightarrow> nat \<Rightarrow> nat option \<Rightarrow> nat + nat option" where
  "considerGap alignedSize preferTop gapStart gapEnd best =
     (case tryGap alignedSize preferTop gapStart gapEnd of
        None \<Rightarrow> Inr best
      | Some c \<Rightarrow> if \<not> preferTop then Inl c
                 else Inr (case best of None \<Rightarrow> Some c | Some b \<Rightarrow> if c > b then Some c else Some b))"

definition last_gap :: "nat \<Rightarrow> bool \<Rightarrow> nat \<Rightarrow> nat \<Rightarrow> nat option \<Rightarrow> nat option" where
  "last_gap alignedSize preferTop searchMax cursor best =
     (case (if cursor < searchMax then considerGap alignedSize preferTop cursor searchMax best else Inr best) of
        Inl r \<Rightarrow> Some r
      | Inr b \<Rightarrow> b)"

fun gap_loop :: "nat \<Rightarrow> nat \<Rightarrow> bool \<Rightarrow> nat \<Rightarrow> nat \<Rightarrow> (nat \<times> MEMORY_BASIC_INFORMATION) list
    \<Rightarrow> nat \<Rightarrow> nat option \<Rightarrow> nat option" where
  "gap_loop pg alignedSize preferTop searchMin searchMax [] cursor best =
     last_gap alignedSize preferTop searchMax cursor best"
| "gap_loop pg alignedSize preferTop searchMin searchMax ((mapStart, info) # ms) cursor best =
     (let mapEnd = addp mapStart (RegionSize info) in
      if mapEnd \<le> searchMin then gap_loop pg alignedSize preferTop searchMin searchMax ms cursor best
      else if mapStart \<ge> searchMax then
        (case considerGap alignedSize preferTop cursor searchMax best of
           Inl r \<Rightarrow> Some r
         | Inr best' \<Rightarrow> last_gap alignedSize preferTop searchMax cursor best')
      else
        (case (if mapStart > cursor then considerGap alignedSize preferTop cursor (min mapStart searchMax) best
               else Inr best) of
           Inl r \<Rightarrow> Some r
         | Inr best' \<Rightarrow>
             (let cursor' = (if mapEnd > cursor then alignUp mapEnd pg else cursor) in
              if cursor' \<ge> searchMax then last_gap alignedSize preferTop searchMax cursor' best'
              else gap_loop pg alignedSize preferTop searchMin searchMax ms cursor' best')))"

definition findFreeMapping :: "nat \<Rightarrow> nat \<Rightarrow> nat \<Rightarrow> nat \<Rightarrow> bool \<Rightarrow> VmState \<Rightarrow> nat option" where
  "findFreeMapping pg len minAddr maxAddr preferTop s =
     (let alignedSize = alignUp len pg in
      if len = 0 \<or> maxAddr \<le> minAddr \<or> alignedSize > maxAddr - minAddr then None
      else gap_loop pg alignedSize preferTop minAddr maxAddr (g_mappings s)
             (alignUp minAddr kVirtualAllocationGranularity) None)"

section \<open>Reserve, commit, release\<close>

text \<open>\<^verbatim>\<open>madvise\<close> takes a range and leaves its protection.\<close>

definition virtualReset :: "nat \<Rightarrow> (nat \<Rightarrow> nat \<Rightarrow> errno option) \<Rightarrow> nat \<Rightarrow> nat \<Rightarrow> VmState \<Rightarrow> VmStatus" where
  "virtualReset pg madvise baseAddress regionSize s =
     (if baseAddress = 0 then InvalidAddress
      else if regionSize = 0 then InvalidParameter
      else if addOverflows baseAddress regionSize then InvalidParameter
      else let start = alignDown baseAddress pg;
               e = alignUp (addp baseAddress regionSize) pg;
               len = subp e start in
        if len = 0 then InvalidParameter
        else case findRegion start s of
          None \<Rightarrow> InvalidAddress
        | Some region \<Rightarrow>
            if \<not> rangeWithinRegion region start len then InvalidAddress
            else case madvise start len of Some err \<Rightarrow> vmStatusFromErrno err | None \<Rightarrow> Success)"

text \<open>
  The base and length a reservation uses: at the requested address, or at a free place. \<open>Inl\<close> is
  the status of a refusal.
\<close>

definition reserve_place :: "nat \<Rightarrow> nat \<Rightarrow> nat \<Rightarrow> bool \<Rightarrow> VmState \<Rightarrow> VmStatus + nat \<times> nat" where
  "reserve_place pg request requestedSize topDown s =
     (if request \<noteq> 0 then
        (let base = alignDown request kVirtualAllocationGranularity;
             offset = subp request base in
         if addOverflows offset requestedSize then Inl InvalidParameter
         else let len = alignUp (addp requestedSize offset) pg in
           if len = 0 then Inl InvalidParameter
           else if base \<ge> kTwoGB \<or> addp base len > kTwoGB then Inl InvalidAddress
           else if overlapsExistingMapping base len s then Inl InvalidAddress
           else Inr (base, len))
      else
        (let len = alignUp requestedSize pg in
         if len = 0 then Inl InvalidParameter
         else case findFreeMapping pg len kLowMemoryStart kTopDownStart topDown s of
           None \<Rightarrow> Inl NoMemory
         | Some base \<Rightarrow> if base \<ge> kTwoGB \<or> addp base len > kTwoGB then Inl NoMemory else Inr (base, len)))"

definition virtualReserve :: "nat \<Rightarrow> mmap_fn \<Rightarrow> nat \<Rightarrow> nat \<Rightarrow> bool \<Rightarrow> bool \<Rightarrow> u32 \<Rightarrow> u32 \<Rightarrow> VmState
    \<Rightarrow> (VmStatus \<times> nat \<times> nat) \<times> VmState" where
  "virtualReserve pg mmap request requestedSize topDown commit protect type s =
     (case reserve_place pg request requestedSize topDown s of
        Inl st \<Rightarrow> ((st, request, requestedSize), s)
      | Inr (base, len) \<Rightarrow>
          (case host_call mmap base len (if commit then posixProtectFromWin32 protect else PROT_NONE) s of
             (Some err, s') \<Rightarrow> ((vmStatusFromErrno err, request, requestedSize), s')
           | (None, s') \<Rightarrow>
               (let region = \<lparr>vbase = base, vsize = len, allocationProtect = protect, vtype = type,
                              pageProtect = replicate (len div pg) (if commit then protect else 0)\<rparr>
                in ((Success, base, len), refreshGuestMapping region (put_region region s')))))"

text \<open>The runs of uncommitted pages among \<open>n\<close> pages from page \<open>fp\<close> on; \<open>None\<close>: outside the region.\<close>

function run_len :: "u32 list \<Rightarrow> nat \<Rightarrow> nat \<Rightarrow> nat \<Rightarrow> nat" where
  "run_len ps fp n i = (if i + 1 < n \<and> ps ! (fp + i + 1) = 0 then 1 + run_len ps fp n (i + 1) else 1)"
  by pat_completeness auto
termination by (relation "measure (\<lambda>(ps, fp, n, i). n - i)") auto

declare run_len.simps [simp del]

lemma run_len_pos: "0 < run_len ps fp n i" by (subst run_len.simps) simp

function commit_runs :: "u32 list \<Rightarrow> nat \<Rightarrow> nat \<Rightarrow> nat \<Rightarrow> (nat \<times> nat) list option" where
  "commit_runs ps fp n i =
     (if i \<ge> n then Some []
      else if fp + i \<ge> length ps then None
      else if ps ! (fp + i) \<noteq> 0 then commit_runs ps fp n (i + 1)
      else map_option (Cons (i, run_len ps fp n i)) (commit_runs ps fp n (i + run_len ps fp n i)))"
  by pat_completeness auto
termination by (relation "measure (\<lambda>(ps, fp, n, i). n - i)") (auto intro!: diff_less_mono2 simp: run_len_pos)

declare commit_runs.simps [simp del]

fun commit_loop :: "nat \<Rightarrow> mmap_fn \<Rightarrow> u32 \<Rightarrow> (nat \<times> nat) list \<Rightarrow> VirtualAllocation \<Rightarrow> VmState
    \<Rightarrow> errno option \<times> VirtualAllocation \<times> VmState" where
  "commit_loop pg mmap protect [] region s = (None, region, s)"
| "commit_loop pg mmap protect ((b, l) # runs) region s =
     (case host_call mmap b l (posixProtectFromWin32 protect) s of
        (Some err, s') \<Rightarrow> (Some err, region, s')
      | (None, s') \<Rightarrow> commit_loop pg mmap protect runs (markCommitted pg region b l protect) s')"

definition virtualCommit :: "nat \<Rightarrow> mmap_fn \<Rightarrow> nat \<Rightarrow> nat \<Rightarrow> u32 \<Rightarrow> VmState \<Rightarrow> (VmStatus \<times> nat \<times> nat) \<times> VmState" where
  "virtualCommit pg mmap request requestedSize protect s =
     (let fail = (\<lambda>st. ((st, request, requestedSize), s)) in
      if request = 0 then fail InvalidAddress
      else if addOverflows request requestedSize then fail InvalidParameter
      else let start = alignDown request pg;
               e = alignUp (addp request requestedSize) pg;
               len = subp e start in
        if len = 0 then fail InvalidParameter
        else case findRegion start s of
          None \<Rightarrow> fail InvalidAddress
        | Some region \<Rightarrow>
            if \<not> rangeWithinRegion region start len then fail InvalidAddress
            else case commit_runs (pageProtect region) (subp start (vbase region) div pg) (len div pg) 0 of
              None \<Rightarrow> fail InvalidAddress
            | Some runs \<Rightarrow>
                (case commit_loop pg mmap protect (map (\<lambda>(i, l). (addp start (i * pg), l * pg)) runs) region s of
                   (Some err, region', s') \<Rightarrow> ((vmStatusFromErrno err, request, requestedSize), put_region region' s')
                 | (None, region', s') \<Rightarrow> ((Success, start, len), refreshGuestMapping region' (put_region region' s'))))"

definition virtualAlloc :: "nat \<Rightarrow> mmap_fn \<Rightarrow> (nat \<Rightarrow> nat \<Rightarrow> errno option) \<Rightarrow> nat \<Rightarrow> nat \<Rightarrow> u32 \<Rightarrow> u32 \<Rightarrow> u32 \<Rightarrow> VmState
    \<Rightarrow> (VmStatus \<times> nat \<times> nat) \<times> VmState" where
  "virtualAlloc pg mmap madvise requestedAddress requestedSize allocationType protect type s =
     (let fail = (\<lambda>st. ((st, requestedAddress, requestedSize), s));
          reserve0 = (allocationType AND MEM_RESERVE \<noteq> 0);
          commit = (allocationType AND MEM_COMMIT \<noteq> 0);
          reset = (allocationType AND MEM_RESET \<noteq> 0);
          topDown = (allocationType AND MEM_TOP_DOWN \<noteq> 0);
          reserve = (if \<not> reserve0 \<and> commit \<and> requestedAddress = 0 then True else reserve0)
      in if requestedSize = 0 then fail InvalidParameter
         else if allocationType AND (MEM_WRITE_WATCH OR MEM_PHYSICAL OR MEM_LARGE_PAGES OR MEM_RESET_UNDO) \<noteq> 0
         then fail NotSupported
         else if reset then
           if reserve \<or> commit then fail InvalidParameter
           else if requestedAddress = 0 then fail InvalidAddress
           else let start = alignDown requestedAddress pg;
                    e = alignUp (addp requestedAddress requestedSize) pg;
                    st = virtualReset pg madvise requestedAddress requestedSize s in
             if st = Success then ((Success, start, subp e start), s) else fail st
         else if \<not> reserve \<and> \<not> commit then fail InvalidParameter
         else if reserve then virtualReserve pg mmap requestedAddress requestedSize topDown commit protect type s
         else virtualCommit pg mmap requestedAddress requestedSize protect s)"

definition virtualRelease :: "mmap_fn \<Rightarrow> nat \<Rightarrow> nat \<Rightarrow> VmState \<Rightarrow> VmStatus \<times> VmState" where
  "virtualRelease mmap base regionSize s =
     (case map_of (g_virtualAllocations s) base of
        None \<Rightarrow> if regionSize \<noteq> 0 \<and> findRegion base s \<noteq> None then (InvalidParameter, s) else (InvalidAddress, s)
      | Some region \<Rightarrow>
          if regionSize \<noteq> 0 then (InvalidParameter, s)
          else let s1 = s\<lparr>g_virtualAllocations := omap_erase base (g_virtualAllocations s)\<rparr> in
            case host_call mmap base (vsize region) PROT_NONE s1 of
              (Some err, s2) \<Rightarrow> (vmStatusFromErrno err, s2)
            | (None, s2) \<Rightarrow> (Success, eraseGuestMapping base s2))"

definition virtualDecommit :: "nat \<Rightarrow> mmap_fn \<Rightarrow> nat \<Rightarrow> nat \<Rightarrow> VmState \<Rightarrow> VmStatus \<times> VmState" where
  "virtualDecommit pg mmap request regionSize s =
     (case findRegion request s of
        None \<Rightarrow> (InvalidAddress, s)
      | Some region \<Rightarrow>
          if regionSize = 0 \<and> request \<noteq> vbase region then (InvalidParameter, s)
          else if regionSize \<noteq> 0 \<and> addOverflows request regionSize then (InvalidParameter, s)
          else let start = (if regionSize = 0 then vbase region else alignDown request pg);
                   e = (if regionSize = 0 then addp (vbase region) (vsize region)
                        else alignUp (addp request regionSize) pg) in
            if e \<le> start then (InvalidParameter, s)
            else let len = subp e start in
              if \<not> rangeWithinRegion region start len then (InvalidAddress, s)
              else case host_call mmap start len PROT_NONE s of
                (Some err, s') \<Rightarrow> (vmStatusFromErrno err, s')
              | (None, s') \<Rightarrow> (let region' = markDecommitted pg region start len
                              in (Success, refreshGuestMapping region' (put_region region' s'))))"

definition virtualFree :: "nat \<Rightarrow> mmap_fn \<Rightarrow> nat \<Rightarrow> nat \<Rightarrow> u32 \<Rightarrow> VmState \<Rightarrow> VmStatus \<times> VmState" where
  "virtualFree pg mmap baseAddress regionSize freeType s =
     (let release = (freeType AND MEM_RELEASE \<noteq> 0); decommit = (freeType AND MEM_DECOMMIT \<noteq> 0) in
      if baseAddress = 0 then (InvalidAddress, s)
      else if freeType AND (MEM_COALESCE_PLACEHOLDERS OR MEM_PRESERVE_PLACEHOLDER) \<noteq> 0 then (NotSupported, s)
      else if release = decommit then (InvalidParameter, s)
      else if release then virtualRelease mmap baseAddress regionSize s
      else virtualDecommit pg mmap baseAddress regionSize s)"

section \<open>Protect and query\<close>

definition virtualProtect :: "nat \<Rightarrow> mmap_fn \<Rightarrow> nat \<Rightarrow> nat \<Rightarrow> u32 \<Rightarrow> VmState \<Rightarrow> (VmStatus \<times> u32) \<times> VmState" where
  "virtualProtect pg mprotect baseAddress regionSize newProtect s =
     (let fail = (\<lambda>st. ((st, 0), s)) in
      if baseAddress = 0 \<or> regionSize = 0 then fail InvalidParameter
      else let start = alignDown baseAddress pg;
               e = alignUp (addp baseAddress regionSize) pg in
        if e \<le> start then fail InvalidParameter
        else case findRegion start s of
          None \<Rightarrow> fail InvalidAddress
        | Some region \<Rightarrow>
            if \<not> rangeWithinRegion region start (subp e start) then fail InvalidAddress
            else let fp = subp start (vbase region) div pg; n = subp e start div pg;
                     prev = pageProtect region ! fp in
              if n = 0 then fail InvalidParameter
              else if prev = 0 then fail NoAccess
              else if list_ex (\<lambda>p. p = 0) (take n (drop fp (pageProtect region))) then fail NoAccess
              else case host_call mprotect start (subp e start) (posixProtectFromWin32 newProtect) s of
                (Some err, s') \<Rightarrow> fail (vmStatusFromErrno err)
              | (None, s') \<Rightarrow>
                  (let region' = region\<lparr>pageProtect := set_pages (pageProtect region) fp n newProtect\<rparr>
                   in ((Success, prev), refreshGuestMapping region' (put_region region' s'))))"

text \<open>
  The block of equal pages around a page, as page indices of the region: the loops that move
  \<^verbatim>\<open>blockStart\<close> down and \<^verbatim>\<open>blockEnd\<close> up.
\<close>

definition same_block :: "u32 \<Rightarrow> u32 \<Rightarrow> bool" where
  "same_block pageProt protect \<longleftrightarrow>
     \<not> ((protect \<noteq> 0) \<noteq> (pageProt \<noteq> 0)) \<and> \<not> (pageProt \<noteq> 0 \<and> protect \<noteq> pageProt)"

fun block_start :: "u32 list \<Rightarrow> u32 \<Rightarrow> nat \<Rightarrow> nat" where
  "block_start ps prot 0 = 0"
| "block_start ps prot (Suc i) = (if same_block prot (ps ! i) then block_start ps prot i else Suc i)"

function block_end :: "u32 list \<Rightarrow> u32 \<Rightarrow> nat \<Rightarrow> nat" where
  "block_end ps prot i = (if i < length ps \<and> same_block prot (ps ! i) then block_end ps prot (i + 1) else i)"
  by pat_completeness auto
termination by (relation "measure (\<lambda>(ps, prot, i). length ps - i)") auto

declare block_end.simps [simp del]

definition virtualQuery :: "nat \<Rightarrow> nat \<Rightarrow> VmState \<Rightarrow> VmStatus + MEMORY_BASIC_INFORMATION" where
  "virtualQuery pg request s =
     (if request \<ge> kTwoGB then Inl InvalidParameter
      else let pageBase = alignDown request pg in
        case findRegion pageBase s of
          None \<Rightarrow>
            (let next = (case dropWhile (\<lambda>e. fst e < pageBase) (g_virtualAllocations s) of
                           [] \<Rightarrow> kTwoGB | (b, r) # _ \<Rightarrow> vbase r);
                 e = (if next \<le> pageBase then addp pageBase pg else next)
             in Inr \<lparr>BaseAddress = pageBase, AllocationBase = 0, AllocationProtect = 0,
                     RegionSize = subp e pageBase, MemState = MEM_FREE, Protect = PAGE_NOACCESS, MemType = 0\<rparr>)
        | Some region \<Rightarrow>
            (let i = subp pageBase (vbase region) div pg in
             if i \<ge> length (pageProtect region) then Inl InvalidAddress
             else let prot = pageProtect region ! i;
                      lo = block_start (pageProtect region) prot i;
                      hi = block_end (pageProtect region) prot (i + 1)
               in Inr \<lparr>BaseAddress = vbase region + lo * pg, AllocationBase = vbase region,
                       AllocationProtect = (if allocationProtect region \<noteq> 0 then allocationProtect region
                                            else PAGE_NOACCESS),
                       RegionSize = (hi - lo) * pg,
                       MemState = (if prot \<noteq> 0 then MEM_COMMIT else MEM_RESERVE),
                       Protect = (if prot \<noteq> 0 then prot else PAGE_NOACCESS),
                       MemType = vtype region\<rparr>))"

section \<open>Views and stacks\<close>

definition reserveViewRange :: "nat \<Rightarrow> nat \<Rightarrow> nat \<Rightarrow> nat \<Rightarrow> VmState \<Rightarrow> (VmStatus \<times> nat) \<times> VmState" where
  "reserveViewRange pg regionSize minAddr maxAddr s =
     (let aligned = alignUp regionSize pg;
          lo = (if minAddr = 0 then kLowMemoryStart else minAddr);
          hi = (if maxAddr = 0 then kTopDownStart else maxAddr) in
      if regionSize = 0 \<or> aligned = 0 then ((InvalidParameter, 0), s)
      else if lo \<ge> hi \<or> aligned > hi - lo then ((InvalidParameter, 0), s)
      else case findFreeMapping pg aligned lo hi False s of
        None \<Rightarrow> ((NoMemory, 0), s)
      | Some c \<Rightarrow> ((Success, c), recordGuestMapping c aligned PAGE_NOACCESS MEM_RESERVE PAGE_NOACCESS MEM_MAPPED s))"

definition registerViewRange :: "nat \<Rightarrow> nat \<Rightarrow> nat \<Rightarrow> u32 \<Rightarrow> u32 \<Rightarrow> VmState \<Rightarrow> VmState" where
  "registerViewRange pg baseAddress regionSize aprot protect s =
     (if baseAddress = 0 then s
      else recordGuestMapping baseAddress (alignUp regionSize pg) aprot MEM_COMMIT protect MEM_MAPPED s)"

definition releaseViewRange :: "nat \<Rightarrow> VmState \<Rightarrow> VmState" where
  "releaseViewRange baseAddress s = (if baseAddress = 0 then s else eraseGuestMapping baseAddress s)"

definition mapAtAddr :: "mmap_fn \<Rightarrow> nat \<Rightarrow> nat \<Rightarrow> VmState \<Rightarrow> bool \<times> VmState" where
  "mapAtAddr mmap addr len s =
     (case host_call mmap addr len (PROT_READ + PROT_WRITE) s of
        (Some _, s') \<Rightarrow> (False, s')
      | (None, s') \<Rightarrow> (True, recordGuestMapping addr len PAGE_READWRITE MEM_RESERVE PAGE_READWRITE MEM_PRIVATE s'))"

definition mapArena :: "nat \<Rightarrow> mmap_fn \<Rightarrow> nat \<Rightarrow> nat \<Rightarrow> nat \<Rightarrow> bool \<Rightarrow> VmState \<Rightarrow> (nat \<times> nat) option \<times> VmState" where
  "mapArena pg mmap len0 minAddr maxAddr preferTop s =
     (let len = alignDown (addp len0 (pg - 1)) pg in
      case findFreeMapping pg len minAddr maxAddr preferTop s of
        None \<Rightarrow> (None, s)
      | Some cand \<Rightarrow>
          (case mapAtAddr mmap cand len s of
             (True, s') \<Rightarrow> (Some (cand, len), s')
           | (False, s') \<Rightarrow> (None, s')))"

text \<open>\<^verbatim>\<open>reserveGuestStack\<close>: the limit above the guard page and the base at the top.\<close>

definition reserveGuestStack :: "nat \<Rightarrow> mmap_fn \<Rightarrow> mmap_fn \<Rightarrow> nat \<Rightarrow> VmState \<Rightarrow> (nat \<times> nat) option \<times> VmState" where
  "reserveGuestStack pg mmap mprotect stackSizeBytes s =
     (let total = alignDown (addp stackSizeBytes (2 * pg - 1)) pg in
      case mapArena pg mmap total kLowMemoryStart kTwoGB True s of
        (None, s') \<Rightarrow> (None, s')
      | (Some (start, len), s') \<Rightarrow>
          (Some (addp start pg, addp start len), snd (host_call mprotect start pg PROT_NONE s')))"

fun win32ErrorFromVmStatus :: "VmStatus \<Rightarrow> u32" where
  "win32ErrorFromVmStatus Success = ERROR_SUCCESS"
| "win32ErrorFromVmStatus InvalidParameter = ERROR_INVALID_PARAMETER"
| "win32ErrorFromVmStatus InvalidAddress = ERROR_INVALID_ADDRESS"
| "win32ErrorFromVmStatus Rejected = ERROR_INVALID_ADDRESS"
| "win32ErrorFromVmStatus NoAccess = ERROR_NOACCESS"
| "win32ErrorFromVmStatus NotSupported = ERROR_NOT_SUPPORTED"
| "win32ErrorFromVmStatus NoMemory = ERROR_NOT_ENOUGH_MEMORY"
| "win32ErrorFromVmStatus UnknownError = ERROR_INVALID_PARAMETER"

end
