(* ===== verification/Free_Space_Search.thy ===== *)
theory Free_Space_Search
  imports Virtual_Memory
begin

unbundle bit_operations_syntax

text \<open>
  The search for free address space of \<^verbatim>\<open>src/src/heap.cpp\<close> (\<^const>\<open>findFreeMapping\<close>): the loop over
  the gaps between mappings returns the lowest, or with \<^verbatim>\<open>preferTop\<close> the highest, aligned place of the
  wanted size that no mapping overlaps, and nothing only if there is none.
\<close>

section \<open>The search finds the first or the last free place\<close>

definition page_size :: "nat \<Rightarrow> bool" where
  "page_size pg \<longleftrightarrow> alignment pg \<and> pg dvd kVirtualAllocationGranularity"

lemma granularity_alignment: "alignment kVirtualAllocationGranularity"
  unfolding alignment_def kVirtualAllocationGranularity_def by (rule exI [of _ 16]) simp

lemma page_size_le: "page_size pg \<Longrightarrow> 0 < pg \<and> pg \<le> 65536"
  using alignment_pos [of pg] dvd_imp_le [of pg 65536] by (auto simp: page_size_def kVirtualAllocationGranularity_def)

text \<open>An aligned place of the wanted size between two addresses.\<close>

definition place :: "nat \<Rightarrow> nat \<Rightarrow> nat \<Rightarrow> nat \<Rightarrow> bool" where
  "place al lo hi x \<longleftrightarrow> kVirtualAllocationGranularity dvd x \<and> lo \<le> x \<and> x + al \<le> hi"

text \<open>The best of some places: the lowest, or the highest when the top is preferred.\<close>

definition best_of :: "bool \<Rightarrow> (nat \<Rightarrow> bool) \<Rightarrow> nat option \<Rightarrow> bool" where
  "best_of tp P r = (case r of None \<Rightarrow> (\<forall>x. \<not> P x)
     | Some b \<Rightarrow> P b \<and> (\<forall>x. P x \<longrightarrow> (if tp then x \<le> b else b \<le> x)))"

lemma tryGap_best:
  assumes al: "0 < al" "al \<le> 2 ^ 31" and ge: "ge \<le> 2 ^ 31"
  shows "best_of tp (place al gs ge) (tryGap al tp gs ge)"
proof (cases "ge \<le> gs")
  case True
  with al(1) show ?thesis by (auto simp: tryGap_def best_of_def place_def)
next
  case False
  define G where "G = kVirtualAllocationGranularity"
  have Gv: "G = 65536" by (simp add: G_def kVirtualAllocationGranularity_def)
  have gG: "gs + G \<le> 2 ^ 32" using False ge Gv by simp
  note GA = granularity_alignment [folded G_def]
  define lower where "lower = alignUp gs G"
  note lo = alignUp_props [OF GA gG, folded lower_def]
  have least: "lower \<le> x" if "G dvd x" "gs \<le> x" for x
    using alignUp_least [OF GA gG that] by (simp add: lower_def)
  show ?thesis
  proof (cases "lower \<ge> ge")
    case True
    have "\<not> place al gs ge x" for x
      using least [of x] True al(1) by (auto simp: place_def G_def [symmetric])
    with False True show ?thesis by (simp add: tryGap_def best_of_def lower_def G_def Let_def)
  next
    case lt: False
    show ?thesis
    proof (cases tp)
      case False
      have a: "addp lower al = lower + al" using lt ge al by (simp add: addp_eq)
      have t: "tryGap al False gs ge = (if lower + al \<le> ge then Some lower else None)"
        using \<open>\<not> ge \<le> gs\<close> lt a by (simp add: tryGap_def lower_def G_def Let_def)
      have pl: "lower \<le> x" if "place al gs ge x" for x using least [of x] that by (simp add: place_def G_def)
      show ?thesis
      proof (cases "lower + al \<le> ge")
        case True
        then have "place al gs ge lower" using lo by (simp add: place_def G_def [symmetric])
        with t True pl \<open>\<not> tp\<close> show ?thesis by (simp add: best_of_def)
      next
        case nofit: False
        then have "\<not> place al gs ge x" for x using pl [of x] by (auto simp: place_def)
        with t nofit \<open>\<not> tp\<close> show ?thesis by (simp add: best_of_def)
      qed
    next
      case True
      show ?thesis
      proof (cases "ge < al")
        case True
        then have "\<not> place al gs ge x" for x by (auto simp: place_def)
        with \<open>tp\<close> \<open>\<not> ge \<le> gs\<close> lt True show ?thesis
          by (simp add: tryGap_def best_of_def lower_def G_def Let_def)
      next
        case fit: False
        define c where "c = alignDown (ge - al) G"
        have gl: "ge - al < 2 ^ 32" using ge by simp
        note cp = alignDown_props [OF GA gl, folded c_def]
        have s: "subp ge al = ge - al" using fit ge by (simp add: subp_eq)
        have a: "addp c al = c + al" using cp(1) fit ge al by (simp add: addp_eq)
        have ca: "c + al \<le> ge" using cp(1) fit by linarith
        have t: "tryGap al True gs ge = (if c < lower then None else Some c)"
          using \<open>\<not> ge \<le> gs\<close> lt fit s a ca by (simp add: tryGap_def lower_def c_def G_def Let_def)
        have up: "x \<le> c" if "place al gs ge x" for x
          using alignDown_greatest [OF GA gl, of x] that fit by (auto simp: place_def c_def G_def)
        have low: "lower \<le> x" if "place al gs ge x" for x using least [of x] that by (simp add: place_def G_def)
        show ?thesis
        proof (cases "c < lower")
          case True
          then have "\<not> place al gs ge x" for x using up [of x] low [of x] by linarith
          with t True \<open>tp\<close> show ?thesis by (simp add: best_of_def)
        next
          case False
          then have "place al gs ge c" using cp(3) ca lo(1) by (simp add: place_def G_def [symmetric])
          with t False \<open>tp\<close> up show ?thesis by (simp add: best_of_def)
        qed
      qed
    qed
  qed
qed

text \<open>The free places of a search, and the state of the loop.\<close>

definition candidate :: "(nat \<times> MEMORY_BASIC_INFORMATION) list \<Rightarrow> nat \<Rightarrow> nat \<Rightarrow> nat \<Rightarrow> nat \<Rightarrow> bool" where
  "candidate m al lo hi x \<longleftrightarrow> place al lo hi x \<and> free_range RegionSize m x al"

definition loop_ok :: "bool \<Rightarrow> (nat \<Rightarrow> bool) \<Rightarrow> nat \<Rightarrow> nat option \<Rightarrow> bool" where
  "loop_ok tp P cursor best \<longleftrightarrow>
     (if tp then best_of True (\<lambda>x. P x \<and> x < cursor) best else best = None \<and> (\<forall>x. P x \<longrightarrow> cursor \<le> x))"

lemma considerGap_step:
  assumes lo: "loop_ok tp P c best" and tb: "best_of tp Q (tryGap al tp c ge)"
    and Q: "\<And>x. P x \<and> c \<le> x \<and> x < c' \<longleftrightarrow> Q x" and cc: "c \<le> c'"
  shows "case considerGap al tp c ge best of Inl r \<Rightarrow> \<not> tp \<and> best_of tp P (Some r)
         | Inr b \<Rightarrow> loop_ok tp P c' b"
proof (cases tp)
  case False
  with lo have b: "best = None" "\<And>x. P x \<Longrightarrow> c \<le> x" by (auto simp: loop_ok_def)
  show ?thesis
  proof (cases "tryGap al tp c ge")
    case None
    then have "\<not> Q x" for x using tb by (simp add: best_of_def)
    then have "P x \<Longrightarrow> c' \<le> x" for x using Q [of x] b(2) [of x] by fastforce
    with None False b show ?thesis by (simp add: considerGap_def loop_ok_def)
  next
    case (Some r)
    with tb False have r: "Q r" "\<And>x. Q x \<Longrightarrow> r \<le> x" by (auto simp: best_of_def)
    have "r \<le> x" if "P x" for x
      using Q [of x] Q [of r] r b(2) [OF that] that by (cases "x < c'") auto
    with Q [of r] r(1) Some False show ?thesis by (simp add: considerGap_def best_of_def)
  qed
next
  case True
  with lo have b: "best_of True (\<lambda>x. P x \<and> x < c) best" by (simp add: loop_ok_def)
  have split: "P x \<and> x < c' \<longleftrightarrow> (P x \<and> x < c) \<or> Q x" for x using Q [of x] cc by auto
  have below: "Q x \<Longrightarrow> P y \<and> y < c \<Longrightarrow> y < x" for x y using Q [of x] by auto
  show ?thesis
  proof (cases "tryGap al tp c ge")
    case None
    then have "\<not> Q x" for x using tb by (simp add: best_of_def)
    with b None True show ?thesis by (simp add: considerGap_def loop_ok_def split)
  next
    case (Some r)
    with tb True have r: "Q r" "\<And>x. Q x \<Longrightarrow> x \<le> r" by (auto simp: best_of_def)
    have m: "best_of True (\<lambda>x. P x \<and> x < c') (Some r)"
      unfolding best_of_def split using r below [OF r(1)] by (auto intro: less_imp_le)
    show ?thesis
    proof (cases best)
      case None
      with m Some True show ?thesis by (simp add: considerGap_def loop_ok_def)
    next
      case bs: (Some bb)
      with b have "P bb \<and> bb < c" by (simp add: best_of_def)
      with below [OF r(1)] have "bb < r" by blast
      with m Some True bs show ?thesis by (simp add: considerGap_def loop_ok_def)
    qed
  qed
qed


lemma loop_ok_final:
  assumes "loop_ok tp P c b" "\<And>x. P x \<Longrightarrow> x < c"
  shows "best_of tp P b"
proof (cases tp)
  case True
  have "(\<lambda>x. P x \<and> x < c) = P" using assms(2) by blast
  with assms(1) True show ?thesis by (simp add: loop_ok_def)
next
  case False
  with assms have "b = None" "\<And>x. \<not> P x" by (auto simp: loop_ok_def not_le [symmetric])
  then show ?thesis by (simp add: best_of_def)
qed

lemma loop_ok_advance:
  assumes "loop_ok tp P c b" "\<And>x. P x \<Longrightarrow> c \<le> x \<Longrightarrow> c' \<le> x" "c \<le> c'"
  shows "loop_ok tp P c' b"
proof (cases tp)
  case True
  have "(\<lambda>x. P x \<and> x < c') = (\<lambda>x. P x \<and> x < c)" using assms(2,3) by (auto simp: fun_eq_iff) (metis not_le)
  with assms(1) True show ?thesis by (simp add: loop_ok_def)
next
  case False
  with assms show ?thesis by (auto simp: loop_ok_def)
qed

lemma considerGap_twice: "considerGap al tp c ge best = Inr b \<Longrightarrow> considerGap al tp c ge b = Inr b"
  by (auto simp: considerGap_def split: option.splits if_splits)

lemma considerGap_empty: "ge \<le> c \<Longrightarrow> considerGap al tp c ge best = Inr best"
  by (simp add: considerGap_def tryGap_def)

text \<open>The facts a position of the loop rests on: \<open>dn\<close> are the mappings passed, \<open>rs\<close> those ahead.\<close>

definition gap_env :: "nat \<Rightarrow> nat \<Rightarrow> nat \<Rightarrow> (nat \<times> MEMORY_BASIC_INFORMATION) list \<Rightarrow> bool" where
  "gap_env pg al hi m \<longleftrightarrow> page_size pg \<and> 0 < al \<and> al \<le> 2 ^ 31 \<and> hi \<le> 2 ^ 31 \<and> regions_wf RegionSize m \<and>
     (\<forall>e \<in> set m. fst e + RegionSize (snd e) \<le> 2 ^ 31)"

definition pos_ok :: "(nat \<times> MEMORY_BASIC_INFORMATION) list \<Rightarrow> nat \<Rightarrow> nat \<Rightarrow> nat \<Rightarrow> bool
    \<Rightarrow> (nat \<times> MEMORY_BASIC_INFORMATION) list \<Rightarrow> (nat \<times> MEMORY_BASIC_INFORMATION) list
    \<Rightarrow> nat \<Rightarrow> nat option \<Rightarrow> bool" where
  "pos_ok m al lo hi tp dn rs c best \<longleftrightarrow> m = dn @ rs \<and> (\<forall>e \<in> set dn. fst e + RegionSize (snd e) \<le> c) \<and> lo \<le> c \<and>
     loop_ok tp (candidate m al lo hi) c best"

lemma candidate_hi: "0 < al \<Longrightarrow> candidate m al lo hi x \<Longrightarrow> x < hi"
  by (auto simp: candidate_def place_def)

lemma candidate_page: "page_size pg \<Longrightarrow> candidate m al lo hi x \<Longrightarrow> pg dvd x"
  by (auto simp: candidate_def place_def page_size_def intro: dvd_trans)

lemma gap_places:
  assumes p: "pos_ok m al lo hi tp dn rs c best" and ge: "ge \<le> hi" and rs: "\<forall>e \<in> set rs. ge \<le> fst e"
    and x: "place al c ge x"
  shows "candidate m al lo hi x"
proof -
  from p have m: "m = dn @ rs" and d: "\<forall>e \<in> set dn. fst e + RegionSize (snd e) \<le> c" and l: "lo \<le> c"
    by (auto simp: pos_ok_def)
  have "free_range RegionSize m x al"
    unfolding free_range_def
  proof
    fix e assume "e \<in> set m"
    with m consider "e \<in> set dn" | "e \<in> set rs" by auto
    then show "\<not> overlaps (fst e) (RegionSize (snd e)) x al"
    proof cases
      case 1
      with d x have "fst e + RegionSize (snd e) \<le> x" by (auto simp: place_def)
      then show ?thesis by (simp add: overlaps_def)
    next
      case 2
      with rs x have "x + al \<le> fst e" by (auto simp: place_def)
      then show ?thesis by (simp add: overlaps_def)
    qed
  qed
  moreover have "place al lo hi x" using x l ge by (auto simp: place_def)
  ultimately show ?thesis by (simp add: candidate_def)
qed

lemma last_gap_best:
  assumes G: "gap_env pg al hi m" and p: "pos_ok m al lo hi tp dn rs c best" and rs: "\<forall>e \<in> set rs. hi \<le> fst e"
  shows "best_of tp (candidate m al lo hi) (last_gap al tp hi c best)"
    and "case considerGap al tp c hi best of Inl r \<Rightarrow> best_of tp (candidate m al lo hi) (Some r)
         | Inr b \<Rightarrow> best_of tp (candidate m al lo hi) (last_gap al tp hi c b)"
proof -
  have lk: "loop_ok tp (candidate m al lo hi) c best" using p unfolding pos_ok_def by blast
  have al: "0 < al" "al \<le> 2 ^ 31" and hi: "hi \<le> 2 ^ 31" using G by (auto simp: gap_env_def)
  have candidate_hi: "candidate m al lo hi x \<Longrightarrow> x < hi" for x by (rule candidate_hi [OF al(1)])
  have main: "case considerGap al tp c hi best of Inl r \<Rightarrow> best_of tp (candidate m al lo hi) (Some r)
         | Inr b \<Rightarrow> best_of tp (candidate m al lo hi) b" if "c < hi"
  proof -
    have "candidate m al lo hi x \<and> c \<le> x \<and> x < hi \<longleftrightarrow> place al c hi x" for x
      using gap_places [OF p le_refl rs, of x] candidate_hi by (auto simp: candidate_def place_def)
    from considerGap_step [OF lk tryGap_best [OF al hi, of tp c] this] that show ?thesis
      by (auto split: sum.splits intro: loop_ok_final candidate_hi)
  qed
  have stay: "best_of tp (candidate m al lo hi) best" if "hi \<le> c"
    by (rule loop_ok_final [OF lk]) (use candidate_hi that in fastforce)
  show a: "best_of tp (candidate m al lo hi) (last_gap al tp hi c best)"
  proof (cases "c < hi")
    case True
    with main show ?thesis by (auto simp: last_gap_def split: sum.splits)
  next
    case False
    with stay show ?thesis by (simp add: last_gap_def)
  qed
  show "case considerGap al tp c hi best of Inl r \<Rightarrow> best_of tp (candidate m al lo hi) (Some r)
         | Inr b \<Rightarrow> best_of tp (candidate m al lo hi) (last_gap al tp hi c b)"
  proof (cases "c < hi")
    case True
    show ?thesis
    proof (cases "considerGap al tp c hi best")
      case (Inl r)
      with main True show ?thesis by simp
    next
      case (Inr b)
      with main True considerGap_twice [OF Inr] show ?thesis by (simp add: last_gap_def)
    qed
  next
    case False
    then show ?thesis using a considerGap_empty [of hi c al tp best] by simp
  qed
qed

lemma gap_loop_best:
  assumes G: "gap_env pg al hi m" and p: "pos_ok m al lo hi tp dn rs c best"
  shows "best_of tp (candidate m al lo hi) (gap_loop pg al tp lo hi rs c best)"
  using p
proof (induction rs arbitrary: dn c best)
  case Nil
  from last_gap_best(1) [OF G Nil] show ?case by simp
next
  case (Cons e rs)
  obtain ms info where e: "e = (ms, info)" by fastforce
  let ?C = "candidate m al lo hi"
  have pg: "page_size pg" and al: "0 < al" "al \<le> 2 ^ 31" and hi: "hi \<le> 2 ^ 31"
    and wf: "regions_wf RegionSize m" and bd: "\<forall>e \<in> set m. fst e + RegionSize (snd e) \<le> 2 ^ 31"
    using G by (auto simp: gap_env_def)
  have m: "m = dn @ e # rs" and d: "\<forall>x \<in> set dn. fst x + RegionSize (snd x) \<le> c" and lc: "lo \<le> c"
    and lk: "loop_ok tp ?C c best"
    using Cons.prems unfolding pos_ok_def by blast+
  define me where "me = ms + RegionSize info"
  have em: "e \<in> set m" using m by simp
  have me: "addp ms (RegionSize info) = me" "me \<le> 2 ^ 31" "ms < me"
    using bd em wf e by (auto simp: addp_eq me_def regions_wf_def)
  have rs: "me \<le> fst q" if "q \<in> set rs" for q
    using wf that unfolding m regions_wf_def sorted_wrt_append by (auto simp: e me_def)
  have cand: "x + al \<le> ms \<or> me \<le> x" if "?C x" for x
    using that em e al(1) me(3) by (auto simp: candidate_def free_range_def overlaps_def me_def)
  show ?case
  proof (cases "me \<le> lo")
    case True
    have "pos_ok m al lo hi tp (dn @ [e]) rs c best"
      using m d lc lk True e by (auto simp: pos_ok_def me_def)
    from Cons.IH [OF this] True me e show ?thesis by simp
  next
    case nlo: False
    show ?thesis
    proof (cases "hi \<le> ms")
      case True
      have "\<forall>q \<in> set (e # rs). hi \<le> fst q" using True rs me(3) e by fastforce
      from last_gap_best(2) [OF G Cons.prems this] True nlo me e show ?thesis
        by (simp split: sum.splits)
    next
      case lt: False
      define c' where "c' = (if me > c then alignUp me pg else c)"
      have pgb: "me + pg \<le> 2 ^ 32" using me(2) page_size_le [OF pg] by simp
      have pga: "alignment pg" using pg by (simp add: page_size_def)
      have c': "me \<le> c'" "c \<le> c'"
        using alignUp_props(1) [OF pga pgb] by (auto simp: c'_def)
      have adv: "c' \<le> x" if "?C x" "me \<le> x" "c \<le> x" for x
        using alignUp_least [OF pga pgb candidate_page [OF pg that(1)] that(2)] that by (simp add: c'_def)
      define g where "g = (if ms > c then considerGap al tp c (min ms hi) best else Inr best)"
      have g: "case g of Inl r \<Rightarrow> best_of tp ?C (Some r) | Inr b \<Rightarrow> loop_ok tp ?C c' b"
      proof (cases "ms > c")
        case True
        have mh: "min ms hi = ms" using lt by simp
        have msh: "ms \<le> hi" "ms \<le> 2 ^ 31" using lt hi by simp_all
        have "\<forall>q \<in> set (e # rs). ms \<le> fst q" using rs me(3) e by fastforce
        note gp = gap_places [OF Cons.prems msh(1) this]
        have "?C x \<and> c \<le> x \<and> x < me \<longleftrightarrow> place al c ms x" for x
          using gp [of x] cand [of x] al(1) me(3) by (auto simp: candidate_def place_def)
        from considerGap_step [OF lk tryGap_best [OF al msh(2), of tp c] this] True me(3)
        have "case considerGap al tp c ms best of Inl r \<Rightarrow> best_of tp ?C (Some r) | Inr b \<Rightarrow> loop_ok tp ?C me b"
          by (auto split: sum.splits)
        moreover have "loop_ok tp ?C c' b" if "loop_ok tp ?C me b" for b
          by (rule loop_ok_advance [OF that _ c'(1)]) (use adv True me(3) in fastforce)
        ultimately show ?thesis using True mh by (auto simp: g_def split: sum.splits)
      next
        case False
        have "loop_ok tp ?C c' best"
          by (rule loop_ok_advance [OF lk _ c'(2)]) (use cand adv al(1) False in fastforce)
        with False show ?thesis by (simp add: g_def)
      qed
      show ?thesis
      proof (cases g)
        case (Inl r)
        with g nlo lt me e show ?thesis by (simp add: g_def)
      next
        case (Inr b)
        with g have lb: "loop_ok tp ?C c' b" by simp
        have p': "pos_ok m al lo hi tp (dn @ [e]) rs c' b"
          using m d lc lb c' e unfolding pos_ok_def by (auto simp: me_def)
        have l: "gap_loop pg al tp lo hi (e # rs) c best =
            (if c' \<ge> hi then last_gap al tp hi c' b else gap_loop pg al tp lo hi rs c' b)"
          using Inr nlo lt me e by (simp add: g_def c'_def Let_def)
        show ?thesis
        proof (cases "c' \<ge> hi")
          case True
          have "best_of tp ?C b" by (rule loop_ok_final [OF lb]) (use candidate_hi [OF al(1)] True in fastforce)
          with l True show ?thesis by (simp add: last_gap_def)
        next
          case False
          with l Cons.IH [OF p'] show ?thesis by simp
        qed
      qed
    qed
  qed
qed

end
