(* ===== verification/Memory_Invariant.thy ===== *)
theory Memory_Invariant
  imports Free_Space_Search
begin

unbundle bit_operations_syntax

text \<open>
  Invariant of the guest's virtual memory: the tables of mappings and allocations hold disjoint
  ranges below the 2 GB line, and the protection the host was given for each page of an allocation
  is the one its table records. Every operation of \<^verbatim>\<open>src/src/heap.cpp\<close> on the tables keeps it.
\<close>

section \<open>The invariant of the tables\<close>

definition region_ok :: "nat \<Rightarrow> nat \<times> VirtualAllocation \<Rightarrow> bool" where
  "region_ok pg e \<longleftrightarrow> vbase (snd e) = fst e \<and> pg dvd fst e \<and>
     vsize (snd e) = length (pageProtect (snd e)) * pg \<and> fst e + vsize (snd e) \<le> kTwoGB"

definition mapping_ok :: "nat \<times> MEMORY_BASIC_INFORMATION \<Rightarrow> bool" where
  "mapping_ok e \<longleftrightarrow> BaseAddress (snd e) = fst e \<and> fst e + RegionSize (snd e) \<le> kTwoGB"

text \<open>
  Both tables hold disjoint ranges below the 2 GB line, each allocation has one protection per
  page, and each allocation owns the mapping of its address and size.
\<close>

definition owns :: "(nat \<times> MEMORY_BASIC_INFORMATION) list \<Rightarrow> nat \<times> VirtualAllocation \<Rightarrow> bool" where
  "owns m e \<longleftrightarrow> (case map_of m (fst e) of None \<Rightarrow> False | Some i \<Rightarrow> RegionSize i = vsize (snd e))"

definition vm_shape :: "nat \<Rightarrow> VmState \<Rightarrow> bool" where
  "vm_shape pg s \<longleftrightarrow> regions_wf vsize (g_virtualAllocations s) \<and> regions_wf RegionSize (g_mappings s) \<and>
     (\<forall>e \<in> set (g_virtualAllocations s). region_ok pg e \<and> owns (g_mappings s) e) \<and>
     (\<forall>e \<in> set (g_mappings s). mapping_ok e)"

text \<open>The protection the host has been given for an address, and what a page calls for.\<close>

fun host_prot :: "(nat \<times> nat \<times> nat) list \<Rightarrow> nat \<Rightarrow> nat option" where
  "host_prot [] x = None"
| "host_prot ((a, l, p) # cs) x = (if a \<le> x \<and> x < a + l then Some p else host_prot cs x)"

definition page_prot :: "u32 \<Rightarrow> nat" where
  "page_prot p = (if p = 0 then PROT_NONE else posixProtectFromWin32 p)"

text \<open>
  The protections the host may have for a page: exactly the one its entry calls for; also the one the host was given when
  the guest asked for protection zero, which the table stores as no protection; or any, when only the tables matter.
\<close>

datatype prot_mode = Exact | ZeroAllowed | AnyProt

fun allowed :: "prot_mode \<Rightarrow> u32 \<Rightarrow> nat set" where
  "allowed Exact p = {page_prot p}"
| "allowed ZeroAllowed p = {page_prot p, posixProtectFromWin32 p}"
| "allowed AnyProt p = UNIV"

definition grants :: "prot_mode \<Rightarrow> u32 \<Rightarrow> bool" where
  "grants md p \<longleftrightarrow> p \<noteq> 0 \<or> md \<noteq> Exact"

lemma allowed_page_prot [simp]: "page_prot p \<in> allowed md p" by (cases md) simp_all

lemma allowed_none [simp]: "PROT_NONE \<in> allowed md 0" by (cases md) (simp_all add: page_prot_def)

lemma allowed_granted: "grants md p \<Longrightarrow> posixProtectFromWin32 p \<in> allowed md p"
  by (cases md) (auto simp: grants_def page_prot_def)

definition pages_ok :: "prot_mode \<Rightarrow> nat \<Rightarrow> (nat \<times> nat \<times> nat) list \<Rightarrow> VirtualAllocation \<Rightarrow> bool" where
  "pages_ok md pg cs r \<longleftrightarrow> (\<forall>i < length (pageProtect r). \<forall>x. vbase r + i * pg \<le> x \<and> x < vbase r + (i + 1) * pg \<longrightarrow>
     (\<exists>h \<in> allowed md (pageProtect r ! i). host_prot cs x = Some h))"

definition host_ok :: "prot_mode \<Rightarrow> nat \<Rightarrow> VmState \<Rightarrow> bool" where
  "host_ok md pg s \<longleftrightarrow> (\<forall>e \<in> set (g_virtualAllocations s). pages_ok md pg (hostCalls s) (snd e))"

definition vm_inv :: "prot_mode \<Rightarrow> nat \<Rightarrow> VmState \<Rightarrow> bool" where
  "vm_inv md pg s \<longleftrightarrow> vm_shape pg s \<and> host_ok md pg s"

lemma kTwoGB_eq: "kTwoGB = 2 ^ 31" by (simp add: kTwoGB_def)

lemma vm_shape_hostCalls [simp]: "vm_shape pg (s\<lparr>hostCalls := cs\<rparr>) = vm_shape pg s"
  by (simp add: vm_shape_def)

lemma vm_shape_gap_env:
  "vm_shape pg s \<Longrightarrow> page_size pg \<Longrightarrow> 0 < al \<Longrightarrow> al \<le> 2 ^ 31 \<Longrightarrow> hi \<le> 2 ^ 31 \<Longrightarrow> gap_env pg al hi (g_mappings s)"
  by (auto simp: vm_shape_def gap_env_def mapping_ok_def kTwoGB_eq)

lemma findFreeMapping_best:
  assumes sh: "vm_shape pg s" and pg: "page_size pg" and len: "0 < len" "len \<le> 2 ^ 31" and hi: "hi \<le> kTwoGB"
  shows "best_of tp (candidate (g_mappings s) (alignUp len pg) lo hi) (findFreeMapping pg len lo hi tp s)"
proof -
  define al where "al = alignUp len pg"
  have pga: "alignment pg" and pgb: "len + pg \<le> 2 ^ 32"
    using pg page_size_le [OF pg] len by (auto simp: page_size_def)
  have al: "0 < al" using alignUp_props(1) [OF pga pgb] len by (simp add: al_def)
  let ?C = "candidate (g_mappings s) al lo hi"
  show ?thesis
  proof (cases "hi \<le> lo \<or> al > hi - lo")
    case True
    then have "\<not> ?C x" for x using al by (auto simp: candidate_def place_def)
    with True show ?thesis by (auto simp: findFreeMapping_def al_def best_of_def Let_def)
  next
    case False
    define c where "c = alignUp lo kVirtualAllocationGranularity"
    have g: "lo + kVirtualAllocationGranularity \<le> 2 ^ 32"
      using False hi by (simp add: kTwoGB_eq kVirtualAllocationGranularity_def)
    have "c \<le> x" if "?C x" for x
      using alignUp_least [OF granularity_alignment g, of x] that by (auto simp: candidate_def place_def c_def)
    then have "loop_ok tp ?C c None" by (auto simp: loop_ok_def best_of_def not_less [symmetric])
    then have p: "pos_ok (g_mappings s) al lo hi tp [] (g_mappings s) c None"
      using alignUp_props(1) [OF granularity_alignment g] by (simp add: pos_ok_def c_def)
    have "gap_env pg al hi (g_mappings s)"
      by (rule vm_shape_gap_env [OF sh pg al]) (use False hi in \<open>auto simp: kTwoGB_eq\<close>)
    from gap_loop_best [OF this p] False len show ?thesis
      by (simp add: findFreeMapping_def al_def c_def Let_def)
  qed
qed

section \<open>Disjointness checks\<close>

lemma overlap_loop_correct:
  assumes "regions_wf RegionSize m" "\<forall>e \<in> set m. mapping_ok e" "base < e"
  shows "overlap_loop base e m \<longleftrightarrow> \<not> free_range RegionSize m base (e - base)"
  using assms
proof (induction m)
  case Nil
  then show ?case by (simp add: free_range_def)
next
  case (Cons q m)
  obtain k i where q: "q = (k, i)" by fastforce
  from Cons.prems q have w: "0 < RegionSize i" "\<And>p. p \<in> set m \<Longrightarrow> k + RegionSize i \<le> fst p"
    "regions_wf RegionSize m" "BaseAddress i = k" "k + RegionSize i \<le> 2 ^ 31"
    by (auto simp: regions_wf_Cons mapping_ok_def kTwoGB_eq)
  have a: "addp (BaseAddress i) (RegionSize i) = k + RegionSize i" using w(4,5) by (simp add: addp_eq)
  note IH = Cons.IH [OF w(3) _ Cons.prems(3)]
  consider "k + RegionSize i \<le> base" | "base < k + RegionSize i" "e \<le> k" | "base < k + RegionSize i" "k < e"
    by linarith
  then show ?case
  proof cases
    case 1
    then show ?thesis using IH Cons.prems(2) q a w(1) by (simp add: free_range_def overlaps_def)
  next
    case 2
    have "free_range RegionSize (q # m) base (e - base)"
      using 2 w(2) q Cons.prems(3) w(1) by (fastforce simp: free_range_def overlaps_def)
    then show ?thesis using 2 q a w by simp
  next
    case 3
    then show ?thesis using q a w Cons.prems(3) by (simp add: free_range_def overlaps_def)
  qed
qed

lemma from_last_at_most_split:
  assumes "regions_wf sz m"
  obtains pre where "m = pre @ from_last_at_most k m"
    "\<And>e. e \<in> set pre \<Longrightarrow> fst e + sz (snd e) \<le> k"
proof -
  let ?t = "takeWhile (\<lambda>e. fst e \<le> k) m" and ?d = "dropWhile (\<lambda>e. fst e \<le> k) m"
  have td: "?t @ ?d = m" by simp
  show thesis
  proof (cases "?t = []")
    case True
    then have "from_last_at_most k m = m" using td by (simp add: from_last_at_most_def Let_def)
    then show thesis using that [of "[]"] by simp
  next
    case False
    then have f: "from_last_at_most k m = last ?t # ?d" by (simp add: from_last_at_most_def Let_def)
    have b: "butlast ?t @ [last ?t] = ?t" using False by simp
    then have m: "m = butlast ?t @ from_last_at_most k m" using td f by (metis append.assoc append_Cons append_Nil)
    have "fst (last ?t) \<le> k" using set_takeWhileD [OF last_in_set [OF False]] by simp
    moreover have "fst e + sz (snd e) \<le> fst (last ?t)" if "e \<in> set (butlast ?t)" for e
    proof -
      have "sorted_wrt (\<lambda>p q. fst p + sz (snd p) \<le> fst q) (butlast ?t @ [last ?t])"
        using regions_wf_takeWhile [OF assms] b by (simp add: regions_wf_def)
      with that show ?thesis by (simp add: sorted_wrt_append)
    qed
    ultimately show thesis using that [OF m] by fastforce
  qed
qed

lemma overlapsExistingMapping_iff:
  assumes sh: "vm_shape pg s" and len: "0 < len" and b: "base + len < 2 ^ 32"
  shows "overlapsExistingMapping base len s \<longleftrightarrow> \<not> free_range RegionSize (g_mappings s) base len"
proof -
  let ?m = "g_mappings s"
  have w: "regions_wf RegionSize ?m" "\<forall>e \<in> set ?m. mapping_ok e" using sh by (auto simp: vm_shape_def)
  obtain pre where m: "?m = pre @ from_last_at_most base ?m" (is "_ = _ @ ?f")
    and pre: "\<And>e. e \<in> set pre \<Longrightarrow> fst e + RegionSize (snd e) \<le> base"
    by (rule from_last_at_most_split [OF w(1), of base]) (rule that)
  have "sorted_wrt (\<lambda>p q. fst p + RegionSize (snd p) \<le> fst q) (pre @ ?f)"
    "\<forall>e \<in> set (pre @ ?f). 0 < RegionSize (snd e)" using w(1) m by (auto simp: regions_wf_def)
  then have wf: "regions_wf RegionSize ?f" by (auto simp: regions_wf_def sorted_wrt_append)
  have mo: "\<forall>e \<in> set ?f. mapping_ok e" using w(2) m by (metis Un_iff set_append)
  have "free_range RegionSize ?m base len \<longleftrightarrow> free_range RegionSize ?f base len"
    using pre by (subst m) (fastforce simp: free_range_def overlaps_def)
  moreover have "overlapsExistingMapping base len s = overlap_loop base (base + len) ?f"
  proof -
    have "\<not> addOverflows base (len - 1)" using b len by (simp add: addOverflows_def uintptr_max_def)
    then show ?thesis using len b by (simp add: overlapsExistingMapping_def addp_eq)
  qed
  ultimately show ?thesis using overlap_loop_correct [OF wf mo, of base "base + len"] len by simp
qed


section \<open>Pages of a region\<close>

lemma length_set_pages [simp]: "length (set_pages ps i n p) = length ps"
  by (induction n arbitrary: ps i) auto

lemma nth_set_pages:
  "j < length ps \<Longrightarrow> set_pages ps i n p ! j = (if i \<le> j \<and> j < i + n then p else ps ! j)"
  by (induction n arbitrary: ps i) (auto simp: nth_list_update)

text \<open>A range of whole pages of a region: \<open>n\<close> pages from page \<open>f\<close> on.\<close>

definition page_range :: "nat \<Rightarrow> VirtualAllocation \<Rightarrow> nat \<Rightarrow> nat \<Rightarrow> nat \<Rightarrow> nat \<Rightarrow> bool" where
  "page_range pg r start len f n \<longleftrightarrow>
     start = vbase r + f * pg \<and> len = n * pg \<and> f + n \<le> length (pageProtect r)"

lemma host_prot_outside: "x < a \<or> a + l \<le> x \<Longrightarrow> host_prot ((a, l, p) # cs) x = host_prot cs x"
  by auto

lemma pages_ok_set:
  assumes ok: "pages_ok md pg cs r" and pr: "page_range pg r start len f n" and pg: "0 < pg" and al: "hp \<in> allowed md p"
  shows "pages_ok md pg ((start, len, hp) # cs) (r\<lparr>pageProtect := set_pages (pageProtect r) f n p\<rparr>)"
  unfolding pages_ok_def
proof (intro allI impI)
  fix i x
  assume i: "i < length (pageProtect (r\<lparr>pageProtect := set_pages (pageProtect r) f n p\<rparr>))"
    and x: "vbase (r\<lparr>pageProtect := set_pages (pageProtect r) f n p\<rparr>) + i * pg \<le> x \<and>
      x < vbase (r\<lparr>pageProtect := set_pages (pageProtect r) f n p\<rparr>) + (i + 1) * pg"
  have il: "i < length (pageProtect r)" using i by simp
  have xr: "vbase r + i * pg \<le> x" "x < vbase r + (i + 1) * pg" using x by simp_all
  have st: "start = vbase r + f * pg" "len = n * pg" using pr by (auto simp: page_range_def)
  show "\<exists>h \<in> allowed md (pageProtect (r\<lparr>pageProtect := set_pages (pageProtect r) f n p\<rparr>) ! i).
    host_prot ((start, len, hp) # cs) x = Some h"
  proof (cases "f \<le> i \<and> i < f + n")
    case True
    then have "f * pg \<le> i * pg" "(i + 1) * pg \<le> (f + n) * pg"
      using mult_le_mono1 [of f i pg] mult_le_mono1 [of "i + 1" "f + n" pg] by simp_all
    then have "start \<le> x" "x < start + len" using xr st unfolding add_mult_distrib by linarith+
    with True il al show ?thesis by (simp add: nth_set_pages)
  next
    case False
    then have "(i + 1) * pg \<le> f * pg \<or> (f + n) * pg \<le> i * pg" by (metis Suc_eq_plus1 Suc_leI mult_le_mono1 not_le)
    then have "x < start \<or> start + len \<le> x" using xr st by (auto simp: add_mult_distrib)
    moreover have "\<exists>h \<in> allowed md (pageProtect r ! i). host_prot cs x = Some h" using ok il xr by (auto simp: pages_ok_def)
    ultimately show ?thesis using False il by (auto simp: nth_set_pages)
  qed
qed

text \<open>Calls outside a region leave its pages.\<close>

definition calls_within :: "nat \<Rightarrow> nat \<Rightarrow> (nat \<times> nat \<times> nat) list \<Rightarrow> bool" where
  "calls_within b l cs \<longleftrightarrow> (\<forall>c \<in> set cs. b \<le> fst c \<and> fst c + fst (snd c) \<le> b + l)"

lemma host_prot_calls_outside:
  "calls_within b l cs \<Longrightarrow> x < b \<or> b + l \<le> x \<Longrightarrow> host_prot (cs @ cs0) x = host_prot cs0 x"
  by (induction cs) (auto simp: calls_within_def)

lemma page_in_region:
  assumes "i < (n :: nat)" "b + i * pg \<le> x" "x < b + (i + 1) * pg"
  shows "b \<le> x" "x < b + n * pg"
proof -
  have "(i + 1) * pg \<le> n * pg" using mult_le_mono1 [of "i + 1" n pg] assms(1) by simp
  then show "b \<le> x" "x < b + n * pg" using assms(2,3) by linarith+
qed

lemma pages_ok_outside:
  assumes "pages_ok md pg cs0 r" "region_ok pg (b', r)" "calls_within b l cs"
    "\<not> overlaps b l (vbase r) (vsize r)"
  shows "pages_ok md pg (cs @ cs0) r"
  unfolding pages_ok_def
proof (intro allI impI)
  fix i x assume i: "i < length (pageProtect r)" and x: "vbase r + i * pg \<le> x \<and> x < vbase r + (i + 1) * pg"
  have "vbase r \<le> x" "x < vbase r + vsize r"
    using page_in_region [OF i, of "vbase r" pg x] x assms(2) by (auto simp: region_ok_def)
  then have "x < b \<or> b + l \<le> x" using assms(4) by (auto simp: overlaps_def)
  with host_prot_calls_outside [OF assms(3)] assms(1) i x
  show "\<exists>h \<in> allowed md (pageProtect r ! i). host_prot (cs @ cs0) x = Some h" by (simp add: pages_ok_def)
qed

section \<open>Updates that keep the invariant\<close>

lemma distinct_regions:
  assumes "regions_wf sz m" "p \<in> set m" "q \<in> set m" "fst p \<noteq> fst q"
  shows "\<not> overlaps (fst p) (sz (snd p)) (fst q) (sz (snd q))"
proof -
  have "p \<noteq> q" using assms(4) by auto
  with sorted_wrt_pair_cases [of "\<lambda>p q. fst p + sz (snd p) \<le> fst q" m p q] assms(1-3)
  show ?thesis by (auto simp: regions_wf_def overlaps_def)
qed

lemma owns_put:
  "owns m e \<Longrightarrow> (fst e = k \<Longrightarrow> RegionSize v = vsize (snd e)) \<Longrightarrow> owns (omap_put k v m) e"
  by (auto simp: owns_def)

lemma shape_update_region:
  assumes sh: "vm_shape pg s" and r: "map_of (g_virtualAllocations s) (vbase r') = Some r"
    and same: "vsize r' = vsize r" "length (pageProtect r') = length (pageProtect r)"
  shows "vm_shape pg (put_region r' s)"
proof -
  let ?a = "g_virtualAllocations s"
  have wf: "regions_wf vsize ?a" using sh by (simp add: vm_shape_def)
  have rin: "(vbase r', r) \<in> set ?a" using r by (rule map_of_SomeD)
  then have "region_ok pg (vbase r', r)" "owns (g_mappings s) (vbase r', r)" using sh by (auto simp: vm_shape_def)
  then have n: "region_ok pg (vbase r', r')" "owns (g_mappings s) (vbase r', r')"
    using same by (auto simp: region_ok_def owns_def split: option.splits)
  have "regions_wf vsize (omap_put (vbase r') r' ?a)" by (rule regions_wf_put_same [OF wf r same(1)])
  with sh n set_omap_put [OF wf] show ?thesis by (auto simp: vm_shape_def put_region_def)
qed

lemma shape_record_same:
  assumes sh: "vm_shape pg s" and i: "map_of (g_mappings s) b = Some i" "RegionSize i = l"
  shows "vm_shape pg (recordGuestMapping b l ap st p t s)"
proof -
  let ?m = "g_mappings s"
  have wf: "regions_wf RegionSize ?m" using sh by (simp add: vm_shape_def)
  have "mapping_ok (b, i)" using map_of_SomeD [OF i(1)] sh by (auto simp: vm_shape_def)
  then have "b + l \<le> kTwoGB" using i(2) by (simp add: mapping_ok_def)
  let ?v = "\<lparr>BaseAddress = b, AllocationBase = b, AllocationProtect = ap, RegionSize = l,
         MemState = st, Protect = p, MemType = t\<rparr>"
  have "regions_wf RegionSize (omap_put b ?v ?m)" by (rule regions_wf_put_same [OF wf i(1)]) (simp add: i(2))
  moreover have "\<forall>e \<in> set (omap_put b ?v ?m). mapping_ok e"
    using set_omap_put [OF wf] sh \<open>b + l \<le> kTwoGB\<close> by (auto simp: vm_shape_def mapping_ok_def)
  moreover have "owns (omap_put b ?v ?m) e" if "e \<in> set (g_virtualAllocations s)" for e
  proof (rule owns_put)
    show o: "owns ?m e" using that sh by (auto simp: vm_shape_def)
    show "fst e = b \<Longrightarrow> RegionSize ?v = vsize (snd e)" using o i by (simp add: owns_def)
  qed
  ultimately show ?thesis using sh by (auto simp: vm_shape_def recordGuestMapping_def)
qed

lemma shape_record_new:
  assumes sh: "vm_shape pg s" and fr: "free_range RegionSize (g_mappings s) b l" and l: "0 < l" "b + l \<le> kTwoGB"
  shows "vm_shape pg (recordGuestMapping b l ap st p t s)"
proof -
  let ?m = "g_mappings s"
  have wf: "regions_wf RegionSize ?m" using sh by (simp add: vm_shape_def)
  let ?v = "\<lparr>BaseAddress = b, AllocationBase = b, AllocationProtect = ap, RegionSize = l,
         MemState = st, Protect = p, MemType = t\<rparr>"
  have "regions_wf RegionSize (omap_put b ?v ?m)"
    by (rule regions_wf_put [OF wf]) (use fr l in simp_all)
  moreover have "\<forall>e \<in> set (omap_put b ?v ?m). mapping_ok e"
    using set_omap_put [OF wf] sh l by (auto simp: vm_shape_def mapping_ok_def)
  moreover have "owns (omap_put b ?v ?m) e" if "e \<in> set (g_virtualAllocations s)" for e
  proof (rule owns_put)
    show o: "owns ?m e" using that sh by (auto simp: vm_shape_def)
    show "fst e = b \<Longrightarrow> RegionSize ?v = vsize (snd e)"
    proof -
      assume "fst e = b"
      with o obtain i where i: "map_of ?m b = Some i" by (auto simp: owns_def split: option.splits)
      then have "(b, i) \<in> set ?m" by (rule map_of_SomeD)
      moreover from this have "0 < RegionSize i" using wf by (auto simp: regions_wf_def)
      ultimately show ?thesis using fr l by (auto simp: free_range_def overlaps_def)
    qed
  qed
  ultimately show ?thesis using sh by (auto simp: vm_shape_def recordGuestMapping_def)
qed

lemma refresh_eq:
  obtains ap st p where "refreshGuestMapping r s = recordGuestMapping (vbase r) (vsize r) ap st p (vtype r) s"
  by (cases "page_summary (pageProtect r) (True, False, 0, True)") (simp add: refreshGuestMapping_def Let_def)

lemma record_put_region:
  "recordGuestMapping b l ap st p t (put_region r s) = put_region r (recordGuestMapping b l ap st p t s)"
  by (simp add: recordGuestMapping_def put_region_def)

text \<open>A region that keeps its place and size, whose calls stay in it.\<close>

lemma inv_put_region:
  assumes inv: "vm_inv md pg s" and r: "map_of (g_virtualAllocations s) (vbase r') = Some r"
    and same: "vsize r' = vsize r" "length (pageProtect r') = length (pageProtect r)"
    and cw: "calls_within (vbase r') (vsize r') cs" and po: "pages_ok md pg (cs @ hostCalls s) r'"
  shows "vm_inv md pg (put_region r' (s\<lparr>hostCalls := cs @ hostCalls s\<rparr>))"
proof -
  let ?a = "g_virtualAllocations s"
  have sh: "vm_shape pg s" and ho: "host_ok md pg s" using inv by (auto simp: vm_inv_def)
  have wf: "regions_wf vsize ?a" and ok: "\<And>e. e \<in> set ?a \<Longrightarrow> region_ok pg e" using sh by (auto simp: vm_shape_def)
  have rin: "(vbase r', r) \<in> set ?a" using r by (rule map_of_SomeD)
  have "pages_ok md pg (cs @ hostCalls s) (snd e)" if e: "e \<in> set ?a" "fst e \<noteq> vbase r'" for e
  proof (rule pages_ok_outside [OF _ _ cw])
    show "pages_ok md pg (hostCalls s) (snd e)" using ho e by (simp add: host_ok_def)
    show "region_ok pg (fst e, snd e)" using ok [OF e(1)] by simp
    show "\<not> overlaps (vbase r') (vsize r') (vbase (snd e)) (vsize (snd e))"
      using distinct_regions [OF wf rin e(1)] e(2) same(1) ok [OF e(1)] by (simp add: region_ok_def)
  qed
  then have "host_ok md pg (put_region r' (s\<lparr>hostCalls := cs @ hostCalls s\<rparr>))"
    using set_omap_put [OF wf] po by (auto simp: host_ok_def put_region_def)
  moreover have "vm_shape pg (put_region r' (s\<lparr>hostCalls := cs @ hostCalls s\<rparr>))"
    by (rule shape_update_region [of _ _ _ r]) (use sh r same in simp_all)
  ultimately show ?thesis by (simp add: vm_inv_def)
qed

lemma host_ok_record [simp]: "host_ok md pg (recordGuestMapping b l ap st p t s) = host_ok md pg s"
  by (simp add: host_ok_def recordGuestMapping_def)

lemma inv_refresh:
  assumes inv: "vm_inv md pg s" and r: "map_of (g_virtualAllocations s) (vbase r) = Some r"
  shows "vm_inv md pg (refreshGuestMapping r s)"
proof -
  have sh: "vm_shape pg s" using inv by (simp add: vm_inv_def)
  have "owns (g_mappings s) (vbase r, r)" using sh map_of_SomeD [OF r] by (auto simp: vm_shape_def)
  then obtain i where i: "map_of (g_mappings s) (vbase r) = Some i" "RegionSize i = vsize r"
    by (auto simp: owns_def split: option.splits)
  obtain ap st p where e: "refreshGuestMapping r s = recordGuestMapping (vbase r) (vsize r) ap st p (vtype r) s"
    by (rule refresh_eq)
  show ?thesis unfolding e using shape_record_same [OF sh i] inv by (simp add: vm_inv_def)
qed

lemma map_of_put_region [simp]:
  "map_of (g_virtualAllocations (put_region r s)) = (map_of (g_virtualAllocations s))(vbase r \<mapsto> r)"
  by (simp add: put_region_def)

lemma inv_update_region:
  assumes "vm_inv md pg s" "map_of (g_virtualAllocations s) (vbase r') = Some r"
    "vsize r' = vsize r" "length (pageProtect r') = length (pageProtect r)"
    "calls_within (vbase r') (vsize r') cs" "pages_ok md pg (cs @ hostCalls s) r'"
  shows "vm_inv md pg (refreshGuestMapping r' (put_region r' (s\<lparr>hostCalls := cs @ hostCalls s\<rparr>)))"
  by (rule inv_refresh [OF inv_put_region [OF assms]]) simp


section \<open>Ranges of an operation\<close>

lemma findRegion_Some:
  assumes sh: "vm_shape pg s" and f: "findRegion a s = Some r"
  shows "map_of (g_virtualAllocations s) (vbase r) = Some r" "region_ok pg (vbase r, r)"
    "vbase r \<le> a" "a < vbase r + vsize r"
proof -
  let ?a = "g_virtualAllocations s"
  have wf: "regions_wf vsize ?a" using sh by (simp add: vm_shape_def)
  from f obtain b where b: "last_at_most a ?a = Some (b, r)" "a < regionEnd r"
    by (auto simp: findRegion_def split: option.splits if_splits)
  note l = last_at_most_Some [OF wf b(1)]
  have ok: "region_ok pg (b, r)" using l(1) sh by (auto simp: vm_shape_def)
  then have vb: "vbase r = b" by (simp add: region_ok_def)
  have "map_of ?a b = Some r" using l(1) regions_wf_distinct [OF wf] by simp
  then show "map_of ?a (vbase r) = Some r" "region_ok pg (vbase r, r)" "vbase r \<le> a"
    using vb ok l(2) by simp_all
  show "a < vbase r + vsize r" using b(2) ok by (simp add: regionEnd_def addp_eq region_ok_def kTwoGB_eq)
qed

lemma findRegion_contains:
  assumes sh: "vm_shape pg s" and r: "map_of (g_virtualAllocations s) b = Some r" and a: "b \<le> a" "a < b + vsize r"
  shows "findRegion a s = Some r"
proof -
  have wf: "regions_wf vsize (g_virtualAllocations s)" using sh by (simp add: vm_shape_def)
  have e: "(b, r) \<in> set (g_virtualAllocations s)" using r by (rule map_of_SomeD)
  then have ok: "region_ok pg (b, r)" using sh by (auto simp: vm_shape_def)
  have "last_at_most a (g_virtualAllocations s) = Some (b, r)"
    by (rule last_at_most_contains [OF wf e]) (use a in simp_all)
  then show ?thesis using ok a(2) by (simp add: findRegion_def regionEnd_def addp_eq region_ok_def kTwoGB_eq)
qed

lemma alignUp_less: "page_size pg \<Longrightarrow> x < 2 ^ 32 \<Longrightarrow> alignUp x pg < 2 ^ 32"
  using unat_u32_less by (auto simp: alignUp_def Let_def uintptr_max_def)

lemma alignUp_dvd:
  assumes "page_size pg" "x < 2 ^ 32" "alignUp x pg < uintptr_max"
  shows "pg dvd alignUp x pg" "x \<le> alignUp x pg"
proof -
  note p = page_size_le [OF assms(1)]
  have "subp pg 1 = pg - 1" using p by (simp add: subp_eq)
  then have "\<not> x > uintptr_max - (pg - 1)" using assms(3) p
    by (auto simp: alignUp_def Let_def uintptr_max_def split: if_splits)
  then have "x + pg \<le> 2 ^ 32" using p by (auto simp: uintptr_max_def)
  from alignUp_props [OF _ this] assms(1) show "pg dvd alignUp x pg" "x \<le> alignUp x pg"
    by (simp_all add: page_size_def)
qed

lemma rangeWithinRegion_end:
  assumes "region_ok pg (vbase r, r)" "rangeWithinRegion r start (subp e start)" "start < e" "e < 2 ^ 32"
  shows "vbase r \<le> start" "e \<le> vbase r + vsize r"
proof -
  have "subp e start = e - start" using assms(3,4) by (simp add: subp_eq)
  moreover have "regionEnd r = vbase r + vsize r"
    using assms(1) by (simp add: regionEnd_def addp_eq region_ok_def kTwoGB_eq)
  ultimately show "vbase r \<le> start" "e \<le> vbase r + vsize r"
    using assms(2-4) by (auto simp: rangeWithinRegion_def addp_eq split: if_splits)
qed

lemma page_range_intro:
  assumes ok: "region_ok pg (vbase r, r)" and b: "vbase r \<le> start" "start < e" "e \<le> vbase r + vsize r"
    and d: "pg dvd start" "pg dvd e" and pg: "0 < pg"
  shows "page_range pg r start (e - start) ((start - vbase r) div pg) ((e - start) div pg)"
    "0 < (e - start) div pg"
proof -
  have "pg dvd start - vbase r" "pg dvd e - start" using d ok by (auto simp: region_ok_def)
  then obtain f n where fn: "start - vbase r = pg * f" "e - start = pg * n" by (auto simp: dvd_def)
  then have "pg * (f + n) \<le> pg * length (pageProtect r)"
    using b ok by (simp add: region_ok_def algebra_simps)
  then have "f + n \<le> length (pageProtect r)" using pg by simp
  then show "page_range pg r start (e - start) ((start - vbase r) div pg) ((e - start) div pg)"
    using fn b pg by (simp add: page_range_def mult.commute)
  show "0 < (e - start) div pg" using fn b(2) pg by (cases n) auto
qed

text \<open>The range an operation on a region works on, as pages.\<close>

lemma op_range:
  assumes sh: "vm_shape pg s" and pg: "page_size pg" and f: "findRegion a s = Some r"
    and w: "rangeWithinRegion r start (subp e start)" and se: "start < e" "e < 2 ^ 32"
    and d: "pg dvd start" "e < uintptr_max \<Longrightarrow> pg dvd e"
  shows "page_range pg r start (subp e start) (subp start (vbase r) div pg) (subp e start div pg)"
    "0 < subp e start div pg" "e \<le> vbase r + vsize r"
proof -
  note r = findRegion_Some [OF sh f]
  note b = rangeWithinRegion_end [OF r(2) w se]
  have "e \<le> 2 ^ 31" using b(2) r(2) by (simp add: region_ok_def kTwoGB_eq)
  then have de: "pg dvd e" using d(2) by (simp add: uintptr_max_def)
  have s: "subp e start = e - start" "subp start (vbase r) = start - vbase r"
    using b se by (simp_all add: subp_eq)
  from page_range_intro [OF r(2) b(1) se(1) b(2) d(1) de] page_size_le [OF pg]
  show "page_range pg r start (subp e start) (subp start (vbase r) div pg) (subp e start div pg)"
    "0 < subp e start div pg" "e \<le> vbase r + vsize r"
    using b(2) unfolding s by auto
qed

lemma page_range_within:
  "page_range pg r start len f n \<Longrightarrow> region_ok pg (vbase r, r) \<Longrightarrow>
     vbase r \<le> start \<and> start + len \<le> vbase r + vsize r"
  by (auto simp: page_range_def region_ok_def add_mult_distrib [symmetric] intro: mult_le_mono1)

section \<open>Operations keep the invariant\<close>

lemma host_call_cases:
  obtains err where "mmap a l p = Some err" "host_call mmap a l p s = (Some err, s)"
  | "mmap a l p = None" "host_call mmap a l p s = (None, s\<lparr>hostCalls := (a, l, p) # hostCalls s\<rparr>)"
  by (cases "mmap a l p") (simp_all add: host_call_def)

text \<open>One call that gives a page range of a region one protection.\<close>

lemma inv_set_pages:
  assumes inv: "vm_inv md pg s" and pg: "page_size pg" and r: "map_of (g_virtualAllocations s) (vbase r) = Some r"
    and pr: "page_range pg r start len f n" and r'_def: "r' = r\<lparr>pageProtect := set_pages (pageProtect r) f n p\<rparr>"
    and al: "hp \<in> allowed md p"
  shows "vm_inv md pg (refreshGuestMapping r' (put_region r' (s\<lparr>hostCalls := (start, len, hp) # hostCalls s\<rparr>)))"
proof -
  have ok: "region_ok pg (vbase r, r)" and po: "pages_ok md pg (hostCalls s) r"
    using inv map_of_SomeD [OF r] by (auto simp: vm_inv_def vm_shape_def host_ok_def)
  have "calls_within (vbase r') (vsize r') [(start, len, hp)]"
    using page_range_within [OF pr ok] by (simp add: calls_within_def r'_def)
  moreover have "pages_ok md pg ([(start, len, hp)] @ hostCalls s) r'"
    using pages_ok_set [OF po pr _ al] page_size_le [OF pg] by (simp add: r'_def)
  ultimately show ?thesis using inv_update_region [OF inv, of r' r "[(start, len, hp)]"] r
    by (simp add: r'_def)
qed

lemma inv_virtualProtect:
  assumes inv: "vm_inv md pg s" and pg: "page_size pg" and b: "baseAddress < 2 ^ 32" and np: "grants md newProtect"
  shows "vm_inv md pg (snd (virtualProtect pg mprotect baseAddress regionSize newProtect s))"
proof -
  define start where "start = alignDown baseAddress pg"
  define e where "e = alignUp (addp baseAddress regionSize) pg"
  have sh: "vm_shape pg s" using inv by (simp add: vm_inv_def)
  have x: "addp baseAddress regionSize < 2 ^ 32" by (simp add: addp_def)
  have d: "pg dvd start" "e < uintptr_max \<Longrightarrow> pg dvd e" "e < 2 ^ 32"
    using alignDown_props(3) [of pg baseAddress] pg b alignUp_dvd(1) [OF pg x] alignUp_less [OF pg x]
    by (auto simp: start_def e_def page_size_def)
  show ?thesis
  proof (cases "e \<le> start \<or> baseAddress = 0 \<or> regionSize = 0 \<or> findRegion start s = None")
    case True
    then show ?thesis using inv by (auto simp: virtualProtect_def start_def e_def Let_def)
  next
    case False
    then obtain r where r: "findRegion start s = Some r" by auto
    show ?thesis
    proof (cases "rangeWithinRegion r start (subp e start)")
      case nw: False
      then show ?thesis using inv False r by (auto simp: virtualProtect_def start_def e_def Let_def)
    next
      case True
      have "start < e" using False by simp
      note pr = op_range(1) [OF sh pg r True this d(3,1,2)]
      note upd = inv_set_pages [OF inv pg findRegion_Some(1) [OF sh r] pr refl allowed_granted [OF np]]
      show ?thesis
        using False r True inv upd
        by (rule_tac mmap = mprotect and a = start and l = "subp e start" and p = "posixProtectFromWin32 newProtect"
              and s = s in host_call_cases)
          (simp_all add: virtualProtect_def start_def [symmetric] e_def [symmetric] Let_def)
    qed
  qed
qed


lemma markDecommitted_eq:
  "0 < len \<Longrightarrow> markDecommitted pg r start len =
     r\<lparr>pageProtect := set_pages (pageProtect r) (subp start (vbase r) div pg) (len div pg) 0\<rparr>"
  by (simp add: markDecommitted_def)

lemma inv_virtualDecommit:
  assumes inv: "vm_inv md pg s" and pg: "page_size pg" and b: "request < 2 ^ 32"
  shows "vm_inv md pg (snd (virtualDecommit pg mmap request regionSize s))"
proof (cases "findRegion request s")
  case None
  then show ?thesis using inv by (simp add: virtualDecommit_def)
next
  case (Some r)
  have sh: "vm_shape pg s" using inv by (simp add: vm_inv_def)
  note r = findRegion_Some [OF sh Some]
  define start where "start = (if regionSize = 0 then vbase r else alignDown request pg)"
  define e where "e = (if regionSize = 0 then addp (vbase r) (vsize r) else alignUp (addp request regionSize) pg)"
  have x: "addp a c < 2 ^ 32" for a c by (simp add: addp_def)
  have pga: "alignment pg" using pg by (simp add: page_size_def)
  have d: "pg dvd start" "e < uintptr_max \<Longrightarrow> pg dvd e" "e < 2 ^ 32"
    using alignDown_props(3) [OF pga b] alignUp_dvd(1) [OF pg x] alignUp_less [OF pg x] r(2) x
    by (auto simp: start_def e_def region_ok_def addp_eq kTwoGB_eq)
  have u: "virtualDecommit pg mmap request regionSize s =
      (if regionSize = 0 \<and> request \<noteq> vbase r then (InvalidParameter, s)
       else if regionSize \<noteq> 0 \<and> addOverflows request regionSize then (InvalidParameter, s)
       else if e \<le> start then (InvalidParameter, s)
       else if \<not> rangeWithinRegion r start (subp e start) then (InvalidAddress, s)
       else case host_call mmap start (subp e start) PROT_NONE s of
         (Some err, s') \<Rightarrow> (vmStatusFromErrno err, s')
       | (None, s') \<Rightarrow> (let r' = markDecommitted pg r start (subp e start)
                       in (Success, refreshGuestMapping r' (put_region r' s'))))"
    using Some unfolding virtualDecommit_def start_def e_def Let_def by simp
  show ?thesis
  proof (cases "e \<le> start \<or> \<not> rangeWithinRegion r start (subp e start)")
    case True
    then show ?thesis using inv unfolding u by auto
  next
    case False
    then have se: "start < e" "rangeWithinRegion r start (subp e start)" by simp_all
    note pr = op_range(1) [OF sh pg Some se(2,1) d(3,1,2)]
    have len: "0 < subp e start" using se(1) d(3) by (simp add: subp_eq)
    note upd = inv_set_pages [OF inv pg r(1) pr refl allowed_none, folded markDecommitted_eq [OF len]]
    show ?thesis
      using False inv upd unfolding u
      by (rule_tac mmap = mmap and a = start and l = "subp e start" and p = PROT_NONE and s = s in host_call_cases)
        (simp_all add: Let_def)
  qed
qed

lemma owns_erase: "owns m e \<Longrightarrow> fst e \<noteq> b \<Longrightarrow> owns (omap_erase b m) e"
  by (simp add: owns_def)

lemma inv_erase_alloc:
  assumes "vm_inv md pg s"
  shows "vm_inv md pg (s\<lparr>g_virtualAllocations := omap_erase b (g_virtualAllocations s)\<rparr>)"
  using assms regions_wf_erase [of vsize "g_virtualAllocations s" b]
  by (auto simp: vm_inv_def vm_shape_def host_ok_def set_omap_erase)

text \<open>Dropping a mapping that no allocation owns.\<close>

lemma inv_erase_mapping:
  assumes "vm_inv md pg s" "map_of (g_virtualAllocations s) b = None"
  shows "vm_inv md pg (eraseGuestMapping b s)"
proof -
  have "fst e \<noteq> b" if "e \<in> set (g_virtualAllocations s)" for e
    using assms(2) that by (auto simp: map_of_eq_None_iff)
  then show ?thesis using assms(1) regions_wf_erase [of RegionSize "g_mappings s" b]
    by (auto simp: vm_inv_def vm_shape_def host_ok_def eraseGuestMapping_def set_omap_erase intro: owns_erase)
qed

text \<open>A call on a range that no allocation overlaps.\<close>

lemma inv_call_outside:
  assumes inv: "vm_inv md pg s" and fr: "free_range vsize (g_virtualAllocations s) a l"
  shows "vm_inv md pg (s\<lparr>hostCalls := (a, l, p) # hostCalls s\<rparr>)"
proof -
  have "pages_ok md pg ([(a, l, p)] @ hostCalls s) (snd e)" if e: "e \<in> set (g_virtualAllocations s)" for e
  proof (rule pages_ok_outside)
    show "pages_ok md pg (hostCalls s) (snd e)" using inv e by (simp add: vm_inv_def host_ok_def)
    show ok: "region_ok pg (fst e, snd e)" using inv e by (simp add: vm_inv_def vm_shape_def)
    show "calls_within a l [(a, l, p)]" by (simp add: calls_within_def)
    show "\<not> overlaps a l (vbase (snd e)) (vsize (snd e))"
      using fr e ok by (auto simp: free_range_def overlaps_def region_ok_def)
  qed
  then show ?thesis using inv by (simp add: vm_inv_def host_ok_def)
qed

lemma free_range_owned:
  assumes sh: "vm_shape pg s" and fr: "free_range RegionSize (g_mappings s) a l"
  shows "free_range vsize (g_virtualAllocations s) a l"
  unfolding free_range_def
proof
  fix e assume "e \<in> set (g_virtualAllocations s)"
  then have "owns (g_mappings s) e" using sh by (simp add: vm_shape_def)
  then obtain i where i: "map_of (g_mappings s) (fst e) = Some i" "RegionSize i = vsize (snd e)"
    by (auto simp: owns_def split: option.splits)
  with fr map_of_SomeD [OF i(1)] show "\<not> overlaps (fst e) (vsize (snd e)) a l" by (auto simp: free_range_def)
qed

lemma inv_virtualRelease:
  assumes inv: "vm_inv md pg s"
  shows "vm_inv md pg (snd (virtualRelease mmap b regionSize s))"
proof (cases "map_of (g_virtualAllocations s) b")
  case None
  then show ?thesis using inv by (simp add: virtualRelease_def)
next
  case (Some r)
  let ?s1 = "s\<lparr>g_virtualAllocations := omap_erase b (g_virtualAllocations s)\<rparr>"
  have wf: "regions_wf vsize (g_virtualAllocations s)" using inv by (simp add: vm_inv_def vm_shape_def)
  have i1: "vm_inv md pg ?s1" by (rule inv_erase_alloc [OF inv])
  have "free_range vsize (g_virtualAllocations ?s1) b (vsize r)"
    unfolding free_range_def
  proof
    fix e assume "e \<in> set (g_virtualAllocations ?s1)"
    then have "e \<in> set (g_virtualAllocations s)" "fst e \<noteq> b" by (simp_all add: set_omap_erase)
    from distinct_regions [OF wf this(1) map_of_SomeD [OF Some]] this(2)
    show "\<not> overlaps (fst e) (vsize (snd e)) b (vsize r)" by simp
  qed
  note i2 = inv_call_outside [OF i1 this, of PROT_NONE]
  have "vm_inv md pg (eraseGuestMapping b (?s1\<lparr>hostCalls := (b, vsize r, PROT_NONE) # hostCalls ?s1\<rparr>))"
    by (rule inv_erase_mapping [OF i2]) simp
  then show ?thesis using Some inv i1
    by (rule_tac mmap = mmap and a = b and l = "vsize r" and p = PROT_NONE and s = ?s1 in host_call_cases)
      (simp_all add: virtualRelease_def Let_def)
qed

lemma inv_virtualFree:
  assumes "vm_inv md pg s" "page_size pg" "b < 2 ^ 32"
  shows "vm_inv md pg (snd (virtualFree pg mmap b regionSize freeType s))"
  using assms inv_virtualRelease [OF assms(1)] inv_virtualDecommit [OF assms]
  by (simp add: virtualFree_def Let_def)

lemma inv_record_new:
  assumes inv: "vm_inv md pg s" and fr: "free_range RegionSize (g_mappings s) b l" and l: "0 < l" "b + l \<le> kTwoGB"
  shows "vm_inv md pg (recordGuestMapping b l ap st p t s)"
  using inv shape_record_new [OF _ fr l] by (simp add: vm_inv_def)

text \<open>A new allocation in free address space.\<close>

lemma inv_new_region:
  assumes inv: "vm_inv md pg s" and fr: "free_range RegionSize (g_mappings s) (vbase r) (vsize r)"
    and ok: "region_ok pg (vbase r, r)" and l: "0 < vsize r" and po: "pages_ok md pg (hostCalls s) r"
  shows "vm_inv md pg (refreshGuestMapping r (put_region r s))"
proof -
  have sh: "vm_shape pg s" using inv by (simp add: vm_inv_def)
  have wf: "regions_wf vsize (g_virtualAllocations s)" using sh by (simp add: vm_shape_def)
  obtain ap st p where e: "refreshGuestMapping r (put_region r s) =
      recordGuestMapping (vbase r) (vsize r) ap st p (vtype r) (put_region r s)" by (rule refresh_eq)
  define s1 where "s1 = recordGuestMapping (vbase r) (vsize r) ap st p (vtype r) s"
  have i1: "vm_inv md pg s1" unfolding s1_def by (rule inv_record_new [OF inv fr l]) (use ok in \<open>simp add: region_ok_def\<close>)
  have a1: "g_virtualAllocations s1 = g_virtualAllocations s" "hostCalls s1 = hostCalls s"
    by (simp_all add: s1_def recordGuestMapping_def)
  have ow: "owns (g_mappings s1) (vbase r, r)" by (simp add: s1_def recordGuestMapping_def owns_def)
  have w: "regions_wf vsize (omap_put (vbase r) r (g_virtualAllocations s))"
    by (rule regions_wf_put [OF wf free_range_owned [OF sh fr] l])
  have "vm_inv md pg (put_region r s1)"
    using i1 w ow ok po a1 set_omap_put [OF wf]
    by (auto simp: vm_inv_def vm_shape_def host_ok_def put_region_def)
  then show ?thesis unfolding e record_put_region s1_def .
qed


lemma findFreeMapping_Some:
  assumes sh: "vm_shape pg s" and pg: "page_size pg" and len: "len < 2 ^ 32" and hi: "hi \<le> kTwoGB"
    and f: "findFreeMapping pg len lo hi tp s = Some x"
  shows "candidate (g_mappings s) (alignUp len pg) lo hi x" "pg dvd alignUp len pg" "len \<le> alignUp len pg"
    "0 < len"
proof -
  from f have a: "0 < len" "alignUp len pg \<le> hi - lo" by (auto simp: findFreeMapping_def Let_def split: if_splits)
  then have "alignUp len pg \<le> 2 ^ 31" using hi by (simp add: kTwoGB_eq)
  then have lt: "alignUp len pg < uintptr_max" "alignUp len pg \<le> 2 ^ 31" by (simp_all add: uintptr_max_def)
  note d = alignUp_dvd [OF pg len lt(1)]
  have "len \<le> 2 ^ 31" using d(2) lt(2) by simp
  from findFreeMapping_best [OF sh pg a(1) this hi, of tp lo] f a(1) d
  show "candidate (g_mappings s) (alignUp len pg) lo hi x" "pg dvd alignUp len pg" "len \<le> alignUp len pg"
    "0 < len" by (simp_all add: best_of_def)
qed

text \<open>
  The host refuses a fixed mapping that reaches the top of the 32-bit address space, which belongs
  to its kernel.
\<close>

definition host_bounded :: "mmap_fn \<Rightarrow> bool" where
  "host_bounded mmap \<longleftrightarrow> (\<forall>a l p. mmap a l p = None \<longrightarrow> a + l < 2 ^ 32)"

lemma reserve_place_Inr:
  assumes sh: "vm_shape pg s" and pg: "page_size pg" and w: "request < 2 ^ 32" "sz < 2 ^ 32" "0 < sz"
    and p: "reserve_place pg request sz td s = Inr (base, len)" and hb: "base + len < 2 ^ 32"
  shows "free_range RegionSize (g_mappings s) base len" "0 < len" "base + len \<le> kTwoGB" "pg dvd base" "pg dvd len"
    "request \<noteq> 0 \<Longrightarrow> base \<le> request \<and> request + sz \<le> base + len" "sz \<le> len"
proof -
  have G: "pg dvd kVirtualAllocationGranularity" using pg by (simp add: page_size_def)
  have all: "free_range RegionSize (g_mappings s) base len \<and> 0 < len \<and> base + len \<le> kTwoGB \<and> pg dvd base \<and>
    pg dvd len \<and> (request \<noteq> 0 \<longrightarrow> base \<le> request \<and> request + sz \<le> base + len) \<and> sz \<le> len"
  proof (cases "request = 0")
    case True
    from p True have l: "len = alignUp sz pg" "findFreeMapping pg len kLowMemoryStart kTopDownStart td s = Some base"
      by (auto simp: reserve_place_def Let_def split: if_splits option.splits)
    have ll: "len < 2 ^ 32" using alignUp_less [OF pg w(2)] l(1) by simp
    have ht: "kTopDownStart \<le> kTwoGB" by (simp add: kTopDownStart_def kTwoGB_def)
    note f = findFreeMapping_Some [OF sh pg ll ht l(2)]
    have c: "place (alignUp len pg) kLowMemoryStart kTopDownStart base"
      "free_range RegionSize (g_mappings s) base (alignUp len pg)" using f(1) by (auto simp: candidate_def)
    have "len \<le> 2 ^ 31" using c(1) f(3) by (simp add: place_def kTopDownStart_def)
    then have ld: "pg dvd len" "sz \<le> len" using alignUp_dvd [OF pg w(2)] l(1) by (simp_all add: uintptr_max_def)
    have "alignUp len pg = len"
      by (rule alignUp_id) (use pg ld(1) page_size_le [OF pg] \<open>len \<le> 2 ^ 31\<close> in \<open>auto simp: page_size_def\<close>)
    with c f(4) ld True G ht show ?thesis by (auto simp: place_def intro: dvd_trans)
  next
    case False
    define b where "b = alignDown request kVirtualAllocationGranularity"
    note bp = alignDown_props [OF granularity_alignment w(1), folded b_def]
    have off: "subp request b = request - b" using bp(1) w(1) by (simp add: subp_eq)
    from p False have q: "base = b" "len = alignUp (addp sz (request - b)) pg" "\<not> addOverflows (request - b) sz"
      "0 < len" "\<not> addp base len > kTwoGB" "\<not> overlapsExistingMapping base len s"
      by (auto simp: reserve_place_def Let_def b_def [symmetric] off split: if_splits)
    have sp: "addp sz (request - b) = sz + (request - b)" "sz + (request - b) < 2 ^ 32"
      using q(3) w(2) by (auto simp: addOverflows_def uintptr_max_def addp_eq)
    have bl: "base + len \<le> kTwoGB" using q(5) hb by (simp add: addp_eq)
    then have "len < uintptr_max" by (simp add: kTwoGB_eq uintptr_max_def)
    with alignUp_dvd [OF pg sp(2)] q(2) sp(1) have d: "pg dvd len" "sz + (request - b) \<le> len" by simp_all
    have "free_range RegionSize (g_mappings s) base len"
      using overlapsExistingMapping_iff [OF sh q(4) hb] q(6) by simp
    with bl q(1,4) d bp G show ?thesis by (auto intro: dvd_trans)
  qed
  then show "free_range RegionSize (g_mappings s) base len" "0 < len" "base + len \<le> kTwoGB" "pg dvd base" "pg dvd len"
    "request \<noteq> 0 \<Longrightarrow> base \<le> request \<and> request + sz \<le> base + len" "sz \<le> len" by blast+
qed

lemma pages_ok_new:
  assumes "length ps * pg = l" "\<forall>q \<in> set ps. p \<in> allowed md q" "vbase r = a" "pageProtect r = ps"
  shows "pages_ok md pg ((a, l, p) # cs) r"
  unfolding pages_ok_def
proof (intro allI impI)
  fix i x assume i: "i < length (pageProtect r)" and x: "vbase r + i * pg \<le> x \<and> x < vbase r + (i + 1) * pg"
  have "vbase r \<le> x" "x < vbase r + l"
    using page_in_region [OF i, of "vbase r" pg x] x assms(1,4) by auto
  then show "\<exists>h \<in> allowed md (pageProtect r ! i). host_prot ((a, l, p) # cs) x = Some h" using assms i by simp
qed

lemma inv_virtualReserve:
  assumes inv: "vm_inv md pg s" and pg: "page_size pg" and w: "request < 2 ^ 32" "sz < 2 ^ 32" "0 < sz"
    and hb: "host_bounded mmap" and pr: "grants md protect"
  shows "vm_inv md pg (snd (virtualReserve pg mmap request sz td commit protect type s))"
proof (cases "reserve_place pg request sz td s")
  case (Inl st)
  then show ?thesis using inv by (simp add: virtualReserve_def)
next
  case (Inr bl)
  obtain base len where bl: "bl = (base, len)" by fastforce
  define p where "p = (if commit then posixProtectFromWin32 protect else PROT_NONE)"
  define r where "r = \<lparr>vbase = base, vsize = len, allocationProtect = protect, vtype = type,
                              pageProtect = replicate (len div pg) (if commit then protect else 0)\<rparr>"
  have sh: "vm_shape pg s" using inv by (simp add: vm_inv_def)
  show ?thesis
  proof (cases "mmap base len p")
    case (Some err)
    then show ?thesis using inv Inr bl by (simp add: virtualReserve_def host_call_def p_def)
  next
    case None
    then have "base + len < 2 ^ 32" using hb by (auto simp: host_bounded_def)
    note q = reserve_place_Inr [OF sh pg w Inr [unfolded bl] this]
    let ?s = "s\<lparr>hostCalls := (base, len, p) # hostCalls s\<rparr>"
    have i: "vm_inv md pg ?s" by (rule inv_call_outside [OF inv free_range_owned [OF sh q(1)]])
    have "region_ok pg (vbase r, r)" using q(3-5) by (simp add: r_def region_ok_def)
    moreover have "pages_ok md pg (hostCalls ?s) r"
      using pages_ok_new [of "pageProtect r" pg len p md r base "hostCalls s"] q(5) allowed_granted [OF pr] by (simp add: r_def p_def)
    ultimately have "vm_inv md pg (refreshGuestMapping r (put_region r ?s))"
      using inv_new_region [OF i, of r] q(1,2) by (simp add: r_def)
    moreover have "virtualReserve pg mmap request sz td commit protect type s =
        ((Success, base, len), refreshGuestMapping r (put_region r ?s))"
      using None Inr bl by (simp add: virtualReserve_def host_call_def p_def r_def Let_def)
    ultimately show ?thesis by simp
  qed
qed

subsection \<open>Commit\<close>

lemma run_len_spec:
  assumes "i < n"
  shows "i + run_len ps fp n i \<le> n" "\<And>k. i < k \<Longrightarrow> k < i + run_len ps fp n i \<Longrightarrow> ps ! (fp + k) = 0"
proof -
  have "i < n \<longrightarrow> i + run_len ps fp n i \<le> n \<and> (\<forall>k. i < k \<and> k < i + run_len ps fp n i \<longrightarrow> ps ! (fp + k) = 0)"
  proof (induction ps fp n i rule: run_len.induct)
    case (1 ps fp n i)
    show ?case
    proof (cases "i + 1 < n \<and> ps ! (fp + i + 1) = 0")
      case True
      with 1 have ih: "i + 1 + run_len ps fp n (i + 1) \<le> n"
        "\<And>k. i + 1 < k \<Longrightarrow> k < i + 1 + run_len ps fp n (i + 1) \<Longrightarrow> ps ! (fp + k) = 0" by auto
      have r: "run_len ps fp n i = 1 + run_len ps fp n (i + 1)" using True by (subst run_len.simps) simp
      have "ps ! (fp + k) = 0" if "i < k" "k < i + run_len ps fp n i" for k
        using ih(2) [of k] True that r by (cases "k = i + 1") auto
      with ih(1) r show ?thesis by simp
    next
      case False
      then have "run_len ps fp n i = 1" by (subst run_len.simps) auto
      then show ?thesis by auto
    qed
  qed
  with assms show "i + run_len ps fp n i \<le> n" "\<And>k. i < k \<Longrightarrow> k < i + run_len ps fp n i \<Longrightarrow> ps ! (fp + k) = 0"
    by blast+
qed

text \<open>The runs are those of the uncommitted pages, inside the range.\<close>

definition runs_ok :: "u32 list \<Rightarrow> nat \<Rightarrow> nat \<Rightarrow> nat \<Rightarrow> (nat \<times> nat) list \<Rightarrow> bool" where
  "runs_ok ps fp n i runs \<longleftrightarrow> (\<forall>(j, l) \<in> set runs. j + l \<le> n) \<and>
     (\<forall>k. i \<le> k \<and> k < n \<longrightarrow> (ps ! (fp + k) = 0 \<longleftrightarrow> (\<exists>(j, l) \<in> set runs. j \<le> k \<and> k < j + l))) \<and>
     (\<forall>(j, l) \<in> set runs. i \<le> j)"

lemma runs_ok_append:
  assumes r: "runs_ok ps fp n i' runs" and ii: "i \<le> i'" "i' \<le> n"
    and pre: "\<And>j l. (j, l) \<in> set pre \<Longrightarrow> i \<le> j \<and> j + l \<le> i'"
      "\<And>k. i \<le> k \<Longrightarrow> k < i' \<Longrightarrow> ps ! (fp + k) = 0 \<longleftrightarrow> (\<exists>(j, l) \<in> set pre. j \<le> k \<and> k < j + l)"
  shows "runs_ok ps fp n i (pre @ runs)"
proof -
  have lo: "i' \<le> j" if "(j, m) \<in> set runs" for j m using r that by (auto simp: runs_ok_def)
  have "(ps ! (fp + k) = 0) \<longleftrightarrow> (\<exists>(j, m) \<in> set (pre @ runs). j \<le> k \<and> k < j + m)" if k: "i \<le> k" "k < n" for k
  proof (cases "k < i'")
    case True
    have "\<not> (\<exists>(j, m) \<in> set runs. j \<le> k \<and> k < j + m)" using lo True by fastforce
    with pre(2) [OF k(1) True] show ?thesis by auto
  next
    case False
    have "\<not> (\<exists>(j, m) \<in> set pre. j \<le> k \<and> k < j + m)" using pre(1) False by fastforce
    moreover have "(ps ! (fp + k) = 0) \<longleftrightarrow> (\<exists>(j, m) \<in> set runs. j \<le> k \<and> k < j + m)"
      using r False k(2) by (simp add: runs_ok_def)
    ultimately show ?thesis by auto
  qed
  moreover have "j + m \<le> n" "i \<le> j" if "(j, m) \<in> set (pre @ runs)" for j m
    using that pre(1) [of j m] lo [of j m] ii r by (auto simp: runs_ok_def)
  ultimately show ?thesis unfolding runs_ok_def by blast
qed

lemma commit_runs_ok:
  assumes "fp + n \<le> length ps"
  shows "\<exists>runs. commit_runs ps fp n i = Some runs \<and> runs_ok ps fp n i runs"
  using assms
proof (induction ps fp n i rule: commit_runs.induct)
  case (1 ps fp n i)
  show ?case
  proof (cases "i \<ge> n")
    case True
    then show ?thesis by (subst commit_runs.simps) (auto simp: runs_ok_def)
  next
    case lt: False
    then have b: "\<not> fp + i \<ge> length ps" "i < n" using 1(3) by simp_all
    show ?thesis
    proof (cases "ps ! (fp + i) = 0")
      case False
      from 1(1) [OF lt b(1)] False 1(3) obtain runs
        where r: "commit_runs ps fp n (i + 1) = Some runs" "runs_ok ps fp n (i + 1) runs" by auto
      have "runs_ok ps fp n i ([] @ runs)"
      proof (rule runs_ok_append [OF r(2)])
        fix k assume "i \<le> k" "k < i + 1"
        then have "k = i" by simp
        with False show "ps ! (fp + k) = 0 \<longleftrightarrow> (\<exists>(j, l) \<in> set []. j \<le> k \<and> k < j + l)" by simp
      qed (use b(2) in auto)
      moreover have "commit_runs ps fp n i = Some runs" using lt b False r(1) by (subst commit_runs.simps) simp
      ultimately show ?thesis by auto
    next
      case True
      define l where "l = run_len ps fp n i"
      note rl = run_len_spec [OF b(2), where ps = ps and fp = fp, folded l_def]
      from 1(2) [OF lt b(1)] True 1(3) obtain runs
        where r: "commit_runs ps fp n (i + l) = Some runs" "runs_ok ps fp n (i + l) runs" by (auto simp: l_def)
      have "runs_ok ps fp n i ([(i, l)] @ runs)"
      proof (rule runs_ok_append [OF r(2)])
        fix k assume k: "i \<le> k" "k < i + l"
        then have "ps ! (fp + k) = 0" using rl(2) [of k] True by (cases "k = i") auto
        with k show "ps ! (fp + k) = 0 \<longleftrightarrow> (\<exists>(j, l) \<in> set [(i, l)]. j \<le> k \<and> k < j + l)" by simp
      qed (use rl(1) in auto)
      moreover have "commit_runs ps fp n i = Some ((i, l) # runs)"
        using lt b True r(1) by (subst commit_runs.simps) (simp add: l_def)
      ultimately show ?thesis by auto
    qed
  qed
qed

text \<open>What the loop over the runs leaves: calls inside the region, and its pages in step with the host.\<close>

definition loop_result :: "prot_mode \<Rightarrow> nat \<Rightarrow> VirtualAllocation \<Rightarrow> VmState \<Rightarrow> VirtualAllocation \<Rightarrow> VmState \<Rightarrow> bool" where
  "loop_result md pg r s r' s' \<longleftrightarrow>
     (\<exists>ps cs. r' = r\<lparr>pageProtect := ps\<rparr> \<and> length ps = length (pageProtect r) \<and>
        s' = s\<lparr>hostCalls := cs @ hostCalls s\<rparr> \<and> calls_within (vbase r) (vsize r) cs \<and>
        pages_ok md pg (cs @ hostCalls s) r')"

definition covered :: "nat \<Rightarrow> (nat \<times> nat) list \<Rightarrow> nat \<Rightarrow> bool" where
  "covered f runs k \<longleftrightarrow> (\<exists>(j, l) \<in> set runs. f + j \<le> k \<and> k < f + j + l)"

lemma calls_within_append:
  "calls_within b l (cs @ ds) \<longleftrightarrow> calls_within b l cs \<and> calls_within b l ds"
  by (auto simp: calls_within_def)

lemma loop_result_refl: "pages_ok md pg (hostCalls s) r \<Longrightarrow> loop_result md pg r s r s"
  unfolding loop_result_def
  by (rule exI [of _ "pageProtect r"], rule exI [of _ "[]"]) (simp add: calls_within_def)

lemma commit_loop_ok:
  assumes "pages_ok md pg (hostCalls s) r" "region_ok pg (vbase r, r)" "0 < pg" "grants md protect"
    "\<And>j l. (j, l) \<in> set runs \<Longrightarrow> f + j + l \<le> length (pageProtect r)"
    "commit_loop pg mmap protect (map (\<lambda>(i, l). (addp (vbase r + f * pg) (i * pg), l * pg)) runs) r s = (res, r', s')"
  shows "loop_result md pg r s r' s' \<and>
    (res = None \<longrightarrow> (\<forall>k < length (pageProtect r).
       pageProtect r' ! k = (if covered f runs k then protect else pageProtect r ! k)))"
  using assms
proof (induction runs arbitrary: r s)
  case Nil
  then have "r' = r \<and> s' = s" by simp
  with Nil.prems(1) show ?case
    by (simp add: loop_result_refl covered_def)
next
  case (Cons jl runs)
  obtain j l where jl: "jl = (j, l)" by fastforce
  define b where "b = vbase r + (f + j) * pg"
  have in_len: "f + j + l \<le> length (pageProtect r)" using Cons.prems(5) jl by auto
  have pr: "page_range pg r b (l * pg) (f + j) l" using in_len by (simp add: page_range_def b_def)
  note wi = page_range_within [OF pr Cons.prems(2)]
  have tot: "vbase r + vsize r \<le> 2 ^ 31" using Cons.prems(2) by (simp add: region_ok_def kTwoGB_eq)
  have ad: "addp (vbase r + f * pg) (j * pg) = b" using wi tot by (simp add: b_def add_mult_distrib addp_eq)
  have mc: "markCommitted pg r b (l * pg) protect = r\<lparr>pageProtect := set_pages (pageProtect r) (f + j) l protect\<rparr>"
    using wi tot Cons.prems(3) by (cases l) (simp_all add: markCommitted_def subp_eq b_def)
  let ?p = "posixProtectFromWin32 protect"
  show ?case
  proof (cases "mmap b (l * pg) ?p")
    case (Some err)
    then have "r' = r \<and> s' = s \<and> res = Some err" using Cons.prems(6) jl ad by (auto simp: host_call_def)
    with Cons.prems(1) show ?thesis
      by (simp add: loop_result_refl)
  next
    case None
    define r1 where "r1 = r\<lparr>pageProtect := set_pages (pageProtect r) (f + j) l protect\<rparr>"
    define s1 where "s1 = s\<lparr>hostCalls := (b, l * pg, ?p) # hostCalls s\<rparr>"
    have "pages_ok md pg (hostCalls s1) r1"
      using pages_ok_set [OF Cons.prems(1) pr Cons.prems(3) allowed_granted [OF Cons.prems(4)]] by (simp add: s1_def r1_def)
    moreover have "region_ok pg (vbase r1, r1)" using Cons.prems(2) by (simp add: region_ok_def r1_def)
    moreover have "commit_loop pg mmap protect
        (map (\<lambda>(i, l). (addp (vbase r1 + f * pg) (i * pg), l * pg)) runs) r1 s1 = (res, r', s')"
      using Cons.prems(6) None jl ad mc by (simp add: host_call_def r1_def s1_def)
    ultimately have ih: "loop_result md pg r1 s1 r' s'"
      "res = None \<longrightarrow> (\<forall>k < length (pageProtect r1).
         pageProtect r' ! k = (if covered f runs k then protect else pageProtect r1 ! k))"
      using Cons.IH [of s1 r1] Cons.prems(3-5) by (simp_all add: r1_def)
    have "covered f ((j, l) # runs) k \<longleftrightarrow> covered f runs k \<or> f + j \<le> k \<and> k < f + j + l" for k
      by (auto simp: covered_def)
    then have pages: "res = None \<longrightarrow> (\<forall>k < length (pageProtect r).
        pageProtect r' ! k = (if covered f (jl # runs) k then protect else pageProtect r ! k))"
      using ih(2) by (auto simp: r1_def jl nth_set_pages)
    from ih(1) obtain ps cs where lr: "r' = r1\<lparr>pageProtect := ps\<rparr>" "length ps = length (pageProtect r1)"
      "s' = s1\<lparr>hostCalls := cs @ hostCalls s1\<rparr>" "calls_within (vbase r1) (vsize r1) cs"
      "pages_ok md pg (cs @ hostCalls s1) r'" by (auto simp: loop_result_def)
    have "loop_result md pg r s r' s'"
      unfolding loop_result_def
      by (rule exI [of _ ps], rule exI [of _ "cs @ [(b, l * pg, ?p)]"])
        (use lr wi in \<open>simp add: r1_def s1_def calls_within_append\<close>, simp add: calls_within_def)
    with pages show ?thesis by blast
  qed
qed

text \<open>The range of a commit, and the runs it maps.\<close>

lemma commit_range:
  assumes sh: "vm_shape pg s" and pg: "page_size pg" and b: "request < 2 ^ 32" "sz < 2 ^ 32" and sz: "0 < sz"
    and no: "\<not> addOverflows request sz"
    and f: "findRegion (alignDown request pg) s = Some r"
    and w: "rangeWithinRegion r (alignDown request pg) (subp (alignUp (addp request sz) pg) (alignDown request pg))"
  shows "page_range pg r (alignDown request pg) (subp (alignUp (addp request sz) pg) (alignDown request pg))
      (subp (alignDown request pg) (vbase r) div pg)
      (subp (alignUp (addp request sz) pg) (alignDown request pg) div pg)"
    "0 < subp (alignUp (addp request sz) pg) (alignDown request pg) div pg"
    "alignDown request pg \<le> request"
    "request + sz \<le> alignDown request pg + subp (alignUp (addp request sz) pg) (alignDown request pg)"
proof -
  define start where "start = alignDown request pg"
  define e where "e = alignUp (addp request sz) pg"
  have x: "addp request sz < 2 ^ 32" by (simp add: addp_def)
  have pga: "alignment pg" using pg by (simp add: page_size_def)
  have ad: "addp request sz = request + sz" using no b by (auto simp: addOverflows_def uintptr_max_def addp_eq)
  have st: "pg dvd start" "start \<le> request" using alignDown_props [OF pga b(1)] by (simp_all add: start_def)
  have e: "e < 2 ^ 32" "e < uintptr_max \<Longrightarrow> pg dvd e" "e < uintptr_max \<Longrightarrow> request + sz \<le> e"
    using alignUp_less [OF pg x] alignUp_dvd [OF pg x] by (simp_all add: e_def ad)
  have se: "start < e"
  proof (cases "e < uintptr_max")
    case True
    with e(3) st(2) sz show ?thesis by simp
  next
    case False
    with e(1) x ad st(2) sz show ?thesis by (simp add: uintptr_max_def)
  qed
  note w' = w [folded start_def e_def] and f' = f [folded start_def]
  note op = op_range [OF sh pg f' w' se e(1) st(1) e(2)]
  have "e \<le> 2 ^ 31" using op(3) findRegion_Some(2) [OF sh f'] by (simp add: region_ok_def kTwoGB_eq)
  then have "request + sz \<le> e" by (intro e(3)) (simp add: uintptr_max_def)
  moreover have "start + subp e start = e" using se e(1) by (simp add: subp_eq)
  ultimately show "page_range pg r (alignDown request pg) (subp (alignUp (addp request sz) pg) (alignDown request pg))
      (subp (alignDown request pg) (vbase r) div pg)
      (subp (alignUp (addp request sz) pg) (alignDown request pg) div pg)"
    "0 < subp (alignUp (addp request sz) pg) (alignDown request pg) div pg"
    "alignDown request pg \<le> request"
    "request + sz \<le> alignDown request pg + subp (alignUp (addp request sz) pg) (alignDown request pg)"
    using op st unfolding start_def e_def by auto
qed

text \<open>The pages a commit of \<open>n\<close> pages from page \<open>f\<close> on leaves: those without a protection get one.\<close>

definition committed_pages :: "u32 list \<Rightarrow> nat \<Rightarrow> nat \<Rightarrow> u32 \<Rightarrow> u32 list" where
  "committed_pages ps f n protect =
     map (\<lambda>(k, q). if f \<le> k \<and> k < f + n \<and> q = 0 then protect else q) (enumerate 0 ps)"

lemma length_committed_pages [simp]: "length (committed_pages ps f n p) = length ps"
  by (simp add: committed_pages_def)

lemma nth_committed_pages:
  "k < length ps \<Longrightarrow> committed_pages ps f n p ! k = (if f \<le> k \<and> k < f + n \<and> ps ! k = 0 then p else ps ! k)"
  by (simp add: committed_pages_def nth_enumerate_eq)

lemma covered_runs:
  assumes "runs_ok ps f n 0 runs" "k < length ps"
  shows "covered f runs k \<longleftrightarrow> f \<le> k \<and> k < f + n \<and> ps ! k = 0"
proof (cases "f \<le> k \<and> k < f + n")
  case True
  then have "f + j \<le> k \<and> k < f + j + l \<longleftrightarrow> j \<le> k - f \<and> k - f < j + l" for j l by auto
  then have "covered f runs k \<longleftrightarrow> (\<exists>(j, l) \<in> set runs. j \<le> k - f \<and> k - f < j + l)" by (simp add: covered_def)
  moreover have "ps ! (f + (k - f)) = 0 \<longleftrightarrow> (\<exists>(j, l) \<in> set runs. j \<le> k - f \<and> k - f < j + l)"
  proof -
    have "k - f < n" using True by auto
    with assms(1) show ?thesis unfolding runs_ok_def by blast
  qed
  ultimately show ?thesis using True by simp
next
  case False
  then have "\<not> covered f runs k" using assms(1) by (fastforce simp: covered_def runs_ok_def)
  with False show ?thesis by blast
qed

lemma virtualCommit_run:
  assumes inv: "vm_inv md pg s" and pg: "page_size pg" and b: "request < 2 ^ 32" "sz < 2 ^ 32" and sz: "0 < sz"
    and rq: "request \<noteq> 0" and no: "\<not> addOverflows request sz" and pr: "grants md protect"
    and start: "start = alignDown request pg" and len: "len = subp (alignUp (addp request sz) pg) start"
    and f: "findRegion start s = Some r" and w: "rangeWithinRegion r start len"
  obtains res r' s' where "loop_result md pg r s r' s'"
    "res = None \<Longrightarrow> pageProtect r' = committed_pages (pageProtect r) (subp start (vbase r) div pg) (len div pg) protect"
    "virtualCommit pg mmap request sz protect s =
       (case res of Some err \<Rightarrow> ((vmStatusFromErrno err, request, sz), put_region r' s')
        | None \<Rightarrow> ((Success, start, len), refreshGuestMapping r' (put_region r' s')))"
proof -
  define fp where "fp = subp start (vbase r) div pg"
  define n where "n = len div pg"
  have sh: "vm_shape pg s" using inv by (simp add: vm_inv_def)
  note r = findRegion_Some [OF sh f]
  note cr = commit_range [OF sh pg b sz no f [unfolded start] w [unfolded len start],
      folded start, folded len, folded fp_def n_def]
  have pg0: "0 < pg" using page_size_le [OF pg] by simp
  have fn: "start = vbase r + fp * pg" "len = n * pg" "fp + n \<le> length (pageProtect r)"
    using cr(1) by (auto simp: page_range_def)
  obtain runs where runs: "commit_runs (pageProtect r) fp n 0 = Some runs" "runs_ok (pageProtect r) fp n 0 runs"
    using commit_runs_ok [OF fn(3)] by blast
  obtain res r' s' where cl:
    "commit_loop pg mmap protect (map (\<lambda>(i, l). (addp start (i * pg), l * pg)) runs) r s = (res, r', s')"
    by (metis prod_cases3)
  have po: "pages_ok md pg (hostCalls s) r" using inv map_of_SomeD [OF r(1)] by (auto simp: vm_inv_def host_ok_def)
  have ro: "fp + j + l \<le> length (pageProtect r)" if "(j, l) \<in> set runs" for j l
    using runs(2) that fn(3) by (fastforce simp: runs_ok_def)
  note ok = commit_loop_ok [OF po r(2) pg0 pr ro cl [unfolded fn(1)]]
  from ok obtain ps where ps: "r' = r\<lparr>pageProtect := ps\<rparr>" "length ps = length (pageProtect r)"
    by (auto simp: loop_result_def)
  have pages: "pageProtect r' = committed_pages (pageProtect r) fp n protect" if "res = None"
    using ok that ps covered_runs [OF runs(2)] by (intro nth_equalityI) (auto simp: nth_committed_pages)
  have ln: "len \<noteq> 0" using cr(2) by (cases "len = 0") (simp_all add: n_def)
  have "virtualCommit pg mmap request sz protect s =
       (case res of Some err \<Rightarrow> ((vmStatusFromErrno err, request, sz), put_region r' s')
        | None \<Rightarrow> ((Success, start, len), refreshGuestMapping r' (put_region r' s')))"
    using rq no f w ln runs(1) cl
    by (simp add: virtualCommit_def Let_def start [symmetric] len [symmetric] fp_def [symmetric] n_def [symmetric]
        split: option.split)
  with that [of r' s' res] ok pages show thesis unfolding fp_def n_def by blast
qed

lemma inv_virtualCommit:
  assumes inv: "vm_inv md pg s" and pg: "page_size pg" and b: "request < 2 ^ 32" "sz < 2 ^ 32" and sz: "0 < sz"
    and pr: "grants md protect"
  shows "vm_inv md pg (snd (virtualCommit pg mmap request sz protect s))"
proof -
  define start where "start = alignDown request pg"
  define len where "len = subp (alignUp (addp request sz) pg) start"
  show ?thesis
  proof (cases "\<exists>r. request \<noteq> 0 \<and> \<not> addOverflows request sz \<and> findRegion start s = Some r \<and> rangeWithinRegion r start len")
    case False
    then have "snd (virtualCommit pg mmap request sz protect s) = s"
      by (auto simp: virtualCommit_def Let_def start_def [symmetric] len_def [symmetric] split: option.splits)
    with inv show ?thesis by simp
  next
    case True
    then obtain r where r: "request \<noteq> 0" "\<not> addOverflows request sz" "findRegion start s = Some r"
      "rangeWithinRegion r start len" by blast
    obtain res r' s' where o: "loop_result md pg r s r' s'"
      "virtualCommit pg mmap request sz protect s =
       (case res of Some err \<Rightarrow> ((vmStatusFromErrno err, request, sz), put_region r' s')
        | None \<Rightarrow> ((Success, start, len), refreshGuestMapping r' (put_region r' s')))"
      by (rule virtualCommit_run [OF inv pg b sz r(1,2) pr start_def len_def r(3,4)])
    have sh: "vm_shape pg s" using inv by (simp add: vm_inv_def)
    note m = findRegion_Some(1) [OF sh r(3)]
    from o(1) obtain ps cs where lr: "r' = r\<lparr>pageProtect := ps\<rparr>" "length ps = length (pageProtect r)"
      "s' = s\<lparr>hostCalls := cs @ hostCalls s\<rparr>" "calls_within (vbase r) (vsize r) cs"
      "pages_ok md pg (cs @ hostCalls s) r'" by (auto simp: loop_result_def)
    have "vm_inv md pg (put_region r' s')" "vm_inv md pg (refreshGuestMapping r' (put_region r' s'))"
      unfolding lr(3)
      by (rule inv_put_region [OF inv, of _ r] inv_update_region [OF inv, of _ r]; use lr m in simp)+
    then show ?thesis using o(2) by (simp split: option.split)
  qed
qed

lemma inv_virtualAlloc:
  assumes inv: "vm_inv md pg s" and pg: "page_size pg" and b: "request < 2 ^ 32" "sz < 2 ^ 32"
    and hb: "host_bounded mmap" and pr: "grants md protect"
  shows "vm_inv md pg (snd (virtualAlloc pg mmap madvise request sz allocationType protect type s))"
proof (cases "sz = 0")
  case True
  then show ?thesis using inv by (simp add: virtualAlloc_def Let_def)
next
  case False
  then have sz: "0 < sz" by simp
  note i = inv_virtualReserve [OF inv pg b sz hb pr] inv_virtualCommit [OF inv pg b sz pr]
  show ?thesis unfolding virtualAlloc_def Let_def using inv i by (cases "request = 0") (simp_all split: if_split)
qed

lemma inv_reserveViewRange:
  assumes inv: "vm_inv md pg s" and pg: "page_size pg" and b: "regionSize < 2 ^ 32" "maxAddr \<le> kTwoGB"
  shows "vm_inv md pg (snd (reserveViewRange pg regionSize minAddr maxAddr s))"
proof -
  define al where "al = alignUp regionSize pg"
  define lo where "lo = (if minAddr = 0 then kLowMemoryStart else minAddr)"
  define hi where "hi = (if maxAddr = 0 then kTopDownStart else maxAddr)"
  have hi: "hi \<le> kTwoGB" using b(2) by (simp add: hi_def kTopDownStart_def kTwoGB_def)
  have sh: "vm_shape pg s" using inv by (simp add: vm_inv_def)
  have al: "al < 2 ^ 32" using alignUp_less [OF pg b(1)] by (simp add: al_def)
  show ?thesis
  proof (cases "findFreeMapping pg al lo hi False s")
    case None
    then show ?thesis using inv by (simp add: reserveViewRange_def Let_def al_def lo_def hi_def)
  next
    case (Some c)
    note f = findFreeMapping_Some [OF sh pg al hi Some]
    have "vm_inv md pg (recordGuestMapping c al PAGE_NOACCESS MEM_RESERVE PAGE_NOACCESS MEM_MAPPED s)"
      using inv_record_new [OF inv, of c al] f hi by (auto simp: candidate_def place_def free_range_def overlaps_def)
    then show ?thesis using inv Some
      unfolding reserveViewRange_def Let_def al_def [symmetric] lo_def [symmetric] hi_def [symmetric] by simp
  qed
qed

lemma mapArena_cases:
  assumes inv: "vm_inv md pg s" and pg: "page_size pg" and hi: "maxAddr \<le> kTwoGB"
  obtains "mapArena pg mmap len0 minAddr maxAddr tp s = (None, s)"
  | c len s' where "mapArena pg mmap len0 minAddr maxAddr tp s = (Some (c, len), s')" "vm_inv md pg s'"
    "candidate (g_mappings s) len minAddr maxAddr c" "free_range vsize (g_virtualAllocations s') c len"
    "pg dvd len" "0 < len" "len = alignDown (addp len0 (pg - 1)) pg"
proof -
  define len where "len = alignDown (addp len0 (pg - 1)) pg"
  have sh: "vm_shape pg s" using inv by (simp add: vm_inv_def)
  have pga: "alignment pg" using pg by (simp add: page_size_def)
  have x: "addp len0 (pg - 1) < 2 ^ 32" by (simp add: addp_def)
  note d = alignDown_props [OF pga x, folded len_def]
  have len: "len < 2 ^ 32" using d(1) x by linarith
  show thesis
  proof (cases "findFreeMapping pg len minAddr maxAddr tp s")
    case None
    then show thesis using that(1) by (simp add: mapArena_def len_def Let_def)
  next
    case (Some c)
    note f = findFreeMapping_Some [OF sh pg len hi Some]
    have l31: "len \<le> 2 ^ 31" using f(1,3) hi by (auto simp: candidate_def place_def kTwoGB_eq)
    have "alignUp len pg = len"
      by (rule alignUp_id) (use pga d(3) page_size_le [OF pg] l31 in auto)
    with f have c: "candidate (g_mappings s) len minAddr maxAddr c" "0 < len" by simp_all
    then have fr: "free_range RegionSize (g_mappings s) c len" "c + len \<le> kTwoGB"
      using hi by (auto simp: candidate_def place_def)
    show thesis
    proof (cases "mmap c len (PROT_READ + PROT_WRITE)")
      case Some': (Some err)
      then show thesis using that(1) Some by (simp add: mapArena_def mapAtAddr_def host_call_def len_def Let_def)
    next
      case None
      define s1 where "s1 = s\<lparr>hostCalls := (c, len, PROT_READ + PROT_WRITE) # hostCalls s\<rparr>"
      define s' where "s' = recordGuestMapping c len PAGE_READWRITE MEM_RESERVE PAGE_READWRITE MEM_PRIVATE s1"
      have fa: "free_range vsize (g_virtualAllocations s) c len" by (rule free_range_owned [OF sh fr(1)])
      have "vm_inv md pg s1" unfolding s1_def by (rule inv_call_outside [OF inv fa])
      then have "vm_inv md pg s'" unfolding s'_def by (rule inv_record_new) (use fr c in \<open>simp_all add: s1_def\<close>)
      moreover have "mapArena pg mmap len0 minAddr maxAddr tp s = (Some (c, len), s')"
        using None Some unfolding mapArena_def len_def [symmetric]
        by (simp add: mapAtAddr_def host_call_def s1_def s'_def)
      moreover have "free_range vsize (g_virtualAllocations s') c len"
        using fa by (simp add: s'_def s1_def recordGuestMapping_def)
      ultimately show thesis using that(2) c d(3) len_def by blast
    qed
  qed
qed

lemma inv_mapArena:
  assumes "vm_inv md pg s" "page_size pg" "maxAddr \<le> kTwoGB"
  shows "vm_inv md pg (snd (mapArena pg mmap len0 minAddr maxAddr tp s))"
  by (rule mapArena_cases [OF assms, of mmap len0 minAddr tp]) (simp_all add: assms(1))

lemma free_range_sub:
  "free_range sz m b l \<Longrightarrow> b \<le> b' \<Longrightarrow> b' + l' \<le> b + l \<Longrightarrow> free_range sz m b' l'"
  by (fastforce simp: free_range_def overlaps_def)

lemma inv_host_call:
  assumes "vm_inv md pg s" "free_range vsize (g_virtualAllocations s) a l"
  shows "vm_inv md pg (snd (host_call f a l p s))"
  using assms inv_call_outside [OF assms] by (simp add: host_call_def split: option.split)

lemma inv_reserveGuestStack:
  assumes inv: "vm_inv md pg s" and pg: "page_size pg"
  shows "vm_inv md pg (snd (reserveGuestStack pg mmap mprotect n s))"
proof -
  define total where "total = alignDown (addp n (2 * pg - 1)) pg"
  have hi: "kTwoGB \<le> kTwoGB" by simp
  show ?thesis
  proof (rule mapArena_cases [OF inv pg hi, of mmap total kLowMemoryStart True])
    assume "mapArena pg mmap total kLowMemoryStart kTwoGB True s = (None, s)"
    with inv show ?thesis by (simp add: reserveGuestStack_def total_def Let_def)
  next
    fix c len s'
    assume a: "mapArena pg mmap total kLowMemoryStart kTwoGB True s = (Some (c, len), s')" "vm_inv md pg s'"
      "free_range vsize (g_virtualAllocations s') c len" "pg dvd len" "0 < len"
    have "free_range vsize (g_virtualAllocations s') c pg"
      by (rule free_range_sub [OF a(3)]) (use a(4,5) dvd_imp_le in auto)
    then show ?thesis using inv_host_call [OF a(2)] a(1)
      unfolding reserveGuestStack_def total_def [symmetric] by simp
  qed
qed

lemma inv_registerViewRange:
  assumes "vm_inv md pg s" "map_of (g_mappings s) b = Some i" "RegionSize i = alignUp n pg"
  shows "vm_inv md pg (registerViewRange pg b n ap p s)"
  using assms shape_record_same [of pg s b i] by (simp add: registerViewRange_def vm_inv_def)

lemma inv_releaseViewRange:
  "vm_inv md pg s \<Longrightarrow> map_of (g_virtualAllocations s) b = None \<Longrightarrow> vm_inv md pg (releaseViewRange b s)"
  by (simp add: releaseViewRange_def inv_erase_mapping)

section \<open>Sequences of operations\<close>

text \<open>
  One call on the tables. The arguments are 32-bit values; in the mode \<open>Exact\<close> protections are not zero; a view is
  registered at the range that was reserved for it, and only ranges without an allocation are
  released as views, as \<^verbatim>\<open>mapViewOfFileInternal\<close> and \<^verbatim>\<open>UnmapViewOfFile\<close> do. The host calls may
  fail in any way.
\<close>

inductive vm_step :: "prot_mode \<Rightarrow> nat \<Rightarrow> VmState \<Rightarrow> VmState \<Rightarrow> bool" for md :: prot_mode and pg :: nat where
  step_alloc: "request < 2 ^ 32 \<Longrightarrow> n < 2 ^ 32 \<Longrightarrow> host_bounded mmap \<Longrightarrow> grants md protect \<Longrightarrow>
    vm_step md pg s (snd (virtualAlloc pg mmap madvise request n allocationType protect type s))"
| step_free: "base < 2 ^ 32 \<Longrightarrow> vm_step md pg s (snd (virtualFree pg mmap base n freeType s))"
| step_protect: "base < 2 ^ 32 \<Longrightarrow> grants md protect \<Longrightarrow> vm_step md pg s (snd (virtualProtect pg mprotect base n protect s))"
| step_arena: "maxAddr \<le> kTwoGB \<Longrightarrow> vm_step md pg s (snd (mapArena pg mmap n minAddr maxAddr tp s))"
| step_stack: "vm_step md pg s (snd (reserveGuestStack pg mmap mprotect n s))"
| step_reserve_view: "n < 2 ^ 32 \<Longrightarrow> maxAddr \<le> kTwoGB \<Longrightarrow>
    vm_step md pg s (snd (reserveViewRange pg n minAddr maxAddr s))"
| step_register_view: "map_of (g_mappings s) base = Some i \<Longrightarrow> RegionSize i = alignUp n pg \<Longrightarrow>
    vm_step md pg s (registerViewRange pg base n aprot protect s)"
| step_release_view: "map_of (g_virtualAllocations s) base = None \<Longrightarrow> vm_step md pg s (releaseViewRange base s)"

text \<open>The start: the mappings the process found, no allocation.\<close>

definition vm_init :: "VmState \<Rightarrow> bool" where
  "vm_init s \<longleftrightarrow> g_virtualAllocations s = [] \<and> regions_wf RegionSize (g_mappings s) \<and>
     (\<forall>e \<in> set (g_mappings s). mapping_ok e)"

lemma vm_inv_init: "vm_init s \<Longrightarrow> vm_inv md pg s"
  by (simp add: vm_init_def vm_inv_def vm_shape_def host_ok_def)

lemma vm_inv_step: "vm_step md pg s t \<Longrightarrow> page_size pg \<Longrightarrow> vm_inv md pg s \<Longrightarrow> vm_inv md pg t"
  by (cases rule: vm_step.cases)
    (auto intro: inv_virtualAlloc inv_virtualFree inv_virtualProtect inv_mapArena inv_reserveGuestStack
      inv_reserveViewRange inv_registerViewRange inv_releaseViewRange)

definition vm_run :: "prot_mode \<Rightarrow> nat \<Rightarrow> VmState \<Rightarrow> VmState \<Rightarrow> bool" where
  "vm_run md pg s t \<longleftrightarrow> page_size pg \<and> vm_step md pg s t"

interpretation vm: inductive_invariant vm_init "vm_run md pg" "vm_inv md pg" for md pg
  by unfold_locales (auto intro: vm_inv_init vm_inv_step simp: vm_run_def)

end
