(* ===== verification/Memory_Properties.thy ===== *)
theory Memory_Properties
  imports Memory_Invariant
begin

unbundle bit_operations_syntax

text \<open>
  What the guest's virtual memory (\<^verbatim>\<open>src/src/heap.cpp\<close>) promises to its callers: where reservations
  go, what commit, protect and query do to the pages, and that the host agrees with the tables.
\<close>

section \<open>Query\<close>





section \<open>What virtual memory promises\<close>

text \<open>A small state for the witnesses: one mapped range and one allocation of two pages.\<close>

definition demo_mmap :: mmap_fn where
  "demo_mmap a l p = (if a + l < 2 ^ 32 then None else Some ENOMEM)"

definition demo_start :: VmState where
  "demo_start = \<lparr>g_mappings = [(0x110000, \<lparr>BaseAddress = 0x110000, AllocationBase = 0x110000, AllocationProtect = 1,
        RegionSize = 0x1000, MemState = MEM_RESERVE, Protect = 1, MemType = MEM_MAPPED\<rparr>)],
      g_virtualAllocations = [], hostCalls = []\<rparr>"

lemma page_size_4096: "page_size 4096"
  unfolding page_size_def alignment_def kVirtualAllocationGranularity_def
  by (intro conjI exI [of _ 12]) simp_all

lemma demo_bounded: "host_bounded demo_mmap" by (simp add: host_bounded_def demo_mmap_def)

lemma demo_start_init: "vm_init demo_start"
  by (simp add: vm_init_def demo_start_def regions_wf_def mapping_ok_def kTwoGB_def)

lemma demo_start_inv: "vm_inv md 4096 demo_start" by (rule vm_inv_init [OF demo_start_init])

lemma demo_find: "findFreeMapping 4096 0x3000 kLowMemoryStart kTopDownStart False demo_start = Some 0x120000"
  by (simp add: findFreeMapping_def demo_start_def kLowMemoryStart_def kTopDownStart_def alignUp_def subp_def addp_def
      uintptr_max_def kVirtualAllocationGranularity_def considerGap_def tryGap_def last_gap_def)

lemma demo_place: "reserve_place 4096 0x210800 0x1000 False demo_start = Inr (0x210000, 0x2000)"
  by (simp add: reserve_place_def demo_start_def alignDown_def alignUp_def subp_def addp_def uintptr_max_def
      kVirtualAllocationGranularity_def addOverflows_def kTwoGB_def overlapsExistingMapping_def from_last_at_most_def)

definition demo_region :: VirtualAllocation where
  "demo_region = \<lparr>vbase = 0x210000, vsize = 0x2000, allocationProtect = 4, vtype = 0x20000, pageProtect = [0, 0]\<rparr>"

definition demo_reserved :: VmState where
  "demo_reserved = snd (virtualReserve 4096 demo_mmap 0x210800 0x1000 False False 4 0x20000 demo_start)"

lemma demo_reserve:
  "virtualReserve 4096 demo_mmap 0x210800 0x1000 False False 4 0x20000 demo_start =
     ((Success, 0x210000, 0x2000), demo_reserved)"
  by (simp add: demo_reserved_def virtualReserve_def demo_place host_call_def demo_mmap_def Let_def)

lemma replicate_pages: "replicate 2 x = [x, x]" by (simp add: numeral_2_eq_2)

lemma demo_reserved_eq:
  "demo_reserved = refreshGuestMapping demo_region (put_region demo_region
     (demo_start\<lparr>hostCalls := (0x210000, 0x2000, PROT_NONE) # hostCalls demo_start\<rparr>))"
  by (simp add: demo_reserved_def virtualReserve_def demo_place host_call_def demo_mmap_def Let_def demo_region_def
      replicate_pages)

lemma demo_reserved_allocs: "g_virtualAllocations demo_reserved = [(0x210000, demo_region)]"
proof -
  have "g_virtualAllocations demo_start = []" by (simp add: demo_start_def)
  then show ?thesis unfolding demo_reserved_eq
    by (rule_tac r = demo_region and s = "put_region demo_region (demo_start\<lparr>hostCalls := (0x210000, 0x2000, PROT_NONE) # hostCalls demo_start\<rparr>)" in refresh_eq)
      (simp add: recordGuestMapping_def put_region_def demo_region_def)
qed

lemma demo_reserved_inv: "vm_inv md 4096 demo_reserved"
  unfolding demo_reserved_def by (rule inv_virtualReserve [OF demo_start_inv page_size_4096 _ _ _ demo_bounded]) (simp_all add: grants_def)

text \<open>
  C12: the search for address space is optimal: among the places that are aligned to 64 KB, lie
  in the wanted interval and overlap no mapping, it returns the lowest, or with \<^verbatim>\<open>preferTop\<close> the
  highest, and it fails only if there is no such place.
\<close>

theorem findFreeMapping_optimal:
  assumes "vm_inv md pg s" "page_size pg" "0 < len" "len \<le> 2 ^ 31" "hi \<le> kTwoGB"
  shows "best_of preferTop
    (\<lambda>x. kVirtualAllocationGranularity dvd x \<and> lo \<le> x \<and> x + alignUp len pg \<le> hi \<and>
         free_range RegionSize (g_mappings s) x (alignUp len pg))
    (findFreeMapping pg len lo hi preferTop s)"
proof -
  have "vm_shape pg s" using assms(1) by (simp add: vm_inv_def)
  from findFreeMapping_best [OF this assms(2-5), of preferTop lo] show ?thesis
    by (simp add: candidate_def [abs_def] place_def)
qed

theorem findFreeMapping_optimal_witness:
  "findFreeMapping 4096 0x3000 kLowMemoryStart kTopDownStart False demo_start = Some 0x120000 \<and>
   \<not> (\<exists>x < 0x120000. kVirtualAllocationGranularity dvd x \<and> kLowMemoryStart \<le> x \<and>
        free_range RegionSize (g_mappings demo_start) x (alignUp 0x3000 4096))"
proof -
  have hi: "kTopDownStart \<le> kTwoGB" by (simp add: kTopDownStart_def kTwoGB_def)
  have l: "alignUp 0x3000 4096 = 0x3000" by (simp add: alignUp_def subp_def addp_def uintptr_max_def)
  note opt = findFreeMapping_optimal [OF demo_start_inv page_size_4096 _ _ hi,
      where len = "0x3000" and preferTop = False and lo = kLowMemoryStart, unfolded demo_find l]
  have "\<not> free_range RegionSize (g_mappings demo_start) x 0x3000"
    if "x < 0x120000" "kVirtualAllocationGranularity dvd x" "kLowMemoryStart \<le> x" for x
  proof
    assume "free_range RegionSize (g_mappings demo_start) x 0x3000"
    moreover have "x + 0x3000 \<le> kTopDownStart" using that(1) by (simp add: kTopDownStart_def)
    ultimately have "0x120000 \<le> x" using opt that(2,3) by (simp add: best_of_def)
    with that(1) show False by simp
  qed
  with demo_find show ?thesis unfolding l by blast
qed

text \<open>
  C11: in every state that sequences of allocations, frees, protection changes, arenas, stacks and views that the library places reach, with any
  protections, whatever host calls fail: for every address of every page of every allocation the lookup finds that
  allocation, the address is below the 2 GB line, and the protection the host was last given for it is the translation of the
  page's entry. For a page without entry it is none, or, when calls with protection zero are among them (\<open>zero\<close>), possibly
  reading and writing: the table stores such a call as no protection.
\<close>

theorem reachable_pages:
  assumes "reach vm_init (vm_run (if zero then ZeroAllowed else Exact) pg) s" "(b, r) \<in> set (g_virtualAllocations s)"
    "i < length (pageProtect r)" "b + i * pg \<le> x" "x < b + (i + 1) * pg"
  shows "findRegion x s = Some r \<and> x < kTwoGB \<and>
    (\<exists>h. host_prot (hostCalls s) x = Some h \<and>
       (if pageProtect r ! i \<noteq> 0 then h = posixProtectFromWin32 (pageProtect r ! i)
        else h = PROT_NONE \<or> zero \<and> h = PROT_READ + PROT_WRITE))"
proof -
  let ?md = "if zero then ZeroAllowed else Exact"
  have inv: "vm_inv ?md pg s" by (rule vm.reach_invar [OF assms(1)])
  then have sh: "vm_shape pg s" and wf: "regions_wf vsize (g_virtualAllocations s)"
    and ok: "region_ok pg (b, r)" and po: "pages_ok ?md pg (hostCalls s) r"
    using assms(2) by (auto simp: vm_inv_def vm_shape_def host_ok_def)
  have xr: "b \<le> x" "x < b + vsize r" using page_in_region [OF assms(3-5)] ok by (simp_all add: region_ok_def)
  have "map_of (g_virtualAllocations s) b = Some r" using assms(2) regions_wf_distinct [OF wf] by simp
  from findRegion_contains [OF sh this xr] have "findRegion x s = Some r" .
  moreover have "x < kTwoGB" using xr ok by (simp add: region_ok_def)
  moreover have "\<exists>h \<in> allowed ?md (pageProtect r ! i). host_prot (hostCalls s) x = Some h"
    using po assms(3-5) ok by (simp add: pages_ok_def region_ok_def)
  moreover have "posixProtectFromWin32 0 = PROT_READ + PROT_WRITE" by (simp add: posixProtectFromWin32_def)
  ultimately show ?thesis by (auto simp: page_prot_def split: if_splits)
qed

lemma demo_reserved_reach: "reach vm_init (vm_run md 4096) demo_reserved"
proof -
  have "vm_step md 4096 demo_start (snd (virtualAlloc 4096 demo_mmap (\<lambda>a l. None) 0x210800 0x1000 0x2000 4 0x20000 demo_start))"
    by (rule step_alloc) (simp_all add: demo_bounded grants_def)
  moreover have "snd (virtualAlloc 4096 demo_mmap (\<lambda>a l. None) 0x210800 0x1000 0x2000 4 0x20000 demo_start) = demo_reserved"
    by (simp add: virtualAlloc_def demo_reserve Let_def)
  ultimately show ?thesis
    by (intro reach_step [OF reach_init [of vm_init, OF demo_start_init]]) (simp add: vm_run_def page_size_4096)
qed

theorem reachable_pages_witness:
  "findRegion 0x211234 demo_reserved = Some demo_region \<and>
   host_prot (hostCalls demo_reserved) 0x211234 = Some PROT_NONE"
  using reachable_pages [of False 4096 demo_reserved, simplified, OF demo_reserved_reach, where b = "0x210000" and r = demo_region and i = 1 and x = "0x211234"]
  by (simp add: demo_reserved_allocs demo_region_def)

text \<open>A successful reservation: its range is free before, and the table gains one allocation.\<close>

lemma virtualReserve_Success:
  assumes "vm_inv md pg s" "page_size pg" "request < 2 ^ 32" "sz < 2 ^ 32" "0 < sz" "host_bounded mmap"
    "virtualReserve pg mmap request sz topDown commit protect type s = ((Success, base, len), s')"
  shows "free_range RegionSize (g_mappings s) base len \<and> base + len \<le> kTwoGB \<and> sz \<le> len \<and>
    (if request = 0 then True else base \<le> request \<and> request + sz \<le> base + len) \<and>
    map_of (g_virtualAllocations s') = (map_of (g_virtualAllocations s))
      (base \<mapsto> \<lparr>vbase = base, vsize = len, allocationProtect = protect, vtype = type,
                pageProtect = replicate (len div pg) (if commit then protect else 0)\<rparr>)"
proof -
  have sh: "vm_shape pg s" using assms(1) by (simp add: vm_inv_def)
  from assms(7) have ex: "\<exists>x. reserve_place pg request sz topDown s = Inr x"
    by (auto simp: virtualReserve_def reserve_place_def Let_def split: sum.splits if_splits option.splits)
  then obtain b l where p: "reserve_place pg request sz topDown s = Inr (b, l)" by (metis surj_pair)
  have nS: "vmStatusFromErrno err \<noteq> Success" for err by (cases err) simp_all
  from assms(7) p nS have m: "mmap b l (if commit then posixProtectFromWin32 protect else PROT_NONE) = None" "b = base" "l = len"
    by (auto simp: virtualReserve_def host_call_def Let_def split: option.splits if_splits)
  have hb: "base + len < 2 ^ 32" using m assms(6) by (auto simp: host_bounded_def)
  note q = reserve_place_Inr [OF sh assms(2-5) p [unfolded m(2,3)] hb]
  define s1 where "s1 = snd (host_call mmap base len (if commit then posixProtectFromWin32 protect else PROT_NONE) s)"
  have g: "g_virtualAllocations (refreshGuestMapping r t) = g_virtualAllocations t" for r t
    by (rule refresh_eq [of r t]) (simp add: recordGuestMapping_def)
  have "map_of (g_virtualAllocations s') = (map_of (g_virtualAllocations s))
      (base \<mapsto> \<lparr>vbase = base, vsize = len, allocationProtect = protect, vtype = type,
                pageProtect = replicate (len div pg) (if commit then protect else 0)\<rparr>)"
    using assms(7) p m by (auto simp: virtualReserve_def host_call_def Let_def g put_region_def)
  with q show ?thesis by auto
qed

text \<open>
  C13: a successful reservation is sound: the range is new (it overlaps no mapping), lies below
  2 GB, contains the requested bytes when an address was given and has room for them otherwise, and
  the table gains exactly one allocation whose pages are all committed or all reserved. The host is
  assumed to refuse a mapping that reaches the end of the 32-bit address space.
\<close>

theorem virtualReserve_sound:
  assumes "vm_inv md pg s" "page_size pg" "request < 2 ^ 32" "sz < 2 ^ 32" "0 < sz" "host_bounded mmap"
    "virtualReserve pg mmap request sz topDown commit protect type s = ((Success, base, len), s')"
  shows "free_range RegionSize (g_mappings s) base len \<and> base + len \<le> kTwoGB \<and> sz \<le> len \<and>
    (if request = 0 then True else base \<le> request \<and> request + sz \<le> base + len) \<and>
    map_of (g_virtualAllocations s') = (map_of (g_virtualAllocations s))
      (base \<mapsto> \<lparr>vbase = base, vsize = len, allocationProtect = protect, vtype = type,
                pageProtect = replicate (len div pg) (if commit then protect else 0)\<rparr>)"
  using assms by (rule virtualReserve_Success)

theorem virtualReserve_sound_witness:
  "virtualReserve 4096 demo_mmap 0x210800 0x1000 False False 4 0x20000 demo_start =
     ((Success, 0x210000, 0x2000), demo_reserved) \<and>
   free_range RegionSize (g_mappings demo_start) 0x210000 0x2000"
  using virtualReserve_sound [OF demo_start_inv page_size_4096 _ _ _ demo_bounded demo_reserve] demo_reserve by simp

lemma refresh_allocs [simp]: "g_virtualAllocations (refreshGuestMapping r t) = g_virtualAllocations t"
  by (rule refresh_eq [of r t]) (simp add: recordGuestMapping_def)

lemma vmStatusFromErrno_not_Success [simp]: "vmStatusFromErrno err \<noteq> Success" "Success \<noteq> vmStatusFromErrno err"
  by (cases err; simp)+

text \<open>
  C14: a successful commit covers the requested bytes with whole pages of one allocation and
  changes the table in exactly one way: the pages of the range that had no protection get the
  requested one; pages committed before keep theirs, as do all pages outside the range.
\<close>

theorem virtualCommit_exact:
  assumes "vm_inv md pg s" "page_size pg" "request < 2 ^ 32" "sz < 2 ^ 32" "0 < sz" "protect \<noteq> 0"
    "virtualCommit pg mmap request sz protect s = ((Success, start, len), s')"
  shows "\<exists>r. findRegion start s = Some r \<and> start \<le> request \<and> request + sz \<le> start + len \<and>
    start + len \<le> vbase r + vsize r \<and>
    map_of (g_virtualAllocations s') = (map_of (g_virtualAllocations s))
      (vbase r \<mapsto> r\<lparr>pageProtect := committed_pages (pageProtect r) ((start - vbase r) div pg) (len div pg) protect\<rparr>)"
proof -
  define st where "st = alignDown request pg"
  define ln where "ln = subp (alignUp (addp request sz) pg) st"
  have sh: "vm_shape pg s" using assms(1) by (simp add: vm_inv_def)
  from assms(7) obtain r where r: "request \<noteq> 0" "\<not> addOverflows request sz" "findRegion st s = Some r"
      "rangeWithinRegion r st ln"
    unfolding virtualCommit_def Let_def st_def [symmetric] ln_def [symmetric]
    by (auto split: if_splits option.splits)
  have gr: "grants md protect" using assms(6) by (simp add: grants_def)
  obtain res r' t where o: "loop_result md pg r s r' t"
    "res = None \<Longrightarrow> pageProtect r' = committed_pages (pageProtect r) (subp st (vbase r) div pg) (ln div pg) protect"
    "virtualCommit pg mmap request sz protect s =
       (case res of Some err \<Rightarrow> ((vmStatusFromErrno err, request, sz), put_region r' t)
        | None \<Rightarrow> ((Success, st, ln), refreshGuestMapping r' (put_region r' t)))"
    by (rule virtualCommit_run [OF assms(1-5) r(1,2) gr st_def ln_def r(3,4), where mmap = mmap]) (rule that)
  have n: "res = None" "start = st" "len = ln" "s' = refreshGuestMapping r' (put_region r' t)"
    using o(3) assms(7) by (auto split: option.splits)
  note cr = commit_range [OF sh assms(2-5) r(2) r(3) [unfolded st_def] r(4) [unfolded ln_def st_def],
      folded st_def, folded ln_def]
  note fr = findRegion_Some [OF sh r(3)]
  have "start + len \<le> vbase r + vsize r" using page_range_within [OF cr(1) fr(2)] n by simp
  moreover have "subp st (vbase r) = st - vbase r"
    using fr(2-4) by (simp add: subp_eq region_ok_def kTwoGB_eq)
  moreover from o(1) obtain ps cs where lr: "r' = r\<lparr>pageProtect := ps\<rparr>" "t = s\<lparr>hostCalls := cs @ hostCalls s\<rparr>"
    by (auto simp: loop_result_def)
  ultimately show ?thesis
    using r(3) cr(3,4) o(2) [OF n(1)] n lr by (intro exI [of _ r]) (simp add: put_region_def)
qed

lemma demo_commit:
  "\<exists>s'. virtualCommit 4096 demo_mmap 0x211010 0x20 PAGE_READONLY demo_reserved = ((Success, 0x211000, 0x1000), s')"
  by (simp add: virtualCommit_def findRegion_def demo_reserved_allocs demo_region_def last_at_most_def alignDown_def
      alignUp_def subp_def addp_def uintptr_max_def addOverflows_def rangeWithinRegion_def regionEnd_def
      commit_runs.simps run_len.simps host_call_def demo_mmap_def)

theorem virtualCommit_exact_witness:
  "\<exists>s'. virtualCommit 4096 demo_mmap 0x211010 0x20 PAGE_READONLY demo_reserved = ((Success, 0x211000, 0x1000), s') \<and>
     map_of (g_virtualAllocations s') 0x210000 = Some (demo_region\<lparr>pageProtect := [0, PAGE_READONLY]\<rparr>)"
proof -
  obtain s' where s': "virtualCommit 4096 demo_mmap 0x211010 0x20 PAGE_READONLY demo_reserved = ((Success, 0x211000, 0x1000), s')"
    using demo_commit by blast
  have fr: "findRegion 0x211000 demo_reserved = Some demo_region"
    by (simp add: findRegion_def demo_reserved_allocs demo_region_def last_at_most_def addp_def regionEnd_def)
  have cp: "committed_pages (pageProtect demo_region) ((0x211000 - vbase demo_region) div 4096) (0x1000 div 4096) PAGE_READONLY
      = [0, PAGE_READONLY]"
    by (simp add: committed_pages_def demo_region_def enumerate_eq_zip upt_rec)
  from virtualCommit_exact [OF demo_reserved_inv page_size_4096 _ _ _ _ s'] fr cp
  have "map_of (g_virtualAllocations s') 0x210000 = Some (demo_region\<lparr>pageProtect := [0, PAGE_READONLY]\<rparr>)"
    by (simp add: demo_region_def)
  with s' show ?thesis by blast
qed





lemma omap_erase_put: "k \<notin> fst ` set m \<Longrightarrow> omap_erase k (omap_put k v m) = m"
  by (induction m) (auto simp: omap_erase_def filter_id_conv)

lemma free_range_key: "regions_wf sz m \<Longrightarrow> free_range sz m k l \<Longrightarrow> 0 < l \<Longrightarrow> k \<notin> fst ` set m"
  by (fastforce simp: regions_wf_def free_range_def overlaps_def)

text \<open>Releasing an allocation right after its reservation.\<close>

lemma virtualFree_reserved:
  assumes "vm_inv md pg s" "page_size pg" "request < 2 ^ 32" "sz < 2 ^ 32" "0 < sz" "host_bounded mmap"
    "virtualReserve pg mmap request sz topDown commit protect type s = ((Success, base, len), s')"
    "base \<noteq> 0" "mmap2 base len PROT_NONE = None"
    "virtualFree pg mmap2 base 0 MEM_RELEASE s' = (st, s'')"
  shows "st = Success \<and> g_mappings s'' = g_mappings s \<and> g_virtualAllocations s'' = g_virtualAllocations s"
proof -
  have sh: "vm_shape pg s" using assms(1) by (simp add: vm_inv_def)
  have wf: "regions_wf vsize (g_virtualAllocations s)" "regions_wf RegionSize (g_mappings s)"
    using sh by (simp_all add: vm_shape_def)
  from assms(7) obtain b l where p: "reserve_place pg request sz topDown s = Inr (b, l)"
    by (auto simp: virtualReserve_def reserve_place_def Let_def split: sum.splits if_splits option.splits)
  from assms(7) p have m: "mmap b l (if commit then posixProtectFromWin32 protect else PROT_NONE) = None" "b = base" "l = len"
    by (auto simp: virtualReserve_def host_call_def Let_def split: option.splits if_splits)
  have "base + len < 2 ^ 32" using m assms(6) by (auto simp: host_bounded_def)
  note q = reserve_place_Inr [OF sh assms(2-5) p [unfolded m(2,3)] this]
  define r where "r = \<lparr>vbase = base, vsize = len, allocationProtect = protect, vtype = type,
                              pageProtect = replicate (len div pg) (if commit then protect else 0)\<rparr>"
  have s': "s' = refreshGuestMapping r (put_region r (s\<lparr>hostCalls :=
      (base, len, if commit then posixProtectFromWin32 protect else PROT_NONE) # hostCalls s\<rparr>))"
    using assms(7) p m by (auto simp: virtualReserve_def host_call_def Let_def r_def)
  obtain ap st2 pr where e: "s' = recordGuestMapping base len ap st2 pr type (put_region r (s\<lparr>hostCalls :=
      (base, len, if commit then posixProtectFromWin32 protect else PROT_NONE) # hostCalls s\<rparr>))"
    unfolding s' by (rule refresh_eq [of r "put_region r (s\<lparr>hostCalls :=
      (base, len, if commit then posixProtectFromWin32 protect else PROT_NONE) # hostCalls s\<rparr>)"]) (simp add: r_def)
  have ka: "base \<notin> fst ` set (g_virtualAllocations s)" "base \<notin> fst ` set (g_mappings s)"
    using free_range_key [OF wf(1) free_range_owned [OF sh q(1)] q(2)] free_range_key [OF wf(2) q(1,2)] by simp_all
  have vb: "vbase r = base" "vsize r = len" by (simp_all add: r_def)
  from assms(8-10) show ?thesis
    by (auto simp: virtualFree_def virtualRelease_def e recordGuestMapping_def put_region_def vb host_call_def Let_def
        eraseGuestMapping_def omap_erase_put ka)
qed

text \<open>
  Releasing what was reserved is the inverse of reserving it: if the host accepts both
  calls, both tables are exactly those from before the reservation, so the address space can be
  handed out again.
\<close>

theorem reserve_release:
  assumes "vm_inv md pg s" "page_size pg" "request < 2 ^ 32" "sz < 2 ^ 32" "0 < sz" "host_bounded mmap"
    "virtualReserve pg mmap request sz topDown commit protect type s = ((Success, base, len), s')"
    "base \<noteq> 0" "mmap2 base len PROT_NONE = None"
    "virtualFree pg mmap2 base 0 MEM_RELEASE s' = (st, s'')"
  shows "st = Success \<and> g_mappings s'' = g_mappings s \<and> g_virtualAllocations s'' = g_virtualAllocations s"
  using assms by (rule virtualFree_reserved)

theorem reserve_release_witness:
  "g_virtualAllocations (snd (virtualFree 4096 demo_mmap 0x210000 0 MEM_RELEASE demo_reserved)) = [] \<and>
   g_mappings (snd (virtualFree 4096 demo_mmap 0x210000 0 MEM_RELEASE demo_reserved)) = g_mappings demo_start"
proof -
  have m: "demo_mmap 0x210000 0x2000 PROT_NONE = None" by (simp add: demo_mmap_def)
  have a: "g_virtualAllocations demo_start = []" by (simp add: demo_start_def)
  from reserve_release [where ?mmap2.0 = demo_mmap, OF demo_start_inv page_size_4096 _ _ _ demo_bounded demo_reserve _ m]
  show ?thesis by (cases "virtualFree 4096 demo_mmap 0x210000 0 MEM_RELEASE demo_reserved") (simp add: a)
qed

section \<open>Limits of the code\<close>

text \<open>
  A reservation that ends exactly at the top of the address space wraps to zero: it passes the 2 GB
  check and the overlap check in every state, so that only the host's refusal stops it.
\<close>

lemma overlap_loop_zero: "\<not> overlap_loop base 0 ms"
  by (induction ms) (auto split: if_splits)

lemma reserve_top_wraps: "reserve_place 4096 0x10000 0xFFFF0000 topDown s = Inr (0x10000, 0xFFFF0000)"
  by (simp add: reserve_place_def alignDown_def alignUp_def subp_def addp_def uintptr_max_def overlap_loop_zero
      kVirtualAllocationGranularity_def addOverflows_def kTwoGB_def overlapsExistingMapping_def)

text \<open>
  A query consults the allocations only: it reports an address of an arena, a stack or a view,
  which the table of mappings holds, as free.
\<close>

lemma query_ignores_mappings:
  "(case virtualQuery 4096 0x110000 demo_start of Inr info \<Rightarrow> MemState info = MEM_FREE | Inl _ \<Rightarrow> False) \<and>
   overlapsExistingMapping 0x110000 1 demo_start"
  by (simp add: virtualQuery_def demo_start_def findRegion_def last_at_most_def kTwoGB_def alignDown_def Let_def
      overlapsExistingMapping_def addOverflows_def uintptr_max_def from_last_at_most_def addp_def)

text \<open>
  A commit with protection zero succeeds; the host maps the pages readable and writable, and the
  table goes on counting them as reserved.
\<close>

lemma commit_protection_zero:
  "fst (virtualCommit 4096 demo_mmap 0x211010 0x20 0 demo_reserved) = (Success, 0x211000, 0x1000) \<and>
   host_prot (hostCalls (snd (virtualCommit 4096 demo_mmap 0x211010 0x20 0 demo_reserved))) 0x211010 =
     Some (PROT_READ + PROT_WRITE)"
  by (simp add: virtualCommit_def findRegion_def demo_reserved_allocs demo_region_def last_at_most_def alignDown_def
      alignUp_def subp_def addp_def uintptr_max_def addOverflows_def rangeWithinRegion_def regionEnd_def
      commit_runs.simps run_len.simps host_call_def demo_mmap_def put_region_def refreshGuestMapping_def
      recordGuestMapping_def posixProtectFromWin32_def markCommitted_def Let_def)

end
