(* ===== verification/Civil_Time.thy ===== *)
theory Civil_Time
  imports Error_Codes "HOL-Library.Signed_Division"
begin

unbundle bit_operations_syntax

text \<open>
  Time conversions (\<^verbatim>\<open>src/dll/kernel32/timeutil.h\<close>, \<^verbatim>\<open>src/dll/kernel32/timezoneapi.cpp\<close>): civil dates
  and day numbers, SYSTEMTIME, FILETIME, Unix times and MS-DOS date stamps. The calendar
  conversions have the wrap-around of their C types written out; elsewhere integers that stay in
  their range are \<open>int\<close>, casts to WORD and DWORD are written out, and \<open>sdiv\<close> is the division of C,
  which rounds towards zero. The C library's \<^verbatim>\<open>localtime_r\<close> and \<^verbatim>\<open>mktime\<close> are parameters; the
  build uses a 64-bit \<^verbatim>\<open>time_t\<close>.
\<close>

section \<open>Data\<close>

definition HUNDRED_NS_PER_SECOND :: int where "HUNDRED_NS_PER_SECOND = 10000000"
definition HUNDRED_NS_PER_MILLISECOND :: int where "HUNDRED_NS_PER_MILLISECOND = 10000"
definition SECONDS_PER_DAY :: int where "SECONDS_PER_DAY = 86400"
definition TICKS_PER_DAY :: int where "TICKS_PER_DAY = SECONDS_PER_DAY * HUNDRED_NS_PER_SECOND"
definition UNIX_TIME_ZERO :: int where "UNIX_TIME_ZERO = 11644473600 * 10000000"
definition MAX_VALID_FILETIME :: int where "MAX_VALID_FILETIME = 0x8000000000000000"
definition DAYS_TO_UNIX_EPOCH :: int where "DAYS_TO_UNIX_EPOCH = 134774"

record CivilDate =
  year :: int
  month :: int
  day :: int

record SYSTEMTIME =
  wYear :: int
  wMonth :: int
  wDayOfWeek :: int
  wDay :: int
  wHour :: int
  wMinute :: int
  wSecond :: int
  wMilliseconds :: int

record FILETIME =
  dwLowDateTime :: u32
  dwHighDateTime :: u32

text \<open>The fields of \<^verbatim>\<open>struct tm\<close> the code uses.\<close>

record tm =
  tm_sec :: int
  tm_min :: int
  tm_hour :: int
  tm_mday :: int
  tm_mon :: int
  tm_year :: int
  tm_isdst :: int
  tm_gmtoff :: int

text \<open>\<^verbatim>\<open>static_cast<WORD>\<close>\<close>

definition to_WORD :: "int \<Rightarrow> int" where "to_WORD x = x mod 65536"

section \<open>Civil dates\<close>

text \<open>
  The values of \<^verbatim>\<open>int\<close>, \<^verbatim>\<open>unsigned\<close> and \<^verbatim>\<open>int64_t\<close> expressions. Unsigned arithmetic wraps; a signed operation that
  overflows is undefined in C++ and taken to wrap here, no theorem relies on it.
\<close>

definition as_int :: "int \<Rightarrow> int" where "as_int x = (x + 2 ^ 31) mod 2 ^ 32 - 2 ^ 31"

definition as_unsigned :: "int \<Rightarrow> int" where "as_unsigned x = x mod 2 ^ 32"

definition as_int64 :: "int \<Rightarrow> int" where "as_int64 x = (x + 2 ^ 63) mod 2 ^ 64 - 2 ^ 63"

definition daysFromCivil :: "int \<Rightarrow> int \<Rightarrow> int \<Rightarrow> int" where
  "daysFromCivil y0 m d =
     (let y = as_int (y0 - (if m \<le> 2 then 1 else 0));
          era = (if y \<ge> 0 then y else as_int (y - 399)) sdiv 400;
          yoe = as_unsigned (as_int (y - as_int (era * 400)));
          doy = as_unsigned (as_unsigned (153 * (m + (if m > 2 then - 3 else 9)) + 2) div 5 + d - 1);
          doe = as_unsigned (yoe * 365 + yoe div 4 - yoe div 100 + yoe div 400 + doy)
      in as_int64 (as_int (era * 146097) + doe - 719468))"

definition civilFromDays :: "int \<Rightarrow> CivilDate" where
  "civilFromDays z0 =
     (let z = as_int64 (z0 + 719468);
          era = (if z \<ge> 0 then z else as_int64 (z - 146096)) sdiv 146097;
          doe = as_unsigned (as_int64 (z - as_int64 (era * 146097)));
          yoe = as_unsigned (doe - doe div 1460 + doe div 36524 - doe div 146096) div 365;
          y = as_int64 (yoe + as_int64 (era * 400));
          doy = as_unsigned (doe - as_unsigned (365 * yoe + yoe div 4 - yoe div 100));
          mp = as_unsigned (5 * doy + 2) div 153;
          d = as_unsigned (doy - as_unsigned (153 * mp + 2) div 5 + 1);
          m = as_unsigned (mp + (if mp < 10 then 3 else - 9))
      in \<lparr>year = as_int (as_int64 (y + (if m \<le> 2 then 1 else 0))), month = m, day = d\<rparr>)"

definition isLeapYear :: "int \<Rightarrow> bool" where
  "isLeapYear y =
     (if y smod 4 \<noteq> 0 then False
      else if y smod 100 \<noteq> 0 then True
      else y smod 400 = 0)"

definition baseDays :: "int list" where
  "baseDays = [31, 28, 31, 30, 31, 30, 31, 31, 30, 31, 30, 31]"

definition daysInMonth :: "int \<Rightarrow> int \<Rightarrow> int" where
  "daysInMonth y m = baseDays ! nat (m - 1) + (if m = 2 \<and> isLeapYear y then 1 else 0)"

section \<open>Conversions\<close>

definition validateSystemTime :: "SYSTEMTIME \<Rightarrow> bool" where
  "validateSystemTime st =
     (if wYear st < 1601 then False
      else if wMonth st < 1 \<or> wMonth st > 12 then False
      else if wDay st < 1 \<or> wDay st > daysInMonth (wYear st) (wMonth st) then False
      else if wHour st > 23 then False
      else if wMinute st > 59 then False
      else if wSecond st > 59 then False
      else if wMilliseconds st > 999 then False
      else True)"

definition systemTimeToUnixParts :: "SYSTEMTIME \<Rightarrow> (int \<times> int) option" where
  "systemTimeToUnixParts st =
     (if \<not> validateSystemTime st then None
      else let days = daysFromCivil (wYear st) (wMonth st) (wDay st);
               secondsOfDay = wHour st * 3600 + wMinute st * 60 + wSecond st
           in Some (days * SECONDS_PER_DAY + secondsOfDay, wMilliseconds st * HUNDRED_NS_PER_MILLISECOND))"

definition fileTimeToDuration :: "FILETIME \<Rightarrow> u64" where
  "fileTimeToDuration v = push_bit 32 (ucast (dwHighDateTime v)) OR ucast (dwLowDateTime v)"

definition fileTimeToUnixParts :: "FILETIME \<Rightarrow> int \<times> int" where
  "fileTimeToUnixParts ft =
     (let ticks = uint (fileTimeToDuration ft) in
      if ticks \<ge> UNIX_TIME_ZERO then
        (let diff = ticks - UNIX_TIME_ZERO in (diff div HUNDRED_NS_PER_SECOND, diff mod HUNDRED_NS_PER_SECOND))
      else
        (let diff = UNIX_TIME_ZERO - ticks;
             secs = - (diff div HUNDRED_NS_PER_SECOND);
             rem = diff mod HUNDRED_NS_PER_SECOND
         in if rem \<noteq> 0 then (secs - 1, HUNDRED_NS_PER_SECOND - rem) else (secs, rem)))"

definition fileTimeFromDuration :: "u64 \<Rightarrow> FILETIME" where
  "fileTimeFromDuration ticks100ns =
     \<lparr>dwLowDateTime = ucast (ticks100ns AND 0xFFFFFFFF), dwHighDateTime = ucast (drop_bit 32 ticks100ns)\<rparr>"

definition unixPartsToFileTime :: "int \<Rightarrow> int \<Rightarrow> FILETIME option" where
  "unixPartsToFileTime seconds hundreds =
     (if hundreds \<ge> HUNDRED_NS_PER_SECOND then None
      else let total = seconds * HUNDRED_NS_PER_SECOND + hundreds + UNIX_TIME_ZERO in
        if total < 0 \<or> total > 2 ^ 64 - 1 then None
        else Some (fileTimeFromDuration (word_of_int total)))"

text \<open>The bounds of \<^verbatim>\<open>time_t\<close>.\<close>

definition time_t_max :: int where "time_t_max = 2 ^ 63 - 1"
definition time_t_min :: int where "time_t_min = - (2 ^ 63)"

definition unixPartsToTimespec :: "int \<Rightarrow> int \<Rightarrow> (int \<times> int) option" where
  "unixPartsToTimespec seconds hundreds =
     (if hundreds \<ge> HUNDRED_NS_PER_SECOND then None
      else if seconds > time_t_max \<or> seconds < time_t_min then None
      else Some (seconds, hundreds * 100))"

definition tmToUnixSeconds :: "tm \<Rightarrow> int option" where
  "tmToUnixSeconds t =
     (let y = as_int (tm_year t + 1900); m = as_int (tm_mon t + 1); d = tm_mday t in
      if m < 1 \<or> m > 12 then None
      else if d < 1 \<or> d > daysInMonth y m then None
      else if tm_hour t < 0 \<or> tm_hour t > 23 then None
      else if tm_min t < 0 \<or> tm_min t > 59 then None
      else if tm_sec t < 0 \<or> tm_sec t > 60 then None
      else Some (daysFromCivil y m d * SECONDS_PER_DAY + tm_hour t * 3600 + tm_min t * 60 +
                 (if tm_sec t = 60 then 59 else tm_sec t)))"

definition shouldIgnoreFileTimeParam :: "FILETIME option \<Rightarrow> bool" where
  "shouldIgnoreFileTimeParam p =
     (case p of
        None \<Rightarrow> True
      | Some ft \<Rightarrow>
          if dwLowDateTime ft = 0 \<and> dwHighDateTime ft = 0 then True
          else if dwLowDateTime ft = 0xFFFFFFFF \<and> dwHighDateTime ft = 0xFFFFFFFF then True
          else False)"

section \<open>The API\<close>

text \<open>
  A pointer argument is \<open>None\<close> when it is NULL; \<open>outp\<close> says that the result pointer is not NULL.
  \<open>Inl\<close> is FALSE with the last error set, \<open>Inr\<close> is TRUE with the result stored.
\<close>

definition SystemTimeToFileTime :: "SYSTEMTIME option \<Rightarrow> bool \<Rightarrow> u32 + FILETIME" where
  "SystemTimeToFileTime lpSystemTime outp =
     (case lpSystemTime of
        None \<Rightarrow> Inl ERROR_INVALID_PARAMETER
      | Some st \<Rightarrow>
          if \<not> outp then Inl ERROR_INVALID_PARAMETER
          else case systemTimeToUnixParts st of
            None \<Rightarrow> Inl ERROR_INVALID_PARAMETER
          | Some (seconds, hundreds) \<Rightarrow>
              (case unixPartsToFileTime seconds hundreds of
                 None \<Rightarrow> Inl ERROR_INVALID_PARAMETER
               | Some result \<Rightarrow>
                   if uint (fileTimeToDuration result) \<ge> MAX_VALID_FILETIME then Inl ERROR_INVALID_PARAMETER
                   else Inr result))"

definition FileTimeToSystemTime :: "FILETIME option \<Rightarrow> bool \<Rightarrow> u32 + SYSTEMTIME" where
  "FileTimeToSystemTime lpFileTime outp =
     (case lpFileTime of
        None \<Rightarrow> Inl ERROR_INVALID_PARAMETER
      | Some ft \<Rightarrow>
          if \<not> outp then Inl ERROR_INVALID_PARAMETER
          else let ticks = uint (fileTimeToDuration ft) in
            if ticks \<ge> MAX_VALID_FILETIME then Inl ERROR_INVALID_PARAMETER
            else let daysSince1601 = ticks div TICKS_PER_DAY;
                     ticksOfDay = ticks mod TICKS_PER_DAY;
                     secondsOfDay = ticksOfDay div HUNDRED_NS_PER_SECOND;
                     hundredNs = ticksOfDay mod HUNDRED_NS_PER_SECOND;
                     date = civilFromDays (daysSince1601 - DAYS_TO_UNIX_EPOCH)
              in Inr \<lparr>wYear = to_WORD (year date), wMonth = to_WORD (month date),
                      wDayOfWeek = to_WORD ((daysSince1601 + 1) mod 7), wDay = to_WORD (day date),
                      wHour = to_WORD (secondsOfDay div 3600), wMinute = to_WORD ((secondsOfDay mod 3600) div 60),
                      wSecond = to_WORD (secondsOfDay mod 60),
                      wMilliseconds = to_WORD (hundredNs div HUNDRED_NS_PER_MILLISECOND)\<rparr>)"

text \<open>\<^verbatim>\<open>localtime_r\<close> fails or fills a \<^verbatim>\<open>struct tm\<close>.\<close>

definition FileTimeToLocalFileTime :: "(int \<Rightarrow> tm option) \<Rightarrow> FILETIME option \<Rightarrow> bool \<Rightarrow> u32 + FILETIME" where
  "FileTimeToLocalFileTime localtime_r lpFileTime outp =
     (case lpFileTime of
        None \<Rightarrow> Inl ERROR_INVALID_PARAMETER
      | Some ft \<Rightarrow>
          if \<not> outp then Inl ERROR_INVALID_PARAMETER
          else case fileTimeToUnixParts ft of (seconds, hundreds) \<Rightarrow>
            if seconds > time_t_max \<or> seconds < time_t_min then Inl ERROR_INVALID_PARAMETER
            else case localtime_r seconds of
              None \<Rightarrow> Inl ERROR_INVALID_PARAMETER
            | Some localTm \<Rightarrow>
                (case tmToUnixSeconds localTm of
                   None \<Rightarrow> Inl ERROR_INVALID_PARAMETER
                 | Some localAsUtcSeconds \<Rightarrow>
                     let offsetSeconds = localAsUtcSeconds - seconds;
                         localSeconds = seconds + offsetSeconds
                     in case unixPartsToFileTime localSeconds hundreds of
                          None \<Rightarrow> Inl ERROR_INVALID_PARAMETER
                        | Some result \<Rightarrow> Inr result))"

text \<open>\<^verbatim>\<open>mktime\<close> returns a time and whether it set \<^verbatim>\<open>errno\<close>.\<close>

definition LocalFileTimeToFileTime :: "(tm \<Rightarrow> int \<times> bool) \<Rightarrow> FILETIME option \<Rightarrow> bool \<Rightarrow> u32 + FILETIME" where
  "LocalFileTimeToFileTime mktime lpLocalFileTime outp =
     (case lpLocalFileTime of
        None \<Rightarrow> Inl ERROR_INVALID_PARAMETER
      | Some ft \<Rightarrow>
          if \<not> outp then Inl ERROR_INVALID_PARAMETER
          else let ticks = uint (fileTimeToDuration ft) in
            if ticks \<ge> MAX_VALID_FILETIME then Inl ERROR_INVALID_PARAMETER
            else let hundredNs = ticks mod HUNDRED_NS_PER_SECOND;
                     secondsOfDay = (ticks mod TICKS_PER_DAY) div HUNDRED_NS_PER_SECOND;
                     date = civilFromDays (ticks div TICKS_PER_DAY - DAYS_TO_UNIX_EPOCH);
                     (utcTime, err) = mktime \<lparr>tm_sec = secondsOfDay mod 60, tm_min = (secondsOfDay mod 3600) div 60,
                        tm_hour = secondsOfDay div 3600, tm_mday = day date, tm_mon = month date - 1,
                        tm_year = year date - 1900, tm_isdst = - 1, tm_gmtoff = 0\<rparr>
                 in if utcTime = - 1 \<and> err then Inl ERROR_INVALID_PARAMETER
                    else case unixPartsToFileTime utcTime hundredNs of
                      None \<Rightarrow> Inl ERROR_INVALID_PARAMETER
                    | Some result \<Rightarrow> Inr result)"

text \<open>The fields of an MS-DOS date and time stamp.\<close>

definition dos_tm :: "u16 \<Rightarrow> u16 \<Rightarrow> tm" where
  "dos_tm wFatDate wFatTime =
     (let d = uint (wFatDate AND 0x1F);
          m = uint (drop_bit 5 wFatDate AND 0x0F);
          y = uint (drop_bit 9 wFatDate AND 0x7F) + 1980;
          second = uint (wFatTime AND 0x1F) * 2;
          minute = uint (drop_bit 5 wFatTime AND 0x3F);
          hour = uint (drop_bit 11 wFatTime AND 0x1F)
      in \<lparr>tm_sec = second, tm_min = minute, tm_hour = hour, tm_mday = d,
          tm_mon = m - 1, tm_year = y - 1900, tm_isdst = - 1, tm_gmtoff = 0\<rparr>)"

definition DosDateTimeToFileTime :: "(tm \<Rightarrow> int \<times> bool) \<Rightarrow> u16 \<Rightarrow> u16 \<Rightarrow> bool \<Rightarrow> u32 + FILETIME" where
  "DosDateTimeToFileTime mktime wFatDate wFatTime outp =
     (if \<not> outp then Inl ERROR_INVALID_PARAMETER
      else let t = dos_tm wFatDate wFatTime in
        if tm_mday t = 0 \<or> tm_mon t + 1 = 0 \<or> tm_mon t + 1 > 12 \<or> tm_mday t > 31 \<or> tm_hour t > 23 \<or>
           tm_min t > 59 \<or> tm_sec t > 59
        then Inl ERROR_INVALID_PARAMETER
        else let (localSeconds, _) = mktime t
             in if localSeconds = - 1 then Inl ERROR_INVALID_PARAMETER
                else Inr (fileTimeFromDuration
                  ((word_of_int localSeconds + word_of_int (UNIX_TIME_ZERO div HUNDRED_NS_PER_SECOND)) * 10000000)))"

definition FileTimeToDosDateTime :: "(int \<Rightarrow> tm option) \<Rightarrow> FILETIME option \<Rightarrow> bool \<Rightarrow> u32 + u16 \<times> u16" where
  "FileTimeToDosDateTime localtime_r lpFileTime outp =
     (case lpFileTime of
        None \<Rightarrow> Inl ERROR_INVALID_PARAMETER
      | Some ft \<Rightarrow>
          if \<not> outp then Inl ERROR_INVALID_PARAMETER
          else let ticks = uint (fileTimeToDuration ft) in
            if ticks < UNIX_TIME_ZERO then Inl ERROR_INVALID_PARAMETER
            else case localtime_r (ticks div 10000000 - UNIX_TIME_ZERO div HUNDRED_NS_PER_SECOND) of
              None \<Rightarrow> Inl ERROR_INVALID_PARAMETER
            | Some t \<Rightarrow>
                (let y = tm_year t + 1900 in
                 if y < 1980 \<or> y > 2107 then Inl ERROR_INVALID_PARAMETER
                 else Inr (word_of_int (push_bit 9 (y - 1980) OR push_bit 5 (tm_mon t + 1) OR tm_mday t),
                           word_of_int (push_bit 11 (tm_hour t AND 0x1F) OR push_bit 5 (tm_min t AND 0x3F) OR
                                        (tm_sec t sdiv 2 AND 0x1F)))))"

text \<open>
  \<^verbatim>\<open>GetTimeZoneInformation\<close>: the local time now, \<^verbatim>\<open>tzname\<close> and \<^verbatim>\<open>daylight\<close> are arguments. A name is
  copied up to 31 characters into a field of 32 zeros.
\<close>

record TIME_ZONE_INFORMATION =
  Bias :: int
  StandardName :: "u16 list"
  DaylightName :: "u16 list"
  DaylightBias :: int

definition copyName :: "u8 list option \<Rightarrow> u16 list" where
  "copyName src =
     (case src of
        None \<Rightarrow> replicate 32 0
      | Some s \<Rightarrow> (let cs = map ucast (take 31 (takeWhile (\<lambda>c. c \<noteq> 0) s)) in cs @ replicate (32 - length cs) 0))"

definition GetTimeZoneInformation :: "tm \<Rightarrow> u8 list option \<Rightarrow> u8 list option \<Rightarrow> bool \<Rightarrow> bool
    \<Rightarrow> u32 + u32 \<times> TIME_ZONE_INFORMATION" where
  "GetTimeZoneInformation localTm tzname0 tzname1 daylight outp =
     (if \<not> outp then Inl ERROR_INVALID_PARAMETER
      else let dst = daylight \<and> tm_isdst localTm > 0 in
        Inr (if dst then 2 else 1,
             \<lparr>Bias = (- tm_gmtoff localTm) sdiv 60, StandardName = copyName tzname0,
              DaylightName = copyName (if daylight \<and> tzname1 \<noteq> None then tzname1 else tzname0),
              DaylightBias = (if dst then - 60 else 0)\<rparr>))"

section \<open>Day numbers and civil dates are inverse\<close>

text \<open>The same computations on unbounded integers.\<close>

definition day_number :: "int \<Rightarrow> int \<Rightarrow> int \<Rightarrow> int" where
  "day_number y0 m d =
     (let y = y0 - (if m \<le> 2 then 1 else 0);
          era = (if y \<ge> 0 then y else y - 399) sdiv 400;
          yoe = y - era * 400;
          doy = (153 * (m + (if m > 2 then - 3 else 9)) + 2) div 5 + d - 1;
          doe = yoe * 365 + yoe div 4 - yoe div 100 + yoe div 400 + doy
      in era * 146097 + doe - 719468)"

definition civil_date :: "int \<Rightarrow> CivilDate" where
  "civil_date z0 =
     (let z = z0 + 719468;
          era = (if z \<ge> 0 then z else z - 146096) sdiv 146097;
          doe = z - era * 146097;
          yoe = (doe - doe div 1460 + doe div 36524 - doe div 146096) div 365;
          y = yoe + era * 400;
          doy = doe - (365 * yoe + yoe div 4 - yoe div 100);
          mp = (5 * doy + 2) div 153;
          d = doy - (153 * mp + 2) div 5 + 1;
          m = mp + (if mp < 10 then 3 else - 9)
      in \<lparr>year = y + (if m \<le> 2 then 1 else 0), month = m, day = d\<rparr>)"

lemma floor_sdiv:
  assumes "0 < (n :: int)" "k = n - 1"
  shows "(if y \<ge> 0 then y else y - k) sdiv n = y div n"
proof (cases "0 \<le> y")
  case True
  with assms(1) show ?thesis by (simp add: signed_divide_int_def sgn_if)
next
  case False
  have "(n - 1 - y) div n = - (y div n)"
    by (rule int_div_pos_eq [of _ _ _ "(n - 1) - y mod n"])
      (use mult_div_mod_eq [of n y] pos_mod_bound [OF assms(1), of y] pos_mod_sign [OF assms(1), of y]
        in \<open>simp_all add: algebra_simps\<close>)
  moreover have "(y - (n - 1)) sdiv n = - ((n - 1 - y) div n)"
  proof -
    have "sgn (y - (n - 1)) = - 1" "\<bar>y - (n - 1)\<bar> = n - 1 - y" using False assms(1) by (auto simp: sgn_if)
    then show ?thesis using assms(1) by (simp add: signed_divide_int_def)
  qed
  ultimately show ?thesis using False assms(2) by simp
qed

lemma div_step:
  assumes "0 < (k :: int)"
  shows "(n + 1) div k = n div k + (if k dvd n + 1 then 1 else 0)"
proof (cases "k dvd n + 1")
  case True
  then obtain q where q: "n + 1 = k * q" by (auto simp: dvd_def)
  have "n div k = q - 1"
    by (rule int_div_pos_eq [of _ _ _ "k - 1"]) (use q assms in \<open>simp_all add: algebra_simps\<close>)
  with q True assms show ?thesis by simp
next
  case False
  have b: "0 \<le> n mod k" "n mod k < k" using assms by simp_all
  have "n mod k + 1 \<noteq> k"
  proof
    assume "n mod k + 1 = k"
    moreover have "n = k * (n div k) + n mod k" by simp
    ultimately have "n + 1 = k * (n div k) + k" by linarith
    with False show False by (metis dvd_add dvd_refl dvd_triv_left)
  qed
  then have "(n + 1) div k = n div k"
    using b by (intro int_div_pos_eq [of _ _ _ "n mod k + 1"]) simp_all
  with False show ?thesis by simp
qed

text \<open>The first day of a year of the era, counted from 1 March; year 400 ends the era.\<close>

definition ystart :: "int \<Rightarrow> int" where "ystart y = 365 * y + y div 4 - y div 100 + y div 400"

definition ylen :: "int \<Rightarrow> int" where "ylen y = ystart (y + 1) - ystart y"

lemma smod_zero_iff: "y smod k = 0 \<longleftrightarrow> k dvd (y :: int)"
  by (cases "y = 0") (auto simp: smod_int_alt_def sgn_0_0 dvd_eq_mod_eq_0 [symmetric])

lemma isLeapYear_iff: "isLeapYear y \<longleftrightarrow> 4 dvd y \<and> (\<not> 100 dvd y \<or> 400 dvd y)"
  by (auto simp: isLeapYear_def smod_zero_iff)

lemma isLeapYear_era: "isLeapYear (y + 400 * e) \<longleftrightarrow> isLeapYear y"
proof -
  have "k dvd 400 \<Longrightarrow> k dvd y + 400 * e \<longleftrightarrow> k dvd y" for k by (simp add: dvd_add_left_iff)
  from this [of 4] this [of 100] this [of 400] show ?thesis by (simp add: isLeapYear_iff)
qed

lemma ylen_eq: "ylen y = (if isLeapYear (y + 1) then 366 else 365)"
proof -
  define A B C where "A = (4 dvd y + 1)" and "B = (100 dvd y + 1)" and "C = (400 dvd y + 1)"
  have "C \<Longrightarrow> B" unfolding B_def C_def by (rule dvd_trans [of 100 400]) simp_all
  moreover have "B \<Longrightarrow> A" unfolding A_def B_def by (rule dvd_trans [of 4 100]) simp_all
  moreover define a b c :: int where "a = (if A then 1 else 0)" and "b = (if B then 1 else 0)" and "c = (if C then 1 else 0)"
  moreover have "ylen y = 365 + a - b + c"
  proof -
    obtain q r t where q: "y div 4 = q" "y div 100 = r" "y div 400 = t" by blast
    have d: "(y + 1) div 4 = y div 4 + a" "(y + 1) div 100 = y div 100 + b" "(y + 1) div 400 = y div 400 + c"
      unfolding a_def b_def c_def A_def B_def C_def by (simp_all only: div_step)
    have "ystart (y + 1) = 365 * (y + 1) + (q + a) - (r + b) + (t + c)" "ystart y = 365 * y + q - r + t"
      unfolding ystart_def d q by (rule refl)+
    then show ?thesis unfolding ylen_def by (simp add: algebra_simps)
  qed
  ultimately have "ylen y = (if A \<and> (\<not> B \<or> C) then 366 else 365)" by (cases A; cases B; cases C) simp_all
  then show ?thesis unfolding isLeapYear_iff A_def B_def C_def .
qed

text \<open>The year of a day: the corrected day number grows with the day.\<close>

definition corrected :: "int \<Rightarrow> int" where
  "corrected doe = doe - doe div 1460 + doe div 36524 - doe div 146096"

lemma corrected_step: "corrected n \<le> corrected (n + 1)"
proof -
  define A B C where "A = (1460 dvd n + 1)" and "B = (36524 dvd n + 1)" and "C = (146096 dvd n + 1)"
  have "C \<Longrightarrow> B" unfolding B_def C_def by (rule dvd_trans [of 36524 146096]) simp_all
  moreover define a b c :: int where "a = (if A then 1 else 0)" and "b = (if B then 1 else 0)" and "c = (if C then 1 else 0)"
  moreover have "corrected (n + 1) = corrected n + 1 - a + b - c"
  proof -
    obtain q r t where q: "n div 1460 = q" "n div 36524 = r" "n div 146096 = t" by blast
    have d: "(n + 1) div 1460 = n div 1460 + a" "(n + 1) div 36524 = n div 36524 + b"
      "(n + 1) div 146096 = n div 146096 + c"
      unfolding a_def b_def c_def A_def B_def C_def by (simp_all only: div_step)
    have "corrected (n + 1) = n + 1 - (q + a) + (r + b) - (t + c)" "corrected n = n - q + r - t"
      unfolding corrected_def d q by (rule refl)+
    then show ?thesis by linarith
  qed
  ultimately show ?thesis by auto
qed

lemma corrected_mono: "a \<le> b \<Longrightarrow> corrected a \<le> corrected b"
  by (induction b rule: int_ge_induct) (use corrected_step order_trans in \<open>auto intro: order_trans\<close>)

lemma corrected_table:
  "list_all (\<lambda>y. 365 * y \<le> corrected (ystart y) \<and> corrected (ystart (y + 1) - 1) < 365 * y + 365) [0..399]"
  unfolding corrected_def ystart_def by code_simp

lemma year_of_day:
  assumes "0 \<le> y" "y < 400" "ystart y \<le> doe" "doe < ystart (y + 1)"
  shows "corrected doe div 365 = y"
proof -
  have "365 * y \<le> corrected (ystart y)" "corrected (ystart (y + 1) - 1) < 365 * y + 365"
    using corrected_table assms(1,2) by (auto simp: list_all_iff)
  moreover have "corrected (ystart y) \<le> corrected doe" "corrected doe \<le> corrected (ystart (y + 1) - 1)"
    using assms(3,4) by (simp_all add: corrected_mono)
  ultimately show ?thesis by (intro int_div_pos_eq [of _ _ _ "corrected doe - 365 * y"]) simp_all
qed

lemma day_in_year:
  assumes "0 \<le> doe" "doe < ystart (int n)"
  shows "\<exists>y \<ge> 0. y < int n \<and> ystart y \<le> doe \<and> doe < ystart (y + 1)"
  using assms(2)
proof (induction n)
  case 0
  with assms(1) show ?case by (simp add: ystart_def)
next
  case (Suc n)
  show ?case
  proof (cases "doe < ystart (int n)")
    case True
    from Suc.IH [OF this] show ?thesis by force
  next
    case False
    with Suc.prems show ?thesis by (intro exI [of _ "int n"]) (simp add: add.commute)
  qed
qed

lemma ystart_400: "ystart 400 = 146097" by (simp add: ystart_def)

text \<open>The month of a day, counted from March.\<close>

definition mstart :: "int \<Rightarrow> int" where "mstart mp = (153 * mp + 2) div 5"

lemma month_of_day:
  assumes "mstart mp \<le> doy" "doy < mstart (mp + 1)"
  shows "(5 * doy + 2) div 153 = mp"
proof (rule int_div_pos_eq [of _ _ _ "5 * doy + 2 - 153 * mp"])
  obtain r where r: "5 * mstart mp + r = 153 * mp + 2" "r < 5"
    unfolding mstart_def by (metis mult_div_mod_eq pos_mod_bound zero_less_numeral)
  obtain q where q: "5 * mstart (mp + 1) + q = 153 * (mp + 1) + 2" "0 \<le> q"
    unfolding mstart_def by (metis mult_div_mod_eq pos_mod_sign zero_less_numeral)
  show "0 \<le> 5 * doy + 2 - 153 * mp" using r assms(1) by linarith
  define M where "M = mstart (mp + 1)"
  have "doy + 1 \<le> M" "5 * M + q = 153 * mp + 155" using assms(2) q(1) by (simp_all add: M_def)
  then show "5 * doy + 2 - 153 * mp < 153" using q(2) by linarith
qed simp

definition march_month :: "int \<Rightarrow> int" where "march_month m = m + (if m > 2 then - 3 else 9)"

definition march_year :: "int \<Rightarrow> int \<Rightarrow> int" where "march_year y m = y - (if m \<le> 2 then 1 else 0)"

lemma day_number_eq:
  "day_number y m d = march_year y m div 400 * 146097 + ystart (march_year y m mod 400) +
     (mstart (march_month m) + d - 1) - 719468"
proof -
  have e: "(if march_year y m \<ge> 0 then march_year y m else march_year y m - 399) sdiv 400 = march_year y m div 400"
    by (rule floor_sdiv) simp_all
  have r: "march_year y m - march_year y m div 400 * 400 = march_year y m mod 400"
    by (simp add: minus_div_mult_eq_mod)
  show ?thesis
    unfolding day_number_def Let_def march_year_def [symmetric] march_month_def [symmetric] e r
    by (simp add: ystart_def mstart_def mult.commute)
qed

text \<open>The intermediate values of the conversion of a day number.\<close>

lemma civil_parts:
  assumes z: "z + 719468 = era * 146097 + (ystart yoe + doy)" and y: "0 \<le> yoe" "yoe < 400"
    and doy: "0 \<le> doy" "doy < ylen yoe" and mp: "mstart mp \<le> doy" "doy < mstart (mp + 1)"
  defines "doe \<equiv> ystart yoe + doy"
  shows "(if z + 719468 \<ge> 0 then z + 719468 else z + 719468 - 146096) sdiv 146097 = era" "z + 719468 - era * 146097 = doe"
    "0 \<le> doe" "doe < 146097" "corrected doe div 365 = yoe"
    "doe - (365 * yoe + yoe div 4 - yoe div 100) = doy" "(5 * doy + 2) div 153 = mp"
proof -
  have yd: "ystart yoe \<le> doe" "doe < ystart (yoe + 1)" using doy by (auto simp: doe_def ylen_def)
  show b: "0 \<le> doe" "doe < 146097"
  proof -
    have "0 \<le> ystart yoe" using y by (simp add: ystart_def)
    then show "0 \<le> doe" using yd by simp
    have "ystart (yoe + 1) \<le> 146097" using y by (simp add: ystart_def)
    then show "doe < 146097" using yd by simp
  qed
  show ze: "z + 719468 - era * 146097 = doe" using z by (simp add: doe_def [symmetric])
  have "(z + 719468) div 146097 = era"
    using z b by (simp add: doe_def [symmetric] int_div_pos_eq [of _ _ _ doe])
  then show "(if z + 719468 \<ge> 0 then z + 719468 else z + 719468 - 146096) sdiv 146097 = era"
    using floor_sdiv [of 146097 146096 "z + 719468"] by simp
  show "corrected doe div 365 = yoe" by (rule year_of_day [OF y yd])
  show "doe - (365 * yoe + yoe div 4 - yoe div 100) = doy"
    using y by (simp add: doe_def ystart_def)
  show "(5 * doy + 2) div 153 = mp" by (rule month_of_day [OF mp])
qed

lemma civil_date_eq:
  assumes z: "z + 719468 = era * 146097 + (ystart yoe + doy)" and y: "0 \<le> yoe" "yoe < 400"
    and doy: "0 \<le> doy" "doy < ylen yoe" and mp: "mstart mp \<le> doy" "doy < mstart (mp + 1)"
  shows "civil_date z = \<lparr>year = yoe + era * 400 + (if mp + (if mp < 10 then 3 else - 9) \<le> 2 then 1 else 0),
     month = mp + (if mp < 10 then 3 else - 9), day = doy - mstart mp + 1\<rparr>"
proof -
  note p = civil_parts [OF assms]
  show ?thesis unfolding civil_date_def Let_def p(1,2) p(5) [unfolded corrected_def] p(6,7) mstart_def by simp
qed

definition valid_date :: "int \<Rightarrow> int \<Rightarrow> int \<Rightarrow> bool" where
  "valid_date y m d \<longleftrightarrow> 1 \<le> m \<and> m \<le> 12 \<and> 1 \<le> d \<and> d \<le> daysInMonth y m"

lemma month_cases:
  assumes "1 \<le> m" "m \<le> (12 :: int)"
  obtains "m = 1" | "m = 2" | "m = 3" | "m = 4" | "m = 5" | "m = 6" | "m = 7" | "m = 8" | "m = 9" | "m = 10" | "m = 11" | "m = 12"
proof -
  have "m = 1 \<or> m = 2 \<or> m = 3 \<or> m = 4 \<or> m = 5 \<or> m = 6 \<or> m = 7 \<or> m = 8 \<or> m = 9 \<or> m = 10 \<or> m = 11 \<or> m = 12"
    using assms by presburger
  with that show thesis by blast
qed

lemma month_table:
  assumes "1 \<le> m" "m \<le> 12"
  shows "0 \<le> march_month m \<and> march_month m \<le> 11 \<and> 0 \<le> mstart (march_month m) \<and>
    (if m = 2 then daysInMonth y m = (if isLeapYear y then 29 else 28) \<and> mstart (march_month m) = 337
     else daysInMonth y m = mstart (march_month m + 1) - mstart (march_month m) \<and> mstart (march_month m + 1) \<le> 337) \<and>
    mstart (march_month m) + daysInMonth y m \<le> mstart (march_month m + 1) \<and>
    march_month m + (if march_month m < 10 then 3 else - 9) = m"
  by (rule month_cases [OF assms])
    (simp_all add: march_month_def mstart_def daysInMonth_def baseDays_def nat_diff_distrib numeral_eq_Suc)

lemma isLeapYear_mod: "isLeapYear (y mod 400 + 1) \<longleftrightarrow> isLeapYear (y + 1)"
proof -
  have "y + 1 = (y mod 400 + 1) + 400 * (y div 400)" by simp
  then show ?thesis using isLeapYear_era [of "y mod 400 + 1" "y div 400"] by metis
qed

lemma civil_of_days_of:
  assumes v: "valid_date y m d"
  shows "civil_date (day_number y m d) = \<lparr>year = y, month = m, day = d\<rparr>"
proof -
  define my where "my = march_year y m"
  define mp where "mp = march_month m"
  define doy where "doy = mstart mp + d - 1"
  have m: "1 \<le> m" "m \<le> 12" "1 \<le> d" "d \<le> daysInMonth y m" using v by (auto simp: valid_date_def)
  note t = month_table [OF m(1,2), of y, folded mp_def]
  have leap: "isLeapYear (my mod 400 + 1) \<longleftrightarrow> isLeapYear y" if "m = 2"
    using that isLeapYear_mod [of my] by (simp add: my_def march_year_def)
  have len: "doy < ylen (my mod 400)"
  proof (cases "m = 2")
    case True
    then show ?thesis using t m(4) leap by (auto simp: doy_def ylen_eq)
  next
    case False
    then have "doy < 337" using t m(4) by (auto simp: doy_def)
    then show ?thesis by (simp add: ylen_eq)
  qed
  have rng: "0 \<le> doy" "mstart mp \<le> doy" "doy < mstart (mp + 1)" using t m(3,4) by (auto simp: doy_def)
  have z: "day_number y m d + 719468 = my div 400 * 146097 + (ystart (my mod 400) + doy)"
    by (simp add: day_number_eq my_def mp_def doy_def)
  have mod: "0 \<le> my mod 400" "my mod 400 < 400" by simp_all
  have dm: "my mod 400 + my div 400 * 400 = my" by simp
  have my: "my + (if m \<le> 2 then 1 else 0) = y" by (simp add: my_def march_year_def)
  have m': "mp + (if mp < 10 then 3 else - 9) = m" using t by blast
  have d': "doy - mstart mp + 1 = d" by (simp add: doy_def)
  show ?thesis unfolding civil_date_eq [OF z mod rng(1) len rng(2,3)] m' dm my d' by (rule refl)
qed

lemma month_exists:
  assumes "0 \<le> doy" "doy < 366" "mp = (5 * doy + 2) div 153"
  shows "0 \<le> mp" "mp \<le> 11" "mstart mp \<le> doy" "doy < mstart (mp + 1)"
proof -
  have b: "153 * mp \<le> 5 * doy + 2" "5 * doy + 2 < 153 * mp + 153" using assms(3) by linarith+
  have "153 * mp + 2 \<le> 5 * doy + 4" "5 * (doy + 1) \<le> 153 * (mp + 1) + 2" using b by (simp_all add: algebra_simps)
  then show "mstart mp \<le> doy" unfolding mstart_def by linarith
  have "doy + 1 = 5 * (doy + 1) div 5" by simp
  also have "\<dots> \<le> mstart (mp + 1)" unfolding mstart_def
    by (rule zdiv_mono1) (use \<open>5 * (doy + 1) \<le> 153 * (mp + 1) + 2\<close> in simp_all)
  finally show "doy < mstart (mp + 1)" by simp
  show "0 \<le> mp" "mp \<le> 11" using b assms(1,2) by linarith+
qed

lemma civil_decompose:
  obtains era yoe doy mp where "z + 719468 = era * 146097 + (ystart yoe + doy)" "0 \<le> yoe" "yoe < 400"
    "0 \<le> doy" "doy < ylen yoe" "0 \<le> mp" "mp \<le> 11" "mstart mp \<le> doy" "doy < mstart (mp + 1)"
    "civil_date z = \<lparr>year = yoe + era * 400 + (if mp + (if mp < 10 then 3 else - 9) \<le> 2 then 1 else 0),
     month = mp + (if mp < 10 then 3 else - 9), day = doy - mstart mp + 1\<rparr>"
proof -
  define era where "era = (z + 719468) div 146097"
  define doe where "doe = (z + 719468) mod 146097"
  have "0 \<le> doe" "doe < ystart (int 400)" by (simp_all add: doe_def ystart_400)
  from day_in_year [OF this] obtain yoe where y: "0 \<le> yoe" "yoe < 400" "ystart yoe \<le> doe" "doe < ystart (yoe + 1)"
    by auto
  define doy where "doy = doe - ystart yoe"
  have doy: "0 \<le> doy" "doy < ylen yoe" "doy < 366"
  proof -
    show "0 \<le> doy" "doy < ylen yoe" using y by (simp_all add: doy_def ylen_def)
    then show "doy < 366" by (simp add: ylen_eq split: if_splits)
  qed
  note mp = month_exists [OF doy(1,3) refl]
  have z: "z + 719468 = era * 146097 + (ystart yoe + doy)"
    using mult_div_mod_eq [of 146097 "z + 719468"] by (simp add: era_def doe_def [symmetric] doy_def mult.commute)
  from that [OF z y(1,2) doy(1,2) mp civil_date_eq [OF z y(1,2) doy(1,2) mp(3,4)]] show thesis .
qed

lemma days_of_civil_of:
  "day_number (year (civil_date z)) (month (civil_date z)) (day (civil_date z)) = z \<and>
   valid_date (year (civil_date z)) (month (civil_date z)) (day (civil_date z))"
proof -
  obtain era yoe doy mp where z: "z + 719468 = era * 146097 + (ystart yoe + doy)" and y: "0 \<le> yoe" "yoe < 400"
    and doy: "0 \<le> doy" "doy < ylen yoe" and mp: "0 \<le> mp" "mp \<le> 11" "mstart mp \<le> doy" "doy < mstart (mp + 1)"
    and cz: "civil_date z = \<lparr>year = yoe + era * 400 + (if mp + (if mp < 10 then 3 else - 9) \<le> 2 then 1 else 0),
     month = mp + (if mp < 10 then 3 else - 9), day = doy - mstart mp + 1\<rparr>" by (rule civil_decompose)
  define m where "m = mp + (if mp < 10 then 3 else - 9)"
  define yr where "yr = yoe + era * 400 + (if m \<le> 2 then 1 else 0)"
  define d where "d = doy - mstart mp + 1"
  have c: "civil_date z = \<lparr>year = yr, month = m, day = d\<rparr>"
    unfolding cz m_def [symmetric] yr_def d_def by (rule refl)
  have m: "1 \<le> m" "m \<le> 12" "march_month m = mp" using mp(1,2) by (auto simp: m_def march_month_def)
  have my: "march_year yr m = yoe + era * 400" by (simp add: march_year_def yr_def)
  have dv: "(yoe + era * 400) div 400 = era" "(yoe + era * 400) mod 400 = yoe" using y(1,2) by simp_all
  have "day_number yr m d = z"
    unfolding day_number_eq my dv m(3) d_def using z by simp
  moreover have "valid_date yr m d"
  proof -
    note t = month_table [OF m(1,2), of yr, unfolded m(3)]
    have "d \<le> daysInMonth yr m"
    proof (cases "m = 2")
      case True
      have "isLeapYear yr \<longleftrightarrow> isLeapYear (yoe + 1)"
        using True isLeapYear_era [of "yoe + 1" era] by (simp add: yr_def algebra_simps)
      then show ?thesis using True t doy(2) by (auto simp: d_def ylen_eq split: if_splits)
    next
      case False
      then show ?thesis using t mp(4) by (simp add: d_def)
    qed
    then show ?thesis using m mp(3) by (simp add: valid_date_def d_def)
  qed
  ultimately show ?thesis by (simp add: c)
qed

text \<open>The dates a FILETIME can hold: 1601 to 30828.\<close>

lemma filetime_years:
  assumes "- DAYS_TO_UNIX_EPOCH \<le> z" "z < 11000000"
  shows "1601 \<le> year (civil_date z)" "year (civil_date z) < 65536"
proof -
  obtain era yoe doy mp where z: "z + 719468 = era * 146097 + (ystart yoe + doy)" and y: "0 \<le> yoe" "yoe < 400"
    and doy: "0 \<le> doy" "doy < ylen yoe" and mp: "0 \<le> mp" "mp \<le> 11" "mstart mp \<le> doy" "doy < mstart (mp + 1)"
    and cz: "civil_date z = \<lparr>year = yoe + era * 400 + (if mp + (if mp < 10 then 3 else - 9) \<le> 2 then 1 else 0),
     month = mp + (if mp < 10 then 3 else - 9), day = doy - mstart mp + 1\<rparr>" by (rule civil_decompose)
  have s: "0 \<le> ystart yoe" "ystart (yoe + 1) \<le> 146097" using y by (simp_all add: ystart_def)
  then have doe: "0 \<le> ystart yoe + doy" "ystart yoe + doy < 146097" using doy by (auto simp: ylen_def)
  then have era: "4 \<le> era" "era \<le> 81" using z assms by (simp_all add: DAYS_TO_UNIX_EPOCH_def)
  then show "year (civil_date z) < 65536" using y by (simp add: cz)
  show "1601 \<le> year (civil_date z)"
  proof (cases "era = 4 \<and> yoe = 0")
    case True
    then have "306 \<le> doy" using z assms(1) by (simp add: DAYS_TO_UNIX_EPOCH_def ystart_def)
    moreover have "mstart (mp + 1) \<le> 306" if "mp < 10"
      using zdiv_mono1 [of "153 * (mp + 1) + 2" "153 * 10 + 2" 5] that by (simp add: mstart_def)
    ultimately have "\<not> mp < 10" using mp(4) by linarith
    with True mp show ?thesis by (simp add: cz)
  next
    case False
    with era y show ?thesis by (auto simp: cz)
  qed
qed

section \<open>The range of the C types\<close>

lemma as_id:
  "- 2147483648 \<le> x \<Longrightarrow> x < 2147483648 \<Longrightarrow> as_int x = x"
  "0 \<le> x \<Longrightarrow> x < 4294967296 \<Longrightarrow> as_unsigned x = x"
  "- 9223372036854775808 \<le> x \<Longrightarrow> x < 9223372036854775808 \<Longrightarrow> as_int64 x = x"
  by (simp_all add: as_int_def as_unsigned_def as_int64_def)

text \<open>
  Within these years no operation of \<^verbatim>\<open>daysFromCivil\<close> overflows; the first that would is \<^verbatim>\<open>era * 146097\<close>.
\<close>

lemma daysFromCivil_range:
  assumes m: "1 \<le> m" "m \<le> 12" and d: "1 \<le> d" "d \<le> 31" and y: "- 5879600 < y" "y < 5880000"
  shows "daysFromCivil y m d = day_number y m d"
proof -
  define my where "my = march_year y m"
  define era where "era = my div 400"
  have my: "- 5879600 \<le> my" "my < 5880000" using y by (simp_all add: my_def march_year_def)
  have era: "- 14699 \<le> era" "era \<le> 14699" using my by (simp_all add: era_def)
  have r: "my - era * 400 = my mod 400" by (simp add: era_def minus_div_mult_eq_mod)
  have q: "0 \<le> my mod 400" "my mod 400 < 400" by simp_all
  have e: "(if my \<ge> 0 then my else my - 399) sdiv 400 = era" unfolding era_def by (rule floor_sdiv) simp_all
  have mm: "0 \<le> march_month m" "march_month m \<le> 11" using m by (simp_all add: march_month_def)
  define doy where "doy = mstart (march_month m) + d - 1"
  have ms: "0 \<le> mstart (march_month m)" "mstart (march_month m) \<le> 337" using mm by (simp_all add: mstart_def)
  then have doy: "0 \<le> doy" "doy < 400" using d by (simp_all add: doy_def)
  have ys: "0 \<le> ystart (my mod 400)" "ystart (my mod 400) \<le> 146097"
    using q by (simp_all add: ystart_def)
  have f1: "as_int (y - (if m \<le> 2 then 1 else 0)) = my" using y by (simp add: as_id my_def march_year_def)
  have f2: "(if my \<ge> 0 then my else as_int (my - 399)) sdiv 400 = era"
    using e my by (simp add: as_id split: if_splits)
  have f3: "as_unsigned (as_int (my - as_int (era * 400))) = my mod 400"
    using era q r by (simp add: as_id)
  have f4: "as_unsigned (as_unsigned (153 * march_month m + 2) div 5 + d - 1) = doy"
    using mm doy by (simp add: as_id doy_def mstart_def)
  have f5: "as_unsigned (my mod 400 * 365 + my mod 400 div 4 - my mod 400 div 100 + my mod 400 div 400 + doy) = ystart (my mod 400) + doy"
    using ys doy by (simp add: as_id ystart_def mult.commute)
  have "daysFromCivil y m d = as_int64 (as_int (era * 146097) + (ystart (my mod 400) + doy) - 719468)"
    unfolding daysFromCivil_def Let_def march_month_def [symmetric] f1 f2 f3 f4 f5 by (rule refl)
  also have "\<dots> = era * 146097 + (ystart (my mod 400) + doy) - 719468" using era ys doy by (simp add: as_id)
  finally show ?thesis by (simp add: day_number_eq my_def era_def doy_def)
qed

text \<open>\<^verbatim>\<open>civilFromDays\<close> computes in 64 bits; its year fits an \<^verbatim>\<open>int\<close> for the days of about 1.9 billion years.\<close>

lemma civilFromDays_range:
  assumes b: "- 700000000000 \<le> z" "z \<le> 700000000000"
  shows "civilFromDays z = civil_date z"
proof -
  obtain era yoe doy mp where z: "z + 719468 = era * 146097 + (ystart yoe + doy)" and y: "0 \<le> yoe" "yoe < 400"
    and doy: "0 \<le> doy" "doy < ylen yoe" and mp: "0 \<le> mp" "mp \<le> 11" "mstart mp \<le> doy" "doy < mstart (mp + 1)"
    and cz: "civil_date z = \<lparr>year = yoe + era * 400 + (if mp + (if mp < 10 then 3 else - 9) \<le> 2 then 1 else 0),
     month = mp + (if mp < 10 then 3 else - 9), day = doy - mstart mp + 1\<rparr>" by (rule civil_decompose)
  define doe where "doe = ystart yoe + doy"
  note p = civil_parts [OF z y doy mp(3,4), folded doe_def]
  have era: "- 4800000 \<le> era" "era \<le> 4800000" using z p(3,4) b by (simp_all add: doe_def)
  have c: "0 \<le> corrected doe" "corrected doe < 146000" using p(5) y by linarith+
  have dy: "0 \<le> 365 * yoe + yoe div 4 - yoe div 100" "365 * yoe + yoe div 4 - yoe div 100 < 200000" using y by simp_all
  have d366: "doy < 400" using doy(2) by (simp add: ylen_eq split: if_splits)
  have ms: "0 \<le> mstart mp" using mp(1) by (simp add: mstart_def)
  have f0: "as_int64 (z + 719468) = z + 719468" using b by (simp add: as_id)
  have f1: "(if z + 719468 \<ge> 0 then z + 719468 else as_int64 (z + 719468 - 146096)) sdiv 146097 = era"
    using p(1) b by (simp add: as_id split: if_splits)
  have f2: "as_unsigned (as_int64 (z + 719468 - as_int64 (era * 146097))) = doe"
    using p(2-4) era by (simp add: as_id)
  have f3: "as_unsigned (doe - doe div 1460 + doe div 36524 - doe div 146096) div 365 = yoe"
    using c p(5) by (simp add: as_id corrected_def)
  have f4: "as_unsigned (doe - as_unsigned (365 * yoe + yoe div 4 - yoe div 100)) = doy"
    using dy p(6) doy(1) d366 by (simp add: as_id)
  have f5: "as_unsigned (5 * doy + 2) div 153 = mp" using p(7) doy(1) d366 by (simp add: as_id)
  have f6: "as_unsigned (doy - as_unsigned (153 * mp + 2) div 5 + 1) = doy - mstart mp + 1"
    using mp ms d366 by (simp add: as_id mstart_def)
  have f7: "as_unsigned (mp + (if mp < 10 then 3 else - 9)) = mp + (if mp < 10 then 3 else - 9)"
    using mp(1,2) by (simp add: as_id)
  have f8: "as_int (as_int64 (as_int64 (yoe + as_int64 (era * 400)) + i)) = yoe + era * 400 + i" if "i = 0 \<or> i = 1" for i
    using that y era by (auto simp: as_id)
  show ?thesis
    unfolding civilFromDays_def Let_def f0 f1 f2 f3 f4 f5 f6 f7 cz using f8 by simp
qed

lemma valid_date_bounds:
  assumes "valid_date y m d"
  shows "1 \<le> m" "m \<le> 12" "1 \<le> d" "d \<le> 31"
proof -
  show m: "1 \<le> m" "m \<le> 12" "1 \<le> d" using assms by (simp_all add: valid_date_def)
  have "daysInMonth y m \<le> 31"
    by (rule month_cases [OF m(1,2)]) (simp_all add: daysInMonth_def baseDays_def nat_diff_distrib numeral_eq_Suc)
  then show "d \<le> 31" using assms by (simp add: valid_date_def)
qed

lemma daysFromCivil_valid:
  "valid_date y m d \<Longrightarrow> - 5879600 < y \<Longrightarrow> y < 5880000 \<Longrightarrow> daysFromCivil y m d = day_number y m d"
  using valid_date_bounds daysFromCivil_range by blast

lemma day_number_bounds:
  assumes "valid_date y m d" "- 5879600 < y" "y < 5880000"
  shows "- 700000000000 \<le> day_number y m d" "day_number y m d \<le> 700000000000"
proof -
  define my where "my = march_year y m"
  have "- 5879600 \<le> my" "my < 5880000" using assms(2,3) by (simp_all add: my_def march_year_def)
  then have "my div 400 \<le> 14699" "- 14699 \<le> my div 400" by simp_all
  moreover have "0 \<le> my mod 400" "my mod 400 < 400" by simp_all
  then have "0 \<le> ystart (my mod 400)" "ystart (my mod 400) \<le> 146097" by (simp_all add: ystart_def)
  moreover have "0 \<le> march_month m" "march_month m \<le> 11" using valid_date_bounds [OF assms(1)] by (simp_all add: march_month_def)
  then have "0 \<le> mstart (march_month m)" "mstart (march_month m) \<le> 337" by (simp_all add: mstart_def)
  ultimately show "- 700000000000 \<le> day_number y m d" "day_number y m d \<le> 700000000000"
    unfolding day_number_eq my_def [symmetric] using valid_date_bounds(3,4) [OF assms(1)] by linarith+
qed

text \<open>The years of the days whose dates \<^verbatim>\<open>daysFromCivil\<close> can take.\<close>

lemma civil_date_years:
  assumes "- 2146900000 \<le> z" "z \<le> 2146900000"
  shows "- 5879600 < year (civil_date z)" "year (civil_date z) < 5880000"
proof -
  obtain era yoe doy mp where z: "z + 719468 = era * 146097 + (ystart yoe + doy)" and y: "0 \<le> yoe" "yoe < 400"
    and doy: "0 \<le> doy" "doy < ylen yoe" and mp: "0 \<le> mp" "mp \<le> 11" "mstart mp \<le> doy" "doy < mstart (mp + 1)"
    and cz: "civil_date z = \<lparr>year = yoe + era * 400 + (if mp + (if mp < 10 then 3 else - 9) \<le> 2 then 1 else 0),
     month = mp + (if mp < 10 then 3 else - 9), day = doy - mstart mp + 1\<rparr>" by (rule civil_decompose)
  note p = civil_parts [OF z y doy mp(3,4)]
  have era: "- 14699 < era" "era \<le> 14699" using z p(3,4) assms by linarith+
  show "- 5879600 < year (civil_date z)" using era(1) y by (simp add: cz)
  show "year (civil_date z) < 5880000"
  proof (cases "era = 14699 \<and> yoe = 399")
    case True
    have "ystart 399 = 145731" by (simp add: ystart_def)
    then show ?thesis using z assms(2) True doy(1) by simp
  next
    case False
    then have "yoe + era * 400 < 5879999" using era(2) y by (cases "era = 14699") simp_all
    then show ?thesis by (simp add: cz)
  qed
qed

text \<open>
  C39: within the range of the C types day numbers and dates of the Gregorian calendar correspond one to one: converting a valid
  date of the years -5879599 to 5879999 to its day number and back gives the date, and every day number of
  absolute value at most 2146900000 gives a valid date whose day number it is. Outside the first range the 32-bit product in
  \<^verbatim>\<open>daysFromCivil\<close> overflows.
\<close>

theorem civil_days_roundtrip:
  "(valid_date y m d \<and> - 5879600 < y \<and> y < 5880000 \<longrightarrow>
      civilFromDays (daysFromCivil y m d) = \<lparr>year = y, month = m, day = d\<rparr>) \<and>
   (- 2146900000 \<le> z \<and> z \<le> 2146900000 \<longrightarrow>
      daysFromCivil (year (civilFromDays z)) (month (civilFromDays z)) (day (civilFromDays z)) = z \<and>
      valid_date (year (civilFromDays z)) (month (civilFromDays z)) (day (civilFromDays z)))"
proof (intro conjI impI; elim conjE)
  show "civilFromDays (daysFromCivil y m d) = \<lparr>year = y, month = m, day = d\<rparr>"
    if "valid_date y m d" "- 5879600 < y" "y < 5880000"
    using civil_of_days_of [OF that(1)] civilFromDays_range [OF day_number_bounds [OF that]] daysFromCivil_valid [OF that] by simp
  assume z: "- 2146900000 \<le> z" "z \<le> 2146900000"
  have c: "civilFromDays z = civil_date z" by (rule civilFromDays_range) (use z in simp_all)
  show "daysFromCivil (year (civilFromDays z)) (month (civilFromDays z)) (day (civilFromDays z)) = z"
    "valid_date (year (civilFromDays z)) (month (civilFromDays z)) (day (civilFromDays z))"
    using days_of_civil_of [of z] daysFromCivil_valid [OF _ civil_date_years [OF z]] by (simp_all add: c)
qed

theorem civil_days_roundtrip_witness:
  "valid_date 2024 2 29 \<and> civilFromDays (daysFromCivil 2024 2 29) = \<lparr>year = 2024, month = 2, day = 29\<rparr> \<and>
   daysFromCivil (year (civilFromDays (- 2146900000))) (month (civilFromDays (- 2146900000))) (day (civilFromDays (- 2146900000)))
     = - 2146900000"
proof -
  have "valid_date 2024 2 29"
    by (simp add: valid_date_def daysInMonth_def baseDays_def isLeapYear_iff)
  with civil_days_roundtrip [of 2024 2 29 "- 2146900000"] show ?thesis by simp
qed

text \<open>The first date past the range: the product wraps, and the day number is too small by \<open>2 ^ 32\<close>.\<close>

lemma days_overflow: "daysFromCivil 5880000 3 1 = day_number 5880000 3 1 - 2 ^ 32"
  by code_simp

section \<open>Ticks\<close>

lemma bit_u32_less: "bit (w :: u32) n \<Longrightarrow> n < 32"
  using bit_imp_le_length [of w n] by simp

lemma uint_fileTimeToDuration:
  "uint (fileTimeToDuration ft) = uint (dwHighDateTime ft) * 2 ^ 32 + uint (dwLowDateTime ft)"
proof -
  let ?h = "ucast (dwHighDateTime ft) :: u64" and ?l = "ucast (dwLowDateTime ft) :: u64"
  have "push_bit 32 ?h OR ?l = push_bit 32 ?h + ?l"
    by (rule disjunctive_add_eq_or [symmetric], rule bit_word_eqI)
      (use bit_u32_less [of "dwLowDateTime ft"] in \<open>fastforce simp: bit_simps\<close>)
  moreover have "uint (push_bit 32 ?h) = uint (dwHighDateTime ft) * 2 ^ 32"
  proof -
    have "uint (dwHighDateTime ft) < 2 ^ 32" using uint_lt2p [of "dwHighDateTime ft"] by simp
    then show ?thesis by (simp add: push_bit_eq_mult uint_word_ariths unsigned_ucast_eq take_bit_eq_mod)
  qed
  moreover have "uint ?l = uint (dwLowDateTime ft)"
    using uint_lt2p [of "dwLowDateTime ft"] by (simp add: unsigned_ucast_eq take_bit_eq_mod)
  moreover have "uint (dwHighDateTime ft) * 2 ^ 32 + uint (dwLowDateTime ft) < 2 ^ 64"
    using uint_lt2p [of "dwHighDateTime ft"] uint_lt2p [of "dwLowDateTime ft"] by simp
  ultimately show ?thesis by (simp add: fileTimeToDuration_def uint_word_ariths)
qed

lemma low_mask: "(0xFFFFFFFF :: u64) = mask 32" by (simp add: mask_eq_exp_minus_1)

lemma duration_fileTime: "fileTimeToDuration (fileTimeFromDuration t) = t"
  unfolding fileTimeToDuration_def fileTimeFromDuration_def
  unfolding low_mask by (rule bit_word_eqI) (auto simp: bit_simps)

lemma fileTime_duration: "fileTimeFromDuration (fileTimeToDuration ft) = ft"
  unfolding fileTimeToDuration_def fileTimeFromDuration_def
  unfolding low_mask by (cases ft) (auto intro!: bit_word_eqI simp: bit_simps dest: bit_u32_less)

section \<open>SYSTEMTIME and FILETIME\<close>

text \<open>A SYSTEMTIME whose fields are WORD values.\<close>

definition word_fields :: "SYSTEMTIME \<Rightarrow> bool" where
  "word_fields st \<longleftrightarrow> (\<forall>f \<in> {wYear, wMonth, wDayOfWeek, wDay, wHour, wMinute, wSecond, wMilliseconds}.
     0 \<le> f st \<and> f st < 65536)"

definition days1601 :: "SYSTEMTIME \<Rightarrow> int" where
  "days1601 st = day_number (wYear st) (wMonth st) (wDay st) + DAYS_TO_UNIX_EPOCH"

definition day_ticks :: "SYSTEMTIME \<Rightarrow> int" where
  "day_ticks st = (wHour st * 3600 + wMinute st * 60 + wSecond st) * HUNDRED_NS_PER_SECOND +
     wMilliseconds st * HUNDRED_NS_PER_MILLISECOND"

lemmas time_consts = HUNDRED_NS_PER_SECOND_def HUNDRED_NS_PER_MILLISECOND_def SECONDS_PER_DAY_def TICKS_PER_DAY_def
  UNIX_TIME_ZERO_def MAX_VALID_FILETIME_def DAYS_TO_UNIX_EPOCH_def

lemma validate_iff:
  "word_fields st \<Longrightarrow> validateSystemTime st \<longleftrightarrow> 1601 \<le> wYear st \<and> valid_date (wYear st) (wMonth st) (wDay st) \<and>
     wHour st \<le> 23 \<and> wMinute st \<le> 59 \<and> wSecond st \<le> 59 \<and> wMilliseconds st \<le> 999"
  by (auto simp: validateSystemTime_def valid_date_def)

lemma daysFromCivil_fields:
  assumes "word_fields st" "validateSystemTime st"
  shows "daysFromCivil (wYear st) (wMonth st) (wDay st) = day_number (wYear st) (wMonth st) (wDay st)"
  using assms validate_iff [OF assms(1)] by (intro daysFromCivil_valid) (simp_all add: word_fields_def)

lemma day_ticks_bounds:
  assumes "word_fields st" "validateSystemTime st"
  shows "0 \<le> day_ticks st" "day_ticks st < TICKS_PER_DAY"
  using assms(1) validate_iff [OF assms(1)] assms(2) by (auto simp: day_ticks_def word_fields_def time_consts)

lemma uint_duration_word:
  "0 \<le> t \<Longrightarrow> t < 2 ^ 64 \<Longrightarrow> uint (fileTimeToDuration (fileTimeFromDuration (word_of_int t))) = t"
  by (simp add: duration_fileTime uint_word_of_int)

lemma SystemTimeToFileTime_eq:
  assumes w: "word_fields st" and v: "validateSystemTime st"
  shows "SystemTimeToFileTime (Some st) True =
    (if days1601 st * TICKS_PER_DAY + day_ticks st < 0 \<or> MAX_VALID_FILETIME \<le> days1601 st * TICKS_PER_DAY + day_ticks st
     then Inl ERROR_INVALID_PARAMETER
     else Inr (fileTimeFromDuration (word_of_int (days1601 st * TICKS_PER_DAY + day_ticks st))))"
proof -
  define t where "t = days1601 st * TICKS_PER_DAY + day_ticks st"
  have tot: "(daysFromCivil (wYear st) (wMonth st) (wDay st) * SECONDS_PER_DAY + (wHour st * 3600 + wMinute st * 60 + wSecond st))
      * HUNDRED_NS_PER_SECOND + wMilliseconds st * HUNDRED_NS_PER_MILLISECOND + UNIX_TIME_ZERO = t"
    by (simp add: daysFromCivil_fields [OF w v] t_def days1601_def day_ticks_def time_consts algebra_simps)
  have ms: "\<not> wMilliseconds st * HUNDRED_NS_PER_MILLISECOND \<ge> HUNDRED_NS_PER_SECOND"
    using validate_iff [OF w] v by (simp add: time_consts)
  consider "t < 0" | "0 \<le> t" "t > 2 ^ 64 - 1" | "0 \<le> t" "t < 2 ^ 64" by linarith
  then show ?thesis
  proof cases
    case 1
    then show ?thesis using v ms unfolding t_def [symmetric]
      by (simp add: SystemTimeToFileTime_def systemTimeToUnixParts_def unixPartsToFileTime_def tot)
  next
    case 2
    then show ?thesis using v ms unfolding t_def [symmetric]
      by (simp add: SystemTimeToFileTime_def systemTimeToUnixParts_def unixPartsToFileTime_def tot MAX_VALID_FILETIME_def)
  next
    case 3
    then show ?thesis using v ms uint_duration_word [OF 3] unfolding t_def [symmetric]
      by (simp add: SystemTimeToFileTime_def systemTimeToUnixParts_def unixPartsToFileTime_def tot)
  qed
qed

lemma to_WORD_id: "0 \<le> x \<Longrightarrow> x < 65536 \<Longrightarrow> to_WORD x = x" by (simp add: to_WORD_def)

lemma day_ticks_split:
  assumes "0 \<le> h" "0 \<le> mi" "mi \<le> 59" "0 \<le> s" "s \<le> 59" "0 \<le> ms" "ms \<le> (999 :: int)"
    "r = (h * 3600 + mi * 60 + s) * 10000000 + ms * 10000"
  shows "r div 10000000 div 3600 = h" "r div 10000000 mod 3600 div 60 = mi" "r div 10000000 mod 60 = s"
    "r mod 10000000 div 10000 = ms"
proof -
  have q: "r div 10000000 = h * 3600 + mi * 60 + s" "r mod 10000000 = ms * 10000"
    using assms int_div_pos_eq [of r 10000000 "h * 3600 + mi * 60 + s" "ms * 10000"]
      int_mod_pos_eq [of r 10000000 "h * 3600 + mi * 60 + s" "ms * 10000"] by simp_all
  have q2: "(h * 3600 + mi * 60 + s) div 3600 = h" "(h * 3600 + mi * 60 + s) mod 3600 = mi * 60 + s"
    using assms int_div_pos_eq [of "h * 3600 + mi * 60 + s" 3600 h "mi * 60 + s"]
      int_mod_pos_eq [of "h * 3600 + mi * 60 + s" 3600 h "mi * 60 + s"] by simp_all
  have q3: "(mi * 60 + s) div 60 = mi" using assms int_div_pos_eq [of "mi * 60 + s" 60 mi s] by simp
  have q4: "(h * 3600 + mi * 60 + s) mod 60 = s"
    using assms int_mod_pos_eq [of "h * 3600 + mi * 60 + s" 60 "h * 60 + mi" s] by simp
  show "r div 10000000 div 3600 = h" "r div 10000000 mod 3600 div 60 = mi" "r div 10000000 mod 60 = s"
    "r mod 10000000 div 10000 = ms" unfolding q q2 q3 q4 by simp_all
qed

text \<open>
  A SYSTEMTIME converted to a FILETIME converts back to itself, with the day of the week
  set to the right one.
\<close>

theorem system_file_system:
  assumes "word_fields st" "SystemTimeToFileTime (Some st) True = Inr ft"
  shows "FileTimeToSystemTime (Some ft) True = Inr (st\<lparr>wDayOfWeek := (days1601 st + 1) mod 7\<rparr>)"
proof -
  have v: "validateSystemTime st" using assms(2)
    by (auto simp: SystemTimeToFileTime_def systemTimeToUnixParts_def split: if_splits)
  define t where "t = days1601 st * TICKS_PER_DAY + day_ticks st"
  note eq = SystemTimeToFileTime_eq [OF assms(1) v, folded t_def]
  have t: "0 \<le> t" "t < MAX_VALID_FILETIME" "ft = fileTimeFromDuration (word_of_int t)"
    using eq assms(2) by (auto split: if_splits)
  have "t < 2 ^ 64" using t(2) by (simp add: MAX_VALID_FILETIME_def)
  from uint_duration_word [OF t(1) this] have u: "uint (fileTimeToDuration ft) = t" by (simp add: t(3))
  note db = day_ticks_bounds [OF assms(1) v]
  have dv: "t div TICKS_PER_DAY = days1601 st" "t mod TICKS_PER_DAY = day_ticks st"
    using db int_div_pos_eq [of t TICKS_PER_DAY "days1601 st" "day_ticks st"]
      int_mod_pos_eq [of t TICKS_PER_DAY "days1601 st" "day_ticks st"] by (simp_all add: t_def mult.commute)
  have vf: "valid_date (wYear st) (wMonth st) (wDay st)" "wHour st \<le> 23" "wMinute st \<le> 59" "wSecond st \<le> 59"
    "wMilliseconds st \<le> 999" using validate_iff [OF assms(1)] v by simp_all
  have wf: "0 \<le> wYear st" "wYear st < 65536" "0 \<le> wMonth st" "wMonth st < 65536" "0 \<le> wDay st" "wDay st < 65536"
    "0 \<le> wHour st" "0 \<le> wMinute st" "0 \<le> wSecond st" "0 \<le> wMilliseconds st"
    using assms(1) by (simp_all add: word_fields_def)
  note sp = day_ticks_split [OF wf(7,8) vf(3) wf(9) vf(4) wf(10) vf(5) day_ticks_def [unfolded time_consts]]
  have civ: "civilFromDays (days1601 st - DAYS_TO_UNIX_EPOCH) = \<lparr>year = wYear st, month = wMonth st, day = wDay st\<rparr>"
    using civil_of_days_of [OF vf(1)] civilFromDays_range [OF day_number_bounds [OF vf(1)]] wf(1,2) by (simp add: days1601_def)
  have nm: "\<not> t \<ge> MAX_VALID_FILETIME" using t(2) by simp
  have f: "to_WORD (wYear st) = wYear st" "to_WORD (wMonth st) = wMonth st" "to_WORD (wDay st) = wDay st"
    "to_WORD (wHour st) = wHour st" "to_WORD (wMinute st) = wMinute st" "to_WORD (wSecond st) = wSecond st"
    "to_WORD (wMilliseconds st) = wMilliseconds st" "to_WORD ((days1601 st + 1) mod 7) = (days1601 st + 1) mod 7"
    using wf vf(2-5) to_WORD_id [of "(days1601 st + 1) mod 7"] pos_mod_bound [of 7 "days1601 st + 1"]
    by (simp_all add: to_WORD_id)
  have rc: "\<lparr>wYear = wYear st, wMonth = wMonth st, wDayOfWeek = w, wDay = wDay st, wHour = wHour st,
      wMinute = wMinute st, wSecond = wSecond st, wMilliseconds = wMilliseconds st\<rparr> = st\<lparr>wDayOfWeek := w\<rparr>" for w
    by (cases st) simp
  have hs: "HUNDRED_NS_PER_SECOND = 10000000" "HUNDRED_NS_PER_MILLISECOND = 10000"
    by (simp_all add: HUNDRED_NS_PER_SECOND_def HUNDRED_NS_PER_MILLISECOND_def)
  show ?thesis
    unfolding FileTimeToSystemTime_def option.case u Let_def dv civ hs sp CivilDate.select_convs f rc
    using nm by simp
qed

definition demo_time :: SYSTEMTIME where
  "demo_time = \<lparr>wYear = 2024, wMonth = 2, wDayOfWeek = 0, wDay = 29, wHour = 23, wMinute = 59, wSecond = 58, wMilliseconds = 7\<rparr>"

lemma demo_time_fields: "word_fields demo_time" by (simp add: word_fields_def demo_time_def)

lemma demo_time_valid: "validateSystemTime demo_time"
  by (simp add: validateSystemTime_def demo_time_def daysInMonth_def baseDays_def isLeapYear_iff)

lemma demo_days: "daysFromCivil 2024 2 29 = 19782" "day_number 2024 2 29 = 19782"
proof -
  show n: "day_number 2024 2 29 = 19782" by (simp add: day_number_def Let_def signed_divide_int_def)
  then show "daysFromCivil 2024 2 29 = 19782" by (simp add: daysFromCivil_range)
qed

lemma demo_time_convert: "\<exists>ft. SystemTimeToFileTime (Some demo_time) True = Inr ft"
  unfolding SystemTimeToFileTime_eq [OF demo_time_fields demo_time_valid]
  by (simp add: days1601_def day_ticks_def demo_time_def demo_days time_consts)

theorem system_file_system_witness:
  "\<exists>ft. SystemTimeToFileTime (Some demo_time) True = Inr ft \<and>
     FileTimeToSystemTime (Some ft) True = Inr (demo_time\<lparr>wDayOfWeek := 4\<rparr>)"
proof -
  obtain ft where ft: "SystemTimeToFileTime (Some demo_time) True = Inr ft" using demo_time_convert by blast
  have "(days1601 demo_time + 1) mod 7 = 4"
    by (simp add: days1601_def demo_time_def demo_days DAYS_TO_UNIX_EPOCH_def)
  with system_file_system [OF demo_time_fields ft] ft show ?thesis by auto
qed

lemma divmod_parts:
  assumes "0 < (k :: int)"
  obtains q m where "x div k = q" "x mod k = m" "x = k * q + m" "0 \<le> m" "m < k"
  using assms mult_div_mod_eq [of k x] pos_mod_sign [OF assms, of x] pos_mod_bound [OF assms, of x] by metis

text \<open>Hour, minute, second, millisecond and the rest of the ticks of a day.\<close>

lemma split_ticks:
  assumes "0 \<le> (r :: int)" "r < 864000000000"
  obtains h mi s ms e where "r div 10000000 div 3600 = h" "r div 10000000 mod 3600 div 60 = mi"
    "r div 10000000 mod 60 = s" "r mod 10000000 div 10000 = ms" "r mod 10000 = e"
    "r = (h * 3600 + mi * 60 + s) * 10000000 + ms * 10000 + e"
    "0 \<le> h" "h \<le> 23" "0 \<le> mi" "mi \<le> 59" "0 \<le> s" "s \<le> 59" "0 \<le> ms" "ms \<le> 999" "0 \<le> e" "e < 10000"
proof -
  obtain q n where q: "r div 10000000 = q" "r mod 10000000 = n" "r = 10000000 * q + n" "0 \<le> n" "n < 10000000"
    by (rule divmod_parts [of 10000000 r]) simp_all
  obtain h w where h: "q div 3600 = h" "q mod 3600 = w" "q = 3600 * h + w" "0 \<le> w" "w < 3600"
    by (rule divmod_parts [of 3600 q]) simp_all
  obtain mi s where mi: "w div 60 = mi" "w mod 60 = s" "w = 60 * mi + s" "0 \<le> s" "s < 60"
    by (rule divmod_parts [of 60 w]) simp_all
  obtain ms e where ms: "n div 10000 = ms" "n mod 10000 = e" "n = 10000 * ms + e" "0 \<le> e" "e < 10000"
    by (rule divmod_parts [of 10000 n]) simp_all
  have p: "r div 10000000 div 3600 = h" "r div 10000000 mod 3600 div 60 = mi" "r mod 10000000 div 10000 = ms"
    unfolding q(1,2) h(1,2) mi(1) ms(1) by (rule refl)+
  have "q = 60 * (60 * h + mi) + s" using h(3) mi(3) by simp
  then have s: "r div 10000000 mod 60 = s" unfolding q(1) by (rule int_mod_pos_eq [OF _ mi(4,5)])
  have "r = 10000 * (1000 * q + ms) + e" using q(3) ms(3) by simp
  then have e: "r mod 10000 = e" by (rule int_mod_pos_eq [OF _ ms(4,5)])
  have qb: "0 \<le> q" "q < 86400" using q(3-5) assms by linarith+
  have b: "0 \<le> h" "h \<le> 23" "0 \<le> mi" "mi \<le> 59" "s \<le> 59" "0 \<le> ms" "ms \<le> 999"
    using qb h(3-5) mi(3-5) ms(3-5) q(4,5) by linarith+
  have r: "r = (h * 3600 + mi * 60 + s) * 10000000 + ms * 10000 + e" using q(3) h(3) mi(3) ms(3) by simp
  from that [OF p(1,2) s p(3) e r b(1-4) mi(4) b(5-7) ms(4,5)] show thesis .
qed

text \<open>
  Every FILETIME below the code's limit converts to a SYSTEMTIME that the code accepts
  again, and converting back gives the same time rounded down to the millisecond.
\<close>

theorem file_system_file:
  assumes "uint (fileTimeToDuration ft) = t" "t < MAX_VALID_FILETIME"
  shows "\<exists>st. FileTimeToSystemTime (Some ft) True = Inr st \<and>
    SystemTimeToFileTime (Some st) True = Inr (fileTimeFromDuration (word_of_int (t - t mod 10000)))"
proof -
  define z where "z = t div TICKS_PER_DAY - DAYS_TO_UNIX_EPOCH"
  define r where "r = t mod TICKS_PER_DAY"
  define c where "c = civil_date z"
  have t0: "0 \<le> t" using assms(1) by auto
  have zb: "- DAYS_TO_UNIX_EPOCH \<le> z" "z < 11000000"
    using t0 assms(2) by (simp_all add: z_def time_consts pos_imp_zdiv_nonneg_iff)
  note yr = filetime_years [OF zb, folded c_def]
  have cz: "civilFromDays z = c" unfolding c_def by (rule civilFromDays_range) (use zb in \<open>simp_all add: DAYS_TO_UNIX_EPOCH_def\<close>)
  have vd: "day_number (year c) (month c) (day c) = z" "valid_date (year c) (month c) (day c)"
    using days_of_civil_of [of z] by (simp_all add: c_def)
  note md = valid_date_bounds [OF vd(2)]
  have tr: "t = t div TICKS_PER_DAY * TICKS_PER_DAY + r" "0 \<le> r" "r < 864000000000" by (simp_all add: r_def time_consts)
  obtain h mi s ms e where p: "r div 10000000 div 3600 = h" "r div 10000000 mod 3600 div 60 = mi"
    "r div 10000000 mod 60 = s" "r mod 10000000 div 10000 = ms" "r mod 10000 = e"
    and rp: "r = (h * 3600 + mi * 60 + s) * 10000000 + ms * 10000 + e"
    and b: "0 \<le> h" "h \<le> 23" "0 \<le> mi" "mi \<le> 59" "0 \<le> s" "s \<le> 59" "0 \<le> ms" "ms \<le> 999" "0 \<le> e" "e < 10000"
    by (rule split_ticks [OF tr(2,3)])
  obtain w where w: "(t div TICKS_PER_DAY + 1) mod 7 = w" "0 \<le> w" "w < 7" by simp
  let ?st = "\<lparr>wYear = year c, wMonth = month c, wDayOfWeek = w, wDay = day c, wHour = h, wMinute = mi, wSecond = s,
    wMilliseconds = ms\<rparr>"
  have wf: "word_fields ?st" using yr md b w by (simp add: word_fields_def)
  have hs: "HUNDRED_NS_PER_SECOND = 10000000" "HUNDRED_NS_PER_MILLISECOND = 10000"
    by (simp_all add: HUNDRED_NS_PER_SECOND_def HUNDRED_NS_PER_MILLISECOND_def)
  have f: "FileTimeToSystemTime (Some ft) True = Inr ?st"
    unfolding FileTimeToSystemTime_def option.case assms(1) Let_def r_def [symmetric] z_def [symmetric] cz
      hs p w(1)
    using assms(2) yr md b w by (simp add: to_WORD_id)
  have v: "validateSystemTime ?st" using validate_iff [OF wf] yr(1) vd(2) b by simp
  have d1: "days1601 ?st = t div TICKS_PER_DAY" by (simp add: days1601_def vd(1) z_def)
  have d2: "day_ticks ?st = r - e" using rp by (simp add: day_ticks_def hs)
  have te: "t mod 10000 = e"
    unfolding p(5) [symmetric] r_def by (simp add: mod_mod_cancel time_consts)
  have tk: "days1601 ?st * TICKS_PER_DAY + day_ticks ?st = t - t mod 10000"
    unfolding d1 d2 te using tr(1) by linarith
  have "t - t mod 10000 < MAX_VALID_FILETIME" using te b(9) assms(2) by linarith
  moreover have "0 \<le> t - t mod 10000" unfolding minus_mod_eq_div_mult using t0 by (simp add: pos_imp_zdiv_nonneg_iff)
  ultimately have "SystemTimeToFileTime (Some ?st) True = Inr (fileTimeFromDuration (word_of_int (t - t mod 10000)))"
    unfolding SystemTimeToFileTime_eq [OF wf v] tk by simp
  with f show ?thesis by blast
qed

theorem file_system_file_witness:
  "\<exists>st. FileTimeToSystemTime (Some (fileTimeFromDuration 123456789)) True = Inr st \<and>
     SystemTimeToFileTime (Some st) True = Inr (fileTimeFromDuration 123450000)"
  using file_system_file [of "fileTimeFromDuration 123456789" 123456789]
  by (simp add: duration_fileTime MAX_VALID_FILETIME_def)

section \<open>MS-DOS stamps\<close>

text \<open>
  What the C library documents for a local time that exists: \<^verbatim>\<open>localtime_r\<close> turns the time
  \<^verbatim>\<open>mktime\<close> computed back into the same calendar fields. The times of MS-DOS stamps are after 1970.
\<close>

definition clock_inverse :: "(tm \<Rightarrow> int \<times> bool) \<Rightarrow> (int \<Rightarrow> tm option) \<Rightarrow> tm \<Rightarrow> bool" where
  "clock_inverse mktime localtime_r t0 \<longleftrightarrow>
     (case mktime t0 of (s, _) \<Rightarrow> 0 \<le> s \<and> s < 2 ^ 40 \<and>
       (case localtime_r s of None \<Rightarrow> False | Some t \<Rightarrow> tm_sec t = tm_sec t0 \<and> tm_min t = tm_min t0 \<and>
          tm_hour t = tm_hour t0 \<and> tm_mday t = tm_mday t0 \<and> tm_mon t = tm_mon t0 \<and> tm_year t = tm_year t0))"

lemma low_masks: "(0x1F :: u16) = mask 5" "(0x0F :: u16) = mask 4" "(0x7F :: u16) = mask 7" "(0x3F :: u16) = mask 6"
  "(0x1F :: int) = mask 5" "(0x3F :: int) = mask 6"
  by (simp_all add: mask_eq_exp_minus_1)

lemma bit_u16_less: "bit (w :: u16) n \<Longrightarrow> n < 16"
  using bit_imp_le_length [of w n] by simp

lemma dos_date_pack:
  "(word_of_int (push_bit 9 (uint (drop_bit 9 w AND 0x7F)) OR push_bit 5 (uint (drop_bit 5 w AND 0x0F)) OR
     uint (w AND 0x1F)) :: u16) = w"
  unfolding low_masks
proof (rule bit_word_eqI)
  fix n assume n: "n < LENGTH(16)"
  consider "n < 5" | "5 \<le> n" "n < 9" | "9 \<le> n" by linarith
  then show "bit (word_of_int (push_bit 9 (uint (drop_bit 9 w AND mask 7)) OR push_bit 5 (uint (drop_bit 5 w AND mask 4)) OR
     uint (w AND mask 5)) :: u16) n = bit w n"
    using n by cases (auto simp: bit_simps)
qed

lemma dos_time_pack:
  "(word_of_int (push_bit 11 (uint (drop_bit 11 w AND 0x1F) AND 0x1F) OR push_bit 5 (uint (drop_bit 5 w AND 0x3F) AND 0x3F) OR
     (uint (w AND 0x1F) AND 0x1F)) :: u16) = w"
  unfolding low_masks
proof (rule bit_word_eqI)
  fix n assume n: "n < LENGTH(16)"
  consider "n < 5" | "5 \<le> n" "n < 11" | "11 \<le> n" by linarith
  then show "bit (word_of_int (push_bit 11 (uint (drop_bit 11 w AND mask 5) AND mask 5) OR push_bit 5 (uint (drop_bit 5 w AND mask 6) AND mask 6) OR
     (uint (w AND mask 5) AND mask 5)) :: u16) n = bit w n"
    using n by cases (auto simp: bit_simps)
qed

lemma even_sdiv: "0 \<le> x \<Longrightarrow> (x * 2) sdiv 2 = (x :: int)"
  by (cases "x = 0") (simp_all add: signed_divide_int_def sgn_if)

text \<open>
  An MS-DOS date and time stamp the code accepts survives the conversion to a FILETIME and
  back, bit for bit, provided the C library's local-time functions invert each other at that time.
\<close>

theorem dos_roundtrip:
  assumes "DosDateTimeToFileTime mktime wFatDate wFatTime True = Inr ft"
    "clock_inverse mktime localtime_r (dos_tm wFatDate wFatTime)"
  shows "FileTimeToDosDateTime localtime_r (Some ft) True = Inr (wFatDate, wFatTime)"
proof -
  define t0 where "t0 = dos_tm wFatDate wFatTime"
  obtain s e where s: "mktime t0 = (s, e)" by fastforce
  from assms(2) s obtain t where sb: "0 \<le> s" "s < 2 ^ 40" and t: "localtime_r s = Some t"
    and f: "tm_sec t = tm_sec t0" "tm_min t = tm_min t0" "tm_hour t = tm_hour t0" "tm_mday t = tm_mday t0"
      "tm_mon t = tm_mon t0" "tm_year t = tm_year t0"
    by (auto simp: clock_inverse_def t0_def [symmetric] split: option.splits)
  have ft: "ft = fileTimeFromDuration ((word_of_int s + word_of_int (UNIX_TIME_ZERO div HUNDRED_NS_PER_SECOND)) * 10000000)"
    using assms(1) s by (auto simp: DosDateTimeToFileTime_def t0_def [symmetric] Let_def split: if_splits)
  have u: "uint (fileTimeToDuration ft) = (s + 11644473600) * 10000000"
    using sb unfolding ft duration_fileTime by (simp add: time_consts uint_word_ariths uint_word_of_int)
  have sec: "(s + 11644473600) * 10000000 div 10000000 - UNIX_TIME_ZERO div HUNDRED_NS_PER_SECOND = s"
    by (simp add: time_consts)
  have ge: "\<not> (s + 11644473600) * 10000000 < UNIX_TIME_ZERO" using sb by (simp add: time_consts)
  have fields: "tm_sec t0 = uint (wFatTime AND 0x1F) * 2" "tm_min t0 = uint (drop_bit 5 wFatTime AND 0x3F)"
    "tm_hour t0 = uint (drop_bit 11 wFatTime AND 0x1F)" "tm_mday t0 = uint (wFatDate AND 0x1F)"
    "tm_mon t0 + 1 = uint (drop_bit 5 wFatDate AND 0x0F)" "tm_year t0 + 1900 = uint (drop_bit 9 wFatDate AND 0x7F) + 1980"
    by (simp_all add: t0_def dos_tm_def Let_def)
  have y: "0 \<le> uint (drop_bit 9 wFatDate AND 0x7F)" "uint (drop_bit 9 wFatDate AND 0x7F) \<le> 127"
    by (simp_all add: uint_and AND_upper2)
  have half: "uint (wFatTime AND 0x1F) * 2 sdiv 2 = uint (wFatTime AND 0x1F)" by (rule even_sdiv) simp
  show ?thesis
    unfolding FileTimeToDosDateTime_def option.case u Let_def sec t f fields half
    using ge y dos_date_pack [of wFatDate] dos_time_pack [of wFatTime] by simp
qed

text \<open>Local time without offset or summer time, as an instance of the parameters.\<close>

definition utc_mktime :: "tm \<Rightarrow> int \<times> bool" where
  "utc_mktime t = (case tmToUnixSeconds t of Some s \<Rightarrow> (s, False) | None \<Rightarrow> (- 1, True))"

definition utc_localtime :: "int \<Rightarrow> tm option" where
  "utc_localtime s =
     (let c = civilFromDays (s div 86400); r = s mod 86400
      in Some \<lparr>tm_sec = r mod 60, tm_min = r mod 3600 div 60, tm_hour = r div 3600, tm_mday = day c,
               tm_mon = month c - 1, tm_year = year c - 1900, tm_isdst = 0, tm_gmtoff = 0\<rparr>)"

lemma demo_dos_tm: "dos_tm 0x585D 0xBF7D = \<lparr>tm_sec = 58, tm_min = 59, tm_hour = 23, tm_mday = 29, tm_mon = 1,
    tm_year = 124, tm_isdst = - 1, tm_gmtoff = 0\<rparr>"
  by (simp add: dos_tm_def)

lemma demo_utc: "utc_mktime (dos_tm 0x585D 0xBF7D) = (1709251198, False)"
  by (simp add: demo_dos_tm utc_mktime_def tmToUnixSeconds_def as_id daysInMonth_def baseDays_def isLeapYear_iff demo_days
      SECONDS_PER_DAY_def)

lemma demo_clock: "clock_inverse utc_mktime utc_localtime (dos_tm 0x585D 0xBF7D)"
proof -
  have "valid_date 2024 2 29" by (simp add: valid_date_def daysInMonth_def baseDays_def isLeapYear_iff)
  from civil_of_days_of [OF this] have "civilFromDays 19782 = \<lparr>year = 2024, month = 2, day = 29\<rparr>"
    by (simp add: demo_days civilFromDays_range)
  then show ?thesis by (simp add: clock_inverse_def demo_utc utc_localtime_def) (simp add: demo_dos_tm)
qed

theorem dos_roundtrip_witness:
  "\<exists>ft. DosDateTimeToFileTime utc_mktime 0x585D 0xBF7D True = Inr ft \<and>
     FileTimeToDosDateTime utc_localtime (Some ft) True = Inr (0x585D, 0xBF7D)"
proof -
  have "\<exists>ft. DosDateTimeToFileTime utc_mktime 0x585D 0xBF7D True = Inr ft"
    by (simp add: DosDateTimeToFileTime_def demo_utc Let_def) (simp add: demo_dos_tm)
  then show ?thesis using dos_roundtrip [OF _ demo_clock] by blast
qed

end
