(* ===== verification/Rtl_Bitmap.thy ===== *)
theory Rtl_Bitmap
  imports Wibo_Prelude
begin

unbundle bit_operations_syntax

text \<open>
  The bit maps of \<^verbatim>\<open>src/dll/ntdll.cpp\<close>: \<^verbatim>\<open>RtlInitializeBitMap\<close>, \<^verbatim>\<open>RtlSetBits\<close>, \<^verbatim>\<open>RtlAreBitsSet\<close> and
  \<^verbatim>\<open>RtlAreBitsClear\<close> on an array of 32-bit words, against the set of bits the array stands for. An
  access outside the caller's array is \<open>None\<close>. The \<^verbatim>\<open>ULONG\<close> arguments are natural numbers: every index
  the loops form is below \<^verbatim>\<open>SizeOfBitMap\<close>, which is itself a \<^verbatim>\<open>ULONG\<close>, so none of them wraps.
\<close>

record RTL_BITMAP =
  SizeOfBitMap :: nat
  Buffer :: "u32 list option"

definition RtlInitializeBitMap :: "RTL_BITMAP option \<Rightarrow> u32 list option \<Rightarrow> nat \<Rightarrow> RTL_BITMAP option" where
  "RtlInitializeBitMap BitMapHeader buf n =
     (case BitMapHeader of None \<Rightarrow> None | Some bm \<Rightarrow> Some (bm\<lparr>SizeOfBitMap := n, Buffer := buf\<rparr>))"

fun set_loop :: "u32 list \<Rightarrow> nat \<Rightarrow> nat \<Rightarrow> u32 list option" where
  "set_loop buf bitIndex 0 = Some buf"
| "set_loop buf bitIndex (Suc n) =
     (let wordIndex = bitIndex div 32; offset = bitIndex mod 32 in
      if wordIndex < length buf then set_loop (buf[wordIndex := buf ! wordIndex OR push_bit offset 1]) (bitIndex + 1) n
      else None)"

definition RtlSetBits :: "RTL_BITMAP option \<Rightarrow> nat \<Rightarrow> nat \<Rightarrow> RTL_BITMAP option option" where
  "RtlSetBits BitMapHeader StartingIndex NumberToSet =
     (case BitMapHeader of
        None \<Rightarrow> Some None
      | Some bm \<Rightarrow>
          (case Buffer bm of
             None \<Rightarrow> Some (Some bm)
           | Some buf \<Rightarrow>
               if NumberToSet = 0 then Some (Some bm)
               else if StartingIndex \<ge> SizeOfBitMap bm then Some (Some bm)
               else let available = SizeOfBitMap bm - StartingIndex;
                        n = (if NumberToSet > available then available else NumberToSet)
                    in map_option (\<lambda>b. Some (bm\<lparr>Buffer := Some b\<rparr>)) (set_loop buf StartingIndex n)))"

text \<open>The loop that looks for a bit with the value \<open>bad\<close>.\<close>

fun test_loop :: "bool \<Rightarrow> u32 list \<Rightarrow> nat \<Rightarrow> nat \<Rightarrow> bool option" where
  "test_loop bad buf bitIndex 0 = Some True"
| "test_loop bad buf bitIndex (Suc n) =
     (let wordIndex = bitIndex div 32; offset = bitIndex mod 32 in
      if wordIndex < length buf then
        if (buf ! wordIndex AND push_bit offset 1 \<noteq> 0) = bad then Some False
        else test_loop bad buf (bitIndex + 1) n
      else None)"

definition are_bits :: "bool \<Rightarrow> RTL_BITMAP option \<Rightarrow> nat \<Rightarrow> nat \<Rightarrow> bool option" where
  "are_bits bad BitMapHeader StartingIndex len =
     (case BitMapHeader of
        None \<Rightarrow> Some False
      | Some bm \<Rightarrow>
          (case Buffer bm of
             None \<Rightarrow> Some False
           | Some buf \<Rightarrow>
               if len = 0 then Some False
               else if StartingIndex \<ge> SizeOfBitMap bm \<or> len > SizeOfBitMap bm - StartingIndex then Some False
               else test_loop bad buf StartingIndex len))"

definition RtlAreBitsSet :: "RTL_BITMAP option \<Rightarrow> nat \<Rightarrow> nat \<Rightarrow> bool option" where
  "RtlAreBitsSet = are_bits False"

definition RtlAreBitsClear :: "RTL_BITMAP option \<Rightarrow> nat \<Rightarrow> nat \<Rightarrow> bool option" where
  "RtlAreBitsClear = are_bits True"

definition demo_bitmap :: RTL_BITMAP where
  "demo_bitmap = \<lparr>SizeOfBitMap = 40, Buffer = Some [0xF0, 1]\<rparr>"

section \<open>The set of bits\<close>

definition bits_of :: "u32 list \<Rightarrow> nat set" where
  "bits_of buf = {k. k div 32 < length buf \<and> bit (buf ! (k div 32)) (k mod 32)}"

text \<open>The array holds the declared number of bits.\<close>

definition bitmap_ok :: "RTL_BITMAP \<Rightarrow> bool" where
  "bitmap_ok bm = (case Buffer bm of None \<Rightarrow> True | Some buf \<Rightarrow> SizeOfBitMap bm \<le> 32 * length buf)"

definition set_bits_of :: "RTL_BITMAP \<Rightarrow> nat set" where
  "set_bits_of bm = (case Buffer bm of None \<Rightarrow> {} | Some buf \<Rightarrow> bits_of buf)"

lemma bit_push_bit_one:
  assumes "m < 32" "n < 32"
  shows "bit (push_bit n (1 :: u32)) m \<longleftrightarrow> m = n"
proof -
  have "push_bit n (1 :: u32) = 2 ^ n" by (simp add: push_bit_eq_mult)
  then show ?thesis using assms by (auto simp: bit_exp_iff possible_bit_word)
qed

lemma bits_of_set:
  assumes "i div 32 < length buf"
  shows "bits_of (buf[i div 32 := buf ! (i div 32) OR push_bit (i mod 32) 1]) = insert i (bits_of buf)"
proof (rule set_eqI)
  fix k
  show "k \<in> bits_of (buf[i div 32 := buf ! (i div 32) OR push_bit (i mod 32) 1]) \<longleftrightarrow> k \<in> insert i (bits_of buf)"
  proof (cases "k div 32 = i div 32")
    case True
    have "k = i \<longleftrightarrow> k mod 32 = i mod 32" using True by (metis div_mult_mod_eq)
    moreover have "bit (push_bit (i mod 32) (1 :: u32)) (k mod 32) \<longleftrightarrow> k mod 32 = i mod 32"
      by (rule bit_push_bit_one) simp_all
    ultimately show ?thesis using True assms by (auto simp: bits_of_def bit_or_iff)
  next
    case False
    then show ?thesis by (auto simp: bits_of_def)
  qed
qed

lemma set_loop_spec:
  assumes "i + n \<le> 32 * length buf"
  shows "\<exists>buf'. set_loop buf i n = Some buf' \<and> length buf' = length buf \<and> bits_of buf' = bits_of buf \<union> {i..<i + n}"
  using assms
proof (induction n arbitrary: buf i)
  case (Suc n)
  have w: "i div 32 < length buf" using Suc.prems by (simp add: div_less_iff_less_mult)
  let ?b = "buf[i div 32 := buf ! (i div 32) OR push_bit (i mod 32) 1]"
  from Suc.IH [of "i + 1" ?b] Suc.prems obtain b' where
    "set_loop ?b (i + 1) n = Some b'" "length b' = length buf" "bits_of b' = bits_of ?b \<union> {i + 1..<i + 1 + n}" by auto
  moreover have "insert i {i + 1..<i + 1 + n} = {i..<i + Suc n}" by auto
  ultimately show ?case using w bits_of_set [OF w] by auto
qed simp

lemma test_loop_spec:
  assumes "i + n \<le> 32 * length buf"
  shows "test_loop bad buf i n = Some (\<forall>k \<in> {i..<i + n}. (k \<in> bits_of buf) \<noteq> bad)"
  using assms
proof (induction n arbitrary: i)
  case (Suc n)
  have w: "i div 32 < length buf" using Suc.prems by (simp add: div_less_iff_less_mult)
  have "buf ! (i div 32) AND push_bit (i mod 32) 1 \<noteq> 0 \<longleftrightarrow> i \<in> bits_of buf"
    using w by (simp only: bits_of_def bit_iff_and_push_bit_not_eq_0 mem_Collect_eq simp_thms)
  moreover have "{i..<i + Suc n} = insert i {i + 1..<i + 1 + n}" by auto
  ultimately show ?case using w Suc.IH [of "i + 1"] Suc.prems by (auto simp: Let_def)
qed simp

text \<open>
  On a bit map whose array holds its declared size, the word-wise routines implement the set
  of bits: setting a range, cut off at the size, adds exactly that range and never leaves the
  array; a non-empty range inside the map is reported set, or clear, exactly when all its bits are
  in the set, or outside it; and every other query is answered FALSE.
\<close>

theorem bitmap_refines_set:
  assumes "bitmap_ok bm"
  shows "(\<exists>bm'. RtlSetBits (Some bm) i n = Some (Some bm') \<and> bitmap_ok bm' \<and> SizeOfBitMap bm' = SizeOfBitMap bm \<and>
      set_bits_of bm' = set_bits_of bm \<union> (if Buffer bm = None then {} else {i..<min (i + n) (SizeOfBitMap bm)})) \<and>
    RtlAreBitsSet (Some bm) i n = Some (Buffer bm \<noteq> None \<and> 0 < n \<and> i + n \<le> SizeOfBitMap bm \<and> {i..<i + n} \<subseteq> set_bits_of bm) \<and>
    RtlAreBitsClear (Some bm) i n = Some (Buffer bm \<noteq> None \<and> 0 < n \<and> i + n \<le> SizeOfBitMap bm \<and> {i..<i + n} \<inter> set_bits_of bm = {})"
proof (cases "Buffer bm")
  case None
  then show ?thesis by (simp add: RtlSetBits_def RtlAreBitsSet_def RtlAreBitsClear_def are_bits_def assms set_bits_of_def)
next
  case (Some buf)
  have sz: "SizeOfBitMap bm \<le> 32 * length buf" using assms Some by (simp add: bitmap_ok_def)
  have q: "are_bits bad (Some bm) i n = Some (0 < n \<and> i + n \<le> SizeOfBitMap bm \<and> (\<forall>k \<in> {i..<i + n}. (k \<in> bits_of buf) \<noteq> bad))" for bad
  proof (cases "n = 0 \<or> i \<ge> SizeOfBitMap bm \<or> n > SizeOfBitMap bm - i")
    case True
    then show ?thesis using Some by (auto simp: are_bits_def)
  next
    case False
    then show ?thesis using Some sz test_loop_spec [of i n buf bad] by (auto simp: are_bits_def)
  qed
  have "\<exists>bm'. RtlSetBits (Some bm) i n = Some (Some bm') \<and> bitmap_ok bm' \<and> SizeOfBitMap bm' = SizeOfBitMap bm \<and>
      set_bits_of bm' = set_bits_of bm \<union> {i..<min (i + n) (SizeOfBitMap bm)}"
  proof (cases "n = 0 \<or> i \<ge> SizeOfBitMap bm")
    case True
    then show ?thesis using Some assms by (auto simp: RtlSetBits_def)
  next
    case False
    define l where "l = (if n > SizeOfBitMap bm - i then SizeOfBitMap bm - i else n)"
    have il: "i + l = min (i + n) (SizeOfBitMap bm)" using False by (auto simp: l_def)
    have "i + l \<le> 32 * length buf" using il sz by simp
    from set_loop_spec [OF this] obtain b' where b: "set_loop buf i l = Some b'" "length b' = length buf"
      "bits_of b' = bits_of buf \<union> {i..<i + l}" by blast
    have "RtlSetBits (Some bm) i n = Some (Some (bm\<lparr>Buffer := Some b'\<rparr>))"
      using False Some b(1) by (simp add: RtlSetBits_def l_def Let_def)
    then show ?thesis using b(2,3) sz Some unfolding il by (simp add: bitmap_ok_def set_bits_of_def)
  qed
  with Some show ?thesis unfolding RtlAreBitsSet_def RtlAreBitsClear_def q by (auto simp: set_bits_of_def)
qed

theorem bitmap_refines_set_witness:
  "(\<exists>bm'. RtlSetBits (Some demo_bitmap) 30 100 = Some (Some bm') \<and>
      {30..<40} \<subseteq> set_bits_of bm')"
proof -
  have "bitmap_ok demo_bitmap" by (simp add: bitmap_ok_def demo_bitmap_def)
  from bitmap_refines_set [OF this, of 30 100] show ?thesis
    by (auto simp: demo_bitmap_def)
qed

end
