(* ===== verification/Tls_Slots.thy ===== *)
theory Tls_Slots
  imports Error_Codes "HOL-Library.While_Combinator"
begin

text \<open>
  Thread-local storage (\<^verbatim>\<open>src/src/tls.cpp\<close> and the \<^verbatim>\<open>Tls\<close> calls of
  \<^verbatim>\<open>src/dll/kernel32/processthreadsapi.cpp\<close>): the table of slots, the 64 slots inside each thread's
  TEB, the expansion arrays for further slots, and the arrays of module pointers, which grow for all threads at
  once. The arrays live in an explicit store with \<open>guestMalloc\<close> as a parameter; freeing an array that
  is not live sets \<open>fault\<close>. Every function runs under \<^verbatim>\<open>g_tlsMutex\<close>, so a call is one step.
\<close>

section \<open>Data\<close>

text \<open>A TEB is named by its address, and 0 is the null pointer. The slot pointers are guest addresses.\<close>

record TEB =
  TlsSlots :: "u32 list"
  TlsExpansionSlots :: nat
  ThreadLocalStoragePointer :: nat

definition kTlsSlotCount :: nat where "kTlsSlotCount = 64"

definition kTlsMaxSlotCount :: nat where "kTlsMaxSlotCount = 1088"

definition kMaxExpansionSlots :: nat where "kMaxExpansionSlots = kTlsMaxSlotCount - kTlsSlotCount"

definition kInvalidTlsIndex :: nat where "kInvalidTlsIndex = 0xFFFFFFFF"

text \<open>
  The store of \<^verbatim>\<open>TlsArray\<close>s: the address of a live array and its slots, whose number is the
  \<^verbatim>\<open>capacity\<close> field. \<open>allocs\<close> counts the calls of \<open>guestMalloc\<close>, so that the parameter may answer
  each call differently.
\<close>

record ArrayStore =
  arrays :: "nat \<Rightarrow> u32 list option"
  allocs :: nat
  fault :: bool

record TlsState =
  g_slotUsed :: "bool list"
  g_activeTibs :: "nat list"
  g_expansionCapacity :: nat
  g_moduleArrays :: "nat \<Rightarrow> nat option"
  g_moduleGarbage :: "nat \<Rightarrow> nat list option"
  g_moduleArrayCapacity :: nat
  tebs :: "nat \<Rightarrow> TEB"
  store :: ArrayStore

text \<open>The \<open>n\<close>-th call of \<open>guestMalloc\<close>, with the live arrays and the number of bytes.\<close>

type_synonym guest_malloc = "nat \<Rightarrow> (nat \<Rightarrow> u32 list option) \<Rightarrow> nat \<Rightarrow> nat option"

definition tls_initial :: TlsState where
  "tls_initial =
     \<lparr>g_slotUsed = replicate kTlsMaxSlotCount False, g_activeTibs = [], g_expansionCapacity = 0,
      g_moduleArrays = (\<lambda>_. None), g_moduleGarbage = (\<lambda>_. None), g_moduleArrayCapacity = 0,
      tebs = (\<lambda>_. \<lparr>TlsSlots = replicate kTlsSlotCount 0, TlsExpansionSlots = 0, ThreadLocalStoragePointer = 0\<rparr>),
      store = \<lparr>arrays = (\<lambda>_. None), allocs = 0, fault = False\<rparr>\<rparr>"

section \<open>Arrays\<close>

text \<open>\<^verbatim>\<open>sizeof(TlsArray)\<close>, which is \<^verbatim>\<open>offsetof(TlsArray, slots)\<close>: one \<^verbatim>\<open>size_t\<close> of the 32-bit build.\<close>

definition slotsOffset :: nat where "slotsOffset = 4"

definition allocateTlsArray :: "guest_malloc \<Rightarrow> nat \<Rightarrow> TlsState \<Rightarrow> nat option \<times> TlsState" where
  "allocateTlsArray gm capacity s =
     (if capacity = 0 \<or> capacity > kMaxExpansionSlots then (None, s)
      else let st = store s; s' = s\<lparr>store := st\<lparr>allocs := allocs st + 1\<rparr>\<rparr> in
           (case gm (allocs st) (arrays st) (slotsOffset + capacity * 4) of
              None \<Rightarrow> (None, s')
            | Some a \<Rightarrow> (Some a, s\<lparr>store := st\<lparr>allocs := allocs st + 1, arrays := (arrays st)(a \<mapsto> replicate capacity 0)\<rparr>\<rparr>)))"

definition guestFree :: "nat \<Rightarrow> TlsState \<Rightarrow> TlsState" where
  "guestFree a s =
     (let st = store s in
      s\<lparr>store := st\<lparr>arrays := (arrays st)(a := None), fault := fault st \<or> arrays st a = None\<rparr>\<rparr>)"

definition slots_of :: "TlsState \<Rightarrow> nat \<Rightarrow> u32 list" where
  "slots_of s a = (case arrays (store s) a of None \<Rightarrow> [] | Some xs \<Rightarrow> xs)"

definition capacity_of :: "TlsState \<Rightarrow> nat option \<Rightarrow> nat" where
  "capacity_of s arr = (case arr of None \<Rightarrow> 0 | Some a \<Rightarrow> length (slots_of s a))"

text \<open>A write through an array pointer.\<close>

definition put_slots :: "nat \<Rightarrow> u32 list \<Rightarrow> TlsState \<Rightarrow> TlsState" where
  "put_slots a xs s = s\<lparr>store := (store s)\<lparr>arrays := (arrays (store s))(a \<mapsto> xs)\<rparr>\<rparr>"

definition set_teb :: "nat \<Rightarrow> TEB \<Rightarrow> TlsState \<Rightarrow> TlsState" where
  "set_teb tib t s = s\<lparr>tebs := (tebs s)(tib := t)\<rparr>"

definition arrayFromSlots :: "nat \<Rightarrow> nat option" where
  "arrayFromSlots slots = (if slots \<noteq> 0 then Some (slots - slotsOffset) else None)"

definition getExpansionArray :: "nat \<Rightarrow> TlsState \<Rightarrow> nat option" where
  "getExpansionArray tib s = (if tib = 0 then None else arrayFromSlots (TlsExpansionSlots (tebs s tib)))"

definition setExpansionArray :: "nat \<Rightarrow> nat option \<Rightarrow> TlsState \<Rightarrow> TlsState" where
  "setExpansionArray tib arr s =
     (if tib = 0 then s
      else set_teb tib ((tebs s tib)\<lparr>TlsExpansionSlots := (case arr of None \<Rightarrow> 0 | Some a \<Rightarrow> a + slotsOffset)\<rparr>) s)"

definition getModuleArray :: "nat \<Rightarrow> TlsState \<Rightarrow> nat option \<times> TlsState" where
  "getModuleArray tib s =
     (if tib = 0 then (None, s)
      else case g_moduleArrays s tib of
             Some a \<Rightarrow> (Some a, s)
           | None \<Rightarrow>
               (case arrayFromSlots (ThreadLocalStoragePointer (tebs s tib)) of
                  None \<Rightarrow> (None, s)
                | Some a \<Rightarrow> (Some a, s\<lparr>g_moduleArrays := (g_moduleArrays s)(tib \<mapsto> a)\<rparr>)))"

definition setModuleArray :: "nat \<Rightarrow> nat \<Rightarrow> TlsState \<Rightarrow> TlsState" where
  "setModuleArray tib a s =
     (let s = s\<lparr>g_moduleArrays := (g_moduleArrays s)(tib \<mapsto> a)\<rparr> in
      set_teb tib ((tebs s tib)\<lparr>ThreadLocalStoragePointer := a + slotsOffset\<rparr>) s)"

definition queueOldModuleArray :: "nat \<Rightarrow> nat \<Rightarrow> TlsState \<Rightarrow> TlsState" where
  "queueOldModuleArray tib a s =
     (if tib = 0 then s
      else s\<lparr>g_moduleGarbage := (g_moduleGarbage s)
             (tib \<mapsto> (case g_moduleGarbage s tib of None \<Rightarrow> [] | Some xs \<Rightarrow> xs) @ [a])\<rparr>)"

section \<open>Growing\<close>

text \<open>\<^verbatim>\<open>size_t\<close> is 32 bits wide; \<open>chooseCapacity\<close> and the module capacity double with the wrap-around written out.\<close>

definition doubled :: "nat \<Rightarrow> nat" where "doubled c = (c * 2) mod 2 ^ 32"

definition grow_capacity :: "nat \<Rightarrow> nat \<Rightarrow> nat" where
  "grow_capacity required capacity =
     while (\<lambda>c. c < required)
       (\<lambda>c. let nxt = doubled c in if nxt \<le> c \<or> nxt > kMaxExpansionSlots then kMaxExpansionSlots else nxt) capacity"

definition chooseCapacity :: "nat \<Rightarrow> nat \<Rightarrow> nat" where
  "chooseCapacity current required =
     (if required = 0 then current
      else if required > kMaxExpansionSlots then 0
      else let capacity = grow_capacity required (if current = 0 then 1 else current);
               capacity = (if capacity > kMaxExpansionSlots then kMaxExpansionSlots else capacity)
           in if capacity < required then 0 else capacity)"

function module_target :: "nat \<Rightarrow> nat \<Rightarrow> nat" where
  "module_target required target =
     (if target < required then
        let nxt = doubled target in
        if nxt \<le> target then required else module_target required (max nxt required)
      else target)"
  by pat_completeness auto
termination by (relation "measure (\<lambda>(required, target). required - target)") auto

text \<open>The record \<^verbatim>\<open>PendingResize\<close>: the TEB, its old and its new array.\<close>

type_synonym pending = "nat \<times> nat option \<times> nat"

fun free_all :: "nat list \<Rightarrow> TlsState \<Rightarrow> TlsState" where
  "free_all [] s = s"
| "free_all (a # as) s = free_all as (guestFree a s)"

text \<open>\<^verbatim>\<open>std::copy_n\<close> of the common prefix, into the zeroed new array.\<close>

definition copied :: "u32 list \<Rightarrow> nat \<Rightarrow> u32 list" where
  "copied xs target = take target xs @ replicate (target - length xs) 0"

text \<open>
  The first loop of both resizing functions: a larger array for every TEB that needs one, or, if an
  allocation fails, none at all. \<open>get\<close> is \<open>getExpansionArray\<close> or \<open>getModuleArray\<close>.
\<close>

fun resize_loop :: "guest_malloc \<Rightarrow> (nat \<Rightarrow> TlsState \<Rightarrow> nat option \<times> TlsState) \<Rightarrow> nat \<Rightarrow> nat list \<Rightarrow> pending list \<Rightarrow>
    TlsState \<Rightarrow> (pending list) option \<times> TlsState" where
  "resize_loop gm get target [] pend s = (Some pend, s)"
| "resize_loop gm get target (tib # tibs) pend s =
     (let (curr, s1) = get tib s in
      if capacity_of s1 curr \<ge> target then resize_loop gm get target tibs pend s1
      else case allocateTlsArray gm target s1 of
             (None, s2) \<Rightarrow> (None, free_all (map (snd \<circ> snd) pend) s2)
           | (Some a, s2) \<Rightarrow>
               let s3 = (case curr of None \<Rightarrow> s2 | Some c \<Rightarrow> put_slots a (copied (slots_of s2 c) target) s2) in
               resize_loop gm get target tibs (pend @ [(tib, curr, a)]) s3)"

fun install_expansion :: "pending list \<Rightarrow> TlsState \<Rightarrow> TlsState" where
  "install_expansion [] s = s"
| "install_expansion ((tib, old, a) # ps) s = install_expansion ps (setExpansionArray tib (Some a) s)"

definition old_arrays :: "pending list \<Rightarrow> nat list" where
  "old_arrays ps = List.map_filter (\<lambda>(tib, old, a). old) ps"

definition ensureGlobalExpansionCapacityLocked :: "guest_malloc \<Rightarrow> nat \<Rightarrow> TlsState \<Rightarrow> bool \<times> TlsState" where
  "ensureGlobalExpansionCapacityLocked gm required s =
     (if required = 0 then (True, s)
      else if required \<le> g_expansionCapacity s then (True, s)
      else let target = chooseCapacity (g_expansionCapacity s) required in
           if target = 0 then (False, s)
           else case resize_loop gm (\<lambda>tib s. (getExpansionArray tib s, s)) target (g_activeTibs s) [] s of
                  (None, s') \<Rightarrow> (False, s')
                | (Some ps, s') \<Rightarrow>
                    (True, (free_all (old_arrays ps) (install_expansion ps s'))\<lparr>g_expansionCapacity := target\<rparr>))"

fun install_modules :: "pending list \<Rightarrow> TlsState \<Rightarrow> TlsState" where
  "install_modules [] s = s"
| "install_modules ((tib, old, a) # ps) s =
     (let s = setModuleArray tib a s;
          s = (case old of None \<Rightarrow> s | Some o' \<Rightarrow> queueOldModuleArray tib o' s)
      in install_modules ps s)"

definition ensureModuleArrayCapacityLocked :: "guest_malloc \<Rightarrow> nat \<Rightarrow> TlsState \<Rightarrow> bool \<times> TlsState" where
  "ensureModuleArrayCapacityLocked gm required s =
     (if required = 0 then (True, s)
      else if required \<le> g_moduleArrayCapacity s then (True, s)
      else let target = module_target required (if g_moduleArrayCapacity s \<noteq> 0 then g_moduleArrayCapacity s else 1) in
           case resize_loop gm getModuleArray target (g_activeTibs s) [] s of
             (None, s') \<Rightarrow> (False, s')
           | (Some ps, s') \<Rightarrow> (True, (install_modules ps s')\<lparr>g_moduleArrayCapacity := target\<rparr>))"

section \<open>Slots\<close>

fun zero_teb_slots :: "nat \<Rightarrow> nat list \<Rightarrow> TlsState \<Rightarrow> TlsState" where
  "zero_teb_slots index [] s = s"
| "zero_teb_slots index (tib # tibs) s =
     zero_teb_slots index tibs (set_teb tib ((tebs s tib)\<lparr>TlsSlots := (TlsSlots (tebs s tib))[index := 0]\<rparr>) s)"

fun zero_expansion_slots :: "nat \<Rightarrow> nat list \<Rightarrow> TlsState \<Rightarrow> TlsState" where
  "zero_expansion_slots index [] s = s"
| "zero_expansion_slots index (tib # tibs) s =
     zero_expansion_slots index tibs
       (case getExpansionArray tib s of
          None \<Rightarrow> s
        | Some a \<Rightarrow> if index \<ge> capacity_of s (Some a) then s else put_slots a ((slots_of s a)[index := 0]) s)"

definition zeroSlotForAllTibs :: "nat \<Rightarrow> TlsState \<Rightarrow> TlsState" where
  "zeroSlotForAllTibs index s =
     (if index < kTlsSlotCount then zero_teb_slots index (g_activeTibs s) s
      else zero_expansion_slots (index - kTlsSlotCount) (g_activeTibs s) s)"

definition initializeTib :: "guest_malloc \<Rightarrow> nat \<Rightarrow> TlsState \<Rightarrow> TlsState" where
  "initializeTib gm tib s =
     (if tib = 0 then s
      else if tib \<in> set (g_activeTibs s) then s
      else let s = s\<lparr>g_activeTibs := g_activeTibs s @ [tib]\<rparr>;
               s = (if g_expansionCapacity s > 0 \<and> getExpansionArray tib s = None then
                      case allocateTlsArray gm (g_expansionCapacity s) s of
                        (None, s') \<Rightarrow> s' | (Some a, s') \<Rightarrow> setExpansionArray tib (Some a) s'
                    else s)
           in if g_moduleArrayCapacity s > 0 then
                case getModuleArray tib s of
                  (Some _, s') \<Rightarrow> s'
                | (None, s') \<Rightarrow>
                    (case allocateTlsArray gm (g_moduleArrayCapacity s') s' of
                       (None, s'') \<Rightarrow> s'' | (Some a, s'') \<Rightarrow> setModuleArray tib a s'')
              else s)"

definition cleanupTib :: "nat \<Rightarrow> TlsState \<Rightarrow> TlsState" where
  "cleanupTib tib s =
     (if tib = 0 then s
      else let s = (case getExpansionArray tib s of
                      None \<Rightarrow> s | Some a \<Rightarrow> setExpansionArray tib None (guestFree a s));
               s = (case getModuleArray tib s of
                      (None, s') \<Rightarrow> s'
                    | (Some a, s') \<Rightarrow> guestFree a (s'\<lparr>g_moduleArrays := (g_moduleArrays s')(tib := None)\<rparr>));
               s = (case g_moduleGarbage s tib of
                      None \<Rightarrow> s
                    | Some olds \<Rightarrow> (free_all olds s)\<lparr>g_moduleGarbage := (g_moduleGarbage s)(tib := None)\<rparr>);
               s = set_teb tib ((tebs s tib)\<lparr>ThreadLocalStoragePointer := 0\<rparr>) s
           in s\<lparr>g_activeTibs := remove1 tib (g_activeTibs s)\<rparr>)"

fun reserve_loop :: "guest_malloc \<Rightarrow> nat list \<Rightarrow> TlsState \<Rightarrow> nat \<times> TlsState" where
  "reserve_loop gm [] s = (kInvalidTlsIndex, s)"
| "reserve_loop gm (index # is) s =
     (if g_slotUsed s ! index then reserve_loop gm is s
      else let (ok, s1) = (if index \<ge> kTlsSlotCount
                           then ensureGlobalExpansionCapacityLocked gm (index - kTlsSlotCount + 1) s else (True, s)) in
           if \<not> ok then (kInvalidTlsIndex, s1)
           else (index, zeroSlotForAllTibs index (s1\<lparr>g_slotUsed := (g_slotUsed s1)[index := True]\<rparr>)))"

definition reserveSlot :: "guest_malloc \<Rightarrow> TlsState \<Rightarrow> nat \<times> TlsState" where
  "reserveSlot gm s = reserve_loop gm [0..<kTlsMaxSlotCount] s"

definition releaseSlot :: "nat \<Rightarrow> TlsState \<Rightarrow> bool \<times> TlsState" where
  "releaseSlot index s =
     (if index \<ge> kTlsMaxSlotCount then (False, s)
      else if \<not> g_slotUsed s ! index then (False, s)
      else (True, zeroSlotForAllTibs index (s\<lparr>g_slotUsed := (g_slotUsed s)[index := False]\<rparr>)))"

definition isSlotAllocated :: "nat \<Rightarrow> TlsState \<Rightarrow> bool" where
  "isSlotAllocated index s \<longleftrightarrow> index < kTlsMaxSlotCount \<and> g_slotUsed s ! index"

definition getValue :: "nat \<Rightarrow> nat \<Rightarrow> TlsState \<Rightarrow> u32" where
  "getValue tib index s =
     (if tib = 0 \<or> index \<ge> kTlsMaxSlotCount then 0
      else if index < kTlsSlotCount then TlsSlots (tebs s tib) ! index
      else case getExpansionArray tib s of
             None \<Rightarrow> 0
           | Some a \<Rightarrow>
               let expansionIndex = index - kTlsSlotCount in
               if expansionIndex \<ge> capacity_of s (Some a) then 0 else slots_of s a ! expansionIndex)"

definition setValue :: "guest_malloc \<Rightarrow> nat \<Rightarrow> nat \<Rightarrow> u32 \<Rightarrow> TlsState \<Rightarrow> bool \<times> TlsState" where
  "setValue gm tib index v s =
     (if tib = 0 \<or> index \<ge> kTlsMaxSlotCount then (False, s)
      else if index < kTlsSlotCount then
        (True, set_teb tib ((tebs s tib)\<lparr>TlsSlots := (TlsSlots (tebs s tib))[index := v]\<rparr>) s)
      else let expansionIndex = index - kTlsSlotCount;
               arr = getExpansionArray tib s;
               (ok, s1) = (if arr = None \<or> expansionIndex \<ge> capacity_of s arr
                           then ensureGlobalExpansionCapacityLocked gm (expansionIndex + 1) s else (True, s)) in
           if \<not> ok then (False, s1)
           else case getExpansionArray tib s1 of
                  None \<Rightarrow> (False, s1)
                | Some a \<Rightarrow>
                    if expansionIndex \<ge> capacity_of s1 (Some a) then (False, s1)
                    else (True, put_slots a ((slots_of s1 a)[expansionIndex := v]) s1))"

section \<open>Module pointers\<close>

definition ensureModulePointerCapacity :: "guest_malloc \<Rightarrow> nat \<Rightarrow> TlsState \<Rightarrow> bool \<times> TlsState" where
  "ensureModulePointerCapacity = ensureModuleArrayCapacityLocked"

definition setModulePointer :: "guest_malloc \<Rightarrow> nat \<Rightarrow> nat \<Rightarrow> u32 \<Rightarrow> TlsState \<Rightarrow> bool \<times> TlsState" where
  "setModulePointer gm tib index v s =
     (if tib = 0 then (False, s)
      else case ensureModuleArrayCapacityLocked gm ((index + 1) mod 2 ^ 32) s of
             (False, s1) \<Rightarrow> (False, s1)
           | (True, s1) \<Rightarrow>
               (case getModuleArray tib s1 of
                  (None, s2) \<Rightarrow> (False, s2)
                | (Some a, s2) \<Rightarrow>
                    if index \<ge> capacity_of s2 (Some a) then (False, s2)
                    else let s3 = put_slots a ((slots_of s2 a)[index := v]) s2 in
                         (True, set_teb tib ((tebs s3 tib)\<lparr>ThreadLocalStoragePointer := a + slotsOffset\<rparr>) s3)))"

definition clearModulePointer :: "nat \<Rightarrow> nat \<Rightarrow> TlsState \<Rightarrow> TlsState" where
  "clearModulePointer tib index s =
     (if tib = 0 then s
      else case getModuleArray tib s of
             (None, s1) \<Rightarrow> s1
           | (Some a, s1) \<Rightarrow>
               if index \<ge> capacity_of s1 (Some a) then s1 else put_slots a ((slots_of s1 a)[index := 0]) s1)"

section \<open>The calls of kernel32\<close>

text \<open>Each gives the last error with its result; \<open>tib\<close> is \<^verbatim>\<open>currentThreadTeb\<close>.\<close>

definition TlsAlloc :: "guest_malloc \<Rightarrow> TlsState \<Rightarrow> nat \<times> u32 \<times> TlsState" where
  "TlsAlloc gm s =
     (case reserveSlot gm s of
        (index, s') \<Rightarrow> if index = kInvalidTlsIndex then (0xFFFFFFFF, ERROR_NOT_ENOUGH_MEMORY, s') else (index, ERROR_SUCCESS, s'))"

definition TlsFree :: "nat \<Rightarrow> TlsState \<Rightarrow> bool \<times> u32 \<times> TlsState" where
  "TlsFree dwTlsIndex s =
     (case releaseSlot dwTlsIndex s of
        (False, s') \<Rightarrow> (False, ERROR_INVALID_PARAMETER, s')
      | (True, s') \<Rightarrow> (True, ERROR_SUCCESS, s'))"

definition TlsGetValue :: "nat \<Rightarrow> nat \<Rightarrow> TlsState \<Rightarrow> u32 \<times> u32" where
  "TlsGetValue tib dwTlsIndex s =
     (if \<not> isSlotAllocated dwTlsIndex s then (0, ERROR_INVALID_PARAMETER)
      else (getValue tib dwTlsIndex s, ERROR_SUCCESS))"

definition TlsSetValue :: "guest_malloc \<Rightarrow> nat \<Rightarrow> nat \<Rightarrow> u32 \<Rightarrow> TlsState \<Rightarrow> bool \<times> u32 \<times> TlsState" where
  "TlsSetValue gm tib dwTlsIndex v s =
     (if \<not> isSlotAllocated dwTlsIndex s then (False, ERROR_INVALID_PARAMETER, s)
      else case setValue gm tib dwTlsIndex v s of
             (False, s') \<Rightarrow> (False, ERROR_INVALID_PARAMETER, s')
           | (True, s') \<Rightarrow> (True, ERROR_SUCCESS, s'))"

end
