(* ===== verification/Tls_Invariant.thy ===== *)
theory Tls_Invariant
  imports Tls_Slots
begin

text \<open>
  The invariant of thread-local storage, which every operation of \<^verbatim>\<open>src/src/tls.cpp\<close> keeps: the
  arrays are owned by exactly one thread each, none is lost, freed twice or used after it was freed;
  with what each operation does to the values of the slots and of the module pointers.
\<close>

section \<open>Ownership of arrays\<close>

text \<open>Every live array is named by exactly one thread, once.\<close>

definition owned :: "(nat \<Rightarrow> u32 list option) \<Rightarrow> (nat \<Rightarrow> nat list) \<Rightarrow> bool" where
  "owned h R \<longleftrightarrow> (\<forall>t. distinct (R t)) \<and> (\<forall>t u. t \<noteq> u \<longrightarrow> set (R t) \<inter> set (R u) = {}) \<and>
     dom h = (\<Union>t. set (R t))"

text \<open>\<open>N t\<close> are the new arrays of a thread and \<open>D t\<close> those it gives up.\<close>

lemma owned_change:
  assumes "owned h R" and "\<And>t. distinct (R' t)" and "\<And>t. set (R' t) = N t \<union> (set (R t) - D t)"
    and "\<And>t u. t \<noteq> u \<Longrightarrow> N t \<inter> N u = {}" and "\<And>t. N t \<inter> dom h = {}" and "\<And>t. D t \<subseteq> set (R t)"
    and "dom h' = (dom h \<union> (\<Union>t. N t)) - (\<Union>t. D t)"
  shows "owned h' R'"
proof -
  have dj: "\<And>t u. t \<noteq> u \<Longrightarrow> set (R t) \<inter> set (R u) = {}" and dm: "dom h = (\<Union>t. set (R t))"
    using assms(1) by (auto simp: owned_def)
  have sub: "set (R t) \<subseteq> dom h" for t using dm by blast
  have "set (R' t) \<inter> set (R' u) = {}" if "t \<noteq> u" for t u
  proof -
    have "N t \<inter> set (R u) = {}" "set (R t) \<inter> N u = {}"
      using assms(5) [of t] assms(5) [of u] sub [of t] sub [of u] by (simp_all add: disjoint_iff subset_iff) metis+
    then show ?thesis using dj [OF that] assms(4) [OF that] unfolding assms(3) disjoint_iff by blast
  qed
  moreover have "dom h' = (\<Union>t. set (R' t))"
  proof (rule set_eqI)
    fix a
    have "a \<in> (\<Union>t. set (R' t)) \<longleftrightarrow> (\<exists>t. a \<in> N t) \<or> (\<exists>t. a \<in> set (R t) \<and> a \<notin> D t)" unfolding assms(3) by blast
    moreover have "a \<in> dom h' \<longleftrightarrow> ((\<exists>t. a \<in> set (R t)) \<or> (\<exists>t. a \<in> N t)) \<and> (\<forall>t. a \<notin> D t)"
      unfolding assms(7) dm by blast
    moreover have "a \<notin> D u" if "a \<in> N t" for t u using that assms(5) [of t] assms(6) [of u] sub [of u] by blast
    moreover have "a \<notin> D u" if "a \<in> set (R t)" "a \<notin> D t" for t u
      using that dj [of t u] assms(6) [of u] by blast
    ultimately show "a \<in> dom h' \<longleftrightarrow> a \<in> (\<Union>t. set (R' t))" using assms(6) by blast
  qed
  ultimately show ?thesis using assms(2) by (simp add: owned_def)
qed

lemma owned_same_dom: "owned h R \<Longrightarrow> dom h' = dom h \<Longrightarrow> owned h' R"
  by (simp add: owned_def)

fun opt_list :: "'a option \<Rightarrow> 'a list" where
  "opt_list None = []"
| "opt_list (Some x) = [x]"

definition exp_arr :: "TlsState \<Rightarrow> nat \<Rightarrow> nat option" where
  "exp_arr s t = arrayFromSlots (TlsExpansionSlots (tebs s t))"

definition garbage :: "TlsState \<Rightarrow> nat \<Rightarrow> nat list" where
  "garbage s t = (case g_moduleGarbage s t of None \<Rightarrow> [] | Some xs \<Rightarrow> xs)"

definition refs :: "TlsState \<Rightarrow> nat \<Rightarrow> nat list" where
  "refs s t = opt_list (exp_arr s t) @ opt_list (g_moduleArrays s t) @ garbage s t"

definition tls_inv :: "TlsState \<Rightarrow> bool" where
  "tls_inv s \<longleftrightarrow>
     \<not> fault (store s) \<and> owned (arrays (store s)) (refs s) \<and>
     distinct (g_activeTibs s) \<and> 0 \<notin> set (g_activeTibs s) \<and>
     length (g_slotUsed s) = kTlsMaxSlotCount \<and> g_expansionCapacity s \<le> kMaxExpansionSlots \<and>
     (\<forall>t. length (TlsSlots (tebs s t)) = kTlsSlotCount) \<and>
     (\<forall>t. t \<notin> set (g_activeTibs s) \<longrightarrow> refs s t = []) \<and>
     (\<forall>t. g_moduleArrays s t = arrayFromSlots (ThreadLocalStoragePointer (tebs s t))) \<and>
     (\<forall>t a. exp_arr s t = Some a \<longrightarrow> length (slots_of s a) = g_expansionCapacity s) \<and>
     (\<forall>t a. g_moduleArrays s t = Some a \<longrightarrow> length (slots_of s a) = g_moduleArrayCapacity s)"

text \<open>What the callers rely on: \<open>guestMalloc\<close> never returns an address that is in use.\<close>

definition fresh_malloc :: "guest_malloc \<Rightarrow> bool" where
  "fresh_malloc gm \<longleftrightarrow> (\<forall>n h b a. gm n h b = Some a \<longrightarrow> h a = None)"

section \<open>Capacities\<close>

lemma grow_capacity_spec:
  assumes "required \<le> kMaxExpansionSlots" "0 < c" "c \<le> kMaxExpansionSlots"
  shows "required \<le> grow_capacity required c \<and> grow_capacity required c \<le> kMaxExpansionSlots \<and> c \<le> grow_capacity required c"
proof -
  let ?P = "\<lambda>x. c \<le> x \<and> x \<le> kMaxExpansionSlots"
  let ?b = "\<lambda>x. let nxt = doubled x in if nxt \<le> x \<or> nxt > kMaxExpansionSlots then kMaxExpansionSlots else nxt"
  have step: "?P (?b x) \<and> x < ?b x" if "?P x" "x < required" for x
    using that assms by (auto simp: Let_def)
  have "?P (while (\<lambda>x. x < required) ?b c) \<and> \<not> while (\<lambda>x. x < required) ?b c < required"
  proof (rule while_rule [where P = ?P and r = "measure (\<lambda>x. required - x)"])
    show "?P c" using assms by simp
  next
    fix x assume "?P x" "x < required"
    then show "?P (?b x)" using step by blast
  next
    fix x assume "?P x" "\<not> x < required"
    then show "?P x \<and> \<not> x < required" by blast
  next
    show "wf (measure (\<lambda>x. required - x))" by simp
  next
    fix x assume "?P x" "x < required"
    then have "x < ?b x" using step by blast
    then show "(?b x, x) \<in> measure (\<lambda>x. required - x)" using \<open>x < required\<close> by (simp add: diff_less_mono2)
  qed
  then show ?thesis by (simp add: grow_capacity_def)
qed

lemma chooseCapacity_spec:
  assumes "required \<le> kMaxExpansionSlots" "0 < required" "current \<le> kMaxExpansionSlots"
  shows "required \<le> chooseCapacity current required \<and> chooseCapacity current required \<le> kMaxExpansionSlots"
proof -
  have k: "0 < kMaxExpansionSlots" by (simp add: kMaxExpansionSlots_def kTlsMaxSlotCount_def kTlsSlotCount_def)
  let ?c = "if current = 0 then 1 else current"
  have "0 < ?c" "?c \<le> kMaxExpansionSlots" using assms(3) k by auto
  from grow_capacity_spec [OF assms(1) this] show ?thesis
    using assms unfolding chooseCapacity_def Let_def by auto
qed

lemma chooseCapacity_large: "kMaxExpansionSlots < required \<Longrightarrow> chooseCapacity current required = 0"
  by (simp add: chooseCapacity_def)

lemma module_target_ge: "required \<le> module_target required target"
  by (induction required target rule: module_target.induct) (simp add: Let_def)

section \<open>The loops\<close>

lemma free_all_spec:
  assumes "distinct as" "set as \<subseteq> dom (arrays (store s))"
  shows "free_all as s = s\<lparr>store := (store s)\<lparr>arrays := (\<lambda>a. if a \<in> set as then None else arrays (store s) a)\<rparr>\<rparr>"
  using assms
proof (induction as arbitrary: s)
  case (Cons a as)
  obtain xs where "arrays (store s) a = Some xs" using Cons.prems(2) by auto
  then have g: "guestFree a s = s\<lparr>store := (store s)\<lparr>arrays := (arrays (store s))(a := None)\<rparr>\<rparr>"
    by (simp add: guestFree_def Let_def)
  have "set as \<subseteq> dom (arrays (store (guestFree a s)))" using Cons.prems by (auto simp: g)
  from Cons.IH [OF _ this] Cons.prems(1) show ?case
    by (simp add: g) (rule arg_cong [where f = "\<lambda>f. s\<lparr>store := (store s)\<lparr>arrays := f\<rparr>\<rparr>"], auto simp: g fun_eq_iff)
qed simp

lemma allocateTlsArray_cases:
  assumes "fresh_malloc gm" "allocateTlsArray gm c s = (r, s')"
  obtains n where "r = None" "s' = s\<lparr>store := (store s)\<lparr>allocs := n\<rparr>\<rparr>"
  | a n where "r = Some a" "arrays (store s) a = None"
      "s' = s\<lparr>store := (store s)\<lparr>allocs := n, arrays := (arrays (store s))(a \<mapsto> replicate c 0)\<rparr>\<rparr>"
proof (cases "c = 0 \<or> c > kMaxExpansionSlots")
  case True
  then have "r = None" "s' = s\<lparr>store := (store s)\<lparr>allocs := allocs (store s)\<rparr>\<rparr>"
    using assms(2) by (auto simp: allocateTlsArray_def)
  then show ?thesis by (rule that(1))
next
  case False
  show ?thesis
  proof (cases "gm (allocs (store s)) (arrays (store s)) (slotsOffset + c * 4)")
    case None
    then show ?thesis using that(1) False assms(2) by (auto simp: allocateTlsArray_def Let_def)
  next
    case (Some a)
    then have "arrays (store s) a = None" using assms(1) unfolding fresh_malloc_def by blast
    moreover have "r = Some a" "s' = s\<lparr>store := (store s)\<lparr>allocs := allocs (store s) + 1, arrays := (arrays (store s))(a \<mapsto> replicate c 0)\<rparr>\<rparr>"
      using Some False assms(2) by (simp_all add: allocateTlsArray_def Let_def)
    ultimately show ?thesis by (intro that(2))
  qed
qed

text \<open>\<open>get\<close> finds the array of each thread and leaves the state alone.\<close>

definition reads :: "(nat \<Rightarrow> TlsState \<Rightarrow> nat option \<times> TlsState) \<Rightarrow> (nat \<Rightarrow> nat option) \<Rightarrow> nat set \<Rightarrow> TlsState \<Rightarrow> bool" where
  "reads get cur T s \<longleftrightarrow> (\<forall>t \<in> T. \<forall>st. get t (s\<lparr>store := st\<rparr>) = (cur t, s\<lparr>store := st\<rparr>)) \<and>
     (\<forall>t \<in> T. \<forall>a. cur t = Some a \<longrightarrow> arrays (store s) a \<noteq> None)"

definition contents :: "TlsState \<Rightarrow> nat option \<Rightarrow> u32 list" where
  "contents s arr = (case arr of None \<Rightarrow> [] | Some a \<Rightarrow> slots_of s a)"

definition news :: "pending list \<Rightarrow> nat list" where "news ps = map (snd \<circ> snd) ps"

text \<open>Every entry of the result is a fresh array with the old contents, padded with zeros.\<close>

definition resized :: "(nat \<Rightarrow> nat option) \<Rightarrow> nat \<Rightarrow> nat list \<Rightarrow> TlsState \<Rightarrow> pending list \<Rightarrow> TlsState \<Rightarrow> bool" where
  "resized cur target T s ps s' \<longleftrightarrow>
     (\<exists>st. s' = s\<lparr>store := st\<rparr>) \<and> fault (store s') = fault (store s) \<and>
     map fst ps = filter (\<lambda>t. capacity_of s (cur t) < target) T \<and>
     distinct (news ps) \<and> set (news ps) \<inter> dom (arrays (store s)) = {} \<and>
     (\<forall>(t, old, a) \<in> set ps. old = cur t \<and> arrays (store s') a = Some (copied (contents s (cur t)) target)) \<and>
     (\<forall>a. a \<notin> set (news ps) \<longrightarrow> arrays (store s') a = arrays (store s) a)"


lemma free_pending:
  assumes "distinct (news ps)" "set (news ps) \<subseteq> dom (arrays (store s))"
  shows "free_all (map (snd \<circ> snd) ps) s = s\<lparr>store := (store s)\<lparr>arrays := (\<lambda>a. if a \<in> set (news ps) then None else arrays (store s) a)\<rparr>\<rparr>"
  using free_all_spec [OF assms] by (simp add: news_def)

text \<open>One round of the loop, with the state described by \<open>resized\<close> so far.\<close>

lemma resized_step:
  assumes r: "resized cur target T s ps s1" and t: "capacity_of s (cur t) < target"
    and live: "\<And>a. cur t = Some a \<Longrightarrow> arrays (store s) a \<noteq> None"
    and a: "arrays (store s1) a = None"
    and s2: "s2 = s1\<lparr>store := (store s1)\<lparr>allocs := n, arrays := (arrays (store s1))(a \<mapsto> replicate target 0)\<rparr>\<rparr>"
    and s3: "s3 = (case cur t of None \<Rightarrow> s2 | Some c \<Rightarrow> put_slots a (copied (slots_of s2 c) target) s2)"
  shows "resized cur target (T @ [t]) s (ps @ [(t, cur t, a)]) s3"
proof -
  have na: "a \<notin> set (news ps)" using r a by (auto simp: resized_def news_def)
  have da: "a \<notin> dom (arrays (store s))"
  proof -
    have "arrays (store s) a = arrays (store s1) a" using r na by (simp add: resized_def)
    then show ?thesis using a by (simp add: dom_def)
  qed
  have st3: "(\<exists>st. s3 = s1\<lparr>store := st\<rparr>)" by (cases "cur t") (auto simp: s3 s2 put_slots_def)
  have f3: "fault (store s3) = fault (store s1)" by (cases "cur t") (auto simp: s3 s2 put_slots_def)
  have c3: "arrays (store s3) = (arrays (store s1))(a \<mapsto> copied (contents s (cur t)) target)"
  proof (cases "cur t")
    case None
    then show ?thesis by (simp add: s3 s2 contents_def copied_def)
  next
    case (Some c)
    have "c \<noteq> a" using live [OF Some] da by auto
    moreover have "arrays (store s1) c = arrays (store s) c" using r live [OF Some] by (auto simp: resized_def)
    ultimately have "slots_of s2 c = slots_of s c" by (simp add: s2 slots_of_def)
    then show ?thesis using Some by (simp add: s3 put_slots_def contents_def) (simp add: s2)
  qed
  from st3 r obtain st where "s3 = s\<lparr>store := st\<rparr>" by (auto simp: resized_def)
  then show ?thesis using r f3 c3 t na da by (auto simp: resized_def news_def)
qed


lemma resize_loop_spec:
  assumes "fresh_malloc gm" "reads get cur (set (T0 @ T)) s" "resized cur target T0 s ps s1"
    "resize_loop gm get target T ps s1 = (r, s')"
  shows "(r = None \<and> (\<exists>n. s' = s\<lparr>store := (store s)\<lparr>allocs := n\<rparr>\<rparr>)) \<or>
         (\<exists>ps'. r = Some ps' \<and> resized cur target (T0 @ T) s ps' s')"
  using assms
proof (induction T arbitrary: T0 ps s1)
  case Nil
  then show ?case by auto
next
  case (Cons t T)
  obtain st where st: "s1 = s\<lparr>store := st\<rparr>" using Cons.prems(3) by (auto simp: resized_def)
  have g: "get t s1 = (cur t, s1)" using Cons.prems(2) unfolding st reads_def by simp
  have live: "cur t = Some a \<Longrightarrow> arrays (store s) a \<noteq> None" for a using Cons.prems(2) by (simp add: reads_def)
  have cap: "capacity_of s1 (cur t) = capacity_of s (cur t)"
  proof (cases "cur t")
    case (Some a)
    have "arrays (store s1) a = arrays (store s) a" using Cons.prems(3) live [OF Some] by (auto simp: resized_def)
    then show ?thesis using Some by (simp add: capacity_of_def slots_of_def)
  qed (simp add: capacity_of_def)
  show ?case
  proof (cases "capacity_of s (cur t) \<ge> target")
    case True
    have "resize_loop gm get target T ps s1 = (r, s')" using Cons.prems(4) True by (simp add: g cap)
    moreover have "resized cur target (T0 @ [t]) s ps s1" using Cons.prems(3) True by (simp add: resized_def)
    ultimately show ?thesis using Cons.IH [of "T0 @ [t]" ps s1] Cons.prems(1,2) by simp
  next
    case False
    obtain x s2 where al: "allocateTlsArray gm target s1 = (x, s2)" by fastforce
    show ?thesis
    proof (rule allocateTlsArray_cases [OF Cons.prems(1) al])
      fix n assume x: "x = None" and s2: "s2 = s1\<lparr>store := (store s1)\<lparr>allocs := n\<rparr>\<rparr>"
      have rs: "r = None" "s' = free_all (map (snd \<circ> snd) ps) s2" using Cons.prems(4) False by (simp_all add: g cap al x)
      have "distinct (news ps)" "set (news ps) \<subseteq> dom (arrays (store s2))"
        using Cons.prems(3) by (auto simp: resized_def s2 news_def)
      from rs(2) [unfolded free_pending [OF this]]
      have "s' = s\<lparr>store := st\<lparr>allocs := n, arrays := (\<lambda>a. if a \<in> set (news ps) then None else arrays st a)\<rparr>\<rparr>"
        by (simp add: s2 st cong: if_cong)
      moreover have "(\<lambda>a. if a \<in> set (news ps) then None else arrays st a) = arrays (store s)"
      proof
        fix a
        have "set (news ps) \<inter> dom (arrays (store s)) = {}" "a \<notin> set (news ps) \<longrightarrow> arrays st a = arrays (store s) a"
          using Cons.prems(3) by (simp_all add: resized_def st)
        then show "(if a \<in> set (news ps) then None else arrays st a) = arrays (store s) a"
          by (cases "arrays (store s) a") (auto simp: disjoint_iff)
      qed
      moreover have "fault st = fault (store s)" using Cons.prems(3) by (simp add: resized_def st)
      ultimately have "s' = s\<lparr>store := (store s)\<lparr>allocs := n\<rparr>\<rparr>" by (auto intro!: ArrayStore.equality)
      then show ?thesis using rs(1) by blast
    next
      fix a n assume x: "x = Some a" and a: "arrays (store s1) a = None"
        and s2: "s2 = s1\<lparr>store := (store s1)\<lparr>allocs := n, arrays := (arrays (store s1))(a \<mapsto> replicate target 0)\<rparr>\<rparr>"
      define s3 where "s3 = (case cur t of None \<Rightarrow> s2 | Some c \<Rightarrow> put_slots a (copied (slots_of s2 c) target) s2)"
      have "resize_loop gm get target T (ps @ [(t, cur t, a)]) s3 = (r, s')"
        using Cons.prems(4) False by (simp add: g cap al x s3_def)
      moreover have "resized cur target (T0 @ [t]) s (ps @ [(t, cur t, a)]) s3"
        using resized_step [OF Cons.prems(3) _ live a s2 s3_def] False by simp
      ultimately show ?thesis using Cons.IH [of "T0 @ [t]"] Cons.prems(1,2) by simp
    qed
  qed
qed

lemma resized_init: "resized cur target [] s [] s"
  by (auto simp: resized_def news_def intro: exI [of _ "store s"])

lemma resize_loop_cases:
  assumes "fresh_malloc gm" "reads get cur (set T) s" "resize_loop gm get target T [] s = (r, s')"
  obtains n where "r = None" "s' = s\<lparr>store := (store s)\<lparr>allocs := n\<rparr>\<rparr>"
  | ps where "r = Some ps" "resized cur target T s ps s'"
  using resize_loop_spec [OF assms(1) _ resized_init assms(3), of cur] assms(2) that by auto


text \<open>When every thread needs a new array, the loop's result is a function of the thread.\<close>

lemma resized_fun:
  assumes r: "resized cur target T s ps s'" and d: "distinct T" and c: "\<And>t. t \<in> set T \<Longrightarrow> capacity_of s (cur t) < target"
  obtains N where "inj_on N (set T)" "N ` set T \<inter> dom (arrays (store s)) = {}"
    "map fst ps = T" "\<And>t. t \<in> set T \<Longrightarrow> map_of ps t = Some (cur t, N t)"
    "\<And>a. arrays (store s') a = (if a \<in> N ` set T then Some (copied (contents s (cur (inv_into (set T) N a))) target)
                              else arrays (store s) a)"
    "fault (store s') = fault (store s)"
proof -
  have T: "map fst ps = T" using r c by (simp add: resized_def)
  define N where "N t = snd (the (map_of ps t))" for t
  have m: "map_of ps t = Some (cur t, N t)" if tT: "t \<in> set T" for t
  proof -
    obtain old a where e: "(t, old, a) \<in> set ps" using tT unfolding T [symmetric] by force
    moreover have "old = cur t" using r e by (auto simp: resized_def)
    moreover have "map_of ps t = Some (old, a)" using e d T by (simp add: map_of_eq_Some_iff)
    ultimately show ?thesis by (simp add: N_def)
  qed
  have mem: "(t, cur t, N t) \<in> set ps \<longleftrightarrow> t \<in> set T" for t
  proof
    show "t \<in> set T" if "(t, cur t, N t) \<in> set ps" using that unfolding T [symmetric] by force
  qed (use m map_of_SomeD in fast)
  have nm: "news ps = map N T"
  proof -
    have "(snd \<circ> snd) p = N (fst p)" if "p \<in> set ps" for p
    proof -
      have "map_of ps (fst p) = Some (snd p)" using that d T by (simp add: map_of_eq_Some_iff)
      then show ?thesis by (simp add: N_def)
    qed
    then have "news ps = map (\<lambda>p. N (fst p)) ps" by (simp add: news_def)
    then show ?thesis unfolding T [symmetric] by simp
  qed
  have inj: "inj_on N (set T)" using r d unfolding resized_def nm by (simp add: distinct_map)
  have ar: "arrays (store s') a = (if a \<in> N ` set T then Some (copied (contents s (cur (inv_into (set T) N a))) target)
                              else arrays (store s) a)" for a
  proof (cases "a \<in> N ` set T")
    case True
    then obtain t where t: "t \<in> set T" "a = N t" by blast
    then have "arrays (store s') a = Some (copied (contents s (cur t)) target)"
      using r mem [of t] by (fastforce simp: resized_def)
    then show ?thesis using t inj by simp
  next
    case False
    then show ?thesis using r by (simp add: resized_def nm)
  qed
  show ?thesis using that [OF inj _ T m ar] r by (simp add: resized_def nm)
qed

lemma install_expansion_spec:
  assumes "distinct (map fst ps)" "0 \<notin> set (map fst ps)"
  shows "install_expansion ps s = s\<lparr>tebs := (\<lambda>t. case map_of ps t of None \<Rightarrow> tebs s t
           | Some (old, a) \<Rightarrow> (tebs s t)\<lparr>TlsExpansionSlots := a + slotsOffset\<rparr>)\<rparr>"
  using assms
proof (induction ps arbitrary: s)
  case (Cons p ps)
  obtain t old a where p: "p = (t, old, a)" by (cases p)
  have n: "map_of ps t = None" using Cons.prems(1) by (simp add: p map_of_eq_None_iff)
  show ?case using Cons.prems Cons.IH
    by (simp add: p setExpansionArray_def set_teb_def)
      (rule arg_cong [where f = "\<lambda>f. s\<lparr>tebs := f\<rparr>"], auto simp: fun_eq_iff n split: option.splits)
qed simp

lemma install_modules_spec:
  assumes "distinct (map fst ps)" "0 \<notin> set (map fst ps)"
  shows "install_modules ps s = s\<lparr>
      g_moduleArrays := (\<lambda>t. case map_of ps t of None \<Rightarrow> g_moduleArrays s t | Some (old, a) \<Rightarrow> Some a),
      g_moduleGarbage := (\<lambda>t. case map_of ps t of Some (Some old, a) \<Rightarrow> Some (garbage s t @ [old]) | _ \<Rightarrow> g_moduleGarbage s t),
      tebs := (\<lambda>t. case map_of ps t of None \<Rightarrow> tebs s t
           | Some (old, a) \<Rightarrow> (tebs s t)\<lparr>ThreadLocalStoragePointer := a + slotsOffset\<rparr>)\<rparr>"
  using assms
proof (induction ps arbitrary: s)
  case (Cons p ps)
  obtain t old a where p: "p = (t, old, a)" by (cases p)
  have n: "map_of ps t = None" using Cons.prems(1) by (simp add: p map_of_eq_None_iff)
  have t0: "t \<noteq> 0" using Cons.prems(2) by (simp add: p)
  define s1 where "s1 = (case old of None \<Rightarrow> setModuleArray t a s | Some o' \<Rightarrow> queueOldModuleArray t o' (setModuleArray t a s))"
  have "install_modules (p # ps) s = install_modules ps s1" by (simp add: p s1_def Let_def)
  also have "\<dots> = s\<lparr>
      g_moduleArrays := (\<lambda>t. case map_of (p # ps) t of None \<Rightarrow> g_moduleArrays s t | Some (old, a) \<Rightarrow> Some a),
      g_moduleGarbage := (\<lambda>t. case map_of (p # ps) t of Some (Some old, a) \<Rightarrow> Some (garbage s t @ [old]) | _ \<Rightarrow> g_moduleGarbage s t),
      tebs := (\<lambda>t. case map_of (p # ps) t of None \<Rightarrow> tebs s t
           | Some (old, a) \<Rightarrow> (tebs s t)\<lparr>ThreadLocalStoragePointer := a + slotsOffset\<rparr>)\<rparr>"
  proof -
    have "install_modules ps s1 = s1\<lparr>
      g_moduleArrays := (\<lambda>t. case map_of ps t of None \<Rightarrow> g_moduleArrays s1 t | Some (old, a) \<Rightarrow> Some a),
      g_moduleGarbage := (\<lambda>t. case map_of ps t of Some (Some old, a) \<Rightarrow> Some (garbage s1 t @ [old]) | _ \<Rightarrow> g_moduleGarbage s1 t),
      tebs := (\<lambda>t. case map_of ps t of None \<Rightarrow> tebs s1 t
           | Some (old, a) \<Rightarrow> (tebs s1 t)\<lparr>ThreadLocalStoragePointer := a + slotsOffset\<rparr>)\<rparr>"
      using Cons.IH Cons.prems by simp
    then show ?thesis
      by (auto intro!: TlsState.equality simp: s1_def setModuleArray_def set_teb_def queueOldModuleArray_def garbage_def p n t0 fun_eq_iff
          split: option.splits)
  qed
  finally show ?case .
qed simp

section \<open>Growth keeps the invariant and the values\<close>

lemma tls_invD:
  assumes "tls_inv s"
  shows "\<not> fault (store s)" "owned (arrays (store s)) (refs s)" "distinct (g_activeTibs s)" "0 \<notin> set (g_activeTibs s)"
    "length (g_slotUsed s) = kTlsMaxSlotCount" "g_expansionCapacity s \<le> kMaxExpansionSlots"
    "length (TlsSlots (tebs s t)) = kTlsSlotCount" "t \<notin> set (g_activeTibs s) \<Longrightarrow> refs s t = []"
    "g_moduleArrays s t = arrayFromSlots (ThreadLocalStoragePointer (tebs s t))"
    "exp_arr s t = Some a \<Longrightarrow> length (slots_of s a) = g_expansionCapacity s"
    "g_moduleArrays s t = Some a \<Longrightarrow> length (slots_of s a) = g_moduleArrayCapacity s"
  using assms by (simp_all add: tls_inv_def)

lemma arrayFromSlots_offset [simp]: "arrayFromSlots (a + slotsOffset) = Some a" "arrayFromSlots 0 = None"
  by (simp_all add: arrayFromSlots_def slotsOffset_def)

lemma set_opt_list [simp]: "set (opt_list x) = set_option x" and distinct_opt_list [simp]: "distinct (opt_list x)"
  by (cases x; simp)+

lemma opt_list_Nil [simp]: "opt_list x = [] \<longleftrightarrow> x = None" by (cases x) auto

lemma refs_live: "tls_inv s \<Longrightarrow> a \<in> set (refs s t) \<Longrightarrow> arrays (store s) a \<noteq> None"
  using tls_invD(2) [of s] by (auto simp: owned_def)

lemma exp_in_refs: "exp_arr s t = Some a \<Longrightarrow> a \<in> set (refs s t)" by (simp add: refs_def)

lemma mod_in_refs: "g_moduleArrays s t = Some a \<Longrightarrow> a \<in> set (refs s t)" by (simp add: refs_def)

lemma exp_none_inactive: "tls_inv s \<Longrightarrow> t \<notin> set (g_activeTibs s) \<Longrightarrow> exp_arr s t = None"
  using tls_invD(8) [of s t] by (cases "exp_arr s t") (simp_all add: refs_def)

lemma refs_distinct: "tls_inv s \<Longrightarrow> distinct (refs s t)"
  using tls_invD(2) [of s] by (simp add: owned_def)

lemma refs_disjoint: "tls_inv s \<Longrightarrow> a \<in> set (refs s t) \<Longrightarrow> a \<in> set (refs s u) \<Longrightarrow> t = u"
  using tls_invD(2) [of s] by (auto simp: owned_def)

lemma reads_expansion:
  assumes "tls_inv s"
  shows "reads (\<lambda>tib s. (getExpansionArray tib s, s)) (exp_arr s) (set (g_activeTibs s)) s"
  using tls_invD(4) [OF assms] refs_live [OF assms exp_in_refs]
  by (auto simp: reads_def getExpansionArray_def exp_arr_def)

lemma getModuleArray_pure: "tls_inv s \<Longrightarrow> t \<noteq> 0 \<Longrightarrow> getModuleArray t s = (g_moduleArrays s t, s)"
  using tls_invD(9) [of s t] by (auto simp: getModuleArray_def split: option.split)

lemma reads_modules:
  assumes "tls_inv s"
  shows "reads getModuleArray (g_moduleArrays s) (set (g_activeTibs s)) s"
proof -
  have "getModuleArray t (s\<lparr>store := st\<rparr>) = (g_moduleArrays s t, s\<lparr>store := st\<rparr>)" if "t \<in> set (g_activeTibs s)" for t st
  proof -
    have "t \<noteq> 0" using that tls_invD(4) [OF assms] by metis
    then show ?thesis using tls_invD(9) [OF assms, of t] by (auto simp: getModuleArray_def split: option.split)
  qed
  then show ?thesis using refs_live [OF assms mod_in_refs] by (auto simp: reads_def)
qed

lemma capacity_expansion: "tls_inv s \<Longrightarrow> capacity_of s (exp_arr s t) \<le> g_expansionCapacity s"
  by (cases "exp_arr s t") (auto simp: capacity_of_def tls_invD(10))

lemma capacity_modules: "tls_inv s \<Longrightarrow> capacity_of s (g_moduleArrays s t) \<le> g_moduleArrayCapacity s"
  by (cases "g_moduleArrays s t") (auto simp: capacity_of_def tls_invD(11))

lemma old_arrays_cur:
  "\<forall>(t, old, a) \<in> set ps. old = cur t \<Longrightarrow> old_arrays ps = List.map_filter cur (map fst ps)"
  by (induction ps) (auto simp: old_arrays_def List.map_filter_simps split: option.splits)

lemma set_map_filter_option: "set (List.map_filter f xs) = {a. \<exists>x \<in> set xs. f x = Some a}"
  by (induction xs) (auto simp: List.map_filter_simps split: option.splits)

lemma distinct_map_filter_option:
  assumes "distinct xs" "\<And>x y a. f x = Some a \<Longrightarrow> f y = Some a \<Longrightarrow> x = y"
  shows "distinct (List.map_filter f xs)"
  using assms(1)
proof (induction xs)
  case (Cons x xs)
  have "a \<notin> set (List.map_filter f xs)" if "f x = Some a" for a
  proof
    assume "a \<in> set (List.map_filter f xs)"
    then obtain y where "y \<in> set xs" "f y = Some a" by (auto simp: set_map_filter_option)
    then show False using assms(2) [OF that] Cons.prems by auto
  qed
  then show ?case using Cons by (simp add: List.map_filter_simps split: option.split)
qed (simp add: List.map_filter_simps)

lemma length_copied: "length xs \<le> n \<Longrightarrow> length (copied xs n) = n"
  by (simp add: copied_def)


text \<open>The value of a slot as the guest sees it: a missing array, or a slot beyond its end, reads as 0.\<close>

definition nth0 :: "u32 list \<Rightarrow> nat \<Rightarrow> u32" where
  "nth0 xs i = (if i < length xs then xs ! i else 0)"

lemma nth0_copied: "length xs \<le> n \<Longrightarrow> nth0 (copied xs n) i = nth0 xs i"
  by (auto simp: nth0_def copied_def nth_append)

lemma nth0_replicate [simp]: "nth0 (replicate n 0) i = 0" "nth0 [] i = 0"
  by (auto simp: nth0_def)

lemma nth0_update: "i < length xs \<Longrightarrow> nth0 (xs[i := v]) j = (if j = i then v else nth0 xs j)"
  by (simp add: nth0_def)

definition expValue :: "nat \<Rightarrow> nat \<Rightarrow> TlsState \<Rightarrow> u32" where
  "expValue t i s = nth0 (contents s (exp_arr s t)) i"

definition moduleValue :: "nat \<Rightarrow> nat \<Rightarrow> TlsState \<Rightarrow> u32" where
  "moduleValue t i s = nth0 (contents s (g_moduleArrays s t)) i"

lemma getValue_eq:
  "getValue t i s = (if t = 0 \<or> i \<ge> kTlsMaxSlotCount then 0
     else if i < kTlsSlotCount then TlsSlots (tebs s t) ! i else expValue t (i - kTlsSlotCount) s)"
  by (auto simp: getValue_def expValue_def getExpansionArray_def exp_arr_def contents_def capacity_of_def nth0_def
      split: option.split)

definition same_values :: "TlsState \<Rightarrow> TlsState \<Rightarrow> bool" where
  "same_values s s' \<longleftrightarrow> (\<forall>t. TlsSlots (tebs s' t) = TlsSlots (tebs s t)) \<and> (\<forall>t i. expValue t i s' = expValue t i s) \<and>
     (\<forall>t i. moduleValue t i s' = moduleValue t i s) \<and> g_slotUsed s' = g_slotUsed s \<and> g_activeTibs s' = g_activeTibs s"

text \<open>The outcome of the first loop when every active thread gets a new array \<open>N t\<close>.\<close>

definition grown :: "(nat \<Rightarrow> nat option) \<Rightarrow> nat \<Rightarrow> TlsState \<Rightarrow> pending list \<Rightarrow> ArrayStore \<Rightarrow> (nat \<Rightarrow> nat) \<Rightarrow> bool" where
  "grown cur target s ps st N \<longleftrightarrow>
     inj_on N (set (g_activeTibs s)) \<and> N ` set (g_activeTibs s) \<inter> dom (arrays (store s)) = {} \<and>
     map fst ps = g_activeTibs s \<and> (\<forall>(t, old, a) \<in> set ps. old = cur t) \<and>
     (\<forall>t. map_of ps t = (if t \<in> set (g_activeTibs s) then Some (cur t, N t) else None)) \<and>
     (\<forall>t \<in> set (g_activeTibs s). arrays st (N t) = Some (copied (contents s (cur t)) target)) \<and>
     (\<forall>a. a \<notin> N ` set (g_activeTibs s) \<longrightarrow> arrays st a = arrays (store s) a) \<and>
     fault st = fault (store s) \<and> (\<forall>t. length (contents s (cur t)) \<le> target)"

lemma resized_grown:
  assumes i: "tls_inv s" and r: "resized cur target (g_activeTibs s) s ps s1" and c: "\<And>t. capacity_of s (cur t) < target"
  obtains st N where "s1 = s\<lparr>store := st\<rparr>" "grown cur target s ps st N"
proof -
  let ?A = "set (g_activeTibs s)"
  obtain st where s1: "s1 = s\<lparr>store := st\<rparr>" using r by (auto simp: resized_def)
  obtain N where N: "inj_on N ?A" "N ` ?A \<inter> dom (arrays (store s)) = {}"
    "map fst ps = g_activeTibs s" "\<And>u. u \<in> ?A \<Longrightarrow> map_of ps u = Some (cur u, N u)"
    "\<And>a. arrays (store s1) a = (if a \<in> N ` ?A then Some (copied (contents s (cur (inv_into ?A N a))) target)
                              else arrays (store s) a)"
    "fault (store s1) = fault (store s)"
    by (rule resized_fun [OF r tls_invD(3) [OF i] c]) (rule that)
  have "map_of ps u = None" if "u \<notin> ?A" for u using that unfolding map_of_eq_None_iff by (metis N(3) list.set_map)
  then have m: "\<forall>u. map_of ps u = (if u \<in> ?A then Some (cur u, N u) else None)" using N(4) by simp
  have o: "\<forall>(u, old, a) \<in> set ps. old = cur u" using r unfolding resized_def by blast
  have n: "\<forall>u \<in> ?A. arrays st (N u) = Some (copied (contents s (cur u)) target)"
    using N(5) [of "N _"] N(1) by (simp add: s1)
  have e: "\<forall>a. a \<notin> N ` ?A \<longrightarrow> arrays st a = arrays (store s) a" using N(5) by (simp add: s1)
  have f: "fault st = fault (store s)" using N(6) by (simp add: s1)
  have l: "\<forall>u. length (contents s (cur u)) \<le> target"
  proof
    fix u show "length (contents s (cur u)) \<le> target"
      using c [of u] by (cases "cur u") (simp_all add: contents_def capacity_of_def)
  qed
  have "grown cur target s ps st N" unfolding grown_def by (intro conjI N(1-3) o m n e f l)
  then show ?thesis using that s1 by blast
qed

lemma grownD:
  assumes "grown cur target s ps st N"
  shows "inj_on N (set (g_activeTibs s))" "map fst ps = g_activeTibs s" "\<forall>(t, old, a) \<in> set ps. old = cur t"
    "map_of ps t = (if t \<in> set (g_activeTibs s) then Some (cur t, N t) else None)"
    "t \<in> set (g_activeTibs s) \<Longrightarrow> arrays st (N t) = Some (copied (contents s (cur t)) target)"
    "a \<notin> N ` set (g_activeTibs s) \<Longrightarrow> arrays st a = arrays (store s) a"
    "fault st = fault (store s)" "length (contents s (cur t)) \<le> target"
  using assms unfolding grown_def by simp_all

lemma grown_fresh:
  assumes "tls_inv s" "grown cur target s ps st N" "t \<in> set (g_activeTibs s)"
  shows "N t \<notin> set (refs s u)"
proof
  assume "N t \<in> set (refs s u)"
  then have "N t \<in> dom (arrays (store s))" using refs_live [OF assms(1)] by blast
  moreover have "N ` set (g_activeTibs s) \<inter> dom (arrays (store s)) = {}" using assms(2) unfolding grown_def by (elim conjE)
  ultimately show False using assms(3) by blast
qed

lemma grown_old:
  assumes "tls_inv s" "grown cur target s ps st N" "a \<in> set (refs s u)"
  shows "arrays st a = arrays (store s) a" "a \<notin> N ` set (g_activeTibs s)"
proof -
  show "a \<notin> N ` set (g_activeTibs s)" using grown_fresh [OF assms(1,2)] assms(3) by blast
  then show "arrays st a = arrays (store s) a" by (rule grownD(6) [OF assms(2)])
qed

lemma dom_grown:
  assumes "grown cur target s ps st N"
  shows "dom (arrays st) = dom (arrays (store s)) \<union> (\<Union>u. if u \<in> set (g_activeTibs s) then {N u} else {})"
proof (rule set_eqI)
  fix a
  show "a \<in> dom (arrays st) \<longleftrightarrow> a \<in> dom (arrays (store s)) \<union> (\<Union>u. if u \<in> set (g_activeTibs s) then {N u} else {})"
    using grownD(5) [OF assms] grownD(6) [OF assms, of a] by (cases "a \<in> N ` set (g_activeTibs s)") (auto simp: dom_def)
qed

definition olds :: "TlsState \<Rightarrow> nat set" where "olds s = (\<Union>u. set_option (exp_arr s u))"

lemma old_arrays_spec:
  assumes i: "tls_inv s" and g: "grown (exp_arr s) target s ps st N"
  shows "distinct (old_arrays ps)" "set (old_arrays ps) = olds s"
proof -
  have oa: "old_arrays ps = List.map_filter (exp_arr s) (g_activeTibs s)"
    using old_arrays_cur [OF grownD(3) [OF g]] by (simp only: grownD(2) [OF g])
  have "u = v" if "exp_arr s u = Some a" "exp_arr s v = Some a" for u v a
    using refs_disjoint [OF i exp_in_refs exp_in_refs] that by blast
  then show "distinct (old_arrays ps)" unfolding oa by (rule distinct_map_filter_option [OF tls_invD(3) [OF i]])
  show "set (old_arrays ps) = olds s"
    using exp_none_inactive [OF i] by (fastforce simp: oa set_map_filter_option olds_def)
qed

lemma expansion_state:
  assumes i: "tls_inv s" and g: "grown (exp_arr s) target s ps st N"
  shows "free_all (old_arrays ps) (install_expansion ps (s\<lparr>store := st\<rparr>)) =
    s\<lparr>tebs := (\<lambda>u. if u \<in> set (g_activeTibs s) then (tebs s u)\<lparr>TlsExpansionSlots := N u + slotsOffset\<rparr> else tebs s u),
      store := st\<lparr>arrays := (\<lambda>a. if a \<in> olds s then None else arrays st a)\<rparr>\<rparr>"
proof -
  have "install_expansion ps (s\<lparr>store := st\<rparr>) = s\<lparr>store := st, tebs := (\<lambda>t. case map_of ps t of None \<Rightarrow> tebs s t
         | Some (old, a) \<Rightarrow> (tebs s t)\<lparr>TlsExpansionSlots := a + slotsOffset\<rparr>)\<rparr>"
    using tls_invD(3,4) [OF i] install_expansion_spec [of ps "s\<lparr>store := st\<rparr>", unfolded grownD(2) [OF g]]
    by (simp cong: option.case_cong)
  then have inst: "install_expansion ps (s\<lparr>store := st\<rparr>) = s\<lparr>store := st, tebs :=
      (\<lambda>u. if u \<in> set (g_activeTibs s) then (tebs s u)\<lparr>TlsExpansionSlots := N u + slotsOffset\<rparr> else tebs s u)\<rparr>"
    by (simp add: grownD(4) [OF g] if_distrib [where f = "case_option _ _"] cong: if_cong)
  have "olds s \<subseteq> dom (arrays st)"
    using refs_live [OF i exp_in_refs] dom_grown [OF g] by (auto simp: olds_def)
  then show ?thesis
    using free_all_spec [OF old_arrays_spec(1) [OF i g], of "install_expansion ps (s\<lparr>store := st\<rparr>)"]
    by (simp add: inst old_arrays_spec(2) [OF i g] cong: if_cong)
qed


lemma expansion_grow:
  assumes i: "tls_inv s" and g: "grown (exp_arr s) target s ps st N" and t: "target \<le> kMaxExpansionSlots"
    and S: "S = (free_all (old_arrays ps) (install_expansion ps (s\<lparr>store := st\<rparr>)))\<lparr>g_expansionCapacity := target\<rparr>"
  shows "tls_inv S" "same_values s S" "u \<in> set (g_activeTibs s) \<Longrightarrow> exp_arr S u \<noteq> None"
proof -
  let ?A = "set (g_activeTibs s)"
  have F: "tebs S = (\<lambda>u. if u \<in> ?A then (tebs s u)\<lparr>TlsExpansionSlots := N u + slotsOffset\<rparr> else tebs s u)"
      "arrays (store S) = (\<lambda>a. if a \<in> olds s then None else arrays st a)" "fault (store S) = fault (store s)"
      "g_moduleArrays S = g_moduleArrays s" "g_moduleGarbage S = g_moduleGarbage s" "g_activeTibs S = g_activeTibs s"
      "g_slotUsed S = g_slotUsed s" "g_expansionCapacity S = target" "g_moduleArrayCapacity S = g_moduleArrayCapacity s"
    using grownD(7) [OF g] unfolding S expansion_state [OF i g] by simp_all
  have ex: "exp_arr S u = (if u \<in> ?A then Some (N u) else None)" for u
    using exp_none_inactive [OF i, of u] by (auto simp: exp_arr_def F)
  have rf: "refs S u = (if u \<in> ?A then N u # opt_list (g_moduleArrays s u) @ garbage s u else [])" for u
    using tls_invD(8) [OF i, of u] by (auto simp: refs_def ex F garbage_def)
  have newslots: "slots_of S (N u) = copied (contents s (exp_arr s u)) target" if "u \<in> ?A" for u
  proof -
    have "N u \<notin> olds s" using grown_fresh [OF i g that] exp_in_refs by (auto simp: olds_def)
    then show ?thesis using grownD(5) [OF g that] by (simp add: slots_of_def F)
  qed
  have modslots: "slots_of S a = slots_of s a" if m: "g_moduleArrays s u = Some a" for u a
  proof -
    have "exp_arr s v \<noteq> Some a" for v
      using refs_disjoint [OF i exp_in_refs mod_in_refs] refs_distinct [OF i, of u] m by (auto simp: refs_def)
    then have "a \<notin> olds s" by (auto simp: olds_def)
    then show ?thesis using grown_old(1) [OF i g mod_in_refs [OF m]] by (simp add: slots_of_def F)
  qed
  have own: "owned (arrays (store S)) (refs S)"
  proof (rule owned_change [OF tls_invD(2) [OF i], where N = "\<lambda>u. if u \<in> ?A then {N u} else {}" and D = "\<lambda>u. set_option (exp_arr s u)"])
    fix u
    show "distinct (refs S u)" using refs_distinct [OF i, of u] grown_fresh [OF i g, of u u] by (auto simp: rf) (auto simp: refs_def)
    show "set (refs S u) = (if u \<in> ?A then {N u} else {}) \<union> (set (refs s u) - set_option (exp_arr s u))"
      using refs_distinct [OF i, of u] tls_invD(8) [OF i, of u] by (auto simp: rf) (auto simp: refs_def)
    show "(if u \<in> ?A then {N u} else {}) \<inter> dom (arrays (store s)) = {}" using g unfolding grown_def by auto
    show "set_option (exp_arr s u) \<subseteq> set (refs s u)" by (auto simp: refs_def)
    show "(if u \<in> ?A then {N u} else {}) \<inter> (if v \<in> ?A then {N v} else {}) = {}" if "u \<noteq> v" for v
      using grownD(1) [OF g] that by (auto dest: inj_onD)
    show "dom (arrays (store S)) = dom (arrays (store s)) \<union> (\<Union>u. if u \<in> ?A then {N u} else {}) - (\<Union>u. set_option (exp_arr s u))"
      unfolding olds_def [symmetric] dom_grown [OF g, symmetric] by (auto simp: F split: if_splits)
  qed
  show "tls_inv S" unfolding tls_inv_def
    using own tls_invD [OF i] t newslots modslots by (auto simp: F ex rf length_copied [OF grownD(8) [OF g]])
  have "expValue u j S = expValue u j s" for u j
    using exp_none_inactive [OF i, of u]
    by (simp add: expValue_def ex contents_def [of S] newslots nth0_copied [OF grownD(8) [OF g]]) (simp add: contents_def)
  moreover have "moduleValue u j S = moduleValue u j s" for u j
    using modslots [of u] by (cases "g_moduleArrays s u") (simp_all add: moduleValue_def F contents_def)
  ultimately show "same_values s S" by (simp add: same_values_def F)
  show "exp_arr S u \<noteq> None" if "u \<in> ?A" using that by (simp add: ex)
qed

lemma contents_store: "store s' = store s \<Longrightarrow> contents s' = contents s" "store s' = store s \<Longrightarrow> slots_of s' = slots_of s"
proof -
  show "slots_of s' = slots_of s" if "store s' = store s" using that by (simp add: slots_of_def [abs_def])
  then show "contents s' = contents s" if "store s' = store s" using that by (simp add: contents_def [abs_def])
qed

lemma module_grow:
  assumes i: "tls_inv s" and g: "grown (g_moduleArrays s) target s ps st N"
    and S: "S = (install_modules ps (s\<lparr>store := st\<rparr>))\<lparr>g_moduleArrayCapacity := target\<rparr>"
  shows "tls_inv S" "same_values s S" "u \<in> set (g_activeTibs s) \<Longrightarrow> g_moduleArrays S u \<noteq> None"
proof -
  let ?A = "set (g_activeTibs s)"
  have sp: "distinct (map fst ps)" "0 \<notin> set (map fst ps)" using tls_invD(3,4) [OF i] by (simp_all only: grownD(2) [OF g] not_False_eq_True)
  note F0 = S [unfolded install_modules_spec [OF sp] grownD(4) [OF g]]
  have F: "arrays (store S) = arrays st" "fault (store S) = fault (store s)" "g_activeTibs S = g_activeTibs s"
      "g_slotUsed S = g_slotUsed s" "g_expansionCapacity S = g_expansionCapacity s" "g_moduleArrayCapacity S = target"
    using grownD(7) [OF g] unfolding F0 by simp_all
  have tb: "tebs S u = (if u \<in> ?A then (tebs s u)\<lparr>ThreadLocalStoragePointer := N u + slotsOffset\<rparr> else tebs s u)" for u
    unfolding F0 by simp
  have none: "g_moduleArrays s u = None \<and> garbage s u = []" if "u \<notin> ?A" for u
    using tls_invD(8) [OF i that] by (cases "g_moduleArrays s u") (simp_all add: refs_def)
  have md: "g_moduleArrays S u = (if u \<in> ?A then Some (N u) else None)" for u unfolding F0 using none [of u] by simp
  have gb: "garbage S u = garbage s u @ opt_list (g_moduleArrays s u)" for u
    using none [of u] unfolding F0 by (cases "g_moduleArrays s u") (auto simp: garbage_def)
  have ex: "exp_arr S u = exp_arr s u" for u by (simp add: exp_arr_def tb)
  have rf: "refs S u = opt_list (exp_arr s u) @ (if u \<in> ?A then [N u] else []) @ garbage s u @ opt_list (g_moduleArrays s u)" for u
    by (simp add: refs_def ex md gb)
  have newslots: "slots_of S (N u) = copied (contents s (g_moduleArrays s u)) target" if "u \<in> ?A" for u
    using grownD(5) [OF g that] by (simp add: slots_of_def F)
  have expslots: "slots_of S a = slots_of s a" if "exp_arr s u = Some a" for u a
    using grown_old(1) [OF i g exp_in_refs [OF that]] by (simp add: slots_of_def F)
  have own: "owned (arrays (store S)) (refs S)"
  proof (rule owned_change [OF tls_invD(2) [OF i], where N = "\<lambda>u. if u \<in> ?A then {N u} else {}" and D = "\<lambda>u. {}"])
    fix u
    show "distinct (refs S u)" using refs_distinct [OF i, of u] grown_fresh [OF i g, of u u] by (auto simp: rf) (auto simp: refs_def)
    show "set (refs S u) = (if u \<in> ?A then {N u} else {}) \<union> (set (refs s u) - {})"
      using tls_invD(8) [OF i, of u] by (auto simp: rf) (auto simp: refs_def)
    show "(if u \<in> ?A then {N u} else {}) \<inter> dom (arrays (store s)) = {}" using g unfolding grown_def by auto
    show "{} \<subseteq> set (refs s u)" by simp
    show "(if u \<in> ?A then {N u} else {}) \<inter> (if v \<in> ?A then {N v} else {}) = {}" if "u \<noteq> v" for v
      using grownD(1) [OF g] that by (auto dest: inj_onD)
    show "dom (arrays (store S)) = dom (arrays (store s)) \<union> (\<Union>u. if u \<in> ?A then {N u} else {}) - (\<Union>u :: nat. {})"
      by (simp add: F dom_grown [OF g])
  qed
  have "refs S u = []" if "u \<notin> ?A" for u using none [OF that] exp_none_inactive [OF i that] that by (simp add: rf)
  moreover have "g_moduleArrays S u = arrayFromSlots (ThreadLocalStoragePointer (tebs S u))" for u
    using none [of u] tls_invD(9) [OF i, of u] by (simp add: md tb)
  moreover have "length (slots_of S a) = target" if "g_moduleArrays S u = Some a" for u a
    using that newslots [of u] length_copied [OF grownD(8) [OF g, of u]] by (simp add: md split: if_splits)
  ultimately show "tls_inv S" unfolding tls_inv_def
    using own tls_invD(1,3-7,10) [OF i] expslots by (simp add: F ex) (simp add: tb)
  have "expValue u j S = expValue u j s" for u j
    using expslots [of u] by (cases "exp_arr s u") (simp_all add: expValue_def ex contents_def)
  moreover have "moduleValue u j S = moduleValue u j s" for u j
    using none [of u]
    by (simp add: moduleValue_def md contents_def [of S] newslots nth0_copied [OF grownD(8) [OF g]]) (simp add: contents_def)
  ultimately show "same_values s S" by (simp add: same_values_def F tb)
  show "g_moduleArrays S u \<noteq> None" if "u \<in> ?A" using that by (simp add: md)
qed

lemma refs_update [simp]:
  "refs (s\<lparr>store := st\<rparr>) = refs s" "refs (s\<lparr>g_slotUsed := us\<rparr>) = refs s" "refs (s\<lparr>g_activeTibs := ts\<rparr>) = refs s"
  "exp_arr (s\<lparr>store := st\<rparr>) = exp_arr s" "exp_arr (s\<lparr>g_slotUsed := us\<rparr>) = exp_arr s" "exp_arr (s\<lparr>g_activeTibs := ts\<rparr>) = exp_arr s"
  by (rule ext, simp add: refs_def exp_arr_def garbage_def)+

lemma tls_inv_allocs [simp]: "tls_inv (s\<lparr>store := (store s)\<lparr>allocs := n\<rparr>\<rparr>) = tls_inv s"
  by (simp add: tls_inv_def slots_of_def)

lemma same_values_refl [simp]: "same_values s s" "same_values s (s\<lparr>store := (store s)\<lparr>allocs := n\<rparr>\<rparr>)"
proof -
  have "contents (s\<lparr>store := (store s)\<lparr>allocs := n\<rparr>\<rparr>) = contents s"
    by (rule ext) (auto simp: contents_def slots_of_def split: option.split)
  then show "same_values s (s\<lparr>store := (store s)\<lparr>allocs := n\<rparr>\<rparr>)"
    by (simp add: same_values_def expValue_def moduleValue_def)
qed (simp add: same_values_def)

text \<open>Both growth operations, on every branch: the invariant and all values stay, and success means enough capacity.\<close>

lemma ensureGlobal_spec:
  assumes i: "tls_inv s" and f: "fresh_malloc gm" and e: "ensureGlobalExpansionCapacityLocked gm required s = (ok, s')"
  shows "tls_inv s' \<and> same_values s s' \<and> (ok \<longrightarrow> required \<le> g_expansionCapacity s') \<and>
    (required \<le> g_expansionCapacity s \<longrightarrow> ok \<and> s' = s) \<and>
    (ok \<and> g_expansionCapacity s < required \<longrightarrow> (\<forall>t \<in> set (g_activeTibs s). exp_arr s' t \<noteq> None))"
proof (cases "required \<le> g_expansionCapacity s")
  case True
  then have "ok" "s' = s" using e by (cases "required = 0"; simp add: ensureGlobalExpansionCapacityLocked_def)+
  then show ?thesis using i True by simp
next
  case False
  define target where "target = chooseCapacity (g_expansionCapacity s) required"
  show ?thesis
  proof (cases "target = 0")
    case True
    then show ?thesis using i e False by (auto simp: ensureGlobalExpansionCapacityLocked_def target_def)
  next
    case t0: False
    have le: "required \<le> kMaxExpansionSlots" using chooseCapacity_large [of required "g_expansionCapacity s"] t0 unfolding target_def by linarith
    have tg: "required \<le> target" "target \<le> kMaxExpansionSlots"
      using chooseCapacity_spec [OF le _ tls_invD(6) [OF i]] False unfolding target_def by auto
    obtain r s1 where l: "resize_loop gm (\<lambda>tib s. (getExpansionArray tib s, s)) target (g_activeTibs s) [] s = (r, s1)"
      by fastforce
    have en: "(ok, s') = (case r of None \<Rightarrow> (False, s1) | Some ps \<Rightarrow>
        (True, (free_all (old_arrays ps) (install_expansion ps s1))\<lparr>g_expansionCapacity := target\<rparr>))"
      using e False t0 l by (auto simp: ensureGlobalExpansionCapacityLocked_def target_def [symmetric] Let_def split: option.splits)
    show ?thesis
    proof (rule resize_loop_cases [OF f reads_expansion [OF i] l])
      fix n assume "r = None" "s1 = s\<lparr>store := (store s)\<lparr>allocs := n\<rparr>\<rparr>"
      then show ?thesis using en i False by simp
    next
      fix ps assume r: "r = Some ps" and z: "resized (exp_arr s) target (g_activeTibs s) s ps s1"
      have "capacity_of s (exp_arr s t) < target" for t using capacity_expansion [OF i, of t] False tg(1) by simp
      from resized_grown [OF i z this] obtain st N where s1: "s1 = s\<lparr>store := st\<rparr>" and g: "grown (exp_arr s) target s ps st N" .
      have "ok" and s': "s' = (free_all (old_arrays ps) (install_expansion ps (s\<lparr>store := st\<rparr>)))\<lparr>g_expansionCapacity := target\<rparr>"
        using en r s1 by simp_all
      then show ?thesis using expansion_grow [OF i g tg(2) s'] tg(1) False by auto
    qed
  qed
qed

lemma ensureModule_spec:
  assumes i: "tls_inv s" and f: "fresh_malloc gm" and e: "ensureModuleArrayCapacityLocked gm required s = (ok, s')"
  shows "tls_inv s' \<and> same_values s s' \<and> (ok \<longrightarrow> required \<le> g_moduleArrayCapacity s') \<and>
    (required \<le> g_moduleArrayCapacity s \<longrightarrow> ok \<and> s' = s) \<and>
    (ok \<and> g_moduleArrayCapacity s < required \<longrightarrow> (\<forall>t \<in> set (g_activeTibs s). g_moduleArrays s' t \<noteq> None))"
proof (cases "required \<le> g_moduleArrayCapacity s")
  case True
  then have "ok" "s' = s" using e by (cases "required = 0"; simp add: ensureModuleArrayCapacityLocked_def)+
  then show ?thesis using i True by simp
next
  case False
  define target where "target = module_target required (if g_moduleArrayCapacity s \<noteq> 0 then g_moduleArrayCapacity s else 1)"
  have tg: "required \<le> target" unfolding target_def by (rule module_target_ge)
  obtain r s1 where l: "resize_loop gm getModuleArray target (g_activeTibs s) [] s = (r, s1)" by fastforce
  have en: "(ok, s') = (case r of None \<Rightarrow> (False, s1) | Some ps \<Rightarrow>
      (True, (install_modules ps s1)\<lparr>g_moduleArrayCapacity := target\<rparr>))"
  proof -
    have "\<not> required = 0" using False by simp
    then show ?thesis using e False l unfolding ensureModuleArrayCapacityLocked_def Let_def target_def [symmetric]
      by (auto split: option.splits)
  qed
  show ?thesis
  proof (rule resize_loop_cases [OF f reads_modules [OF i] l])
    fix n assume "r = None" "s1 = s\<lparr>store := (store s)\<lparr>allocs := n\<rparr>\<rparr>"
    then show ?thesis using en i False by simp
  next
    fix ps assume r: "r = Some ps" and z: "resized (g_moduleArrays s) target (g_activeTibs s) s ps s1"
    have "capacity_of s (g_moduleArrays s t) < target" for t using capacity_modules [OF i, of t] False tg by simp
    from resized_grown [OF i z this] obtain st N where s1: "s1 = s\<lparr>store := st\<rparr>" and g: "grown (g_moduleArrays s) target s ps st N" .
    have "ok" and s': "s' = (install_modules ps (s\<lparr>store := st\<rparr>))\<lparr>g_moduleArrayCapacity := target\<rparr>"
      using en r s1 by simp_all
    then show ?thesis using module_grow [OF i g s'] tg False by auto
  qed
qed


section \<open>Slots\<close>

lemma tls_inv_put:
  assumes "tls_inv s" "arrays (store s) a \<noteq> None" "length xs = length (slots_of s a)"
  shows "tls_inv (put_slots a xs s)"
proof -
  have "dom (arrays (store (put_slots a xs s))) = dom (arrays (store s))" using assms(2) by (auto simp: put_slots_def)
  from owned_same_dom [OF tls_invD(2) [OF assms(1)] this]
  have "owned (arrays (store (put_slots a xs s))) (refs (put_slots a xs s))" by (simp add: put_slots_def)
  moreover have "length (slots_of (put_slots a xs s) b) = length (slots_of s b)" for b
    using assms(3) by (simp add: slots_of_def put_slots_def)
  ultimately show ?thesis using assms(1) by (simp add: tls_inv_def) (simp add: put_slots_def)
qed

lemma put_values:
  "expValue t i (put_slots a xs s) = (if exp_arr s t = Some a then nth0 xs i else expValue t i s)"
  "moduleValue t i (put_slots a xs s) = (if g_moduleArrays s t = Some a then nth0 xs i else moduleValue t i s)"
  by (auto simp: expValue_def moduleValue_def contents_def put_slots_def slots_of_def split: option.split)

lemma put_fields [simp]:
  "tebs (put_slots a xs s) = tebs s" "g_activeTibs (put_slots a xs s) = g_activeTibs s" "g_slotUsed (put_slots a xs s) = g_slotUsed s"
  "g_moduleArrays (put_slots a xs s) = g_moduleArrays s" "exp_arr (put_slots a xs s) = exp_arr s"
  by (simp_all add: put_slots_def)

lemma set_teb_slots:
  assumes "length xs = length (TlsSlots (tebs s t))" and S: "S = set_teb t ((tebs s t)\<lparr>TlsSlots := xs\<rparr>) s"
  shows "tls_inv S = tls_inv s" "expValue u i S = expValue u i s" "moduleValue u i S = moduleValue u i s"
    "TlsSlots (tebs S u) = (if u = t then xs else TlsSlots (tebs s u))" "g_activeTibs S = g_activeTibs s" "g_slotUsed S = g_slotUsed s"
    "store S = store s"
proof -
  have ex: "exp_arr S = exp_arr s" by (rule ext) (simp add: S exp_arr_def set_teb_def)
  have rf: "refs S = refs s" unfolding refs_def [abs_def] garbage_def [abs_def] ex by (simp add: S set_teb_def)
  show "tls_inv S = tls_inv s" using assms(1) unfolding tls_inv_def ex rf
    by (auto simp: S set_teb_def slots_of_def)
  show "expValue u i S = expValue u i s" "moduleValue u i S = moduleValue u i s"
    unfolding expValue_def moduleValue_def ex using contents_store [of S s] by (simp_all add: S set_teb_def)
qed (simp_all add: S set_teb_def)

text \<open>The abstract table: thread \<open>t\<close>'s value of slot \<open>i\<close>; it is what \<open>getValue\<close> returns.\<close>

definition slotValue :: "nat \<Rightarrow> nat \<Rightarrow> TlsState \<Rightarrow> u32" where
  "slotValue t i s = (if i < kTlsSlotCount then nth0 (TlsSlots (tebs s t)) i else expValue t (i - kTlsSlotCount) s)"

lemma getValue_slotValue: "tls_inv s \<Longrightarrow> t \<noteq> 0 \<Longrightarrow> i < kTlsMaxSlotCount \<Longrightarrow> getValue t i s = slotValue t i s"
  using tls_invD(7) [of s t] by (simp add: getValue_eq slotValue_def nth0_def)

lemma zero_teb_slots_spec:
  assumes "tls_inv s" "i < kTlsSlotCount"
  shows "tls_inv (zero_teb_slots i ts s) \<and> g_activeTibs (zero_teb_slots i ts s) = g_activeTibs s \<and>
    g_slotUsed (zero_teb_slots i ts s) = g_slotUsed s \<and>
    (\<forall>t j. moduleValue t j (zero_teb_slots i ts s) = moduleValue t j s) \<and>
    (\<forall>t j. slotValue t j (zero_teb_slots i ts s) = (if t \<in> set ts \<and> j = i then 0 else slotValue t j s))"
  using assms(1)
proof (induction ts arbitrary: s)
  case (Cons u ts)
  let ?xs = "(TlsSlots (tebs s u))[i := 0]"
  define S where "S = set_teb u ((tebs s u)\<lparr>TlsSlots := ?xs\<rparr>) s"
  have l: "length ?xs = length (TlsSlots (tebs s u))" by simp
  note F = set_teb_slots [OF l S_def]
  have v: "slotValue t j S = (if t = u \<and> j = i then 0 else slotValue t j s)" for t j
    using assms(2) tls_invD(7) [OF Cons.prems, of u] by (auto simp: slotValue_def F nth0_def)
  have "zero_teb_slots i (u # ts) s = zero_teb_slots i ts S" by (simp add: S_def)
  moreover have "tls_inv S" using Cons.prems F(1) by simp
  ultimately show ?case using Cons.IH [of S] F v by auto
qed simp

lemma zero_expansion_slots_spec:
  assumes "tls_inv s" "0 \<notin> set ts"
  shows "tls_inv (zero_expansion_slots i ts s) \<and> g_activeTibs (zero_expansion_slots i ts s) = g_activeTibs s \<and>
    g_slotUsed (zero_expansion_slots i ts s) = g_slotUsed s \<and>
    (\<forall>t j. moduleValue t j (zero_expansion_slots i ts s) = moduleValue t j s) \<and>
    (\<forall>t j. slotValue t j (zero_expansion_slots i ts s) =
       (if t \<in> set ts \<and> j = kTlsSlotCount + i then 0 else slotValue t j s))"
  using assms
proof (induction ts arbitrary: s)
  case (Cons u ts)
  define S where "S = (case getExpansionArray u s of None \<Rightarrow> s
        | Some a \<Rightarrow> if i \<ge> capacity_of s (Some a) then s else put_slots a ((slots_of s a)[i := 0]) s)"
  have ge: "getExpansionArray u s = exp_arr s u" using Cons.prems(2) by (auto simp: getExpansionArray_def exp_arr_def)
  have "tls_inv S \<and> g_activeTibs S = g_activeTibs s \<and> g_slotUsed S = g_slotUsed s \<and> (\<forall>t j. moduleValue t j S = moduleValue t j s) \<and>
      (\<forall>t j. slotValue t j S = (if t = u \<and> j = kTlsSlotCount + i then 0 else slotValue t j s))"
  proof (cases "exp_arr s u")
    case None
    then show ?thesis using Cons.prems by (auto simp: S_def ge slotValue_def expValue_def contents_def)
  next
    case (Some a)
    show ?thesis
    proof (cases "i \<ge> capacity_of s (Some a)")
      case True
      then show ?thesis using Some Cons.prems by (auto simp: S_def ge slotValue_def expValue_def contents_def capacity_of_def nth0_def)
    next
      case False
      have Se: "S = put_slots a ((slots_of s a)[i := 0]) s" using Some False by (simp add: S_def ge)
      have "g_moduleArrays s t \<noteq> Some a" for t
        using refs_disjoint [OF Cons.prems(1) exp_in_refs mod_in_refs] refs_distinct [OF Cons.prems(1), of u] Some
        by (auto simp: refs_def)
      moreover have "exp_arr s t = Some a \<longleftrightarrow> t = u" for t
        using refs_disjoint [OF Cons.prems(1) exp_in_refs exp_in_refs] Some by blast
      moreover have "tls_inv S" unfolding Se
        using Cons.prems(1) refs_live [OF Cons.prems(1) exp_in_refs [OF Some]] by (intro tls_inv_put) auto
      moreover have "nth0 ((slots_of s a)[i := 0]) j = (if j = i then 0 else expValue u j s)" for j
        using False Some by (simp add: nth0_update capacity_of_def expValue_def contents_def)
      ultimately show ?thesis by (auto simp: Se put_values slotValue_def)
    qed
  qed
  moreover have "zero_expansion_slots i (u # ts) s = zero_expansion_slots i ts S" by (simp add: S_def)
  ultimately show ?case using Cons.IH [of S] Cons.prems(2) by auto
qed simp


lemma zeroSlot_spec:
  assumes "tls_inv s"
  shows "tls_inv (zeroSlotForAllTibs i s) \<and> g_activeTibs (zeroSlotForAllTibs i s) = g_activeTibs s \<and>
    g_slotUsed (zeroSlotForAllTibs i s) = g_slotUsed s \<and>
    (\<forall>t j. moduleValue t j (zeroSlotForAllTibs i s) = moduleValue t j s) \<and>
    (\<forall>t j. slotValue t j (zeroSlotForAllTibs i s) = (if t \<in> set (g_activeTibs s) \<and> j = i then 0 else slotValue t j s))"
proof (cases "i < kTlsSlotCount")
  case True
  then show ?thesis using zero_teb_slots_spec [OF assms True, of "g_activeTibs s"] by (simp add: zeroSlotForAllTibs_def)
next
  case False
  then show ?thesis using zero_expansion_slots_spec [OF assms tls_invD(4) [OF assms], of "i - kTlsSlotCount"]
    by (simp add: zeroSlotForAllTibs_def)
qed

lemma slotUsed_update:
  shows "slotValue t i (s\<lparr>g_slotUsed := us\<rparr>) = slotValue t i s" "moduleValue t i (s\<lparr>g_slotUsed := us\<rparr>) = moduleValue t i s"
proof -
  have "contents (s\<lparr>g_slotUsed := us\<rparr>) = contents s" by (rule contents_store) simp
  then show "slotValue t i (s\<lparr>g_slotUsed := us\<rparr>) = slotValue t i s" "moduleValue t i (s\<lparr>g_slotUsed := us\<rparr>) = moduleValue t i s"
    by (simp_all add: slotValue_def expValue_def moduleValue_def)
qed

lemma tls_inv_slotUsed: "tls_inv s \<Longrightarrow> length us = kTlsMaxSlotCount \<Longrightarrow> tls_inv (s\<lparr>g_slotUsed := us\<rparr>)"
  by (simp add: tls_inv_def slots_of_def)

lemma same_slotValue: "same_values s s' \<Longrightarrow> slotValue t i s' = slotValue t i s"
  by (simp add: same_values_def slotValue_def)

text \<open>What reserving slot \<open>i\<close> does: it is marked and reads as 0 in every active thread.\<close>

definition reserved :: "nat \<Rightarrow> TlsState \<Rightarrow> TlsState \<Rightarrow> bool" where
  "reserved i s s' \<longleftrightarrow> g_slotUsed s' = (g_slotUsed s)[i := True] \<and> g_activeTibs s' = g_activeTibs s \<and>
     (\<forall>t j. moduleValue t j s' = moduleValue t j s) \<and>
     (\<forall>t j. slotValue t j s' = (if t \<in> set (g_activeTibs s) \<and> j = i then 0 else slotValue t j s))"

lemma reserve_loop_spec:
  assumes "tls_inv s" "fresh_malloc gm" "reserve_loop gm is s = (r, s')"
  shows "tls_inv s' \<and>
    ((r = kInvalidTlsIndex \<and> same_values s s' \<and> (\<forall>j \<in> set is. j < kTlsSlotCount \<longrightarrow> g_slotUsed s ! j \<or> (\<exists>k \<in> set (takeWhile (\<lambda>i. i \<noteq> j) is). kTlsSlotCount \<le> k))) \<or>
     (r \<in> set is \<and> \<not> g_slotUsed s ! r \<and> (\<forall>j \<in> set (takeWhile (\<lambda>j. j \<noteq> r) is). g_slotUsed s ! j) \<and> reserved r s s'))"
  using assms(3)
proof (induction "is")
  case Nil
  then show ?case using assms(1) by simp
next
  case (Cons i js)
  show ?case
  proof (cases "g_slotUsed s ! i")
    case True
    then have "reserve_loop gm js s = (r, s')" using Cons.prems by simp
    from Cons.IH [OF this] show ?thesis using True by auto
  next
    case False
    obtain ok s1 where e: "(if i \<ge> kTlsSlotCount then ensureGlobalExpansionCapacityLocked gm (i - kTlsSlotCount + 1) s else (True, s)) = (ok, s1)"
      by fastforce
    have s1: "tls_inv s1" "same_values s s1"
      using ensureGlobal_spec [OF assms(1,2), of "i - kTlsSlotCount + 1" ok s1] e assms(1) by (auto split: if_splits)
    show ?thesis
    proof (cases ok)
      case True
      have rs: "r = i" "s' = zeroSlotForAllTibs i (s1\<lparr>g_slotUsed := (g_slotUsed s1)[i := True]\<rparr>)"
        using Cons.prems False e True by auto
      have "tls_inv (s1\<lparr>g_slotUsed := (g_slotUsed s1)[i := True]\<rparr>)"
        using s1(1) tls_invD(5) [OF s1(1)] by (intro tls_inv_slotUsed) simp_all
      from zeroSlot_spec [OF this, of i] have "tls_inv s' \<and> reserved i s s'"
        using s1(2) unfolding rs(2) reserved_def slotUsed_update by (simp add: same_slotValue) (simp add: same_values_def)
      then show ?thesis using False rs(1) by simp
    next
      case notok: False
      then have "r = kInvalidTlsIndex" "s' = s1" using Cons.prems False e by simp_all
      moreover have "kTlsSlotCount \<le> i" using e notok by (auto split: if_splits)
      ultimately show ?thesis using s1 by auto
    qed
  qed
qed

lemma takeWhile_upt: "r < n \<Longrightarrow> takeWhile (\<lambda>j. j \<noteq> r) [0..<n] = [0..<r]"
proof -
  assume "r < n"
  then have "[0..<n] = [0..<r] @ r # [Suc r..<n]" using upt_add_eq_append [of 0 r "n - r"] by (simp add: upt_conv_Cons)
  then show ?thesis by (simp add: takeWhile_append)
qed

lemma reserveSlot_spec:
  assumes "tls_inv s" "fresh_malloc gm" "reserveSlot gm s = (r, s')"
  shows "tls_inv s' \<and>
    ((r = kInvalidTlsIndex \<and> same_values s s' \<and> (\<forall>j < kTlsSlotCount. g_slotUsed s ! j)) \<or>
     (r < kTlsMaxSlotCount \<and> \<not> g_slotUsed s ! r \<and> (\<forall>j < r. g_slotUsed s ! j) \<and> reserved r s s'))"
proof -
  have lt: "kTlsSlotCount < kTlsMaxSlotCount" by (simp add: kTlsSlotCount_def kTlsMaxSlotCount_def)
  have "\<not> kTlsSlotCount \<le> k" if "j < kTlsSlotCount" "k \<in> set (takeWhile (\<lambda>i. i \<noteq> j) [0..<kTlsMaxSlotCount])" for j k
    using that takeWhile_upt [of j kTlsMaxSlotCount] lt by auto
  moreover have "set (takeWhile (\<lambda>j. j \<noteq> r) [0..<kTlsMaxSlotCount]) = {0..<r}" if "r \<in> set [0..<kTlsMaxSlotCount]"
    using takeWhile_upt [of r kTlsMaxSlotCount] that by simp
  ultimately show ?thesis
    using reserve_loop_spec [OF assms(1,2) assms(3) [unfolded reserveSlot_def]] lt by fastforce
qed

lemma releaseSlot_spec:
  assumes "tls_inv s" "releaseSlot i s = (ok, s')"
  shows "tls_inv s' \<and> ok = isSlotAllocated i s \<and> (\<not> ok \<longrightarrow> s' = s) \<and> g_activeTibs s' = g_activeTibs s \<and>
    (ok \<longrightarrow> g_slotUsed s' = (g_slotUsed s)[i := False]) \<and> (\<forall>t j. moduleValue t j s' = moduleValue t j s) \<and>
    (\<forall>t j. slotValue t j s' = (if ok \<and> t \<in> set (g_activeTibs s) \<and> j = i then 0 else slotValue t j s))"
proof (cases "isSlotAllocated i s")
  case True
  then have rs: "ok" "s' = zeroSlotForAllTibs i (s\<lparr>g_slotUsed := (g_slotUsed s)[i := False]\<rparr>)"
    using assms(2) by (auto simp: releaseSlot_def isSlotAllocated_def)
  have "tls_inv (s\<lparr>g_slotUsed := (g_slotUsed s)[i := False]\<rparr>)"
    using assms(1) tls_invD(5) [OF assms(1)] by (intro tls_inv_slotUsed) simp_all
  from zeroSlot_spec [OF this, of i] show ?thesis using True rs by (simp add: slotUsed_update)
next
  case False
  then show ?thesis using assms by (auto simp: releaseSlot_def isSlotAllocated_def split: if_splits)
qed

lemma put_expansion:
  assumes i: "tls_inv s" and e: "exp_arr s t = Some a" and j: "j < length (slots_of s a)"
  shows "tls_inv (put_slots a ((slots_of s a)[j := v]) s)"
    "moduleValue u k (put_slots a ((slots_of s a)[j := v]) s) = moduleValue u k s"
    "slotValue u k (put_slots a ((slots_of s a)[j := v]) s) = (if u = t \<and> k = kTlsSlotCount + j then v else slotValue u k s)"
proof -
  have m: "g_moduleArrays s u \<noteq> Some a" for u
    using refs_disjoint [OF i exp_in_refs mod_in_refs] refs_distinct [OF i, of t] e by (auto simp: refs_def)
  have x: "exp_arr s u = Some a \<longleftrightarrow> u = t" for u using refs_disjoint [OF i exp_in_refs exp_in_refs] e by blast
  show "tls_inv (put_slots a ((slots_of s a)[j := v]) s)"
    using i refs_live [OF i exp_in_refs [OF e]] by (intro tls_inv_put) auto
  show "moduleValue u k (put_slots a ((slots_of s a)[j := v]) s) = moduleValue u k s" by (simp add: put_values m)
  have "expValue t k s = nth0 (slots_of s a) k" for k using e by (simp add: expValue_def contents_def)
  then show "slotValue u k (put_slots a ((slots_of s a)[j := v]) s) = (if u = t \<and> k = kTlsSlotCount + j then v else slotValue u k s)"
    by (auto simp: slotValue_def put_values x nth0_update [OF j])
qed

lemma put_module:
  assumes i: "tls_inv s" and e: "g_moduleArrays s t = Some a" and j: "j < length (slots_of s a)"
  shows "tls_inv (put_slots a ((slots_of s a)[j := v]) s)"
    "slotValue u k (put_slots a ((slots_of s a)[j := v]) s) = slotValue u k s"
    "moduleValue u k (put_slots a ((slots_of s a)[j := v]) s) = (if u = t \<and> k = j then v else moduleValue u k s)"
proof -
  have m: "exp_arr s u \<noteq> Some a" for u
    using refs_disjoint [OF i exp_in_refs mod_in_refs] refs_distinct [OF i, of t] e by (auto simp: refs_def)
  have x: "g_moduleArrays s u = Some a \<longleftrightarrow> u = t" for u using refs_disjoint [OF i mod_in_refs mod_in_refs] e by blast
  show "tls_inv (put_slots a ((slots_of s a)[j := v]) s)"
    using i refs_live [OF i mod_in_refs [OF e]] by (intro tls_inv_put) auto
  show "slotValue u k (put_slots a ((slots_of s a)[j := v]) s) = slotValue u k s" by (simp add: slotValue_def put_values m)
  have "moduleValue t k s = nth0 (slots_of s a) k" for k using e by (simp add: moduleValue_def contents_def)
  then show "moduleValue u k (put_slots a ((slots_of s a)[j := v]) s) = (if u = t \<and> k = j then v else moduleValue u k s)"
    by (simp add: put_values x nth0_update [OF j])
qed

text \<open>What storing \<open>v\<close> in slot \<open>i\<close> of thread \<open>t\<close> does, when it succeeds.\<close>

definition stored :: "bool \<Rightarrow> nat \<Rightarrow> nat \<Rightarrow> u32 \<Rightarrow> TlsState \<Rightarrow> TlsState \<Rightarrow> bool" where
  "stored ok t i v s s' \<longleftrightarrow> g_slotUsed s' = g_slotUsed s \<and> g_activeTibs s' = g_activeTibs s \<and>
     (\<forall>u j. moduleValue u j s' = moduleValue u j s) \<and>
     (\<forall>u j. slotValue u j s' = (if ok \<and> u = t \<and> j = i then v else slotValue u j s))"

lemma setValue_teb:
  assumes "tls_inv s" "i < kTlsSlotCount" "t \<noteq> 0"
  shows "\<exists>s'. setValue gm t i v s = (True, s') \<and> tls_inv s' \<and> stored True t i v s s'"
proof -
  have lt: "i < kTlsMaxSlotCount" using assms(2) by (simp add: kTlsSlotCount_def kTlsMaxSlotCount_def)
  have l: "length ((TlsSlots (tebs s t))[i := v]) = length (TlsSlots (tebs s t))" by simp
  note F = set_teb_slots [OF l refl]
  show ?thesis using assms lt tls_invD(7) [OF assms(1), of t]
    by (auto simp: setValue_def F stored_def slotValue_def nth0_update)
qed

lemma setValue_spec:
  assumes i: "tls_inv s" and f: "fresh_malloc gm" and e: "setValue gm t i v s = (ok, s')"
  shows "tls_inv s' \<and> stored ok t i v s s' \<and> (ok \<longrightarrow> t \<noteq> 0 \<and> i < kTlsMaxSlotCount)"
proof (cases "t = 0 \<or> i \<ge> kTlsMaxSlotCount \<or> i < kTlsSlotCount")
  case True
  then show ?thesis using setValue_teb [OF i, of i t gm v] e i by (auto simp: setValue_def stored_def split: if_splits)
next
  case False
  define x where "x = i - kTlsSlotCount"
  have ge: "getExpansionArray t s = exp_arr s t" for s using False by (simp add: getExpansionArray_def exp_arr_def)
  obtain b s1 where en: "(if exp_arr s t = None \<or> x \<ge> capacity_of s (exp_arr s t)
      then ensureGlobalExpansionCapacityLocked gm (x + 1) s else (True, s)) = (b, s1)" by fastforce
  have s1: "tls_inv s1" "same_values s s1"
    using ensureGlobal_spec [OF i f, of "x + 1" b s1] en i by (auto split: if_splits)
  then have st: "stored False t i v s s1" by (auto simp: stored_def same_slotValue) (auto simp: same_values_def)
  have sv: "setValue gm t i v s = (if \<not> b then (False, s1) else case exp_arr s1 t of None \<Rightarrow> (False, s1)
      | Some a \<Rightarrow> if x \<ge> capacity_of s1 (Some a) then (False, s1) else (True, put_slots a ((slots_of s1 a)[x := v]) s1))"
    using False en unfolding setValue_def Let_def ge x_def [symmetric] by auto
  show ?thesis
  proof (cases "\<exists>a. b \<and> exp_arr s1 t = Some a \<and> x < length (slots_of s1 a)")
    case True
    then obtain a where a: "b" "exp_arr s1 t = Some a" "x < length (slots_of s1 a)" by blast
    have r: "ok" "s' = put_slots a ((slots_of s1 a)[x := v]) s1" using e a unfolding sv by (auto simp: capacity_of_def)
    have "stored True t i v s s'" using st False unfolding r(2) stored_def put_expansion(2,3) [OF s1(1) a(2,3)] by (simp add: x_def)
    then show ?thesis using put_expansion(1) [OF s1(1) a(2,3)] r False by simp
  next
    case nz: False
    then have "\<not> ok" "s' = s1" using e unfolding sv by (auto simp: capacity_of_def split: if_splits option.splits)
    then show ?thesis using s1 st by simp
  qed
qed


section \<open>Threads coming and going\<close>

lemma activate_inv:
  "tls_inv s \<Longrightarrow> t \<noteq> 0 \<Longrightarrow> t \<notin> set (g_activeTibs s) \<Longrightarrow> tls_inv (s\<lparr>g_activeTibs := g_activeTibs s @ [t]\<rparr>)"
  by (simp add: tls_inv_def slots_of_def)

text \<open>Giving a thread without one an array with the contents \<open>0\<close>.\<close>

lemma add_expansion:
  assumes i: "tls_inv s" and t: "t \<in> set (g_activeTibs s)" and e: "exp_arr s t = None" and a: "arrays (store s) a = None"
    and S: "S = setExpansionArray t (Some a) (s\<lparr>store := (store s)\<lparr>allocs := n,
              arrays := (arrays (store s))(a \<mapsto> replicate (g_expansionCapacity s) 0)\<rparr>\<rparr>)"
  shows "tls_inv S \<and> same_values s S"
proof -
  have t0: "t \<noteq> 0" using t tls_invD(4) [OF i] by metis
  have F: "tebs S = (tebs s)(t := (tebs s t)\<lparr>TlsExpansionSlots := a + slotsOffset\<rparr>)"
      "arrays (store S) = (arrays (store s))(a \<mapsto> replicate (g_expansionCapacity s) 0)" "fault (store S) = fault (store s)"
      "g_moduleArrays S = g_moduleArrays s" "g_moduleGarbage S = g_moduleGarbage s" "g_activeTibs S = g_activeTibs s"
      "g_slotUsed S = g_slotUsed s" "g_expansionCapacity S = g_expansionCapacity s" "g_moduleArrayCapacity S = g_moduleArrayCapacity s"
    using t0 by (simp_all add: S setExpansionArray_def set_teb_def)
  have ex: "exp_arr S u = (if u = t then Some a else exp_arr s u)" for u by (simp add: exp_arr_def F)
  have rf: "refs S u = (if u = t then a # refs s u else refs s u)" for u by (simp add: refs_def ex e F garbage_def)
  have old: "a \<notin> set (refs s u)" for u using refs_live [OF i] a by blast
  have sl: "slots_of S b = slots_of s b" if "b \<in> set (refs s u)" for b u
    using that old [of u] by (auto simp: slots_of_def F)
  have new: "slots_of S a = replicate (g_expansionCapacity s) 0" by (simp add: slots_of_def F)
  have "owned (arrays (store S)) (refs S)"
  proof (rule owned_change [OF tls_invD(2) [OF i], where N = "\<lambda>u. if u = t then {a} else {}" and D = "\<lambda>u. {}"])
    fix u v :: nat
    show "distinct (refs S u)" using refs_distinct [OF i, of u] old by (auto simp: rf)
    show "set (refs S u) = (if u = t then {a} else {}) \<union> (set (refs s u) - {})" by (simp add: rf)
    show "(if u = t then {a} else {}) \<inter> (if v = t then {a} else {}) = {}" if "u \<noteq> v" using that by auto
    show "(if u = t then {a} else {}) \<inter> dom (arrays (store s)) = {}" using a by auto
  qed (auto simp: F)
  then have "tls_inv S" using tls_invD [OF i] t sl [OF exp_in_refs] sl [OF mod_in_refs] new
    unfolding tls_inv_def by (auto simp: ex rf F)
  moreover have "expValue u j S = expValue u j s" for u j
    using sl [OF exp_in_refs, of u] e new by (cases "exp_arr s u") (auto simp: expValue_def ex contents_def)
  moreover have "moduleValue u j S = moduleValue u j s" for u j
    using sl [OF mod_in_refs, of u] by (cases "g_moduleArrays s u") (auto simp: moduleValue_def F contents_def)
  ultimately show ?thesis by (simp add: same_values_def F)
qed

lemma add_module:
  assumes i: "tls_inv s" and t: "t \<in> set (g_activeTibs s)" and e: "g_moduleArrays s t = None" and a: "arrays (store s) a = None"
    and S: "S = setModuleArray t a (s\<lparr>store := (store s)\<lparr>allocs := n,
              arrays := (arrays (store s))(a \<mapsto> replicate (g_moduleArrayCapacity s) 0)\<rparr>\<rparr>)"
  shows "tls_inv S \<and> same_values s S"
proof -
  have F: "tebs S = (tebs s)(t := (tebs s t)\<lparr>ThreadLocalStoragePointer := a + slotsOffset\<rparr>)"
      "arrays (store S) = (arrays (store s))(a \<mapsto> replicate (g_moduleArrayCapacity s) 0)" "fault (store S) = fault (store s)"
      "g_moduleArrays S = (g_moduleArrays s)(t \<mapsto> a)" "g_moduleGarbage S = g_moduleGarbage s" "g_activeTibs S = g_activeTibs s"
      "g_slotUsed S = g_slotUsed s" "g_expansionCapacity S = g_expansionCapacity s" "g_moduleArrayCapacity S = g_moduleArrayCapacity s"
    by (simp_all add: S setModuleArray_def set_teb_def)
  have ex: "exp_arr S u = exp_arr s u" for u by (simp add: exp_arr_def F)
  have rf: "refs S u = opt_list (exp_arr s u) @ (if u = t then [a] else opt_list (g_moduleArrays s u)) @ garbage s u" for u
    by (simp add: refs_def ex F garbage_def)
  have st: "set (refs S u) = (if u = t then {a} else {}) \<union> set (refs s u)" for u using e by (auto simp: rf) (auto simp: refs_def)
  have old: "a \<notin> set (refs s u)" for u using refs_live [OF i] a by blast
  have sl: "slots_of S b = slots_of s b" if "b \<in> set (refs s u)" for b u
    using that old [of u] by (auto simp: slots_of_def F)
  have new: "slots_of S a = replicate (g_moduleArrayCapacity s) 0" by (simp add: slots_of_def F)
  have "owned (arrays (store S)) (refs S)"
  proof (rule owned_change [OF tls_invD(2) [OF i], where N = "\<lambda>u. if u = t then {a} else {}" and D = "\<lambda>u. {}"])
    fix u v :: nat
    show "distinct (refs S u)" using refs_distinct [OF i, of u] old [of u] by (auto simp: rf) (auto simp: refs_def)
    show "set (refs S u) = (if u = t then {a} else {}) \<union> (set (refs s u) - {})" by (simp add: st)
    show "(if u = t then {a} else {}) \<inter> (if v = t then {a} else {}) = {}" if "u \<noteq> v" using that by auto
    show "(if u = t then {a} else {}) \<inter> dom (arrays (store s)) = {}" using a by auto
  qed (auto simp: F)
  moreover have "refs S u = []" if "u \<notin> set (g_activeTibs s)" for u
    using tls_invD(8) [OF i that] st [of u] that t by (metis Un_empty_right set_empty sup_bot_left)
  ultimately have "tls_inv S" using tls_invD [OF i] sl [OF exp_in_refs] sl [OF mod_in_refs] new
    unfolding tls_inv_def by (simp add: ex F)
  moreover have "expValue u j S = expValue u j s" for u j
    using sl [OF exp_in_refs, of u] by (cases "exp_arr s u") (auto simp: expValue_def ex contents_def)
  moreover have "moduleValue u j S = moduleValue u j s" for u j
    using sl [OF mod_in_refs, of u] e new by (cases "g_moduleArrays s u") (auto simp: moduleValue_def F contents_def)
  ultimately show ?thesis by (simp add: same_values_def F)
qed


lemma give_expansion:
  assumes i: "tls_inv s" and f: "fresh_malloc gm" and t: "t \<in> set (g_activeTibs s)" and e: "exp_arr s t = None"
    and S: "S = (case allocateTlsArray gm (g_expansionCapacity s) s of (None, s') \<Rightarrow> s' | (Some a, s') \<Rightarrow> setExpansionArray t (Some a) s')"
  shows "tls_inv S \<and> same_values s S \<and> g_moduleArrays S = g_moduleArrays s"
proof -
  obtain r s' where al: "allocateTlsArray gm (g_expansionCapacity s) s = (r, s')" by fastforce
  show ?thesis
  proof (rule allocateTlsArray_cases [OF f al])
    fix n assume "r = None" "s' = s\<lparr>store := (store s)\<lparr>allocs := n\<rparr>\<rparr>"
    then show ?thesis using al i by (simp add: S)
  next
    fix a n assume r: "r = Some a" and a: "arrays (store s) a = None"
      and s': "s' = s\<lparr>store := (store s)\<lparr>allocs := n, arrays := (arrays (store s))(a \<mapsto> replicate (g_expansionCapacity s) 0)\<rparr>\<rparr>"
    have S': "S = setExpansionArray t (Some a) s'" using al r by (simp add: S)
    have "g_moduleArrays S = g_moduleArrays s" by (simp add: S' setExpansionArray_def set_teb_def s')
    with add_expansion [OF i t e a S' [unfolded s']] show ?thesis by simp
  qed
qed

lemma give_module:
  assumes i: "tls_inv s" and f: "fresh_malloc gm" and t: "t \<in> set (g_activeTibs s)" and e: "g_moduleArrays s t = None"
    and S: "S = (case allocateTlsArray gm (g_moduleArrayCapacity s) s of (None, s') \<Rightarrow> s' | (Some a, s') \<Rightarrow> setModuleArray t a s')"
  shows "tls_inv S \<and> same_values s S"
proof -
  obtain r s' where al: "allocateTlsArray gm (g_moduleArrayCapacity s) s = (r, s')" by fastforce
  show ?thesis
  proof (rule allocateTlsArray_cases [OF f al])
    fix n assume "r = None" "s' = s\<lparr>store := (store s)\<lparr>allocs := n\<rparr>\<rparr>"
    then show ?thesis using al i by (simp add: S)
  next
    fix a n assume r: "r = Some a" and a: "arrays (store s) a = None"
      and s': "s' = s\<lparr>store := (store s)\<lparr>allocs := n, arrays := (arrays (store s))(a \<mapsto> replicate (g_moduleArrayCapacity s) 0)\<rparr>\<rparr>"
    have S': "S = setModuleArray t a s'" using al r by (simp add: S)
    from add_module [OF i t e a S' [unfolded s']] show ?thesis .
  qed
qed

lemma initializeTib_spec:
  assumes i: "tls_inv s" and f: "fresh_malloc gm"
  shows "tls_inv (initializeTib gm t s) \<and> same_values (s\<lparr>g_activeTibs := g_activeTibs (initializeTib gm t s)\<rparr>) (initializeTib gm t s) \<and>
    g_activeTibs (initializeTib gm t s) = (if t = 0 \<or> t \<in> set (g_activeTibs s) then g_activeTibs s else g_activeTibs s @ [t])"
proof (cases "t = 0 \<or> t \<in> set (g_activeTibs s)")
  case True
  then show ?thesis using i by (auto simp: initializeTib_def)
next
  case False
  define s1 where "s1 = s\<lparr>g_activeTibs := g_activeTibs s @ [t]\<rparr>"
  have i1: "tls_inv s1" using activate_inv [OF i, of t] False by (simp add: s1_def)
  have r1: "exp_arr s1 t = None" "g_moduleArrays s1 t = None" using tls_invD(8) [OF i, of t] False by (simp_all add: s1_def refs_def)
  have t1: "t \<in> set (g_activeTibs s1)" by (simp add: s1_def)
  define s2 where "s2 = (if g_expansionCapacity s1 > 0 \<and> getExpansionArray t s1 = None then
      case allocateTlsArray gm (g_expansionCapacity s1) s1 of (None, s') \<Rightarrow> s' | (Some a, s') \<Rightarrow> setExpansionArray t (Some a) s' else s1)"
  have i2: "tls_inv s2 \<and> same_values s1 s2 \<and> g_moduleArrays s2 t = None"
  proof (cases "g_expansionCapacity s1 > 0 \<and> getExpansionArray t s1 = None")
    case True
    then show ?thesis using give_expansion [OF i1 f t1 r1(1), of s2] r1(2) by (simp add: s2_def)
  next
    case no: False
    then show ?thesis using i1 r1 by (auto simp: s2_def)
  qed
  have t2: "t \<in> set (g_activeTibs s2)" using i2 t1 by (simp add: same_values_def)
  define s3 where "s3 = initializeTib gm t s"
  have e: "s3 = (if g_moduleArrayCapacity s2 > 0 then
      case allocateTlsArray gm (g_moduleArrayCapacity s2) s2 of (None, s') \<Rightarrow> s' | (Some a, s') \<Rightarrow> setModuleArray t a s' else s2)"
    using False i2 getModuleArray_pure [of s2 t]
    by (simp add: s3_def initializeTib_def s1_def [symmetric] s2_def [symmetric])
  have "tls_inv s3 \<and> same_values s2 s3"
  proof (cases "g_moduleArrayCapacity s2 > 0")
    case True
    then show ?thesis using give_module [OF _ f t2, of s3] i2 e by simp
  next
    case no: False
    then show ?thesis using e i2 by simp
  qed
  then have "tls_inv s3" "same_values s1 s3" using i2 by (simp_all add: same_values_def)
  then show ?thesis using False unfolding s3_def [symmetric] by (simp add: same_values_def s1_def)
qed

definition freed :: "nat set \<Rightarrow> ArrayStore \<Rightarrow> ArrayStore" where
  "freed A st = st\<lparr>arrays := (\<lambda>a. if a \<in> A then None else arrays st a)\<rparr>"

lemma guestFree_live: "arrays (store s) a \<noteq> None \<Longrightarrow> guestFree a s = s\<lparr>store := freed {a} (store s)\<rparr>"
  by (auto simp: guestFree_def freed_def Let_def fun_upd_def)

lemma free_all_freed: "distinct as \<Longrightarrow> set as \<subseteq> dom (arrays (store s)) \<Longrightarrow> free_all as s = s\<lparr>store := freed (set as) (store s)\<rparr>"
  by (simp add: free_all_spec freed_def)

lemma freed_simps [simp]:
  "freed {} st = st" "freed A (freed B st) = freed (B \<union> A) st" "fault (freed A st) = fault st" "allocs (freed A st) = allocs st"
  "arrays (freed A st) a = (if a \<in> A then None else arrays st a)"
  by (auto simp: freed_def fun_eq_iff intro!: ArrayStore.equality)

lemma arrayFromSlots_None [simp]: "arrayFromSlots p = None \<longleftrightarrow> p = 0" by (simp add: arrayFromSlots_def)

text \<open>The four parts of \<open>cleanupTib\<close> together.\<close>

lemma cleanupTib_state:
  assumes i: "tls_inv s" and t: "t \<noteq> 0"
  shows "cleanupTib t s = s\<lparr>tebs := (tebs s)(t := (tebs s t)\<lparr>TlsExpansionSlots := 0, ThreadLocalStoragePointer := 0\<rparr>),
    g_moduleArrays := (g_moduleArrays s)(t := None), g_moduleGarbage := (g_moduleGarbage s)(t := None),
    g_activeTibs := remove1 t (g_activeTibs s), store := freed (set (refs s t)) (store s)\<rparr>"
proof -
  define s1 where "s1 = s\<lparr>tebs := (tebs s)(t := (tebs s t)\<lparr>TlsExpansionSlots := 0\<rparr>), store := freed (set_option (exp_arr s t)) (store s)\<rparr>"
  have s1: "(case getExpansionArray t s of None \<Rightarrow> s | Some a \<Rightarrow> setExpansionArray t None (guestFree a s)) = s1"
  proof (cases "exp_arr s t")
    case None
    then have "TlsExpansionSlots (tebs s t) = 0" by (simp add: exp_arr_def)
    then have "(tebs s t)\<lparr>TlsExpansionSlots := 0\<rparr> = tebs s t" by (auto intro!: TEB.equality)
    then have "(tebs s)(t := (tebs s t)\<lparr>TlsExpansionSlots := 0\<rparr>) = tebs s" by (simp only: fun_upd_triv)
    then have "s1 = s" unfolding s1_def None by (auto intro!: TlsState.equality)
    then show ?thesis using t None by (simp add: getExpansionArray_def exp_arr_def)
  next
    case (Some a)
    have "getExpansionArray t s = Some a" using t Some by (simp add: getExpansionArray_def exp_arr_def)
    then show ?thesis using t Some refs_live [OF i exp_in_refs [OF Some]]
      by (simp add: guestFree_live setExpansionArray_def set_teb_def s1_def)
  qed
  have m1: "getModuleArray t s1 = (g_moduleArrays s t, s1)"
    using t tls_invD(9) [OF i, of t] by (simp add: getModuleArray_def s1_def split: option.split)
  define s2 where "s2 = s1\<lparr>g_moduleArrays := (g_moduleArrays s)(t := None), store := freed (set_option (g_moduleArrays s t)) (store s1)\<rparr>"
  have s2: "(case getModuleArray t s1 of (None, s') \<Rightarrow> s'
      | (Some a, s') \<Rightarrow> guestFree a (s'\<lparr>g_moduleArrays := (g_moduleArrays s')(t := None)\<rparr>)) = s2"
  proof (cases "g_moduleArrays s t")
    case None
    then show ?thesis unfolding m1 by (auto simp: s2_def s1_def intro!: TlsState.equality)
  next
    case (Some a)
    have "a \<notin> set_option (exp_arr s t)" using refs_distinct [OF i, of t] Some by (simp add: refs_def)
    then have "arrays (store s1) a \<noteq> None" using refs_live [OF i mod_in_refs [OF Some]] by (simp add: s1_def)
    then show ?thesis unfolding m1 using Some by (simp add: guestFree_live s2_def s1_def)
  qed
  define s3 where "s3 = s2\<lparr>g_moduleGarbage := (g_moduleGarbage s)(t := None), store := freed (set (garbage s t)) (store s2)\<rparr>"
  have s3: "(case g_moduleGarbage s2 t of None \<Rightarrow> s2
      | Some os \<Rightarrow> (free_all os s2)\<lparr>g_moduleGarbage := (g_moduleGarbage s2)(t := None)\<rparr>) = s3"
  proof (cases "g_moduleGarbage s t")
    case None
    then show ?thesis by (auto simp: s3_def s2_def s1_def garbage_def intro!: TlsState.equality)
  next
    case (Some os)
    have g: "os = garbage s t" by (simp add: garbage_def Some)
    have "set os \<subseteq> dom (arrays (store s2))"
      using refs_live [OF i, of _ t] refs_distinct [OF i, of t] unfolding g by (auto simp: s2_def s1_def refs_def)
    moreover have "distinct os" using refs_distinct [OF i, of t] by (simp add: g refs_def)
    ultimately show ?thesis using Some by (simp add: free_all_freed s3_def s2_def s1_def g)
  qed
  have "set (refs s t) = set_option (exp_arr s t) \<union> set_option (g_moduleArrays s t) \<union> set (garbage s t)" by (auto simp: refs_def)
  moreover have "cleanupTib t s = (set_teb t ((tebs s3 t)\<lparr>ThreadLocalStoragePointer := 0\<rparr>) s3)\<lparr>g_activeTibs := remove1 t (g_activeTibs s)\<rparr>"
    using t unfolding cleanupTib_def Let_def s1 s2 s3 by (simp add: set_teb_def s3_def s2_def s1_def)
  ultimately show ?thesis by (simp add: set_teb_def s3_def s2_def s1_def)
qed

lemma cleanupTib_spec:
  assumes i: "tls_inv s"
  shows "tls_inv (cleanupTib t s) \<and> g_slotUsed (cleanupTib t s) = g_slotUsed s \<and>
    g_activeTibs (cleanupTib t s) = remove1 t (g_activeTibs s) \<and>
    (\<forall>u j. u \<noteq> t \<longrightarrow> slotValue u j (cleanupTib t s) = slotValue u j s \<and> moduleValue u j (cleanupTib t s) = moduleValue u j s) \<and>
    refs (cleanupTib t s) t = []"
proof (cases "t = 0")
  case True
  moreover have "0 \<notin> set (g_activeTibs s)" by (rule tls_invD(4) [OF i])
  ultimately show ?thesis using i tls_invD(8) [OF i, of 0] by (simp add: cleanupTib_def remove1_idem)
next
  case False
  define S where "S = cleanupTib t s"
  note S' = S_def [unfolded cleanupTib_state [OF i False]]
  have F: "tebs S = (tebs s)(t := (tebs s t)\<lparr>TlsExpansionSlots := 0, ThreadLocalStoragePointer := 0\<rparr>)"
    "g_moduleArrays S = (g_moduleArrays s)(t := None)" "g_moduleGarbage S = (g_moduleGarbage s)(t := None)"
    "g_activeTibs S = remove1 t (g_activeTibs s)" "store S = freed (set (refs s t)) (store s)"
    "g_slotUsed S = g_slotUsed s" "g_expansionCapacity S = g_expansionCapacity s" "g_moduleArrayCapacity S = g_moduleArrayCapacity s"
    unfolding S' by simp_all
  have ex: "exp_arr S u = (if u = t then None else exp_arr s u)" for u by (simp add: exp_arr_def F)
  have rf: "refs S u = (if u = t then [] else refs s u)" for u by (simp add: refs_def ex F garbage_def)
  have sl: "slots_of S a = slots_of s a" if "a \<in> set (refs s u)" "u \<noteq> t" for a u
    using refs_disjoint [OF i that(1), of t] that(2) by (auto simp: slots_of_def F)
  have "owned (arrays (store S)) (refs S)"
    by (rule owned_change [OF tls_invD(2) [OF i], where N = "\<lambda>u. {}" and D = "\<lambda>u. if u = t then set (refs s u) else {}"])
      (use refs_distinct [OF i] in \<open>auto simp: rf F split: if_splits\<close>)
  moreover have "refs S u = []" if "u \<notin> set (g_activeTibs S)" for u
    using that tls_invD(8) [OF i, of u] tls_invD(3) [OF i] by (auto simp: rf F)
  moreover have "g_moduleArrays S u = arrayFromSlots (ThreadLocalStoragePointer (tebs S u))" for u
    using tls_invD(9) [OF i, of u] by (simp add: F)
  moreover have "length (slots_of S a) = g_expansionCapacity s" if "exp_arr S u = Some a" for u a
    using that tls_invD(10) [OF i] sl [OF exp_in_refs] by (simp add: ex split: if_splits)
  moreover have "length (slots_of S a) = g_moduleArrayCapacity s" if "g_moduleArrays S u = Some a" for u a
    using that tls_invD(11) [OF i] sl [OF mod_in_refs] by (simp add: F split: if_splits)
  ultimately have "tls_inv S" using tls_invD(1,3-7) [OF i]
    unfolding tls_inv_def F(5-8) by (auto simp: F distinct_remove1 dest: notin_set_remove1)
  moreover have "slotValue u j S = slotValue u j s \<and> moduleValue u j S = moduleValue u j s" if "u \<noteq> t" for u j
  proof -
    have "contents S (exp_arr s u) = contents s (exp_arr s u)" using sl [OF exp_in_refs that] by (auto simp: contents_def split: option.split)
    moreover have "contents S (g_moduleArrays s u) = contents s (g_moduleArrays s u)"
      using sl [OF mod_in_refs that] by (auto simp: contents_def split: option.split)
    ultimately show ?thesis using that by (simp add: slotValue_def expValue_def moduleValue_def ex F)
  qed
  ultimately show ?thesis unfolding S_def [symmetric] by (simp add: F rf)
qed


section \<open>Module pointers\<close>

lemma set_pointer:
  assumes i: "tls_inv s" and m: "g_moduleArrays s t = Some a"
    and S: "S = set_teb t ((tebs s t)\<lparr>ThreadLocalStoragePointer := a + slotsOffset\<rparr>) s"
  shows "tls_inv S \<and> same_values s S"
proof -
  have F: "store S = store s" "g_moduleArrays S = g_moduleArrays s" "g_moduleGarbage S = g_moduleGarbage s" "g_activeTibs S = g_activeTibs s"
    "g_slotUsed S = g_slotUsed s" "g_expansionCapacity S = g_expansionCapacity s" "g_moduleArrayCapacity S = g_moduleArrayCapacity s"
    "tebs S = (tebs s)(t := (tebs s t)\<lparr>ThreadLocalStoragePointer := a + slotsOffset\<rparr>)"
    by (simp_all add: S set_teb_def)
  have ex: "exp_arr S = exp_arr s" by (rule ext) (simp add: exp_arr_def F)
  have rf: "refs S = refs s" unfolding refs_def [abs_def] garbage_def [abs_def] ex F ..
  note c = contents_store [OF F(1)]
  have "tls_inv S" using i m unfolding tls_inv_def ex rf c F(1-7) by (auto simp: F(8))
  moreover have "same_values s S" unfolding same_values_def expValue_def moduleValue_def ex c F(1-7) by (simp add: F(8))
  ultimately show ?thesis ..
qed

definition module_stored :: "bool \<Rightarrow> nat \<Rightarrow> nat \<Rightarrow> u32 \<Rightarrow> TlsState \<Rightarrow> TlsState \<Rightarrow> bool" where
  "module_stored ok t i v s s' \<longleftrightarrow> g_slotUsed s' = g_slotUsed s \<and> g_activeTibs s' = g_activeTibs s \<and>
     (\<forall>u j. slotValue u j s' = slotValue u j s) \<and>
     (\<forall>u j. moduleValue u j s' = (if ok \<and> u = t \<and> j = i then v else moduleValue u j s))"

lemma same_module_stored: "same_values s s' \<Longrightarrow> module_stored False t i v s s'"
  by (simp add: module_stored_def same_slotValue) (simp add: same_values_def)

lemma module_stored_trans:
  "same_values s s1 \<Longrightarrow> module_stored ok t i v s1 s2 \<Longrightarrow> same_values s2 s3 \<Longrightarrow> module_stored ok t i v s s3"
  by (simp add: module_stored_def same_slotValue) (simp add: same_values_def)

lemma setModulePointer_spec:
  assumes i: "tls_inv s" and f: "fresh_malloc gm" and e: "setModulePointer gm t j v s = (ok, s')"
  shows "tls_inv s' \<and> module_stored ok t j v s s'"
proof (cases "t = 0")
  case True
  then show ?thesis using e i same_module_stored [OF same_values_refl(1)] by (simp add: setModulePointer_def)
next
  case False
  obtain b s1 where en: "ensureModuleArrayCapacityLocked gm ((j + 1) mod 2 ^ 32) s = (b, s1)" by fastforce
  have s1: "tls_inv s1" "same_values s s1" using ensureModule_spec [OF i f en] by auto
  have sm: "setModulePointer gm t j v s = (if \<not> b then (False, s1) else case g_moduleArrays s1 t of None \<Rightarrow> (False, s1)
      | Some a \<Rightarrow> if j \<ge> capacity_of s1 (Some a) then (False, s1)
          else let s3 = put_slots a ((slots_of s1 a)[j := v]) s1 in
               (True, set_teb t ((tebs s3 t)\<lparr>ThreadLocalStoragePointer := a + slotsOffset\<rparr>) s3))"
    using False en getModuleArray_pure [OF s1(1) False] by (auto simp: setModulePointer_def Let_def split: option.split bool.split)
  show ?thesis
  proof (cases "\<exists>a. b \<and> g_moduleArrays s1 t = Some a \<and> j < length (slots_of s1 a)")
    case True
    then obtain a where a: "b" "g_moduleArrays s1 t = Some a" "j < length (slots_of s1 a)" by blast
    define s3 where "s3 = put_slots a ((slots_of s1 a)[j := v]) s1"
    have r: "ok" "s' = set_teb t ((tebs s3 t)\<lparr>ThreadLocalStoragePointer := a + slotsOffset\<rparr>) s3"
      using e a unfolding sm s3_def by (auto simp: capacity_of_def Let_def)
    have i3: "tls_inv s3" using put_module(1) [OF s1(1) a(2,3)] by (simp add: s3_def)
    have "module_stored True t j v s1 s3" unfolding module_stored_def s3_def put_module(2,3) [OF s1(1) a(2,3)] by simp
    moreover have "tls_inv s' \<and> same_values s3 s'" using set_pointer [OF i3 _ r(2)] a(2) by (simp add: s3_def)
    ultimately show ?thesis using module_stored_trans [OF s1(2)] r(1) by simp
  next
    case no: False
    then have "\<not> ok" "s' = s1" using e unfolding sm by (auto simp: capacity_of_def Let_def split: if_splits option.splits)
    then show ?thesis using s1 same_module_stored by simp
  qed
qed

lemma clearModulePointer_spec:
  assumes i: "tls_inv s"
  shows "tls_inv (clearModulePointer t j s) \<and> module_stored True t j 0 s (clearModulePointer t j s) \<or> t = 0 \<and> clearModulePointer t j s = s"
proof (cases "t = 0")
  case False
  show ?thesis
  proof (cases "g_moduleArrays s t")
    case None
    then show ?thesis using i False getModuleArray_pure [OF i False]
      by (auto simp: clearModulePointer_def module_stored_def moduleValue_def contents_def)
  next
    case (Some a)
    show ?thesis
    proof (cases "j < length (slots_of s a)")
      case True
      then have "clearModulePointer t j s = put_slots a ((slots_of s a)[j := 0]) s"
        using Some False getModuleArray_pure [OF i False] by (simp add: clearModulePointer_def capacity_of_def)
      then show ?thesis using put_module [OF i Some True] by (simp add: module_stored_def)
    next
      case no: False
      then have "clearModulePointer t j s = s"
        using Some False getModuleArray_pure [OF i False] by (simp add: clearModulePointer_def capacity_of_def)
      then show ?thesis using i no Some by (auto simp: module_stored_def moduleValue_def contents_def nth0_def)
    qed
  qed
qed (simp add: clearModulePointer_def)

end
