(* ===== verification/Tls_Properties.thy ===== *)
theory Tls_Properties
  imports Tls_Invariant
begin

text \<open>
  Thread-local storage for every sequence of calls: the states the calls of \<open>Tls_Slots\<close> reach, the
  ownership of the arrays in them, and the slots as one table of values per thread.
\<close>

section \<open>Reachable states\<close>

definition tls_init :: "TlsState \<Rightarrow> bool" where "tls_init s \<longleftrightarrow> s = tls_initial"

inductive tls_step :: "guest_malloc \<Rightarrow> TlsState \<Rightarrow> TlsState \<Rightarrow> bool" for gm where
  step_initializeTib: "tls_step gm s (initializeTib gm t s)"
| step_cleanupTib: "tls_step gm s (cleanupTib t s)"
| step_TlsAlloc: "TlsAlloc gm s = (i, e, s') \<Longrightarrow> tls_step gm s s'"
| step_TlsFree: "TlsFree i s = (ok, e, s') \<Longrightarrow> tls_step gm s s'"
| step_TlsSetValue: "TlsSetValue gm t i v s = (ok, e, s') \<Longrightarrow> tls_step gm s s'"
| step_ensureModulePointerCapacity: "ensureModulePointerCapacity gm n s = (ok, s') \<Longrightarrow> tls_step gm s s'"
| step_setModulePointer: "setModulePointer gm t i v s = (ok, s') \<Longrightarrow> tls_step gm s s'"
| step_clearModulePointer: "tls_step gm s (clearModulePointer t i s)"

lemma tls_inv_initial: "tls_inv tls_initial"
  by (simp add: tls_inv_def tls_initial_def owned_def refs_def exp_arr_def garbage_def)

lemma TlsAlloc_reserve: "TlsAlloc gm s = (i, e, s') \<Longrightarrow> \<exists>r. reserveSlot gm s = (r, s')"
  by (cases "reserveSlot gm s") (auto simp: TlsAlloc_def split: if_splits)

lemma tls_step_inv:
  assumes i: "tls_inv s" and f: "fresh_malloc gm" and st: "tls_step gm s s'"
  shows "tls_inv s'"
  using st
proof cases
  case step_initializeTib
  then show ?thesis using initializeTib_spec [OF i f] by simp
next
  case step_cleanupTib
  then show ?thesis using cleanupTib_spec [OF i] by simp
next
  case step_TlsAlloc
  then show ?thesis using TlsAlloc_reserve reserveSlot_spec [OF i f] by blast
next
  case (step_TlsFree j ok e)
  then obtain b where "releaseSlot j s = (b, s')"
    by (cases "releaseSlot j s") (auto simp: TlsFree_def split: bool.splits)
  then show ?thesis using releaseSlot_spec [OF i] by blast
next
  case (step_TlsSetValue t j v ok e)
  then have "s' = s \<or> (\<exists>b. setValue gm t j v s = (b, s'))"
    by (cases "setValue gm t j v s") (auto simp: TlsSetValue_def split: if_splits bool.splits)
  then show ?thesis using setValue_spec [OF i f] i by blast
next
  case step_ensureModulePointerCapacity
  then show ?thesis using ensureModule_spec [OF i f] unfolding ensureModulePointerCapacity_def by blast
next
  case step_setModulePointer
  then show ?thesis using setModulePointer_spec [OF i f] by blast
next
  case step_clearModulePointer
  then show ?thesis using clearModulePointer_spec [OF i] i by metis
qed

text \<open>Threads and calls in any order, with a \<open>guestMalloc\<close> that may fail at any time.\<close>

definition tls_run :: "TlsState \<Rightarrow> TlsState \<Rightarrow> bool" where
  "tls_run s s' \<longleftrightarrow> (\<exists>gm. fresh_malloc gm \<and> tls_step gm s s')"

interpretation tls: inductive_invariant tls_init tls_run tls_inv
  by unfold_locales (auto simp: tls_init_def tls_run_def tls_inv_initial intro: tls_step_inv)

lemma getValue_all: "tls_inv s \<Longrightarrow> getValue t i s = (if t = 0 \<or> i \<ge> kTlsMaxSlotCount then 0 else slotValue t i s)"
  using getValue_slotValue [of s t i] by (auto simp: getValue_def)

section \<open>Properties\<close>

text \<open>A \<open>guestMalloc\<close> that gives every call its own block, and a thread with one module pointer.\<close>

definition demo_malloc :: guest_malloc where
  "demo_malloc n h b = (let a = 4096 * (n + 1) in if h a = None then Some a else None)"

definition demo_thread :: TlsState where
  "demo_thread = initializeTib demo_malloc 16 tls_initial"

definition demo_module :: TlsState where
  "demo_module = snd (setModulePointer demo_malloc 16 0 7 demo_thread)"

lemma fresh_demo: "fresh_malloc demo_malloc"
  by (simp add: fresh_malloc_def demo_malloc_def Let_def)

lemma reach_demo_thread: "reach tls_init tls_run demo_thread"
  unfolding demo_thread_def
  by (rule reach_step [OF reach_init]) (auto simp: tls_init_def tls_run_def intro: fresh_demo step_initializeTib)

lemma reach_demo_module: "reach tls_init tls_run demo_module"
proof -
  have "setModulePointer demo_malloc 16 0 7 demo_thread = (fst (setModulePointer demo_malloc 16 0 7 demo_thread), demo_module)"
    by (simp add: demo_module_def)
  then have "tls_run demo_thread demo_module" unfolding tls_run_def using fresh_demo step_setModulePointer by blast
  then show ?thesis by (rule reach_step [OF reach_demo_thread])
qed

text \<open>
  C26: for every sequence of thread starts, thread ends and calls, with \<open>guestMalloc\<close> failing at any
  point: no array is freed twice, every live array is referenced by exactly one
  thread and from one place only, threads that have ended hold none (so nothing leaks), and every
  expansion and module array has the capacity recorded for all of them.
\<close>

theorem tls_arrays_owned:
  assumes "reach tls_init tls_run s"
  shows "\<not> fault (store s) \<and>
    (\<forall>a. arrays (store s) a \<noteq> None \<longrightarrow> (\<exists>!t. a \<in> set (refs s t))) \<and>
    (\<forall>t a. a \<in> set (refs s t) \<longrightarrow> arrays (store s) a \<noteq> None \<and> t \<in> set (g_activeTibs s)) \<and>
    (\<forall>t. distinct (refs s t)) \<and>
    (\<forall>t a. getExpansionArray t s = Some a \<longrightarrow> length (slots_of s a) = g_expansionCapacity s) \<and>
    (\<forall>t a. g_moduleArrays s t = Some a \<longrightarrow> length (slots_of s a) = g_moduleArrayCapacity s)"
proof -
  have i: "tls_inv s" using assms by (rule tls.reach_invar)
  have "\<exists>!t. a \<in> set (refs s t)" if "arrays (store s) a \<noteq> None" for a
  proof -
    have "a \<in> (\<Union>t. set (refs s t))" using that tls_invD(2) [OF i] unfolding owned_def by blast
    then show ?thesis using refs_disjoint [OF i] by blast
  qed
  moreover have "arrays (store s) a \<noteq> None \<and> t \<in> set (g_activeTibs s)" if "a \<in> set (refs s t)" for a t
    using refs_live [OF i that] tls_invD(8) [OF i, of t] that by (cases "t \<in> set (g_activeTibs s)") auto
  moreover have "length (slots_of s a) = g_expansionCapacity s" if "getExpansionArray t s = Some a" for a t
    using that tls_invD(10) [OF i, of t a] by (auto simp: getExpansionArray_def exp_arr_def split: if_splits)
  ultimately show ?thesis using refs_distinct [OF i] tls_invD(1,11) [OF i] by blast
qed

theorem tls_arrays_owned_witness:
  "arrays (store demo_module) 4096 = Some [7] \<and> \<not> fault (store demo_module) \<and> (\<exists>!t. 4096 \<in> set (refs demo_module t))"
proof -
  have "module_target 1 1 = 1" by (subst module_target.simps) simp
  then have "arrays (store demo_module) 4096 = Some [7]"
    by (simp add: demo_module_def demo_thread_def initializeTib_def tls_initial_def setModulePointer_def
        ensureModuleArrayCapacityLocked_def getModuleArray_def capacity_of_def allocateTlsArray_def demo_malloc_def
        setModuleArray_def set_teb_def put_slots_def slots_of_def kMaxExpansionSlots_def kTlsMaxSlotCount_def kTlsSlotCount_def
        Let_def del: module_target.simps)
  then show ?thesis using tls_arrays_owned [OF reach_demo_module] by blast
qed

text \<open>The three calls on the table of values.\<close>

lemma TlsAlloc_table:
  assumes i: "tls_inv s" and f: "fresh_malloc gm"
  shows "case TlsAlloc gm s of (i, err, s') \<Rightarrow>
      if err = ERROR_SUCCESS
      then i < kTlsMaxSlotCount \<and> \<not> g_slotUsed s ! i \<and> (\<forall>j < i. g_slotUsed s ! j) \<and> g_slotUsed s' = (g_slotUsed s)[i := True] \<and>
        (\<forall>u j. getValue u j s' = (if u \<in> set (g_activeTibs s) \<and> j = i then 0 else getValue u j s))
      else err = ERROR_NOT_ENOUGH_MEMORY \<and> i = 0xFFFFFFFF \<and> g_slotUsed s' = g_slotUsed s \<and>
        (\<forall>u j. getValue u j s' = getValue u j s) \<and> (\<forall>j < kTlsSlotCount. g_slotUsed s ! j)"
proof -
  obtain r s' where r: "reserveSlot gm s = (r, s')" by fastforce
  have sp: "tls_inv s'" "r = kInvalidTlsIndex \<and> same_values s s' \<and> (\<forall>j < kTlsSlotCount. g_slotUsed s ! j) \<or>
     r < kTlsMaxSlotCount \<and> \<not> g_slotUsed s ! r \<and> (\<forall>j < r. g_slotUsed s ! j) \<and> reserved r s s'"
    using reserveSlot_spec [OF i f r] by auto
  show ?thesis
  proof (cases "r = kInvalidTlsIndex")
    case True
    then have "same_values s s'" "\<forall>j < kTlsSlotCount. g_slotUsed s ! j"
      using sp(2) by (auto simp: kInvalidTlsIndex_def kTlsMaxSlotCount_def)
    then show ?thesis using True r sp(1) i
      by (simp add: TlsAlloc_def getValue_all same_slotValue) (simp add: same_values_def)
  next
    case False
    then show ?thesis using sp r i by (auto simp: TlsAlloc_def getValue_all reserved_def)
  qed
qed

lemma TlsSetValue_table:
  assumes i: "tls_inv s" and f: "fresh_malloc gm" and t0: "t \<noteq> 0"
  shows "case TlsSetValue gm t i v s of (ok, err, s') \<Rightarrow>
      g_slotUsed s' = g_slotUsed s \<and> (\<forall>u j. getValue u j s' = (if ok \<and> u = t \<and> j = i then v else getValue u j s)) \<and>
      (ok \<longrightarrow> TlsGetValue t i s' = (v, ERROR_SUCCESS)) \<and> (ok \<or> err = ERROR_INVALID_PARAMETER) \<and>
      (isSlotAllocated i s \<and> i < kTlsSlotCount \<longrightarrow> ok)"
proof (cases "isSlotAllocated i s")
  case True
  obtain ok s' where r: "setValue gm t i v s = (ok, s')" by fastforce
  from setValue_spec [OF i f r] have sp: "tls_inv s'" "stored ok t i v s s'" "ok \<Longrightarrow> i < kTlsMaxSlotCount" by auto
  have "i < kTlsSlotCount \<Longrightarrow> ok" using setValue_teb [OF i, of i t gm v] t0 r by auto
  moreover have "isSlotAllocated i s'" using True sp(2) by (simp add: isSlotAllocated_def stored_def)
  moreover have "getValue u j s' = (if ok \<and> u = t \<and> j = i then v else getValue u j s)" for u j
    using sp t0 by (auto simp: getValue_all [OF sp(1)] getValue_all [OF i] stored_def)
  ultimately show ?thesis using True r sp(2) by (cases ok) (auto simp: TlsSetValue_def TlsGetValue_def stored_def)
qed (simp add: TlsSetValue_def)

lemma TlsFree_table:
  assumes i: "tls_inv s"
  shows "case TlsFree i s of (ok, err, s') \<Rightarrow>
      ok = isSlotAllocated i s \<and> g_slotUsed s' = (if ok then (g_slotUsed s)[i := False] else g_slotUsed s) \<and>
      (\<forall>u j. getValue u j s' = (if ok \<and> u \<in> set (g_activeTibs s) \<and> j = i then 0 else getValue u j s))"
proof -
  obtain ok s' where r: "releaseSlot i s = (ok, s')" by fastforce
  note sp = releaseSlot_spec [OF i r]
  have "getValue u j s' = (if ok \<and> u \<in> set (g_activeTibs s) \<and> j = i then 0 else getValue u j s)" for u j
    using sp by (auto simp: getValue_all i)
  then show ?thesis using r sp by (cases ok) (simp_all add: TlsFree_def)
qed

text \<open>
  The slots are one table of values per thread, whatever arrays grow underneath.
  \<^verbatim>\<open>TlsAlloc\<close> returns the lowest free slot, which then reads as 0 in every thread, and fails only when
  the 64 slots of the TEB are taken; \<^verbatim>\<open>TlsSetValue\<close> changes exactly the one slot of the calling thread,
  or nothing when it fails, and \<^verbatim>\<open>TlsGetValue\<close> reads it back; \<^verbatim>\<open>TlsFree\<close> succeeds exactly on an
  allocated slot and clears it in every thread. No other value of any thread changes.
\<close>

theorem tls_slots_table:
  assumes "reach tls_init tls_run s" "fresh_malloc gm" "t \<in> set (g_activeTibs s)"
  shows "(case TlsAlloc gm s of (i, err, s') \<Rightarrow>
      if err = ERROR_SUCCESS
      then i < kTlsMaxSlotCount \<and> \<not> g_slotUsed s ! i \<and> (\<forall>j < i. g_slotUsed s ! j) \<and> g_slotUsed s' = (g_slotUsed s)[i := True] \<and>
        (\<forall>u j. getValue u j s' = (if u \<in> set (g_activeTibs s) \<and> j = i then 0 else getValue u j s))
      else err = ERROR_NOT_ENOUGH_MEMORY \<and> i = 0xFFFFFFFF \<and> g_slotUsed s' = g_slotUsed s \<and>
        (\<forall>u j. getValue u j s' = getValue u j s) \<and> (\<forall>j < kTlsSlotCount. g_slotUsed s ! j)) \<and>
    (case TlsSetValue gm t i v s of (ok, err, s') \<Rightarrow>
      g_slotUsed s' = g_slotUsed s \<and> (\<forall>u j. getValue u j s' = (if ok \<and> u = t \<and> j = i then v else getValue u j s)) \<and>
      (ok \<longrightarrow> TlsGetValue t i s' = (v, ERROR_SUCCESS)) \<and> (ok \<or> err = ERROR_INVALID_PARAMETER) \<and>
      (isSlotAllocated i s \<and> i < kTlsSlotCount \<longrightarrow> ok)) \<and>
    (case TlsFree i s of (ok, err, s') \<Rightarrow>
      ok = isSlotAllocated i s \<and> g_slotUsed s' = (if ok then (g_slotUsed s)[i := False] else g_slotUsed s) \<and>
      (\<forall>u j. getValue u j s' = (if ok \<and> u \<in> set (g_activeTibs s) \<and> j = i then 0 else getValue u j s)))"
proof -
  have i: "tls_inv s" using assms(1) by (rule tls.reach_invar)
  have t0: "t \<noteq> 0" using assms(3) tls_invD(4) [OF i] by metis
  show ?thesis by (intro conjI TlsAlloc_table [OF i assms(2)] TlsSetValue_table [OF i assms(2) t0] TlsFree_table [OF i])
qed

theorem tls_slots_table_witness:
  "fst (TlsAlloc demo_malloc demo_thread) = 0"
proof -
  have a: "16 \<in> set (g_activeTibs demo_thread)" "g_slotUsed demo_thread = replicate kTlsMaxSlotCount False"
    by (simp_all add: demo_thread_def initializeTib_def tls_initial_def)
  have z: "\<not> g_slotUsed demo_thread ! 0" "0 < kTlsSlotCount" by (simp_all add: a(2) kTlsMaxSlotCount_def kTlsSlotCount_def)
  obtain i err s' where t: "TlsAlloc demo_malloc demo_thread = (i, err, s')" by (metis prod_cases3)
  have "if err = ERROR_SUCCESS then \<forall>j < i. g_slotUsed demo_thread ! j else \<forall>j < kTlsSlotCount. g_slotUsed demo_thread ! j"
    using tls_slots_table [OF reach_demo_thread fresh_demo a(1)] t by (auto split: if_splits)
  then show ?thesis using z t by (cases "i = 0") (auto split: if_splits)
qed

end
