(* ===== verification/Command_Line.thy ===== *)
theory Command_Line
  imports Wibo_Prelude
begin

text \<open>
  Command lines: \<^verbatim>\<open>splitCommandLine\<close> of \<^verbatim>\<open>src/src/processes_common.cpp\<close>, which cuts a command line into
  arguments, and the loop of \<^verbatim>\<open>main\<close> in \<^verbatim>\<open>src/src/main.cpp\<close> that builds one from the arguments. The
  index into the input is the rest of the input; the strings hold no NUL character.
\<close>

abbreviation (input) backslash :: char where "backslash \<equiv> CHR 0x5C"
abbreviation (input) dquote :: char where "dquote \<equiv> CHR 0x22"

definition blank :: "char \<Rightarrow> bool" where
  "blank c \<longleftrightarrow> c = CHR '' '' \<or> c = CHR 0x09"

section \<open>Splitting\<close>

fun skip_blanks :: "string \<Rightarrow> string" where
  "skip_blanks [] = []"
| "skip_blanks (c # cs) = (if blank c then skip_blanks cs else c # cs)"

text \<open>The inner loop: the argument read and the input where it stopped.\<close>

fun scan_arg :: "bool \<Rightarrow> nat \<Rightarrow> string \<Rightarrow> string \<Rightarrow> string \<times> string" where
  "scan_arg inQuotes backslashes arg [] = (arg @ replicate backslashes backslash, [])"
| "scan_arg inQuotes backslashes arg (c # cs) =
     (if c = backslash then scan_arg inQuotes (backslashes + 1) arg cs
      else if c = dquote then
        if backslashes mod 2 = 0 then scan_arg (\<not> inQuotes) 0 (arg @ replicate (backslashes div 2) backslash) cs
        else scan_arg inQuotes 0 (arg @ replicate (backslashes div 2) backslash @ [dquote]) cs
      else let arg = arg @ replicate backslashes backslash in
           if \<not> inQuotes \<and> blank c then (arg, c # cs) else scan_arg inQuotes 0 (arg @ [c]) cs)"

lemma scan_arg_shorter: "length (snd (scan_arg q b arg cs)) \<le> length cs"
  by (induction q b arg cs rule: scan_arg.induct) (auto simp: Let_def)

lemma scan_arg_progress: "\<not> blank c \<Longrightarrow> length (snd (scan_arg q b arg (c # cs))) < length (c # cs)"
  using scan_arg_shorter [of _ _ _ cs] by (auto simp: Let_def le_imp_less_Suc)

lemma skip_blanks_length: "length (skip_blanks cs) \<le> length cs"
  by (induction cs) auto

lemma skip_blanks_head: "skip_blanks cs = c # rest \<Longrightarrow> \<not> blank c"
  by (induction cs) (auto split: if_splits)

function split_loop :: "string \<Rightarrow> string list" where
  "split_loop cs =
     (case skip_blanks cs of
        [] \<Rightarrow> []
      | c # rest \<Rightarrow> (case scan_arg False 0 [] (c # rest) of (arg, rest') \<Rightarrow> arg # split_loop (skip_blanks rest')))"
  by pat_completeness auto
termination
proof (relation "measure length", goal_cases)
  case (2 cs c rest arg rest')
  have "length (skip_blanks rest') \<le> length rest'" by (rule skip_blanks_length)
  also have "\<dots> < length (c # rest)"
    using scan_arg_progress [OF skip_blanks_head [OF 2(1)], of False 0 "[]" rest] 2(2) by (metis snd_conv)
  also have "\<dots> \<le> length cs" using skip_blanks_length [of cs] 2(1) by simp
  finally show ?case by simp
qed simp

declare split_loop.simps [simp del]

definition splitCommandLine :: "string option \<Rightarrow> string list" where
  "splitCommandLine commandLine = (case commandLine of None \<Rightarrow> [] | Some input \<Rightarrow> split_loop input)"

section \<open>Building\<close>

definition needQuotes :: "string \<Rightarrow> bool" where
  "needQuotes arg \<longleftrightarrow> (\<exists>c \<in> set arg. c = dquote \<or> c = CHR '' '' \<or> c = CHR 0x09 \<or> c = CHR 0x0A)"

text \<open>The characters of one argument; the end of the string is its NUL character.\<close>

fun quote_body :: "nat \<Rightarrow> string \<Rightarrow> string" where
  "quote_body backslashes [] = replicate (2 * backslashes) backslash"
| "quote_body backslashes (c # cs) =
     (if c = backslash then quote_body (backslashes + 1) cs
      else replicate (if c = dquote then 2 * backslashes else backslashes) backslash
           @ (if c = dquote then [backslash] else []) @ [c] @ quote_body 0 cs)"

definition quote_arg :: "string \<Rightarrow> string" where
  "quote_arg arg = (if needQuotes arg then [dquote] @ quote_body 0 arg @ [dquote] else quote_body 0 arg)"

fun buildCommandLine :: "string list \<Rightarrow> string" where
  "buildCommandLine [] = []"
| "buildCommandLine [arg] = quote_arg arg"
| "buildCommandLine (arg # args) = quote_arg arg @ [CHR '' ''] @ buildCommandLine args"

section \<open>Reading back\<close>

lemma scan_backslashes: "scan_arg q k acc (replicate n backslash @ xs) = scan_arg q (k + n) acc xs"
  by (induction n arbitrary: k) simp_all

lemma scan_quoted:
  "scan_arg True 0 acc (quote_body b cs @ dquote # rest) = scan_arg False 0 (acc @ replicate b backslash @ cs) rest"
proof (induction cs arbitrary: b acc)
  case Nil
  show ?case by (simp add: scan_backslashes)
next
  case (Cons c cs)
  show ?case
  proof (cases "c = backslash")
    case True
    then show ?thesis using Cons.IH [of acc "b + 1"] by (simp add: replicate_app_Cons_same)
  next
    case False
    then show ?thesis using Cons.IH [of "acc @ replicate b backslash @ [c]" 0] by (auto simp: scan_backslashes Let_def)
  qed
qed

lemma scan_plain:
  assumes "\<not> needQuotes cs" "last (replicate b backslash @ cs) \<noteq> backslash \<or> (b = 0 \<and> cs = [])"
  shows "scan_arg False 0 acc (quote_body b cs @ rest) = scan_arg False 0 (acc @ replicate b backslash @ cs) rest"
  using assms
proof (induction cs arbitrary: b acc)
  case Nil
  then show ?case by (cases "b = 0") (auto simp: last_replicate)
next
  case (Cons c cs)
  show ?case
  proof (cases "c = backslash")
    case True
    have "last (replicate (b + 1) backslash @ cs) \<noteq> backslash" using Cons.prems(2) True by (auto split: if_splits)
    then show ?thesis using Cons.IH [of "b + 1" acc] Cons.prems(1) True by (simp add: needQuotes_def replicate_app_Cons_same)
  next
    case False
    have "last (replicate 0 backslash @ cs) \<noteq> backslash \<or> (0 = (0 :: nat) \<and> cs = [])" using Cons.prems(2) by (auto split: if_splits)
    then show ?thesis using Cons.IH [of 0 "acc @ replicate b backslash @ [c]"] Cons.prems(1) False
      by (auto simp: needQuotes_def scan_backslashes blank_def Let_def)
  qed
qed

text \<open>The arguments that survive: not empty, and quoted if the last character is a backslash.\<close>

definition arg_ok :: "string \<Rightarrow> bool" where
  "arg_ok arg \<longleftrightarrow> arg \<noteq> [] \<and> (needQuotes arg \<or> last arg \<noteq> backslash)"

lemma scan_quote_arg:
  assumes "arg_ok arg"
  shows "scan_arg False 0 [] (quote_arg arg @ rest) = scan_arg False 0 arg rest"
proof (cases "needQuotes arg")
  case True
  then show ?thesis using scan_quoted [of "[]" 0 arg rest] by (simp add: quote_arg_def)
next
  case False
  then show ?thesis using scan_plain [OF False, of 0 "[]" rest] assms by (simp add: quote_arg_def arg_ok_def)
qed

lemma quote_arg_head:
  assumes "arg_ok arg"
  obtains c cs where "quote_arg arg = c # cs" "\<not> blank c"
proof (cases "needQuotes arg")
  case True
  then show ?thesis using that [of dquote] by (simp add: quote_arg_def blank_def)
next
  case False
  obtain a as where a: "arg = a # as" using assms by (cases arg) (auto simp: arg_ok_def)
  have "quote_body b as \<noteq> [] \<and> hd (quote_body b as) = backslash" if "0 < b" for b
    using that by (induction as arbitrary: b) (auto simp: hd_append)
  then have "quote_body 0 arg \<noteq> [] \<and> \<not> blank (hd (quote_body 0 arg))"
    using False by (auto simp: a needQuotes_def blank_def)
  then show ?thesis using False that by (cases "quote_body 0 arg") (auto simp: quote_arg_def)
qed

lemma split_quote_arg:
  assumes "arg_ok arg" "rest = [] \<or> (\<exists>xs. rest = CHR '' '' # xs)"
  shows "split_loop (quote_arg arg @ rest) = arg # split_loop (skip_blanks rest)"
proof -
  obtain c cs where q: "quote_arg arg = c # cs" "\<not> blank c" using quote_arg_head [OF assms(1)] .
  have "scan_arg False 0 [] (c # cs @ rest) = (arg, rest)"
    using scan_quote_arg [OF assms(1), of rest] assms(2) q(1) by (auto simp: blank_def)
  then show ?thesis using q by (simp add: split_loop.simps [of "c # cs @ rest"])
qed

lemma split_loop_skip: "split_loop (skip_blanks cs) = split_loop cs"
proof -
  have "skip_blanks (skip_blanks cs) = skip_blanks cs" by (induction cs) auto
  then show ?thesis by (simp add: split_loop.simps [of cs] split_loop.simps [of "skip_blanks cs"])
qed

text \<open>
  C36: the command line that \<^verbatim>\<open>main\<close> builds splits into exactly the arguments it was built from,
  whatever quotes, blanks and backslashes they contain, if none is empty and none that is left
  unquoted ends in a backslash.
\<close>

theorem command_line_roundtrip:
  assumes "list_all arg_ok args"
  shows "splitCommandLine (Some (buildCommandLine args)) = args"
proof -
  have "split_loop (buildCommandLine args) = args"
    using assms
  proof (induction args rule: buildCommandLine.induct)
    case 1
    show ?case by (simp add: split_loop.simps)
  next
    case (2 arg)
    then show ?case using split_quote_arg [of arg "[]"] by (simp add: split_loop.simps [of "[]"])
  next
    case (3 arg a args)
    then show ?case using split_quote_arg [of arg "CHR '' '' # buildCommandLine (a # args)"]
      by (simp add: blank_def split_loop_skip)
  qed
  then show ?thesis by (simp add: splitCommandLine_def)
qed

theorem command_line_roundtrip_witness:
  "splitCommandLine (Some (buildCommandLine [''a b'', [backslash, dquote], ''C:'' @ [backslash] @ ''x'']))
   = [''a b'', [backslash, dquote], ''C:'' @ [backslash] @ ''x'']"
  by (rule command_line_roundtrip) (simp add: arg_ok_def needQuotes_def)

text \<open>
  Without the condition the round trip fails: \<^verbatim>\<open>main\<close> doubles the backslashes at the end of an argument
  that it does not quote, and \<^verbatim>\<open>splitCommandLine\<close> keeps them all.
\<close>

lemma trailing_backslash_doubled:
  "splitCommandLine (Some (buildCommandLine [''C:'' @ [backslash]])) = [''C:'' @ [backslash, backslash]]"
  "splitCommandLine (Some (buildCommandLine [''a'', [], ''b''])) = [''a'', ''b'']"
  by code_simp+

end
