(* ===== verification/Wildcard_Match.thy ===== *)
theory Wildcard_Match
  imports Error_Codes
begin

text \<open>
  The name patterns of \<^verbatim>\<open>FindFirstFile\<close> (\<^verbatim>\<open>src/dll/kernel32/fileapi.cpp\<close>): \<^verbatim>\<open>wildcardMatchInsensitive\<close>, a
  loop over two indices that goes back to the last star only, against the meaning of a
  pattern. \<^verbatim>\<open>std::tolower\<close> is that of the C locale, which the program never leaves.
\<close>

section \<open>The matcher\<close>

definition containsWildcard :: "string \<Rightarrow> bool" where
  "containsWildcard v \<longleftrightarrow> CHR ''*'' \<in> set v \<or> CHR ''?'' \<in> set v"

definition containsWildcardOutsideExtendedPrefix :: "string \<Rightarrow> bool" where
  "containsWildcardOutsideExtendedPrefix v =
     (let prefix = [CHR 0x5C, CHR 0x5C, CHR ''?'', CHR 0x5C] in
      containsWildcard (if take 4 v = prefix then drop 4 v else v))"

definition toLowerAscii :: "char \<Rightarrow> char" where
  "toLowerAscii ch = (if 65 \<le> (of_char ch :: nat) \<and> (of_char ch :: nat) \<le> 90 then char_of (of_char ch + 32 :: nat) else ch)"

definition equalsIgnoreCase :: "char \<Rightarrow> char \<Rightarrow> bool" where
  "equalsIgnoreCase a b \<longleftrightarrow> toLowerAscii a = toLowerAscii b"

text \<open>The first loop; \<open>Inl\<close> is \<^verbatim>\<open>return false\<close> and \<open>Inr p\<close> leaves the loop with the index \<open>p\<close>.\<close>

function match_loop :: "string \<Rightarrow> string \<Rightarrow> nat \<Rightarrow> nat \<Rightarrow> nat option \<Rightarrow> nat \<Rightarrow> unit + nat" where
  "match_loop pat txt p t star mtch =
     (if t < length txt then
        if p < length pat \<and> pat ! p = CHR ''?'' then match_loop pat txt (p + 1) (t + 1) star mtch
        else if p < length pat \<and> pat ! p = CHR ''*'' then match_loop pat txt (p + 1) t (Some p) t
        else if p < length pat \<and> equalsIgnoreCase (pat ! p) (txt ! t) then match_loop pat txt (p + 1) (t + 1) star mtch
        else case star of
               Some s \<Rightarrow> match_loop pat txt (s + 1) (mtch + 1) star (mtch + 1)
             | None \<Rightarrow> Inl ()
      else Inr p)"
  by pat_completeness auto
termination
  by (relation "measures [\<lambda>(pat, txt, p, t, star, mtch). if mtch > t then 1 else 0,
        \<lambda>(pat, txt, p, t, star, mtch). if t \<ge> length txt then 0 else length txt - mtch + 1,
        \<lambda>(pat, txt, p, t, star, mtch). length pat - p]") auto

declare match_loop.simps [simp del]

fun skip_stars :: "string \<Rightarrow> string" where
  "skip_stars [] = []"
| "skip_stars (c # cs) = (if c = CHR ''*'' then skip_stars cs else c # cs)"

definition wildcardMatchInsensitive :: "string \<Rightarrow> string \<Rightarrow> bool" where
  "wildcardMatchInsensitive pat txt =
     (case match_loop pat txt 0 0 None 0 of
        Inl _ \<Rightarrow> False
      | Inr p \<Rightarrow> skip_stars (drop p pat) = [])"

section \<open>What a pattern means\<close>

inductive glob :: "string \<Rightarrow> string \<Rightarrow> bool" where
  glob_end: "glob [] []"
| glob_any: "glob ps ts \<Longrightarrow> glob (CHR ''?'' # ps) (x # ts)"
| glob_star: "glob ps ts \<Longrightarrow> glob (CHR ''*'' # ps) (xs @ ts)"
| glob_char: "c \<noteq> CHR ''?'' \<Longrightarrow> c \<noteq> CHR ''*'' \<Longrightarrow> equalsIgnoreCase c x \<Longrightarrow> glob ps ts \<Longrightarrow> glob (c # ps) (x # ts)"

inductive_cases glob_NilE: "glob [] ts"
inductive_cases glob_ConsE: "glob (c # ps) ts"

text \<open>A pattern character other than the star against a character.\<close>

definition char_ok :: "char \<Rightarrow> char \<Rightarrow> bool" where
  "char_ok c x \<longleftrightarrow> c \<noteq> CHR ''*'' \<and> (c = CHR ''?'' \<or> equalsIgnoreCase c x)"

lemma glob_Nil: "glob [] ts \<longleftrightarrow> ts = []"
  by (auto elim: glob_NilE intro: glob_end)

lemma glob_Cons: "c \<noteq> CHR ''*'' \<Longrightarrow> glob (c # ps) ts \<longleftrightarrow> (\<exists>x us. ts = x # us \<and> char_ok c x \<and> glob ps us)"
  by (auto simp: char_ok_def elim!: glob_ConsE intro: glob_any glob_char)

lemma glob_Star: "glob (CHR ''*'' # ps) ts \<longleftrightarrow> (\<exists>k \<le> length ts. glob ps (drop k ts))"
proof
  assume "glob (CHR ''*'' # ps) ts"
  then obtain xs us where "ts = xs @ us" "glob ps us" by (auto elim: glob_ConsE)
  then show "\<exists>k \<le> length ts. glob ps (drop k ts)" by (intro exI [of _ "length xs"]) simp
next
  assume "\<exists>k \<le> length ts. glob ps (drop k ts)"
  then obtain k where "glob ps (drop k ts)" by blast
  from glob_star [OF this, of "take k ts"] show "glob (CHR ''*'' # ps) ts" by simp
qed

lemma glob_stars: "glob ps [] \<longleftrightarrow> skip_stars ps = []"
proof (induction ps)
  case Nil
  show ?case by (simp add: glob_Nil)
next
  case (Cons c ps)
  then show ?case by (cases "c = CHR ''*''") (simp_all add: glob_Star glob_Cons)
qed

text \<open>A stretch without stars takes as many characters as it has.\<close>

lemma glob_append:
  "CHR ''*'' \<notin> set ps \<Longrightarrow>
   glob (ps @ qs) ts \<longleftrightarrow> length ps \<le> length ts \<and> list_all2 char_ok ps (take (length ps) ts) \<and> glob qs (drop (length ps) ts)"
proof (induction ps arbitrary: ts)
  case (Cons c ps)
  from Cons.prems have "c \<noteq> CHR ''*''" "CHR ''*'' \<notin> set ps" by auto
  then show ?case by (cases ts) (simp_all add: glob_Cons Cons.IH conj_commute conj_left_commute)
qed simp

section \<open>The loop's invariant\<close>

text \<open>The part of the pattern after the last star that has been matched, against the text since \<open>m\<close>.\<close>

definition seg :: "string \<Rightarrow> nat \<Rightarrow> nat \<Rightarrow> string" where
  "seg xs i j = take (j - i) (drop i xs)"

definition star_inv :: "string \<Rightarrow> string \<Rightarrow> nat \<Rightarrow> nat \<Rightarrow> nat \<Rightarrow> nat \<Rightarrow> bool" where
  "star_inv pat txt p t s m \<longleftrightarrow> s < p \<and> m \<le> t \<and> list_all2 char_ok (seg pat (s + 1) p) (seg txt m t) \<and>
     (glob pat txt \<longleftrightarrow> (\<exists>k. m \<le> k \<and> k \<le> length txt \<and> glob (drop (s + 1) pat) (drop k txt)))"

definition loop_inv :: "string \<Rightarrow> string \<Rightarrow> nat \<Rightarrow> nat \<Rightarrow> nat option \<Rightarrow> nat \<Rightarrow> bool" where
  "loop_inv pat txt p t star m \<longleftrightarrow> p \<le> length pat \<and> t \<le> length txt \<and>
     (case star of
        None \<Rightarrow> m \<le> t \<and> (glob pat txt \<longleftrightarrow> glob (drop p pat) (drop t txt))
      | Some s \<Rightarrow> star_inv pat txt p t s m)"

lemma length_seg: "i \<le> j \<Longrightarrow> j \<le> length xs \<Longrightarrow> length (seg xs i j) = j - i"
  by (simp add: seg_def)

lemma seg_Suc: "i \<le> j \<Longrightarrow> j < length xs \<Longrightarrow> seg xs i (Suc j) = seg xs i j @ [xs ! j]"
  by (simp add: seg_def Suc_diff_le take_Suc_conv_app_nth)

lemma seg_drop: "i \<le> j \<Longrightarrow> drop i xs = seg xs i j @ drop j xs"
  by (simp add: seg_def) (metis append_take_drop_id drop_drop le_add_diff_inverse2)

lemma no_star: "list_all2 char_ok ps xs \<Longrightarrow> CHR ''*'' \<notin> set ps"
  by (auto simp: char_ok_def list_all2_conv_all_nth in_set_conv_nth)

text \<open>Where the pattern after the star matches, in terms of the rest of the pattern.\<close>

lemma star_at:
  assumes "star_inv pat txt p t s m" "p \<le> length pat" "t \<le> length txt" "k \<le> length txt"
  shows "glob (drop (s + 1) pat) (drop k txt) \<longleftrightarrow> k + (t - m) \<le> length txt \<and>
     list_all2 char_ok (seg pat (s + 1) p) (seg txt k (k + (t - m))) \<and> glob (drop p pat) (drop (k + (t - m)) txt)"
proof -
  let ?ps = "seg pat (s + 1) p"
  have la: "list_all2 char_ok ?ps (seg txt m t)" and le: "m \<le> t" "s < p" using assms(1) by (auto simp: star_inv_def)
  have len: "length ?ps = t - m" using list_all2_lengthD [OF la] length_seg [OF le(1) assms(3)] by simp
  have "drop (s + 1) pat = ?ps @ drop p pat" using le(2) by (intro seg_drop) simp
  then have "glob (drop (s + 1) pat) (drop k txt) \<longleftrightarrow> length ?ps \<le> length (drop k txt) \<and>
      list_all2 char_ok ?ps (take (length ?ps) (drop k txt)) \<and> glob (drop p pat) (drop (length ?ps) (drop k txt))"
    using glob_append [OF no_star [OF la]] by simp
  then show ?thesis using assms(4) unfolding len by (auto simp: seg_def add.commute le_diff_conv)
qed

lemma star_at_here:
  assumes "star_inv pat txt p t s m" "p \<le> length pat" "t \<le> length txt"
  shows "glob (drop (s + 1) pat) (drop m txt) \<longleftrightarrow> glob (drop p pat) (drop t txt)"
proof -
  have "m \<le> t" "list_all2 char_ok (seg pat (s + 1) p) (seg txt m t)" using assms(1) by (auto simp: star_inv_def)
  then show ?thesis using star_at [OF assms, of m] assms(3) by simp
qed

lemma step_char:
  assumes "loop_inv pat txt p t star m" "t < length txt" "p < length pat" "char_ok (pat ! p) (txt ! t)"
  shows "loop_inv pat txt (p + 1) (t + 1) star m"
proof (cases star)
  case None
  have "drop p pat = pat ! p # drop (p + 1) pat" "drop t txt = txt ! t # drop (t + 1) txt"
    using assms(2,3) by (simp_all add: Cons_nth_drop_Suc)
  moreover have "pat ! p \<noteq> CHR ''*''" using assms(4) by (simp add: char_ok_def)
  ultimately show ?thesis using assms None by (simp add: loop_inv_def glob_Cons)
next
  case (Some s)
  have "list_all2 char_ok (seg pat (s + 1) (p + 1)) (seg txt m (t + 1))"
    using assms Some by (simp add: loop_inv_def star_inv_def seg_Suc list_all2_appendI)
  then show ?thesis using assms Some by (simp add: loop_inv_def star_inv_def)
qed

lemma step_star:
  assumes i: "loop_inv pat txt p t star m" and t: "t < length txt" and p: "p < length pat" "pat ! p = CHR ''*''"
  shows "loop_inv pat txt (p + 1) t (Some p) t"
proof -
  have d: "drop p pat = CHR ''*'' # drop (p + 1) pat" using p by (simp add: Cons_nth_drop_Suc [symmetric])
  have here: "glob (drop p pat) (drop j txt) \<longleftrightarrow> (\<exists>k. j \<le> k \<and> k \<le> length txt \<and> glob (drop (p + 1) pat) (drop k txt))"
    if "j \<le> length txt" for j
  proof
    assume "glob (drop p pat) (drop j txt)"
    then obtain k where "k \<le> length (drop j txt)" "glob (drop (p + 1) pat) (drop k (drop j txt))" unfolding d glob_Star by blast
    then show "\<exists>k. j \<le> k \<and> k \<le> length txt \<and> glob (drop (p + 1) pat) (drop k txt)"
      using that by (intro exI [of _ "k + j"]) simp
  next
    assume "\<exists>k. j \<le> k \<and> k \<le> length txt \<and> glob (drop (p + 1) pat) (drop k txt)"
    then obtain k where "j \<le> k" "k \<le> length txt" "glob (drop (p + 1) pat) (drop k txt)" by blast
    then show "glob (drop p pat) (drop j txt)" unfolding d glob_Star by (intro exI [of _ "k - j"]) simp
  qed
  have "glob pat txt \<longleftrightarrow> glob (drop p pat) (drop t txt)"
  proof (cases star)
    case None
    then show ?thesis using i by (simp add: loop_inv_def)
  next
    case (Some s)
    have si: "star_inv pat txt p t s m" and le: "p \<le> length pat" "t \<le> length txt" using i Some by (auto simp: loop_inv_def)
    have mt: "m \<le> t" using si by (simp add: star_inv_def)
    have "glob (drop p pat) (drop t txt)" if k: "m \<le> k" "k \<le> length txt" "glob (drop (s + 1) pat) (drop k txt)" for k
    proof -
      have "k + (t - m) \<le> length txt" "glob (drop p pat) (drop (k + (t - m)) txt)"
        using k(3) unfolding star_at [OF si le k(2)] by auto
      then obtain k' where "k + (t - m) \<le> k'" "k' \<le> length txt" "glob (drop (p + 1) pat) (drop k' txt)"
        unfolding here [OF \<open>k + (t - m) \<le> length txt\<close>] by blast
      moreover have "t \<le> k + (t - m)" using k(1) mt by simp
      ultimately show ?thesis unfolding here [OF le(2)] by (meson le_trans)
    qed
    moreover have "\<exists>k. m \<le> k \<and> k \<le> length txt \<and> glob (drop (s + 1) pat) (drop k txt)" if "glob (drop p pat) (drop t txt)"
      using that star_at_here [OF si le] mt le(2) by (intro exI [of _ m]) simp
    moreover have "glob pat txt \<longleftrightarrow> (\<exists>k. m \<le> k \<and> k \<le> length txt \<and> glob (drop (s + 1) pat) (drop k txt))"
      using si by (simp add: star_inv_def)
    ultimately show ?thesis by blast
  qed
  then show ?thesis using here [of t] t p by (simp add: loop_inv_def star_inv_def seg_def)
qed

lemma no_match_here:
  assumes "t < length txt" "p \<le> length pat" "\<not> (p < length pat \<and> pat ! p = CHR ''*'')"
    "\<not> (p < length pat \<and> char_ok (pat ! p) (txt ! t))"
  shows "\<not> glob (drop p pat) (drop t txt)"
proof (cases "p < length pat")
  case True
  have "drop p pat = pat ! p # drop (p + 1) pat" "drop t txt = txt ! t # drop (t + 1) txt"
    using True assms(1) by (simp_all add: Cons_nth_drop_Suc)
  then show ?thesis using assms True by (simp add: glob_Cons)
next
  case False
  then show ?thesis using assms(1) by (simp add: glob_Nil)
qed

lemma step_back:
  assumes i: "loop_inv pat txt p t (Some s) m" and t: "t < length txt" and n: "\<not> glob (drop p pat) (drop t txt)"
  shows "loop_inv pat txt (s + 1) (m + 1) (Some s) (m + 1)"
proof -
  have si: "star_inv pat txt p t s m" and le: "p \<le> length pat" "t \<le> length txt" using i by (auto simp: loop_inv_def)
  have mt: "m \<le> t" "s < p" using si by (simp_all add: star_inv_def)
  have "\<not> glob (drop (s + 1) pat) (drop m txt)" using star_at_here [OF si le] n by simp
  then have "m \<le> k \<and> k \<le> length txt \<and> glob (drop (s + 1) pat) (drop k txt) \<longleftrightarrow>
      m + 1 \<le> k \<and> k \<le> length txt \<and> glob (drop (s + 1) pat) (drop k txt)" for k
    by (cases "k = m") auto
  then show ?thesis using si mt t le by (simp add: loop_inv_def star_inv_def seg_def)
qed

lemma at_end:
  assumes "loop_inv pat txt p t star m" "t = length txt"
  shows "glob pat txt \<longleftrightarrow> skip_stars (drop p pat) = []"
proof (cases star)
  case None
  then show ?thesis using assms by (simp add: loop_inv_def glob_stars)
next
  case (Some s)
  have si: "star_inv pat txt p t s m" and le: "p \<le> length pat" "t \<le> length txt" using assms Some by (auto simp: loop_inv_def)
  have mt: "m \<le> t" using si by (simp add: star_inv_def)
  have "k = m" if "m \<le> k" "k \<le> length txt" "glob (drop (s + 1) pat) (drop k txt)" for k
    using that(3) mt that(1) unfolding star_at [OF si le that(2)] assms(2) by linarith
  then have "(\<exists>k. m \<le> k \<and> k \<le> length txt \<and> glob (drop (s + 1) pat) (drop k txt)) \<longleftrightarrow> glob (drop (s + 1) pat) (drop m txt)"
    using mt le(2) by (metis le_trans order_refl)
  then have "glob pat txt \<longleftrightarrow> glob (drop (s + 1) pat) (drop m txt)" using si by (simp add: star_inv_def)
  then show ?thesis using star_at_here [OF si le] assms(2) by (simp add: glob_stars)
qed

lemma match_loop_correct:
  assumes "loop_inv pat txt p t star m"
  shows "(case match_loop pat txt p t star m of Inl _ \<Rightarrow> False | Inr q \<Rightarrow> skip_stars (drop q pat) = []) \<longleftrightarrow> glob pat txt"
  using assms
proof (induction pat "txt" p t star m rule: match_loop.induct)
  case (1 pat "txt" p t star m)
  have le: "p \<le> length pat" "t \<le> length txt" using "1.prems" by (auto simp: loop_inv_def)
  show ?case
  proof (cases "t < length txt")
    case False
    then have "match_loop pat txt p t star m = Inr p" by (simp add: match_loop.simps)
    then show ?thesis using at_end [OF "1.prems"] le False by simp
  next
    case t: True
    consider (any) "p < length pat" "pat ! p = CHR ''?''" | (star) "p < length pat" "pat ! p = CHR ''*''"
      | (eq) "p < length pat" "pat ! p \<noteq> CHR ''?''" "pat ! p \<noteq> CHR ''*''" "equalsIgnoreCase (pat ! p) (txt ! t)"
      | (no) "\<not> (p < length pat \<and> pat ! p = CHR ''*'')" "\<not> (p < length pat \<and> char_ok (pat ! p) (txt ! t))"
      by (auto simp: char_ok_def)
    then show ?thesis
    proof cases
      case any
      have "loop_inv pat txt (p + 1) (t + 1) star m" using step_char [OF "1.prems" t any(1)] any(2) by (simp add: char_ok_def)
      then show ?thesis using "1.IH"(1) t any by (simp add: match_loop.simps [of pat "txt" p t])
    next
      case star
      then show ?thesis using "1.IH"(2) t step_star [OF "1.prems" t star] by (simp add: match_loop.simps [of pat "txt" p t])
    next
      case eq
      have "loop_inv pat txt (p + 1) (t + 1) star m" using step_char [OF "1.prems" t eq(1)] eq(3,4) by (simp add: char_ok_def)
      then show ?thesis using "1.IH"(3) t eq by (simp add: match_loop.simps [of pat "txt" p t])
    next
      case no
      have n: "\<not> glob (drop p pat) (drop t txt)" by (rule no_match_here [OF t le(1) no])
      have c: "\<not> (p < length pat \<and> pat ! p = CHR ''?'')" "\<not> (p < length pat \<and> equalsIgnoreCase (pat ! p) (txt ! t))"
        using no by (auto simp: char_ok_def)
      show ?thesis
      proof (cases star)
        case None
        then show ?thesis using "1.prems" n t no c by (auto simp: match_loop.simps [of pat "txt" p t] loop_inv_def)
      next
        case (Some s)
        have "loop_inv pat txt (s + 1) (m + 1) (Some s) (m + 1)" using step_back "1.prems" t n Some by blast
        moreover have "match_loop pat txt p t star m = match_loop pat txt (s + 1) (m + 1) (Some s) (m + 1)"
          using t no(1) c Some by (subst match_loop.simps) auto
        ultimately show ?thesis using "1.IH"(4) t no(1) c Some by simp
      qed
    qed
  qed
qed

text \<open>
  C37: the matcher of \<^verbatim>\<open>FindFirstFile\<close>, whose loop always ends, accepts a name exactly when the
  pattern matches it: a question mark stands for any one character, a star for any run of characters, every
  other character for itself in either case. Going back to the last star only loses no match.
\<close>

theorem wildcard_match_correct:
  "wildcardMatchInsensitive pat txt \<longleftrightarrow> glob pat txt"
proof -
  have "loop_inv pat txt 0 0 None 0" by (simp add: loop_inv_def)
  from match_loop_correct [OF this] show ?thesis by (simp add: wildcardMatchInsensitive_def)
qed

end
