(* ===== verification/Wide_Strings.thy ===== *)
theory Wide_Strings
  imports Wibo_Prelude "HOL-Library.Sublist"
begin

text \<open>
  The 16-bit string routines of \<^verbatim>\<open>src/src/strutil.cpp\<close>. A pointer into a buffer is the buffer and an
  index; reading or writing outside the buffer is \<open>None\<close>, so that a result \<open>Some\<close> also says that
  the routine stays inside its buffers. \<^verbatim>\<open>towlower\<close> and \<^verbatim>\<open>towupper\<close>, which depend on the locale, are parameters.
\<close>

section \<open>Buffers\<close>

definition rd :: "u16 list \<Rightarrow> nat \<Rightarrow> u16 option" where
  "rd buf i = (if i < length buf then Some (buf ! i) else None)"

definition wr :: "u16 list \<Rightarrow> nat \<Rightarrow> u16 \<Rightarrow> u16 list option" where
  "wr buf i v = (if i < length buf then Some (buf[i := v]) else None)"

text \<open>The buffer holds the string \<open>s\<close> at index \<open>i\<close>.\<close>

definition holds :: "u16 list \<Rightarrow> nat \<Rightarrow> u16 list \<Rightarrow> bool" where
  "holds buf i s \<longleftrightarrow> 0 \<notin> set s \<and> (\<exists>rest. drop i buf = s @ 0 # rest)"

lemma rd_Some: "rd buf i = Some v \<longleftrightarrow> i < length buf \<and> buf ! i = v"
  by (auto simp: rd_def)

section \<open>Case\<close>

definition wcharToLower :: "(nat \<Rightarrow> nat) \<Rightarrow> u16 \<Rightarrow> u16" where
  "wcharToLower towlower ch =
     (if 65 \<le> ch \<and> ch \<le> 90 then ch + 32
      else let lowered = towlower (unat ch) in if lowered > 0xFFFF then ch else of_nat lowered)"

definition wcharToUpper :: "(nat \<Rightarrow> nat) \<Rightarrow> u16 \<Rightarrow> u16" where
  "wcharToUpper towupper ch =
     (if 97 \<le> ch \<and> ch \<le> 122 then ch - 32
      else let uppered = towupper (unat ch) in if uppered > 0xFFFF then ch else of_nat uppered)"

section \<open>Length and comparison\<close>

function wstrlen_loop :: "u16 list \<Rightarrow> nat \<Rightarrow> nat \<Rightarrow> nat option" where
  "wstrlen_loop buf i len =
     (case rd buf (i + len) of None \<Rightarrow> None | Some c \<Rightarrow> if c \<noteq> 0 then wstrlen_loop buf i (len + 1) else Some len)"
  by pat_completeness auto
termination by (relation "measure (\<lambda>(buf, i, len). length buf - (i + len))") (auto simp: rd_Some)

declare wstrlen_loop.simps [simp del]

definition wstrlen :: "(u16 list \<times> nat) option \<Rightarrow> nat option" where
  "wstrlen str = (case str of None \<Rightarrow> Some 0 | Some (buf, i) \<Rightarrow> wstrlen_loop buf i 0)"

fun wstrnlen_loop :: "u16 list \<Rightarrow> nat \<Rightarrow> nat \<Rightarrow> nat \<Rightarrow> nat option" where
  "wstrnlen_loop buf i len 0 = Some len"
| "wstrnlen_loop buf i len (Suc n) =
     (case rd buf (i + len) of None \<Rightarrow> None | Some c \<Rightarrow> if c \<noteq> 0 then wstrnlen_loop buf i (len + 1) n else Some len)"

definition wstrnlen :: "(u16 list \<times> nat) option \<Rightarrow> nat \<Rightarrow> nat option" where
  "wstrnlen str numberOfElements = (case str of None \<Rightarrow> Some 0 | Some (buf, i) \<Rightarrow> wstrnlen_loop buf i 0 numberOfElements)"

fun wstrncmp :: "u16 list \<Rightarrow> nat \<Rightarrow> u16 list \<Rightarrow> nat \<Rightarrow> nat \<Rightarrow> int option" where
  "wstrncmp buf1 i1 buf2 i2 0 = Some 0"
| "wstrncmp buf1 i1 buf2 i2 (Suc count) =
     (case rd buf1 i1 of None \<Rightarrow> None
      | Some c1 \<Rightarrow> (case rd buf2 i2 of None \<Rightarrow> None
          | Some c2 \<Rightarrow> if c1 \<noteq> c2 then Some (if c1 > c2 then 1 else - 1)
                      else wstrncmp buf1 (i1 + 1) buf2 (i2 + 1) count))"

section \<open>Searching\<close>

text \<open>The inner loop of \<^verbatim>\<open>wstrstr\<close>: where it stops in both buffers. The operands of the condition are read in order.\<close>

function strstr_inner :: "u16 list \<Rightarrow> nat \<Rightarrow> u16 list \<Rightarrow> nat \<Rightarrow> (nat \<times> nat) option" where
  "strstr_inner dbuf d sbuf s =
     (case rd dbuf d of None \<Rightarrow> None
      | Some dc \<Rightarrow> if dc = 0 then Some (d, s)
          else case rd sbuf s of None \<Rightarrow> None
               | Some sc \<Rightarrow> if sc \<noteq> 0 \<and> dc = sc then strstr_inner dbuf (d + 1) sbuf (s + 1) else Some (d, s))"
  by pat_completeness auto
termination by (relation "measure (\<lambda>(dbuf, d, sbuf, s). length dbuf - d)") (auto simp: rd_Some)

declare strstr_inner.simps [simp del]

function strstr_outer :: "u16 list \<Rightarrow> nat \<Rightarrow> u16 list \<Rightarrow> nat \<Rightarrow> nat option option" where
  "strstr_outer dbuf d sbuf s =
     (case rd dbuf d of None \<Rightarrow> None
      | Some dc \<Rightarrow> if dc = 0 then Some None
          else case strstr_inner dbuf d sbuf s of None \<Rightarrow> None
               | Some (_, s') \<Rightarrow>
                   (case rd sbuf s' of None \<Rightarrow> None
                    | Some sc \<Rightarrow> if sc = 0 then Some (Some d) else strstr_outer dbuf (d + 1) sbuf s))"
  by pat_completeness auto
termination by (relation "measure (\<lambda>(dbuf, d, sbuf, s). length dbuf - d)") (auto simp: rd_Some)

declare strstr_outer.simps [simp del]

text \<open>The result is a pointer into \<open>dest\<close>, or the null pointer.\<close>

definition wstrstr :: "u16 list \<Rightarrow> nat \<Rightarrow> u16 list \<Rightarrow> nat \<Rightarrow> nat option option" where
  "wstrstr dbuf d sbuf s =
     (case rd sbuf s of None \<Rightarrow> None
      | Some c \<Rightarrow> if c = 0 then Some (Some d) else strstr_outer dbuf d sbuf s)"

function wstrchr_loop :: "u16 list \<Rightarrow> nat \<Rightarrow> u16 \<Rightarrow> nat option option" where
  "wstrchr_loop buf i c =
     (case rd buf i of None \<Rightarrow> None
      | Some x \<Rightarrow> if x \<noteq> 0 then if x = c then Some (Some i) else wstrchr_loop buf (i + 1) c
                 else if c = 0 then Some (Some i) else Some None)"
  by pat_completeness auto
termination by (relation "measure (\<lambda>(buf, i, c). length buf - i)") (auto simp: rd_Some)

declare wstrchr_loop.simps [simp del]

definition wstrchr :: "(u16 list \<times> nat) option \<Rightarrow> u16 \<Rightarrow> nat option option" where
  "wstrchr str c = (case str of None \<Rightarrow> Some None | Some (buf, i) \<Rightarrow> wstrchr_loop buf i c)"

function wstrrchr_loop :: "u16 list \<Rightarrow> nat \<Rightarrow> nat option \<Rightarrow> u16 \<Rightarrow> nat option option" where
  "wstrrchr_loop buf i lst c =
     (case rd buf i of None \<Rightarrow> None
      | Some x \<Rightarrow> if x \<noteq> 0 then wstrrchr_loop buf (i + 1) (if x = c then Some i else lst) c
                 else if c = 0 then Some (Some i) else Some lst)"
  by pat_completeness auto
termination by (relation "measure (\<lambda>(buf, i, lst, c). length buf - i)") (auto simp: rd_Some)

declare wstrrchr_loop.simps [simp del]

definition wstrrchr :: "(u16 list \<times> nat) option \<Rightarrow> u16 \<Rightarrow> nat option option" where
  "wstrrchr str c = (case str of None \<Rightarrow> Some None | Some (buf, i) \<Rightarrow> wstrrchr_loop buf i None c)"

section \<open>Copying\<close>

text \<open>\<open>dest\<close> and \<open>src\<close> are different buffers. The loop copies up to and including the terminator.\<close>

function copy_loop :: "u16 list \<Rightarrow> nat \<Rightarrow> u16 list \<Rightarrow> nat \<Rightarrow> u16 list option" where
  "copy_loop dbuf d sbuf s =
     (case rd sbuf s of None \<Rightarrow> None
      | Some c \<Rightarrow> (case wr dbuf d c of None \<Rightarrow> None
          | Some dbuf' \<Rightarrow> if c \<noteq> 0 then copy_loop dbuf' (d + 1) sbuf (s + 1) else Some dbuf'))"
  by pat_completeness auto
termination by (relation "measure (\<lambda>(dbuf, d, sbuf, s). length sbuf - s)") (auto simp: rd_Some)

declare copy_loop.simps [simp del]

definition wstrcpy :: "u16 list \<Rightarrow> nat \<Rightarrow> u16 list \<Rightarrow> nat \<Rightarrow> u16 list option" where
  "wstrcpy dbuf d sbuf s = copy_loop dbuf d sbuf s"

definition wstrcat :: "u16 list \<Rightarrow> nat \<Rightarrow> u16 list \<Rightarrow> nat \<Rightarrow> u16 list option" where
  "wstrcat dbuf d sbuf s =
     (case wstrlen_loop dbuf d 0 of None \<Rightarrow> None | Some n \<Rightarrow> copy_loop dbuf (d + n) sbuf s)"

fun ncopy_loop :: "u16 list \<Rightarrow> nat \<Rightarrow> u16 list \<Rightarrow> nat \<Rightarrow> nat \<Rightarrow> (u16 list \<times> nat) option" where
  "ncopy_loop dbuf d sbuf s 0 = Some (dbuf, d)"
| "ncopy_loop dbuf d sbuf s (Suc n) =
     (case rd sbuf s of None \<Rightarrow> None
      | Some c \<Rightarrow> if c \<noteq> 0 then (case wr dbuf d c of None \<Rightarrow> None | Some dbuf' \<Rightarrow> ncopy_loop dbuf' (d + 1) sbuf (s + 1) n)
                 else Some (dbuf, d))"

definition wstrncat :: "u16 list \<Rightarrow> nat \<Rightarrow> u16 list \<Rightarrow> nat \<Rightarrow> nat \<Rightarrow> u16 list option" where
  "wstrncat dbuf d sbuf s count =
     (case wstrlen_loop dbuf d 0 of None \<Rightarrow> None
      | Some n \<Rightarrow> (case ncopy_loop dbuf (d + n) sbuf s count of None \<Rightarrow> None | Some (dbuf', e) \<Rightarrow> wr dbuf' e 0))"

fun fill_zero :: "u16 list \<Rightarrow> nat \<Rightarrow> nat \<Rightarrow> u16 list option" where
  "fill_zero buf j 0 = Some buf"
| "fill_zero buf j (Suc n) = (case wr buf j 0 of None \<Rightarrow> None | Some buf' \<Rightarrow> fill_zero buf' (j + 1) n)"

text \<open>The buffer and the number of characters copied.\<close>

definition wstrncpy :: "(u16 list \<times> nat) option \<Rightarrow> (u16 list \<times> nat) option \<Rightarrow> nat \<Rightarrow> (u16 list \<times> nat) option" where
  "wstrncpy dst src n =
     (case dst of None \<Rightarrow> Some ([], 0)
      | Some (dbuf, d) \<Rightarrow>
          (case src of None \<Rightarrow> Some (dbuf, 0)
           | Some (sbuf, s) \<Rightarrow>
               if n = 0 then Some (dbuf, 0)
               else case ncopy_loop dbuf d sbuf s n of None \<Rightarrow> None
                    | Some (dbuf', e) \<Rightarrow>
                        (case fill_zero dbuf' e (n - (e - d)) of None \<Rightarrow> None | Some dbuf'' \<Rightarrow> Some (dbuf'', e - d))))"

section \<open>Bytes and 16-bit characters\<close>

fun narrow_loop :: "u16 list \<Rightarrow> nat \<Rightarrow> nat \<Rightarrow> u8 list option" where
  "narrow_loop buf i 0 = Some []"
| "narrow_loop buf i (Suc n) =
     (case rd buf i of None \<Rightarrow> None
      | Some v \<Rightarrow> (case narrow_loop buf (i + 1) n of None \<Rightarrow> None | Some cs \<Rightarrow> Some (ucast v # cs)))"

definition wideStringToString :: "(u16 list \<times> nat) option \<Rightarrow> int \<Rightarrow> u8 list option" where
  "wideStringToString src len =
     (case src of None \<Rightarrow> Some []
      | Some (buf, i) \<Rightarrow>
          (case (if len \<ge> 0 then Some (nat len) else wstrlen src) of
             None \<Rightarrow> None | Some count \<Rightarrow> narrow_loop buf i count))"

text \<open>The narrow string is its bytes up to the length: the length argument, or \<^verbatim>\<open>strlen\<close>.\<close>

definition stringToWideString :: "u8 list option \<Rightarrow> u16 list" where
  "stringToWideString src = (case src of None \<Rightarrow> [0] | Some cs \<Rightarrow> map ucast cs @ [0])"

definition stringToUtf16 :: "u8 list \<Rightarrow> u16 list" where
  "stringToUtf16 str = map ucast str"

section \<open>Reading a string\<close>

lemma holds_Nil: "holds buf i [] \<longleftrightarrow> rd buf i = Some 0"
proof (cases "i < length buf")
  case True
  have "drop i buf = buf ! i # drop (Suc i) buf" using Cons_nth_drop_Suc [OF True] by simp
  then show ?thesis using True by (simp add: holds_def rd_Some)
qed (simp add: holds_def rd_Some)

lemma holds_Cons: "holds buf i (x # xs) \<longleftrightarrow> x \<noteq> 0 \<and> rd buf i = Some x \<and> holds buf (Suc i) xs"
proof -
  have "drop i buf = x # ys \<longleftrightarrow> i < length buf \<and> buf ! i = x \<and> drop (Suc i) buf = ys" for ys
  proof (cases "i < length buf")
    case True
    then show ?thesis using Cons_nth_drop_Suc [OF True] by (metis list.inject)
  qed simp
  then show ?thesis by (auto simp: holds_def rd_Some)
qed

lemma holds_rd: "holds buf i s \<Longrightarrow> \<exists>c. rd buf i = Some c \<and> (c = 0 \<longleftrightarrow> s = [])"
  by (cases s) (auto simp: holds_Nil holds_Cons)

lemma wstrlen_loop_spec: "holds buf (i + len) s \<Longrightarrow> wstrlen_loop buf i len = Some (len + length s)"
proof (induction s arbitrary: len)
  case Nil
  then show ?case by (subst wstrlen_loop.simps) (simp add: holds_Nil)
next
  case (Cons x xs)
  then show ?case by (subst wstrlen_loop.simps) (simp add: holds_Cons)
qed

lemma strstr_inner_spec:
  "holds dbuf d ds \<Longrightarrow> holds sbuf s ss \<Longrightarrow>
   \<exists>k. strstr_inner dbuf d sbuf s = Some (d + k, s + k) \<and> k \<le> length ss \<and> (k = length ss \<longleftrightarrow> prefix ss ds)"
proof (induction ds arbitrary: d s ss)
  case Nil
  then show ?case by (subst strstr_inner.simps) (auto simp: holds_Nil)
next
  case (Cons x xs)
  show ?case
  proof (cases ss)
    case Nil
    then show ?thesis using Cons.prems by (subst strstr_inner.simps) (auto simp: holds_Nil holds_Cons)
  next
    case (Cons y ys)
    show ?thesis
    proof (cases "x = y")
      case True
      obtain k where "strstr_inner dbuf (d + 1) sbuf (s + 1) = Some (d + 1 + k, s + 1 + k)" "k \<le> length ys" "k = length ys \<longleftrightarrow> prefix ys xs"
        using Cons.IH [of "d + 1" "s + 1" ys] Cons.prems Cons by (auto simp: holds_Cons)
      then show ?thesis using Cons.prems Cons True
        by (subst strstr_inner.simps) (auto simp: holds_Cons intro!: exI [of _ "Suc k"])
    next
      case False
      then show ?thesis using Cons.prems Cons by (subst strstr_inner.simps) (auto simp: holds_Cons)
    qed
  qed
qed

text \<open>The first place where \<open>ss\<close> occurs in \<open>ds\<close>.\<close>

definition first_at :: "u16 list \<Rightarrow> u16 list \<Rightarrow> nat option \<Rightarrow> bool" where
  "first_at ss ds r \<longleftrightarrow> (case r of
      None \<Rightarrow> \<not> sublist ss ds
    | Some k \<Rightarrow> k \<le> length ds \<and> prefix ss (drop k ds) \<and> (\<forall>j < k. \<not> prefix ss (drop j ds)))"

lemma holds_terminator: "holds buf i s \<Longrightarrow> k \<le> length s \<Longrightarrow> \<exists>c. rd buf (i + k) = Some c \<and> (c = 0 \<longleftrightarrow> k = length s)"
proof (induction s arbitrary: i k)
  case Nil
  then show ?case by (auto simp: holds_Nil)
next
  case (Cons x xs)
  show ?case
  proof (cases k)
    case 0
    then show ?thesis using Cons.prems by (auto simp: holds_Cons)
  next
    case (Suc n)
    then show ?thesis using Cons.IH [of "Suc i" n] Cons.prems by (auto simp: holds_Cons)
  qed
qed

lemma strstr_outer_spec:
  assumes "holds sbuf s ss" "ss \<noteq> []"
  shows "holds dbuf d ds \<Longrightarrow> \<exists>r. strstr_outer dbuf d sbuf s = Some (map_option ((+) d) r) \<and> first_at ss ds r"
proof (induction ds arbitrary: d)
  case Nil
  then show ?case using assms(2) by (subst strstr_outer.simps) (auto simp: holds_Nil first_at_def intro!: exI [of _ None])
next
  case (Cons x xs)
  obtain k where k: "strstr_inner dbuf d sbuf s = Some (d + k, s + k)" "k \<le> length ss" "k = length ss \<longleftrightarrow> prefix ss (x # xs)"
    using strstr_inner_spec [OF Cons.prems assms(1)] by blast
  obtain c where c: "rd sbuf (s + k) = Some c" "c = 0 \<longleftrightarrow> k = length ss" using holds_terminator [OF assms(1) k(2)] by blast
  have x: "rd dbuf d = Some x" "x \<noteq> 0" "holds dbuf (d + 1) xs" using Cons.prems by (auto simp: holds_Cons)
  show ?case
  proof (cases "prefix ss (x # xs)")
    case True
    then have "strstr_outer dbuf d sbuf s = Some (Some d)" using x(1,2) k c by (subst strstr_outer.simps) simp
    then show ?thesis using True by (intro exI [of _ "Some 0"]) (simp add: first_at_def)
  next
    case False
    have e: "strstr_outer dbuf d sbuf s = strstr_outer dbuf (d + 1) sbuf s"
      using x(1,2) k c False by (subst strstr_outer.simps) auto
    obtain r where r: "strstr_outer dbuf (d + 1) sbuf s = Some (map_option ((+) (d + 1)) r)" "first_at ss xs r"
      using Cons.IH [OF x(3)] by blast
    show ?thesis
    proof (cases r)
      case None
      then show ?thesis using r e False by (intro exI [of _ None]) (simp add: first_at_def sublist_Cons_right)
    next
      case (Some j)
      have "\<not> prefix ss (drop i (x # xs))" if "i < Suc j" for i
        using that r(2) Some False by (cases i) (auto simp: first_at_def)
      then show ?thesis using r e Some by (intro exI [of _ "Some (Suc j)"]) (simp add: first_at_def)
    qed
  qed
qed

lemma wstrstr_spec:
  assumes "holds dbuf d ds" "holds sbuf s ss"
  shows "\<exists>r. wstrstr dbuf d sbuf s = Some (map_option ((+) d) r) \<and> first_at ss ds r"
proof (cases "ss = []")
  case True
  then show ?thesis using assms(2) by (auto simp: wstrstr_def holds_Nil first_at_def intro!: exI [of _ "Some 0"])
next
  case False
  then show ?thesis using strstr_outer_spec [OF assms(2) False assms(1)] holds_rd [OF assms(2)] by (auto simp: wstrstr_def)
qed

lemma wstrchr_loop_spec:
  "holds buf i s \<Longrightarrow> \<exists>r. wstrchr_loop buf i c = Some (map_option ((+) i) r) \<and> first_at [c] (s @ [0]) r"
proof (induction s arbitrary: i)
  case Nil
  then show ?case by (subst wstrchr_loop.simps)
    (auto simp: holds_Nil first_at_def sublist_Cons_right intro!: exI [of _ "if c = 0 then Some 0 else None"])
next
  case (Cons x xs)
  have x: "rd buf i = Some x" "x \<noteq> 0" "holds buf (i + 1) xs" using Cons.prems by (auto simp: holds_Cons)
  show ?case
  proof (cases "x = c")
    case True
    then show ?thesis using x by (subst wstrchr_loop.simps) (auto simp: first_at_def intro!: exI [of _ "Some 0"])
  next
    case False
    obtain r where r: "wstrchr_loop buf (i + 1) c = Some (map_option ((+) (i + 1)) r)" "first_at [c] (xs @ [0]) r"
      using Cons.IH [OF x(3)] by blast
    have e: "wstrchr_loop buf i c = wstrchr_loop buf (i + 1) c" using x False by (subst wstrchr_loop.simps) simp
    show ?thesis
    proof (cases r)
      case None
      then show ?thesis using r e False by (intro exI [of _ None]) (auto simp: first_at_def sublist_Cons_right)
    next
      case (Some j)
      have "\<not> prefix [c] (drop k (x # xs @ [0]))" if "k < Suc j" for k
        using that r(2) Some False by (cases k) (auto simp: first_at_def)
      then show ?thesis using r e Some by (intro exI [of _ "Some (Suc j)"]) (simp add: first_at_def)
    qed
  qed
qed

fun last_idx :: "u16 \<Rightarrow> u16 list \<Rightarrow> nat option" where
  "last_idx c [] = None"
| "last_idx c (x # xs) = (case last_idx c xs of Some k \<Rightarrow> Some (Suc k) | None \<Rightarrow> if x = c then Some 0 else None)"

text \<open>The last place where \<open>c\<close> occurs in \<open>s\<close>.\<close>

definition last_at :: "u16 \<Rightarrow> u16 list \<Rightarrow> nat option \<Rightarrow> bool" where
  "last_at c s r \<longleftrightarrow> (case r of
      None \<Rightarrow> c \<notin> set s
    | Some k \<Rightarrow> k < length s \<and> s ! k = c \<and> c \<notin> set (drop (Suc k) s))"

lemma last_idx_at: "last_at c s (last_idx c s)"
proof (induction s)
  case (Cons x xs)
  then show ?case by (auto simp: last_at_def split: option.splits)
qed (simp add: last_at_def)

lemma wstrrchr_loop_spec:
  "holds buf i s \<Longrightarrow> wstrrchr_loop buf i lst c =
     Some (if c = 0 then Some (i + length s) else case last_idx c s of Some k \<Rightarrow> Some (i + k) | None \<Rightarrow> lst)"
proof (induction s arbitrary: i lst)
  case Nil
  then show ?case by (subst wstrrchr_loop.simps) (simp add: holds_Nil)
next
  case (Cons x xs)
  then show ?case by (subst wstrrchr_loop.simps) (auto simp: holds_Cons split: option.splits)
qed

lemma wstrrchr_spec:
  assumes "holds buf i s"
  shows "\<exists>r. wstrrchr (Some (buf, i)) c = Some (map_option ((+) i) r) \<and> last_at c (s @ [0]) r"
proof (cases "c = 0")
  case True
  then show ?thesis using wstrrchr_loop_spec [OF assms, of None c]
    by (intro exI [of _ "Some (length s)"]) (simp add: wstrrchr_def last_at_def nth_append)
next
  case False
  have "last_at c (s @ [0]) (last_idx c s)"
    using last_idx_at [of c s] False by (auto simp: last_at_def nth_append split: option.splits)
  moreover have "wstrrchr (Some (buf, i)) c = Some (map_option ((+) i) (last_idx c s))"
    using wstrrchr_loop_spec [OF assms, of None c] False by (simp add: wstrrchr_def split: option.split)
  ultimately show ?thesis by blast
qed

section \<open>Copying a string\<close>

text \<open>The buffer with \<open>ss\<close> and its terminator written at \<open>d\<close>, when they fit.\<close>

definition written :: "u16 list \<Rightarrow> nat \<Rightarrow> u16 list \<Rightarrow> u16 list option" where
  "written dbuf d ss =
     (if d + length ss < length dbuf then Some (take d dbuf @ ss @ 0 # drop (d + length ss + 1) dbuf) else None)"

lemma copy_loop_spec: "holds sbuf s ss \<Longrightarrow> copy_loop dbuf d sbuf s = written dbuf d ss"
proof (induction ss arbitrary: dbuf d s)
  case Nil
  then have "rd sbuf s = Some 0" by (simp add: holds_Nil)
  then show ?case by (subst copy_loop.simps) (simp add: wr_def written_def upd_conv_take_nth_drop)
next
  case (Cons x xs)
  then have x: "rd sbuf s = Some x" "x \<noteq> 0" "holds sbuf (s + 1) xs" by (simp_all add: holds_Cons)
  show ?case
  proof (cases "d < length dbuf")
    case True
    have "copy_loop dbuf d sbuf s = copy_loop (dbuf[d := x]) (d + 1) sbuf (s + 1)"
      using x True by (subst copy_loop.simps) (simp add: wr_def)
    also have "\<dots> = written (dbuf[d := x]) (d + 1) xs" by (rule Cons.IH [OF x(3)])
    also have "\<dots> = written dbuf d (x # xs)"
      using True by (simp add: written_def take_Suc_conv_app_nth)
    finally show ?thesis .
  next
    case False
    then show ?thesis using x by (subst copy_loop.simps) (simp add: wr_def written_def)
  qed
qed

lemma holds_length: "holds buf i s \<Longrightarrow> i + length s < length buf"
proof -
  assume "holds buf i s"
  then obtain rest where "drop i buf = s @ 0 # rest" by (auto simp: holds_def)
  then have "length (drop i buf) = length s + 1 + length rest" by simp
  then show ?thesis by simp
qed

lemma wstrcat_spec:
  assumes "holds dbuf d ds" "holds sbuf s ss"
  shows "wstrcat dbuf d sbuf s = written dbuf d (ds @ ss)"
proof -
  have "take (d + length ds) dbuf = take d dbuf @ ds"
  proof -
    obtain rest where "drop d dbuf = ds @ 0 # rest" using assms(1) by (auto simp: holds_def)
    then show ?thesis by (simp add: take_add)
  qed
  then show ?thesis using wstrlen_loop_spec [of dbuf d 0 ds] assms copy_loop_spec [OF assms(2), of dbuf "d + length ds"]
    by (simp add: wstrcat_def written_def add.assoc)
qed

lemma written_holds:
  assumes "written buf d s = Some buf'" "0 \<notin> set s"
  shows "holds buf' d s" "length buf' = length buf" "\<And>i. i < d \<or> d + length s < i \<Longrightarrow> rd buf' i = rd buf i"
proof -
  have e: "d + length s < length buf" "buf' = take d buf @ s @ 0 # drop (d + length s + 1) buf"
    using assms(1) by (auto simp: written_def split: if_splits)
  show "holds buf' d s" using e assms(2) by (simp add: holds_def)
  show l: "length buf' = length buf" using e by simp
  show "rd buf' i = rd buf i" if "i < d \<or> d + length s < i" for i
  proof (cases "i < d")
    case True
    then show ?thesis using e l by (simp add: rd_def nth_append)
  next
    case False
    then have "i = d + length s + 1 + (i - (d + length s + 1))" using that by simp
    then obtain k where "i = d + length s + 1 + k" ..
    then show ?thesis using e l by (auto simp: rd_def nth_append)
  qed
qed

lemma narrow_loop_spec: "drop i buf = map ucast cs @ rest \<Longrightarrow> narrow_loop buf i (length cs) = Some cs"
proof (induction cs arbitrary: i)
  case (Cons c cs)
  have i: "i < length buf" using Cons.prems by (metis append_Cons drop_eq_Nil list.distinct(1) list.simps(9) not_le)
  have "drop i buf = buf ! i # drop (Suc i) buf" using Cons_nth_drop_Suc [OF i] by simp
  then have e: "buf ! i = ucast c" "drop (Suc i) buf = map ucast cs @ rest" using Cons.prems by auto
  have "(ucast (ucast c :: u16) :: u8) = c" by (simp add: ucast_up_ucast_id is_up)
  then show ?case using Cons.IH [OF e(2)] i e(1) by (simp add: rd_def)
qed simp

lemma wide_narrow: "wideStringToString (Some (stringToWideString (Some cs), 0)) (int (length cs)) = Some cs"
  using narrow_loop_spec [of 0 "stringToWideString (Some cs)" cs "[0]"] by (simp add: wideStringToString_def stringToWideString_def)

text \<open>
  On terminated strings the routines stay inside their buffers and do what their names
  say: the length; the first occurrence of a string and of a character, and the last of a
  character, the terminator counting as one; and concatenation, which writes exactly the joined string
  and its terminator when they fit, and would leave the buffer otherwise.
\<close>

theorem wide_strings_correct:
  assumes "holds dbuf d ds" "holds sbuf s ss"
  shows "wstrlen (Some (dbuf, d)) = Some (length ds) \<and>
    (\<exists>r. wstrstr dbuf d sbuf s = Some (map_option ((+) d) r) \<and> first_at ss ds r) \<and>
    (\<exists>r. wstrchr (Some (dbuf, d)) c = Some (map_option ((+) d) r) \<and> first_at [c] (ds @ [0]) r) \<and>
    (\<exists>r. wstrrchr (Some (dbuf, d)) c = Some (map_option ((+) d) r) \<and> last_at c (ds @ [0]) r) \<and>
    (case wstrcat dbuf d sbuf s of
       None \<Rightarrow> length dbuf \<le> d + length ds + length ss
     | Some dbuf' \<Rightarrow> holds dbuf' d (ds @ ss) \<and> length dbuf' = length dbuf \<and>
         (\<forall>i. i < d \<or> d + length (ds @ ss) < i \<longrightarrow> rd dbuf' i = rd dbuf i))"
proof (intro conjI)
  show "wstrlen (Some (dbuf, d)) = Some (length ds)" using wstrlen_loop_spec [of dbuf d 0 ds] assms(1) by (simp add: wstrlen_def)
  show "\<exists>r. wstrstr dbuf d sbuf s = Some (map_option ((+) d) r) \<and> first_at ss ds r" by (rule wstrstr_spec [OF assms])
  show "\<exists>r. wstrchr (Some (dbuf, d)) c = Some (map_option ((+) d) r) \<and> first_at [c] (ds @ [0]) r"
    using wstrchr_loop_spec [OF assms(1)] by (simp add: wstrchr_def)
  show "\<exists>r. wstrrchr (Some (dbuf, d)) c = Some (map_option ((+) d) r) \<and> last_at c (ds @ [0]) r" by (rule wstrrchr_spec [OF assms(1)])
  have z: "0 \<notin> set (ds @ ss)" using assms by (auto simp: holds_def)
  show "case wstrcat dbuf d sbuf s of
       None \<Rightarrow> length dbuf \<le> d + length ds + length ss
     | Some dbuf' \<Rightarrow> holds dbuf' d (ds @ ss) \<and> length dbuf' = length dbuf \<and>
         (\<forall>i. i < d \<or> d + length (ds @ ss) < i \<longrightarrow> rd dbuf' i = rd dbuf i)"
  proof (cases "written dbuf d (ds @ ss)")
    case None
    then show ?thesis unfolding wstrcat_spec [OF assms] by (simp add: written_def split: if_splits)
  next
    case (Some dbuf')
    show ?thesis unfolding wstrcat_spec [OF assms] Some option.case
      using written_holds [OF Some z] by blast
  qed
qed

theorem wide_strings_correct_witness:
  "(\<exists>r. wstrstr [5, 7, 5, 7, 9, 0] 0 [7, 9, 0] 0 = Some (map_option ((+) 0) r) \<and> first_at [7, 9] [5, 7, 5, 7, 9] r) \<and>
   wstrlen (Some ([5, 7, 5, 7, 9, 0], 0)) = Some 5"
proof -
  have h: "holds [5, 7, 5, 7, 9, 0] 0 [5, 7, 5, 7, 9]" "holds [7, 9, 0] 0 [7, 9]" by (simp_all add: holds_def)
  from wide_strings_correct [OF h, of 0] show ?thesis by simp
qed

end
