(* ===== verification/Resource_Tree.thy ===== *)
theory Resource_Tree
  imports Error_Codes "HOL-Library.Monad_Syntax"
begin

unbundle bit_operations_syntax

text \<open>
  Looking up a resource of an executable (\<^verbatim>\<open>src/src/resources.cpp\<close>): the three levels of directories in the
  bytes of the resource section, entries by number or by name, and the choice of the language. A
  pointer into the section is its offset from the base; a read outside the section is \<open>None\<close>.
\<close>

section \<open>The section's bytes\<close>

definition rd16 :: "u8 list \<Rightarrow> nat \<Rightarrow> u16 option" where
  "rd16 sec i = (if i + 2 \<le> length sec then Some (of_nat (unat (sec ! i) + 256 * unat (sec ! (i + 1)))) else None)"

definition rd32 :: "u8 list \<Rightarrow> nat \<Rightarrow> u32 option" where
  "rd32 sec i =
     (if i + 4 \<le> length sec
      then Some (of_nat (unat (sec ! i) + 256 * unat (sec ! (i + 1)) + 65536 * unat (sec ! (i + 2)) + 16777216 * unat (sec ! (i + 3))))
      else None)"

text \<open>\<^verbatim>\<open>sizeof\<close> of the two structures, and the fields of a directory and of its \<open>i\<close>-th entry.\<close>

abbreviation (input) dir_size :: nat where "dir_size \<equiv> 16"
abbreviation (input) dir_entry_size :: nat where "dir_entry_size \<equiv> 8"
abbreviation (input) data_entry_size :: nat where "data_entry_size \<equiv> 16"

definition numberOfNamedEntries :: "u8 list \<Rightarrow> nat \<Rightarrow> nat option" where
  "numberOfNamedEntries sec dir = map_option unat (rd16 sec (dir + 12))"

definition numberOfIdEntries :: "u8 list \<Rightarrow> nat \<Rightarrow> nat option" where
  "numberOfIdEntries sec dir = map_option unat (rd16 sec (dir + 14))"

definition resourceEntry :: "nat \<Rightarrow> nat \<Rightarrow> nat" where
  "resourceEntry dir i = dir + dir_size + dir_entry_size * i"

definition entry_name :: "u8 list \<Rightarrow> nat \<Rightarrow> u32 option" where
  "entry_name sec e = rd32 sec e"

definition entry_offsetToData :: "u8 list \<Rightarrow> nat \<Rightarrow> u32 option" where
  "entry_offsetToData sec e = rd32 sec (e + 4)"

definition RESOURCE_NAME_IS_STRING :: u32 where "RESOURCE_NAME_IS_STRING = 0x80000000"

definition RESOURCE_DATA_IS_DIRECTORY :: u32 where "RESOURCE_DATA_IS_DIRECTORY = 0x80000000"

record ResourceIdentifier =
  isString :: bool
  ident_id :: u32
  ident_name :: "u16 list"

record ResourceLocation =
  dataEntry :: nat
  data_rva :: u32
  data_size :: u32
  language :: u16

section \<open>Looking up an entry\<close>

definition resourceOffsetInRange :: "nat \<Rightarrow> nat \<Rightarrow> nat \<Rightarrow> bool" where
  "resourceOffsetInRange offset needed available =
     (if available = 0 then True
      else if offset > available then False
      else if available - offset < needed then False
      else True)"

fun name_loop :: "u8 list \<Rightarrow> nat \<Rightarrow> u16 list \<Rightarrow> bool option" where
  "name_loop sec str [] = Some True"
| "name_loop sec str (c # cs) =
     do { x \<leftarrow> rd16 sec str; if x \<noteq> c then Some False else name_loop sec (str + 2) cs }"

definition resourceNameEquals :: "u8 list \<Rightarrow> u32 \<Rightarrow> u16 list \<Rightarrow> nat \<Rightarrow> bool option" where
  "resourceNameEquals sec nameField v rsrcSize =
     (if nameField AND RESOURCE_NAME_IS_STRING = 0 then Some False
      else let offset = unat (nameField AND NOT RESOURCE_NAME_IS_STRING) in
        if \<not> resourceOffsetInRange offset 2 rsrcSize then Some False
        else do {
          len \<leftarrow> rd16 sec offset;
          if \<not> resourceOffsetInRange offset (2 + unat len * 2) rsrcSize then Some False
          else if unat len \<noteq> length v then Some False
          else name_loop sec (offset + 2) v })"

text \<open>The two loops of \<^verbatim>\<open>findEntry\<close>: over the named entries and over those with a number.\<close>

fun find_named :: "u8 list \<Rightarrow> nat \<Rightarrow> u16 list \<Rightarrow> nat \<Rightarrow> nat list \<Rightarrow> nat option option" where
  "find_named sec dir v rsrcSize [] = Some None"
| "find_named sec dir v rsrcSize (i # is) =
     do {
       n \<leftarrow> entry_name sec (resourceEntry dir i);
       eq \<leftarrow> resourceNameEquals sec n v rsrcSize;
       if eq then Some (Some (resourceEntry dir i)) else find_named sec dir v rsrcSize is }"

fun find_id :: "u8 list \<Rightarrow> nat \<Rightarrow> u32 \<Rightarrow> nat list \<Rightarrow> nat option option" where
  "find_id sec dir ident [] = Some None"
| "find_id sec dir ident (i # is) =
     do {
       n \<leftarrow> entry_name sec (resourceEntry dir i);
       if n AND RESOURCE_NAME_IS_STRING = 0 \<and> n AND 0xFFFF = ident AND 0xFFFF
       then Some (Some (resourceEntry dir i)) else find_id sec dir ident is }"

definition findEntry :: "u8 list \<Rightarrow> nat \<Rightarrow> ResourceIdentifier \<Rightarrow> nat \<Rightarrow> nat option option" where
  "findEntry sec dir ident rsrcSize =
     do {
       named \<leftarrow> numberOfNamedEntries sec dir;
       if isString ident then find_named sec dir (ident_name ident) rsrcSize [0..<named]
       else do {
         ids \<leftarrow> numberOfIdEntries sec dir;
         find_id sec dir (ident_id ident) [named..<named + ids] } }"

definition entryAsDirectory :: "u8 list \<Rightarrow> nat \<Rightarrow> nat \<Rightarrow> nat option option" where
  "entryAsDirectory sec e rsrcSize =
     do {
       o' \<leftarrow> entry_offsetToData sec e;
       if o' AND RESOURCE_DATA_IS_DIRECTORY = 0 then Some None
       else let offset = unat (o' AND NOT RESOURCE_DATA_IS_DIRECTORY) in
         if \<not> resourceOffsetInRange offset dir_size rsrcSize then Some None else Some (Some offset) }"

definition entryAsData :: "u8 list \<Rightarrow> nat \<Rightarrow> nat \<Rightarrow> nat option option" where
  "entryAsData sec e rsrcSize =
     do {
       o' \<leftarrow> entry_offsetToData sec e;
       if o' AND RESOURCE_DATA_IS_DIRECTORY \<noteq> 0 then Some None
       else let offset = unat o' in
         if \<not> resourceOffsetInRange offset data_entry_size rsrcSize then Some None else Some (Some offset) }"

section \<open>Choosing the language\<close>

definition primaryLang :: "u16 \<Rightarrow> u16" where
  "primaryLang lang = lang AND 0x3FF"

definition lang_of :: "u32 \<Rightarrow> u16" where
  "lang_of n = ucast (n AND 0xFFFF)"

text \<open>
  \<open>primaryMatch\<close>, \<open>neutralMatch\<close> and \<open>first\<close> are entries with their names; the result is the entry and
  the language chosen.
\<close>

type_synonym lang_entry = "nat \<times> u32"

definition lang_result :: "lang_entry option \<Rightarrow> lang_entry option \<Rightarrow> lang_entry option \<Rightarrow> (nat \<times> u16) option" where
  "lang_result primaryMatch neutralMatch first =
     (case primaryMatch of
        Some (e, n) \<Rightarrow> Some (e, lang_of n)
      | None \<Rightarrow>
          (case neutralMatch of
             Some (e, n) \<Rightarrow> Some (e, 0)
           | None \<Rightarrow> (case first of Some (e, n) \<Rightarrow> Some (e, lang_of n) | None \<Rightarrow> None)))"

fun lang_loop :: "u8 list \<Rightarrow> nat \<Rightarrow> u16 option \<Rightarrow> nat list \<Rightarrow> lang_entry option \<Rightarrow> lang_entry option \<Rightarrow> lang_entry option \<Rightarrow>
    (nat \<times> u16) option option" where
  "lang_loop sec dir desired [] primaryMatch neutralMatch first = Some (lang_result primaryMatch neutralMatch first)"
| "lang_loop sec dir desired (i # is) primaryMatch neutralMatch first =
     do {
       n \<leftarrow> entry_name sec (resourceEntry dir i);
       if n AND RESOURCE_NAME_IS_STRING \<noteq> 0 then lang_loop sec dir desired is primaryMatch neutralMatch first
       else
         let e = (resourceEntry dir i, n); lang = lang_of n;
             first = (if first = None then Some e else first) in
         if desired = Some lang then Some (Some (resourceEntry dir i, lang))
         else
           let primaryMatch = (if primaryMatch = None \<and> (case desired of None \<Rightarrow> False | Some d \<Rightarrow> primaryLang lang = primaryLang d)
                               then Some e else primaryMatch);
               neutralMatch = (if neutralMatch = None \<and> lang = 0 then Some e else neutralMatch)
           in lang_loop sec dir desired is primaryMatch neutralMatch first }"

text \<open>The number of entries is kept in 16 bits.\<close>

definition selectLanguageEntry :: "u8 list \<Rightarrow> nat \<Rightarrow> u16 option \<Rightarrow> (nat \<times> u16) option option" where
  "selectLanguageEntry sec dir desired =
     do {
       named \<leftarrow> numberOfNamedEntries sec dir;
       ids \<leftarrow> numberOfIdEntries sec dir;
       lang_loop sec dir desired [0..<(named + ids) mod 2 ^ 16] None None None }"

section \<open>Finding a resource\<close>

text \<open>\<open>Inl\<close> is the last error; \<open>rsrcBase\<close> is the section, if there is one.\<close>

definition findResource :: "u8 list option \<Rightarrow> nat \<Rightarrow> ResourceIdentifier \<Rightarrow> ResourceIdentifier \<Rightarrow> u16 option \<Rightarrow>
    (u32 + ResourceLocation) option" where
  "findResource rsrcBase rsrcSize typ nam lang =
     (case rsrcBase of
        None \<Rightarrow> Some (Inl ERROR_RESOURCE_DATA_NOT_FOUND)
      | Some sec \<Rightarrow>
          do {
            typeEntry \<leftarrow> findEntry sec 0 typ rsrcSize;
            case typeEntry of None \<Rightarrow> Some (Inl ERROR_RESOURCE_TYPE_NOT_FOUND) | Some te \<Rightarrow>
            do {
              nameDir \<leftarrow> entryAsDirectory sec te rsrcSize;
              case nameDir of None \<Rightarrow> Some (Inl ERROR_RESOURCE_DATA_NOT_FOUND) | Some nd \<Rightarrow>
              do {
                nameEntry \<leftarrow> findEntry sec nd nam rsrcSize;
                case nameEntry of None \<Rightarrow> Some (Inl ERROR_RESOURCE_NAME_NOT_FOUND) | Some ne \<Rightarrow>
                do {
                  langDir \<leftarrow> entryAsDirectory sec ne rsrcSize;
                  case langDir of None \<Rightarrow> Some (Inl ERROR_RESOURCE_DATA_NOT_FOUND) | Some ld \<Rightarrow>
                  do {
                    langEntry \<leftarrow> selectLanguageEntry sec ld lang;
                    case langEntry of None \<Rightarrow> Some (Inl ERROR_RESOURCE_LANG_NOT_FOUND) | Some (le, chosenLang) \<Rightarrow>
                    do {
                      dat \<leftarrow> entryAsData sec le rsrcSize;
                      case dat of None \<Rightarrow> Some (Inl ERROR_RESOURCE_DATA_NOT_FOUND) | Some de \<Rightarrow>
                      do {
                        rva \<leftarrow> rd32 sec de;
                        sz \<leftarrow> rd32 sec (de + 4);
                        Some (Inr \<lparr>dataEntry = de, data_rva = rva, data_size = sz, language = chosenLang\<rparr>) } } } } } } })"

text \<open>\<open>entry\<close> and the section's base are addresses.\<close>

definition resourceEntryBelongsToExecutable :: "nat option \<Rightarrow> nat \<Rightarrow> nat option \<Rightarrow> bool" where
  "resourceEntryBelongsToExecutable rsrcBase rsrcSize entry =
     (case entry of None \<Rightarrow> False
      | Some ptr \<Rightarrow>
          (case rsrcBase of None \<Rightarrow> False
           | Some base \<Rightarrow> if rsrcSize = 0 then True else ptr \<ge> base \<and> ptr + data_entry_size \<le> base + rsrcSize))"

section \<open>The best language\<close>

definition is_id :: "u32 \<Rightarrow> bool" where "is_id n \<longleftrightarrow> n AND RESOURCE_NAME_IS_STRING = 0"

definition same_primary :: "u16 option \<Rightarrow> u16 \<Rightarrow> bool" where
  "same_primary desired lang = (case desired of None \<Rightarrow> False | Some d \<Rightarrow> primaryLang lang = primaryLang d)"

text \<open>The preference: the language asked for, then one with the same primary language, then neutral, then any.\<close>

definition lang_rank :: "u16 option \<Rightarrow> u16 \<Rightarrow> nat" where
  "lang_rank desired lang =
     (if desired = Some lang then 0 else if same_primary desired lang then 1 else if lang = 0 then 2 else 3)"

definition or_else :: "'a option \<Rightarrow> 'a option \<Rightarrow> 'a option" where
  "or_else a b = (case a of None \<Rightarrow> b | Some x \<Rightarrow> Some x)"

lemma or_else_simps [simp]: "or_else None b = b" "or_else (Some x) b = Some x" "or_else a None = a"
  by (simp_all add: or_else_def split: option.split)

lemma lang_loop_find:
  assumes "\<And>i. i \<in> set is \<Longrightarrow> entry_name sec (resourceEntry dir i) = Some (N i)"
  shows "lang_loop sec dir desired is pm nm fs =
    (let js = filter (\<lambda>i. is_id (N i)) is; ent = (\<lambda>i. (resourceEntry dir i, N i)) in
     case find (\<lambda>i. desired = Some (lang_of (N i))) js of
       Some i \<Rightarrow> Some (Some (resourceEntry dir i, lang_of (N i)))
     | None \<Rightarrow> Some (lang_result (or_else pm (map_option ent (find (\<lambda>i. same_primary desired (lang_of (N i))) js)))
         (or_else nm (map_option ent (find (\<lambda>i. lang_of (N i) = 0) js))) (or_else fs (map_option ent (find (\<lambda>_. True) js)))))"
  using assms
proof (induction "is" arbitrary: pm nm fs)
  case Nil
  show ?case by simp
next
  case (Cons i js)
  have n: "entry_name sec (resourceEntry dir i) = Some (N i)" using Cons.prems by simp
  have ih: "lang_loop sec dir desired js pm nm fs = (let js = filter (\<lambda>i. is_id (N i)) js; ent = (\<lambda>i. (resourceEntry dir i, N i)) in
     case find (\<lambda>i. desired = Some (lang_of (N i))) js of
       Some i \<Rightarrow> Some (Some (resourceEntry dir i, lang_of (N i)))
     | None \<Rightarrow> Some (lang_result (or_else pm (map_option ent (find (\<lambda>i. same_primary desired (lang_of (N i))) js)))
         (or_else nm (map_option ent (find (\<lambda>i. lang_of (N i) = 0) js))) (or_else fs (map_option ent (find (\<lambda>_. True) js)))))" for pm nm fs
    using Cons.IH Cons.prems by simp
  show ?case
  proof (cases "is_id (N i)")
    case False
    then show ?thesis by (simp add: n is_id_def ih)
  next
    case id: True
    then have z: "N i AND RESOURCE_NAME_IS_STRING = 0" by (simp add: is_id_def)
    show ?thesis
    proof (cases "desired = Some (lang_of (N i))")
      case True
      then show ?thesis using id z by (simp add: n Let_def)
    next
      case False
      then show ?thesis using id z
        by (cases pm; cases nm; cases fs) (simp_all add: n ih Let_def same_primary_def [symmetric] cong: option.case_cong)
    qed
  qed
qed

lemma find_sorted:
  assumes "sorted xs" "find P xs = Some x"
  shows "x \<in> set xs" "P x" "y \<in> set xs \<Longrightarrow> P y \<Longrightarrow> x \<le> y"
proof -
  obtain i where i: "i < length xs" "P (xs ! i)" "x = xs ! i" "\<forall>j < i. \<not> P (xs ! j)" using assms(2) by (auto simp: find_Some_iff)
  show "x \<in> set xs" "P x" using i by auto
  show "x \<le> y" if "y \<in> set xs" "P y"
  proof -
    obtain k where k: "k < length xs" "y = xs ! k" using \<open>y \<in> set xs\<close> by (auto simp: in_set_conv_nth)
    have "i \<le> k" using i(4) k that(2) by (meson not_le_imp_less)
    then show ?thesis using sorted_nth_mono [OF assms(1)] k i by simp
  qed
qed

text \<open>The first entry of the best rank among the entries with a language.\<close>

definition best_language :: "(nat \<Rightarrow> u32) \<Rightarrow> nat \<Rightarrow> u16 option \<Rightarrow> nat \<Rightarrow> bool" where
  "best_language N n desired i \<longleftrightarrow> i < n \<and> is_id (N i) \<and>
     (\<forall>j < n. is_id (N j) \<longrightarrow>
        lang_rank desired (lang_of (N i)) < lang_rank desired (lang_of (N j)) \<or>
        (lang_rank desired (lang_of (N i)) = lang_rank desired (lang_of (N j)) \<and> i \<le> j))"

lemma lang_loop_best:
  assumes "\<And>i. i < n \<Longrightarrow> entry_name sec (resourceEntry dir i) = Some (N i)"
  shows "\<exists>r. lang_loop sec dir desired [0..<n] None None None = Some r \<and>
    (case r of None \<Rightarrow> \<forall>i < n. \<not> is_id (N i)
     | Some (e, lang) \<Rightarrow> \<exists>i. e = resourceEntry dir i \<and> lang = lang_of (N i) \<and> best_language N n desired i)"
proof -
  define js where "js = filter (\<lambda>i. is_id (N i)) [0..<n]"
  have s: "sorted js" unfolding js_def by (rule sorted_wrt_filter) simp
  have m: "i \<in> set js \<longleftrightarrow> i < n \<and> is_id (N i)" for i by (auto simp: js_def)
  define L where "L i = lang_of (N i)" for i
  define ent where "ent i = (resourceEntry dir i, N i)" for i
  have e: "lang_loop sec dir desired [0..<n] None None None =
     (case find (\<lambda>i. desired = Some (L i)) js of
       Some i \<Rightarrow> Some (Some (resourceEntry dir i, L i))
     | None \<Rightarrow> Some (lang_result (map_option ent (find (\<lambda>i. same_primary desired (L i)) js))
         (map_option ent (find (\<lambda>i. L i = 0) js)) (map_option ent (find (\<lambda>_. True) js))))"
    using lang_loop_find [of "[0..<n]" sec dir N desired None None None] assms
    by (simp add: js_def L_def ent_def [abs_def] Let_def cong: option.case_cong)
  have best: "best_language N n desired i"
    if i: "find P js = Some i" and r: "\<And>j. j \<in> set js \<Longrightarrow> P j \<longleftrightarrow> lang_rank desired (L j) = k"
      and le: "\<And>j. j \<in> set js \<Longrightarrow> k \<le> lang_rank desired (L j)" for P i k
  proof -
    note f = find_sorted [OF s i]
    have ri: "lang_rank desired (L i) = k" using f(1,2) r by blast
    have "k < lang_rank desired (L j) \<or> (k = lang_rank desired (L j) \<and> i \<le> j)" if "j < n" "is_id (N j)" for j
      using f(3) [of j] r [of j] le [of j] that m by (metis le_neq_implies_less)
    then show ?thesis using f(1) m ri unfolding best_language_def L_def by simp
  qed
  show ?thesis
  proof (cases "find (\<lambda>i. desired = Some (L i)) js")
    case (Some i)
    have "best_language N n desired i" by (rule best [OF Some, of 0]) (auto simp: lang_rank_def)
    then show ?thesis using Some by (auto simp: e L_def)
  next
    case N0: None
    then have n0: "desired \<noteq> Some (L j)" if "j \<in> set js" for j using that by (simp add: find_None_iff)
    show ?thesis
    proof (cases "find (\<lambda>i. same_primary desired (L i)) js")
      case (Some i)
      have "best_language N n desired i" by (rule best [OF Some, of 1]) (use n0 in \<open>auto simp: lang_rank_def\<close>)
      then show ?thesis using N0 Some by (auto simp: e L_def ent_def lang_result_def)
    next
      case N1: None
      then have n1: "\<not> same_primary desired (L j)" if "j \<in> set js" for j using that by (simp add: find_None_iff)
      show ?thesis
      proof (cases "find (\<lambda>i. L i = 0) js")
        case (Some i)
        have "best_language N n desired i" by (rule best [OF Some, of 2]) (use n0 n1 in \<open>auto simp: lang_rank_def\<close>)
        moreover have "L i = 0" using find_sorted(2) [OF s Some] by simp
        ultimately show ?thesis using N0 N1 Some by (auto simp: e L_def ent_def lang_result_def)
      next
        case N2: None
        then have n2: "L j \<noteq> 0" if "j \<in> set js" for j using that by (simp add: find_None_iff)
        show ?thesis
        proof (cases "find (\<lambda>_. True) js")
          case (Some i)
          have "best_language N n desired i" by (rule best [OF Some, of 3]) (use n0 n1 n2 in \<open>auto simp: lang_rank_def\<close>)
          then show ?thesis using N0 N1 N2 Some by (auto simp: e L_def ent_def lang_result_def)
        next
          case None
          then have "\<forall>i < n. \<not> is_id (N i)" using m by (auto simp: find_None_iff)
          then show ?thesis using N0 N1 N2 None by (simp add: e lang_result_def)
        qed
      qed
    qed
  qed
qed

section \<open>The lookup\<close>

text \<open>Entry \<open>i\<close> of a directory is the one asked for, by its name or by its number.\<close>

definition entry_match :: "u8 list \<Rightarrow> nat \<Rightarrow> ResourceIdentifier \<Rightarrow> nat \<Rightarrow> nat \<Rightarrow> bool option" where
  "entry_match sec dir ident rsz i =
     do {
       n \<leftarrow> entry_name sec (resourceEntry dir i);
       if isString ident then resourceNameEquals sec n (ident_name ident) rsz
       else Some (is_id n \<and> n AND 0xFFFF = ident_id ident AND 0xFFFF) }"

text \<open>The entry is the first match in its half of the directory.\<close>

definition entry_for :: "u8 list \<Rightarrow> nat \<Rightarrow> ResourceIdentifier \<Rightarrow> nat \<Rightarrow> nat \<Rightarrow> bool" where
  "entry_for sec dir ident rsz e \<longleftrightarrow>
     (\<exists>named ids i. numberOfNamedEntries sec dir = Some named \<and> e = resourceEntry dir i \<and>
        (if isString ident then i < named else numberOfIdEntries sec dir = Some ids \<and> named \<le> i \<and> i < named + ids) \<and>
        entry_match sec dir ident rsz i = Some True \<and>
        (\<forall>j < i. isString ident \<or> named \<le> j \<longrightarrow> entry_match sec dir ident rsz j = Some False))"

lemma find_named_first:
  assumes "find_named sec dir (ident_name ident) rsz [a..<b] = Some (Some e)" "isString ident"
  shows "\<exists>i. a \<le> i \<and> i < b \<and> e = resourceEntry dir i \<and> entry_match sec dir ident rsz i = Some True \<and>
    (\<forall>j. a \<le> j \<and> j < i \<longrightarrow> entry_match sec dir ident rsz j = Some False)"
  using assms(1)
proof (induction "b - a" arbitrary: a)
  case 0
  then show ?case by simp
next
  case (Suc k)
  then have ab: "[a..<b] = a # [Suc a..<b]" and k: "k = b - Suc a" by (simp_all add: upt_conv_Cons)
  from Suc.prems [unfolded ab] obtain n q where n: "entry_name sec (resourceEntry dir a) = Some n"
    "resourceNameEquals sec n (ident_name ident) rsz = Some q"
    "(if q then Some (Some (resourceEntry dir a)) else find_named sec dir (ident_name ident) rsz [Suc a..<b]) = Some (Some e)"
    by (auto simp: bind_eq_Some_conv)
  have m: "entry_match sec dir ident rsz a = Some q" using n assms(2) by (simp add: entry_match_def)
  show ?case
  proof (cases q)
    case True
    then show ?thesis using n(3) m Suc.hyps(2) by (intro exI [of _ a]) auto
  next
    case False
    then obtain i where i: "Suc a \<le> i" "i < b" "e = resourceEntry dir i" "entry_match sec dir ident rsz i = Some True"
      "\<forall>j. Suc a \<le> j \<and> j < i \<longrightarrow> entry_match sec dir ident rsz j = Some False"
      using Suc.hyps(1) [OF k] n(3) by auto
    have "entry_match sec dir ident rsz j = Some False" if "a \<le> j" "j < i" for j
      using that i(5) m False by (cases "j = a") auto
    then show ?thesis using i by (intro exI [of _ i]) auto
  qed
qed

lemma find_id_first:
  assumes "find_id sec dir (ident_id ident) [a..<b] = Some (Some e)" "\<not> isString ident"
  shows "\<exists>i. a \<le> i \<and> i < b \<and> e = resourceEntry dir i \<and> entry_match sec dir ident rsz i = Some True \<and>
    (\<forall>j. a \<le> j \<and> j < i \<longrightarrow> entry_match sec dir ident rsz j = Some False)"
  using assms(1)
proof (induction "b - a" arbitrary: a)
  case 0
  then show ?case by simp
next
  case (Suc k)
  then have ab: "[a..<b] = a # [Suc a..<b]" and k: "k = b - Suc a" by (simp_all add: upt_conv_Cons)
  from Suc.prems [unfolded ab] obtain n where n: "entry_name sec (resourceEntry dir a) = Some n"
    "(if is_id n \<and> n AND 0xFFFF = ident_id ident AND 0xFFFF then Some (Some (resourceEntry dir a))
      else find_id sec dir (ident_id ident) [Suc a..<b]) = Some (Some e)"
    by (auto simp: bind_eq_Some_conv is_id_def)
  define q where "q \<longleftrightarrow> is_id n \<and> n AND 0xFFFF = ident_id ident AND 0xFFFF"
  have m: "entry_match sec dir ident rsz a = Some q" using n assms(2) by (simp add: entry_match_def q_def)
  show ?case
  proof (cases q)
    case True
    then show ?thesis using n(2) m Suc.hyps(2) unfolding q_def [symmetric] by (intro exI [of _ a]) auto
  next
    case False
    then obtain i where i: "Suc a \<le> i" "i < b" "e = resourceEntry dir i" "entry_match sec dir ident rsz i = Some True"
      "\<forall>j. Suc a \<le> j \<and> j < i \<longrightarrow> entry_match sec dir ident rsz j = Some False"
      using Suc.hyps(1) [OF k] n(2) unfolding q_def [symmetric] by auto
    have "entry_match sec dir ident rsz j = Some False" if "a \<le> j" "j < i" for j
      using that i(5) m False by (cases "j = a") auto
    then show ?thesis using i by (intro exI [of _ i]) auto
  qed
qed

lemma findEntry_for:
  assumes "findEntry sec dir ident rsz = Some (Some e)"
  shows "entry_for sec dir ident rsz e"
proof -
  obtain named where nm: "numberOfNamedEntries sec dir = Some named" using assms by (auto simp: findEntry_def bind_eq_Some_conv)
  show ?thesis
  proof (cases "isString ident")
    case True
    then have "find_named sec dir (ident_name ident) rsz [0..<named] = Some (Some e)" using assms nm by (simp add: findEntry_def)
    from find_named_first [OF this True] show ?thesis using nm True unfolding entry_for_def by auto
  next
    case False
    then obtain ids where "numberOfIdEntries sec dir = Some ids" "find_id sec dir (ident_id ident) [named..<named + ids] = Some (Some e)"
      using assms nm by (auto simp: findEntry_def bind_eq_Some_conv)
    moreover from find_id_first [OF this(2) False, of rsz] obtain i where "named \<le> i" "i < named + ids" "e = resourceEntry dir i"
      "entry_match sec dir ident rsz i = Some True" "\<forall>j. named \<le> j \<and> j < i \<longrightarrow> entry_match sec dir ident rsz j = Some False" by blast
    ultimately show ?thesis using nm False unfolding entry_for_def by (intro exI [of _ named] exI [of _ ids] exI [of _ i]) simp
  qed
qed

text \<open>A directory whose entries lie inside the section.\<close>

definition dir_fits :: "u8 list \<Rightarrow> nat \<Rightarrow> nat \<Rightarrow> bool" where
  "dir_fits sec dir n \<longleftrightarrow> (\<exists>a b. numberOfNamedEntries sec dir = Some a \<and> numberOfIdEntries sec dir = Some b \<and> n = a + b \<and>
     n < 2 ^ 16 \<and> resourceEntry dir n \<le> length sec)"

lemma dir_fits_names:
  assumes "dir_fits sec dir n" "i < n"
  shows "entry_name sec (resourceEntry dir i) \<noteq> None"
proof -
  have "resourceEntry dir i + 8 \<le> resourceEntry dir n" using assms(2) by (simp add: resourceEntry_def)
  moreover have "resourceEntry dir n \<le> length sec" using assms(1) by (auto simp: dir_fits_def)
  ultimately show ?thesis by (simp add: entry_name_def rd32_def)
qed

definition name_at :: "u8 list \<Rightarrow> nat \<Rightarrow> nat \<Rightarrow> u32" where
  "name_at sec dir i = (case entry_name sec (resourceEntry dir i) of None \<Rightarrow> 0 | Some n \<Rightarrow> n)"

lemma selectLanguageEntry_best:
  assumes "dir_fits sec dir n"
  shows "\<exists>r. selectLanguageEntry sec dir desired = Some r \<and>
    (case r of None \<Rightarrow> \<forall>i < n. \<not> is_id (name_at sec dir i)
     | Some (e, lang) \<Rightarrow> \<exists>i. e = resourceEntry dir i \<and> lang = lang_of (name_at sec dir i) \<and> best_language (name_at sec dir) n desired i)"
proof -
  have "entry_name sec (resourceEntry dir i) = Some (name_at sec dir i)" if "i < n" for i
    using dir_fits_names [OF assms that] by (auto simp: name_at_def)
  moreover have "selectLanguageEntry sec dir desired = lang_loop sec dir desired [0..<n] None None None"
    using assms by (auto simp: dir_fits_def selectLanguageEntry_def)
  ultimately show ?thesis using lang_loop_best [of n sec dir "name_at sec dir" desired] by simp
qed

lemma entryAsData_in:
  assumes "entryAsData sec e (length sec) = Some (Some de)" "sec \<noteq> []"
  shows "de + 16 \<le> length sec"
  using assms by (auto simp: entryAsData_def bind_eq_Some_conv resourceOffsetInRange_def Let_def split: if_splits)

text \<open>
  C38: a resource that is found lies where the tree says: its type is the first matching entry of the
  root, its name the first matching entry of that type's directory, and its data entry lies wholly inside the
  section and gives the address and the size returned. If the entries of the language directory lie inside the section
  too, its language is the best there is, the one asked for, else one with the same primary language, else
  the neutral one, else the first.
\<close>

theorem resource_lookup:
  assumes "findResource (Some sec) (length sec) typ nam lang = Some (Inr loc)" "sec \<noteq> []"
  shows "\<exists>te nd ne ld le. entry_for sec 0 typ (length sec) te \<and> entryAsDirectory sec te (length sec) = Some (Some nd) \<and>
    entry_for sec nd nam (length sec) ne \<and> entryAsDirectory sec ne (length sec) = Some (Some ld) \<and>
    entryAsData sec le (length sec) = Some (Some (dataEntry loc)) \<and> dataEntry loc + 16 \<le> length sec \<and>
    rd32 sec (dataEntry loc) = Some (data_rva loc) \<and> rd32 sec (dataEntry loc + 4) = Some (data_size loc) \<and>
    (\<forall>n. dir_fits sec ld n \<longrightarrow> (\<exists>i. le = resourceEntry ld i \<and> language loc = lang_of (name_at sec ld i) \<and>
       best_language (name_at sec ld) n lang i))"
proof -
  obtain te nd ne ld le cl de rva sz where
    f: "findEntry sec 0 typ (length sec) = Some (Some te)" "entryAsDirectory sec te (length sec) = Some (Some nd)"
    "findEntry sec nd nam (length sec) = Some (Some ne)" "entryAsDirectory sec ne (length sec) = Some (Some ld)"
    "selectLanguageEntry sec ld lang = Some (Some (le, cl))" "entryAsData sec le (length sec) = Some (Some de)"
    "rd32 sec de = Some rva" "rd32 sec (de + 4) = Some sz"
    "loc = \<lparr>dataEntry = de, data_rva = rva, data_size = sz, language = cl\<rparr>"
    using assms(1) by (auto simp: findResource_def bind_eq_Some_conv split: option.splits)
  have "\<exists>i. le = resourceEntry ld i \<and> cl = lang_of (name_at sec ld i) \<and> best_language (name_at sec ld) n lang i"
    if "dir_fits sec ld n" for n using selectLanguageEntry_best [OF that, of lang] f(5) by auto
  then show ?thesis using f(2,4,6-9) findEntry_for [OF f(1)] findEntry_for [OF f(3)] entryAsData_in [OF f(6) assms(2)]
    by (intro exI [of _ te] exI [of _ nd] exI [of _ ne] exI [of _ ld] exI [of _ le]) simp
qed

text \<open>One type, one name, two languages.\<close>

definition demo_section :: "u8 list" where
  "demo_section =
     [0, 0, 0, 0, 0, 0, 0, 0, 0, 0, 0, 0, 0, 0, 1, 0, 3, 0, 0, 0, 24, 0, 0, 128,
      0, 0, 0, 0, 0, 0, 0, 0, 0, 0, 0, 0, 0, 0, 1, 0, 1, 0, 0, 0, 48, 0, 0, 128,
      0, 0, 0, 0, 0, 0, 0, 0, 0, 0, 0, 0, 0, 0, 2, 0, 7, 4, 0, 0, 80, 0, 0, 0,
      9, 4, 0, 0, 96, 0, 0, 0, 0, 16, 0, 0, 5, 0, 0, 0, 0, 0, 0, 0, 0, 0, 0, 0,
      0, 32, 0, 0, 6, 0, 0, 0, 0, 0, 0, 0, 0, 0, 0, 0]"

definition demo_ident :: "u32 \<Rightarrow> ResourceIdentifier" where
  "demo_ident n = \<lparr>isString = False, ident_id = n, ident_name = []\<rparr>"

lemma demo_reads:
  "rd16 demo_section 12 = Some 0" "rd16 demo_section 14 = Some 1" "rd32 demo_section 16 = Some 3" "rd32 demo_section 20 = Some 0x80000018"
  "rd16 demo_section 36 = Some 0" "rd16 demo_section 38 = Some 1" "rd32 demo_section 40 = Some 1" "rd32 demo_section 44 = Some 0x80000030"
  "rd16 demo_section 60 = Some 0" "rd16 demo_section 62 = Some 2" "rd32 demo_section 64 = Some 0x407" "rd32 demo_section 72 = Some 0x409"
  "rd32 demo_section 76 = Some 96" "rd32 demo_section 96 = Some 0x2000" "rd32 demo_section 100 = Some 6" "length demo_section = 112"
  by (simp_all add: rd16_def rd32_def demo_section_def)

lemma demo_found:
  "findResource (Some demo_section) 112 (demo_ident 3) (demo_ident 1) (Some 0x0409)
   = Some (Inr \<lparr>dataEntry = 96, data_rva = 0x2000, data_size = 6, language = 0x0409\<rparr>)"
  by (simp add: findResource_def findEntry_def demo_ident_def numberOfNamedEntries_def numberOfIdEntries_def entry_name_def
      resourceEntry_def demo_reads entryAsDirectory_def entry_offsetToData_def RESOURCE_DATA_IS_DIRECTORY_def
      RESOURCE_NAME_IS_STRING_def resourceOffsetInRange_def selectLanguageEntry_def upt_rec lang_of_def entryAsData_def primaryLang_def)

theorem resource_lookup_witness:
  "\<exists>te. entry_for demo_section 0 (demo_ident 3) 112 te"
proof -
  have "demo_section \<noteq> []" by (simp add: demo_section_def)
  from resource_lookup [of demo_section "demo_ident 3" "demo_ident 1" "Some 0x0409", unfolded demo_reads(16), OF demo_found this]
  show ?thesis by blast
qed

text \<open>
  A directory's entries are read without a check against the section's size: a directory that ends
  the section with a count of one makes the lookup read beyond it.
\<close>

lemma entries_not_checked:
  "findResource (Some (replicate 14 0 @ [1, 0])) 16 (demo_ident 3) (demo_ident 1) None = None"
  by code_simp

end
