(* ===== verification/Module_Names.thy ===== *)
theory Module_Names
  imports Wibo_Prelude
begin

text \<open>
  Names of modules (\<^verbatim>\<open>src/src/modules.cpp\<close>, \<^verbatim>\<open>src/src/strutil.cpp\<close>): splitting a requested name, the names to try on disk,
  the normal forms that are keys of the registry, the API sets, the keys of the stub cache, and the
  order in which directories are searched. The program never leaves the C locale, so \<^verbatim>\<open>tolower\<close> and \<^verbatim>\<open>toupper\<close> change
  the ASCII letters only.
\<close>

section \<open>Case\<close>

definition c_tolower :: "char \<Rightarrow> char" where
  "c_tolower c = (if 65 \<le> (of_char c :: nat) \<and> (of_char c :: nat) \<le> 90 then char_of (of_char c + 32 :: nat) else c)"

definition c_toupper :: "char \<Rightarrow> char" where
  "c_toupper c = (if 97 \<le> (of_char c :: nat) \<and> (of_char c :: nat) \<le> 122 then char_of (of_char c - 32 :: nat) else c)"

definition stringToLower :: "string \<Rightarrow> string" where "stringToLower s = map c_tolower s"

definition stringToUpper :: "string \<Rightarrow> string" where "stringToUpper s = map c_toupper s"

definition replace_slash :: "string \<Rightarrow> string" where
  "replace_slash s = map (\<lambda>c. if c = CHR ''/'' then CHR 0x5C else c) s"

definition normalizeAlias :: "string \<Rightarrow> string" where
  "normalizeAlias v = stringToLower (replace_slash v)"

section \<open>Parsing a module name\<close>

record ParsedModuleName =
  original :: string
  directory :: string
  base_name :: string
  hasExtension :: bool
  endsWithDot :: bool

text \<open>The parts before and after the last backslash, if there is one.\<close>

fun find_last_of :: "char \<Rightarrow> string \<Rightarrow> nat option" where
  "find_last_of x [] = None"
| "find_last_of x (c # cs) =
     (case find_last_of x cs of Some i \<Rightarrow> Some (Suc i) | None \<Rightarrow> if c = x then Some 0 else None)"

definition parseModuleName :: "string \<Rightarrow> ParsedModuleName" where
  "parseModuleName name =
     (let sanitized = replace_slash name;
          (dir, b) = (case find_last_of (CHR 0x5C) sanitized of
             Some sep \<Rightarrow> (take sep sanitized, drop (sep + 1) sanitized)
           | None \<Rightarrow> ([], sanitized));
          dot = (b \<noteq> [] \<and> last b = CHR ''.'')
      in \<lparr>original = name, directory = dir, base_name = b,
          hasExtension = (\<not> dot \<and> CHR ''.'' \<in> set b), endsWithDot = dot\<rparr>)"

definition candidateModuleNames :: "ParsedModuleName \<Rightarrow> string list" where
  "candidateModuleNames parsed =
     (if base_name parsed \<noteq> [] then
        base_name parsed # (if \<not> hasExtension parsed \<and> \<not> endsWithDot parsed then [base_name parsed @ ''.dll''] else [])
      else [])"

definition normalizedBaseKey :: "ParsedModuleName \<Rightarrow> string" where
  "normalizedBaseKey parsed =
     (if base_name parsed = [] then []
      else normalizeAlias (if \<not> hasExtension parsed \<and> \<not> endsWithDot parsed then base_name parsed @ ''.dll'' else base_name parsed))"

definition makeStubKey :: "string \<Rightarrow> string \<Rightarrow> string" where
  "makeStubKey dllName funcName = stringToLower dllName @ '':'' @ stringToLower funcName"

definition kApiSet :: "(string \<times> string) list" where
  "kApiSet =
    [(''api-ms-win-core-crt-l1-1-0.dll'', ''msvcrt.dll''),
     (''api-ms-win-core-crt-l2-1-0.dll'', ''msvcrt.dll''),
     (''api-ms-win-crt-conio-l1-1-0.dll'', ''msvcrt.dll''),
     (''api-ms-win-crt-convert-l1-1-0.dll'', ''msvcrt.dll''),
     (''api-ms-win-crt-environment-l1-1-0.dll'', ''ucrtbase.dll''),
     (''api-ms-win-crt-filesystem-l1-1-0.dll'', ''ucrtbase.dll''),
     (''api-ms-win-crt-heap-l1-1-0.dll'', ''ucrtbase.dll''),
     (''api-ms-win-crt-locale-l1-1-0.dll'', ''ucrtbase.dll''),
     (''api-ms-win-crt-math-l1-1-0.dll'', ''ucrtbase.dll''),
     (''api-ms-win-crt-multibyte-l1-1-0.dll'', ''ucrtbase.dll''),
     (''api-ms-win-crt-private-l1-1-0.dll'', ''ucrtbase.dll''),
     (''api-ms-win-crt-process-l1-1-0.dll'', ''ucrtbase.dll''),
     (''api-ms-win-crt-runtime-l1-1-0.dll'', ''ucrtbase.dll''),
     (''api-ms-win-crt-stdio-l1-1-0.dll'', ''ucrtbase.dll''),
     (''api-ms-win-crt-string-l1-1-0.dll'', ''ucrtbase.dll''),
     (''api-ms-win-crt-time-l1-1-0.dll'', ''ucrtbase.dll''),
     (''api-ms-win-crt-utility-l1-1-0.dll'', ''ucrtbase.dll''),
     (''api-ms-win-core-synch-l1-2-0.dll'', ''kernelbase.dll'')]"

text \<open>The loop of \<^verbatim>\<open>loadModule\<close> over the API sets: the name that is loaded for a requested one.\<close>

fun api_set_loop :: "string \<Rightarrow> string \<Rightarrow> (string \<times> string) list \<Rightarrow> string" where
  "api_set_loop requested normalized [] = requested"
| "api_set_loop requested normalized ((alias, module) # rest) =
     (if alias = normalized then module else api_set_loop requested normalized rest)"

definition api_set_name :: "string \<Rightarrow> string" where
  "api_set_name dllName = api_set_loop dllName (normalizedBaseKey (parseModuleName dllName)) kApiSet"

section \<open>Search on disk\<close>

text \<open>
  Paths of the host are strings here. \<open>canonical\<close> stands for \<^verbatim>\<open>weakly_canonical\<close> or \<^verbatim>\<open>absolute\<close> followed by the test that
  the directory exists, \<open>find_file\<close> for \<^verbatim>\<open>files::findCaseInsensitiveFile\<close> followed by \<^verbatim>\<open>files::canonicalPath\<close>, \<open>from_windows\<close> for
  \<^verbatim>\<open>files::pathFromWindows\<close>.
\<close>

definition addDirectory :: "(string \<Rightarrow> string option) \<Rightarrow> string \<Rightarrow> string list \<times> string set \<Rightarrow> string list \<times> string set" where
  "addDirectory canonical dir acc =
     (let (dirs, seen) = acc in
      if dir = [] then acc
      else case canonical dir of
        None \<Rightarrow> acc
      | Some c \<Rightarrow> if stringToLower c \<in> seen then acc else (dirs @ [c], insert (stringToLower c) seen))"

text \<open>The pieces of a list of paths between colons and semicolons; empty pieces are skipped.\<close>

fun path_pieces :: "string \<Rightarrow> string \<Rightarrow> string list" where
  "path_pieces piece [] = (if piece = [] then [] else [piece])"
| "path_pieces piece (c # cs) =
     (if c = CHR '':'' \<or> c = CHR '';'' then (if piece = [] then path_pieces [] cs else piece # path_pieces [] cs)
      else path_pieces (piece @ [c]) cs)"

definition addFromEnv :: "(string \<Rightarrow> string option) \<Rightarrow> (string \<Rightarrow> string) \<Rightarrow> string option
    \<Rightarrow> string list \<times> string set \<Rightarrow> string list \<times> string set" where
  "addFromEnv canonical from_windows envPath acc =
     (case envPath of
        None \<Rightarrow> acc
      | Some pathList \<Rightarrow>
          fold (\<lambda>piece. let candidate = from_windows piece in addDirectory canonical (if candidate \<noteq> [] then candidate else piece))
            (path_pieces [] pathList) acc)"

definition collectSearchDirectories :: "(string \<Rightarrow> string option) \<Rightarrow> (string \<Rightarrow> string) \<Rightarrow> string \<Rightarrow> string option \<Rightarrow> string
    \<Rightarrow> string option \<Rightarrow> string option \<Rightarrow> bool \<Rightarrow> string list" where
  "collectSearchDirectories canonical from_windows exeParent dllDirectory current wiboPath winePath altered =
     (let a0 = ([], {});
          a1 = (if exeParent \<noteq> [] then addDirectory canonical exeParent a0 else a0);
          a2 = (case dllDirectory of Some d \<Rightarrow> addDirectory canonical d a1 | None \<Rightarrow> a1);
          a3 = (if \<not> altered then addDirectory canonical current a2 else a2);
          a4 = addFromEnv canonical from_windows wiboPath a3;
          a5 = addFromEnv canonical from_windows winePath a4
      in fst a5)"

definition combineAndFind :: "(string \<Rightarrow> string \<Rightarrow> string option) \<Rightarrow> string \<Rightarrow> string \<Rightarrow> string option" where
  "combineAndFind find_file dir filename = (if filename = [] then None else if dir = [] then None else find_file dir filename)"

text \<open>The first success of a search over a list.\<close>

fun first_some :: "('a \<Rightarrow> 'b option) \<Rightarrow> 'a list \<Rightarrow> 'b option" where
  "first_some f [] = None"
| "first_some f (x # xs) = (case f x of Some y \<Rightarrow> Some y | None \<Rightarrow> first_some f xs)"

definition resolveModuleOnDisk :: "(string \<Rightarrow> string \<Rightarrow> string option) \<Rightarrow> (string \<Rightarrow> string option) \<Rightarrow> string list \<Rightarrow> string \<Rightarrow> string option" where
  "resolveModuleOnDisk find_file find_windows dirs requestedName =
     (let parsed = parseModuleName requestedName; names = candidateModuleNames parsed in
      if directory parsed \<noteq> [] then first_some (\<lambda>c. find_windows (directory parsed @ [CHR 0x5C] @ c)) names
      else first_some (\<lambda>dir. first_some (combineAndFind find_file dir) names) dirs)"

section \<open>Normal forms\<close>

lemma c_tolower_idem [simp]: "c_tolower (c_tolower c) = c_tolower c"
  by (auto simp: c_tolower_def)

lemma stringToLower_idem [simp]: "stringToLower (stringToLower s) = stringToLower s"
  by (simp add: stringToLower_def)

lemma stringToLower_append [simp]: "stringToLower (a @ b) = stringToLower a @ stringToLower b"
  by (simp add: stringToLower_def)

lemma stringToLower_Nil [simp]: "stringToLower [] = []" "stringToLower s = [] \<longleftrightarrow> s = []"
  by (simp_all add: stringToLower_def)

text \<open>Lower case leaves the characters that structure a name alone.\<close>

lemma c_tolower_mark:
  assumes "x \<in> {CHR ''.'', CHR 0x5C, CHR ''/'', CHR '':''}"
  shows "c_tolower c = x \<longleftrightarrow> c = x"
proof (cases "65 \<le> (of_char c :: nat) \<and> (of_char c :: nat) \<le> 90")
  case True
  have "(of_char (c_tolower c) :: nat) = of_char c + 32" using True by (simp add: c_tolower_def)
  moreover have "(of_char x :: nat) \<in> {46, 92, 47, 58}" using assms by auto
  ultimately show ?thesis using True by (auto simp: of_char_eq_iff [symmetric] simp del: of_char_eq_iff)
next
  case False
  then have "c_tolower c = c" unfolding c_tolower_def by (rule if_not_P)
  then show ?thesis by simp
qed

lemma mark_in_lower:
  assumes "x \<in> {CHR ''.'', CHR 0x5C, CHR ''/'', CHR '':''}"
  shows "x \<in> set (stringToLower s) \<longleftrightarrow> x \<in> set s"
  unfolding stringToLower_def
proof (induction s)
  case (Cons c s)
  then show ?case using c_tolower_mark [OF assms, of c] by auto
qed simp

lemma find_last_of_None: "find_last_of x s = None \<longleftrightarrow> x \<notin> set s"
  by (induction s) (auto split: option.splits)

lemma find_last_of_append:
  "find_last_of x (a @ x # b) = (case find_last_of x b of Some i \<Rightarrow> Some (length a + 1 + i) | None \<Rightarrow> Some (length a))"
  by (induction a) (auto split: option.splits)

definition key_base :: "string \<Rightarrow> string" where
  "key_base s = (case find_last_of (CHR 0x5C) s of Some i \<Rightarrow> drop (i + 1) s | None \<Rightarrow> s)"

lemma key_base_append: "key_base (a @ CHR 0x5C # b) = key_base b"
  by (simp add: key_base_def find_last_of_append split: option.splits)

lemma key_base_id: "CHR 0x5C \<notin> set s \<Longrightarrow> key_base s = s"
  by (simp add: key_base_def find_last_of_None [symmetric])

lemma key_base_clean: "CHR 0x5C \<notin> set (key_base s)"
proof (induction s)
  case Nil
  then show ?case by (simp add: key_base_def)
next
  case (Cons c s)
  then show ?case
    by (cases "find_last_of (CHR 0x5C) s") (auto simp: key_base_def find_last_of_None [symmetric])
qed

definition base_key :: "string \<Rightarrow> string" where
  "base_key b = (if b = [] then [] else
     stringToLower (if b \<noteq> [] \<and> last b \<noteq> CHR ''.'' \<and> CHR ''.'' \<notin> set b then b @ ''.dll'' else b))"

lemma replace_slash_clean: "CHR ''/'' \<notin> set (replace_slash s)" by (auto simp: replace_slash_def)

lemma replace_slash_id: "CHR ''/'' \<notin> set s \<Longrightarrow> replace_slash s = s"
  by (induction s) (auto simp: replace_slash_def)

lemma normalizedBaseKey_eq: "normalizedBaseKey (parseModuleName n) = base_key (key_base (replace_slash n))"
proof -
  let ?b = "key_base (replace_slash n)"
  have b: "base_name (parseModuleName n) = ?b" "endsWithDot (parseModuleName n) = (?b \<noteq> [] \<and> last ?b = CHR ''.'')"
    "hasExtension (parseModuleName n) = (\<not> (?b \<noteq> [] \<and> last ?b = CHR ''.'') \<and> CHR ''.'' \<in> set ?b)"
    by (simp_all add: parseModuleName_def Let_def key_base_def split: option.splits)
  have "CHR ''/'' \<notin> set ?b" using replace_slash_clean [of n] by (auto simp: key_base_def dest: in_set_dropD split: option.splits)
  then have "replace_slash ?b = ?b" "replace_slash (?b @ ''.dll'') = ?b @ ''.dll''" by (simp_all add: replace_slash_id)
  then show ?thesis by (auto simp: normalizedBaseKey_def b base_key_def normalizeAlias_def)
qed

lemma base_key_idem: "base_key (base_key b) = base_key b"
proof -
  have l: "last (stringToLower b) = CHR ''.'' \<longleftrightarrow> last b = CHR ''.''" if "b \<noteq> []" for b
    using that c_tolower_mark [of "CHR ''.''" "last b"] by (simp add: stringToLower_def last_map)
  have d: "stringToLower ''.dll'' = ''.dll''" by (simp add: stringToLower_def c_tolower_def)
  show ?thesis
  proof (cases "b = []")
    case False
    then show ?thesis using l [of b] mark_in_lower [of "CHR ''.''" b] by (auto simp: base_key_def d)
  qed (simp add: base_key_def)
qed

lemma lower_replace_slash: "stringToLower (replace_slash s) = replace_slash (stringToLower s)"
proof -
  have "c_tolower (CHR 0x5C) = CHR 0x5C" by (simp add: c_tolower_def)
  then show ?thesis using c_tolower_mark [of "CHR ''/''"] by (auto simp: stringToLower_def replace_slash_def)
qed

lemma lower_find_last: "find_last_of (CHR 0x5C) (stringToLower s) = find_last_of (CHR 0x5C) s"
  using c_tolower_mark [of "CHR 0x5C"] by (induction s) (auto simp: stringToLower_def split: option.splits)

lemma lower_key_base: "stringToLower (key_base s) = key_base (stringToLower s)"
  unfolding key_base_def lower_find_last by (simp add: stringToLower_def drop_map split: option.splits)

lemma lower_base_key: "base_key (stringToLower b) = base_key b"
proof (cases "b = []")
  case False
  then have "last (stringToLower b) = CHR ''.'' \<longleftrightarrow> last b = CHR ''.''"
    using c_tolower_mark [of "CHR ''.''" "last b"] by (simp add: stringToLower_def last_map)
  then show ?thesis using False mark_in_lower [of "CHR ''.''" b] by (auto simp: base_key_def)
qed simp

text \<open>
  The registry's key identifies the spellings of a module's name: the key of a key is the key
  itself; a directory in front, the letter case, the kind of slash and an omitted extension \<^verbatim>\<open>.dll\<close> make no
  difference.
\<close>

theorem module_key_canonical:
  "normalizedBaseKey (parseModuleName (normalizedBaseKey (parseModuleName n))) = normalizedBaseKey (parseModuleName n) \<and>
   normalizedBaseKey (parseModuleName (dir @ CHR 0x5C # n)) = normalizedBaseKey (parseModuleName n) \<and>
   normalizedBaseKey (parseModuleName (dir @ CHR ''/'' # n)) = normalizedBaseKey (parseModuleName n) \<and>
   normalizedBaseKey (parseModuleName (stringToLower n)) = normalizedBaseKey (parseModuleName n) \<and>
   (n \<noteq> [] \<and> set n \<inter> {CHR 0x5C, CHR ''/'', CHR ''.''} = {} \<longrightarrow>
      normalizedBaseKey (parseModuleName (n @ ''.dll'')) = normalizedBaseKey (parseModuleName n))"
proof (intro conjI impI)
  have rs: "replace_slash (a @ b) = replace_slash a @ replace_slash b" for a b by (simp add: replace_slash_def)
  show "normalizedBaseKey (parseModuleName (normalizedBaseKey (parseModuleName n))) = normalizedBaseKey (parseModuleName n)"
  proof -
    let ?k = "base_key (key_base (replace_slash n))"
    have c: "x \<notin> set ?k" if "x \<in> {CHR 0x5C, CHR ''/''}" for x
    proof -
      have "CHR ''/'' \<notin> set (key_base (replace_slash n))"
        using replace_slash_clean [of n] by (auto simp: key_base_def dest: in_set_dropD split: option.splits)
      then have "x \<notin> set (key_base (replace_slash n))" "x \<notin> set ''.dll''" using that key_base_clean by auto
      moreover have "x \<in> {CHR ''.'', CHR 0x5C, CHR ''/'', CHR '':''}" using that by auto
      note mark_in_lower [OF this]
      ultimately show ?thesis by (simp add: base_key_def)
    qed
    then show ?thesis by (simp add: normalizedBaseKey_eq replace_slash_id key_base_id base_key_idem)
  qed
  show "normalizedBaseKey (parseModuleName (dir @ CHR 0x5C # n)) = normalizedBaseKey (parseModuleName n)"
    "normalizedBaseKey (parseModuleName (dir @ CHR ''/'' # n)) = normalizedBaseKey (parseModuleName n)"
    using key_base_append [of "replace_slash dir" "replace_slash n"]
    by (simp_all add: normalizedBaseKey_eq replace_slash_def)
  show "normalizedBaseKey (parseModuleName (stringToLower n)) = normalizedBaseKey (parseModuleName n)"
    by (simp add: normalizedBaseKey_eq lower_replace_slash [symmetric] lower_key_base [symmetric] lower_base_key)
  assume n: "n \<noteq> [] \<and> set n \<inter> {CHR 0x5C, CHR ''/'', CHR ''.''} = {}"
  then have "last n \<noteq> CHR ''.''" using last_in_set by fastforce
  with n show "normalizedBaseKey (parseModuleName (n @ ''.dll'')) = normalizedBaseKey (parseModuleName n)"
    by (simp add: normalizedBaseKey_eq rs replace_slash_id key_base_id base_key_def)
qed

theorem module_key_canonical_witness:
  "normalizedBaseKey (parseModuleName ''C:/Tools/KERNEL32'') = ''kernel32.dll'' \<and>
   normalizedBaseKey (parseModuleName (''C:/Tools/'' @ ''KERNEL32'')) = normalizedBaseKey (parseModuleName (''KERNEL32'' @ ''.dll''))"
proof
  show "normalizedBaseKey (parseModuleName ''C:/Tools/KERNEL32'') = ''kernel32.dll''" by code_simp
  have "normalizedBaseKey (parseModuleName (''C:/Tools'' @ CHR ''/'' # ''KERNEL32'')) = normalizedBaseKey (parseModuleName ''KERNEL32'')"
    "normalizedBaseKey (parseModuleName (''KERNEL32'' @ ''.dll'')) = normalizedBaseKey (parseModuleName ''KERNEL32'')"
    using module_key_canonical [of "''KERNEL32''" "''C:/Tools''"] by simp_all
  then show "normalizedBaseKey (parseModuleName (''C:/Tools/'' @ ''KERNEL32'')) = normalizedBaseKey (parseModuleName (''KERNEL32'' @ ''.dll''))"
    by simp
qed

end
