(* ===== verification/Pe_Image.thy ===== *)
theory Pe_Image
  imports Memory_Invariant "HOL-Library.Monad_Syntax"
begin

unbundle bit_operations_syntax

text \<open>
  The structures of a PE image (\<^verbatim>\<open>src/src/loader.cpp\<close>, \<^verbatim>\<open>src/src/modules.h\<close>): the input a loader reads from (a file of
  the host or a span of bytes), the headers, the byte memory of the guest, and the record of a loaded
  executable.
\<close>

section \<open>Bytes and memory\<close>

type_synonym mem = "nat \<Rightarrow> u8"

definition le16 :: "u8 list \<Rightarrow> nat \<Rightarrow> u16" where
  "le16 bs i = of_nat (unat (bs ! i) + 256 * unat (bs ! (i + 1)))"

definition le32 :: "u8 list \<Rightarrow> nat \<Rightarrow> u32" where
  "le32 bs i = of_nat (unat (bs ! i) + 256 * unat (bs ! (i + 1)) + 65536 * unat (bs ! (i + 2)) + 16777216 * unat (bs ! (i + 3)))"

text \<open>Access through a pointer of the 32-bit build: addresses wrap.\<close>

definition load16 :: "mem \<Rightarrow> nat \<Rightarrow> u16" where
  "load16 m a = le16 [m a, m (addp a 1)] 0"

definition load32 :: "mem \<Rightarrow> nat \<Rightarrow> u32" where
  "load32 m a = le32 [m a, m (addp a 1), m (addp a 2), m (addp a 3)] 0"

definition store32 :: "nat \<Rightarrow> u32 \<Rightarrow> mem \<Rightarrow> mem" where
  "store32 a v m = m(a := ucast v, addp a 1 := ucast (drop_bit 8 v), addp a 2 := ucast (drop_bit 16 v),
                     addp a 3 := ucast (drop_bit 24 v))"

text \<open>\<^verbatim>\<open>memset\<close> to zero, and the copy of a list of bytes.\<close>

definition mem_zero :: "nat \<Rightarrow> nat \<Rightarrow> mem \<Rightarrow> mem" where
  "mem_zero a n m = (\<lambda>x. if a \<le> x \<and> x < a + n then 0 else m x)"

definition mem_write :: "nat \<Rightarrow> u8 list \<Rightarrow> mem \<Rightarrow> mem" where
  "mem_write a bs m = (\<lambda>x. if a \<le> x \<and> x < a + length bs then bs ! (x - a) else m x)"

section \<open>The input\<close>

text \<open>
  A file gives the size \<^verbatim>\<open>fstat\<close> reports, if any, whether \<^verbatim>\<open>fseeko\<close> accepts a position, and what \<^verbatim>\<open>fread\<close>
  returns at a position for a number of wanted bytes: a chunk, which is empty at the end of the file,
  or \<open>None\<close> on an error.
\<close>

datatype PeInputView =
    FileSource (fileSize: "nat option") (fseek_ok: "nat \<Rightarrow> bool") (fread: "nat \<Rightarrow> nat \<Rightarrow> u8 list option")
  | SpanSource (span_bytes: "u8 list")

definition off_max :: nat where "off_max = 2 ^ 63 - 1"

function fread_loop :: "(nat \<Rightarrow> nat \<Rightarrow> u8 list option) \<Rightarrow> nat \<Rightarrow> nat \<Rightarrow> u8 list \<Rightarrow> u8 list option" where
  "fread_loop fr offset n buffer =
     (if length buffer < n then
        (case fr (offset + length buffer) (n - length buffer) of
           None \<Rightarrow> None
         | Some chunk \<Rightarrow> if chunk = [] then None else fread_loop fr offset n (buffer @ chunk))
      else if length buffer = n then Some buffer else None)"
  by pat_completeness auto
termination by (relation "measure (\<lambda>(fr, offset, n, buffer). n - length buffer)") (auto simp: neq_Nil_conv)

declare fread_loop.simps [simp del]

fun readImpl :: "PeInputView \<Rightarrow> nat \<Rightarrow> nat \<Rightarrow> u8 list option" where
  "readImpl (FileSource sz sk fr) offset n =
     (if offset > off_max then None
      else case sz of
        Some totalSize \<Rightarrow>
          if offset > totalSize then None
          else if totalSize - offset < n then None
          else if \<not> sk offset then None else fread_loop fr offset n []
      | None \<Rightarrow> if \<not> sk offset then None else fread_loop fr offset n [])"
| "readImpl (SpanSource bytes) offset n =
     (if offset > length bytes then None
      else if length bytes - offset < n then None
      else Some (take n (drop offset bytes)))"

definition view_read :: "PeInputView \<Rightarrow> nat \<Rightarrow> nat \<Rightarrow> u8 list option" where
  "view_read src offset n = (if n = 0 then Some [] else readImpl src offset n)"

fun view_size :: "PeInputView \<Rightarrow> nat option" where
  "view_size (FileSource sz sk fr) = sz"
| "view_size (SpanSource bytes) = Some (length bytes)"

section \<open>Headers\<close>

record PEHeader =
  magic4 :: "u8 list"
  machine :: u16
  numberOfSections :: u16
  sizeOfOptionalHeader :: u16
  characteristics :: u16

record PEImageDataDirectory =
  dd_virtualAddress :: u32
  dd_size :: u32

record PE32Header =
  magic :: u16
  addressOfEntryPoint :: u32
  h_imageBase :: u32
  sectionAlignment :: u32
  fileAlignment :: u32
  sizeOfImage :: u32
  sizeOfHeaders :: u32
  exportTable :: PEImageDataDirectory
  importTable :: PEImageDataDirectory
  baseRelocationTable :: PEImageDataDirectory
  tlsTable :: PEImageDataDirectory
  delayImportDescriptor :: PEImageDataDirectory

record PESectionHeader =
  sname :: "u8 list"
  virtualSize :: u32
  virtualAddress :: u32
  sizeOfRawData :: u32
  pointerToRawData :: u32
  scn_characteristics :: u32

abbreviation (input) sizeof_PEHeader :: nat where "sizeof_PEHeader \<equiv> 24"
abbreviation (input) sizeof_PE32Header :: nat where "sizeof_PE32Header \<equiv> 224"
abbreviation (input) sizeof_PESectionHeader :: nat where "sizeof_PESectionHeader \<equiv> 40"
abbreviation (input) kOptionalHeaderMinimumSize :: nat where "kOptionalHeaderMinimumSize \<equiv> 224"

definition IMAGE_FILE_DLL :: u16 where "IMAGE_FILE_DLL = 0x2000"
definition IMAGE_SCN_MEM_EXECUTE :: u32 where "IMAGE_SCN_MEM_EXECUTE = 0x20000000"
definition IMAGE_SCN_MEM_READ :: u32 where "IMAGE_SCN_MEM_READ = 0x40000000"
definition IMAGE_SCN_MEM_WRITE :: u32 where "IMAGE_SCN_MEM_WRITE = 0x80000000"
definition IMAGE_SCN_MEM_NOT_CACHED :: u32 where "IMAGE_SCN_MEM_NOT_CACHED = 0x04000000"
definition PAGE_NOCACHE :: u32 where "PAGE_NOCACHE = 0x200"
definition MEM_IMAGE :: u32 where "MEM_IMAGE = 0x01000000"

text \<open>The fields of the structures at their offsets in the bytes read.\<close>

definition pe_header :: "u8 list \<Rightarrow> PEHeader" where
  "pe_header bs = \<lparr>magic4 = take 4 bs, machine = le16 bs 4, numberOfSections = le16 bs 6,
     sizeOfOptionalHeader = le16 bs 20, characteristics = le16 bs 22\<rparr>"

definition data_directory :: "u8 list \<Rightarrow> nat \<Rightarrow> PEImageDataDirectory" where
  "data_directory bs i = \<lparr>dd_virtualAddress = le32 bs i, dd_size = le32 bs (i + 4)\<rparr>"

definition pe32_header :: "u8 list \<Rightarrow> PE32Header" where
  "pe32_header bs = \<lparr>magic = le16 bs 0, addressOfEntryPoint = le32 bs 16, h_imageBase = le32 bs 28,
     sectionAlignment = le32 bs 32, fileAlignment = le32 bs 36, sizeOfImage = le32 bs 56, sizeOfHeaders = le32 bs 60,
     exportTable = data_directory bs 96, importTable = data_directory bs 104,
     baseRelocationTable = data_directory bs 136, tlsTable = data_directory bs 168,
     delayImportDescriptor = data_directory bs 200\<rparr>"

definition section_header :: "u8 list \<Rightarrow> PESectionHeader" where
  "section_header bs = \<lparr>sname = take 8 bs, virtualSize = le32 bs 8, virtualAddress = le32 bs 12,
     sizeOfRawData = le32 bs 16, pointerToRawData = le32 bs 20, scn_characteristics = le32 bs 36\<rparr>"

section \<open>A loaded executable\<close>

record SectionInfo =
  s_base :: nat
  s_size :: nat
  s_protect :: u32
  s_characteristics :: u32

record Executable =
  imageBase :: nat
  imageSize :: nat
  entryPoint :: nat
  rsrcBase :: nat
  rsrcSize :: u32
  preferredImageBase :: nat
  relocationDelta :: u32
  exportDirectoryRVA :: u32
  exportDirectorySize :: u32
  relocationDirectoryRVA :: u32
  relocationDirectorySize :: u32
  importDirectoryRVA :: u32
  importDirectorySize :: u32
  delayImportDirectoryRVA :: u32
  delayImportDirectorySize :: u32
  tlsDirectoryRVA :: u32
  tlsDirectorySize :: u32
  execMapped :: bool
  importsResolved :: bool
  importsResolving :: bool
  sectionsProtected :: bool
  isDll :: bool
  sections :: "SectionInfo list"

definition new_executable :: Executable where
  "new_executable = \<lparr>imageBase = 0, imageSize = 0, entryPoint = 0, rsrcBase = 0, rsrcSize = 0, preferredImageBase = 0,
     relocationDelta = 0, exportDirectoryRVA = 0, exportDirectorySize = 0, relocationDirectoryRVA = 0,
     relocationDirectorySize = 0, importDirectoryRVA = 0, importDirectorySize = 0, delayImportDirectoryRVA = 0,
     delayImportDirectorySize = 0, tlsDirectoryRVA = 0, tlsDirectorySize = 0, execMapped = False,
     importsResolved = False, importsResolving = False, sectionsProtected = False, isDll = False, sections = []\<rparr>"

definition fromRVA :: "Executable \<Rightarrow> u32 \<Rightarrow> nat" where
  "fromRVA e rva = addp (unat rva) (imageBase e)"

text \<open>
  What the host offers: its page size and the calls of the virtual memory. The loader's world is the
  virtual memory, the bytes of the guest's address space and the last error of the thread.
\<close>

record Host =
  pageSizeValue :: nat
  h_mmap :: mmap_fn
  h_madvise :: "nat \<Rightarrow> nat \<Rightarrow> errno option"
  h_munmap :: mmap_fn
  h_mprotect :: mmap_fn

record World =
  vm :: VmState
  memory :: mem
  lastError :: u32

section \<open>Alignment and protection of sections\<close>

definition pe_alignDown :: "nat \<Rightarrow> nat \<Rightarrow> nat" where
  "pe_alignDown v al = (if al = 0 then v else subp v (v mod al))"

definition pe_alignUp :: "nat \<Rightarrow> nat \<Rightarrow> nat" where
  "pe_alignUp v al =
     (if al = 0 then v
      else let remainder = v mod al in
        if remainder = 0 then v
        else if v > uintptr_max - (al - remainder) then uintptr_max
        else v + (al - remainder))"

definition sectionProtectFromCharacteristics :: "u32 \<Rightarrow> u32" where
  "sectionProtectFromCharacteristics ch =
     (let executable = (ch AND IMAGE_SCN_MEM_EXECUTE \<noteq> 0);
          readable0 = (ch AND IMAGE_SCN_MEM_READ \<noteq> 0);
          writable = (ch AND IMAGE_SCN_MEM_WRITE \<noteq> 0);
          readable = (if \<not> readable0 \<and> \<not> writable \<and> \<not> executable then True else readable0);
          protect =
            (if executable then
               (if writable then PAGE_EXECUTE_READWRITE else if readable then PAGE_EXECUTE_READ else PAGE_EXECUTE)
             else if writable then PAGE_READWRITE
             else if readable then PAGE_READONLY
             else PAGE_NOACCESS)
      in if ch AND IMAGE_SCN_MEM_NOT_CACHED \<noteq> 0 then protect OR PAGE_NOCACHE else protect)"

end
