(* ===== verification/Pe_Loader.thy ===== *)
theory Pe_Loader
  imports Pe_Image Error_Codes
begin

unbundle bit_operations_syntax

text \<open>
  Loading a PE image (\<^verbatim>\<open>src/src/loader.cpp\<close>): \<^verbatim>\<open>loadPE\<close> with every check of the headers, the reservation
  of the image in the guest's address space, the copy of the sections, the base relocations and the
  protection of the sections. The relocation loop reads the table from the memory it changes, so it is a
  partial function: \<open>None\<close> means that the loop does not end.
\<close>

section \<open>Reading the headers\<close>

definition read_pe_header :: "PeInputView \<Rightarrow> (u32 \<times> PEHeader) option" where
  "read_pe_header src =
     do {
       d \<leftarrow> view_read src 0 2;
       if le16 d 0 \<noteq> 0x5A4D then None
       else do {
         l \<leftarrow> view_read src 0x3C 4;
         let offsetToPE = le32 l 0;
         if (case view_size src of
               Some totalSize \<Rightarrow> unat offsetToPE > totalSize \<or> totalSize - unat offsetToPE < sizeof_PEHeader
             | None \<Rightarrow> False)
         then None
         else do {
           bs \<leftarrow> view_read src (unat offsetToPE) sizeof_PEHeader;
           let header = pe_header bs;
           if magic4 header \<noteq> [0x50, 0x45, 0, 0] then None
           else if machine header \<noteq> 0x14C then None
           else if numberOfSections header = 0 \<or> numberOfSections header > 1024 then None
           else Some (offsetToPE, header) } } }"

definition read_optional_header :: "PeInputView \<Rightarrow> u32 \<Rightarrow> PEHeader \<Rightarrow> PE32Header option" where
  "read_optional_header src offsetToPE header =
     (if unat (sizeOfOptionalHeader header) < kOptionalHeaderMinimumSize then None
      else do {
        bs \<leftarrow> view_read src (addp (unat offsetToPE) sizeof_PEHeader)
               (min sizeof_PE32Header (unat (sizeOfOptionalHeader header)));
        let header32 = pe32_header bs;
        if magic header32 \<noteq> 0x10B then None
        else if sizeOfImage header32 = 0 \<or> sizeOfHeaders header32 = 0 \<or> sizeOfHeaders header32 > sizeOfImage header32
        then None
        else if fileAlignment header32 = 0 \<or> sectionAlignment header32 = 0 then None
        else Some header32 })"

section \<open>The image in memory\<close>

definition resetExecutableState :: "Host \<Rightarrow> Executable \<Rightarrow> 'a World_scheme \<Rightarrow> Executable \<times> 'a World_scheme" where
  "resetExecutableState h e w =
     (new_executable\<lparr>isDll := isDll e\<rparr>,
      if imageBase e \<noteq> 0
      then w\<lparr>vm := snd (virtualFree (pageSizeValue h) (h_munmap h) (imageBase e) 0 MEM_RELEASE (vm w))\<rparr> else w)"

definition set_directories :: "PE32Header \<Rightarrow> bool \<Rightarrow> Executable \<Rightarrow> Executable" where
  "set_directories header32 exec e =
     e\<lparr>preferredImageBase := unat (h_imageBase header32),
       exportDirectoryRVA := dd_virtualAddress (exportTable header32),
       exportDirectorySize := dd_size (exportTable header32),
       relocationDirectoryRVA := dd_virtualAddress (baseRelocationTable header32),
       relocationDirectorySize := dd_size (baseRelocationTable header32),
       importDirectoryRVA := dd_virtualAddress (importTable header32),
       importDirectorySize := dd_size (importTable header32),
       delayImportDirectoryRVA := dd_virtualAddress (delayImportDescriptor header32),
       delayImportDirectorySize := dd_size (delayImportDescriptor header32),
       tlsDirectoryRVA := dd_virtualAddress (tlsTable header32),
       tlsDirectorySize := dd_size (tlsTable header32),
       execMapped := exec, importsResolved := False, importsResolving := False, sectionsProtected := False,
       imageSize := unat (sizeOfImage header32)\<rparr>"

text \<open>The two attempts to reserve the image: at its preferred base, then anywhere.\<close>

definition image_alloc :: "Host \<Rightarrow> bool \<Rightarrow> nat \<Rightarrow> nat \<Rightarrow> VmState \<Rightarrow> (VmStatus \<times> nat \<times> nat) \<times> VmState" where
  "image_alloc h exec request imgSize s =
     virtualAlloc (pageSizeValue h) (h_mmap h) (h_madvise h) request imgSize (MEM_RESERVE OR MEM_COMMIT)
       (if exec then PAGE_EXECUTE_READWRITE else PAGE_READWRITE) MEM_IMAGE s"

definition map_image :: "Host \<Rightarrow> bool \<Rightarrow> PE32Header \<Rightarrow> VmState \<Rightarrow> nat option \<times> VmState" where
  "map_image h exec header32 s =
     (case image_alloc h exec (unat (h_imageBase header32)) (unat (sizeOfImage header32)) s of
        ((Success, base, _), s1) \<Rightarrow> (Some base, s1)
      | (_, s1) \<Rightarrow>
          (case image_alloc h exec 0 (unat (sizeOfImage header32)) s1 of
             ((Success, base, _), s2) \<Rightarrow> (Some base, s2)
           | (_, s2) \<Rightarrow> (None, s2)))"

definition header_section :: "Host \<Rightarrow> PE32Header \<Rightarrow> nat \<Rightarrow> SectionInfo list" where
  "header_section h header32 imageBaseAddr =
     (let headerSpan = pe_alignUp (unat (sizeOfHeaders header32)) (pageSizeValue h) in
      if headerSpan \<noteq> 0
      then [\<lparr>s_base = imageBaseAddr, s_size = headerSpan, s_protect = PAGE_READONLY, s_characteristics = 0\<rparr>]
      else [])"

text \<open>\<^verbatim>\<open>strcmp\<close> of the terminated copy of the eight bytes of a section's name with \<^verbatim>\<open>.rsrc\<close>.\<close>

definition is_rsrc :: "PESectionHeader \<Rightarrow> bool" where
  "is_rsrc sec \<longleftrightarrow> takeWhile (\<lambda>c. c \<noteq> 0) (sname sec) = [0x2E, 0x72, 0x73, 0x72, 0x63]"

definition has_raw :: "PESectionHeader \<Rightarrow> bool" where
  "has_raw sec \<longleftrightarrow> pointerToRawData sec \<noteq> 0 \<and> sizeOfRawData sec \<noteq> 0"

text \<open>The checks of a section and the bytes it has in the input; \<open>None\<close> is a refusal.\<close>

definition section_data :: "PeInputView \<Rightarrow> PE32Header \<Rightarrow> PESectionHeader \<Rightarrow> u8 list option" where
  "section_data src header32 sec =
     (if virtualAddress sec > sizeOfImage header32
         \<or> unat (virtualAddress sec) + unat (virtualSize sec) > unat (sizeOfImage header32) then None
      else if has_raw sec then
        (if (unat (pointerToRawData sec) + unat (sizeOfRawData sec)) mod 2 ^ 64 < unat (pointerToRawData sec) then None
         else if unat (virtualAddress sec) + unat (sizeOfRawData sec) > unat (sizeOfImage header32) then None
         else view_read src (unat (pointerToRawData sec)) (unat (sizeOfRawData sec)))
      else Some [])"

definition section_span :: "PESectionHeader \<Rightarrow> nat" where
  "section_span sec = unat (max (virtualSize sec) (sizeOfRawData sec))"

text \<open>The pages of a section as they are recorded for \<^verbatim>\<open>resolveImports\<close>; \<open>None\<close> is a refusal.\<close>

definition section_pages :: "Host \<Rightarrow> nat \<Rightarrow> PESectionHeader \<Rightarrow> SectionInfo list option" where
  "section_pages h imageBaseAddr sec =
     (if section_span sec = 0 then Some []
      else let va = addp imageBaseAddr (unat (virtualAddress sec));
               sectionStart = pe_alignDown va (pageSizeValue h);
               sectionEnd = pe_alignUp (addp va (section_span sec)) (pageSizeValue h) in
        if sectionEnd < sectionStart then None
        else if sectionEnd > sectionStart
        then Some [\<lparr>s_base = sectionStart, s_size = sectionEnd - sectionStart,
               s_protect = sectionProtectFromCharacteristics (scn_characteristics sec),
               s_characteristics = scn_characteristics sec\<rparr>]
        else Some [])"

definition load_section :: "Host \<Rightarrow> PeInputView \<Rightarrow> PE32Header \<Rightarrow> nat \<Rightarrow> nat \<Rightarrow> Executable \<Rightarrow> mem
    \<Rightarrow> bool \<times> Executable \<times> mem" where
  "load_section h src header32 imageBaseAddr currentOffset e m =
     (case view_read src currentOffset sizeof_PESectionHeader of
        None \<Rightarrow> (False, e, m)
      | Some bs \<Rightarrow>
          (let sec = section_header bs; sectionBase = addp imageBaseAddr (unat (virtualAddress sec)) in
           case section_data src header32 sec of
             None \<Rightarrow> (False, e, m)
           | Some raw \<Rightarrow>
               (let m' = mem_write sectionBase raw m;
                    e' = (if is_rsrc sec
                          then e\<lparr>rsrcBase := sectionBase, rsrcSize := max (virtualSize sec) (sizeOfRawData sec)\<rparr> else e)
                in case section_pages h imageBaseAddr sec of
                     None \<Rightarrow> (False, e', m')
                   | Some infos \<Rightarrow> (True, e'\<lparr>sections := sections e' @ infos\<rparr>, m'))))"

fun load_sections :: "Host \<Rightarrow> PeInputView \<Rightarrow> PE32Header \<Rightarrow> nat \<Rightarrow> nat \<Rightarrow> nat list \<Rightarrow> Executable \<Rightarrow> mem
    \<Rightarrow> bool \<times> Executable \<times> mem" where
  "load_sections h src header32 imageBaseAddr sectionHeadersOffset [] e m = (True, e, m)"
| "load_sections h src header32 imageBaseAddr sectionHeadersOffset (i # is) e m =
     (case load_section h src header32 imageBaseAddr (sectionHeadersOffset + i * sizeof_PESectionHeader) e m of
        (True, e', m') \<Rightarrow> load_sections h src header32 imageBaseAddr sectionHeadersOffset is e' m'
      | (False, e', m') \<Rightarrow> (False, e', m'))"

section \<open>Base relocations\<close>

text \<open>
  The loops over the blocks of the relocation directory and over the entries of a block, whose
  fields are read again from memory in every round.
\<close>

fun reloc_entries :: "nat \<Rightarrow> u32 \<Rightarrow> nat \<Rightarrow> nat list \<Rightarrow> mem \<Rightarrow> mem" where
  "reloc_entries img delta block [] m = m"
| "reloc_entries img delta block (i # is) m =
     (let entry = load16 m (addp block (8 + 2 * i));
          type = drop_bit 12 entry;
          offset = entry AND 0x0FFF;
          target = addp (addp img (unat (load32 m block))) (unat offset);
          m' = (if type = 3 then store32 target (load32 m target + delta) m else m)
      in reloc_entries img delta block is m')"

partial_function (option) reloc_loop :: "nat \<Rightarrow> u32 \<Rightarrow> nat \<Rightarrow> nat \<Rightarrow> mem \<Rightarrow> mem option" where
  "reloc_loop img delta relocCursor relocEnd m =
     (if relocCursor < relocEnd then
        (let sizeOfBlock = unat (load32 m (addp relocCursor 4)) in
         if sizeOfBlock < 8 \<or> sizeOfBlock > relocEnd - relocCursor then Some m
         else if sizeOfBlock = 8 then Some m
         else let m' = reloc_entries img delta relocCursor [0..<(sizeOfBlock - 8) div 2] m
           in reloc_loop img delta (addp relocCursor (unat (load32 m' (addp relocCursor 4)))) relocEnd m')
      else Some m)"

definition relocate :: "Executable \<Rightarrow> mem \<Rightarrow> (bool \<times> mem) option" where
  "relocate e m =
     (if execMapped e \<and> relocationDelta e \<noteq> 0 then
        (if relocationDirectoryRVA e = 0 \<or> relocationDirectorySize e = 0 then Some (False, m)
         else let relocCursor = fromRVA e (relocationDirectoryRVA e);
                  relocEnd = addp relocCursor (unat (relocationDirectorySize e)) in
           map_option (Pair True) (reloc_loop (imageBase e) (relocationDelta e) relocCursor relocEnd m))
      else Some (True, m))"

section \<open>loadPE\<close>

text \<open>
  After the image is reserved: the sections, the relocations and the entry point. The result tells
  whether the image was loaded; \<open>None\<close> means that the relocation loop does not end. \<^verbatim>\<open>std::sort\<close> leaves the order of
  sections with equal bases open; the model keeps theirs.
\<close>

definition fill_image :: "Host \<Rightarrow> PeInputView \<Rightarrow> u32 \<Rightarrow> PEHeader \<Rightarrow> PE32Header \<Rightarrow> Executable \<Rightarrow> mem
    \<Rightarrow> (bool \<times> Executable \<times> mem) option" where
  "fill_image h src offsetToPE header header32 e m =
     (let sectionHeadersOffset = unat offsetToPE + sizeof_PEHeader + unat (sizeOfOptionalHeader header);
          sectionTableBytes = unat (numberOfSections header) * sizeof_PESectionHeader in
      if (case view_size src of
            Some totalSize \<Rightarrow> sectionHeadersOffset > totalSize \<or> sectionTableBytes > totalSize - sectionHeadersOffset
          | None \<Rightarrow> False)
      then Some (False, e, m)
      else case load_sections h src header32 (imageBase e) sectionHeadersOffset [0..<unat (numberOfSections header)] e m of
        (False, e', m') \<Rightarrow> Some (False, e', m')
      | (True, e', m') \<Rightarrow>
          (let e'' = e'\<lparr>sections := sort_key s_base (sections e')\<rparr> in
           case relocate e'' m' of
             None \<Rightarrow> None
           | Some (False, m'') \<Rightarrow> Some (False, e'', m'')
           | Some (True, m'') \<Rightarrow>
               Some (True, e''\<lparr>entryPoint := if addressOfEntryPoint header32 \<noteq> 0
                                             then fromRVA e'' (addressOfEntryPoint header32) else 0\<rparr>, m'')))"

definition loadPEFromSource :: "Host \<Rightarrow> PeInputView \<Rightarrow> bool \<Rightarrow> Executable \<Rightarrow> 'a World_scheme
    \<Rightarrow> (bool \<times> Executable \<times> 'a World_scheme) option" where
  "loadPEFromSource h src exec executable w0 =
     (let (e0, w1) = resetExecutableState h executable w0; w = w1\<lparr>lastError := ERROR_BAD_EXE_FORMAT\<rparr> in
      case read_pe_header src of
        None \<Rightarrow> Some (False, e0, w)
      | Some (offsetToPE, header) \<Rightarrow>
          (let e1 = e0\<lparr>isDll := (characteristics header AND IMAGE_FILE_DLL \<noteq> 0)\<rparr> in
           case read_optional_header src offsetToPE header of
             None \<Rightarrow> Some (False, e1, w)
           | Some header32 \<Rightarrow>
               (let e2 = set_directories header32 exec e1 in
                case map_image h exec header32 (vm w) of
                  (None, s) \<Rightarrow> Some (False, e2, w\<lparr>vm := s\<rparr>)
                | (Some base, s) \<Rightarrow>
                    (let e3 = e2\<lparr>imageBase := base,
                                 relocationDelta := of_nat base - h_imageBase header32,
                                 sections := header_section h header32 base\<rparr>;
                         m = mem_zero base (unat (sizeOfImage header32)) (memory w) in
                     case fill_image h src offsetToPE header header32 e3 m of
                       None \<Rightarrow> None
                     | Some (False, e4, m') \<Rightarrow>
                         Some (False, e4, w\<lparr>memory := m',
                           vm := snd (virtualFree (pageSizeValue h) (h_munmap h) base 0 MEM_RELEASE s)\<rparr>)
                     | Some (True, e4, m') \<Rightarrow>
                         Some (True, e4, w\<lparr>vm := s, memory := m', lastError := ERROR_SUCCESS\<rparr>)))))"

definition loadPE_file :: "Host \<Rightarrow> PeInputView option \<Rightarrow> bool \<Rightarrow> Executable \<Rightarrow> 'a World_scheme
    \<Rightarrow> (bool \<times> Executable \<times> 'a World_scheme) option" where
  "loadPE_file h file exec e w =
     (case file of
        None \<Rightarrow> Some (False, e, w\<lparr>lastError := ERROR_BAD_EXE_FORMAT\<rparr>)
      | Some src \<Rightarrow> loadPEFromSource h src exec e w)"

definition loadPE_span :: "Host \<Rightarrow> u8 list \<Rightarrow> bool \<Rightarrow> Executable \<Rightarrow> 'a World_scheme
    \<Rightarrow> (bool \<times> Executable \<times> 'a World_scheme) option" where
  "loadPE_span h bytes exec e w =
     (if bytes = [] then Some (False, e, w\<lparr>lastError := ERROR_BAD_EXE_FORMAT\<rparr>)
      else loadPEFromSource h (SpanSource bytes) exec e w)"

text \<open>\<^verbatim>\<open>Executable::~Executable\<close>.\<close>

definition destroy_executable :: "Host \<Rightarrow> Executable \<Rightarrow> 'a World_scheme \<Rightarrow> 'a World_scheme" where
  "destroy_executable h e w =
     (if imageBase e \<noteq> 0
      then w\<lparr>vm := snd (virtualFree (pageSizeValue h) (h_munmap h) (imageBase e) 0 MEM_RELEASE (vm w))\<rparr> else w)"

text \<open>\<^verbatim>\<open>finalizeSections\<close> of \<^verbatim>\<open>resolveImports\<close>.\<close>

fun protect_sections :: "Host \<Rightarrow> SectionInfo list \<Rightarrow> VmState \<Rightarrow> VmStatus \<times> VmState" where
  "protect_sections h [] s = (Success, s)"
| "protect_sections h (sec # secs) s =
     (if s_size sec = 0 then protect_sections h secs s
      else case virtualProtect (pageSizeValue h) (h_mprotect h) (s_base sec) (s_size sec) (s_protect sec) s of
        ((Success, _), s') \<Rightarrow> protect_sections h secs s'
      | ((st, _), s') \<Rightarrow> (st, s'))"

definition finalizeSections :: "Host \<Rightarrow> Executable \<Rightarrow> 'a World_scheme \<Rightarrow> bool \<times> Executable \<times> 'a World_scheme" where
  "finalizeSections h e w =
     (if \<not> execMapped e \<or> sectionsProtected e then (True, e, w)
      else case protect_sections h (sections e) (vm w) of
        (Success, s) \<Rightarrow> (True, e\<lparr>sectionsProtected := True\<rparr>, w\<lparr>vm := s\<rparr>)
      | (st, s) \<Rightarrow> (False, e, w\<lparr>vm := s, lastError := win32ErrorFromVmStatus st\<rparr>))"

end
