(* ===== verification/Module_Exports.thy ===== *)
theory Module_Exports
  imports Module_Names Pe_Loader Tls_Slots
begin

unbundle bit_operations_syntax

text \<open>
  The functions a module offers and needs (\<^verbatim>\<open>src/src/modules.cpp\<close>, \<^verbatim>\<open>src/src/loader.cpp\<close>): the state of the module registry,
  the stubs for missing functions, the export table with its forwarders, and the import tables. The
  three entry points that call each other through other modules (loading a module, resolving a name, resolving
  an ordinal) are arguments here; \<^verbatim>\<open>Module_Registry\<close> ties the knot. A result \<open>None\<close> means that the call
  does not return: the program aborts, or it recurses for ever.
\<close>

section \<open>Modules\<close>

record ModuleStub =
  stub_names :: "string list"
  byName :: "(string \<Rightarrow> nat) option"
  byOrdinal :: "(u16 \<Rightarrow> nat) option"
  dllData :: "u8 list"

record ModuleTlsInfo =
  hasTls :: bool
  tls_index :: nat
  loaderIndex :: nat
  indexLocation :: nat
  templateData :: nat
  templateSize :: nat
  zeroFillSize :: nat
  tls_characteristics :: u32
  allocationSize :: nat
  callbacks :: "nat list"
  threadAllocations :: "(nat \<times> nat) list"

definition new_tls_info :: ModuleTlsInfo where
  "new_tls_info = \<lparr>hasTls = False, tls_index = kInvalidTlsIndex, loaderIndex = kInvalidTlsIndex, indexLocation = 0,
     templateData = 0, templateSize = 0, zeroFillSize = 0, tls_characteristics = 0, allocationSize = 0, callbacks = [],
     threadAllocations = []\<rparr>"

definition UINT_MAX :: nat where "UINT_MAX = 0xFFFFFFFF"

record ModuleInfo =
  handle :: nat
  originalName :: string
  normalizedName :: string
  resolvedPath :: string
  moduleStub :: "ModuleStub option"
  executable :: "Executable option"
  refCount :: nat
  processAttachCalled :: bool
  processAttachSucceeded :: bool
  threadNotificationsEnabled :: bool
  exportOrdinalBase :: u32
  exportsByOrdinal :: "nat list"
  exportNameToOrdinal :: "string \<rightharpoonup> u16"
  exportsInitialized :: bool
  tlsInfo :: ModuleTlsInfo

definition new_module :: ModuleInfo where
  "new_module = \<lparr>handle = 0, originalName = [], normalizedName = [], resolvedPath = [], moduleStub = None, executable = None,
     refCount = 0, processAttachCalled = False, processAttachSucceeded = False, threadNotificationsEnabled = True,
     exportOrdinalBase = 0, exportsByOrdinal = [], exportNameToOrdinal = (\<lambda>_. None), exportsInitialized = False,
     tlsInfo = new_tls_info\<rparr>"

text \<open>The calls into the guest: an entry point or a TLS callback of a module, with the reason.\<close>

datatype guest_call = DllMain nat u32 | TlsCallback nat nat u32

text \<open>
  The registry and the globals around it. A \<^verbatim>\<open>ModuleInfo\<close> is named by a number instead of its address; the
  objects live as long as the program, because \<^verbatim>\<open>g_modules\<close> keeps a reference to each. \<open>tlsBlocks\<close> lists the blocks
  for the static data of threads that are allocated, \<open>badFree\<close> records the release of any other.
\<close>

record MWorld = World +
  modules :: "nat \<Rightarrow> ModuleInfo option"
  nextModule :: nat
  g_nextStubHandle :: nat
  modulesByKey :: "(string \<times> nat) list"
  modulesByAlias :: "string \<rightharpoonup> nat"
  builtinAliasMap :: "string \<rightharpoonup> nat"
  pinnedAliases :: "string set"
  pinnedModules :: "nat set"
  tlsModuleSlots :: "nat option list"
  stubCache :: "string \<rightharpoonup> nat"
  stubNames :: "(string \<times> string) list"
  tls :: TlsState
  tlsBlocks :: "nat list"
  badFree :: bool
  guestCalls :: "guest_call list"
  dllDirectory :: "string option"

text \<open>
  What lies outside: the host, the guest's allocator (for the arrays and for the blocks), files by path, the lookups of files and directories that the search for a module uses, the variables of the environment,
  the canonical and the Windows form of a path, the addresses of the stub thunks, the entry points of the guest
  (an answer for a call after the calls before it), and the main module.
\<close>

record Env =
  host :: Host
  gmalloc :: guest_malloc
  blockMalloc :: "MWorld \<Rightarrow> nat \<Rightarrow> nat option"
  openFile :: "string \<Rightarrow> PeInputView option"
  findFile :: "string \<Rightarrow> string \<Rightarrow> string option"
  findWindows :: "string \<Rightarrow> string option"
  canonicalDir :: "string \<Rightarrow> string option"
  fromWindows :: "string \<Rightarrow> string"
  exeParent :: string
  currentPath :: string
  wiboPath :: "string option"
  winePath :: "string option"
  canonicalPath :: "string \<Rightarrow> string"
  pathToWindows :: "string \<Rightarrow> string"
  stubFuncs :: "nat \<Rightarrow> nat"
  guestEntry :: "guest_call list \<Rightarrow> guest_call \<Rightarrow> bool"
  mainModule :: "nat option"

record Ops =
  op_load :: "string \<Rightarrow> MWorld \<Rightarrow> (nat option \<times> MWorld) option"
  op_byName :: "nat \<Rightarrow> string \<Rightarrow> MWorld \<Rightarrow> (nat \<times> MWorld) option"
  op_byOrdinal :: "nat \<Rightarrow> u16 \<Rightarrow> MWorld \<Rightarrow> (nat \<times> MWorld) option"

definition mod_of :: "MWorld \<Rightarrow> nat \<Rightarrow> ModuleInfo" where
  "mod_of w i = (case modules w i of Some m \<Rightarrow> m | None \<Rightarrow> new_module)"

definition set_mod :: "nat \<Rightarrow> ModuleInfo \<Rightarrow> MWorld \<Rightarrow> MWorld" where
  "set_mod i m w = w\<lparr>modules := (modules w)(i \<mapsto> m)\<rparr>"

definition set_exe :: "nat \<Rightarrow> Executable \<Rightarrow> MWorld \<Rightarrow> MWorld" where
  "set_exe i e w = set_mod i ((mod_of w i)\<lparr>executable := Some e\<rparr>) w"

section \<open>Stubs for missing functions\<close>

definition MAX_STUBS :: nat where "MAX_STUBS = 0x100"

definition resolveMissingFuncName :: "Env \<Rightarrow> string \<Rightarrow> string \<Rightarrow> MWorld \<Rightarrow> (nat \<times> MWorld) option" where
  "resolveMissingFuncName env dllName funcName w =
     (let key = makeStubKey dllName funcName in
      case stubCache w key of
        Some stub \<Rightarrow> Some (stub, w)
      | None \<Rightarrow>
          if length (stubNames w) \<ge> MAX_STUBS then None
          else let stub = stubFuncs env (length (stubNames w)) in
            Some (stub, w\<lparr>stubNames := stubNames w @ [(funcName, dllName)], stubCache := (stubCache w)(key \<mapsto> stub)\<rparr>))"

text \<open>\<^verbatim>\<open>std::to_string\<close> of an ordinal.\<close>

fun to_string :: "nat \<Rightarrow> string" where
  "to_string n = (if n < 10 then [char_of (48 + n)] else to_string (n div 10) @ [char_of (48 + n mod 10)])"

declare to_string.simps [simp del]

definition resolveMissingFuncOrdinal :: "Env \<Rightarrow> string \<Rightarrow> u16 \<Rightarrow> MWorld \<Rightarrow> (nat \<times> MWorld) option" where
  "resolveMissingFuncOrdinal env dllName ordinal w = resolveMissingFuncName env dllName (to_string (unat ordinal)) w"

definition stubBase :: "MWorld \<Rightarrow> nat \<Rightarrow> string \<times> string" where
  "stubBase w index =
     (let (func, dll) = stubNames w ! index in
      (if func = [] then ''<unknown>'' else func, if dll = [] then ''<unknown>'' else dll))"

section \<open>Forwarded exports\<close>

definition is_space :: "char \<Rightarrow> bool" where
  "is_space c \<longleftrightarrow> (of_char c :: nat) \<in> {32, 9, 10, 11, 12, 13}"

definition is_digit :: "char \<Rightarrow> bool" where
  "is_digit c \<longleftrightarrow> 48 \<le> (of_char c :: nat) \<and> (of_char c :: nat) \<le> 57"

fun digits_value :: "string \<Rightarrow> nat \<Rightarrow> nat" where
  "digits_value [] v = v"
| "digits_value (c # cs) v = digits_value cs (v * 10 + (of_char c - 48))"

text \<open>\<^verbatim>\<open>strtoul\<close> with base 10 and a 32-bit \<^verbatim>\<open>unsigned long\<close>: the value and the rest of the string.\<close>

definition strtoul10 :: "string \<Rightarrow> nat \<times> string" where
  "strtoul10 s =
     (let s1 = dropWhile is_space s;
          neg = (s1 \<noteq> [] \<and> hd s1 = CHR ''-'');
          s2 = (if s1 \<noteq> [] \<and> (hd s1 = CHR ''-'' \<or> hd s1 = CHR ''+'') then tl s1 else s1);
          ds = takeWhile is_digit s2;
          v = digits_value ds 0
      in if ds = [] then (0, s)
         else (if v > 0xFFFFFFFF then 0xFFFFFFFF else if neg then (2 ^ 32 - v) mod 2 ^ 32 else v, drop (length ds) s2))"

fun find_first_of :: "char \<Rightarrow> string \<Rightarrow> nat option" where
  "find_first_of x [] = None"
| "find_first_of x (c # cs) = (if c = x then Some 0 else map_option Suc (find_first_of x cs))"

definition loadForwarderTargetModule :: "Ops \<Rightarrow> string \<Rightarrow> MWorld \<Rightarrow> ((nat option \<times> string) \<times> MWorld) option" where
  "loadForwarderTargetModule ops dllName w =
     do {
       (target, w1) \<leftarrow> op_load ops dllName w;
       if target \<noteq> None \<or> dllName = [] \<or> hd dllName \<noteq> CHR ''_'' then Some ((target, dllName), w1)
       else do {
         (target', w2) \<leftarrow> op_load ops (tl dllName) w1;
         Some ((target', if target' \<noteq> None then tl dllName else dllName), w2) } }"

definition resolveForwardedExport :: "Env \<Rightarrow> Ops \<Rightarrow> nat \<Rightarrow> string \<Rightarrow> MWorld \<Rightarrow> (nat \<times> MWorld) option" where
  "resolveForwardedExport env ops source forwarder w =
     (if forwarder = [] then resolveMissingFuncName env (originalName (mod_of w source)) [] w
      else case find_first_of (CHR ''.'') forwarder of
        None \<Rightarrow> resolveMissingFuncName env (originalName (mod_of w source)) forwarder w
      | Some sep \<Rightarrow>
          if sep = 0 \<or> sep + 1 \<ge> length forwarder then resolveMissingFuncName env (originalName (mod_of w source)) forwarder w
          else let exportName = drop (sep + 1) forwarder in
            do {
              ((target, dllName), w1) \<leftarrow> loadForwarderTargetModule ops (take sep forwarder) w;
              case target of
                None \<Rightarrow> resolveMissingFuncName env dllName exportName w1
              | Some t \<Rightarrow>
                  if hd exportName = CHR ''#'' then
                    (let (ordinal, rest) = strtoul10 (tl exportName) in
                     if rest = [] \<and> ordinal \<le> 65535 then
                       do {
                         (func, w2) \<leftarrow> op_byOrdinal ops t (of_nat ordinal) w1;
                         if func \<noteq> 0 then Some (func, w2) else resolveMissingFuncName env dllName exportName w2 }
                     else resolveMissingFuncName env dllName exportName w1)
                  else do {
                    (func, w2) \<leftarrow> op_byName ops t exportName w1;
                    if func \<noteq> 0 then Some (func, w2) else resolveMissingFuncName env dllName exportName w2 } })"

section \<open>The export table\<close>

text \<open>A terminated string in memory.\<close>

function c_string :: "mem \<Rightarrow> nat \<Rightarrow> string" where
  "c_string m a = (if a \<ge> 2 ^ 32 \<or> m a = 0 then [] else char_of (unat (m a)) # c_string m (a + 1))"
  by pat_completeness auto
termination by (relation "measure (\<lambda>(m, a). 2 ^ 32 - a)") auto

declare c_string.simps [simp del]

fun export_functions :: "Env \<Rightarrow> Ops \<Rightarrow> nat \<Rightarrow> Executable \<Rightarrow> nat \<Rightarrow> nat list \<Rightarrow> MWorld \<Rightarrow> MWorld option" where
  "export_functions env ops i exe functions [] w = Some w"
| "export_functions env ops i exe functions (k # ks) w =
     (let rva = load32 (memory w) (addp functions (4 * k)) in
      if rva = 0 then export_functions env ops i exe functions ks w
      else if rva \<ge> exportDirectoryRVA exe \<and> rva < exportDirectoryRVA exe + exportDirectorySize exe then
        do {
          (func, w1) \<leftarrow> resolveForwardedExport env ops i (c_string (memory w) (fromRVA exe rva)) w;
          export_functions env ops i exe functions ks
            (set_mod i ((mod_of w1 i)\<lparr>exportsByOrdinal := (exportsByOrdinal (mod_of w1 i))[k := func]\<rparr>) w1) }
      else export_functions env ops i exe functions ks
             (set_mod i ((mod_of w i)\<lparr>exportsByOrdinal := (exportsByOrdinal (mod_of w i))[k := fromRVA exe rva]\<rparr>) w))"

fun export_names :: "nat \<Rightarrow> Executable \<Rightarrow> nat \<Rightarrow> nat \<Rightarrow> nat \<Rightarrow> nat list \<Rightarrow> MWorld \<Rightarrow> MWorld" where
  "export_names i exe dir names ordinals [] w = w"
| "export_names i exe dir names ordinals (k # ks) w =
     (let index = load16 (memory w) (addp ordinals (2 * k));
          ordinal = ucast (load32 (memory w) (addp dir 16) + ucast index) :: u16;
          w' = (if unat index < length (exportsByOrdinal (mod_of w i))
                then set_mod i ((mod_of w i)\<lparr>exportNameToOrdinal := (exportNameToOrdinal (mod_of w i))
                       (c_string (memory w) (fromRVA exe (load32 (memory w) (addp names (4 * k)))) \<mapsto> ordinal)\<rparr>) w
                else w)
      in export_names i exe dir names ordinals ks w')"

definition ensureExportsInitialized :: "Env \<Rightarrow> Ops \<Rightarrow> nat \<Rightarrow> MWorld \<Rightarrow> MWorld option" where
  "ensureExportsInitialized env ops i w =
     (case executable (mod_of w i) of
        None \<Rightarrow> Some w
      | Some exe \<Rightarrow>
          if exportsInitialized (mod_of w i) then Some w
          else if exportDirectoryRVA exe = 0 \<or> exportDirectorySize exe = 0
          then Some (set_mod i ((mod_of w i)\<lparr>exportsInitialized := True\<rparr>) w)
          else let dir = fromRVA exe (exportDirectoryRVA exe);
                   functionCount = unat (load32 (memory w) (addp dir 20));
                   w1 = set_mod i ((mod_of w i)\<lparr>exportOrdinalBase := load32 (memory w) (addp dir 16),
                                    exportsByOrdinal := replicate functionCount 0\<rparr>) w in
            do {
              w2 \<leftarrow> export_functions env ops i exe (fromRVA exe (load32 (memory w) (addp dir 28))) [0..<functionCount] w1;
              let nameCount = unat (load32 (memory w2) (addp dir 24));
              let w3 = export_names i exe dir (fromRVA exe (load32 (memory w2) (addp dir 32)))
                         (fromRVA exe (load32 (memory w2) (addp dir 36))) [0..<nameCount] w2;
              Some (set_mod i ((mod_of w3 i)\<lparr>exportsInitialized := True\<rparr>) w3) })"

section \<open>Looking up functions\<close>

definition findExportByOrdinal :: "Env \<Rightarrow> Ops \<Rightarrow> nat option \<Rightarrow> u16 \<Rightarrow> MWorld \<Rightarrow> (nat \<times> MWorld) option" where
  "findExportByOrdinal env ops info ordinal w =
     (case info of
        None \<Rightarrow> Some (0, w)
      | Some i \<Rightarrow>
          let f = (case moduleStub (mod_of w i) of
                     Some stub \<Rightarrow> (case byOrdinal stub of Some g \<Rightarrow> g ordinal | None \<Rightarrow> 0) | None \<Rightarrow> 0) in
          if f \<noteq> 0 then Some (f, w)
          else do {
            w1 \<leftarrow> ensureExportsInitialized env ops i w;
            let m = mod_of w1 i;
            let ix = unat (ucast ordinal - exportOrdinalBase m);
            if exportsByOrdinal m \<noteq> [] \<and> ucast ordinal \<ge> exportOrdinalBase m \<and> ix < length (exportsByOrdinal m)
            then Some (exportsByOrdinal m ! ix, w1) else Some (0, w1) })"

definition findExportByName :: "Env \<Rightarrow> Ops \<Rightarrow> nat option \<Rightarrow> string \<Rightarrow> MWorld \<Rightarrow> (nat \<times> MWorld) option" where
  "findExportByName env ops info funcName w =
     (case info of
        None \<Rightarrow> Some (0, w)
      | Some i \<Rightarrow>
          let f = (case moduleStub (mod_of w i) of
                     Some stub \<Rightarrow> (case byName stub of Some g \<Rightarrow> g funcName | None \<Rightarrow> 0) | None \<Rightarrow> 0) in
          if f \<noteq> 0 then Some (f, w)
          else do {
            w1 \<leftarrow> ensureExportsInitialized env ops i w;
            case exportNameToOrdinal (mod_of w1 i) funcName of
              Some ordinal \<Rightarrow> findExportByOrdinal env ops info ordinal w1
            | None \<Rightarrow> Some (0, w1) })"

definition resolveFuncByName :: "Env \<Rightarrow> Ops \<Rightarrow> nat \<Rightarrow> string \<Rightarrow> MWorld \<Rightarrow> (nat \<times> MWorld) option" where
  "resolveFuncByName env ops i funcName w =
     do {
       (func, w1) \<leftarrow> findExportByName env ops (Some i) funcName w;
       if func \<noteq> 0 then Some (func, w1)
       else if moduleStub (mod_of w1 i) \<noteq> None then resolveMissingFuncName env (originalName (mod_of w1 i)) funcName w1
       else Some (0, w1) }"

definition resolveFuncByOrdinal :: "Env \<Rightarrow> Ops \<Rightarrow> nat \<Rightarrow> u16 \<Rightarrow> MWorld \<Rightarrow> (nat \<times> MWorld) option" where
  "resolveFuncByOrdinal env ops i ordinal w =
     do {
       (func, w1) \<leftarrow> findExportByOrdinal env ops (Some i) ordinal w;
       if func \<noteq> 0 then Some (func, w1)
       else if moduleStub (mod_of w1 i) \<noteq> None then resolveMissingFuncOrdinal env (originalName (mod_of w1 i)) ordinal w1
       else Some (0, w1) }"

end
