(* ===== verification/Module_Tls.thy ===== *)
theory Module_Tls
  imports Module_Exports
begin

unbundle bit_operations_syntax

text \<open>
  The static thread-local data of modules (\<^verbatim>\<open>src/src/modules.cpp\<close>): the slots of the loader, the block each thread gets
  for each module, and the calls of the TLS callbacks. A thread is named by the address of its TEB.
\<close>

section \<open>Slots of the loader\<close>

fun first_free :: "nat option list \<Rightarrow> nat \<Rightarrow> nat option" where
  "first_free [] i = None"
| "first_free (x # xs) i = (if x = None then Some i else first_free xs (i + 1))"

definition allocateModuleTlsSlot :: "nat \<Rightarrow> MWorld \<Rightarrow> nat \<times> MWorld" where
  "allocateModuleTlsSlot i w =
     (case first_free (tlsModuleSlots w) 0 of
        Some k \<Rightarrow> (k, w\<lparr>tlsModuleSlots := (tlsModuleSlots w)[k := Some i]\<rparr>)
      | None \<Rightarrow> (length (tlsModuleSlots w), w\<lparr>tlsModuleSlots := tlsModuleSlots w @ [Some i]\<rparr>))"

definition releaseModuleTlsSlot :: "nat \<Rightarrow> MWorld \<Rightarrow> MWorld" where
  "releaseModuleTlsSlot index w =
     (if index < length (tlsModuleSlots w) then w\<lparr>tlsModuleSlots := (tlsModuleSlots w)[index := None]\<rparr> else w)"

definition resolveModuleAddress :: "Executable \<Rightarrow> nat \<Rightarrow> nat" where
  "resolveModuleAddress exec address =
     (if address = 0 then 0
      else if address \<ge> imageBase exec \<and> address - imageBase exec < imageSize exec then address
      else if address \<ge> preferredImageBase exec then addp (imageBase exec) (address - preferredImageBase exec)
      else addp address (unat (relocationDelta exec)))"

section \<open>Blocks of a thread\<close>

definition set_tls_info :: "nat \<Rightarrow> ModuleTlsInfo \<Rightarrow> MWorld \<Rightarrow> MWorld" where
  "set_tls_info i info w = set_mod i ((mod_of w i)\<lparr>tlsInfo := info\<rparr>) w"

text \<open>\<^verbatim>\<open>guestMalloc\<close>, \<^verbatim>\<open>memset\<close> and \<^verbatim>\<open>memcpy\<close> of the template: the new block, if any.\<close>

definition new_tls_block :: "Env \<Rightarrow> ModuleTlsInfo \<Rightarrow> MWorld \<Rightarrow> (nat \<times> MWorld) option" where
  "new_tls_block env info w =
     (if allocationSize info > 0 then
        (case blockMalloc env w (allocationSize info) of
           None \<Rightarrow> None
         | Some ptr \<Rightarrow>
             let m1 = mem_zero ptr (allocationSize info) (memory w);
                 m2 = (if templateData info \<noteq> 0 \<and> templateSize info > 0
                       then mem_write ptr (map m1 [templateData info..<templateData info + templateSize info]) m1 else m1)
             in Some (ptr, w\<lparr>memory := m2, tlsBlocks := ptr # tlsBlocks w\<rparr>))
      else Some (0, w))"

definition free_block :: "nat \<Rightarrow> MWorld \<Rightarrow> MWorld" where
  "free_block block w =
     (if block \<in> set (tlsBlocks w) then w\<lparr>tlsBlocks := remove1 block (tlsBlocks w)\<rparr> else w\<lparr>badFree := True\<rparr>)"

definition allocateModuleTlsForThread :: "Env \<Rightarrow> nat \<Rightarrow> nat \<Rightarrow> MWorld \<Rightarrow> bool \<times> MWorld" where
  "allocateModuleTlsForThread env i tib w =
     (let info = tlsInfo (mod_of w i) in
      if tib = 0 then (True, w)
      else if \<not> hasTls info \<or> tls_index info = kInvalidTlsIndex then (True, w)
      else if map_of (threadAllocations info) tib \<noteq> None then (True, w)
      else case new_tls_block env info w of
        None \<Rightarrow> (False, w)
      | Some (block, w1) \<Rightarrow>
          let w2 = set_tls_info i (info\<lparr>threadAllocations := (tib, block) # threadAllocations info\<rparr>) w1;
              w3 = w2\<lparr>tls := snd (setValue (gmalloc env) tib (tls_index info) (of_nat block) (tls w2))\<rparr>;
              w4 = (if loaderIndex info \<noteq> kInvalidTlsIndex
                    then w3\<lparr>tls := snd (setModulePointer (gmalloc env) tib (loaderIndex info) (of_nat block) (tls w3))\<rparr> else w3)
          in (True, w4))"

text \<open>Unpublishing the block of a thread: the slot if it still holds the block, and the module pointer.\<close>

definition unpublish :: "Env \<Rightarrow> ModuleTlsInfo \<Rightarrow> nat \<Rightarrow> nat \<Rightarrow> MWorld \<Rightarrow> MWorld" where
  "unpublish env info tib block w =
     (let w1 = (if getValue tib (tls_index info) (tls w) = of_nat block
                then w\<lparr>tls := snd (setValue (gmalloc env) tib (tls_index info) 0 (tls w))\<rparr> else w)
      in if loaderIndex info \<noteq> kInvalidTlsIndex then w1\<lparr>tls := clearModulePointer tib (loaderIndex info) (tls w1)\<rparr> else w1)"

definition freeModuleTlsForThread :: "Env \<Rightarrow> nat \<Rightarrow> nat \<Rightarrow> MWorld \<Rightarrow> MWorld" where
  "freeModuleTlsForThread env i tib w =
     (let info = tlsInfo (mod_of w i) in
      if tib = 0 \<or> \<not> hasTls info then w
      else case map_of (threadAllocations info) tib of
        None \<Rightarrow> w
      | Some block \<Rightarrow>
          let w1 = set_tls_info i (info\<lparr>threadAllocations := filter (\<lambda>p. fst p \<noteq> tib) (threadAllocations info)\<rparr>) w;
              w2 = unpublish env info tib block w1
          in if block \<noteq> 0 then free_block block w2 else w2)"

text \<open>A call into the guest: recorded, answered by the environment.\<close>

definition call_guest :: "Env \<Rightarrow> guest_call \<Rightarrow> MWorld \<Rightarrow> bool \<times> MWorld" where
  "call_guest env c w = (guestEntry env (guestCalls w) c, w\<lparr>guestCalls := guestCalls w @ [c]\<rparr>)"

definition runModuleTlsCallbacks :: "Env \<Rightarrow> nat \<Rightarrow> u32 \<Rightarrow> MWorld \<Rightarrow> MWorld" where
  "runModuleTlsCallbacks env i reason w =
     (let info = tlsInfo (mod_of w i) in
      if \<not> hasTls info \<or> callbacks info = [] then w
      else fold (\<lambda>cb w. if cb = 0 then w else snd (call_guest env (TlsCallback i cb reason) w)) (callbacks info) w)"

section \<open>Setting up and releasing the data of a module\<close>

function callback_array :: "mem \<Rightarrow> nat \<Rightarrow> nat list" where
  "callback_array m a = (if a + 4 > 2 ^ 32 \<or> load32 m a = 0 then [] else unat (load32 m a) # callback_array m (a + 4))"
  by pat_completeness auto
termination by (relation "measure (\<lambda>(m, a). 2 ^ 32 - a)") auto

declare callback_array.simps [simp del]

abbreviation (input) kMinTlsDirectorySize :: nat where "kMinTlsDirectorySize \<equiv> 16"

text \<open>The directory, whose missing last fields read as zero, and the fields of \<^verbatim>\<open>ModuleTlsInfo\<close> it gives.\<close>

definition tls_directory :: "Executable \<Rightarrow> mem \<Rightarrow> u8 list" where
  "tls_directory exec m =
     (let copySize = min (unat (tlsDirectorySize exec)) 24 in
      map (\<lambda>k. if k < copySize then m (addp (fromRVA exec (tlsDirectoryRVA exec)) k) else 0) [0..<24])"

definition read_tls_info :: "Executable \<Rightarrow> mem \<Rightarrow> ModuleTlsInfo \<Rightarrow> ModuleTlsInfo" where
  "read_tls_info exec m info =
     (let d = tls_directory exec m;
          start = le32 d 0; fin = le32 d 4;
          tsize = (if fin > start then unat (fin - start) else 0);
          callbacksArray = resolveModuleAddress exec (unat (le32 d 12))
      in info\<lparr>templateSize := tsize, zeroFillSize := unat (le32 d 16), tls_characteristics := le32 d 20,
          templateData := resolveModuleAddress exec (unat start),
          indexLocation := resolveModuleAddress exec (unat (le32 d 8)),
          callbacks := (if callbacksArray \<noteq> 0 then map (resolveModuleAddress exec) (callback_array m callbacksArray) else []),
          allocationSize := addp tsize (unat (le32 d 16)), threadAllocations := []\<rparr>)"

text \<open>\<^verbatim>\<open>forEachTib\<close> with the allocating callback: it stops allocating after the first failure.\<close>

fun allocate_for_tibs :: "Env \<Rightarrow> nat \<Rightarrow> nat list \<Rightarrow> MWorld \<Rightarrow> bool \<times> MWorld" where
  "allocate_for_tibs env i [] w = (True, w)"
| "allocate_for_tibs env i (tib # tibs) w =
     (case allocateModuleTlsForThread env i tib w of
        (False, w') \<Rightarrow> (False, w')
      | (True, w') \<Rightarrow> allocate_for_tibs env i tibs w')"

text \<open>Undoing the allocations made so far.\<close>

definition undo_block :: "Env \<Rightarrow> ModuleTlsInfo \<Rightarrow> nat \<times> nat \<Rightarrow> MWorld \<Rightarrow> MWorld" where
  "undo_block env info tb w =
     (let (tib, block) = tb;
          w1 = (if block \<noteq> 0 then free_block block w else w);
          w2 = (if loaderIndex info \<noteq> kInvalidTlsIndex
                then w1\<lparr>tls := clearModulePointer tib (loaderIndex info) (tls w1)\<rparr> else w1)
      in if getValue tib (tls_index info) (tls w2) = of_nat block
         then w2\<lparr>tls := snd (setValue (gmalloc env) tib (tls_index info) 0 (tls w2))\<rparr> else w2)"

definition write_index :: "ModuleTlsInfo \<Rightarrow> nat \<Rightarrow> MWorld \<Rightarrow> MWorld" where
  "write_index info v w =
     (if indexLocation info \<noteq> 0 then w\<lparr>memory := store32 (indexLocation info) (of_nat v) (memory w)\<rparr> else w)"

text \<open>
  \<^verbatim>\<open>initializeModuleTls\<close> in its three stages, each with its own error path: the slot of the loader, the slot of
  the API, and a block for every thread that exists.
\<close>

definition tls_for_threads :: "Env \<Rightarrow> nat \<Rightarrow> nat \<Rightarrow> nat \<Rightarrow> ModuleTlsInfo \<Rightarrow> MWorld \<Rightarrow> bool \<times> MWorld" where
  "tls_for_threads env i slot apiIndex info1 w =
     (let (success, w1) = allocate_for_tibs env i (g_activeTibs (tls w))
            (set_tls_info i (info1\<lparr>tls_index := apiIndex, hasTls := True\<rparr>) w);
          info = tlsInfo (mod_of w1 i)
      in if \<not> success then
           let w2 = fold (undo_block env info) (threadAllocations info) w1;
               w3 = w2\<lparr>tls := snd (releaseSlot (tls_index info) (tls w2))\<rparr>
           in (False, (write_index info 0
                (set_tls_info i (info\<lparr>threadAllocations := [], tls_index := kInvalidTlsIndex,
                    loaderIndex := kInvalidTlsIndex, hasTls := False\<rparr>) (releaseModuleTlsSlot slot w3)))
                  \<lparr>lastError := ERROR_NOT_ENOUGH_MEMORY\<rparr>)
         else (True, (runModuleTlsCallbacks env i 1 w1)\<lparr>lastError := ERROR_SUCCESS\<rparr>))"

definition tls_api_slot :: "Env \<Rightarrow> nat \<Rightarrow> nat \<Rightarrow> ModuleTlsInfo \<Rightarrow> MWorld \<Rightarrow> bool \<times> MWorld" where
  "tls_api_slot env i slot info0 w =
     (let info1 = info0\<lparr>loaderIndex := slot\<rparr>;
          w1 = write_index info1 slot (set_tls_info i info1 w);
          (apiIndex, s) = reserveSlot (gmalloc env) (tls w1);
          w2 = w1\<lparr>tls := s\<rparr>
      in if apiIndex = kInvalidTlsIndex then
           (False, (write_index info1 0
              (set_tls_info i (info1\<lparr>loaderIndex := kInvalidTlsIndex\<rparr>) (releaseModuleTlsSlot slot w2)))
                \<lparr>lastError := ERROR_NOT_ENOUGH_MEMORY\<rparr>)
         else tls_for_threads env i slot apiIndex info1 w2)"

definition initializeModuleTls :: "Env \<Rightarrow> nat \<Rightarrow> MWorld \<Rightarrow> bool \<times> MWorld" where
  "initializeModuleTls env i w =
     (if hasTls (tlsInfo (mod_of w i)) then (True, w)
      else case executable (mod_of w i) of
        None \<Rightarrow> (True, w)
      | Some exec \<Rightarrow>
          if tlsDirectoryRVA exec = 0 \<or> unat (tlsDirectorySize exec) < kMinTlsDirectorySize then (True, w)
          else if fromRVA exec (tlsDirectoryRVA exec) = 0 then (False, w)
          else
            let info0 = read_tls_info exec (memory w) (tlsInfo (mod_of w i));
                (slot, w1) = allocateModuleTlsSlot i (set_tls_info i info0 w);
                (ok, s) = ensureModulePointerCapacity (gmalloc env) (length (tlsModuleSlots w1)) (tls w1);
                w2 = w1\<lparr>tls := s\<rparr>
            in if \<not> ok then (False, (releaseModuleTlsSlot slot w2)\<lparr>lastError := ERROR_NOT_ENOUGH_MEMORY\<rparr>)
               else tls_api_slot env i slot info0 w2)"

definition release_block :: "Env \<Rightarrow> ModuleTlsInfo \<Rightarrow> nat \<times> nat \<Rightarrow> MWorld \<Rightarrow> MWorld" where
  "release_block env info tb w =
     (let (tib, block) = tb; w1 = (if tib \<noteq> 0 then unpublish env info tib block w else w)
      in if block \<noteq> 0 then free_block block w1 else w1)"

definition releaseModuleTls :: "Env \<Rightarrow> nat \<Rightarrow> MWorld \<Rightarrow> MWorld" where
  "releaseModuleTls env i w =
     (let info = tlsInfo (mod_of w i) in
      if \<not> hasTls info then w
      else
        let w1 = fold (release_block env info) (threadAllocations info) w;
            w2 = (if tls_index info \<noteq> kInvalidTlsIndex
                  then w1\<lparr>tls := snd (releaseSlot (tls_index info) (tls w1))\<rparr> else w1);
            w3 = (if loaderIndex info \<noteq> kInvalidTlsIndex then releaseModuleTlsSlot (loaderIndex info) w2 else w2)
        in set_tls_info i new_tls_info w3)"

end
