(* ===== verification/Module_Registry.thy ===== *)
theory Module_Registry
  imports Module_Tls
begin

unbundle bit_operations_syntax

text \<open>
  The registry of modules (\<^verbatim>\<open>src/src/modules.cpp\<close>) and the resolution of imports (\<^verbatim>\<open>Executable::resolveImports\<close> of
  \<^verbatim>\<open>src/src/loader.cpp\<close>): aliases, built-in and external modules, loading and freeing with reference counts, the
  notifications of entry points. Loading recurses through the imports and the forwarded exports of
  other modules; the depth of this recursion is bounded by fuel.
\<close>

section \<open>Imports\<close>

definition resolveMissingImportByName :: "Env \<Rightarrow> string \<Rightarrow> string \<Rightarrow> MWorld \<Rightarrow> (nat \<times> MWorld) option" where
  "resolveMissingImportByName env dllName funcName w = resolveMissingFuncName env dllName funcName w"

definition resolveMissingImportByOrdinal :: "Env \<Rightarrow> string \<Rightarrow> u16 \<Rightarrow> MWorld \<Rightarrow> (nat \<times> MWorld) option" where
  "resolveMissingImportByOrdinal env dllName ordinal w = resolveMissingFuncOrdinal env dllName ordinal w"

partial_function (option) import_entries :: "Env \<Rightarrow> Ops \<Rightarrow> nat option \<Rightarrow> nat \<Rightarrow> Executable \<Rightarrow> nat \<Rightarrow> nat \<Rightarrow> MWorld \<Rightarrow> MWorld option" where
  "import_entries env ops module dllName exe lookupTable addressTable w =
     (let lookup = load32 (memory w) lookupTable in
      if lookup = 0 then Some w
      else do {
        (func, w1) \<leftarrow>
          (if lookup AND 0x80000000 \<noteq> 0 then
             (case module of
                Some m \<Rightarrow> op_byOrdinal ops m (ucast (lookup AND 0xFFFF)) w
              | None \<Rightarrow> resolveMissingImportByOrdinal env (c_string (memory w) dllName) (ucast (lookup AND 0xFFFF)) w)
           else
             (let name = c_string (memory w) (addp (fromRVA exe lookup) 2) in
              case module of
                Some m \<Rightarrow> op_byName ops m name w
              | None \<Rightarrow> resolveMissingImportByName env (c_string (memory w) dllName) name w));
        import_entries env ops module dllName exe (addp lookupTable 4) (addp addressTable 4)
          (w1\<lparr>memory := store32 addressTable (of_nat func) (memory w1)\<rparr>) })"

partial_function (option) import_directory :: "Env \<Rightarrow> Ops \<Rightarrow> Executable \<Rightarrow> nat \<Rightarrow> MWorld \<Rightarrow> (bool \<times> MWorld) option" where
  "import_directory env ops exe dir w =
     (let nameRVA = load32 (memory w) (addp dir 12) in
      if nameRVA = 0 then Some (True, w)
      else let dllName = fromRVA exe nameRVA;
               ilt = load32 (memory w) dir; iat = load32 (memory w) (addp dir 16);
               lookupTable = fromRVA exe (if ilt \<noteq> 0 then ilt else iat);
               addressTable = fromRVA exe iat in
        do {
          (module, w1) \<leftarrow> op_load ops (c_string (memory w) dllName) w;
          if module = None \<and> lastError w1 \<noteq> ERROR_MOD_NOT_FOUND then Some (False, w1)
          else do {
            w2 \<leftarrow> import_entries env ops module dllName exe lookupTable addressTable w1;
            import_directory env ops exe (addp dir 20) w2 } })"

definition exe_of :: "MWorld \<Rightarrow> nat \<Rightarrow> Executable" where
  "exe_of w i = (case executable (mod_of w i) of Some e \<Rightarrow> e | None \<Rightarrow> new_executable)"

definition set_import_flags :: "nat \<Rightarrow> bool \<Rightarrow> bool \<Rightarrow> MWorld \<Rightarrow> MWorld" where
  "set_import_flags i resolved resolving w =
     set_exe i ((exe_of w i)\<lparr>importsResolved := resolved, importsResolving := resolving\<rparr>) w"

definition finalize_module :: "Env \<Rightarrow> nat \<Rightarrow> MWorld \<Rightarrow> bool \<times> MWorld" where
  "finalize_module env i w = (case finalizeSections (host env) (exe_of w i) w of (ok, e, w') \<Rightarrow> (ok, set_exe i e w'))"

definition resolveImports :: "Env \<Rightarrow> Ops \<Rightarrow> nat \<Rightarrow> MWorld \<Rightarrow> (bool \<times> MWorld) option" where
  "resolveImports env ops i w =
     (let e = exe_of w i in
      if importsResolved e \<or> \<not> execMapped e then Some (finalize_module env i (set_import_flags i True False w))
      else if importsResolving e then Some (True, w)
      else
        let w1 = set_import_flags i (importsResolved e) True w in
        if importDirectoryRVA e = 0 then Some (finalize_module env i (set_import_flags i True False w1))
        else if fromRVA e (importDirectoryRVA e) = 0 then Some (finalize_module env i (set_import_flags i True False w1))
        else do {
          (ok, w2) \<leftarrow> import_directory env ops e (fromRVA e (importDirectoryRVA e)) w1;
          if \<not> ok then Some (False, set_import_flags i False False w2)
          else case finalize_module env i (set_import_flags i True False w2) of
            (True, w3) \<Rightarrow> Some (True, w3)
          | (False, w3) \<Rightarrow> Some (False, set_exe i ((exe_of w3 i)\<lparr>importsResolved := False\<rparr>) w3) })"

section \<open>Entry points\<close>

abbreviation (input) DLL_PROCESS_DETACH :: u32 where "DLL_PROCESS_DETACH \<equiv> 0"
abbreviation (input) DLL_PROCESS_ATTACH :: u32 where "DLL_PROCESS_ATTACH \<equiv> 1"
abbreviation (input) DLL_THREAD_ATTACH :: u32 where "DLL_THREAD_ATTACH \<equiv> 2"
abbreviation (input) DLL_THREAD_DETACH :: u32 where "DLL_THREAD_DETACH \<equiv> 3"

definition invokeWithGuestTIB :: "Env \<Rightarrow> nat \<Rightarrow> u32 \<Rightarrow> bool \<Rightarrow> MWorld \<Rightarrow> bool \<times> MWorld" where
  "invokeWithGuestTIB env i callReason force w =
     (let m = mod_of w i; attached = (processAttachCalled m \<and> processAttachSucceeded m) in
      if \<not> force \<and> callReason = DLL_PROCESS_DETACH \<and> \<not> attached then (True, w)
      else if \<not> force \<and> (callReason = DLL_THREAD_ATTACH \<or> callReason = DLL_THREAD_DETACH)
              \<and> (\<not> attached \<or> \<not> threadNotificationsEnabled m) then (True, w)
      else call_guest env (DllMain i callReason) w)"

definition callDllMain :: "Env \<Rightarrow> nat \<Rightarrow> u32 \<Rightarrow> MWorld \<Rightarrow> bool \<times> MWorld" where
  "callDllMain env i reason w0 =
     (if mainModule env = Some i then (True, w0)
      else case executable (mod_of w0 i) of
        None \<Rightarrow> (True, w0)
      | Some e \<Rightarrow>
          if entryPoint e = 0 then (True, w0)
          else
            let w = w0\<lparr>lastError := ERROR_SUCCESS\<rparr> in
            if reason = DLL_PROCESS_ATTACH then
              (if processAttachCalled (mod_of w i) then (processAttachSucceeded (mod_of w i), w)
               else let w1 = set_mod i ((mod_of w i)\<lparr>processAttachCalled := True, processAttachSucceeded := False\<rparr>) w;
                        (result, w2) = invokeWithGuestTIB env i DLL_PROCESS_ATTACH True w1
                    in if \<not> result then (False, snd (invokeWithGuestTIB env i DLL_PROCESS_DETACH True w2))
                       else (True, set_mod i ((mod_of w2 i)\<lparr>processAttachSucceeded := True\<rparr>) w2))
            else if reason = DLL_PROCESS_DETACH then
              (let (result, w1) = invokeWithGuestTIB env i DLL_PROCESS_DETACH False w
               in (result, if processAttachSucceeded (mod_of w1 i)
                           then set_mod i ((mod_of w1 i)\<lparr>processAttachSucceeded := False\<rparr>) w1 else w1))
            else if reason = DLL_THREAD_ATTACH \<or> reason = DLL_THREAD_DETACH
            then invokeWithGuestTIB env i reason False w
            else (True, w))"

section \<open>Aliases\<close>

definition findByAlias :: "string \<Rightarrow> MWorld \<Rightarrow> nat option" where
  "findByAlias alias w = modulesByAlias w alias"

definition is_builtin :: "MWorld \<Rightarrow> nat \<Rightarrow> bool" where
  "is_builtin w i \<longleftrightarrow> moduleStub (mod_of w i) \<noteq> None"

definition registerAlias :: "string \<Rightarrow> nat \<Rightarrow> MWorld \<Rightarrow> MWorld" where
  "registerAlias alias i w =
     (if alias = [] then w
      else case modulesByAlias w alias of
        None \<Rightarrow> w\<lparr>modulesByAlias := (modulesByAlias w)(alias \<mapsto> i)\<rparr>
      | Some j \<Rightarrow>
          if alias \<in> pinnedAliases w then w
          else if is_builtin w j \<and> \<not> is_builtin w i then w\<lparr>modulesByAlias := (modulesByAlias w)(alias \<mapsto> i)\<rparr>
          else w)"

definition storageKeyForPath :: "Env \<Rightarrow> string \<Rightarrow> string" where
  "storageKeyForPath env path = normalizeAlias (pathToWindows env (canonicalPath env path))"

definition registerExternalModuleAliases :: "Env \<Rightarrow> string \<Rightarrow> string \<Rightarrow> nat \<Rightarrow> MWorld \<Rightarrow> MWorld" where
  "registerExternalModuleAliases env requestedName path i w =
     registerAlias (storageKeyForPath env path) i
       (registerAlias (normalizeAlias requestedName) i
         (registerAlias (normalizedBaseKey (parseModuleName requestedName)) i w))"

definition put_key :: "string \<Rightarrow> nat \<Rightarrow> MWorld \<Rightarrow> MWorld" where
  "put_key key i w = w\<lparr>modulesByKey := (key, i) # filter (\<lambda>p. fst p \<noteq> key) (modulesByKey w)\<rparr>"

definition erase_key :: "string \<Rightarrow> MWorld \<Rightarrow> MWorld" where
  "erase_key key w = w\<lparr>modulesByKey := filter (\<lambda>p. fst p \<noteq> key) (modulesByKey w)\<rparr>"

definition erase_aliases :: "nat \<Rightarrow> MWorld \<Rightarrow> MWorld" where
  "erase_aliases i w = w\<lparr>modulesByAlias := (\<lambda>a. if modulesByAlias w a = Some i then None else modulesByAlias w a)\<rparr>"

section \<open>Registering modules\<close>

text \<open>One name of a built-in module: its alias and, if it differs, the normal form of its base name.\<close>

definition builtin_alias :: "bool \<Rightarrow> nat \<Rightarrow> string \<Rightarrow> MWorld \<Rightarrow> MWorld" where
  "builtin_alias pin i alias w =
     (let w1 = (if pin then w\<lparr>pinnedAliases := insert alias (pinnedAliases w)\<rparr> else w);
          w2 = registerAlias alias i w1
      in w2\<lparr>builtinAliasMap := (builtinAliasMap w2)(alias \<mapsto> i)\<rparr>)"

definition builtin_name :: "bool \<Rightarrow> nat \<Rightarrow> string \<Rightarrow> MWorld \<Rightarrow> MWorld" where
  "builtin_name pin i name w =
     (let alias = normalizeAlias name; baseAlias = normalizedBaseKey (parseModuleName name);
          w1 = builtin_alias pin i alias w
      in if baseAlias \<noteq> alias then builtin_alias pin i baseAlias w1 else w1)"

definition registerBuiltinModule :: "bool \<Rightarrow> ModuleStub \<Rightarrow> MWorld \<Rightarrow> MWorld" where
  "registerBuiltinModule pinModule stub w =
     (let i = nextModule w; name0 = (case stub_names stub of [] \<Rightarrow> [] | n # _ \<Rightarrow> n);
          m = new_module\<lparr>handle := g_nextStubHandle w, moduleStub := Some stub, refCount := UINT_MAX,
                originalName := name0, normalizedName := normalizedBaseKey (parseModuleName name0)\<rparr>;
          w1 = (set_mod i m w)\<lparr>nextModule := i + 1, g_nextStubHandle := g_nextStubHandle w + 1\<rparr>;
          w2 = put_key (normalizedName m) i w1;
          w3 = (if pinModule then w2\<lparr>pinnedModules := insert i (pinnedModules w2)\<rparr> else w2)
      in fold (builtin_name pinModule i) (stub_names stub) w3)"

text \<open>
  The main program. The third name that the code wants to pin, \<^verbatim>\<open>normalizedName\<close>, has been moved into the module by then: the
  variable is empty and nothing is pinned for it.
\<close>

definition registerProcessModule :: "Env \<Rightarrow> Ops \<Rightarrow> Executable \<Rightarrow> string \<Rightarrow> string \<Rightarrow> string \<Rightarrow> MWorld \<Rightarrow> (nat \<times> MWorld) option" where
  "registerProcessModule env ops exe path filename originalName0 w =
     (let original = (if originalName0 = [] \<and> path \<noteq> [] then filename else originalName0);
          normalized = normalizedBaseKey (parseModuleName original);
          i = nextModule w;
          m = new_module\<lparr>handle := imageBase exe, originalName := original, normalizedName := normalized, resolvedPath := path,
                executable := Some exe, refCount := UINT_MAX\<rparr>;
          key0 = (if path \<noteq> [] then storageKeyForPath env path else normalized);
          storageKey = (if key0 = [] then normalizeAlias original else key0);
          w1 = put_key storageKey i ((set_mod i m w)\<lparr>nextModule := i + 1\<rparr>);
          w2 = (if path \<noteq> [] then registerExternalModuleAliases env original path i w1
                else let w' = registerAlias (normalizeAlias original) i w1 in
                  if normalized \<noteq> original then registerAlias normalized i w' else w')
      in do {
        w3 \<leftarrow> ensureExportsInitialized env ops i w2;
        Some (i, w3\<lparr>pinnedModules := insert i (pinnedModules w3),
          pinnedAliases := pinnedAliases w3 \<union> {a. a \<in> {storageKey, normalizeAlias original} \<and> a \<noteq> []}\<rparr>) })"

section \<open>Loading\<close>

definition incRef :: "nat \<Rightarrow> MWorld \<Rightarrow> MWorld" where
  "incRef i w =
     (if refCount (mod_of w i) \<noteq> UINT_MAX
      then set_mod i ((mod_of w i)\<lparr>refCount := (refCount (mod_of w i) + 1) mod 2 ^ 32\<rparr>) w else w)"

text \<open>After the image of an external DLL is mapped: exports, imports, static data and the entry point. The result is the error, if any.\<close>

definition start_external :: "Env \<Rightarrow> Ops \<Rightarrow> string \<Rightarrow> nat \<Rightarrow> MWorld \<Rightarrow> (u32 option \<times> MWorld) option" where
  "start_external env ops key i w =
     do {
       w1 \<leftarrow> ensureExportsInitialized env ops i w;
       (ok, w2) \<leftarrow> resolveImports env ops i w1;
       if \<not> ok then Some (Some (lastError w2), erase_key key w2)
       else case initializeModuleTls env i w2 of
         (False, w3) \<Rightarrow> Some (Some (lastError w3), erase_key key w3)
       | (True, w3) \<Rightarrow>
           (case callDllMain env i DLL_PROCESS_ATTACH w3 of
              (True, w4) \<Rightarrow> Some (None, w4)
            | (False, w4) \<Rightarrow>
                let w5 = erase_aliases i (releaseModuleTls env i w4) in
                Some (Some ERROR_DLL_INIT_FAILED,
                  (erase_key key (w5\<lparr>pinnedModules := pinnedModules w5 - {i}\<rparr>))\<lparr>lastError := ERROR_DLL_INIT_FAILED\<rparr>)) }"

text \<open>\<^verbatim>\<open>tryLoadExternal\<close>: \<open>Inl\<close> is the value of \<^verbatim>\<open>diskError\<close>.\<close>

definition tryLoadExternal :: "Env \<Rightarrow> Ops \<Rightarrow> string \<Rightarrow> string \<Rightarrow> MWorld \<Rightarrow> ((u32 + nat) \<times> MWorld) option" where
  "tryLoadExternal env ops dllName path w =
     (let key = storageKeyForPath env path in
      case map_of (modulesByKey w) key of
        Some i \<Rightarrow> Some (Inr i, registerExternalModuleAliases env dllName (canonicalPath env path) i (incRef i w))
      | None \<Rightarrow>
          (case openFile env path of
             None \<Rightarrow> Some (Inl ERROR_MOD_NOT_FOUND, w)
           | Some file \<Rightarrow>
               do {
                 (ok, e, w1) \<leftarrow> loadPE_file (host env) (Some file) True new_executable w;
                 if \<not> ok then Some (Inl ERROR_BAD_EXE_FORMAT, destroy_executable (host env) e w1)
                 else
                   let i = nextModule w1;
                       m = new_module\<lparr>handle := g_nextStubHandle w1, originalName := dllName,
                             normalizedName := normalizedBaseKey (parseModuleName dllName), resolvedPath := canonicalPath env path,
                             executable := Some e, refCount := 1\<rparr>;
                       w2 = (set_mod i m w1)\<lparr>nextModule := i + 1, g_nextStubHandle := g_nextStubHandle w1 + 1\<rparr>;
                       w3 = registerExternalModuleAliases env dllName (canonicalPath env path) i (put_key key i w2)
                   in if \<not> isDll e then Some (Inr i, w3)
                      else do {
                        (err, w4) \<leftarrow> start_external env ops key i w3;
                        case err of None \<Rightarrow> Some (Inr i, w4) | Some d \<Rightarrow> Some (Inl d, w4) } }))"

definition searchDirectories :: "Env \<Rightarrow> MWorld \<Rightarrow> string list" where
  "searchDirectories env w =
     collectSearchDirectories (canonicalDir env) (fromWindows env) (exeParent env) (dllDirectory w) (currentPath env)
       (wiboPath env) (winePath env) False"

definition resolveAndLoadExternal :: "Env \<Rightarrow> Ops \<Rightarrow> string \<Rightarrow> MWorld \<Rightarrow> ((u32 + nat) \<times> MWorld) option" where
  "resolveAndLoadExternal env ops dllName w =
     (case resolveModuleOnDisk (findFile env) (findWindows env) (searchDirectories env w) dllName of
        None \<Rightarrow> Some (Inl ERROR_MOD_NOT_FOUND, w)
      | Some path \<Rightarrow> tryLoadExternal env ops dllName path w)"

definition ensureModuleReady :: "Env \<Rightarrow> Ops \<Rightarrow> nat \<Rightarrow> MWorld \<Rightarrow> (bool \<times> MWorld) option" where
  "ensureModuleReady env ops i w =
     do {
       (ok, w1) \<leftarrow>
         (case (moduleStub (mod_of w i), executable (mod_of w i)) of
            (Some stub, None) \<Rightarrow>
              if dllData stub \<noteq> [] then
                do {
                  (ok, e, w1) \<leftarrow> loadPE_span (host env) (dllData stub) True new_executable w;
                  if ok then Some (True, set_exe i e w1) else Some (False, destroy_executable (host env) e w1) }
              else Some (True, w)
          | _ \<Rightarrow> Some (True, w));
       if \<not> ok then Some (False, w1)
       else do {
         w2 \<leftarrow> ensureExportsInitialized env ops i w1;
         if executable (mod_of w2 i) = None then Some (True, w2)
         else do {
           (ok2, w3) \<leftarrow> resolveImports env ops i w2;
           if \<not> ok2 then Some (False, w3)
           else case initializeModuleTls env i w3 of
             (False, w4) \<Rightarrow> Some (False, w4)
           | (True, w4) \<Rightarrow>
               (case callDllMain env i DLL_PROCESS_ATTACH w4 of
                  (True, w5) \<Rightarrow> Some (True, w5)
                | (False, w5) \<Rightarrow> Some (False, w5\<lparr>lastError := ERROR_DLL_INIT_FAILED\<rparr>)) } } }"

definition ready_builtin :: "Env \<Rightarrow> Ops \<Rightarrow> nat \<Rightarrow> MWorld \<Rightarrow> (nat option \<times> MWorld) option" where
  "ready_builtin env ops i w =
     do { (ok, w1) \<leftarrow> ensureModuleReady env ops i w; Some (if ok then Some i else None, w1) }"

definition loadModuleInternal :: "Env \<Rightarrow> Ops \<Rightarrow> string \<Rightarrow> MWorld \<Rightarrow> (nat option \<times> MWorld) option" where
  "loadModuleInternal env ops dllName w =
     (let alias = normalizedBaseKey (parseModuleName dllName);
          existing = (case findByAlias alias w of Some i \<Rightarrow> Some i | None \<Rightarrow> findByAlias (normalizeAlias dllName) w) in
      case existing of
        Some i \<Rightarrow>
          if \<not> is_builtin w i then Some (Some i, incRef i w)
          else if i \<in> pinnedModules w then ready_builtin env ops i w
          else do {
            (r, w1) \<leftarrow> resolveAndLoadExternal env ops dllName w;
            case r of
              Inr j \<Rightarrow> Some (Some j, w1)
            | Inl diskError \<Rightarrow>
                if diskError \<noteq> ERROR_MOD_NOT_FOUND then Some (None, w1\<lparr>lastError := diskError\<rparr>)
                else ready_builtin env ops i w1 }
      | None \<Rightarrow>
          do {
            (r, w1) \<leftarrow> resolveAndLoadExternal env ops dllName w;
            case r of
              Inr j \<Rightarrow> Some (Some j, w1)
            | Inl diskError \<Rightarrow>
                if diskError \<noteq> ERROR_MOD_NOT_FOUND then Some (None, w1\<lparr>lastError := diskError\<rparr>)
                else
                  let builtin = (case builtinAliasMap w1 alias of Some b \<Rightarrow> Some b | None \<Rightarrow> builtinAliasMap w1 (normalizeAlias dllName)) in
                  case builtin of
                    Some b \<Rightarrow>
                      if is_builtin w1 b then ready_builtin env ops b w1
                      else Some (None, w1\<lparr>lastError := ERROR_MOD_NOT_FOUND\<rparr>)
                  | None \<Rightarrow> Some (None, w1\<lparr>lastError := ERROR_MOD_NOT_FOUND\<rparr>) })"

definition loadModule :: "Env \<Rightarrow> Ops \<Rightarrow> string \<Rightarrow> MWorld \<Rightarrow> (nat option \<times> MWorld) option" where
  "loadModule env ops dllName w =
     (if dllName = [] then Some (None, w\<lparr>lastError := ERROR_INVALID_PARAMETER\<rparr>)
      else loadModuleInternal env ops (api_set_name dllName) w)"

text \<open>The knot: the entry points, up to a depth of calls.\<close>

fun module_ops :: "Env \<Rightarrow> nat \<Rightarrow> Ops" where
  "module_ops env 0 = \<lparr>op_load = (\<lambda>_ _. None), op_byName = (\<lambda>_ _ _. None), op_byOrdinal = (\<lambda>_ _ _. None)\<rparr>"
| "module_ops env (Suc n) =
     \<lparr>op_load = loadModule env (module_ops env n), op_byName = resolveFuncByName env (module_ops env n),
      op_byOrdinal = resolveFuncByOrdinal env (module_ops env n)\<rparr>"

section \<open>Freeing and notifying\<close>

definition freeModule :: "Env \<Rightarrow> nat \<Rightarrow> MWorld \<Rightarrow> MWorld" where
  "freeModule env i w =
     (let m = mod_of w i in
      if refCount m = UINT_MAX \<or> refCount m = 0 then w
      else
        let w1 = set_mod i (m\<lparr>refCount := refCount m - 1\<rparr>) w in
        if refCount m - 1 \<noteq> 0 then w1
        else
          let w2 = runModuleTlsCallbacks env i DLL_PROCESS_DETACH w1;
              w3 = snd (callDllMain env i DLL_PROCESS_DETACH w2);
              w4 = releaseModuleTls env i w3;
              key = (if resolvedPath (mod_of w4 i) = [] then normalizedName (mod_of w4 i)
                     else storageKeyForPath env (resolvedPath (mod_of w4 i)))
          in erase_aliases i (erase_key key w4))"

definition shouldDeliverThreadNotifications :: "Env \<Rightarrow> MWorld \<Rightarrow> nat \<Rightarrow> bool" where
  "shouldDeliverThreadNotifications env w i =
     (let m = mod_of w i in
      if mainModule env = Some i then False
      else if executable m = None then False
      else if \<not> processAttachCalled m \<or> \<not> processAttachSucceeded m then False
      else if \<not> threadNotificationsEnabled m then False
      else True)"

definition notify_targets :: "Env \<Rightarrow> MWorld \<Rightarrow> nat list" where
  "notify_targets env w = filter (shouldDeliverThreadNotifications env w) (map snd (modulesByKey w))"

definition notifyDllThreadAttach :: "Env \<Rightarrow> nat \<Rightarrow> MWorld \<Rightarrow> MWorld" where
  "notifyDllThreadAttach env tib w =
     (let targets = notify_targets env w;
          w1 = fold (\<lambda>i w. if hasTls (tlsInfo (mod_of w i))
                           then runModuleTlsCallbacks env i DLL_THREAD_ATTACH (snd (allocateModuleTlsForThread env i tib w))
                           else w) targets w;
          w2 = fold (\<lambda>i w. snd (callDllMain env i DLL_THREAD_ATTACH w)) targets w1
      in w2\<lparr>lastError := ERROR_SUCCESS\<rparr>)"

definition notifyDllThreadDetach :: "Env \<Rightarrow> nat \<Rightarrow> MWorld \<Rightarrow> MWorld" where
  "notifyDllThreadDetach env tib w =
     (let targets = rev (notify_targets env w);
          w1 = fold (\<lambda>i w. if hasTls (tlsInfo (mod_of w i)) then runModuleTlsCallbacks env i DLL_THREAD_DETACH w else w) targets w;
          w2 = fold (\<lambda>i w. snd (callDllMain env i DLL_THREAD_DETACH w)) targets w1;
          w3 = fold (\<lambda>i w. if hasTls (tlsInfo (mod_of w i)) then freeModuleTlsForThread env i tib w else w) targets w2
      in w3\<lparr>lastError := ERROR_SUCCESS\<rparr>)"

definition disableThreadNotifications :: "nat option \<Rightarrow> MWorld \<Rightarrow> bool \<times> MWorld" where
  "disableThreadNotifications info w =
     (case info of
        None \<Rightarrow> (False, w)
      | Some i \<Rightarrow>
          if hasTls (tlsInfo (mod_of w i)) then (False, w)
          else (True, set_mod i ((mod_of w i)\<lparr>threadNotificationsEnabled := False\<rparr>) w))"

definition shutdown_module :: "Env \<Rightarrow> nat \<Rightarrow> MWorld \<Rightarrow> MWorld" where
  "shutdown_module env i w =
     (if is_builtin w i then w
      else let w1 = (if hasTls (tlsInfo (mod_of w i)) then runModuleTlsCallbacks env i DLL_PROCESS_DETACH w else w);
               w2 = (if processAttachCalled (mod_of w1 i) \<and> processAttachSucceeded (mod_of w1 i)
                     then snd (callDllMain env i DLL_PROCESS_DETACH w1) else w1)
           in releaseModuleTls env i w2)"

definition shutdownModuleRegistry :: "Env \<Rightarrow> MWorld \<Rightarrow> MWorld" where
  "shutdownModuleRegistry env w =
     (let w1 = fold (shutdown_module env) (map snd (modulesByKey w)) w
      in w1\<lparr>modulesByKey := [], modulesByAlias := (\<lambda>_. None)\<rparr>)"

section \<open>Queries\<close>

definition findLoadedModule :: "Env \<Rightarrow> string option \<Rightarrow> MWorld \<Rightarrow> nat option" where
  "findLoadedModule env name w =
     (case name of
        None \<Rightarrow> mainModule env
      | Some n \<Rightarrow>
          if n = [] then mainModule env
          else case findByAlias (normalizedBaseKey (parseModuleName n)) w of
            Some i \<Rightarrow> Some i
          | None \<Rightarrow> findByAlias (normalizeAlias n) w)"

definition isMainModule :: "Env \<Rightarrow> MWorld \<Rightarrow> nat \<Rightarrow> bool" where
  "isMainModule env w hModule \<longleftrightarrow> hModule = 0 \<or>
     (case mainModule env of
        None \<Rightarrow> False
      | Some i \<Rightarrow> (case executable (mod_of w i) of None \<Rightarrow> False | Some e \<Rightarrow> imageBase e = hModule))"

definition moduleInfoFromHandle :: "Env \<Rightarrow> nat \<Rightarrow> MWorld \<Rightarrow> nat option" where
  "moduleInfoFromHandle env hModule w =
     (if isMainModule env w hModule then mainModule env
      else first_some (\<lambda>i. if handle (mod_of w i) = hModule
                           \<or> (case executable (mod_of w i) of Some e \<Rightarrow> imageBase e = hModule | None \<Rightarrow> False)
                         then Some i else None) (map snd (modulesByKey w)))"

definition moduleInfoFromAddress :: "nat \<Rightarrow> MWorld \<Rightarrow> nat option" where
  "moduleInfoFromAddress addr w =
     (if addr = 0 then None
      else first_some (\<lambda>i. case executable (mod_of w i) of
                             None \<Rightarrow> None
                           | Some e \<Rightarrow> if imageBase e = 0 \<or> imageSize e = 0 then None
                                       else if imageBase e \<le> addr \<and> addr < addp (imageBase e) (imageSize e) then Some i else None)
             (map snd (modulesByKey w)))"

text \<open>The image behind a handle; a module that has none yet is loaded from its path, not for execution.\<close>

definition executableFromModule :: "Env \<Rightarrow> nat \<Rightarrow> MWorld \<Rightarrow> (Executable option \<times> MWorld) option" where
  "executableFromModule env hModule w =
     (case moduleInfoFromHandle env hModule w of
        None \<Rightarrow> Some (None, w)
      | Some i \<Rightarrow>
          if executable (mod_of w i) = None \<and> resolvedPath (mod_of w i) \<noteq> [] then
            (case openFile env (resolvedPath (mod_of w i)) of
               None \<Rightarrow> Some (None, w)
             | Some file \<Rightarrow>
                 do {
                   (ok, e, w1) \<leftarrow> loadPE_file (host env) (Some file) False new_executable w;
                   if ok then Some (Some e, set_exe i e w1) else Some (None, destroy_executable (host env) e w1) })
          else Some (executable (mod_of w i), w))"

section \<open>The directory of the program's choice\<close>

definition setDllDirectoryOverride :: "Env \<Rightarrow> string \<Rightarrow> MWorld \<Rightarrow> MWorld" where
  "setDllDirectoryOverride env path w = w\<lparr>dllDirectory := Some (canonicalPath env path)\<rparr>"

definition clearDllDirectoryOverride :: "MWorld \<Rightarrow> MWorld" where
  "clearDllDirectoryOverride w = w\<lparr>dllDirectory := None\<rparr>"

definition dllDirectoryOverride :: "MWorld \<Rightarrow> string option" where
  "dllDirectoryOverride w = dllDirectory w"

end
