(* ===== verification/Module_Steps.thy ===== *)
theory Module_Steps
  imports Module_Registry
begin

unbundle bit_operations_syntax

text \<open>
  Every operation of the registry is a sequence of small steps: the step relation, the well-formedness
  of the numbers of modules, and that the operations, through every recursion and on every error path, are
  such sequences. Invariants of the registry are proved once per step.
\<close>

section \<open>Steps\<close>

text \<open>What stays of a module when its exports, its executable or its static data change.\<close>

definition same_life :: "ModuleInfo \<Rightarrow> ModuleInfo \<Rightarrow> bool" where
  "same_life m m' \<longleftrightarrow> processAttachCalled m' = processAttachCalled m \<and> processAttachSucceeded m' = processAttachSucceeded m \<and>
     moduleStub m' = moduleStub m \<and> refCount m' = refCount m \<and> handle m' = handle m \<and> resolvedPath m' = resolvedPath m \<and>
     originalName m' = originalName m \<and> normalizedName m' = normalizedName m"

text \<open>What a step may change outside the registry: memory, static data, the last error.\<close>

definition same_registry :: "MWorld \<Rightarrow> MWorld \<Rightarrow> bool" where
  "same_registry w w' \<longleftrightarrow> modules w' = modules w \<and> nextModule w' = nextModule w \<and> modulesByKey w' = modulesByKey w \<and>
     modulesByAlias w' = modulesByAlias w \<and> builtinAliasMap w' = builtinAliasMap w \<and> pinnedAliases w' = pinnedAliases w \<and>
     pinnedModules w' = pinnedModules w \<and> stubCache w' = stubCache w \<and> stubNames w' = stubNames w \<and>
     guestCalls w' = guestCalls w \<and> g_nextStubHandle w' = g_nextStubHandle w"

inductive reg_step :: "Env \<Rightarrow> MWorld \<Rightarrow> MWorld \<Rightarrow> bool" for env :: Env where
  plain: "same_registry w w' \<Longrightarrow> reg_step env w w'"
| stub: "resolveMissingFuncName env dll func w = Some (a, w') \<Longrightarrow> reg_step env w w'"
| module: "i < nextModule w \<Longrightarrow> same_life (mod_of w i) m \<Longrightarrow> reg_step env w (set_mod i m w)"
| new_external: "moduleStub m = None \<Longrightarrow> refCount m = 1 \<Longrightarrow> \<not> processAttachCalled m \<Longrightarrow> \<not> processAttachSucceeded m \<Longrightarrow>
    reg_step env w ((set_mod (nextModule w) m w)\<lparr>nextModule := nextModule w + 1, g_nextStubHandle := g_nextStubHandle w + 1\<rparr>)"
| key: "i < nextModule w \<Longrightarrow> map_of (modulesByKey w) k = None \<Longrightarrow> reg_step env w (put_key k i w)"
| drop_key: "reg_step env w (erase_key k w)"
| add_alias: "i < nextModule w \<Longrightarrow> reg_step env w (registerAlias a i w)"
| drop_aliases: "i \<notin> pinnedModules w \<Longrightarrow> reg_step env w (erase_aliases i w)"
| more_ref: "i < nextModule w \<Longrightarrow> reg_step env w (incRef i w)"
| less_ref: "i < nextModule w \<Longrightarrow> refCount (mod_of w i) \<noteq> UINT_MAX \<Longrightarrow> 0 < refCount (mod_of w i) \<Longrightarrow>
    reg_step env w (set_mod i ((mod_of w i)\<lparr>refCount := refCount (mod_of w i) - 1\<rparr>) w)"
| entry: "i < nextModule w \<Longrightarrow> reg_step env w (snd (callDllMain env i reason w))"
| callback: "reg_step env w (w\<lparr>guestCalls := guestCalls w @ [TlsCallback i cb reason]\<rparr>)"

definition runs :: "Env \<Rightarrow> MWorld \<Rightarrow> MWorld \<Rightarrow> bool" where
  "runs env = (reg_step env)\<^sup>*\<^sup>*"

lemma runs_refl [simp, intro]: "runs env w w" by (simp add: runs_def)

lemma runs_trans [trans]: "runs env w w' \<Longrightarrow> runs env w' w'' \<Longrightarrow> runs env w w''" by (auto simp: runs_def)

lemma runs_step: "reg_step env w w' \<Longrightarrow> runs env w w'" by (simp add: runs_def)

section \<open>Numbers of modules\<close>

text \<open>Numbers that occur are those of modules; a pinned module is never freed.\<close>

definition ids_ok :: "MWorld \<Rightarrow> bool" where
  "ids_ok w \<longleftrightarrow> (\<forall>i \<in> snd ` set (modulesByKey w). i < nextModule w) \<and> (\<forall>i \<in> ran (modulesByAlias w). i < nextModule w) \<and>
     (\<forall>i \<in> ran (builtinAliasMap w). i < nextModule w) \<and>
     (\<forall>i \<in> pinnedModules w. i < nextModule w \<and> refCount (mod_of w i) = UINT_MAX)"

lemma set_mod_frame [simp]:
  "nextModule (set_mod i m w) = nextModule w" "modulesByKey (set_mod i m w) = modulesByKey w"
  "modulesByAlias (set_mod i m w) = modulesByAlias w" "builtinAliasMap (set_mod i m w) = builtinAliasMap w"
  "guestCalls (set_mod i m w) = guestCalls w" "stubCache (set_mod i m w) = stubCache w" "stubNames (set_mod i m w) = stubNames w"
  "pinnedAliases (set_mod i m w) = pinnedAliases w" "pinnedModules (set_mod i m w) = pinnedModules w"
  "memory (set_mod i m w) = memory w" "lastError (set_mod i m w) = lastError w" "vm (set_mod i m w) = vm w"
  "g_nextStubHandle (set_mod i m w) = g_nextStubHandle w"
  by (simp_all add: set_mod_def)

lemma mod_of_set_mod [simp]: "mod_of (set_mod i m w) j = (if j = i then m else mod_of w j)"
  by (simp add: mod_of_def set_mod_def)

lemma registerAlias_frame [simp]:
  "nextModule (registerAlias a i w) = nextModule w" "modulesByKey (registerAlias a i w) = modulesByKey w"
  "builtinAliasMap (registerAlias a i w) = builtinAliasMap w" "modules (registerAlias a i w) = modules w"
  "guestCalls (registerAlias a i w) = guestCalls w" "stubCache (registerAlias a i w) = stubCache w"
  "stubNames (registerAlias a i w) = stubNames w" "pinnedAliases (registerAlias a i w) = pinnedAliases w"
  "pinnedModules (registerAlias a i w) = pinnedModules w"
  by (simp_all add: registerAlias_def split: option.splits)

lemma mod_of_cong: "modules w' = modules w \<Longrightarrow> mod_of w' = mod_of w"
  by (intro ext) (simp add: mod_of_def)

lemma ran_registerAlias: "ran (modulesByAlias (registerAlias a i w)) \<subseteq> insert i (ran (modulesByAlias w))"
  by (auto simp: registerAlias_def ran_def split: option.splits if_splits)

lemma call_guest_frame [simp]:
  "nextModule (snd (call_guest env c w)) = nextModule w" "modulesByKey (snd (call_guest env c w)) = modulesByKey w"
  "modulesByAlias (snd (call_guest env c w)) = modulesByAlias w" "builtinAliasMap (snd (call_guest env c w)) = builtinAliasMap w"
  "modules (snd (call_guest env c w)) = modules w" "stubCache (snd (call_guest env c w)) = stubCache w"
  "stubNames (snd (call_guest env c w)) = stubNames w" "pinnedAliases (snd (call_guest env c w)) = pinnedAliases w"
  "pinnedModules (snd (call_guest env c w)) = pinnedModules w" "guestCalls (snd (call_guest env c w)) = guestCalls w @ [c]"
  by (simp_all add: call_guest_def)

lemma invoke_frame [simp]:
  "nextModule (snd (invokeWithGuestTIB env i r f w)) = nextModule w"
  "modulesByKey (snd (invokeWithGuestTIB env i r f w)) = modulesByKey w"
  "modulesByAlias (snd (invokeWithGuestTIB env i r f w)) = modulesByAlias w"
  "builtinAliasMap (snd (invokeWithGuestTIB env i r f w)) = builtinAliasMap w"
  "modules (snd (invokeWithGuestTIB env i r f w)) = modules w" "stubCache (snd (invokeWithGuestTIB env i r f w)) = stubCache w"
  "stubNames (snd (invokeWithGuestTIB env i r f w)) = stubNames w"
  "pinnedAliases (snd (invokeWithGuestTIB env i r f w)) = pinnedAliases w"
  "pinnedModules (snd (invokeWithGuestTIB env i r f w)) = pinnedModules w"
  by (simp_all add: invokeWithGuestTIB_def Let_def)

lemma callDllMain_frame [simp]:
  "nextModule (snd (callDllMain env i r w)) = nextModule w" "modulesByKey (snd (callDllMain env i r w)) = modulesByKey w"
  "modulesByAlias (snd (callDllMain env i r w)) = modulesByAlias w" "builtinAliasMap (snd (callDllMain env i r w)) = builtinAliasMap w"
  "stubCache (snd (callDllMain env i r w)) = stubCache w" "stubNames (snd (callDllMain env i r w)) = stubNames w"
  "pinnedAliases (snd (callDllMain env i r w)) = pinnedAliases w" "pinnedModules (snd (callDllMain env i r w)) = pinnedModules w"
  by (simp_all add: callDllMain_def Let_def case_prod_unfold split: option.splits)

lemma missing_frame:
  assumes "resolveMissingFuncName env dll func w = Some (a, w')"
  shows "nextModule w' = nextModule w" "modulesByKey w' = modulesByKey w" "modulesByAlias w' = modulesByAlias w"
    "builtinAliasMap w' = builtinAliasMap w" "modules w' = modules w" "guestCalls w' = guestCalls w"
    "pinnedAliases w' = pinnedAliases w" "pinnedModules w' = pinnedModules w" "memory w' = memory w"
  using assms by (auto simp: resolveMissingFuncName_def Let_def split: option.splits if_splits)

lemma callDllMain_refCount [simp]: "refCount (mod_of (snd (callDllMain env i r w)) j) = refCount (mod_of w j)"
proof -
  have "mod_of (snd (invokeWithGuestTIB env i r f w)) = mod_of w" for r f w by (rule mod_of_cong) simp
  moreover have "mod_of (w\<lparr>lastError := e\<rparr>) = mod_of w" for e by (rule mod_of_cong) simp
  ultimately show ?thesis by (simp add: callDllMain_def Let_def case_prod_unfold split: option.splits)
qed

lemma ids_ok_step: "reg_step env w w' \<Longrightarrow> ids_ok w \<Longrightarrow> ids_ok w' \<and> nextModule w \<le> nextModule w' \<and> pinnedModules w' = pinnedModules w"
proof (induction rule: reg_step.induct)
  case (plain w w')
  then have "mod_of w' = mod_of w" by (intro mod_of_cong) (simp add: same_registry_def)
  with plain show ?case by (simp add: same_registry_def ids_ok_def)
next
  case (stub dll func w a w')
  then have "mod_of w' = mod_of w" by (intro mod_of_cong missing_frame)
  with stub show ?case by (simp add: ids_ok_def missing_frame [OF stub(1)])
next
  case (module i w m)
  then show ?case by (auto simp: ids_ok_def same_life_def)
next
  case (new_external m w)
  have "mod_of ((set_mod (nextModule w) m w)\<lparr>nextModule := n, g_nextStubHandle := h\<rparr>) = mod_of (set_mod (nextModule w) m w)" for n h
    by (rule mod_of_cong) simp
  with new_external show ?case by (force simp: ids_ok_def)
next
  case (key i w k)
  have "mod_of (put_key k i w) = mod_of w" by (rule mod_of_cong) (simp add: put_key_def)
  with key show ?case by (auto simp: ids_ok_def put_key_def)
next
  case (drop_key w k)
  have "mod_of (erase_key k w) = mod_of w" by (rule mod_of_cong) (simp add: erase_key_def)
  with drop_key show ?case by (auto simp: ids_ok_def erase_key_def)
next
  case (add_alias i w a)
  have "mod_of (registerAlias a i w) = mod_of w" by (rule mod_of_cong) simp
  with add_alias show ?case using ran_registerAlias [of a i w] by (auto simp: ids_ok_def)
next
  case (drop_aliases i w)
  have "mod_of (erase_aliases i w) = mod_of w" by (rule mod_of_cong) (simp add: erase_aliases_def)
  with drop_aliases show ?case by (auto simp: ids_ok_def erase_aliases_def ran_def split: if_splits)
next
  case (more_ref i w)
  then show ?case by (auto simp: ids_ok_def incRef_def)
next
  case (less_ref i w)
  then show ?case by (auto simp: ids_ok_def)
next
  case (entry i w reason)
  then show ?case by (simp add: ids_ok_def)
next
  case (callback w i cb reason)
  have "mod_of (w\<lparr>guestCalls := c\<rparr>) = mod_of w" for c by (rule mod_of_cong) simp
  with callback show ?case by (simp add: ids_ok_def)
qed

lemma runs_ids_ok:
  assumes "runs env w w'" "ids_ok w"
  shows "ids_ok w'" "nextModule w \<le> nextModule w'" "pinnedModules w' = pinnedModules w"
proof -
  have "ids_ok w' \<and> nextModule w \<le> nextModule w' \<and> pinnedModules w' = pinnedModules w"
    using assms unfolding runs_def by (induction rule: rtranclp_induct) (use ids_ok_step in force)+
  then show "ids_ok w'" "nextModule w \<le> nextModule w'" "pinnedModules w' = pinnedModules w" by auto
qed

section \<open>The operations are runs\<close>

text \<open>A module that exists in a well-formed registry; it does so after every run.\<close>

definition known :: "nat \<Rightarrow> MWorld \<Rightarrow> bool" where
  "known i w \<longleftrightarrow> ids_ok w \<and> i < nextModule w"

lemma known_runs: "runs env w w' \<Longrightarrow> known i w \<Longrightarrow> known i w'"
  using runs_ids_ok by (fastforce simp: known_def)

lemma known_ids: "known i w \<Longrightarrow> ids_ok w" by (simp add: known_def)

lemma runs_plain: "same_registry w w' \<Longrightarrow> runs env w w'" by (intro runs_step plain)

lemma runs_set_mod: "known i w \<Longrightarrow> same_life (mod_of w i) m \<Longrightarrow> runs env w (set_mod i m w)"
  by (auto simp: known_def intro!: runs_step module)

lemma runs_then: "runs env w w1 \<Longrightarrow> known i w \<Longrightarrow> (known i w1 \<Longrightarrow> runs env w1 w') \<Longrightarrow> runs env w w'"
  using known_runs runs_trans by blast

lemma runs_fold:
  assumes "\<And>x w. x \<in> set xs \<Longrightarrow> known i w \<Longrightarrow> runs env w (f x w)" "known i w"
  shows "runs env w (fold f xs w)"
  using assms
proof (induction xs arbitrary: w)
  case (Cons x xs)
  have "runs env w (f x w)" using Cons.prems by simp
  moreover have "runs env (f x w) (fold f xs (f x w))"
    using Cons.IH [of "f x w"] Cons.prems known_runs [OF calculation] by simp
  ultimately show ?case using runs_trans by auto
qed simp

lemma runs_set_exe: "known i w \<Longrightarrow> runs env w (set_exe i e w)"
  unfolding set_exe_def by (rule runs_set_mod) (simp_all add: same_life_def)

lemma runs_set_tls_info: "known i w \<Longrightarrow> runs env w (set_tls_info i info w)"
  unfolding set_tls_info_def by (rule runs_set_mod) (simp_all add: same_life_def)

lemma runs_call_tls: "runs env w (snd (call_guest env (TlsCallback i cb r) w))"
  by (auto simp: call_guest_def intro!: runs_step callback)

subsection \<open>Static data\<close>

lemma plain_free_block: "same_registry w (free_block b w)" by (simp add: free_block_def same_registry_def)

lemma plain_unpublish: "same_registry w (unpublish env info tib b w)"
  by (simp add: unpublish_def Let_def same_registry_def)

lemma plain_release_slot: "same_registry w (releaseModuleTlsSlot k w)" by (simp add: releaseModuleTlsSlot_def same_registry_def)

lemma plain_allocate_slot: "same_registry w (snd (allocateModuleTlsSlot i w))"
  by (simp add: allocateModuleTlsSlot_def same_registry_def split: option.splits)

lemma plain_write_index: "same_registry w (write_index info v w)" by (simp add: write_index_def same_registry_def)

lemma plain_new_block: "new_tls_block env info w = Some (b, w') \<Longrightarrow> same_registry w w'"
  by (auto simp: new_tls_block_def Let_def same_registry_def split: if_splits option.splits)

lemma plain_trans: "same_registry w w' \<Longrightarrow> same_registry w' w'' \<Longrightarrow> same_registry w w''"
  by (simp add: same_registry_def)

lemma plain_fields [simp]:
  "same_registry w (w\<lparr>tls := t\<rparr>)" "same_registry w (w\<lparr>memory := m\<rparr>)" "same_registry w (w\<lparr>lastError := e\<rparr>)" "same_registry w (w\<lparr>vm := v\<rparr>)"
  by (simp_all add: same_registry_def)

lemma plain_undo_block: "same_registry w (undo_block env info tb w)"
  by (simp add: undo_block_def Let_def case_prod_unfold free_block_def same_registry_def)

lemma plain_release_block: "same_registry w (release_block env info tb w)"
  by (simp add: release_block_def Let_def case_prod_unfold free_block_def unpublish_def same_registry_def)

lemma runs_allocateModuleTlsForThread:
  assumes k: "known i w"
  shows "runs env w (snd (allocateModuleTlsForThread env i tib w))"
proof -
  let ?info = "tlsInfo (mod_of w i)"
  have "runs env w (snd (allocateModuleTlsForThread env i tib w))" if b: "new_tls_block env ?info w = Some (b, w1)" for b w1
  proof -
    let ?w2 = "set_tls_info i (?info\<lparr>threadAllocations := (tib, b) # threadAllocations ?info\<rparr>) w1"
    have r: "runs env w w1" by (rule runs_plain [OF plain_new_block [OF b]])
    have "runs env w ?w2" by (rule runs_trans [OF r runs_set_tls_info [OF known_runs [OF r k]]])
    moreover have "runs env ?w2 (snd (allocateModuleTlsForThread env i tib w)) \<or> allocateModuleTlsForThread env i tib w = (True, w)"
      using b by (auto simp: allocateModuleTlsForThread_def Let_def same_registry_def intro!: runs_plain)
    ultimately show ?thesis using runs_trans by auto
  qed
  then show ?thesis
    by (cases "new_tls_block env ?info w") (auto simp: allocateModuleTlsForThread_def Let_def)
qed

lemma runs_freeModuleTlsForThread: "known i w \<Longrightarrow> runs env w (freeModuleTlsForThread env i tib w)"
proof -
  assume k: "known i w"
  let ?info = "tlsInfo (mod_of w i)"
  let ?w1 = "set_tls_info i (?info\<lparr>threadAllocations := filter (\<lambda>p. fst p \<noteq> tib) (threadAllocations ?info)\<rparr>) w"
  have r: "runs env w ?w1" by (rule runs_set_tls_info [OF k])
  have "same_registry ?w1 (if b \<noteq> 0 then free_block b (unpublish env ?info tib b ?w1) else unpublish env ?info tib b ?w1)" for b
    using plain_trans [OF plain_unpublish plain_free_block] plain_unpublish by auto
  from runs_trans [OF r runs_plain [OF this]]
  have "runs env w (if b \<noteq> 0 then free_block b (unpublish env ?info tib b ?w1) else unpublish env ?info tib b ?w1)" for b .
  then show ?thesis by (cases "map_of (threadAllocations ?info) tib") (simp_all add: freeModuleTlsForThread_def Let_def)
qed

lemma runs_runModuleTlsCallbacks: "known i w \<Longrightarrow> runs env w (runModuleTlsCallbacks env i r w)"
  by (auto simp: runModuleTlsCallbacks_def Let_def intro!: runs_fold runs_call_tls)

lemma runs_allocate_for_tibs: "known i w \<Longrightarrow> runs env w (snd (allocate_for_tibs env i tibs w))"
proof (induction tibs arbitrary: w)
  case (Cons t ts)
  obtain ok w1 where a: "allocateModuleTlsForThread env i t w = (ok, w1)" by fastforce
  have r: "runs env w w1" using runs_allocateModuleTlsForThread [OF Cons.prems, of env t] a by simp
  from Cons.IH [OF known_runs [OF r Cons.prems]] r a show ?case by (cases ok) (auto intro: runs_trans)
qed simp

lemma plain_fold: "(\<And>x w. same_registry w (f x w)) \<Longrightarrow> same_registry w (fold f xs w)"
proof (induction xs arbitrary: w)
  case Nil
  then show ?case by (simp add: same_registry_def)
next
  case (Cons x xs)
  from plain_trans [OF Cons.prems [of w x] Cons.IH [OF Cons.prems, of "f x w"]] show ?case by simp
qed

lemma runs_releaseModuleTls:
  assumes k: "known i w"
  shows "runs env w (releaseModuleTls env i w)"
proof (cases "hasTls (tlsInfo (mod_of w i))")
  case False
  then show ?thesis by (simp add: releaseModuleTls_def)
next
  case True
  let ?info = "tlsInfo (mod_of w i)"
  let ?w1 = "fold (release_block env ?info) (threadAllocations ?info) w"
  let ?w2 = "if tls_index ?info \<noteq> kInvalidTlsIndex then ?w1\<lparr>tls := snd (releaseSlot (tls_index ?info) (tls ?w1))\<rparr> else ?w1"
  let ?w3 = "if loaderIndex ?info \<noteq> kInvalidTlsIndex then releaseModuleTlsSlot (loaderIndex ?info) ?w2 else ?w2"
  have p1: "same_registry w ?w1" by (rule plain_fold [OF plain_release_block])
  have p2: "same_registry w ?w2" using p1 by (auto simp: same_registry_def)
  have p3: "same_registry w ?w3" using p2 plain_trans [OF p2 plain_release_slot] by auto
  have r: "runs env w ?w3" by (rule runs_plain [OF p3])
  have "releaseModuleTls env i w = set_tls_info i new_tls_info ?w3" using True by (simp add: releaseModuleTls_def Let_def)
  then show ?thesis using runs_trans [OF r runs_set_tls_info [OF known_runs [OF r k]]] by simp
qed

lemma runs_tls_for_threads:
  assumes k: "known i w"
  shows "runs env w (snd (tls_for_threads env i slot apiIndex info1 w))"
proof -
  let ?w0 = "set_tls_info i (info1\<lparr>tls_index := apiIndex, hasTls := True\<rparr>) w"
  obtain ok w1 where a: "allocate_for_tibs env i (g_activeTibs (tls w)) ?w0 = (ok, w1)" by fastforce
  have r0: "runs env w ?w0" by (rule runs_set_tls_info [OF k])
  from runs_allocate_for_tibs [OF known_runs [OF r0 k]] a have "runs env ?w0 w1" by (metis snd_conv)
  with r0 have r1: "runs env w w1" by (rule runs_trans)
  note k1 = known_runs [OF r1 k]
  show ?thesis
  proof (cases ok)
    case True
    have "runs env w1 ((runModuleTlsCallbacks env i 1 w1)\<lparr>lastError := 0\<rparr>)"
      by (rule runs_trans [OF runs_runModuleTlsCallbacks [OF k1] runs_plain [OF plain_fields(3)]])
    with True a r1 show ?thesis by (simp add: tls_for_threads_def Let_def runs_trans)
  next
    case False
    let ?info = "tlsInfo (mod_of w1 i)"
    let ?w2 = "fold (undo_block env ?info) (threadAllocations ?info) w1"
    let ?w4 = "releaseModuleTlsSlot slot (?w2\<lparr>tls := snd (releaseSlot (tls_index ?info) (tls ?w2))\<rparr>)"
    have "same_registry w1 ?w4"
      by (rule plain_trans [OF plain_trans [OF plain_fold [OF plain_undo_block] plain_fields(1)] plain_release_slot])
    then have r4: "runs env w1 ?w4" by (rule runs_plain)
    let ?w5 = "set_tls_info i (?info\<lparr>threadAllocations := [], tls_index := kInvalidTlsIndex,
                    loaderIndex := kInvalidTlsIndex, hasTls := False\<rparr>) ?w4"
    have r5: "runs env w1 ?w5" by (rule runs_trans [OF r4 runs_set_tls_info [OF known_runs [OF r4 k1]]])
    have "runs env ?w5 ((write_index ?info 0 ?w5)\<lparr>lastError := 8\<rparr>)"
      by (rule runs_plain [OF plain_trans [OF plain_write_index plain_fields(3)]])
    with False a r1 r5 show ?thesis unfolding tls_for_threads_def a Let_def by (auto intro: runs_trans)
  qed
qed

lemma runs_tls_api_slot:
  assumes k: "known i w"
  shows "runs env w (snd (tls_api_slot env i slot info0 w))"
proof -
  let ?info1 = "info0\<lparr>loaderIndex := slot\<rparr>"
  let ?w1 = "write_index ?info1 slot (set_tls_info i ?info1 w)"
  obtain apiIndex s where a: "reserveSlot (gmalloc env) (tls ?w1) = (apiIndex, s)" by fastforce
  let ?w2 = "?w1\<lparr>tls := s\<rparr>"
  have "same_registry (set_tls_info i ?info1 w) ?w2" by (rule plain_trans [OF plain_write_index plain_fields(1)])
  then have r2: "runs env w ?w2" using runs_set_tls_info [OF k] runs_plain runs_trans by blast
  note k2 = known_runs [OF r2 k]
  let ?w3 = "releaseModuleTlsSlot slot ?w2"
  let ?w4 = "set_tls_info i (?info1\<lparr>loaderIndex := kInvalidTlsIndex\<rparr>) ?w3"
  have r3: "runs env ?w2 ?w3" by (rule runs_plain [OF plain_release_slot])
  have "runs env ?w3 ?w4" by (rule runs_set_tls_info [OF known_runs [OF r3 k2]])
  moreover have "runs env ?w4 ((write_index ?info1 0 ?w4)\<lparr>lastError := 8\<rparr>)"
    by (rule runs_plain [OF plain_trans [OF plain_write_index plain_fields(3)]])
  ultimately have "runs env w ((write_index ?info1 0 ?w4)\<lparr>lastError := 8\<rparr>)" using r2 r3 runs_trans by blast
  moreover have "runs env w (snd (tls_for_threads env i slot apiIndex ?info1 ?w2))"
    by (rule runs_trans [OF r2 runs_tls_for_threads [OF k2]])
  ultimately show ?thesis unfolding tls_api_slot_def Let_def a by simp
qed

lemma runs_initializeModuleTls:
  assumes k: "known i w"
  shows "runs env w (snd (initializeModuleTls env i w))"
proof -
  have "runs env w (snd (let info0 = read_tls_info exec (memory w) (tlsInfo (mod_of w i));
                (slot, w1) = allocateModuleTlsSlot i (set_tls_info i info0 w);
                (ok, s) = ensureModulePointerCapacity (gmalloc env) (length (tlsModuleSlots w1)) (tls w1);
                w2 = w1\<lparr>tls := s\<rparr>
            in if \<not> ok then (False, (releaseModuleTlsSlot slot w2)\<lparr>lastError := ERROR_NOT_ENOUGH_MEMORY\<rparr>)
               else tls_api_slot env i slot info0 w2))" for exec
  proof -
    let ?info0 = "read_tls_info exec (memory w) (tlsInfo (mod_of w i))"
    let ?w0 = "set_tls_info i ?info0 w"
    obtain slot w1 where a: "allocateModuleTlsSlot i ?w0 = (slot, w1)" by fastforce
    obtain ok s where e: "ensureModulePointerCapacity (gmalloc env) (length (tlsModuleSlots w1)) (tls w1) = (ok, s)" by fastforce
    have "same_registry ?w0 w1" using plain_allocate_slot [of ?w0 i] a by simp
    then have "same_registry ?w0 (w1\<lparr>tls := s\<rparr>)" by (rule plain_trans) simp
    then have r: "runs env w (w1\<lparr>tls := s\<rparr>)" using runs_set_tls_info [OF k] runs_plain runs_trans by blast
    have "same_registry (w1\<lparr>tls := s\<rparr>) ((releaseModuleTlsSlot slot (w1\<lparr>tls := s\<rparr>))\<lparr>lastError := 8\<rparr>)"
      by (rule plain_trans [OF plain_release_slot plain_fields(3)])
    then have "runs env w ((releaseModuleTlsSlot slot (w1\<lparr>tls := s\<rparr>))\<lparr>lastError := 8\<rparr>)" using r runs_plain runs_trans by blast
    moreover have "runs env w (snd (tls_api_slot env i slot ?info0 (w1\<lparr>tls := s\<rparr>)))"
      by (rule runs_trans [OF r runs_tls_api_slot [OF known_runs [OF r k]]])
    ultimately show ?thesis by (simp add: Let_def a e)
  qed
  then show ?thesis by (cases "executable (mod_of w i)") (simp_all add: initializeModuleTls_def)
qed

subsection \<open>Images\<close>

lemma plain_refl [simp]: "same_registry w w" by (simp add: same_registry_def)

lemma loadPEFromSource_frame: "loadPEFromSource h src exec e w = Some (ok, e', w') \<Longrightarrow> same_registry w w'"
  by (auto simp: loadPEFromSource_def resetExecutableState_def Let_def same_registry_def
      split: option.splits prod.splits bool.splits if_splits)

lemma loadPE_frame:
  "loadPE_file h f exec e w = Some (ok, e', w') \<Longrightarrow> same_registry w w'"
  "loadPE_span h bs exec e w = Some (ok, e', w') \<Longrightarrow> same_registry w w'"
  by (auto simp: loadPE_file_def loadPE_span_def dest: loadPEFromSource_frame split: option.splits if_splits)

lemma plain_destroy: "same_registry w (destroy_executable h e w)"
  by (simp add: destroy_executable_def same_registry_def)

lemma plain_finalize: "finalizeSections h e w = (ok, e', w') \<Longrightarrow> same_registry w w'"
  by (auto simp: finalizeSections_def same_registry_def split: if_splits prod.splits VmStatus.splits)

lemma runs_finalize_module:
  assumes "known i w"
  shows "runs env w (snd (finalize_module env i w))"
proof -
  obtain ok e w' where f: "finalizeSections (host env) (exe_of w i) w = (ok, e, w')" by (metis surj_pair)
  have r: "runs env w w'" by (rule runs_plain [OF plain_finalize [OF f]])
  show ?thesis using runs_trans [OF r runs_set_exe [OF known_runs [OF r assms]]] by (simp add: finalize_module_def f)
qed

lemma runs_set_import_flags: "known i w \<Longrightarrow> runs env w (set_import_flags i a b w)"
  unfolding set_import_flags_def by (rule runs_set_exe)

lemma runs_missing: "resolveMissingFuncName env d f w = Some (a, w') \<Longrightarrow> runs env w w'"
  by (intro runs_step stub)

lemma runs_missing_ordinal: "resolveMissingFuncOrdinal env d k w = Some (a, w') \<Longrightarrow> runs env w w'"
  unfolding resolveMissingFuncOrdinal_def by (rule runs_missing)

lemma runs_export_names: "known i w \<Longrightarrow> runs env w (export_names i exe dir names ordinals ks w)"
proof (induction ks arbitrary: w)
  case (Cons k ks)
  let ?ix = "load16 (memory w) (addp ordinals (2 * k))"
  let ?m = "(mod_of w i)\<lparr>exportNameToOrdinal := (exportNameToOrdinal (mod_of w i))
       (c_string (memory w) (fromRVA exe (load32 (memory w) (addp names (4 * k)))) \<mapsto> ucast (load32 (memory w) (addp dir 16) + ucast ?ix))\<rparr>"
  have r: "runs env w (set_mod i ?m w)" by (rule runs_set_mod [OF Cons.prems]) (simp add: same_life_def)
  from runs_trans [OF r Cons.IH [OF known_runs [OF r Cons.prems]]] Cons.IH [OF Cons.prems] show ?case
    by (simp add: Let_def)
qed simp

lemma runs_registerAlias: "known i w \<Longrightarrow> runs env w (registerAlias a i w)"
  by (auto simp: known_def intro!: runs_step add_alias)

lemma runs_externalAliases:
  assumes k: "known i w"
  shows "runs env w (registerExternalModuleAliases env' n p i w)"
proof -
  let ?w1 = "registerAlias (normalizedBaseKey (parseModuleName n)) i w"
  let ?w2 = "registerAlias (normalizeAlias n) i ?w1"
  note r1 = runs_registerAlias [OF k, of env "normalizedBaseKey (parseModuleName n)"]
  note r2 = runs_registerAlias [OF known_runs [OF r1 k], of env "normalizeAlias n"]
  note r3 = runs_registerAlias [OF known_runs [OF r2 known_runs [OF r1 k]], of env "storageKeyForPath env' p"]
  show ?thesis unfolding registerExternalModuleAliases_def by (rule runs_trans [OF runs_trans [OF r1 r2] r3])
qed

lemma runs_incRef: "known i w \<Longrightarrow> runs env w (incRef i w)"
  by (auto simp: known_def intro!: runs_step more_ref)

lemma runs_callDllMain: "known i w \<Longrightarrow> runs env w (snd (callDllMain env i r w))"
  by (auto simp: known_def intro!: runs_step entry)

section \<open>The calls between modules\<close>

text \<open>What the operations rely on when they load another module or resolve one of its functions.\<close>

locale module_calls =
  fixes env :: Env and ops :: Ops
  assumes load_runs: "ids_ok w \<Longrightarrow> op_load ops name w = Some (r, w') \<Longrightarrow>
      runs env w w' \<and> (\<forall>i. r = Some i \<longrightarrow> i < nextModule w')"
    and name_runs: "ids_ok w \<Longrightarrow> i < nextModule w \<Longrightarrow> op_byName ops i f w = Some (a, w') \<Longrightarrow> runs env w w'"
    and ordinal_runs: "ids_ok w \<Longrightarrow> i < nextModule w \<Longrightarrow> op_byOrdinal ops i k w = Some (a, w') \<Longrightarrow> runs env w w'"
begin

lemma forwarder_target_runs:
  assumes "ids_ok w" "loadForwarderTargetModule ops d w = Some ((t, d'), w')"
  shows "runs env w w' \<and> (\<forall>i. t = Some i \<longrightarrow> i < nextModule w')"
proof -
  obtain t1 w1 where l: "op_load ops d w = Some (t1, w1)" using assms(2) by (auto simp: loadForwarderTargetModule_def split: bind_splits)
  note r = load_runs [OF assms(1) l]
  show ?thesis
  proof (cases "t1 \<noteq> None \<or> d = [] \<or> hd d \<noteq> CHR ''_''")
    case True
    with assms(2) l r show ?thesis by (auto simp: loadForwarderTargetModule_def)
  next
    case False
    with assms(2) l obtain t2 where "op_load ops (tl d) w1 = Some (t2, w')" "t = t2"
      by (auto simp: loadForwarderTargetModule_def split: bind_splits)
    with load_runs [OF runs_ids_ok(1) [OF conjunct1 [OF r] assms(1)]] r show ?thesis by (blast intro: runs_trans)
  qed
qed

lemma forwarded_runs:
  assumes "ids_ok w" "resolveForwardedExport env ops src fwd w = Some (a, w')"
  shows "runs env w w'"
proof (cases "fwd = [] \<or> (case find_first_of (CHR ''.'') fwd of None \<Rightarrow> True | Some sep \<Rightarrow> sep = 0 \<or> sep + 1 \<ge> length fwd)")
  case True
  with assms(2) show ?thesis
    by (auto simp: resolveForwardedExport_def split: option.splits if_splits intro: runs_missing)
next
  case False
  then obtain sep where s: "find_first_of (CHR ''.'') fwd = Some sep" "fwd \<noteq> []" "\<not> (sep = 0 \<or> sep + 1 \<ge> length fwd)"
    by (auto split: option.splits)
  let ?e = "drop (sep + 1) fwd"
  from assms(2) s obtain t d w1 where l: "loadForwarderTargetModule ops (take sep fwd) w = Some ((t, d), w1)"
    by (auto simp: resolveForwardedExport_def Let_def split: bind_splits)
  note r = forwarder_target_runs [OF assms(1) l]
  note i = runs_ids_ok(1) [OF conjunct1 [OF r] assms(1)]
  have "runs env w1 w'"
  proof (cases t)
    case None
    with assms(2) s l show ?thesis by (auto simp: resolveForwardedExport_def Let_def intro: runs_missing)
  next
    case (Some j)
    then have j: "j < nextModule w1" using r by simp
    show ?thesis
    proof (cases "hd ?e = CHR ''#''")
      case True
      obtain k rest where k: "strtoul10 (tl ?e) = (k, rest)" by fastforce
      from assms(2) s l Some True k show ?thesis
        by (auto simp: resolveForwardedExport_def Let_def split: if_splits bind_splits
            intro: runs_trans dest!: ordinal_runs [OF i j] runs_missing)
    next
      case False
      from assms(2) s l Some False show ?thesis
        by (auto simp: resolveForwardedExport_def Let_def split: if_splits bind_splits
            intro: runs_trans dest!: name_runs [OF i j] runs_missing)
    qed
  qed
  with r show ?thesis by (blast intro: runs_trans)
qed

lemma export_functions_runs:
  "known i w \<Longrightarrow> export_functions env ops i exe functions ks w = Some w' \<Longrightarrow> runs env w w'"
proof (induction ks arbitrary: w)
  case Nil
  then show ?case by simp
next
  case (Cons k ks)
  let ?rva = "load32 (memory w) (addp functions (4 * k))"
  have set: "runs env w2 (set_mod i ((mod_of w2 i)\<lparr>exportsByOrdinal := xs\<rparr>) w2)" if "known i w2" for w2 xs
    by (rule runs_set_mod [OF that]) (simp add: same_life_def)
  have go: "runs env w w'" if "runs env w w2"
    "export_functions env ops i exe functions ks (set_mod i ((mod_of w2 i)\<lparr>exportsByOrdinal := xs\<rparr>) w2) = Some w'" for w2 xs
  proof -
    have k2: "known i w2" by (rule known_runs [OF that(1) Cons.prems(1)])
    have "runs env (set_mod i ((mod_of w2 i)\<lparr>exportsByOrdinal := xs\<rparr>) w2) w'"
      by (rule Cons.IH [OF known_runs [OF set [OF k2] k2] that(2)])
    with that(1) set [OF k2] show ?thesis by (meson runs_trans)
  qed
  consider "?rva = 0" | "?rva \<noteq> 0" "?rva \<ge> exportDirectoryRVA exe \<and> ?rva < exportDirectoryRVA exe + exportDirectorySize exe"
    | "?rva \<noteq> 0" "\<not> (?rva \<ge> exportDirectoryRVA exe \<and> ?rva < exportDirectoryRVA exe + exportDirectorySize exe)" by blast
  then show ?case
  proof cases
    case 1
    with Cons show ?thesis by simp
  next
    case 2
    with Cons.prems(2) obtain f w1 where f: "resolveForwardedExport env ops i (c_string (memory w) (fromRVA exe ?rva)) w = Some (f, w1)"
      "export_functions env ops i exe functions ks
        (set_mod i ((mod_of w1 i)\<lparr>exportsByOrdinal := (exportsByOrdinal (mod_of w1 i))[k := f]\<rparr>) w1) = Some w'"
      by (auto simp: Let_def split: bind_splits)
    from go [OF forwarded_runs [OF known_ids [OF Cons.prems(1)] f(1)] f(2)] show ?thesis .
  next
    case 3
    with Cons.prems(2) have "export_functions env ops i exe functions ks
        (set_mod i ((mod_of w i)\<lparr>exportsByOrdinal := (exportsByOrdinal (mod_of w i))[k := fromRVA exe ?rva]\<rparr>) w) = Some w'"
      by (simp add: Let_def)
    from go [OF runs_refl this] show ?thesis .
  qed
qed

lemma exports_runs:
  assumes k: "known i w" and e: "ensureExportsInitialized env ops i w = Some w'"
  shows "runs env w w'"
proof (cases "executable (mod_of w i)")
  case None
  with e show ?thesis by (simp add: ensureExportsInitialized_def)
next
  case (Some exe)
  have fin: "runs env w2 (set_mod i ((mod_of w2 i)\<lparr>exportsInitialized := True\<rparr>) w2)" if "known i w2" for w2
    by (rule runs_set_mod [OF that]) (simp add: same_life_def)
  show ?thesis
  proof (cases "exportsInitialized (mod_of w i) \<or> exportDirectoryRVA exe = 0 \<or> exportDirectorySize exe = 0")
    case True
    with e Some fin [OF k] show ?thesis by (auto simp: ensureExportsInitialized_def split: if_splits)
  next
    case False
    let ?dir = "fromRVA exe (exportDirectoryRVA exe)"
    let ?n = "unat (load32 (memory w) (addp ?dir 20))"
    let ?w1 = "set_mod i ((mod_of w i)\<lparr>exportOrdinalBase := load32 (memory w) (addp ?dir 16), exportsByOrdinal := replicate ?n 0\<rparr>) w"
    from e Some False obtain w2 where f: "export_functions env ops i exe (fromRVA exe (load32 (memory w) (addp ?dir 28))) [0..<?n] ?w1 = Some w2"
      "w' = (let w3 = export_names i exe ?dir (fromRVA exe (load32 (memory w2) (addp ?dir 32)))
         (fromRVA exe (load32 (memory w2) (addp ?dir 36))) [0..<unat (load32 (memory w2) (addp ?dir 24))] w2
         in set_mod i ((mod_of w3 i)\<lparr>exportsInitialized := True\<rparr>) w3)"
      by (auto simp: ensureExportsInitialized_def Let_def split: bind_splits)
    have r1: "runs env w ?w1" by (rule runs_set_mod [OF k]) (simp add: same_life_def)
    have r2: "runs env w w2" by (rule runs_trans [OF r1 export_functions_runs [OF known_runs [OF r1 k] f(1)]])
    note k2 = known_runs [OF r2 k]
    have "runs env w2 w'" unfolding f(2) Let_def
      by (rule runs_trans [OF runs_export_names [OF k2] fin [OF known_runs [OF runs_export_names [OF k2] k2]]])
    with r2 show ?thesis by (rule runs_trans)
  qed
qed

lemma findExportByOrdinal_runs:
  assumes "known i w" "findExportByOrdinal env ops (Some i) k w = Some (a, w')"
  shows "runs env w w'"
  using assms exports_runs [OF assms(1)]
  by (auto simp: findExportByOrdinal_def Let_def split: if_splits bind_splits)

lemma findExportByName_runs:
  assumes "known i w" "findExportByName env ops (Some i) f w = Some (a, w')"
  shows "runs env w w'"
proof -
  consider "w' = w" | w1 where "ensureExportsInitialized env ops i w = Some w1" "w' = w1"
    | w1 k where "ensureExportsInitialized env ops i w = Some w1" "findExportByOrdinal env ops (Some i) k w1 = Some (a, w')"
    using assms(2) by (auto simp: findExportByName_def Let_def split: if_splits bind_splits option.splits)
  then show ?thesis
  proof cases
    case (3 w1 k)
    note r = exports_runs [OF assms(1) 3(1)]
    show ?thesis by (rule runs_trans [OF r findExportByOrdinal_runs [OF known_runs [OF r assms(1)] 3(2)]])
  qed (use exports_runs [OF assms(1)] in auto)
qed

lemma resolveFuncByName_runs:
  assumes "known i w" "resolveFuncByName env ops i f w = Some (a, w')"
  shows "runs env w w'"
proof -
  from assms(2) obtain f1 w1 where f: "findExportByName env ops (Some i) f w = Some (f1, w1)"
    by (auto simp: resolveFuncByName_def split: bind_splits)
  have "runs env w1 w'" using assms(2) f runs_missing by (auto simp: resolveFuncByName_def split: if_splits)
  with findExportByName_runs [OF assms(1) f] show ?thesis by (rule runs_trans)
qed

lemma resolveFuncByOrdinal_runs:
  assumes "known i w" "resolveFuncByOrdinal env ops i k w = Some (a, w')"
  shows "runs env w w'"
proof -
  from assms(2) obtain f1 w1 where f: "findExportByOrdinal env ops (Some i) k w = Some (f1, w1)"
    by (auto simp: resolveFuncByOrdinal_def split: bind_splits)
  have "runs env w1 w'" using assms(2) f runs_missing_ordinal by (auto simp: resolveFuncByOrdinal_def split: if_splits)
  with findExportByOrdinal_runs [OF assms(1) f] show ?thesis by (rule runs_trans)
qed

text \<open>One entry of an import table: the function, by ordinal or by name, of the module or of a stub.\<close>

lemma import_entry_runs:
  assumes "ids_ok w" "\<forall>m. module = Some m \<longrightarrow> m < nextModule w"
    "(if b then (case module of Some m \<Rightarrow> op_byOrdinal ops m k w | None \<Rightarrow> resolveMissingImportByOrdinal env d k w)
      else (case module of Some m \<Rightarrow> op_byName ops m f w | None \<Rightarrow> resolveMissingImportByName env d f w)) = Some (a, w1)"
  shows "runs env w w1"
proof (cases module)
  case None
  with assms(3) show ?thesis using runs_missing runs_missing_ordinal
    by (auto simp: resolveMissingImportByName_def resolveMissingImportByOrdinal_def split: if_splits)
next
  case (Some m)
  with assms show ?thesis using ordinal_runs [OF assms(1)] name_runs [OF assms(1)] by (auto split: if_splits)
qed

lemma import_entries_runs:
  assumes "ids_ok w" "\<forall>m. module = Some m \<longrightarrow> m < nextModule w"
    "import_entries env ops module d exe lt at w = Some w'"
  shows "runs env w w'"
proof -
  have "env = env \<longrightarrow> ops = ops \<longrightarrow> ids_ok w \<longrightarrow> (\<forall>m. module = Some m \<longrightarrow> m < nextModule w) \<longrightarrow> runs env w w'"
  proof (rule import_entries.raw_induct [where P = "\<lambda>env' ops' module d exe lt at w w'. env' = env \<longrightarrow> ops' = ops \<longrightarrow> ids_ok w \<longrightarrow>
       (\<forall>m. module = Some m \<longrightarrow> m < nextModule w) \<longrightarrow> runs env w w'", OF _ assms(3)], goal_cases)
    case (1 rec env' ops' module d exe lt at w w')
    show ?case
    proof (intro impI)
      assume h: "env' = env" "ops' = ops" "ids_ok w" "\<forall>m. module = Some m \<longrightarrow> m < nextModule w"
      show "runs env w w'"
      proof (cases "load32 (memory w) lt = 0")
        case True
        with 1(2) show ?thesis by (simp add: Let_def)
      next
        case False
        from 1(2) [unfolded h(1,2) Let_def] False obtain f w1 where f: "(if load32 (memory w) lt AND 0x80000000 \<noteq> 0 then
             (case module of Some m \<Rightarrow> op_byOrdinal ops m (ucast (load32 (memory w) lt AND 0xFFFF)) w
              | None \<Rightarrow> resolveMissingImportByOrdinal env (c_string (memory w) d) (ucast (load32 (memory w) lt AND 0xFFFF)) w)
           else (case module of Some m \<Rightarrow> op_byName ops m (c_string (memory w) (addp (fromRVA exe (load32 (memory w) lt)) 2)) w
              | None \<Rightarrow> resolveMissingImportByName env (c_string (memory w) d) (c_string (memory w) (addp (fromRVA exe (load32 (memory w) lt)) 2)) w))
           = Some (f, w1)"
          "rec env ops module d exe (addp lt 4) (addp at 4) (w1\<lparr>memory := store32 at (of_nat f) (memory w1)\<rparr>) = Some w'"
          by (auto split: bind_splits)
        let ?w2 = "w1\<lparr>memory := store32 at (of_nat f) (memory w1)\<rparr>"
        have r: "runs env w ?w2" using import_entry_runs [OF h(3,4) f(1)] runs_plain plain_fields(2) runs_trans by blast
        have "\<forall>m. module = Some m \<longrightarrow> m < nextModule ?w2" using h(4) runs_ids_ok(2) [OF r h(3)] by auto
        with 1(1) [OF f(2)] runs_ids_ok(1) [OF r h(3)] have "runs env ?w2 w'" by simp
        with r show ?thesis by (rule runs_trans)
      qed
    qed
  qed
  with assms show ?thesis by blast
qed

lemma import_directory_runs:
  assumes "ids_ok w" "import_directory env ops exe dir w = Some (ok, w')"
  shows "runs env w w'"
proof -
  have "env = env \<longrightarrow> ops = ops \<longrightarrow> ids_ok w \<longrightarrow> runs env w (snd (ok, w'))"
  proof (rule import_directory.raw_induct [where P = "\<lambda>env' ops' exe dir w r. env' = env \<longrightarrow> ops' = ops \<longrightarrow> ids_ok w \<longrightarrow> runs env w (snd r)",
      OF _ assms(2)], goal_cases)
    case (1 rec env' ops' exe dir w r)
    show ?case
    proof (intro impI)
      assume h: "env' = env" "ops' = ops" "ids_ok w"
      let ?n = "load32 (memory w) (addp dir 12)" and ?iat = "load32 (memory w) (addp dir 16)"
      let ?lt = "fromRVA exe (if load32 (memory w) dir \<noteq> 0 then load32 (memory w) dir else ?iat)"
      show "runs env w (snd r)"
      proof (cases "?n = 0")
        case True
        with 1(2) show ?thesis by (auto simp: Let_def)
      next
        case False
        from 1(2) False obtain module w1 where l: "op_load ops (c_string (memory w) (fromRVA exe ?n)) w = Some (module, w1)"
          by (auto simp: Let_def h(1,2) split: bind_splits)
        note rl = load_runs [OF h(3) l]
        note i1 = runs_ids_ok(1) [OF conjunct1 [OF rl] h(3)]
        show ?thesis
        proof (cases "module = None \<and> lastError w1 \<noteq> ERROR_MOD_NOT_FOUND")
          case True
          with 1(2) False l have "r = (False, w1)" by (auto simp: Let_def h(1,2))
          with rl show ?thesis by simp
        next
          case go: False
          from 1(2) False l go obtain w2 where e: "import_entries env ops module (fromRVA exe ?n) exe ?lt (fromRVA exe ?iat) w1 = Some w2"
            "rec env ops exe (addp dir 20) w2 = Some r"
            by (auto simp: Let_def h(1,2) split: bind_splits if_splits)
          have m: "\<forall>m. module = Some m \<longrightarrow> m < nextModule w1" using rl by blast
          note r2 = import_entries_runs [OF i1 m e(1)]
          from 1(1) [OF e(2)] runs_ids_ok(1) [OF r2 i1] have "runs env w2 (snd r)" by simp
          with rl r2 show ?thesis by (meson runs_trans)
        qed
      qed
    qed
  qed
  with assms(1) show ?thesis by simp
qed

lemma resolveImports_runs:
  assumes k: "known i w" and r: "resolveImports env ops i w = Some (ok, w')"
  shows "runs env w w'"
proof -
  let ?e = "exe_of w i"
  have fin: "runs env w2 (snd (finalize_module env i (set_import_flags i a b w2)))" if "known i w2" for w2 a b
    by (rule runs_trans [OF runs_set_import_flags [OF that] runs_finalize_module [OF known_runs [OF runs_set_import_flags [OF that] that]]])
  note rf = runs_set_import_flags [OF k]
  note kf = known_runs [OF rf k]
  consider (done_) "Some (ok, w') = Some (finalize_module env i (set_import_flags i True False w))"
    | (same) "w' = w"
    | (empty) "Some (ok, w') = Some (finalize_module env i (set_import_flags i True False (set_import_flags i (importsResolved ?e) True w)))"
    | (table) ok2 w2 where "import_directory env ops ?e (fromRVA ?e (importDirectoryRVA ?e)) (set_import_flags i (importsResolved ?e) True w) = Some (ok2, w2)"
      "Some (ok, w') = (if \<not> ok2 then Some (False, set_import_flags i False False w2)
          else case finalize_module env i (set_import_flags i True False w2) of
            (True, w3) \<Rightarrow> Some (True, w3)
          | (False, w3) \<Rightarrow> Some (False, set_exe i ((exe_of w3 i)\<lparr>importsResolved := False\<rparr>) w3))"
    using r unfolding resolveImports_def Let_def by (auto split: if_splits bind_splits)
  then show ?thesis
  proof cases
    case done_
    with fin [OF k, of True False] show ?thesis by (metis option.inject snd_conv)
  next
    case same
    then show ?thesis by simp
  next
    case empty
    from runs_trans [OF rf fin [OF kf]] empty show ?thesis by (metis option.inject snd_conv)
  next
    case (table ok2 w2)
    have r2: "runs env w w2" by (rule runs_trans [OF rf import_directory_runs [OF known_ids [OF kf] table(1)]])
    note k2 = known_runs [OF r2 k]
    obtain ok3 w3 where f: "finalize_module env i (set_import_flags i True False w2) = (ok3, w3)" by fastforce
    have r3: "runs env w2 w3" using fin [OF k2, of True False] f by simp
    have "runs env w2 w'"
      using table(2) f r3 runs_set_import_flags [OF k2] runs_trans [OF r3 runs_set_exe [OF known_runs [OF r3 k2]]]
      by (cases ok2; cases ok3) auto
    with r2 show ?thesis by (rule runs_trans)
  qed
qed

lemma start_external_runs:
  assumes k: "known i w" and np: "i \<notin> pinnedModules w" and s: "start_external env ops key i w = Some (err, w')"
  shows "runs env w w'"
proof -
  from s obtain w1 ok w2 where e: "ensureExportsInitialized env ops i w = Some w1" "resolveImports env ops i w1 = Some (ok, w2)"
    by (auto simp: start_external_def split: bind_splits)
  have r2: "runs env w w2"
    by (rule runs_trans [OF exports_runs [OF k e(1)] resolveImports_runs [OF known_runs [OF exports_runs [OF k e(1)] k] e(2)]])
  note k2 = known_runs [OF r2 k]
  have ek: "runs env v (erase_key key v)" for v by (intro runs_step drop_key)
  show ?thesis
  proof (cases ok)
    case False
    with s e have "w' = erase_key key w2" by (simp add: start_external_def)
    with runs_trans [OF r2 ek] show ?thesis by simp
  next
    case True
    obtain ok3 w3 where t: "initializeModuleTls env i w2 = (ok3, w3)" by fastforce
    have r3: "runs env w w3" using runs_trans [OF r2 runs_initializeModuleTls [OF k2]] t by (metis snd_conv)
    note k3 = known_runs [OF r3 k]
    show ?thesis
    proof (cases ok3)
      case False
      with s e True t have "w' = erase_key key w3" by (simp add: start_external_def)
      with runs_trans [OF r3 ek] show ?thesis by simp
    next
      case ok3: True
      obtain ok4 w4 where d: "callDllMain env i DLL_PROCESS_ATTACH w3 = (ok4, w4)" by fastforce
      have r4: "runs env w w4" using runs_trans [OF r3 runs_callDllMain [OF k3]] d by (metis snd_conv)
      note k4 = known_runs [OF r4 k]
      show ?thesis
      proof (cases ok4)
        case True
        with s e \<open>ok\<close> t ok3 d r4 show ?thesis by (simp add: start_external_def)
      next
        case False
        let ?w5 = "releaseModuleTls env i w4"
        have r5: "runs env w ?w5" by (rule runs_trans [OF r4 runs_releaseModuleTls [OF k4]])
        have "i \<notin> pinnedModules ?w5" using np runs_ids_ok(3) [OF r5 known_ids [OF k]] by simp
        then have r6: "runs env ?w5 (erase_aliases i ?w5)" by (intro runs_step drop_aliases)
        have "(erase_aliases i ?w5)\<lparr>pinnedModules := pinnedModules (erase_aliases i ?w5) - {i}\<rparr> = erase_aliases i ?w5"
          using \<open>i \<notin> pinnedModules ?w5\<close> by (simp add: erase_aliases_def)
        with s e \<open>ok\<close> t ok3 d False have w': "w' = (erase_key key (erase_aliases i ?w5))\<lparr>lastError := 1114\<rparr>"
          by (simp add: start_external_def Let_def)
        show ?thesis unfolding w'
          by (rule runs_trans [OF runs_trans [OF runs_trans [OF r5 r6] ek] runs_plain [OF plain_fields(3)]])
      qed
    qed
  qed
qed

lemma tryLoadExternal_runs:
  assumes ids: "ids_ok w" and t: "tryLoadExternal env ops dll path w = Some (r, w')"
  shows "runs env w w' \<and> (\<forall>i. r = Inr i \<longrightarrow> i < nextModule w')"
proof (cases "map_of (modulesByKey w) (storageKeyForPath env path)")
  case (Some i)
  have k: "known i w" using ids map_of_SomeD [OF Some] by (force simp: known_def ids_ok_def)
  from t Some have w': "w' = registerExternalModuleAliases env dll (canonicalPath env path) i (incRef i w)" "r = Inr i"
    by (simp_all add: tryLoadExternal_def)
  have "runs env w w'" unfolding w'
    by (rule runs_trans [OF runs_incRef [OF k] runs_externalAliases [OF known_runs [OF runs_incRef [OF k] k]]])
  then show ?thesis using known_runs [OF _ k] w'(2) by (auto simp: known_def)
next
  case new: None
  show ?thesis
  proof (cases "openFile env path")
    case no: None
    with t new no show ?thesis by (auto simp: tryLoadExternal_def Let_def)
  next
    case (Some fl)
    from t new Some obtain ok e w1 where l: "loadPE_file (host env) (Some fl) True new_executable w = Some (ok, e, w1)"
      by (auto simp: tryLoadExternal_def Let_def split: bind_splits)
    have p1: "same_registry w w1" by (rule loadPE_frame(1) [OF l])
    note r1 = runs_plain [OF p1, of env]
    note i1 = runs_ids_ok(1) [OF r1 ids]
    show ?thesis
    proof (cases ok)
      case False
      with t new Some l have "w' = destroy_executable (host env) e w1" "r = Inl 193" by (auto simp: tryLoadExternal_def Let_def)
      with runs_trans [OF r1 runs_plain [OF plain_destroy]] show ?thesis by simp
    next
      case True
      let ?i = "nextModule w1"
      let ?m = "new_module\<lparr>handle := g_nextStubHandle w1, originalName := dll,
             normalizedName := normalizedBaseKey (parseModuleName dll), resolvedPath := canonicalPath env path, executable := Some e, refCount := 1\<rparr>"
      let ?w2 = "(set_mod ?i ?m w1)\<lparr>nextModule := ?i + 1, g_nextStubHandle := g_nextStubHandle w1 + 1\<rparr>"
      let ?w3 = "registerExternalModuleAliases env dll (canonicalPath env path) ?i (put_key (storageKeyForPath env path) ?i ?w2)"
      have r2: "runs env w ?w2"
        by (rule runs_trans [OF r1 runs_step [OF new_external]]) (simp_all add: new_module_def)
      have k2: "known ?i ?w2" using runs_ids_ok(1) [OF r2 ids] by (simp add: known_def)
      have kn: "map_of (modulesByKey w1) (storageKeyForPath env path) = None" using new p1 by (simp add: same_registry_def)
      have rk: "runs env ?w2 (put_key (storageKeyForPath env path) ?i ?w2)"
        by (intro runs_step key) (simp_all add: kn)
      have r3: "runs env w ?w3"
        by (rule runs_trans [OF r2 runs_trans [OF rk runs_externalAliases [OF known_runs [OF rk k2]]]])
      have k3: "known ?i ?w3" by (rule known_runs [OF runs_trans [OF rk runs_externalAliases [OF known_runs [OF rk k2]]] k2])
      have np: "?i \<notin> pinnedModules ?w3" using runs_ids_ok(3) [OF r3 ids] runs_ids_ok(3) [OF r1 ids] i1 by (auto simp: ids_ok_def)
      show ?thesis
      proof (cases "isDll e")
        case False
        with t new Some l True have "w' = ?w3" "r = Inr ?i" by (auto simp: tryLoadExternal_def Let_def)
        with r3 k3 show ?thesis by (simp add: known_def)
      next
        case dll: True
        from t new Some l True dll obtain err where st: "start_external env ops (storageKeyForPath env path) ?i ?w3 = Some (err, w')"
          "r = (case err of None \<Rightarrow> Inr ?i | Some d \<Rightarrow> Inl d)"
          by (auto simp: tryLoadExternal_def Let_def split: bind_splits option.splits)
        note rs = start_external_runs [OF k3 np st(1)]
        show ?thesis using runs_trans [OF r3 rs] known_runs [OF rs k3] st(2) by (auto simp: known_def split: option.splits)
      qed
    qed
  qed
qed

lemma resolveAndLoadExternal_runs:
  assumes "ids_ok w" "resolveAndLoadExternal env ops dll w = Some (r, w')"
  shows "runs env w w' \<and> (\<forall>i. r = Inr i \<longrightarrow> i < nextModule w')"
  using assms tryLoadExternal_runs by (auto simp: resolveAndLoadExternal_def split: option.splits)

text \<open>Mapping the image of a built-in module the first time it is wanted.\<close>

lemma builtin_image_runs:
  assumes k: "known i w" and l: "(case (moduleStub (mod_of w i), executable (mod_of w i)) of
            (Some stub, None) \<Rightarrow>
              if dllData stub \<noteq> [] then
                do {
                  (ok, e, w1) \<leftarrow> loadPE_span (host env) (dllData stub) True new_executable w;
                  if ok then Some (True, set_exe i e w1) else Some (False, destroy_executable (host env) e w1) }
              else Some (True, w)
          | _ \<Rightarrow> Some (True, w)) = Some (ok, w')"
  shows "runs env w w'"
proof (cases "w' = w")
  case False
  with l obtain stub :: ModuleStub where "loadPE_span (host env) (dllData stub) True new_executable w \<bind>
      (\<lambda>(ok, e, w1). if ok then Some (True, set_exe i e w1) else Some (False, destroy_executable (host env) e w1)) = Some (ok, w')"
    by (auto split: option.splits if_splits)
  then obtain ok2 e w1 where p: "loadPE_span (host env) (dllData stub) True new_executable w = Some (ok2, e, w1)"
    and w': "w' = (if ok2 then set_exe i e w1 else destroy_executable (host env) e w1)"
    by (cases "loadPE_span (host env) (dllData stub) True new_executable w") (auto split: if_splits)
  have r: "runs env w w1" by (rule runs_plain [OF loadPE_frame(2) [OF p]])
  show ?thesis unfolding w'
    using runs_trans [OF r runs_set_exe [OF known_runs [OF r k]]] runs_trans [OF r runs_plain [OF plain_destroy]] by simp
qed simp

lemma ensureModuleReady_runs:
  assumes k: "known i w" and e: "ensureModuleReady env ops i w = Some (ok, w')"
  shows "runs env w w'"
proof -
  from e obtain ok1 w1 where l: "(case (moduleStub (mod_of w i), executable (mod_of w i)) of
            (Some stub, None) \<Rightarrow>
              if dllData stub \<noteq> [] then
                do {
                  (ok, e, w1) \<leftarrow> loadPE_span (host env) (dllData stub) True new_executable w;
                  if ok then Some (True, set_exe i e w1) else Some (False, destroy_executable (host env) e w1) }
              else Some (True, w)
          | _ \<Rightarrow> Some (True, w)) = Some (ok1, w1)" (is "?L = _")
    unfolding ensureModuleReady_def by (cases ?L) auto
  note r1 = builtin_image_runs [OF k l]
  note k1 = known_runs [OF r1 k]
  consider (stop) "w' = w1"
    | (exports) "ensureExportsInitialized env ops i w1 = Some w'"
    | (rest) w2 ok2 w3 where "ensureExportsInitialized env ops i w1 = Some w2" "resolveImports env ops i w2 = Some (ok2, w3)"
        "w' \<in> {w3, snd (initializeModuleTls env i w3), snd (callDllMain env i 1 (snd (initializeModuleTls env i w3))),
               (snd (callDllMain env i 1 (snd (initializeModuleTls env i w3))))\<lparr>lastError := 1114\<rparr>}"
    using e l unfolding ensureModuleReady_def
    by (auto split: if_splits bind_splits prod.splits bool.splits)
  then have "runs env w1 w'"
  proof cases
    case stop
    then show ?thesis by simp
  next
    case exports
    then show ?thesis by (rule exports_runs [OF k1])
  next
    case (rest w2 ok2 w3)
    note r2 = exports_runs [OF k1 rest(1)]
    note r3 = runs_trans [OF r2 resolveImports_runs [OF known_runs [OF r2 k1] rest(2)]]
    note r4 = runs_trans [OF r3 runs_initializeModuleTls [OF known_runs [OF r3 k1]]]
    note r5 = runs_trans [OF r4 runs_callDllMain [OF known_runs [OF r4 k1]]]
    show ?thesis using rest(3) r3 r4 r5 runs_trans [OF r5 runs_plain [OF plain_fields(3)]] by auto
  qed
  with r1 show ?thesis by (rule runs_trans)
qed

lemma ready_builtin_runs:
  assumes "known i w" "ready_builtin env ops i w = Some (r, w')"
  shows "runs env w w' \<and> (\<forall>j. r = Some j \<longrightarrow> j < nextModule w')"
proof -
  from assms(2) obtain ok where e: "ensureModuleReady env ops i w = Some (ok, w')" "r = (if ok then Some i else None)"
    by (auto simp: ready_builtin_def split: bind_splits)
  note run = ensureModuleReady_runs [OF assms(1) e(1)]
  show ?thesis using run known_runs [OF run assms(1)] e(2) by (auto simp: known_def)
qed

text \<open>The search on disk, then a fall-back.\<close>

lemma external_then_runs:
  assumes "ids_ok w" "do { (r, w1) \<leftarrow> resolveAndLoadExternal env ops dll w;
            case r of
              Inr j \<Rightarrow> Some (Some j, w1)
            | Inl d \<Rightarrow> if d \<noteq> 126 then Some (None, w1\<lparr>lastError := d\<rparr>) else fallback w1 } = Some (r', w')"
    and fall: "\<And>w1. runs env w w1 \<Longrightarrow> fallback w1 = Some (r', w') \<Longrightarrow> runs env w1 w' \<and> (\<forall>j. r' = Some j \<longrightarrow> j < nextModule w')"
  shows "runs env w w' \<and> (\<forall>j. r' = Some j \<longrightarrow> j < nextModule w')"
proof -
  from assms(2) obtain r w1 where l: "resolveAndLoadExternal env ops dll w = Some (r, w1)"
    and c: "(case r of Inr j \<Rightarrow> Some (Some j, w1)
            | Inl d \<Rightarrow> if d \<noteq> 126 then Some (None, w1\<lparr>lastError := d\<rparr>) else fallback w1) = Some (r', w')"
    by (auto split: bind_splits)
  note run = resolveAndLoadExternal_runs [OF assms(1) l]
  show ?thesis
  proof (cases r)
    case (Inr j)
    with c run show ?thesis by auto
  next
    case (Inl d)
    show ?thesis
    proof (cases "d = 126")
      case True
      with Inl c have "fallback w1 = Some (r', w')" by simp
      from fall [OF conjunct1 [OF run] this] run show ?thesis using runs_trans by blast
    next
      case False
      with Inl c run runs_trans [OF _ runs_plain [OF plain_fields(3)]] show ?thesis by auto
    qed
  qed
qed

lemma loadModuleInternal_runs:
  assumes ids: "ids_ok w" and l: "loadModuleInternal env ops dll w = Some (r, w')"
  shows "runs env w w' \<and> (\<forall>j. r = Some j \<longrightarrow> j < nextModule w')"
proof -
  define al where "al = normalizedBaseKey (parseModuleName dll)"
  define ex where "ex = (case findByAlias al w of Some i \<Rightarrow> Some i | None \<Rightarrow> findByAlias (normalizeAlias dll) w)"
  note l = l [unfolded loadModuleInternal_def Let_def, folded al_def, folded ex_def]
  show ?thesis
  proof (cases ex)
    case (Some i)
    have "i \<in> ran (modulesByAlias w)" using Some by (auto simp: ex_def findByAlias_def ran_def split: option.splits)
    then have k: "known i w" using ids by (simp add: known_def ids_ok_def)
    consider (own) "\<not> is_builtin w i" | (pinned) "is_builtin w i" "i \<in> pinnedModules w"
      | (disk) "is_builtin w i" "i \<notin> pinnedModules w" by blast
    then show ?thesis
    proof cases
      case own
      with l Some have "r = Some i" "w' = incRef i w" by auto
      with runs_incRef [OF k, of env] known_runs [OF runs_incRef [OF k, of env] k] show ?thesis by (simp add: known_def)
    next
      case pinned
      with l Some have "ready_builtin env ops i w = Some (r, w')" by simp
      then show ?thesis by (rule ready_builtin_runs [OF k])
    next
      case disk
      with l Some have "do { (r, w1) \<leftarrow> resolveAndLoadExternal env ops dll w;
            case r of
              Inr j \<Rightarrow> Some (Some j, w1)
            | Inl d \<Rightarrow> if d \<noteq> 126 then Some (None, w1\<lparr>lastError := d\<rparr>) else ready_builtin env ops i w1 } = Some (r, w')"
        by simp
      then show ?thesis by (rule external_then_runs [OF ids]) (use ready_builtin_runs known_runs [OF _ k] in blast)
    qed
  next
    case None
    show ?thesis
    proof (rule external_then_runs [OF ids l [unfolded None option.case]], goal_cases)
      case (1 w1)
      note i1 = runs_ids_ok(1) [OF 1(1) ids]
      let ?b = "case builtinAliasMap w1 al of Some b \<Rightarrow> Some b | None \<Rightarrow> builtinAliasMap w1 (normalizeAlias dll)"
      have b: "known b w1" if "?b = Some b" for b
        using that i1 by (auto simp: known_def ids_ok_def ran_def split: option.splits)
      show ?case
      proof (cases ?b)
        case none: None
        with 1(2) show ?thesis by (auto intro: runs_plain)
      next
        case (Some b0)
        show ?thesis
        proof (cases "is_builtin w1 b0")
          case True
          with 1(2) Some have "ready_builtin env ops b0 w1 = Some (r, w')" by simp
          then show ?thesis by (rule ready_builtin_runs [OF b [OF Some]])
        next
          case False
          with 1(2) Some show ?thesis by (auto intro: runs_plain)
        qed
      qed
    qed
  qed
qed

lemma loadModule_runs:
  assumes "ids_ok w" "loadModule env ops dll w = Some (r, w')"
  shows "runs env w w' \<and> (\<forall>j. r = Some j \<longrightarrow> j < nextModule w')"
  using assms loadModuleInternal_runs [OF assms(1)] by (auto simp: loadModule_def intro!: runs_plain split: if_splits)

end

text \<open>The entry points keep these laws at every depth.\<close>

lemma module_ops_calls: "module_calls env (module_ops env n)"
proof (induction n)
  case 0
  show ?case by unfold_locales simp_all
next
  case (Suc n)
  show ?case
    by unfold_locales
      (auto simp: known_def dest: module_calls.loadModule_runs [OF Suc] module_calls.resolveFuncByName_runs [OF Suc, rotated]
        module_calls.resolveFuncByOrdinal_runs [OF Suc, rotated])
qed

interpretation mo: module_calls env "module_ops env n" for env n
  by (rule module_ops_calls)

end
