(* ===== verification/Module_Protocol.thy ===== *)
theory Module_Protocol
  imports Module_Steps
begin

text \<open>
  The calls that the rest of the program makes on the registry, in any order, and what holds of every sequence of
  them: the protocol of entry points, the stubs for missing functions, and pinned modules.
\<close>

section \<open>Calls of the registry\<close>

inductive api_step :: "Env \<Rightarrow> MWorld \<Rightarrow> MWorld \<Rightarrow> bool" for env :: Env where
  load: "loadModule env (module_ops env n) name w = Some (r, w') \<Longrightarrow> api_step env w w'"
| by_name: "i < nextModule w \<Longrightarrow> resolveFuncByName env (module_ops env n) i f w = Some (a, w') \<Longrightarrow> api_step env w w'"
| by_ordinal: "i < nextModule w \<Longrightarrow> resolveFuncByOrdinal env (module_ops env n) i k w = Some (a, w') \<Longrightarrow> api_step env w w'"
| resolve_imports: "i < nextModule w \<Longrightarrow> resolveImports env (module_ops env n) i w = Some (ok, w') \<Longrightarrow> api_step env w w'"
| static_data: "i < nextModule w \<Longrightarrow> api_step env w (snd (initializeModuleTls env i w))"
| free: "i < nextModule w \<Longrightarrow> api_step env w (freeModule env i w)"
| thread_attach: "api_step env w (notifyDllThreadAttach env tib w)"
| thread_detach: "api_step env w (notifyDllThreadDetach env tib w)"
| set_directory: "api_step env w (setDllDirectoryOverride env path w)"
| clear_directory: "api_step env w (clearDllDirectoryOverride w)"
| get_executable: "(\<forall>i. moduleInfoFromHandle env hModule w = Some i \<longrightarrow> i < nextModule w) \<Longrightarrow>
    executableFromModule env hModule w = Some (e, w') \<Longrightarrow> api_step env w w'"
| disable: "i < nextModule w \<Longrightarrow> api_step env w (snd (disableThreadNotifications (Some i) w))"

lemma runs_fold_known:
  assumes "\<And>i w. i \<in> set xs \<Longrightarrow> known i w \<Longrightarrow> runs env w (f i w)" "\<forall>i \<in> set xs. known i w"
  shows "runs env w (fold f xs w)"
  using assms
proof (induction xs arbitrary: w)
  case (Cons x xs)
  have r: "runs env w (f x w)" using Cons.prems by simp
  have "runs env (f x w) (fold f xs (f x w))"
    using Cons.prems known_runs [OF r] by (intro Cons.IH) auto
  with r show ?case using runs_trans by auto
qed simp

lemma known_targets: "ids_ok w \<Longrightarrow> \<forall>i \<in> set (notify_targets env w). known i w"
  by (force simp: notify_targets_def ids_ok_def known_def)

lemma notify_runs:
  assumes ids: "ids_ok w"
  shows "runs env w (notifyDllThreadAttach env tib w)" "runs env w (notifyDllThreadDetach env tib w)"
proof -
  have a1: "runs env v (if hasTls (tlsInfo (mod_of v i))
      then runModuleTlsCallbacks env i 2 (snd (allocateModuleTlsForThread env i tib v)) else v)" if "known i v" for i v
    using runs_trans [OF runs_allocateModuleTlsForThread runs_runModuleTlsCallbacks [OF known_runs [OF runs_allocateModuleTlsForThread]]]
      that by auto
  have d1: "runs env v (if hasTls (tlsInfo (mod_of v i)) then runModuleTlsCallbacks env i 3 v else v)" if "known i v" for i v
    using runs_runModuleTlsCallbacks that by auto
  have d3: "runs env v (if hasTls (tlsInfo (mod_of v i)) then freeModuleTlsForThread env i tib v else v)" if "known i v" for i v
    using runs_freeModuleTlsForThread that by auto
  note kn = known_targets [OF ids, of env]
  let ?ts = "notify_targets env w"
  let ?a1 = "fold (\<lambda>i w. if hasTls (tlsInfo (mod_of w i))
      then runModuleTlsCallbacks env i 2 (snd (allocateModuleTlsForThread env i tib w)) else w) ?ts w"
  let ?d1 = "fold (\<lambda>i w. if hasTls (tlsInfo (mod_of w i)) then runModuleTlsCallbacks env i 3 w else w) (rev ?ts) w"
  let ?d2 = "fold (\<lambda>i w. snd (callDllMain env i 3 w)) (rev ?ts) ?d1"
  have r1: "runs env w ?a1" by (rule runs_fold_known [OF a1 kn])
  have r2: "runs env ?a1 (fold (\<lambda>i w. snd (callDllMain env i 2 w)) ?ts ?a1)"
    using kn known_runs [OF r1] by (intro runs_fold_known runs_callDllMain) auto
  show "runs env w (notifyDllThreadAttach env tib w)" unfolding notifyDllThreadAttach_def Let_def
    by (rule runs_trans [OF runs_trans [OF r1 r2] runs_plain [OF plain_fields(3)]])
  have s1: "runs env w ?d1" using kn by (intro runs_fold_known d1) auto
  have s2: "runs env w ?d2"
    using kn known_runs [OF s1] by (intro runs_trans [OF s1] runs_fold_known runs_callDllMain) auto
  have s3: "runs env ?d2 (fold (\<lambda>i w. if hasTls (tlsInfo (mod_of w i)) then freeModuleTlsForThread env i tib w else w) (rev ?ts) ?d2)"
    using kn known_runs [OF s2] by (intro runs_fold_known d3) auto
  show "runs env w (notifyDllThreadDetach env tib w)" unfolding notifyDllThreadDetach_def Let_def
    by (rule runs_trans [OF runs_trans [OF s2 s3] runs_plain [OF plain_fields(3)]])
qed

lemma freeModule_runs:
  assumes k: "known i w"
  shows "runs env w (freeModule env i w)"
proof (cases "refCount (mod_of w i) = UINT_MAX \<or> refCount (mod_of w i) = 0")
  case True
  then show ?thesis by (auto simp: freeModule_def Let_def)
next
  case counted: False
  let ?w1 = "set_mod i ((mod_of w i)\<lparr>refCount := refCount (mod_of w i) - 1\<rparr>) w"
  have r1: "runs env w ?w1" using k counted by (intro runs_step less_ref) (auto simp: known_def)
  have np: "i \<notin> pinnedModules w" using k counted by (auto simp: known_def ids_ok_def)
  show ?thesis
  proof (cases "refCount (mod_of w i) - 1 \<noteq> 0")
    case True
    with counted r1 show ?thesis by (simp add: freeModule_def Let_def)
  next
    case False
    let ?w2 = "runModuleTlsCallbacks env i 0 ?w1"
    let ?w4 = "releaseModuleTls env i (snd (callDllMain env i 0 ?w2))"
    note r2 = runs_trans [OF r1 runs_runModuleTlsCallbacks [OF known_runs [OF r1 k], of env 0]]
    note r3 = runs_trans [OF r2 runs_callDllMain [OF known_runs [OF r2 k], of env 0]]
    note r4 = runs_trans [OF r3 runs_releaseModuleTls [OF known_runs [OF r3 k], of env]]
    have e: "freeModule env i w = erase_aliases i (erase_key (if resolvedPath (mod_of ?w4 i) = [] then normalizedName (mod_of ?w4 i)
        else storageKeyForPath env (resolvedPath (mod_of ?w4 i))) ?w4)"
      using counted False by (simp add: freeModule_def Let_def)
    have np4: "i \<notin> pinnedModules ?w4" using runs_ids_ok(3) [OF r4 known_ids [OF k]] np by simp
    show ?thesis unfolding e
      by (rule runs_trans [OF r4 runs_trans [OF runs_step [OF drop_key] runs_step [OF drop_aliases]]])
        (use np4 in \<open>simp add: erase_key_def\<close>)
  qed
qed

lemma disable_runs: "known i w \<Longrightarrow> runs env w (snd (disableThreadNotifications (Some i) w))"
  by (auto simp: disableThreadNotifications_def same_life_def intro!: runs_set_mod)

lemma directory_runs: "runs env w (setDllDirectoryOverride env path w)" "runs env w (clearDllDirectoryOverride w)"
  by (auto simp: setDllDirectoryOverride_def clearDllDirectoryOverride_def same_registry_def intro!: runs_plain)

lemma executable_runs:
  assumes ids: "ids_ok w" and "\<forall>i. moduleInfoFromHandle env hModule w = Some i \<longrightarrow> i < nextModule w"
    and x: "executableFromModule env hModule w = Some (e, w')"
  shows "runs env w w'"
proof (cases "w' = w")
  case False
  with x obtain i fl ok e1 w1 where i: "moduleInfoFromHandle env hModule w = Some i"
    and l: "loadPE_file (host env) (Some fl) False new_executable w = Some (ok, e1, w1)"
    and w': "w' = (if ok then set_exe i e1 w1 else destroy_executable (host env) e1 w1)"
    by (auto simp: executableFromModule_def split: option.splits if_splits bind_splits)
  have r: "runs env w w1" by (rule runs_plain [OF loadPE_frame(1) [OF l]])
  have k: "known i w" using assms(2) i ids by (simp add: known_def)
  show ?thesis unfolding w'
    using runs_trans [OF r runs_set_exe [OF known_runs [OF r k]]] runs_trans [OF r runs_plain [OF plain_destroy]] by simp
qed simp

text \<open>Every call, at any depth of recursion and on every path, is a run of small steps.\<close>

lemma api_step_runs: "api_step env w w' \<Longrightarrow> ids_ok w \<Longrightarrow> runs env w w'"
proof (induction rule: api_step.induct)
  case (static_data i w)
  then show ?case by (intro runs_initializeModuleTls) (simp add: known_def)
qed (auto simp: known_def dest: mo.loadModule_runs intro: mo.resolveFuncByName_runs mo.resolveFuncByOrdinal_runs
      mo.resolveImports_runs freeModule_runs notify_runs disable_runs directory_runs executable_runs)

definition calls :: "Env \<Rightarrow> MWorld \<Rightarrow> MWorld \<Rightarrow> bool" where
  "calls env = (api_step env)\<^sup>*\<^sup>*"

lemma calls_runs: "calls env w w' \<Longrightarrow> ids_ok w \<Longrightarrow> runs env w w'"
  unfolding calls_def
proof (induction rule: rtranclp_induct)
  case (step v u)
  show ?case by (rule runs_trans [OF step.IH [OF step.prems] api_step_runs [OF step.hyps(2) runs_ids_ok(1) [OF step.IH [OF step.prems] step.prems]]])
qed simp

lemma runs_keep:
  assumes "\<And>v v'. reg_step env v v' \<Longrightarrow> ids_ok v \<Longrightarrow> P v \<Longrightarrow> P v'" "runs env w w'" "ids_ok w" "P w"
  shows "P w'"
proof -
  have "P w' \<and> ids_ok w'" using assms(2-4) unfolding runs_def
    by (induction rule: rtranclp_induct) (use assms(1) ids_ok_step in blast)+
  then show ?thesis ..
qed

text \<open>A module that is not counted stays so.\<close>

lemma uncounted_step:
  "reg_step env w w' \<Longrightarrow> i < nextModule w \<Longrightarrow> refCount (mod_of w i) = UINT_MAX \<Longrightarrow> refCount (mod_of w' i) = UINT_MAX"
proof (induction rule: reg_step.induct)
  case (plain w w')
  then show ?case using mod_of_cong [of w' w] by (simp add: same_registry_def)
next
  case (stub dll func w a w')
  then show ?case using mod_of_cong [OF missing_frame(5) [OF stub(1)]] by simp
next
  case (new_external m w)
  then show ?case by (auto simp: mod_of_def set_mod_def)
next
  case (entry j w reason)
  then show ?case by simp
qed (auto simp: same_life_def incRef_def mod_of_def put_key_def erase_key_def registerAlias_def erase_aliases_def set_mod_def
  split: option.splits)

lemma runs_uncounted:
  assumes "runs env w w'" "known i w"
  shows "refCount (mod_of w i) = UINT_MAX \<longrightarrow> refCount (mod_of w' i) = UINT_MAX"
proof
  assume "refCount (mod_of w i) = UINT_MAX"
  with assms(2) have "i < nextModule w \<and> refCount (mod_of w i) = UINT_MAX" "ids_ok w" by (auto simp: known_def)
  moreover have "i < nextModule v' \<and> refCount (mod_of v' i) = UINT_MAX" if "reg_step env v v'" "ids_ok v"
    "i < nextModule v \<and> refCount (mod_of v i) = UINT_MAX" for v v'
    using uncounted_step [OF that(1)] ids_ok_step [OF that(1,2)] that(3) by auto
  ultimately show "refCount (mod_of w' i) = UINT_MAX"
    using runs_keep [of env "\<lambda>v. i < nextModule v \<and> refCount (mod_of v i) = UINT_MAX", OF _ assms(1)] by blast
qed

section \<open>The start of the program\<close>

text \<open>An empty registry, with the memory, the thread data and the host as they are then.\<close>

definition empty_registry :: "MWorld \<Rightarrow> bool" where
  "empty_registry w \<longleftrightarrow> modules w = (\<lambda>_. None) \<and> nextModule w = 0 \<and> modulesByKey w = [] \<and> modulesByAlias w = (\<lambda>_. None) \<and>
     builtinAliasMap w = (\<lambda>_. None) \<and> pinnedAliases w = {} \<and> pinnedModules w = {} \<and> stubCache w = (\<lambda>_. None) \<and>
     stubNames w = [] \<and> guestCalls w = []"

inductive started :: "Env \<Rightarrow> MWorld \<Rightarrow> bool" for env :: Env where
  empty: "empty_registry w \<Longrightarrow> started env w"
| builtin: "started env w \<Longrightarrow> started env (registerBuiltinModule pin stub w)"
| process: "started env w \<Longrightarrow> registerProcessModule env (module_ops env n) exe path filename name w = Some (i, w') \<Longrightarrow> started env w'"
| call: "started env w \<Longrightarrow> api_step env w w' \<Longrightarrow> started env w'"

text \<open>Steps of the start: adding a module that is never freed, an alias of it, pinning.\<close>

inductive boot_step :: "MWorld \<Rightarrow> MWorld \<Rightarrow> bool" where
  new_module: "refCount m = UINT_MAX \<Longrightarrow> \<not> processAttachCalled m \<Longrightarrow> \<not> processAttachSucceeded m \<Longrightarrow>
    boot_step w (put_key key (nextModule w) ((set_mod (nextModule w) m w)\<lparr>nextModule := nextModule w + 1, g_nextStubHandle := h\<rparr>))"
| pin_module: "i < nextModule w \<Longrightarrow> refCount (mod_of w i) = UINT_MAX \<Longrightarrow> boot_step w (w\<lparr>pinnedModules := insert i (pinnedModules w)\<rparr>)"
| pin_aliases: "boot_step w (w\<lparr>pinnedAliases := pinnedAliases w \<union> A\<rparr>)"
| bind: "i < nextModule w \<Longrightarrow> boot_step w (w\<lparr>builtinAliasMap := (builtinAliasMap w)(a \<mapsto> i)\<rparr>)"

definition boots :: "Env \<Rightarrow> MWorld \<Rightarrow> MWorld \<Rightarrow> bool" where
  "boots env = (sup (reg_step env) boot_step)\<^sup>*\<^sup>*"

lemma boots_refl [simp, intro]: "boots env w w" by (simp add: boots_def)

lemma boots_trans [trans]: "boots env w w' \<Longrightarrow> boots env w' w'' \<Longrightarrow> boots env w w''" by (auto simp: boots_def)

lemma boots_step: "boot_step w w' \<Longrightarrow> boots env w w'" unfolding boots_def by (rule r_into_rtranclp) simp

lemma boots_runs: "runs env w w' \<Longrightarrow> boots env w w'"
  using rtranclp_mono [of "reg_step env" "sup (reg_step env) boot_step"] by (auto simp: boots_def runs_def)

lemma ids_ok_boot: "boot_step w w' \<Longrightarrow> ids_ok w \<Longrightarrow> ids_ok w'"
proof (induction rule: boot_step.induct)
  case (new_module m w key h)
  have "mod_of (put_key key (nextModule w) ((set_mod (nextModule w) m w)\<lparr>nextModule := nextModule w + 1, g_nextStubHandle := h\<rparr>)) =
      mod_of (set_mod (nextModule w) m w)" by (rule mod_of_cong) (simp add: put_key_def)
  with new_module show ?case by (force simp: ids_ok_def put_key_def)
next
  case (pin_module i w)
  have "mod_of (w\<lparr>pinnedModules := A\<rparr>) = mod_of w" for A by (rule mod_of_cong) simp
  with pin_module show ?case by (simp add: ids_ok_def)
next
  case (pin_aliases w A)
  have "mod_of (w\<lparr>pinnedAliases := A\<rparr>) = mod_of w" for A by (rule mod_of_cong) simp
  with pin_aliases show ?case by (simp add: ids_ok_def)
next
  case (bind i w a)
  have "mod_of (w\<lparr>builtinAliasMap := A\<rparr>) = mod_of w" for A by (rule mod_of_cong) simp
  with bind show ?case by (auto simp: ids_ok_def ran_def)
qed

lemma boots_keep:
  assumes "\<And>v v'. reg_step env v v' \<Longrightarrow> ids_ok v \<Longrightarrow> P v \<Longrightarrow> P v'" "\<And>v v'. boot_step v v' \<Longrightarrow> ids_ok v \<Longrightarrow> P v \<Longrightarrow> P v'"
    "boots env w w'" "ids_ok w" "P w"
  shows "P w' \<and> ids_ok w'"
  using assms(3-5) unfolding boots_def
proof (induction rule: rtranclp_induct)
  case (step y z)
  then show ?case using assms(1,2) ids_ok_step ids_ok_boot by (auto simp: sup_fun_def)
qed simp

lemma boots_ids_ok: "boots env w w' \<Longrightarrow> ids_ok w \<Longrightarrow> ids_ok w'"
  using boots_keep [of env "\<lambda>_. True"] by blast

lemma boots_known: "boots env w w' \<Longrightarrow> known i w \<Longrightarrow> known i w'"
proof -
  assume b: "boots env w w'" and k: "known i w"
  have "i < nextModule v'" if "boot_step v v'" "i < nextModule v" for v v'
    using that by (induction rule: boot_step.induct) (auto simp: put_key_def)
  moreover have "i < nextModule v'" if "reg_step env v v'" "ids_ok v" "i < nextModule v" for v v'
    using ids_ok_step [OF that(1,2)] that(3) by simp
  ultimately show ?thesis using boots_keep [of env "\<lambda>v. i < nextModule v", OF _ _ b] k by (simp add: known_def)
qed

lemma builtin_alias_boots:
  assumes "known i w"
  shows "boots env w (builtin_alias pin i a w)"
proof -
  let ?w1 = "if pin then w\<lparr>pinnedAliases := pinnedAliases w \<union> {a}\<rparr> else w"
  have r1: "boots env w ?w1" using boots_step [OF pin_aliases [of w "{a}"]] by simp
  have k1: "known i ?w1" by (rule boots_known [OF r1 assms])
  note r2 = boots_runs [OF runs_registerAlias [OF k1, of env a]]
  have "i < nextModule (registerAlias a i ?w1)" using k1 by (simp add: known_def)
  from boots_step [OF bind [OF this, of a], of env] have "boots env (registerAlias a i ?w1) (builtin_alias pin i a w)"
    by (cases pin) (simp_all add: builtin_alias_def Let_def)
  with boots_trans [OF r1 r2] show ?thesis by (rule boots_trans)
qed

lemma builtin_name_boots: "known i w \<Longrightarrow> boots env w (builtin_name pin i n w)"
  using boots_trans [OF builtin_alias_boots builtin_alias_boots [OF boots_known [OF builtin_alias_boots]]]
  by (auto simp: builtin_name_def Let_def intro: builtin_alias_boots)

lemma builtin_names_boots: "known i w \<Longrightarrow> boots env w (fold (builtin_name pin i) ns w)"
proof (induction ns arbitrary: w)
  case (Cons n ns)
  note r = builtin_name_boots [OF Cons.prems, of env pin n]
  from boots_trans [OF r Cons.IH [OF boots_known [OF r Cons.prems]]] show ?case by simp
qed simp

lemma registerBuiltin_boots:
  assumes ids: "ids_ok w"
  shows "boots env w (registerBuiltinModule pin stub w)"
proof -
  let ?i = "nextModule w"
  let ?n = "case stub_names stub of [] \<Rightarrow> [] | n # _ \<Rightarrow> n"
  let ?m = "new_module\<lparr>handle := g_nextStubHandle w, moduleStub := Some stub, refCount := UINT_MAX,
                originalName := ?n, normalizedName := normalizedBaseKey (parseModuleName ?n)\<rparr>"
  let ?w2 = "put_key (normalizedBaseKey (parseModuleName ?n)) ?i
      ((set_mod ?i ?m w)\<lparr>nextModule := ?i + 1, g_nextStubHandle := g_nextStubHandle w + 1\<rparr>)"
  let ?w3 = "if pin then ?w2\<lparr>pinnedModules := insert ?i (pinnedModules ?w2)\<rparr> else ?w2"
  have r2: "boots env w ?w2" by (rule boots_step, rule new_module) (simp_all add: new_module_def)
  have k2: "known ?i ?w2" using boots_ids_ok [OF r2 ids] by (simp add: known_def put_key_def)
  have "refCount (mod_of ?w2 ?i) = UINT_MAX" by (simp add: mod_of_def set_mod_def put_key_def)
  then have r3: "boots env ?w2 ?w3" using k2 by (auto simp: known_def intro!: boots_step pin_module)
  have e: "registerBuiltinModule pin stub w = fold (builtin_name pin ?i) (stub_names stub) ?w3"
    by (simp add: registerBuiltinModule_def Let_def)
  have "boots env ?w3 (registerBuiltinModule pin stub w)"
    unfolding e by (rule builtin_names_boots [OF boots_known [OF r3 k2]])
  with boots_trans [OF r2 r3] show ?thesis by (rule boots_trans)
qed

lemma registerProcess_boots:
  assumes ids: "ids_ok w" and r: "registerProcessModule env (module_ops env n) exe path filename name w = Some (i, w')"
  shows "boots env w w'"
proof -
  define orig where "orig = (if name = [] \<and> path \<noteq> [] then filename else name)"
  define norm where "norm = normalizedBaseKey (parseModuleName orig)"
  define key where "key = (let key0 = (if path \<noteq> [] then storageKeyForPath env path else norm) in if key0 = [] then normalizeAlias orig else key0)"
  define m where "m = new_module\<lparr>handle := imageBase exe, originalName := orig, normalizedName := norm, resolvedPath := path,
                executable := Some exe, refCount := UINT_MAX\<rparr>"
  define w1 where "w1 = put_key key (nextModule w) ((set_mod (nextModule w) m w)\<lparr>nextModule := nextModule w + 1\<rparr>)"
  define w2 where "w2 = (if path \<noteq> [] then registerExternalModuleAliases env orig path (nextModule w) w1
                else let w' = registerAlias (normalizeAlias orig) (nextModule w) w1 in
                  if norm \<noteq> orig then registerAlias norm (nextModule w) w' else w')"
  from r obtain w3 A where w3: "ensureExportsInitialized env (module_ops env n) (nextModule w) w2 = Some w3"
    and w': "w' = w3\<lparr>pinnedModules := insert (nextModule w) (pinnedModules w3), pinnedAliases := pinnedAliases w3 \<union> A\<rparr>"
    unfolding registerProcessModule_def Let_def orig_def norm_def key_def m_def w1_def w2_def
    by (auto split: bind_splits)
  have m: "refCount m = UINT_MAX" "\<not> processAttachCalled m" "\<not> processAttachSucceeded m" by (simp_all add: m_def new_module_def)
  have "boots env w (put_key key (nextModule w)
      ((set_mod (nextModule w) m w)\<lparr>nextModule := nextModule w + 1, g_nextStubHandle := g_nextStubHandle w\<rparr>))"
    by (rule boots_step [OF new_module [OF m]])
  then have r1: "boots env w w1" by (simp add: w1_def set_mod_def)
  have k1: "known (nextModule w) w1" using boots_ids_ok [OF r1 ids] by (simp add: w1_def known_def put_key_def)
  have a: "runs env v (registerAlias a (nextModule w) v)" if "known (nextModule w) v" for a v by (rule runs_registerAlias [OF that])
  have r2: "runs env w1 w2"
    using runs_externalAliases [OF k1] a [OF k1] runs_trans [OF a [OF k1] a [OF known_runs [OF a [OF k1] k1]]]
    by (auto simp: w2_def Let_def)
  note r3 = runs_trans [OF r2 mo.exports_runs [OF known_runs [OF r2 k1] w3]]
  have "refCount (mod_of w1 (nextModule w)) = UINT_MAX" by (simp add: w1_def mod_of_def set_mod_def put_key_def m)
  then have "refCount (mod_of w3 (nextModule w)) = UINT_MAX" using runs_uncounted [OF r3 k1] by simp
  then have "boots env w3 (w3\<lparr>pinnedModules := insert (nextModule w) (pinnedModules w3)\<rparr>)"
    using known_runs [OF r3 k1] by (intro boots_step pin_module) (auto simp: known_def)
  also have "boots env \<dots> w'" unfolding w' using boots_step [OF pin_aliases [of "w3\<lparr>pinnedModules := insert (nextModule w) (pinnedModules w3)\<rparr>" A]] by simp
  finally show ?thesis by (rule boots_trans [OF boots_trans [OF r1 boots_runs [OF r3]]])
qed

lemma started_boots:
  assumes "started env w"
  shows "\<exists>v. empty_registry v \<and> ids_ok v \<and> boots env v w \<and> ids_ok w"
  using assms
proof (induction rule: started.induct)
  case (empty w)
  then have "ids_ok w" by (simp add: empty_registry_def ids_ok_def)
  with empty show ?case by blast
next
  case (builtin w pin stub)
  then show ?case using boots_trans registerBuiltin_boots boots_ids_ok by meson
next
  case (process w n exe path filename name i w')
  then show ?case using boots_trans registerProcess_boots boots_ids_ok by meson
next
  case (call w w')
  then show ?case using boots_trans boots_runs api_step_runs boots_ids_ok by meson
qed

text \<open>An invariant of the small steps holds whenever the program runs.\<close>

lemma started_keep:
  assumes "\<And>v v'. reg_step env v v' \<Longrightarrow> ids_ok v \<Longrightarrow> P v \<Longrightarrow> P v'" "\<And>v v'. boot_step v v' \<Longrightarrow> ids_ok v \<Longrightarrow> P v \<Longrightarrow> P v'"
    "\<And>v. empty_registry v \<Longrightarrow> P v" "started env w"
  shows "P w"
proof -
  obtain v where v: "empty_registry v" "ids_ok v" "boots env v w" using started_boots [OF assms(4)] by blast
  show ?thesis by (rule conjunct1 [OF boots_keep [of env P, OF _ _ v(3,2) assms(3) [OF v(1)]]]) (use assms(1,2) in blast)+
qed

end
