(* ===== verification/Pe_Relocations.thy ===== *)
theory Pe_Relocations
  imports Pe_Loader
begin

unbundle bit_operations_syntax

text \<open>
  The base relocations of a loaded image: the facts on 32-bit loads and stores in the byte memory, the
  list of places a relocation table names, and that the loop of the loader ends and adds the
  displacement of the image at exactly these places.
\<close>

section \<open>Loads and stores\<close>

lemma u8_low: "unat (ucast (w :: u32) :: u8) = unat w mod 256"
  by (simp add: unsigned_ucast_eq take_bit_eq_mod)

lemma u8_of_u32: "unat (ucast (drop_bit n v :: u32) :: u8) = unat v div 2 ^ n mod 256"
  by (simp only: u8_low unat_drop_bit_eq) (simp only: drop_bit_eq_div)

lemma digits_256:
  assumes "(x :: nat) < 4294967296"
  shows "x mod 256 + 256 * (x div 256 mod 256) + 65536 * (x div 65536 mod 256) + 16777216 * (x div 16777216 mod 256) = x"
proof -
  define a where "a = x div 256"
  define b where "b = a div 256"
  have h: "x div 65536 = b" "x div 16777216 = b div 256" by (simp_all add: b_def a_def div_mult2_eq [symmetric])
  have "b div 256 < 256" using assms by (simp add: b_def a_def div_mult2_eq [symmetric] less_mult_imp_div_less)
  moreover have "x = 256 * a + x mod 256" "a = 256 * b + a mod 256" "b = 256 * (b div 256) + b mod 256"
    by (simp_all add: a_def b_def)
  ultimately show ?thesis unfolding h a_def [symmetric] using mod_less [of "b div 256" 256] by linarith
qed

lemma le32_split: "le32 [ucast v, ucast (drop_bit 8 v), ucast (drop_bit 16 v), ucast (drop_bit 24 v)] 0 = (v :: u32)"
proof -
  have "le32 [a, b, c, d] 0 = of_nat (unat a + 256 * unat b + 65536 * unat c + 16777216 * unat d)" for a b c d
    by (simp add: le32_def)
  moreover have "unat (ucast (drop_bit 8 v) :: u8) = unat v div 256 mod 256"
    "unat (ucast (drop_bit 16 v) :: u8) = unat v div 65536 mod 256"
    "unat (ucast (drop_bit 24 v) :: u8) = unat v div 16777216 mod 256"
    using u8_of_u32 [of 8 v] u8_of_u32 [of 16 v] u8_of_u32 [of 24 v] by simp_all
  ultimately have "le32 [ucast v, ucast (drop_bit 8 v), ucast (drop_bit 16 v), ucast (drop_bit 24 v)] 0 = of_nat (unat v)"
    by (simp only: u8_low digits_256 [OF unat_u32_less])
  then show ?thesis by simp
qed

text \<open>Two words in memory that share no byte, neither reaching around the end of the address space.\<close>

definition apart :: "nat \<Rightarrow> nat \<Rightarrow> bool" where
  "apart a b \<longleftrightarrow> a + 4 \<le> b \<or> b + 4 \<le> a"

lemma store32_eq:
  assumes "a + 4 \<le> 2 ^ 32"
  shows "store32 a v m = m(a := ucast v, a + 1 := ucast (drop_bit 8 v), a + 2 := ucast (drop_bit 16 v), a + 3 := ucast (drop_bit 24 v))"
  using assms by (simp add: store32_def addp_eq)

lemma load32_eq:
  assumes "a + 4 \<le> 2 ^ 32"
  shows "load32 m a = le32 [m a, m (a + 1), m (a + 2), m (a + 3)] 0"
  using assms by (simp add: load32_def addp_eq)

lemma load_store_same [simp]: "a + 4 \<le> 2 ^ 32 \<Longrightarrow> load32 (store32 a v m) a = v"
  by (simp add: store32_eq load32_eq le32_split)

lemma store32_outside: "a + 4 \<le> 2 ^ 32 \<Longrightarrow> x < a \<or> a + 4 \<le> x \<Longrightarrow> store32 a v m x = m x"
  by (auto simp: store32_eq)

lemma load_store_apart:
  "a + 4 \<le> 2 ^ 32 \<Longrightarrow> b + 4 \<le> 2 ^ 32 \<Longrightarrow> apart a b \<Longrightarrow> load32 (store32 a v m) b = load32 m b"
  by (auto simp: load32_eq apart_def store32_outside)

lemma load32_cong: "a + 4 \<le> 2 ^ 32 \<Longrightarrow> (\<And>x. a \<le> x \<Longrightarrow> x < a + 4 \<Longrightarrow> m x = m' x) \<Longrightarrow> load32 m a = load32 m' a"
  by (simp add: load32_eq)

lemma load16_cong: "a + 2 \<le> 2 ^ 32 \<Longrightarrow> (\<And>x. a \<le> x \<Longrightarrow> x < a + 2 \<Longrightarrow> m x = m' x) \<Longrightarrow> load16 m a = load16 m' a"
  by (simp add: load16_def addp_eq)

section \<open>The places of a relocation table\<close>

text \<open>
  What the table between two addresses says, read from one memory: the entries of type
  \<^verbatim>\<open>IMAGE_REL_BASED_HIGHLOW\<close> of its blocks, up to the first block with an impossible size or without entries.
\<close>

definition reloc_target :: "mem \<Rightarrow> nat \<Rightarrow> nat \<Rightarrow> nat \<Rightarrow> nat" where
  "reloc_target m img block i =
     addp (addp img (unat (load32 m block))) (unat (load16 m (block + 8 + 2 * i) AND 0x0FFF))"

definition block_targets :: "mem \<Rightarrow> nat \<Rightarrow> nat \<Rightarrow> nat list \<Rightarrow> nat list" where
  "block_targets m img block is =
     map (reloc_target m img block) (filter (\<lambda>i. drop_bit 12 (load16 m (block + 8 + 2 * i)) = 3) is)"

function fixups :: "mem \<Rightarrow> nat \<Rightarrow> nat \<Rightarrow> nat \<Rightarrow> nat list" where
  "fixups m img cursor e =
     (if cursor < e then
        (let sz = unat (load32 m (cursor + 4)) in
         if sz \<le> 8 \<or> sz > e - cursor then []
         else block_targets m img cursor [0..<(sz - 8) div 2] @ fixups m img (cursor + sz) e)
      else [])"
  by pat_completeness auto
termination by (relation "measure (\<lambda>(m, img, cursor, e). e - cursor)") auto

declare fixups.simps [simp del]

definition fix_word :: "u32 \<Rightarrow> nat \<Rightarrow> mem \<Rightarrow> mem" where
  "fix_word delta t m = store32 t (load32 m t + delta) m"

text \<open>A place clear of the table: patching it changes no byte of the table.\<close>

definition clear_of :: "nat \<Rightarrow> nat \<Rightarrow> nat \<Rightarrow> bool" where
  "clear_of a e t \<longleftrightarrow> t + 4 \<le> 2 ^ 32 \<and> (t + 4 \<le> a \<or> e \<le> t)"

definition same_table :: "nat \<Rightarrow> nat \<Rightarrow> mem \<Rightarrow> mem \<Rightarrow> bool" where
  "same_table a e m m' \<longleftrightarrow> (\<forall>x. a \<le> x \<and> x < e \<longrightarrow> m x = m' x)"

lemma same_table_refl [simp]: "same_table a e m m"
  by (simp add: same_table_def)

lemma same_table_fix: "same_table a e m m' \<Longrightarrow> clear_of a e t \<Longrightarrow> same_table a e m (fix_word delta t m')"
  by (auto simp: same_table_def clear_of_def fix_word_def store32_outside)

lemma same_table_load32: "same_table a e m m' \<Longrightarrow> a \<le> x \<Longrightarrow> x + 4 \<le> e \<Longrightarrow> e < 2 ^ 32 \<Longrightarrow> load32 m' x = load32 m x"
  by (rule load32_cong) (auto simp: same_table_def)

lemma same_table_load16: "same_table a e m m' \<Longrightarrow> a \<le> x \<Longrightarrow> x + 2 \<le> e \<Longrightarrow> e < 2 ^ 32 \<Longrightarrow> load16 m' x = load16 m x"
  by (rule load16_cong) (auto simp: same_table_def)

lemma reloc_entries_eq:
  assumes "e < 2 ^ 32" "a \<le> block" "\<forall>i \<in> set is. block + 10 + 2 * i \<le> e"
    "\<forall>t \<in> set (block_targets m img block is). clear_of a e t" "same_table a e m m'"
  shows "reloc_entries img delta block is m' = fold (fix_word delta) (block_targets m img block is) m' \<and>
    same_table a e m (reloc_entries img delta block is m')"
  using assms(3-5)
proof (induction "is" arbitrary: m')
  case Nil
  then show ?case by (simp add: block_targets_def)
next
  case (Cons i "is")
  have b: "block + 10 + 2 * i \<le> e" using Cons.prems(1) by simp
  have w: "addp block (8 + 2 * i) = block + 8 + 2 * i" using b assms(1) by (simp add: addp_eq)
  have l16: "load16 m' (block + 8 + 2 * i) = load16 m (block + 8 + 2 * i)"
    by (rule same_table_load16 [OF Cons.prems(3) _ _ assms(1)]) (use b assms(2) in auto)
  have l32: "load32 m' block = load32 m block"
    by (rule same_table_load32 [OF Cons.prems(3) assms(2) _ assms(1)]) (use b in auto)
  have tgt: "addp (addp img (unat (load32 m' block))) (unat (load16 m' (addp block (8 + 2 * i)) AND 0x0FFF)) = reloc_target m img block i"
    by (simp only: w l16 l32 reloc_target_def)
  have pr: "\<forall>j \<in> set is. block + 10 + 2 * j \<le> e" "\<forall>t \<in> set (block_targets m img block is). clear_of a e t"
    using Cons.prems(1,2) by (auto simp: block_targets_def)
  show ?case
  proof (cases "drop_bit 12 (load16 m (block + 8 + 2 * i)) = 3")
    case True
    have "clear_of a e (reloc_target m img block i)" using Cons.prems(2) True by (simp add: block_targets_def)
    note ih = Cons.IH [OF pr same_table_fix [OF Cons.prems(3) this, of delta]]
    have e1: "reloc_entries img delta block (i # is) m' = reloc_entries img delta block is (fix_word delta (reloc_target m img block i) m')"
      using True by (simp add: Let_def tgt) (simp add: w l16 fix_word_def)
    have e2: "block_targets m img block (i # is) = reloc_target m img block i # block_targets m img block is"
      using True by (simp add: block_targets_def)
    show ?thesis unfolding e1 e2 fold_simps by (rule ih)
  next
    case False
    have e1: "reloc_entries img delta block (i # is) m' = reloc_entries img delta block is m'"
      using False by (simp add: Let_def w l16)
    have e2: "block_targets m img block (i # is) = block_targets m img block is" using False by (simp add: block_targets_def)
    show ?thesis unfolding e1 e2 by (rule Cons.IH [OF pr Cons.prems(3)])
  qed
qed

lemma same_table_shrink: "same_table a e m m' \<Longrightarrow> a \<le> b \<Longrightarrow> same_table b e m m'"
  by (auto simp: same_table_def)

lemma reloc_loop_stop:
  "\<not> (cursor < e \<and> 8 < unat (load32 m (addp cursor 4)) \<and> unat (load32 m (addp cursor 4)) \<le> e - cursor)
   \<Longrightarrow> reloc_loop img delta cursor e m = Some m"
  by (subst reloc_loop.simps) (auto simp: Let_def)

theorem reloc_loop_eq:
  assumes "e < 2 ^ 32" "a \<le> cursor" "\<forall>t \<in> set (fixups m img cursor e). clear_of a e t" "same_table a e m m'"
  shows "reloc_loop img delta cursor e m' = Some (fold (fix_word delta) (fixups m img cursor e) m')"
  using assms
proof (induction m img cursor e arbitrary: m' rule: fixups.induct)
  case (1 m img cursor e)
  note e = "1.prems"(1)
  let ?sz = "unat (load32 m (cursor + 4))"
  show ?case
  proof (cases "cursor + 8 \<le> e")
    case False
    then have "fixups m img cursor e = []" by (subst fixups.simps) (auto simp: Let_def)
    moreover have "reloc_loop img delta cursor e m' = Some m'" by (rule reloc_loop_stop) (use False in linarith)
    ultimately show ?thesis by simp
  next
    case True
    have w: "addp cursor 4 = cursor + 4" using True e by (simp add: addp_eq)
    have sz: "unat (load32 m'' (addp cursor 4)) = ?sz" if "same_table a e m m''" for m''
      unfolding w using same_table_load32 [OF that _ _ e, of "cursor + 4"] "1.prems"(2) True by simp
    show ?thesis
    proof (cases "?sz \<le> 8 \<or> ?sz > e - cursor")
      case stop: True
      then have "fixups m img cursor e = []" by (subst fixups.simps) (auto simp: Let_def)
      moreover have "reloc_loop img delta cursor e m' = Some m'"
        by (rule reloc_loop_stop) (use stop in \<open>auto simp: sz [OF "1.prems"(4)]\<close>)
      ultimately show ?thesis by simp
    next
      case go: False
      let ?is = "[0..<(?sz - 8) div 2]" let ?m = "reloc_entries img delta cursor ?is m'"
      have fx: "fixups m img cursor e = block_targets m img cursor ?is @ fixups m img (cursor + ?sz) e"
        using go True by (subst fixups.simps) (simp add: Let_def)
      have "\<forall>i \<in> set ?is. cursor + 10 + 2 * i \<le> e" using go True by auto
      note re = reloc_entries_eq [OF e "1.prems"(2) this _ "1.prems"(4)]
      have "\<forall>t \<in> set (block_targets m img cursor ?is). clear_of a e t" using "1.prems"(3) fx by simp
      note m = conjunct1 [OF re [OF this, of delta]] conjunct2 [OF re [OF this, of delta]]
      have nx: "addp cursor (unat (load32 ?m (addp cursor 4))) = cursor + ?sz"
        unfolding sz [OF m(2)] by (rule addp_eq) (use go True e in linarith)
      have "reloc_loop img delta cursor e m' = reloc_loop img delta (cursor + ?sz) e ?m"
        using go True by (subst reloc_loop.simps) (simp add: Let_def sz [OF "1.prems"(4)] nx)
      also have "\<dots> = Some (fold (fix_word delta) (fixups m img (cursor + ?sz) e) ?m)"
        by (rule "1.IH" [OF _ refl]) (use go True "1.prems" fx m(2) in auto)
      finally show ?thesis by (simp add: fx m(1))
    qed
  qed
qed

section \<open>What the relocations change\<close>

fun all_apart :: "nat list \<Rightarrow> bool" where
  "all_apart [] = True"
| "all_apart (t # ts) \<longleftrightarrow> list_all (apart t) ts \<and> all_apart ts"

lemma fold_fix_outside:
  "\<forall>t \<in> set ts. t + 4 \<le> 2 ^ 32 \<and> (x < t \<or> t + 4 \<le> x) \<Longrightarrow> fold (fix_word delta) ts m x = m x"
  by (induction ts arbitrary: m) (auto simp: fix_word_def store32_outside)

lemma fold_fix_load_apart:
  "u + 4 \<le> 2 ^ 32 \<Longrightarrow> \<forall>t \<in> set ts. t + 4 \<le> 2 ^ 32 \<and> apart u t \<Longrightarrow> load32 (fold (fix_word delta) ts m) u = load32 m u"
  by (rule load32_cong) (auto intro!: fold_fix_outside simp: apart_def)

lemma fold_fix_load:
  assumes "all_apart ts" "\<forall>t \<in> set ts. t + 4 \<le> 2 ^ 32" "u \<in> set ts"
  shows "load32 (fold (fix_word delta) ts m) u = load32 m u + delta"
  using assms
proof (induction ts arbitrary: m)
  case Nil
  then show ?case by simp
next
  case (Cons t ts)
  show ?case
  proof (cases "u = t")
    case True
    have "load32 (fold (fix_word delta) ts (fix_word delta t m)) t = load32 (fix_word delta t m) t"
      by (rule fold_fix_load_apart) (use Cons.prems in \<open>auto simp: list_all_iff\<close>)
    moreover have "load32 (fix_word delta t m) t = load32 m t + delta" using Cons.prems by (simp add: fix_word_def)
    ultimately show ?thesis using True by simp
  next
    case False
    then have u: "u \<in> set ts" "apart t u" using Cons.prems by (auto simp: list_all_iff)
    then have "load32 (fix_word delta t m) u = load32 m u"
      using Cons.prems by (simp add: fix_word_def load_store_apart)
    with Cons.IH [of "fix_word delta t m"] Cons.prems u show ?thesis by simp
  qed
qed

end
