(* ===== verification/Pe_Properties.thy ===== *)
theory Pe_Properties
  imports Pe_Relocations Memory_Properties
begin

unbundle bit_operations_syntax

text \<open>
  What loading a PE image achieves: a file and a span with the same bytes load alike, the image in
  memory is what the section table says, the address space is reserved for it alone, and a refused image
  leaves the tables of the virtual memory as they were.
\<close>

section \<open>The input\<close>

lemma view_read_span:
  "view_read (SpanSource bytes) offset n = (if n = 0 \<or> offset + n \<le> length bytes then Some (take n (drop offset bytes)) else None)"
  by (auto simp: view_read_def)

text \<open>
  What the host documents of a regular file with the given contents: \<^verbatim>\<open>fstat\<close> reports its length, every
  position can be sought, and \<^verbatim>\<open>fread\<close> returns a part of what follows, none only at the end of the file.
\<close>

definition regular_file :: "u8 list \<Rightarrow> nat option \<Rightarrow> (nat \<Rightarrow> bool) \<Rightarrow> (nat \<Rightarrow> nat \<Rightarrow> u8 list option) \<Rightarrow> bool" where
  "regular_file bytes sz sk fr \<longleftrightarrow> sz = Some (length bytes) \<and> length bytes \<le> off_max \<and> (\<forall>p. sk p) \<and>
     (\<forall>p n. \<exists>chunk. fr p n = Some chunk \<and> length chunk \<le> n \<and> chunk = take (length chunk) (drop p bytes) \<and>
       (chunk = [] \<longrightarrow> n = 0 \<or> length bytes \<le> p))"

lemma fread_loop_file:
  assumes "regular_file bytes sz sk fr" "offset + n \<le> length bytes" "buffer = take (length buffer) (drop offset bytes)"
    "length buffer \<le> n"
  shows "fread_loop fr offset n buffer = Some (take n (drop offset bytes))"
  using assms
proof (induction fr offset n buffer rule: fread_loop.induct)
  case (1 fr offset n buffer)
  show ?case
  proof (cases "length buffer < n")
    case False
    then show ?thesis using "1.prems"(3,4) by (subst fread_loop.simps) simp
  next
    case True
    obtain chunk where c: "fr (offset + length buffer) (n - length buffer) = Some chunk" "length chunk \<le> n - length buffer"
      "chunk = take (length chunk) (drop (offset + length buffer) bytes)" "chunk = [] \<longrightarrow> n - length buffer = 0 \<or> length bytes \<le> offset + length buffer"
      using "1.prems"(1) unfolding regular_file_def by meson
    have ne: "chunk \<noteq> []" using c(4) True "1.prems"(2) by auto
    have "buffer @ chunk = take (length buffer) (drop offset bytes) @ take (length chunk) (drop (offset + length buffer) bytes)"
      using "1.prems"(3) c(3) by simp
    also have "\<dots> = take (length buffer + length chunk) (drop offset bytes)" by (simp add: take_add add.commute)
    finally have "buffer @ chunk = take (length (buffer @ chunk)) (drop offset bytes)" by (metis length_append)
    from "1.IH" [OF True c(1) ne "1.prems"(1,2) this] c(2) True
    show ?thesis by (subst fread_loop.simps) (simp add: c(1) ne)
  qed
qed

lemma view_read_file:
  assumes "regular_file bytes sz sk fr"
  shows "view_read (FileSource sz sk fr) = view_read (SpanSource bytes)"
proof (intro ext)
  fix offset n
  have *: "sz = Some (length bytes)" "length bytes \<le> off_max" "\<And>p. sk p" using assms by (auto simp: regular_file_def)
  show "view_read (FileSource sz sk fr) offset n = view_read (SpanSource bytes) offset n"
  proof (cases "offset + n \<le> length bytes")
    case True
    with fread_loop_file [OF assms True, of "[]"] * show ?thesis by (simp add: view_read_def)
  next
    case False
    then show ?thesis using * by (auto simp: view_read_def)
  qed
qed

lemma load_sections_view:
  assumes "view_read s1 = view_read s2"
  shows "load_sections h s1 header32 base off is e m = load_sections h s2 header32 base off is e m"
proof -
  have d: "section_data s1 = section_data s2" by (intro ext) (simp add: section_data_def assms)
  have "load_section h s1 = load_section h s2" by (intro ext) (unfold load_section_def assms d, rule refl)
  then show ?thesis by (induction "is" arbitrary: e m) (simp_all split: prod.splits bool.splits)
qed

lemma loadPE_view:
  assumes "view_read s1 = view_read s2" "view_size s1 = view_size s2"
  shows "loadPEFromSource h s1 exec e w = loadPEFromSource h s2 exec e w"
  unfolding loadPEFromSource_def read_pe_header_def read_optional_header_def fill_image_def assms
    load_sections_view [OF assms(1)] ..

text \<open>
  C22: where the bytes come from does not matter: for every way in which \<^verbatim>\<open>fread\<close> may split a regular file
  into chunks, loading the file gives the same result, executable and memory as loading a span with its
  contents.
\<close>

theorem file_loads_like_span:
  assumes "regular_file bytes sz sk fr" "bytes \<noteq> []"
  shows "loadPE_file h (Some (FileSource sz sk fr)) exec e w = loadPE_span h bytes exec e w"
proof -
  have "sz = Some (length bytes)" using assms(1) by (simp add: regular_file_def)
  then have "view_size (FileSource sz sk fr) = view_size (SpanSource bytes)" by simp
  from loadPE_view [OF view_read_file [OF assms(1)] this] assms(2) show ?thesis
    by (simp add: loadPE_file_def loadPE_span_def)
qed

text \<open>A file that hands out one byte at a time.\<close>

theorem file_loads_like_span_witness:
  "\<forall>h (w :: World). loadPE_file h (Some (FileSource (Some 3) (\<lambda>_. True) (\<lambda>p n. Some (take (min n 1) (drop p [0x4D, 0x5A, 0x90]))))) True new_executable w
   = loadPE_span h [0x4D, 0x5A, 0x90] True new_executable w"
  by (intro allI file_loads_like_span) (auto simp: regular_file_def off_max_def min_def)

section \<open>The sections in memory\<close>

text \<open>The byte of the image that a section's raw data defines, and the one the whole table defines: the last section that covers it decides.\<close>

definition raw_byte :: "PeInputView \<Rightarrow> PESectionHeader \<Rightarrow> nat \<Rightarrow> u8 option" where
  "raw_byte src sec k =
     (if has_raw sec \<and> unat (virtualAddress sec) \<le> k \<and> k < unat (virtualAddress sec) + unat (sizeOfRawData sec)
      then map_option (\<lambda>bs. bs ! (k - unat (virtualAddress sec)))
             (view_read src (unat (pointerToRawData sec)) (unat (sizeOfRawData sec)))
      else None)"

fun image_byte :: "PeInputView \<Rightarrow> PESectionHeader list \<Rightarrow> nat \<Rightarrow> u8 \<Rightarrow> u8" where
  "image_byte src [] k b = b"
| "image_byte src (sec # secs) k b = image_byte src secs k (case raw_byte src sec k of Some x \<Rightarrow> x | None \<Rightarrow> b)"

definition section_table :: "PeInputView \<Rightarrow> nat \<Rightarrow> nat list \<Rightarrow> PESectionHeader list" where
  "section_table src off is = map (\<lambda>i. section_header (the (view_read src (off + i * 40) 40))) is"

lemma fread_loop_length: "fread_loop fr offset n buffer = Some bs \<Longrightarrow> length bs = n"
proof (induction fr offset n buffer rule: fread_loop.induct)
  case (1 fr offset n buffer)
  show ?case
    by (use "1.prems" in \<open>subst (asm) fread_loop.simps\<close>) (auto split: if_splits option.splits dest: "1.IH")
qed

lemma view_read_length: "view_read src offset n = Some bs \<Longrightarrow> length bs = n"
  by (cases src) (auto simp: view_read_def fread_loop_length split: if_splits option.splits)

definition section_fits :: "PE32Header \<Rightarrow> PESectionHeader \<Rightarrow> bool" where
  "section_fits header32 sec \<longleftrightarrow> unat (virtualAddress sec) + unat (virtualSize sec) \<le> unat (sizeOfImage header32) \<and>
     (has_raw sec \<longrightarrow> unat (virtualAddress sec) + unat (sizeOfRawData sec) \<le> unat (sizeOfImage header32))"

lemma section_data_Some:
  assumes "section_data src header32 sec = Some raw"
  shows "section_fits header32 sec" and "has_raw sec \<Longrightarrow> length raw = unat (sizeOfRawData sec) \<and>
      view_read src (unat (pointerToRawData sec)) (unat (sizeOfRawData sec)) = Some raw" and "\<not> has_raw sec \<Longrightarrow> raw = []"
  using assms view_read_length by (auto simp: section_data_def section_fits_def split: if_splits)

text \<open>Only the resource fields and the list of sections change while sections are read.\<close>

definition same_but_sections :: "Executable \<Rightarrow> Executable \<Rightarrow> bool" where
  "same_but_sections e e' \<longleftrightarrow> e' = e\<lparr>rsrcBase := rsrcBase e', rsrcSize := rsrcSize e', sections := sections e'\<rparr>"

lemma same_but_sections_core:
  assumes "same_but_sections e e'"
  shows "imageBase e' = imageBase e" "relocationDelta e' = relocationDelta e" "execMapped e' = execMapped e"
    "relocationDirectoryRVA e' = relocationDirectoryRVA e" "relocationDirectorySize e' = relocationDirectorySize e"
    "imageSize e' = imageSize e" "preferredImageBase e' = preferredImageBase e"
  using assms unfolding same_but_sections_def by (cases e, cases e', simp)+

lemma load_section_True:
  assumes "load_section h src header32 base off e m = (True, e', m')" "base + unat (sizeOfImage header32) < 2 ^ 32"
    "section_header (the (view_read src off 40)) = sec"
  shows "section_fits header32 sec" "same_but_sections e e'"
    "k < unat (sizeOfImage header32) \<Longrightarrow> m' (base + k) = (case raw_byte src sec k of Some x \<Rightarrow> x | None \<Rightarrow> m (base + k))"
    "x < base \<or> base + unat (sizeOfImage header32) \<le> x \<Longrightarrow> m' x = m x"
proof -
  from assms obtain raw where r: "section_data src header32 sec = Some raw"
    "m' = mem_write (addp base (unat (virtualAddress sec))) raw m"
    by (auto simp: load_section_def Let_def split: option.splits)
  note sd = section_data_Some [OF r(1)]
  show f: "section_fits header32 sec" by (rule sd(1))
  show "same_but_sections e e'" using assms(1)
    by (auto simp: load_section_def Let_def same_but_sections_def split: option.splits if_splits)
  have a: "addp base (unat (virtualAddress sec)) = base + unat (virtualAddress sec)"
    using f assms(2) by (simp add: section_fits_def addp_eq)
  show "m' (base + k) = (case raw_byte src sec k of Some x \<Rightarrow> x | None \<Rightarrow> m (base + k))" if "k < unat (sizeOfImage header32)"
    unfolding r(2) a by (cases "has_raw sec") (use sd(2,3) in \<open>auto simp: mem_write_def raw_byte_def\<close>)
  show "m' x = m x" if "x < base \<or> base + unat (sizeOfImage header32) \<le> x"
    unfolding r(2) a by (cases "has_raw sec") (use sd(2,3) f that in \<open>auto simp: mem_write_def section_fits_def\<close>)
qed

lemma same_but_sections_trans: "same_but_sections e e' \<Longrightarrow> same_but_sections e' e'' \<Longrightarrow> same_but_sections e e''"
  unfolding same_but_sections_def by (cases e, cases e', cases e'') simp

lemma load_sections_True:
  assumes "load_sections h src header32 base off is e m = (True, e', m')" "base + unat (sizeOfImage header32) < 2 ^ 32"
  shows "list_all (section_fits header32) (section_table src off is) \<and> same_but_sections e e' \<and>
    (\<forall>k < unat (sizeOfImage header32). m' (base + k) = image_byte src (section_table src off is) k (m (base + k))) \<and>
    (\<forall>x. x < base \<or> base + unat (sizeOfImage header32) \<le> x \<longrightarrow> m' x = m x)"
  using assms
proof (induction "is" arbitrary: e m)
  case Nil
  then show ?case by (simp add: section_table_def same_but_sections_def)
next
  case (Cons i "is")
  obtain b e1 m1 where l: "load_section h src header32 base (off + i * 40) e m = (b, e1, m1)" by (metis surj_pair)
  with Cons.prems have b: "b" "load_sections h src header32 base off is e1 m1 = (True, e', m')" by (auto split: bool.splits)
  note s = load_section_True [OF l [unfolded b(1) eq_True [THEN iffD2, OF b(1)]] Cons.prems(2) refl]
  show ?case using Cons.IH [OF b(2) Cons.prems(2)] s same_but_sections_trans by (auto simp: section_table_def)
qed

section \<open>The address space of the image\<close>

lemma image_alloc_eq:
  "imgSize \<noteq> 0 \<Longrightarrow> image_alloc h exec request imgSize s =
     virtualReserve (pageSizeValue h) (h_mmap h) request imgSize False True
       (if exec then PAGE_EXECUTE_READWRITE else PAGE_READWRITE) MEM_IMAGE s"
  by (simp add: image_alloc_def virtualAlloc_def Let_def)

lemma virtualReserve_failed:
  "virtualReserve pg mmap request sz td commit protect type s = ((st, b, l), s') \<Longrightarrow> st \<noteq> Success \<Longrightarrow> s' = s"
  by (auto simp: virtualReserve_def host_call_def Let_def split: sum.splits option.splits if_splits)

lemma virtualReserve_mmap:
  assumes "virtualReserve pg mmap request sz td commit protect type s = ((Success, base, len), s')"
  shows "\<exists>p. mmap base len p = None"
proof -
  from assms obtain b l where p: "reserve_place pg request sz td s = Inr (b, l)"
    by (auto simp: virtualReserve_def reserve_place_def Let_def split: sum.splits if_splits option.splits)
  with assms show ?thesis by (auto simp: virtualReserve_def host_call_def Let_def split: option.splits if_splits)
qed

definition host_ok_for :: "Host \<Rightarrow> bool" where
  "host_ok_for h \<longleftrightarrow> page_size (pageSizeValue h) \<and> host_bounded (h_mmap h)"

lemma map_image_cases:
  assumes "map_image h exec header32 s = (r, s')" "sizeOfImage header32 \<noteq> 0"
  obtains (none) "r = None" "s' = s"
  | (got) request base len where "r = Some base" "request < 2 ^ 32"
    "virtualReserve (pageSizeValue h) (h_mmap h) request (unat (sizeOfImage header32)) False True
       (if exec then PAGE_EXECUTE_READWRITE else PAGE_READWRITE) MEM_IMAGE s = ((Success, base, len), s')"
proof -
  let ?R = "\<lambda>q. virtualReserve (pageSizeValue h) (h_mmap h) q (unat (sizeOfImage header32)) False True
       (if exec then PAGE_EXECUTE_READWRITE else PAGE_READWRITE) MEM_IMAGE"
  have sz: "unat (sizeOfImage header32) \<noteq> 0" using assms(2) by (simp add: unat_eq_0)
  obtain st1 b1 l1 s1 where r1: "?R (unat (h_imageBase header32)) s = ((st1, b1, l1), s1)" by (metis surj_pair)
  obtain st2 b2 l2 s2 where r2: "?R 0 s = ((st2, b2, l2), s2)" by (metis surj_pair)
  have u: "unat (h_imageBase header32) < 2 ^ 32" using unat_u32_less by simp
  show thesis
  proof (cases "st1 = Success")
    case True
    with assms(1) r1 have "r = Some b1" "s' = s1" by (auto simp: map_image_def image_alloc_eq [OF sz])
    with r1 True got [OF _ u] show thesis by simp
  next
    case False
    have s1: "s1 = s" by (rule virtualReserve_failed [OF r1 False])
    have m: "map_image h exec header32 s = (if st2 = Success then (Some b2, s2) else (None, s2))"
      using False r1 r2 s1 by (cases st1; cases st2) (simp_all add: map_image_def image_alloc_eq [OF sz])
    show thesis
    proof (cases "st2 = Success")
      case True
      with assms(1) m r2 got [of b2 0 l2] show thesis by simp
    next
      case f2: False
      with assms(1) m virtualReserve_failed [OF r2 f2] none show thesis by simp
    qed
  qed
qed

lemma map_image_reserved:
  assumes "map_image h exec header32 s = (Some base, s')" "sizeOfImage header32 \<noteq> 0"
    "vm_inv md (pageSizeValue h) s" "host_ok_for h"
  shows "free_range RegionSize (g_mappings s) base (unat (sizeOfImage header32))" "base + unat (sizeOfImage header32) \<le> kTwoGB"
    "vm_inv md (pageSizeValue h) s'"
    "\<exists>r. map_of (g_virtualAllocations s') base = Some r \<and> vtype r = MEM_IMAGE \<and> unat (sizeOfImage header32) \<le> vsize r"
    "base \<noteq> 0 \<Longrightarrow> \<forall>b l. h_munmap h b l PROT_NONE = None \<Longrightarrow>
       virtualFree (pageSizeValue h) (h_munmap h) base 0 MEM_RELEASE s' = (st, s'') \<Longrightarrow>
       g_mappings s'' = g_mappings s \<and> g_virtualAllocations s'' = g_virtualAllocations s"
proof -
  let ?p = "if exec then PAGE_EXECUTE_READWRITE else PAGE_READWRITE" and ?n = "unat (sizeOfImage header32)"
  obtain request len where v: "request < 2 ^ 32" "virtualReserve (pageSizeValue h) (h_mmap h) request ?n False True ?p MEM_IMAGE s
      = ((Success, base, len), s')"
    using map_image_cases [OF assms(1,2)] by (metis option.distinct(1) option.inject)
  have h: "page_size (pageSizeValue h)" "host_bounded (h_mmap h)" using assms(4) by (auto simp: host_ok_for_def)
  have n: "?n < 2 ^ 32" "0 < ?n" using assms(2) unat_u32_less [of "sizeOfImage header32"] by (auto simp: unat_gt_0)
  note r = virtualReserve_Success [OF assms(3) h(1) v(1) n h(2) v(2)]
  then have le: "?n \<le> len" by simp
  show "free_range RegionSize (g_mappings s) base ?n" using r le by (auto simp: free_range_def overlaps_def)
  show "base + ?n \<le> kTwoGB" using r by simp
  show "vm_inv md (pageSizeValue h) s'"
    using inv_virtualReserve [OF assms(3) h(1) v(1) n h(2), of ?p False True MEM_IMAGE] v(2) by (simp add: grants_def)
  show "\<exists>r. map_of (g_virtualAllocations s') base = Some r \<and> vtype r = MEM_IMAGE \<and> ?n \<le> vsize r" using r le by simp
  show "g_mappings s'' = g_mappings s \<and> g_virtualAllocations s'' = g_virtualAllocations s"
    if "base \<noteq> 0" "\<forall>b l. h_munmap h b l PROT_NONE = None"
      "virtualFree (pageSizeValue h) (h_munmap h) base 0 MEM_RELEASE s' = (st, s'')"
    using virtualFree_reserved [OF assms(3) h(1) v(1) n h(2) v(2) that(1) _ that(3)] that(2) by simp
qed

section \<open>A loaded image\<close>

lemma relocate_cong:
  "same_but_sections e e' \<Longrightarrow> relocate (e'\<lparr>sections := ss, entryPoint := ep\<rparr>) m = relocate e m"
  "same_but_sections e e' \<Longrightarrow> relocate (e'\<lparr>sections := ss\<rparr>) m = relocate e m"
  by (simp_all add: relocate_def fromRVA_def same_but_sections_core)

abbreviation (input) sections_offset :: "u32 \<Rightarrow> PEHeader \<Rightarrow> nat" where
  "sections_offset offsetToPE header \<equiv> unat offsetToPE + sizeof_PEHeader + unat (sizeOfOptionalHeader header)"

text \<open>The executable right after its image was reserved, and the result of a load as the steps of the code.\<close>

definition reserved_executable :: "Host \<Rightarrow> bool \<Rightarrow> Executable \<Rightarrow> PEHeader \<Rightarrow> PE32Header \<Rightarrow> nat \<Rightarrow> Executable" where
  "reserved_executable h exec e header header32 base =
     (set_directories header32 exec (new_executable\<lparr>isDll := (characteristics header AND IMAGE_FILE_DLL \<noteq> 0)\<rparr>))
       \<lparr>imageBase := base, relocationDelta := of_nat base - h_imageBase header32, sections := header_section h header32 base\<rparr>"

lemma fill_image_cases:
  assumes "fill_image h src offsetToPE header header32 e m = Some (ok, e', m')"
  obtains (table) "\<not> ok" "e' = e" "m' = m"
  | (sections) "\<not> ok" "load_sections h src header32 (imageBase e) (sections_offset offsetToPE header)
       [0..<unat (numberOfSections header)] e m = (False, e', m')"
  | (filled) e4 m4 where "load_sections h src header32 (imageBase e) (sections_offset offsetToPE header)
       [0..<unat (numberOfSections header)] e m = (True, e4, m4)"
      "relocate (e4\<lparr>sections := sort_key s_base (sections e4)\<rparr>) m4 = Some (ok, m')"
      "e' = e4\<lparr>sections := sort_key s_base (sections e4), entryPoint := entryPoint e'\<rparr>"
proof -
  obtain b e4 m4 where l: "load_sections h src header32 (imageBase e) (sections_offset offsetToPE header)
       [0..<unat (numberOfSections header)] e m = (b, e4, m4)" by (metis surj_pair)
  let ?t = "case view_size src of Some totalSize \<Rightarrow> sections_offset offsetToPE header > totalSize
      \<or> unat (numberOfSections header) * 40 > totalSize - sections_offset offsetToPE header | None \<Rightarrow> False"
  let ?e = "e4\<lparr>sections := sort_key s_base (sections e4)\<rparr>"
  consider "?t" | "\<not> ?t" "\<not> b" | "\<not> ?t" "b" by blast
  then show thesis
  proof cases
    case 1
    with assms table show thesis by (simp add: fill_image_def Let_def)
  next
    case 2
    then have "fill_image h src offsetToPE header header32 e m = Some (False, e4, m4)"
      unfolding fill_image_def Let_def using l by simp
    with assms l 2 sections show thesis by simp
  next
    case 3
    then have f: "fill_image h src offsetToPE header header32 e m = (case relocate ?e m4 of None \<Rightarrow> None
       | Some (False, m'') \<Rightarrow> Some (False, ?e, m'')
       | Some (True, m'') \<Rightarrow> Some (True, ?e\<lparr>entryPoint := if addressOfEntryPoint header32 \<noteq> 0
                   then fromRVA ?e (addressOfEntryPoint header32) else 0\<rparr>, m''))"
      unfolding fill_image_def Let_def using l by simp
    with assms l 3 filled [of e4 m4] show thesis by (auto split: option.splits bool.splits)
  qed
qed

lemma loadPE_True:
  assumes "loadPEFromSource h src exec e w = Some (True, e', w')" "imageBase e = 0"
  obtains offsetToPE header header32 base e4 m4 where
    "read_pe_header src = Some (offsetToPE, header)" "read_optional_header src offsetToPE header = Some header32"
    "map_image h exec header32 (vm w) = (Some base, vm w')" "lastError w' = ERROR_SUCCESS"
    "load_sections h src header32 base (sections_offset offsetToPE header) [0..<unat (numberOfSections header)]
       (reserved_executable h exec e header header32 base) (mem_zero base (unat (sizeOfImage header32)) (memory w)) = (True, e4, m4)"
    "relocate (e4\<lparr>sections := sort_key s_base (sections e4)\<rparr>) m4 = Some (True, memory w')"
    "e' = e4\<lparr>sections := sort_key s_base (sections e4), entryPoint := entryPoint e'\<rparr>"
proof -
  obtain offsetToPE header header32 base s where *:
    "read_pe_header src = Some (offsetToPE, header)" "read_optional_header src offsetToPE header = Some header32"
    "map_image h exec header32 (vm w) = (Some base, s)"
    using assms by (auto simp: loadPEFromSource_def resetExecutableState_def Let_def split: option.splits prod.splits)
  let ?e = "reserved_executable h exec e header header32 base" and ?m = "mem_zero base (unat (sizeOfImage header32)) (memory w)"
  from assms * obtain e5 m5 where f: "fill_image h src offsetToPE header header32 ?e ?m = Some (True, e5, m5)"
    "e' = e5" "w' = w\<lparr>lastError := 0, vm := s, memory := m5\<rparr>"
    by (auto simp: loadPEFromSource_def resetExecutableState_def Let_def reserved_executable_def split: option.splits bool.splits)
  have b: "imageBase ?e = base" by (simp add: reserved_executable_def)
  from f(1) show thesis
    by (rule fill_image_cases) (use * f(2,3) b in \<open>auto intro: that\<close>)
qed

text \<open>
  C3: an image that is loaded is the one its section table describes. The image lies where no mapping
  was, in an allocation of its own that has room for it; every section lies inside the image; each byte of
  the image is the byte of the last section whose raw data covers it, and zero elsewhere; no byte outside the
  image changes; and the memory the caller gets is this image after the base relocations for the distance
  between the preferred and the actual base.
\<close>

theorem pe_image_loaded:
  assumes "loadPEFromSource h src exec e w = Some (True, e', w')" "imageBase e = 0"
    "vm_inv md (pageSizeValue h) (vm w)" "host_ok_for h"
  shows "\<exists>offsetToPE header header32 m. read_pe_header src = Some (offsetToPE, header) \<and>
    read_optional_header src offsetToPE header = Some header32 \<and>
    (let n = unat (sizeOfImage header32); base = imageBase e';
         secs = section_table src (unat offsetToPE + 24 + unat (sizeOfOptionalHeader header)) [0..<unat (numberOfSections header)] in
     imageSize e' = n \<and> relocationDelta e' = of_nat base - h_imageBase header32 \<and> execMapped e' = exec \<and>
     free_range RegionSize (g_mappings (vm w)) base n \<and> base + n \<le> kTwoGB \<and> vm_inv md (pageSizeValue h) (vm w') \<and>
     (\<exists>r. map_of (g_virtualAllocations (vm w')) base = Some r \<and> vtype r = MEM_IMAGE \<and> n \<le> vsize r) \<and>
     list_all (section_fits header32) secs \<and>
     (\<forall>k < n. m (base + k) = image_byte src secs k 0) \<and>
     (\<forall>x. x < base \<or> base + n \<le> x \<longrightarrow> m x = memory w x) \<and>
     relocate e' m = Some (True, memory w') \<and> lastError w' = ERROR_SUCCESS)"
proof -
  from assms(1,2) obtain offsetToPE header header32 base e4 m4 where *:
    "read_pe_header src = Some (offsetToPE, header)" "read_optional_header src offsetToPE header = Some header32"
    "map_image h exec header32 (vm w) = (Some base, vm w')" "lastError w' = ERROR_SUCCESS"
    "load_sections h src header32 base (sections_offset offsetToPE header) [0..<unat (numberOfSections header)]
       (reserved_executable h exec e header header32 base) (mem_zero base (unat (sizeOfImage header32)) (memory w)) = (True, e4, m4)"
    "relocate (e4\<lparr>sections := sort_key s_base (sections e4)\<rparr>) m4 = Some (True, memory w')"
    "e' = e4\<lparr>sections := sort_key s_base (sections e4), entryPoint := entryPoint e'\<rparr>"
    by (rule loadPE_True)
  have nz: "sizeOfImage header32 \<noteq> 0" using *(2)
    by (auto simp: read_optional_header_def Let_def split: if_splits bind_splits)
  note r = map_image_reserved [OF *(3) nz assms(3,4)]
  have "base + unat (sizeOfImage header32) < 2 ^ 32" using r(2) by (simp add: kTwoGB_def)
  note l = load_sections_True [OF *(5) this]
  have sb: "same_but_sections (reserved_executable h exec e header header32 base) e4" using l by simp
  note core = same_but_sections_core [OF sb]
  have e': "imageBase e' = base" "imageSize e' = unat (sizeOfImage header32)" "execMapped e' = exec"
    "relocationDelta e' = of_nat base - h_imageBase header32"
    using core by (subst *(7), simp add: reserved_executable_def set_directories_def)+
  have "relocate e' m4 = Some (True, memory w')"
    using *(6) relocate_cong [OF sb] by (subst *(7)) simp
  moreover have "m4 (base + k) = image_byte src (section_table src (sections_offset offsetToPE header) [0..<unat (numberOfSections header)]) k 0"
    if "k < unat (sizeOfImage header32)" for k using l that by (simp add: mem_zero_def)
  moreover have "m4 x = memory w x" if "x < base \<or> base + unat (sizeOfImage header32) \<le> x" for x
    using l that by (auto simp: mem_zero_def)
  ultimately show ?thesis using *(1,2,4) r l e'
    by (intro exI [of _ offsetToPE] exI [of _ header] exI [of _ header32] exI [of _ m4]) (simp add: Let_def)
qed

text \<open>
  C4: the relocation loop ends and does what the table says. If the table lies inside the address
  space and its entries name places outside the table that do not overlap, the loop returns, the word at every
  place grows by the distance the image was moved, and no other byte of memory changes. (The loop reads
  the block headers from the memory it patches; a table that names itself may send it anywhere.)
\<close>

theorem relocation_correct:
  assumes "execMapped e" "relocationDelta e \<noteq> 0" "relocationDirectoryRVA e \<noteq> 0" "relocationDirectorySize e \<noteq> 0"
    "fromRVA e (relocationDirectoryRVA e) + unat (relocationDirectorySize e) < 2 ^ 32"
    "ts = fixups m (imageBase e) (fromRVA e (relocationDirectoryRVA e))
       (fromRVA e (relocationDirectoryRVA e) + unat (relocationDirectorySize e))"
    "\<forall>t \<in> set ts. clear_of (fromRVA e (relocationDirectoryRVA e))
       (fromRVA e (relocationDirectoryRVA e) + unat (relocationDirectorySize e)) t"
    "all_apart ts"
  shows "\<exists>m'. relocate e m = Some (True, m') \<and>
    (\<forall>t \<in> set ts. load32 m' t = load32 m t + relocationDelta e) \<and>
    (\<forall>x. (\<forall>t \<in> set ts. x < t \<or> t + 4 \<le> x) \<longrightarrow> m' x = m x)"
proof -
  let ?a = "fromRVA e (relocationDirectoryRVA e)"
  let ?z = "?a + unat (relocationDirectorySize e)"
  have "reloc_loop (imageBase e) (relocationDelta e) ?a ?z m = Some (fold (fix_word (relocationDelta e)) ts m)"
    unfolding assms(6) by (rule reloc_loop_eq [OF assms(5), of ?a]) (use assms(6,7) in auto)
  then have "relocate e m = Some (True, fold (fix_word (relocationDelta e)) ts m)"
    using assms(1-5) by (simp add: relocate_def Let_def addp_eq)
  moreover have b: "\<forall>t \<in> set ts. t + 4 \<le> 2 ^ 32" using assms(7) by (auto simp: clear_of_def)
  have "\<forall>t \<in> set ts. load32 (fold (fix_word (relocationDelta e)) ts m) t = load32 m t + relocationDelta e"
    using fold_fix_load [OF assms(8) b] by simp
  moreover have "fold (fix_word (relocationDelta e)) ts m x = m x" if "\<forall>t \<in> set ts. x < t \<or> t + 4 \<le> x" for x
    by (rule fold_fix_outside) (use b that in simp)
  ultimately show ?thesis by (intro exI conjI) auto
qed

section \<open>A refused image\<close>

lemma load_section_outside:
  assumes "load_section h src header32 base off e m = (ok, e', m')" "base + unat (sizeOfImage header32) < 2 ^ 32"
  shows "same_but_sections e e' \<and> (\<forall>x. x < base \<or> base + unat (sizeOfImage header32) \<le> x \<longrightarrow> m' x = m x)"
proof (cases "m' = m")
  case True
  then show ?thesis using assms(1)
    by (auto simp: load_section_def Let_def same_but_sections_def split: option.splits if_splits)
next
  case False
  then obtain bs raw where r: "section_data src header32 (section_header bs) = Some raw"
    "m' = mem_write (addp base (unat (virtualAddress (section_header bs)))) raw m"
    using assms(1) by (auto simp: load_section_def Let_def split: option.splits if_splits)
  let ?sec = "section_header bs"
  note sd = section_data_Some [OF r(1)]
  have "addp base (unat (virtualAddress ?sec)) = base + unat (virtualAddress ?sec)"
    using sd(1) assms(2) by (simp add: section_fits_def addp_eq)
  moreover have "unat (virtualAddress ?sec) + length raw \<le> unat (sizeOfImage header32) \<or> raw = []"
    using sd by (cases "has_raw ?sec") (auto simp: section_fits_def)
  moreover have "same_but_sections e e'" using assms(1)
    by (auto simp: load_section_def Let_def same_but_sections_def split: option.splits if_splits)
  ultimately show ?thesis using r(2) by (auto simp: mem_write_def)
qed

lemma load_sections_outside:
  assumes "load_sections h src header32 base off is e m = (ok, e', m')" "base + unat (sizeOfImage header32) < 2 ^ 32"
  shows "same_but_sections e e' \<and> (\<forall>x. x < base \<or> base + unat (sizeOfImage header32) \<le> x \<longrightarrow> m' x = m x)"
  using assms
proof (induction "is" arbitrary: e m)
  case Nil
  then show ?case by (simp add: same_but_sections_def)
next
  case (Cons i "is")
  obtain b e1 m1 where l: "load_section h src header32 base (off + i * 40) e m = (b, e1, m1)" by (metis surj_pair)
  note o = load_section_outside [OF l Cons.prems(2)]
  show ?case
  proof (cases b)
    case True
    with l Cons.prems(1) have "load_sections h src header32 base off is e1 m1 = (ok, e', m')" by simp
    from Cons.IH [OF this Cons.prems(2)] o same_but_sections_trans show ?thesis by auto
  next
    case False
    with l Cons.prems(1) o show ?thesis by auto
  qed
qed

lemma loadPE_False:
  assumes "loadPEFromSource h src exec e w = Some (False, e', w')" "imageBase e = 0"
  obtains (headers) "vm w' = vm w" "memory w' = memory w" "imageBase e' = 0" "lastError w' = ERROR_BAD_EXE_FORMAT"
  | (image) offsetToPE header header32 base s where "read_pe_header src = Some (offsetToPE, header)"
    "read_optional_header src offsetToPE header = Some header32" "map_image h exec header32 (vm w) = (Some base, s)"
    "fill_image h src offsetToPE header header32 (reserved_executable h exec e header header32 base)
       (mem_zero base (unat (sizeOfImage header32)) (memory w)) = Some (False, e', memory w')"
    "vm w' = snd (virtualFree (pageSizeValue h) (h_munmap h) base 0 MEM_RELEASE s)" "lastError w' = ERROR_BAD_EXE_FORMAT"
proof -
  note d = loadPEFromSource_def resetExecutableState_def Let_def new_executable_def set_directories_def
  show thesis
  proof (cases "read_pe_header src")
    case None
    with assms show thesis by (intro headers) (auto simp: d)
  next
    case (Some x)
    then obtain offsetToPE header where p: "read_pe_header src = Some (offsetToPE, header)" by (metis surj_pair)
    show thesis
    proof (cases "read_optional_header src offsetToPE header")
      case None
      with assms p show thesis by (intro headers) (auto simp: d)
    next
      case o: (Some header32)
      obtain r s where m: "map_image h exec header32 (vm w) = (r, s)" by (metis surj_pair)
      have nz: "sizeOfImage header32 \<noteq> 0" using o
        by (auto simp: read_optional_header_def Let_def split: if_splits bind_splits)
      show thesis
      proof (cases r)
        case None
        with map_image_cases [OF m nz] have "s = vm w" by blast
        with None assms p o m show thesis by (intro headers) (auto simp: d)
      next
        case (Some base)
        from assms p o m Some show thesis
          by (intro image [of offsetToPE header header32 base s])
            (auto simp: loadPEFromSource_def resetExecutableState_def Let_def reserved_executable_def split: option.splits bool.splits)
      qed
    qed
  qed
qed

text \<open>
  C21: a refused image leaves nothing behind: the call reports \<^verbatim>\<open>ERROR_BAD_EXE_FORMAT\<close>, both tables of
  the virtual memory are those from before the call, and no byte of memory that was mapped has changed, at
  whatever check the image failed. The host is assumed to refuse a mapping at address zero and to accept
  the release of a range.
\<close>

theorem refused_image_undone:
  assumes "loadPEFromSource h src exec e w = Some (False, e', w')" "imageBase e = 0"
    "vm_inv md (pageSizeValue h) (vm w)" "host_ok_for h"
    "\<forall>l p. h_mmap h 0 l p \<noteq> None" "\<forall>b l. h_munmap h b l PROT_NONE = None"
  shows "lastError w' = ERROR_BAD_EXE_FORMAT \<and> g_mappings (vm w') = g_mappings (vm w) \<and>
    g_virtualAllocations (vm w') = g_virtualAllocations (vm w) \<and>
    (\<forall>a i x. (a, i) \<in> set (g_mappings (vm w)) \<and> a \<le> x \<and> x < a + RegionSize i \<longrightarrow> memory w' x = memory w x)"
  using assms(1,2)
proof (cases rule: loadPE_False)
  case headers
  then show ?thesis by simp
next
  case (image offsetToPE header header32 base s)
  have nz: "sizeOfImage header32 \<noteq> 0" using image(2)
    by (auto simp: read_optional_header_def Let_def split: if_splits bind_splits)
  note r = map_image_reserved [OF image(3) nz assms(3,4)]
  have b0: "base \<noteq> 0"
  proof
    assume "base = 0"
    with map_image_cases [OF image(3) nz] obtain q len where
      "virtualReserve (pageSizeValue h) (h_mmap h) q (unat (sizeOfImage header32)) False True
       (if exec then PAGE_EXECUTE_READWRITE else PAGE_READWRITE) MEM_IMAGE (vm w) = ((Success, 0, len), s)"
      by (metis option.distinct(1) option.inject)
    from virtualReserve_mmap [OF this] assms(5) show False by blast
  qed
  have lt: "base + unat (sizeOfImage header32) < 2 ^ 32" using r(2) by (simp add: kTwoGB_def)
  have out: "memory w' x = memory w x" if "x < base \<or> base + unat (sizeOfImage header32) \<le> x" for x
  proof -
    have ib: "imageBase (reserved_executable h exec e header header32 base) = base" by (simp add: reserved_executable_def)
    have z: "mem_zero base (unat (sizeOfImage header32)) (memory w) x = memory w x" using that by (auto simp: mem_zero_def)
    from image(4) show ?thesis
    proof (cases rule: fill_image_cases)
      case table
      with z show ?thesis by simp
    next
      case sections
      from load_sections_outside [OF sections(2) [unfolded ib] lt] that z show ?thesis by auto
    next
      case (filled e4 m4)
      from filled(2) have "memory w' = m4" by (auto simp: relocate_def Let_def split: if_splits)
      with load_sections_outside [OF filled(1) [unfolded ib] lt] that z show ?thesis by auto
    qed
  qed
  have "memory w' x = memory w x" if "(a, i) \<in> set (g_mappings (vm w))" "a \<le> x" "x < a + RegionSize i" for a i x
  proof (rule out)
    have "\<not> overlaps a (RegionSize i) base (unat (sizeOfImage header32))" using r(1) that(1) by (auto simp: free_range_def)
    then show "x < base \<or> base + unat (sizeOfImage header32) \<le> x" using that(2,3) by (auto simp: overlaps_def)
  qed
  moreover obtain st s'' where "virtualFree (pageSizeValue h) (h_munmap h) base 0 MEM_RELEASE s = (st, s'')" by (metis surj_pair)
  then have "g_mappings (vm w') = g_mappings (vm w) \<and> g_virtualAllocations (vm w') = g_virtualAllocations (vm w)"
    unfolding image(5) using r(5) [OF b0 assms(6)] by simp
  ultimately show ?thesis using image(6) by blast
qed

lemma load_section_base: "load_section h src header32 base off e m = (ok, e', m') \<Longrightarrow> imageBase e' = imageBase e"
  by (auto simp: load_section_def Let_def split: option.splits if_splits)

lemma load_sections_base: "load_sections h src header32 base off is e m = (ok, e', m') \<Longrightarrow> imageBase e' = imageBase e"
  by (induction "is" arbitrary: e m) (auto split: prod.splits bool.splits dest!: load_section_base)

lemma fill_image_base:
  assumes "fill_image h src offsetToPE header header32 e m = Some (ok, e', m')"
  shows "imageBase e' = imageBase e"
  using assms
proof (cases rule: fill_image_cases)
  case (filled e4 m4)
  from load_sections_base [OF filled(1)] show ?thesis by (subst filled(3)) simp
qed (auto dest: load_sections_base)

lemma map_of_virtualFree_release:
  assumes "base \<noteq> 0" "\<forall>b l. munmap b l PROT_NONE = None"
  shows "map_of (g_virtualAllocations (snd (virtualFree pg munmap base 0 MEM_RELEASE s))) base = None"
  using assms by (auto simp: virtualFree_def virtualRelease_def Let_def host_call_def eraseGuestMapping_def map_of_omap_erase
      split: option.splits)

text \<open>
  After such a refusal the executable still holds the address it released: its destructor, which runs
  later, releases whatever has been allocated there in between.
\<close>

lemma refused_image_dangles:
  assumes "loadPEFromSource h src exec e w = Some (False, e', w')" "imageBase e = 0"
    "vm_inv md (pageSizeValue h) (vm w)" "host_ok_for h" "imageBase e' \<noteq> 0"
    "\<forall>b l. h_munmap h b l PROT_NONE = None"
  shows "map_of (g_virtualAllocations (vm w')) (imageBase e') = None \<and>
    map_of (g_virtualAllocations (vm (destroy_executable h e' w2))) (imageBase e') = None"
  using assms(1,2)
proof (cases rule: loadPE_False)
  case headers
  with assms(5) show ?thesis by simp
next
  case (image offsetToPE header header32 base s)
  have nz: "sizeOfImage header32 \<noteq> 0" using image(2)
    by (auto simp: read_optional_header_def Let_def split: if_splits bind_splits)
  have b: "imageBase e' = base"
    using fill_image_base [OF image(4)] by (simp add: reserved_executable_def)
  have "map_of (g_virtualAllocations (vm (destroy_executable h e' w2))) base = None"
    using assms(5) b by (simp add: destroy_executable_def map_of_virtualFree_release assms(6))
  moreover have "map_of (g_virtualAllocations (vm w')) base = None"
    unfolding image(5) using assms(5) b by (simp add: map_of_virtualFree_release assms(6))
  ultimately show ?thesis using b by simp
qed

section \<open>An example image\<close>

text \<open>An image with one section of 32 bytes, preferred base \<open>0x400000\<close>; the flawed variant has a section that is too long.\<close>

definition demo_byte :: "bool \<Rightarrow> nat \<Rightarrow> u8" where
  "demo_byte bad i =
     (case map_of [(0, 0x4D), (1, 0x5A), (60, 0x40), (64, 0x50), (65, 0x45), (68, 0x4C), (69, 0x01), (70, 1), (84, 0xE0),
        (88, 0x0B), (89, 0x01), (105, 0x10), (118, 0x40), (121, 0x10), (124, 0x20), (145, 0x20), (148, 0x60), (149, 1),
        (312, 0x2E), (313, 0x74), (314, 0x65), (315, 0x78), (316, 0x74), (320, 0x20), (325, 0x10), (328, 0x20),
        (332, 0x60), (333, 1), (348, 0x20), (351, 0x60)] i of
        Some v \<Rightarrow> v
      | None \<Rightarrow> if 352 \<le> i then of_nat (i - 351) else if bad \<and> i = 323 then 0x10 else 0)"

definition demo_pe :: "bool \<Rightarrow> u8 list" where "demo_pe bad = map (demo_byte bad) [0..<384]"

definition pe_mmap :: mmap_fn where
  "pe_mmap a l p = (if a = 0 \<or> 2 ^ 32 \<le> a + l then Some ENOMEM else None)"

definition demo_host :: Host where
  "demo_host = \<lparr>pageSizeValue = 4096, h_mmap = pe_mmap, h_madvise = (\<lambda>_ _. None), h_munmap = (\<lambda>_ _ _. None), h_mprotect = pe_mmap\<rparr>"

definition demo_world :: World where
  "demo_world = \<lparr>vm = demo_start, memory = (\<lambda>_. 0xFF), lastError = 0\<rparr>"

lemma demo_host_ok: "host_ok_for demo_host"
  by (auto simp: host_ok_for_def demo_host_def page_size_4096 host_bounded_def pe_mmap_def split: if_splits)

text \<open>Reads of the example, and the fields in what was read.\<close>

definition demo_slice :: "bool \<Rightarrow> nat \<Rightarrow> nat \<Rightarrow> u8 list" where
  "demo_slice bad a n = map (demo_byte bad) [a..<a + n]"

lemma demo_read: "a + n \<le> 384 \<Longrightarrow> view_read (SpanSource (demo_pe bad)) a n = Some (demo_slice bad a n)"
  by (simp add: view_read_span demo_pe_def demo_slice_def drop_map take_map)

lemma demo_le16: "i + 2 \<le> n \<Longrightarrow> le16 (demo_slice bad a n) i = le16 [demo_byte bad (a + i), demo_byte bad (a + (i + 1))] 0"
  by (simp add: le16_def demo_slice_def)

lemma demo_le32:
  "i + 4 \<le> n \<Longrightarrow> le32 (demo_slice bad a n) i =
     le32 [demo_byte bad (a + i), demo_byte bad (a + (i + 1)), demo_byte bad (a + (i + 2)), demo_byte bad (a + (i + 3))] 0"
  by (simp add: le32_def demo_slice_def)

lemma demo_nth: "i < n \<Longrightarrow> demo_slice bad a n ! i = demo_byte bad (a + i)" by (simp add: demo_slice_def)

lemma demo_take: "k \<le> n \<Longrightarrow> take k (demo_slice bad a n) = demo_slice bad a k"
  by (simp add: demo_slice_def take_map)

lemmas demo_fields = demo_le16 demo_le32 le16_def le32_def demo_byte_def

lemma demo_size: "length (demo_pe bad) = 384" by (simp add: demo_pe_def)

definition demo_header :: PEHeader where
  "demo_header = \<lparr>magic4 = [0x50, 0x45, 0, 0], machine = 0x14C, numberOfSections = 1, sizeOfOptionalHeader = 224, characteristics = 0\<rparr>"

lemma demo_pe_header: "read_pe_header (SpanSource (demo_pe bad)) = Some (64, demo_header)"
proof -
  have "demo_slice bad 64 4 = [0x50, 0x45, 0, 0]" by (simp add: demo_slice_def demo_byte_def)
  then have h: "pe_header (demo_slice bad 64 24) = demo_header"
    by (simp add: pe_header_def demo_header_def demo_take demo_le16) (simp add: le16_def demo_byte_def)
  have "le16 (demo_slice bad 0 2) 0 = 0x5A4D" "le32 (demo_slice bad 60 4) 0 = 64"
    by (simp_all add: demo_le16 demo_le32) (simp_all add: le16_def le32_def demo_byte_def)
  then show ?thesis by (simp add: read_pe_header_def demo_read demo_size h demo_header_def)
qed

definition demo_header32 :: PE32Header where
  "demo_header32 = \<lparr>magic = 0x10B, addressOfEntryPoint = 0x1000, h_imageBase = 0x400000, sectionAlignment = 0x1000,
     fileAlignment = 0x20, sizeOfImage = 0x2000, sizeOfHeaders = 0x160,
     exportTable = \<lparr>dd_virtualAddress = 0, dd_size = 0\<rparr>, importTable = \<lparr>dd_virtualAddress = 0, dd_size = 0\<rparr>,
     baseRelocationTable = \<lparr>dd_virtualAddress = 0, dd_size = 0\<rparr>, tlsTable = \<lparr>dd_virtualAddress = 0, dd_size = 0\<rparr>,
     delayImportDescriptor = \<lparr>dd_virtualAddress = 0, dd_size = 0\<rparr>\<rparr>"

lemma demo_pe32: "pe32_header (demo_slice bad 88 224) = demo_header32"
  by (simp add: pe32_header_def data_directory_def demo_le16 demo_le32)
    (simp add: demo_header32_def le16_def le32_def demo_byte_def)

lemma demo_optional: "read_optional_header (SpanSource (demo_pe bad)) 64 demo_header = Some demo_header32"
proof -
  have a: "addp 64 24 = 88" by (simp add: addp_def)
  show ?thesis by (simp add: read_optional_header_def demo_header_def a demo_read demo_pe32) (simp add: demo_header32_def)
qed

definition demo_section :: "bool \<Rightarrow> PESectionHeader" where
  "demo_section bad = \<lparr>sname = [0x2E, 0x74, 0x65, 0x78, 0x74, 0, 0, 0], virtualSize = if bad then 0x10000020 else 0x20,
     virtualAddress = 0x1000, sizeOfRawData = 0x20, pointerToRawData = 0x160, scn_characteristics = 0x60000020\<rparr>"

lemma demo_section_header: "section_header (demo_slice bad 312 40) = demo_section bad"
proof -
  have "demo_slice bad 312 8 = [0x2E, 0x74, 0x65, 0x78, 0x74, 0, 0, 0]" by (simp add: demo_slice_def demo_byte_def)
  then show ?thesis
    by (simp add: section_header_def demo_section_def demo_take demo_le32) (simp add: le32_def demo_byte_def)
qed

lemma demo_place2: "reserve_place 4096 0x400000 0x2000 False demo_start = Inr (0x400000, 0x2000)"
  by (simp add: reserve_place_def demo_start_def alignDown_def alignUp_def subp_def addp_def uintptr_max_def
      kVirtualAllocationGranularity_def addOverflows_def kTwoGB_def overlapsExistingMapping_def from_last_at_most_def)

lemma demo_map_image: "fst (map_image demo_host exec demo_header32 demo_start) = Some 0x400000"
  by (simp add: map_image_def image_alloc_eq demo_header32_def demo_host_def virtualReserve_def demo_place2 host_call_def pe_mmap_def Let_def)

lemma demo_header_fields: "numberOfSections demo_header = 1" "sizeOfOptionalHeader demo_header = 224" "characteristics demo_header = 0"
  by (simp_all add: demo_header_def)

lemma demo_section_data:
  "section_data (SpanSource (demo_pe bad)) demo_header32 (demo_section bad) = (if bad then None else Some (demo_slice bad 352 32))"
  by (simp add: section_data_def demo_section_def demo_header32_def has_raw_def demo_read)

lemma demo_pages: "section_pages demo_host 0x400000 (demo_section False) \<noteq> None"
  by (simp add: section_pages_def demo_section_def section_span_def demo_host_def pe_alignDown_def pe_alignUp_def addp_def subp_def
      uintptr_max_def Let_def)

lemma demo_load_section:
  "fst (load_section demo_host (SpanSource (demo_pe bad)) demo_header32 0x400000 312 e m) = (\<not> bad)"
proof -
  obtain infos where p: "section_pages demo_host 0x400000 (demo_section False) = Some infos" using demo_pages by blast
  have r: "view_read (SpanSource (demo_pe bad)) 312 40 = Some (demo_slice bad 312 40)" by (rule demo_read) simp
  show ?thesis unfolding load_section_def r option.case demo_section_header Let_def demo_section_data
    by (cases bad) (simp_all add: p)
qed

lemma demo_load: "\<exists>e' w'. loadPEFromSource demo_host (SpanSource (demo_pe bad)) True new_executable demo_world = Some (\<not> bad, e', w') \<and> imageBase e' = 0x400000"
proof -
  obtain s where m: "map_image demo_host True demo_header32 demo_start = (Some 0x400000, s)"
    using demo_map_image [of True] by (cases "map_image demo_host True demo_header32 demo_start") simp
  let ?e = "reserved_executable demo_host True new_executable demo_header demo_header32 0x400000"
  let ?m = "mem_zero 0x400000 0x2000 (\<lambda>_. 0xFF)"
  obtain e1 m1 where l: "load_section demo_host (SpanSource (demo_pe bad)) demo_header32 0x400000 312 ?e ?m = (\<not> bad, e1, m1)"
    using demo_load_section [of bad ?e ?m] by (cases "load_section demo_host (SpanSource (demo_pe bad)) demo_header32 0x400000 312 ?e ?m") auto
  have ib: "imageBase ?e = 0x400000" "relocationDelta ?e = 0" by (simp_all add: reserved_executable_def demo_header32_def)
  have sc: "load_sections demo_host (SpanSource (demo_pe bad)) demo_header32 0x400000 312 [0] ?e ?m = (\<not> bad, e1, m1)"
    using l by (cases bad) simp_all
  have "same_but_sections ?e e1" using load_section_outside [OF l] by (simp add: demo_header32_def)
  then have "relocationDelta e1 = 0" using ib(2) by (simp add: same_but_sections_core)
  then have r: "relocate (e1\<lparr>sections := ss\<rparr>) m1 = Some (True, m1)" for ss by (simp add: relocate_def)
  have "\<exists>e' m'. fill_image demo_host (SpanSource (demo_pe bad)) 64 demo_header demo_header32 ?e ?m = Some (\<not> bad, e', m')"
    using sc r by (cases bad) (simp_all add: fill_image_def Let_def demo_size ib demo_header_fields)
  then obtain e' m' where f: "fill_image demo_host (SpanSource (demo_pe bad)) 64 demo_header demo_header32 ?e ?m = Some (\<not> bad, e', m')"
    by blast
  have c: "characteristics demo_header = 0" "unat (sizeOfImage demo_header32) = 0x2000"
    by (simp_all add: demo_header_def demo_header32_def)
  note f' = f [unfolded reserved_executable_def c]
  have "imageBase e' = 0x400000" using fill_image_base [OF f] ib by simp
  then show ?thesis using m f' c
    by (cases bad) (simp_all add: loadPEFromSource_def resetExecutableState_def Let_def demo_pe_header demo_optional demo_world_def new_executable_def)
qed

lemma demo_table: "section_table (SpanSource (demo_pe bad)) 312 [0] = [demo_section bad]"
  by (simp add: section_table_def demo_read demo_section_header)

lemma demo_image_byte:
  "image_byte (SpanSource (demo_pe False)) [demo_section False] k 0 = (if 0x1000 \<le> k \<and> k < 0x1020 then demo_byte False (352 + (k - 0x1000)) else 0)"
proof -
  have "demo_slice False 352 32 ! (k - 4096) = demo_byte False (352 + (k - 4096))" if "4096 \<le> k" "k < 4128"
    by (rule demo_nth) (use that in linarith)
  then show ?thesis by (simp add: raw_byte_def demo_section_def has_raw_def demo_read)
qed

lemma demo_inv: "vm_inv md (pageSizeValue demo_host) (vm demo_world)" by (simp add: demo_host_def demo_world_def demo_start_inv)

theorem pe_image_loaded_witness:
  "\<exists>e' w'. loadPEFromSource demo_host (SpanSource (demo_pe False)) True new_executable demo_world = Some (True, e', w') \<and>
     memory w' (imageBase e' + 0x1000) = 1 \<and> memory w' (imageBase e' + 0x101F) = 32 \<and> memory w' (imageBase e' + 0x1020) = 0"
proof -
  obtain e' w' where l: "loadPEFromSource demo_host (SpanSource (demo_pe False)) True new_executable demo_world = Some (True, e', w')"
    "imageBase e' = 0x400000" using demo_load [of False] by auto
  have n: "imageBase new_executable = 0" by (simp add: new_executable_def)
  have z: "sizeOfImage demo_header32 = 0x2000" "h_imageBase demo_header32 = 0x400000" by (simp_all add: demo_header32_def)
  obtain m where m: "relocationDelta e' = 0" "\<forall>k < 0x2000. m (imageBase e' + k) = image_byte (SpanSource (demo_pe False)) [demo_section False] k 0"
    "relocate e' m = Some (True, memory w')"
    using pe_image_loaded [OF l(1) n demo_inv [where md = Exact] demo_host_ok]
    by (auto simp: Let_def demo_pe_header demo_optional demo_header_fields demo_table z l(2))
  have "memory w' = m" using m(1,3) by (simp add: relocate_def)
  then have "memory w' (imageBase e' + k) = (if 0x1000 \<le> k \<and> k < 0x1020 then demo_byte False (352 + (k - 0x1000)) else 0)"
    if "k < 0x2000" for k using m(2) that unfolding demo_image_byte by simp
  then show ?thesis using l(1) by (simp add: demo_byte_def)
qed

theorem refused_image_undone_witness:
  "\<exists>e' w'. loadPEFromSource demo_host (SpanSource (demo_pe True)) True new_executable demo_world = Some (False, e', w') \<and>
     g_virtualAllocations (vm w') = [] \<and> memory w' 0x110800 = 0xFF \<and> lastError w' = 193"
proof -
  obtain e' w' where l: "loadPEFromSource demo_host (SpanSource (demo_pe True)) True new_executable demo_world = Some (False, e', w')"
    using demo_load [of True] by auto
  have n: "imageBase new_executable = 0" by (simp add: new_executable_def)
  have h: "\<forall>l p. h_mmap demo_host 0 l p \<noteq> None" "\<forall>b l. h_munmap demo_host b l PROT_NONE = None"
    by (simp_all add: demo_host_def pe_mmap_def)
  note t = refused_image_undone [OF l n demo_inv [where md = Exact] demo_host_ok h]
  let ?i = "\<lparr>BaseAddress = 0x110000, AllocationBase = 0x110000, AllocationProtect = 1, RegionSize = 0x1000, MemState = MEM_RESERVE,
       Protect = 1, MemType = MEM_MAPPED\<rparr> :: MEMORY_BASIC_INFORMATION"
  have d: "g_virtualAllocations (vm demo_world) = []" "memory demo_world 0x110800 = 0xFF" "(0x110000, ?i) \<in> set (g_mappings (vm demo_world))"
    by (simp_all add: demo_world_def demo_start_def)
  have "memory w' 0x110800 = memory demo_world 0x110800"
    by (rule conjunct2 [OF conjunct2 [OF conjunct2 [OF t]], rule_format, where a = "0x110000" and i = ?i]) (use d(3) in simp)
  then show ?thesis using t l d(1,2) by auto
qed

text \<open>A table with one entry, at \<open>0x401000\<close>, for an image that was moved up by \<open>0x10000\<close>; the word lies at \<open>0x400100\<close>.\<close>

definition demo_reloc_mem :: mem where
  "demo_reloc_mem = (\<lambda>x. case map_of [(0x401004, 10), (0x401009, 0x31), (0x400100, 0x78), (0x400101, 0x56)] x of Some v \<Rightarrow> v | None \<Rightarrow> 0)"

definition demo_moved :: Executable where
  "demo_moved = new_executable\<lparr>imageBase := 0x400000, execMapped := True, relocationDelta := 0x10000,
     relocationDirectoryRVA := 0x1000, relocationDirectorySize := 10\<rparr>"

lemma demo_fixups: "fixups demo_reloc_mem 0x400000 0x401000 0x40100A = [0x400100]"
proof -
  have l: "load32 demo_reloc_mem 0x401004 = 10" "load32 demo_reloc_mem 0x401000 = 0" "load16 demo_reloc_mem 0x401008 = 0x3100"
    by (simp_all add: load32_def load16_def le32_def le16_def addp_def demo_reloc_mem_def)
  show ?thesis
    by (subst fixups.simps, subst fixups.simps) (simp add: Let_def l block_targets_def reloc_target_def addp_def)
qed

theorem relocation_correct_witness:
  "\<exists>m'. relocate demo_moved demo_reloc_mem = Some (True, m') \<and> load32 m' 0x400100 = 0x15678"
proof -
  have a: "fromRVA demo_moved (relocationDirectoryRVA demo_moved) = 0x401000" "relocationDirectorySize demo_moved = 10"
    "imageBase demo_moved = 0x400000" "relocationDelta demo_moved = 0x10000"
    by (simp_all add: demo_moved_def fromRVA_def addp_def new_executable_def)
  have l: "load32 demo_reloc_mem 0x400100 = 0x5678" by (simp add: load32_def le32_def addp_def demo_reloc_mem_def)
  have "execMapped demo_moved" "relocationDirectoryRVA demo_moved \<noteq> 0" by (simp_all add: demo_moved_def)
  from relocation_correct [of demo_moved "[0x400100]" demo_reloc_mem] this show ?thesis
    by (auto simp: a demo_fixups clear_of_def l)
qed

end
