(* ===== verification/Module_Properties.thy ===== *)
theory Module_Properties
  imports Module_Protocol Pe_Properties
begin

unbundle bit_operations_syntax

text \<open>
  What holds of the registry whenever the program runs: the entry point of a module is called in the order that
  Windows promises, every missing function has one stub and every stub one function, and the
  names of pinned modules never change hands.
\<close>

section \<open>Entry points\<close>

fun entry_reason :: "nat \<Rightarrow> guest_call \<Rightarrow> u32 option" where
  "entry_reason i (DllMain j r) = (if j = i then Some r else None)"
| "entry_reason i (TlsCallback j cb r) = None"

definition entry_calls :: "nat \<Rightarrow> guest_call list \<Rightarrow> u32 list" where
  "entry_calls i cs = List.map_filter (entry_reason i) cs"

text \<open>
  The life of a module as its entry point sees it: nothing, then one attach, notifications of threads,
  and at most one detach, which is the last call. The flags of the module say where it stands.
\<close>

definition entry_protocol :: "ModuleInfo \<Rightarrow> u32 list \<Rightarrow> bool" where
  "entry_protocol m cs \<longleftrightarrow>
     (if \<not> processAttachCalled m then cs = [] \<and> \<not> processAttachSucceeded m
      else cs \<noteq> [] \<and> hd cs = DLL_PROCESS_ATTACH \<and>
        (if processAttachSucceeded m then list_all (\<lambda>r. r = DLL_THREAD_ATTACH \<or> r = DLL_THREAD_DETACH) (tl cs)
         else tl cs \<noteq> [] \<and> last cs = DLL_PROCESS_DETACH \<and>
           list_all (\<lambda>r. r = DLL_THREAD_ATTACH \<or> r = DLL_THREAD_DETACH) (butlast (tl cs))))"

definition protocol_inv :: "MWorld \<Rightarrow> bool" where
  "protocol_inv w \<longleftrightarrow> (\<forall>i < nextModule w. entry_protocol (mod_of w i) (entry_calls i (guestCalls w))) \<and>
     (\<forall>i \<ge> nextModule w. entry_calls i (guestCalls w) = [])"

lemma entry_protocol_fresh: "\<not> processAttachCalled m \<Longrightarrow> \<not> processAttachSucceeded m \<Longrightarrow> entry_protocol m []"
  by (simp add: entry_protocol_def)

lemma entry_protocol_cong:
  "processAttachCalled m' = processAttachCalled m \<Longrightarrow> processAttachSucceeded m' = processAttachSucceeded m \<Longrightarrow>
     entry_protocol m' cs = entry_protocol m cs"
  by (simp add: entry_protocol_def)

lemma entry_calls_append [simp]:
  "entry_calls i [] = []"
  "entry_calls i (DllMain j r # cs) = (if j = i then [r] else []) @ entry_calls i cs"
  "entry_calls i (TlsCallback j cb r # cs) = entry_calls i cs"
  "entry_calls i (cs @ ds) = entry_calls i cs @ entry_calls i ds"
  by (simp_all add: entry_calls_def List.map_filter_def)

text \<open>What a call of the entry point does to its module and to the list of calls.\<close>

lemma callDllMain_others: "j \<noteq> i \<Longrightarrow> mod_of (snd (callDllMain env i r w)) j = mod_of w j"
  and callDllMain_other_calls: "j \<noteq> i \<Longrightarrow> entry_calls j (guestCalls (snd (callDllMain env i r w))) = entry_calls j (guestCalls w)"
proof -
  have "mod_of (snd (invokeWithGuestTIB env i r f w)) = mod_of w" for r f w by (rule mod_of_cong) simp
  moreover have "mod_of (w\<lparr>lastError := e\<rparr>) = mod_of w" for e by (rule mod_of_cong) simp
  ultimately show "j \<noteq> i \<Longrightarrow> mod_of (snd (callDllMain env i r w)) j = mod_of w j"
    by (simp add: callDllMain_def Let_def case_prod_unfold split: option.splits)
  have "j \<noteq> i \<Longrightarrow> entry_calls j (guestCalls (snd (invokeWithGuestTIB env i r f w))) = entry_calls j (guestCalls w)" for r f w
    by (simp add: invokeWithGuestTIB_def Let_def)
  then show "j \<noteq> i \<Longrightarrow> entry_calls j (guestCalls (snd (callDllMain env i r w))) = entry_calls j (guestCalls w)"
    by (simp add: callDllMain_def Let_def case_prod_unfold split: option.splits)
qed

lemma entry_protocol_entry:
  assumes "entry_protocol (mod_of w i) (entry_calls i (guestCalls w))"
  shows "entry_protocol (mod_of (snd (callDllMain env i r w)) i) (entry_calls i (guestCalls (snd (callDllMain env i r w))))"
proof -
  have [simp]: "mod_of (w\<lparr>lastError := e\<rparr>) = mod_of w" "mod_of (w\<lparr>guestCalls := c\<rparr>) = mod_of w" for e c and w :: MWorld
    by (rule mod_of_cong, simp)+
  show ?thesis using assms
    by (auto simp: callDllMain_def Let_def case_prod_unfold invokeWithGuestTIB_def call_guest_def entry_protocol_def
        hd_append tl_append butlast_append split: option.splits list.splits)
qed

lemma protocol_step: "reg_step env w w' \<Longrightarrow> ids_ok w \<Longrightarrow> protocol_inv w \<Longrightarrow> protocol_inv w'"
proof (induction rule: reg_step.induct)
  case (plain w w')
  then show ?case using mod_of_cong [of w' w] by (simp add: same_registry_def protocol_inv_def)
next
  case (stub dll func w a w')
  then show ?case using mod_of_cong [OF missing_frame(5) [OF stub(1)]] missing_frame [OF stub(1)] by (simp add: protocol_inv_def)
next
  case (module i w m)
  then show ?case by (auto simp: protocol_inv_def same_life_def intro: entry_protocol_cong [THEN iffD2])
next
  case (new_external m w)
  have "mod_of ((set_mod (nextModule w) m w)\<lparr>nextModule := n, g_nextStubHandle := h\<rparr>) = mod_of (set_mod (nextModule w) m w)" for n h
    by (rule mod_of_cong) simp
  with new_external show ?case by (auto simp: protocol_inv_def entry_protocol_fresh less_Suc_eq)
next
  case (entry i w reason)
  have "entry_protocol (mod_of (snd (callDllMain env i reason w)) j) (entry_calls j (guestCalls (snd (callDllMain env i reason w))))"
    if "j < nextModule w" for j
    using entry that entry_protocol_entry callDllMain_others callDllMain_other_calls by (cases "j = i") (simp_all add: protocol_inv_def)
  moreover have "entry_calls j (guestCalls (snd (callDllMain env i reason w))) = []" if "nextModule w \<le> j" for j
    using entry that callDllMain_other_calls [of j i] by (simp add: protocol_inv_def)
  ultimately show ?case by (simp add: protocol_inv_def)
next
  case (callback w i cb reason)
  have "mod_of (w\<lparr>guestCalls := c\<rparr>) = mod_of w" for c by (rule mod_of_cong) simp
  with callback show ?case by (simp add: protocol_inv_def)
next
  case (more_ref i w)
  then show ?case by (auto simp: protocol_inv_def incRef_def intro: entry_protocol_cong [THEN iffD2])
next
  case (less_ref i w)
  then show ?case by (auto simp: protocol_inv_def intro: entry_protocol_cong [THEN iffD2])
qed (simp_all add: protocol_inv_def put_key_def erase_key_def erase_aliases_def mod_of_def)

lemma protocol_boot: "boot_step w w' \<Longrightarrow> protocol_inv w \<Longrightarrow> protocol_inv w'"
proof (induction rule: boot_step.induct)
  case (new_module m w key h)
  have "mod_of (put_key key (nextModule w) ((set_mod (nextModule w) m w)\<lparr>nextModule := nextModule w + 1, g_nextStubHandle := h\<rparr>)) =
      mod_of (set_mod (nextModule w) m w)" by (rule mod_of_cong) (simp add: put_key_def)
  with new_module show ?case by (auto simp: protocol_inv_def entry_protocol_fresh less_Suc_eq put_key_def)
qed (simp_all add: protocol_inv_def mod_of_def)

lemma protocol_started: "started env w \<Longrightarrow> protocol_inv w"
  by (rule started_keep [of env protocol_inv, OF protocol_step protocol_boot]) (auto simp: empty_registry_def protocol_inv_def)

section \<open>Stubs for missing functions\<close>

definition stub_key :: "MWorld \<Rightarrow> nat \<Rightarrow> string" where
  "stub_key w k = makeStubKey (snd (stubNames w ! k)) (fst (stubNames w ! k))"

definition stub_inv :: "Env \<Rightarrow> MWorld \<Rightarrow> bool" where
  "stub_inv env w \<longleftrightarrow> length (stubNames w) \<le> MAX_STUBS \<and>
     (\<forall>k < length (stubNames w). stubCache w (stub_key w k) = Some (stubFuncs env k)) \<and>
     (\<forall>key s. stubCache w key = Some s \<longrightarrow> (\<exists>k < length (stubNames w). stub_key w k = key \<and> stubFuncs env k = s))"

text \<open>Stubs are only added.\<close>

definition stubs_extend :: "MWorld \<Rightarrow> MWorld \<Rightarrow> bool" where
  "stubs_extend w w' \<longleftrightarrow> stubCache w \<subseteq>\<^sub>m stubCache w' \<and> (\<exists>new. stubNames w' = stubNames w @ new)"

lemma stub_key_append: "stubNames w' = stubNames w @ new \<Longrightarrow> k < length (stubNames w) \<Longrightarrow> stub_key w' k = stub_key w k"
  by (simp add: stub_key_def nth_append)

lemma stub_cong: "stubCache w' = stubCache w \<Longrightarrow> stubNames w' = stubNames w \<Longrightarrow> stub_inv env w' = stub_inv env w"
  by (simp add: stub_inv_def stub_key_def)

text \<open>Only one kind of step touches them.\<close>

lemma other_steps_keep_stubs:
  assumes "reg_step env w w'"
  obtains (same) "stubCache w' = stubCache w" "stubNames w' = stubNames w"
    | (stub) dll func a where "resolveMissingFuncName env dll func w = Some (a, w')"
  using assms
  by (cases rule: reg_step.cases) (auto simp: same_registry_def put_key_def erase_key_def erase_aliases_def incRef_def)

lemma missing_stub:
  assumes "stub_inv env w" "resolveMissingFuncName env dll func w = Some (a, w')"
  shows "stub_inv env w'" "stubs_extend w w'" "stubCache w' (makeStubKey dll func) = Some a"
proof -
  let ?key = "makeStubKey dll func"
  have "stub_inv env w' \<and> stubs_extend w w' \<and> stubCache w' ?key = Some a"
  proof (cases "stubCache w ?key")
    case (Some s)
    with assms(2) have "a = s" "w' = w" by (simp_all add: resolveMissingFuncName_def)
    with assms(1) Some show ?thesis by (simp add: stubs_extend_def)
  next
    case None
    let ?n = "length (stubNames w)"
    from None assms(2) have n: "?n < MAX_STUBS" and a: "a = stubFuncs env ?n"
      and w': "stubNames w' = stubNames w @ [(func, dll)]" "stubCache w' = (stubCache w)(?key \<mapsto> a)"
      by (auto simp: resolveMissingFuncName_def Let_def split: if_splits)
    have new: "stub_key w' ?n = ?key" by (simp add: stub_key_def w')
    have old: "stub_key w' k = stub_key w k" if "k < ?n" for k by (rule stub_key_append [OF w'(1) that])
    have inv: "\<And>k. k < ?n \<Longrightarrow> stubCache w (stub_key w k) = Some (stubFuncs env k)"
      "\<And>key s. stubCache w key = Some s \<Longrightarrow> \<exists>k < ?n. stub_key w k = key \<and> stubFuncs env k = s"
      using assms(1) by (simp_all add: stub_inv_def)
    have "stubCache w' (stub_key w' k) = Some (stubFuncs env k)" if k: "k < Suc ?n" for k
    proof (cases "k = ?n")
      case True
      then show ?thesis by (simp add: new a w'(2))
    next
      case False
      with k have k: "k < ?n" by simp
      with inv(1) [OF k] None have "stub_key w k \<noteq> ?key" by auto
      with inv(1) [OF k] old [OF k] w'(2) show ?thesis by simp
    qed
    moreover have "\<exists>k < Suc ?n. stub_key w' k = key \<and> stubFuncs env k = s" if c: "stubCache w' key = Some s" for key s
    proof (cases "key = ?key")
      case True
      with c new a w'(2) show ?thesis by (intro exI [of _ ?n]) simp
    next
      case False
      with c w'(2) have "stubCache w key = Some s" by simp
      from inv(2) [OF this] obtain k where "k < ?n" "stub_key w k = key \<and> stubFuncs env k = s" by blast
      with old [of k] show ?thesis by (intro exI [of _ k]) simp
    qed
    ultimately have "stub_inv env w'" using n w'(1) by (simp add: stub_inv_def)
    moreover have "stubs_extend w w'" using None w' by (auto simp: stubs_extend_def map_le_def)
    ultimately show ?thesis using w'(2) by simp
  qed
  then show "stub_inv env w'" "stubs_extend w w'" "stubCache w' ?key = Some a" by auto
qed

lemma stub_inv_step: "reg_step env w w' \<Longrightarrow> stub_inv env w \<Longrightarrow> stub_inv env w' \<and> stubs_extend w w'"
proof (erule other_steps_keep_stubs)
  assume "stub_inv env w" "stubCache w' = stubCache w" "stubNames w' = stubNames w"
  then show ?thesis using stub_cong [of w' w env] by (simp add: stubs_extend_def)
next
  fix dll func a
  assume "stub_inv env w" "resolveMissingFuncName env dll func w = Some (a, w')"
  then show ?thesis using missing_stub by blast
qed

lemma stub_inv_boot: "boot_step w w' \<Longrightarrow> stub_inv env w \<Longrightarrow> stub_inv env w'"
  by (induction rule: boot_step.induct) (simp_all add: stub_inv_def stub_key_def put_key_def)

lemma stub_inv_started: "started env w \<Longrightarrow> stub_inv env w"
proof (rule started_keep [of env "stub_inv env"])
  show "reg_step env v v' \<Longrightarrow> ids_ok v \<Longrightarrow> stub_inv env v \<Longrightarrow> stub_inv env v'" for v v' using stub_inv_step by blast
  show "boot_step v v' \<Longrightarrow> ids_ok v \<Longrightarrow> stub_inv env v \<Longrightarrow> stub_inv env v'" for v v' by (rule stub_inv_boot)
  show "empty_registry v \<Longrightarrow> stub_inv env v" for v by (simp add: empty_registry_def stub_inv_def)
qed

lemma stubs_extend_trans: "stubs_extend w w' \<Longrightarrow> stubs_extend w' w'' \<Longrightarrow> stubs_extend w w''"
  by (auto simp: stubs_extend_def intro: map_le_trans)

lemma stubs_extend_runs:
  assumes "runs env w w'" "stub_inv env w"
  shows "stub_inv env w' \<and> stubs_extend w w'"
  using assms unfolding runs_def
proof (induction rule: rtranclp_induct)
  case base
  then show ?case by (simp add: stubs_extend_def)
next
  case (step y z)
  then show ?case using stub_inv_step [OF step.hyps(2)] stubs_extend_trans by blast
qed

lemma stub_distinct:
  assumes "stub_inv env w" "inj (stubFuncs env)" "stubCache w key = Some a" "stubCache w key2 = Some a"
  shows "key = key2"
  using assms unfolding stub_inv_def by (metis inj_eq)

section \<open>Pinned modules\<close>





section \<open>Counting references\<close>

fun load_times :: "Env \<Rightarrow> Ops \<Rightarrow> string \<Rightarrow> nat \<Rightarrow> MWorld \<Rightarrow> (nat option list \<times> MWorld) option" where
  "load_times env ops name 0 w = Some ([], w)"
| "load_times env ops name (Suc k) w =
     do { (r, w1) \<leftarrow> loadModule env ops name w; (rs, w2) \<leftarrow> load_times env ops name k w1; Some (r # rs, w2) }"

fun free_times :: "Env \<Rightarrow> nat \<Rightarrow> nat \<Rightarrow> MWorld \<Rightarrow> MWorld" where
  "free_times env i 0 w = w"
| "free_times env i (Suc k) w = free_times env i k (freeModule env i w)"

text \<open>A name that is bound to an external module.\<close>

definition bound_external :: "string \<Rightarrow> nat \<Rightarrow> MWorld \<Rightarrow> bool" where
  "bound_external name i w \<longleftrightarrow> name \<noteq> [] \<and> modulesByAlias w (normalizedBaseKey (parseModuleName (api_set_name name))) = Some i \<and>
     \<not> is_builtin w i"

lemma load_again:
  "bound_external name i w \<Longrightarrow> loadModule env ops name w = Some (Some i, incRef i w)"
  by (simp add: bound_external_def loadModule_def loadModuleInternal_def findByAlias_def Let_def)

lemma bound_external_incRef: "bound_external name i w \<Longrightarrow> bound_external name i (incRef j w)"
  by (auto simp: bound_external_def is_builtin_def incRef_def)

definition add_refs :: "nat \<Rightarrow> nat \<Rightarrow> MWorld \<Rightarrow> MWorld" where
  "add_refs i k w = set_mod i ((mod_of w i)\<lparr>refCount := refCount (mod_of w i) + k\<rparr>) w"

lemma set_mod_same: "modules w i \<noteq> None \<Longrightarrow> set_mod i (mod_of w i) w = w"
  by (cases w) (auto simp: set_mod_def mod_of_def fun_upd_idem)

lemma load_times_adds:
  assumes "bound_external name i w" "modules w i \<noteq> None" "refCount (mod_of w i) + k < UINT_MAX"
  shows "load_times env ops name k w = Some (replicate k (Some i), add_refs i k w)"
  using assms
proof (induction k arbitrary: w)
  case 0
  then show ?case by (simp add: add_refs_def set_mod_same)
next
  case (Suc k)
  have i: "incRef i w = add_refs i 1 w" using Suc.prems(3) by (simp add: incRef_def add_refs_def UINT_MAX_def)
  have "load_times env ops name k (incRef i w) = Some (replicate k (Some i), add_refs i k (incRef i w))"
  proof (rule Suc.IH)
    show "bound_external name i (incRef i w)" by (rule bound_external_incRef [OF Suc.prems(1)])
    show "modules (incRef i w) i \<noteq> None" by (simp add: i add_refs_def set_mod_def)
    show "refCount (mod_of (incRef i w) i) + k < UINT_MAX" using Suc.prems(3) by (simp add: i add_refs_def)
  qed
  moreover have "add_refs i k (add_refs i 1 w) = add_refs i (Suc k) w"
    by (simp add: add_refs_def set_mod_def mod_of_def)
  ultimately show ?case using load_again [OF Suc.prems(1)] by (simp add: i)
qed

lemma free_counts_down:
  assumes "refCount (mod_of w i) \<noteq> UINT_MAX" "1 < refCount (mod_of w i)"
  shows "freeModule env i w = set_mod i ((mod_of w i)\<lparr>refCount := refCount (mod_of w i) - 1\<rparr>) w"
  using assms by (simp add: freeModule_def Let_def)

lemma free_times_less:
  assumes "modules w i \<noteq> None" "refCount (mod_of w i) < UINT_MAX" "k < refCount (mod_of w i)"
  shows "free_times env i k w = set_mod i ((mod_of w i)\<lparr>refCount := refCount (mod_of w i) - k\<rparr>) w"
  using assms
proof (induction k arbitrary: w)
  case 0
  then show ?case by (simp add: set_mod_same)
next
  case (Suc k)
  let ?w1 = "set_mod i ((mod_of w i)\<lparr>refCount := refCount (mod_of w i) - 1\<rparr>) w"
  have "free_times env i k ?w1 = set_mod i ((mod_of ?w1 i)\<lparr>refCount := refCount (mod_of ?w1 i) - k\<rparr>) ?w1"
    using Suc.prems by (intro Suc.IH) (auto, simp add: set_mod_def)
  moreover have "freeModule env i w = ?w1" using Suc.prems by (intro free_counts_down) auto
  ultimately show ?case by (simp, simp add: set_mod_def)
qed

text \<open>The last release.\<close>

lemma runModuleTlsCallbacks_frame:
  "modules (runModuleTlsCallbacks env i r w) = modules w"
  "entry_calls j (guestCalls (runModuleTlsCallbacks env i r w)) = entry_calls j (guestCalls w)"
proof -
  have "modules (fold (\<lambda>cb w. if cb = 0 then w else snd (call_guest env (TlsCallback i cb r) w)) cbs w) = modules w \<and>
    entry_calls j (guestCalls (fold (\<lambda>cb w. if cb = 0 then w else snd (call_guest env (TlsCallback i cb r) w)) cbs w)) =
      entry_calls j (guestCalls w)" for cbs
    by (induction cbs arbitrary: w) simp_all
  then show "modules (runModuleTlsCallbacks env i r w) = modules w"
    "entry_calls j (guestCalls (runModuleTlsCallbacks env i r w)) = entry_calls j (guestCalls w)"
    by (simp_all add: runModuleTlsCallbacks_def Let_def)
qed

lemma releaseModuleTls_frame:
  "mod_of (releaseModuleTls env i w) i =
     (if hasTls (tlsInfo (mod_of w i)) then (mod_of w i)\<lparr>tlsInfo := new_tls_info\<rparr> else mod_of w i)"
  "guestCalls (releaseModuleTls env i w) = guestCalls w"
proof -
  let ?info = "tlsInfo (mod_of w i)"
  let ?w1 = "fold (release_block env ?info) (threadAllocations ?info) w"
  have p: "same_registry w ?w1" by (rule plain_fold [OF plain_release_block])
  then have "mod_of ?w1 = mod_of w" by (intro mod_of_cong) (simp add: same_registry_def)
  moreover have "mod_of (w\<lparr>tls := t\<rparr>) = mod_of w" "mod_of (w\<lparr>tlsModuleSlots := k\<rparr>) = mod_of w" for t k and w :: MWorld
    by (rule mod_of_cong, simp)+
  ultimately show "mod_of (releaseModuleTls env i w) i =
     (if hasTls (tlsInfo (mod_of w i)) then (mod_of w i)\<lparr>tlsInfo := new_tls_info\<rparr> else mod_of w i)"
    by (simp add: releaseModuleTls_def Let_def set_tls_info_def releaseModuleTlsSlot_def)
  show "guestCalls (releaseModuleTls env i w) = guestCalls w"
    using p by (simp add: releaseModuleTls_def Let_def set_tls_info_def releaseModuleTlsSlot_def same_registry_def)
qed

lemma last_release:
  assumes "refCount (mod_of w i) = 1" and e: "executable (mod_of w i) = Some e" "entryPoint e \<noteq> 0" "mainModule env \<noteq> Some i"
    and a: "processAttachCalled (mod_of w i)" "processAttachSucceeded (mod_of w i)"
  shows "refCount (mod_of (freeModule env i w) i) = 0" "\<And>a. modulesByAlias (freeModule env i w) a \<noteq> Some i"
    "entry_calls i (guestCalls (freeModule env i w)) = entry_calls i (guestCalls w) @ [0]"
proof -
  let ?w1 = "set_mod i ((mod_of w i)\<lparr>refCount := 0\<rparr>) w"
  let ?w2 = "runModuleTlsCallbacks env i 0 ?w1"
  let ?w3 = "snd (callDllMain env i 0 ?w2)"
  have "mod_of ?w2 = mod_of ?w1" by (rule mod_of_cong) (rule runModuleTlsCallbacks_frame)
  then have m2: "mod_of ?w2 i = (mod_of w i)\<lparr>refCount := 0\<rparr>" by simp
  obtain key where f: "freeModule env i w = erase_aliases i (erase_key key (releaseModuleTls env i ?w3))"
    using assms(1) by (auto simp: freeModule_def Let_def UINT_MAX_def)
  have [simp]: "mod_of (w\<lparr>lastError := x\<rparr>) = mod_of w" "mod_of (w\<lparr>guestCalls := c\<rparr>) = mod_of w"
    "mod_of (erase_aliases i w) = mod_of w" "mod_of (erase_key key w) = mod_of w" for x c key i and w :: MWorld
    by (rule mod_of_cong, simp add: erase_aliases_def erase_key_def)+
  have c: "entry_calls i (guestCalls ?w3) = entry_calls i (guestCalls ?w2) @ [0]"
    using e a m2 by (simp add: callDllMain_def Let_def case_prod_unfold invokeWithGuestTIB_def call_guest_def)
  show "refCount (mod_of (freeModule env i w) i) = 0" using m2 by (simp add: f releaseModuleTls_frame)
  show "modulesByAlias (freeModule env i w) b \<noteq> Some i" for b by (simp add: f erase_aliases_def)
  show "entry_calls i (guestCalls (freeModule env i w)) = entry_calls i (guestCalls w) @ [0]"
    using c by (simp add: f erase_aliases_def erase_key_def releaseModuleTls_frame runModuleTlsCallbacks_frame)
qed

section \<open>The export table\<close>

text \<open>The address of the \<open>k\<close>-th function and the name and index of the \<open>k\<close>-th name, as the directory in memory has them.\<close>

definition export_dir :: "Executable \<Rightarrow> nat" where "export_dir exe = fromRVA exe (exportDirectoryRVA exe)"

definition function_count :: "mem \<Rightarrow> Executable \<Rightarrow> nat" where
  "function_count m exe = unat (load32 m (addp (export_dir exe) 20))"

definition name_count :: "mem \<Rightarrow> Executable \<Rightarrow> nat" where
  "name_count m exe = unat (load32 m (addp (export_dir exe) 24))"

definition function_rva :: "mem \<Rightarrow> Executable \<Rightarrow> nat \<Rightarrow> u32" where
  "function_rva m exe k = load32 m (addp (fromRVA exe (load32 m (addp (export_dir exe) 28))) (4 * k))"

definition export_name :: "mem \<Rightarrow> Executable \<Rightarrow> nat \<Rightarrow> string" where
  "export_name m exe k = c_string m (fromRVA exe (load32 m (addp (fromRVA exe (load32 m (addp (export_dir exe) 32))) (4 * k))))"

definition name_index :: "mem \<Rightarrow> Executable \<Rightarrow> nat \<Rightarrow> u16" where
  "name_index m exe k = load16 m (addp (fromRVA exe (load32 m (addp (export_dir exe) 36))) (2 * k))"

definition name_ordinal :: "mem \<Rightarrow> Executable \<Rightarrow> nat \<Rightarrow> u16" where
  "name_ordinal m exe k = ucast (load32 m (addp (export_dir exe) 16) + ucast (name_index m exe k))"

definition is_forwarder :: "mem \<Rightarrow> Executable \<Rightarrow> nat \<Rightarrow> bool" where
  "is_forwarder m exe k \<longleftrightarrow> exportDirectoryRVA exe \<le> function_rva m exe k \<and>
     function_rva m exe k < exportDirectoryRVA exe + exportDirectorySize exe"

definition export_address :: "mem \<Rightarrow> Executable \<Rightarrow> nat \<Rightarrow> nat" where
  "export_address m exe k = (if function_rva m exe k = 0 then 0 else fromRVA exe (function_rva m exe k))"

lemma fold_list_update:
  "distinct ks \<Longrightarrow> \<forall>k \<in> set ks. k < length xs \<Longrightarrow> j < length xs \<Longrightarrow>
     length (fold (\<lambda>k xs. if P k then xs[k := f k] else xs) ks xs) = length xs \<and>
     fold (\<lambda>k xs. if P k then xs[k := f k] else xs) ks xs ! j = (if j \<in> set ks \<and> P j then f j else xs ! j)"
  by (induction ks arbitrary: xs) (auto simp: nth_list_update)

lemma fold_map_update:
  assumes "ks = before @ k # after" "P k" "\<forall>j \<in> set after. P j \<longrightarrow> f j \<noteq> f k"
  shows "fold (\<lambda>k m. if P k then m(f k \<mapsto> g k) else m) ks m (f k) = Some (g k)"
proof -
  have "\<forall>j \<in> set after. P j \<longrightarrow> f j \<noteq> x \<Longrightarrow> fold (\<lambda>k m. if P k then m(f k \<mapsto> g k) else m) after m x = m x" for m x
    by (induction "after" arbitrary: m) auto
  with assms show ?thesis by simp
qed

lemma set_mod_twice [simp]: "set_mod i m (set_mod i m' w) = set_mod i m w"
  by (simp add: set_mod_def)

lemma set_mod_exists [simp]: "modules (set_mod i m w) i \<noteq> None"
  by (simp add: set_mod_def)

lemma export_functions_plain:
  assumes "memory w = m" "functions = fromRVA exe (load32 m (addp (export_dir exe) 28))"
    "\<forall>k \<in> set ks. \<not> is_forwarder m exe k" "modules w i \<noteq> None"
  shows "export_functions env ops i exe functions ks w = Some (set_mod i ((mod_of w i)\<lparr>exportsByOrdinal :=
     fold (\<lambda>k xs. if function_rva m exe k \<noteq> 0 then xs[k := fromRVA exe (function_rva m exe k)] else xs)
       ks (exportsByOrdinal (mod_of w i))\<rparr>) w)"
  using assms
proof (induction ks arbitrary: w)
  case Nil
  then show ?case by (simp add: set_mod_same)
next
  case (Cons k ks)
  have rva: "load32 m (addp functions (4 * k)) = function_rva m exe k"
    using Cons.prems(2) by (simp add: function_rva_def)
  have nf: "\<not> (exportDirectoryRVA exe \<le> function_rva m exe k \<and>
     function_rva m exe k < exportDirectoryRVA exe + exportDirectorySize exe)"
    using Cons.prems(3) by (simp add: is_forwarder_def)
  show ?case
  proof (cases "function_rva m exe k = 0")
    case True
    with Cons.IH [OF Cons.prems(1,2) _ Cons.prems(4)] Cons.prems(1,3) rva show ?thesis by (simp add: Let_def)
  next
    case False
    let ?w1 = "set_mod i ((mod_of w i)\<lparr>exportsByOrdinal := (exportsByOrdinal (mod_of w i))[k := fromRVA exe (function_rva m exe k)]\<rparr>) w"
    have "export_functions env ops i exe functions ks ?w1 = Some (set_mod i ((mod_of ?w1 i)\<lparr>exportsByOrdinal :=
     fold (\<lambda>k xs. if function_rva m exe k \<noteq> 0 then xs[k := fromRVA exe (function_rva m exe k)] else xs)
       ks (exportsByOrdinal (mod_of ?w1 i))\<rparr>) ?w1)"
      using Cons.prems by (intro Cons.IH) auto
    with False rva nf Cons.prems(1) show ?thesis by (auto simp: Let_def)
  qed
qed

lemma export_names_plain:
  assumes "memory w = m" "names = fromRVA exe (load32 m (addp (export_dir exe) 32))"
    "ordinals = fromRVA exe (load32 m (addp (export_dir exe) 36))" "modules w i \<noteq> None" "length (exportsByOrdinal (mod_of w i)) = n"
  shows "export_names i exe (export_dir exe) names ordinals ks w = set_mod i ((mod_of w i)\<lparr>exportNameToOrdinal :=
     fold (\<lambda>k t. if unat (name_index m exe k) < n then t(export_name m exe k \<mapsto> name_ordinal m exe k) else t)
       ks (exportNameToOrdinal (mod_of w i))\<rparr>) w"
  using assms
proof (induction ks arbitrary: w)
  case Nil
  then show ?case by (simp add: set_mod_same)
next
  case (Cons k ks)
  have ix: "load16 m (addp ordinals (2 * k)) = name_index m exe k"
    and nm: "c_string m (fromRVA exe (load32 m (addp names (4 * k)))) = export_name m exe k"
    and od: "ucast (load32 m (addp (export_dir exe) 16) + ucast (name_index m exe k)) = name_ordinal m exe k"
    using Cons.prems(2,3) by (simp_all add: name_index_def export_name_def name_ordinal_def)
  show ?case
  proof (cases "unat (name_index m exe k) < n")
    case False
    with Cons.IH [OF Cons.prems] Cons.prems(1,5) ix show ?thesis by (simp add: Let_def)
  next
    case True
    let ?w1 = "set_mod i ((mod_of w i)\<lparr>exportNameToOrdinal := (exportNameToOrdinal (mod_of w i))
       (export_name m exe k \<mapsto> name_ordinal m exe k)\<rparr>) w"
    have "export_names i exe (export_dir exe) names ordinals ks ?w1 = set_mod i ((mod_of ?w1 i)\<lparr>exportNameToOrdinal :=
     fold (\<lambda>k t. if unat (name_index m exe k) < n then t(export_name m exe k \<mapsto> name_ordinal m exe k) else t)
       ks (exportNameToOrdinal (mod_of ?w1 i))\<rparr>) ?w1"
      using Cons.prems by (intro Cons.IH) auto
    with True ix nm od Cons.prems(1,5) show ?thesis by (simp add: Let_def)
  qed
qed

text \<open>The tables of a module whose directory has no forwarders, once they are read.\<close>

definition read_exports :: "mem \<Rightarrow> Executable \<Rightarrow> ModuleInfo \<Rightarrow> ModuleInfo" where
  "read_exports m exe mi =
     (let xs = map (export_address m exe) [0..<function_count m exe] in
      mi\<lparr>exportOrdinalBase := load32 m (addp (export_dir exe) 16), exportsByOrdinal := xs,
         exportNameToOrdinal := fold (\<lambda>k t. if unat (name_index m exe k) < length xs
             then t(export_name m exe k \<mapsto> name_ordinal m exe k) else t) [0..<name_count m exe] (exportNameToOrdinal mi),
         exportsInitialized := True\<rparr>)"

lemma exports_read:
  assumes "executable (mod_of w i) = Some exe" "\<not> exportsInitialized (mod_of w i)" "exportDirectoryRVA exe \<noteq> 0"
    "exportDirectorySize exe \<noteq> 0" "\<forall>k < function_count (memory w) exe. \<not> is_forwarder (memory w) exe k"
  shows "ensureExportsInitialized env ops i w = Some (set_mod i (read_exports (memory w) exe (mod_of w i)) w)"
proof -
  let ?n = "function_count (memory w) exe"
  let ?m1 = "(mod_of w i)\<lparr>exportOrdinalBase := load32 (memory w) (addp (export_dir exe) 16), exportsByOrdinal := replicate ?n 0\<rparr>"
  let ?w1 = "set_mod i ?m1 w"
  let ?xs = "fold (\<lambda>k xs. if function_rva (memory w) exe k \<noteq> 0 then xs[k := fromRVA exe (function_rva (memory w) exe k)] else xs) [0..<?n] (replicate ?n 0)"
  have xs: "?xs = map (export_address (memory w) exe) [0..<?n]"
  proof (rule nth_equalityI)
    show "length ?xs = length (map (export_address (memory w) exe) [0..<?n])"
      using fold_list_update [of "[0..<?n]" "replicate ?n 0" 0 "\<lambda>k. function_rva (memory w) exe k \<noteq> 0"
          "\<lambda>k. fromRVA exe (function_rva (memory w) exe k)"] by (cases "?n = 0") auto
    show "?xs ! j = map (export_address (memory w) exe) [0..<?n] ! j" if "j < length ?xs" for j
      using that fold_list_update [of "[0..<?n]" "replicate ?n 0" j "\<lambda>k. function_rva (memory w) exe k \<noteq> 0"
          "\<lambda>k. fromRVA exe (function_rva (memory w) exe k)"]
        fold_list_update [of "[0..<?n]" "replicate ?n 0" 0 "\<lambda>k. function_rva (memory w) exe k \<noteq> 0"
          "\<lambda>k. fromRVA exe (function_rva (memory w) exe k)"]
      by (cases "?n = 0") (auto simp: export_address_def)
  qed
  have f: "export_functions env ops i exe (fromRVA exe (load32 (memory w) (addp (export_dir exe) 28))) [0..<?n] ?w1 =
      Some (set_mod i (?m1\<lparr>exportsByOrdinal := map (export_address (memory w) exe) [0..<?n]\<rparr>) w)"
    using assms(5) export_functions_plain [of ?w1 "memory w" _ exe "[0..<?n]" i env ops] by (simp add: xs)
  have n: "export_names i exe (export_dir exe) (fromRVA exe (load32 (memory w) (addp (export_dir exe) 32)))
      (fromRVA exe (load32 (memory w) (addp (export_dir exe) 36))) ks (set_mod i m w) =
      set_mod i (m\<lparr>exportNameToOrdinal := fold (\<lambda>k t. if unat (name_index (memory w) exe k) < length (exportsByOrdinal m)
         then t(export_name (memory w) exe k \<mapsto> name_ordinal (memory w) exe k) else t) ks (exportNameToOrdinal m)\<rparr>) w" for ks m
    using export_names_plain [of "set_mod i m w" "memory w" _ exe _ i "length (exportsByOrdinal m)" ks] by simp
  show ?thesis using assms(1-4) f
    by (simp add: ensureExportsInitialized_def Let_def n read_exports_def name_count_def flip: export_dir_def function_count_def)
qed

lemma name_ordinal_value:
  assumes "unat (load32 m (addp (export_dir exe) 16)) + unat (name_index m exe k) < 2 ^ 16"
  shows "load32 m (addp (export_dir exe) 16) \<le> ucast (name_ordinal m exe k)"
    "unat (ucast (name_ordinal m exe k) - load32 m (addp (export_dir exe) 16)) = unat (name_index m exe k)"
proof -
  let ?b = "load32 m (addp (export_dir exe) 16)"
  have i: "unat (ucast (name_index m exe k) :: u32) = unat (name_index m exe k)"
    by (simp add: unsigned_ucast_eq take_bit_nat_eq_self_iff order_less_le_trans [OF unsigned_less])
  then have u: "unat (?b + ucast (name_index m exe k)) = unat ?b + unat (name_index m exe k)"
    using assms by (simp add: unat_word_ariths)
  then have v: "ucast (name_ordinal m exe k) = ?b + ucast (name_index m exe k)" using assms
    by (subst word_unat_eq_iff) (simp add: name_ordinal_def unsigned_ucast_eq unsigned_take_bit_eq take_bit_nat_eq_self_iff)
  show "?b \<le> ucast (name_ordinal m exe k)" "unat (ucast (name_ordinal m exe k) - ?b) = unat (name_index m exe k)"
    using u i by (simp_all add: v word_le_nat_alt)
qed

section \<open>Forwarders into the same module\<close>

text \<open>A module whose first function is forwarded to another function of the module itself.\<close>

definition self_forwarder :: "nat \<Rightarrow> MWorld \<Rightarrow> bool" where
  "self_forwarder i w \<longleftrightarrow> \<not> exportsInitialized (mod_of w i) \<and> moduleStub (mod_of w i) = None \<and>
     (case executable (mod_of w i) of
        None \<Rightarrow> False
      | Some exe \<Rightarrow> exportDirectoryRVA exe \<noteq> 0 \<and> exportDirectorySize exe \<noteq> 0 \<and> 0 < function_count (memory w) exe \<and>
          function_rva (memory w) exe 0 \<noteq> 0 \<and> is_forwarder (memory w) exe 0 \<and>
          (let fwd = c_string (memory w) (fromRVA exe (function_rva (memory w) exe 0)) in
           case find_first_of (CHR ''.'') fwd of
             None \<Rightarrow> False
           | Some sep \<Rightarrow> sep + 1 < length fwd \<and> hd (drop (sep + 1) fwd) \<noteq> CHR ''#'' \<and> bound_external (take sep fwd) i w))"

lemma self_forwarder_cong:
  "self_forwarder i w \<Longrightarrow> memory w' = memory w \<Longrightarrow> modulesByAlias w' = modulesByAlias w \<Longrightarrow>
     executable (mod_of w' i) = executable (mod_of w i) \<Longrightarrow> exportsInitialized (mod_of w' i) = exportsInitialized (mod_of w i) \<Longrightarrow>
     moduleStub (mod_of w' i) = moduleStub (mod_of w i) \<Longrightarrow> self_forwarder i w'"
  by (auto simp: self_forwarder_def bound_external_def is_builtin_def Let_def split: option.splits)

text \<open>
  Reading its exports never ends: the forwarder asks the module itself, whose table counts as read only after the
  last entry, so the lookup starts to read it again, at every depth.
\<close>

lemma self_forwarder_diverges: "self_forwarder i w \<Longrightarrow> ensureExportsInitialized env (module_ops env n) i w = None"
proof (induction n arbitrary: w rule: less_induct)
  case (less n)
  obtain exe where e: "executable (mod_of w i) = Some exe" using less.prems by (auto simp: self_forwarder_def split: option.splits)
  let ?m = "memory w"
  let ?fwd = "c_string ?m (fromRVA exe (function_rva ?m exe 0))"
  from less.prems e obtain sep where f: "\<not> exportsInitialized (mod_of w i)" "exportDirectoryRVA exe \<noteq> 0" "exportDirectorySize exe \<noteq> 0"
      "0 < function_count ?m exe" "function_rva ?m exe 0 \<noteq> 0" "is_forwarder ?m exe 0" "find_first_of (CHR ''.'') ?fwd = Some sep"
      "sep + 1 < length ?fwd" "hd (drop (sep + 1) ?fwd) \<noteq> CHR ''#''" "bound_external (take sep ?fwd) i w" "moduleStub (mod_of w i) = None"
    by (auto simp: self_forwarder_def Let_def split: option.splits)
  define w1 where "w1 = set_mod i ((mod_of w i)\<lparr>exportOrdinalBase := load32 ?m (addp (export_dir exe) 16),
      exportsByOrdinal := replicate (function_count ?m exe) 0\<rparr>) w"
  have s1: "self_forwarder i w1" by (rule self_forwarder_cong [OF less.prems]) (simp_all add: w1_def)
  have b1: "bound_external (take sep ?fwd) i w1" using f(10) by (simp add: w1_def bound_external_def is_builtin_def)
  have sep: "sep \<noteq> 0" using b1 by (auto simp: bound_external_def)
  have "resolveForwardedExport env (module_ops env n) i ?fwd w1 = None"
  proof (cases n)
    case 0
    with sep f(7,8) show ?thesis by (auto simp: resolveForwardedExport_def loadForwarderTargetModule_def Let_def)
  next
    case (Suc k)
    have "self_forwarder i (incRef i w1)" by (rule self_forwarder_cong [OF s1]) (simp_all add: incRef_def)
    from less.IH [OF _ this, of k] Suc have "ensureExportsInitialized env (module_ops env k) i (incRef i w1) = None" by simp
    moreover have "moduleStub (mod_of (incRef i w1) i) = None" using f(11) by (simp add: incRef_def w1_def)
    ultimately have "findExportByName env (module_ops env k) (Some i) g (incRef i w1) = None" for g
      by (simp add: findExportByName_def)
    then have "resolveFuncByName env (module_ops env k) i g (incRef i w1) = None" for g by (simp add: resolveFuncByName_def)
    then show ?thesis using sep f(7-9) Suc load_again [OF b1]
      by (auto simp: resolveForwardedExport_def loadForwarderTargetModule_def Let_def)
  qed
  moreover have "[0..<function_count ?m exe] = 0 # [1..<function_count ?m exe]" using f(4) by (simp add: upt_conv_Cons)
  ultimately have "export_functions env (module_ops env n) i exe (fromRVA exe (load32 ?m (addp (export_dir exe) 28)))
      [0..<function_count ?m exe] w1 = None"
    using f(5,6) by (simp add: w1_def function_rva_def is_forwarder_def)
  then show ?case using e f(1-3)
    by (simp add: ensureExportsInitialized_def Let_def w1_def flip: export_dir_def function_count_def)
qed

section \<open>Modules that could not be started\<close>

text \<open>
  When the imports of a library cannot be resolved, its load fails and its key is removed, but its names stay; the next load of
  such a name finds the library that was never attached and succeeds.
\<close>

lemma failed_imports_load_later:
  assumes "ensureExportsInitialized env ops i w = Some w1" "resolveImports env ops i w1 = Some (False, w2)" "bound_external name i w2"
  shows "\<exists>w3. start_external env ops key i w = Some (Some (lastError w2), w3) \<and>
     loadModule env ops name w3 = Some (Some i, incRef i w3)"
proof -
  have "bound_external name i (erase_key key w2)"
    using assms(3) by (simp add: bound_external_def is_builtin_def erase_key_def mod_of_def)
  from load_again [OF this] assms(1,2) show ?thesis by (simp add: start_external_def)
qed

text \<open>The main program is never among the modules that hear of a new thread, which is also where static data is made for it.\<close>

lemma main_module_not_notified: "mainModule env = Some i \<Longrightarrow> i \<notin> set (notify_targets env w)"
  by (simp add: notify_targets_def shouldDeliverThreadNotifications_def)

section \<open>A small registry\<close>

text \<open>A host and an empty registry for the witnesses.\<close>

definition demo_env :: Env where
  "demo_env = \<lparr>host = \<lparr>pageSizeValue = 4096, h_mmap = (\<lambda>_ _ _. None), h_madvise = (\<lambda>_ _. None), h_munmap = (\<lambda>_ _ _. None),
       h_mprotect = (\<lambda>_ _ _. None)\<rparr>,
     gmalloc = (\<lambda>n h b. Some (4096 * (n + 1))), blockMalloc = (\<lambda>_ _. None), openFile = (\<lambda>_. None), findFile = (\<lambda>_ _. None), findWindows = (\<lambda>_. None),
     canonicalDir = (\<lambda>_. None), fromWindows = (\<lambda>p. p), exeParent = [], currentPath = [], wiboPath = None, winePath = None,
     canonicalPath = (\<lambda>p. p), pathToWindows = (\<lambda>p. p), stubFuncs = (\<lambda>k. 4096 + 16 * k), guestEntry = (\<lambda>_ _. True), mainModule = None\<rparr>"

definition demo_registry :: "mem \<Rightarrow> MWorld" where
  "demo_registry m = \<lparr>vm = demo_start, memory = m, lastError = 0, modules = (\<lambda>_. None), nextModule = 0,
     g_nextStubHandle = 1, modulesByKey = [], modulesByAlias = (\<lambda>_. None), builtinAliasMap = (\<lambda>_. None), pinnedAliases = {},
     pinnedModules = {}, tlsModuleSlots = [], stubCache = (\<lambda>_. None), stubNames = [], tls = tls_initial, tlsBlocks = [],
     badFree = False, guestCalls = [], dllDirectory = None\<rparr>"

definition demo_lmgr :: ModuleStub where
  "demo_lmgr = \<lparr>stub_names = [''lmgr''], byName = None, byOrdinal = None, dllData = []\<rparr>"

definition demo_booted :: MWorld where
  "demo_booted = registerBuiltinModule True demo_lmgr (demo_registry (\<lambda>_. 0))"

lemma demo_started: "started demo_env (demo_registry m)" "started demo_env demo_booted"
proof -
  show s: "started demo_env (demo_registry m)" for m by (rule empty) (simp add: demo_registry_def empty_registry_def)
  show "started demo_env demo_booted" unfolding demo_booted_def by (rule builtin [OF s])
qed

lemma demo_names: "normalizeAlias ''lmgr'' = ''lmgr''" "normalizedBaseKey (parseModuleName ''lmgr'') = ''lmgr.dll''"
  "normalizedBaseKey (parseModuleName (api_set_name ''LMGR.dll'')) = ''lmgr.dll''"
  "normalizedBaseKey (parseModuleName (api_set_name ''a.dll'')) = ''a.dll''"
  by code_simp+

lemma demo_booted_eq: "demo_booted = (demo_registry (\<lambda>_. 0))\<lparr>modules := [0 \<mapsto> new_module\<lparr>handle := 1, moduleStub := Some demo_lmgr, refCount := UINT_MAX,
                originalName := ''lmgr'', normalizedName := ''lmgr.dll''\<rparr>], nextModule := 1, g_nextStubHandle := 2,
   modulesByKey := [(''lmgr.dll'', 0)], modulesByAlias := [''lmgr'' \<mapsto> 0, ''lmgr.dll'' \<mapsto> 0],
   builtinAliasMap := [''lmgr'' \<mapsto> 0, ''lmgr.dll'' \<mapsto> 0], pinnedAliases := {''lmgr'', ''lmgr.dll''}, pinnedModules := {0}\<rparr>"
  by (simp add: demo_booted_def registerBuiltinModule_def demo_lmgr_def Let_def builtin_name_def builtin_alias_def demo_names
      registerAlias_def demo_registry_def set_mod_def put_key_def insert_commute)

definition demo_missing :: MWorld where
  "demo_missing = (demo_registry (\<lambda>_. 0))\<lparr>stubNames := [(''F'', ''A'')], stubCache := [makeStubKey ''A'' ''F'' \<mapsto> 4096]\<rparr>"

definition demo_attached :: MWorld where
  "demo_attached = (demo_registry (\<lambda>_. 0))\<lparr>modules := [0 \<mapsto> new_module\<lparr>handle := 1, originalName := ''a.dll'', executable := Some (new_executable\<lparr>entryPoint := 0x401000\<rparr>),
      refCount := 1, processAttachCalled := True, processAttachSucceeded := True\<rparr>], nextModule := 1,
      modulesByKey := [(''a.dll'', 0)], modulesByAlias := [''a.dll'' \<mapsto> 0], guestCalls := [DllMain 0 1]\<rparr>"

text \<open>A module with one exported function \<open>f\<close> at \<open>0x401000\<close>, ordinal 1.\<close>

definition demo_export_memory :: mem where
  "demo_export_memory = (\<lambda>_. 0)(0x400020 := 1, 0x400024 := 1, 0x400028 := 1, 0x40002D := 1, 0x400030 := 4, 0x400031 := 1,
     0x400034 := 8, 0x400035 := 1, 0x400101 := 0x10, 0x400104 := 0xC, 0x400105 := 1, 0x40010C := 0x66)"

definition demo_exporter :: Executable where
  "demo_exporter = new_executable\<lparr>imageBase := 0x400000, exportDirectoryRVA := 0x10, exportDirectorySize := 0x40\<rparr>"

lemma demo_export_fields:
  "export_dir demo_exporter = 0x400010" "function_count demo_export_memory demo_exporter = 1"
  "name_count demo_export_memory demo_exporter = 1" "function_rva demo_export_memory demo_exporter 0 = 0x1000"
  "name_index demo_export_memory demo_exporter 0 = 0" "load32 demo_export_memory 0x400020 = 1"
  "name_ordinal demo_export_memory demo_exporter 0 = 1" "export_name demo_export_memory demo_exporter 0 = ''f''"
proof -
  have e: "export_dir demo_exporter = 0x400010" by (simp add: export_dir_def demo_exporter_def fromRVA_def addp_def)
  note d = load32_def load16_def le32_def le16_def demo_export_memory_def addp_def fromRVA_def demo_exporter_def
  show "export_dir demo_exporter = 0x400010" by (rule e)
  show "function_count demo_export_memory demo_exporter = 1" "name_count demo_export_memory demo_exporter = 1"
    by (simp_all add: function_count_def name_count_def e) (simp_all add: d)
  show "function_rva demo_export_memory demo_exporter 0 = 0x1000" by (simp add: function_rva_def e) (simp add: d)
  show i: "name_index demo_export_memory demo_exporter 0 = 0" by (simp add: name_index_def e) (simp add: d)
  show b: "load32 demo_export_memory 0x400020 = 1" by (simp add: d)
  show "name_ordinal demo_export_memory demo_exporter 0 = 1" by (simp add: name_ordinal_def e i addp_def b)
  have "c_string demo_export_memory 0x40010C = ''f''"
    by (simp add: c_string.simps demo_export_memory_def) (simp add: char_of_def bit_0)
  then show "export_name demo_export_memory demo_exporter 0 = ''f''" by (simp add: export_name_def e) (simp add: d)
qed

definition demo_exports :: MWorld where
  "demo_exports = (demo_registry demo_export_memory)\<lparr>modules := [0 \<mapsto> new_module\<lparr>executable := Some demo_exporter\<rparr>], nextModule := 1\<rparr>"

section \<open>Properties\<close>

text \<open>
  C2: whatever sequence of loads, releases, lookups and thread notifications the program makes, after any start of the registry and
  whatever the entry points answer, the calls of a module's entry point follow the protocol of DLLs: first one
  \<^verbatim>\<open>DLL_PROCESS_ATTACH\<close>, then only thread notifications, then at most one
  \<^verbatim>\<open>DLL_PROCESS_DETACH\<close>, which comes at once when the attach fails and after which there is no call; and the
  two flags of the module say at every moment how far it is.
\<close>
theorem dllmain_protocol:
  assumes "started env w" "i < nextModule w"
  shows "entry_protocol (mod_of w i) (entry_calls i (guestCalls w))"
  using protocol_started [OF assms(1)] assms(2) by (simp add: protocol_inv_def)

lemma dllmain_protocol_witness:
  "started demo_env demo_booted \<and> 0 < nextModule demo_booted \<and>
   entry_protocol (mod_of demo_booted 0) (entry_calls 0 (guestCalls demo_booted))"
  using dllmain_protocol [OF demo_started(2), of 0] demo_started(2) by (simp add: demo_booted_eq)

text \<open>
  A key names its pair: the colon that \<^verbatim>\<open>makeStubKey\<close> puts between the folded names is the first one in the key, as long as
  the name of the module has none.
\<close>

lemma lower_colon [simp]: "CHR '':'' \<in> set (stringToLower s) \<longleftrightarrow> CHR '':'' \<in> set s"
proof -
  have tl: "CHR '':'' = c_tolower c \<longleftrightarrow> CHR '':'' = c" for c
  proof (cases "65 \<le> (of_char c :: nat) \<and> (of_char c :: nat) \<le> 90")
    case True
    then have "of_char (c_tolower c) = (of_char c + 32 :: nat)" by (simp add: c_tolower_def of_char_of)
    moreover have "of_char (CHR '':'') = (58 :: nat)" by simp
    ultimately have "(of_char (CHR '':'') :: nat) \<noteq> of_char (c_tolower c)" "(of_char (CHR '':'') :: nat) \<noteq> of_char c" using True by linarith+
    then have "CHR '':'' \<noteq> c_tolower c" "CHR '':'' \<noteq> c" by metis+
    then show ?thesis by blast
  next
    case False
    then have "c_tolower c = c" unfolding c_tolower_def by (simp only: if_False)
    then show ?thesis by simp
  qed
  show ?thesis
  proof (induction s)
    case (Cons c s)
    then show ?case unfolding stringToLower_def by (simp only: list.map list.set insert_iff tl)
  qed (simp add: stringToLower_def)
qed

lemma stub_key_pair:
  assumes "CHR '':'' \<notin> set d" "CHR '':'' \<notin> set d'"
  shows "makeStubKey d f = makeStubKey d' f' \<longleftrightarrow> stringToLower d = stringToLower d' \<and> stringToLower f = stringToLower f'"
proof
  assume k: "makeStubKey d f = makeStubKey d' f'"
  have t: "takeWhile (\<lambda>c. c \<noteq> CHR '':'') (x @ '':'' @ y) = x" if "CHR '':'' \<notin> set x" for x y
    using that by (subst takeWhile_append2) auto
  have "stringToLower d = stringToLower d'"
    using arg_cong [OF k, of "takeWhile (\<lambda>c. c \<noteq> CHR '':'')"] t [of "stringToLower d" "stringToLower f"]
      t [of "stringToLower d'" "stringToLower f'"] assms by (simp add: makeStubKey_def)
  with k show "stringToLower d = stringToLower d' \<and> stringToLower f = stringToLower f'" by (simp add: makeStubKey_def)
qed (simp add: makeStubKey_def)

text \<open>A pair without colons has its key to itself.\<close>

lemma stub_key_own:
  assumes "CHR '':'' \<notin> set d" "CHR '':'' \<notin> set f" "makeStubKey d' f' = makeStubKey d f"
  shows "stringToLower d' = stringToLower d \<and> stringToLower f' = stringToLower f"
proof -
  define P where "P = (\<lambda>c. c = CHR '':'')"
  have colons: "length (filter P (makeStubKey x y)) = length (filter P (stringToLower x)) + 1 + length (filter P (stringToLower y))" for x y
    by (simp add: makeStubKey_def P_def)
  have none: "length (filter P (stringToLower x)) = 0 \<longleftrightarrow> CHR '':'' \<notin> set x" for x
    using lower_colon [of x] by (auto simp: filter_empty_conv P_def simp del: lower_colon)
  have "length (filter P (stringToLower d')) = 0"
    using colons [of d' f'] colons [of d f] none [of d] none [of f] assms by simp
  then have "CHR '':'' \<notin> set d'" by (rule none [THEN iffD1])
  then show ?thesis using stub_key_pair [of d' d f' f] assms(1,3) by simp
qed

text \<open>With a colon in the name of a module the pairs are not apart.\<close>

lemma stub_keys_collide: "makeStubKey ''a:b'' ''c'' = makeStubKey ''a'' ''b:c''"
  by (simp add: makeStubKey_def stringToLower_def c_tolower_def)

text \<open>
  C19: stubs for missing functions are one to one with pairs of a module and a function, without regard to case, for names
  without a colon: once a pair has a stub, every later request, after any calls of the registry, gets the same
  address if and only if its module and its function have the same names, the address is one of the 256 thunks, and the
  thunk's entry holds the names of the pair.
\<close>
theorem stubs_one_to_one:
  assumes "started env w" "inj (stubFuncs env)" "resolveMissingFuncName env dll func w = Some (a, w')"
    "calls env w' w''" "resolveMissingFuncName env dll2 func2 w'' = Some (a2, v)"
    "CHR '':'' \<notin> set dll" "CHR '':'' \<notin> set func" "CHR '':'' \<notin> set dll2"
  shows "(a2 = a) = (stringToLower dll2 = stringToLower dll \<and> stringToLower func2 = stringToLower func) \<and>
    (\<exists>k < MAX_STUBS. a = stubFuncs env k \<and>
       (case stubNames w' ! k of (f, d) \<Rightarrow> stringToLower d = stringToLower dll \<and> stringToLower f = stringToLower func))"
proof -
  note inv = stub_inv_started [OF assms(1)]
  note s1 = missing_stub [OF inv assms(3)]
  have ids: "ids_ok w'"
    using started_boots [OF assms(1)] runs_ids_ok(1) [OF runs_missing [OF assms(3)]] by blast
  note s2 = stubs_extend_runs [OF calls_runs [OF assms(4) ids] s1(1)]
  note s3 = missing_stub [OF conjunct1 [OF s2] assms(5)]
  have "stubs_extend w' v" by (rule stubs_extend_trans [OF conjunct2 [OF s2] s3(2)])
  then have "stubCache v (makeStubKey dll func) = Some a" using s1(3) by (auto simp: stubs_extend_def map_le_def dom_def)
  with stub_distinct [OF s3(1) assms(2), of "makeStubKey dll2 func2" _ "makeStubKey dll func"] s3(3)
  have "(a2 = a) = (makeStubKey dll2 func2 = makeStubKey dll func)" by auto
  then have "(a2 = a) = (stringToLower dll2 = stringToLower dll \<and> stringToLower func2 = stringToLower func)"
    by (simp add: stub_key_pair [OF assms(8,6)])
  moreover obtain k where k: "k < length (stubNames w')" "stub_key w' k = makeStubKey dll func" "stubFuncs env k = a"
    using s1(1,3) unfolding stub_inv_def by blast
  moreover have "length (stubNames w') \<le> MAX_STUBS" using s1(1) by (simp add: stub_inv_def)
  moreover note stub_key_own [OF assms(6,7) k(2) [unfolded stub_key_def]]
  ultimately show ?thesis by (auto simp: case_prod_unfold intro!: exI [of _ k])
qed

lemma stubs_one_to_one_witness:
  "resolveMissingFuncName demo_env ''A'' ''F'' (demo_registry (\<lambda>_. 0)) = Some (4096, demo_missing) \<and>
   resolveMissingFuncName demo_env ''a'' ''f'' demo_missing = Some (4096, demo_missing) \<and>
   stringToLower ''a'' = stringToLower ''A'' \<and> stringToLower ''f'' = stringToLower ''F'' \<and>
   (\<exists>k < MAX_STUBS. (4096::nat) = stubFuncs demo_env k)"
proof -
  have r1: "resolveMissingFuncName demo_env ''A'' ''F'' (demo_registry (\<lambda>_. 0)) = Some (4096, demo_missing)"
    by (simp add: resolveMissingFuncName_def demo_registry_def demo_missing_def demo_env_def Let_def MAX_STUBS_def)
  have key: "makeStubKey ''a'' ''f'' = makeStubKey ''A'' ''F''" by code_simp
  then have r2: "resolveMissingFuncName demo_env ''a'' ''f'' demo_missing = Some (4096, demo_missing)"
    by (simp add: resolveMissingFuncName_def demo_missing_def)
  have i: "inj (stubFuncs demo_env)" by (auto simp: demo_env_def inj_def)
  have c: "calls demo_env demo_missing demo_missing" by (simp add: calls_def)
  show ?thesis using stubs_one_to_one [OF demo_started(1) i r1 c r2] r1 r2 by auto
qed



text \<open>
  C18: references are counted. \<open>k\<close> more loads of a name that is bound to an external module all return it and add \<open>k\<close>
  references; fewer releases than references leave it bound, attached and undisturbed; the last one calls its entry point
  with \<^verbatim>\<open>DLL_PROCESS_DETACH\<close> and removes every name of it; releases after that do nothing.
\<close>
theorem references_balance:
  assumes "bound_external name i w" "executable (mod_of w i) = Some e" "entryPoint e \<noteq> 0" "mainModule env \<noteq> Some i"
    "processAttachCalled (mod_of w i)" "processAttachSucceeded (mod_of w i)" "modules w i \<noteq> None"
    "refCount (mod_of w i) = Suc n" "Suc n + k < UINT_MAX" "j \<le> n + k"
  shows "\<exists>w'. load_times env ops name k w = Some (replicate k (Some i), w') \<and>
     refCount (mod_of (free_times env i j w') i) = Suc n + k - j \<and>
     bound_external name i (free_times env i j w') \<and> guestCalls (free_times env i j w') = guestCalls w \<and>
     (let v = free_times env i (Suc n + k) w' in
       refCount (mod_of v i) = 0 \<and> (\<forall>a. modulesByAlias v a \<noteq> Some i) \<and>
       entry_calls i (guestCalls v) = entry_calls i (guestCalls w) @ [DLL_PROCESS_DETACH] \<and> freeModule env i v = v)"
proof -
  let ?w' = "add_refs i k w"
  have l: "load_times env ops name k w = Some (replicate k (Some i), ?w')"
    by (rule load_times_adds [OF assms(1,7)]) (use assms(8,9) in simp)
  have m': "mod_of ?w' i = (mod_of w i)\<lparr>refCount := Suc n + k\<rparr>" "modules ?w' i \<noteq> None"
    using assms(8) by (simp_all add: add_refs_def)
  have f: "free_times env i x ?w' = set_mod i ((mod_of w i)\<lparr>refCount := Suc n + k - x\<rparr>) w" if "x \<le> n + k" for x
    using free_times_less [of ?w' i x env] that assms(8,9) m' by (simp add: add_refs_def)
  have snoc: "free_times env i (Suc x) v = freeModule env i (free_times env i x v)" for x v by (induction x arbitrary: v) auto
  let ?u = "set_mod i ((mod_of w i)\<lparr>refCount := 1\<rparr>) w"
  have last: "free_times env i (Suc n + k) ?w' = freeModule env i ?u" using snoc [of "n + k" ?w'] f [of "n + k"] by simp
  have u: "refCount (mod_of ?u i) = 1" "executable (mod_of ?u i) = Some e" "processAttachCalled (mod_of ?u i)"
    "processAttachSucceeded (mod_of ?u i)" using assms by simp_all
  note r = last_release [OF u(1,2) assms(3,4) u(3,4)]
  have "freeModule env i (freeModule env i ?u) = freeModule env i ?u" using r(1) by (simp add: freeModule_def)
  with l last r f [OF assms(10)] assms(1) show ?thesis
    by (intro exI [of _ ?w']) (simp add: Let_def bound_external_def is_builtin_def)
qed

lemma references_balance_witness:
  "\<exists>w'. load_times demo_env (module_ops demo_env 0) ''a.dll'' 2 demo_attached = Some ([Some 0, Some 0], w') \<and>
     refCount (mod_of (free_times demo_env 0 2 w') 0) = 1 \<and>
     entry_calls 0 (guestCalls (free_times demo_env 0 3 w')) = [1, 0]"
proof -
  have "bound_external ''a.dll'' 0 demo_attached"
    by (simp add: bound_external_def demo_names is_builtin_def demo_attached_def mod_of_def new_module_def)
  from references_balance [OF this, of "new_executable\<lparr>entryPoint := 0x401000\<rparr>" demo_env 0 2 2 "module_ops demo_env 0"]
  show ?thesis by (auto simp: demo_attached_def mod_of_def demo_env_def UINT_MAX_def Let_def numeral_2_eq_2 numeral_3_eq_3)
qed

text \<open>
  The export table is read as the directory in the image has it. For a directory without forwarders, a name that is listed
  at \<open>k\<close>, with an index into the table of functions and an ordinal below 65536, and not again later, is found,
  and its address is the function's in the image, or none if the table has none; and the lookup by the ordinal finds the same.
\<close>
theorem export_lookup:
  assumes "executable (mod_of w i) = Some exe" "\<not> exportsInitialized (mod_of w i)" "moduleStub (mod_of w i) = None"
    "exportDirectoryRVA exe \<noteq> 0" "exportDirectorySize exe \<noteq> 0"
    "\<forall>f < function_count (memory w) exe. \<not> is_forwarder (memory w) exe f"
    "k < name_count (memory w) exe" "unat (name_index (memory w) exe k) < function_count (memory w) exe"
    "\<forall>j \<in> {k <..< name_count (memory w) exe}. export_name (memory w) exe j \<noteq> export_name (memory w) exe k"
    "unat (load32 (memory w) (addp (export_dir exe) 16)) + unat (name_index (memory w) exe k) < 2 ^ 16"
  shows "\<exists>w'. findExportByName env ops (Some i) (export_name (memory w) exe k) w =
      Some (export_address (memory w) exe (unat (name_index (memory w) exe k)), w') \<and> memory w' = memory w \<and>
      findExportByOrdinal env ops (Some i) (name_ordinal (memory w) exe k) w =
      Some (export_address (memory w) exe (unat (name_index (memory w) exe k)), w')"
proof -
  let ?m = "memory w"
  let ?mi = "read_exports ?m exe (mod_of w i)"
  let ?w' = "set_mod i ?mi w"
  note r = exports_read [OF assms(1,2,4,5,6), of env ops]
  have again: "ensureExportsInitialized env ops i ?w' = Some ?w'"
    using assms(1) by (simp add: ensureExportsInitialized_def read_exports_def Let_def)
  have "[0..<name_count ?m exe] = [0..<k] @ k # [Suc k..<name_count ?m exe]"
    using assms(7) by (metis upt_add_eq_append upt_conv_Cons le_add_diff_inverse less_imp_le zero_le)
  from fold_map_update [OF this, of "\<lambda>k. unat (name_index ?m exe k) < function_count ?m exe" "export_name ?m exe" "name_ordinal ?m exe"]
  have o: "exportNameToOrdinal ?mi (export_name ?m exe k) = Some (name_ordinal ?m exe k)"
    using assms(8,9) by (auto simp: read_exports_def Let_def)
  note ix = name_ordinal_value [OF assms(10)]
  let ?a = "export_address ?m exe (unat (name_index ?m exe k))"
  have t: "exportOrdinalBase ?mi = load32 ?m (addp (export_dir exe) 16)" "moduleStub ?mi = None" "exportsByOrdinal ?mi \<noteq> []"
    "exportsByOrdinal ?mi ! unat (name_index ?m exe k) = ?a" "unat (name_index ?m exe k) < length (exportsByOrdinal ?mi)"
    using assms(3,8) by (auto simp: read_exports_def Let_def)
  have "findExportByOrdinal env ops (Some i) (name_ordinal ?m exe k) ?w' = Some (?a, ?w')"
    using t ix again by (simp add: findExportByOrdinal_def Let_def)
  moreover have "findExportByOrdinal env ops (Some i) (name_ordinal ?m exe k) w = Some (?a, ?w')"
    using t ix r assms(3) by (simp add: findExportByOrdinal_def Let_def)
  ultimately show ?thesis using r o assms(3) by (intro exI [of _ ?w']) (simp add: findExportByName_def Let_def)
qed

lemma export_lookup_witness:
  "\<exists>w'. findExportByName demo_env (module_ops demo_env 0) (Some 0) ''f'' demo_exports = Some (0x401000, w') \<and>
        findExportByOrdinal demo_env (module_ops demo_env 0) (Some 0) 1 demo_exports = Some (0x401000, w')"
proof -
  have m: "memory demo_exports = demo_export_memory" by (simp add: demo_exports_def demo_registry_def)
  have x: "executable (mod_of demo_exports 0) = Some demo_exporter" "\<not> exportsInitialized (mod_of demo_exports 0)"
    "moduleStub (mod_of demo_exports 0) = None" "exportDirectoryRVA demo_exporter \<noteq> 0" "exportDirectorySize demo_exporter \<noteq> 0"
    by (simp_all add: demo_exports_def mod_of_def new_module_def demo_exporter_def)
  have f: "\<forall>f < function_count (memory demo_exports) demo_exporter. \<not> is_forwarder (memory demo_exports) demo_exporter f"
    by (simp add: m demo_export_fields is_forwarder_def) (simp add: demo_exporter_def)
  have a: "export_address demo_export_memory demo_exporter 0 = 0x401000"
    by (simp add: export_address_def demo_export_fields) (simp add: fromRVA_def addp_def demo_exporter_def)
  from export_lookup [OF x f, of 0 demo_env "module_ops demo_env 0"] show ?thesis
    by (auto simp: m demo_export_fields a addp_def)
qed

end
