(* ===== verification/Import_Properties.thy ===== *)
theory Import_Properties
  imports Module_Properties Pe_Relocations
begin

unbundle bit_operations_syntax

text \<open>
  Filling the address table of an import directory (\<^verbatim>\<open>Executable::resolveImports\<close>): every slot gets the function that the built-in
  library offers for the entry, by name or by ordinal, and nothing else in memory changes.
\<close>

section \<open>Functions of a built-in library\<close>

definition entry_name :: "mem \<Rightarrow> Executable \<Rightarrow> u32 \<Rightarrow> string" where
  "entry_name m exe v = c_string m (addp (fromRVA exe v) 2)"

definition imported_function :: "ModuleStub \<Rightarrow> mem \<Rightarrow> Executable \<Rightarrow> u32 \<Rightarrow> nat" where
  "imported_function stub m exe v =
     (if v AND 0x80000000 \<noteq> 0 then (case byOrdinal stub of Some g \<Rightarrow> g (ucast (v AND 0xFFFF)) | None \<Rightarrow> 0)
      else case byName stub of Some g \<Rightarrow> g (entry_name m exe v) | None \<Rightarrow> 0)"

lemma builtin_by_name:
  "moduleStub (mod_of w i) = Some stub \<Longrightarrow> (case byName stub of Some g \<Rightarrow> g f | None \<Rightarrow> 0) = a \<Longrightarrow> a \<noteq> 0 \<Longrightarrow>
     resolveFuncByName env ops i f w = Some (a, w)"
  by (simp add: resolveFuncByName_def findExportByName_def)

lemma builtin_by_ordinal:
  "moduleStub (mod_of w i) = Some stub \<Longrightarrow> (case byOrdinal stub of Some g \<Rightarrow> g k | None \<Rightarrow> 0) = a \<Longrightarrow> a \<noteq> 0 \<Longrightarrow>
     resolveFuncByOrdinal env ops i k w = Some (a, w)"
  by (simp add: resolveFuncByOrdinal_def findExportByOrdinal_def)

section \<open>Memory\<close>

lemma c_string_cong: "(\<And>x. a \<le> x \<Longrightarrow> x \<le> a + length (c_string m a) \<Longrightarrow> m' x = m x) \<Longrightarrow> c_string m' a = c_string m a"
proof (induction m a rule: c_string.induct)
  case (1 m a)
  show ?case
  proof (cases "a \<ge> 2 ^ 32 \<or> m a = 0")
    case True
    with 1(2) [of a] show ?thesis by (simp add: c_string.simps [of _ a])
  next
    case False
    then have c: "c_string m a = char_of (unat (m a)) # c_string m (a + 1)" by (subst c_string.simps) simp
    have "m' x = m x" if "a + 1 \<le> x" "x \<le> a + 1 + length (c_string m (a + 1))" for x
      using that by (intro 1(2)) (simp_all add: c)
    from 1(1) [OF False this] have "c_string m' (a + 1) = c_string m (a + 1)" by simp
    moreover have "m' a = m a" by (rule 1(2)) simp_all
    ultimately show ?thesis using False by (simp add: c c_string.simps [of m' a])
  qed
qed

text \<open>A string in memory that no byte between two addresses belongs to.\<close>

definition string_clear :: "mem \<Rightarrow> nat \<Rightarrow> nat \<Rightarrow> nat \<Rightarrow> bool" where
  "string_clear m lo hi a \<longleftrightarrow> a + length (c_string m a) < lo \<or> hi \<le> a"

lemma entry_name_kept:
  assumes "\<forall>x. x < lo \<or> hi \<le> x \<longrightarrow> m' x = m x" "string_clear m lo hi (addp (fromRVA exe v) 2)"
  shows "entry_name m' exe v = entry_name m exe v"
  unfolding entry_name_def using assms by (intro c_string_cong) (auto simp: string_clear_def)

text \<open>A table of \<open>n\<close> entries at \<open>l\<close> with its terminator, apart from the address table at \<open>a\<close>; the names of its entries are, too.\<close>

definition import_table_ok :: "mem \<Rightarrow> Executable \<Rightarrow> ModuleStub \<Rightarrow> nat \<Rightarrow> nat \<Rightarrow> nat \<Rightarrow> bool" where
  "import_table_ok m exe stub l a n \<longleftrightarrow> l + 4 * (n + 1) < 2 ^ 32 \<and> a + 4 * n < 2 ^ 32 \<and> (l + 4 * (n + 1) \<le> a \<or> a + 4 * n \<le> l) \<and>
     load32 m (l + 4 * n) = 0 \<and>
     (\<forall>k < n. load32 m (l + 4 * k) \<noteq> 0 \<and> imported_function stub m exe (load32 m (l + 4 * k)) \<noteq> 0 \<and>
        string_clear m a (a + 4 * n) (addp (fromRVA exe (load32 m (l + 4 * k))) 2))"

lemma import_entries_from:
  assumes ok: "import_table_ok m exe stub l a n" and s: "moduleStub (mod_of w i) = Some stub"
    and k: "k \<le> n" and same: "\<forall>x. x < a \<or> a + 4 * n \<le> x \<longrightarrow> memory w x = m x"
  shows "\<exists>m'. import_entries env (module_ops env (Suc d)) (Some i) dll exe (l + 4 * k) (a + 4 * k) w = Some (w\<lparr>memory := m'\<rparr>) \<and>
     (\<forall>j < n. load32 m' (a + 4 * j) = (if j < k then load32 (memory w) (a + 4 * j)
        else of_nat (imported_function stub m exe (load32 m (l + 4 * j))))) \<and> (\<forall>x. x < a \<or> a + 4 * n \<le> x \<longrightarrow> m' x = m x)"
  using s k same
proof (induction "n - k" arbitrary: k w)
  case 0
  then have "k = n" by simp
  moreover have "load32 (memory w) (l + 4 * n) = load32 m (l + 4 * n)"
    using ok 0(4) by (intro load32_cong) (auto simp: import_table_ok_def)
  ultimately show ?case using ok 0(4)
    by (subst import_entries.simps) (auto simp: import_table_ok_def intro!: exI [of _ "memory w"])
next
  case (Suc x)
  then have kn: "k < n" by simp
  let ?v = "load32 m (l + 4 * k)"
  let ?f = "imported_function stub m exe ?v"
  let ?w1 = "w\<lparr>memory := store32 (a + 4 * k) (of_nat ?f) (memory w)\<rparr>"
  have bounds: "a + 4 * k + 4 \<le> 2 ^ 32" "l + 4 * k + 4 < 2 ^ 32" using ok kn by (auto simp: import_table_ok_def)
  have v: "load32 (memory w) (l + 4 * k) = ?v"
    using ok Suc.prems(3) kn by (intro load32_cong) (auto simp: import_table_ok_def)
  have f: "?v \<noteq> 0" "?f \<noteq> 0" "entry_name (memory w) exe ?v = entry_name m exe ?v"
    using ok kn entry_name_kept [OF Suc.prems(3)] by (auto simp: import_table_ok_def)
  have step: "import_entries env (module_ops env (Suc d)) (Some i) dll exe (l + 4 * k) (a + 4 * k) w =
      import_entries env (module_ops env (Suc d)) (Some i) dll exe (l + 4 * Suc k) (a + 4 * Suc k) ?w1"
  proof -
    have "addp (l + 4 * k) 4 = l + 4 * Suc k" using bounds by (simp add: addp_def)
    moreover have "addp (a + 4 * k) 4 = a + 4 * Suc k" using ok kn by (auto simp: addp_def import_table_ok_def)
    moreover have "(if ?v AND 0x80000000 \<noteq> 0 then resolveFuncByOrdinal env (module_ops env d) i (ucast (?v AND 0xFFFF)) w
        else resolveFuncByName env (module_ops env d) i (entry_name (memory w) exe ?v) w) = Some (?f, w)"
      using f Suc.prems(1) by (auto simp: imported_function_def intro!: builtin_by_name builtin_by_ordinal)
    ultimately show ?thesis using f(1) by (subst import_entries.simps) (auto simp: v Let_def entry_name_def split: if_splits)
  qed
  have same1: "\<forall>x. x < a \<or> a + 4 * n \<le> x \<longrightarrow> memory ?w1 x = m x"
    using Suc.prems(3) kn bounds(1) by (auto simp: store32_outside)
  have x: "x = n - Suc k" "Suc k \<le> n" using Suc.hyps(2) kn by simp_all
  have s1: "moduleStub (mod_of ?w1 i) = Some stub" using Suc.prems(1) by (simp add: mod_of_def)
  obtain m' where m': "import_entries env (module_ops env (Suc d)) (Some i) dll exe (l + 4 * Suc k) (a + 4 * Suc k) ?w1 = Some (?w1\<lparr>memory := m'\<rparr>)"
    "\<forall>j < n. load32 m' (a + 4 * j) = (if j < Suc k then load32 (memory ?w1) (a + 4 * j)
        else of_nat (imported_function stub m exe (load32 m (l + 4 * j))))" "\<forall>x. x < a \<or> a + 4 * n \<le> x \<longrightarrow> m' x = m x"
    using Suc.hyps(1) [OF _ _ _ same1, of "Suc k"] x kn s1 by blast
  have "load32 (store32 (a + 4 * k) (of_nat ?f) (memory w)) (a + 4 * j) = load32 (memory w) (a + 4 * j)" if "j < k" for j
    using that bounds by (intro load_store_apart) (auto simp: apart_def)
  with m' step bounds(1) show ?case by (intro exI [of _ m']) (auto simp: less_Suc_eq)
qed

text \<open>
  C5: resolving the imports from a built-in library ends and binds every slot of the address table: after it, slot \<open>k\<close> holds the
  function that the library offers for entry \<open>k\<close> of the lookup table, by ordinal when its top bit is set and by the
  name it points at otherwise; no byte outside the address table changes, nor any part of the registry.
\<close>
theorem imports_bound:
  assumes "import_table_ok (memory w) exe stub l a n" "moduleStub (mod_of w i) = Some stub"
  shows "\<exists>m'. import_entries env (module_ops env (Suc d)) (Some i) dll exe l a w = Some (w\<lparr>memory := m'\<rparr>) \<and>
     (\<forall>k < n. load32 m' (a + 4 * k) = of_nat (imported_function stub (memory w) exe (load32 (memory w) (l + 4 * k)))) \<and>
     (\<forall>x. x < a \<or> a + 4 * n \<le> x \<longrightarrow> m' x = memory w x)"
  using import_entries_from [OF assms, of 0 env d dll] by simp

text \<open>One entry, for the function \<open>f\<close> of a library.\<close>

definition demo_import_memory :: mem where
  "demo_import_memory = (\<lambda>_. 0)(0x400100 := 0x20, 0x400101 := 2, 0x400222 := 0x66)"

definition demo_library :: ModuleStub where
  "demo_library = \<lparr>stub_names = [''lib''], byName = Some (\<lambda>f. if f = ''f'' then 0x7000 else 0), byOrdinal = None, dllData = []\<rparr>"

definition demo_importer :: MWorld where
  "demo_importer = (demo_registry demo_import_memory)\<lparr>modules := [0 \<mapsto> new_module\<lparr>moduleStub := Some demo_library\<rparr>], nextModule := 1\<rparr>"

lemma imports_bound_witness:
  "import_table_ok demo_import_memory (new_executable\<lparr>imageBase := 0x400000\<rparr>) demo_library 0x400100 0x400110 1 \<and>
   (\<exists>m'. import_entries demo_env (module_ops demo_env 1) (Some 0) 0 (new_executable\<lparr>imageBase := 0x400000\<rparr>) 0x400100 0x400110
          demo_importer = Some (demo_importer\<lparr>memory := m'\<rparr>) \<and> load32 m' 0x400110 = 0x7000)"
proof -
  let ?e = "new_executable\<lparr>imageBase := 0x400000\<rparr>"
  note d = load32_def le32_def demo_import_memory_def addp_def
  have v: "load32 demo_import_memory 0x400100 = 0x220" "load32 demo_import_memory 0x400104 = 0" by (simp_all add: d)
  have a: "addp (fromRVA ?e 0x220) 2 = 0x400222" by (simp add: fromRVA_def addp_def)
  have n: "c_string demo_import_memory 0x400222 = ''f''"
    by (simp add: c_string.simps demo_import_memory_def) (simp add: char_of_def bit_0)
  have f: "imported_function demo_library demo_import_memory ?e 0x220 = 0x7000"
    by (simp add: imported_function_def entry_name_def a n demo_library_def)
  have ok: "import_table_ok demo_import_memory ?e demo_library 0x400100 0x400110 1"
    by (simp add: import_table_ok_def v f a n string_clear_def)
  have m: "memory demo_importer = demo_import_memory" "moduleStub (mod_of demo_importer 0) = Some demo_library"
    by (simp_all add: demo_importer_def demo_registry_def mod_of_def new_module_def)
  from imports_bound [of demo_importer ?e demo_library "0x400100" "0x400110" 1 0 demo_env 0 0] ok m v f show ?thesis by auto
qed

end
