(* ===== verification/Atoms.thy ===== *)
theory Atoms
  imports Module_Exports Error_Codes Wide_Strings
begin

text \<open>
  The atoms of \<^verbatim>\<open>src/dll/kernel32/winbase.cpp\<close>: the table that gives every name, without regard to case, a number
  from 0xC000 to 0xFFFF, the numbers below that stand for themselves, and the six calls on them. A string
  argument is its address and the characters found from there on; reading past them is \<open>None\<close>. The last error of the
  calling thread is a field of the state.
\<close>

section \<open>The table\<close>

type_synonym ATOM = u16

definition kMinIntegerAtom :: ATOM where "kMinIntegerAtom = 0x0001"
definition kMaxIntegerAtom :: ATOM where "kMaxIntegerAtom = 0xBFFF"
definition kMinStringAtom :: ATOM where "kMinStringAtom = 0xC000"
definition kMaxStringAtom :: ATOM where "kMaxStringAtom = 0xFFFF"

lemmas atom_bounds = kMinIntegerAtom_def kMaxIntegerAtom_def kMinStringAtom_def kMaxStringAtom_def

record AtomData =
  atomRefCount :: u16
  atomOriginal :: string

record AtomTable =
  stringToAtom :: "string \<rightharpoonup> ATOM"
  atomToData :: "ATOM \<rightharpoonup> AtomData"
  nextStringAtom :: ATOM
  atomError :: u32

definition localAtomTable :: AtomTable where
  "localAtomTable = \<lparr>stringToAtom = Map.empty, atomToData = Map.empty, nextStringAtom = kMinStringAtom, atomError = 0\<rparr>"

abbreviation failWith :: "u32 \<Rightarrow> AtomTable \<Rightarrow> AtomTable" where
  "failWith e t \<equiv> t\<lparr>atomError := e\<rparr>"

definition kRange :: nat where
  "kRange = unat (kMaxStringAtom - kMinStringAtom) + 1"

lemma kRange_eq [simp]: "kRange = 16384"
  by (simp add: kRange_def atom_bounds)

text \<open>The loop over the offsets, started at \<open>i\<close>; \<open>None\<close> is the 0 of the code, no candidate left.\<close>

function free_atom :: "(ATOM \<rightharpoonup> AtomData) \<Rightarrow> nat \<Rightarrow> nat \<Rightarrow> ATOM option" where
  "free_atom taken startOffset i =
     (if i < kRange then
        let offset = (startOffset + i) mod kRange; cand = kMinStringAtom + of_nat offset in
        if taken cand = None then Some cand else free_atom taken startOffset (i + 1)
      else None)"
  by pat_completeness auto
termination by (relation "measure (\<lambda>(taken, startOffset, i). kRange - i)") auto

declare free_atom.simps [simp del]

definition allocateStringAtomLocked :: "AtomTable \<Rightarrow> ATOM \<times> AtomTable" where
  "allocateStringAtomLocked t =
     (let startOffset = (if nextStringAtom t \<ge> kMinStringAtom \<and> nextStringAtom t \<le> kMaxStringAtom
                         then unat (nextStringAtom t - kMinStringAtom) else 0) in
      case free_atom (atomToData t) startOffset 0 of
        None \<Rightarrow> (0, t)
      | Some cand \<Rightarrow>
          let nxt = cand + 1 in
          (cand, t\<lparr>nextStringAtom := (if nxt > kMaxStringAtom then kMinStringAtom else nxt)\<rparr>))"

section \<open>Names and numbers\<close>

text \<open>\<open>Some\<close> when the pointer is a number and not an address: the atom, 0 with an error when it is no integer atom.\<close>

definition tryHandleIntegerAtomPointer :: "u32 \<Rightarrow> AtomTable \<Rightarrow> ATOM option \<times> AtomTable" where
  "tryHandleIntegerAtomPointer ptr t =
     (if drop_bit 16 ptr \<noteq> 0 then (None, t)
      else let maybeAtom = ucast (ptr AND 0xFFFF) :: ATOM in
        if maybeAtom < kMinIntegerAtom \<or> maybeAtom > kMaxIntegerAtom then (Some 0, failWith ERROR_INVALID_PARAMETER t)
        else (Some maybeAtom, t))"

definition findAtomByNormalizedKey :: "string \<Rightarrow> AtomTable \<Rightarrow> ATOM \<times> AtomTable" where
  "findAtomByNormalizedKey normalizedKey t =
     (case stringToAtom t normalizedKey of
        None \<Rightarrow> (0, failWith ERROR_FILE_NOT_FOUND t)
      | Some a \<Rightarrow> (a, t))"

text \<open>\<^verbatim>\<open>c_str()\<close> ends at the first null character, which \<^verbatim>\<open>value\<close> itself may contain.\<close>

definition c_str :: "string \<Rightarrow> string" where
  "c_str s = takeWhile (\<lambda>c. c \<noteq> CHR 0x00) s"

text \<open>\<open>None\<close>: not handled.\<close>

definition tryParseIntegerAtomString :: "string \<Rightarrow> AtomTable \<Rightarrow> ATOM option \<times> AtomTable" where
  "tryParseIntegerAtomString name t =
     (if name = [] \<or> hd name \<noteq> CHR ''#'' then (None, t)
      else let digits = c_str (tl name); (parsed, rest) = strtoul10 digits in
        if rest = digits \<or> rest \<noteq> [] then (None, t)
        else if parsed < unat kMinIntegerAtom \<or> parsed > unat kMaxIntegerAtom then (Some 0, failWith ERROR_INVALID_PARAMETER t)
        else (Some (of_nat parsed), t))"

definition findAtomByString :: "string \<Rightarrow> AtomTable \<Rightarrow> ATOM \<times> AtomTable" where
  "findAtomByString name t =
     (case tryParseIntegerAtomString name t of
        (Some a, t1) \<Rightarrow> (a, t1)
      | (None, t1) \<Rightarrow> findAtomByNormalizedKey (stringToLower name) t1)"

definition addAtomByString :: "string \<Rightarrow> AtomTable \<Rightarrow> ATOM \<times> AtomTable" where
  "addAtomByString name t =
     (case tryParseIntegerAtomString name t of
        (Some a, t1) \<Rightarrow> (a, t1)
      | (None, t1) \<Rightarrow>
          if name = [] \<or> length name > 255 then (0, failWith ERROR_INVALID_PARAMETER t1)
          else let normalized = stringToLower name in
            case stringToAtom t1 normalized of
              Some existing \<Rightarrow>
                (existing,
                 case atomToData t1 existing of
                   None \<Rightarrow> t1
                 | Some d \<Rightarrow> if atomRefCount d < 0xFFFF
                            then t1\<lparr>atomToData := (atomToData t1)(existing \<mapsto> d\<lparr>atomRefCount := atomRefCount d + 1\<rparr>)\<rparr>
                            else t1)
            | None \<Rightarrow>
                let (newAtom, t2) = allocateStringAtomLocked t1 in
                if newAtom = 0 then (0, failWith ERROR_NOT_ENOUGH_MEMORY t2)
                else (newAtom,
                      t2\<lparr>stringToAtom := (stringToAtom t2)(normalized \<mapsto> newAtom),
                         atomToData := (atomToData t2)(newAtom \<mapsto> \<lparr>atomRefCount = 1, atomOriginal = name\<rparr>)\<rparr>))"

section \<open>The calls\<close>

fun strnlen :: "string \<Rightarrow> nat \<Rightarrow> nat option" where
  "strnlen s 0 = Some 0"
| "strnlen [] (Suc n) = None"
| "strnlen (c # cs) (Suc n) = (if c = CHR 0x00 then Some 0 else map_option Suc (strnlen cs n))"

text \<open>\<^verbatim>\<open>AddAtomA\<close> and \<^verbatim>\<open>FindAtomA\<close> differ in the last call only, \<^verbatim>\<open>AddAtomW\<close> and \<^verbatim>\<open>FindAtomW\<close> alike.\<close>

definition AddAtomA :: "u32 \<Rightarrow> string \<Rightarrow> AtomTable \<Rightarrow> (ATOM \<times> AtomTable) option" where
  "AddAtomA lpString s t =
     (case tryHandleIntegerAtomPointer lpString t of
        (Some a, t1) \<Rightarrow> Some (a, t1)
      | (None, t1) \<Rightarrow>
          if lpString = 0 then Some (0, failWith ERROR_INVALID_PARAMETER t1)
          else case strnlen s 256 of None \<Rightarrow> None
               | Some len \<Rightarrow> if len = 0 \<or> len \<ge> 256 then Some (0, failWith ERROR_INVALID_PARAMETER t1)
                            else Some (addAtomByString (take len s) t1))"

definition FindAtomA :: "u32 \<Rightarrow> string \<Rightarrow> AtomTable \<Rightarrow> (ATOM \<times> AtomTable) option" where
  "FindAtomA lpString s t =
     (case tryHandleIntegerAtomPointer lpString t of
        (Some a, t1) \<Rightarrow> Some (a, t1)
      | (None, t1) \<Rightarrow>
          if lpString = 0 then Some (0, failWith ERROR_INVALID_PARAMETER t1)
          else case strnlen s 256 of None \<Rightarrow> None
               | Some len \<Rightarrow> if len = 0 \<or> len \<ge> 256 then Some (0, failWith ERROR_INVALID_PARAMETER t1)
                            else Some (findAtomByString (take len s) t1))"

definition AddAtomW :: "u32 \<Rightarrow> u16 list \<Rightarrow> AtomTable \<Rightarrow> (ATOM \<times> AtomTable) option" where
  "AddAtomW lpString s t =
     (case tryHandleIntegerAtomPointer lpString t of
        (Some a, t1) \<Rightarrow> Some (a, t1)
      | (None, t1) \<Rightarrow>
          if lpString = 0 then Some (0, failWith ERROR_INVALID_PARAMETER t1)
          else case wstrnlen (Some (s, 0)) 256 of None \<Rightarrow> None
               | Some len \<Rightarrow>
                   if len = 0 \<or> len \<ge> 256 then Some (0, failWith ERROR_INVALID_PARAMETER t1)
                   else (case wideStringToString (Some (s, 0)) (int len) of None \<Rightarrow> None
                         | Some v \<Rightarrow> Some (addAtomByString (map (char_of o unat) v) t1)))"

definition FindAtomW :: "u32 \<Rightarrow> u16 list \<Rightarrow> AtomTable \<Rightarrow> (ATOM \<times> AtomTable) option" where
  "FindAtomW lpString s t =
     (case tryHandleIntegerAtomPointer lpString t of
        (Some a, t1) \<Rightarrow> Some (a, t1)
      | (None, t1) \<Rightarrow>
          if lpString = 0 then Some (0, failWith ERROR_INVALID_PARAMETER t1)
          else case wstrnlen (Some (s, 0)) 256 of None \<Rightarrow> None
               | Some len \<Rightarrow>
                   if len = 0 \<or> len \<ge> 256 then Some (0, failWith ERROR_INVALID_PARAMETER t1)
                   else (case wideStringToString (Some (s, 0)) (int len) of None \<Rightarrow> None
                         | Some v \<Rightarrow> Some (findAtomByString (map (char_of o unat) v) t1)))"

text \<open>The name of an atom, the first half of \<^verbatim>\<open>GetAtomNameA\<close> and of \<^verbatim>\<open>GetAtomNameW\<close>.\<close>

definition atom_name :: "ATOM \<Rightarrow> AtomTable \<Rightarrow> string option" where
  "atom_name nAtom t =
     (if nAtom \<ge> kMinIntegerAtom \<and> nAtom \<le> kMaxIntegerAtom then Some (CHR ''#'' # to_string (unat nAtom))
      else map_option atomOriginal (atomToData t nAtom))"

text \<open>What is stored at \<^verbatim>\<open>lpBuffer\<close>, the return value and the state.\<close>

definition GetAtomNameA :: "ATOM \<Rightarrow> bool \<Rightarrow> int \<Rightarrow> AtomTable \<Rightarrow> string \<times> nat \<times> AtomTable" where
  "GetAtomNameA nAtom lpBuffer nSize t =
     (if \<not> lpBuffer \<or> nSize \<le> 0 then ([], 0, failWith ERROR_INVALID_PARAMETER t)
      else case atom_name nAtom t of
        None \<Rightarrow> ([], 0, failWith ERROR_INVALID_HANDLE t)
      | Some name \<Rightarrow>
          if length name + 1 > nat nSize then ([], 0, failWith ERROR_INSUFFICIENT_BUFFER t)
          else (name @ [CHR 0x00], length name, t))"

definition GetAtomNameW :: "ATOM \<Rightarrow> bool \<Rightarrow> int \<Rightarrow> AtomTable \<Rightarrow> u16 list \<times> nat \<times> AtomTable" where
  "GetAtomNameW nAtom lpBuffer nSize t =
     (if \<not> lpBuffer \<or> nSize \<le> 0 then ([], 0, failWith ERROR_INVALID_PARAMETER t)
      else case atom_name nAtom t of
        None \<Rightarrow> ([], 0, failWith ERROR_INVALID_HANDLE t)
      | Some narrow \<Rightarrow>
          let wide = stringToWideString (Some (map (of_nat o of_char) narrow)); needed = length wide in
          if needed > nat nSize then ([], 0, failWith ERROR_INSUFFICIENT_BUFFER t)
          else (if needed > 0 then wide[needed - 1 := 0] else wide, if needed > 0 then needed - 1 else 0, t))"

section \<open>Allocation\<close>

lemma string_atom_range: "kMinStringAtom \<le> (a :: ATOM) \<longleftrightarrow> (\<exists>k < kRange. a = kMinStringAtom + of_nat k)"
proof
  assume le: "kMinStringAtom \<le> a"
  have "unat a < 65536" using unsigned_less [of a] by simp
  moreover have "49152 \<le> unat a" using le by (simp add: kMinStringAtom_def word_le_nat_alt)
  moreover have "a = kMinStringAtom + of_nat (unat a - 49152)"
    using \<open>49152 \<le> unat a\<close> by (simp add: kMinStringAtom_def of_nat_diff)
  ultimately show "\<exists>k < kRange. a = kMinStringAtom + of_nat k" by (intro exI [of _ "unat a - 49152"]) simp
next
  assume "\<exists>k < kRange. a = kMinStringAtom + of_nat k"
  then obtain k where k: "k < 16384" and a: "a = kMinStringAtom + of_nat k" by auto
  have u: "unat (of_nat k :: u16) = k" using k by (simp add: unat_of_nat)
  have "unat a = 49152 + k"
    unfolding a kMinStringAtom_def using k by (subst unat_add_lem [THEN iffD1]) (simp_all add: u)
  then show "kMinStringAtom \<le> a" by (simp add: kMinStringAtom_def word_le_nat_alt)
qed

lemma free_atom_Some: "free_atom taken s i = Some a \<Longrightarrow> taken a = None \<and> kMinStringAtom \<le> a"
proof (induction taken s i rule: free_atom.induct)
  case (1 taken s i)
  let ?c = "kMinStringAtom + of_nat ((s + i) mod kRange) :: ATOM"
  have "kMinStringAtom \<le> ?c" by (subst string_atom_range) (intro exI [of _ "(s + i) mod kRange"], simp)
  with 1 show ?case by (subst (asm) (2) free_atom.simps) (auto simp: Let_def split: if_splits)
qed

lemma free_atom_None: "free_atom taken s i = None \<Longrightarrow> i \<le> j \<Longrightarrow> j < kRange
    \<Longrightarrow> taken (kMinStringAtom + of_nat ((s + j) mod kRange)) \<noteq> None"
proof (induction taken s i rule: free_atom.induct)
  case (1 taken s i)
  have i: "i < kRange" using 1 by simp
  have t: "taken (kMinStringAtom + of_nat ((s + i) mod kRange)) \<noteq> None"
    using 1(2) i by (subst (asm) free_atom.simps) (auto simp: Let_def split: if_splits)
  have rest: "free_atom taken s (i + 1) = None"
    using 1(2) i t by (subst (asm) free_atom.simps) (auto simp: Let_def split: if_splits)
  show ?case
  proof (cases "j = i")
    case False
    then have "i + 1 \<le> j" using 1(3) by simp
    then show ?thesis using 1(1) [OF i refl refl _ rest _ 1(4)] t by blast
  qed (use t in simp)
qed

text \<open>No atom is handed out exactly when all 16384 are taken.\<close>

lemma free_atom_complete:
  "free_atom taken s 0 = None \<longleftrightarrow> (\<forall>a \<ge> kMinStringAtom. taken a \<noteq> None)"
proof
  assume none: "free_atom taken s 0 = None"
  show "\<forall>a \<ge> kMinStringAtom. taken a \<noteq> None"
  proof (intro allI impI)
    fix a :: ATOM
    assume "kMinStringAtom \<le> a"
    then obtain k where k: "k < kRange" "a = kMinStringAtom + of_nat k" by (auto simp only: string_atom_range)
    define j where "j = (k + kRange - s mod kRange) mod kRange"
    have "(s + j) mod kRange = k"
    proof -
      have "(s + j) mod kRange = (s mod kRange + (k + kRange - s mod kRange)) mod kRange"
        unfolding j_def by (metis mod_add_eq mod_mod_trivial)
      also have "s mod kRange + (k + kRange - s mod kRange) = k + kRange"
        using mod_less_divisor [of kRange s] by simp
      finally show ?thesis using k(1) by simp
    qed
    moreover have "j < kRange" by (simp add: j_def)
    ultimately show "taken a \<noteq> None" using free_atom_None [OF none le0, of j] k(2) by simp
  qed
next
  assume full: "\<forall>a \<ge> kMinStringAtom. taken a \<noteq> None"
  show "free_atom taken s 0 = None"
  proof (cases "free_atom taken s 0")
    case (Some a)
    then show ?thesis using free_atom_Some [OF Some] full by blast
  qed
qed

section \<open>Names that are numbers\<close>

text \<open>Whether a name is read as a number does not depend on the table.\<close>

definition intAtom :: "string \<Rightarrow> ATOM option" where
  "intAtom s = fst (tryParseIntegerAtomString s localAtomTable)"

lemma tryParse_state [simp]:
  "fst (tryParseIntegerAtomString s t) = intAtom s"
  "stringToAtom (snd (tryParseIntegerAtomString s t)) = stringToAtom t"
  "atomToData (snd (tryParseIntegerAtomString s t)) = atomToData t"
  by (simp_all add: intAtom_def tryParseIntegerAtomString_def Let_def case_prod_unfold)

text \<open>What two spellings have in common when they name the same atom.\<close>

definition atom_key :: "string \<Rightarrow> ATOM + string" where
  "atom_key s = (case intAtom s of Some a \<Rightarrow> Inl a | None \<Rightarrow> Inr (stringToLower s))"

lemma parsed_range: "intAtom s = Some a \<Longrightarrow> a \<le> kMaxIntegerAtom"
proof -
  assume "intAtom s = Some a"
  then consider "a = 0" | n where "n \<le> unat kMaxIntegerAtom" "a = of_nat n"
    unfolding intAtom_def tryParseIntegerAtomString_def Let_def case_prod_unfold
    by (auto split: if_splits simp: not_less)
  then show ?thesis
  proof cases
    case 2
    have "n \<le> 49151" using 2(1) by (simp add: kMaxIntegerAtom_def)
    then have "unat (of_nat n :: u16) = n" by (simp add: unat_of_nat)
    then show ?thesis using 2 by (simp add: word_le_nat_alt)
  qed simp
qed

section \<open>The invariant\<close>

text \<open>Names and atoms are in one-to-one correspondence; what the table stores are string atoms only.\<close>

definition atom_inv :: "AtomTable \<Rightarrow> bool" where
  "atom_inv t \<longleftrightarrow>
     (\<forall>k a. stringToAtom t k = Some a \<longleftrightarrow> (\<exists>d. atomToData t a = Some d \<and> stringToLower (atomOriginal d) = k)) \<and>
     (\<forall>a d. atomToData t a = Some d \<longrightarrow> kMinStringAtom \<le> a \<and> 0 < atomRefCount d \<and> atomOriginal d \<noteq> [] \<and>
        length (atomOriginal d) \<le> 255 \<and> intAtom (atomOriginal d) = None)"

lemma atom_invD:
  assumes "atom_inv t"
  shows "stringToAtom t k = Some a \<Longrightarrow> \<exists>d. atomToData t a = Some d \<and> stringToLower (atomOriginal d) = k"
    and "atomToData t a = Some d \<Longrightarrow> stringToAtom t (stringToLower (atomOriginal d)) = Some a"
    and "atomToData t a = Some d \<Longrightarrow> kMinStringAtom \<le> a"
    and "atomToData t a = Some d \<Longrightarrow> 0 < atomRefCount d"
    and "atomToData t a = Some d \<Longrightarrow> intAtom (atomOriginal d) = None"
  using assms unfolding atom_inv_def by blast+

lemma atom_inv_cong:
  "stringToAtom t' = stringToAtom t \<Longrightarrow> atomToData t' = atomToData t \<Longrightarrow> atom_inv t \<Longrightarrow> atom_inv t'"
  by (simp add: atom_inv_def)

lemma atom_inv_start: "atom_inv localAtomTable"
  by (simp add: atom_inv_def localAtomTable_def)

lemma allocateStringAtomLocked_tables:
  assumes "allocateStringAtomLocked t = (a, t')"
  shows "stringToAtom t' = stringToAtom t" "atomToData t' = atomToData t"
    and "a \<noteq> 0 \<Longrightarrow> atomToData t a = None \<and> kMinStringAtom \<le> a"
    and "a = 0 \<longleftrightarrow> (\<forall>b \<ge> kMinStringAtom. atomToData t b \<noteq> None)"
proof -
  define s where "s = (if nextStringAtom t \<ge> kMinStringAtom \<and> nextStringAtom t \<le> kMaxStringAtom
                         then unat (nextStringAtom t - kMinStringAtom) else 0)"
  note def = assms [unfolded allocateStringAtomLocked_def, folded s_def]
  have zero: "\<not> kMinStringAtom \<le> (0 :: ATOM)" by (simp add: kMinStringAtom_def)
  consider "free_atom (atomToData t) s 0 = None" "a = 0" "t' = t"
    | "free_atom (atomToData t) s 0 = Some a" "\<exists>n. t' = t\<lparr>nextStringAtom := n\<rparr>"
    using def by (cases "free_atom (atomToData t) s 0") (simp_all add: Let_def, blast)
  note branches = this
  show "stringToAtom t' = stringToAtom t" by (cases rule: branches) auto
  show "atomToData t' = atomToData t" by (cases rule: branches) auto
  show "a \<noteq> 0 \<Longrightarrow> atomToData t a = None \<and> kMinStringAtom \<le> a"
    by (cases rule: branches) (simp_all add: free_atom_Some)
  show "a = 0 \<longleftrightarrow> (\<forall>b \<ge> kMinStringAtom. atomToData t b \<noteq> None)"
    unfolding free_atom_complete [of "atomToData t" s, symmetric]
  proof (cases rule: branches)
    case 2
    then show "a = 0 \<longleftrightarrow> free_atom (atomToData t) s 0 = None" using free_atom_Some [OF 2(1)] zero by auto
  qed simp
qed

text \<open>The two changes \<^verbatim>\<open>addAtomByString\<close> makes to the tables.\<close>

definition bump_atom :: "ATOM \<Rightarrow> AtomTable \<Rightarrow> AtomTable" where
  "bump_atom a t = (case atomToData t a of None \<Rightarrow> t
     | Some d \<Rightarrow> if atomRefCount d < 0xFFFF
                then t\<lparr>atomToData := (atomToData t)(a \<mapsto> d\<lparr>atomRefCount := atomRefCount d + 1\<rparr>)\<rparr> else t)"

definition enter_atom :: "string \<Rightarrow> ATOM \<Rightarrow> AtomTable \<Rightarrow> AtomTable" where
  "enter_atom s a t = t\<lparr>stringToAtom := (stringToAtom t)(stringToLower s \<mapsto> a),
     atomToData := (atomToData t)(a \<mapsto> \<lparr>atomRefCount = 1, atomOriginal = s\<rparr>)\<rparr>"

text \<open>The names a table has: what every later table keeps.\<close>

definition atom_text :: "AtomTable \<Rightarrow> ATOM \<rightharpoonup> string" where
  "atom_text t a = map_option atomOriginal (atomToData t a)"

lemma bump_atom_tables [simp]:
  "stringToAtom (bump_atom a t) = stringToAtom t" "atom_text (bump_atom a t) = atom_text t"
  by (auto simp: bump_atom_def atom_text_def split: option.splits)

lemma bump_atom_inv:
  assumes "atom_inv t"
  shows "atom_inv (bump_atom a t)"
proof (cases "\<exists>d. atomToData t a = Some d \<and> atomRefCount d < 0xFFFF")
  case True
  then obtain d where d: "atomToData t a = Some d" "atomRefCount d < 0xFFFF" by blast
  have "unat (atomRefCount d) < 65535" using d(2) by (simp add: word_less_nat_alt)
  then have "unat (atomRefCount d + 1) = unat (atomRefCount d) + 1" by (simp add: unat_word_ariths)
  then have "0 < atomRefCount d + 1" by (simp add: word_less_nat_alt)
  moreover have "bump_atom a t = t\<lparr>atomToData := (atomToData t)(a \<mapsto> d\<lparr>atomRefCount := atomRefCount d + 1\<rparr>)\<rparr>"
    using d by (simp add: bump_atom_def)
  ultimately show ?thesis using assms d(1) by (auto simp: atom_inv_def)
next
  case False
  then have "bump_atom a t = t" by (auto simp: bump_atom_def split: option.splits)
  with assms show ?thesis by simp
qed

lemma enter_atom_inv:
  assumes "atom_inv t" "stringToAtom t (stringToLower s) = None" "atomToData t a = None" "kMinStringAtom \<le> a"
    "s \<noteq> []" "length s \<le> 255" "intAtom s = None"
  shows "atom_inv (enter_atom s a t)"
proof -
  have old: "stringToLower (atomOriginal d) \<noteq> stringToLower s" if "atomToData t b = Some d" for b d
    using atom_invD(2) [OF assms(1) that] assms(2) by auto
  have gone: "stringToAtom t k \<noteq> Some a" for k using atom_invD(1) [OF assms(1), of k a] assms(3) by auto
  show ?thesis
    using assms unfolding atom_inv_def enter_atom_def by (auto simp: old gone dest: old)
qed

lemma addAtomByString_cases:
  assumes add: "addAtomByString s t = (a, t')"
  obtains (integer) "intAtom s = Some a" "stringToAtom t' = stringToAtom t" "atomToData t' = atomToData t"
  | (refused) "intAtom s = None" "a = 0" "s = [] \<or> length s > 255"
      "stringToAtom t' = stringToAtom t" "atomToData t' = atomToData t"
  | (existing) "intAtom s = None" "s \<noteq> []" "length s \<le> 255" "stringToAtom t (stringToLower s) = Some a" "t' = bump_atom a t"
  | (full) "intAtom s = None" "s \<noteq> []" "length s \<le> 255" "stringToAtom t (stringToLower s) = None" "a = 0"
      "\<forall>b \<ge> kMinStringAtom. atomToData t b \<noteq> None"
      "stringToAtom t' = stringToAtom t" "atomToData t' = atomToData t"
  | (fresh) n where "intAtom s = None" "s \<noteq> []" "length s \<le> 255" "stringToAtom t (stringToLower s) = None" "a \<noteq> 0"
      "atomToData t a = None" "kMinStringAtom \<le> a" "t' = enter_atom s a (t\<lparr>nextStringAtom := n\<rparr>)"
proof -
  obtain r t1 where p: "tryParseIntegerAtomString s t = (r, t1)" by fastforce
  have r: "intAtom s = r" and t1: "stringToAtom t1 = stringToAtom t" "atomToData t1 = atomToData t"
    using tryParse_state [of s t] p by simp_all
  show ?thesis
  proof (cases r)
    case (Some b)
    then show ?thesis using add p r t1 integer by (simp add: addAtomByString_def)
  next
    case None
    then have "t1 = t" using p by (auto simp: tryParseIntegerAtomString_def Let_def case_prod_unfold split: if_splits)
    note add' = add [unfolded addAtomByString_def p None prod.case option.case this]
    show ?thesis
    proof (cases "s = [] \<or> length s > 255")
      case True
      then show ?thesis using add' r None refused by auto
    next
      case ok: False
      show ?thesis
      proof (cases "stringToAtom t (stringToLower s)")
        case (Some b)
        then show ?thesis using add' ok r None existing by (auto simp: bump_atom_def Let_def)
      next
        case unknown: None
        obtain b t2 where al: "allocateStringAtomLocked t = (b, t2)" by fastforce
        note tables = allocateStringAtomLocked_tables [OF al]
        show ?thesis
        proof (cases "b = 0")
          case True
          then show ?thesis using add' ok r None unknown al tables full by (auto simp: Let_def)
        next
          case False
          have "\<exists>n. t2 = t\<lparr>nextStringAtom := n\<rparr>"
            using al False by (auto simp: allocateStringAtomLocked_def Let_def split: option.splits)
          then show ?thesis
            using add' ok r None unknown al tables(3) [OF False] False fresh by (auto simp: Let_def enter_atom_def)
        qed
      qed
    qed
  qed
qed

lemma addAtomByString_keeps:
  assumes inv: "atom_inv t" and add: "addAtomByString s t = (a, t')"
  shows "atom_inv t'" and "stringToAtom t \<subseteq>\<^sub>m stringToAtom t'" and "atom_text t \<subseteq>\<^sub>m atom_text t'"
proof -
  have "atom_inv t' \<and> stringToAtom t \<subseteq>\<^sub>m stringToAtom t' \<and> atom_text t \<subseteq>\<^sub>m atom_text t'"
    using add
  proof (cases rule: addAtomByString_cases)
    case existing
    then show ?thesis using bump_atom_inv [OF inv] by simp
  next
    case (fresh n)
    have "atom_inv (t\<lparr>nextStringAtom := n\<rparr>)" using inv by (rule atom_inv_cong [rotated 2]) simp_all
    then have "atom_inv t'" using enter_atom_inv [of "t\<lparr>nextStringAtom := n\<rparr>" s a] fresh by simp
    then show ?thesis using fresh(4,6,8) by (auto simp: enter_atom_def map_le_def atom_text_def)
  qed (use inv in \<open>auto intro: atom_inv_cong simp: atom_text_def map_le_def\<close>)
  then show "atom_inv t'" "stringToAtom t \<subseteq>\<^sub>m stringToAtom t'" "atom_text t \<subseteq>\<^sub>m atom_text t'" by simp_all
qed

text \<open>The atom a key stands for in a table.\<close>

definition key_atom :: "ATOM + string \<Rightarrow> AtomTable \<Rightarrow> ATOM option" where
  "key_atom key t = (case key of Inl n \<Rightarrow> if n = 0 \<or> n > kMaxIntegerAtom then None else Some n | Inr low \<Rightarrow> stringToAtom t low)"

lemma addAtomByString_finds:
  assumes "addAtomByString s t = (a, t')" "a \<noteq> 0"
  shows "key_atom (atom_key s) t' = Some a"
  using assms
  by (cases rule: addAtomByString_cases) (auto simp: enter_atom_def key_atom_def atom_key_def dest: parsed_range)

lemma findAtomByString_finds:
  shows "fst (findAtomByString s t) = (case key_atom (atom_key s) t of None \<Rightarrow> 0 | Some a \<Rightarrow> a)"
    and "stringToAtom (snd (findAtomByString s t)) = stringToAtom t \<and> atomToData (snd (findAtomByString s t)) = atomToData t"
proof -
  obtain r t1 where p: "tryParseIntegerAtomString s t = (r, t1)" by fastforce
  have "intAtom s = r" "stringToAtom t1 = stringToAtom t" "atomToData t1 = atomToData t"
    using tryParse_state [of s t] p by simp_all
  then show "fst (findAtomByString s t) = (case key_atom (atom_key s) t of None \<Rightarrow> 0 | Some a \<Rightarrow> a)"
    "stringToAtom (snd (findAtomByString s t)) = stringToAtom t \<and> atomToData (snd (findAtomByString s t)) = atomToData t"
    using p by (auto simp: findAtomByString_def findAtomByNormalizedKey_def key_atom_def atom_key_def split: option.splits
                     dest: parsed_range)
qed

lemma findAtomByString_tables:
  "findAtomByString s t = (a, t') \<Longrightarrow> stringToAtom t' = stringToAtom t \<and> atomToData t' = atomToData t"
  using findAtomByString_finds(2) [of s t] by simp

section \<open>Sequences of calls\<close>

text \<open>
  A table from which names can be looked up and in which later operations keep what is there: names keep
  their identity, however the calls of different clients are interleaved.
\<close>

locale name_table =
  fixes inv :: "'s \<Rightarrow> bool" and step :: "'s \<Rightarrow> 's \<Rightarrow> bool" and find :: "'k \<Rightarrow> 's \<Rightarrow> 'v option"
  assumes step_inv: "inv s \<Longrightarrow> step s s' \<Longrightarrow> inv s'"
    and step_keeps: "inv s \<Longrightarrow> step s s' \<Longrightarrow> find k s = Some v \<Longrightarrow> find k s' = Some v"
    and find_inj: "inv s \<Longrightarrow> find k s = Some v \<Longrightarrow> find k' s = Some v \<Longrightarrow> k = k'"
begin

lemma steps_inv: "step\<^sup>*\<^sup>* s s' \<Longrightarrow> inv s \<Longrightarrow> inv s'"
  by (induction rule: rtranclp_induct) (auto intro: step_inv)

lemma steps_keep: "step\<^sup>*\<^sup>* s s' \<Longrightarrow> inv s \<Longrightarrow> find k s = Some v \<Longrightarrow> find k s' = Some v"
  by (induction rule: rtranclp_induct) (auto intro: step_keeps steps_inv)

text \<open>Two lookups, at any two moments, give the same value exactly when the keys are the same.\<close>

lemma identity:
  assumes "inv s" "find k s = Some v" "step\<^sup>*\<^sup>* s s'" "find k' s' = Some v'"
  shows "v = v' \<longleftrightarrow> k = k'"
  using steps_keep [OF assms(3,1,2)] steps_inv [OF assms(3,1)] assms(4) find_inj by force

end

inductive atom_step :: "AtomTable \<Rightarrow> AtomTable \<Rightarrow> bool" where
  add_a: "AddAtomA p s t = Some (a, t') \<Longrightarrow> atom_step t t'"
| add_w: "AddAtomW p ws t = Some (a, t') \<Longrightarrow> atom_step t t'"
| find_a: "FindAtomA p s t = Some (a, t') \<Longrightarrow> atom_step t t'"
| find_w: "FindAtomW p ws t = Some (a, t') \<Longrightarrow> atom_step t t'"
| name_a: "GetAtomNameA n b sz t = (out, r, t') \<Longrightarrow> atom_step t t'"
| name_w: "GetAtomNameW n b sz t = (wout, r, t') \<Longrightarrow> atom_step t t'"

lemma tryHandle_cases:
  obtains (number) a where "drop_bit 16 p = 0" "tryHandleIntegerAtomPointer p t = (Some a, t)"
  | (bad) "drop_bit 16 p = 0" "tryHandleIntegerAtomPointer p t = (Some 0, failWith ERROR_INVALID_PARAMETER t)"
  | (addr) "drop_bit 16 p \<noteq> 0" "tryHandleIntegerAtomPointer p t = (None, t)"
  by (cases "drop_bit 16 p = 0"; cases "ucast (p AND 0xFFFF) < kMinIntegerAtom \<or> kMaxIntegerAtom < (ucast (p AND 0xFFFF) :: ATOM)")
     (auto simp: tryHandleIntegerAtomPointer_def Let_def)

text \<open>Every call leaves the tables alone, or does what \<^verbatim>\<open>addAtomByString\<close> does.\<close>

lemma atom_step_tables:
  assumes "atom_step t t'"
  shows "(\<exists>s a. addAtomByString s t = (a, t')) \<or> (stringToAtom t' = stringToAtom t \<and> atomToData t' = atomToData t)"
  using assms
proof cases
  case (add_a p s a)
  then show ?thesis
    by (cases p t rule: tryHandle_cases) (auto simp: AddAtomA_def split: option.splits if_splits)
next
  case (add_w p ws a)
  then show ?thesis
    by (cases p t rule: tryHandle_cases) (auto simp: AddAtomW_def split: option.splits if_splits)
next
  case (find_a p s a)
  show ?thesis
  proof (cases p t rule: tryHandle_cases)
    case addr
    then show ?thesis using find_a findAtomByString_tables
      by (auto simp: FindAtomA_def split: option.splits if_splits)
  qed (use find_a in \<open>auto simp: FindAtomA_def\<close>)
next
  case (find_w p ws a)
  show ?thesis
  proof (cases p t rule: tryHandle_cases)
    case addr
    then show ?thesis using find_w findAtomByString_tables
      by (auto simp: FindAtomW_def split: option.splits if_splits)
  qed (use find_w in \<open>auto simp: FindAtomW_def\<close>)
next
  case (name_a n b sz out r)
  then show ?thesis by (auto simp: GetAtomNameA_def split: if_splits option.splits)
next
  case (name_w n b sz wout r)
  then show ?thesis by (auto simp: GetAtomNameW_def Let_def split: if_splits option.splits)
qed


lemma atom_step_keeps:
  assumes "atom_inv t" "atom_step t t'"
  shows "atom_inv t'" "stringToAtom t \<subseteq>\<^sub>m stringToAtom t'" "atom_text t \<subseteq>\<^sub>m atom_text t'"
proof -
  have "atom_inv t' \<and> stringToAtom t \<subseteq>\<^sub>m stringToAtom t' \<and> atom_text t \<subseteq>\<^sub>m atom_text t'"
    using atom_step_tables [OF assms(2)]
  proof (elim disjE exE conjE)
    fix s a
    assume "addAtomByString s t = (a, t')"
    from addAtomByString_keeps [OF assms(1) this] show ?thesis by simp
  next
    assume same: "stringToAtom t' = stringToAtom t" "atomToData t' = atomToData t"
    then have "atom_text t' = atom_text t" by (simp add: atom_text_def fun_eq_iff)
    then show ?thesis using atom_inv_cong [OF same assms(1)] same by simp
  qed
  then show "atom_inv t'" "stringToAtom t \<subseteq>\<^sub>m stringToAtom t'" "atom_text t \<subseteq>\<^sub>m atom_text t'" by simp_all
qed

lemma key_atom_inj:
  assumes inv: "atom_inv t" and k: "key_atom k t = Some v" and k': "key_atom k' t = Some v"
  shows "k = k'"
proof -
  have gap: "kMaxIntegerAtom < kMinStringAtom" by (simp add: atom_bounds)
  have int: "v \<le> kMaxIntegerAtom" if "key_atom (Inl n) t = Some v" for n
    using that by (auto simp: key_atom_def split: if_splits)
  have str: "kMinStringAtom \<le> v \<and> map_option (stringToLower) (atom_text t v) = Some low"
    if "key_atom (Inr low) t = Some v" for low
    using that atom_invD(1,3) [OF inv] by (fastforce simp: key_atom_def atom_text_def)
  show ?thesis
  proof (cases k)
    case (Inl n)
    then show ?thesis using k k' int str gap by (cases k') (fastforce simp: key_atom_def split: if_splits)+
  next
    case (Inr low)
    have v: "kMinStringAtom \<le> v" "map_option stringToLower (atom_text t v) = Some low" using str [of low] k Inr by auto
    show ?thesis
    proof (cases k')
      case (Inl n)
      then show ?thesis using int [of n] k' v(1) gap by simp
    next
      case (Inr low')
      then show ?thesis using str [of low'] k' v(2) \<open>k = Inr low\<close> by simp
    qed
  qed
qed

interpretation an: name_table atom_inv atom_step key_atom
proof
  show "atom_inv s'" if "atom_inv s" "atom_step s s'" for s s' using atom_step_keeps [OF that] by simp
  show "key_atom k s' = Some v" if "atom_inv s" "atom_step s s'" "key_atom k s = Some v" for s s' k v
    using atom_step_keeps(2) [OF that(1,2)] that(3)
    by (auto simp: key_atom_def map_le_def split: sum.splits if_splits) (metis domI)
  show "k = k'" if "atom_inv s" "key_atom k s = Some v" "key_atom k' s = Some v" for s k k' v
    using key_atom_inj [OF that] .
qed

lemma steps_keep_text: "atom_step\<^sup>*\<^sup>* t t' \<Longrightarrow> atom_inv t \<Longrightarrow> atom_text t \<subseteq>\<^sub>m atom_text t'"
  by (induction rule: rtranclp_induct) (auto intro: atom_step_keeps(3) an.steps_inv map_le_trans)

section \<open>Numbers written as names\<close>

lemma is_digit_char [simp]: "d < 10 \<Longrightarrow> is_digit (char_of (48 + d :: nat))"
  by (simp add: is_digit_def of_char_of)

lemma to_string_digits: "\<forall>c \<in> set (to_string n). is_digit c"
proof (induction n rule: to_string.induct)
  case (1 n)
  then show ?case by (subst to_string.simps) auto
qed

lemma digits_value_append: "digits_value (xs @ ys) v = digits_value ys (digits_value xs v)"
  by (induction xs v rule: digits_value.induct) simp_all

lemma digits_value_to_string: "digits_value (to_string n) 0 = n"
proof (induction n rule: to_string.induct)
  case (1 n)
  show ?case
  proof (cases "n < 10")
    case True
    then show ?thesis by (subst to_string.simps) (simp add: of_char_of)
  next
    case False
    with 1 show ?thesis by (subst to_string.simps) (simp add: digits_value_append of_char_of)
  qed
qed

lemma to_string_nonempty [simp]: "to_string n \<noteq> []"
  by (subst to_string.simps) simp

lemma length_to_string: "n < 10 ^ k \<Longrightarrow> 0 < k \<Longrightarrow> length (to_string n) \<le> k"
proof (induction k arbitrary: n)
  case (Suc k)
  show ?case
  proof (cases "n < 10")
    case True
    then show ?thesis by (subst to_string.simps) simp
  next
    case False
    then have k: "0 < k" using Suc.prems by (cases k) simp_all
    have "n div 10 < 10 ^ k" using Suc.prems by (simp add: less_mult_imp_div_less)
    then show ?thesis using Suc.IH [OF _ k] False by (subst to_string.simps) simp
  qed
qed simp

lemma digit_not: "is_digit c \<Longrightarrow> c \<noteq> CHR 0x00 \<and> \<not> is_space c \<and> c \<noteq> CHR ''-'' \<and> c \<noteq> CHR ''+''"
  by (auto simp: is_digit_def is_space_def)

lemma strtoul10_to_string:
  assumes "n \<le> 0xFFFFFFFF"
  shows "strtoul10 (to_string n) = (n, [])"
proof -
  have digits: "\<forall>c \<in> set (to_string n). is_digit c" by (rule to_string_digits)
  then have h: "is_digit (hd (to_string n))" by (simp add: hd_in_set)
  then have sp: "dropWhile is_space (to_string n) = to_string n"
    by (cases "to_string n") (use digit_not in auto)
  have all: "takeWhile is_digit (to_string n) = to_string n" using digits by (simp add: takeWhile_eq_all_conv)
  show ?thesis
    using assms h digit_not [OF h] by (simp add: strtoul10_def Let_def sp all digits_value_to_string)
qed

lemma intAtom_number:
  assumes "kMinIntegerAtom \<le> a" "a \<le> kMaxIntegerAtom"
  shows "intAtom (CHR ''#'' # to_string (unat a)) = Some a"
proof -
  have a: "unat a \<le> 49151" "1 \<le> unat a" using assms by (simp_all add: atom_bounds word_le_nat_alt)
  have c: "c_str (to_string (unat a)) = to_string (unat a)"
    unfolding c_str_def by (rule takeWhile_eq_all_conv [THEN iffD2]) (use to_string_digits digit_not in blast)
  show ?thesis using a to_string_nonempty [of "unat a"]
    by (auto simp: intAtom_def tryParseIntegerAtomString_def c strtoul10_to_string atom_bounds simp del: to_string_nonempty)
qed

section \<open>Atoms identify names\<close>

lemma strnlen_string: "CHR 0x00 \<notin> set s \<Longrightarrow> strnlen (s @ CHR 0x00 # rest) n = Some (min (length s) n)"
proof (induction s arbitrary: n)
  case Nil
  then show ?case by (cases n) simp_all
next
  case (Cons c cs)
  then show ?case by (cases n) auto
qed

lemma guest_pointer: "drop_bit 16 (p :: u32) \<noteq> 0 \<Longrightarrow> p \<noteq> 0 \<and> tryHandleIntegerAtomPointer p t = (None, t)"
  by (auto simp: tryHandleIntegerAtomPointer_def)

text \<open>A name at an address: the calls reduce to the routines on strings.\<close>

lemma AddAtomA_string:
  assumes "drop_bit 16 p \<noteq> 0" "CHR 0x00 \<notin> set s" "s \<noteq> []" "length s \<le> 255"
  shows "AddAtomA p (s @ CHR 0x00 # rest) t = Some (addAtomByString s t)"
  using guest_pointer [OF assms(1)] strnlen_string [OF assms(2)] assms(3,4) by (simp add: AddAtomA_def)

lemma FindAtomA_string:
  assumes "drop_bit 16 p \<noteq> 0" "CHR 0x00 \<notin> set s" "s \<noteq> []" "length s \<le> 255"
  shows "FindAtomA p (s @ CHR 0x00 # rest) t = Some (findAtomByString s t)"
  using guest_pointer [OF assms(1)] strnlen_string [OF assms(2)] assms(3,4) by (simp add: FindAtomA_def)

lemma atom_name_key:
  assumes inv: "atom_inv t" and k: "key_atom (atom_key s) t = Some a"
  shows "\<exists>name. atom_name a t = Some name \<and> atom_key name = atom_key s \<and> length name \<le> 255"
proof (cases "intAtom s")
  case (Some n)
  then have a: "kMinIntegerAtom \<le> a" "a \<le> kMaxIntegerAtom" and n: "n = a"
    using k parsed_range [OF Some]
    by (auto simp: key_atom_def atom_key_def atom_bounds word_le_nat_alt unat_gt_0 Suc_le_eq split: if_splits)
  have "length (to_string (unat a)) \<le> 5"
    by (rule length_to_string) (use a(2) in \<open>simp_all add: atom_bounds word_le_nat_alt\<close>)
  then show ?thesis using a intAtom_number [OF a] Some n by (simp add: atom_name_def atom_key_def)
next
  case None
  then have "stringToAtom t (stringToLower s) = Some a" using k by (simp add: key_atom_def atom_key_def)
  then obtain d where d: "atomToData t a = Some d" "stringToLower (atomOriginal d) = stringToLower s"
    using atom_invD(1) [OF inv] by blast
  have "\<not> a \<le> kMaxIntegerAtom" using atom_invD(3) [OF inv d(1)] by (simp add: atom_bounds word_le_nat_alt)
  then show ?thesis
    using d None atom_invD(5) [OF inv d(1)] inv by (auto simp: atom_name_def atom_key_def atom_inv_def)
qed

text \<open>The spelling an atom keeps: a number in decimal, or the name with which the atom was first added.\<close>

lemma atom_text_name:
  assumes "atom_inv t" "atom_text t a = Some name"
  shows "atom_name a t = Some name" "length name \<le> 255"
proof -
  obtain d where d: "atomToData t a = Some d" "atomOriginal d = name" using assms(2) by (auto simp: atom_text_def)
  have "\<not> a \<le> kMaxIntegerAtom" using atom_invD(3) [OF assms(1) d(1)] by (simp add: atom_bounds word_le_nat_alt)
  then show "atom_name a t = Some name" using d by (simp add: atom_name_def)
  show "length name \<le> 255" using assms(1) d by (auto simp: atom_inv_def)
qed

lemma atom_spelling:
  assumes inv: "atom_inv t" and add: "addAtomByString s t = (a, t1)" "a \<noteq> 0" and st: "atom_step\<^sup>*\<^sup>* t1 t2"
  shows "\<exists>name. atom_name a t2 = Some name \<and> length name \<le> 255 \<and> atom_key name = atom_key s \<and>
    (intAtom s \<noteq> None \<longrightarrow> name = CHR ''#'' # to_string (unat a)) \<and>
    (intAtom s = None \<and> stringToAtom t (stringToLower s) = None \<longrightarrow> name = s) \<and>
    (intAtom s = None \<and> stringToAtom t (stringToLower s) \<noteq> None \<longrightarrow> atom_name a t = Some name)"
proof -
  note k = addAtomByString_keeps [OF inv add(1)]
  have inv2: "atom_inv t2" using an.steps_inv [OF st k(1)] .
  obtain name where name: "atom_name a t2 = Some name" "atom_key name = atom_key s" "length name \<le> 255"
    using atom_name_key [OF inv2 an.steps_keep [OF st k(1) addAtomByString_finds [OF add]]] by blast
  have keep: "name = w" if "atom_text t1 a = Some w" for w
  proof -
    have "atom_text t2 a = Some w" using steps_keep_text [OF st k(1)] that by (metis domI map_le_def)
    then show ?thesis using atom_text_name(1) [OF inv2] name(1) by simp
  qed
  from add(1) have "(intAtom s \<noteq> None \<longrightarrow> name = CHR ''#'' # to_string (unat a)) \<and>
    (intAtom s = None \<and> stringToAtom t (stringToLower s) = None \<longrightarrow> name = s) \<and>
    (intAtom s = None \<and> stringToAtom t (stringToLower s) \<noteq> None \<longrightarrow> atom_name a t = Some name)"
  proof (cases rule: addAtomByString_cases)
    case integer
    then have "kMinIntegerAtom \<le> a" "a \<le> kMaxIntegerAtom"
      using parsed_range [OF integer(1)] add(2) by (auto simp: atom_bounds word_le_nat_alt unat_gt_0 Suc_le_eq)
    then show ?thesis using integer(1) name(1) by (simp add: atom_name_def)
  next
    case existing
    then obtain d where "atomToData t a = Some d" using atom_invD(1) [OF inv] by blast
    then have "atom_text t a = Some (atomOriginal d)" by (simp add: atom_text_def)
    then show ?thesis using keep k(3) atom_text_name(1) [OF inv] existing by (metis domI map_le_def option.distinct(1))
  next
    case (fresh n)
    then have "atom_text t1 a = Some s" by (simp add: atom_text_def enter_atom_def)
    then show ?thesis using keep fresh by simp
  qed (use add(2) in simp_all)
  with name show ?thesis by blast
qed

lemma atom_call_facts:
  assumes "atom_step\<^sup>*\<^sup>* localAtomTable t"
    and "drop_bit 16 p \<noteq> 0" "CHR 0x00 \<notin> set s" "s \<noteq> []" "length s \<le> 255"
    and "AddAtomA p (s @ CHR 0x00 # rest) t = Some (a, t1)"
    and "atom_step\<^sup>*\<^sup>* t1 t2"
    and "drop_bit 16 p' \<noteq> 0" "CHR 0x00 \<notin> set s'" "s' \<noteq> []" "length s' \<le> 255"
  shows "a \<noteq> 0 \<Longrightarrow> map_option fst (FindAtomA p' (s' @ CHR 0x00 # rest') t2) = Some a \<longleftrightarrow> atom_key s' = atom_key s"
    and "a \<noteq> 0 \<Longrightarrow> AddAtomA p' (s' @ CHR 0x00 # rest') t2 = Some (b, t3) \<Longrightarrow> b \<noteq> 0 \<Longrightarrow> b = a \<longleftrightarrow> atom_key s' = atom_key s"
    and "a \<noteq> 0 \<Longrightarrow> \<exists>name. GetAtomNameA a True 256 t2 = (name @ [CHR 0x00], length name, t2) \<and> atom_key name = atom_key s \<and>
           (intAtom s \<noteq> None \<longrightarrow> name = CHR ''#'' # to_string (unat a)) \<and>
           (intAtom s = None \<and> stringToAtom t (stringToLower s) = None \<longrightarrow> name = s) \<and>
           (intAtom s = None \<and> stringToAtom t (stringToLower s) \<noteq> None \<longrightarrow> GetAtomNameA a True 256 t = (name @ [CHR 0x00], length name, t))"
    and "a = 0 \<longleftrightarrow> intAtom s = Some 0 \<or>
           (intAtom s = None \<and> stringToAtom t (stringToLower s) = None \<and> (\<forall>c \<ge> kMinStringAtom. atomToData t c \<noteq> None))"
proof -
  have inv: "atom_inv t" using an.steps_inv [OF assms(1) atom_inv_start] .
  have add: "addAtomByString s t = (a, t1)" using AddAtomA_string [OF assms(2-5), of rest t] assms(6) by simp
  note inv1 = addAtomByString_keeps(1) [OF inv add]
  note inv2 = an.steps_inv [OF assms(7) inv1]
  {
    assume "a \<noteq> 0"
    note k1 = addAtomByString_finds [OF add this]
    note k2 = an.steps_keep [OF assms(7) inv1 k1]
    have "map_option fst (FindAtomA p' (s' @ CHR 0x00 # rest') t2)
          = Some (case key_atom (atom_key s') t2 of None \<Rightarrow> 0 | Some c \<Rightarrow> c)"
      using FindAtomA_string [OF assms(8-11), of rest' t2] findAtomByString_finds(1) [of s' t2] by simp
    then show "map_option fst (FindAtomA p' (s' @ CHR 0x00 # rest') t2) = Some a \<longleftrightarrow> atom_key s' = atom_key s"
      using k2 key_atom_inj [OF inv2 _ k2, of "atom_key s'"] \<open>a \<noteq> 0\<close> by (auto split: option.splits)
    show "b = a \<longleftrightarrow> atom_key s' = atom_key s"
      if "AddAtomA p' (s' @ CHR 0x00 # rest') t2 = Some (b, t3)" "b \<noteq> 0"
    proof -
      have add': "addAtomByString s' t2 = (b, t3)" using AddAtomA_string [OF assms(8-11), of rest' t2] that(1) by simp
      have "atom_step t2 t3" using atom_step.add_a [OF that(1)] .
      with assms(7) have "atom_step\<^sup>*\<^sup>* t1 t3" by (rule rtranclp.rtrancl_into_rtrancl)
      from an.identity [OF inv1 k1 this addAtomByString_finds [OF add' that(2)]] show ?thesis by auto
    qed
    show "\<exists>name. GetAtomNameA a True 256 t2 = (name @ [CHR 0x00], length name, t2) \<and> atom_key name = atom_key s \<and>
           (intAtom s \<noteq> None \<longrightarrow> name = CHR ''#'' # to_string (unat a)) \<and>
           (intAtom s = None \<and> stringToAtom t (stringToLower s) = None \<longrightarrow> name = s) \<and>
           (intAtom s = None \<and> stringToAtom t (stringToLower s) \<noteq> None \<longrightarrow> GetAtomNameA a True 256 t = (name @ [CHR 0x00], length name, t))"
      using atom_spelling [OF inv add \<open>a \<noteq> 0\<close> assms(7)] by (auto simp: GetAtomNameA_def)
  }
  have str: "c \<noteq> 0" if "stringToAtom t k = Some c" for k c
    using atom_invD(1,3) [OF inv] that by (fastforce simp: atom_bounds)
  show "a = 0 \<longleftrightarrow> intAtom s = Some 0 \<or>
          (intAtom s = None \<and> stringToAtom t (stringToLower s) = None \<and> (\<forall>c \<ge> kMinStringAtom. atomToData t c \<noteq> None))"
    using add by (cases rule: addAtomByString_cases) (use assms(4,5) str in auto)
qed

text \<open>
  C40: atoms identify names. After any sequence of calls, adding a name that gives an atom makes that
  atom the name's for good: however many calls of any kind follow, looking up or adding a name gives this atom
  exactly when the two names agree up to case (or are the same number, written after a hash sign). Asking for the
  atom's name gives, for a number, its decimal digits after a hash sign (so \<open>#0012\<close> comes back as \<open>#12\<close>), for a name
  that was new its exact spelling, and for one that was known the spelling reported before the call. Adding a valid name
  is refused only when the name is a number out of range, or is new and all 16384 string atoms are taken.
\<close>

theorem atoms_identify_names:
  assumes "atom_step\<^sup>*\<^sup>* localAtomTable t"
    and "drop_bit 16 p \<noteq> 0" "CHR 0x00 \<notin> set s" "s \<noteq> []" "length s \<le> 255"
    and "AddAtomA p (s @ CHR 0x00 # rest) t = Some (a, t1)"
    and "atom_step\<^sup>*\<^sup>* t1 t2"
    and "drop_bit 16 p' \<noteq> 0" "CHR 0x00 \<notin> set s'" "s' \<noteq> []" "length s' \<le> 255"
  shows "(a \<noteq> 0 \<longrightarrow>
            (map_option fst (FindAtomA p' (s' @ CHR 0x00 # rest') t2) = Some a \<longleftrightarrow> atom_key s' = atom_key s) \<and>
            (\<forall>b t3. AddAtomA p' (s' @ CHR 0x00 # rest') t2 = Some (b, t3) \<and> b \<noteq> 0 \<longrightarrow>
               (b = a \<longleftrightarrow> atom_key s' = atom_key s)) \<and>
            (\<exists>name. GetAtomNameA a True 256 t2 = (name @ [CHR 0x00], length name, t2) \<and> atom_key name = atom_key s \<and>
           (intAtom s \<noteq> None \<longrightarrow> name = CHR ''#'' # to_string (unat a)) \<and>
           (intAtom s = None \<and> stringToAtom t (stringToLower s) = None \<longrightarrow> name = s) \<and>
           (intAtom s = None \<and> stringToAtom t (stringToLower s) \<noteq> None \<longrightarrow> GetAtomNameA a True 256 t = (name @ [CHR 0x00], length name, t)))) \<and>
         (a = 0 \<longleftrightarrow> intAtom s = Some 0 \<or>
           (intAtom s = None \<and> stringToAtom t (stringToLower s) = None \<and> (\<forall>c \<ge> kMinStringAtom. atomToData t c \<noteq> None)))"
  using atom_call_facts(1) [OF assms, of rest'] atom_call_facts(2) [OF assms, of rest'] atom_call_facts(3,4) [OF assms]
  by (intro conjI impI allI) (assumption | blast)+

text \<open>The names \<open>Ab\<close> and \<open>aB\<close> on an empty table.\<close>

lemma first_atom:
  "AddAtomA 0x10000 (''Ab'' @ CHR 0x00 # []) localAtomTable
   = Some (0xC000, enter_atom ''Ab'' 0xC000 (localAtomTable\<lparr>nextStringAtom := 0xC001\<rparr>))"
proof -
  have "free_atom Map.empty 0 0 = Some 0xC000" by (subst free_atom.simps) (simp add: Let_def kMinStringAtom_def)
  then show ?thesis
    by (subst AddAtomA_string)
       (simp_all add: addAtomByString_def tryParseIntegerAtomString_def allocateStringAtomLocked_def localAtomTable_def
          enter_atom_def atom_bounds Let_def drop_bit_eq_div)
qed

lemma key_Ab: "intAtom ''Ab'' = None" "atom_key ''aB'' = atom_key ''Ab''"
  by (simp_all add: atom_key_def intAtom_def tryParseIntegerAtomString_def stringToLower_def c_tolower_def char_of_def bit_0)

lemma key_Ab_new: "stringToAtom localAtomTable (stringToLower ''Ab'') = None"
  by (simp add: localAtomTable_def)

theorem atoms_identify_names_witness:
  "map_option fst (FindAtomA 0x20000 (''aB'' @ CHR 0x00 # []) (snd (the (AddAtomA 0x10000 (''Ab'' @ CHR 0x00 # []) localAtomTable))))
   = Some 0xC000 \<and>
   fst (GetAtomNameA 0xC000 True 256 (snd (the (AddAtomA 0x10000 (''Ab'' @ CHR 0x00 # []) localAtomTable)))) = ''Ab'' @ [CHR 0x00]"
proof -
  have p: "drop_bit 16 (0x10000 :: u32) \<noteq> 0" "drop_bit 16 (0x20000 :: u32) \<noteq> 0" by (simp_all add: drop_bit_eq_div)
  let ?t = "enter_atom ''Ab'' 0xC000 (localAtomTable\<lparr>nextStringAtom := 0xC001\<rparr>)"
  from atoms_identify_names [OF rtranclp.rtrancl_refl p(1) _ _ _ first_atom rtranclp.rtrancl_refl p(2), of "''aB''" "[]"]
  have "map_option fst (FindAtomA 0x20000 (''aB'' @ CHR 0x00 # []) ?t) = Some 0xC000 \<and>
      (\<exists>name. GetAtomNameA 0xC000 True 256 ?t = (name @ [CHR 0x00], length name, ?t) \<and> name = ''Ab'')"
    by (simp only: key_Ab key_Ab_new) auto
  then show ?thesis by (simp only: first_atom option.sel prod.sel) auto
qed

end
