(* ===== verification/File_Transfer.thy ===== *)
theory File_Transfer
  imports Wibo_Prelude Error_Codes
begin

text \<open>
  Reading and writing of files (\<^verbatim>\<open>files::read\<close> and \<^verbatim>\<open>files::write\<close> of \<^verbatim>\<open>src/src/files.cpp\<close>, \<^verbatim>\<open>FsObject\<close> and
  \<^verbatim>\<open>FileObject\<close> of \<^verbatim>\<open>src/dll/kernel32/internal.h\<close>). The host's \<^verbatim>\<open>pread\<close>, \<^verbatim>\<open>pwrite\<close>, \<^verbatim>\<open>read\<close>, \<^verbatim>\<open>write\<close> and \<^verbatim>\<open>lseek\<close> are
  parameters that act on a host state; a call returns the bytes it moved or an error. The loops go on
  while the host reports interruptions, so they are partial: \<open>None\<close> is a loop that never ends.
\<close>

section \<open>Objects and results\<close>

record FileObject =
  fd :: int
  canonicalPath :: string
  shareAccess :: u32
  deletePending :: bool
  closeOnDestroy :: bool
  filePos :: int
  overlapped :: bool
  appendOnly :: bool
  isPipe :: bool

definition valid_file :: "FileObject \<Rightarrow> bool" where
  "valid_file f \<longleftrightarrow> fd f \<ge> 0"

text \<open>A call of the host: what it moved (the bytes read, the number of bytes written, the position) or the error.\<close>

datatype 'a rc = Moved 'a | Failed errno

text \<open>The constructor, with the answer of \<^verbatim>\<open>lseek\<close>: a descriptor that cannot be positioned is a pipe.\<close>

definition new_FileObject :: "int rc \<Rightarrow> int \<Rightarrow> FileObject" where
  "new_FileObject cur fdv =
     (let f = \<lparr>fd = fdv, canonicalPath = [], shareAccess = 3, deletePending = False, closeOnDestroy = True,
               filePos = 0, overlapped = False, appendOnly = False, isPipe = False\<rparr> in
      if fdv \<ge> 0 then
        (case cur of Moved pos \<Rightarrow> f\<lparr>filePos := pos\<rparr>
         | Failed e \<Rightarrow> if e = ESPIPE then f\<lparr>isPipe := True\<rparr> else f)
      else f)"

text \<open>What the destructor does to the host: whether it closes the descriptor, and the file it deletes.\<close>

definition destroy_FsObject :: "FileObject \<Rightarrow> int option \<times> string option" where
  "destroy_FsObject f =
     (if fd f \<ge> 0 \<and> closeOnDestroy f then Some (fd f) else None,
      if deletePending f \<and> canonicalPath f \<noteq> [] then Some (canonicalPath f) else None)"

record IOResult =
  bytesTransferred :: nat
  unixError :: errno
  reachedEnd :: bool

definition io_zero :: IOResult where
  "io_zero = \<lparr>bytesTransferred = 0, unixError = ESUCCESS, reachedEnd = False\<rparr>"

definition SSIZE_MAX :: nat where "SSIZE_MAX = 0x7FFFFFFF"

text \<open>\<^verbatim>\<open>errno ? errno : EIO\<close>\<close>

definition error_of :: "errno \<Rightarrow> errno" where
  "error_of e = (if e = ESUCCESS then EIO else e)"

type_synonym 'h pread = "int \<Rightarrow> nat \<Rightarrow> int \<Rightarrow> 'h \<Rightarrow> u8 list rc \<times> 'h"
type_synonym 'h pwrite = "int \<Rightarrow> u8 list \<Rightarrow> int \<Rightarrow> 'h \<Rightarrow> nat rc \<times> 'h"
type_synonym 'h sread = "int \<Rightarrow> nat \<Rightarrow> 'h \<Rightarrow> u8 list rc \<times> 'h"
type_synonym 'h swrite = "int \<Rightarrow> u8 list \<Rightarrow> 'h \<Rightarrow> nat rc \<times> 'h"

section \<open>Reading\<close>

text \<open>\<^verbatim>\<open>doRead\<close>: \<open>got\<close> are the \<^verbatim>\<open>total\<close> bytes stored in the buffer so far.\<close>

partial_function (option) doRead ::
  "'h pread \<Rightarrow> int \<Rightarrow> nat \<Rightarrow> int \<Rightarrow> u8 list \<Rightarrow> 'h \<Rightarrow> (u8 list \<times> errno \<times> bool \<times> 'h) option" where
  "doRead pread fdv remaining pos got h =
     (if remaining = 0 then Some (got, ESUCCESS, False, h)
      else
        let chunk = min remaining SSIZE_MAX in
        case pread fdv chunk pos h of
          (Failed e, h') \<Rightarrow>
            if e = EINTR then doRead pread fdv remaining pos got h' else Some (got, error_of e, False, h')
        | (Moved bs, h') \<Rightarrow>
            if bs = [] then Some (got, ESUCCESS, True, h')
            else doRead pread fdv (remaining - length bs) (pos + int (length bs)) (got @ bs) h')"

declare doRead.simps [code]

text \<open>The one \<^verbatim>\<open>read\<close> of a pipe, repeated while it is interrupted.\<close>

partial_function (option) readPipe :: "'h sread \<Rightarrow> int \<Rightarrow> nat \<Rightarrow> 'h \<Rightarrow> (u8 list rc \<times> 'h) option" where
  "readPipe sread fdv chunk h =
     (case sread fdv chunk h of
        (Failed e, h') \<Rightarrow> if e = EINTR then readPipe sread fdv chunk h' else Some (Failed e, h')
      | (Moved bs, h') \<Rightarrow> Some (Moved bs, h'))"

declare readPipe.simps [code]

text \<open>\<^verbatim>\<open>files::read\<close>: the result, the bytes stored from the start of the buffer on, the file object and the host.\<close>

definition files_read ::
  "'h pread \<Rightarrow> 'h sread \<Rightarrow> FileObject option \<Rightarrow> nat \<Rightarrow> int option \<Rightarrow> bool \<Rightarrow> 'h
    \<Rightarrow> (IOResult \<times> u8 list \<times> FileObject option \<times> 'h) option" where
  "files_read pread sread fo bytesToRead offset updateFilePointer h =
     (case fo of None \<Rightarrow> Some (io_zero\<lparr>unixError := EBADF\<rparr>, [], None, h)
      | Some f \<Rightarrow>
          if \<not> valid_file f then Some (io_zero\<lparr>unixError := EBADF\<rparr>, [], fo, h)
          else if bytesToRead = 0 then Some (io_zero, [], fo, h)
          else if isPipe f then
            (case readPipe sread (fd f) (min bytesToRead SSIZE_MAX) h of
               None \<Rightarrow> None
             | Some (Failed e, h') \<Rightarrow> Some (io_zero\<lparr>unixError := error_of e\<rparr>, [], fo, h')
             | Some (Moved bs, h') \<Rightarrow>
                 if bs = [] then Some (io_zero\<lparr>reachedEnd := True\<rparr>, [], fo, h')
                 else Some (io_zero\<lparr>bytesTransferred := length bs\<rparr>, bs, fo, h'))
          else
            let pos = (case offset of Some p \<Rightarrow> p | None \<Rightarrow> filePos f) in
            case doRead pread (fd f) bytesToRead pos [] h of
              None \<Rightarrow> None
            | Some (got, e, eof, h') \<Rightarrow>
                Some (\<lparr>bytesTransferred = length got, unixError = e, reachedEnd = eof\<rparr>, got,
                      Some (if updateFilePointer then f\<lparr>filePos := pos + int (length got)\<rparr> else f), h'))"

section \<open>Writing\<close>

partial_function (option) doWrite ::
  "'h pwrite \<Rightarrow> int \<Rightarrow> u8 list \<Rightarrow> int \<Rightarrow> nat \<Rightarrow> 'h \<Rightarrow> (nat \<times> errno \<times> 'h) option" where
  "doWrite pwrite fdv rest pos done_bytes h =
     (if rest = [] then Some (done_bytes, ESUCCESS, h)
      else case pwrite fdv (take SSIZE_MAX rest) pos h of
          (Failed e, h') \<Rightarrow>
            if e = EINTR then doWrite pwrite fdv rest pos done_bytes h' else Some (done_bytes, error_of e, h')
        | (Moved n, h') \<Rightarrow>
            if n = 0 then Some (done_bytes, ESUCCESS, h')
            else doWrite pwrite fdv (drop n rest) (pos + int n) (done_bytes + n) h')"

declare doWrite.simps [code]

text \<open>The loop for pipes and files opened for appending, which leaves the position to the host.\<close>

partial_function (option) streamWrite ::
  "'h swrite \<Rightarrow> int \<Rightarrow> u8 list \<Rightarrow> nat \<Rightarrow> 'h \<Rightarrow> (nat \<times> errno \<times> 'h) option" where
  "streamWrite swrite fdv rest done_bytes h =
     (if rest = [] then Some (done_bytes, ESUCCESS, h)
      else case swrite fdv (take SSIZE_MAX rest) h of
          (Failed e, h') \<Rightarrow>
            if e = EINTR then streamWrite swrite fdv rest done_bytes h' else Some (done_bytes, error_of e, h')
        | (Moved n, h') \<Rightarrow>
            if n = 0 then Some (done_bytes, ESUCCESS, h')
            else streamWrite swrite fdv (drop n rest) (done_bytes + n) h')"

declare streamWrite.simps [code]

definition files_write ::
  "'h pwrite \<Rightarrow> 'h swrite \<Rightarrow> (int \<Rightarrow> 'h \<Rightarrow> int rc) \<Rightarrow> FileObject option \<Rightarrow> u8 list \<Rightarrow> int option \<Rightarrow> bool \<Rightarrow> 'h
    \<Rightarrow> (IOResult \<times> FileObject option \<times> 'h) option" where
  "files_write pwrite swrite seek fo buffer offset updateFilePointer h =
     (case fo of None \<Rightarrow> Some (io_zero\<lparr>unixError := EBADF\<rparr>, None, h)
      | Some f \<Rightarrow>
          if \<not> valid_file f then Some (io_zero\<lparr>unixError := EBADF\<rparr>, fo, h)
          else if buffer = [] then Some (io_zero, fo, h)
          else if appendOnly f \<or> isPipe f then
            (case streamWrite swrite (fd f) buffer 0 h of
               None \<Rightarrow> None
             | Some (sent, e, h') \<Rightarrow>
                 let r = io_zero\<lparr>bytesTransferred := sent, unixError := e\<rparr> in
                 if \<not> updateFilePointer then Some (r, fo, h')
                 else case (if isPipe f then Moved 0 else seek (fd f) h') of
                   Moved pos \<Rightarrow> Some (r, Some (f\<lparr>filePos := pos\<rparr>), h')
                 | Failed e' \<Rightarrow> Some (if e = ESUCCESS then r\<lparr>unixError := error_of e'\<rparr> else r, fo, h'))
          else
            let pos = (case offset of Some p \<Rightarrow> p | None \<Rightarrow> filePos f) in
            case doWrite pwrite (fd f) buffer pos 0 h of
              None \<Rightarrow> None
            | Some (sent, e, h') \<Rightarrow>
                Some (\<lparr>bytesTransferred = sent, unixError = e, reachedEnd = False\<rparr>,
                      Some (if updateFilePointer then f\<lparr>filePos := pos + int sent\<rparr> else f), h'))"

section \<open>A host that stores a file\<close>

text \<open>\<open>d\<close> stored at position \<open>p\<close> of \<open>c\<close>; a gap past the end reads as zeros.\<close>

definition overlay :: "nat \<Rightarrow> u8 list \<Rightarrow> u8 list \<Rightarrow> u8 list" where
  "overlay p d c = take p c @ replicate (p - length c) 0 @ d @ drop (p + length d) c"

lemma length_overlay [simp]: "length (overlay p d c) = max (length c) (p + length d)"
  by (simp add: overlay_def)

lemma nth_overlay:
  assumes "i < max (length c) (p + length d)"
  shows "overlay p d c ! i = (if p \<le> i \<and> i < p + length d then d ! (i - p) else if i < length c then c ! i else 0)"
  using assms by (auto simp: overlay_def nth_append min_def max_def split: if_splits)

lemma overlay_overlay: "overlay (p + length a) b (overlay p a c) = overlay p (a @ b) c"
  by (rule nth_equalityI) (auto simp: nth_overlay nth_append less_max_iff_disj)

lemma read_overlay: "take (length d) (drop p (overlay p d c)) = d"
  by (rule nth_equalityI) (auto simp: nth_overlay max_def)

lemma overlay_outside: "q + n \<le> p \<Longrightarrow> p \<le> length c \<Longrightarrow> take n (drop q (overlay p d c)) = take n (drop q c)"
  by (rule nth_equalityI) (auto simp: nth_overlay max_def)

text \<open>
  What the documentation of \<^verbatim>\<open>pread\<close> and \<^verbatim>\<open>pwrite\<close> promises of a regular file, and that interruptions are
  finite in number: \<open>delays\<close> bounds those still to come before bytes are moved. A call may move fewer bytes
  than asked for.
\<close>

definition serves_reads :: "'h pread \<Rightarrow> ('h \<Rightarrow> u8 list) \<Rightarrow> ('h \<Rightarrow> nat) \<Rightarrow> int \<Rightarrow> bool" where
  "serves_reads pread contents delays fdv \<longleftrightarrow>
     (\<forall>n pos h. 0 < n \<and> 0 \<le> pos \<longrightarrow>
        (case pread fdv n pos h of
           (Failed e, h') \<Rightarrow> e = EINTR \<and> contents h' = contents h \<and> delays h' < delays h
         | (Moved bs, h') \<Rightarrow> contents h' = contents h \<and> length bs \<le> n \<and>
             bs = take (length bs) (drop (nat pos) (contents h)) \<and> (bs = [] \<longrightarrow> length (contents h) \<le> nat pos)))"

definition serves_writes :: "'h pwrite \<Rightarrow> ('h \<Rightarrow> u8 list) \<Rightarrow> ('h \<Rightarrow> nat) \<Rightarrow> int \<Rightarrow> bool" where
  "serves_writes pwrite contents delays fdv \<longleftrightarrow>
     (\<forall>bs pos h. bs \<noteq> [] \<and> 0 \<le> pos \<longrightarrow>
        (case pwrite fdv bs pos h of
           (Failed e, h') \<Rightarrow> e = EINTR \<and> contents h' = contents h \<and> delays h' < delays h
         | (Moved k, h') \<Rightarrow> 0 < k \<and> k \<le> length bs \<and> contents h' = overlay (nat pos) (take k bs) (contents h)))"

lemma serves_readsD:
  assumes "serves_reads pread contents delays fdv" "0 < n" "0 \<le> pos" "pread fdv n pos h = (r, h1)"
  shows "r = Failed e \<Longrightarrow> e = EINTR \<and> contents h1 = contents h \<and> delays h1 < delays h"
    and "r = Moved bs \<Longrightarrow> contents h1 = contents h \<and> length bs \<le> n \<and>
          bs = take (length bs) (drop (nat pos) (contents h)) \<and> (bs = [] \<longrightarrow> length (contents h) \<le> nat pos)"
  using assms(1) [unfolded serves_reads_def, rule_format, of n pos h] assms(2-4) by simp_all

lemma serves_writesD:
  assumes "serves_writes pwrite contents delays fdv" "bs \<noteq> []" "0 \<le> pos" "pwrite fdv bs pos h = (r, h1)"
  shows "r = Failed e \<Longrightarrow> e = EINTR \<and> contents h1 = contents h \<and> delays h1 < delays h"
    and "r = Moved k \<Longrightarrow> 0 < k \<and> k \<le> length bs \<and> contents h1 = overlay (nat pos) (take k bs) (contents h)"
  using assms(1) [unfolded serves_writes_def, rule_format, of bs pos h] assms(2-4) by simp_all

text \<open>One round of each loop.\<close>

lemma doRead_round:
  "doRead pread fdv 0 pos got h = Some (got, ESUCCESS, False, h)"
  "0 < n \<Longrightarrow> pread fdv (min n SSIZE_MAX) pos h = (Failed EINTR, h') \<Longrightarrow> doRead pread fdv n pos got h = doRead pread fdv n pos got h'"
  "0 < n \<Longrightarrow> pread fdv (min n SSIZE_MAX) pos h = (Moved [], h') \<Longrightarrow> doRead pread fdv n pos got h = Some (got, ESUCCESS, True, h')"
  "0 < n \<Longrightarrow> pread fdv (min n SSIZE_MAX) pos h = (Moved bs, h') \<Longrightarrow> bs \<noteq> [] \<Longrightarrow>
     doRead pread fdv n pos got h = doRead pread fdv (n - length bs) (pos + int (length bs)) (got @ bs) h'"
  by (subst doRead.simps, simp add: Let_def)+

lemma doWrite_round:
  "doWrite pwrite fdv [] pos n h = Some (n, ESUCCESS, h)"
  "bs \<noteq> [] \<Longrightarrow> pwrite fdv (take SSIZE_MAX bs) pos h = (Failed EINTR, h') \<Longrightarrow> doWrite pwrite fdv bs pos n h = doWrite pwrite fdv bs pos n h'"
  "bs \<noteq> [] \<Longrightarrow> pwrite fdv (take SSIZE_MAX bs) pos h = (Moved k, h') \<Longrightarrow> 0 < k \<Longrightarrow>
     doWrite pwrite fdv bs pos n h = doWrite pwrite fdv (drop k bs) (pos + int k) (n + k) h'"
  by (subst doWrite.simps, simp)+

lemma doRead_exact:
  assumes host: "serves_reads pread contents delays fdv"
  shows "0 \<le> pos \<Longrightarrow> \<exists>h'. doRead pread fdv n pos got h =
           Some (got @ take n (drop (nat pos) (contents h)), ESUCCESS,
                 length (take n (drop (nat pos) (contents h))) < n, h') \<and> contents h' = contents h"
proof (induction n arbitrary: pos got h rule: less_induct)
  case (less n)
  note outer = less.IH
  show ?case using less.prems
  proof (induction "delays h" arbitrary: h rule: less_induct)
    case (less h)
    note inner = less.hyps
    show ?case
    proof (cases "n = 0")
      case True
      then show ?thesis by (simp add: doRead_round)
    next
      case False
      obtain r h1 where call: "pread fdv (min n SSIZE_MAX) pos h = (r, h1)" by fastforce
      have "0 < min n SSIZE_MAX" using False by (simp add: SSIZE_MAX_def)
      note served = serves_readsD [OF host this less.prems call]
      show ?thesis
      proof (cases r)
        case (Failed e)
        then have e: "e = EINTR" "contents h1 = contents h" "delays h1 < delays h" using served(1) by auto
        have "doRead pread fdv n pos got h = doRead pread fdv n pos got h1"
          by (rule doRead_round(2)) (use False call Failed e(1) in simp_all)
        then show ?thesis using inner [OF e(3) less.prems] e(2) by simp
      next
        case (Moved bs)
        then have bs: "contents h1 = contents h" "length bs \<le> n"
          "bs = take (length bs) (drop (nat pos) (contents h))" "bs = [] \<longrightarrow> length (contents h) \<le> nat pos"
          using served(2) [OF Moved] by (blast, simp, blast, blast)
        show ?thesis
        proof (cases "bs = []")
          case True
          then have "drop (nat pos) (contents h) = []" using bs(4) by simp
          moreover have "doRead pread fdv n pos got h = Some (got, ESUCCESS, True, h1)"
            by (rule doRead_round(3)) (use False call Moved True in simp_all)
          ultimately show ?thesis using False bs(1) by simp
        next
          case ne: False
          then have "n - length bs < n" using False by simp
          from outer [OF this, of "pos + int (length bs)" "got @ bs" h1] less.prems obtain h' where
            rest: "doRead pread fdv (n - length bs) (pos + int (length bs)) (got @ bs) h1 =
              Some (got @ bs @ take (n - length bs) (drop (nat pos + length bs) (contents h)), ESUCCESS,
                 length (take (n - length bs) (drop (nat pos + length bs) (contents h))) < n - length bs, h')"
            "contents h' = contents h"
            using bs(1) by (auto simp: nat_add_distrib)
          let ?d = "drop (nat pos) (contents h)"
          have "take n ?d = take (length bs) ?d @ take (n - length bs) (drop (length bs) ?d)"
            using bs(2) by (metis le_add_diff_inverse take_add)
          then have all: "take n ?d = bs @ take (n - length bs) (drop (nat pos + length bs) (contents h))"
            using bs(3) by (simp add: add.commute)
          have step: "doRead pread fdv n pos got h = doRead pread fdv (n - length bs) (pos + int (length bs)) (got @ bs) h1"
            by (rule doRead_round(4)) (use False call Moved ne in simp_all)
          show ?thesis unfolding step rest(1) all using bs(2) rest(2) by auto
        qed
      qed
    qed
  qed
qed

lemma doWrite_exact:
  assumes host: "serves_writes pwrite contents delays fdv"
  shows "0 \<le> pos \<Longrightarrow> \<exists>h'. doWrite pwrite fdv bs pos n h = Some (n + length bs, ESUCCESS, h') \<and>
           (bs \<noteq> [] \<longrightarrow> contents h' = overlay (nat pos) bs (contents h))"
proof (induction "length bs" arbitrary: bs pos n h rule: less_induct)
  case (less bs)
  note outer = less.hyps
  show ?case using less.prems
  proof (induction "delays h" arbitrary: h rule: less_induct)
    case (less h)
    note inner = less.hyps
    show ?case
    proof (cases "bs = []")
      case True
      then show ?thesis by (simp add: doWrite_round)
    next
      case False
      obtain r h1 where call: "pwrite fdv (take SSIZE_MAX bs) pos h = (r, h1)" by fastforce
      have "take SSIZE_MAX bs \<noteq> []" using False by (simp add: SSIZE_MAX_def)
      note served = serves_writesD [OF host this less.prems call]
      show ?thesis
      proof (cases r)
        case (Failed e)
        then have e: "e = EINTR" "contents h1 = contents h" "delays h1 < delays h" using served(1) by auto
        have "doWrite pwrite fdv bs pos n h = doWrite pwrite fdv bs pos n h1"
          by (rule doWrite_round(2)) (use False call Failed e(1) in simp_all)
        then show ?thesis using inner [OF e(3) less.prems] e(2) by simp
      next
        case (Moved k)
        then have k: "0 < k" "k \<le> length bs" "k \<le> SSIZE_MAX" "contents h1 = overlay (nat pos) (take k bs) (contents h)"
          using served(2) [OF Moved] by (auto simp: min_def split: if_splits)
        have step: "doWrite pwrite fdv bs pos n h = doWrite pwrite fdv (drop k bs) (pos + int k) (n + k) h1"
          by (rule doWrite_round(3)) (use False call Moved k(1) in simp_all)
        have "length (drop k bs) < length bs" using k(1) False by simp
        from outer [OF this, of "pos + int k" "n + k" h1] less.prems obtain h' where
          rest: "doWrite pwrite fdv (drop k bs) (pos + int k) (n + k) h1 = Some (n + length bs, ESUCCESS, h')"
            "drop k bs \<noteq> [] \<longrightarrow> contents h' = overlay (nat pos + k) (drop k bs) (contents h1)"
          using k(2) by (auto simp: nat_add_distrib)
        have "contents h' = overlay (nat pos) bs (contents h)"
        proof (cases "drop k bs = []")
          case True
          then have "h' = h1" using rest(1) by (simp add: doWrite_round)
          then show ?thesis using True k(2,4) by simp
        next
          case False
          then show ?thesis
            using rest(2) overlay_overlay [of "nat pos" "take k bs" "drop k bs" "contents h"] k(2,4) by simp
        qed
        then show ?thesis using step rest(1) by auto
      qed
    qed
  qed
qed

section \<open>Transfers are exact\<close>

definition start_of :: "FileObject \<Rightarrow> int option \<Rightarrow> int" where
  "start_of f offset = (case offset of Some p \<Rightarrow> p | None \<Rightarrow> filePos f)"

lemma files_read_regular:
  assumes "serves_reads pread contents delays (fd f)" "valid_file f" "\<not> isPipe f" "0 < n" "0 \<le> start_of f offset"
  shows "\<exists>h'. files_read pread sread (Some f) n offset upd h =
           (let got = take n (drop (nat (start_of f offset)) (contents h)) in
            Some (\<lparr>bytesTransferred = length got, unixError = ESUCCESS, reachedEnd = length got < n\<rparr>, got,
                  Some (if upd then f\<lparr>filePos := start_of f offset + int (length got)\<rparr> else f), h'))
         \<and> contents h' = contents h"
proof -
  obtain h' where "doRead pread (fd f) n (start_of f offset) [] h =
      Some ([] @ take n (drop (nat (start_of f offset)) (contents h)), ESUCCESS,
            length (take n (drop (nat (start_of f offset)) (contents h))) < n, h')" "contents h' = contents h"
    using doRead_exact [OF assms(1,5), of n "[]" h] by blast
  then show ?thesis
    using assms(2-4) by (intro exI [of _ h']) (simp add: files_read_def start_of_def Let_def)
qed

text \<open>
  Reading a file. Whatever pieces the host serves it in and however often it is interrupted, a read of a
  regular file ends, stores exactly the bytes of the file from the given offset, or from the file
  pointer, on, as many as were asked for or as there are, reports the end of the file exactly when there were fewer,
  and moves the file pointer behind them when it is to be moved and not otherwise.
\<close>

theorem file_read_exact:
  assumes "serves_reads pread contents delays (fd f)" "valid_file f" "\<not> isPipe f" "0 < n" "0 \<le> start_of f offset"
  shows "\<exists>h'. files_read pread sread (Some f) n offset upd h =
           (let got = take n (drop (nat (start_of f offset)) (contents h)) in
            Some (\<lparr>bytesTransferred = length got, unixError = ESUCCESS, reachedEnd = length got < n\<rparr>, got,
                  Some (if upd then f\<lparr>filePos := start_of f offset + int (length got)\<rparr> else f), h'))
         \<and> contents h' = contents h"
  by (rule files_read_regular [OF assms])

lemma files_write_regular:
  assumes "serves_reads pread contents rdelays (fd f)" "serves_writes pwrite contents wdelays (fd f)"
    and "valid_file f" "\<not> isPipe f" "\<not> appendOnly f" "bs \<noteq> []" "0 \<le> start_of f offset"
  shows "\<exists>f' h1 h2. files_write pwrite swrite seek (Some f) bs offset upd h =
             Some (\<lparr>bytesTransferred = length bs, unixError = ESUCCESS, reachedEnd = False\<rparr>, Some f', h1)
           \<and> f' = (if upd then f\<lparr>filePos := start_of f offset + int (length bs)\<rparr> else f)
           \<and> contents h1 = overlay (nat (start_of f offset)) bs (contents h)
           \<and> files_read pread sread (Some f') (length bs) (Some (start_of f offset)) False h1 =
             Some (\<lparr>bytesTransferred = length bs, unixError = ESUCCESS, reachedEnd = False\<rparr>, bs, Some f', h2)"
proof -
  let ?p = "start_of f offset"
  define f' where "f' = (if upd then f\<lparr>filePos := ?p + int (length bs)\<rparr> else f)"
  obtain h1 where w: "doWrite pwrite (fd f) bs ?p 0 h = Some (0 + length bs, ESUCCESS, h1)"
      and c: "contents h1 = overlay (nat ?p) bs (contents h)"
    using doWrite_exact [OF assms(2,7), of bs 0 h] assms(6) by blast
  have f': "fd f' = fd f" "valid_file f'" "\<not> isPipe f'" using assms(3,4) by (simp_all add: f'_def valid_file_def)
  obtain h2 where r: "doRead pread (fd f) (length bs) ?p [] h1 =
      Some ([] @ take (length bs) (drop (nat ?p) (contents h1)), ESUCCESS,
            length (take (length bs) (drop (nat ?p) (contents h1))) < length bs, h2)"
    using doRead_exact [OF assms(1,7), of "length bs" "[]" h1] by blast
  have "files_write pwrite swrite seek (Some f) bs offset upd h =
             Some (\<lparr>bytesTransferred = length bs, unixError = ESUCCESS, reachedEnd = False\<rparr>, Some f', h1)"
    using assms(3-6) w by (simp add: files_write_def f'_def start_of_def Let_def)
  moreover have "files_read pread sread (Some f') (length bs) (Some ?p) False h1 =
             Some (\<lparr>bytesTransferred = length bs, unixError = ESUCCESS, reachedEnd = False\<rparr>, bs, Some f', h2)"
    using r f' assms(6) by (simp add: files_read_def c read_overlay Let_def)
  ultimately show ?thesis using c f'_def by blast
qed

text \<open>
  What is written is read back. A write to a regular file ends, writes all bytes, leaves the file as before
  except for these bytes at the given offset, or at the file pointer, and moves the file
  pointer behind them when it is to be moved; reading the same range afterwards gives the same bytes.
\<close>

theorem file_write_then_read:
  assumes "serves_reads pread contents rdelays (fd f)" "serves_writes pwrite contents wdelays (fd f)"
    and "valid_file f" "\<not> isPipe f" "\<not> appendOnly f" "bs \<noteq> []" "0 \<le> start_of f offset"
  shows "\<exists>f' h1 h2. files_write pwrite swrite seek (Some f) bs offset upd h =
             Some (\<lparr>bytesTransferred = length bs, unixError = ESUCCESS, reachedEnd = False\<rparr>, Some f', h1)
           \<and> f' = (if upd then f\<lparr>filePos := start_of f offset + int (length bs)\<rparr> else f)
           \<and> contents h1 = overlay (nat (start_of f offset)) bs (contents h)
           \<and> files_read pread sread (Some f') (length bs) (Some (start_of f offset)) False h1 =
             Some (\<lparr>bytesTransferred = length bs, unixError = ESUCCESS, reachedEnd = False\<rparr>, bs, Some f', h2)"
  by (rule files_write_regular [OF assms])

text \<open>A host that serves one byte at a time and interrupts every other call.\<close>

definition slow_pread :: "(u8 list \<times> bool) pread" where
  "slow_pread fdv n pos h =
     (if snd h then (Failed EINTR, (fst h, False)) else (Moved (take 1 (drop (nat pos) (fst h))), (fst h, True)))"

definition slow_pwrite :: "(u8 list \<times> bool) pwrite" where
  "slow_pwrite fdv bs pos h =
     (if snd h then (Failed EINTR, (fst h, False)) else (Moved 1, (overlay (nat pos) (take 1 bs) (fst h), True)))"

definition slow_delays :: "u8 list \<times> bool \<Rightarrow> nat" where "slow_delays h = (if snd h then 1 else 0)"

lemma slow_host: "serves_reads slow_pread fst slow_delays fdv" "serves_writes slow_pwrite fst slow_delays fdv"
  by (auto simp: serves_reads_def serves_writes_def slow_pread_def slow_pwrite_def slow_delays_def min_def Suc_le_eq)

definition demo_file :: FileObject where
  "demo_file = new_FileObject (Moved 1) 3"

theorem file_read_exact_witness:
  "map_option (\<lambda>(r, got, f, h). (got, reachedEnd r, map_option filePos f))
     (files_read slow_pread (\<lambda>_ _ h. (Failed EIO, h)) (Some demo_file) 5 None True ([7, 8, 9], True))
   = Some ([8, 9], True, Some 3)"
proof -
  have f: "valid_file demo_file" "\<not> isPipe demo_file" "start_of demo_file None = 1"
    by (simp_all add: demo_file_def new_FileObject_def valid_file_def start_of_def)
  have "0 \<le> start_of demo_file None" by (simp add: f(3))
  from file_read_exact [OF slow_host(1) f(1,2) _ this, where n = 5 and sread = "\<lambda>_ _ h. (Failed EIO, h)"
      and upd = True and h = "([7, 8, 9], True)"]
  show ?thesis by (elim exE conjE | simp add: f(3) Let_def)+
qed

theorem file_write_then_read_witness:
  "\<exists>r f' h1. files_write slow_pwrite (\<lambda>_ _ h. (Failed EIO, h)) (\<lambda>_ _. Failed EIO) (Some demo_file) [5, 6] None True ([7, 8, 9], True)
     = Some (r, Some f', h1) \<and> fst h1 = [7, 5, 6] \<and> filePos f' = 3"
proof -
  have f: "valid_file demo_file" "\<not> isPipe demo_file" "\<not> appendOnly demo_file" "start_of demo_file None = 1"
    by (simp_all add: demo_file_def new_FileObject_def valid_file_def start_of_def)
  have p: "0 \<le> start_of demo_file None" by (simp add: f(4))
  have "[5, 6 :: u8] \<noteq> []" by simp
  from file_write_then_read [OF slow_host f(1-3) this p, where swrite = "\<lambda>_ _ h. (Failed EIO, h)" and seek = "\<lambda>_ _. Failed EIO"
      and upd = True and h = "([7, 8, 9], True)" and sread = "\<lambda>_ _ h. (Failed EIO, h)"]
  obtain f' h1 where w: "files_write slow_pwrite (\<lambda>_ _ h. (Failed EIO, h)) (\<lambda>_ _. Failed EIO) (Some demo_file) [5, 6] None True
        ([7, 8, 9], True) = Some (\<lparr>bytesTransferred = length [5, 6 :: u8], unixError = ESUCCESS, reachedEnd = False\<rparr>, Some f', h1)"
    and f': "f' = (if True then demo_file\<lparr>filePos := start_of demo_file None + int (length [5, 6 :: u8])\<rparr> else demo_file)"
    and c: "fst h1 = overlay (nat (start_of demo_file None)) [5, 6] (fst ([7, 8, 9], True))"
    by blast
  show ?thesis unfolding w using f' c by (simp add: f(4) overlay_def)
qed

end
