(* ===== verification/Async_Io.thy ===== *)
theory Async_Io
  imports File_Transfer
begin

text \<open>
  The asynchronous transfers of overlapped files, in the backend of \<^verbatim>\<open>src/src/async_io_epoll.cpp\<close>. A request for a
  pipe waits in the queue of its descriptor until the worker thread is told that the descriptor is
  ready; a request for another file is carried out by one of up to four file workers, which hand the result to
  the worker thread. The worker thread signals every completion. \<^verbatim>\<open>shutdown\<close> stops them.

  The theory has the routines, and the threads as a transition system whose steps are the sections
  between two accesses to shared state: the queue of file requests, the completions, the atomic counters and the
  event descriptor are accessed in one step each, and \<^verbatim>\<open>mMutex\<close> is a field, since a client holds it
  over several accesses. The host is a record of functions on a host state that other programs may
  change at any moment.
\<close>

section \<open>Requests and the state of a descriptor\<close>

datatype Kind = ReadReq | WriteReq

text \<open>
  \<open>roverlapped\<close> is the address of the guest's \<^verbatim>\<open>OVERLAPPED\<close>, which tells requests apart. \<^verbatim>\<open>rfile\<close> is the pinned file object:
  requests are queued for overlapped files only, whose object no transfer changes.
\<close>

record AsyncRequest =
  rkind :: Kind
  rfile :: "FileObject option"
  roverlapped :: nat
  roffset :: "int option"
  risPipe :: bool
  rupdate :: bool
  rbuffer :: "u8 list"
  rlength :: nat
  rprogress :: nat

record FileState =
  sfd :: int
  registered :: bool
  sevents :: u32
  originalFlags :: int
  readQueue :: "AsyncRequest list"
  writeQueue :: "AsyncRequest list"

definition new_FileState :: "int \<Rightarrow> FileState" where
  "new_FileState fdIn = \<lparr>sfd = fdIn, registered = False, sevents = 0, originalFlags = -1, readQueue = [], writeQueue = []\<rparr>"

record ProcessResult =
  pcompleted :: bool
  prequeue :: bool
  pstatus :: u32
  pbytes :: nat

record Completion =
  creq :: AsyncRequest
  cstatus :: u32
  cbytes :: nat

abbreviation (input) kStatusCancelled :: u32 where "kStatusCancelled \<equiv> 0xC0000120"
abbreviation (input) EPOLLIN :: u32 where "EPOLLIN \<equiv> 0x1"
abbreviation (input) EPOLLOUT :: u32 where "EPOLLOUT \<equiv> 0x4"
abbreviation (input) EPOLLERR :: u32 where "EPOLLERR \<equiv> 0x8"
abbreviation (input) EPOLLHUP :: u32 where "EPOLLHUP \<equiv> 0x10"
abbreviation (input) F_GETFL :: int where "F_GETFL \<equiv> 3"
abbreviation (input) F_SETFL :: int where "F_SETFL \<equiv> 4"
abbreviation (input) O_NONBLOCK :: int where "O_NONBLOCK \<equiv> 0x800"

text \<open>The calls of the host. \<open>op_epoll_ctl\<close> says whether the call succeeds; a missing argument of \<open>op_fcntl\<close> is \<open>None\<close>.\<close>

record 'k HostOps =
  op_pread :: "'k pread"
  op_sread :: "'k sread"
  op_pwrite :: "'k pwrite"
  op_swrite :: "'k swrite"
  op_lseek :: "int \<Rightarrow> 'k \<Rightarrow> int rc"
  op_fcntl :: "int \<Rightarrow> int \<Rightarrow> int option \<Rightarrow> 'k \<Rightarrow> int \<times> 'k"
  op_epoll_ctl :: "int \<Rightarrow> 'k \<Rightarrow> bool \<times> 'k"

section \<open>Registration\<close>

definition ensureNonBlocking :: "'k HostOps \<Rightarrow> FileState \<Rightarrow> 'k \<Rightarrow> FileState \<times> 'k" where
  "ensureNonBlocking ops st k =
     (if originalFlags st \<ge> 0 then (st, k)
      else let (flags, k1) = op_fcntl ops (sfd st) F_GETFL (Some 0) k in
        if flags < 0 then (st, k1)
        else if flags AND O_NONBLOCK \<noteq> 0 then (st, k1)
        else let (rc, k2) = op_fcntl ops (sfd st) (flags OR O_NONBLOCK) None k1 in
          (st\<lparr>originalFlags := (if rc \<noteq> 0 then -1 else flags)\<rparr>, k2))"

definition restoreOriginalFlags :: "'k HostOps \<Rightarrow> FileState \<Rightarrow> 'k \<Rightarrow> FileState \<times> 'k" where
  "restoreOriginalFlags ops st k =
     (if originalFlags st < 0 then (st, k)
      else let (rc, k1) = op_fcntl ops (sfd st) F_SETFL (Some (originalFlags st)) k in
        (st\<lparr>originalFlags := -1\<rparr>, k1))"

definition updateRegistrationLocked :: "'k HostOps \<Rightarrow> FileState \<Rightarrow> 'k \<Rightarrow> FileState \<times> 'k" where
  "updateRegistrationLocked ops st k =
     (let desired = (if readQueue st \<noteq> [] then EPOLLIN else 0) OR (if writeQueue st \<noteq> [] then EPOLLOUT else 0) in
      if desired = sevents st \<and> registered st then (st, k)
      else if desired = 0 then
        (if registered st
         then restoreOriginalFlags ops (st\<lparr>registered := False, sevents := 0\<rparr>) (snd (op_epoll_ctl ops (sfd st) k))
         else restoreOriginalFlags ops st k)
      else let (ok, k1) = op_epoll_ctl ops (sfd st) k in
        if \<not> ok then (st, k1) else (st\<lparr>registered := True, sevents := desired\<rparr>, k1))"

section \<open>Carrying out a request\<close>

definition pipe_error :: "errno \<Rightarrow> u32" where
  "pipe_error e =
     (if e = EPIPE \<or> e = ECONNRESET then STATUS_PIPE_BROKEN
      else let status = statusFromErrno e in if status = STATUS_SUCCESS then STATUS_UNEXPECTED_IO_ERROR else status)"

definition finished :: "u32 \<Rightarrow> nat \<Rightarrow> ProcessResult" where
  "finished status n = \<lparr>pcompleted = True, prequeue = False, pstatus = status, pbytes = n\<rparr>"

definition again :: ProcessResult where
  "again = \<lparr>pcompleted = False, prequeue = True, pstatus = STATUS_SUCCESS, pbytes = 0\<rparr>"

text \<open>The result, the bytes stored in the request's buffer and the host.\<close>

definition tryProcessPipeRead :: "'k HostOps \<Rightarrow> AsyncRequest \<Rightarrow> 'k \<Rightarrow> (ProcessResult \<times> u8 list \<times> 'k) option" where
  "tryProcessPipeRead ops req k =
     (case rfile req of
        None \<Rightarrow> Some (finished STATUS_INVALID_HANDLE 0, [], k)
      | Some f \<Rightarrow>
          if \<not> valid_file f then Some (finished STATUS_INVALID_HANDLE 0, [], k)
          else if rlength req = 0 then Some (finished STATUS_SUCCESS 0, [], k)
          else case readPipe (op_sread ops) (fd f) (min (rlength req) SSIZE_MAX) k of
            None \<Rightarrow> None
          | Some (Moved bs, k') \<Rightarrow>
              if bs \<noteq> [] then Some (finished STATUS_SUCCESS (length bs), bs, k')
              else Some (finished (if risPipe req then STATUS_PIPE_BROKEN else STATUS_END_OF_FILE) 0, [], k')
          | Some (Failed e, k') \<Rightarrow>
              if e = EAGAIN then Some (again, [], k') else Some (finished (pipe_error (error_of e)) 0, [], k'))"

text \<open>How the loop of \<^verbatim>\<open>tryProcessPipeWrite\<close> ends; a request remembers how far it got.\<close>

datatype wstop = AllSent | Stalled | WouldBlock | Broke errno

definition advance :: "nat \<Rightarrow> AsyncRequest \<Rightarrow> AsyncRequest" where
  "advance n req = req\<lparr>rprogress := rprogress req + n, roffset := map_option (\<lambda>p. p + int n) (roffset req)\<rparr>"

partial_function (option) pipeWrite :: "'k swrite \<Rightarrow> int \<Rightarrow> AsyncRequest \<Rightarrow> 'k \<Rightarrow> (wstop \<times> AsyncRequest \<times> 'k) option" where
  "pipeWrite swrite fdv req k =
     (let rest = drop (rprogress req) (rbuffer req) in
      if rest = [] then Some (AllSent, req, k)
      else case swrite fdv (take SSIZE_MAX rest) k of
        (Moved n, k') \<Rightarrow> if n = 0 then Some (Stalled, req, k') else pipeWrite swrite fdv (advance n req) k'
      | (Failed e, k') \<Rightarrow>
          if e = EINTR then pipeWrite swrite fdv req k'
          else if e = EAGAIN then Some (WouldBlock, req, k') else Some (Broke (error_of e), req, k'))"

declare pipeWrite.simps [code]

definition tryProcessPipeWrite :: "'k HostOps \<Rightarrow> AsyncRequest \<Rightarrow> 'k \<Rightarrow> (ProcessResult \<times> AsyncRequest \<times> 'k) option" where
  "tryProcessPipeWrite ops req k =
     (case rfile req of
        None \<Rightarrow> Some (finished STATUS_INVALID_HANDLE 0, req, k)
      | Some f \<Rightarrow>
          if \<not> valid_file f then Some (finished STATUS_INVALID_HANDLE 0, req, k)
          else case pipeWrite (op_swrite ops) (fd f) req k of
            None \<Rightarrow> None
          | Some (AllSent, req', k') \<Rightarrow> Some (finished STATUS_SUCCESS (rprogress req'), req', k')
          | Some (Broke e, req', k') \<Rightarrow> Some (finished (pipe_error e) (rprogress req'), req', k')
          | Some (_, req', k') \<Rightarrow> Some (again, req', k'))"

definition processBlockingRequest :: "'k HostOps \<Rightarrow> AsyncRequest \<Rightarrow> 'k \<Rightarrow> (Completion \<times> u8 list \<times> 'k) option" where
  "processBlockingRequest ops req k =
     (if rfile req = None \<or> \<not> valid_file (the (rfile req))
      then Some (\<lparr>creq = req, cstatus = STATUS_INVALID_HANDLE, cbytes = 0\<rparr>, [], k)
      else
        let io = (if rkind req = ReadReq
                  then map_option (\<lambda>(r, bs, f, k'). (r, bs, k'))
                         (files_read (op_pread ops) (op_sread ops) (rfile req) (rlength req) (roffset req) (rupdate req) k)
                  else map_option (\<lambda>(r, f, k'). (r, [], k'))
                         (files_write (op_pwrite ops) (op_swrite ops) (op_lseek ops) (rfile req) (rbuffer req) (roffset req)
                            (rupdate req) k))
        in case io of None \<Rightarrow> None
           | Some (r, bs, k') \<Rightarrow>
               Some (\<lparr>creq = req,
                      cstatus = (if unixError r \<noteq> ESUCCESS
                                 then let st = statusFromErrno (unixError r) in
                                      if st = STATUS_SUCCESS then STATUS_UNEXPECTED_IO_ERROR else st
                                 else if rkind req = ReadReq \<and> bytesTransferred r = 0 \<and> reachedEnd r
                                 then if risPipe req then STATUS_PIPE_BROKEN else STATUS_END_OF_FILE
                                 else if rkind req = WriteReq \<and> bytesTransferred r = 0 \<and> reachedEnd r
                                 then STATUS_END_OF_FILE
                                 else STATUS_SUCCESS),
                      cbytes = bytesTransferred r\<rparr>, bs, k'))"

section \<open>The threads\<close>

type_synonym events = "(int option \<times> u32) list"  \<comment> \<open>\<open>None\<close>: the event descriptor\<close>

text \<open>
  Where the worker thread is, with what it carries. \<open>WSwap k\<close> is at the start of \<^verbatim>\<open>processCompletions\<close> and \<open>WComplete cs k\<close>
  in its loop, \<open>k\<close> being what follows. \<open>WRead\<close>, \<open>WTryRead\<close> and \<open>WReadUpd\<close> are in the first loop of
  \<^verbatim>\<open>handleFileEvents\<close>, \<open>WWrite\<close> and so on in its second, \<open>WClean\<close> at its end. \<open>WCollect\<close> and what follows are in
  \<^verbatim>\<open>failAllPending\<close>.
\<close>

datatype wpc =
    WSwap wpc | WComplete "Completion list" wpc | WCheck | WWait | WEvents events
  | WRead int u32 events | WTryRead AsyncRequest int u32 events | WReadUpd int u32 events
  | WWrite int events | WTryWrite AsyncRequest int events | WWriteUpd int events
  | WClean int events
  | WCollect | WCollectQueue "AsyncRequest list" | WCollectDone "AsyncRequest list" | WCancel "AsyncRequest list" | WExit

datatype fpc = FIdle | FHold AsyncRequest | FPush Completion | FNotify | FExit

datatype cpc = CIdle | CPipe AsyncRequest | CChecked AsyncRequest | CAdded AsyncRequest | CRefused

datatype spc = SIdle | SStop | SNotify | SJoin | SJoinFiles | SDone

text \<open>
  The members of \<^verbatim>\<open>EpollBackend\<close>, the threads, and three histories: the completions signalled, the requests whose \<^verbatim>\<open>queueRead\<close> or
  \<^verbatim>\<open>queueWrite\<close> has returned true, and the requests \<^verbatim>\<open>shutdown\<close> has thrown away.
\<close>

record 'k EState =
  mRunning :: bool
  mPending :: u32
  mFileStates :: "int \<rightharpoonup> FileState"
  mFileQueue :: "AsyncRequest list"
  mFileStopping :: bool
  mCompletions :: "Completion list"
  eventFd :: bool
  mMutexBy :: "nat option"
  khost :: 'k
  worker :: wpc
  fileWorkers :: "fpc list"
  clients :: "nat \<Rightarrow> cpc"
  stopper :: spc
  signals :: "Completion list"
  accepted :: "AsyncRequest list"
  dropped :: "AsyncRequest list"

text \<open>After \<^verbatim>\<open>init\<close>, with as many file workers as it starts.\<close>

definition worker_count :: "nat \<Rightarrow> nat" where
  "worker_count hardware_concurrency = min (if hardware_concurrency = 0 then 1 else hardware_concurrency) 4"

definition backend_init :: "nat \<Rightarrow> 'k \<Rightarrow> 'k EState" where
  "backend_init hc k =
     \<lparr>mRunning = True, mPending = 0, mFileStates = Map.empty, mFileQueue = [], mFileStopping = False, mCompletions = [],
      eventFd = False, mMutexBy = None, khost = k, worker = WSwap WCheck, fileWorkers = replicate (worker_count hc) FIdle,
      clients = (\<lambda>_. CIdle), stopper = SIdle, signals = [], accepted = [], dropped = []\<rparr>"

definition completeRequest :: "Completion \<Rightarrow> 'k EState \<Rightarrow> 'k EState" where
  "completeRequest c s = s\<lparr>signals := signals s @ [c], mPending := mPending s - 1\<rparr>"

definition notifyWorker :: "'k EState \<Rightarrow> 'k EState" where
  "notifyWorker s = s\<lparr>eventFd := True\<rparr>"

definition queueRead :: "FileObject option \<Rightarrow> nat \<Rightarrow> nat \<Rightarrow> int option \<Rightarrow> bool \<Rightarrow> AsyncRequest" where
  "queueRead f ov len offset pipe =
     \<lparr>rkind = ReadReq, rfile = f, roverlapped = ov, roffset = offset, risPipe = pipe,
      rupdate = (case f of Some fo \<Rightarrow> \<not> overlapped fo | None \<Rightarrow> True), rbuffer = [], rlength = len, rprogress = 0\<rparr>"

definition queueWrite :: "FileObject option \<Rightarrow> nat \<Rightarrow> u8 list \<Rightarrow> int option \<Rightarrow> bool \<Rightarrow> AsyncRequest" where
  "queueWrite f ov buffer offset pipe =
     \<lparr>rkind = WriteReq, rfile = f, roverlapped = ov, roffset = offset, risPipe = pipe,
      rupdate = (case f of Some fo \<Rightarrow> \<not> overlapped fo | None \<Rightarrow> True), rbuffer = buffer, rlength = length buffer, rprogress = 0\<rparr>"

definition rfd :: "AsyncRequest \<Rightarrow> int" where
  "rfd req = (case rfile req of Some f \<Rightarrow> fd f | None \<Rightarrow> -1)"

text \<open>The body of \<^verbatim>\<open>enqueueRequest\<close> for a pipe under \<^verbatim>\<open>mMutex\<close>, after the test of \<^verbatim>\<open>mRunning\<close>.\<close>

definition enqueuePipe :: "'k HostOps \<Rightarrow> AsyncRequest \<Rightarrow> 'k EState \<Rightarrow> 'k EState" where
  "enqueuePipe ops req s =
     (let st = (case mFileStates s (rfd req) of None \<Rightarrow> new_FileState (rfd req) | Some st \<Rightarrow> st);
          (st1, k1) = ensureNonBlocking ops st (khost s);
          st2 = (if rkind req = ReadReq then st1\<lparr>readQueue := readQueue st1 @ [req]\<rparr>
                 else st1\<lparr>writeQueue := writeQueue st1 @ [req]\<rparr>);
          (st3, k3) = updateRegistrationLocked ops st2 k1
      in notifyWorker (s\<lparr>mPending := mPending s + 1, mFileStates := (mFileStates s)(rfd req \<mapsto> st3), khost := k3\<rparr>))"

text \<open>\<^verbatim>\<open>updateRegistrationLocked\<close> on the state of a descriptor in the table, with its queues replaced first.\<close>

definition requeue :: "'k HostOps \<Rightarrow> int \<Rightarrow> (FileState \<Rightarrow> FileState) \<Rightarrow> 'k EState \<Rightarrow> 'k EState" where
  "requeue ops fdv f s =
     (case mFileStates s fdv of None \<Rightarrow> s
      | Some st \<Rightarrow> let (st1, k1) = updateRegistrationLocked ops (f st) (khost s) in
          s\<lparr>mFileStates := (mFileStates s)(fdv \<mapsto> st1), khost := k1\<rparr>)"

definition canRead :: "u32 \<Rightarrow> bool" where "canRead e \<longleftrightarrow> e AND (EPOLLIN OR EPOLLERR OR EPOLLHUP) \<noteq> 0"
definition canWrite :: "u32 \<Rightarrow> bool" where "canWrite e \<longleftrightarrow> e AND (EPOLLOUT OR EPOLLERR OR EPOLLHUP) \<noteq> 0"

definition after_reads :: "int \<Rightarrow> u32 \<Rightarrow> events \<Rightarrow> wpc" where
  "after_reads fdv e evs = (if canWrite e then WWrite fdv evs else WClean fdv evs)"

text \<open>The last section of \<^verbatim>\<open>handleFileEvents\<close>.\<close>

definition clean_up :: "'k HostOps \<Rightarrow> int \<Rightarrow> 'k EState \<Rightarrow> 'k EState" where
  "clean_up ops fdv s =
     (case mFileStates s fdv of None \<Rightarrow> s
      | Some st \<Rightarrow>
          if \<not> registered st \<and> readQueue st = [] \<and> writeQueue st = []
          then s\<lparr>mFileStates := (mFileStates s)(fdv := None), khost := snd (restoreOriginalFlags ops st (khost s))\<rparr>
          else s)"

text \<open>The first section of \<^verbatim>\<open>failAllPending\<close>; the table is traversed in the order \<open>fds\<close>.\<close>

definition drop_queues :: "FileState \<Rightarrow> FileState" where
  "drop_queues st = st\<lparr>readQueue := [], writeQueue := [], registered := False, sevents := 0, originalFlags := -1\<rparr>"

definition collect :: "(int \<rightharpoonup> FileState) \<Rightarrow> int list \<Rightarrow> AsyncRequest list" where
  "collect m fds = concat (map (\<lambda>fdv. case m fdv of None \<Rightarrow> [] | Some st \<Rightarrow> readQueue st @ writeQueue st) fds)"

text \<open>What \<^verbatim>\<open>epoll_wait\<close> may report: descriptors that are registered, each once.\<close>

definition epoll_answer :: "'k EState \<Rightarrow> events \<Rightarrow> bool" where
  "epoll_answer s evs \<longleftrightarrow> evs \<noteq> [] \<and> length evs \<le> 128 \<and> distinct (map fst evs) \<and>
     (\<forall>src \<in> set (map fst evs). case src of None \<Rightarrow> eventFd s
        | Some fdv \<Rightarrow> (case mFileStates s fdv of None \<Rightarrow> False | Some st \<Rightarrow> registered st))"

section \<open>Steps\<close>

text \<open>The worker thread: \<^verbatim>\<open>workerLoop\<close>, \<^verbatim>\<open>handleFileEvents\<close>, \<^verbatim>\<open>processCompletions\<close>, \<^verbatim>\<open>failAllPending\<close>.\<close>

inductive wstep :: "'k HostOps \<Rightarrow> 'k EState \<Rightarrow> 'k EState \<Rightarrow> bool" for ops where
  w_swap: "worker s = WSwap n \<Longrightarrow> wstep ops s (s\<lparr>mCompletions := [], worker := WComplete (mCompletions s) n\<rparr>)"
| w_complete: "worker s = WComplete (c # cs) n \<Longrightarrow> wstep ops s (completeRequest c (s\<lparr>worker := WComplete cs n\<rparr>))"
| w_completed: "worker s = WComplete [] n \<Longrightarrow> wstep ops s (s\<lparr>worker := n\<rparr>)"
| w_leave: "worker s = WCheck \<Longrightarrow> \<not> mRunning s \<Longrightarrow> mPending s = 0 \<Longrightarrow> wstep ops s (s\<lparr>worker := WSwap (WSwap WCollect)\<rparr>)"
| w_stay: "worker s = WCheck \<Longrightarrow> mRunning s \<or> mPending s \<noteq> 0 \<Longrightarrow> wstep ops s (s\<lparr>worker := WWait\<rparr>)"
| w_nothing: "worker s = WWait \<Longrightarrow> wstep ops s (s\<lparr>worker := WSwap WCheck\<rparr>)"
| w_ready: "worker s = WWait \<Longrightarrow> epoll_answer s evs \<Longrightarrow> wstep ops s (s\<lparr>worker := WEvents evs\<rparr>)"
| w_drain: "worker s = WEvents ((None, e) # evs) \<Longrightarrow> wstep ops s (s\<lparr>eventFd := False, worker := WSwap (WEvents evs)\<rparr>)"
| w_file: "worker s = WEvents ((Some fdv, e) # evs) \<Longrightarrow>
    wstep ops s (s\<lparr>worker := (if canRead e then WRead fdv e evs else after_reads fdv e evs)\<rparr>)"
| w_round: "worker s = WEvents [] \<Longrightarrow> wstep ops s (s\<lparr>worker := WSwap WCheck\<rparr>)"
| w_read_none: "worker s = WRead fdv e evs \<Longrightarrow> mMutexBy s = None \<Longrightarrow> mFileStates s fdv = Some st \<Longrightarrow> readQueue st = [] \<Longrightarrow>
    wstep ops s (s\<lparr>worker := after_reads fdv e evs\<rparr>)"
| w_read_pop: "worker s = WRead fdv e evs \<Longrightarrow> mMutexBy s = None \<Longrightarrow> mFileStates s fdv = Some st \<Longrightarrow> readQueue st = req # q \<Longrightarrow>
    wstep ops s (s\<lparr>mFileStates := (mFileStates s)(fdv \<mapsto> st\<lparr>readQueue := q\<rparr>), worker := WTryRead req fdv e evs\<rparr>)"
| w_read_again: "worker s = WTryRead req fdv e evs \<Longrightarrow> mMutexBy s = None \<Longrightarrow>
    tryProcessPipeRead ops req (khost s) = Some (r, got, k) \<Longrightarrow> prequeue r \<Longrightarrow>
    wstep ops s (requeue ops fdv (\<lambda>st. st\<lparr>readQueue := req # readQueue st\<rparr>) (s\<lparr>khost := k, worker := after_reads fdv e evs\<rparr>))"
| w_read_done: "worker s = WTryRead req fdv e evs \<Longrightarrow>
    tryProcessPipeRead ops req (khost s) = Some (r, got, k) \<Longrightarrow> \<not> prequeue r \<Longrightarrow> pcompleted r \<Longrightarrow>
    wstep ops s (completeRequest \<lparr>creq = req, cstatus = pstatus r, cbytes = pbytes r\<rparr> (s\<lparr>khost := k, worker := WReadUpd fdv e evs\<rparr>))"
| w_read_upd: "worker s = WReadUpd fdv e evs \<Longrightarrow> mMutexBy s = None \<Longrightarrow>
    wstep ops s (requeue ops fdv (\<lambda>st. st) (s\<lparr>worker := WRead fdv e evs\<rparr>))"
| w_write_none: "worker s = WWrite fdv evs \<Longrightarrow> mMutexBy s = None \<Longrightarrow> mFileStates s fdv = Some st \<Longrightarrow> writeQueue st = [] \<Longrightarrow>
    wstep ops s (s\<lparr>worker := WClean fdv evs\<rparr>)"
| w_write_pop: "worker s = WWrite fdv evs \<Longrightarrow> mMutexBy s = None \<Longrightarrow> mFileStates s fdv = Some st \<Longrightarrow> writeQueue st = req # q \<Longrightarrow>
    wstep ops s (s\<lparr>mFileStates := (mFileStates s)(fdv \<mapsto> st\<lparr>writeQueue := q\<rparr>), worker := WTryWrite req fdv evs\<rparr>)"
| w_write_again: "worker s = WTryWrite req fdv evs \<Longrightarrow> mMutexBy s = None \<Longrightarrow>
    tryProcessPipeWrite ops req (khost s) = Some (r, req', k) \<Longrightarrow> prequeue r \<Longrightarrow>
    wstep ops s (requeue ops fdv (\<lambda>st. st\<lparr>writeQueue := req' # writeQueue st\<rparr>) (s\<lparr>khost := k, worker := WClean fdv evs\<rparr>))"
| w_write_done: "worker s = WTryWrite req fdv evs \<Longrightarrow>
    tryProcessPipeWrite ops req (khost s) = Some (r, req', k) \<Longrightarrow> \<not> prequeue r \<Longrightarrow> pcompleted r \<Longrightarrow>
    wstep ops s (completeRequest \<lparr>creq = req', cstatus = pstatus r, cbytes = pbytes r\<rparr> (s\<lparr>khost := k, worker := WWriteUpd fdv evs\<rparr>))"
| w_write_upd: "worker s = WWriteUpd fdv evs \<Longrightarrow> mMutexBy s = None \<Longrightarrow>
    wstep ops s (requeue ops fdv (\<lambda>st. st) (s\<lparr>worker := WWrite fdv evs\<rparr>))"
| w_clean: "worker s = WClean fdv evs \<Longrightarrow> mMutexBy s = None \<Longrightarrow> wstep ops s (clean_up ops fdv (s\<lparr>worker := WEvents evs\<rparr>))"
| w_collect: "worker s = WCollect \<Longrightarrow> mMutexBy s = None \<Longrightarrow> distinct fds \<Longrightarrow> set fds = dom (mFileStates s) \<Longrightarrow>
    wstep ops s (s\<lparr>mFileStates := map_option drop_queues o mFileStates s, worker := WCollectQueue (collect (mFileStates s) fds)\<rparr>)"
| w_collect_queue: "worker s = WCollectQueue rs \<Longrightarrow>
    wstep ops s (s\<lparr>mFileQueue := [], worker := WCollectDone (rs @ mFileQueue s)\<rparr>)"
| w_collect_done: "worker s = WCollectDone rs \<Longrightarrow>
    wstep ops s (s\<lparr>mCompletions := [], worker := WComplete (mCompletions s) (WCancel rs)\<rparr>)"
| w_cancel: "worker s = WCancel (req # rs) \<Longrightarrow>
    wstep ops s (completeRequest \<lparr>creq = req, cstatus = kStatusCancelled, cbytes = 0\<rparr> (s\<lparr>worker := WCancel rs\<rparr>))"
| w_exit: "worker s = WCancel [] \<Longrightarrow> wstep ops s (s\<lparr>worker := WExit\<rparr>)"

text \<open>A file worker: \<^verbatim>\<open>fileWorkerLoop\<close>.\<close>

inductive fstep :: "'k HostOps \<Rightarrow> 'k EState \<Rightarrow> 'k EState \<Rightarrow> bool" for ops where
  f_take: "i < length (fileWorkers s) \<Longrightarrow> fileWorkers s ! i = FIdle \<Longrightarrow> mFileQueue s = req # q \<Longrightarrow>
    fstep ops s (s\<lparr>mFileQueue := q, fileWorkers := (fileWorkers s)[i := FHold req]\<rparr>)"
| f_exit: "i < length (fileWorkers s) \<Longrightarrow> fileWorkers s ! i = FIdle \<Longrightarrow> mFileQueue s = [] \<Longrightarrow> mFileStopping s \<Longrightarrow>
    fstep ops s (s\<lparr>fileWorkers := (fileWorkers s)[i := FExit]\<rparr>)"
| f_process: "i < length (fileWorkers s) \<Longrightarrow> fileWorkers s ! i = FHold req \<Longrightarrow>
    processBlockingRequest ops req (khost s) = Some (c, got, k) \<Longrightarrow>
    fstep ops s (s\<lparr>khost := k, fileWorkers := (fileWorkers s)[i := FPush c]\<rparr>)"
| f_push: "i < length (fileWorkers s) \<Longrightarrow> fileWorkers s ! i = FPush c \<Longrightarrow>
    fstep ops s (s\<lparr>mCompletions := mCompletions s @ [c], fileWorkers := (fileWorkers s)[i := FNotify]\<rparr>)"
| f_notify: "i < length (fileWorkers s) \<Longrightarrow> fileWorkers s ! i = FNotify \<Longrightarrow>
    fstep ops s (notifyWorker (s\<lparr>fileWorkers := (fileWorkers s)[i := FIdle]\<rparr>))"

text \<open>A thread that calls \<^verbatim>\<open>queueRead\<close> or \<^verbatim>\<open>queueWrite\<close>. A call that returns false at its first test leaves no trace.\<close>

definition queued_request :: "AsyncRequest \<Rightarrow> bool" where
  "queued_request req \<longleftrightarrow> (\<exists>f ov len offset pipe buffer.
     (req = queueRead (Some f) ov len offset pipe \<or> req = queueWrite (Some f) ov buffer offset pipe) \<and> valid_file f)"

inductive cstep :: "'k HostOps \<Rightarrow> 'k EState \<Rightarrow> 'k EState \<Rightarrow> bool" for ops where
  c_lock: "clients s c = CIdle \<Longrightarrow> queued_request req \<Longrightarrow> risPipe req \<Longrightarrow> mMutexBy s = None \<Longrightarrow> mRunning s \<Longrightarrow>
    cstep ops s (s\<lparr>mMutexBy := Some c, clients := (clients s)(c := CPipe req)\<rparr>)"
| c_push: "clients s c = CPipe req \<Longrightarrow>
    cstep ops s (enqueuePipe ops req (s\<lparr>mMutexBy := None, clients := (clients s)(c := CIdle), accepted := accepted s @ [req]\<rparr>))"
| c_check: "clients s c = CIdle \<Longrightarrow> queued_request req \<Longrightarrow> \<not> risPipe req \<Longrightarrow> mRunning s \<Longrightarrow>
    cstep ops s (s\<lparr>clients := (clients s)(c := CChecked req)\<rparr>)"
| c_add: "clients s c = CChecked req \<Longrightarrow>
    cstep ops s (s\<lparr>mPending := mPending s + 1, clients := (clients s)(c := CAdded req)\<rparr>)"
| c_queue: "clients s c = CAdded req \<Longrightarrow> \<not> mFileStopping s \<Longrightarrow>
    cstep ops s (s\<lparr>mFileQueue := mFileQueue s @ [req], clients := (clients s)(c := CIdle), accepted := accepted s @ [req]\<rparr>)"
| c_refused: "clients s c = CAdded req \<Longrightarrow> mFileStopping s \<Longrightarrow> cstep ops s (s\<lparr>clients := (clients s)(c := CRefused)\<rparr>)"
| c_sub: "clients s c = CRefused \<Longrightarrow> cstep ops s (s\<lparr>mPending := mPending s - 1, clients := (clients s)(c := CIdle)\<rparr>)"

text \<open>The thread in \<^verbatim>\<open>shutdown\<close>.\<close>

inductive sstep :: "'k HostOps \<Rightarrow> 'k EState \<Rightarrow> 'k EState \<Rightarrow> bool" for ops where
  s_begin: "stopper s = SIdle \<Longrightarrow> mRunning s \<Longrightarrow> sstep ops s (s\<lparr>mRunning := False, stopper := SStop\<rparr>)"
| s_stop: "stopper s = SStop \<Longrightarrow> sstep ops s (s\<lparr>mFileStopping := True, stopper := SNotify\<rparr>)"
| s_notify: "stopper s = SNotify \<Longrightarrow> sstep ops s (notifyWorker (s\<lparr>stopper := SJoin\<rparr>))"
| s_join: "stopper s = SJoin \<Longrightarrow> worker s = WExit \<Longrightarrow> sstep ops s (s\<lparr>stopper := SJoinFiles\<rparr>)"
| s_clear: "stopper s = SJoinFiles \<Longrightarrow> set (fileWorkers s) \<subseteq> {FExit} \<Longrightarrow> mMutexBy s = None \<Longrightarrow>
    distinct fds \<Longrightarrow> set fds = dom (mFileStates s) \<Longrightarrow>
    sstep ops s (s\<lparr>mFileStates := Map.empty, mFileQueue := [], mCompletions := [], mPending := 0,
      dropped := dropped s @ collect (mFileStates s) fds @ mFileQueue s @ map creq (mCompletions s), stopper := SDone\<rparr>)"

text \<open>Steps of any thread, and changes of the host from outside.\<close>

inductive estep :: "'k HostOps \<Rightarrow> 'k EState \<Rightarrow> 'k EState \<Rightarrow> bool" for ops where
  by_worker: "wstep ops s s' \<Longrightarrow> estep ops s s'"
| by_file_worker: "fstep ops s s' \<Longrightarrow> estep ops s s'"
| by_client: "cstep ops s s' \<Longrightarrow> estep ops s s'"
| by_stopper: "sstep ops s s' \<Longrightarrow> estep ops s s'"
| by_host: "estep ops s (s\<lparr>khost := k\<rparr>)"

end
