(* ===== verification/Async_Invariant.thy ===== *)
theory Async_Invariant
  imports Async_Io "HOL-Library.Multiset"
begin

text \<open>
  Invariants of the asynchronous backend: where requests are, that the ones for a pipe stay in order, that the ones for
  files are kept, that the counter counts, that the worker never follows a descriptor that
  has left the table, and that it is never left asleep over a completion.
\<close>

section \<open>Where requests are\<close>

text \<open>What does not change while a request is carried out.\<close>

definition tag :: "AsyncRequest \<Rightarrow> nat \<times> Kind \<times> FileObject option \<times> bool" where
  "tag r = (roverlapped r, rkind r, rfile r, risPipe r)"

definition on :: "int \<Rightarrow> Kind \<Rightarrow> AsyncRequest \<Rightarrow> bool" where
  "on fdv k r \<longleftrightarrow> risPipe r \<and> rkind r = k \<and> rfd r = fdv"

fun wreqs :: "wpc \<Rightarrow> AsyncRequest list" where
  "wreqs (WSwap n) = wreqs n"
| "wreqs (WComplete cs n) = map creq cs @ wreqs n"
| "wreqs (WTryRead r fdv e evs) = [r]"
| "wreqs (WTryWrite r fdv evs) = [r]"
| "wreqs (WCollectQueue rs) = rs"
| "wreqs (WCollectDone rs) = rs"
| "wreqs (WCancel rs) = rs"
| "wreqs _ = []"

fun freqs :: "fpc \<Rightarrow> AsyncRequest list" where
  "freqs (FHold r) = [r]"
| "freqs (FPush c) = [creq c]"
| "freqs _ = []"

definition queue_of :: "int \<Rightarrow> Kind \<Rightarrow> (int \<rightharpoonup> FileState) \<Rightarrow> AsyncRequest list" where
  "queue_of fdv k m = (case m fdv of None \<Rightarrow> [] | Some st \<Rightarrow> if k = ReadReq then readQueue st else writeQueue st)"

text \<open>The requests for one direction of one pipe, oldest first.\<close>

definition pipe_line :: "int \<Rightarrow> Kind \<Rightarrow> 'k EState \<Rightarrow> AsyncRequest list" where
  "pipe_line fdv k s = filter (on fdv k) (map creq (signals s)) @ filter (on fdv k) (wreqs (worker s))
     @ queue_of fdv k (mFileStates s) @ filter (on fdv k) (dropped s)"

text \<open>The requests for other files.\<close>

definition file_bag :: "'k EState \<Rightarrow> AsyncRequest multiset" where
  "file_bag s = filter_mset (\<lambda>r. \<not> risPipe r)
     (mset (map creq (signals s)) + mset (wreqs (worker s)) + mset (dropped s) + mset (mFileQueue s)
      + mset (map creq (mCompletions s)) + mset (concat (map freqs (fileWorkers s))))"

section \<open>Well-formed states\<close>

definition state_ok :: "int \<Rightarrow> FileState \<Rightarrow> bool" where
  "state_ok fdv st \<longleftrightarrow> sfd st = fdv \<and> (\<forall>r \<in> set (readQueue st). on fdv ReadReq r) \<and> (\<forall>r \<in> set (writeQueue st). on fdv WriteReq r)"

text \<open>The descriptors the worker still has to look at, none twice.\<close>

fun to_visit :: "wpc \<Rightarrow> int option list" where
  "to_visit (WSwap n) = to_visit n"
| "to_visit (WComplete cs n) = to_visit n"
| "to_visit (WEvents evs) = map fst evs"
| "to_visit (WRead fdv e evs) = Some fdv # map fst evs"
| "to_visit (WTryRead r fdv e evs) = Some fdv # map fst evs"
| "to_visit (WReadUpd fdv e evs) = Some fdv # map fst evs"
| "to_visit (WWrite fdv evs) = Some fdv # map fst evs"
| "to_visit (WTryWrite r fdv evs) = Some fdv # map fst evs"
| "to_visit (WWriteUpd fdv evs) = Some fdv # map fst evs"
| "to_visit (WClean fdv evs) = Some fdv # map fst evs"
| "to_visit _ = []"

fun wpc_ok :: "wpc \<Rightarrow> bool" where
  "wpc_ok (WSwap n) \<longleftrightarrow> wpc_ok n"
| "wpc_ok (WComplete cs n) \<longleftrightarrow> (\<forall>c \<in> set cs. \<not> risPipe (creq c)) \<and> wpc_ok n"
| "wpc_ok (WTryRead r fdv e evs) \<longleftrightarrow> on fdv ReadReq r"
| "wpc_ok (WTryWrite r fdv evs) \<longleftrightarrow> on fdv WriteReq r"
| "wpc_ok _ \<longleftrightarrow> True"

definition ewf :: "'k EState \<Rightarrow> bool" where
  "ewf s \<longleftrightarrow> finite (dom (mFileStates s)) \<and> (\<forall>fdv st. mFileStates s fdv = Some st \<longrightarrow> state_ok fdv st) \<and>
     (\<forall>r \<in> set (mFileQueue s). \<not> risPipe r) \<and> (\<forall>c \<in> set (mCompletions s). \<not> risPipe (creq c)) \<and>
     (\<forall>p \<in> set (fileWorkers s). \<forall>r \<in> set (freqs p). \<not> risPipe r) \<and>
     wpc_ok (worker s) \<and> distinct (to_visit (worker s)) \<and> (\<forall>fdv. Some fdv \<in> set (to_visit (worker s)) \<longrightarrow> mFileStates s fdv \<noteq> None)"

text \<open>What the threads know of each other.\<close>

fun cpc_ok :: "cpc \<Rightarrow> bool" where
  "cpc_ok (CPipe r) \<longleftrightarrow> risPipe r"
| "cpc_ok (CChecked r) \<longleftrightarrow> \<not> risPipe r"
| "cpc_ok (CAdded r) \<longleftrightarrow> \<not> risPipe r"
| "cpc_ok _ \<longleftrightarrow> True"

definition threads_ok :: "'k EState \<Rightarrow> bool" where
  "threads_ok s \<longleftrightarrow> (\<forall>c. cpc_ok (clients s c)) \<and> (\<forall>c r. clients s c = CPipe r \<longrightarrow> mMutexBy s = Some c) \<and>
     (mMutexBy s \<noteq> None \<longrightarrow> stopper s \<noteq> SDone) \<and> (stopper s \<noteq> SIdle \<longrightarrow> \<not> mRunning s) \<and>
     (stopper s \<in> {SNotify, SJoin, SJoinFiles, SDone} \<longrightarrow> mFileStopping s) \<and>
     (stopper s \<in> {SJoinFiles, SDone} \<longrightarrow> worker s = WExit) \<and>
     (stopper s = SDone \<longrightarrow> set (fileWorkers s) \<subseteq> {FExit} \<and> mFileQueue s = [] \<and> mCompletions s = []) \<and>
     (stopper s \<noteq> SDone \<longrightarrow> dropped s = [])"

section \<open>The routines\<close>

lemma ensureNonBlocking_keeps [simp]:
  "sfd (fst (ensureNonBlocking ops st k)) = sfd st"
  "readQueue (fst (ensureNonBlocking ops st k)) = readQueue st"
  "writeQueue (fst (ensureNonBlocking ops st k)) = writeQueue st"
  "registered (fst (ensureNonBlocking ops st k)) = registered st"
  "sevents (fst (ensureNonBlocking ops st k)) = sevents st"
  by (simp_all add: ensureNonBlocking_def Let_def case_prod_unfold)

lemma restoreOriginalFlags_keeps [simp]:
  "sfd (fst (restoreOriginalFlags ops st k)) = sfd st"
  "readQueue (fst (restoreOriginalFlags ops st k)) = readQueue st"
  "writeQueue (fst (restoreOriginalFlags ops st k)) = writeQueue st"
  "registered (fst (restoreOriginalFlags ops st k)) = registered st"
  "sevents (fst (restoreOriginalFlags ops st k)) = sevents st"
  by (simp_all add: restoreOriginalFlags_def Let_def case_prod_unfold)

lemma updateRegistrationLocked_keeps [simp]:
  "sfd (fst (updateRegistrationLocked ops st k)) = sfd st"
  "readQueue (fst (updateRegistrationLocked ops st k)) = readQueue st"
  "writeQueue (fst (updateRegistrationLocked ops st k)) = writeQueue st"
  by (simp_all add: updateRegistrationLocked_def Let_def case_prod_unfold)

lemma requeue_fields [simp]:
  "worker (requeue ops fdv f s) = worker s" "mFileQueue (requeue ops fdv f s) = mFileQueue s"
  "mCompletions (requeue ops fdv f s) = mCompletions s" "fileWorkers (requeue ops fdv f s) = fileWorkers s"
  "clients (requeue ops fdv f s) = clients s" "stopper (requeue ops fdv f s) = stopper s"
  "signals (requeue ops fdv f s) = signals s" "accepted (requeue ops fdv f s) = accepted s"
  "dropped (requeue ops fdv f s) = dropped s" "mMutexBy (requeue ops fdv f s) = mMutexBy s"
  "mRunning (requeue ops fdv f s) = mRunning s" "mPending (requeue ops fdv f s) = mPending s"
  "mFileStopping (requeue ops fdv f s) = mFileStopping s" "eventFd (requeue ops fdv f s) = eventFd s"
  by (simp_all add: requeue_def case_prod_unfold Let_def split: option.splits)

lemma requeue_states:
  assumes "mFileStates s fdv = Some st"
  shows "mFileStates (requeue ops fdv f s) = (mFileStates s)(fdv \<mapsto> fst (updateRegistrationLocked ops (f st) (khost s)))"
  using assms by (simp add: requeue_def case_prod_unfold Let_def)

lemma clean_up_fields [simp]:
  "worker (clean_up ops fdv s) = worker s" "mFileQueue (clean_up ops fdv s) = mFileQueue s"
  "mCompletions (clean_up ops fdv s) = mCompletions s" "fileWorkers (clean_up ops fdv s) = fileWorkers s"
  "clients (clean_up ops fdv s) = clients s" "stopper (clean_up ops fdv s) = stopper s"
  "signals (clean_up ops fdv s) = signals s" "accepted (clean_up ops fdv s) = accepted s"
  "dropped (clean_up ops fdv s) = dropped s" "mMutexBy (clean_up ops fdv s) = mMutexBy s"
  "mRunning (clean_up ops fdv s) = mRunning s" "mPending (clean_up ops fdv s) = mPending s"
  "mFileStopping (clean_up ops fdv s) = mFileStopping s" "eventFd (clean_up ops fdv s) = eventFd s"
  by (simp_all add: clean_up_def split: option.splits)

lemma clean_up_states:
  "mFileStates (clean_up ops fdv s) = mFileStates s \<or>
   (mFileStates (clean_up ops fdv s) = (mFileStates s)(fdv := None) \<and>
    (\<exists>st. mFileStates s fdv = Some st \<and> readQueue st = [] \<and> writeQueue st = []))"
  by (auto simp: clean_up_def split: option.splits)

lemma advance_tag [simp]: "tag (advance n req) = tag req" "rfd (advance n req) = rfd req"
  by (simp_all add: tag_def advance_def rfd_def)

lemma pipeWrite_tag:
  assumes "pipeWrite sw fdv req k = Some res"
  shows "tag (fst (snd res)) = tag req \<and> rfd (fst (snd res)) = rfd req"
proof (rule pipeWrite.raw_induct [where P = "\<lambda>sw fdv req k res. tag (fst (snd res)) = tag req \<and> rfd (fst (snd res)) = rfd req", OF _ assms], goal_cases)
  case (1 f sw fdv req k res)
  from 1(2) show ?case
    by (auto simp: Let_def split: if_splits prod.splits rc.splits dest!: 1(1))
qed

lemma tryProcessPipeWrite_tag:
  "tryProcessPipeWrite ops req k = Some (r, req', k') \<Longrightarrow> tag req' = tag req \<and> rfd req' = rfd req"
  by (auto simp: tryProcessPipeWrite_def split: option.splits if_splits prod.splits wstop.splits dest: pipeWrite_tag)

lemma on_tag: "tag r' = tag r \<Longrightarrow> rfd r' = rfd r \<Longrightarrow> on fdv k r' = on fdv k r"
  by (simp add: on_def tag_def)

lemma processBlockingRequest_req: "processBlockingRequest ops req k = Some (c, got, k') \<Longrightarrow> creq c = req"
  by (auto simp: processBlockingRequest_def Let_def split: if_splits option.splits)

lemma queue_of_upd: "queue_of fdv k (m(fdv' \<mapsto> st)) =
    (if fdv = fdv' then if k = ReadReq then readQueue st else writeQueue st else queue_of fdv k m)"
  by (simp add: queue_of_def)

lemma queue_of_del: "m fdv' = Some st \<Longrightarrow> readQueue st = [] \<Longrightarrow> writeQueue st = [] \<Longrightarrow>
    queue_of fdv k (m(fdv' := None)) = queue_of fdv k m"
  by (auto simp: queue_of_def)

lemma queue_of_on:
  assumes "\<forall>fdv st. m fdv = Some st \<longrightarrow> state_ok fdv st" "r \<in> set (queue_of fdv k m)"
  shows "on fdv k r"
proof (cases "m fdv")
  case (Some st)
  then have "state_ok fdv st" using assms(1) by blast
  then show ?thesis using assms(2) Some by (cases k) (auto simp: queue_of_def state_ok_def)
qed (use assms(2) in \<open>simp add: queue_of_def\<close>)

text \<open>Collecting the queues keeps every line in order.\<close>

lemma filter_collect:
  assumes ok: "\<forall>fdv st. m fdv = Some st \<longrightarrow> state_ok fdv st"
  shows "distinct fds \<Longrightarrow> filter (on fdv k) (collect m fds) = (if fdv \<in> set fds then queue_of fdv k m else [])"
proof (induction fds)
  case (Cons x fds)
  let ?q = "case m x of None \<Rightarrow> [] | Some st \<Rightarrow> readQueue st @ writeQueue st"
  have "filter (on fdv k) ?q = (if x = fdv then queue_of fdv k m else [])"
  proof (cases "m x")
    case (Some st)
    then have q: "state_ok x st" using ok by blast
    have "filter (on fdv k) (readQueue st) = (if x = fdv \<and> k = ReadReq then readQueue st else [])"
      "filter (on fdv k) (writeQueue st) = (if x = fdv \<and> k = WriteReq then writeQueue st else [])"
      using q by (auto simp: state_ok_def on_def filter_id_conv filter_empty_conv)
    then show ?thesis using Some by (cases k) (auto simp: queue_of_def)
  qed (auto simp: queue_of_def)
  with Cons show ?case by (auto simp: collect_def)
qed (simp add: collect_def)

section \<open>Steps keep states well formed\<close>

lemma state_ok_same:
  "state_ok fdv st \<Longrightarrow> sfd st' = sfd st \<Longrightarrow> set (readQueue st') \<subseteq> set (readQueue st) \<Longrightarrow> set (writeQueue st') \<subseteq> set (writeQueue st) \<Longrightarrow>
   state_ok fdv st'"
  by (auto simp: state_ok_def)

text \<open>The conditions on the table alone, for the steps that change one entry.\<close>

definition table_ok :: "(int \<rightharpoonup> FileState) \<Rightarrow> wpc \<Rightarrow> bool" where
  "table_ok m w \<longleftrightarrow> finite (dom m) \<and> (\<forall>fdv st. m fdv = Some st \<longrightarrow> state_ok fdv st) \<and>
     wpc_ok w \<and> distinct (to_visit w) \<and> (\<forall>fdv. Some fdv \<in> set (to_visit w) \<longrightarrow> m fdv \<noteq> None)"

definition lists_ok :: "'k EState \<Rightarrow> bool" where
  "lists_ok s \<longleftrightarrow> (\<forall>r \<in> set (mFileQueue s). \<not> risPipe r) \<and> (\<forall>c \<in> set (mCompletions s). \<not> risPipe (creq c)) \<and>
     (\<forall>p \<in> set (fileWorkers s). \<forall>r \<in> set (freqs p). \<not> risPipe r)"

lemma ewf_split: "ewf s \<longleftrightarrow> table_ok (mFileStates s) (worker s) \<and> lists_ok s"
  by (auto simp: ewf_def table_ok_def lists_ok_def)

lemma table_ok_upd:
  "table_ok m w \<Longrightarrow> m fdv = Some st \<Longrightarrow> state_ok fdv st' \<Longrightarrow> wpc_ok w' \<Longrightarrow> distinct (to_visit w') \<Longrightarrow>
   set (to_visit w') \<subseteq> set (to_visit w) \<Longrightarrow> table_ok (m(fdv \<mapsto> st')) w'"
  by (auto simp: table_ok_def)

lemma table_ok_pc:
  "table_ok m w \<Longrightarrow> wpc_ok w' \<Longrightarrow> distinct (to_visit w') \<Longrightarrow> set (to_visit w') \<subseteq> set (to_visit w) \<Longrightarrow> table_ok m w'"
  by (auto simp: table_ok_def)

lemma table_ok_del:
  assumes "table_ok m w" "Some fdv \<notin> set (to_visit w)"
  shows "table_ok (m(fdv := None)) w"
proof -
  have "(m(fdv := None)) x \<noteq> None" if "Some x \<in> set (to_visit w)" for x
    using assms that by (cases "x = fdv") (simp_all add: table_ok_def)
  moreover have "state_ok x st" if "(m(fdv := None)) x = Some st" for x st
    using assms(1) that by (cases "x = fdv") (simp_all add: table_ok_def)
  ultimately show ?thesis using assms(1) by (simp add: table_ok_def)
qed

lemma table_okD:
  assumes "table_ok m w"
  shows "wpc_ok w" "distinct (to_visit w)" "Some fdv \<in> set (to_visit w) \<Longrightarrow> \<exists>st. m fdv = Some st"
    "m fdv = Some st \<Longrightarrow> state_ok fdv st"
  using assms by (auto simp: table_ok_def)

lemma after_reads_simps [simp]:
  "wpc_ok (after_reads fdv e evs)" "to_visit (after_reads fdv e evs) = Some fdv # map fst evs" "wreqs (after_reads fdv e evs) = []"
  by (simp_all add: after_reads_def)

lemma completeRequest_fields [simp]:
  "worker (completeRequest c s) = worker s" "mFileStates (completeRequest c s) = mFileStates s"
  "mFileQueue (completeRequest c s) = mFileQueue s" "mCompletions (completeRequest c s) = mCompletions s"
  "fileWorkers (completeRequest c s) = fileWorkers s" "clients (completeRequest c s) = clients s"
  "stopper (completeRequest c s) = stopper s" "accepted (completeRequest c s) = accepted s"
  "dropped (completeRequest c s) = dropped s" "mMutexBy (completeRequest c s) = mMutexBy s"
  "mRunning (completeRequest c s) = mRunning s" "mFileStopping (completeRequest c s) = mFileStopping s"
  "eventFd (completeRequest c s) = eventFd s" "signals (completeRequest c s) = signals s @ [c]"
  "mPending (completeRequest c s) = mPending s - 1"
  by (simp_all add: completeRequest_def)

lemma notifyWorker_fields [simp]:
  "worker (notifyWorker s) = worker s" "mFileStates (notifyWorker s) = mFileStates s"
  "mFileQueue (notifyWorker s) = mFileQueue s" "mCompletions (notifyWorker s) = mCompletions s"
  "fileWorkers (notifyWorker s) = fileWorkers s" "clients (notifyWorker s) = clients s"
  "stopper (notifyWorker s) = stopper s" "accepted (notifyWorker s) = accepted s"
  "dropped (notifyWorker s) = dropped s" "mMutexBy (notifyWorker s) = mMutexBy s"
  "mRunning (notifyWorker s) = mRunning s" "mFileStopping (notifyWorker s) = mFileStopping s"
  "eventFd (notifyWorker s)" "signals (notifyWorker s) = signals s" "mPending (notifyWorker s) = mPending s"
  by (simp_all add: notifyWorker_def)

text \<open>The table after a queue was put back and the registration brought up to date.\<close>

lemma table_ok_requeue:
  assumes t: "table_ok (mFileStates s) w" and v: "Some fdv \<in> set (to_visit w)"
    and f: "\<And>st. state_ok fdv st \<Longrightarrow> state_ok fdv (f st)"
    and w: "wpc_ok w'" "distinct (to_visit w')" "set (to_visit w') \<subseteq> set (to_visit w)"
  shows "table_ok (mFileStates (requeue ops fdv f s)) w'"
proof -
  obtain st where st: "mFileStates s fdv = Some st" using table_okD(3) [OF t v] by blast
  have "state_ok fdv (fst (updateRegistrationLocked ops (f st) (khost s)))"
    using f [OF table_okD(4) [OF t st]] by (auto simp: state_ok_def)
  from table_ok_upd [OF t st this w] show ?thesis by (simp add: requeue_states [OF st])
qed

lemma wstep_table:
  assumes "wstep ops s s'" "table_ok (mFileStates s) (worker s)" "lists_ok s"
  shows "table_ok (mFileStates s') (worker s')"
  using assms
proof (induction rule: wstep.induct)
  case (w_swap s n)
  then show ?case by (auto simp: table_ok_def lists_ok_def)
next
  case (w_ready s evs)
  have "mFileStates s fdv \<noteq> None" if "Some fdv \<in> set (map fst evs)" for fdv
    using bspec [OF w_ready(2) [unfolded epoll_answer_def, THEN conjunct2, THEN conjunct2, THEN conjunct2] that]
    by (auto split: option.splits)
  then show ?case using w_ready by (auto simp: table_ok_def epoll_answer_def)
next
  case (w_file s fdv e evs)
  then show ?case by (auto simp: table_ok_def split: if_splits)
next
  case (w_read_pop s fdv e evs st req q)
  have "state_ok fdv st" using table_okD(4) [OF w_read_pop(5)] w_read_pop(3) by simp
  then have ok: "state_ok fdv (st\<lparr>readQueue := q\<rparr>)" "on fdv ReadReq req" using w_read_pop(4) by (auto simp: state_ok_def)
  have "table_ok ((mFileStates s)(fdv \<mapsto> st\<lparr>readQueue := q\<rparr>)) (WTryRead req fdv e evs)"
    by (rule table_ok_upd [OF w_read_pop(5,3) ok(1)]) (use w_read_pop(1) ok(2) table_okD(2) [OF w_read_pop(5)] in auto)
  then show ?case by (simp add: fun_upd_def)
next
  case (w_read_again s req fdv e evs r got k)
  have req: "on fdv ReadReq req" using table_okD(1) [OF w_read_again(5)] w_read_again(1) by simp
  have "table_ok (mFileStates (requeue ops fdv (\<lambda>st. st\<lparr>readQueue := req # readQueue st\<rparr>) (s\<lparr>khost := k, worker := after_reads fdv e evs\<rparr>)))
          (after_reads fdv e evs)"
    by (rule table_ok_requeue [where w = "worker s"])
       (use w_read_again(1,5) req table_okD(2) [OF w_read_again(5)] in \<open>auto simp: state_ok_def\<close>)
  then show ?case by simp
next
  case (w_read_upd s fdv e evs)
  have "table_ok (mFileStates (requeue ops fdv (\<lambda>st. st) (s\<lparr>worker := WRead fdv e evs\<rparr>))) (WRead fdv e evs)"
    by (rule table_ok_requeue [where w = "worker s"])
       (use w_read_upd(1,3) table_okD(2) [OF w_read_upd(3)] in auto)
  then show ?case by simp
next
  case (w_write_pop s fdv evs st req q)
  have "state_ok fdv st" using table_okD(4) [OF w_write_pop(5)] w_write_pop(3) by simp
  then have ok: "state_ok fdv (st\<lparr>writeQueue := q\<rparr>)" "on fdv WriteReq req" using w_write_pop(4) by (auto simp: state_ok_def)
  have "table_ok ((mFileStates s)(fdv \<mapsto> st\<lparr>writeQueue := q\<rparr>)) (WTryWrite req fdv evs)"
    by (rule table_ok_upd [OF w_write_pop(5,3) ok(1)]) (use w_write_pop(1) ok(2) table_okD(2) [OF w_write_pop(5)] in auto)
  then show ?case by (simp add: fun_upd_def)
next
  case (w_write_again s req fdv evs r req' k)
  have req: "on fdv WriteReq req'"
    using table_okD(1) [OF w_write_again(5)] w_write_again(1) tryProcessPipeWrite_tag [OF w_write_again(3)]
      on_tag [of req' req fdv WriteReq] by simp
  have "table_ok (mFileStates (requeue ops fdv (\<lambda>st. st\<lparr>writeQueue := req' # writeQueue st\<rparr>) (s\<lparr>khost := k, worker := WClean fdv evs\<rparr>)))
          (WClean fdv evs)"
    by (rule table_ok_requeue [where w = "worker s"])
       (use w_write_again(1,5) req table_okD(2) [OF w_write_again(5)] in \<open>auto simp: state_ok_def\<close>)
  then show ?case by simp
next
  case (w_write_upd s fdv evs)
  have "table_ok (mFileStates (requeue ops fdv (\<lambda>st. st) (s\<lparr>worker := WWrite fdv evs\<rparr>))) (WWrite fdv evs)"
    by (rule table_ok_requeue [where w = "worker s"])
       (use w_write_upd(1,3) table_okD(2) [OF w_write_upd(3)] in auto)
  then show ?case by simp
next
  case (w_clean s fdv evs)
  have "table_ok (mFileStates s) (WEvents evs)"
    by (rule table_ok_pc [OF w_clean(3)]) (use w_clean(1) table_okD(2) [OF w_clean(3)] in auto)
  moreover have "Some fdv \<notin> set (map fst evs)" using w_clean(1) table_okD(2) [OF w_clean(3)] by simp
  ultimately have "table_ok (mFileStates s) (WEvents evs)" "table_ok ((mFileStates s)(fdv := None)) (WEvents evs)"
    using table_ok_del [of "mFileStates s" "WEvents evs" fdv] by simp_all
  then show ?case using clean_up_states [of ops fdv "s\<lparr>worker := WEvents evs\<rparr>"]
    by (auto simp: fun_upd_def)
next
  case (w_collect s fds)
  have "dom (\<lambda>a. map_option drop_queues (mFileStates s a)) = dom (mFileStates s)" by (auto simp: dom_def)
  with w_collect show ?case by (auto simp: table_ok_def state_ok_def drop_queues_def)
next
  case (w_collect_done s rs)
  then show ?case by (auto simp: table_ok_def lists_ok_def)
qed (auto simp: table_ok_def)

lemma wstep_lists:
  assumes "wstep ops s s'" "lists_ok s"
  shows "lists_ok s'"
  using assms by (induction rule: wstep.induct) (auto simp: lists_ok_def)

lemma fstep_wf:
  assumes "fstep ops s s'" "ewf s"
  shows "ewf s'"
  using assms
proof (induction rule: fstep.induct)
  case (f_process i s req c got k)
  have "\<forall>r \<in> set (freqs (FHold req)). \<not> risPipe r"
    using f_process(1,2,4) nth_mem [OF f_process(1)] unfolding ewf_split lists_ok_def by metis
  then show ?case using f_process processBlockingRequest_req [OF f_process(3)]
    by (auto simp: ewf_split lists_ok_def dest!: set_update_subset_insert [THEN subsetD])
next
  case (f_push i s c)
  have "\<forall>r \<in> set (freqs (FPush c)). \<not> risPipe r"
    using f_push(2,3) nth_mem [OF f_push(1)] unfolding ewf_split lists_ok_def by metis
  then show ?case using f_push
    by (auto simp: ewf_split lists_ok_def dest!: set_update_subset_insert [THEN subsetD])
qed (auto simp: ewf_split lists_ok_def dest!: set_update_subset_insert [THEN subsetD])

lemma enqueuePipe_fields [simp]:
  "worker (enqueuePipe ops req s) = worker s" "mFileQueue (enqueuePipe ops req s) = mFileQueue s"
  "mCompletions (enqueuePipe ops req s) = mCompletions s" "fileWorkers (enqueuePipe ops req s) = fileWorkers s"
  "clients (enqueuePipe ops req s) = clients s" "stopper (enqueuePipe ops req s) = stopper s"
  "signals (enqueuePipe ops req s) = signals s" "accepted (enqueuePipe ops req s) = accepted s"
  "dropped (enqueuePipe ops req s) = dropped s" "mMutexBy (enqueuePipe ops req s) = mMutexBy s"
  "mRunning (enqueuePipe ops req s) = mRunning s" "mPending (enqueuePipe ops req s) = mPending s + 1"
  "mFileStopping (enqueuePipe ops req s) = mFileStopping s" "eventFd (enqueuePipe ops req s)"
  by (simp_all add: enqueuePipe_def case_prod_unfold Let_def)

text \<open>The entry \<^verbatim>\<open>enqueueRequest\<close> leaves for the descriptor of a request.\<close>

lemma enqueuePipe_states:
  "\<exists>st. mFileStates (enqueuePipe ops req s) = (mFileStates s)(rfd req \<mapsto> st) \<and>
     sfd st = (case mFileStates s (rfd req) of None \<Rightarrow> rfd req | Some st0 \<Rightarrow> sfd st0) \<and>
     readQueue st = queue_of (rfd req) ReadReq (mFileStates s) @ (if rkind req = ReadReq then [req] else []) \<and>
     writeQueue st = queue_of (rfd req) WriteReq (mFileStates s) @ (if rkind req = WriteReq then [req] else [])"
proof -
  define st0 where "st0 = (case mFileStates s (rfd req) of None \<Rightarrow> new_FileState (rfd req) | Some st \<Rightarrow> st)"
  define st1 where "st1 = fst (ensureNonBlocking ops st0 (khost s))"
  have st1: "sfd st1 = (case mFileStates s (rfd req) of None \<Rightarrow> rfd req | Some st0 \<Rightarrow> sfd st0)"
    "readQueue st1 = queue_of (rfd req) ReadReq (mFileStates s)" "writeQueue st1 = queue_of (rfd req) WriteReq (mFileStates s)"
    by (auto simp: st1_def st0_def new_FileState_def queue_of_def split: option.splits)
  have "\<exists>k. mFileStates (enqueuePipe ops req s) = (mFileStates s)(rfd req \<mapsto> fst (updateRegistrationLocked ops
      (if rkind req = ReadReq then st1\<lparr>readQueue := readQueue st1 @ [req]\<rparr> else st1\<lparr>writeQueue := writeQueue st1 @ [req]\<rparr>) k))"
    unfolding enqueuePipe_def st0_def [symmetric] st1_def by (auto simp: case_prod_unfold Let_def)
  then obtain k where "mFileStates (enqueuePipe ops req s) = (mFileStates s)(rfd req \<mapsto> fst (updateRegistrationLocked ops
      (if rkind req = ReadReq then st1\<lparr>readQueue := readQueue st1 @ [req]\<rparr> else st1\<lparr>writeQueue := writeQueue st1 @ [req]\<rparr>) k))"
    by blast
  then show ?thesis using st1 by (cases "rkind req") auto
qed

lemma cstep_wf:
  assumes "cstep ops s s'" "ewf s" "\<forall>c. cpc_ok (clients s c)"
  shows "ewf s'"
  using assms
proof (induction rule: cstep.induct)
  case (c_push s c req)
  let ?t = "s\<lparr>mMutexBy := None, clients := (clients s)(c := CIdle), accepted := accepted s @ [req]\<rparr>"
  obtain st where st: "mFileStates (enqueuePipe ops req ?t) = (mFileStates s)(rfd req \<mapsto> st)"
    "sfd st = (case mFileStates s (rfd req) of None \<Rightarrow> rfd req | Some st0 \<Rightarrow> sfd st0)"
    "readQueue st = queue_of (rfd req) ReadReq (mFileStates s) @ (if rkind req = ReadReq then [req] else [])"
    "writeQueue st = queue_of (rfd req) WriteReq (mFileStates s) @ (if rkind req = WriteReq then [req] else [])"
    using enqueuePipe_states [of ops req ?t] by auto
  have pipe: "risPipe req" using c_push(1,3) by (metis cpc_ok.simps(1))
  have states: "\<forall>fdv st. mFileStates s fdv = Some st \<longrightarrow> state_ok fdv st" using c_push(2) by (simp add: ewf_def)
  have "sfd st = rfd req" using st(2) states by (auto simp: state_ok_def split: option.splits)
  then have "state_ok (rfd req) st"
    using st(3,4) queue_of_on [OF states] pipe by (auto simp: state_ok_def on_def split: if_splits)
  then show ?case using c_push(2) st(1) by (auto simp: ewf_split table_ok_def lists_ok_def)
next
  case (c_queue s c req)
  have "\<not> risPipe req" using c_queue(1,4) by (metis cpc_ok.simps(3))
  then show ?case using c_queue by (auto simp: ewf_split lists_ok_def)
qed (auto simp: ewf_split lists_ok_def)

lemma sstep_wf:
  assumes "sstep ops s s'" "ewf s" "stopper s \<in> {SJoinFiles, SDone} \<longrightarrow> worker s = WExit"
  shows "ewf s'"
  using assms by (induction rule: sstep.induct) (auto simp: ewf_split lists_ok_def table_ok_def)

lemma fstep_busy: "fstep ops s s' \<Longrightarrow> \<not> set (fileWorkers s) \<subseteq> {FExit}"
proof (induction rule: fstep.induct)
  case (f_take i s req q)
  then show ?case using nth_mem [OF f_take(1)] by auto
next
  case (f_exit i s)
  then show ?case using nth_mem [OF f_exit(1)] by auto
next
  case (f_process i s req c got k)
  then show ?case using nth_mem [OF f_process(1)] by auto
next
  case (f_push i s c)
  then show ?case using nth_mem [OF f_push(1)] by auto
next
  case (f_notify i s)
  then show ?case using nth_mem [OF f_notify(1)] by auto
qed

text \<open>A client that changes its place without taking the lock.\<close>

lemma threads_ok_client:
  assumes "threads_ok s" "cpc_ok p" "\<forall>r. p \<noteq> CPipe r"
  shows "threads_ok (s\<lparr>clients := (clients s)(c := p)\<rparr>)"
proof -
  have "cpc_ok (((clients s)(c := p)) c')" for c' using assms(1,2) by (simp add: threads_ok_def)
  moreover have "mMutexBy s = Some c'" if "((clients s)(c := p)) c' = CPipe r" for c' r
    using assms(1,3) that by (cases "c' = c") (simp_all add: threads_ok_def)
  ultimately show ?thesis using assms(1) unfolding threads_ok_def by simp
qed

lemma threads_ok_other:
  "threads_ok s \<Longrightarrow> threads_ok (s\<lparr>mPending := n\<rparr>)"
  "threads_ok s \<Longrightarrow> threads_ok (s\<lparr>accepted := rs\<rparr>)"
  "threads_ok s \<Longrightarrow> stopper s \<noteq> SDone \<Longrightarrow> threads_ok (s\<lparr>mFileQueue := rs\<rparr>)"
  by (simp_all add: threads_ok_def)

lemma threads_ok_step:
  assumes "estep ops s s'" "threads_ok s"
  shows "threads_ok s'"
  using assms(1)
proof cases
  case by_worker
  then show ?thesis using assms(2)
    by (induction rule: wstep.induct) (auto simp: threads_ok_def)
next
  case by_file_worker
  then have "stopper s \<noteq> SDone" using fstep_busy assms(2) by (auto simp: threads_ok_def)
  with by_file_worker show ?thesis using assms(2)
    by (induction rule: fstep.induct) (simp_all add: threads_ok_def)
next
  case by_client
  then show ?thesis using assms(2)
  proof (induction rule: cstep.induct)
    case (c_lock s c req)
    have "clients s c' \<noteq> CPipe r" for c' r using c_lock(4,6) by (auto simp: threads_ok_def)
    then show ?case using c_lock(3-6) by (auto simp: threads_ok_def)
  next
    case (c_push s c req)
    have lock: "mMutexBy s = Some c" using c_push by (simp add: threads_ok_def)
    have others: "clients s c' \<noteq> CPipe r" if "c' \<noteq> c" for c' r
      using c_push(2) that lock by (auto simp: threads_ok_def)
    then show ?case using c_push(2) lock by (simp add: threads_ok_def)
  next
    case (c_check s c req)
    then show ?case using threads_ok_client [of s "CChecked req" c] by simp
  next
    case (c_add s c req)
    have "cpc_ok (clients s c)" using c_add(2) by (simp add: threads_ok_def)
    then show ?case
      using threads_ok_client [OF threads_ok_other(1) [OF c_add(2)], of "CAdded req" "mPending s + 1" c] c_add(1) by simp
  next
    case (c_queue s c req)
    have "stopper s \<noteq> SDone" using c_queue(2,3) by (auto simp: threads_ok_def)
    note queue = threads_ok_other(3) [OF c_queue(3) this, of "mFileQueue s @ [req]"]
    have "threads_ok (s\<lparr>mFileQueue := mFileQueue s @ [req], clients := (clients s)(c := CIdle)\<rparr>)"
      using threads_ok_client [OF queue, of CIdle c] by simp
    from threads_ok_other(2) [OF this, of "accepted s @ [req]"] show ?case by simp
  next
    case (c_refused s c req)
    then show ?case using threads_ok_client [of s CRefused c] by simp
  next
    case (c_sub s c)
    then show ?case using threads_ok_client [OF threads_ok_other(1) [of s "mPending s - 1"], of CIdle c] by simp
  qed
next
  case by_stopper
  then show ?thesis using assms(2)
    by (induction rule: sstep.induct) (auto simp: threads_ok_def)
next
  case (by_host k)
  then show ?thesis using assms(2) by (simp add: threads_ok_def)
qed

lemma wf_step:
  assumes "estep ops s s'" "ewf s" "threads_ok s"
  shows "ewf s'"
  using assms(1)
proof cases
  case by_worker
  then show ?thesis using wstep_table wstep_lists assms(2) by (auto simp: ewf_split)
next
  case by_client
  then show ?thesis using cstep_wf assms(2,3) by (auto simp: threads_ok_def)
next
  case by_stopper
  then show ?thesis using sstep_wf assms(2,3) by (auto simp: threads_ok_def)
next
  case by_host
  then show ?thesis using assms(2) by (simp add: ewf_split lists_ok_def)
qed (use fstep_wf assms(2) in auto)

section \<open>Pipes keep the order of their requests\<close>

definition fifo :: "'k EState \<Rightarrow> bool" where
  "fifo s \<longleftrightarrow> (\<forall>fdv k. map tag (filter (on fdv k) (accepted s)) = map tag (pipe_line fdv k s))"

lemma on_all: "\<forall>c \<in> set cs. \<not> risPipe (creq c) \<Longrightarrow> filter (on fdv k) (map creq cs) = []"
  by (auto simp: filter_empty_conv on_def)

lemma queue_of_Some: "m fdv = Some st \<Longrightarrow> queue_of fdv k m = (if k = ReadReq then readQueue st else writeQueue st)"
  by (simp add: queue_of_def)

text \<open>The queue of one direction after the worker has put a request back.\<close>

lemma queue_of_requeue:
  assumes "mFileStates s fdv' = Some st"
  shows "queue_of fdv k (mFileStates (requeue ops fdv' f s)) =
    (if fdv = fdv' then if k = ReadReq then readQueue (f st) else writeQueue (f st) else queue_of fdv k (mFileStates s))"
  by (simp add: requeue_states [OF assms] queue_of_upd)

lemma wstep_pipe_line:
  assumes "wstep ops s s'" "table_ok (mFileStates s) (worker s)" "lists_ok s"
    and "worker s = WCollect \<or> stopper s \<noteq> SDone \<longrightarrow> dropped s = []"
  shows "map tag (pipe_line fdv k s') = map tag (pipe_line fdv k s) \<and> accepted s' = accepted s"
  using assms
proof (induction rule: wstep.induct)
  case (w_swap s n)
  then have "filter (on fdv k) (map creq (mCompletions s)) = []" by (intro on_all) (simp add: lists_ok_def)
  then show ?case using w_swap(1) by (simp add: pipe_line_def)
next
  case (w_read_pop s fdv' e evs st req q)
  have "on fdv' ReadReq req" using table_okD(4) [OF w_read_pop(5)] w_read_pop(3,4) by (simp add: state_ok_def)
  then have "filter (on fdv k) [req] = (if fdv = fdv' \<and> k = ReadReq then [req] else [])" by (auto simp: on_def)
  then show ?case using w_read_pop(1,3,4) by (cases k) (auto simp: pipe_line_def queue_of_def)
next
  case (w_read_again s req fdv' e evs r got k')
  have req: "on fdv' ReadReq req" using table_okD(1) [OF w_read_again(5)] w_read_again(1) by simp
  have f: "filter (on fdv k) [req] = (if fdv = fdv' \<and> k = ReadReq then [req] else [])" using req by (auto simp: on_def)
  obtain st where st: "mFileStates s fdv' = Some st" using table_okD(3) [OF w_read_again(5), of fdv'] w_read_again(1) by auto
  have st': "mFileStates (s\<lparr>khost := k', worker := after_reads fdv' e evs\<rparr>) fdv' = Some st" using st by simp
  show ?case unfolding pipe_line_def queue_of_requeue [OF st'] using w_read_again(1) f
    by (cases "fdv = fdv'"; cases k) (simp_all add: queue_of_Some [of "mFileStates s", OF st] split: if_splits)
next
  case (w_read_upd s fdv' e evs)
  obtain st where st: "mFileStates s fdv' = Some st" using table_okD(3) [OF w_read_upd(3), of fdv'] w_read_upd(1) by auto
  have st': "mFileStates (s\<lparr>worker := WRead fdv' e evs\<rparr>) fdv' = Some st" using st by simp
  show ?case unfolding pipe_line_def queue_of_requeue [OF st'] using w_read_upd(1)
    by (cases "fdv = fdv'"; cases k) (simp_all add: queue_of_Some [of "mFileStates s", OF st])
next
  case (w_write_pop s fdv' evs st req q)
  have "on fdv' WriteReq req" using table_okD(4) [OF w_write_pop(5)] w_write_pop(3,4) by (simp add: state_ok_def)
  then have "filter (on fdv k) [req] = (if fdv = fdv' \<and> k = WriteReq then [req] else [])" by (auto simp: on_def)
  then show ?case using w_write_pop(1,3,4) by (cases k) (auto simp: pipe_line_def queue_of_def)
next
  case (w_write_again s req fdv' evs r req' k')
  have t: "tag req' = tag req" "on fdv k req' = on fdv k req" 
    using tryProcessPipeWrite_tag [OF w_write_again(3)] on_tag [of req' req] by simp_all
  have req: "on fdv' WriteReq req" using table_okD(1) [OF w_write_again(5)] w_write_again(1) by simp
  have f: "filter (on fdv k) [req] = (if fdv = fdv' \<and> k = WriteReq then [req] else [])" using req by (auto simp: on_def)
  obtain st where st: "mFileStates s fdv' = Some st" using table_okD(3) [OF w_write_again(5), of fdv'] w_write_again(1) by auto
  have st': "mFileStates (s\<lparr>khost := k', worker := WClean fdv' evs\<rparr>) fdv' = Some st" using st by simp
  show ?case unfolding pipe_line_def queue_of_requeue [OF st'] using w_write_again(1) f t
    by (cases "fdv = fdv'"; cases k) (simp_all add: queue_of_Some [of "mFileStates s", OF st] split: if_splits)
next
  case (w_write_done s req fdv' evs r req' k')
  have t: "tag req' = tag req" "on fdv k req' = on fdv k req" 
    using tryProcessPipeWrite_tag [OF w_write_done(2)] on_tag [of req' req] by simp_all
  then show ?case using w_write_done(1) by (simp add: pipe_line_def)
next
  case (w_write_upd s fdv' evs)
  obtain st where st: "mFileStates s fdv' = Some st" using table_okD(3) [OF w_write_upd(3), of fdv'] w_write_upd(1) by auto
  have st': "mFileStates (s\<lparr>worker := WWrite fdv' evs\<rparr>) fdv' = Some st" using st by simp
  show ?case unfolding pipe_line_def queue_of_requeue [OF st'] using w_write_upd(1)
    by (cases "fdv = fdv'"; cases k) (simp_all add: queue_of_Some [of "mFileStates s", OF st])
next
  case (w_clean s fdv' evs)
  have "queue_of fdv k (mFileStates (clean_up ops fdv' (s\<lparr>worker := WEvents evs\<rparr>))) = queue_of fdv k (mFileStates s)"
    using clean_up_states [of ops fdv' "s\<lparr>worker := WEvents evs\<rparr>"] by (auto simp: queue_of_def)
  then show ?case using w_clean(1) by (simp add: pipe_line_def)
next
  case (w_collect s fds)
  have ok: "\<forall>fdv st. mFileStates s fdv = Some st \<longrightarrow> state_ok fdv st" using w_collect(5) by (simp add: table_ok_def)
  have "queue_of fdv k (map_option drop_queues o mFileStates s) = []" by (auto simp: queue_of_def drop_queues_def split: option.splits)
  moreover have "filter (on fdv k) (collect (mFileStates s) fds) = queue_of fdv k (mFileStates s)"
    using filter_collect [OF ok w_collect(3)] w_collect(4) by (auto simp: queue_of_def dom_def split: option.splits)
  ultimately show ?case using w_collect(1) by (simp add: pipe_line_def)
next
  case (w_collect_queue s rs)
  then have "filter (on fdv k) (mFileQueue s) = []" by (auto simp: lists_ok_def filter_empty_conv on_def)
  then show ?case using w_collect_queue(1) by (simp add: pipe_line_def)
next
  case (w_collect_done s rs)
  then have "filter (on fdv k) (map creq (mCompletions s)) = []" by (intro on_all) (simp add: lists_ok_def)
  then show ?case using w_collect_done(1) by (simp add: pipe_line_def)
qed (simp_all add: pipe_line_def)

end
