(* ===== verification/Async_Properties.thy ===== *)
theory Async_Properties
  imports Async_Invariant
begin

text \<open>
  What the asynchronous backend guarantees: every request it accepts is signalled once, those for one direction of a pipe
  in the order they were made; the counter says how many are outstanding; the worker never sleeps over a completion;
  and what can go wrong when it is shut down.
\<close>

section \<open>Order\<close>

lemma fifo_step:
  assumes "estep ops s s'" "ewf s" "threads_ok s" "fifo s"
  shows "fifo s'"
  using assms(1)
proof cases
  case by_worker
  have "worker s = WCollect \<or> stopper s \<noteq> SDone \<longrightarrow> dropped s = []" using assms(3) by (auto simp: threads_ok_def)
  from wstep_pipe_line [OF by_worker _ _ this] assms(2,4) show ?thesis by (simp add: fifo_def ewf_split)
next
  case by_file_worker
  then have "accepted s' = accepted s \<and> (\<forall>fdv k. pipe_line fdv k s' = pipe_line fdv k s)"
    by (induction rule: fstep.induct) (simp_all add: pipe_line_def)
  then show ?thesis using assms(4) by (simp add: fifo_def)
next
  case by_client
  then show ?thesis
  proof (cases rule: cstep.cases)
    case (c_push c req)
    let ?t = "s\<lparr>mMutexBy := None, clients := (clients s)(c := CIdle), accepted := accepted s @ [req]\<rparr>"
    have pipe: "risPipe req" "dropped s = []"
      using assms(3) c_push(2) unfolding threads_ok_def by (metis cpc_ok.simps(1), metis option.distinct(1))
    obtain st where st: "mFileStates (enqueuePipe ops req ?t) = (mFileStates s)(rfd req \<mapsto> st)"
      "readQueue st = queue_of (rfd req) ReadReq (mFileStates s) @ (if rkind req = ReadReq then [req] else [])"
      "writeQueue st = queue_of (rfd req) WriteReq (mFileStates s) @ (if rkind req = WriteReq then [req] else [])"
      using enqueuePipe_states [of ops req ?t] by auto
    have "queue_of fdv k (mFileStates (enqueuePipe ops req ?t)) = queue_of fdv k (mFileStates s) @ filter (on fdv k) [req]" for fdv k
      unfolding st(1) queue_of_upd using st(2,3) pipe(1) by (cases "rkind req"; cases k) (auto simp: on_def)
    then have "map tag (pipe_line fdv k s') = map tag (pipe_line fdv k s) @ map tag (filter (on fdv k) [req])" for fdv k
      using c_push(1) pipe(2) by (simp add: pipe_line_def)
    then show ?thesis using assms(4) c_push(1) by (simp add: fifo_def)
  next
    case (c_queue c req)
    have "\<not> risPipe req" using assms(3) c_queue(2) unfolding threads_ok_def by (metis cpc_ok.simps(3))
    then show ?thesis using assms(4) c_queue(1) by (simp add: fifo_def pipe_line_def on_def)
  qed (use assms(4) in \<open>simp_all add: fifo_def pipe_line_def\<close>)
next
  case by_stopper
  then show ?thesis
  proof (cases rule: sstep.cases)
    case (s_clear fds)
    have ok: "\<forall>fdv st. mFileStates s fdv = Some st \<longrightarrow> state_ok fdv st" and lists: "lists_ok s"
      using assms(2) by (simp_all add: ewf_split table_ok_def)
    have "filter (on fdv k) (collect (mFileStates s) fds) = queue_of fdv k (mFileStates s)" for fdv k
      using filter_collect [OF ok s_clear(5)] s_clear(6) by (auto simp: queue_of_def dom_def split: option.splits)
    moreover have "filter (on fdv k) (mFileQueue s) = []" "filter (on fdv k) (map creq (mCompletions s)) = []" for fdv k
      using lists by (auto simp: lists_ok_def filter_empty_conv on_def)
    moreover have "dropped s = []" using assms(3) s_clear(2) by (simp add: threads_ok_def)
    ultimately have "pipe_line fdv k s' = pipe_line fdv k s" for fdv k
      using s_clear(1) by (simp add: pipe_line_def queue_of_def)
    then show ?thesis using assms(4) s_clear(1) by (simp add: fifo_def)
  qed (use assms(4) in \<open>simp_all add: fifo_def pipe_line_def\<close>)
next
  case (by_host k)
  then show ?thesis using assms(4) by (simp add: fifo_def pipe_line_def)
qed

section \<open>No request for a file is lost or doubled\<close>

definition files_kept :: "'k EState \<Rightarrow> bool" where
  "files_kept s \<longleftrightarrow> image_mset tag (filter_mset (\<lambda>r. \<not> risPipe r) (mset (accepted s))) = image_mset tag (file_bag s)"

lemma mset_concat_update:
  "i < length ws \<Longrightarrow> mset (concat (map f (ws[i := x]))) + mset (f (ws ! i)) = mset (concat (map f ws)) + mset (f x)"
proof (induction ws arbitrary: i)
  case (Cons w ws)
  then show ?case by (cases i) (auto simp: add.assoc add.left_commute add.commute)
qed simp

lemma collect_pipes:
  assumes "\<forall>fdv st. m fdv = Some st \<longrightarrow> state_ok fdv st" "r \<in> set (collect m fds)"
  shows "risPipe r"
proof -
  obtain fdv where "r \<in> set (case m fdv of None \<Rightarrow> [] | Some st \<Rightarrow> readQueue st @ writeQueue st)"
    using assms(2) by (auto simp: collect_def)
  then obtain st where "m fdv = Some st" "r \<in> set (readQueue st) \<union> set (writeQueue st)" by (cases "m fdv") auto
  then show ?thesis using assms(1) by (auto simp: state_ok_def on_def)
qed

lemma wstep_file_bag:
  assumes "wstep ops s s'" "table_ok (mFileStates s) (worker s)" "lists_ok s"
  shows "image_mset tag (file_bag s') = image_mset tag (file_bag s) \<and> accepted s' = accepted s"
  using assms
proof (induction rule: wstep.induct)
  case (w_read_pop s fdv e evs st req q)
  have "risPipe req" using table_okD(4) [OF w_read_pop(5)] w_read_pop(3,4) by (simp add: state_ok_def on_def)
  then show ?case using w_read_pop(1) by (simp add: file_bag_def)
next
  case (w_read_again s req fdv e evs r got k)
  have "risPipe req" using table_okD(1) [OF w_read_again(5)] w_read_again(1) by (simp add: on_def)
  then show ?case using w_read_again(1) by (simp add: file_bag_def)
next
  case (w_write_pop s fdv evs st req q)
  have "risPipe req" using table_okD(4) [OF w_write_pop(5)] w_write_pop(3,4) by (simp add: state_ok_def on_def)
  then show ?case using w_write_pop(1) by (simp add: file_bag_def)
next
  case (w_write_again s req fdv evs r req' k)
  have "risPipe req" using table_okD(1) [OF w_write_again(5)] w_write_again(1) by (simp add: on_def)
  then show ?case using w_write_again(1) by (simp add: file_bag_def)
next
  case (w_write_done s req fdv evs r req' k)
  have "risPipe req" using table_okD(1) [OF w_write_done(5)] w_write_done(1) by (simp add: on_def)
  moreover have "risPipe req' = risPipe req" using tryProcessPipeWrite_tag [OF w_write_done(2)] by (simp add: tag_def)
  ultimately show ?case using w_write_done(1) by (simp add: file_bag_def)
next
  case (w_collect s fds)
  have "filter (\<lambda>r. \<not> risPipe r) (collect (mFileStates s) fds) = []"
    using collect_pipes [of "mFileStates s" _ fds] w_collect(5) by (auto simp: table_ok_def filter_empty_conv)
  then have "filter_mset (\<lambda>r. \<not> risPipe r) (mset (collect (mFileStates s) fds)) = {#}"
    by (metis mset.simps(1) mset_filter)
  then show ?case using w_collect(1) by (simp add: file_bag_def)
qed (simp_all add: file_bag_def)

lemma fstep_file_bag:
  assumes "fstep ops s s'"
  shows "file_bag s' = file_bag s \<and> accepted s' = accepted s"
  using assms
proof (induction rule: fstep.induct)
  case (f_take i s req q)
  show ?case using f_take(2,3) mset_concat_update [OF f_take(1), of freqs "FHold req"] by (simp add: file_bag_def)
next
  case (f_exit i s)
  show ?case using f_exit(2) mset_concat_update [OF f_exit(1), of freqs FExit] by (simp add: file_bag_def)
next
  case (f_process i s req c got k)
  show ?case
    using f_process(2) processBlockingRequest_req [OF f_process(3)] mset_concat_update [OF f_process(1), of freqs "FPush c"]
    by (simp add: file_bag_def)
next
  case (f_push i s c)
  have "mset (concat (map freqs ((fileWorkers s)[i := FNotify]))) + {#creq c#} = mset (concat (map freqs (fileWorkers s)))"
    using f_push(2) mset_concat_update [OF f_push(1), of freqs FNotify] by simp
  then have "mset (concat (map freqs (fileWorkers s))) = add_mset (creq c) (mset (concat (map freqs ((fileWorkers s)[i := FNotify]))))"
    by simp
  then show ?case by (simp add: file_bag_def)
next
  case (f_notify i s)
  show ?case using f_notify(2) mset_concat_update [OF f_notify(1), of freqs FIdle] by (simp add: file_bag_def)
qed

lemma files_kept_step:
  assumes "estep ops s s'" "ewf s" "threads_ok s" "files_kept s"
  shows "files_kept s'"
  using assms(1)
proof cases
  case by_worker
  then show ?thesis using wstep_file_bag [OF by_worker] assms(2,4) by (simp add: files_kept_def ewf_split)
next
  case by_file_worker
  then show ?thesis using fstep_file_bag [OF by_file_worker] assms(4) by (simp add: files_kept_def)
next
  case by_client
  then show ?thesis
  proof (cases rule: cstep.cases)
    case (c_push c req)
    have "risPipe req" using assms(3) c_push(2) unfolding threads_ok_def by (metis cpc_ok.simps(1))
    then show ?thesis using assms(4) c_push(1) by (simp add: files_kept_def file_bag_def)
  next
    case (c_queue c req)
    have "\<not> risPipe req" using assms(3) c_queue(2) unfolding threads_ok_def by (metis cpc_ok.simps(3))
    then show ?thesis using assms(4) c_queue(1) by (simp add: files_kept_def file_bag_def)
  qed (use assms(4) in \<open>simp_all add: files_kept_def file_bag_def\<close>)
next
  case by_stopper
  then show ?thesis
  proof (cases rule: sstep.cases)
    case (s_clear fds)
    have "filter (\<lambda>r. \<not> risPipe r) (collect (mFileStates s) fds) = []"
      using collect_pipes [of "mFileStates s" _ fds] assms(2) by (auto simp: ewf_split table_ok_def filter_empty_conv)
    then have "filter_mset (\<lambda>r. \<not> risPipe r) (mset (collect (mFileStates s) fds)) = {#}"
      by (metis mset.simps(1) mset_filter)
    then show ?thesis using assms(4) s_clear(1) by (simp add: files_kept_def file_bag_def add.commute add.left_commute)
  qed (use assms(4) in \<open>simp_all add: files_kept_def file_bag_def\<close>)
next
  case (by_host k)
  then show ?thesis using assms(4) by (simp add: files_kept_def file_bag_def)
qed

section \<open>The counter\<close>

definition qlen :: "FileState \<Rightarrow> nat" where
  "qlen st = length (readQueue st) + length (writeQueue st)"

definition queued :: "(int \<rightharpoonup> FileState) \<Rightarrow> nat" where
  "queued m = (\<Sum>fdv \<in> dom m. qlen (the (m fdv)))"

fun counted :: "cpc \<Rightarrow> bool" where
  "counted (CAdded r) = True"
| "counted CRefused = True"
| "counted _ = False"

definition busy :: "(nat \<Rightarrow> cpc) \<Rightarrow> nat set" where
  "busy cs = {c. counted (cs c)}"

text \<open>The requests accepted and not yet signalled, and those of clients that have counted but not queued theirs.\<close>

definition outstanding :: "'k EState \<Rightarrow> nat" where
  "outstanding s = queued (mFileStates s) + length (wreqs (worker s)) + length (mFileQueue s) + length (mCompletions s)
     + length (concat (map freqs (fileWorkers s))) + card (busy (clients s))"

definition counter_ok :: "'k EState \<Rightarrow> bool" where
  "counter_ok s \<longleftrightarrow> finite (busy (clients s)) \<and> (stopper s \<noteq> SDone \<longrightarrow> mPending s = of_nat (outstanding s))"

lemma queued_upd: "finite (dom m) \<Longrightarrow> m fdv = Some st \<Longrightarrow> queued (m(fdv \<mapsto> st')) + qlen st = queued m + qlen st'"
proof -
  assume fin: "finite (dom m)" and st: "m fdv = Some st"
  then have d: "fdv \<in> dom m" "dom (m(fdv \<mapsto> st')) = dom m" by auto
  have "(\<Sum>x \<in> dom m - {fdv}. qlen (the ((m(fdv \<mapsto> st')) x))) = (\<Sum>x \<in> dom m - {fdv}. qlen (the (m x)))"
    by (rule sum.cong) auto
  then show ?thesis
    unfolding queued_def d(2) using sum.remove [OF fin d(1), of "\<lambda>x. qlen (the (m x))"]
      sum.remove [OF fin d(1), of "\<lambda>x. qlen (the ((m(fdv \<mapsto> st')) x))"] st by simp
qed

lemma queued_new: "finite (dom m) \<Longrightarrow> m fdv = None \<Longrightarrow> queued (m(fdv \<mapsto> st')) = queued m + qlen st'"
proof -
  assume fin: "finite (dom m)" and st: "m fdv = None"
  then have "(\<Sum>x \<in> dom m. qlen (the ((m(fdv \<mapsto> st')) x))) = (\<Sum>x \<in> dom m. qlen (the (m x)))"
    by (intro sum.cong) auto
  moreover have "dom (m(fdv \<mapsto> st')) = insert fdv (dom m)" "fdv \<notin> dom m" using st by auto
  ultimately show ?thesis using fin by (simp add: queued_def)
qed

lemma queued_del: "finite (dom m) \<Longrightarrow> m fdv = Some st \<Longrightarrow> qlen st = 0 \<Longrightarrow> queued (m(fdv := None)) = queued m"
  by (simp add: queued_def sum.remove [of "dom m" fdv] domI)

lemma queued_collect:
  assumes "distinct fds" "set fds = dom m"
  shows "length (collect m fds) = queued m"
proof -
  have "length (collect m fds) = sum_list (map (\<lambda>x. qlen (the (m x))) fds)"
    unfolding collect_def length_concat map_map
    by (rule arg_cong [where f = sum_list], rule map_cong) (use assms(2) in \<open>auto simp: qlen_def\<close>)
  then show ?thesis using assms by (simp add: queued_def sum_list_distinct_conv_sum_set)
qed

lemma length_concat_update:
  "i < length ws \<Longrightarrow> length (concat (map f (ws[i := x]))) + length (f (ws ! i)) = length (concat (map f ws)) + length (f x)"
  using arg_cong [OF mset_concat_update, where f = size, of i ws f x] by (simp del: mset_concat)

text \<open>The counter and the number of outstanding requests move together.\<close>

definition moved :: "'k EState \<Rightarrow> 'k EState \<Rightarrow> bool" where
  "moved s s' \<longleftrightarrow> clients s' = clients s \<and> stopper s' = stopper s \<and> mPending s' - of_nat (outstanding s') = mPending s - of_nat (outstanding s)"

lemma moved_same:
  "clients s' = clients s \<Longrightarrow> stopper s' = stopper s \<Longrightarrow> mPending s' = mPending s \<Longrightarrow> outstanding s' = outstanding s \<Longrightarrow> moved s s'"
  by (simp add: moved_def)

lemma moved_one:
  "clients s' = clients s \<Longrightarrow> stopper s' = stopper s \<Longrightarrow> mPending s' = mPending s - 1 \<Longrightarrow> outstanding s = outstanding s' + 1 \<Longrightarrow> moved s s'"
  by (simp add: moved_def)

lemma counter_moved: "moved s s' \<Longrightarrow> counter_ok s \<Longrightarrow> counter_ok s'"
  by (auto simp: moved_def counter_ok_def)

lemma queued_requeue:
  assumes "finite (dom (mFileStates s))" "mFileStates s fdv = Some st"
  shows "queued (mFileStates (requeue ops fdv f s)) + qlen st = queued (mFileStates s) + qlen (f st)"
  using queued_upd [OF assms, of "fst (updateRegistrationLocked ops (f st) (khost s))"]
  by (simp add: requeue_states [OF assms(2)] qlen_def)

lemma wstep_moved:
  assumes "wstep ops s s'" "table_ok (mFileStates s) (worker s)"
  shows "moved s s'"
  using assms
proof (induction rule: wstep.induct)
  case (w_read_pop s fdv e evs st req q)
  have "queued ((mFileStates s)(fdv \<mapsto> st\<lparr>readQueue := q\<rparr>)) + qlen st = queued (mFileStates s) + qlen (st\<lparr>readQueue := q\<rparr>)"
    using queued_upd w_read_pop(3,5) by (simp add: table_ok_def)
  then show ?case using w_read_pop(1,4) by (intro moved_same) (simp_all add: outstanding_def qlen_def fun_upd_def)
next
  case (w_read_again s req fdv e evs r got k)
  obtain st where st: "mFileStates s fdv = Some st" using table_okD(3) [OF w_read_again(5), of fdv] w_read_again(1) by auto
  have "queued (mFileStates (requeue ops fdv (\<lambda>st. st\<lparr>readQueue := req # readQueue st\<rparr>) (s\<lparr>khost := k, worker := after_reads fdv e evs\<rparr>))) + qlen st
      = queued (mFileStates s) + qlen (st\<lparr>readQueue := req # readQueue st\<rparr>)"
    using queued_requeue [of "s\<lparr>khost := k, worker := after_reads fdv e evs\<rparr>" fdv st] st w_read_again(5) by (simp add: table_ok_def)
  then show ?case using w_read_again(1) by (intro moved_same) (simp_all add: outstanding_def qlen_def)
next
  case (w_read_upd s fdv e evs)
  obtain st where st: "mFileStates s fdv = Some st" using table_okD(3) [OF w_read_upd(3), of fdv] w_read_upd(1) by auto
  have "queued (mFileStates (requeue ops fdv (\<lambda>st. st) (s\<lparr>worker := WRead fdv e evs\<rparr>))) + qlen st = queued (mFileStates s) + qlen st"
    using queued_requeue [of "s\<lparr>worker := WRead fdv e evs\<rparr>" fdv st ops "\<lambda>st. st"] st w_read_upd(3) by (simp add: table_ok_def)
  then show ?case using w_read_upd(1) by (intro moved_same) (simp_all add: outstanding_def)
next
  case (w_write_pop s fdv evs st req q)
  have "queued ((mFileStates s)(fdv \<mapsto> st\<lparr>writeQueue := q\<rparr>)) + qlen st = queued (mFileStates s) + qlen (st\<lparr>writeQueue := q\<rparr>)"
    using queued_upd w_write_pop(3,5) by (simp add: table_ok_def)
  then show ?case using w_write_pop(1,4) by (intro moved_same) (simp_all add: outstanding_def qlen_def fun_upd_def)
next
  case (w_write_again s req fdv evs r req' k)
  obtain st where st: "mFileStates s fdv = Some st" using table_okD(3) [OF w_write_again(5), of fdv] w_write_again(1) by auto
  have "queued (mFileStates (requeue ops fdv (\<lambda>st. st\<lparr>writeQueue := req' # writeQueue st\<rparr>) (s\<lparr>khost := k, worker := WClean fdv evs\<rparr>))) + qlen st
      = queued (mFileStates s) + qlen (st\<lparr>writeQueue := req' # writeQueue st\<rparr>)"
    using queued_requeue [of "s\<lparr>khost := k, worker := WClean fdv evs\<rparr>" fdv st] st w_write_again(5) by (simp add: table_ok_def)
  then show ?case using w_write_again(1) by (intro moved_same) (simp_all add: outstanding_def qlen_def)
next
  case (w_write_upd s fdv evs)
  obtain st where st: "mFileStates s fdv = Some st" using table_okD(3) [OF w_write_upd(3), of fdv] w_write_upd(1) by auto
  have "queued (mFileStates (requeue ops fdv (\<lambda>st. st) (s\<lparr>worker := WWrite fdv evs\<rparr>))) + qlen st = queued (mFileStates s) + qlen st"
    using queued_requeue [of "s\<lparr>worker := WWrite fdv evs\<rparr>" fdv st ops "\<lambda>st. st"] st w_write_upd(3) by (simp add: table_ok_def)
  then show ?case using w_write_upd(1) by (intro moved_same) (simp_all add: outstanding_def)
next
  case (w_clean s fdv evs)
  have fin: "finite (dom (mFileStates s))" using w_clean(3) by (simp add: table_ok_def)
  have "queued (mFileStates (clean_up ops fdv (s\<lparr>worker := WEvents evs\<rparr>))) = queued (mFileStates s)"
    using clean_up_states [of ops fdv "s\<lparr>worker := WEvents evs\<rparr>"]
  proof (elim disjE conjE exE)
    fix st
    assume "mFileStates (clean_up ops fdv (s\<lparr>worker := WEvents evs\<rparr>)) = (mFileStates (s\<lparr>worker := WEvents evs\<rparr>))(fdv := None)"
      "mFileStates (s\<lparr>worker := WEvents evs\<rparr>) fdv = Some st" "readQueue st = []" "writeQueue st = []"
    then show ?thesis using queued_del [OF fin, of fdv st] by (simp add: qlen_def fun_upd_def)
  qed simp
  then show ?case using w_clean(1) by (intro moved_same) (simp_all add: outstanding_def)
next
  case (w_collect s fds)
  have "queued (map_option drop_queues o mFileStates s) = 0"
    unfolding queued_def by (rule sum.neutral) (auto simp: qlen_def drop_queues_def)
  then show ?case using w_collect(1) queued_collect [OF w_collect(3,4)] by (intro moved_same) (simp_all add: outstanding_def)
qed (simp_all add: moved_def outstanding_def)

lemma fstep_moved:
  assumes "fstep ops s s'"
  shows "moved s s'"
  using assms
proof (induction rule: fstep.induct)
  case (f_take i s req q)
  then show ?case using length_concat_update [OF f_take(1), of freqs "FHold req"] by (intro moved_same) (simp_all add: outstanding_def)
next
  case (f_exit i s)
  then show ?case using length_concat_update [OF f_exit(1), of freqs FExit] by (intro moved_same) (simp_all add: outstanding_def)
next
  case (f_process i s req c got k)
  then show ?case using length_concat_update [OF f_process(1), of freqs "FPush c"] by (intro moved_same) (simp_all add: outstanding_def)
next
  case (f_push i s c)
  then show ?case using length_concat_update [OF f_push(1), of freqs FNotify] by (intro moved_same) (simp_all add: outstanding_def)
next
  case (f_notify i s)
  then show ?case using length_concat_update [OF f_notify(1), of freqs FIdle] by (intro moved_same) (simp_all add: outstanding_def)
qed

text \<open>The clients that have counted their request, after one of them has moved on.\<close>

lemma busy_upd:
  "busy (cs(i := p)) = (if counted p then insert i (busy cs) else busy cs - {i})"
  "busy (\<lambda>c. if c = i then p else cs c) = (if counted p then insert i (busy cs) else busy cs - {i})"
  by (auto simp: busy_def)

lemma busy_iff: "c \<in> busy cs \<longleftrightarrow> counted (cs c)"
  by (simp add: busy_def)

lemma busy_finite: "counter_ok s \<Longrightarrow> finite (busy (clients s))"
  by (simp add: counter_ok_def)

lemma busy_less: "counter_ok s \<Longrightarrow> c \<in> busy (clients s) \<Longrightarrow>
    (of_nat (card (busy (clients s))) :: u32) = 1 + of_nat (card (busy (clients s) - {c}))"
  using card_Suc_Diff1 [OF busy_finite, of s c] by (metis of_nat_Suc)

lemma queued_enqueue:
  assumes "finite (dom (mFileStates s))"
  shows "queued (mFileStates (enqueuePipe ops req s)) = queued (mFileStates s) + 1"
proof -
  obtain st where st: "mFileStates (enqueuePipe ops req s) = (mFileStates s)(rfd req \<mapsto> st)"
    "readQueue st = queue_of (rfd req) ReadReq (mFileStates s) @ (if rkind req = ReadReq then [req] else [])"
    "writeQueue st = queue_of (rfd req) WriteReq (mFileStates s) @ (if rkind req = WriteReq then [req] else [])"
    using enqueuePipe_states by blast
  show ?thesis
  proof (cases "mFileStates s (rfd req)")
    case None
    then show ?thesis using queued_new [OF assms None, of st] st by (cases "rkind req") (simp_all add: qlen_def queue_of_def)
  next
    case (Some st0)
    then show ?thesis using queued_upd [OF assms Some, of st] st by (cases "rkind req") (simp_all add: qlen_def queue_of_def)
  qed
qed

lemma cstep_counter:
  assumes "cstep ops s s'" "counter_ok s" "finite (dom (mFileStates s))"
  shows "counter_ok s'"
  using assms
proof (induction rule: cstep.induct)
  case (c_lock s c req)
  then have "c \<notin> busy (clients s)" by (simp add: busy_iff)
  then show ?case using c_lock(6) busy_finite [OF c_lock(6)] by (simp add: counter_ok_def outstanding_def busy_upd)
next
  case (c_push s c req)
  have "c \<notin> busy (clients s)" using c_push(1) by (simp add: busy_iff)
  moreover have "queued (mFileStates (enqueuePipe ops req (s\<lparr>mMutexBy := None, clients := (clients s)(c := CIdle), accepted := accepted s @ [req]\<rparr>)))
      = queued (mFileStates s) + 1"
    using queued_enqueue [of "s\<lparr>mMutexBy := None, clients := (clients s)(c := CIdle), accepted := accepted s @ [req]\<rparr>"] c_push(3) by simp
  ultimately show ?case using c_push(2) busy_finite [OF c_push(2)] by (simp add: counter_ok_def outstanding_def busy_upd)
next
  case (c_check s c req)
  then have "c \<notin> busy (clients s)" by (simp add: busy_iff)
  then show ?case using c_check(5) busy_finite [OF c_check(5)] by (simp add: counter_ok_def outstanding_def busy_upd)
next
  case (c_add s c req)
  have "c \<notin> busy (clients s)" using c_add(1) by (simp add: busy_iff)
  then show ?case using c_add(2) busy_finite [OF c_add(2)] by (simp add: counter_ok_def outstanding_def busy_upd)
next
  case (c_queue s c req)
  have "c \<in> busy (clients s)" using c_queue(1) by (simp add: busy_iff)
  from busy_less [OF c_queue(3) this] show ?case using c_queue(3) busy_finite [OF c_queue(3)] by (auto simp: counter_ok_def outstanding_def busy_upd)
next
  case (c_refused s c req)
  have "insert c (busy (clients s)) = busy (clients s)" using c_refused(1) by (auto simp: busy_iff)
  then show ?case using c_refused(3) busy_finite [OF c_refused(3)] by (simp add: counter_ok_def outstanding_def busy_upd)
next
  case (c_sub s c)
  have "c \<in> busy (clients s)" using c_sub(1) by (simp add: busy_iff)
  from busy_less [OF c_sub(2) this] show ?case using c_sub(2) busy_finite [OF c_sub(2)] by (auto simp: counter_ok_def outstanding_def busy_upd)
qed

lemma counter_step:
  assumes "estep ops s s'" "ewf s" "counter_ok s"
  shows "counter_ok s'"
  using assms(1)
proof cases
  case by_worker
  then show ?thesis using counter_moved [OF wstep_moved [OF by_worker] assms(3)] assms(2) by (simp add: ewf_split)
next
  case by_file_worker
  then show ?thesis using counter_moved [OF fstep_moved [OF by_file_worker] assms(3)] by simp
next
  case by_client
  then show ?thesis using cstep_counter [OF by_client assms(3)] assms(2) by (simp add: ewf_def)
next
  case by_stopper
  then show ?thesis using assms(3) by (induction rule: sstep.induct) (simp_all add: counter_ok_def outstanding_def)
next
  case (by_host k)
  then show ?thesis using assms(3) by (simp add: counter_ok_def outstanding_def)
qed

section \<open>The worker is woken\<close>

fun soon_swaps :: "wpc \<Rightarrow> bool" where
  "soon_swaps (WSwap n) = True"
| "soon_swaps (WComplete cs n) = soon_swaps n"
| "soon_swaps _ = False"

definition wakes :: "'k EState \<Rightarrow> bool" where
  "wakes s \<longleftrightarrow> (mCompletions s \<noteq> [] \<longrightarrow> eventFd s \<or> FNotify \<in> set (fileWorkers s) \<or> soon_swaps (worker s))"

lemma notify_kept: "FNotify \<in> set ws \<Longrightarrow> ws ! i \<noteq> FNotify \<Longrightarrow> FNotify \<in> set (ws[i := x])"
  by (metis in_set_conv_nth length_list_update nth_list_update_neq)

lemma wakes_step:
  assumes "estep ops s s'" "wakes s"
  shows "wakes s'"
  using assms(1)
proof cases
  case by_worker
  then show ?thesis using assms(2) by (induction rule: wstep.induct) (auto simp: wakes_def)
next
  case by_file_worker
  then show ?thesis using assms(2)
  proof (induction rule: fstep.induct)
    case (f_take i s req q)
    then show ?case using notify_kept [of "fileWorkers s" i "FHold req"] by (auto simp: wakes_def)
  next
    case (f_exit i s)
    then show ?case using notify_kept [of "fileWorkers s" i FExit] by (auto simp: wakes_def)
  next
    case (f_process i s req c got k)
    then show ?case using notify_kept [of "fileWorkers s" i "FPush c"] by (auto simp: wakes_def)
  next
    case (f_push i s c)
    then show ?case by (simp add: wakes_def set_update_memI)
  next
    case (f_notify i s)
    then show ?case by (simp add: wakes_def)
  qed
next
  case by_client
  then show ?thesis using assms(2) by (induction rule: cstep.induct) (auto simp: wakes_def)
next
  case by_stopper
  then show ?thesis using assms(2) by (induction rule: sstep.induct) (auto simp: wakes_def)
next
  case (by_host k)
  then show ?thesis using assms(2) by (simp add: wakes_def)
qed

section \<open>Descriptors with requests are watched\<close>

definition armed :: "FileState \<Rightarrow> bool" where
  "armed st \<longleftrightarrow> (readQueue st \<noteq> [] \<longrightarrow> registered st \<and> sevents st AND EPOLLIN \<noteq> 0) \<and>
     (writeQueue st \<noteq> [] \<longrightarrow> registered st \<and> sevents st AND EPOLLOUT \<noteq> 0)"

definition all_armed :: "'k EState \<Rightarrow> bool" where
  "all_armed s \<longleftrightarrow> (\<forall>fdv st. mFileStates s fdv = Some st \<longrightarrow> armed st)"

lemma update_arms:
  assumes "\<forall>fdv k. fst (op_epoll_ctl ops fdv k)"
  shows "armed (fst (updateRegistrationLocked ops st k))"
  using assms
  by (cases "readQueue st = []"; cases "writeQueue st = []"; cases "registered st")
     (auto simp: armed_def updateRegistrationLocked_def Let_def case_prod_unfold)

lemma armed_requeue:
  assumes "\<forall>fdv k. fst (op_epoll_ctl ops fdv k)" "all_armed s"
  shows "all_armed (requeue ops fdv f s)"
proof (cases "mFileStates s fdv")
  case None
  then show ?thesis using assms(2) by (simp add: requeue_def)
next
  case (Some st)
  then show ?thesis using assms(2) update_arms [OF assms(1)] by (auto simp: all_armed_def requeue_states [OF Some])
qed

lemma armed_enqueue:
  assumes "\<forall>fdv k. fst (op_epoll_ctl ops fdv k)" "all_armed s"
  shows "all_armed (enqueuePipe ops req s)"
  using assms(2) update_arms [OF assms(1)] by (auto simp: all_armed_def enqueuePipe_def case_prod_unfold Let_def)

lemma armed_cong: "mFileStates s' = mFileStates s \<Longrightarrow> all_armed s \<Longrightarrow> all_armed s'"
  by (simp add: all_armed_def)

lemma armed_step:
  assumes ops: "\<forall>fdv k. fst (op_epoll_ctl ops fdv k)" and step: "estep ops s s'" and "all_armed s"
  shows "all_armed s'"
  using step
proof cases
  case by_worker
  then show ?thesis using assms(3)
  proof (induction rule: wstep.induct)
    case (w_read_pop s fdv e evs st req q)
    then have "armed st" by (simp add: all_armed_def)
    then have "armed (st\<lparr>readQueue := q\<rparr>)" using w_read_pop(4) by (simp add: armed_def)
    then show ?case using w_read_pop(5) by (simp add: all_armed_def)
  next
    case (w_read_again s req fdv e evs r got k)
    then show ?case by (intro armed_requeue [OF ops] armed_cong [OF _ w_read_again(5)]) simp
  next
    case (w_read_upd s fdv e evs)
    then show ?case by (intro armed_requeue [OF ops] armed_cong [OF _ w_read_upd(3)]) simp
  next
    case (w_write_pop s fdv evs st req q)
    then have "armed st" by (simp add: all_armed_def)
    then have "armed (st\<lparr>writeQueue := q\<rparr>)" using w_write_pop(4) by (simp add: armed_def)
    then show ?case using w_write_pop(5) by (simp add: all_armed_def)
  next
    case (w_write_again s req fdv evs r req' k)
    then show ?case by (intro armed_requeue [OF ops] armed_cong [OF _ w_write_again(5)]) simp
  next
    case (w_write_upd s fdv evs)
    then show ?case by (intro armed_requeue [OF ops] armed_cong [OF _ w_write_upd(3)]) simp
  next
    case (w_clean s fdv evs)
    then show ?case using clean_up_states [of ops fdv "s\<lparr>worker := WEvents evs\<rparr>"]
      by (auto simp: all_armed_def split: if_splits)
  next
    case (w_collect s fds)
    then show ?case by (auto simp: all_armed_def armed_def drop_queues_def)
  qed (simp_all add: all_armed_def)
next
  case by_file_worker
  then have "mFileStates s' = mFileStates s" by (induction rule: fstep.induct) simp_all
  then show ?thesis by (rule armed_cong [OF _ assms(3)])
next
  case by_client
  then show ?thesis using assms(3)
  proof (induction rule: cstep.induct)
    case (c_push s c req)
    then show ?case by (intro armed_enqueue [OF ops] armed_cong [OF _ c_push(2)]) simp
  qed (simp_all add: all_armed_def)
next
  case by_stopper
  then show ?thesis using assms(3) by (induction rule: sstep.induct) (simp_all add: all_armed_def)
next
  case (by_host k)
  then show ?thesis using assms(3) by (simp add: all_armed_def)
qed

section \<open>Reachable states\<close>

abbreviation reaches :: "'k HostOps \<Rightarrow> 'k EState \<Rightarrow> 'k EState \<Rightarrow> bool" where
  "reaches ops \<equiv> (estep ops)\<^sup>*\<^sup>*"

lemma init_ok:
  "ewf (backend_init hc k)" "threads_ok (backend_init hc k)" "fifo (backend_init hc k)" "files_kept (backend_init hc k)"
  "counter_ok (backend_init hc k)" "wakes (backend_init hc k)" "all_armed (backend_init hc k)"
  by (simp_all add: backend_init_def ewf_def threads_ok_def fifo_def pipe_line_def queue_of_def files_kept_def file_bag_def
      counter_ok_def outstanding_def queued_def busy_def wakes_def all_armed_def)

lemma reachable_ok:
  assumes "reaches ops (backend_init hc k) s"
  shows "ewf s" "threads_ok s" "fifo s" "files_kept s" "counter_ok s" "wakes s"
proof -
  have "ewf s \<and> threads_ok s \<and> fifo s \<and> files_kept s \<and> counter_ok s \<and> wakes s"
    using assms
  proof (induction rule: rtranclp_induct)
    case base
    show ?case by (intro conjI init_ok)
  next
    case (step s s')
    note step = step(2) step(3)
    show ?case
      using step(2) wf_step [OF step(1)] threads_ok_step [OF step(1)] fifo_step [OF step(1)] files_kept_step [OF step(1)]
        counter_step [OF step(1)] wakes_step [OF step(1)] by simp
  qed
  then show "ewf s" "threads_ok s" "fifo s" "files_kept s" "counter_ok s" "wakes s" by simp_all
qed

lemma reachable_armed:
  assumes "reaches ops (backend_init hc k) s" "\<forall>fdv k. fst (op_epoll_ctl ops fdv k)"
  shows "all_armed s"
  using assms(1)
proof (induction rule: rtranclp_induct)
  case base
  show ?case by (rule init_ok(7))
next
  case (step s s')
  from armed_step [OF assms(2) step(2,3)] show ?case .
qed

section \<open>Requests are answered\<close>

lemma outstanding_0:
  assumes "ewf s" "outstanding s = 0"
  shows "queue_of fdv kd (mFileStates s) = []" "wreqs (worker s) = []" "mFileQueue s = []" "mCompletions s = []"
    "concat (map freqs (fileWorkers s)) = []"
proof -
  have fin: "finite (dom (mFileStates s))" using assms(1) by (simp add: ewf_def)
  have "queued (mFileStates s) = 0" using assms(2) by (simp add: outstanding_def)
  then have "\<forall>x \<in> dom (mFileStates s). qlen (the (mFileStates s x)) = 0" unfolding queued_def sum_eq_0_iff [OF fin] .
  then have "qlen st = 0" if "mFileStates s fdv = Some st" for st using that by force
  then show "queue_of fdv kd (mFileStates s) = []" by (cases "mFileStates s fdv") (simp_all add: queue_of_def qlen_def)
  show "wreqs (worker s) = []" "mFileQueue s = []" "mCompletions s = []" "concat (map freqs (fileWorkers s)) = []"
    using assms(2) by (simp_all add: outstanding_def)
qed

text \<open>
  C23: asynchronous requests are answered once and in order. However the threads of the program, the worker and the
  file workers interleave: for each direction of each pipe, the requests signalled are the first ones
  accepted, in their order; of the requests for other files, none is signalled that was not accepted, or twice. Until
  \<^verbatim>\<open>shutdown\<close> has finished, the counter is the number of requests outstanding, as a 32-bit number, and when none is
  outstanding every accepted request has been signalled; \<^verbatim>\<open>shutdown\<close> itself may drop a request, see the run at the end of this theory. The worker never looks at a descriptor that is no longer in the table.
\<close>

theorem async_requests_answered:
  assumes "reaches ops (backend_init hc k) s"
  shows "(\<forall>fdv kd. \<exists>rest. map tag (filter (on fdv kd) (accepted s))
              = map tag (filter (on fdv kd) (map creq (signals s))) @ rest \<and>
              (outstanding s = 0 \<and> stopper s \<noteq> SDone \<longrightarrow> rest = [])) \<and>
         (\<exists>rest. image_mset tag (filter_mset (\<lambda>r. \<not> risPipe r) (mset (accepted s)))
              = image_mset tag (filter_mset (\<lambda>r. \<not> risPipe r) (mset (map creq (signals s)))) + rest \<and>
              (outstanding s = 0 \<and> stopper s \<noteq> SDone \<longrightarrow> rest = {#})) \<and>
         (stopper s \<noteq> SDone \<longrightarrow> mPending s = of_nat (outstanding s)) \<and>
         (\<forall>fdv. Some fdv \<in> set (to_visit (worker s)) \<longrightarrow> mFileStates s fdv \<noteq> None)"
proof (intro conjI allI)
  note ok = reachable_ok [OF assms]
  have none: "dropped s = []" if "stopper s \<noteq> SDone" using ok(2) that by (simp add: threads_ok_def)
  show "\<exists>rest. map tag (filter (on fdv kd) (accepted s)) = map tag (filter (on fdv kd) (map creq (signals s))) @ rest \<and>
              (outstanding s = 0 \<and> stopper s \<noteq> SDone \<longrightarrow> rest = [])" for fdv kd
    using ok(3) outstanding_0(1) [OF ok(1), of fdv kd] outstanding_0(2) [OF ok(1)] none
    by (intro exI [of _ "map tag (filter (on fdv kd) (wreqs (worker s)) @ queue_of fdv kd (mFileStates s) @ filter (on fdv kd) (dropped s))"])
       (simp add: fifo_def pipe_line_def)
  show "\<exists>rest. image_mset tag (filter_mset (\<lambda>r. \<not> risPipe r) (mset (accepted s)))
              = image_mset tag (filter_mset (\<lambda>r. \<not> risPipe r) (mset (map creq (signals s)))) + rest \<and>
              (outstanding s = 0 \<and> stopper s \<noteq> SDone \<longrightarrow> rest = {#})"
    using ok(4) outstanding_0(2-5) [OF ok(1)] none
    by (intro exI [of _ "image_mset tag (filter_mset (\<lambda>r. \<not> risPipe r) (mset (wreqs (worker s)) + mset (dropped s) + mset (mFileQueue s)
          + mset (map creq (mCompletions s)) + mset (concat (map freqs (fileWorkers s)))))"])
       (simp add: files_kept_def file_bag_def)
  show "stopper s \<noteq> SDone \<longrightarrow> mPending s = of_nat (outstanding s)" using ok(5) by (simp add: counter_ok_def)
  show "Some fdv \<in> set (to_visit (worker s)) \<longrightarrow> mFileStates s fdv \<noteq> None" for fdv
    using ok(1) by (simp add: ewf_def)
qed

text \<open>
  C24: the worker is never left asleep. While the worker waits for events, a finished transfer is on the list of
  completions only if the event descriptor is readable or a file worker is about to make it so; and
  every descriptor with a request waiting is watched for the direction the request needs, provided the host accepts
  the registrations.
\<close>

theorem async_no_lost_wakeup:
  assumes "reaches ops (backend_init hc k) s" "\<forall>fdv k. fst (op_epoll_ctl ops fdv k)" "worker s = WWait"
  shows "(mCompletions s \<noteq> [] \<longrightarrow> eventFd s \<or> FNotify \<in> set (fileWorkers s)) \<and>
         (\<forall>fdv st. mFileStates s fdv = Some st \<longrightarrow>
            (readQueue st \<noteq> [] \<longrightarrow> registered st \<and> sevents st AND EPOLLIN \<noteq> 0) \<and>
            (writeQueue st \<noteq> [] \<longrightarrow> registered st \<and> sevents st AND EPOLLOUT \<noteq> 0))"
  using reachable_ok(6) [OF assms(1)] reachable_armed [OF assms(1,2)] assms(3)
  by (simp add: wakes_def all_armed_def armed_def)

section \<open>A run\<close>

text \<open>A host without data on which every call fails, and one read of a byte of a file.\<close>

definition dead_host :: "unit HostOps" where
  "dead_host = \<lparr>op_pread = (\<lambda>_ _ _ k. (Failed EIO, k)), op_sread = (\<lambda>_ _ k. (Failed EAGAIN, k)),
     op_pwrite = (\<lambda>_ _ _ k. (Failed EIO, k)), op_swrite = (\<lambda>_ _ k. (Failed EAGAIN, k)), op_lseek = (\<lambda>_ _. Failed EIO),
     op_fcntl = (\<lambda>_ _ _ k. (-1, k)), op_epoll_ctl = (\<lambda>_ k. (True, k))\<rparr>"

definition demo_request :: AsyncRequest where
  "demo_request = queueRead (Some ((new_FileObject (Moved 0) 5)\<lparr>overlapped := True\<rparr>)) 77 1 (Some 0) False"

lemma demo_request_simps [simp]:
  "queued_request demo_request" "\<not> risPipe demo_request" "rfile demo_request = Some ((new_FileObject (Moved 0) 5)\<lparr>overlapped := True\<rparr>)"
proof -
  have "valid_file ((new_FileObject (Moved 0) 5)\<lparr>overlapped := True\<rparr>)" by (simp add: new_FileObject_def valid_file_def)
  then show "queued_request demo_request" unfolding queued_request_def demo_request_def by blast
qed (simp_all add: demo_request_def queueRead_def)

definition demo_completion :: Completion where
  "demo_completion = \<lparr>creq = demo_request, cstatus = statusFromErrno EIO, cbytes = 0\<rparr>"

lemma demo_request_fails: "processBlockingRequest dead_host demo_request k = Some (demo_completion, [], k)"
proof -
  have "doRead (op_pread dead_host) 5 1 0 [] k = Some ([], EIO, False, k)"
    by (subst doRead.simps) (simp add: dead_host_def error_of_def SSIZE_MAX_def)
  then show ?thesis
    by (simp add: processBlockingRequest_def demo_request_def queueRead_def new_FileObject_def valid_file_def files_read_def Let_def
        demo_completion_def statusFromErrno_def statusFromWinError_def)
qed

text \<open>The states of the run; one file worker, client 0.\<close>

definition demo_state :: "bool \<Rightarrow> u32 \<Rightarrow> AsyncRequest list \<Rightarrow> bool \<Rightarrow> Completion list \<Rightarrow> bool \<Rightarrow> wpc \<Rightarrow> fpc \<Rightarrow> cpc \<Rightarrow> spc
    \<Rightarrow> AsyncRequest list \<Rightarrow> AsyncRequest list \<Rightarrow> unit EState" where
  "demo_state run pend queue stop comps ev w fw cl sp acc dr =
     \<lparr>mRunning = run, mPending = pend, mFileStates = Map.empty, mFileQueue = queue, mFileStopping = stop, mCompletions = comps,
      eventFd = ev, mMutexBy = None, khost = (), worker = w, fileWorkers = [fw], clients = (\<lambda>_. CIdle)(0 := cl), stopper = sp,
      signals = [], accepted = acc, dropped = dr\<rparr>"

lemma reach_steps:
  "reaches ops a s \<Longrightarrow> wstep ops s s' \<Longrightarrow> s' = t \<Longrightarrow> reaches ops a t"
  "reaches ops a s \<Longrightarrow> fstep ops s s' \<Longrightarrow> s' = t \<Longrightarrow> reaches ops a t"
  "reaches ops a s \<Longrightarrow> cstep ops s s' \<Longrightarrow> s' = t \<Longrightarrow> reaches ops a t"
  "reaches ops a s \<Longrightarrow> sstep ops s s' \<Longrightarrow> s' = t \<Longrightarrow> reaches ops a t"
  by (auto intro: rtranclp.rtrancl_into_rtrancl estep.intros)

lemmas demo_run = demo_state_def notifyWorker_def collect_def fun_eq_iff demo_completion_def

text \<open>The worker leaves while client 0 has seen the backend running but not yet counted its request.\<close>

lemma demo_worker_leaves:
  "reaches dead_host (backend_init 1 ()) (demo_state False 0 [] False [] False WExit FIdle (CChecked demo_request) SStop [] [])"
proof -
  have "reaches dead_host (backend_init 1 ()) (demo_state True 0 [] False [] False (WSwap WCheck) FIdle CIdle SIdle [] [])"
    by (simp add: demo_state_def backend_init_def worker_count_def fun_upd_idem)
  then have "reaches dead_host (backend_init 1 ()) (demo_state True 0 [] False [] False (WSwap WCheck) FIdle (CChecked demo_request) SIdle [] [])"
    by (rule reach_steps(3) [OF _ cstep.c_check [where c = 0 and req = demo_request]]) (simp_all add: demo_run)
  then have "reaches dead_host (backend_init 1 ()) (demo_state False 0 [] False [] False (WSwap WCheck) FIdle (CChecked demo_request) SStop [] [])"
    by (rule reach_steps(4) [OF _ sstep.s_begin]) (simp_all add: demo_run)
  then have "reaches dead_host (backend_init 1 ()) (demo_state False 0 [] False [] False (WComplete [] WCheck) FIdle (CChecked demo_request) SStop [] [])"
    by (rule reach_steps(1) [OF _ wstep.w_swap]) (simp_all add: demo_run)
  then have "reaches dead_host (backend_init 1 ()) (demo_state False 0 [] False [] False WCheck FIdle (CChecked demo_request) SStop [] [])"
    by (rule reach_steps(1) [OF _ wstep.w_completed]) (simp_all add: demo_run)
  then have "reaches dead_host (backend_init 1 ()) (demo_state False 0 [] False [] False (WSwap (WSwap WCollect)) FIdle (CChecked demo_request) SStop [] [])"
    by (rule reach_steps(1) [OF _ wstep.w_leave]) (simp_all add: demo_run)
  then have "reaches dead_host (backend_init 1 ()) (demo_state False 0 [] False [] False (WComplete [] (WSwap WCollect)) FIdle (CChecked demo_request) SStop [] [])"
    by (rule reach_steps(1) [OF _ wstep.w_swap]) (simp_all add: demo_run)
  then have "reaches dead_host (backend_init 1 ()) (demo_state False 0 [] False [] False (WSwap WCollect) FIdle (CChecked demo_request) SStop [] [])"
    by (rule reach_steps(1) [OF _ wstep.w_completed]) (simp_all add: demo_run)
  then have "reaches dead_host (backend_init 1 ()) (demo_state False 0 [] False [] False (WComplete [] WCollect) FIdle (CChecked demo_request) SStop [] [])"
    by (rule reach_steps(1) [OF _ wstep.w_swap]) (simp_all add: demo_run)
  then have "reaches dead_host (backend_init 1 ()) (demo_state False 0 [] False [] False WCollect FIdle (CChecked demo_request) SStop [] [])"
    by (rule reach_steps(1) [OF _ wstep.w_completed]) (simp_all add: demo_run)
  then have "reaches dead_host (backend_init 1 ()) (demo_state False 0 [] False [] False (WCollectQueue []) FIdle (CChecked demo_request) SStop [] [])"
    by (rule reach_steps(1) [OF _ wstep.w_collect [where fds = "[]"]]) (simp_all add: demo_run)
  then have "reaches dead_host (backend_init 1 ()) (demo_state False 0 [] False [] False (WCollectDone []) FIdle (CChecked demo_request) SStop [] [])"
    by (rule reach_steps(1) [OF _ wstep.w_collect_queue]) (simp_all add: demo_run)
  then have "reaches dead_host (backend_init 1 ()) (demo_state False 0 [] False [] False (WComplete [] (WCancel [])) FIdle (CChecked demo_request) SStop [] [])"
    by (rule reach_steps(1) [OF _ wstep.w_collect_done]) (simp_all add: demo_run)
  then have "reaches dead_host (backend_init 1 ()) (demo_state False 0 [] False [] False (WCancel []) FIdle (CChecked demo_request) SStop [] [])"
    by (rule reach_steps(1) [OF _ wstep.w_completed]) (simp_all add: demo_run)
  then have "reaches dead_host (backend_init 1 ()) (demo_state False 0 [] False [] False WExit FIdle (CChecked demo_request) SStop [] [])"
    by (rule reach_steps(1) [OF _ wstep.w_exit]) (simp_all add: demo_run)
  then show ?thesis .
qed

text \<open>
  When the worker has left its loop because nothing was outstanding, a client that had seen the backend running before
  \<^verbatim>\<open>shutdown\<close> began can still queue a request and be told that it is pending. A file worker carries it out, and
  \<^verbatim>\<open>shutdown\<close> throws its completion away: the request is never signalled.
\<close>

theorem async_shutdown_drops_request:
  "\<exists>s. reaches dead_host (backend_init 1 ()) s \<and> accepted s = [demo_request] \<and> signals s = [] \<and> dropped s = [demo_request]"
proof -
  have "reaches dead_host (backend_init 1 ()) (demo_state False 0 [] False [] False WExit FIdle (CChecked demo_request) SStop [] [])" by (rule demo_worker_leaves)
  then have "reaches dead_host (backend_init 1 ()) (demo_state False 1 [] False [] False WExit FIdle (CAdded demo_request) SStop [] [])"
    by (rule reach_steps(3) [OF _ cstep.c_add [where c = 0 and req = demo_request]]) (simp_all add: demo_run)
  then have "reaches dead_host (backend_init 1 ()) (demo_state False 1 [demo_request] False [] False WExit FIdle CIdle SStop [demo_request] [])"
    by (rule reach_steps(3) [OF _ cstep.c_queue [where c = 0 and req = demo_request]]) (simp_all add: demo_run)
  then have "reaches dead_host (backend_init 1 ()) (demo_state False 1 [demo_request] True [] False WExit FIdle CIdle SNotify [demo_request] [])"
    by (rule reach_steps(4) [OF _ sstep.s_stop]) (simp_all add: demo_run)
  then have "reaches dead_host (backend_init 1 ()) (demo_state False 1 [demo_request] True [] True WExit FIdle CIdle SJoin [demo_request] [])"
    by (rule reach_steps(4) [OF _ sstep.s_notify]) (simp_all add: demo_run)
  then have "reaches dead_host (backend_init 1 ()) (demo_state False 1 [demo_request] True [] True WExit FIdle CIdle SJoinFiles [demo_request] [])"
    by (rule reach_steps(4) [OF _ sstep.s_join]) (simp_all add: demo_run)
  then have "reaches dead_host (backend_init 1 ()) (demo_state False 1 [] True [] True WExit (FHold demo_request) CIdle SJoinFiles [demo_request] [])"
    by (rule reach_steps(2) [OF _ fstep.f_take [where i = 0]]) (simp_all add: demo_run)
  then have "reaches dead_host (backend_init 1 ()) (demo_state False 1 [] True [] True WExit (FPush demo_completion) CIdle SJoinFiles [demo_request] [])"
    by (rule reach_steps(2) [OF _ fstep.f_process [where i = 0, OF _ _ demo_request_fails]]) (simp_all add: demo_run)
  then have "reaches dead_host (backend_init 1 ()) (demo_state False 1 [] True [demo_completion] True WExit FNotify CIdle SJoinFiles [demo_request] [])"
    by (rule reach_steps(2) [OF _ fstep.f_push [where i = 0]]) (simp_all add: demo_run)
  then have "reaches dead_host (backend_init 1 ()) (demo_state False 1 [] True [demo_completion] True WExit FIdle CIdle SJoinFiles [demo_request] [])"
    by (rule reach_steps(2) [OF _ fstep.f_notify [where i = 0]]) (simp_all add: demo_run)
  then have "reaches dead_host (backend_init 1 ()) (demo_state False 1 [] True [demo_completion] True WExit FExit CIdle SJoinFiles [demo_request] [])"
    by (rule reach_steps(2) [OF _ fstep.f_exit [where i = 0]]) (simp_all add: demo_run)
  then have "reaches dead_host (backend_init 1 ()) (demo_state False 0 [] True [] True WExit FExit CIdle SDone [demo_request] [demo_request])"
    by (rule reach_steps(4) [OF _ sstep.s_clear [where fds = "[]"]]) (simp_all add: demo_run)
  then show ?thesis by (auto simp: demo_state_def)
qed

text \<open>The worker, started, waits; client 0 queues its request.\<close>

lemma demo_waiting:
  "reaches dead_host (backend_init 1 ()) (demo_state True 1 [demo_request] False [] False WWait FIdle CIdle SIdle [demo_request] [])"
proof -
  have "reaches dead_host (backend_init 1 ()) (demo_state True 0 [] False [] False (WSwap WCheck) FIdle CIdle SIdle [] [])"
    by (simp add: demo_state_def backend_init_def worker_count_def fun_upd_idem)
  then have "reaches dead_host (backend_init 1 ()) (demo_state True 0 [] False [] False (WComplete [] WCheck) FIdle CIdle SIdle [] [])"
    by (rule reach_steps(1) [OF _ wstep.w_swap]) (simp_all add: demo_run)
  then have "reaches dead_host (backend_init 1 ()) (demo_state True 0 [] False [] False WCheck FIdle CIdle SIdle [] [])"
    by (rule reach_steps(1) [OF _ wstep.w_completed]) (simp_all add: demo_run)
  then have "reaches dead_host (backend_init 1 ()) (demo_state True 0 [] False [] False WWait FIdle CIdle SIdle [] [])"
    by (rule reach_steps(1) [OF _ wstep.w_stay]) (simp_all add: demo_run)
  then have "reaches dead_host (backend_init 1 ()) (demo_state True 0 [] False [] False WWait FIdle (CChecked demo_request) SIdle [] [])"
    by (rule reach_steps(3) [OF _ cstep.c_check [where c = 0 and req = demo_request]]) (simp_all add: demo_run)
  then have "reaches dead_host (backend_init 1 ()) (demo_state True 1 [] False [] False WWait FIdle (CAdded demo_request) SIdle [] [])"
    by (rule reach_steps(3) [OF _ cstep.c_add [where c = 0 and req = demo_request]]) (simp_all add: demo_run)
  then show ?thesis
    by (rule reach_steps(3) [OF _ cstep.c_queue [where c = 0 and req = demo_request]]) (simp_all add: demo_run)
qed

text \<open>The request is carried out while the worker waits, and the worker signals it.\<close>

lemma demo_carried_out:
  "reaches dead_host (backend_init 1 ()) (demo_state True 1 [] False [demo_completion] True WWait FIdle CIdle SIdle [demo_request] [])"
proof -
  have "reaches dead_host (backend_init 1 ()) (demo_state True 1 [] False [] False WWait (FHold demo_request) CIdle SIdle [demo_request] [])"
    by (rule reach_steps(2) [OF demo_waiting fstep.f_take [where i = 0]]) (simp_all add: demo_run)
  then have "reaches dead_host (backend_init 1 ()) (demo_state True 1 [] False [] False WWait (FPush demo_completion) CIdle SIdle [demo_request] [])"
    by (rule reach_steps(2) [OF _ fstep.f_process [where i = 0, OF _ _ demo_request_fails]]) (simp_all add: demo_run)
  then have "reaches dead_host (backend_init 1 ()) (demo_state True 1 [] False [demo_completion] False WWait FNotify CIdle SIdle [demo_request] [])"
    by (rule reach_steps(2) [OF _ fstep.f_push [where i = 0]]) (simp_all add: demo_run)
  then show ?thesis
    by (rule reach_steps(2) [OF _ fstep.f_notify [where i = 0]]) (simp_all add: demo_run)
qed

definition demo_answered :: "unit EState" where
  "demo_answered = completeRequest demo_completion (demo_state True 1 [] False [] True (WComplete [] WCheck) FIdle CIdle SIdle [demo_request] [])"

lemma demo_answered_reach: "reaches dead_host (backend_init 1 ()) demo_answered"
proof -
  have "reaches dead_host (backend_init 1 ()) (demo_state True 1 [] False [demo_completion] True (WSwap WCheck) FIdle CIdle SIdle [demo_request] [])"
    by (rule reach_steps(1) [OF demo_carried_out wstep.w_nothing]) (simp_all add: demo_run)
  then have "reaches dead_host (backend_init 1 ()) (demo_state True 1 [] False [] True (WComplete [demo_completion] WCheck) FIdle CIdle SIdle [demo_request] [])"
    by (rule reach_steps(1) [OF _ wstep.w_swap]) (simp_all add: demo_run)
  then show ?thesis
    by (rule reach_steps(1) [OF _ wstep.w_complete [where c = demo_completion and cs = "[]" and n = WCheck]]) (simp_all add: demo_answered_def demo_state_def)
qed

theorem async_requests_answered_witness:
  "reaches dead_host (backend_init 1 ()) demo_answered \<and> outstanding demo_answered = 0 \<and> mPending demo_answered = 0 \<and>
   stopper demo_answered = SIdle \<and> size (mset (map creq (signals demo_answered))) = size (mset (accepted demo_answered))"
proof -
  have s: "stopper demo_answered = SIdle" "outstanding demo_answered = 0" "accepted demo_answered = [demo_request]"
      "map creq (signals demo_answered) = [demo_request]"
    by (simp_all add: demo_answered_def completeRequest_def outstanding_def demo_state_def queued_def busy_def demo_completion_def)
  then show ?thesis
    using async_requests_answered [OF demo_answered_reach] demo_answered_reach by auto
qed

theorem async_no_lost_wakeup_witness:
  "\<exists>s. reaches dead_host (backend_init 1 ()) s \<and> worker s = WWait \<and> mCompletions s = [demo_completion] \<and>
     (eventFd s \<or> FNotify \<in> set (fileWorkers s))"
proof -
  let ?s = "demo_state True 1 [] False [demo_completion] True WWait FIdle CIdle SIdle [demo_request] []"
  have "\<forall>fdv k. fst (op_epoll_ctl dead_host fdv k)" "worker ?s = WWait" by (simp_all add: dead_host_def demo_state_def)
  note w = async_no_lost_wakeup [OF demo_carried_out this]
  have c: "mCompletions ?s = [demo_completion]" "worker ?s = WWait" by (simp_all add: demo_state_def)
  show ?thesis by (intro exI [of _ ?s] conjI demo_carried_out c) (use conjunct1 [OF w] c(1) in simp)
qed

section \<open>Pipes stay blocking\<close>

text \<open>
  \<^verbatim>\<open>ensureNonBlocking\<close> passes the new flags as the command: with a host on which only \<^verbatim>\<open>F_SETFL\<close> changes the flags of a
  descriptor, a blocking pipe stays blocking. A second request on a pipe with data for only one then blocks the worker.
\<close>

theorem ensureNonBlocking_ineffective:
  assumes "\<forall>fdv cmd arg k. cmd \<noteq> F_SETFL \<longrightarrow> flags_of fdv (snd (op_fcntl ops fdv cmd arg k)) = flags_of fdv k"
  shows "flags_of (sfd st) (snd (ensureNonBlocking ops st k)) = flags_of (sfd st) k"
proof -
  have "(flags OR O_NONBLOCK) \<noteq> F_SETFL" for flags :: int
  proof
    assume "flags OR O_NONBLOCK = F_SETFL"
    then have "bit (flags OR O_NONBLOCK) 11 = bit (4 :: int) 11" by simp
    then show False by (simp add: bit_or_iff)
  qed
  with assms show ?thesis by (simp add: ensureNonBlocking_def Let_def case_prod_unfold)
qed

end
