(* ===== verification/File_Api.thy ===== *)
theory File_Api
  imports Sync_Objects Async_Io
begin

text \<open>
  Files through handles (\<^verbatim>\<open>src/dll/kernel32/fileapi.cpp\<close> and \<^verbatim>\<open>overlapped_util.h\<close>): reading, writing, the file pointer, the
  size of a file, and the events that overlapped transfers set. The state is that of the handle table and the
  synchronisation objects with the file objects and the host. Access masks are not tested: the sources compile the tests
  only with \<^verbatim>\<open>CHECK_ACCESS\<close>, which no build sets.
\<close>

section \<open>State\<close>

text \<open>\<open>submitted\<close> lists the requests handed to the asynchronous backend.\<close>

record 'h FWorld = SyncState +
  fileObjs :: "objptr \<Rightarrow> FileObject"
  fhost :: 'h
  submitted :: "AsyncRequest list"

record OVERLAPPED =
  ov_address :: nat
  Internal :: u32
  InternalHigh :: nat
  Offset :: u32
  OffsetHigh :: u32
  hEvent :: HANDLE

abbreviation (input) INVALID_SET_FILE_POINTER :: u32 where "INVALID_SET_FILE_POINTER \<equiv> 0xFFFFFFFF"
abbreviation (input) INVALID_FILE_SIZE :: u32 where "INVALID_FILE_SIZE \<equiv> 0xFFFFFFFF"
abbreviation (input) FILE_BEGIN :: u32 where "FILE_BEGIN \<equiv> 0"
abbreviation (input) FILE_CURRENT :: u32 where "FILE_CURRENT \<equiv> 1"
abbreviation (input) FILE_END :: u32 where "FILE_END \<equiv> 2"

text \<open>\<^verbatim>\<open>getAs<FileObject>\<close>, which tests a flag of the object; on a mismatch the pin is dropped.\<close>

definition getFile :: "HANDLE \<Rightarrow> 'a SyncState_scheme \<Rightarrow> objptr option \<times> 'a SyncState_scheme" where
  "getFile h s =
     (case get h s of
        (None, s1) \<Rightarrow> (None, s1)
      | (Some (p, m), s1) \<Rightarrow>
          if (case objects s1 p of Some ob \<Rightarrow> oflags ob AND Of_File \<noteq> 0 | None \<Rightarrow> False) then (Some p, s1)
          else (None, unpin p s1))"

definition setFile :: "objptr \<Rightarrow> FileObject \<Rightarrow> ('h, 'a) FWorld_scheme \<Rightarrow> ('h, 'a) FWorld_scheme" where
  "setFile p f s = s\<lparr>fileObjs := (fileObjs s)(p := f)\<rparr>"

section \<open>Overlapped transfers\<close>

definition normalizedOverlappedEventHandle :: "OVERLAPPED option \<Rightarrow> HANDLE" where
  "normalizedOverlappedEventHandle ov =
     (case ov of None \<Rightarrow> NO_HANDLE | Some v \<Rightarrow> if hEvent v AND 1 \<noteq> 0 then NO_HANDLE else hEvent v)"

text \<open>\<^verbatim>\<open>EventObject::set\<close> and \<^verbatim>\<open>reset\<close> on the event of a handle, if it is one.\<close>

definition setEventOf :: "HANDLE \<Rightarrow> 'a SyncState_scheme \<Rightarrow> 'a SyncState_scheme" where
  "setEventOf h s =
     (if h = NO_HANDLE then s
      else case getAs Event h s of
        (None, s1) \<Rightarrow> s1
      | (Some (p, m), s1) \<Rightarrow> unpin p (notifyWaiters p False (upd_sync p ((syncs s1 p)\<lparr>signaled := True\<rparr>) s1)))"

definition resetEventOf :: "HANDLE \<Rightarrow> 'a SyncState_scheme \<Rightarrow> 'a SyncState_scheme" where
  "resetEventOf h s =
     (if h = NO_HANDLE then s
      else case getAs Event h s of
        (None, s1) \<Rightarrow> s1
      | (Some (p, m), s1) \<Rightarrow> unpin p (upd_sync p ((syncs s1 p)\<lparr>signaled := False\<rparr>) s1))"

definition signalOverlappedEvent ::
  "OVERLAPPED option \<Rightarrow> u32 \<Rightarrow> nat \<Rightarrow> 'a SyncState_scheme \<Rightarrow> OVERLAPPED option \<times> 'a SyncState_scheme" where
  "signalOverlappedEvent ov status n s =
     (map_option (\<lambda>v. v\<lparr>Internal := status, InternalHigh := n\<rparr>) ov, setEventOf (normalizedOverlappedEventHandle ov) s)"

definition overlapped_offset :: "OVERLAPPED \<Rightarrow> int" where
  "overlapped_offset ov = sint (ucast (Offset ov) OR push_bit 32 (ucast (OffsetHigh ov)) :: u64)"

section \<open>Reading and writing\<close>

text \<open>
  What a call hands back besides the state: the return value, the bytes stored in the buffer, the value stored at
  \<^verbatim>\<open>lpNumberOfBytesRead\<close> or \<^verbatim>\<open>lpNumberOfBytesWritten\<close> (\<open>None\<close>: nothing is stored), and the \<^verbatim>\<open>OVERLAPPED\<close>.
\<close>

record IoCall =
  ret :: bool
  stored :: "u8 list"
  nbytes :: "u32 option"
  ovOut :: "OVERLAPPED option"

definition no_io :: "OVERLAPPED option \<Rightarrow> IoCall" where
  "no_io ov = \<lparr>ret = False, stored = [], nbytes = None, ovOut = ov\<rparr>"

text \<open>\<open>backend\<close> is whether the asynchronous backend takes a request.\<close>

definition WriteFile ::
  "'h HostOps \<Rightarrow> (AsyncRequest \<Rightarrow> bool) \<Rightarrow> HANDLE \<Rightarrow> u8 list \<Rightarrow> bool \<Rightarrow> OVERLAPPED option \<Rightarrow> ('h, 'a) FWorld_scheme
    \<Rightarrow> (IoCall \<times> ('h, 'a) FWorld_scheme) option" where
  "WriteFile ops backend hFile buffer hasCount ov s =
     (case getFile hFile s of
        (None, s1) \<Rightarrow> Some (no_io ov, setLastError ERROR_INVALID_HANDLE s1)
      | (Some p, s1) \<Rightarrow>
          let f = fileObjs s1 p;
              zero = (if hasCount \<and> (\<not> overlapped f \<or> ov = None) then Some 0 else None);
              offset = map_option overlapped_offset ov;
              ov1 = map_option (\<lambda>v. v\<lparr>Internal := STATUS_PENDING, InternalHigh := 0\<rparr>) ov;
              update = (ov = None \<or> \<not> overlapped f);
              s2 = (if ov = None then s1 else resetEventOf (normalizedOverlappedEventHandle ov1) s1);
              req = queueWrite (Some f) (case ov of Some v \<Rightarrow> ov_address v | None \<Rightarrow> 0) buffer offset (isPipe f)
          in
          if \<not> valid_file f then Some (no_io ov, unpin p (setLastError ERROR_INVALID_HANDLE s1))
          else if ov = None \<and> \<not> hasCount then Some (no_io ov, unpin p (setLastError ERROR_INVALID_PARAMETER s1))
          else if overlapped f \<and> ov = None then Some ((no_io ov)\<lparr>nbytes := zero\<rparr>, unpin p (setLastError ERROR_INVALID_PARAMETER s1))
          else if overlapped f \<and> ov \<noteq> None \<and> buffer = [] then
            (let (ov2, s3) = signalOverlappedEvent ov1 STATUS_SUCCESS 0 s2 in
             Some (\<lparr>ret = True, stored = [], nbytes = (if hasCount then Some 0 else None), ovOut = ov2\<rparr>, unpin p s3))
          else if overlapped f \<and> ov \<noteq> None \<and> backend req then
            Some (\<lparr>ret = False, stored = [], nbytes = (if hasCount then Some 0 else None), ovOut = ov1\<rparr>,
                  unpin p (setLastError ERROR_IO_PENDING (s2\<lparr>submitted := submitted s2 @ [req]\<rparr>)))
          else
            case files_write (op_pwrite ops) (op_swrite ops) (op_lseek ops) (Some f) buffer offset update (fhost s2) of
              None \<Rightarrow> None
            | Some (io, fo, h') \<Rightarrow>
                let s3 = setFile p (case fo of Some f' \<Rightarrow> f' | None \<Rightarrow> f) (s2\<lparr>fhost := h'\<rparr>);
                    status = (if unixError io \<noteq> ESUCCESS then statusFromErrno (unixError io)
                              else if reachedEnd io \<and> bytesTransferred io = 0 then STATUS_END_OF_FILE else STATUS_SUCCESS);
                    s4 = (if unixError io \<noteq> ESUCCESS then setLastError (winErrorFromErrno (unixError io)) s3 else s3);
                    (ov2, s5) = signalOverlappedEvent ov1 status (bytesTransferred io) s4
                in Some (\<lparr>ret = (unixError io = ESUCCESS), stored = [],
                          nbytes = (if hasCount \<and> (\<not> overlapped f \<or> ov = None) then Some (of_nat (bytesTransferred io)) else None),
                          ovOut = ov2\<rparr>, unpin p s5))"

definition ReadFile ::
  "'h HostOps \<Rightarrow> (AsyncRequest \<Rightarrow> bool) \<Rightarrow> HANDLE \<Rightarrow> nat \<Rightarrow> bool \<Rightarrow> OVERLAPPED option \<Rightarrow> ('h, 'a) FWorld_scheme
    \<Rightarrow> (IoCall \<times> ('h, 'a) FWorld_scheme) option" where
  "ReadFile ops backend hFile n hasCount ov s =
     (case getFile hFile s of
        (None, s1) \<Rightarrow> Some (no_io ov, setLastError ERROR_INVALID_HANDLE s1)
      | (Some p, s1) \<Rightarrow>
          let f = fileObjs s1 p;
              zero = (if hasCount \<and> (\<not> overlapped f \<or> ov = None) then Some 0 else None);
              offset = map_option overlapped_offset ov;
              ov1 = map_option (\<lambda>v. v\<lparr>Internal := STATUS_PENDING, InternalHigh := 0\<rparr>) ov;
              update = (ov = None \<or> \<not> overlapped f);
              s2 = (if ov = None then s1 else resetEventOf (normalizedOverlappedEventHandle ov1) s1);
              req = queueRead (Some f) (case ov of Some v \<Rightarrow> ov_address v | None \<Rightarrow> 0) n offset (isPipe f)
          in
          if \<not> valid_file f then Some (no_io ov, unpin p (setLastError ERROR_INVALID_HANDLE s1))
          else if ov = None \<and> \<not> hasCount then Some (no_io ov, unpin p (setLastError ERROR_INVALID_PARAMETER s1))
          else if overlapped f \<and> ov = None then Some ((no_io ov)\<lparr>nbytes := zero\<rparr>, unpin p (setLastError ERROR_INVALID_PARAMETER s1))
          else if overlapped f \<and> ov \<noteq> None \<and> n = 0 then
            (let (ov2, s3) = signalOverlappedEvent ov1 STATUS_SUCCESS 0 s2 in
             Some (\<lparr>ret = True, stored = [], nbytes = (if hasCount then Some 0 else None), ovOut = ov2\<rparr>, unpin p s3))
          else if overlapped f \<and> ov \<noteq> None \<and> backend req then
            Some (\<lparr>ret = False, stored = [], nbytes = (if hasCount then Some 0 else None), ovOut = ov1\<rparr>,
                  unpin p (setLastError ERROR_IO_PENDING (s2\<lparr>submitted := submitted s2 @ [req]\<rparr>)))
          else
            case files_read (op_pread ops) (op_sread ops) (Some f) n offset update (fhost s2) of
              None \<Rightarrow> None
            | Some (io, bs, fo, h') \<Rightarrow>
                let s3 = setFile p (case fo of Some f' \<Rightarrow> f' | None \<Rightarrow> f) (s2\<lparr>fhost := h'\<rparr>);
                    eof = (unixError io = ESUCCESS \<and> reachedEnd io \<and> bytesTransferred io = 0);
                    status = (if unixError io \<noteq> ESUCCESS then statusFromErrno (unixError io)
                              else if eof then if isPipe f then STATUS_PIPE_BROKEN else STATUS_END_OF_FILE else STATUS_SUCCESS);
                    s4 = (if unixError io \<noteq> ESUCCESS then setLastError (winErrorFromErrno (unixError io)) s3
                          else if eof \<and> isPipe f then setLastError ERROR_BROKEN_PIPE s3 else s3);
                    (ov2, s5) = signalOverlappedEvent ov1 status (bytesTransferred io) s4
                in Some (\<lparr>ret = (unixError io = ESUCCESS \<and> \<not> (eof \<and> isPipe f)), stored = bs,
                          nbytes = (if eof \<and> isPipe f then zero
                                   else if hasCount \<and> (\<not> overlapped f \<or> ov = None) then Some (of_nat (bytesTransferred io)) else None),
                          ovOut = ov2\<rparr>, unpin p s5))"

section \<open>The file pointer\<close>

text \<open>
  \<^verbatim>\<open>SetFilePointer\<close>: the return value and what is stored at \<^verbatim>\<open>lpDistanceToMoveHigh\<close> when it is given. \<open>errnoNow\<close> is the value
  \<^verbatim>\<open>errno\<close> has at the call, \<open>endPos\<close> the answer of \<^verbatim>\<open>lseek\<close> with \<^verbatim>\<open>SEEK_END\<close>.
\<close>

definition new_position :: "int rc \<Rightarrow> FileObject \<Rightarrow> int \<Rightarrow> u32 \<Rightarrow> int" where
  "new_position endPos f distance method =
     (if method = FILE_BEGIN then distance
      else if method = FILE_CURRENT then filePos f + distance
      else if method = FILE_END then (case endPos of Moved pos \<Rightarrow> pos | Failed e \<Rightarrow> -1)
      else 0)"

definition seek_error :: "int rc \<Rightarrow> errno \<Rightarrow> u32 \<Rightarrow> u32" where
  "seek_error endPos errnoNow method =
     (if (case endPos of Failed e \<Rightarrow> if method = FILE_END then e else errnoNow | Moved pos \<Rightarrow> errnoNow) = EINVAL
      then ERROR_NEGATIVE_SEEK else ERROR_INVALID_PARAMETER)"

definition SetFilePointer ::
  "(int \<Rightarrow> int \<Rightarrow> 'h \<Rightarrow> int rc) \<Rightarrow> errno \<Rightarrow> HANDLE \<Rightarrow> 32 word \<Rightarrow> bool \<Rightarrow> u32 \<Rightarrow> ('h, 'a) FWorld_scheme
    \<Rightarrow> (u32 \<times> u32 option) \<times> ('h, 'a) FWorld_scheme" where
  "SetFilePointer seekEnd errnoNow hFile lDistanceToMove hasHigh method s =
     (if hFile = NO_HANDLE then ((INVALID_SET_FILE_POINTER, None), setLastError ERROR_INVALID_HANDLE s)
      else case getFile hFile s of
        (None, s1) \<Rightarrow> ((INVALID_SET_FILE_POINTER, None), setLastError ERROR_INVALID_HANDLE s1)
      | (Some p, s1) \<Rightarrow>
          let f = fileObjs s1 p;
              endPos = seekEnd (fd f) (sint lDistanceToMove) (fhost s1);
              position = new_position endPos f (sint lDistanceToMove) method
          in if position < 0 then ((INVALID_SET_FILE_POINTER, None), unpin p (setLastError (seek_error endPos errnoNow method) s1))
             else ((of_int position, if hasHigh then Some (ucast (drop_bit 32 (of_int position :: u64))) else None),
                   unpin p (setFile p (f\<lparr>filePos := position\<rparr>) s1)))"

text \<open>\<^verbatim>\<open>SetFilePointerEx\<close>: the \<^verbatim>\<open>BOOL\<close> returned, as the number it is, and the new position when one is stored.\<close>

definition SetFilePointerEx ::
  "(int \<Rightarrow> int \<Rightarrow> 'h \<Rightarrow> int rc) \<Rightarrow> errno \<Rightarrow> HANDLE \<Rightarrow> 64 word \<Rightarrow> bool \<Rightarrow> u32 \<Rightarrow> ('h, 'a) FWorld_scheme
    \<Rightarrow> (u32 \<times> int option) \<times> ('h, 'a) FWorld_scheme" where
  "SetFilePointerEx seekEnd errnoNow hFile distance hasNew method s =
     (if hFile = NO_HANDLE then ((0, None), setLastError ERROR_INVALID_HANDLE s)
      else case getFile hFile s of
        (None, s1) \<Rightarrow> ((0, None), setLastError ERROR_INVALID_HANDLE s1)
      | (Some p, s1) \<Rightarrow>
          let f = fileObjs s1 p;
              endPos = seekEnd (fd f) (sint distance) (fhost s1);
              position = new_position endPos f (sint distance) method
          in if position < 0 then ((INVALID_SET_FILE_POINTER, None), unpin p (setLastError (seek_error endPos errnoNow method) s1))
             else ((1, if hasNew then Some position else None), unpin p (setFile p (f\<lparr>filePos := position\<rparr>) s1)))"

text \<open>\<^verbatim>\<open>SetEndOfFile\<close>, with the host's \<^verbatim>\<open>ftruncate\<close>: \<open>ESUCCESS\<close> or the error.\<close>

definition SetEndOfFile ::
  "(int \<Rightarrow> int \<Rightarrow> 'h \<Rightarrow> errno \<times> 'h) \<Rightarrow> errno \<Rightarrow> HANDLE \<Rightarrow> ('h, 'a) FWorld_scheme \<Rightarrow> bool \<times> ('h, 'a) FWorld_scheme" where
  "SetEndOfFile ftruncate errnoNow hFile s =
     (case getFile hFile s of
        (None, s1) \<Rightarrow> (False, setLastError ERROR_INVALID_HANDLE s1)
      | (Some p, s1) \<Rightarrow>
          let f = fileObjs s1 p in
          if filePos f < 0 then (False, unpin p (setLastError (winErrorFromErrno errnoNow) s1))
          else let (e, h') = ftruncate (fd f) (filePos f) (fhost s1); s2 = s1\<lparr>fhost := h'\<rparr> in
            if e \<noteq> ESUCCESS then (False, unpin p (setLastError (winErrorFromErrno e) s2)) else (True, unpin p s2))"

text \<open>\<^verbatim>\<open>GetFileSize\<close>: the low part, and what is stored at \<^verbatim>\<open>lpFileSizeHigh\<close>. A failing \<^verbatim>\<open>lseek\<close> leaves the last error alone.\<close>

definition GetFileSize ::
  "(int \<Rightarrow> int \<Rightarrow> 'h \<Rightarrow> int rc) \<Rightarrow> HANDLE \<Rightarrow> bool \<Rightarrow> ('h, 'a) FWorld_scheme \<Rightarrow> (u32 \<times> u32 option) \<times> ('h, 'a) FWorld_scheme" where
  "GetFileSize seekEnd hFile hasHigh s =
     (case getFile hFile s of
        (None, s1) \<Rightarrow> ((INVALID_FILE_SIZE, None), setLastError ERROR_INVALID_HANDLE s1)
      | (Some p, s1) \<Rightarrow>
          let f = fileObjs s1 p in
          if \<not> valid_file f then ((INVALID_FILE_SIZE, None), unpin p (setLastError ERROR_INVALID_HANDLE s1))
          else case seekEnd (fd f) 0 (fhost s1) of
            Failed e \<Rightarrow> ((INVALID_FILE_SIZE, if hasHigh then Some 0 else None), unpin p s1)
          | Moved len \<Rightarrow>
              ((of_int len, if hasHigh then Some (ucast (drop_bit 32 (of_int len :: u64))) else None), unpin p s1))"

definition FlushFileBuffers :: "(int \<Rightarrow> 'h \<Rightarrow> errno \<times> 'h) \<Rightarrow> HANDLE \<Rightarrow> ('h, 'a) FWorld_scheme \<Rightarrow> bool \<times> ('h, 'a) FWorld_scheme" where
  "FlushFileBuffers fsync hFile s =
     (case getFile hFile s of
        (None, s1) \<Rightarrow> (False, setLastError ERROR_INVALID_HANDLE s1)
      | (Some p, s1) \<Rightarrow>
          if \<not> valid_file (fileObjs s1 p) then (False, unpin p (setLastError ERROR_INVALID_HANDLE s1))
          else let (e, h') = fsync (fd (fileObjs s1 p)) (fhost s1); s2 = s1\<lparr>fhost := h'\<rparr> in
            if e \<noteq> ESUCCESS then (False, unpin p (setLastError (winErrorFromErrno e) s2)) else (True, unpin p s2))"

section \<open>The result of an overlapped transfer\<close>

text \<open>
  \<^verbatim>\<open>GetOverlappedResult\<close>: the \<^verbatim>\<open>BOOL\<close> and what is stored at \<^verbatim>\<open>lpNumberOfBytesTransferred\<close>, or \<open>None\<close> while the thread waits. \<open>later\<close> is
  what the structure holds when the wait is over.
\<close>

definition overlapped_outcome ::
  "bool \<Rightarrow> OVERLAPPED \<Rightarrow> 'a SyncState_scheme \<Rightarrow> (bool \<times> u32 option) \<times> 'a SyncState_scheme" where
  "overlapped_outcome hasCount v s =
     (if Internal v = STATUS_PENDING then ((False, None), setLastError ERROR_IO_INCOMPLETE s)
      else let stored_count = (if hasCount then Some (of_nat (InternalHigh v)) else None);
               error = winErrorFromNtStatus (Internal v)
           in if error = ERROR_SUCCESS then ((True, stored_count), s) else ((False, stored_count), setLastError error s))"

definition GetOverlappedResult ::
  "u32 \<Rightarrow> OVERLAPPED \<Rightarrow> HANDLE \<Rightarrow> OVERLAPPED option \<Rightarrow> bool \<Rightarrow> bool \<Rightarrow> 'a SyncState_scheme
    \<Rightarrow> ((bool \<times> u32 option) \<times> 'a SyncState_scheme) option" where
  "GetOverlappedResult self later hFile ov hasCount bWait s =
     (case ov of
        None \<Rightarrow> Some ((False, None), setLastError ERROR_INVALID_PARAMETER s)
      | Some v \<Rightarrow>
          if \<not> (bWait \<and> Internal v = STATUS_PENDING) then Some (overlapped_outcome hasCount v s)
          else if normalizedOverlappedEventHandle ov \<noteq> NO_HANDLE then
            (case WaitForSingleObject self (normalizedOverlappedEventHandle ov) INFINITE False s of
               (None, s1) \<Rightarrow> None
             | (Some r, s1) \<Rightarrow> Some (overlapped_outcome hasCount later s1))
          else case getFile hFile s of
            (None, s1) \<Rightarrow> Some ((False, None), setLastError ERROR_INVALID_HANDLE s1)
          | (Some p, s1) \<Rightarrow>
              if Internal later = STATUS_PENDING then None
              else Some (overlapped_outcome hasCount later (unpin p s1)))"

section \<open>Calls on an open file\<close>

text \<open>The handle denotes the file object \<open>p\<close>, which the table keeps alive.\<close>

definition opens :: "HANDLE \<Rightarrow> objptr \<Rightarrow> 'a SyncState_scheme \<Rightarrow> bool" where
  "opens h p s \<longleftrightarrow> h \<noteq> NO_HANDLE \<and> \<not> isPseudo h \<and> (\<exists>idx e. entry_of (table s) h = Some (idx, e) \<and> obj e = Some p) \<and>
     (\<exists>ob. objects s p = Some ob \<and> oflags ob AND Of_File \<noteq> 0 \<and> pointerCount ob \<noteq> 0)"

lemma getFile_opens:
  assumes "opens h p s"
  shows "getFile h s = (Some p, s\<lparr>objects := ref p (objects s)\<rparr>)"
  using assms by (auto simp: opens_def getFile_def get_def ref_def)

text \<open>The pin a call takes leaves no trace when it is dropped.\<close>

lemma deref_ref:
  assumes "objects s p = Some ob" "pointerCount ob \<noteq> 0"
  shows "deref p (ref p (objects s)) = objects s"
proof -
  have "pointerCount ob + 1 \<noteq> 1" using assms(2) by (metis add_0 add_right_cancel)
  then show ?thesis using assms by (simp add: deref_def ref_def fun_upd_idem)
qed

lemma opens_pin: "opens h p s \<Longrightarrow> deref p (ref p (objects s)) = objects s"
  using deref_ref by (auto simp: opens_def)

lemma opens_cong: "objects s' = objects s \<Longrightarrow> table s' = table s \<Longrightarrow> opens h p s \<Longrightarrow> opens h p s'"
  by (simp add: opens_def)

lemma no_overlapped [simp]:
  "normalizedOverlappedEventHandle None = NO_HANDLE" "setEventOf NO_HANDLE s = s" "resetEventOf NO_HANDLE s = s"
  "signalOverlappedEvent None st n s = (None, s)"
  by (simp_all add: normalizedOverlappedEventHandle_def setEventOf_def resetEventOf_def signalOverlappedEvent_def)

lemma ReadFile_sync:
  assumes opn: "opens h p s" and f: "f = fileObjs s p" "valid_file f" "\<not> isPipe f" "\<not> overlapped f" "0 \<le> filePos f"
    and n: "0 < n" and host: "serves_reads (op_pread ops) contents delays (fd f)"
  shows "\<exists>h'. ReadFile ops backend h n True None s =
      (let got = take n (drop (nat (filePos f)) (contents (fhost s))) in
       Some (\<lparr>ret = True, stored = got, nbytes = Some (of_nat (length got)), ovOut = None\<rparr>,
             setFile p (f\<lparr>filePos := filePos f + int (length got)\<rparr>) (s\<lparr>fhost := h'\<rparr>))) \<and> contents h' = contents (fhost s)"
proof -
  have "0 \<le> start_of f None" using f(5) by (simp add: start_of_def)
  from files_read_regular [OF host f(2,3) n this, of "op_sread ops" True "fhost s"]
  obtain h' where r: "files_read (op_pread ops) (op_sread ops) (Some f) n None True (fhost s) =
      (let got = take n (drop (nat (filePos f)) (contents (fhost s))) in
       Some (\<lparr>bytesTransferred = length got, unixError = ESUCCESS, reachedEnd = length got < n\<rparr>, got,
             Some (f\<lparr>filePos := filePos f + int (length got)\<rparr>), h'))" "contents h' = contents (fhost s)"
    by (auto simp: start_of_def)
  have "ReadFile ops backend h n True None s =
      (let got = take n (drop (nat (filePos f)) (contents (fhost s))) in
       Some (\<lparr>ret = True, stored = got, nbytes = Some (of_nat (length got)), ovOut = None\<rparr>,
             setFile p (f\<lparr>filePos := filePos f + int (length got)\<rparr>) (s\<lparr>fhost := h'\<rparr>)))"
    using f r(1) opens_pin [OF opn]
    by (simp add: ReadFile_def getFile_opens [OF opn] Let_def setFile_def unpin_def)
  then show ?thesis using r(2) by blast
qed

lemma WriteFile_sync:
  assumes opn: "opens h p s" and f: "f = fileObjs s p" "valid_file f" "\<not> isPipe f" "\<not> overlapped f" "\<not> appendOnly f" "0 \<le> filePos f"
    and bs: "bs \<noteq> []" and host: "serves_reads (op_pread ops) contents rdelays (fd f)" "serves_writes (op_pwrite ops) contents wdelays (fd f)"
  shows "\<exists>h'. WriteFile ops backend h bs True None s =
       Some (\<lparr>ret = True, stored = [], nbytes = Some (of_nat (length bs)), ovOut = None\<rparr>,
             setFile p (f\<lparr>filePos := filePos f + int (length bs)\<rparr>) (s\<lparr>fhost := h'\<rparr>)) \<and>
       contents h' = overlay (nat (filePos f)) bs (contents (fhost s))"
proof -
  have "0 \<le> start_of f None" using f(6) by (simp add: start_of_def)
  from files_write_regular [OF host f(2,3,5) bs this, of "op_swrite ops" "op_lseek ops" True "fhost s" "op_sread ops"]
  obtain h' where r: "files_write (op_pwrite ops) (op_swrite ops) (op_lseek ops) (Some f) bs None True (fhost s) =
       Some (\<lparr>bytesTransferred = length bs, unixError = ESUCCESS, reachedEnd = False\<rparr>,
             Some (f\<lparr>filePos := filePos f + int (length bs)\<rparr>), h')" "contents h' = overlay (nat (filePos f)) bs (contents (fhost s))"
    by (auto simp: start_of_def)
  have "WriteFile ops backend h bs True None s =
       Some (\<lparr>ret = True, stored = [], nbytes = Some (of_nat (length bs)), ovOut = None\<rparr>,
             setFile p (f\<lparr>filePos := filePos f + int (length bs)\<rparr>) (s\<lparr>fhost := h'\<rparr>))"
    using f r(1) opens_pin [OF opn]
    by (simp add: WriteFile_def getFile_opens [OF opn] Let_def setFile_def unpin_def)
  then show ?thesis using r(2) by blast
qed

lemma SetFilePointer_current:
  assumes opn: "opens h p s" and pos: "0 \<le> filePos (fileObjs s p) + sint d"
  shows "SetFilePointer seekEnd e h d False FILE_CURRENT s =
     ((of_int (filePos (fileObjs s p) + sint d), None), setFile p ((fileObjs s p)\<lparr>filePos := filePos (fileObjs s p) + sint d\<rparr>) s)"
proof -
  have "h \<noteq> NO_HANDLE" using opn by (simp add: opens_def)
  then show ?thesis
    using pos opens_pin [OF opn] by (simp add: SetFilePointer_def getFile_opens [OF opn] new_position_def Let_def setFile_def unpin_def)
qed

lemma sint_minus: "n < 2 ^ 31 \<Longrightarrow> sint (- of_nat n :: 32 word) = - int n"
proof -
  assume "n < 2 ^ 31"
  then have n: "int n < 2 ^ 31" by simp
  have "sint (- of_nat n :: 32 word) = sint (of_int (- int n) :: 32 word)" by simp
  also have "\<dots> = signed_take_bit 31 (- int n)" by (subst signed_of_int) simp
  also have "\<dots> = - int n" using n by (intro signed_take_bit_int_eq_self) simp_all
  finally show ?thesis .
qed

text \<open>
  C25: a session on a file. On an open, regular, synchronous file: writing bytes succeeds and counts all of them,
  moving the file pointer back over them gives the old position, and reading then stores the same bytes and leaves the
  file pointer behind them; no other file object changes, and the file is what it was with these bytes at the old
  position.
\<close>

theorem file_session_roundtrip:
  assumes "opens h p s" "f = fileObjs s p" "valid_file f" "\<not> isPipe f" "\<not> overlapped f" "\<not> appendOnly f" "0 \<le> filePos f"
    and "bs \<noteq> []" "length bs < 2 ^ 31"
    and "serves_reads (op_pread ops) contents rdelays (fd f)" "serves_writes (op_pwrite ops) contents wdelays (fd f)"
  shows "\<exists>w s1 r s3. WriteFile ops backend h bs True None s = Some (w, s1) \<and> ret w \<and> nbytes w = Some (of_nat (length bs)) \<and>
           fst (SetFilePointer seekEnd e h (- of_nat (length bs)) False FILE_CURRENT s1) = (of_int (filePos f), None) \<and>
           ReadFile ops backend h (length bs) True None (snd (SetFilePointer seekEnd e h (- of_nat (length bs)) False FILE_CURRENT s1))
             = Some (r, s3) \<and> ret r \<and> stored r = bs \<and> nbytes r = Some (of_nat (length bs)) \<and>
           fileObjs s3 = (fileObjs s)(p := f\<lparr>filePos := filePos f + int (length bs)\<rparr>) \<and>
           contents (fhost s3) = overlay (nat (filePos f)) bs (contents (fhost s))"
proof -
  obtain h1 where w: "WriteFile ops backend h bs True None s =
       Some (\<lparr>ret = True, stored = [], nbytes = Some (of_nat (length bs)), ovOut = None\<rparr>,
             setFile p (f\<lparr>filePos := filePos f + int (length bs)\<rparr>) (s\<lparr>fhost := h1\<rparr>))"
    and c1: "contents h1 = overlay (nat (filePos f)) bs (contents (fhost s))"
    using WriteFile_sync [OF assms(1-8,10,11)] by blast
  define s1 where "s1 = setFile p (f\<lparr>filePos := filePos f + int (length bs)\<rparr>) (s\<lparr>fhost := h1\<rparr>)"
  have o1: "opens h p s1" by (rule opens_cong [OF _ _ assms(1)]) (simp_all add: s1_def setFile_def)
  have pos: "filePos (fileObjs s1 p) + sint (- of_nat (length bs) :: 32 word) = filePos f"
    by (simp add: s1_def setFile_def sint_minus [OF assms(9)])
  have "0 \<le> filePos (fileObjs s1 p) + sint (- of_nat (length bs) :: 32 word)" using pos assms(7) by simp
  note seek = SetFilePointer_current [OF o1 this, of seekEnd e, unfolded pos]
  define s2 where "s2 = setFile p ((fileObjs s1 p)\<lparr>filePos := filePos f\<rparr>) s1"
  have o2: "opens h p s2" by (rule opens_cong [OF _ _ o1]) (simp_all add: s2_def setFile_def)
  have f2: "fileObjs s2 p = f" by (simp add: s2_def s1_def setFile_def)
  have f: "f = fileObjs s2 p" using f2 by simp
  have "0 < length bs" using assms(8) by simp
  from ReadFile_sync [OF o2 f assms(3,4,5,7) this assms(10)]
  obtain h3 where r: "ReadFile ops backend h (length bs) True None s2 =
      (let got = take (length bs) (drop (nat (filePos f)) (contents (fhost s2))) in
       Some (\<lparr>ret = True, stored = got, nbytes = Some (of_nat (length got)), ovOut = None\<rparr>,
             setFile p (f\<lparr>filePos := filePos f + int (length got)\<rparr>) (s2\<lparr>fhost := h3\<rparr>)))" "contents h3 = contents (fhost s2)"
    by blast
  have got: "take (length bs) (drop (nat (filePos f)) (contents (fhost s2))) = bs"
    using c1 by (simp add: s2_def s1_def setFile_def read_overlay)
  have fh: "contents (fhost s2) = overlay (nat (filePos f)) bs (contents (fhost s))"
    using c1 by (simp add: s2_def s1_def setFile_def)
  show ?thesis
    using w seek r fh by (simp add: got s1_def [symmetric] s2_def [symmetric]) (simp add: s2_def s1_def setFile_def read_overlay)
qed

section \<open>Overlapped transfers that end at once\<close>

lemma statusFromErrno_final: "statusFromErrno e \<noteq> STATUS_PENDING"
  by (cases e) (simp_all add: statusFromErrno_def statusFromWinError_def)

lemma statusFromErrno_eof: "statusFromErrno e \<noteq> STATUS_END_OF_FILE" "statusFromErrno e \<noteq> STATUS_PIPE_BROKEN"
  by (cases e; simp add: statusFromErrno_def statusFromWinError_def)+

text \<open>
  The two reports of a transfer agree. When \<^verbatim>\<open>ReadFile\<close> with an \<^verbatim>\<open>OVERLAPPED\<close> does not hand the request to the backend, the
  structure is final: \<^verbatim>\<open>GetOverlappedResult\<close> on it never waits, stores the number of bytes of the structure, and fails exactly
  when \<^verbatim>\<open>ReadFile\<close> failed or stood at the end of the file, which \<^verbatim>\<open>ReadFile\<close> itself reports as a success.
\<close>

theorem overlapped_result_agrees:
  assumes "opens h p s" "valid_file (fileObjs s p)" "\<not> backend (queueRead (Some (fileObjs s p)) (ov_address ov) n (Some (overlapped_offset ov)) (isPipe (fileObjs s p)))"
    and "ReadFile ops backend h n hasCount (Some ov) s = Some (r, s1)" "ovOut r = Some ov'"
  shows "GetOverlappedResult self later h (Some ov') True bWait s1 =
           Some (overlapped_outcome True ov' s1) \<and>
         fst (overlapped_outcome True ov' s1) =
           (ret r \<and> Internal ov' \<noteq> STATUS_END_OF_FILE, Some (of_nat (InternalHigh ov'))) \<and>
         (nbytes r = None \<or> nbytes r = Some (of_nat (InternalHigh ov')))"
proof -
  have f: "Internal ov' \<noteq> STATUS_PENDING \<and> (ret r \<longleftrightarrow> Internal ov' = STATUS_SUCCESS \<or> Internal ov' = STATUS_END_OF_FILE) \<and>
      (nbytes r = None \<or> nbytes r = Some (of_nat (InternalHigh ov')))"
    using assms(2-5)
    by (auto simp: ReadFile_def getFile_opens [OF assms(1)] signalOverlappedEvent_def Let_def statusFromErrno_final statusFromErrno_success
        statusFromErrno_eof split: if_splits option.splits)
  then show ?thesis
    by (auto simp: GetOverlappedResult_def overlapped_outcome_def Let_def winErrorFromNtStatus_success)
qed

text \<open>
  \<^verbatim>\<open>SetFilePointerEx\<close> reports a position before the start of the file as a success: it leaves the file pointer and
  returns a number that is not \<^verbatim>\<open>FALSE\<close>.
\<close>

theorem SetFilePointerEx_negative:
  assumes "opens h p s" "filePos (fileObjs s p) + sint d < 0"
  shows "fst (fst (SetFilePointerEx seekEnd e h d hasNew FILE_CURRENT s)) \<noteq> 0 \<and>
         fileObjs (snd (SetFilePointerEx seekEnd e h d hasNew FILE_CURRENT s)) = fileObjs s"
proof -
  have "h \<noteq> NO_HANDLE" using assms(1) by (simp add: opens_def)
  then show ?thesis
    using assms(2) by (simp add: SetFilePointerEx_def getFile_opens [OF assms(1)] new_position_def Let_def unpin_def setLastError_def)
qed

section \<open>An open file\<close>

text \<open>A host that serves one byte at a time, interrupted every other time, and a file opened on it.\<close>

definition slow_ops :: "(u8 list \<times> bool) HostOps" where
  "slow_ops = \<lparr>op_pread = slow_pread, op_sread = (\<lambda>_ _ h. (Failed EIO, h)), op_pwrite = slow_pwrite, op_swrite = (\<lambda>_ _ h. (Failed EIO, h)),
     op_lseek = (\<lambda>_ _. Failed EIO), op_fcntl = (\<lambda>_ _ _ h. (0, h)), op_epoll_ctl = (\<lambda>_ h. (True, h))\<rparr>"

definition open_demo :: "(u8 list \<times> bool) FWorld" where
  "open_demo = snd (alloc 7 0x001F01FF 0
     \<lparr>objects = [7 \<mapsto> \<lparr>otype = File, oflags = Of_File, pointerCount = 1, handleCount = 0\<rparr>], table = empty_table, mTable = [], lastError = 0,
      syncs = syncs sync_start, blocks = blocks sync_start, fileObjs = (\<lambda>_. demo_file), fhost = ([7, 8, 9], True), submitted = []\<rparr>)"

lemma opens_demo: "opens 4 7 open_demo"
  by (simp add: opens_def open_demo_def demo_simps Of_File_def)

theorem file_session_roundtrip_witness:
  "\<exists>w s1. WriteFile slow_ops (\<lambda>_. False) 4 [5, 6] True None open_demo = Some (w, s1) \<and> ret w \<and>
     (\<exists>r s3. ReadFile slow_ops (\<lambda>_. False) 4 2 True None (snd (SetFilePointer (\<lambda>_ _ _. Failed EIO) ESUCCESS 4 (- 2) False FILE_CURRENT s1))
        = Some (r, s3) \<and> stored r = [5, 6] \<and> fst (fhost s3) = [7, 5, 6])"
proof -
  have f: "valid_file demo_file" "\<not> isPipe demo_file" "\<not> overlapped demo_file" "\<not> appendOnly demo_file" "0 \<le> filePos demo_file"
    "demo_file = fileObjs open_demo 7"
    by (simp_all add: demo_file_def new_FileObject_def valid_file_def open_demo_def alloc_def Let_def case_prod_unfold)
  have bs: "[5, 6 :: u8] \<noteq> []" "length [5, 6 :: u8] < 2 ^ 31" by simp_all
  have h: "serves_reads (op_pread slow_ops) fst slow_delays (fd demo_file)" "serves_writes (op_pwrite slow_ops) fst slow_delays (fd demo_file)"
    by (simp_all add: slow_ops_def slow_host)
  have c: "fst (fhost open_demo) = [7, 8, 9]" "filePos demo_file = 1"
    by (simp_all add: open_demo_def alloc_def Let_def case_prod_unfold demo_file_def new_FileObject_def)
  from file_session_roundtrip [OF opens_demo f(6,1-5) bs h, of "\<lambda>_. False" "\<lambda>_ _ _. Failed EIO" ESUCCESS]
  obtain w s1 r s3 where w: "WriteFile slow_ops (\<lambda>_. False) 4 [5, 6] True None open_demo = Some (w, s1)" "ret w"
    and r: "ReadFile slow_ops (\<lambda>_. False) 4 (length [5, 6 :: u8]) True None
        (snd (SetFilePointer (\<lambda>_ _ _. Failed EIO) ESUCCESS 4 (- of_nat (length [5, 6 :: u8])) False FILE_CURRENT s1)) = Some (r, s3)"
      "stored r = [5, 6]" "fst (fhost s3) = overlay (nat (filePos demo_file)) [5, 6] (fst (fhost open_demo))"
    by blast
  have l: "length [5, 6 :: u8] = 2" by simp
  have o: "overlay (nat (filePos demo_file)) [5, 6] (fst (fhost open_demo)) = [7, 5, 6]" by (simp add: c overlay_def)
  show ?thesis using w r [unfolded l o] by (intro exI conjI) simp_all
qed

text \<open>A read of five bytes at offset 1 of the same file, with no event.\<close>

definition demo_overlapped :: OVERLAPPED where
  "demo_overlapped = \<lparr>ov_address = 64, Internal = 0, InternalHigh = 0, Offset = 1, OffsetHigh = 0, hEvent = NO_HANDLE\<rparr>"

theorem overlapped_result_agrees_witness:
  "\<exists>r s1 ov'. ReadFile slow_ops (\<lambda>_. False) 4 5 True (Some demo_overlapped) open_demo = Some (r, s1) \<and> ret r \<and> ovOut r = Some ov' \<and>
     map_option fst (GetOverlappedResult 1 demo_overlapped 4 (Some ov') True True s1) = Some (True, Some 2)"
proof -
  have f: "fileObjs open_demo 7 = demo_file" "fst (fhost open_demo) = [7, 8, 9]"
    by (simp_all add: open_demo_def alloc_def Let_def case_prod_unfold)
  have v: "valid_file demo_file" "\<not> isPipe demo_file" "\<not> overlapped demo_file" "fd demo_file = 3"
    by (simp_all add: demo_file_def new_FileObject_def valid_file_def)
  have off: "overlapped_offset demo_overlapped = 1" by (simp add: overlapped_offset_def demo_overlapped_def)
  have ev: "normalizedOverlappedEventHandle (Some (demo_overlapped\<lparr>Internal := x, InternalHigh := y\<rparr>)) = NO_HANDLE" for x y
    by (simp add: normalizedOverlappedEventHandle_def demo_overlapped_def NO_HANDLE_def)
  have st: "start_of demo_file (Some 1) = 1" by (simp add: start_of_def)
  then have "0 \<le> start_of demo_file (Some 1)" by simp
  from files_read_regular [OF slow_host(1) v(1,2) _ this, of 5 "\<lambda>_ _ h. (Failed EIO, h)" True "fhost open_demo"]
  obtain k where r: "files_read slow_pread (\<lambda>_ _ h. (Failed EIO, h)) (Some demo_file) 5 (Some 1) True (fhost open_demo) =
      Some (\<lparr>bytesTransferred = 2, unixError = ESUCCESS, reachedEnd = True\<rparr>, [8, 9], Some (demo_file\<lparr>filePos := 3\<rparr>), k)"
    by (auto simp: st f(2) Let_def)
  have "\<exists>r s1. ReadFile slow_ops (\<lambda>_. False) 4 5 True (Some demo_overlapped) open_demo = Some (r, s1) \<and> ret r \<and>
      ovOut r = Some (demo_overlapped\<lparr>Internal := STATUS_SUCCESS, InternalHigh := 2\<rparr>)"
    using v r by (simp add: ReadFile_def getFile_opens [OF opens_demo] f(1) Let_def off ev slow_ops_def signalOverlappedEvent_def)
  then obtain r s1 where x: "ReadFile slow_ops (\<lambda>_. False) 4 5 True (Some demo_overlapped) open_demo = Some (r, s1)" "ret r"
      "ovOut r = Some (demo_overlapped\<lparr>Internal := STATUS_SUCCESS, InternalHigh := 2\<rparr>)" by blast
  have "valid_file (fileObjs open_demo 7)" by (simp add: f(1) v(1))
  from overlapped_result_agrees [OF opens_demo this _ x(1,3), of 1 demo_overlapped True]
  have "map_option fst (GetOverlappedResult 1 demo_overlapped 4
      (Some (demo_overlapped\<lparr>Internal := STATUS_SUCCESS, InternalHigh := 2\<rparr>)) True True s1) = Some (True, Some 2)"
    using x(2) by simp
  with x show ?thesis by blast
qed

end
