(* ===== verification/File_Mappings.thy ===== *)
theory File_Mappings
  imports Memory_Properties File_Api
begin

text \<open>
  Views of files in the guest's memory (\<^verbatim>\<open>src/dll/kernel32/memoryapi.cpp\<close>): mapping objects, the table of views, and the calls
  that create mappings, map, unmap and flush views and query memory, on the handle table and on the tables of the
  virtual memory. Lengths and offsets are natural numbers with the wrap-around of their C types written out. The host's
  calls are parameters; one that maps or unmaps memory is recorded with those of the virtual memory.
\<close>

section \<open>State\<close>

record MappingObject =
  mfd :: int
  maxSize :: nat
  mprotect :: u32
  anonymous :: bool
  mclosed :: bool

record ViewInfo =
  viewBase :: nat
  viewLength :: nat
  vallocationBase :: nat
  vallocationLength :: nat
  owner :: objptr
  vprotect :: u32
  vallocationProtect :: u32
  vwtype :: u32
  managed :: bool

record 'h MapWorld = "'h FWorld" +
  maps :: "objptr \<Rightarrow> MappingObject"
  vm :: VmState
  g_viewInfo :: "(nat \<times> ViewInfo) list"

text \<open>
  The host: duplicating a descriptor, the size of a file, \<^verbatim>\<open>ftruncate\<close>, \<^verbatim>\<open>close\<close>, \<^verbatim>\<open>mmap\<close> (address, length, protection, whether
  shared, whether only on free memory, descriptor, offset), \<^verbatim>\<open>munmap\<close> and \<^verbatim>\<open>msync\<close>.
\<close>

record 'h MapHost =
  mh_dup :: "int \<Rightarrow> 'h \<Rightarrow> int rc \<times> 'h"
  mh_fstat :: "int \<Rightarrow> 'h \<Rightarrow> int rc"
  mh_truncate :: "int \<Rightarrow> nat \<Rightarrow> 'h \<Rightarrow> errno \<times> 'h"
  mh_close :: "int \<Rightarrow> 'h \<Rightarrow> 'h"
  mh_mmap :: "nat \<Rightarrow> nat \<Rightarrow> nat \<Rightarrow> bool \<Rightarrow> bool \<Rightarrow> int \<Rightarrow> int \<Rightarrow> 'h \<Rightarrow> nat rc \<times> 'h"
  mh_munmap :: "nat \<Rightarrow> nat \<Rightarrow> 'h \<Rightarrow> 'h"
  mh_msync :: "nat \<Rightarrow> nat \<Rightarrow> 'h \<Rightarrow> errno \<times> 'h"

definition FILE_MAP_COPY :: u32 where "FILE_MAP_COPY = 0x1"
definition FILE_MAP_WRITE :: u32 where "FILE_MAP_WRITE = 0x2"
definition FILE_MAP_READ :: u32 where "FILE_MAP_READ = 0x4"
definition FILE_MAP_EXECUTE :: u32 where "FILE_MAP_EXECUTE = 0x20"
definition FILE_MAP_ALL_ACCESS :: u32 where "FILE_MAP_ALL_ACCESS = 0xF001F"
definition PAGE_GUARD :: u32 where "PAGE_GUARD = 0x100"
definition PAGE_NOCACHE :: u32 where "PAGE_NOCACHE = 0x200"
definition PAGE_WRITECOMBINE :: u32 where "PAGE_WRITECOMBINE = 0x400"
definition kProcessAddressLimit :: nat where "kProcessAddressLimit = 0x80000000"
definition MAP_FAILED_HANDLE :: HANDLE where "MAP_FAILED_HANDLE = -1"

section \<open>Access\<close>

record FileMapAccess =
  fread :: bool
  fwrite :: bool
  fexecute :: bool
  fcopy :: bool

definition fileMapAccessFromDesiredAccess :: "u32 \<Rightarrow> FileMapAccess" where
  "fileMapAccessFromDesiredAccess desiredAccess =
     (let allAccess = (desiredAccess AND FILE_MAP_ALL_ACCESS = FILE_MAP_ALL_ACCESS);
          copy = (\<not> allAccess \<and> desiredAccess AND FILE_MAP_COPY \<noteq> 0)
      in \<lparr>fread = (allAccess \<or> desiredAccess AND (FILE_MAP_READ OR FILE_MAP_WRITE OR FILE_MAP_COPY) \<noteq> 0),
          fwrite = (allAccess \<or> desiredAccess AND FILE_MAP_WRITE \<noteq> 0 \<or> copy),
          fexecute = (desiredAccess AND FILE_MAP_EXECUTE \<noteq> 0),
          fcopy = copy\<rparr>)"

definition desiredAccessToProtect :: "u32 \<Rightarrow> u32 \<Rightarrow> u32" where
  "desiredAccessToProtect desiredAccess mappingProtect =
     (let a = fileMapAccessFromDesiredAccess desiredAccess;
          supportsWrite = (mappingProtect = PAGE_READWRITE \<or> mappingProtect = PAGE_EXECUTE_READWRITE \<or>
                           mappingProtect = PAGE_WRITECOPY \<or> mappingProtect = PAGE_EXECUTE_WRITECOPY);
          supportsCopy = (mappingProtect = PAGE_WRITECOPY \<or> mappingProtect = PAGE_EXECUTE_WRITECOPY);
          a1 = (if fcopy a \<and> \<not> supportsCopy then a\<lparr>fcopy := False\<rparr> else a);
          a2 = (if fwrite a1 \<and> \<not> supportsWrite
                then if supportsCopy then a1\<lparr>fcopy := True, fwrite := False\<rparr> else a1\<lparr>fwrite := False\<rparr> else a1);
          a3 = (if \<not> fread a2 \<and> (mappingProtect = PAGE_READONLY \<or> mappingProtect = PAGE_EXECUTE_READ \<or>
                                mappingProtect = PAGE_WRITECOPY \<or> mappingProtect = PAGE_EXECUTE_WRITECOPY)
                then a2\<lparr>fread := True\<rparr> else a2);
          p = (if fcopy a3 \<and> supportsCopy then if fexecute a3 then PAGE_EXECUTE_WRITECOPY else PAGE_WRITECOPY
               else if fexecute a3 then
                 if fwrite a3 then PAGE_EXECUTE_READWRITE else if fread a3 then PAGE_EXECUTE_READ else PAGE_EXECUTE
               else if fwrite a3 then PAGE_READWRITE else if fread a3 then PAGE_READONLY else PAGE_NOACCESS);
          p1 = (if mappingProtect AND PAGE_NOCACHE \<noteq> 0 then p OR PAGE_NOCACHE else p);
          p2 = (if mappingProtect AND PAGE_GUARD \<noteq> 0 then p1 OR PAGE_GUARD else p1)
      in if mappingProtect AND PAGE_WRITECOMBINE \<noteq> 0 then p2 OR PAGE_WRITECOMBINE else p2)"

text \<open>The protection a view gets from the host, or \<open>None\<close> when the mapping does not allow the access.\<close>

definition view_prot :: "u32 \<Rightarrow> FileMapAccess \<Rightarrow> nat option" where
  "view_prot mappingProtect a =
     (let ex = (\<lambda>p. if fexecute a then p + PROT_EXEC else p) in
      if mappingProtect = PAGE_READWRITE then Some (ex (if fwrite a \<or> fcopy a then PROT_READ + PROT_WRITE else PROT_READ))
      else if fwrite a \<and> \<not> fcopy a then None
      else Some (ex (if fcopy a then PROT_READ + PROT_WRITE else PROT_READ)))"

section \<open>Creating a mapping\<close>

definition protectAllowsFileGrowth :: "u32 \<Rightarrow> bool" where
  "protectAllowsFileGrowth p \<longleftrightarrow> p = PAGE_READWRITE \<or> p = PAGE_EXECUTE_READWRITE"

definition fileSizeFromFd :: "'h MapHost \<Rightarrow> int \<Rightarrow> 'h \<Rightarrow> u32 + nat" where
  "fileSizeFromFd mh fdv k =
     (case mh_fstat mh fdv k of
        Failed e \<Rightarrow> Inl (winErrorFromErrno e)
      | Moved n \<Rightarrow> if n < 0 then Inl ERROR_INVALID_PARAMETER else Inr (nat n))"

definition fileGrowthErrorFromErrno :: "errno \<Rightarrow> u32" where
  "fileGrowthErrorFromErrno e = (if e = ENOSPC \<or> e = EDQUOT \<or> e = EFBIG then ERROR_DISK_FULL else winErrorFromErrno e)"

definition growFileForMapping :: "'h MapHost \<Rightarrow> int \<Rightarrow> nat \<Rightarrow> 'h \<Rightarrow> u32 option \<times> 'h" where
  "growFileForMapping mh fdv n k =
     (if n > 2 ^ 63 - 1 then (Some ERROR_INVALID_PARAMETER, k)
      else case mh_truncate mh fdv n k of
        (e, k1) \<Rightarrow> if e \<noteq> ESUCCESS then (Some (fileGrowthErrorFromErrno e), k1) else (None, k1))"

text \<open>
  The descriptor and the size of a mapping of a file, or the error; a descriptor that was duplicated is closed again
  when the call fails, because the mapping object goes.
\<close>

definition file_backing :: "'h MapHost \<Rightarrow> int \<Rightarrow> nat \<Rightarrow> u32 \<Rightarrow> 'h \<Rightarrow> (u32 + int \<times> nat) \<times> 'h" where
  "file_backing mh fdv n flProtect k =
     (case mh_dup mh fdv k of
        (Failed e, k1) \<Rightarrow> (Inl (winErrorFromErrno e), k1)
      | (Moved d, k1) \<Rightarrow>
          (case fileSizeFromFd mh d k1 of
             Inl e \<Rightarrow> (Inl e, mh_close mh d k1)
           | Inr fileSize \<Rightarrow>
               if n = 0 \<and> fileSize = 0 then (Inl ERROR_FILE_INVALID, mh_close mh d k1)
               else let n1 = (if n = 0 then fileSize else n);
                        (err, k2) = (if n \<noteq> 0 \<and> n > fileSize \<and> protectAllowsFileGrowth flProtect
                                     then growFileForMapping mh d n k1 else (None, k1))
                    in case err of
                         Some e \<Rightarrow> (Inl e, mh_close mh d k2)
                       | None \<Rightarrow> if n1 > 2 ^ 32 - 1 then (Inl ERROR_INVALID_PARAMETER, mh_close mh d k2)
                                 else (Inr (d, n1), k2)))"

text \<open>\<open>q\<close> is the address of the new object. The size of an anonymous mapping is cut to 32 bits without a test.\<close>

definition CreateFileMappingA ::
  "'h MapHost \<Rightarrow> objptr \<Rightarrow> HANDLE \<Rightarrow> u32 \<Rightarrow> u32 \<Rightarrow> u32 \<Rightarrow> ('h, 'a) MapWorld_scheme \<Rightarrow> HANDLE \<times> ('h, 'a) MapWorld_scheme" where
  "CreateFileMappingA mh q hFile flProtect sizeHigh sizeLow s =
     (let n = unat sizeHigh * 2 ^ 32 + unat sizeLow;
          publish = (\<lambda>m s. alloc q 0 0 (s\<lparr>objects := make_pin q Mapping 0 (objects s), maps := (maps s)(q := m)\<rparr>)) in
      if flProtect \<noteq> PAGE_READONLY \<and> flProtect \<noteq> PAGE_READWRITE \<and> flProtect \<noteq> PAGE_WRITECOPY
      then (NO_HANDLE, setLastError ERROR_INVALID_PARAMETER s)
      else if hFile = MAP_FAILED_HANDLE then
        (if n = 0 then (NO_HANDLE, setLastError ERROR_INVALID_PARAMETER s)
         else publish \<lparr>mfd = -1, maxSize = n mod 2 ^ 32, mprotect = flProtect, anonymous = True, mclosed = False\<rparr> s)
      else case getFile hFile s of
        (None, s1) \<Rightarrow> (NO_HANDLE, setLastError ERROR_INVALID_HANDLE s1)
      | (Some p, s1) \<Rightarrow>
          if \<not> valid_file (fileObjs s1 p) then (NO_HANDLE, unpin p (setLastError ERROR_INVALID_HANDLE s1))
          else case file_backing mh (fd (fileObjs s1 p)) n flProtect (fhost s1) of
            (Inl e, k) \<Rightarrow> (NO_HANDLE, unpin p (setLastError e (s1\<lparr>fhost := k\<rparr>)))
          | (Inr (d, n1), k) \<Rightarrow>
              publish \<lparr>mfd = d, maxSize = n1, mprotect = flProtect, anonymous = False, mclosed = False\<rparr> (unpin p (s1\<lparr>fhost := k\<rparr>)))"

section \<open>Mapping a view\<close>

definition view_length :: "nat \<Rightarrow> nat \<Rightarrow> nat \<Rightarrow> nat option" where
  "view_length mx offset n =
     (if n = 0 \<and> (mx = 0 \<or> offset > mx) then None
      else let len = (if n = 0 then mx - offset else n) in
        if len = 0 then None
        else if mx \<noteq> 0 \<and> (offset + len) mod 2 ^ 64 > mx then None
        else Some len)"

text \<open>The offset rounded down to a page, and the part cut off; \<^verbatim>\<open>off_t\<close> is signed.\<close>

definition aligned_offset :: "nat \<Rightarrow> nat \<Rightarrow> nat" where
  "aligned_offset pg offset = unat ((of_nat offset :: u64) AND NOT (of_nat pg - 1))"

definition as_off_t :: "nat \<Rightarrow> int" where
  "as_off_t n = (if n < 2 ^ 63 then int n else int n - 2 ^ 64)"

text \<open>
  Where the view is to lie: \<open>Inl\<close> an error, or the address for \<^verbatim>\<open>mmap\<close>. Without an address of the caller a range is reserved in the
  tables of the virtual memory.
\<close>

definition view_place :: "nat \<Rightarrow> nat \<Rightarrow> nat \<Rightarrow> nat \<Rightarrow> VmState \<Rightarrow> (u32 + nat) \<times> VmState" where
  "view_place pg baseAddress offsetDelta mapLength v =
     (if baseAddress \<noteq> 0 then
        (if baseAddress mod kVirtualAllocationGranularity \<noteq> 0 then (Inl ERROR_INVALID_ADDRESS, v)
         else if offsetDelta > baseAddress then (Inl ERROR_INVALID_ADDRESS, v)
         else if (of_nat (baseAddress - offsetDelta) :: u32) AND (of_nat pg - 1) \<noteq> 0 then (Inl ERROR_INVALID_ADDRESS, v)
         else (Inr (baseAddress - offsetDelta), v))
      else case reserveViewRange pg mapLength 0 0 v of
        ((st, c), v1) \<Rightarrow> if st \<noteq> Success then (Inl (win32ErrorFromVmStatus st), v1) else (Inr c, v1))"

text \<open>The record of a view that the host has mapped at \<open>mapBase\<close>.\<close>

definition view_record :: "nat \<Rightarrow> u32 \<Rightarrow> u32 \<Rightarrow> bool \<Rightarrow> nat \<Rightarrow> nat \<Rightarrow> nat \<Rightarrow> nat \<Rightarrow> objptr \<Rightarrow> ViewInfo" where
  "view_record pg access protect reservedMapping mapBase offsetDelta len mapLength p =
     (let aligned = alignUp len pg in
      \<lparr>viewBase = mapBase + offsetDelta, viewLength = (if aligned = 2 ^ 32 - 1 then len else aligned),
       vallocationBase = mapBase, vallocationLength = mapLength, owner = p,
       vprotect = desiredAccessToProtect access protect, vallocationProtect = protect, vwtype = MEM_MAPPED,
       managed = reservedMapping\<rparr>)"

definition log_call :: "nat \<Rightarrow> nat \<Rightarrow> nat \<Rightarrow> VmState \<Rightarrow> VmState" where
  "log_call a l prot v = v\<lparr>hostCalls := (a, l, prot) # hostCalls v\<rparr>"

text \<open>\<^verbatim>\<open>g_viewInfo.emplace\<close>: an entry that is there stays, and the pin of the new one is dropped.\<close>

definition emplace_view :: "ViewInfo \<Rightarrow> ('h, 'a) MapWorld_scheme \<Rightarrow> ('h, 'a) MapWorld_scheme" where
  "emplace_view v s =
     (if map_of (g_viewInfo s) (viewBase v) \<noteq> None then unpin (owner v) s
      else s\<lparr>g_viewInfo := omap_put (viewBase v) v (g_viewInfo s)\<rparr>)"

text \<open>The part after the tests: the host maps the pages. The result is the address of the view, or 0.\<close>

definition map_pages ::
  "nat \<Rightarrow> 'h MapHost \<Rightarrow> objptr \<Rightarrow> u32 \<Rightarrow> nat \<Rightarrow> nat \<Rightarrow> nat \<Rightarrow> nat \<Rightarrow> nat \<Rightarrow> nat \<Rightarrow> ('h, 'a) MapWorld_scheme
    \<Rightarrow> nat \<times> ('h, 'a) MapWorld_scheme" where
  "map_pages pg mh p access prot offset offsetDelta len mapLength baseAddress s =
     (let m = maps s p; a = fileMapAccessFromDesiredAccess access in
      case view_place pg baseAddress offsetDelta mapLength (vm s) of
        (Inl e, v1) \<Rightarrow> (0, unpin p (setLastError e (s\<lparr>vm := v1\<rparr>)))
      | (Inr requestedBase, v1) \<Rightarrow>
          (case mh_mmap mh requestedBase mapLength prot (\<not> fcopy a) (baseAddress \<noteq> 0) (if anonymous m then -1 else mfd m)
                  (if anonymous m then 0 else as_off_t (aligned_offset pg offset)) (fhost s) of
             (Failed e, k) \<Rightarrow>
               (0, unpin p (setLastError (if baseAddress \<noteq> 0 \<and> (e = ENOMEM \<or> e = EEXIST \<or> e = EINVAL \<or> e = EPERM)
                                          then ERROR_INVALID_ADDRESS else winErrorFromErrno e)
                             (s\<lparr>vm := (if baseAddress = 0 then releaseViewRange requestedBase v1 else v1), fhost := k\<rparr>)))
           | (Moved mapBase, k) \<Rightarrow>
               let v2 = log_call mapBase mapLength prot v1 in
               if baseAddress \<noteq> 0 \<and> mapBase + offsetDelta \<noteq> baseAddress
               then (0, unpin p (setLastError ERROR_INVALID_ADDRESS
                          (s\<lparr>vm := log_call mapBase mapLength PROT_NONE v2, fhost := mh_munmap mh mapBase mapLength k\<rparr>)))
               else let view = view_record pg access (mprotect m) (baseAddress = 0) mapBase offsetDelta len mapLength p;
                        v3 = (if baseAddress = 0 then registerViewRange pg mapBase mapLength (mprotect m) (vprotect view) v2 else v2)
                    in (mapBase + offsetDelta, emplace_view view (s\<lparr>vm := v3, fhost := k\<rparr>))))"

definition mapViewOfFileInternal ::
  "nat \<Rightarrow> 'h MapHost \<Rightarrow> objptr \<Rightarrow> u32 \<Rightarrow> nat \<Rightarrow> nat \<Rightarrow> nat \<Rightarrow> ('h, 'a) MapWorld_scheme \<Rightarrow> nat \<times> ('h, 'a) MapWorld_scheme" where
  "mapViewOfFileInternal pg mh p access offset n baseAddress s =
     (let m = maps s p; a = fileMapAccessFromDesiredAccess access; fail = (\<lambda>e. (0, unpin p (setLastError e s))) in
      if mclosed m then fail ERROR_INVALID_HANDLE
      else if anonymous m \<and> offset \<noteq> 0 then fail ERROR_INVALID_PARAMETER
      else case view_length (maxSize m) offset n of
        None \<Rightarrow> fail ERROR_INVALID_PARAMETER
      | Some len \<Rightarrow>
          (case view_prot (mprotect m) a of
             None \<Rightarrow> fail ERROR_ACCESS_DENIED
           | Some prot \<Rightarrow>
               let offsetDelta = (offset - (if anonymous m then 0 else aligned_offset pg offset)) mod 2 ^ 32;
                   requestedLength = (len + offsetDelta) mod 2 ^ 64
               in if requestedLength < len then fail ERROR_INVALID_PARAMETER
                  else if requestedLength mod 2 ^ 32 \<noteq> requestedLength then fail ERROR_INVALID_PARAMETER
                  else map_pages pg mh p access prot offset offsetDelta len requestedLength baseAddress s))"

definition MapViewOfFileEx ::
  "nat \<Rightarrow> 'h MapHost \<Rightarrow> HANDLE \<Rightarrow> u32 \<Rightarrow> u32 \<Rightarrow> u32 \<Rightarrow> nat \<Rightarrow> nat \<Rightarrow> ('h, 'a) MapWorld_scheme \<Rightarrow> nat \<times> ('h, 'a) MapWorld_scheme" where
  "MapViewOfFileEx pg mh h access offsetHigh offsetLow n baseAddress s =
     (case getAs Mapping h s of
        (None, s1) \<Rightarrow> (0, setLastError ERROR_INVALID_HANDLE s1)
      | (Some (p, m), s1) \<Rightarrow>
          mapViewOfFileInternal pg mh p access (unat offsetHigh * 2 ^ 32 + unat offsetLow) n baseAddress s1)"

definition MapViewOfFile ::
  "nat \<Rightarrow> 'h MapHost \<Rightarrow> HANDLE \<Rightarrow> u32 \<Rightarrow> u32 \<Rightarrow> u32 \<Rightarrow> nat \<Rightarrow> ('h, 'a) MapWorld_scheme \<Rightarrow> nat \<times> ('h, 'a) MapWorld_scheme" where
  "MapViewOfFile pg mh h access offsetHigh offsetLow n s = MapViewOfFileEx pg mh h access offsetHigh offsetLow n 0 s"

section \<open>Unmapping, flushing, querying\<close>

text \<open>The destructor of a mapping object, and dropping a pin that may be the last one.\<close>

definition destroy_MappingObject :: "'h MapHost \<Rightarrow> MappingObject \<Rightarrow> 'h \<Rightarrow> MappingObject \<times> 'h" where
  "destroy_MappingObject mh m k = (if mfd m \<noteq> -1 then (m\<lparr>mfd := -1\<rparr>, mh_close mh (mfd m) k) else (m, k))"

definition drop_mapping :: "'h MapHost \<Rightarrow> objptr \<Rightarrow> ('h, 'a) MapWorld_scheme \<Rightarrow> ('h, 'a) MapWorld_scheme" where
  "drop_mapping mh p s =
     (let s1 = unpin p s in
      if objects s p \<noteq> None \<and> objects s1 p = None
      then case destroy_MappingObject mh (maps s p) (fhost s) of (m, k) \<Rightarrow> s1\<lparr>maps := (maps s)(p := m), fhost := k\<rparr>
      else s1)"

definition UnmapViewOfFile :: "'h MapHost \<Rightarrow> nat \<Rightarrow> ('h, 'a) MapWorld_scheme \<Rightarrow> bool \<times> ('h, 'a) MapWorld_scheme" where
  "UnmapViewOfFile mh lpBaseAddress s =
     (case map_of (g_viewInfo s) lpBaseAddress of
        None \<Rightarrow> (False, setLastError ERROR_INVALID_PARAMETER s)
      | Some view \<Rightarrow>
          let s1 = drop_mapping mh (owner view) (s\<lparr>g_viewInfo := omap_erase lpBaseAddress (g_viewInfo s)\<rparr>);
              s2 = (if vallocationLength view \<noteq> 0
                    then s1\<lparr>fhost := mh_munmap mh (vallocationBase view) (vallocationLength view) (fhost s1),
                            vm := log_call (vallocationBase view) (vallocationLength view) PROT_NONE (vm s1)\<rparr>
                    else s1)
          in (True, if managed view then s2\<lparr>vm := releaseViewRange (vallocationBase view) (vm s2)\<rparr> else s2))"

text \<open>The range handed to \<^verbatim>\<open>msync\<close>, \<open>None\<close> when there is nothing to do, or a refusal.\<close>

definition flush_range :: "nat \<Rightarrow> ViewInfo \<Rightarrow> nat \<Rightarrow> nat \<Rightarrow> unit + (nat \<times> nat) option" where
  "flush_range pg view address n =
     (let mx = viewLength view - (address - viewBase view);
          bytes = (if n = 0 \<or> n > mx then mx else n)
      in if bytes = 0 then Inr None
         else let flushEnd = addp address bytes;
                  alignedStart = alignDown address pg;
                  up = alignUp flushEnd pg;
                  end1 = (if up = 2 ^ 32 - 1 then flushEnd else up);
                  mappingEnd = addp (vallocationBase view) (vallocationLength view);
                  end2 = (if end1 > mappingEnd then mappingEnd else end1)
              in if end2 < alignedStart then Inl ()
                 else Inr (Some (alignedStart, if end2 - alignedStart = 0 then pg else end2 - alignedStart)))"

definition FlushViewOfFile :: "nat \<Rightarrow> 'h MapHost \<Rightarrow> nat \<Rightarrow> nat \<Rightarrow> ('h, 'a) MapWorld_scheme \<Rightarrow> bool \<times> ('h, 'a) MapWorld_scheme" where
  "FlushViewOfFile pg mh address n s =
     (if address = 0 then (False, setLastError ERROR_INVALID_PARAMETER s)
      else case last_at_most address (g_viewInfo s) of
        None \<Rightarrow> (False, setLastError ERROR_INVALID_PARAMETER s)
      | Some (b, view) \<Rightarrow>
          if address < viewBase view \<or> address \<ge> addp (viewBase view) (viewLength view)
          then (False, setLastError ERROR_INVALID_PARAMETER s)
          else case flush_range pg view address n of
            Inl _ \<Rightarrow> (False, setLastError ERROR_INVALID_PARAMETER s)
          | Inr None \<Rightarrow> (True, s)
          | Inr (Some (a, l)) \<Rightarrow>
              (case mh_msync mh a l (fhost s) of
                 (e, k) \<Rightarrow> if e \<noteq> ESUCCESS then (False, setLastError (winErrorFromErrno e) (s\<lparr>fhost := k\<rparr>)) else (True, s\<lparr>fhost := k\<rparr>)))"

definition mappedViewRegionForAddress :: "nat \<Rightarrow> nat \<Rightarrow> nat \<Rightarrow> (nat \<times> ViewInfo) list \<Rightarrow> MEMORY_BASIC_INFORMATION option" where
  "mappedViewRegionForAddress pg request pageBase views =
     map_option (\<lambda>(k, view).
         let blockEnd = alignUp (addp (viewBase view) (viewLength view)) pg in
         \<lparr>BaseAddress = viewBase view, AllocationBase = viewBase view, AllocationProtect = vallocationProtect view,
          RegionSize = (if blockEnd > viewBase view then blockEnd - viewBase view else 0),
          MemState = MEM_COMMIT, Protect = vprotect view, MemType = vwtype view\<rparr>)
       (find (\<lambda>(k, view). viewLength view \<noteq> 0 \<and>
           \<not> (pageBase < vallocationBase view \<or> pageBase \<ge> addp (vallocationBase view) (vallocationLength view)) \<and>
           \<not> (request \<noteq> 0 \<and> (request < viewBase view \<or> request \<ge> addp (viewBase view) (viewLength view)))) views)"

text \<open>\<open>Inl\<close> is the error; the size of the structure and the test of the buffer's length are left to the caller.\<close>

definition VirtualQuery :: "nat \<Rightarrow> nat \<Rightarrow> ('h, 'a) MapWorld_scheme \<Rightarrow> u32 + MEMORY_BASIC_INFORMATION" where
  "VirtualQuery pg request s =
     (let pageBase = alignDown request pg in
      if pageBase \<ge> kProcessAddressLimit then Inl ERROR_INVALID_PARAMETER
      else case mappedViewRegionForAddress pg request pageBase (g_viewInfo s) of
        Some info \<Rightarrow> Inr info
      | None \<Rightarrow> (case virtualQuery pg request (vm s) of Inr info \<Rightarrow> Inr info | Inl st \<Rightarrow> Inl (win32ErrorFromVmStatus st)))"

text \<open>The calls on private memory: the status of the virtual memory becomes the last error.\<close>

definition VirtualAlloc ::
  "nat \<Rightarrow> mmap_fn \<Rightarrow> (nat \<Rightarrow> nat \<Rightarrow> errno option) \<Rightarrow> nat \<Rightarrow> nat \<Rightarrow> u32 \<Rightarrow> u32 \<Rightarrow> ('h, 'a) MapWorld_scheme \<Rightarrow> nat \<times> ('h, 'a) MapWorld_scheme" where
  "VirtualAlloc pg mmap madvise lpAddress n allocationType protect s =
     (case virtualAlloc pg mmap madvise lpAddress n allocationType protect MEM_PRIVATE (vm s) of
        ((st, base, len), v) \<Rightarrow>
          if st \<noteq> Success then (0, setLastError (win32ErrorFromVmStatus st) (s\<lparr>vm := v\<rparr>)) else (base, s\<lparr>vm := v\<rparr>))"

definition VirtualFree :: "nat \<Rightarrow> mmap_fn \<Rightarrow> nat \<Rightarrow> nat \<Rightarrow> u32 \<Rightarrow> ('h, 'a) MapWorld_scheme \<Rightarrow> bool \<times> ('h, 'a) MapWorld_scheme" where
  "VirtualFree pg mmap lpAddress n freeType s =
     (case virtualFree pg mmap lpAddress n freeType (vm s) of
        (st, v) \<Rightarrow> if st \<noteq> Success then (False, setLastError (win32ErrorFromVmStatus st) (s\<lparr>vm := v\<rparr>)) else (True, s\<lparr>vm := v\<rparr>))"

definition VirtualProtect ::
  "nat \<Rightarrow> mmap_fn \<Rightarrow> nat \<Rightarrow> nat \<Rightarrow> u32 \<Rightarrow> ('h, 'a) MapWorld_scheme \<Rightarrow> (bool \<times> u32) \<times> ('h, 'a) MapWorld_scheme" where
  "VirtualProtect pg mprot lpAddress n newProtect s =
     (case virtualProtect pg mprot lpAddress n newProtect (vm s) of
        ((st, old), v) \<Rightarrow>
          if st \<noteq> Success then ((False, old), setLastError (win32ErrorFromVmStatus st) (s\<lparr>vm := v\<rparr>)) else ((True, old), s\<lparr>vm := v\<rparr>))"

end
