(* ===== verification/View_Invariant.thy ===== *)
theory View_Invariant
  imports File_Mappings
begin

text \<open>
  The tables of views and of memory together: what the operations of the virtual memory leave alone, and the invariant that every
  view that the library placed owns one entry of the table of mappings, disjoint from all others, whatever views callers
  put at addresses of their own.
\<close>

section \<open>What the operations on memory keep\<close>

lemma drop_mapping_fields [simp]:
  "vm (drop_mapping mh p s) = vm s" "g_viewInfo (drop_mapping mh p s) = g_viewInfo s"
  "objects (drop_mapping mh p s) = deref p (objects s)" "table (drop_mapping mh p s) = table s"
  by (simp_all add: drop_mapping_def unpin_def Let_def split: prod.split)

text \<open>Entries of the table of mappings that belong to no allocation stay as they are.\<close>

definition vm_keeps :: "VmState \<Rightarrow> VmState \<Rightarrow> bool" where
  "vm_keeps s s' \<longleftrightarrow> (\<forall>b i. map_of (g_mappings s) b = Some i \<and> map_of (g_virtualAllocations s) b = None \<longrightarrow>
     map_of (g_mappings s') b = Some i \<and> map_of (g_virtualAllocations s') b = None)"

lemma keeps_refl [simp]: "vm_keeps s s" by (simp add: vm_keeps_def)

lemma keeps_trans: "vm_keeps s s' \<Longrightarrow> vm_keeps s' s'' \<Longrightarrow> vm_keeps s s''" by (simp add: vm_keeps_def)

lemma keeps_calls [simp]: "vm_keeps s (s'\<lparr>hostCalls := cs\<rparr>) = vm_keeps s s'" "vm_keeps (s\<lparr>hostCalls := cs\<rparr>) s' = vm_keeps s s'"
  by (simp_all add: vm_keeps_def)

lemma free_not_key: "vm_shape pg s \<Longrightarrow> free_range RegionSize (g_mappings s) b l \<Longrightarrow> 0 < l \<Longrightarrow> map_of (g_mappings s) b = None"
  using free_range_key [of RegionSize "g_mappings s" b l] by (auto simp: vm_shape_def map_of_eq_None_iff)

lemma keeps_record_new:
  "vm_shape pg s \<Longrightarrow> free_range RegionSize (g_mappings s) b l \<Longrightarrow> 0 < l \<Longrightarrow> vm_keeps s (recordGuestMapping b n ap st p t s)"
  using free_not_key [of pg s b l] by (auto simp: vm_keeps_def recordGuestMapping_def)

lemma keeps_new_region:
  assumes "vm_shape pg s" "free_range RegionSize (g_mappings s) (vbase r) l" "0 < l"
  shows "vm_keeps s (refreshGuestMapping r (put_region r s))"
proof -
  obtain ap st p where e: "refreshGuestMapping r (put_region r s) = recordGuestMapping (vbase r) (vsize r) ap st p (vtype r) (put_region r s)"
    by (rule refresh_eq)
  show ?thesis unfolding e using free_not_key [OF assms] by (auto simp: vm_keeps_def recordGuestMapping_def put_region_def)
qed

lemma keeps_put: "map_of (g_virtualAllocations s) (vbase r) = Some r0 \<Longrightarrow> vm_keeps s (put_region r s)"
  by (auto simp: vm_keeps_def put_region_def)

lemma keeps_update:
  assumes "map_of (g_virtualAllocations s) (vbase r) = Some r0"
  shows "vm_keeps s (refreshGuestMapping r (put_region r s))"
proof -
  obtain ap st p where e: "refreshGuestMapping r (put_region r s) = recordGuestMapping (vbase r) (vsize r) ap st p (vtype r) (put_region r s)"
    by (rule refresh_eq)
  show ?thesis unfolding e using assms by (auto simp: vm_keeps_def recordGuestMapping_def put_region_def)
qed

lemma host_call_eq:
  obtains (failed) err where "host_call f a l p s = (Some err, s)"
  | (ok) "host_call f a l p s = (None, s\<lparr>hostCalls := (a, l, p) # hostCalls s\<rparr>)"
  by (cases "f a l p") (auto simp: host_call_def)

lemma commit_loop_keeps:
  "commit_loop pg mmap protect runs r s = (res, r', s') \<Longrightarrow>
   vbase r' = vbase r \<and> g_mappings s' = g_mappings s \<and> g_virtualAllocations s' = g_virtualAllocations s"
proof (induction runs arbitrary: r s)
  case (Cons bl runs)
  obtain b l where bl: "bl = (b, l)" by fastforce
  show ?case
  proof (cases rule: host_call_eq [of mmap b l "posixProtectFromWin32 protect" s])
    case (failed err)
    then show ?thesis using Cons.prems by (auto simp: bl)
  next
    case ok
    have "vbase (markCommitted pg r b l protect) = vbase r" by (simp add: markCommitted_def)
    then show ?thesis using Cons.IH Cons.prems ok by (fastforce simp: bl)
  qed
qed simp

lemma keeps_virtualReserve:
  assumes sh: "vm_shape pg s" and pg: "page_size pg" and w: "request < 2 ^ 32" "sz < 2 ^ 32" "0 < sz" and hb: "host_bounded mmap"
  shows "vm_keeps s (snd (virtualReserve pg mmap request sz td commit protect type s))"
proof (cases "reserve_place pg request sz td s")
  case (Inl st)
  then show ?thesis by (simp add: virtualReserve_def)
next
  case (Inr bl)
  obtain b l where bl: "bl = (b, l)" by fastforce
  show ?thesis
  proof (cases rule: host_call_eq [of mmap b l "if commit then posixProtectFromWin32 protect else PROT_NONE" s])
    case (failed err)
    then show ?thesis by (simp add: virtualReserve_def Inr bl)
  next
    case ok
    then have "mmap b l (if commit then posixProtectFromWin32 protect else PROT_NONE) = None"
      by (auto simp: host_call_def split: option.splits)
    then have "b + l < 2 ^ 32" using hb by (auto simp: host_bounded_def)
    note f = reserve_place_Inr [OF sh pg w Inr [unfolded bl] this]
    let ?s = "s\<lparr>hostCalls := (b, l, if commit then posixProtectFromWin32 protect else PROT_NONE) # hostCalls s\<rparr>"
    have "vm_shape pg ?s" "free_range RegionSize (g_mappings ?s) b l" using sh f(1) by simp_all
    then show ?thesis using keeps_new_region [of pg ?s, OF _ _ f(2)] ok by (simp add: virtualReserve_def Inr bl Let_def)
  qed
qed

lemma keeps_virtualCommit:
  assumes sh: "vm_shape pg s"
  shows "vm_keeps s (snd (virtualCommit pg mmap request sz protect s))"
proof -
  have *: "vm_keeps s (put_region r' s') \<and> vm_keeps s (refreshGuestMapping r' (put_region r' s'))"
    if "findRegion a s = Some r" "commit_loop pg mmap protect runs r s = (res, r', s')" for a r runs res r' s'
  proof -
    note c = commit_loop_keeps [OF that(2)]
    have "map_of (g_virtualAllocations s') (vbase r') = Some r" using findRegion_Some(1) [OF sh that(1)] c by simp
    moreover have "vm_keeps s s'" using c by (simp add: vm_keeps_def)
    ultimately show ?thesis using keeps_put keeps_update keeps_trans by blast
  qed
  show ?thesis by (auto simp: virtualCommit_def Let_def * split: option.splits prod.splits)
qed

lemma keeps_virtualAlloc:
  assumes "vm_shape pg s" "page_size pg" "request < 2 ^ 32" "sz < 2 ^ 32" "host_bounded mmap"
  shows "vm_keeps s (snd (virtualAlloc pg mmap madvise request sz at protect type s))"
proof -
  have "vm_keeps s (snd (virtualReserve pg mmap r sz td c p t s))" if "r = request" "0 < sz" for r td c p t
    using keeps_virtualReserve [OF assms(1-4) that(2) assms(5)] that(1) by simp
  then show ?thesis using keeps_virtualCommit [OF assms(1)] by (auto simp: virtualAlloc_def Let_def)
qed

lemma keeps_virtualFree:
  assumes sh: "vm_shape pg s"
  shows "vm_keeps s (snd (virtualFree pg mmap b n ft s))"
proof -
  have "vm_keeps s (snd (virtualRelease mmap b n s))"
    by (auto simp: virtualRelease_def Let_def host_call_def eraseGuestMapping_def vm_keeps_def split: option.splits)
  moreover have "vm_keeps s (snd (virtualDecommit pg mmap b n s))"
  proof -
    have "vm_keeps s (refreshGuestMapping r' (put_region r' (s\<lparr>hostCalls := cs\<rparr>)))"
      if "findRegion b s = Some r" "r' = markDecommitted pg r x y" for r r' x y cs
    proof -
      have "map_of (g_virtualAllocations (s\<lparr>hostCalls := cs\<rparr>)) (vbase r') = Some r"
        using findRegion_Some(1) [OF sh that(1)] by (simp add: that(2) markDecommitted_def)
      then show ?thesis using keeps_update by fastforce
    qed
    then show ?thesis
      by (auto simp: virtualDecommit_def Let_def host_call_def split: option.splits)
  qed
  ultimately show ?thesis by (simp add: virtualFree_def Let_def)
qed

lemma keeps_virtualProtect:
  assumes sh: "vm_shape pg s"
  shows "vm_keeps s (snd (virtualProtect pg mprot b n np s))"
proof -
  have "vm_keeps s (refreshGuestMapping r' (put_region r' (s\<lparr>hostCalls := cs\<rparr>)))"
    if "findRegion a s = Some r" "vbase r' = vbase r" for a r r' cs
  proof -
    have "map_of (g_virtualAllocations (s\<lparr>hostCalls := cs\<rparr>)) (vbase r') = Some r"
      using findRegion_Some(1) [OF sh that(1)] by (simp add: that(2))
    then show ?thesis using keeps_update by fastforce
  qed
  then show ?thesis by (auto simp: virtualProtect_def Let_def host_call_def split: option.splits)
qed

lemma keeps_mapArena:
  assumes sh: "vm_shape pg s" and pg: "page_size pg" and hi: "maxAddr \<le> kTwoGB"
  shows "vm_keeps s (snd (mapArena pg mmap n minAddr maxAddr tp s))"
proof -
  define len where "len = alignDown (addp n (pg - 1)) pg"
  have "len < 2 ^ 32" unfolding len_def alignDown_def using unat_u32_less by simp
  from findFreeMapping_Some [OF sh pg this hi] have
    f: "free_range RegionSize (g_mappings s) c (alignUp len pg)" "0 < alignUp len pg"
    if "findFreeMapping pg len minAddr maxAddr tp s = Some c" for c
    using that by (fastforce simp: candidate_def)+
  show ?thesis
  proof (cases "findFreeMapping pg len minAddr maxAddr tp s")
    case None
    then show ?thesis unfolding mapArena_def len_def [symmetric] by simp
  next
    case (Some c)
    have "vm_keeps s (recordGuestMapping c len PAGE_READWRITE MEM_RESERVE PAGE_READWRITE MEM_PRIVATE (s\<lparr>hostCalls := cs\<rparr>))" for cs
      using keeps_record_new [of pg "s\<lparr>hostCalls := cs\<rparr>", OF _ _ f(2) [OF Some]] sh f(1) [OF Some] by simp
    then show ?thesis
      using Some unfolding mapArena_def len_def [symmetric] by (auto simp: mapAtAddr_def host_call_def split: option.splits)
  qed
qed

lemma keeps_reserveGuestStack:
  assumes "vm_shape pg s" "page_size pg"
  shows "vm_keeps s (snd (reserveGuestStack pg mmap mprot n s))"
proof -
  have "vm_keeps s (snd (mapArena pg mmap m kLowMemoryStart kTwoGB True s))" for m
    by (rule keeps_mapArena [OF assms]) simp
  then show ?thesis
    by (auto simp: reserveGuestStack_def Let_def host_call_def split: option.splits prod.splits)
       (metis snd_conv keeps_calls(1))+
qed

lemma reserveViewRange_Success:
  assumes sh: "vm_shape pg s" and pg: "page_size pg" and n: "n < 2 ^ 32"
    and r: "reserveViewRange pg n 0 0 s = ((Success, c), s')"
  shows "s' = recordGuestMapping c (alignUp n pg) PAGE_NOACCESS MEM_RESERVE PAGE_NOACCESS MEM_MAPPED s"
    "free_range RegionSize (g_mappings s) c (alignUp n pg)" "kVirtualAllocationGranularity dvd c" "kLowMemoryStart \<le> c"
    "c + alignUp n pg \<le> kTopDownStart" "n \<le> alignUp n pg" "0 < n"
proof -
  define al where "al = alignUp n pg"
  from r have f: "findFreeMapping pg al kLowMemoryStart kTopDownStart False s = Some c" "0 < n" "al \<le> kTopDownStart - kLowMemoryStart"
    and s': "s' = recordGuestMapping c al PAGE_NOACCESS MEM_RESERVE PAGE_NOACCESS MEM_MAPPED s"
    by (auto simp: reserveViewRange_def al_def Let_def split: if_splits option.splits)
  have al: "al < 2 ^ 32" using alignUp_less [OF pg n] by (simp add: al_def)
  have hi: "kTopDownStart \<le> kTwoGB" by (simp add: kTopDownStart_def kTwoGB_def)
  note g = findFreeMapping_Some [OF sh pg al hi f(1)]
  have lt: "al < uintptr_max" using f(3) by (simp add: kTopDownStart_def kLowMemoryStart_def uintptr_max_def)
  note d = alignUp_dvd [OF pg n lt [unfolded al_def]]
  have pga: "alignment pg" using pg by (simp add: page_size_def)
  have "alignUp al pg = al"
    by (rule alignUp_id [OF pga]) (use d page_size_le [OF pg] f(3) in \<open>auto simp: al_def kTopDownStart_def kLowMemoryStart_def\<close>)
  then show "s' = recordGuestMapping c (alignUp n pg) PAGE_NOACCESS MEM_RESERVE PAGE_NOACCESS MEM_MAPPED s"
    "free_range RegionSize (g_mappings s) c (alignUp n pg)" "kVirtualAllocationGranularity dvd c" "kLowMemoryStart \<le> c"
    "c + alignUp n pg \<le> kTopDownStart" "n \<le> alignUp n pg" "0 < n"
    using s' g(1) d(2) f(2) by (simp_all add: al_def candidate_def place_def)
qed

section \<open>The invariant\<close>

text \<open>
  Every view lies in the range that the host mapped for it. The range of a view that the library placed (a managed one) has an
  entry of its own in the table of mappings, which no allocation owns; a view at an address of the caller has none. Only the
  tables of the virtual memory are constrained (\<open>AnyProt\<close>), because such a view may lie over anything.
\<close>

definition view_placed :: "nat \<times> ViewInfo \<Rightarrow> bool" where
  "view_placed e \<longleftrightarrow> viewBase (snd e) = fst e \<and> vallocationBase (snd e) \<le> fst e \<and>
     fst e < vallocationBase (snd e) + vallocationLength (snd e)"

definition view_ok :: "nat \<Rightarrow> VmState \<Rightarrow> nat \<times> ViewInfo \<Rightarrow> bool" where
  "view_ok pg v e \<longleftrightarrow> viewBase (snd e) = fst e \<and> managed (snd e) \<and> 0 < vallocationLength (snd e) \<and>
     pg dvd vallocationBase (snd e) \<and> 0 < vallocationBase (snd e) \<and>
     vallocationBase (snd e) \<le> fst e \<and> fst e < vallocationBase (snd e) + vallocationLength (snd e) \<and>
     vallocationLength (snd e) \<le> alignUp (vallocationLength (snd e)) pg \<and>
     map_of (g_virtualAllocations v) (vallocationBase (snd e)) = None \<and>
     (\<exists>i. map_of (g_mappings v) (vallocationBase (snd e)) = Some i \<and> RegionSize i = alignUp (vallocationLength (snd e)) pg)"

definition views_inv :: "nat \<Rightarrow> ('h, 'a) MapWorld_scheme \<Rightarrow> bool" where
  "views_inv pg s \<longleftrightarrow> vm_inv AnyProt pg (vm s) \<and> sorted_wrt (<) (map fst (g_viewInfo s)) \<and>
     (\<forall>e \<in> set (g_viewInfo s). view_placed e \<and> (managed (snd e) \<longrightarrow> view_ok pg (vm s) e)) \<and>
     (\<forall>e \<in> set (g_viewInfo s). \<forall>e' \<in> set (g_viewInfo s). managed (snd e) \<and> managed (snd e') \<and>
        vallocationBase (snd e) = vallocationBase (snd e') \<longrightarrow> e = e')"

text \<open>Two views that the library placed never share an address.\<close>

lemma views_disjoint:
  assumes "views_inv pg s" "e \<in> set (g_viewInfo s)" "e' \<in> set (g_viewInfo s)" "e \<noteq> e'" and mg: "managed (snd e)" "managed (snd e')"
  shows "\<not> overlaps (vallocationBase (snd e)) (vallocationLength (snd e)) (vallocationBase (snd e')) (vallocationLength (snd e'))"
proof -
  have b: "vallocationBase (snd e) \<noteq> vallocationBase (snd e')" using assms by (auto simp: views_inv_def)
  have ok: "view_ok pg (vm s) e" "view_ok pg (vm s) e'" using assms(1-3) mg by (simp_all add: views_inv_def)
  obtain i where i: "map_of (g_mappings (vm s)) (vallocationBase (snd e)) = Some i" "RegionSize i = alignUp (vallocationLength (snd e)) pg"
    using ok(1) unfolding view_ok_def by blast
  obtain i' where i': "map_of (g_mappings (vm s)) (vallocationBase (snd e')) = Some i'" "RegionSize i' = alignUp (vallocationLength (snd e')) pg"
    using ok(2) unfolding view_ok_def by blast
  have wf: "regions_wf RegionSize (g_mappings (vm s))" using assms(1) by (simp add: views_inv_def vm_inv_def vm_shape_def)
  have "vallocationLength (snd e) \<le> RegionSize i" "vallocationLength (snd e') \<le> RegionSize i'"
    using ok i(2) i'(2) by (simp_all add: view_ok_def)
  moreover have "vallocationBase (snd e) + RegionSize i \<le> vallocationBase (snd e') \<or> vallocationBase (snd e') + RegionSize i' \<le> vallocationBase (snd e)"
    using sorted_wrt_pair_cases [OF conjunct1 [OF wf [unfolded regions_wf_def]] map_of_SomeD [OF i(1)] map_of_SomeD [OF i'(1)]] b by auto
  ultimately show ?thesis by (auto simp: overlaps_def)
qed

lemma view_ok_keeps: "view_ok pg v e \<Longrightarrow> vm_keeps v v' \<Longrightarrow> view_ok pg v' e"
  by (auto simp: view_ok_def vm_keeps_def)

lemma views_inv_vm:
  assumes "views_inv pg s" "vm_inv AnyProt pg v" "vm_keeps (vm s) v" "g_viewInfo s' = g_viewInfo s" "vm s' = v"
  shows "views_inv pg s'"
  using assms view_ok_keeps by (fastforce simp: views_inv_def)

lemma sorted_omap_put: "sorted_wrt (<) (map fst m) \<Longrightarrow> sorted_wrt (<) (map fst (omap_put k v m))"
proof (induction m)
  case (Cons a m)
  have "fst ` set (omap_put k v m) = insert k (fst ` set m)" for m :: "(nat \<times> 'a) list"
  proof (induction m)
    case (Cons b m)
    then show ?case by (cases b) (simp add: insert_commute)
  qed simp
  then show ?case using Cons by (cases a) auto
qed simp

lemma set_omap_put_new: "map_of m k = None \<Longrightarrow> set (omap_put k v m) = insert (k, v) (set m)"
  by (induction m) (auto split: if_splits)

lemma aligned_offset_eq:
  assumes "page_size pg" "offset < 2 ^ 64"
  shows "aligned_offset pg offset = offset - offset mod pg"
proof -
  obtain k where k: "k < 32" "pg = 2 ^ k" using assms(1) by (auto simp: page_size_def alignment_def)
  let ?w = "of_nat offset :: u64"
  have "?w AND NOT (2 ^ k - 1) = push_bit k (drop_bit k ?w)"
    by (rule bit_eqI) (auto simp: bit_simps mask_eq_exp_minus_1 [symmetric])
  moreover have "unat (push_bit k (drop_bit k ?w)) = take_bit 64 (push_bit k (drop_bit k (unat ?w)))"
    by (simp only: unsigned_push_bit_eq unat_drop_bit_eq) simp
  moreover have "unat ?w = offset" using assms(2) by (simp add: unat_of_nat)
  moreover have "push_bit k (drop_bit k offset) = offset - offset mod 2 ^ k"
    by (simp add: push_bit_eq_mult drop_bit_eq_div minus_mod_eq_div_mult)
  moreover have "offset - offset mod 2 ^ k < 2 ^ 64" using assms(2) by simp
  ultimately show ?thesis by (simp add: aligned_offset_def k(2) take_bit_eq_mod)
qed

section \<open>Mapping and unmapping keep the invariant\<close>

text \<open>With \<^verbatim>\<open>MAP_FIXED\<close> a successful \<^verbatim>\<open>mmap\<close> returns the address it was given.\<close>

definition mmap_exact :: "'h MapHost \<Rightarrow> bool" where
  "mmap_exact mh \<longleftrightarrow> (\<forall>a l p sh d off k b. fst (mh_mmap mh a l p sh False d off k) = Moved b \<longrightarrow> b = a)"

lemma entries_disjoint:
  assumes "regions_wf RegionSize m" "map_of m a = Some i" "map_of m b = Some j" "a \<noteq> b"
  shows "\<not> overlaps a (RegionSize i) b (RegionSize j)"
  using sorted_wrt_pair_cases [OF conjunct1 [OF assms(1) [unfolded regions_wf_def]] map_of_SomeD [OF assms(2)] map_of_SomeD [OF assms(3)]] assms(4)
  by (auto simp: overlaps_def)

lemma entry_free_of_allocations:
  assumes sh: "vm_shape pg v" and i: "map_of (g_mappings v) b = Some i" "map_of (g_virtualAllocations v) b = None"
  shows "free_range vsize (g_virtualAllocations v) b (RegionSize i)"
  unfolding free_range_def
proof
  fix e assume e: "e \<in> set (g_virtualAllocations v)"
  then have "owns (g_mappings v) e" using sh by (simp add: vm_shape_def)
  then obtain j where j: "map_of (g_mappings v) (fst e) = Some j" "RegionSize j = vsize (snd e)"
    by (auto simp: owns_def split: option.splits)
  have "fst e \<noteq> b" using i(2) e by (metis map_of_eq_None_iff image_eqI)
  moreover have "regions_wf RegionSize (g_mappings v)" using sh by (simp add: vm_shape_def)
  ultimately show "\<not> overlaps (fst e) (vsize (snd e)) b (RegionSize i)" using entries_disjoint [of "g_mappings v" "fst e" j b i] i(1) j by auto
qed

text \<open>The outcomes of the part of a call that changes the tables.\<close>

definition mapped :: "nat \<Rightarrow> nat \<Rightarrow> nat \<Rightarrow> u32 \<Rightarrow> u32 \<Rightarrow> nat \<Rightarrow> VmState \<Rightarrow> VmState" where
  "mapped pg c l ap p prot v =
     registerViewRange pg c l ap p (log_call c l prot (recordGuestMapping c (alignUp l pg) PAGE_NOACCESS MEM_RESERVE PAGE_NOACCESS MEM_MAPPED v))"

definition room :: "nat \<Rightarrow> nat \<Rightarrow> nat \<Rightarrow> VmState \<Rightarrow> bool" where
  "room pg c l v \<longleftrightarrow> free_range RegionSize (g_mappings v) c (alignUp l pg) \<and> kVirtualAllocationGranularity dvd c \<and>
     kLowMemoryStart \<le> c \<and> c + alignUp l pg \<le> kTopDownStart \<and> l \<le> alignUp l pg \<and> 0 < l"

lemma release_reserved:
  assumes "vm_shape pg v" "room pg c l v"
  shows "releaseViewRange c (recordGuestMapping c (alignUp l pg) ap st p t v) = v"
proof -
  have "c \<notin> fst ` set (g_mappings v)"
    using assms free_range_key [of RegionSize "g_mappings v" c "alignUp l pg"] by (simp add: vm_shape_def room_def)
  moreover have "c \<noteq> 0" using assms(2) by (auto simp: room_def kLowMemoryStart_def)
  ultimately show ?thesis by (simp add: releaseViewRange_def eraseGuestMapping_def recordGuestMapping_def omap_erase_put)
qed

lemma map_pages_cases:
  assumes sh: "vm_shape pg (vm s)" and pg: "page_size pg" and l: "l < 2 ^ 32" and ex: "mmap_exact mh"
    and m: "map_pages pg mh p access prot offset delta len l 0 s = (a, s')"
  obtains (failed) "a = 0" "vm s' = vm s" "g_viewInfo s' = g_viewInfo s" "objects s' = deref p (objects s)" "table s' = table s"
  | (ok) c k where "room pg c l (vm s)" "a = c + delta"
      "s' = emplace_view (view_record pg access (mprotect (maps s p)) True c delta len l p)
         (s\<lparr>vm := mapped pg c l (mprotect (maps s p)) (desiredAccessToProtect access (mprotect (maps s p))) prot (vm s), fhost := k\<rparr>)"
proof -
  obtain st c v1 where r: "reserveViewRange pg l 0 0 (vm s) = ((st, c), v1)" by (metis surj_pair)
  show thesis
  proof (cases "st = Success")
    case False
    have "v1 = vm s" using r False by (auto simp: reserveViewRange_def Let_def split: if_splits option.splits)
    then show thesis using m False
      by (intro failed) (auto simp: map_pages_def view_place_def r Let_def unpin_def setLastError_def)
  next
    case True
    note g = reserveViewRange_Success [OF sh pg l r [unfolded True]]
    have rm: "room pg c l (vm s)" using g by (simp add: room_def)
    let ?mm = "mh_mmap mh c l prot (\<not> fcopy (fileMapAccessFromDesiredAccess access)) False (if anonymous (maps s p) then -1 else mfd (maps s p))
      (if anonymous (maps s p) then 0 else as_off_t (aligned_offset pg offset)) (fhost s)"
    obtain res k where mm: "?mm = (res, k)" by fastforce
    show thesis
    proof (cases res)
      case (Failed e)
      then show thesis using m True release_reserved [OF sh rm] g(1) mm
        by (intro failed) (auto simp: map_pages_def view_place_def r Let_def unpin_def setLastError_def)
    next
      case (Moved b)
      have "b = c" using ex mm Moved unfolding mmap_exact_def by (metis fst_conv)
      then show thesis using m True g(1) mm Moved
        by (intro ok [OF rm, of k]) (auto simp: map_pages_def view_place_def r Let_def mapped_def view_record_def)
    qed
  qed
qed

lemma mapped_inv:
  assumes inv: "vm_inv md pg v" and pg: "page_size pg" and rm: "room pg c l v"
  shows "vm_inv md pg (mapped pg c l ap p prot v)" "vm_keeps v (mapped pg c l ap p prot v)"
    "map_of (g_virtualAllocations (mapped pg c l ap p prot v)) c = None"
    "\<exists>i. map_of (g_mappings (mapped pg c l ap p prot v)) c = Some i \<and> RegionSize i = alignUp l pg"
proof -
  have sh: "vm_shape pg v" using inv by (simp add: vm_inv_def)
  have c0: "c \<noteq> 0" using rm by (auto simp: room_def kLowMemoryStart_def)
  have pos: "0 < alignUp l pg" using rm by (auto simp: room_def)
  have hi: "c + alignUp l pg \<le> kTwoGB" using rm by (simp add: room_def kTopDownStart_def kTwoGB_def)
  have fr: "free_range RegionSize (g_mappings v) c (alignUp l pg)" using rm by (simp add: room_def)
  define v1 where "v1 = recordGuestMapping c (alignUp l pg) PAGE_NOACCESS MEM_RESERVE PAGE_NOACCESS MEM_MAPPED v"
  have v1: "vm_inv md pg v1" unfolding v1_def by (rule inv_record_new [OF inv fr pos hi])
  have none: "map_of (g_mappings v) c = None" by (rule free_not_key [OF sh fr pos])
  have noalloc: "map_of (g_virtualAllocations v) c = None"
  proof (rule ccontr)
    assume "map_of (g_virtualAllocations v) c \<noteq> None"
    then obtain r where "(c, r) \<in> set (g_virtualAllocations v)" by (auto dest: map_of_SomeD)
    then have "owns (g_mappings v) (c, r)" using sh by (auto simp: vm_shape_def)
    then show False using none by (simp add: owns_def)
  qed
  have "free_range vsize (g_virtualAllocations v) c (alignUp l pg)" by (rule free_range_owned [OF sh fr])
  then have "free_range vsize (g_virtualAllocations v1) c l"
    using free_range_sub [of vsize "g_virtualAllocations v" c "alignUp l pg" c l] rm by (simp add: v1_def recordGuestMapping_def room_def)
  from inv_call_outside [OF v1 this, of prot] have "vm_inv md pg (log_call c l prot v1)" by (simp add: log_call_def)
  moreover have "map_of (g_mappings (log_call c l prot v1)) c = Some \<lparr>BaseAddress = c, AllocationBase = c, AllocationProtect = PAGE_NOACCESS,
      RegionSize = alignUp l pg, MemState = MEM_RESERVE, Protect = PAGE_NOACCESS, MemType = MEM_MAPPED\<rparr>"
    by (simp add: log_call_def v1_def recordGuestMapping_def)
  ultimately show "vm_inv md pg (mapped pg c l ap p prot v)"
    unfolding mapped_def v1_def [symmetric] by (rule inv_registerViewRange) simp
  show "vm_keeps v (mapped pg c l ap p prot v)" "map_of (g_virtualAllocations (mapped pg c l ap p prot v)) c = None"
    "\<exists>i. map_of (g_mappings (mapped pg c l ap p prot v)) c = Some i \<and> RegionSize i = alignUp l pg"
    using none noalloc c0 by (auto simp: vm_keeps_def mapped_def registerViewRange_def log_call_def recordGuestMapping_def)
qed

text \<open>No view of the library has an address in a range that was free.\<close>

lemma room_no_view:
  assumes inv: "views_inv pg s" and rm: "room pg c l (vm s)" and d: "delta < l"
  shows "\<forall>view. map_of (g_viewInfo s) (c + delta) = Some view \<longrightarrow> \<not> managed view"
    "\<forall>e \<in> set (g_viewInfo s). managed (snd e) \<longrightarrow> vallocationBase (snd e) \<noteq> c"
proof -
  have n: "\<not> overlaps (vallocationBase (snd e)) (vallocationLength (snd e)) c l" if e: "e \<in> set (g_viewInfo s)" "managed (snd e)" for e
  proof -
    have ok: "view_ok pg (vm s) e" using inv e by (simp add: views_inv_def)
    then obtain i where i: "map_of (g_mappings (vm s)) (vallocationBase (snd e)) = Some i" "RegionSize i = alignUp (vallocationLength (snd e)) pg"
      unfolding view_ok_def by blast
    have "\<not> overlaps (vallocationBase (snd e)) (RegionSize i) c (alignUp l pg)"
      using rm map_of_SomeD [OF i(1)] by (force simp: room_def free_range_def)
    moreover have "vallocationLength (snd e) \<le> RegionSize i" "l \<le> alignUp l pg" using ok rm i(2) by (simp_all add: view_ok_def room_def)
    ultimately show ?thesis by (auto simp: overlaps_def)
  qed
  show "\<forall>view. map_of (g_viewInfo s) (c + delta) = Some view \<longrightarrow> \<not> managed view"
  proof (intro allI impI notI)
    fix view assume "map_of (g_viewInfo s) (c + delta) = Some view" and mg: "managed view"
    then have e: "(c + delta, view) \<in> set (g_viewInfo s)" by (auto dest: map_of_SomeD)
    then have "view_ok pg (vm s) (c + delta, view)" using inv mg by (auto simp: views_inv_def)
    with n [OF e] mg d show False by (auto simp: view_ok_def overlaps_def)
  qed
  show "\<forall>e \<in> set (g_viewInfo s). managed (snd e) \<longrightarrow> vallocationBase (snd e) \<noteq> c"
  proof (intro ballI impI)
    fix e assume e: "e \<in> set (g_viewInfo s)" "managed (snd e)"
    then have "0 < vallocationLength (snd e)" using inv by (auto simp: views_inv_def view_ok_def)
    with n [OF e] d show "vallocationBase (snd e) \<noteq> c" by (auto simp: overlaps_def)
  qed
qed

lemma granularity_page: "page_size pg \<Longrightarrow> kVirtualAllocationGranularity dvd c \<Longrightarrow> pg dvd c"
  by (meson dvd_trans page_size_def)

lemma views_inv_emplace:
  assumes inv: "views_inv pg s" and pl: "view_placed (viewBase view, view)"
    and ok: "managed view \<Longrightarrow> view_ok pg (vm s) (viewBase view, view)"
    and un: "managed view \<Longrightarrow> \<forall>e \<in> set (g_viewInfo s). managed (snd e) \<longrightarrow> vallocationBase (snd e) \<noteq> vallocationBase view"
  shows "views_inv pg (emplace_view view s)"
proof (cases "map_of (g_viewInfo s) (viewBase view)")
  case None
  have un': False if "managed view" "(a, b) \<in> set (g_viewInfo s)" "managed b" "vallocationBase view = vallocationBase b" for a b
    using un [OF that(1)] that(2-4) by fastforce
  show ?thesis
    using inv pl ok set_omap_put_new [OF None, of view] sorted_omap_put [of "g_viewInfo s"]
    by (auto simp: views_inv_def emplace_view_def None intro: FalseE [OF un'] FalseE [OF un' [OF _ _ _ sym]])
next
  case (Some old)
  then show ?thesis using inv by (simp add: emplace_view_def views_inv_def unpin_def)
qed

lemma map_pages_inv:
  assumes inv: "views_inv pg s" and pg: "page_size pg" and l: "l < 2 ^ 32" and ex: "mmap_exact mh" and d: "delta < l"
  shows "views_inv pg (snd (map_pages pg mh p access prot offset delta len l 0 s))"
proof -
  have sh: "vm_shape pg (vm s)" using inv by (simp add: views_inv_def vm_inv_def)
  obtain a s' where m: "map_pages pg mh p access prot offset delta len l 0 s = (a, s')" by fastforce
  show ?thesis
  proof (cases rule: map_pages_cases [OF sh pg l ex m])
    case 1
    then show ?thesis using inv by (simp add: m views_inv_def)
  next
    case (2 c k)
    let ?v = "mapped pg c l (mprotect (maps s p)) (desiredAccessToProtect access (mprotect (maps s p))) prot (vm s)"
    let ?view = "view_record pg access (mprotect (maps s p)) True c delta len l p"
    have vi: "vm_inv AnyProt pg (vm s)" using inv by (simp add: views_inv_def)
    note mi = mapped_inv [OF vi pg 2(1), of "mprotect (maps s p)" "desiredAccessToProtect access (mprotect (maps s p))" prot]
    have old: "views_inv pg (s\<lparr>vm := ?v, fhost := k\<rparr>)" by (rule views_inv_vm [OF inv mi(1,2)]) simp_all
    have "view_ok pg ?v (c + delta, ?view)"
      using 2(1) mi(3,4) d granularity_page [OF pg]
      by (auto simp: view_ok_def view_record_def Let_def room_def kLowMemoryStart_def)
    then have "views_inv pg (emplace_view ?view (s\<lparr>vm := ?v, fhost := k\<rparr>))"
      using room_no_view(2) [OF inv 2(1) d] d
      by (intro views_inv_emplace [OF old]) (auto simp: view_placed_def view_record_def Let_def)
    then show ?thesis by (simp add: m 2(3))
  qed
qed

text \<open>A call at an address of the caller touches no table of the virtual memory, and its view is not managed.\<close>

lemma inv_any_call: "vm_inv AnyProt pg v \<Longrightarrow> vm_inv AnyProt pg (log_call a l prot v)"
  by (auto simp: vm_inv_def host_ok_def pages_ok_def log_call_def)

lemma keeps_log_call [simp]: "vm_keeps v (log_call a l prot v)"
  by (simp add: vm_keeps_def log_call_def)

lemma map_pages_explicit:
  assumes inv: "views_inv pg s" and d: "delta < l" and b: "base \<noteq> 0"
  shows "views_inv pg (snd (map_pages pg mh p access prot offset delta len l base s))"
proof -
  have vi: "vm_inv AnyProt pg (vm s)" using inv by (simp add: views_inv_def)
  have fail: "views_inv pg (unpin p (setLastError e (s\<lparr>vm := v, fhost := k\<rparr>)))" if "vm_inv AnyProt pg v" "vm_keeps (vm s) v" for e v k
    by (rule views_inv_vm [OF inv that]) (simp_all add: unpin_def setLastError_def)
  obtain r where r: "view_place pg base delta l (vm s) = (r, vm s)" using b by (cases "fst (view_place pg base delta l (vm s))") (auto simp: view_place_def split: if_splits)
  show ?thesis
  proof (cases r)
    case (Inl e)
    then show ?thesis using fail [OF vi, of e "fhost s"] by (simp add: map_pages_def r Let_def)
  next
    case (Inr c)
    obtain res k where mm: "mh_mmap mh c l prot (\<not> fcopy (fileMapAccessFromDesiredAccess access)) True
        (if anonymous (maps s p) then -1 else mfd (maps s p))
        (if anonymous (maps s p) then 0 else as_off_t (aligned_offset pg offset)) (fhost s) = (res, k)" by fastforce
    show ?thesis
    proof (cases res)
      case (Failed e)
      then show ?thesis using fail [OF vi] b by (simp add: map_pages_def r Inr Let_def mm)
    next
      case (Moved a)
      let ?v = "log_call a l prot (vm s)" and ?view = "view_record pg access (mprotect (maps s p)) False a delta len l p"
      have v: "vm_inv AnyProt pg ?v" by (rule inv_any_call [OF vi])
      have "views_inv pg (s\<lparr>vm := ?v, fhost := k\<rparr>)" by (rule views_inv_vm [OF inv v]) simp_all
      then have ok: "views_inv pg (emplace_view ?view (s\<lparr>vm := ?v, fhost := k\<rparr>))"
        by (rule views_inv_emplace) (use d in \<open>simp_all add: view_placed_def view_record_def Let_def\<close>)
      have "vm_keeps (vm s) (log_call a l PROT_NONE ?v)" by (rule keeps_trans [of _ ?v]) simp_all
      with fail [OF inv_any_call [OF v]] ok show ?thesis
        using b Moved by (simp add: map_pages_def r Inr Let_def mm)
    qed
  qed
qed

lemma mapViewOfFileInternal_inv:
  assumes inv: "views_inv pg s" and pg: "page_size pg" and ex: "mmap_exact mh" and w: "offset < 2 ^ 64" "n < 2 ^ 32"
  shows "views_inv pg (snd (mapViewOfFileInternal pg mh p access offset n base s))"
proof -
  have f: "views_inv pg (unpin p (setLastError e s))" for e
    using inv by (simp add: views_inv_def unpin_def setLastError_def)
  have "views_inv pg (snd (map_pages pg mh p access prot offset delta len ((len + delta) mod 2 ^ 64) base s))"
    if "0 < len" "\<not> (len + delta) mod 2 ^ 64 < len" "(len + delta) mod 2 ^ 64 mod 2 ^ 32 = (len + delta) mod 2 ^ 64" "delta < 2 ^ 32" for prot delta len
  proof -
    have small: "(len + delta) mod 2 ^ 64 < 2 ^ 32" using that(3) by (metis mod_less_divisor zero_less_numeral zero_less_power)
    then have "len < 2 ^ 32" using that(2) by simp
    then have "(len + delta) mod 2 ^ 64 = len + delta" using that(4) by simp
    then have "delta < (len + delta) mod 2 ^ 64" using that(1) by simp
    from map_pages_inv [OF inv pg small ex this] map_pages_explicit [OF inv this] show ?thesis by (cases "base = 0") simp_all
  qed
  note core = this
  have len0: "0 < len" if "view_length mx off n = Some len" for mx off len
    using that by (auto simp: view_length_def Let_def split: if_splits)
  show ?thesis
  proof (cases "view_length (maxSize (maps s p)) offset n")
    case None
    then show ?thesis using inv f by (simp add: mapViewOfFileInternal_def Let_def)
  next
    case len: (Some len)
    show ?thesis
    proof (cases "view_prot (mprotect (maps s p)) (fileMapAccessFromDesiredAccess access)")
      case None
      then show ?thesis using len inv f by (simp add: mapViewOfFileInternal_def Let_def)
    next
      case (Some prot)
      define delta where "delta = (offset - (if anonymous (maps s p) then 0 else aligned_offset pg offset)) mod 2 ^ 32"
      define R where "R = (len + delta) mod 2 ^ 64"
      have "delta < 2 ^ 32" by (simp add: delta_def)
      from core [OF len0 [OF len] _ _ this, of prot, folded R_def]
      have "\<not> R < len \<Longrightarrow> R mod 2 ^ 32 = R \<Longrightarrow> views_inv pg (snd (map_pages pg mh p access prot offset delta len R base s))" .
      then show ?thesis
        unfolding mapViewOfFileInternal_def Let_def len Some option.case delta_def [symmetric] R_def [symmetric]
        by (simp only: f split: if_split) (simp add: f)
    qed
  qed
qed

lemma MapViewOfFileEx_inv:
  assumes inv: "views_inv pg s" and pg: "page_size pg" and ex: "mmap_exact mh" and w: "n < 2 ^ 32"
  shows "views_inv pg (snd (MapViewOfFileEx pg mh h access offHigh offLow n base s))"
proof -
  obtain r s1 where g: "getAs Mapping h s = (r, s1)" by fastforce
  have "vm s1 = vm s \<and> g_viewInfo s1 = g_viewInfo s" using g by (auto simp: getAs_def get_def split: option.splits if_splits)
  then have i1: "views_inv pg s1" using inv by (simp add: views_inv_def)
  have "unat offHigh * 2 ^ 32 + unat offLow < 2 ^ 64" using unat_u32_less [of offHigh] unat_u32_less [of offLow] by simp
  from mapViewOfFileInternal_inv [OF i1 pg ex this w] show ?thesis
    using i1 by (auto simp: MapViewOfFileEx_def g views_inv_def setLastError_def split: option.splits)
qed

lemma UnmapViewOfFile_inv:
  assumes inv: "views_inv pg s" and pg: "page_size pg"
  shows "views_inv pg (snd (UnmapViewOfFile mh a s))"
proof (cases "map_of (g_viewInfo s) a")
  case None
  then show ?thesis using inv by (simp add: UnmapViewOfFile_def views_inv_def setLastError_def)
next
  case (Some view)
  let ?v = "log_call (vallocationBase view) (vallocationLength view) PROT_NONE (vm s)"
  define w where "w = (if managed view then releaseViewRange (vallocationBase view) ?v else ?v)"
  have e: "(a, view) \<in> set (g_viewInfo s)" by (rule map_of_SomeD [OF Some])
  have pl: "view_placed (a, view)" and ok: "managed view \<Longrightarrow> view_ok pg (vm s) (a, view)" using inv e by (auto simp: views_inv_def)
  have vi: "vm_inv AnyProt pg ?v" using inv by (intro inv_any_call) (simp add: views_inv_def)
  have wi: "vm_inv AnyProt pg w"
  proof (cases "managed view")
    case True
    then have "map_of (g_virtualAllocations (vm s)) (vallocationBase view) = None" using ok by (simp add: view_ok_def)
    then show ?thesis using True inv_releaseViewRange [OF vi] by (simp add: w_def log_call_def)
  qed (simp add: w_def vi)
  have "view_ok pg w e'" if e': "e' \<in> set (g_viewInfo s)" "fst e' \<noteq> a" "managed (snd e')" for e'
  proof -
    have "managed view \<Longrightarrow> vallocationBase (snd e') \<noteq> vallocationBase view" using inv e e' by (fastforce simp: views_inv_def)
    moreover have "view_ok pg (vm s) e'" using inv e' by (simp add: views_inv_def)
    ultimately show ?thesis by (auto simp: w_def view_ok_def releaseViewRange_def eraseGuestMapping_def log_call_def)
  qed
  moreover have "vallocationLength view \<noteq> 0" using pl by (auto simp: view_placed_def)
  moreover have "sorted_wrt (<) (map fst (omap_erase a (g_viewInfo s)))"
    using inv by (simp add: views_inv_def omap_erase_def sorted_wrt_map sorted_wrt_filter)
  moreover have "vm (snd (UnmapViewOfFile mh a s)) = w" "g_viewInfo (snd (UnmapViewOfFile mh a s)) = omap_erase a (g_viewInfo s)"
    using \<open>vallocationLength view \<noteq> 0\<close> by (simp_all add: w_def UnmapViewOfFile_def Some Let_def)
  ultimately show ?thesis using inv wi by (simp add: views_inv_def set_omap_erase)
qed

end
