(* ===== verification/View_Properties.thy ===== *)
theory View_Properties
  imports View_Invariant
begin

text \<open>
  What the calls on mappings and on private memory promise together: views and allocations stay disjoint in every state that
  sequences of calls reach, a view is found by queries until it is unmapped, and unmapping it undoes the call that mapped it.
\<close>

section \<open>Sequences of calls\<close>

text \<open>
  One call. The arguments are 32-bit values; protections are arbitrary, and a view is mapped where the library chooses
  (\<open>base = 0\<close>, which is \<^verbatim>\<open>MapViewOfFile\<close>) or at any address of the caller. Calls that concern neither memory nor views, such as
  closing a handle, change the rest of the state in any way. The host calls may fail in any way.
\<close>

inductive map_step :: "nat \<Rightarrow> 'h MapHost \<Rightarrow> ('h, 'a) MapWorld_scheme \<Rightarrow> ('h, 'a) MapWorld_scheme \<Rightarrow> bool" for pg :: nat and mh :: "'h MapHost" where
  step_create: "map_step pg mh s (snd (CreateFileMappingA mh q hFile protect sizeHigh sizeLow s))"
| step_map: "n < 2 ^ 32 \<Longrightarrow> map_step pg mh s (snd (MapViewOfFileEx pg mh h access offHigh offLow n base s))"
| step_unmap: "map_step pg mh s (snd (UnmapViewOfFile mh a s))"
| step_flush: "map_step pg mh s (snd (FlushViewOfFile pg mh a n s))"
| step_valloc: "request < 2 ^ 32 \<Longrightarrow> n < 2 ^ 32 \<Longrightarrow> host_bounded mmap \<Longrightarrow>
    map_step pg mh s (snd (VirtualAlloc pg mmap madvise request n allocationType protect s))"
| step_vfree: "base < 2 ^ 32 \<Longrightarrow> map_step pg mh s (snd (VirtualFree pg mmap base n freeType s))"
| step_vprotect: "base < 2 ^ 32 \<Longrightarrow> map_step pg mh s (snd (VirtualProtect pg mprot base n protect s))"
| step_arena: "maxAddr \<le> kTwoGB \<Longrightarrow> map_step pg mh s (s\<lparr>vm := snd (mapArena pg mmap n minAddr maxAddr tp (vm s))\<rparr>)"
| step_stack: "map_step pg mh s (s\<lparr>vm := snd (reserveGuestStack pg mmap mprot n (vm s))\<rparr>)"
| step_other: "vm t = vm s \<Longrightarrow> g_viewInfo t = g_viewInfo s \<Longrightarrow> map_step pg mh s t"

definition map_init :: "('h, 'a) MapWorld_scheme \<Rightarrow> bool" where
  "map_init s \<longleftrightarrow> vm_init (vm s) \<and> g_viewInfo s = []"

definition map_run :: "nat \<Rightarrow> 'h MapHost \<Rightarrow> ('h, 'a) MapWorld_scheme \<Rightarrow> ('h, 'a) MapWorld_scheme \<Rightarrow> bool" where
  "map_run pg mh s t \<longleftrightarrow> page_size pg \<and> mmap_exact mh \<and> map_step pg mh s t"

lemma alloc_views [simp]: "vm (snd (alloc q ga fl s)) = vm s" "g_viewInfo (snd (alloc q ga fl s)) = g_viewInfo s"
  for s :: "('h, 'a) MapWorld_scheme"
  by (simp_all add: alloc_def Let_def split: prod.splits)

lemma getFile_views: "getFile h s = (r, s') \<Longrightarrow> vm s' = vm s \<and> g_viewInfo s' = g_viewInfo s"
  for s :: "('h, 'a) MapWorld_scheme"
  by (auto simp: getFile_def get_def unpin_def split: option.splits if_splits)

lemma CreateFileMappingA_views:
  "vm (snd (CreateFileMappingA mh q h p hi lo s)) = vm s \<and> g_viewInfo (snd (CreateFileMappingA mh q h p hi lo s)) = g_viewInfo s"
proof -
  obtain r s1 where g: "getFile h s = (r, s1)" by fastforce
  note v = getFile_views [OF g]
  define n where "n = unat hi * 2 ^ 32 + unat lo"
  show ?thesis
    unfolding CreateFileMappingA_def n_def [symmetric] Let_def g prod.case
    by (simp only: split: if_split option.split prod.split sum.split) (simp add: v setLastError_def unpin_def)
qed

lemma FlushViewOfFile_views:
  "vm (snd (FlushViewOfFile pg mh a n s)) = vm s \<and> g_viewInfo (snd (FlushViewOfFile pg mh a n s)) = g_viewInfo s"
  by (auto simp: FlushViewOfFile_def setLastError_def split: prod.splits option.splits sum.splits)

lemma Virtual_vm:
  "vm (snd (VirtualAlloc pg mmap madvise a n at p s)) = snd (virtualAlloc pg mmap madvise a n at p MEM_PRIVATE (vm s))"
  "g_viewInfo (snd (VirtualAlloc pg mmap madvise a n at p s)) = g_viewInfo s"
  "vm (snd (VirtualFree pg mmap a n ft s)) = snd (virtualFree pg mmap a n ft (vm s))"
  "g_viewInfo (snd (VirtualFree pg mmap a n ft s)) = g_viewInfo s"
  "vm (snd (VirtualProtect pg mmap a n p s)) = snd (virtualProtect pg mmap a n p (vm s))"
  "g_viewInfo (snd (VirtualProtect pg mmap a n p s)) = g_viewInfo s"
  by (simp_all add: VirtualAlloc_def VirtualFree_def VirtualProtect_def setLastError_def split: prod.splits)

lemma map_step_inv:
  assumes inv: "views_inv pg s" and run: "map_run pg mh s t"
  shows "views_inv pg t"
proof -
  have pg: "page_size pg" and ex: "mmap_exact mh" and st: "map_step pg mh s t" using run by (simp_all add: map_run_def)
  have any: "grants AnyProt q" for q by (simp add: grants_def)
  have vi: "vm_inv AnyProt pg (vm s)" using inv by (simp add: views_inv_def)
  then have sh: "vm_shape pg (vm s)" by (simp add: vm_inv_def)
  have same: "views_inv pg u" if "vm u = vm s" "g_viewInfo u = g_viewInfo s" for u
    using inv that by (simp add: views_inv_def)
  note through = views_inv_vm [OF inv, where s' = t]
  from st show ?thesis
  proof (cases rule: map_step.cases)
    case step_create
    then show ?thesis using same CreateFileMappingA_views by metis
  next
    case step_map
    then show ?thesis using MapViewOfFileEx_inv [OF inv pg ex] by simp
  next
    case step_unmap
    then show ?thesis using UnmapViewOfFile_inv [OF inv pg] by simp
  next
    case step_flush
    then show ?thesis using same FlushViewOfFile_views by metis
  next
    case (step_valloc request n mmap madvise allocationType protect)
    then show ?thesis
      by (intro through [OF inv_virtualAlloc [OF vi pg] keeps_virtualAlloc [OF sh pg]]) (simp_all add: Virtual_vm any)
  next
    case (step_vfree base mmap n freeType)
    then show ?thesis
      using through [OF inv_virtualFree [OF vi pg] keeps_virtualFree [OF sh]] by (simp add: Virtual_vm)
  next
    case (step_vprotect base mprot n protect)
    then show ?thesis
      using through [OF inv_virtualProtect [OF vi pg] keeps_virtualProtect [OF sh]] by (simp add: Virtual_vm any)
  next
    case (step_arena maxAddr mmap n minAddr tp)
    then show ?thesis using through [OF inv_mapArena [OF vi pg] keeps_mapArena [OF sh pg]] by simp
  next
    case (step_stack mmap mprot n)
    then show ?thesis using through [OF inv_reserveGuestStack [OF vi pg] keeps_reserveGuestStack [OF sh pg]] by simp
  next
    case step_other
    then show ?thesis by (rule same)
  qed
qed

interpretation views: inductive_invariant map_init "map_run pg mh" "views_inv pg" for pg mh
proof unfold_locales
  show "views_inv pg s" if "map_init s" for s :: "('a, 'b) MapWorld_scheme"
    using that by (simp add: map_init_def views_inv_def vm_inv_init)
qed (rule map_step_inv)

section \<open>Views and allocations are disjoint\<close>

text \<open>
  C16: in every state that sequences of calls reach, calls at addresses of the caller included, a view that the library placed lies
  below the 2 GB line in a range that it has recorded as taken, and shares no address with an allocation of
  private memory or with another view that the library placed. (A view at an address of the caller is not recorded; see the end
  of this theory.)
\<close>

theorem views_reachable:
  assumes "reach map_init (map_run pg mh) s" "(a, view) \<in> set (g_viewInfo s)" "managed view"
  shows "vallocationBase view \<le> a \<and> a < vallocationBase view + vallocationLength view \<and>
     vallocationBase view + vallocationLength view \<le> kTwoGB \<and>
     (\<exists>i. (vallocationBase view, i) \<in> set (g_mappings (vm s)) \<and> RegionSize i = alignUp (vallocationLength view) pg) \<and>
     free_range vsize (g_virtualAllocations (vm s)) (vallocationBase view) (vallocationLength view) \<and>
     (\<forall>(b, other) \<in> set (g_viewInfo s). managed other \<and> b \<noteq> a \<longrightarrow>
        \<not> overlaps (vallocationBase view) (vallocationLength view) (vallocationBase other) (vallocationLength other))"
proof -
  have inv: "views_inv pg s" using assms(1) by (rule views.reach_invar)
  then have ok: "view_ok pg (vm s) (a, view)" and sh: "vm_shape pg (vm s)" using assms(2,3) by (auto simp: views_inv_def vm_inv_def)
  then obtain i where i: "map_of (g_mappings (vm s)) (vallocationBase view) = Some i" "RegionSize i = alignUp (vallocationLength view) pg"
    by (auto simp: view_ok_def)
  have mi: "(vallocationBase view, i) \<in> set (g_mappings (vm s))" by (rule map_of_SomeD [OF i(1)])
  have na: "map_of (g_virtualAllocations (vm s)) (vallocationBase view) = None" and le: "vallocationLength view \<le> RegionSize i"
    using ok i(2) by (simp_all add: view_ok_def)
  have "mapping_ok (vallocationBase view, i)" using sh mi by (simp add: vm_shape_def)
  then have "vallocationBase view + vallocationLength view \<le> kTwoGB" using le by (simp add: mapping_ok_def)
  moreover have "free_range vsize (g_virtualAllocations (vm s)) (vallocationBase view) (vallocationLength view)"
    by (rule free_range_sub [OF entry_free_of_allocations [OF sh i(1) na]]) (use le in simp_all)
  moreover have "\<not> overlaps (vallocationBase view) (vallocationLength view) (vallocationBase other) (vallocationLength other)"
    if "(b, other) \<in> set (g_viewInfo s)" "managed other" "b \<noteq> a" for b other
    using views_disjoint [OF inv assms(2) that(1)] that(2,3) assms(3) by simp
  moreover have "vallocationBase view \<le> a \<and> a < vallocationBase view + vallocationLength view" using ok by (simp add: view_ok_def)
  ultimately show ?thesis using mi i(2) by blast
qed

section \<open>The life of a view\<close>

lemma find_unique:
  assumes "x \<in> set xs" "P x" and u: "\<And>y. y \<in> set xs \<Longrightarrow> P y \<Longrightarrow> y = x"
  shows "find P xs = Some x"
proof (cases "find P xs")
  case None
  then show ?thesis using assms(1,2) by (auto simp: find_None_iff)
next
  case (Some y)
  then have "y \<in> set xs" "P y" by (auto simp: find_Some_iff)
  from u [OF this] Some show ?thesis by simp
qed

lemma views_bounded:
  assumes "views_inv pg s" "(a, view) \<in> set (g_viewInfo s)" "managed view"
  shows "addp (vallocationBase view) (vallocationLength view) = vallocationBase view + vallocationLength view"
proof -
  have ok: "view_ok pg (vm s) (a, view)" and sh: "vm_shape pg (vm s)" using assms by (auto simp: views_inv_def vm_inv_def)
  then obtain i where i: "(vallocationBase view, i) \<in> set (g_mappings (vm s))" "vallocationLength view \<le> RegionSize i"
    by (auto simp: view_ok_def dest: map_of_SomeD)
  then have "mapping_ok (vallocationBase view, i)" using sh by (simp add: vm_shape_def)
  then show ?thesis using i(2) by (intro addp_eq) (simp add: mapping_ok_def kTwoGB_def)
qed

text \<open>
  A query inside a view of the library finds that view and no other, as long as every view at an address of a caller
  lies outside the range where the library places views.
\<close>

definition callers_views_apart :: "('h, 'a) MapWorld_scheme \<Rightarrow> bool" where
  "callers_views_apart s \<longleftrightarrow> (\<forall>(b, view) \<in> set (g_viewInfo s). managed view \<or>
     vallocationBase view + vallocationLength view \<le> kLowMemoryStart \<or> kTopDownStart \<le> vallocationBase view)"

lemma query_view:
  assumes inv: "views_inv pg s" and ap: "callers_views_apart s" and e: "(a, view) \<in> set (g_viewInfo s)" "managed view"
    and l: "viewLength view \<noteq> 0" and pb: "vallocationBase view \<le> pb" "pb < vallocationBase view + vallocationLength view"
    and lo: "kLowMemoryStart \<le> pb" "pb < kTopDownStart"
    and x: "viewBase view \<le> x" "x < addp (viewBase view) (viewLength view)"
  shows "mappedViewRegionForAddress pg x pb (g_viewInfo s) = mappedViewRegionForAddress pg x pb [(a, view)]"
proof -
  let ?P = "\<lambda>(k, view). viewLength view \<noteq> 0 \<and>
    \<not> (pb < vallocationBase view \<or> pb \<ge> addp (vallocationBase view) (vallocationLength view)) \<and>
    \<not> (x \<noteq> 0 \<and> (x < viewBase view \<or> x \<ge> addp (viewBase view) (viewLength view)))"
  have P: "?P (a, view)" using views_bounded [OF inv e] l pb x by simp
  have "find ?P (g_viewInfo s) = Some (a, view)"
  proof (rule find_unique [where P = ?P, OF e(1) P])
    fix y assume y: "y \<in> set (g_viewInfo s)" "?P y"
    obtain b other where [simp]: "y = (b, other)" by fastforce
    have "addp (vallocationBase other) (vallocationLength other) \<le> vallocationBase other + vallocationLength other"
      unfolding addp_def by (rule mod_less_eq_dividend)
    then have mg: "managed other" using y ap lo by (auto simp: callers_views_apart_def)
    have "overlaps (vallocationBase view) (vallocationLength view) (vallocationBase other) (vallocationLength other)"
      using y views_bounded [OF inv, of b other] mg pb by (auto simp: overlaps_def)
    then show "y = (a, view)" using views_disjoint [OF inv e(1) y(1)] e(2) mg by auto
  qed
  moreover have "find ?P [(a, view)] = Some (a, view)" using P by simp
  ultimately show ?thesis unfolding mappedViewRegionForAddress_def by simp
qed

text \<open>The two outcomes of mapping a view where the library chooses the place.\<close>

lemma mapViewOfFileInternal_cases:
  assumes sh: "vm_shape pg (vm s)" and pg: "page_size pg" and ex: "mmap_exact mh"
    and m: "mapViewOfFileInternal pg mh p access offset n 0 s = (a, s')"
  obtains (failed) "a = 0" "vm s' = vm s" "g_viewInfo s' = g_viewInfo s" "objects s' = deref p (objects s)" "table s' = table s"
  | (ok) c delta len k where "view_length (maxSize (maps s p)) offset n = Some len" "0 < len" "room pg c (len + delta) (vm s)"
      "len + delta < 2 ^ 32" "a = c + delta"
      "\<exists>prot. view_prot (mprotect (maps s p)) (fileMapAccessFromDesiredAccess access) = Some prot \<and>
         s' = emplace_view (view_record pg access (mprotect (maps s p)) True c delta len (len + delta) p)
         (s\<lparr>vm := mapped pg c (len + delta) (mprotect (maps s p)) (desiredAccessToProtect access (mprotect (maps s p))) prot (vm s), fhost := k\<rparr>)"
proof -
  define delta where "delta = (offset - (if anonymous (maps s p) then 0 else aligned_offset pg offset)) mod 2 ^ 32"
  show thesis
  proof (cases "\<exists>e. (a, s') = (0, unpin p (setLastError e s))")
    case True
    then show thesis by (intro failed) (auto simp: unpin_def setLastError_def)
  next
    case False
    then obtain len prot where len: "view_length (maxSize (maps s p)) offset n = Some len"
      and pr: "view_prot (mprotect (maps s p)) (fileMapAccessFromDesiredAccess access) = Some prot"
      and r: "\<not> (len + delta) mod 2 ^ 64 < len" "(len + delta) mod 2 ^ 64 mod 2 ^ 32 = (len + delta) mod 2 ^ 64"
      and mp: "map_pages pg mh p access prot offset delta len ((len + delta) mod 2 ^ 64) 0 s = (a, s')"
      using m unfolding mapViewOfFileInternal_def Let_def delta_def [symmetric]
      by (simp only: split: if_splits option.splits) auto
    have "delta < 2 ^ 32" by (simp add: delta_def)
    moreover have small: "(len + delta) mod 2 ^ 64 < 2 ^ 32" using r(2) by (metis mod_less_divisor zero_less_numeral zero_less_power)
    moreover have "len < 2 ^ 32" using r(1) small by simp
    ultimately have eq: "(len + delta) mod 2 ^ 64 = len + delta" by simp
    have pos: "0 < len" using len by (auto simp: view_length_def Let_def split: if_splits)
    show thesis
    proof (cases rule: map_pages_cases [OF sh pg small ex mp])
      case 1
      then show thesis by (rule failed)
    next
      case (2 c k)
      then show thesis using ok [OF len pos, of c delta k] small pr unfolding eq by blast
    qed
  qed
qed

text \<open>The handle denotes the mapping object \<open>p\<close>, which the table keeps alive.\<close>

definition opens_mapping :: "HANDLE \<Rightarrow> objptr \<Rightarrow> 'a HState_scheme \<Rightarrow> bool" where
  "opens_mapping h p s \<longleftrightarrow> h \<noteq> NO_HANDLE \<and> \<not> isPseudo h \<and>
     (\<exists>idx e. entry_of (table s) h = Some (idx, e) \<and> obj e = Some p \<and> typeCache (meta e) = Mapping) \<and>
     (\<exists>ob. objects s p = Some ob \<and> otype ob = Mapping \<and> pointerCount ob \<noteq> 0)"

lemma getAs_opens:
  assumes "opens_mapping h p s"
  shows "\<exists>m. getAs Mapping h s = (Some (p, m), s\<lparr>objects := ref p (objects s)\<rparr>)"
  using assms by (auto simp: opens_mapping_def getAs_def get_def ref_def)

lemma opens_mapping_pin: "opens_mapping h p s \<Longrightarrow> deref p (ref p (objects s)) = objects s"
  using deref_ref by (auto simp: opens_mapping_def)

lemma omap_put_put: "omap_put k v (omap_put k w m) = omap_put k v m"
  by (induction m) auto

text \<open>The state with the new view in it: unmapping removes what mapping added.\<close>

lemma unmap_mapped:
  assumes sh: "vm_shape pg (vm s)" and rm: "room pg c l (vm s)" and no: "map_of (g_viewInfo s) (c + delta) = None"
    and s': "s' = emplace_view (view_record pg access pr True c delta len l p) (s\<lparr>vm := mapped pg c l ap q prot (vm s), fhost := k\<rparr>)"
  shows "\<exists>t. UnmapViewOfFile mh (c + delta) s' = (True, t) \<and> objects t = deref p (objects s) \<and> table t = table s \<and>
    g_viewInfo t = g_viewInfo s \<and> g_mappings (vm t) = g_mappings (vm s) \<and> g_virtualAllocations (vm t) = g_virtualAllocations (vm s)"
proof -
  let ?view = "view_record pg access pr True c delta len l p"
  have c0: "c \<noteq> 0" and l0: "l \<noteq> 0" using rm by (auto simp: room_def kLowMemoryStart_def)
  have vb: "viewBase ?view = c + delta" "vallocationBase ?view = c" "vallocationLength ?view = l" "owner ?view = p" "managed ?view"
    by (simp_all add: view_record_def Let_def)
  have views: "g_viewInfo s' = omap_put (c + delta) ?view (g_viewInfo s)" and rest: "objects s' = objects s" "table s' = table s"
      "vm s' = mapped pg c l ap q prot (vm s)"
    using no by (simp_all add: s' emplace_view_def vb)
  have erase: "omap_erase (c + delta) (omap_put (c + delta) ?view (g_viewInfo s)) = g_viewInfo s"
    by (rule omap_erase_put) (use no in \<open>simp add: map_of_eq_None_iff\<close>)
  have "g_mappings (releaseViewRange c (mapped pg c l ap q prot (vm s))) = g_mappings (vm s)"
    using release_reserved [OF sh rm, THEN arg_cong [where f = g_mappings]] c0
    by (simp add: mapped_def releaseViewRange_def registerViewRange_def eraseGuestMapping_def recordGuestMapping_def log_call_def omap_put_put)
  then show ?thesis
    using c0 l0 by (simp add: UnmapViewOfFile_def views vb Let_def unpin_def erase rest releaseViewRange_def eraseGuestMapping_def
      log_call_def mapped_def registerViewRange_def recordGuestMapping_def)
qed

text \<open>
  The new view answers a query for any of its bytes; the region ends on a page boundary, and nothing of it wraps.
\<close>

lemma query_mapped:
  assumes inv: "views_inv pg s'" and ap: "callers_views_apart s'" and pg: "page_size pg" and e: "(c + delta, view) \<in> set (g_viewInfo s')"
    and view: "view = view_record pg access pr True c delta len (len + delta) p"
    and rm: "room pg c (len + delta) v" and len: "0 < len" and x: "c + delta \<le> x" "x < c + delta + len"
  shows "\<exists>info. VirtualQuery pg x s' = Inr info \<and> BaseAddress info = c + delta \<and> AllocationBase info = c + delta \<and>
    x < c + delta + RegionSize info \<and> MemState info = MEM_COMMIT \<and> MemType info = MEM_MAPPED \<and>
    Protect info = desiredAccessToProtect access pr \<and> AllocationProtect info = pr"
proof -
  have pga: "alignment pg" using pg by (simp add: page_size_def)
  note ps = page_size_le [OF pg]
  have hi: "c + (len + delta) \<le> kTopDownStart" "0 < c" "pg dvd c"
    using rm granularity_page [OF pg] by (auto simp: room_def kLowMemoryStart_def)
  then have b: "len < 0x7F000000" "x < 0x7F000000" using x by (simp_all add: kTopDownStart_def)
  then have "len + pg \<le> 2 ^ 32" using ps by simp
  note au = alignUp_props [OF pga this]
  have vl: "viewLength view = alignUp len pg" using au(2) b(1) ps by (simp add: view view_record_def Let_def)
  have vr: "viewBase view = c + delta" "vallocationBase view = c" "vallocationLength view = len + delta" "vwtype view = MEM_MAPPED"
      "vprotect view = desiredAccessToProtect access pr" "vallocationProtect view = pr"
    by (simp_all add: view view_record_def Let_def)
  define e where "e = c + delta + alignUp len pg"
  have e: "addp (viewBase view) (viewLength view) = e" "x < e" "e + pg \<le> 2 ^ 32"
    using hi(1) au ps x b(1) by (simp_all add: vl vr e_def addp_eq kTopDownStart_def)
  have "x < 2 ^ 32" using b(2) by simp
  note ad = alignDown_props [OF pga this]
  have lo: "c \<le> alignDown x pg" using alignDown_greatest [OF pga \<open>x < 2 ^ 32\<close> hi(3)] x(1) by simp
  have le: "\<not> kProcessAddressLimit \<le> alignDown x pg" using ad(1) b(2) by (simp add: kProcessAddressLimit_def)
  have "mappedViewRegionForAddress pg x (alignDown x pg) (g_viewInfo s') = mappedViewRegionForAddress pg x (alignDown x pg) [(c + delta, view)]"
    by (rule query_view [OF inv ap assms(4)]) (use vr vl e lo ad(1) x au(1) len rm b(2) in \<open>simp_all add: view view_record_def Let_def room_def kTopDownStart_def\<close>)
  moreover have "addp (vallocationBase view) (vallocationLength view) = c + (len + delta)"
    using hi(1) by (simp add: vr addp_eq kTopDownStart_def)
  moreover have "viewLength view \<noteq> 0" using vl au(1) len by simp
  moreover have end_ge: "e \<le> alignUp e pg" using alignUp_props(1) [OF pga e(3)] .
  ultimately have "mappedViewRegionForAddress pg x (alignDown x pg) (g_viewInfo s') =
      Some \<lparr>BaseAddress = c + delta, AllocationBase = c + delta, AllocationProtect = pr, RegionSize = alignUp e pg - (c + delta),
        MemState = MEM_COMMIT, Protect = desiredAccessToProtect access pr, MemType = MEM_MAPPED\<rparr>"
    using lo ad(1) x e(1,2) vr by (simp add: mappedViewRegionForAddress_def Let_def)
  then show ?thesis using le end_ge e(2) x(1) unfolding VirtualQuery_def Let_def by simp
qed

section \<open>The protection of a view\<close>

text \<open>
  What a view of a mapping made by \<^verbatim>\<open>CreateFileMappingA\<close> should report for an access that reads or writes the file itself
  (\<^verbatim>\<open>FILE_MAP_COPY\<close> asks for a private copy, unless it comes with all other rights).
\<close>

definition plain_access :: "u32 \<Rightarrow> bool" where
  "plain_access access \<longleftrightarrow> access AND (FILE_MAP_READ OR FILE_MAP_WRITE) \<noteq> 0 \<and>
     (access AND FILE_MAP_COPY = 0 \<or> access AND FILE_MAP_ALL_ACCESS = FILE_MAP_ALL_ACCESS)"

definition plain_protection :: "u32 \<Rightarrow> u32" where
  "plain_protection access =
     (if access AND FILE_MAP_WRITE \<noteq> 0 then if access AND FILE_MAP_EXECUTE \<noteq> 0 then PAGE_EXECUTE_READWRITE else PAGE_READWRITE
      else if access AND FILE_MAP_EXECUTE \<noteq> 0 then PAGE_EXECUTE_READ else PAGE_READONLY)"

lemma all_access_bits:
  assumes "access AND FILE_MAP_ALL_ACCESS = FILE_MAP_ALL_ACCESS"
  shows "access AND FILE_MAP_WRITE \<noteq> 0" "access AND FILE_MAP_COPY \<noteq> 0"
proof -
  have "(access AND FILE_MAP_ALL_ACCESS) AND FILE_MAP_WRITE = access AND FILE_MAP_WRITE"
    "(access AND FILE_MAP_ALL_ACCESS) AND FILE_MAP_COPY = access AND FILE_MAP_COPY"
    by (simp_all add: and.assoc FILE_MAP_WRITE_def FILE_MAP_COPY_def FILE_MAP_ALL_ACCESS_def)
  moreover have "FILE_MAP_ALL_ACCESS AND FILE_MAP_WRITE \<noteq> 0" "FILE_MAP_ALL_ACCESS AND FILE_MAP_COPY \<noteq> 0"
    by (simp_all add: FILE_MAP_WRITE_def FILE_MAP_COPY_def FILE_MAP_ALL_ACCESS_def)
  ultimately show "access AND FILE_MAP_WRITE \<noteq> 0" "access AND FILE_MAP_COPY \<noteq> 0" by (simp_all add: assms)
qed

lemma or_bits_zero: "(a :: u32) AND (b OR c) = 0 \<longleftrightarrow> a AND b = 0 \<and> a AND c = 0"
  by (simp add: bit.conj_disj_distrib or_eq_0_iff)

lemma access_fields:
  defines "all access \<equiv> access AND FILE_MAP_ALL_ACCESS = FILE_MAP_ALL_ACCESS"
  shows "fcopy (fileMapAccessFromDesiredAccess access) \<longleftrightarrow> \<not> all access \<and> access AND FILE_MAP_COPY \<noteq> 0"
    "fwrite (fileMapAccessFromDesiredAccess access) \<longleftrightarrow> access AND FILE_MAP_WRITE \<noteq> 0 \<or> access AND FILE_MAP_COPY \<noteq> 0"
    "fread (fileMapAccessFromDesiredAccess access) \<longleftrightarrow>
       access AND FILE_MAP_READ \<noteq> 0 \<or> access AND FILE_MAP_WRITE \<noteq> 0 \<or> access AND FILE_MAP_COPY \<noteq> 0"
    "fexecute (fileMapAccessFromDesiredAccess access) \<longleftrightarrow> access AND FILE_MAP_EXECUTE \<noteq> 0"
  using all_access_bits [of access] by (auto simp: fileMapAccessFromDesiredAccess_def Let_def all_def or_bits_zero)

definition file_protections :: "u32 set" where
  "file_protections = {PAGE_READONLY, PAGE_READWRITE, PAGE_WRITECOPY}"

lemma protect_table:
  assumes a: "fileMapAccessFromDesiredAccess access = \<lparr>fread = r, fwrite = w, fexecute = x, fcopy = c\<rparr>"
  shows "desiredAccessToProtect access PAGE_READWRITE =
      (if w then if x then PAGE_EXECUTE_READWRITE else PAGE_READWRITE
       else if r then if x then PAGE_EXECUTE_READ else PAGE_READONLY else if x then PAGE_EXECUTE else PAGE_NOACCESS)"
    "desiredAccessToProtect access PAGE_READONLY = (if x then PAGE_EXECUTE_READ else PAGE_READONLY)"
    "desiredAccessToProtect access PAGE_WRITECOPY =
      (if c then if x then PAGE_EXECUTE_WRITECOPY else PAGE_WRITECOPY
       else if w then if x then PAGE_EXECUTE_READWRITE else PAGE_READWRITE else if x then PAGE_EXECUTE_READ else PAGE_READONLY)"
  by (cases r; cases w; cases x; cases c; simp add: desiredAccessToProtect_def a PAGE_NOCACHE_def PAGE_GUARD_def PAGE_WRITECOMBINE_def)+

lemma file_protections_cases:
  assumes "pr \<in> file_protections"
  obtains "pr = PAGE_READONLY" | "pr = PAGE_READWRITE" | "pr = PAGE_WRITECOPY"
  using assms by (auto simp: file_protections_def)

lemma plain_table:
  assumes pr: "pr \<in> file_protections" and a: "fileMapAccessFromDesiredAccess access = \<lparr>fread = True, fwrite = w, fexecute = x, fcopy = False\<rparr>"
    and vp: "view_prot pr (fileMapAccessFromDesiredAccess access) = Some prot"
  shows "desiredAccessToProtect access pr =
    (if w then if x then PAGE_EXECUTE_READWRITE else PAGE_READWRITE else if x then PAGE_EXECUTE_READ else PAGE_READONLY)"
  using pr vp by (cases rule: file_protections_cases; cases w) (simp_all add: protect_table [OF a] a view_prot_def)

lemma host_table:
  assumes pr: "pr \<in> file_protections" and a: "fileMapAccessFromDesiredAccess access = \<lparr>fread = True, fwrite = w, fexecute = x, fcopy = c\<rparr>"
    and cw: "c \<Longrightarrow> w" and ro: "pr = PAGE_READONLY \<Longrightarrow> \<not> c" and vp: "view_prot pr (fileMapAccessFromDesiredAccess access) = Some prot"
  shows "posixProtectFromWin32 (desiredAccessToProtect access pr) = prot"
  using pr cw ro vp
  by (cases rule: file_protections_cases; cases w; cases x; cases c)
     (simp_all add: protect_table [OF a] a view_prot_def posixProtectFromWin32_def PROT_READ_def PROT_WRITE_def PROT_EXEC_def)

lemma access_eta:
  "fileMapAccessFromDesiredAccess access =
    \<lparr>fread = fread (fileMapAccessFromDesiredAccess access), fwrite = fwrite (fileMapAccessFromDesiredAccess access),
     fexecute = fexecute (fileMapAccessFromDesiredAccess access), fcopy = fcopy (fileMapAccessFromDesiredAccess access)\<rparr>"
  by simp

lemma plain_protection_correct:
  assumes "pr \<in> file_protections" "plain_access access" "view_prot pr (fileMapAccessFromDesiredAccess access) = Some prot"
  shows "desiredAccessToProtect access pr = plain_protection access"
proof -
  have r: "access AND FILE_MAP_READ \<noteq> 0 \<or> access AND FILE_MAP_WRITE \<noteq> 0" using assms(2) by (auto simp: plain_access_def or_bits_zero)
  have c: "\<not> fcopy (fileMapAccessFromDesiredAccess access)" using assms(2) by (auto simp: plain_access_def access_fields)
  have w: "fwrite (fileMapAccessFromDesiredAccess access) = (access AND FILE_MAP_WRITE \<noteq> 0)"
    using assms(2) all_access_bits(1) [of access] by (auto simp: plain_access_def access_fields)
  have "fileMapAccessFromDesiredAccess access = \<lparr>fread = True, fwrite = (access AND FILE_MAP_WRITE \<noteq> 0),
      fexecute = (access AND FILE_MAP_EXECUTE \<noteq> 0), fcopy = False\<rparr>"
    using r c w by (subst access_eta) (simp add: access_fields)
  from plain_table [OF assms(1) this assms(3)] show ?thesis by (simp add: plain_protection_def)
qed

lemma host_protection_correct:
  assumes "pr \<in> file_protections" "access AND (FILE_MAP_READ OR FILE_MAP_WRITE OR FILE_MAP_COPY) \<noteq> 0"
    "pr = PAGE_READONLY \<Longrightarrow> access AND FILE_MAP_COPY = 0" "view_prot pr (fileMapAccessFromDesiredAccess access) = Some prot"
  shows "posixProtectFromWin32 (desiredAccessToProtect access pr) = prot"
proof (rule host_table [OF assms(1) _ _ _ assms(4)])
  have "fread (fileMapAccessFromDesiredAccess access)" using assms(2) by (auto simp: access_fields or_bits_zero)
  then show "fileMapAccessFromDesiredAccess access = \<lparr>fread = True, fwrite = fwrite (fileMapAccessFromDesiredAccess access),
      fexecute = fexecute (fileMapAccessFromDesiredAccess access), fcopy = fcopy (fileMapAccessFromDesiredAccess access)\<rparr>"
    by (subst access_eta) simp
qed (use assms(3) in \<open>auto simp: access_fields\<close>)

section \<open>Mapping and unmapping\<close>

lemma room_no_caller_view:
  assumes inv: "views_inv pg s" and ap: "callers_views_apart s" and rm: "room pg c l (vm s)" and d: "delta < l"
  shows "map_of (g_viewInfo s) (c + delta) = None"
proof (rule ccontr)
  assume "map_of (g_viewInfo s) (c + delta) \<noteq> None"
  then obtain view where m: "map_of (g_viewInfo s) (c + delta) = Some view" by blast
  note e = map_of_SomeD [OF m]
  have "\<not> managed view" using room_no_view(1) [OF inv rm d] m by blast
  moreover have "view_placed (c + delta, view)" using inv e by (auto simp: views_inv_def)
  moreover have "kLowMemoryStart \<le> c" "c + l \<le> kTopDownStart" using rm by (auto simp: room_def)
  ultimately show False using ap e d by (auto simp: callers_views_apart_def view_placed_def)
qed

text \<open>
  C17: a call of \<^verbatim>\<open>MapViewOfFile\<close> that fails leaves objects, handles, views and memory as they were. One that succeeds returns an address
  at which queries report the view for every byte that was asked for, and \<^verbatim>\<open>UnmapViewOfFile\<close> of that address succeeds and gives
  back the state from before: the reference to the mapping object, the table of views, and the range of addresses. For an access
  that reads or writes the file itself the reported protection is the one listed in \<open>plain_protection\<close>; for it and for
  private copies it stands for the protection that the host gave those pages, with one exception, copies of a read-only
  mapping. The views at addresses of callers lie outside the range where the library places views, and the mapping
  has one of the protections that \<^verbatim>\<open>CreateFileMappingA\<close> accepts.
\<close>

theorem view_roundtrip:
  assumes "reach map_init (map_run pg mh) s" and pg: "page_size pg" and ex: "mmap_exact mh" and h: "opens_mapping h p s"
    and ap: "callers_views_apart s" and pr: "mprotect (maps s p) \<in> file_protections"
    and n: "n < 2 ^ 32" and m: "MapViewOfFile pg mh h access offHigh offLow n s = (a, s')"
  shows "(a = 0 \<and> objects s' = objects s \<and> table s' = table s \<and> g_viewInfo s' = g_viewInfo s \<and> vm s' = vm s) \<or>
    (a \<noteq> 0 \<and>
     (\<forall>x. a \<le> x \<and> x < a + (if n = 0 then maxSize (maps s p) - (unat offHigh * 2 ^ 32 + unat offLow) else n) \<longrightarrow>
        (\<exists>info. VirtualQuery pg x s' = Inr info \<and> BaseAddress info = a \<and> AllocationBase info = a \<and> x < a + RegionSize info \<and>
           MemState info = MEM_COMMIT \<and> MemType info = MEM_MAPPED \<and> AllocationProtect info = mprotect (maps s p) \<and>
           (plain_access access \<longrightarrow> Protect info = plain_protection access) \<and>
           (access AND (FILE_MAP_READ OR FILE_MAP_WRITE OR FILE_MAP_COPY) \<noteq> 0 \<and>
            \<not> (mprotect (maps s p) = PAGE_READONLY \<and> access AND FILE_MAP_COPY \<noteq> 0) \<longrightarrow>
              host_prot (hostCalls (vm s')) x = Some (posixProtectFromWin32 (Protect info))))) \<and>
     (\<exists>t. UnmapViewOfFile mh a s' = (True, t) \<and> objects t = objects s \<and> table t = table s \<and> g_viewInfo t = g_viewInfo s \<and>
        g_mappings (vm t) = g_mappings (vm s) \<and> g_virtualAllocations (vm t) = g_virtualAllocations (vm s)))"
proof -
  have inv: "views_inv pg s" using assms(1) by (rule views.reach_invar)
  have inv': "views_inv pg s'" using MapViewOfFileEx_inv [OF inv pg ex n, of h access offHigh offLow 0] m by (simp add: MapViewOfFile_def)
  let ?s1 = "s\<lparr>objects := ref p (objects s)\<rparr>"
  define offset where "offset = unat offHigh * 2 ^ 32 + unat offLow"
  have sh: "vm_shape pg (vm ?s1)" using inv by (simp add: views_inv_def vm_inv_def)
  have mi: "mapViewOfFileInternal pg mh p access offset n 0 ?s1 = (a, s')"
    using getAs_opens [OF h] m by (auto simp: MapViewOfFile_def MapViewOfFileEx_def offset_def)
  show ?thesis
  proof (cases rule: mapViewOfFileInternal_cases [OF sh pg ex mi])
    case 1
    then show ?thesis using opens_mapping_pin [OF h] by simp
  next
    case ok: (2 c delta len k)
    then obtain prot where vp: "view_prot (mprotect (maps s p)) (fileMapAccessFromDesiredAccess access) = Some prot"
      and s': "s' = emplace_view (view_record pg access (mprotect (maps ?s1 p)) True c delta len (len + delta) p)
        (?s1\<lparr>vm := mapped pg c (len + delta) (mprotect (maps ?s1 p)) (desiredAccessToProtect access (mprotect (maps ?s1 p))) prot (vm ?s1), fhost := k\<rparr>)"
      by auto
    let ?view = "view_record pg access (mprotect (maps s p)) True c delta len (len + delta) p"
    have i1: "views_inv pg ?s1" "callers_views_apart ?s1" using inv ap by (simp_all add: views_inv_def callers_views_apart_def)
    have no: "map_of (g_viewInfo ?s1) (c + delta) = None" by (rule room_no_caller_view [OF i1 ok(3)]) (use ok(2) in simp)
    have len: "(if n = 0 then maxSize (maps s p) - offset else n) = len"
      using ok(1) by (auto simp: view_length_def Let_def split: if_splits)
    have vb: "viewBase ?view = c + delta" "managed ?view" by (simp_all add: view_record_def Let_def)
    have gv: "g_viewInfo s' = omap_put (c + delta) ?view (g_viewInfo s)"
      and hc: "hostCalls (vm s') = (c, len + delta, prot) # hostCalls (vm s)"
      using no by (simp_all add: s' emplace_view_def vb mapped_def registerViewRange_def log_call_def recordGuestMapping_def)
    have st: "set (g_viewInfo s') = insert (c + delta, ?view) (set (g_viewInfo s))"
      unfolding gv using set_omap_put_new no by simp
    have "callers_views_apart s'" using ap vb(2) unfolding callers_views_apart_def st by simp
    note q = query_mapped [OF inv' this pg _ refl ok(3,2), of access "mprotect (maps s p)" p, unfolded st]
    have prots: "plain_access access \<Longrightarrow> desiredAccessToProtect access (mprotect (maps s p)) = plain_protection access"
      "access AND (FILE_MAP_READ OR FILE_MAP_WRITE OR FILE_MAP_COPY) \<noteq> 0 \<Longrightarrow>
        \<not> (mprotect (maps s p) = PAGE_READONLY \<and> access AND FILE_MAP_COPY \<noteq> 0) \<Longrightarrow>
        posixProtectFromWin32 (desiredAccessToProtect access (mprotect (maps s p))) = prot"
      using plain_protection_correct [OF pr _ vp] host_protection_correct [OF pr _ _ vp] by blast+
    have host: "host_prot (hostCalls (vm s')) x = Some prot" if "c + delta \<le> x" "x < c + delta + len" for x
      using that by (simp add: hc)
    have "a \<noteq> 0" using ok(3,5) by (auto simp: room_def kLowMemoryStart_def)
    moreover have "\<exists>t. UnmapViewOfFile mh a s' = (True, t) \<and> objects t = objects s \<and> table t = table s \<and> g_viewInfo t = g_viewInfo s \<and>
        g_mappings (vm t) = g_mappings (vm s) \<and> g_virtualAllocations (vm t) = g_virtualAllocations (vm s)"
      using unmap_mapped [OF sh ok(3) no s', of mh] ok(5) opens_mapping_pin [OF h] by simp
    moreover have "\<exists>info. VirtualQuery pg x s' = Inr info \<and> BaseAddress info = c + delta \<and> AllocationBase info = c + delta \<and>
        x < c + delta + RegionSize info \<and> MemState info = MEM_COMMIT \<and> MemType info = MEM_MAPPED \<and> AllocationProtect info = mprotect (maps s p) \<and>
        (plain_access access \<longrightarrow> Protect info = plain_protection access) \<and>
        (access AND (FILE_MAP_READ OR FILE_MAP_WRITE OR FILE_MAP_COPY) \<noteq> 0 \<and>
         \<not> (mprotect (maps s p) = PAGE_READONLY \<and> access AND FILE_MAP_COPY \<noteq> 0) \<longrightarrow>
           host_prot (hostCalls (vm s')) x = Some (posixProtectFromWin32 (Protect info)))"
      if x: "c + delta \<le> x" "x < c + delta + len" for x
      using q [OF _ x] prots host [OF x] by fastforce
    ultimately show ?thesis unfolding offset_def [symmetric] len unfolding ok(5) by blast
  qed
qed

section \<open>An example\<close>

text \<open>A host whose \<^verbatim>\<open>mmap\<close> succeeds, and a handle to an anonymous mapping of three pages.\<close>

definition demo_maphost :: "unit MapHost" where
  "demo_maphost = \<lparr>mh_dup = (\<lambda>_ k. (Failed EIO, k)), mh_fstat = (\<lambda>_ _. Failed EIO), mh_truncate = (\<lambda>_ _ k. (EIO, k)), mh_close = (\<lambda>_ k. k),
     mh_mmap = (\<lambda>a l p sh fixed d off k. (Moved a, k)), mh_munmap = (\<lambda>_ _ k. k), mh_msync = (\<lambda>_ _ k. (ESUCCESS, k))\<rparr>"

definition map_demo :: "unit MapWorld" where
  "map_demo = snd (alloc 7 0 0
     \<lparr>objects = [7 \<mapsto> \<lparr>otype = Mapping, oflags = 0, pointerCount = 1, handleCount = 0\<rparr>], table = empty_table, mTable = [], lastError = 0,
      syncs = syncs sync_start, blocks = blocks sync_start, fileObjs = (\<lambda>_. demo_file), fhost = (), submitted = [],
      maps = (\<lambda>_. \<lparr>mfd = -1, maxSize = 0x3000, mprotect = PAGE_READWRITE, anonymous = True, mclosed = False\<rparr>),
      vm = demo_start, g_viewInfo = []\<rparr>)"

lemma demo_exact: "mmap_exact demo_maphost" by (simp add: mmap_exact_def demo_maphost_def)

lemma opens_map_demo: "opens_mapping 4 7 map_demo"
  by (simp add: opens_mapping_def map_demo_def demo_simps)

lemma map_demo_fields [simp]:
  "vm map_demo = demo_start" "g_viewInfo map_demo = []" "fhost map_demo = ()"
  "maps map_demo = (\<lambda>_. \<lparr>mfd = -1, maxSize = 0x3000, mprotect = PAGE_READWRITE, anonymous = True, mclosed = False\<rparr>)"
  by (simp_all add: map_demo_def) (simp_all add: alloc_def Let_def split: prod.splits)

lemma map_demo_reach: "reach map_init (map_run 4096 demo_maphost) map_demo"
  by (rule reach.intros(1)) (simp add: map_init_def demo_start_init)

lemma demo_align: "alignUp 0x3000 4096 = 0x3000" by (simp add: alignUp_def subp_def addp_def uintptr_max_def)

lemma demo_access:
  "view_prot PAGE_READWRITE (fileMapAccessFromDesiredAccess FILE_MAP_WRITE) = Some 3" "view_length 0x3000 0 0 = Some 0x3000"
  by (simp_all add: view_prot_def fileMapAccessFromDesiredAccess_def FILE_MAP_WRITE_def FILE_MAP_ALL_ACCESS_def FILE_MAP_COPY_def
      FILE_MAP_EXECUTE_def Let_def view_length_def PROT_READ_def PROT_WRITE_def)

lemma demo_view:
  assumes h: "opens_mapping 4 7 s" and s: "vm s = demo_start\<lparr>hostCalls := cs\<rparr>" "maps s = maps map_demo"
  shows "\<exists>s'. MapViewOfFile 4096 demo_maphost 4 FILE_MAP_WRITE 0 0 0 s = (0x120000, s') \<and>
     length (g_viewInfo s') = (if map_of (g_viewInfo s) 0x120000 = None then length (g_viewInfo s) + 1 else length (g_viewInfo s)) \<and>
     map_of (g_viewInfo s') 0x120000 \<noteq> None \<and>
     (map_of (g_viewInfo s) 0x120000 = None \<longrightarrow> (\<exists>view. map_of (g_viewInfo s') 0x120000 = Some view \<and> managed view))"
proof -
  obtain m where g: "getAs Mapping 4 s = (Some (7, m), s\<lparr>objects := ref 7 (objects s)\<rparr>)"
    using getAs_opens [OF h] by blast
  have "findFreeMapping 4096 0x3000 kLowMemoryStart kTopDownStart False (demo_start\<lparr>hostCalls := cs\<rparr>) = Some 0x120000"
    using demo_find by (simp add: findFreeMapping_def Let_def split: if_splits)
  then have r: "reserveViewRange 4096 0x3000 0 0 (demo_start\<lparr>hostCalls := cs\<rparr>) = ((Success, 0x120000),
      recordGuestMapping 0x120000 0x3000 PAGE_NOACCESS MEM_RESERVE PAGE_NOACCESS MEM_MAPPED (demo_start\<lparr>hostCalls := cs\<rparr>))"
    by (simp add: reserveViewRange_def demo_align kLowMemoryStart_def kTopDownStart_def)
  have len: "map_of l k = None \<Longrightarrow> length (omap_put k v l) = length l + 1" for k :: nat and v :: ViewInfo and l
    by (induction l) (auto split: if_splits)
  show ?thesis
    by (simp add: MapViewOfFile_def MapViewOfFileEx_def g mapViewOfFileInternal_def s demo_access Let_def map_pages_def view_place_def r
        demo_maphost_def emplace_view_def view_record_def len unpin_def)
qed

lemma map_demo_view:
  "\<exists>s view. MapViewOfFile 4096 demo_maphost 4 FILE_MAP_WRITE 0 0 0 map_demo = (0x120000, s) \<and> (0x120000, view) \<in> set (g_viewInfo s)"
  using demo_view [OF opens_map_demo, of "[]"] by (auto simp: demo_start_def dest: map_of_SomeD)

text \<open>A view at an address of the caller: the tables of the virtual memory stay as they are.\<close>

lemma demo_explicit:
  assumes b: "base \<noteq> 0" "base mod kVirtualAllocationGranularity = 0" "(of_nat base :: u32) AND 0xFFF = 0"
  shows "\<exists>s1 view cs. MapViewOfFileEx 4096 demo_maphost 4 FILE_MAP_WRITE 0 0 0 base map_demo = (base, s1) \<and>
    vm s1 = demo_start\<lparr>hostCalls := cs\<rparr> \<and> g_viewInfo s1 = [(base, view)] \<and> maps s1 = maps map_demo \<and> opens_mapping 4 7 s1"
proof -
  let ?ref = "map_demo\<lparr>objects := ref 7 (objects map_demo)\<rparr>"
  obtain m where g: "getAs Mapping 4 map_demo = (Some (7, m), ?ref)"
    using getAs_opens [OF opens_map_demo] by blast
  have o: "opens_mapping 4 7 ?ref"
    by (simp add: opens_mapping_def map_demo_def demo_simps ref_def)
  have "\<exists>s1 view cs. MapViewOfFileEx 4096 demo_maphost 4 FILE_MAP_WRITE 0 0 0 base map_demo = (base, s1) \<and>
      vm s1 = demo_start\<lparr>hostCalls := cs\<rparr> \<and> g_viewInfo s1 = [(base, view)] \<and> maps s1 = maps map_demo \<and>
      objects s1 = objects ?ref \<and> table s1 = table ?ref"
    using b by (simp add: MapViewOfFileEx_def g mapViewOfFileInternal_def demo_access Let_def map_pages_def view_place_def demo_align
        demo_maphost_def emplace_view_def view_record_def log_call_def) blast
  with o show ?thesis unfolding opens_mapping_def by metis
qed

theorem views_reachable_witness:
  "\<exists>s1 s2 view. MapViewOfFileEx 4096 demo_maphost 4 FILE_MAP_WRITE 0 0 0 0x200000 map_demo = (0x200000, s1) \<and>
     MapViewOfFile 4096 demo_maphost 4 FILE_MAP_WRITE 0 0 0 s1 = (0x120000, s2) \<and>
     (0x120000, view) \<in> set (g_viewInfo s2) \<and> managed view \<and>
     vallocationBase view + vallocationLength view \<le> kTwoGB \<and>
     free_range vsize (g_virtualAllocations (vm s2)) (vallocationBase view) (vallocationLength view)"
proof -
  obtain s1 w cs where s1: "MapViewOfFileEx 4096 demo_maphost 4 FILE_MAP_WRITE 0 0 0 0x200000 map_demo = (0x200000, s1)"
      "vm s1 = demo_start\<lparr>hostCalls := cs\<rparr>" "g_viewInfo s1 = [(0x200000, w)]" "maps s1 = maps map_demo" "opens_mapping 4 7 s1"
    using demo_explicit [of "0x200000"] by (auto simp: kVirtualAllocationGranularity_def)
  obtain s2 view where s2: "MapViewOfFile 4096 demo_maphost 4 FILE_MAP_WRITE 0 0 0 s1 = (0x120000, s2)"
    and v: "(0x120000, view) \<in> set (g_viewInfo s2)" "managed view"
    using demo_view [OF s1(5,2,4)] s1(3) by (auto dest: map_of_SomeD)
  have "map_run 4096 demo_maphost map_demo s1"
    using step_map [of 0 4096 demo_maphost map_demo 4 FILE_MAP_WRITE 0 0 "0x200000"] s1(1) by (simp add: map_run_def page_size_4096 demo_exact)
  moreover have "map_run 4096 demo_maphost s1 s2"
    using step_map [of 0 4096 demo_maphost s1 4 FILE_MAP_WRITE 0 0 0] s2 by (simp add: MapViewOfFile_def map_run_def page_size_4096 demo_exact)
  ultimately have "reach map_init (map_run 4096 demo_maphost) s2" by (blast intro: reach.intros(2) map_demo_reach)
  from views_reachable [OF this v] s1(1) s2 v show ?thesis by blast
qed

theorem view_roundtrip_witness:
  "\<exists>s info t. MapViewOfFile 4096 demo_maphost 4 FILE_MAP_WRITE 0 0 0 map_demo = (0x120000, s) \<and>
     VirtualQuery 4096 0x122FFF s = Inr info \<and> BaseAddress info = 0x120000 \<and> Protect info = PAGE_READWRITE \<and>
     host_prot (hostCalls (vm s)) 0x122FFF = Some 3 \<and>
     UnmapViewOfFile demo_maphost 0x120000 s = (True, t) \<and> g_viewInfo t = [] \<and> g_mappings (vm t) = g_mappings demo_start"
proof -
  obtain s where s: "MapViewOfFile 4096 demo_maphost 4 FILE_MAP_WRITE 0 0 0 map_demo = (0x120000, s)"
    using map_demo_view by blast
  have h: "callers_views_apart map_demo" "mprotect (maps map_demo 7) \<in> file_protections" "(0 :: nat) < 2 ^ 32"
    by (simp_all add: callers_views_apart_def file_protections_def)
  have a: "plain_access FILE_MAP_WRITE" "plain_protection FILE_MAP_WRITE = PAGE_READWRITE"
      "FILE_MAP_WRITE AND (FILE_MAP_READ OR FILE_MAP_WRITE OR FILE_MAP_COPY) \<noteq> 0" "posixProtectFromWin32 PAGE_READWRITE = 3"
    by (simp_all add: plain_access_def plain_protection_def FILE_MAP_WRITE_def FILE_MAP_READ_def FILE_MAP_COPY_def FILE_MAP_EXECUTE_def
        posixProtectFromWin32_def PROT_READ_def PROT_WRITE_def)
  note r = view_roundtrip [OF map_demo_reach page_size_4096 demo_exact opens_map_demo h s]
  have "\<forall>x. 0x120000 \<le> x \<and> x < 0x123000 \<longrightarrow> (\<exists>info. VirtualQuery 4096 x s = Inr info \<and> BaseAddress info = 0x120000 \<and>
      Protect info = PAGE_READWRITE \<and> host_prot (hostCalls (vm s)) x = Some 3)"
    using r a by fastforce
  moreover have "\<exists>t. UnmapViewOfFile demo_maphost 0x120000 s = (True, t) \<and> g_viewInfo t = [] \<and> g_mappings (vm t) = g_mappings demo_start"
    using r by auto
  moreover have "(0x120000 :: nat) \<le> 0x122FFF \<and> (0x122FFF :: nat) < 0x123000" by simp
  ultimately show ?thesis using s by blast
qed

section \<open>Views at an address of the caller\<close>

text \<open>A view at an address that the caller chose leaves the table of mappings as it is: later searches do not know of it.\<close>

lemma explicit_view_not_recorded:
  assumes "baseAddress \<noteq> 0"
  shows "g_mappings (vm (snd (MapViewOfFileEx pg mh h access offHigh offLow n baseAddress s))) = g_mappings (vm s)"
proof -
  obtain r s1 where g: "getAs Mapping h s = (r, s1)" by fastforce
  have v: "vm s1 = vm s" using g by (auto simp: getAs_def get_def split: option.splits if_splits)
  have e: "vm (emplace_view w u) = vm u" for w and u :: "('a, 'b) MapWorld_scheme" by (simp add: emplace_view_def unpin_def)
  have mp: "g_mappings (vm (snd (map_pages pg mh p access prot offset delta len l baseAddress u))) = g_mappings (vm u)"
    for p prot offset delta len l and u :: "('a, 'b) MapWorld_scheme"
    using assms
    by (auto simp: map_pages_def view_place_def Let_def unpin_def setLastError_def log_call_def e split: prod.splits rc.splits)
  have mi: "g_mappings (vm (snd (mapViewOfFileInternal pg mh p access offset n baseAddress u))) = g_mappings (vm u)"
    for p offset and u :: "('a, 'b) MapWorld_scheme"
    unfolding mapViewOfFileInternal_def Let_def
    by (simp only: mp split: if_split option.split) (simp add: unpin_def setLastError_def)
  show ?thesis by (cases r) (simp_all add: MapViewOfFileEx_def g mi v setLastError_def split: prod.splits)
qed

text \<open>
  The place the search gives next is then the same: the second view lies over the first, which the host replaces, and
  only the record of the first stays.
\<close>

lemma explicit_view_overlaid:
  "\<exists>s1 s2. MapViewOfFileEx 4096 demo_maphost 4 FILE_MAP_WRITE 0 0 0 0x120000 map_demo = (0x120000, s1) \<and>
     MapViewOfFile 4096 demo_maphost 4 FILE_MAP_WRITE 0 0 0 s1 = (0x120000, s2) \<and> length (g_viewInfo s2) = 1"
proof -
  obtain s1 w cs where s1: "MapViewOfFileEx 4096 demo_maphost 4 FILE_MAP_WRITE 0 0 0 0x120000 map_demo = (0x120000, s1)"
      "vm s1 = demo_start\<lparr>hostCalls := cs\<rparr>" "g_viewInfo s1 = [(0x120000, w)]" "maps s1 = maps map_demo" "opens_mapping 4 7 s1"
    using demo_explicit [of "0x120000"] by (auto simp: kVirtualAllocationGranularity_def)
  from demo_view [OF s1(5,2,4)] s1(1,3) show ?thesis by auto
qed

end
