(* ===== verification/Registry_Keys.thy ===== *)
theory Registry_Keys
  imports Object_Namespace Wide_Strings
begin

text \<open>
  The registry (\<^verbatim>\<open>src/dll/advapi32/winreg.cpp\<close>): a set of key paths in a normal form, key objects that carry one, and
  the calls that create, open, query, enumerate and close keys. Strings are given without their terminator; the host's
  \<^verbatim>\<open>towlower\<close> is a parameter. Objects of other kinds have their own fields elsewhere.
\<close>

section \<open>Paths\<close>

abbreviation (input) BACKSLASH :: u16 where "BACKSLASH \<equiv> 0x5C"
abbreviation (input) SLASH :: u16 where "SLASH \<equiv> 0x2F"

fun segment_loop :: "(nat \<Rightarrow> nat) \<Rightarrow> u16 list \<Rightarrow> bool \<Rightarrow> u16 list \<Rightarrow> u16 list" where
  "segment_loop tw result lastWasSlash [] = result"
| "segment_loop tw result lastWasSlash (ch # rest) =
     (let normalized = (if ch = SLASH then BACKSLASH else ch) in
      if normalized = BACKSLASH
      then segment_loop tw (if result \<noteq> [] \<and> \<not> lastWasSlash then result @ [BACKSLASH] else result) True rest
      else segment_loop tw (result @ [wcharToLower tw normalized]) False rest)"

declare segment_loop.simps(2) [simp del]

definition canonicalizeKeySegment :: "(nat \<Rightarrow> nat) \<Rightarrow> u16 list \<Rightarrow> u16 list" where
  "canonicalizeKeySegment tw input =
     (let result = segment_loop tw [] False input;
          noTrailing = rev (dropWhile (\<lambda>c. c = BACKSLASH) (rev result))
      in dropWhile (\<lambda>c. c = BACKSLASH) noTrailing)"

section \<open>Key objects\<close>

record RegistryKeyObject =
  canonicalPath :: "u16 list"
  closed :: bool
  predefined :: bool

record RegState = WState +
  regs :: "objptr \<Rightarrow> RegistryKeyObject"
  g_existingKeys :: "u16 list set"

definition new_key :: "u16 list \<Rightarrow> RegistryKeyObject" where
  "new_key path = \<lparr>canonicalPath = path, closed = False, predefined = False\<rparr>"

definition wide :: "string \<Rightarrow> u16 list" where
  "wide s = map (\<lambda>c. of_nat (of_char c)) s"

definition kPredefinedKeyInfos :: "(HANDLE \<times> string) list" where
  "kPredefinedKeyInfos =
     [(0x80000000, ''HKEY_CLASSES_ROOT''), (0x80000001, ''HKEY_CURRENT_USER''), (0x80000002, ''HKEY_LOCAL_MACHINE''),
      (0x80000003, ''HKEY_USERS''), (0x80000004, ''HKEY_PERFORMANCE_DATA''), (0x80000005, ''HKEY_CURRENT_CONFIG'')]"

definition predefinedHandleForValue :: "(nat \<Rightarrow> nat) \<Rightarrow> HANDLE \<Rightarrow> RegistryKeyObject option" where
  "predefinedHandleForValue tw v =
     map_option (\<lambda>name. \<lparr>canonicalPath = canonicalizeKeySegment tw (wide name), closed = False, predefined = True\<rparr>)
       (map_of kPredefinedKeyInfos v)"

definition isPredefinedKeyHandle :: "HANDLE \<Rightarrow> bool" where
  "isPredefinedKeyHandle h \<longleftrightarrow> list_ex (\<lambda>info. fst info = h) kPredefinedKeyInfos"

text \<open>The key a handle denotes, and the object pinned for it; the six predefined ones are pinned for ever.\<close>

definition drop_pin :: "objptr option \<Rightarrow> 'a HState_scheme \<Rightarrow> 'a HState_scheme" where
  "drop_pin po s = (case po of None \<Rightarrow> s | Some p \<Rightarrow> s\<lparr>objects := deref p (objects s)\<rparr>)"

definition handleDataFromHKeyLocked ::
  "(nat \<Rightarrow> nat) \<Rightarrow> HANDLE \<Rightarrow> 'a RegState_scheme \<Rightarrow> (RegistryKeyObject \<times> objptr option) option \<times> 'a RegState_scheme" where
  "handleDataFromHKeyLocked tw hKey s =
     (if hKey = NO_HANDLE then (None, s)
      else case predefinedHandleForValue tw hKey of
        Some k \<Rightarrow> (Some (k, None), s)
      | None \<Rightarrow>
          (case getAs RegistryKey hKey s of
             (None, s1) \<Rightarrow> (None, s1)
           | (Some (p, m), s1) \<Rightarrow>
               if closed (regs s1 p) then (None, drop_pin (Some p) s1) else (Some (regs s1 p, Some p), s1)))"

section \<open>The calls\<close>

text \<open>What a call hands back: the status, the handle stored at \<^verbatim>\<open>phkResult\<close> and the disposition.\<close>

record RegCall =
  status :: u32
  phkResult :: "HANDLE option"
  lpdwDisposition :: "u32 option"

definition reg_fail :: "u32 \<Rightarrow> HANDLE option \<Rightarrow> 'a RegState_scheme \<Rightarrow> RegCall \<times> 'a RegState_scheme" where
  "reg_fail e out s = (\<lparr>status = e, phkResult = out, lpdwDisposition = None\<rparr>, setLastError e s)"

definition targetPath :: "(nat \<Rightarrow> nat) \<Rightarrow> u16 list \<Rightarrow> u16 list option \<Rightarrow> u16 list" where
  "targetPath tw base lpSubKey =
     (case lpSubKey of
        None \<Rightarrow> base
      | Some sub \<Rightarrow>
          if sub = [] then base
          else let subComponent = canonicalizeKeySegment tw sub in
            if subComponent = [] then base
            else (if base \<noteq> [] then base @ [BACKSLASH] else base) @ subComponent)"

definition targetingBase :: "(nat \<Rightarrow> nat) \<Rightarrow> u16 list option \<Rightarrow> bool" where
  "targetingBase tw lpSubKey \<longleftrightarrow> (case lpSubKey of None \<Rightarrow> True | Some sub \<Rightarrow> sub = [] \<or> canonicalizeKeySegment tw sub = [])"

text \<open>\<^verbatim>\<open>make_pin<RegistryKeyObject>\<close> at the address \<open>q\<close> and \<^verbatim>\<open>handles().alloc\<close>.\<close>

definition alloc_key :: "objptr \<Rightarrow> u16 list \<Rightarrow> 'a RegState_scheme \<Rightarrow> HANDLE \<times> 'a RegState_scheme" where
  "alloc_key q path s = alloc q 0 0 (s\<lparr>objects := make_pin q RegistryKey 0 (objects s), regs := (regs s)(q := new_key path)\<rparr>)"

definition REG_CREATED_NEW_KEY :: u32 where "REG_CREATED_NEW_KEY = 1"
definition REG_OPENED_EXISTING_KEY :: u32 where "REG_OPENED_EXISTING_KEY = 2"
definition REG_OPTION_OPEN_LINK :: u32 where "REG_OPTION_OPEN_LINK = 8"

definition RegCreateKeyExW ::
  "(nat \<Rightarrow> nat) \<Rightarrow> objptr \<Rightarrow> HANDLE \<Rightarrow> u16 list option \<Rightarrow> u32 \<Rightarrow> u32 \<Rightarrow> bool \<Rightarrow> bool \<Rightarrow> 'a RegState_scheme \<Rightarrow> RegCall \<times> 'a RegState_scheme" where
  "RegCreateKeyExW tw q hKey lpSubKey Reserved dwOptions hasResult hasDisposition s =
     (if \<not> hasResult then reg_fail ERROR_INVALID_PARAMETER None s
      else if Reserved \<noteq> 0 then reg_fail ERROR_INVALID_PARAMETER (Some NO_HANDLE) s
      else if dwOptions \<noteq> 0 then reg_fail ERROR_INVALID_PARAMETER (Some NO_HANDLE) s
      else case handleDataFromHKeyLocked tw hKey s of
        (None, s1) \<Rightarrow> reg_fail ERROR_INVALID_HANDLE (Some NO_HANDLE) s1
      | (Some (base, pin), s1) \<Rightarrow>
          let path = targetPath tw (canonicalPath base) lpSubKey in
          if path = [] then (case reg_fail ERROR_INVALID_HANDLE (Some NO_HANDLE) s1 of (r, s2) \<Rightarrow> (r, drop_pin pin s2))
          else
            let existed = path \<in> g_existingKeys s1;
                s2 = s1\<lparr>g_existingKeys := insert path (g_existingKeys s1)\<rparr>;
                disp = (if hasDisposition then Some (if existed then REG_OPENED_EXISTING_KEY else REG_CREATED_NEW_KEY) else None)
            in if targetingBase tw lpSubKey
               then (\<lparr>status = ERROR_SUCCESS, phkResult = Some hKey, lpdwDisposition = disp\<rparr>, drop_pin pin s2)
               else case alloc_key q path s2 of
                 (h, s3) \<Rightarrow> (\<lparr>status = ERROR_SUCCESS, phkResult = Some h, lpdwDisposition = disp\<rparr>, drop_pin pin s3))"

definition RegOpenKeyExW ::
  "(nat \<Rightarrow> nat) \<Rightarrow> objptr \<Rightarrow> HANDLE \<Rightarrow> u16 list option \<Rightarrow> u32 \<Rightarrow> bool \<Rightarrow> 'a RegState_scheme \<Rightarrow> RegCall \<times> 'a RegState_scheme" where
  "RegOpenKeyExW tw q hKey lpSubKey ulOptions hasResult s =
     (if \<not> hasResult then reg_fail ERROR_INVALID_PARAMETER None s
      else if ulOptions AND NOT REG_OPTION_OPEN_LINK \<noteq> 0 then reg_fail ERROR_INVALID_PARAMETER (Some NO_HANDLE) s
      else case handleDataFromHKeyLocked tw hKey s of
        (None, s1) \<Rightarrow> reg_fail ERROR_INVALID_HANDLE (Some NO_HANDLE) s1
      | (Some (base, pin), s1) \<Rightarrow>
          let path = targetPath tw (canonicalPath base) lpSubKey in
          if path = [] then (case reg_fail ERROR_INVALID_HANDLE (Some NO_HANDLE) s1 of (r, s2) \<Rightarrow> (r, drop_pin pin s2))
          else if path \<notin> g_existingKeys s1
          then (case reg_fail ERROR_FILE_NOT_FOUND (Some NO_HANDLE) s1 of (r, s2) \<Rightarrow> (r, drop_pin pin s2))
          else if (lpSubKey = None \<or> lpSubKey = Some []) \<and> predefined base
          then (\<lparr>status = ERROR_SUCCESS, phkResult = Some hKey, lpdwDisposition = None\<rparr>, drop_pin pin s1)
          else case alloc_key q path s1 of
            (h, s2) \<Rightarrow> (\<lparr>status = ERROR_SUCCESS, phkResult = Some h, lpdwDisposition = None\<rparr>, drop_pin pin s2))"

text \<open>The variants for 8-bit strings convert the name.\<close>

definition wide_name :: "u8 list option \<Rightarrow> u16 list option" where
  "wide_name str = map_option (\<lambda>cs. takeWhile (\<lambda>c. c \<noteq> 0) (stringToWideString (Some cs))) str"

definition RegCreateKeyExA ::
  "(nat \<Rightarrow> nat) \<Rightarrow> objptr \<Rightarrow> HANDLE \<Rightarrow> u8 list option \<Rightarrow> u32 \<Rightarrow> u32 \<Rightarrow> bool \<Rightarrow> bool \<Rightarrow> 'a RegState_scheme \<Rightarrow> RegCall \<times> 'a RegState_scheme" where
  "RegCreateKeyExA tw q hKey lpSubKey = RegCreateKeyExW tw q hKey (wide_name lpSubKey)"

definition RegOpenKeyExA ::
  "(nat \<Rightarrow> nat) \<Rightarrow> objptr \<Rightarrow> HANDLE \<Rightarrow> u8 list option \<Rightarrow> u32 \<Rightarrow> bool \<Rightarrow> 'a RegState_scheme \<Rightarrow> RegCall \<times> 'a RegState_scheme" where
  "RegOpenKeyExA tw q hKey lpSubKey = RegOpenKeyExW tw q hKey (wide_name lpSubKey)"

text \<open>Keys have no values: a query fails after it has stored zeros at \<^verbatim>\<open>lpcbData\<close> and \<^verbatim>\<open>lpType\<close>, where given.\<close>

definition RegQueryValueExW ::
  "bool \<Rightarrow> bool \<Rightarrow> bool \<Rightarrow> 'a RegState_scheme \<Rightarrow> (u32 \<times> u32 option \<times> u32 option) \<times> 'a RegState_scheme" where
  "RegQueryValueExW hasReserved hasType hasData s =
     (if hasReserved then ((ERROR_INVALID_PARAMETER, None, None), setLastError ERROR_INVALID_PARAMETER s)
      else ((ERROR_FILE_NOT_FOUND, if hasData then Some 0 else None, if hasType then Some 0 else None),
            setLastError ERROR_FILE_NOT_FOUND s))"

text \<open>
  Enumeration finds nothing. The result, what is stored at \<^verbatim>\<open>lpcchName\<close> and \<^verbatim>\<open>lpcchClass\<close>, and whether a terminator is stored at
  \<^verbatim>\<open>lpName\<close> and \<^verbatim>\<open>lpClass\<close>; the name's length is cleared before it is tested.
\<close>

definition RegEnumKeyExW ::
  "bool \<Rightarrow> u32 option \<Rightarrow> bool \<Rightarrow> bool \<Rightarrow> u32 option \<Rightarrow> 'a RegState_scheme
    \<Rightarrow> (u32 \<times> u32 option \<times> u32 option \<times> bool \<times> bool) \<times> 'a RegState_scheme" where
  "RegEnumKeyExW hasName cchName hasReserved hasClass cchClass s =
     (if hasReserved then ((ERROR_INVALID_PARAMETER, cchName, cchClass, False, False), setLastError ERROR_INVALID_PARAMETER s)
      else let cchName1 = map_option (\<lambda>_. 0) cchName in
        ((ERROR_NO_MORE_ITEMS, cchName1, map_option (\<lambda>_. 0) cchClass,
          hasName \<and> (case cchName1 of Some n \<Rightarrow> n > 0 | None \<Rightarrow> False),
          hasClass \<and> (case cchClass of Some n \<Rightarrow> n > 0 | None \<Rightarrow> False)),
         setLastError ERROR_NO_MORE_ITEMS s))"

definition RegCloseKey :: "HANDLE \<Rightarrow> 'a RegState_scheme \<Rightarrow> u32 \<times> 'a RegState_scheme" where
  "RegCloseKey hKey s =
     (if isPredefinedKeyHandle hKey then (ERROR_SUCCESS, s)
      else case getAs RegistryKey hKey s of
        (None, s1) \<Rightarrow> (ERROR_INVALID_HANDLE, setLastError ERROR_INVALID_HANDLE s1)
      | (Some (p, m), s1) \<Rightarrow>
          if closed (regs s1 p) then (ERROR_INVALID_HANDLE, drop_pin (Some p) (setLastError ERROR_INVALID_HANDLE s1))
          else (ERROR_SUCCESS, drop_pin (Some p) s1))"

section \<open>Normal forms\<close>

text \<open>The components of a path as a user writes it: separated by either slash, empty ones left out, in lower case.\<close>

definition is_sep :: "u16 \<Rightarrow> bool" where "is_sep c \<longleftrightarrow> c = SLASH \<or> c = BACKSLASH"

fun pieces :: "u16 list \<Rightarrow> u16 list list" where
  "pieces [] = [[]]"
| "pieces (c # cs) = (if is_sep c then [] # pieces cs else (c # hd (pieces cs)) # tl (pieces cs))"

definition key_components :: "(nat \<Rightarrow> nat) \<Rightarrow> u16 list \<Rightarrow> u16 list list" where
  "key_components tw s = map (map (wcharToLower tw)) (filter (\<lambda>x. x \<noteq> []) (pieces s))"

fun join_key :: "u16 list list \<Rightarrow> u16 list" where
  "join_key [] = []"
| "join_key [x] = x"
| "join_key (x # y # xs) = x @ BACKSLASH # join_key (y # xs)"

text \<open>What is needed of \<^verbatim>\<open>towlower\<close>: it does not make slashes of other characters, and a second application changes nothing.\<close>

definition lower_ok :: "(nat \<Rightarrow> nat) \<Rightarrow> bool" where
  "lower_ok tw \<longleftrightarrow> (\<forall>c. \<not> is_sep c \<longrightarrow> \<not> is_sep (wcharToLower tw c) \<and> wcharToLower tw (wcharToLower tw c) = wcharToLower tw c)"

definition component_ok :: "(nat \<Rightarrow> nat) \<Rightarrow> u16 list \<Rightarrow> bool" where
  "component_ok tw x \<longleftrightarrow> x \<noteq> [] \<and> (\<forall>c \<in> set x. \<not> is_sep c \<and> wcharToLower tw c = c)"

text \<open>A path in normal form; the empty path is that of a key object without a name.\<close>

definition key_form :: "(nat \<Rightarrow> nat) \<Rightarrow> u16 list \<Rightarrow> bool" where
  "key_form tw p \<longleftrightarrow> (\<exists>xs. list_all (component_ok tw) xs \<and> p = join_key xs)"

definition strip :: "u16 list \<Rightarrow> u16 list" where
  "strip r = dropWhile (\<lambda>c. c = BACKSLASH) (rev (dropWhile (\<lambda>c. c = BACKSLASH) (rev r)))"

lemma canonicalize_strip: "canonicalizeKeySegment tw s = strip (segment_loop tw [] False s)"
  by (simp add: canonicalizeKeySegment_def strip_def Let_def)

definition plain :: "u16 list \<Rightarrow> bool" where
  "plain x \<longleftrightarrow> x \<noteq> [] \<and> (\<forall>c \<in> set x. \<not> is_sep c)"

lemma join_snoc: "xs \<noteq> [] \<Longrightarrow> join_key (xs @ [y]) = join_key xs @ BACKSLASH # y"
  by (induction xs rule: join_key.induct) simp_all

lemma join_snoc_char: "join_key (xs @ [cur @ [c]]) = join_key (xs @ [cur]) @ [c]"
  by (cases "xs = []") (simp_all add: join_snoc)

lemma join_ends:
  assumes "xs \<noteq> []" "list_all plain xs"
  shows "join_key xs \<noteq> []" "hd (join_key xs) \<noteq> BACKSLASH" "last (join_key xs) \<noteq> BACKSLASH"
proof -
  have "join_key xs \<noteq> [] \<and> hd (join_key xs) \<noteq> BACKSLASH \<and> last (join_key xs) \<noteq> BACKSLASH"
    using assms
  proof (induction xs rule: join_key.induct)
    case (2 x)
    then have "hd x \<in> set x" "last x \<in> set x" by (simp_all add: plain_def)
    then show ?case using 2 by (auto simp: plain_def is_sep_def)
  next
    case (3 x y xs)
    then have "hd x \<in> set x" by (simp add: plain_def)
    then show ?case using 3 by (auto simp: plain_def is_sep_def)
  qed simp
  then show "join_key xs \<noteq> []" "hd (join_key xs) \<noteq> BACKSLASH" "last (join_key xs) \<noteq> BACKSLASH" by simp_all
qed

lemma strip_join:
  assumes "xs = [] \<or> list_all plain xs"
  shows "strip (join_key xs) = join_key xs" "xs \<noteq> [] \<Longrightarrow> strip (join_key xs @ [BACKSLASH]) = join_key xs"
proof -
  have d: "dropWhile P ys = ys" if "ys = [] \<or> \<not> P (hd ys)" for P and ys :: "u16 list" using that by (cases ys) auto
  have "strip (join_key xs) = join_key xs \<and> (xs \<noteq> [] \<longrightarrow> strip (join_key xs @ [BACKSLASH]) = join_key xs)"
  proof (cases "xs = []")
    case True
    then show ?thesis by (simp add: strip_def)
  next
    case False
    with assms have ok: "list_all plain xs" by simp
    note e = join_ends [OF False ok]
    show ?thesis using e by (simp add: strip_def d hd_rev)
  qed
  then show "strip (join_key xs) = join_key xs" "xs \<noteq> [] \<Longrightarrow> strip (join_key xs @ [BACKSLASH]) = join_key xs" by simp_all
qed

definition tail_components :: "(nat \<Rightarrow> nat) \<Rightarrow> u16 list \<Rightarrow> u16 list list" where
  "tail_components tw s = map (map (wcharToLower tw)) (filter (\<lambda>x. x \<noteq> []) (tl (pieces s)))"

lemma pieces_not_Nil [simp]: "pieces s \<noteq> []"
  by (cases s) simp_all

lemma key_components_simps:
  "key_components tw [] = []"
  "is_sep c \<Longrightarrow> key_components tw (c # cs) = key_components tw cs"
  "\<not> is_sep c \<Longrightarrow> key_components tw (c # cs) = map (wcharToLower tw) (c # hd (pieces cs)) # tail_components tw cs"
  by (simp_all add: key_components_def tail_components_def)

lemma tail_components_simps:
  "tail_components tw [] = []"
  "is_sep c \<Longrightarrow> tail_components tw (c # cs) = key_components tw cs"
  "\<not> is_sep c \<Longrightarrow> tail_components tw (c # cs) = tail_components tw cs"
  by (simp_all add: key_components_def tail_components_def)

definition base_of :: "u16 list list \<Rightarrow> u16 list" where
  "base_of xs = (if xs = [] then [] else join_key xs @ [BACKSLASH])"

lemma base_of_char: "base_of xs @ [c] = join_key (xs @ [[c]])"
  by (simp add: base_of_def join_snoc)

lemma segment_loop_spec:
  assumes tw: "lower_ok tw"
  shows "(\<forall>xs last. list_all plain xs \<longrightarrow> last \<or> xs = [] \<longrightarrow>
            strip (segment_loop tw (base_of xs) last s) = join_key (xs @ key_components tw s)) \<and>
         (\<forall>xs cur. list_all plain xs \<longrightarrow> plain cur \<longrightarrow>
            strip (segment_loop tw (join_key (xs @ [cur])) False s)
              = join_key (xs @ [cur @ map (wcharToLower tw) (hd (pieces s))] @ tail_components tw s))"
proof (induction s)
  case Nil
  have "strip [] = []" by (simp add: strip_def)
  then show ?case using strip_join by (auto simp: base_of_def key_components_simps tail_components_simps)
next
  case (Cons c cs)
  have A: "strip (segment_loop tw (base_of xs) last cs) = join_key (xs @ key_components tw cs)"
    if "list_all plain xs" "last \<or> xs = []" for xs last using Cons.IH that by blast
  have B: "strip (segment_loop tw (join_key (xs @ [cur])) False cs)
      = join_key (xs @ [cur @ map (wcharToLower tw) (hd (pieces cs))] @ tail_components tw cs)"
    if "list_all plain xs" "plain cur" for xs cur using Cons.IH that by blast
  show ?case
  proof (cases "is_sep c")
    case True
    have n: "(if c = SLASH then BACKSLASH else c) = BACKSLASH" using True by (auto simp: is_sep_def)
    have step: "segment_loop tw r l (c # cs) = segment_loop tw (if r \<noteq> [] \<and> \<not> l then r @ [BACKSLASH] else r) True cs" for r l
      by (simp only: segment_loop.simps n Let_def simp_thms if_True)
    have 1: "strip (segment_loop tw (base_of xs) last (c # cs)) = join_key (xs @ key_components tw (c # cs))"
      if "list_all plain xs" "last \<or> xs = []" for xs last
      using A [OF that(1), of True] that(2) by (auto simp: step key_components_simps(2) [OF True] base_of_def)
    have 2: "strip (segment_loop tw (join_key (xs @ [cur])) False (c # cs))
        = join_key (xs @ [cur @ map (wcharToLower tw) (hd (pieces (c # cs)))] @ tail_components tw (c # cs))"
      if "list_all plain xs" "plain cur" for xs cur
    proof -
      have ok: "list_all plain (xs @ [cur])" using that by simp
      have "join_key (xs @ [cur]) \<noteq> []" using join_ends(1) [OF _ ok] by simp
      then show ?thesis
        using A [OF ok, of True] True by (simp add: step tail_components_simps(2) [OF True] base_of_def)
    qed
    show ?thesis using 1 2 by blast
  next
    case False
    have n: "(if c = SLASH then BACKSLASH else c) = c" "c \<noteq> BACKSLASH" using False by (auto simp: is_sep_def)
    have step: "segment_loop tw r l (c # cs) = segment_loop tw (r @ [wcharToLower tw c]) False cs" for r l
      by (simp only: segment_loop.simps n Let_def simp_thms if_False)
    have lc: "\<not> is_sep (wcharToLower tw c)" using tw False by (simp add: lower_ok_def)
    then have "plain [wcharToLower tw c]" by (simp add: plain_def)
    then have 1: "strip (segment_loop tw (base_of xs) last (c # cs)) = join_key (xs @ key_components tw (c # cs))"
      if "list_all plain xs" for xs last
      using B [OF that] by (simp add: step base_of_char key_components_simps(3) [OF False])
    have 2: "strip (segment_loop tw (join_key (xs @ [cur])) False (c # cs))
        = join_key (xs @ [cur @ map (wcharToLower tw) (hd (pieces (c # cs)))] @ tail_components tw (c # cs))"
      if "list_all plain xs" "plain cur" for xs cur
    proof -
      have "plain (cur @ [wcharToLower tw c])" using that(2) lc by (simp add: plain_def)
      from B [OF that(1) this] show ?thesis
        using False by (simp add: step join_snoc_char [symmetric] tail_components_simps(3) [OF False])
    qed
    show ?thesis using 1 2 by blast
  qed
qed

lemma canonicalize_join:
  assumes "lower_ok tw"
  shows "canonicalizeKeySegment tw s = join_key (key_components tw s)"
proof -
  have "strip (segment_loop tw (base_of []) False s) = join_key ([] @ key_components tw s)"
    using conjunct1 [OF segment_loop_spec [OF assms, of s], rule_format, of "[]" False] by simp
  then show ?thesis by (simp add: canonicalize_strip base_of_def)
qed

lemma component_plain: "component_ok tw x \<Longrightarrow> plain x"
  by (simp add: component_ok_def plain_def)

lemma pieces_plain: "x \<in> set (pieces s) \<Longrightarrow> c \<in> set x \<Longrightarrow> \<not> is_sep c"
proof (induction s arbitrary: x)
  case (Cons a s)
  obtain y ys where ps: "pieces s = y # ys" using pieces_not_Nil [of s] by (cases "pieces s") auto
  with Cons.IH [of y] Cons.IH Cons.prems show ?case by (auto split: if_splits)
qed simp

lemma key_components_ok:
  assumes "lower_ok tw"
  shows "list_all (component_ok tw) (key_components tw s)"
  using assms pieces_plain [of _ s] by (auto simp: list_all_iff key_components_def component_ok_def lower_ok_def)

lemma pieces_append: "(\<forall>c \<in> set x. \<not> is_sep c) \<Longrightarrow> pieces (x @ BACKSLASH # r) = x # pieces r"
  by (induction x) (simp_all add: is_sep_def)

lemma pieces_plain_only: "(\<forall>c \<in> set x. \<not> is_sep c) \<Longrightarrow> pieces x = [x]"
  by (induction x) simp_all

lemma key_components_join: "list_all (component_ok tw) xs \<Longrightarrow> key_components tw (join_key xs) = xs"
proof (induction xs rule: join_key.induct)
  case 1
  then show ?case by (simp add: key_components_def)
next
  case (2 x)
  then have "map (wcharToLower tw) x = x" by (simp add: component_ok_def map_idI)
  then show ?case using 2 by (simp add: key_components_def pieces_plain_only component_ok_def)
next
  case (3 x y xs)
  then have "map (wcharToLower tw) x = x" by (simp add: component_ok_def map_idI)
  then show ?case using 3 by (simp add: key_components_def pieces_append component_ok_def)
qed

lemma join_empty:
  assumes "list_all (component_ok tw) xs"
  shows "join_key xs = [] \<longleftrightarrow> xs = []"
proof -
  have "list_all plain xs" using assms component_plain by (auto simp: list_all_iff)
  then show ?thesis using join_ends(1) [of xs] by auto
qed

lemma join_append:
  "xs \<noteq> [] \<Longrightarrow> ys \<noteq> [] \<Longrightarrow> join_key (xs @ ys) = join_key xs @ BACKSLASH # join_key ys"
proof (induction xs rule: join_key.induct)
  case (2 x)
  then show ?case by (cases ys) simp_all
qed simp_all

text \<open>The components that a call adds to the path of the key it starts from.\<close>

definition sub_components :: "(nat \<Rightarrow> nat) \<Rightarrow> u16 list option \<Rightarrow> u16 list list" where
  "sub_components tw sub = (case sub of None \<Rightarrow> [] | Some s \<Rightarrow> key_components tw s)"

lemma sub_components_ok: "lower_ok tw \<Longrightarrow> list_all (component_ok tw) (sub_components tw sub)"
  by (simp add: sub_components_def key_components_ok split: option.splits)

lemma targetPath_join:
  assumes tw: "lower_ok tw" and b: "list_all (component_ok tw) xs"
  shows "targetPath tw (join_key xs) sub = join_key (xs @ sub_components tw sub)"
proof (cases sub)
  case None
  then show ?thesis by (simp add: targetPath_def sub_components_def)
next
  case (Some s)
  note e = join_empty [OF key_components_ok [OF tw, of s]]
  show ?thesis
    using join_empty [OF b] join_append [of xs "key_components tw s"]
    by (auto simp: Some targetPath_def sub_components_def e canonicalize_join [OF tw] key_components_simps(1) Let_def)
qed

lemma targetingBase_iff: "lower_ok tw \<Longrightarrow> targetingBase tw sub \<longleftrightarrow> sub_components tw sub = []"
  using join_empty [OF key_components_ok]
  by (auto simp: targetingBase_def sub_components_def canonicalize_join key_components_simps(1) split: option.splits)

lemma key_form_components: "key_form tw p \<longleftrightarrow> list_all (component_ok tw) (key_components tw p) \<and> p = join_key (key_components tw p)"
  unfolding key_form_def using key_components_join by metis

lemma targetPath_form:
  assumes "lower_ok tw" "key_form tw base"
  shows "key_form tw (targetPath tw base sub)" "key_components tw (targetPath tw base sub) = key_components tw base @ sub_components tw sub"
proof -
  have ok: "list_all (component_ok tw) (key_components tw base @ sub_components tw sub)"
    using assms sub_components_ok [OF assms(1), of sub] by (simp add: key_form_components)
  have "targetPath tw base sub = join_key (key_components tw base @ sub_components tw sub)"
    using targetPath_join [OF assms(1), of "key_components tw base" sub] assms(2) by (simp add: key_form_components)
  then show "key_form tw (targetPath tw base sub)" "key_components tw (targetPath tw base sub) = key_components tw base @ sub_components tw sub"
    using ok key_components_join [OF ok] unfolding key_form_def by metis+
qed

section \<open>States\<close>

text \<open>The path of the key that a handle denotes.\<close>

definition key_path :: "(nat \<Rightarrow> nat) \<Rightarrow> HANDLE \<Rightarrow> 'a RegState_scheme \<Rightarrow> u16 list option" where
  "key_path tw h s = map_option (\<lambda>kp. canonicalPath (fst kp)) (fst (handleDataFromHKeyLocked tw h s))"

inductive reg_step :: "(nat \<Rightarrow> nat) \<Rightarrow> RegState \<Rightarrow> RegState \<Rightarrow> bool" for tw where
  create: "objects s q = None \<Longrightarrow> reg_step tw s (snd (RegCreateKeyExW tw q hKey sub res opt hr dsp s))"
| open_key: "objects s q = None \<Longrightarrow> reg_step tw s (snd (RegOpenKeyExW tw q hKey sub opt hr s))"
| query: "reg_step tw s (snd (RegQueryValueExW hr ht dsp s))"
| enum: "reg_step tw s (snd (RegEnumKeyExW hn cn hr hc cc s))"
| close: "reg_step tw s (snd (RegCloseKey hKey s))"
| other: "regs s' = regs s \<Longrightarrow> g_existingKeys s' = g_existingKeys s \<Longrightarrow> reg_step tw s s'"

definition reg_init :: "RegState \<Rightarrow> bool" where
  "reg_init s \<longleftrightarrow> g_existingKeys s = {} \<and> regs s = (\<lambda>_. new_key [])"

definition reg_inv :: "(nat \<Rightarrow> nat) \<Rightarrow> 'a RegState_scheme \<Rightarrow> bool" where
  "reg_inv tw s \<longleftrightarrow> (\<forall>k \<in> g_existingKeys s. k \<noteq> [] \<and> key_form tw k) \<and>
     (\<forall>p. key_form tw (canonicalPath (regs s p)) \<and> \<not> closed (regs s p) \<and> \<not> predefined (regs s p))"

lemma handleData_state:
  "handleDataFromHKeyLocked tw h s = (r, s1) \<Longrightarrow> s1 = s\<lparr>objects := objects s1\<rparr>"
  by (auto simp: handleDataFromHKeyLocked_def getAs_def get_def drop_pin_def split: option.splits if_splits prod.splits)

lemma canonicalize_form: "lower_ok tw \<Longrightarrow> key_form tw (canonicalizeKeySegment tw s)"
  using key_components_ok [of tw s] by (auto simp: canonicalize_join key_form_def)

lemma predefined_form: "lower_ok tw \<Longrightarrow> predefinedHandleForValue tw h = Some k \<Longrightarrow> key_form tw (canonicalPath k)"
  by (auto simp: predefinedHandleForValue_def canonicalize_form)

lemma handleData_form:
  assumes "lower_ok tw" "reg_inv tw s" "handleDataFromHKeyLocked tw h s = (Some (k, pin), s1)"
  shows "key_form tw (canonicalPath k)"
proof -
  have "regs s1 = regs s" using handleData_state [OF assms(3)] by (metis RegState.select_convs(1) RegState.surjective RegState.update_convs HState.update_convs(1))
  then show ?thesis
    using assms predefined_form [OF assms(1)]
    by (auto simp: handleDataFromHKeyLocked_def reg_inv_def split: option.splits if_splits prod.splits)
qed

lemma alloc_key_simps:
  "alloc_key q path s = (h, s') \<Longrightarrow> regs s' = (regs s)(q := new_key path)"
  "alloc_key q path s = (h, s') \<Longrightarrow> g_existingKeys s' = g_existingKeys s"
  by (auto simp: alloc_key_def alloc_def Let_def case_prod_unfold)

lemma drop_pin_simps [simp]:
  "regs (drop_pin po s) = regs s" "g_existingKeys (drop_pin po s) = g_existingKeys s" "table (drop_pin po s) = table s"
  by (simp_all add: drop_pin_def split: option.splits)

lemma setLastError_reg [simp]: "regs (setLastError e s) = regs s" "g_existingKeys (setLastError e s) = g_existingKeys s"
  by (simp_all add: setLastError_def)

lemma handleData_simps:
  assumes "handleDataFromHKeyLocked tw h s = (r, s1)"
  shows "regs s1 = regs s" "g_existingKeys s1 = g_existingKeys s" "table s1 = table s"
  by (subst handleData_state [OF assms], simp)+

lemma reg_inv_cong: "regs s' = regs s \<Longrightarrow> g_existingKeys s' = g_existingKeys s \<Longrightarrow> reg_inv tw s' = reg_inv tw s"
  by (simp add: reg_inv_def)

lemma RegCreate_inv:
  assumes tw: "lower_ok tw" and inv: "reg_inv tw s"
  shows "reg_inv tw (snd (RegCreateKeyExW tw q hKey sub res opt hr dsp s)) \<and>
         g_existingKeys s \<subseteq> g_existingKeys (snd (RegCreateKeyExW tw q hKey sub res opt hr dsp s))"
proof -
  obtain r s1 where hd: "handleDataFromHKeyLocked tw hKey s = (r, s1)" by fastforce
  note h = handleData_simps [OF hd]
  show ?thesis
  proof (cases r)
    case None
    then show ?thesis using inv h by (simp add: RegCreateKeyExW_def hd reg_fail_def reg_inv_def)
  next
    case (Some kp)
    obtain k pin where kp: "kp = (k, pin)" by fastforce
    note f = targetPath_form(1) [OF tw handleData_form [OF tw inv hd [unfolded Some kp]], of sub]
    obtain h' s3 where a: "alloc_key q (targetPath tw (canonicalPath k) sub)
        (s1\<lparr>g_existingKeys := insert (targetPath tw (canonicalPath k) sub) (g_existingKeys s1)\<rparr>) = (h', s3)" by fastforce
    show ?thesis
      using inv f alloc_key_simps [OF a]
      by (auto simp: RegCreateKeyExW_def hd Some kp reg_fail_def reg_inv_def h Let_def a [unfolded h] new_key_def)
  qed
qed

lemma RegOpen_inv:
  assumes tw: "lower_ok tw" and inv: "reg_inv tw s"
  shows "reg_inv tw (snd (RegOpenKeyExW tw q hKey sub opt hr s)) \<and>
         g_existingKeys (snd (RegOpenKeyExW tw q hKey sub opt hr s)) = g_existingKeys s"
proof -
  obtain r s1 where hd: "handleDataFromHKeyLocked tw hKey s = (r, s1)" by fastforce
  note h = handleData_simps [OF hd]
  show ?thesis
  proof (cases r)
    case None
    then show ?thesis using inv h by (simp add: RegOpenKeyExW_def hd reg_fail_def reg_inv_def)
  next
    case (Some kp)
    obtain k pin where kp: "kp = (k, pin)" by fastforce
    note f = targetPath_form(1) [OF tw handleData_form [OF tw inv hd [unfolded Some kp]], of sub]
    obtain h' s3 where a: "alloc_key q (targetPath tw (canonicalPath k) sub) s1 = (h', s3)" by fastforce
    show ?thesis
      using inv f alloc_key_simps [OF a]
      by (auto simp: RegOpenKeyExW_def hd Some kp reg_fail_def reg_inv_def h Let_def a new_key_def)
  qed
qed

lemma RegCloseKey_simps [simp]: "regs (snd (RegCloseKey h s)) = regs s" "g_existingKeys (snd (RegCloseKey h s)) = g_existingKeys s"
  by (auto simp: RegCloseKey_def getAs_def get_def split: option.splits if_splits)

lemma reg_step_inv:
  assumes "lower_ok tw" "reg_inv tw s" "reg_step tw s s'"
  shows "reg_inv tw s' \<and> g_existingKeys s \<subseteq> g_existingKeys s'"
  using assms(3,1,2)
proof (cases rule: reg_step.cases)
  case (create q hKey sub res opt hr dsp)
  then show ?thesis using RegCreate_inv [OF assms(1,2)] by simp
next
  case (open_key q hKey sub opt hr)
  then show ?thesis using RegOpen_inv [OF assms(1,2)] by simp
qed (auto simp: RegQueryValueExW_def RegEnumKeyExW_def reg_inv_def Let_def)

lemma reg_steps_inv:
  assumes "lower_ok tw" "reg_inv tw s" "(reg_step tw)\<^sup>*\<^sup>* s s'"
  shows "reg_inv tw s' \<and> g_existingKeys s \<subseteq> g_existingKeys s'"
  using assms(3)
proof (induction rule: rtranclp_induct)
  case base
  then show ?case using assms(2) by simp
next
  case (step s' s'')
  then show ?case using reg_step_inv [OF assms(1), of s' s''] by blast
qed

lemma reg_init_inv: "reg_init s \<Longrightarrow> reg_inv tw s"
proof -
  have "key_form tw []" unfolding key_form_def by (rule exI [of _ "[]"]) simp
  then show "reg_init s \<Longrightarrow> reg_inv tw s" by (simp add: reg_init_def reg_inv_def new_key_def)
qed

section \<open>Handles of keys\<close>

lemma handleData_pin:
  assumes "handleDataFromHKeyLocked tw h s = (Some (k, pin), s1)" "objects s q = None"
  shows "objects s1 q = None" "pin \<noteq> Some q"
  using assms
  by (auto simp: handleDataFromHKeyLocked_def getAs_def get_def ref_def fun_upd_def split: option.splits if_splits prod.splits)

lemma predefined_pseudo: "\<not> isPseudo h \<Longrightarrow> predefinedHandleForValue tw h = None"
  by (auto simp: predefinedHandleForValue_def kPredefinedKeyInfos_def isPseudo_iff)

lemma key_path_alloc:
  assumes a: "alloc_key q path s = (h, s')" and q: "objects s q = None" "pin \<noteq> Some q"
    and wf: "table_wf (table s)" "length (mSlots (table s)) < kMaxSlots"
  shows "key_path tw h (drop_pin pin s') = Some path"
proof -
  let ?s = "s\<lparr>objects := make_pin q RegistryKey 0 (objects s), regs := (regs s)(q := new_key path)\<rparr>"
  have al: "alloc q 0 0 ?s = (h, s')" using a by (simp add: alloc_key_def)
  have ob: "objects ?s q = Some \<lparr>otype = RegistryKey, oflags = 0, pointerCount = 1, handleCount = 0\<rparr>"
    by (simp add: make_pin_def ref_def new_object_def)
  have wf': "table_wf (table ?s)" "length (mSlots (table ?s)) < kMaxSlots" using wf by simp_all
  obtain e where e: "hview (table s') = (hview (table ?s))(h \<mapsto> e)" "obj e = Some q" "\<not> isPseudo h" "h \<noteq> NO_HANDLE"
    and ty: "\<forall>ob. objects ?s q = Some ob \<longrightarrow> typeCache (meta e) = otype ob"
    by (rule hview_alloc [OF wf' al]) blast
  have tc: "typeCache (meta e) = RegistryKey" using ty ob by simp
  have ob': "\<exists>ob. objects s' q = Some ob \<and> otype ob = RegistryKey"
    using al ob by (auto simp: alloc_def Let_def case_prod_unfold)
  have d: "objects (drop_pin pin s') q = objects s' q"
    using q(2) by (auto simp: drop_pin_def deref_def split: option.splits)
  have "hview (table s') h = Some e" using e(1) by simp
  then obtain idx where en: "entry_of (table s') h = Some (idx, e)" by (auto simp: hview_def)
  have r: "regs s' q = new_key path" using alloc_key_simps(1) [OF a] by simp
  show ?thesis
    using e(2-4) ob' en tc r predefined_pseudo [OF e(3), of tw] d
    by (auto simp: key_path_def handleDataFromHKeyLocked_def getAs_def get_def ref_def new_key_def)
qed

lemma key_path_Some:
  "key_path tw h s = Some p \<longleftrightarrow> (\<exists>k pin s1. handleDataFromHKeyLocked tw h s = (Some (k, pin), s1) \<and> canonicalPath k = p)"
  by (cases "handleDataFromHKeyLocked tw h s") (auto simp: key_path_def)

lemma key_path_form: "lower_ok tw \<Longrightarrow> reg_inv tw s \<Longrightarrow> key_path tw h s = Some p \<Longrightarrow> key_form tw p"
  using handleData_form by (auto simp: key_path_Some)

lemma predefined_key_path:
  assumes "handleDataFromHKeyLocked tw h s = (Some (k, pin), s1)" "predefined k" "reg_inv tw s"
  shows "pin = None \<and> s1 = s \<and> (\<forall>s'. handleDataFromHKeyLocked tw h s' = (Some (k, None), s'))"
proof -
  have "\<not> predefined (regs s1 p)" for p using handleData_simps(1) [OF assms(1)] assms(3) by (simp add: reg_inv_def)
  then show ?thesis
    using assms(1,2) by (auto simp: handleDataFromHKeyLocked_def split: option.splits if_splits prod.splits)
qed

text \<open>
  C34: paths of keys are in normal form. In every state the calls reach, every existing key and every key a handle denotes
  has a path that consists of its components, not empty and in lower case, joined by single backslashes; a key in the set is not empty, and the path a call forms for a name below
  a key has the components of the key followed by those of the name, in lower case and without empty ones.
\<close>

theorem registry_paths_normal:
  assumes "lower_ok tw" "reg_init s0" "(reg_step tw)\<^sup>*\<^sup>* s0 s"
  shows "(\<forall>k \<in> g_existingKeys s. k \<noteq> [] \<and> join_key (key_components tw k) = k) \<and>
         (\<forall>h p. key_path tw h s = Some p \<longrightarrow> join_key (key_components tw p) = p \<and>
            (\<forall>sub. key_components tw (targetPath tw p sub) = key_components tw p @ sub_components tw sub))"
proof -
  have inv: "reg_inv tw s" using reg_steps_inv [OF assms(1) reg_init_inv [OF assms(2)] assms(3)] by simp
  have n: "join_key (key_components tw k) = k" if "key_form tw k" for k
    using that key_form_components by metis
  show ?thesis
    using inv n key_path_form [OF assms(1) inv] targetPath_form(2) [OF assms(1)] by (auto simp: reg_inv_def)
qed

text \<open>
  C35: a key that was created can be opened. After \<^verbatim>\<open>RegCreateKeyEx\<close> has succeeded, and whatever calls follow, opening the same
  path succeeds: from any key and with any name whose components together are those of the created path, whatever the
  case, the kind and the number of the slashes. The handle denotes a key with that path.
\<close>

theorem registry_names_keys:
  assumes "lower_ok tw" "reg_init s0" "(reg_step tw)\<^sup>*\<^sup>* s0 s"
    and "RegCreateKeyExW tw q hKey sub 0 0 True dsp s = (r, s1)" "status r = ERROR_SUCCESS" "objects s q = None"
    and "(reg_step tw)\<^sup>*\<^sup>* s1 s2"
    and "key_path tw hKey s = Some base" "key_path tw hKey' s2 = Some base'"
    and "key_components tw base' @ sub_components tw sub' = key_components tw base @ sub_components tw sub"
    and "objects s2 q' = None" "table_wf (table s2)" "length (mSlots (table s2)) < kMaxSlots"
  shows "\<exists>h s3 p. RegOpenKeyExW tw q' hKey' sub' 0 True s2 = (\<lparr>status = ERROR_SUCCESS, phkResult = Some h, lpdwDisposition = None\<rparr>, s3) \<and>
           key_path tw h s3 = Some p \<and> key_components tw p = key_components tw base @ sub_components tw sub"
proof -
  note tw = assms(1)
  have inv: "reg_inv tw s" using reg_steps_inv [OF tw reg_init_inv [OF assms(2)] assms(3)] by simp
  have inv1: "reg_inv tw s1" using RegCreate_inv [OF tw inv, of q hKey sub 0 0 True dsp] assms(4) by simp
  note st = reg_steps_inv [OF tw inv1 assms(7)]
  obtain k pin t where k: "handleDataFromHKeyLocked tw hKey s = (Some (k, pin), t)" "canonicalPath k = base"
    using assms(8) by (auto simp: key_path_Some)
  let ?path = "targetPath tw base sub"
  have new: "?path \<noteq> [] \<and> ?path \<in> g_existingKeys s1"
    using assms(4,5)
    by (auto simp: RegCreateKeyExW_def k reg_fail_def Let_def split: if_splits prod.splits dest!: alloc_key_simps(2))
  obtain k' pin' t' where k': "handleDataFromHKeyLocked tw hKey' s2 = (Some (k', pin'), t')" "canonicalPath k' = base'"
    using assms(9) by (auto simp: key_path_Some)
  have f: "key_form tw base" "key_form tw base'" using key_path_form [OF tw] inv st assms(8,9) by blast+
  have same: "targetPath tw base' sub' = ?path"
    using targetPath_form [OF tw f(1), of sub] targetPath_form [OF tw f(2), of sub'] assms(10) by (simp add: key_form_components)
  have ex: "?path \<in> g_existingKeys t'" "g_existingKeys t' = g_existingKeys s2" using new st handleData_simps(2) [OF k'(1)] by auto
  note comps = targetPath_form(2) [OF tw f(1), of sub]
  show ?thesis
  proof (cases "(sub' = None \<or> sub' = Some []) \<and> predefined k'")
    case True
    then have b: "base' = ?path" using same by (auto simp: targetPath_def)
    have "handleDataFromHKeyLocked tw hKey' t = (Some (k', None), t)" for t :: RegState
      using predefined_key_path [OF k'(1)] True st by blast
    then have "key_path tw hKey' (drop_pin pin' t') = Some ?path" using b k'(2) by (simp add: key_path_def)
    moreover have "RegOpenKeyExW tw q' hKey' sub' 0 True s2 =
        (\<lparr>status = ERROR_SUCCESS, phkResult = Some hKey', lpdwDisposition = None\<rparr>, drop_pin pin' t')"
      using True new ex by (simp add: RegOpenKeyExW_def k' same Let_def)
    ultimately show ?thesis using comps by blast
  next
    case False
    obtain h s3 where a: "alloc_key q' ?path t' = (h, s3)" by fastforce
    have "table t' = table s2" by (rule handleData_simps(3) [OF k'(1)])
    then have "key_path tw h (drop_pin pin' s3) = Some ?path"
      using key_path_alloc [OF a handleData_pin [OF k'(1) assms(11)]] assms(12,13) by simp
    then show ?thesis using False new ex comps by (auto simp: RegOpenKeyExW_def k' same Let_def a)
  qed
qed

section \<open>What the calls leave out\<close>

text \<open>\<^verbatim>\<open>RegCloseKey\<close> does not release the handle, so every key object ever opened stays in the table.\<close>

theorem RegCloseKey_keeps_handle: "table (snd (RegCloseKey h s)) = table s"
  by (auto simp: RegCloseKey_def getAs_def get_def setLastError_def split: option.splits if_splits)

text \<open>Lower case of ASCII letters only, as in the C locale.\<close>

lemma lower_ok_id: "lower_ok id"
proof -
  have u: "unat (c + 32) = unat c + 32" if "65 \<le> c" "c \<le> 90" for c :: u16
    using that by (simp add: word_le_nat_alt unat_word_ariths)
  have "wcharToLower id c = (if 65 \<le> c \<and> c \<le> 90 then c + 32 else c)" for c
  proof -
    have "unat c < 65536" using unsigned_less [of c] by simp
    then show ?thesis by (simp add: wcharToLower_def Let_def)
  qed
  moreover have "\<not> is_sep (c + 32) \<and> \<not> (65 \<le> c + 32 \<and> c + 32 \<le> 90)" if "65 \<le> c" "c \<le> 90" for c :: u16
  proof -
    have "97 \<le> unat (c + 32)" "unat (c + 32) \<le> 122" using that u [OF that] by (simp_all add: word_le_nat_alt)
    then show ?thesis by (auto simp: is_sep_def word_le_nat_alt)
  qed
  ultimately have "\<not> is_sep (wcharToLower id c) \<and> wcharToLower id (wcharToLower id c) = wcharToLower id c" if "\<not> is_sep c" for c
    using that by (cases "65 \<le> c \<and> c \<le> 90") auto
  then show ?thesis by (simp add: lower_ok_def)
qed

definition HKLM :: HANDLE where "HKLM = 0x80000002"

lemma HKLM_key:
  obtains k where "\<And>s. handleDataFromHKeyLocked id HKLM s = (Some (k, None), s)" "canonicalPath k \<noteq> []"
proof -
  let ?k = "\<lparr>canonicalPath = canonicalizeKeySegment id (wide ''HKEY_LOCAL_MACHINE''), closed = False, predefined = True\<rparr>"
  have "wide ''HKEY_LOCAL_MACHINE'' = 0x48 # wide ''KEY_LOCAL_MACHINE''" by (simp add: wide_def)
  then have "key_components id (wide ''HKEY_LOCAL_MACHINE'') \<noteq> []" by (simp add: key_components_simps is_sep_def)
  then have "canonicalPath ?k \<noteq> []" using join_empty [OF key_components_ok [OF lower_ok_id]] by (simp add: canonicalize_join [OF lower_ok_id])
  moreover have "handleDataFromHKeyLocked id HKLM s = (Some (?k, None), s)" for s :: "'a RegState_scheme"
    by (simp add: handleDataFromHKeyLocked_def predefinedHandleForValue_def kPredefinedKeyInfos_def HKLM_def NO_HANDLE_def)
  ultimately show ?thesis using that by blast
qed

text \<open>A predefined key cannot be opened before a call has created it.\<close>

theorem predefined_key_not_found:
  "status (fst (RegOpenKeyExW id q 0x80000002 None 0 True (s\<lparr>g_existingKeys := {}\<rparr>))) = ERROR_FILE_NOT_FOUND"
proof -
  obtain k where k: "\<And>s :: 'a RegState_scheme. handleDataFromHKeyLocked id HKLM s = (Some (k, None), s)" "canonicalPath k \<noteq> []"
    using HKLM_key by blast
  show ?thesis using k(2) by (simp add: RegOpenKeyExW_def k(1) [unfolded HKLM_def] targetPath_def reg_fail_def)
qed

text \<open>The registry when the program starts, and a key created in it.\<close>

definition reg_start :: RegState where
  "reg_start = \<lparr>objects = Map.empty, table = empty_table, mTable = [], lastError = 0, regs = (\<lambda>_. new_key []), g_existingKeys = {}\<rparr>"

definition key_demo :: "RegCall \<times> RegState" where
  "key_demo = RegCreateKeyExW id 1 HKLM (Some [0x41, BACKSLASH, 0x62]) 0 0 True True reg_start"

lemma sub_demo: "sub_components id (Some [0x41, BACKSLASH, 0x62]) = [[0x61], [0x62]]" "sub_components id (Some [0x61, SLASH, SLASH, 0x42]) = [[0x61], [0x62]]"
  by (simp_all add: sub_components_def key_components_def is_sep_def wcharToLower_def)

lemma key_demo_simps:
  "status (fst key_demo) = ERROR_SUCCESS" "objects (snd key_demo) 2 = None" "table_wf (table (snd key_demo))"
  "length (mSlots (table (snd key_demo))) < kMaxSlots" "g_existingKeys (snd key_demo) \<noteq> {}"
proof -
  obtain k where k: "\<And>s :: RegState. handleDataFromHKeyLocked id HKLM s = (Some (k, None), s)" "canonicalPath k \<noteq> []"
    using HKLM_key by metis
  have ne: "targetPath id (canonicalPath k) (Some [0x41, BACKSLASH, 0x62]) \<noteq> []" using k(2) by (simp add: targetPath_def Let_def)
  have nb: "\<not> targetingBase id (Some [0x41, BACKSLASH, 0x62])" by (simp add: targetingBase_iff [OF lower_ok_id] sub_demo)
  note d = key_demo_def RegCreateKeyExW_def k(1) Let_def ne nb alloc_key_def alloc_def alloc_index_def reg_start_def empty_table_def
    make_pin_def ref_def new_object_def drop_pin_def case_prod_unfold kCompatMaxIndex_def
  show "status (fst key_demo) = ERROR_SUCCESS" "objects (snd key_demo) 2 = None" "length (mSlots (table (snd key_demo))) < kMaxSlots"
    "g_existingKeys (snd key_demo) \<noteq> {}"
    by (simp_all add: d kMaxSlots_def)
  have "table_wf (table (snd (alloc 1 0 0 (reg_start\<lparr>g_existingKeys := K, objects := os, regs := r\<rparr>))))" for K os r
    by (rule alloc_wf) (simp_all add: reg_start_def table_wf_empty)
  then show "table_wf (table (snd key_demo))"
    by (simp add: key_demo_def RegCreateKeyExW_def k(1) Let_def ne nb alloc_key_def drop_pin_def case_prod_unfold reg_start_def)
qed

lemma reg_start_init: "reg_init reg_start" "(reg_step id)\<^sup>*\<^sup>* reg_start (snd key_demo)"
proof -
  show "reg_init reg_start" by (simp add: reg_init_def reg_start_def)
  have "objects reg_start 1 = None" by (simp add: reg_start_def)
  from reg_step.create [OF this, of id HKLM "Some [0x41, BACKSLASH, 0x62]" 0 0 True True]
  show "(reg_step id)\<^sup>*\<^sup>* reg_start (snd key_demo)" unfolding key_demo_def by blast
qed

theorem registry_paths_normal_witness:
  "g_existingKeys (snd key_demo) \<noteq> {} \<and> (join_key \<circ> key_components id) ` g_existingKeys (snd key_demo) = g_existingKeys (snd key_demo)"
proof -
  have n: "\<forall>k \<in> g_existingKeys (snd key_demo). (join_key \<circ> key_components id) k = k"
    using registry_paths_normal [OF lower_ok_id reg_start_init] by simp
  then have "(join_key \<circ> key_components id) ` g_existingKeys (snd key_demo) = id ` g_existingKeys (snd key_demo)" by (intro image_cong) simp_all
  then show ?thesis using key_demo_simps(5) by simp
qed

theorem registry_names_keys_witness:
  "\<exists>h s3. RegOpenKeyExW id 2 HKLM (Some [0x61, SLASH, SLASH, 0x42]) 0 True (snd key_demo)
     = (\<lparr>status = ERROR_SUCCESS, phkResult = Some h, lpdwDisposition = None\<rparr>, s3)"
proof -
  obtain k where k: "\<And>s :: RegState. handleDataFromHKeyLocked id HKLM s = (Some (k, None), s)" using HKLM_key by metis
  then have p: "key_path id HKLM s = Some (canonicalPath k)" for s :: RegState by (simp add: key_path_def)
  have c: "RegCreateKeyExW id 1 HKLM (Some [0x41, BACKSLASH, 0x62]) 0 0 True True reg_start = (fst key_demo, snd key_demo)"
    by (simp add: key_demo_def)
  have o: "objects reg_start 1 = None" by (simp add: reg_start_def)
  have "key_components id (canonicalPath k) @ sub_components id (Some [0x61, SLASH, SLASH, 0x42])
      = key_components id (canonicalPath k) @ sub_components id (Some [0x41, BACKSLASH, 0x62])" by (simp only: sub_demo)
  from registry_names_keys [OF lower_ok_id reg_start_init(1) rtranclp.rtrancl_refl c key_demo_simps(1) o rtranclp.rtrancl_refl p p this
      key_demo_simps(2-4)]
  show ?thesis by blast
qed

end
