(* ===== verification/Fls_Slots.thy ===== *)
theory Fls_Slots
  imports Error_Codes
begin

text \<open>
  Fiber-local storage (\<^verbatim>\<open>src/dll/kernel32/fibersapi.cpp\<close>): a table of 256 indices shared by the threads, and for each thread an
  array of values. Releasing an index does not visit the arrays of the other threads; instead every index has a
  generation, and a value is good only if it carries the current one.
\<close>

section \<open>The calls\<close>

type_synonym tid = nat

record FlsSlot =
  fgeneration :: u32
  fvalue :: u32

record FlsState =
  g_flsValuesUsed :: "nat \<Rightarrow> bool"
  g_flsGenerations :: "nat \<Rightarrow> u32"
  t_flsValues :: "tid \<Rightarrow> nat \<Rightarrow> FlsSlot"
  t_lastError :: "tid \<Rightarrow> u32"

definition kMaxFlsValues :: nat where "kMaxFlsValues = 0x100"

definition FLS_OUT_OF_INDEXES :: u32 where "FLS_OUT_OF_INDEXES = 0xFFFFFFFF"

definition fls_start :: FlsState where
  "fls_start = \<lparr>g_flsValuesUsed = (\<lambda>_. False), g_flsGenerations = (\<lambda>_. 0),
     t_flsValues = (\<lambda>_ _. \<lparr>fgeneration = 0, fvalue = 0\<rparr>), t_lastError = (\<lambda>_. 0)\<rparr>"

definition fls_error :: "tid \<Rightarrow> u32 \<Rightarrow> FlsState \<Rightarrow> FlsState" where
  "fls_error t e s = s\<lparr>t_lastError := (t_lastError s)(t := e)\<rparr>"

definition setSlot :: "tid \<Rightarrow> nat \<Rightarrow> FlsSlot \<Rightarrow> FlsState \<Rightarrow> FlsState" where
  "setSlot t i v s = s\<lparr>t_flsValues := (t_flsValues s)(t := (t_flsValues s t)(i := v))\<rparr>"

definition resetThreadFlsSlot :: "tid \<Rightarrow> nat \<Rightarrow> FlsState \<Rightarrow> FlsState" where
  "resetThreadFlsSlot t i s =
     (if fgeneration (t_flsValues s t i) \<noteq> g_flsGenerations s i
      then setSlot t i \<lparr>fgeneration = g_flsGenerations s i, fvalue = 0\<rparr> s else s)"

text \<open>The loop of \<^verbatim>\<open>FlsAlloc\<close>: the first index that is not in use, from \<open>i\<close> on.\<close>

function first_unused :: "(nat \<Rightarrow> bool) \<Rightarrow> nat \<Rightarrow> nat option" where
  "first_unused used i = (if i \<ge> kMaxFlsValues then None else if \<not> used i then Some i else first_unused used (i + 1))"
  by pat_completeness auto
termination by (relation "measure (\<lambda>(used, i). kMaxFlsValues - i)") auto

declare first_unused.simps [simp del]

definition FlsAlloc :: "tid \<Rightarrow> FlsState \<Rightarrow> u32 \<times> FlsState" where
  "FlsAlloc t s =
     (case first_unused (g_flsValuesUsed s) 0 of
        Some i \<Rightarrow>
          (of_nat i, resetThreadFlsSlot t i (s\<lparr>g_flsValuesUsed := (g_flsValuesUsed s)(i := True),
                                                g_flsGenerations := (g_flsGenerations s)(i := g_flsGenerations s i + 1)\<rparr>))
      | None \<Rightarrow> (FLS_OUT_OF_INDEXES, fls_error t FLS_OUT_OF_INDEXES s))"

definition fls_valid :: "u32 \<Rightarrow> FlsState \<Rightarrow> bool" where
  "fls_valid idx s \<longleftrightarrow> unat idx < kMaxFlsValues \<and> g_flsValuesUsed s (unat idx)"

definition FlsFree :: "tid \<Rightarrow> u32 \<Rightarrow> FlsState \<Rightarrow> bool \<times> FlsState" where
  "FlsFree t idx s =
     (if fls_valid idx s then (True, s\<lparr>g_flsValuesUsed := (g_flsValuesUsed s)(unat idx := False)\<rparr>)
      else (False, fls_error t ERROR_INVALID_PARAMETER s))"

definition FlsGetValue :: "tid \<Rightarrow> u32 \<Rightarrow> FlsState \<Rightarrow> u32 \<times> FlsState" where
  "FlsGetValue t idx s =
     (if fls_valid idx s
      then let s1 = resetThreadFlsSlot t (unat idx) s in
           (fvalue (t_flsValues s1 t (unat idx)), fls_error t ERROR_SUCCESS s1)
      else (0, fls_error t ERROR_INVALID_PARAMETER s))"

definition FlsSetValue :: "tid \<Rightarrow> u32 \<Rightarrow> u32 \<Rightarrow> FlsState \<Rightarrow> bool \<times> FlsState" where
  "FlsSetValue t idx lpFlsData s =
     (if fls_valid idx s
      then let s1 = resetThreadFlsSlot t (unat idx) s in
           (True, setSlot t (unat idx) ((t_flsValues s1 t (unat idx))\<lparr>fvalue := lpFlsData\<rparr>) s1)
      else (False, fls_error t ERROR_INVALID_PARAMETER s))"

section \<open>What the calls promise\<close>

text \<open>
  The specification has no generations: a set of indices in use and a table of values per thread, which an allocation
  clears for every thread at once.
\<close>

record FlsTable =
  inUse :: "nat set"
  values_of :: "tid \<Rightarrow> nat \<Rightarrow> u32"
  errors_of :: "tid \<Rightarrow> u32"

datatype fls_call = Alloc | Free u32 | Get u32 | Set u32 u32

definition spec_free :: "FlsTable \<Rightarrow> nat set" where
  "spec_free a = {i. i < kMaxFlsValues \<and> i \<notin> inUse a}"

definition spec_error :: "tid \<Rightarrow> u32 \<Rightarrow> FlsTable \<Rightarrow> FlsTable" where
  "spec_error t e a = a\<lparr>errors_of := (errors_of a)(t := e)\<rparr>"

fun spec_call :: "tid \<Rightarrow> fls_call \<Rightarrow> FlsTable \<Rightarrow> u32 \<times> FlsTable" where
  "spec_call t Alloc a =
     (if spec_free a = {} then (FLS_OUT_OF_INDEXES, spec_error t FLS_OUT_OF_INDEXES a)
      else let i = Min (spec_free a) in
        (of_nat i, a\<lparr>inUse := insert i (inUse a), values_of := (\<lambda>t'. (values_of a t')(i := 0))\<rparr>))"
| "spec_call t (Free idx) a =
     (if unat idx \<in> inUse a then (1, a\<lparr>inUse := inUse a - {unat idx}\<rparr>) else (0, spec_error t ERROR_INVALID_PARAMETER a))"
| "spec_call t (Get idx) a =
     (if unat idx \<in> inUse a then (values_of a t (unat idx), spec_error t ERROR_SUCCESS a) else (0, spec_error t ERROR_INVALID_PARAMETER a))"
| "spec_call t (Set idx v) a =
     (if unat idx \<in> inUse a then (1, a\<lparr>values_of := (values_of a)(t := (values_of a t)(unat idx := v))\<rparr>)
      else (0, spec_error t ERROR_INVALID_PARAMETER a))"

fun fls_exec :: "tid \<Rightarrow> fls_call \<Rightarrow> FlsState \<Rightarrow> u32 \<times> FlsState" where
  "fls_exec t Alloc s = FlsAlloc t s"
| "fls_exec t (Free idx) s = (case FlsFree t idx s of (ok, s') \<Rightarrow> (of_bool ok, s'))"
| "fls_exec t (Get idx) s = FlsGetValue t idx s"
| "fls_exec t (Set idx v) s = (case FlsSetValue t idx v s of (ok, s') \<Rightarrow> (of_bool ok, s'))"

fun run_calls :: "(tid \<Rightarrow> fls_call \<Rightarrow> 's \<Rightarrow> u32 \<times> 's) \<Rightarrow> (tid \<times> fls_call) list \<Rightarrow> 's \<Rightarrow> u32 list \<times> 's" where
  "run_calls f [] s = ([], s)"
| "run_calls f ((t, c) # cs) s = (let (r, s1) = f t c s; (rs, s2) = run_calls f cs s1 in (r # rs, s2))"

definition spec_start :: FlsTable where
  "spec_start = \<lparr>inUse = {}, values_of = (\<lambda>_ _. 0), errors_of = (\<lambda>_. 0)\<rparr>"

section \<open>The relation\<close>

text \<open>
  \<open>g\<close> counts the allocations of each index, at most \<open>n\<close>: every slot of a thread carries the number of an allocation that has
  happened, and if it is the last one of an index in use then its value is the thread's.
\<close>

definition fls_rel :: "(nat \<Rightarrow> nat) \<Rightarrow> nat \<Rightarrow> FlsState \<Rightarrow> FlsTable \<Rightarrow> bool" where
  "fls_rel g n s a \<longleftrightarrow> inUse a = {i. i < kMaxFlsValues \<and> g_flsValuesUsed s i} \<and> t_lastError s = errors_of a \<and>
     (\<forall>i. g i \<le> n) \<and> (\<forall>i. g_flsGenerations s i = of_nat (g i)) \<and>
     (\<forall>t i. \<exists>k \<le> g i. fgeneration (t_flsValues s t i) = of_nat k) \<and>
     (\<forall>t i. i \<in> inUse a \<longrightarrow> values_of a t i =
        (if fgeneration (t_flsValues s t i) = of_nat (g i) then fvalue (t_flsValues s t i) else 0))"

lemma first_unused_None: "first_unused used i = None \<longleftrightarrow> (\<forall>j. i \<le> j \<and> j < kMaxFlsValues \<longrightarrow> used j)"
proof (induction used i rule: first_unused.induct)
  case (1 used i)
  have "(\<forall>j. i \<le> j \<and> j < kMaxFlsValues \<longrightarrow> used j) \<longleftrightarrow>
      (i < kMaxFlsValues \<longrightarrow> used i) \<and> (\<forall>j. i + 1 \<le> j \<and> j < kMaxFlsValues \<longrightarrow> used j)"
    using le_eq_less_or_eq [of i] by (auto simp: Suc_le_eq)
  moreover have "\<not> i + 1 \<le> j \<or> \<not> j < kMaxFlsValues" if "kMaxFlsValues \<le> i" for j using that by linarith
  ultimately show ?case using 1 by (subst first_unused.simps) auto
qed

lemma first_unused_Some:
  "first_unused used i = Some j \<Longrightarrow> i \<le> j \<and> j < kMaxFlsValues \<and> \<not> used j \<and> (\<forall>k. i \<le> k \<and> k < j \<longrightarrow> used k)"
proof (induction used i rule: first_unused.induct)
  case (1 used i)
  have i: "i < kMaxFlsValues" using "1.prems" by (subst (asm) first_unused.simps) (auto split: if_splits)
  show ?case
  proof (cases "used i")
    case False
    then show ?thesis using "1.prems" i by (subst (asm) first_unused.simps) auto
  next
    case True
    then have "first_unused used (i + 1) = Some j" using "1.prems" i by (subst (asm) first_unused.simps) auto
    with "1.IH" [of] True i have "i + 1 \<le> j \<and> j < kMaxFlsValues \<and> \<not> used j \<and> (\<forall>k. i + 1 \<le> k \<and> k < j \<longrightarrow> used k)" by simp
    moreover have "i \<le> k \<Longrightarrow> i = k \<or> i + 1 \<le> k" for k by auto
    ultimately show ?thesis using True by auto
  qed
qed

lemma first_unused_Min:
  assumes "inUse a = {i. i < kMaxFlsValues \<and> used i}"
  shows "first_unused used 0 = (if spec_free a = {} then None else Some (Min (spec_free a)))"
proof (cases "first_unused used 0")
  case None
  then show ?thesis using assms by (auto simp: first_unused_None spec_free_def)
next
  case (Some j)
  note j = first_unused_Some [OF Some]
  have "Min (spec_free a) = j"
    by (rule Min_eqI) (use j assms in \<open>auto simp: spec_free_def not_less [symmetric]\<close>)
  then show ?thesis using Some j assms by (auto simp: spec_free_def)
qed

lemma fls_rel_reset:
  assumes "fls_rel g n s a"
  shows "fls_rel g n (resetThreadFlsSlot t i s) a"
    and "i \<in> inUse a \<Longrightarrow> t_flsValues (resetThreadFlsSlot t i s) t i = \<lparr>fgeneration = of_nat (g i), fvalue = values_of a t i\<rparr>"
  using assms by (auto simp: fls_rel_def resetThreadFlsSlot_def setSlot_def)

lemma fls_rel_mono: "fls_rel g n s a \<Longrightarrow> fls_rel g (Suc n) s a"
  by (auto simp: fls_rel_def le_Suc_eq)

lemma fls_rel_error [simp]: "fls_rel g n s a \<Longrightarrow> fls_rel g n (fls_error t e s) (spec_error t e a)"
  by (simp add: fls_rel_def fls_error_def spec_error_def)

lemma fls_rel_valid: "fls_rel g n s a \<Longrightarrow> fls_valid idx s \<longleftrightarrow> unat idx \<in> inUse a"
  by (simp add: fls_rel_def fls_valid_def)

text \<open>A new generation differs from every one that a slot can carry.\<close>

lemma of_nat_u32_eq: "m < 2 ^ 32 \<Longrightarrow> k < 2 ^ 32 \<Longrightarrow> (of_nat m :: u32) = of_nat k \<longleftrightarrow> m = k"
  by (simp add: word_of_nat_eq_iff take_bit_nat_eq_self)

lemma fls_rel_alloc:
  assumes r: "fls_rel g n s a" and n: "Suc n < 2 ^ 32" and i: "i < kMaxFlsValues"
  shows "fls_rel (g(i := Suc (g i))) (Suc n)
           (s\<lparr>g_flsValuesUsed := (g_flsValuesUsed s)(i := True), g_flsGenerations := (g_flsGenerations s)(i := g_flsGenerations s i + 1)\<rparr>)
           (a\<lparr>inUse := insert i (inUse a), values_of := (\<lambda>t'. (values_of a t')(i := 0))\<rparr>)"
proof -
  have "fgeneration (t_flsValues s t i) \<noteq> 1 + of_nat (g i)" for t
  proof -
    have "\<exists>k \<le> g i. fgeneration (t_flsValues s t i) = of_nat k" using r unfolding fls_rel_def by blast
    then obtain k where k: "k \<le> g i" "fgeneration (t_flsValues s t i) = of_nat k" by blast
    have "g i \<le> n" using r by (simp add: fls_rel_def)
    then have "(of_nat k :: u32) \<noteq> of_nat (Suc (g i))"
      using k(1) n by (subst of_nat_u32_eq) simp_all
    then show ?thesis using k(2) by simp
  qed
  moreover have "\<exists>k \<le> Suc (g i). fgeneration (t_flsValues s t i) = of_nat k" for t
    using r by (meson fls_rel_def le_SucI)
  ultimately show ?thesis using r i by (auto simp: fls_rel_def add.commute intro: le_SucI)
qed

lemma fls_rel_free:
  "fls_rel g n s a \<Longrightarrow> fls_rel g n (s\<lparr>g_flsValuesUsed := (g_flsValuesUsed s)(i := False)\<rparr>) (a\<lparr>inUse := inUse a - {i}\<rparr>)"
  by (auto simp: fls_rel_def)

lemma fls_rel_set:
  assumes "fls_rel g n s a" "i \<in> inUse a"
  shows "fls_rel g n (setSlot t i \<lparr>fgeneration = of_nat (g i), fvalue = v\<rparr> s)
           (a\<lparr>values_of := (values_of a)(t := (values_of a t)(i := v))\<rparr>)"
  using assms by (auto simp: fls_rel_def setSlot_def)

lemma fls_step:
  assumes r: "fls_rel g n s a" and n: "Suc n < 2 ^ 32"
  shows "fst (fls_exec t c s) = fst (spec_call t c a) \<and> (\<exists>g'. fls_rel g' (Suc n) (snd (fls_exec t c s)) (snd (spec_call t c a)))"
proof (cases c)
  case Alloc
  have "inUse a = {i. i < kMaxFlsValues \<and> g_flsValuesUsed s i}" using r by (simp add: fls_rel_def)
  note f = first_unused_Min [OF this]
  show ?thesis
  proof (cases "spec_free a = {}")
    case True
    then show ?thesis using fls_rel_error [OF fls_rel_mono [OF r]] by (auto simp: Alloc FlsAlloc_def f)
  next
    case False
    have "finite (spec_free a)" by (simp add: spec_free_def)
    from Min_in [OF this False] have "Min (spec_free a) < kMaxFlsValues" by (simp add: spec_free_def)
    from fls_rel_reset(1) [OF fls_rel_alloc [OF r n this], of t "Min (spec_free a)"] False show ?thesis
      by (auto simp: Alloc FlsAlloc_def f Let_def)
  qed
next
  case (Free idx)
  note m = fls_rel_mono [OF r]
  show ?thesis
    using fls_rel_free [OF m, of "unat idx"] fls_rel_error [OF m, of t ERROR_INVALID_PARAMETER]
    by (auto simp: Free FlsFree_def fls_rel_valid [OF r])
next
  case (Get idx)
  note m = fls_rel_mono [OF r]
  note q = fls_rel_reset [OF m, where t = t and i = "unat idx"]
  show ?thesis
    using fls_rel_error [OF m, of t ERROR_INVALID_PARAMETER] fls_rel_error [OF q(1), of t ERROR_SUCCESS] q(2)
    by (auto simp: Get FlsGetValue_def fls_rel_valid [OF r] Let_def)
next
  case (Set idx v)
  note m = fls_rel_mono [OF r]
  show ?thesis
  proof (cases "unat idx \<in> inUse a")
    case True
    note q = fls_rel_reset [OF m, where t = t and i = "unat idx"]
    show ?thesis
      using True fls_rel_set [OF q(1) True, of t v] q(2) [OF True]
      by (auto simp: Set FlsSetValue_def fls_rel_valid [OF r] Let_def)
  next
    case False
    then show ?thesis using fls_rel_error [OF m, of t ERROR_INVALID_PARAMETER] by (auto simp: Set FlsSetValue_def fls_rel_valid [OF r])
  qed
qed

text \<open>
  C27: generations implement a table that is cleared for all threads. Every sequence of fewer than \<open>2\<^sup>3\<^sup>2 - 1\<close> calls of any
  threads returns what the specification returns, in which an index stands for one value per thread that is zero for
  every thread after its allocation, and leaves the same last errors.
\<close>

theorem fls_refines_table:
  assumes "length cs < 2 ^ 32 - 1"
  shows "fst (run_calls fls_exec cs fls_start) = fst (run_calls spec_call cs spec_start) \<and>
         t_lastError (snd (run_calls fls_exec cs fls_start)) = errors_of (snd (run_calls spec_call cs spec_start))"
proof -
  have "fst (run_calls fls_exec cs s) = fst (run_calls spec_call cs a) \<and>
      (\<exists>g m. fls_rel g m (snd (run_calls fls_exec cs s)) (snd (run_calls spec_call cs a)))"
    if "fls_rel g n s a" "n + length cs < 2 ^ 32 - 1" for g n s a
    using that
  proof (induction cs arbitrary: g n s a)
    case Nil
    then show ?case by auto
  next
    case (Cons tc cs)
    obtain t c where tc: "tc = (t, c)" by fastforce
    have "Suc n < 2 ^ 32" using Cons.prems(2) by simp
    from fls_step [OF Cons.prems(1) this, of t c] obtain g' where
      st: "fst (fls_exec t c s) = fst (spec_call t c a)" "fls_rel g' (Suc n) (snd (fls_exec t c s)) (snd (spec_call t c a))" by blast
    have "Suc n + length cs < 2 ^ 32 - 1" using Cons.prems(2) by simp
    from Cons.IH [OF st(2) this] st(1) show ?case by (simp add: tc Let_def case_prod_unfold)
  qed
  from this [of "\<lambda>_. 0" 0 fls_start spec_start] show ?thesis
    using assms by (auto simp: fls_rel_def fls_start_def spec_start_def)
qed

theorem fls_refines_table_witness:
  "fst (run_calls fls_exec [(1, Alloc), (2, Set 0 7), (1, Get 0), (1, Free 0), (1, Alloc), (2, Get 0)] fls_start) = [0, 1, 0, 1, 0, 0]"
proof -
  let ?cs = "[(1, Alloc), (2, Set 0 7), (1, Get 0), (1, Free 0), (1, Alloc), (2, Get 0)]"
  have free: "spec_free a \<noteq> {} \<and> Min (spec_free a) = 0" if "inUse a = {}" for a :: FlsTable
    using that by (auto simp: spec_free_def kMaxFlsValues_def intro!: Min_eqI exI [of _ 0])
  have "length ?cs < 2 ^ 32 - 1" by simp
  note same = conjunct1 [OF fls_refines_table [OF this]]
  show ?thesis unfolding same by (simp add: free spec_start_def spec_error_def Let_def)
qed

end
