(* ===== verification/Spec2Isabelle.thy ===== *)
theory Spec2Isabelle
  imports Object_Namespace Section_Wakeups Access_Masks Slim_Locks Init_Once Sync_Objects Memory_Properties
    Civil_Time Rtl_Bitmap Tls_Properties Command_Line Wildcard_Match Wide_Strings Resource_Tree Import_Properties
    Atoms Async_Properties File_Api View_Properties Registry_Keys Fls_Slots
begin

text \<open>
  A verification library for wibo, which runs 32-bit Windows command-line programs on Linux and macOS
  by giving them the Windows API on top of POSIX. The program consists of a loader for PE files
  (\<^verbatim>\<open>src/src/loader.cpp\<close>, \<^verbatim>\<open>src/src/modules.cpp\<close>), a core that keeps the guest's handles, memory, threads and
  strings (\<^verbatim>\<open>src/src\<close>), and the DLLs the guest calls (\<^verbatim>\<open>src/dll\<close>), which check their arguments,
  work on the core's tables and translate host errors. The library models the parts that carry logic of
  their own, each translated from the source branch by branch, and proves what makes them correct.

  \<^bold>\<open>Conventions.\<close> 32-bit values are \<open>32 word\<close>; sizes and addresses are natural numbers with the wrap-around
  of the 32-bit build written out wherever a sum or product can exceed it. A call is one step of its
  state, except for the lock protocols, whose threads interleave at every atomic access. Errors are
  values: \<open>Inl\<close> of a sum, \<open>None\<close>, or the last error in the state. Host functions and allocators
  are parameters, and what the code relies on is a named hypothesis (\<open>host_bounded\<close>, \<open>fresh_malloc\<close>,
  \<open>clock_inverse\<close>) that a witness instantiates with a concrete function. Loops are structural recursion or \<open>function\<close>
  with a measure; the loops whose end depends on the guest's data (relocations, import tables) are \<open>partial_function\<close>s with a
  theorem that they end. The one fuel is the depth of calls between modules (\<open>module_ops\<close>): a module may forward a
  function to itself, so no depth is always enough, and every property of the registry holds for every depth.

  \<^bold>\<open>Shared.\<close> \<open>Wibo_Prelude\<close> has the machine types, word and list lemmas, and the locale
  \<open>inductive_invariant\<close> for the states a system reaches; the object manager, the critical sections, the slim
  locks, one-time initialisation, the synchronisation objects, the virtual memory, the views and thread-local
  storage all interpret it on their own step relation. \<open>Error_Codes\<close> (\<^verbatim>\<open>errors.h\<close>, \<^verbatim>\<open>errors.cpp\<close>) and
  \<open>Access_Masks\<close> (\<^verbatim>\<open>access.h\<close>, \<^verbatim>\<open>access.cpp\<close>) are the translations every API call uses.

  \<^bold>\<open>Objects and handles\<close> (\<^verbatim>\<open>handles.h\<close>, \<^verbatim>\<open>handles.cpp\<close>, \<^verbatim>\<open>handleapi.cpp\<close>). \<open>Handle_Table\<close> has
  reference-counted objects, the table of slots with its two free lists and the quarantine, and
  allocate, get, release, duplicate; \<open>Object_Namespace\<close> adds named objects and the API. Handles and names never
  refer to a deleted object and counts are exact; a fresh handle refines the map of handles; closing, duplicating
  and the delay before a handle value is used again.

  \<^bold>\<open>Locks\<close> (\<^verbatim>\<open>synchapi.cpp\<close>). \<open>Critical_Section\<close>, \<open>Slim_Locks\<close> and \<open>Init_Once\<close>
  are protocols on shared words: mutual exclusion, agreement on the initialised
  value, refinement of an abstract lock. The critical sections have \<^verbatim>\<open>WaitOnAddress\<close> and \<^verbatim>\<open>WakeByAddressSingle\<close> in full, with the table of
  queues where waiters register and the host's sleep and notification; an entry of that table never expires in the model, because
  the last thread that holds a queue erases its entry. \<open>Section_Wakeups\<close> shows that no wake-up is lost
  while every sleeping thread is registered in the queue of the table (\<open>no_orphan\<close>), and the race of \<^verbatim>\<open>getWaitQueue\<close> with
  \<^verbatim>\<open>cleanupWaitQueue\<close> that breaks this and leaves a thread asleep for ever. The slim locks take the two calls by their contract. \<open>Sync_Objects\<close> has mutexes, events, semaphores and
  the single and multiple waits on the handle table.

  \<^bold>\<open>Memory\<close> (\<^verbatim>\<open>heap.cpp\<close>). \<open>Region_Map\<close> models the ordered maps of address ranges, \<open>Virtual_Memory\<close> the
  operations on them with a log of the host calls, \<open>Free_Space_Search\<close> the search for a gap,
  \<open>Memory_Invariant\<close> the invariant of the two tables, and \<open>Memory_Properties\<close> the theorems: the search is optimal, the
  recorded protection of a page is the one the host has (for a page recorded without protection, up to calls with protection
  zero, which the host grants and the table forgets), and reserve, commit, query and release do
  exactly what they should. \<open>File_Mappings\<close> (\<^verbatim>\<open>memoryapi.cpp\<close>) puts the handle table, the files and the virtual memory together: mapping
  objects, views, and the calls on memory. \<open>View_Invariant\<close> shows what the operations on memory leave alone and that the views the
  library places own their ranges; \<open>View_Properties\<close> that these views and allocations stay disjoint through all sequences of calls, views at
  addresses of callers included, and that unmapping undoes mapping and queries report the protection the host gave, as long as views of callers lie outside
  the range the library searches (\<open>callers_views_apart\<close>); the hypothesis \<open>mmap_exact\<close> is that a fixed \<^verbatim>\<open>mmap\<close> returns the address it was
  given. A view at an address of the caller is not recorded by the code, and a later one may be placed over it (\<open>explicit_view_overlaid\<close>).

  \<^bold>\<open>Images and modules\<close> (\<^verbatim>\<open>loader.cpp\<close>, \<^verbatim>\<open>modules.cpp\<close>). \<open>Pe_Image\<close> has the bytes of memory and of an image, the headers and the
  sources they are read from; \<open>Pe_Loader\<close> maps an image, fills its sections and relocates it, on the virtual memory above;
  \<open>Pe_Relocations\<close> and \<open>Pe_Properties\<close> show that the loop over the relocation table ends and fixes exactly the listed
  words, that a loaded image is the one its section table describes, that a refused one leaves no trace in the tables, and that files and memory load alike.
  \<open>Module_Names\<close> has the names and the search order, \<open>Module_Exports\<close> the state of the registry, stubs, exports and forwarders,
  \<open>Module_Tls\<close> the static data of threads, \<open>Module_Registry\<close> imports, entry points, aliases, loading, releasing and
  notifications. \<open>Module_Steps\<close> shows that every operation, at every depth of the recursion through other modules, is a sequence of small
  steps (the locale \<open>module_calls\<close> states what an operation may assume of the calls it makes to other modules, and is
  interpreted on the entry points themselves); \<open>Module_Protocol\<close> lifts this to all sequences of calls from the start of the program.
  \<open>Module_Properties\<close> and \<open>Import_Properties\<close>: the protocol of entry points, stubs (for names without a colon, which the keys of the code need), pinned names, reference counts, the export and
  the import tables. Limits: guest code does not call back into the registry while one of its calls runs; one thread
  calls at a time (the registry's lock); the order of the unordered map of modules is that of a list; file lookups are parameters.

  \<^bold>\<open>Threads.\<close> \<open>Tls_Slots\<close> (\<^verbatim>\<open>tls.cpp\<close> and the \<^verbatim>\<open>Tls\<close> calls), \<open>Tls_Invariant\<close> and \<open>Tls_Properties\<close>: each array of
  slots has one owner whatever allocation fails, and the slots are a table per thread. \<open>Fls_Slots\<close> (\<^verbatim>\<open>fibersapi.cpp\<close>): the generations of
  fiber-local storage refine a table that is cleared for all threads, for fewer than \<open>2\<^sup>3\<^sup>2 - 1\<close> calls, after which a generation may come back.

  \<^bold>\<open>Files and asynchronous I/O.\<close> \<open>File_Transfer\<close> (\<^verbatim>\<open>files.cpp\<close>, \<^verbatim>\<open>internal.h\<close>) has the file object and the loops over the host's
  \<^verbatim>\<open>pread\<close>, \<^verbatim>\<open>pwrite\<close>, \<^verbatim>\<open>read\<close> and \<^verbatim>\<open>write\<close>, which end on every host that serves a file in pieces with finitely many interruptions
  (\<open>serves_reads\<close>, \<open>serves_writes\<close>). \<open>File_Api\<close> (\<^verbatim>\<open>fileapi.cpp\<close>, \<^verbatim>\<open>overlapped_util.h\<close>, \<^verbatim>\<open>ioapiset.cpp\<close>) has the calls on file handles: what
  is written is read back, and the two reports of an overlapped transfer agree. \<open>Async_Io\<close> (\<^verbatim>\<open>async_io_epoll.cpp\<close>) has the backend's
  routines and the interleaving of its threads as step relations; \<open>Async_Invariant\<close> and \<open>Async_Properties\<close> show that requests are answered once and in
  order, that the counter is exact until shutdown has finished and that the worker is never left asleep, and where shutdown loses a request.

  \<^bold>\<open>Data.\<close> \<open>Civil_Time\<close> (\<^verbatim>\<open>timeutil.h\<close>, \<^verbatim>\<open>timezoneapi.cpp\<close>) has the calendar, with the
  arithmetic of the C types, and its round trips within their range;
  \<open>Rtl_Bitmap\<close> (\<^verbatim>\<open>ntdll.cpp\<close>) bit maps as sets; \<open>Command_Line\<close> (\<^verbatim>\<open>processes_common.cpp\<close>, \<^verbatim>\<open>main.cpp\<close>)
  building and splitting a command line; \<open>Wildcard_Match\<close> (\<^verbatim>\<open>fileapi.cpp\<close>) file name patterns against their
  meaning; \<open>Wide_Strings\<close> (\<^verbatim>\<open>strutil.cpp\<close>) 16-bit strings in buffers; \<open>Resource_Tree\<close>
  (\<^verbatim>\<open>resources.cpp\<close>) the lookup of a resource and the choice of its language; \<open>Atoms\<close> (\<^verbatim>\<open>winbase.cpp\<close>) the table of atoms, which
  identify names up to case for ever and keep the first spelling; \<open>Registry_Keys\<close> (\<^verbatim>\<open>winreg.cpp\<close>) the set of registry keys, whose paths are kept in a normal form so that
  every spelling finds the key; the case conversion is a parameter with the hypothesis \<open>lower_ok\<close>.

  \<^bold>\<open>Not modelled.\<close> The other asynchronous back ends (\<^verbatim>\<open>async_io_kqueue.cpp\<close> repeats the epoll one for macOS, \<^verbatim>\<open>async_io_uring.cpp\<close>
  hands requests to the kernel), processes and thread set-up (\<^verbatim>\<open>processes_linux.cpp\<close>, \<^verbatim>\<open>processes_darwin.cpp\<close>, \<^verbatim>\<open>setup_*.cpp\<close>, the assembly
  files) are calls of the host's kernel; opening and finding files, pipes and the console are I/O; the guest heap
  calls mimalloc; the hashes are third-party code; many of the remaining DLLs are stubs or forwards to the host's library.
\<close>

end
